(* ===== verification/Prelude.thy ===== *)
theory Prelude
  imports Main "HOL-Library.Word"
begin

text \<open>
  Shared vocabulary of the development: machine integers, kernel failures, the bind of
  fallible steps, and the scanning loop over a fixed-size table.

  The C code fails in three ways that the model keeps apart: an ordinary error return is a
  value of the function's result; \<open>panic(msg)\<close> is \<^term>\<open>Inl (Panic msg)\<close> of the sum
  below and stops the kernel; a call that goes to \<open>sleep\<close> on a channel that nobody in the
  modelled run wakes is \<^term>\<open>Inl Blocked\<close>.
\<close>

unbundle bit_operations_syntax

type_synonym u8 = "8 word"
type_synonym u16 = "16 word"
type_synonym u32 = "32 word"

datatype kerr = Panic string | Blocked

named_theorems kernel_simps \<open>equations that evaluate the steps of the kernel model\<close>

subsection \<open>Sequencing fallible steps\<close>

definition bindE :: "'e + 'a \<Rightarrow> ('a \<Rightarrow> 'e + 'b) \<Rightarrow> 'e + 'b" where
  "bindE m f = (case m of Inl e \<Rightarrow> Inl e | Inr x \<Rightarrow> f x)"

lemma bindE_simps [simp]:
  "bindE (Inl e) f = Inl e"
  "bindE (Inr x) f = f x"
  by (simp_all add: bindE_def)

lemma bindE_eq_Inr_iff: "bindE m f = Inr y \<longleftrightarrow> (\<exists>x. m = Inr x \<and> f x = Inr y)"
  by (cases m) simp_all

lemma bindE_eq_Inl_iff: "bindE m f = Inl e \<longleftrightarrow> m = Inl e \<or> (\<exists>x. m = Inr x \<and> f x = Inl e)"
  by (cases m) simp_all

lemma bindE_cong [fundef_cong]:
  "m = m' \<Longrightarrow> (\<And>x. m' = Inr x \<Longrightarrow> f x = g x) \<Longrightarrow> bindE m f = bindE m' g"
  by (cases m') simp_all

subsection \<open>The table scan\<close>

text \<open>
  \<open>for(p = tab; p < &tab[N]; p++) if(P(p)) goto found;\<close> returns the first entry that
  satisfies the test. The process table, the file table, the inode cache, a process's
  descriptor array and the slots of the statistics segment are all searched this way.
\<close>

fun first_idx :: "('a \<Rightarrow> bool) \<Rightarrow> 'a list \<Rightarrow> nat option" where
  "first_idx P [] = None"
| "first_idx P (x # xs) = (if P x then Some 0 else map_option Suc (first_idx P xs))"

lemma first_idx_Some_iff:
  "first_idx P xs = Some i \<longleftrightarrow> i < length xs \<and> P (xs ! i) \<and> (\<forall>j < i. \<not> P (xs ! j))"
proof (induction xs arbitrary: i)
  case Nil
  then show ?case by simp
next
  case (Cons x xs)
  show ?case
  proof (cases i)
    case 0
    then show ?thesis by auto
  next
    case (Suc k)
    have "(\<forall>j < Suc k. \<not> P ((x # xs) ! j)) \<longleftrightarrow> \<not> P x \<and> (\<forall>j < k. \<not> P (xs ! j))"
      by (auto simp: nth_Cons less_Suc_eq_0_disj split: nat.splits)
    with Cons.IH [of k] Suc show ?thesis by auto
  qed
qed

lemma first_idx_None_iff: "first_idx P xs = None \<longleftrightarrow> (\<forall>x \<in> set xs. \<not> P x)"
  by (induction xs) auto

lemma first_idx_SomeD:
  assumes "first_idx P xs = Some i"
  shows "i < length xs" and "P (xs ! i)" and "\<And>j. j < i \<Longrightarrow> \<not> P (xs ! j)"
  using assms by (auto simp: first_idx_Some_iff)

lemma first_idx_exists: "x \<in> set xs \<Longrightarrow> P x \<Longrightarrow> \<exists>i. first_idx P xs = Some i"
  by (metis first_idx_None_iff not_None_eq)

subsection \<open>Lists updated by index\<close>

lemma set_update_subsetI2: "set xs \<subseteq> A \<Longrightarrow> x \<in> A \<Longrightarrow> set (xs[i := x]) \<subseteq> A"
  by (meson set_update_subsetI)

lemma count_filter_update:
  assumes "i < length xs"
  shows "length (filter P (xs[i := y])) + (if P (xs ! i) then 1 else 0)
       = length (filter P xs) + (if P y then 1 else 0)"
  using assms
proof (induction xs arbitrary: i)
  case Nil
  then show ?case by simp
next
  case (Cons x xs)
  then show ?case by (cases i) auto
qed

lemma map_update_same: "f y = f (xs ! i) \<Longrightarrow> map f (xs[i := y]) = map f xs"
  by (cases "i < length xs") (metis list_update_id map_update, simp add: list_update_beyond)

subsection \<open>Rounding by masks\<close>

lemma and_plus_and_not: "(x AND m) + (x AND NOT m) = (x :: 'a::len word)"
proof -
  have "(x AND m) AND (x AND NOT m) = 0"
    by (rule bit_word_eqI) (auto simp: bit_simps)
  then have "(x AND m) + (x AND NOT m) = (x AND m) OR (x AND NOT m)"
    by (rule disjunctive_add_eq_or)
  also have "\<dots> = x" by (rule bit_word_eqI) (auto simp: bit_simps)
  finally show ?thesis .
qed

lemma and_4095: "(x::u32) AND 4095 = x mod 4096"
proof -
  have "(4095::u32) = mask 12" by (simp add: mask_eq_exp_minus_1)
  then have "x AND 4095 = take_bit 12 x" by (simp only: take_bit_eq_mask)
  then show ?thesis by (simp add: take_bit_eq_mod)
qed

lemma and_not_4095: "(x::u32) AND NOT 4095 = x - x mod 4096"
  using and_plus_and_not [of x 4095] by (metis add_diff_cancel_left' and_4095)

lemma and_not_3: "(x::u32) AND NOT 3 = x - x mod 4"
proof -
  have "(3::u32) = mask 2" by (simp add: mask_eq_exp_minus_1)
  then have "x AND 3 = take_bit 2 x" by (simp only: take_bit_eq_mask)
  then have "x AND 3 = x mod 4" by (simp add: take_bit_eq_mod)
  then show ?thesis using and_plus_and_not [of x 3] by (metis add_diff_cancel_left')
qed

subsection \<open>32-bit counters\<close>

lemma unat_add_mod:
  assumes "n dvd 4294967296"
  shows "unat (a + b :: u32) mod n = (unat a + unat b) mod n"
proof -
  have "unat (a + b) = (unat a + unat b) mod 4294967296" by (simp add: unat_word_ariths)
  with assms show ?thesis by (simp add: mod_mod_cancel)
qed

lemma unat_inc_mod: "n dvd 4294967296 \<Longrightarrow> unat (a + 1 :: u32) mod n = Suc (unat a) mod n"
  by (simp add: unat_add_mod)

lemma unat_add_small: "unat a + unat b < 4294967296 \<Longrightarrow> unat (a + b :: u32) = unat a + unat b"
  by (simp add: unat_word_ariths)

lemma unat_sub_small: "b \<le> a \<Longrightarrow> unat (a - b :: u32) = unat a - unat b"
  by (simp add: unat_sub)

lemma unat_u32_less: "unat (w :: u32) < 4294967296"
  using unsigned_less [of w, where 'a = nat] by simp

lemma unat_of_nat_small: "n < 2 ^ 32 \<Longrightarrow> unat (of_nat n :: u32) = n"
  by (simp add: unat_of_nat take_bit_nat_eq_self)

lemma sint_small: "unat (m :: u32) < 2 ^ 31 \<Longrightarrow> sint m = int (unat m)"
proof -
  assume a: "unat m < 2 ^ 31"
  have "int (unat m) < int (2 ^ 31)" using a by (simp only: of_nat_less_iff)
  moreover have "- (2 ^ 31) \<le> uint m" by (rule order_trans [OF _ uint_ge_0]) simp
  ultimately have "signed_take_bit 31 (uint m) = uint m" by (intro signed_take_bit_int_eq_self) simp_all
  then show ?thesis by (simp add: sint_uint)
qed

lemma sint_of_nat_u32: "n < 2147483648 \<Longrightarrow> sint (of_nat n :: u32) = int n"
  by (simp add: signed_of_nat signed_take_bit_int_eq_self)

lemma unat_Suc_below: "s < (e :: u32) \<Longrightarrow> unat (s + 1) = Suc (unat s)"
  using unat_u32_less [of e] by (simp add: word_less_nat_alt unat_word_ariths)

lemma less_Suc_below: "s < (e :: u32) \<Longrightarrow> s < s + 1"
  using unat_Suc_below by (simp add: word_less_nat_alt)

subsection \<open>Words in memory\<close>

text \<open>Little-endian words, as the processor stores them.\<close>

definition le16 :: "u16 \<Rightarrow> u8 list" where
  "le16 w = [ucast w, ucast (drop_bit 8 w)]"

definition le32 :: "u32 \<Rightarrow> u8 list" where
  "le32 w = [ucast w, ucast (drop_bit 8 w), ucast (drop_bit 16 w), ucast (drop_bit 24 w)]"

definition word16 :: "u8 list \<Rightarrow> u16" where
  "word16 bs = ucast (bs ! 0) OR push_bit 8 (ucast (bs ! 1))"

definition word32 :: "u8 list \<Rightarrow> u32" where
  "word32 bs = ucast (bs ! 0) OR push_bit 8 (ucast (bs ! 1)) OR push_bit 16 (ucast (bs ! 2))
     OR push_bit 24 (ucast (bs ! 3))"

lemma length_le [simp]: "length (le16 v) = 2" "length (le32 w) = 4"
  by (simp_all add: le16_def le32_def)

lemma word16_le16 [simp]: "word16 (le16 w @ xs) = w" "word16 (le16 w) = w"
  by (rule bit_word_eqI; auto simp: word16_def le16_def bit_simps)+

lemma length_concat_le32 [simp]: "length (concat (map le32 ws)) = 4 * length ws"
  by (induction ws) simp_all

lemma word32_append [simp]: "word32 (le32 w @ xs) = w"
proof (rule bit_word_eqI)
  fix n
  assume "n < LENGTH(32)"
  then consider "n < 8" | "8 \<le> n" "n < 16" | "16 \<le> n" "n < 24" | "24 \<le> n" "n < 32" by fastforce
  then show "bit (word32 (le32 w @ xs)) n = bit w n"
    by cases (auto simp: word32_def le32_def bit_simps)
qed

lemma word32_le32 [simp]: "word32 (le32 w) = w"
  using word32_append [of w "[]"] by simp

subsection \<open>Counters of type int\<close>

text \<open>\<open>n++\<close> on a 32-bit \<open>int\<close>, with the wrap-around of the processor where C leaves the overflow undefined.\<close>

definition INT_MAX :: int where "INT_MAX = 2147483647"

definition int_succ :: "int \<Rightarrow> int" where
  "int_succ n = (if n = INT_MAX then - INT_MAX - 1 else n + 1)"

lemma int_succ_less [simp]: "n < INT_MAX \<Longrightarrow> int_succ n = n + 1"
  by (simp add: int_succ_def)

end
