(* ===== verification/Kalloc.thy ===== *)
theory Kalloc
  imports Prelude
begin

text \<open>
  The physical page allocator, \<open>kernel/kalloc.c\<close>. Free pages are chained through their own
  first word, so the model keeps physical memory as a map from word addresses to words and the
  free list as the address of its first page, exactly as the C code does; the list of free
  pages is an abstraction (\<open>kmem_rep\<close>), and the operations are shown to work on it as a stack.
  The linker symbol \<open>end\<close> is the parameter \<open>kend\<close>.
\<close>

definition PGSIZE :: u32 where "PGSIZE = 4096"
definition PHYSTOP :: u32 where "PHYSTOP = 0x1000000"
definition USERTOP :: u32 where "USERTOP = 0xA0000"

definition PGROUNDUP :: "u32 \<Rightarrow> u32" where
  "PGROUNDUP sz = (sz + PGSIZE - 1) AND NOT (PGSIZE - 1)"

definition PGROUNDDOWN :: "u32 \<Rightarrow> u32" where
  "PGROUNDDOWN a = a AND NOT (PGSIZE - 1)"

record kmem =
  mem :: "u32 \<Rightarrow> u32"
  freelist :: u32

text \<open>\<open>memset(v, 1, PGSIZE)\<close>: every word of the page becomes four bytes 1.\<close>

definition fill_page :: "u32 \<Rightarrow> u32 \<Rightarrow> (u32 \<Rightarrow> u32) \<Rightarrow> (u32 \<Rightarrow> u32)" where
  "fill_page v w m = (\<lambda>a. if a - v < PGSIZE then w else m a)"

definition kfree :: "u32 \<Rightarrow> u32 \<Rightarrow> kmem \<Rightarrow> kerr + kmem" where
  "kfree kend v s =
     (if v mod PGSIZE \<noteq> 0 \<or> v < kend \<or> PHYSTOP \<le> v then Inl (Panic ''kfree'')
      else Inr (s\<lparr>mem := (fill_page v 0x01010101 (mem s))(v := freelist s), freelist := v\<rparr>))"

definition kalloc :: "kmem \<Rightarrow> u32 \<times> kmem" where
  "kalloc s =
     (let r = freelist s in
      (r, if r \<noteq> 0 then s\<lparr>freelist := mem s r\<rparr> else s))"

lemma kfree_below_PHYSTOP: "kfree kend v s = Inr s' \<Longrightarrow> v < PHYSTOP"
  by (auto simp: kfree_def split: if_splits)

text \<open>The loop of \<open>kinit\<close>; it stops because \<open>kfree\<close> panics beyond \<open>PHYSTOP\<close>.\<close>

function kinit_loop :: "u32 \<Rightarrow> u32 \<Rightarrow> kmem \<Rightarrow> kerr + kmem" where
  "kinit_loop kend p s =
     (if p + PGSIZE \<le> PHYSTOP
      then bindE (kfree kend p s) (\<lambda>s'. kinit_loop kend (p + PGSIZE) s')
      else Inr s)"
  by pat_completeness auto
termination
proof (relation "measure (\<lambda>(kend, p, s). unat PHYSTOP - unat p)")
  show "wf (measure (\<lambda>(kend, p, s). unat PHYSTOP - unat p))" by simp
next
  fix kend p :: u32 and s s' :: kmem
  assume "p + PGSIZE \<le> PHYSTOP" and "kfree kend p s = Inr s'"
  then have "p < PHYSTOP" by (simp add: kfree_below_PHYSTOP)
  then have "unat (p + PGSIZE) = unat p + 4096" and "unat p < unat PHYSTOP"
    by (auto simp: PHYSTOP_def PGSIZE_def unat_word_ariths word_less_nat_alt)
  then show "((kend, p + PGSIZE, s'), kend, p, s) \<in> measure (\<lambda>(kend, p, s). unat PHYSTOP - unat p)"
    by auto
qed

declare kinit_loop.simps [simp del]

definition kinit :: "u32 \<Rightarrow> kmem \<Rightarrow> kerr + kmem" where
  "kinit kend s = kinit_loop kend (PGROUNDUP kend) s"

subsection \<open>The free list as a list of pages\<close>

primrec flist :: "(u32 \<Rightarrow> u32) \<Rightarrow> u32 \<Rightarrow> u32 list \<Rightarrow> bool" where
  "flist m h [] = (h = 0)"
| "flist m h (p # ps) = (h = p \<and> p \<noteq> 0 \<and> flist m (m p) ps)"

definition page_ok :: "u32 \<Rightarrow> u32 \<Rightarrow> bool" where
  "page_ok kend p = (p mod PGSIZE = 0 \<and> kend \<le> p \<and> p < PHYSTOP)"

definition kmem_rep :: "u32 \<Rightarrow> kmem \<Rightarrow> u32 list \<Rightarrow> bool" where
  "kmem_rep kend s ps =
     (0 < kend \<and> flist (mem s) (freelist s) ps \<and> distinct ps \<and> (\<forall>p \<in> set ps. page_ok kend p))"

lemma flist_cong: "(\<And>p. p \<in> set ps \<Longrightarrow> m p = m' p) \<Longrightarrow> flist m h ps = flist m' h ps"
  by (induction ps arbitrary: h) auto

lemma flist_unique: "flist m h ps \<Longrightarrow> flist m h qs \<Longrightarrow> ps = qs"
proof (induction ps arbitrary: h qs)
  case Nil
  then show ?case by (cases qs) auto
next
  case (Cons p ps)
  then show ?case by (cases qs) auto
qed

text \<open>Two page-aligned addresses below \<open>PHYSTOP\<close> whose pages overlap are equal.\<close>

lemma mod_PGSIZE_iff: "p mod PGSIZE = 0 \<longleftrightarrow> uint p mod 4096 = 0"
proof -
  have "uint (p mod PGSIZE) = uint p mod 4096"
    by (simp add: PGSIZE_def uint_mod)
  then show ?thesis by (metis uint_0_iff)
qed

lemma page_offset_unique:
  assumes "p mod PGSIZE = 0" and "q mod PGSIZE = 0" and "p - q < PGSIZE"
  shows "p = q"
proof -
  have "uint (p - q) < 4096" using assms(3) by (simp add: PGSIZE_def word_less_def)
  then have "uint (p - q) = uint (p - q) mod 4096" by simp
  also have "\<dots> = (uint p - uint q) mod 4294967296 mod 4096" by (simp add: uint_word_ariths)
  also have "\<dots> = (uint p - uint q) mod 4096" by (rule mod_mod_cancel) simp
  also have "\<dots> = (uint p mod 4096 - uint q mod 4096) mod 4096" by (simp add: mod_diff_eq)
  also have "\<dots> = 0" using assms(1,2) by (simp add: mod_PGSIZE_iff)
  finally have "p - q = 0" by (simp add: uint_0_iff)
  then show ?thesis by simp
qed

subsection \<open>The operations as a stack of pages\<close>

lemma fill_page_other:
  assumes "page_ok kend p" "page_ok kend v" "p \<noteq> v"
  shows "fill_page v w m p = m p"
  using assms page_offset_unique [of p v] by (auto simp: fill_page_def page_ok_def)

lemma kfree_rep:
  assumes rep: "kmem_rep kend s ps" and v: "page_ok kend v" and new: "v \<notin> set ps"
  shows "\<exists>s'. kfree kend v s = Inr s' \<and> kmem_rep kend s' (v # ps)"
proof -
  let ?m = "(fill_page v 0x01010101 (mem s))(v := freelist s)"
  from rep have pages: "\<forall>p \<in> set ps. page_ok kend p" by (simp add: kmem_rep_def)
  have "flist ?m (freelist s) ps = flist (mem s) (freelist s) ps"
    by (rule flist_cong) (use pages v new fill_page_other in auto)
  moreover have "v \<noteq> 0"
    using rep v by (auto simp: kmem_rep_def page_ok_def word_gt_0)
  ultimately show ?thesis using assms
    by (auto simp: kfree_def kmem_rep_def page_ok_def)
qed

lemma kfree_panics:
  "kfree kend v s = Inl (Panic ''kfree'') \<longleftrightarrow> \<not> page_ok kend v"
  by (auto simp: kfree_def page_ok_def)

lemma kalloc_rep_Nil: "kmem_rep kend s [] \<Longrightarrow> kalloc s = (0, s)"
  by (simp add: kmem_rep_def kalloc_def)

lemma kalloc_rep_Cons:
  "kmem_rep kend s (p # ps) \<Longrightarrow> \<exists>s'. kalloc s = (p, s') \<and> kmem_rep kend s' ps \<and> mem s' = mem s"
  by (auto simp: kmem_rep_def kalloc_def)

lemma kalloc_cases:
  assumes "kmem_rep kend s ps" and "kalloc s = (r, s')"
  shows "(ps = [] \<and> r = 0 \<and> s' = s)
       \<or> (\<exists>qs. ps = r # qs \<and> r \<noteq> 0 \<and> page_ok kend r \<and> kmem_rep kend s' qs \<and> mem s' = mem s)"
  using assms by (cases ps) (auto simp: kmem_rep_def kalloc_def)

text \<open>Memory that belongs to no free page can be written without harm to the allocator.\<close>

lemma kmem_rep_write:
  assumes "kmem_rep kend s ps" and "a \<notin> set ps"
  shows "kmem_rep kend (s\<lparr>mem := (mem s)(a := w)\<rparr>) ps"
proof -
  have "flist ((mem s)(a := w)) (freelist s) ps = flist (mem s) (freelist s) ps"
    by (rule flist_cong) (use assms in auto)
  then show ?thesis using assms by (simp add: kmem_rep_def)
qed

lemma kmem_rep_fill:
  assumes "kmem_rep kend s ps" and "page_ok kend v" and "v \<notin> set ps"
  shows "kmem_rep kend (s\<lparr>mem := fill_page v w (mem s)\<rparr>) ps"
proof -
  have "flist (fill_page v w (mem s)) (freelist s) ps = flist (mem s) (freelist s) ps"
    by (rule flist_cong) (use assms in \<open>metis fill_page_other kmem_rep_def\<close>)
  then show ?thesis using assms by (simp add: kmem_rep_def)
qed

subsection \<open>Initialisation\<close>

lemma uint_PGROUNDUP:
  assumes "uint sz + 4095 < 2 ^ 32"
  shows "uint (PGROUNDUP sz) = (uint sz + 4095) div 4096 * 4096"
proof -
  let ?y = "sz + 4095"
  have y: "uint ?y = uint sz + 4095" using assms by (simp add: uint_word_ariths)
  have "PGROUNDUP sz = ?y AND NOT 4095" by (simp add: PGROUNDUP_def PGSIZE_def add.commute)
  also have "\<dots> = ?y - ?y mod 4096" by (rule and_not_4095)
  finally have "PGROUNDUP sz = ?y - ?y mod 4096" .
  moreover have "uint (?y mod 4096) = uint ?y mod 4096" by (simp add: uint_mod)
  moreover have "uint (?y - ?y mod 4096) = uint ?y - uint (?y mod 4096)"
    by (rule uint_sub_lem [THEN iffD1]) (simp add: uint_mod zmod_le_nonneg_dividend)
  ultimately show ?thesis using y by (simp add: minus_mod_eq_div_mult)
qed

lemma aligned_less:
  assumes "(a::int) mod 4096 = 0" and "b mod 4096 = 0" and "a < b + 4096"
  shows "a \<le> b"
proof -
  obtain i j where "a = 4096 * i" "b = 4096 * j" using assms(1,2) by (auto elim!: dvdE simp: mod_eq_0_iff_dvd)
  with assms(3) show ?thesis by simp
qed

lemma round_up_bounds:
  shows "(k::int) \<le> (k + 4095) div 4096 * 4096" and "(k + 4095) div 4096 * 4096 < k + 4096"
proof -
  have "(k + 4095) div 4096 * 4096 = k + 4095 - (k + 4095) mod 4096"
    by (simp add: minus_mod_eq_div_mult)
  moreover have "0 \<le> (k + 4095) mod 4096" "(k + 4095) mod 4096 < 4096" by simp_all
  ultimately show "k \<le> (k + 4095) div 4096 * 4096" and "(k + 4095) div 4096 * 4096 < k + 4096"
    by linarith+
qed

lemma page_ok_uint:
  "page_ok kend p \<longleftrightarrow> uint p mod 4096 = 0 \<and> uint kend \<le> uint p \<and> uint p < 16777216"
  by (simp add: page_ok_def mod_PGSIZE_iff PHYSTOP_def word_le_def word_less_def)

lemma PGROUNDUP_least:
  assumes "kend \<le> PHYSTOP"
  shows "uint (PGROUNDUP kend) mod 4096 = 0" and "uint kend \<le> uint (PGROUNDUP kend)"
    and "uint (PGROUNDUP kend) \<le> 16777216"
    and "page_ok kend q \<Longrightarrow> uint (PGROUNDUP kend) \<le> uint q"
proof -
  have le: "uint kend \<le> 16777216" using assms by (simp add: PHYSTOP_def word_le_def)
  then have eq: "uint (PGROUNDUP kend) = (uint kend + 4095) div 4096 * 4096"
    by (intro uint_PGROUNDUP) simp
  show "uint (PGROUNDUP kend) mod 4096 = 0" by (simp add: eq)
  show "uint kend \<le> uint (PGROUNDUP kend)" unfolding eq by (rule round_up_bounds)
  show "uint (PGROUNDUP kend) \<le> 16777216" 
  proof -
    have "(uint kend + 4095) div 4096 \<le> (16777216 + 4095) div 4096"
      using le by (intro zdiv_mono1) simp_all
    then show ?thesis unfolding eq by simp
  qed
  show "page_ok kend q \<Longrightarrow> uint (PGROUNDUP kend) \<le> uint q"
    unfolding eq page_ok_uint using round_up_bounds(2) [of "uint kend"]
    by (intro aligned_less) auto
qed

lemma kinit_loop_rep:
  assumes "kmem_rep kend s ps" and "set ps = {q. page_ok kend q \<and> q < p}"
    and "uint p mod 4096 = 0" and "kend \<le> p" and "uint p \<le> 16777216"
  shows "\<exists>s' ps'. kinit_loop kend p s = Inr s' \<and> kmem_rep kend s' ps' \<and> set ps' = {q. page_ok kend q}"
  using assms
proof (induction kend p s arbitrary: ps rule: kinit_loop.induct)
  case (1 kend p s)
  have up: "uint (p + PGSIZE) = uint p + 4096"
    using "1.prems"(5) by (simp add: PGSIZE_def uint_word_ariths)
  show ?case
  proof (cases "p + PGSIZE \<le> PHYSTOP")
    case True
    then have "uint p + 4096 \<le> 16777216" by (simp add: word_le_def PHYSTOP_def up)
    then have p: "page_ok kend p" using "1.prems"(3,4) by (simp add: page_ok_uint word_le_def)
    have "p \<notin> set ps" using "1.prems"(2) by simp
    then obtain s' where s': "kfree kend p s = Inr s'" "kmem_rep kend s' (p # ps)"
      using kfree_rep [OF "1.prems"(1) p] by blast
    have "q < p + PGSIZE \<longleftrightarrow> q < p \<or> q = p" if "page_ok kend q" for q
    proof -
      have "uint q < uint p + 4096 \<longleftrightarrow> uint q < uint p \<or> uint q = uint p"
        using that p aligned_less [of "uint q" "uint p"] by (auto simp: page_ok_uint)
      then show ?thesis by (simp add: word_less_def up word_uint_eq_iff)
    qed
    then have "set (p # ps) = {q. page_ok kend q \<and> q < p + PGSIZE}"
      using "1.prems"(2) p by auto
    moreover have "uint (p + PGSIZE) mod 4096 = 0" using "1.prems"(3) up by simp
    moreover have "kend \<le> p + PGSIZE" using "1.prems"(4) up by (simp add: word_le_def)
    moreover have "uint (p + PGSIZE) \<le> 16777216" using \<open>uint p + 4096 \<le> 16777216\<close> up by simp
    ultimately show ?thesis
      using "1.IH" [OF True s'(1) s'(2)] True s'(1) by (simp add: kinit_loop.simps [of kend p s])
  next
    case False
    then have "16777216 < uint p + 4096" by (simp add: word_le_def PHYSTOP_def up)
    then have "uint p = 16777216"
      using "1.prems"(3,5) aligned_less [of 16777216 "uint p"] by simp
    then have "set ps = {q. page_ok kend q}"
      using "1.prems"(2) by (auto simp: page_ok_uint word_less_def)
    with False "1.prems"(1) show ?thesis by (auto simp: kinit_loop.simps [of kend p s])
  qed
qed

text \<open>
  After \<open>kinit\<close> the allocator owns exactly the page frames between the kernel's end and
  \<open>PHYSTOP\<close>, each once.
\<close>

lemma kinit_rep:
  assumes "0 < kend" and "kend \<le> PHYSTOP" and "freelist s = 0"
  shows "\<exists>s' ps. kinit kend s = Inr s' \<and> kmem_rep kend s' ps \<and> set ps = {q. page_ok kend q}"
  unfolding kinit_def
proof (rule kinit_loop_rep [where ps = "[]"])
  note r = PGROUNDUP_least [OF assms(2)]
  show "kmem_rep kend s []" using assms by (simp add: kmem_rep_def)
  show "uint (PGROUNDUP kend) mod 4096 = 0" by (rule r)
  show "kend \<le> PGROUNDUP kend" using r(2) by (simp add: word_le_def)
  show "uint (PGROUNDUP kend) \<le> 16777216" by (rule r)
  show "set [] = {q. page_ok kend q \<and> q < PGROUNDUP kend}"
    using r(4) by (fastforce simp: word_less_def)
qed

subsection \<open>Properties\<close>

text \<open>
  A history of the allocator: \<open>out\<close> are the pages that clients hold; a client may write anywhere
  in a page it holds and give it back.
\<close>

inductive kmem_hist :: "u32 \<Rightarrow> kmem \<Rightarrow> u32 set \<Rightarrow> bool" for kend :: u32 where
  kh_init: "0 < kend \<Longrightarrow> kend \<le> PHYSTOP \<Longrightarrow> freelist s0 = 0 \<Longrightarrow> kinit kend s0 = Inr s \<Longrightarrow> kmem_hist kend s {}"
| kh_alloc: "kmem_hist kend s out \<Longrightarrow> kalloc s = (r, s') \<Longrightarrow> kmem_hist kend s' (if r = 0 then out else insert r out)"
| kh_free: "kmem_hist kend s out \<Longrightarrow> v \<in> out \<Longrightarrow> kfree kend v s = Inr s' \<Longrightarrow> kmem_hist kend s' (out - {v})"
| kh_write: "kmem_hist kend s out \<Longrightarrow> v \<in> out \<Longrightarrow> a - v < PGSIZE \<Longrightarrow> kmem_hist kend (s\<lparr>mem := (mem s)(a := w)\<rparr>) out"

lemma kmem_hist_split:
  "kmem_hist kend s out \<Longrightarrow> \<exists>ps. kmem_rep kend s ps \<and> set ps \<inter> out = {} \<and> set ps \<union> out = {q. page_ok kend q}"
proof (induction rule: kmem_hist.induct)
  case (kh_init s0 s)
  then show ?case using kinit_rep [of kend s0] by auto
next
  case (kh_alloc s out r s')
  then obtain ps where ps: "kmem_rep kend s ps" "set ps \<inter> out = {}" "set ps \<union> out = {q. page_ok kend q}" by blast
  from kalloc_cases [OF ps(1) kh_alloc(2)] show ?case
  proof (elim disjE exE conjE)
    assume "ps = []" "r = 0" "s' = s"
    then show ?thesis using ps by auto
  next
    fix qs assume q: "ps = r # qs" "r \<noteq> 0" "kmem_rep kend s' qs"
    then have "r \<notin> set qs" using ps(1) by (simp add: kmem_rep_def)
    then show ?thesis using q ps by (intro exI [of _ qs]) auto
  qed
next
  case (kh_free s out v s')
  then obtain ps where ps: "kmem_rep kend s ps" "set ps \<inter> out = {}" "set ps \<union> out = {q. page_ok kend q}" by blast
  then have "page_ok kend v" "v \<notin> set ps" using kh_free(2) by auto
  from kfree_rep [OF ps(1) this] show ?case using ps kh_free(2,3) by (intro exI [of _ "v # ps"]) auto
next
  case (kh_write s out v a w)
  then obtain ps where ps: "kmem_rep kend s ps" "set ps \<inter> out = {}" "set ps \<union> out = {q. page_ok kend q}" by blast
  have "a \<notin> set ps"
  proof
    assume "a \<in> set ps"
    then have "page_ok kend a" "page_ok kend v" "a \<noteq> v" using ps kh_write(2) by auto
    then show False using page_offset_unique [OF _ _ kh_write(3)] by (simp add: page_ok_def)
  qed
  then show ?case using kmem_rep_write [OF ps(1)] ps by blast
qed

text \<open>C16: From \<open>kinit\<close> on, through any sequence of allocations, frees and writes into allocated pages,
  \<open>kalloc\<close> returns a page-aligned frame between the kernel's end and \<open>PHYSTOP\<close> that no client holds,
  and it returns 0 exactly when the clients hold every such frame.\<close>

theorem kalloc_never_shares:
  assumes "kmem_hist kend s out" and "kalloc s = (r, s')"
  shows "(if r = 0 then out = {q. page_ok kend q} else page_ok kend r \<and> r \<notin> out)"
proof -
  obtain ps where ps: "kmem_rep kend s ps" "set ps \<inter> out = {}" "set ps \<union> out = {q. page_ok kend q}"
    using kmem_hist_split [OF assms(1)] by blast
  note c = kalloc_cases [OF ps(1) assms(2)]
  show ?thesis using c ps(2,3) by auto
qed

theorem kalloc_never_shares_witness:
  "\<exists>s s'. kmem_hist 0xFFF001 s {} \<and> kalloc s = (0, s')"
proof -
  have "\<exists>s. kinit 0xFFF001 \<lparr>mem = (\<lambda>_. 0), freelist = 0\<rparr> = Inr s"
    using kinit_rep [of "0xFFF001" "\<lparr>mem = (\<lambda>_. 0), freelist = 0\<rparr>"] by (auto simp: PHYSTOP_def)
  then obtain s where "kinit 0xFFF001 \<lparr>mem = (\<lambda>_. 0), freelist = 0\<rparr> = Inr s" ..
  then have h: "kmem_hist 0xFFF001 s {}" by (intro kh_init) (simp_all add: PHYSTOP_def)
  obtain r s' where k: "kalloc s = (r, s')" by (cases "kalloc s")
  have "\<not> page_ok 0xFFF001 q" for q
  proof
    assume "page_ok 0xFFF001 q"
    then have "uint q mod 4096 = 0" "16773121 \<le> uint q" "uint q < 16777216" by (simp_all add: page_ok_uint)
    moreover have "uint q = 4096 * (uint q div 4096)" using calculation(1) by auto
    moreover have "uint q div 4096 \<le> 4095 \<or> 4096 \<le> uint q div 4096" by linarith
    ultimately show False by linarith
  qed
  then have "r = 0" using kalloc_never_shares [OF h k] by (auto split: if_splits)
  then show ?thesis using h k by blast
qed

end
