(* ===== verification/Fifo.thy ===== *)
theory Fifo
  imports Prelude
begin

text \<open>
  The bounded first-in first-out buffer as an interface. The repository implements it three
  times over a circular array: the bytes of a pipe (\<open>kernel/pipe.c\<close>), the connection
  descriptors of the web server (\<open>p4/linux/server.c\<close>) and the lowest-priority run queue of
  the scheduler (\<open>p2 kernel/proc.c\<close>). Each of them interprets the locale below; what a client
  may rely on is proved once, inside it. The theory also holds the arithmetic of a circular
  array that the three interpretations share.
\<close>

subsection \<open>Circular arrays\<close>

text \<open>\<open>ring n data r d\<close>: the \<open>d\<close> elements that start at index \<open>r\<close> modulo \<open>n\<close>.\<close>

definition ring :: "nat \<Rightarrow> 'a list \<Rightarrow> nat \<Rightarrow> nat \<Rightarrow> 'a list" where
  "ring n data r d = map (\<lambda>k. data ! ((r + k) mod n)) [0..<d]"

lemma length_ring [simp]: "length (ring n data r d) = d"
  by (simp add: ring_def)

lemma ring_0 [simp]: "ring n data r 0 = []"
  by (simp add: ring_def)

lemma ring_mod: "ring n data (r mod n) d = ring n data r d"
  by (simp add: ring_def mod_simps)

lemma ring_cong: "r mod n = r' mod n \<Longrightarrow> ring n data r d = ring n data r' d"
  by (metis ring_mod)

lemma ring_Suc_front: "ring n data r (Suc d) = data ! (r mod n) # ring n data (Suc r) d"
proof -
  have "[0..<Suc d] = 0 # map Suc [0..<d]" by (simp add: upt_conv_Cons map_Suc_upt del: upt_Suc)
  then show ?thesis by (simp add: ring_def del: upt_Suc)
qed

lemma mod_less_window_neq:
  assumes "k < d" and "d < n"
  shows "(r + k) mod n \<noteq> (r + d) mod (n::nat)"
proof
  assume "(r + k) mod n = (r + d) mod n"
  then have "(r + d) mod n = (r + k) mod n" by (rule sym)
  then have "n dvd (r + d) - (r + k)" using assms(1) by (subst (asm) mod_eq_dvd_iff_nat) auto
  then have "n dvd d - k" by simp
  then show False using assms by (simp add: dvd_imp_le nat_dvd_not_less)
qed

lemma ring_put:
  assumes "length data = n" and "d < n"
  shows "ring n (data[(r + d) mod n := x]) r (Suc d) = ring n data r d @ [x]"
proof -
  have "(r + d) mod n < length data" using assms by simp
  moreover have "data[(r + d) mod n := x] ! ((r + k) mod n) = data ! ((r + k) mod n)" if "k < d" for k
    using mod_less_window_neq [OF that assms(2), of r] by (metis nth_list_update_neq)
  ultimately show ?thesis by (simp add: ring_def)
qed

subsection \<open>The interface\<close>

primrec takes :: "('q \<Rightarrow> 'a \<times> 'q) \<Rightarrow> nat \<Rightarrow> 'q \<Rightarrow> 'a list \<times> 'q" where
  "takes get 0 q = ([], q)"
| "takes get (Suc n) q =
     (let (x, q1) = get q; (xs, q2) = takes get n q1 in (x # xs, q2))"

locale bounded_fifo =
  fixes put :: "'a \<Rightarrow> 'q \<Rightarrow> 'q"
    and get :: "'q \<Rightarrow> 'a \<times> 'q"
    and content :: "'q \<Rightarrow> 'a list"
    and inv :: "'q \<Rightarrow> bool"
    and cap :: "'q \<Rightarrow> nat"
  assumes put_content: "inv q \<Longrightarrow> length (content q) < cap q \<Longrightarrow> content (put x q) = content q @ [x]"
    and put_inv: "inv q \<Longrightarrow> length (content q) < cap q \<Longrightarrow> inv (put x q)"
    and put_cap: "cap (put x q) = cap q"
    and get_content: "inv q \<Longrightarrow> content q \<noteq> [] \<Longrightarrow> content q = fst (get q) # content (snd (get q))"
    and get_inv: "inv q \<Longrightarrow> content q \<noteq> [] \<Longrightarrow> inv (snd (get q))"
    and get_cap: "cap (snd (get q)) = cap q"
    and content_bound: "inv q \<Longrightarrow> length (content q) \<le> cap q"
begin

lemma puts_content:
  assumes "inv q" and "length (content q) + length xs \<le> cap q"
  shows "content (fold put xs q) = content q @ xs \<and> inv (fold put xs q) \<and> cap (fold put xs q) = cap q"
  using assms
proof (induction xs arbitrary: q)
  case Nil
  then show ?case by simp
next
  case (Cons x xs)
  then have lt: "length (content q) < cap q" by simp
  have "length (content (put x q)) + length xs \<le> cap (put x q)"
    using Cons.prems lt by (simp add: put_content put_cap)
  with Cons.IH [of "put x q"] Cons.prems(1) lt show ?case
    by (simp add: put_content put_inv put_cap)
qed

lemma takes_content:
  assumes "inv q" and "n \<le> length (content q)"
  shows "fst (takes get n q) = take n (content q) \<and> content (snd (takes get n q)) = drop n (content q)
       \<and> inv (snd (takes get n q)) \<and> cap (snd (takes get n q)) = cap q"
  using assms
proof (induction n arbitrary: q)
  case 0
  then show ?case by simp
next
  case (Suc n)
  obtain x q1 where g: "get q = (x, q1)" by (cases "get q")
  from Suc.prems have "content q \<noteq> []" by auto
  then have c: "content q = x # content q1" and "inv q1" and "cap q1 = cap q"
    using get_content [OF Suc.prems(1)] get_inv [OF Suc.prems(1)] get_cap [of q] g by auto
  with Suc.IH [of q1] Suc.prems(2) show ?case by (auto simp: g c split: prod.split)
qed

text \<open>What goes in comes out, in order.\<close>

lemma puts_takes:
  assumes "inv q" and "content q = []" and "length xs \<le> cap q"
  shows "fst (takes get (length xs) (fold put xs q)) = xs"
  using puts_content [of q xs] takes_content [of "fold put xs q" "length xs"] assms by simp

end

end
