(* ===== verification/Pipe.thy ===== *)
theory Pipe
  imports Fifo
begin

text \<open>
  Kernel pipes, \<open>kernel/pipe.c\<close>. \<open>nread\<close> and \<open>nwrite\<close> are 32-bit counters that run through
  their whole range and wrap; only their difference and their value modulo \<open>PIPESIZE\<close> matter.
  The lock of the pipe is held from the first to the last line of each operation, except inside
  \<open>sleep\<close>, so an operation is modelled as what it does between taking the lock and giving it
  up: it returns, or it goes to sleep at byte \<open>i\<close> and is resumed at the same byte later. The
  third component of an outcome lists the channels passed to \<open>wakeup\<close>.
\<close>

definition PIPESIZE :: nat where "PIPESIZE = 512"

record pipe =
  pdata :: "u8 list"
  nread :: u32
  nwrite :: u32
  readopen :: bool
  writeopen :: bool

datatype chan = ChNread | ChNwrite

datatype outcome = Ret int | SleepAt chan int

definition pipe_new :: "u8 list \<Rightarrow> pipe" where
  "pipe_new page = \<lparr>pdata = page, nread = 0, nwrite = 0, readopen = True, writeopen = True\<rparr>"

text \<open>\<open>p->data[p->nwrite++ % PIPESIZE] = c\<close> and \<open>p->data[p->nread++ % PIPESIZE]\<close>.\<close>

definition pipe_put :: "u8 \<Rightarrow> pipe \<Rightarrow> pipe" where
  "pipe_put c p = p\<lparr>pdata := (pdata p)[unat (nwrite p) mod PIPESIZE := c], nwrite := nwrite p + 1\<rparr>"

definition pipe_get :: "pipe \<Rightarrow> u8 \<times> pipe" where
  "pipe_get p = (pdata p ! (unat (nread p) mod PIPESIZE), p\<lparr>nread := nread p + 1\<rparr>)"

definition pipe_full :: "pipe \<Rightarrow> bool" where
  "pipe_full p = (nwrite p = nread p + of_nat PIPESIZE)"

definition pipeclose :: "pipe \<Rightarrow> bool \<Rightarrow> bool \<times> chan list \<times> pipe" where
  "pipeclose p writable =
     (let (w, p1) = (if writable then ([ChNread], p\<lparr>writeopen := False\<rparr>)
                     else ([ChNwrite], p\<lparr>readopen := False\<rparr>))
      in (\<not> readopen p1 \<and> \<not> writeopen p1, w, p1))"

function pipewrite_from :: "bool \<Rightarrow> u8 list \<Rightarrow> int \<Rightarrow> int \<Rightarrow> pipe \<Rightarrow> outcome \<times> chan list \<times> pipe" where
  "pipewrite_from killed addr n i p =
     (if i < n then
        (if pipe_full p then
           (if \<not> readopen p \<or> killed then (Ret (-1), [], p)
            else (SleepAt ChNwrite i, [ChNread], p))
         else pipewrite_from killed addr n (i + 1) (pipe_put (addr ! nat i) p))
      else (Ret n, [ChNread], p))"
  by pat_completeness auto
termination
  by (relation "measure (\<lambda>(killed, addr, n, i, p). nat (n - i))") auto

declare pipewrite_from.simps [simp del]

definition pipewrite :: "bool \<Rightarrow> pipe \<Rightarrow> u8 list \<Rightarrow> int \<Rightarrow> outcome \<times> chan list \<times> pipe" where
  "pipewrite killed p addr n = pipewrite_from killed addr n 0 p"

function piperead_copy :: "int \<Rightarrow> int \<Rightarrow> pipe \<Rightarrow> u8 list \<times> pipe" where
  "piperead_copy n i p =
     (if i < n \<and> nread p \<noteq> nwrite p
      then (let (c, p1) = pipe_get p; (cs, p2) = piperead_copy n (i + 1) p1 in (c # cs, p2))
      else ([], p))"
  by pat_completeness auto
termination
  by (relation "measure (\<lambda>(n, i, p). nat (n - i))") auto

declare piperead_copy.simps [simp del]

definition piperead :: "bool \<Rightarrow> pipe \<Rightarrow> int \<Rightarrow> outcome \<times> chan list \<times> u8 list \<times> pipe" where
  "piperead killed p n =
     (if nread p = nwrite p \<and> writeopen p then
        (if killed then (Ret (-1), [], [], p) else (SleepAt ChNread 0, [], [], p))
      else (let (cs, p') = piperead_copy n 0 p in (Ret (int (length cs)), [ChNwrite], cs, p')))"

subsection \<open>A pipe is a bounded queue of bytes\<close>

definition pipe_len :: "pipe \<Rightarrow> nat" where "pipe_len p = unat (nwrite p - nread p)"

definition pipe_content :: "pipe \<Rightarrow> u8 list" where
  "pipe_content p = ring PIPESIZE (pdata p) (unat (nread p)) (pipe_len p)"

definition pipe_inv :: "pipe \<Rightarrow> bool" where
  "pipe_inv p = (length (pdata p) = PIPESIZE \<and> pipe_len p \<le> PIPESIZE)"

lemma PIPESIZE_dvd: "PIPESIZE dvd 4294967296"
  by (simp add: PIPESIZE_def)

lemma unat_nwrite_mod:
  "unat (nwrite p) mod PIPESIZE = (unat (nread p) + pipe_len p) mod PIPESIZE"
  using unat_add_mod [OF PIPESIZE_dvd, of "nread p" "nwrite p - nread p"] by (simp add: pipe_len_def)

lemma pipe_full_iff: "pipe_inv p \<Longrightarrow> pipe_full p \<longleftrightarrow> pipe_len p = PIPESIZE"
proof -
  have "nwrite p = nread p + 512 \<longleftrightarrow> nwrite p - nread p = 512" by (auto simp: algebra_simps)
  also have "\<dots> \<longleftrightarrow> unat (nwrite p - nread p) = 512" by (simp add: word_unat_eq_iff)
  finally show ?thesis by (simp add: pipe_full_def pipe_len_def PIPESIZE_def)
qed

lemma pipe_empty_iff: "nread p = nwrite p \<longleftrightarrow> pipe_len p = 0"
  by (auto simp: pipe_len_def unat_eq_0)

lemma length_pipe_content [simp]: "length (pipe_content p) = pipe_len p"
  by (simp add: pipe_content_def)

lemma pipe_len_put: "pipe_len p < PIPESIZE \<Longrightarrow> pipe_len (pipe_put c p) = Suc (pipe_len p)"
proof -
  assume "pipe_len p < PIPESIZE"
  then have "unat ((nwrite p - nread p) + 1) = unat (nwrite p - nread p) + unat (1::u32)"
    by (intro unat_add_small) (simp add: pipe_len_def PIPESIZE_def)
  then show ?thesis by (simp add: pipe_len_def pipe_put_def algebra_simps)
qed

lemma pipe_len_get: "0 < pipe_len p \<Longrightarrow> pipe_len (snd (pipe_get p)) = pipe_len p - 1"
proof -
  assume "0 < pipe_len p"
  then have "1 \<le> nwrite p - nread p" by (simp add: pipe_len_def word_le_nat_alt)
  then have "unat ((nwrite p - nread p) - 1) = unat (nwrite p - nread p) - 1"
    by (simp add: unat_sub_small)
  then show ?thesis by (simp add: pipe_len_def pipe_get_def algebra_simps)
qed

lemma pipe_put_content:
  assumes "pipe_inv p" and "pipe_len p < PIPESIZE"
  shows "pipe_content (pipe_put c p) = pipe_content p @ [c]"
proof -
  have "pipe_content (pipe_put c p)
      = ring PIPESIZE ((pdata p)[(unat (nread p) + pipe_len p) mod PIPESIZE := c]) (unat (nread p))
          (Suc (pipe_len p))"
    using pipe_len_put [OF assms(2)]
    by (simp add: pipe_content_def pipe_put_def unat_nwrite_mod del: pipe.simps(1))
  also have "\<dots> = pipe_content p @ [c]"
    unfolding pipe_content_def using assms by (intro ring_put) (simp_all add: pipe_inv_def)
  finally show ?thesis .
qed

lemma pipe_get_content:
  assumes "0 < pipe_len p"
  shows "pipe_content p = fst (pipe_get p) # pipe_content (snd (pipe_get p))"
proof -
  obtain d where d: "pipe_len p = Suc d" using assms by (cases "pipe_len p") auto
  have "pipe_content (snd (pipe_get p)) = ring PIPESIZE (pdata p) (unat (nread p + 1)) d"
    using pipe_len_get [OF assms] d by (simp add: pipe_content_def pipe_get_def)
  also have "\<dots> = ring PIPESIZE (pdata p) (Suc (unat (nread p))) d"
    by (rule ring_cong) (rule unat_inc_mod [OF PIPESIZE_dvd])
  finally show ?thesis
    by (simp add: pipe_content_def d ring_Suc_front pipe_get_def)
qed

interpretation pipeq: bounded_fifo pipe_put pipe_get pipe_content pipe_inv "\<lambda>p. PIPESIZE"
proof unfold_locales
  fix p c
  assume i: "pipe_inv p"
  show "pipe_content (pipe_put c p) = pipe_content p @ [c]" if "length (pipe_content p) < PIPESIZE"
    using i that by (simp add: pipe_put_content)
  show "pipe_inv (pipe_put c p)" if "length (pipe_content p) < PIPESIZE"
    using i that by (auto simp: pipe_inv_def pipe_len_put) (simp add: pipe_put_def)
  show "pipe_content p = fst (pipe_get p) # pipe_content (snd (pipe_get p))" if "pipe_content p \<noteq> []"
    using pipe_get_content [of p] that by (metis length_greater_0_conv length_pipe_content)
  show "pipe_inv (snd (pipe_get p))" if "pipe_content p \<noteq> []"
  proof -
    have "0 < pipe_len p" using that by (metis length_greater_0_conv length_pipe_content)
    then show ?thesis using i by (auto simp: pipe_inv_def pipe_len_get) (simp add: pipe_get_def)
  qed
  show "length (pipe_content p) \<le> PIPESIZE" using i by (simp add: pipe_inv_def)
qed simp_all

subsection \<open>Writing and reading\<close>

lemma pipe_put_frame [simp]:
  "nread (pipe_put c p) = nread p" "nwrite (pipe_put c p) = nwrite p + 1"
  "readopen (pipe_put c p) = readopen p" "writeopen (pipe_put c p) = writeopen p"
  by (simp_all add: pipe_put_def)

lemma pipe_put_ok:
  assumes "pipe_inv p" and "\<not> pipe_full p"
  shows "pipe_content (pipe_put c p) = pipe_content p @ [c]" and "pipe_inv (pipe_put c p)"
proof -
  have "length (pipe_content p) < PIPESIZE"
    using assms by (auto simp: pipe_full_iff pipe_inv_def)
  with assms(1) show "pipe_content (pipe_put c p) = pipe_content p @ [c]" and "pipe_inv (pipe_put c p)"
    by (simp_all add: pipeq.put_content pipeq.put_inv)
qed

text \<open>
  What one activation of \<open>pipewrite\<close> does: it appends \<open>addr[i..j-1]\<close> and stops at \<open>j\<close>, either
  because \<open>j = n\<close> or because the buffer is full at \<open>j\<close>.
\<close>

definition pipewrite_stops :: "bool \<Rightarrow> int \<Rightarrow> int \<Rightarrow> pipe \<Rightarrow> outcome \<Rightarrow> chan list \<Rightarrow> bool" where
  "pipewrite_stops killed n j p' r w =
     (if j = n then r = Ret n \<and> w = [ChNread]
      else pipe_len p' = PIPESIZE \<and>
           (if \<not> readopen p' \<or> killed then r = Ret (-1) \<and> w = []
            else r = SleepAt ChNwrite j \<and> w = [ChNread]))"

lemma pipewrite_from_spec:
  assumes "pipe_inv p" and "0 \<le> i" and "i \<le> n" and "n \<le> int (length addr)"
    and "pipewrite_from killed addr n i p = (r, w, p')"
  shows "\<exists>j. i \<le> j \<and> j \<le> n \<and> pipewrite_stops killed n j p' r w \<and> pipe_inv p'
    \<and> pipe_content p' = pipe_content p @ take (nat (j - i)) (drop (nat i) addr)
    \<and> nread p' = nread p \<and> nwrite p' = nwrite p + of_nat (nat (j - i))
    \<and> readopen p' = readopen p \<and> writeopen p' = writeopen p"
  using assms
proof (induction killed addr n i p rule: pipewrite_from.induct)
  case (1 killed addr n i p)
  show ?case
  proof (cases "i < n \<and> \<not> pipe_full p")
    case True
    let ?c = "addr ! nat i" let ?q = "pipe_put (addr ! nat i) p"
    have q: "pipe_inv ?q" "pipe_content ?q = pipe_content p @ [?c]"
      using True "1.prems"(1) by (auto simp: pipe_put_ok)
    have "pipewrite_from killed addr n (i + 1) ?q = (r, w, p')"
      using "1.prems"(5) True by (simp add: pipewrite_from.simps [of killed addr n i p])
    then obtain j where j: "i + 1 \<le> j" "j \<le> n" "pipewrite_stops killed n j p' r w" "pipe_inv p'"
        "pipe_content p' = pipe_content ?q @ take (nat (j - (i + 1))) (drop (nat (i + 1)) addr)"
        "nread p' = nread p" "nwrite p' = nwrite p + 1 + of_nat (nat (j - (i + 1)))"
        "readopen p' = readopen p" "writeopen p' = writeopen p"
      using "1.IH" [OF _ _ q(1)] True "1.prems"(2,4) by auto
    have m: "nat (j - i) = Suc (nat (j - (i + 1)))" using j(1) by linarith
    have "nat i < length addr" using True "1.prems"(2,4) by linarith
    then have "drop (nat i) addr = ?c # drop (nat (i + 1)) addr"
      using "1.prems"(2) by (simp add: Cons_nth_drop_Suc nat_add_distrib)
    then have "pipe_content p' = pipe_content p @ take (nat (j - i)) (drop (nat i) addr)"
      using j(5) q(2) by (simp add: m)
    moreover have "nwrite p' = nwrite p + of_nat (nat (j - i))"
      using j(7) by (simp add: m)
    ultimately show ?thesis using j by (intro exI [of _ j]) simp
  next
    case False
    with "1.prems" show ?thesis
      by (intro exI [of _ i])
        (auto simp: pipewrite_from.simps [of killed addr n i p] pipewrite_stops_def pipe_full_iff
          split: if_splits)
  qed
qed

lemma piperead_copy_takes:
  assumes "pipe_inv p" and "0 \<le> i"
  shows "piperead_copy n i p = takes pipe_get (min (nat (n - i)) (pipe_len p)) p"
  using assms
proof (induction n i p rule: piperead_copy.induct)
  case (1 n i p)
  show ?case
  proof (cases "i < n \<and> nread p \<noteq> nwrite p")
    case True
    let ?q = "snd (pipe_get p)"
    obtain c where g: "pipe_get p = (c, ?q)" by (metis prod.collapse)
    have len: "0 < pipe_len p" using True by (simp add: pipe_empty_iff)
    then have "pipe_content p \<noteq> []" by (metis length_greater_0_conv length_pipe_content)
    then have "pipe_inv ?q" using pipeq.get_inv "1.prems"(1) by blast
    then have "piperead_copy n (i + 1) ?q = takes pipe_get (min (nat (n - (i + 1))) (pipe_len ?q)) ?q"
      using "1.IH" [OF True refl, of c ?q] g "1.prems"(2) by simp
    moreover have "min (nat (n - i)) (pipe_len p) = Suc (min (nat (n - (i + 1))) (pipe_len ?q))"
      using True len by (simp add: pipe_len_get min_def) linarith
    ultimately show ?thesis
      using True by (simp add: piperead_copy.simps [of n i p] split_beta)
  next
    case False
    then have "min (nat (n - i)) (pipe_len p) = 0" by (auto simp: pipe_empty_iff)
    with False show ?thesis by (auto simp: piperead_copy.simps [of n i p])
  qed
qed

lemma piperead_spec:
  assumes "pipe_inv p" and "piperead killed p n = (r, w, cs, p')"
  shows "pipe_inv p' \<and> pipe_content p = cs @ pipe_content p'
    \<and> (if pipe_content p = [] \<and> writeopen p
       then cs = [] \<and> p' = p \<and> w = [] \<and> r = (if killed then Ret (-1) else SleepAt ChNread 0)
       else cs = take (nat n) (pipe_content p) \<and> r = Ret (int (length cs)) \<and> w = [ChNwrite])"
proof (cases "nread p = nwrite p \<and> writeopen p")
  case True
  then have "pipe_content p = []" by (metis length_0_conv length_pipe_content pipe_empty_iff)
  with True assms show ?thesis by (auto simp: piperead_def split: if_splits)
next
  case False
  let ?m = "min (nat n) (pipe_len p)"
  have t: "takes pipe_get ?m p = (cs, p')" and r: "r = Ret (int (length cs))" "w = [ChNwrite]"
    using assms False piperead_copy_takes [OF assms(1), of 0 n] by (auto simp: piperead_def split: prod.splits)
  have "fst (takes pipe_get ?m p) = take ?m (pipe_content p)"
    "pipe_content (snd (takes pipe_get ?m p)) = drop ?m (pipe_content p)"
    "pipe_inv (snd (takes pipe_get ?m p))"
    using pipeq.takes_content [OF assms(1), of ?m] by auto
  then have "cs = take ?m (pipe_content p)" "pipe_content p' = drop ?m (pipe_content p)" "pipe_inv p'"
    using t by auto
  moreover have "take ?m (pipe_content p) = take (nat n) (pipe_content p)"
    by (cases "nat n \<le> pipe_len p") (simp_all add: min_def)
  moreover have "\<not> (pipe_content p = [] \<and> writeopen p)"
    using False by (metis length_0_conv length_pipe_content pipe_empty_iff)
  ultimately show ?thesis using r by (metis append_take_drop_id)
qed

subsection \<open>Every history of a pipe\<close>

text \<open>
  A history interleaves activations of \<open>pipewrite\<close> (fresh ones at \<open>i = 0\<close> and resumed ones),
  of \<open>piperead\<close> and of \<open>pipeclose\<close> by any number of processes. \<open>ws\<close> is everything stored
  into the buffer, \<open>rs\<close> everything handed to readers.
\<close>

inductive pipe_hist :: "pipe \<Rightarrow> u8 list \<Rightarrow> u8 list \<Rightarrow> bool" where
  start: "length page = PIPESIZE \<Longrightarrow> pipe_hist (pipe_new page) [] []"
| wr: "pipe_hist p ws rs \<Longrightarrow> 0 \<le> i \<Longrightarrow> i \<le> n \<Longrightarrow> n \<le> int (length addr) \<Longrightarrow>
     pipewrite_from killed addr n i p = (r, w, p') \<Longrightarrow>
     pipe_hist p' (ws @ take (unat (nwrite p' - nwrite p)) (drop (nat i) addr)) rs"
| rd: "pipe_hist p ws rs \<Longrightarrow> piperead killed p n = (r, w, cs, p') \<Longrightarrow> pipe_hist p' ws (rs @ cs)"
| cl: "pipe_hist p ws rs \<Longrightarrow> pipeclose p writable = (gone, w, p') \<Longrightarrow> pipe_hist p' ws rs"

lemma pipeclose_content:
  assumes "pipeclose p writable = (gone, w, p')"
  shows "pipe_content p' = pipe_content p" and "pipe_inv p' = pipe_inv p"
  using assms by (auto simp: pipeclose_def Let_def pipe_content_def pipe_inv_def pipe_len_def split: if_splits)

lemma pipe_hist_inv: "pipe_hist p ws rs \<Longrightarrow> pipe_inv p \<and> ws = rs @ pipe_content p"
proof (induction rule: pipe_hist.induct)
  case (start page)
  then show ?case by (simp add: pipe_inv_def pipe_new_def pipe_len_def pipe_content_def)
next
  case (wr p ws rs i n addr killed r w p')
  then obtain j where j: "i \<le> j" "j \<le> n" "pipe_inv p'"
      "pipe_content p' = pipe_content p @ take (nat (j - i)) (drop (nat i) addr)"
      "nwrite p' = nwrite p + of_nat (nat (j - i))"
    using pipewrite_from_spec [of p i n addr killed r w p'] by blast
  have "length (take (nat (j - i)) (drop (nat i) addr)) = nat (j - i)"
    using j(1,2) wr.hyps(2,3,4) by simp
  then have "nat (j - i) \<le> PIPESIZE"
    using arg_cong [OF j(4), of length] j(3) by (simp add: pipe_inv_def)
  then have "unat (nwrite p' - nwrite p) = nat (j - i)"
    using j(5) by (simp add: PIPESIZE_def unat_of_nat)
  with wr.IH j show ?case by simp
next
  case (rd p ws rs killed n r w cs p')
  then have "pipe_inv p' \<and> pipe_content p = cs @ pipe_content p'"
    using piperead_spec [of p killed n r w cs p'] by blast
  with rd.IH show ?case by simp
next
  case (cl p ws rs writable gone w p')
  then show ?case by (simp add: pipeclose_content)
qed

subsection \<open>Properties\<close>

text \<open>C30: Whatever processes do to a pipe, in any order and also when the 32-bit counters wrap, the bytes
  handed to readers are the bytes stored by writers, each once and in order; what is still in the
  buffer, at most \<open>PIPESIZE\<close> bytes, is the rest.\<close>

theorem pipe_is_fifo:
  assumes "pipe_hist p ws rs"
  shows "ws = rs @ pipe_content p \<and> length (pipe_content p) \<le> PIPESIZE"
  using pipe_hist_inv [OF assms] by (simp add: pipe_inv_def)

theorem pipe_is_fifo_witness:
  "\<exists>p. pipe_hist p [7] [7] \<and> [7] = [7] @ pipe_content p"
proof -
  let ?p0 = "pipe_new (replicate PIPESIZE 0)"
  let ?p1 = "pipe_put 7 ?p0"
  have 0: "pipe_hist ?p0 [] []" by (rule start) simp
  have "pipewrite_from False [7] 1 0 ?p0 = (Ret 1, [ChNread], ?p1)"
    by (simp add: pipewrite_from.simps [of False "[7]" 1 0] pipewrite_from.simps [of False "[7]" 1 1]
        pipe_full_def pipe_new_def PIPESIZE_def)
  from wr [OF 0 _ _ _ this] have 1: "pipe_hist ?p1 [7] []" by (simp add: pipe_new_def)
  have "piperead False ?p1 1 = (Ret 1, [ChNwrite], [7], snd (pipe_get ?p1))"
    by (simp add: piperead_def piperead_copy.simps [of 1 0] piperead_copy.simps [of 1 1] pipe_get_def pipe_put_def
        pipe_new_def PIPESIZE_def)
  from rd [OF 1 this] have 2: "pipe_hist (snd (pipe_get ?p1)) [7] [7]" by simp
  from 2 pipe_is_fifo [OF 2] show ?thesis by blast
qed

text \<open>A fresh \<open>pipewrite\<close> of \<open>n\<close> bytes stores a prefix of them in order: all of them, returning \<open>n\<close> and
  waking the readers, or as many as fit, and then it fails if the read end is closed or the caller was
  killed, and otherwise wakes the readers and sleeps.\<close>

theorem pipewrite_outcome:
  assumes "pipe_inv p" and "n \<le> int (length addr)" and "0 \<le> n" and "pipewrite killed p addr n = (r, w, p')"
  shows "\<exists>j. 0 \<le> j \<and> j \<le> n \<and> pipe_inv p' \<and> pipe_content p' = pipe_content p @ take (nat j) addr
     \<and> (if j = n then r = Ret n \<and> w = [ChNread]
        else pipe_len p' = PIPESIZE \<and> (if \<not> readopen p \<or> killed then r = Ret (-1) \<and> w = []
                                        else r = SleepAt ChNwrite j \<and> w = [ChNread]))"
proof -
  have "pipewrite_from killed addr n 0 p = (r, w, p')" using assms(4) by (simp add: pipewrite_def)
  from pipewrite_from_spec [OF assms(1) _ assms(3,2) this] obtain j where
    "0 \<le> j" "j \<le> n" "pipewrite_stops killed n j p' r w" "pipe_inv p'" "readopen p' = readopen p"
    "pipe_content p' = pipe_content p @ take (nat j) addr"
    by auto
  then show ?thesis by (intro exI [of _ j]) (auto simp: pipewrite_stops_def split: if_splits)
qed

theorem pipewrite_outcome_witness:
  "\<exists>j r w p'. pipewrite False (pipe_new (replicate PIPESIZE 0)) [7] 1 = (r, w, p')
     \<and> pipe_content p' = pipe_content (pipe_new (replicate PIPESIZE 0)) @ take (nat j) [7]"
proof -
  let ?p0 = "pipe_new (replicate PIPESIZE 0)"
  have i: "pipe_inv ?p0" by (simp add: pipe_inv_def pipe_new_def pipe_len_def)
  obtain r w p' where e: "pipewrite False ?p0 [7] 1 = (r, w, p')" by (metis surj_pair)
  from pipewrite_outcome [OF i _ _ e] obtain j where "pipe_content p' = pipe_content ?p0 @ take (nat j) [7]" by auto
  then show ?thesis using e by blast
qed

text \<open>\<open>piperead\<close> of \<open>n\<close> bytes takes the first \<open>n\<close> bytes of the buffer, or all when there are fewer, and
  wakes the writers; only on an empty buffer with an open write end does it fail (killed) or sleep.\<close>

theorem piperead_outcome:
  assumes "pipe_inv p" and "piperead killed p n = (r, w, cs, p')"
  shows "if pipe_content p = [] \<and> writeopen p
       then p' = p \<and> cs = [] \<and> w = [] \<and> r = (if killed then Ret (-1) else SleepAt ChNread 0)
       else cs = take (nat n) (pipe_content p) \<and> pipe_content p' = drop (nat n) (pipe_content p)
         \<and> r = Ret (int (length cs)) \<and> w = [ChNwrite]"
proof -
  note p = piperead_spec [OF assms]
  have eq: "pipe_content p = cs @ pipe_content p'" by (rule p [THEN conjunct2, THEN conjunct1])
  note q = p [THEN conjunct2, THEN conjunct2]
  show ?thesis
  proof (cases "pipe_content p = [] \<and> writeopen p")
    case True
    then show ?thesis using q by simp
  next
    case False
    then have c: "cs = take (nat n) (pipe_content p)" "r = Ret (int (length cs)) \<and> w = [ChNwrite]"
      using q by (simp_all only: if_False simp_thms)
    have "take (nat n) (pipe_content p) @ pipe_content p' = take (nat n) (pipe_content p) @ drop (nat n) (pipe_content p)"
      using eq c(1) by simp
    then have "pipe_content p' = drop (nat n) (pipe_content p)" by (simp only: same_append_eq)
    then show ?thesis using False c by (simp only: if_False simp_thms)
  qed
qed

theorem piperead_outcome_witness:
  "\<exists>r w cs p'. piperead False (pipe_new (replicate PIPESIZE 0)) 3 = (r, w, cs, p') \<and> r = SleepAt ChNread 0"
proof -
  let ?p0 = "pipe_new (replicate PIPESIZE 0)"
  have i: "pipe_inv ?p0" "pipe_content ?p0 = []" "writeopen ?p0"
    by (simp_all add: pipe_inv_def pipe_new_def pipe_len_def pipe_content_def)
  obtain r w cs p' where e: "piperead False ?p0 3 = (r, w, cs, p')" by (metis surj_pair)
  from piperead_outcome [OF i(1) e] have "r = SleepAt ChNread 0" using i(2,3) by simp
  then show ?thesis using e by blast
qed

end
