(* ===== verification/KString.thy ===== *)
theory KString
  imports Prelude
begin

text \<open>
  The kernel's string routines, \<open>kernel/string.c\<close>. Byte memory is a map from addresses
  (\<open>nat\<close>: no object of the kernel wraps around the end of the address space) to bytes.
  Routines that only read take the bytes they are given a pointer to, as a function of the
  offset; routines that write take and return the whole memory, so overlapping arguments are
  modelled.
\<close>

type_synonym bytes = "nat \<Rightarrow> u8"

definition at_ptr :: "bytes \<Rightarrow> nat \<Rightarrow> bytes" where
  "at_ptr m p = (\<lambda>i. m (p + i))"

subsection \<open>Definitions\<close>

definition memset :: "nat \<Rightarrow> u8 \<Rightarrow> nat \<Rightarrow> bytes \<Rightarrow> bytes" where
  "memset dst c n m = (\<lambda>a. if dst \<le> a \<and> a < dst + n then c else m a)"

fun memcmp :: "bytes \<Rightarrow> bytes \<Rightarrow> nat \<Rightarrow> int" where
  "memcmp s1 s2 0 = 0"
| "memcmp s1 s2 (Suc n) =
     (if s1 0 \<noteq> s2 0 then uint (s1 0) - uint (s2 0)
      else memcmp (\<lambda>i. s1 (Suc i)) (\<lambda>i. s2 (Suc i)) n)"

text \<open>\<open>while(n-- > 0) *--d = *--s\<close> and \<open>while(n-- > 0) *d++ = *s++\<close>.\<close>

fun copy_down :: "nat \<Rightarrow> nat \<Rightarrow> nat \<Rightarrow> bytes \<Rightarrow> bytes" where
  "copy_down d s 0 m = m"
| "copy_down d s (Suc n) m = copy_down (d - 1) (s - 1) n (m(d - 1 := m (s - 1)))"

fun copy_up :: "nat \<Rightarrow> nat \<Rightarrow> nat \<Rightarrow> bytes \<Rightarrow> bytes" where
  "copy_up d s 0 m = m"
| "copy_up d s (Suc n) m = copy_up (Suc d) (Suc s) n (m(d := m s))"

definition memmove :: "nat \<Rightarrow> nat \<Rightarrow> nat \<Rightarrow> bytes \<Rightarrow> bytes" where
  "memmove dst src n m =
     (if src < dst \<and> dst < src + n then copy_down (dst + n) (src + n) n m
      else copy_up dst src n m)"

definition memcpy :: "nat \<Rightarrow> nat \<Rightarrow> nat \<Rightarrow> bytes \<Rightarrow> bytes" where
  "memcpy dst src n m = memmove dst src n m"

fun strncmp :: "bytes \<Rightarrow> bytes \<Rightarrow> nat \<Rightarrow> int" where
  "strncmp p q 0 = 0"
| "strncmp p q (Suc n) =
     (if p 0 \<noteq> 0 \<and> p 0 = q 0 then strncmp (\<lambda>i. p (Suc i)) (\<lambda>i. q (Suc i)) n
      else uint (p 0) - uint (q 0))"

text \<open>
  The two loops of \<open>strncpy\<close>. The first returns the advanced \<open>s\<close> and the number of bytes the
  second still has to clear.
\<close>

fun strncpy_copy :: "nat \<Rightarrow> nat \<Rightarrow> nat \<Rightarrow> bytes \<Rightarrow> nat \<times> nat \<times> bytes" where
  "strncpy_copy s t 0 m = (s, 0, m)"
| "strncpy_copy s t (Suc n) m =
     (if m t \<noteq> 0 then strncpy_copy (Suc s) (Suc t) n (m(s := m t))
      else (Suc s, n, m(s := m t)))"

fun strncpy_pad :: "nat \<Rightarrow> nat \<Rightarrow> bytes \<Rightarrow> bytes" where
  "strncpy_pad s 0 m = m"
| "strncpy_pad s (Suc n) m = strncpy_pad (Suc s) n (m(s := 0))"

definition strncpy :: "nat \<Rightarrow> nat \<Rightarrow> int \<Rightarrow> bytes \<Rightarrow> bytes" where
  "strncpy s t n m = (let (s', k, m') = strncpy_copy s t (nat n) m in strncpy_pad s' k m')"

fun safestrcpy_copy :: "nat \<Rightarrow> nat \<Rightarrow> nat \<Rightarrow> bytes \<Rightarrow> nat \<times> bytes" where
  "safestrcpy_copy s t 0 m = (s, m)"
| "safestrcpy_copy s t (Suc n) m =
     (if m t \<noteq> 0 then safestrcpy_copy (Suc s) (Suc t) n (m(s := m t))
      else (Suc s, m(s := m t)))"

definition safestrcpy :: "nat \<Rightarrow> nat \<Rightarrow> int \<Rightarrow> bytes \<Rightarrow> bytes" where
  "safestrcpy s t n m =
     (if n \<le> 0 then m
      else let (s', m') = safestrcpy_copy s t (nat (n - 1)) m in m'(s' := 0))"

text \<open>\<open>strlen\<close> does not return when there is no terminating zero.\<close>

partial_function (option) strlen_from :: "bytes \<Rightarrow> nat \<Rightarrow> nat option" where
  "strlen_from s n = (if s n \<noteq> 0 then strlen_from s (Suc n) else Some n)"

definition strlen :: "bytes \<Rightarrow> nat option" where
  "strlen s = strlen_from s 0"

subsection \<open>What they compute\<close>

lemma memcmp_0_iff: "memcmp s1 s2 n = 0 \<longleftrightarrow> (\<forall>i < n. s1 i = s2 i)"
proof (induction n arbitrary: s1 s2)
  case (Suc n)
  have "(\<forall>i < Suc n. s1 i = s2 i) \<longleftrightarrow> s1 0 = s2 0 \<and> (\<forall>i < n. s1 (Suc i) = s2 (Suc i))"
    using less_Suc_eq_0_disj by auto
  with Suc show ?case by (simp add: word_uint_eq_iff)
qed simp

text \<open>Each copying loop is correct when it does not overwrite bytes it has yet to read.\<close>

lemma copy_up_eq:
  assumes "d \<le> s \<or> s + n \<le> d"
  shows "copy_up d s n m = (\<lambda>a. if d \<le> a \<and> a < d + n then m (s + (a - d)) else m a)"
  using assms
proof (induction n arbitrary: d s m)
  case (Suc n)
  have "copy_up (Suc d) (Suc s) n (m(d := m s))
      = (\<lambda>a. if Suc d \<le> a \<and> a < Suc d + n then (m(d := m s)) (Suc s + (a - Suc d)) else (m(d := m s)) a)"
    using Suc.prems by (intro Suc.IH) auto
  also have "\<dots> = (\<lambda>a. if d \<le> a \<and> a < d + Suc n then m (s + (a - d)) else m a)"
    using Suc.prems by (auto simp: fun_eq_iff Suc_diff_Suc)
  finally show ?case by simp
qed (auto simp: fun_eq_iff)

lemma copy_down_eq:
  assumes "s \<le> d" and "n \<le> s"
  shows "copy_down d s n m = (\<lambda>a. if d - n \<le> a \<and> a < d then m (s - (d - a)) else m a)"
  using assms
proof (induction n arbitrary: d s m)
  case (Suc n)
  let ?m = "m(d - 1 := m (s - 1))"
  have "copy_down (d - 1) (s - 1) n ?m
      = (\<lambda>a. if d - 1 - n \<le> a \<and> a < d - 1 then ?m (s - 1 - (d - 1 - a)) else ?m a)"
    using Suc.prems by (intro Suc.IH) auto
  also have "\<dots> = (\<lambda>a. if d - Suc n \<le> a \<and> a < d then m (s - (d - a)) else m a)"
  proof
    fix a
    consider "a < d - 1" | "a = d - 1" | "d \<le> a" by linarith
    then show "(if d - 1 - n \<le> a \<and> a < d - 1 then ?m (s - 1 - (d - 1 - a)) else ?m a)
        = (if d - Suc n \<le> a \<and> a < d then m (s - (d - a)) else m a)"
      using Suc.prems by cases (auto simp: diff_diff_eq)
  qed
  finally show ?case by simp
qed (auto simp: fun_eq_iff)

lemma memmove_eq:
  "memmove dst src n m = (\<lambda>a. if dst \<le> a \<and> a < dst + n then m (src + (a - dst)) else m a)"
proof (cases "src < dst \<and> dst < src + n")
  case True
  then have "copy_down (dst + n) (src + n) n m
      = (\<lambda>a. if dst + n - n \<le> a \<and> a < dst + n then m (src + n - (dst + n - a)) else m a)"
    by (intro copy_down_eq) auto
  also have "\<dots> = (\<lambda>a. if dst \<le> a \<and> a < dst + n then m (src + (a - dst)) else m a)"
    by (auto simp: fun_eq_iff)
  finally show ?thesis using True by (simp add: memmove_def)
next
  case False
  then show ?thesis by (subst memmove_def) (auto simp: copy_up_eq)
qed

text \<open>The string at \<open>p\<close>, cut at its terminating zero or after \<open>n\<close> bytes.\<close>

definition cstr :: "bytes \<Rightarrow> nat \<Rightarrow> u8 list" where
  "cstr p n = takeWhile (\<lambda>c. c \<noteq> 0) (map p [0..<n])"

lemma cstr_0 [simp]: "cstr p 0 = []"
  by (simp add: cstr_def)

lemma cstr_Suc: "cstr p (Suc n) = (if p 0 = 0 then [] else p 0 # cstr (\<lambda>i. p (Suc i)) n)"
proof -
  have "[0..<Suc n] = 0 # map Suc [0..<n]" by (simp add: upt_conv_Cons map_Suc_upt del: upt_Suc)
  then show ?thesis by (simp add: cstr_def o_def del: upt_Suc)
qed

lemma length_cstr: "length (cstr p n) \<le> n"
  unfolding cstr_def by (metis length_map length_takeWhile_le length_upt minus_nat.diff_0)

lemma strncmp_0_iff: "strncmp p q n = 0 \<longleftrightarrow> cstr p n = cstr q n"
proof (induction n arbitrary: p q)
  case (Suc n)
  then show ?case by (auto simp: cstr_Suc word_uint_eq_iff)
qed simp

lemma cstr_cong: "(\<And>i. i < n \<Longrightarrow> p i = q i) \<Longrightarrow> cstr p n = cstr q n"
  unfolding cstr_def by (metis (mono_tags, lifting) atLeastLessThan_iff map_cong set_upt)

lemma at_ptr_Suc: "at_ptr m (Suc t) = (\<lambda>i. at_ptr m t (Suc i))"
  by (simp add: at_ptr_def)

lemma cstr_at_ptr_Suc:
  "cstr (at_ptr m t) (Suc n) = (if m t = 0 then [] else m t # cstr (at_ptr m (Suc t)) n)"
  by (simp add: cstr_Suc at_ptr_Suc) (simp add: at_ptr_def)

lemma cstr_at_ptr_upd:
  assumes "s < t \<or> t + n \<le> s"
  shows "cstr (at_ptr (m(s := c)) t) n = cstr (at_ptr m t) n"
  by (rule cstr_cong) (use assms in \<open>auto simp: at_ptr_def\<close>)

text \<open>The ranges \<open>[s, s + n)\<close> and \<open>[t, t + n)\<close> do not meet.\<close>

definition disjoint_ranges :: "nat \<Rightarrow> nat \<Rightarrow> nat \<Rightarrow> bool" where
  "disjoint_ranges s t n = (s + n \<le> t \<or> t + n \<le> s)"

lemma strncpy_copy_eq:
  assumes "disjoint_ranges s t n" and "L = length (cstr (at_ptr m t) n)"
  shows "strncpy_copy s t n m =
    (if L = n then (s + n, 0, (\<lambda>a. if s \<le> a \<and> a < s + n then m (t + (a - s)) else m a))
     else (s + L + 1, n - L - 1, (\<lambda>a. if s \<le> a \<and> a < s + L + 1 then m (t + (a - s)) else m a)))"
  using assms
proof (induction s t n m arbitrary: L rule: strncpy_copy.induct)
  case (1 s t m)
  then show ?case by (auto simp: fun_eq_iff)
next
  case (2 s t n m)
  show ?case
  proof (cases "m t = 0")
    case True
    then have "L = 0" using "2.prems"(2) by (simp add: cstr_at_ptr_Suc)
    with True show ?thesis by (auto simp: fun_eq_iff)
  next
    case False
    let ?m = "m(s := m t)" and ?K = "length (cstr (at_ptr m (Suc t)) n)"
    have "disjoint_ranges (Suc s) (Suc t) n" using "2.prems"(1) by (auto simp: disjoint_ranges_def)
    moreover have "cstr (at_ptr ?m (Suc t)) n = cstr (at_ptr m (Suc t)) n"
      using "2.prems"(1) by (intro cstr_at_ptr_upd) (auto simp: disjoint_ranges_def)
    ultimately have IH: "strncpy_copy (Suc s) (Suc t) n ?m =
      (if ?K = n then (Suc s + n, 0, (\<lambda>a. if Suc s \<le> a \<and> a < Suc s + n then ?m (Suc t + (a - Suc s)) else ?m a))
       else (Suc s + ?K + 1, n - ?K - 1,
             (\<lambda>a. if Suc s \<le> a \<and> a < Suc s + ?K + 1 then ?m (Suc t + (a - Suc s)) else ?m a)))"
      using "2.IH" [OF False, of ?K] by (simp del: fun_upd_apply)
    have L: "L = Suc ?K" using "2.prems"(2) False by (simp add: cstr_at_ptr_Suc)
    have mem: "(\<lambda>a. if Suc s \<le> a \<and> a < Suc s + k then ?m (Suc t + (a - Suc s)) else ?m a)
        = (\<lambda>a. if s \<le> a \<and> a < s + Suc k then m (t + (a - s)) else m a)" if "k \<le> n" for k
      using that "2.prems"(1) by (auto simp: fun_eq_iff disjoint_ranges_def Suc_diff_Suc)
    have "?K \<le> n" by (rule length_cstr)
    then show ?thesis using IH False L mem [of n] mem [of "?K + 1"] by (auto simp: add.assoc)
  qed
qed

lemma strncpy_pad_eq:
  "strncpy_pad s n m = (\<lambda>a. if s \<le> a \<and> a < s + n then 0 else m a)"
  by (induction n arbitrary: s m) (auto simp: fun_eq_iff)

lemma strncpy_eq:
  assumes "0 \<le> n" and "disjoint_ranges s t (nat n)"
  shows "strncpy s t n m = (\<lambda>a. if s \<le> a \<and> a < s + nat n
     then (if a - s < length (cstr (at_ptr m t) (nat n)) then m (t + (a - s)) else 0) else m a)"
proof -
  let ?L = "length (cstr (at_ptr m t) (nat n))"
  have end0: "m (t + ?L) = 0" if "?L < nat n"
  proof -
    have "?L < length (map (at_ptr m t) [0..<nat n])" using that by simp
    then have "map (at_ptr m t) [0..<nat n] ! ?L = 0"
      unfolding cstr_def by (metis (mono_tags, lifting) nth_length_takeWhile)
    then show ?thesis using that by (simp add: at_ptr_def)
  qed
  show ?thesis
  proof (cases "?L = nat n")
    case True
    then show ?thesis using strncpy_copy_eq [OF assms(2) refl, of m] by (auto simp: strncpy_def fun_eq_iff)
  next
    case False
    then have L: "?L < nat n" using length_cstr [of "at_ptr m t" "nat n"] by simp
    define l N where "l = ?L" and "N = nat n"
    have LN: "l < N" using L by (simp add: l_def N_def)
    have z: "m (t + l) = 0" using end0 [OF L] by (simp add: l_def)
    have "strncpy s t n m = (\<lambda>a. if Suc (s + l) \<le> a \<and> a < Suc (s + l) + (N - l - 1) then 0
        else if s \<le> a \<and> a < s + l + 1 then m (t + (a - s)) else m a)"
      using strncpy_copy_eq [OF assms(2) refl, of m] False
      unfolding l_def N_def by (simp add: strncpy_def strncpy_pad_eq cong: if_cong)
    also have "\<dots> = (\<lambda>a. if s \<le> a \<and> a < s + N then (if a - s < l then m (t + (a - s)) else 0) else m a)"
    proof
      fix a
      consider "a < s" | "s \<le> a" "a < s + l" | "a = s + l" | "s + l < a" "a < s + N" | "s + N \<le> a"
        by linarith
      then show "(if Suc (s + l) \<le> a \<and> a < Suc (s + l) + (N - l - 1) then 0
          else if s \<le> a \<and> a < s + l + 1 then m (t + (a - s)) else m a)
        = (if s \<le> a \<and> a < s + N then (if a - s < l then m (t + (a - s)) else 0) else m a)"
        using LN z by cases auto
    qed
    finally show ?thesis by (simp only: l_def N_def)
  qed
qed

lemma safestrcpy_copy_spec:
  assumes "disjoint_ranges s t n" and "safestrcpy_copy s t n m = (s', m')"
  shows "s \<le> s' \<and> s' \<le> s + n \<and> (\<forall>a. a < s \<or> s + n \<le> a \<longrightarrow> m' a = m a)
    \<and> cstr (at_ptr (m'(s' := 0)) s) (Suc n) = cstr (at_ptr m t) n"
  using assms
proof (induction s t n m arbitrary: s' m' rule: safestrcpy_copy.induct)
  case (1 s t m)
  then show ?case by (auto simp: cstr_at_ptr_Suc)
next
  case (2 s t n m)
  show ?case
  proof (cases "m t = 0")
    case True
    with "2.prems"(2) show ?thesis by (auto simp: cstr_at_ptr_Suc)
  next
    case False
    let ?m = "m(s := m t)"
    have dis: "disjoint_ranges (Suc s) (Suc t) n" using "2.prems"(1) by (auto simp: disjoint_ranges_def)
    have rest: "safestrcpy_copy (Suc s) (Suc t) n ?m = (s', m')" using "2.prems"(2) False by simp
    have IH: "Suc s \<le> s'" "s' \<le> Suc s + n" "\<forall>a. a < Suc s \<or> Suc s + n \<le> a \<longrightarrow> m' a = ?m a"
      "cstr (at_ptr (m'(s' := 0)) (Suc s)) (Suc n) = cstr (at_ptr ?m (Suc t)) n"
      using "2.IH" [OF False dis rest] by blast+
    have "cstr (at_ptr ?m (Suc t)) n = cstr (at_ptr m (Suc t)) n"
      using "2.prems"(1) by (intro cstr_at_ptr_upd) (auto simp: disjoint_ranges_def)
    moreover have "(m'(s' := 0)) s = m t" using IH(1,3) by simp
    ultimately have "cstr (at_ptr (m'(s' := 0)) s) (Suc (Suc n)) = cstr (at_ptr m t) (Suc n)"
      using IH(4) False by (subst cstr_at_ptr_Suc) (simp add: cstr_at_ptr_Suc [of m t])
    moreover have "\<forall>a. a < s \<or> s + Suc n \<le> a \<longrightarrow> m' a = m a" using IH(3) by auto
    moreover have "s \<le> s'" and "s' \<le> s + Suc n" using IH(1,2) by simp_all
    ultimately show ?thesis by blast
  qed
qed

lemma safestrcpy_spec:
  assumes "0 < n" and "disjoint_ranges s t (nat n)"
  shows "cstr (at_ptr (safestrcpy s t n m) s) (nat n) = cstr (at_ptr m t) (nat (n - 1))
    \<and> (\<forall>a. a < s \<or> s + nat n \<le> a \<longrightarrow> safestrcpy s t n m a = m a)"
proof -
  obtain s' m' where c: "safestrcpy_copy s t (nat (n - 1)) m = (s', m')"
    by (metis surj_pair)
  have n: "nat n = Suc (nat (n - 1))" using assms(1) by simp
  have "disjoint_ranges s t (nat (n - 1))" using assms by (auto simp: disjoint_ranges_def)
  from safestrcpy_copy_spec [OF this c] assms(1) n show ?thesis
    by (auto simp: safestrcpy_def c)
qed

lemma strlen_from_eq:
  assumes "n \<le> k" and "s k = 0" and "\<And>i. n \<le> i \<Longrightarrow> i < k \<Longrightarrow> s i \<noteq> 0"
  shows "strlen_from s n = Some k"
  using assms
proof (induction "k - n" arbitrary: n)
  case 0
  then show ?case by (simp add: strlen_from.simps)
next
  case (Suc d)
  then have "s n \<noteq> 0" and "strlen_from s (Suc n) = Some k" by auto
  then show ?case by (simp add: strlen_from.simps [of s n])
qed

lemma strlen_eq:
  "s k = 0 \<Longrightarrow> (\<And>i. i < k \<Longrightarrow> s i \<noteq> 0) \<Longrightarrow> strlen s = Some k"
  by (simp add: strlen_def strlen_from_eq)

subsection \<open>Properties\<close>

text \<open>\<open>memmove\<close> (and \<open>memcpy\<close>, which calls it) copies the source bytes as they were before the call,
  for any overlap of the two ranges, and changes nothing else.\<close>

theorem memmove_copies:
  "memcpy dst src n m = memmove dst src n m
    \<and> memmove dst src n m = (\<lambda>a. if dst \<le> a \<and> a < dst + n then m (src + (a - dst)) else m a)"
  by (auto simp: memcpy_def memmove_eq)

text \<open>\<open>safestrcpy\<close> into a buffer of \<open>n > 0\<close> bytes leaves there the first \<open>n - 1\<close> bytes of the source
  string, always terminated by a zero, and writes nowhere else.\<close>

theorem safestrcpy_terminates:
  assumes "0 < n" and "disjoint_ranges s t (nat n)"
  shows "cstr (at_ptr (safestrcpy s t n m) s) (nat n) = cstr (at_ptr m t) (nat (n - 1))
    \<and> (\<exists>k < nat n. safestrcpy s t n m (s + k) = 0)
    \<and> (\<forall>a. a < s \<or> s + nat n \<le> a \<longrightarrow> safestrcpy s t n m a = m a)"
proof (intro conjI)
  note c = safestrcpy_spec [OF assms, of m]
  then show e: "cstr (at_ptr (safestrcpy s t n m) s) (nat n) = cstr (at_ptr m t) (nat (n - 1))" by simp
  show "\<forall>a. a < s \<or> s + nat n \<le> a \<longrightarrow> safestrcpy s t n m a = m a" using c by auto
  have "length (cstr (at_ptr (safestrcpy s t n m) s) (nat n)) < nat n"
    unfolding e using length_cstr [of "at_ptr m t" "nat (n - 1)"] assms(1) by linarith
  moreover have "length (cstr p k) = k" if "\<forall>i < k. p i \<noteq> 0" for p k
    using that by (simp add: cstr_def takeWhile_eq_all_conv [THEN iffD2])
  ultimately show "\<exists>k < nat n. safestrcpy s t n m (s + k) = 0"
    unfolding at_ptr_def by (metis nat_less_le)
qed

theorem safestrcpy_terminates_witness:
  "cstr (at_ptr (safestrcpy 0 8 4 (\<lambda>a. 65)) 0) 4 = [65, 65, 65]"
  using safestrcpy_terminates [of 4 0 8 "\<lambda>a. 65"] by (simp add: disjoint_ranges_def cstr_def at_ptr_def upt_rec)

end
