(* ===== verification/Proc.thy ===== *)
theory Proc
  imports Prelude
begin

text \<open>
  The process table and the process life cycle, \<open>kernel/proc.c\<close> as projects 1 and 5 have it;
  the record is extended by the scheduler of project 2 (theory \<open>Mlfq\<close>) and the threads of
  project 4 (theory \<open>Threads\<close>), which reuse the operations that are the same text there.

  A process is its index in \<open>ptable.proc\<close>; \<open>me\<close> is the index of the current process
  (\<open>proc\<close> in the C code). Every operation runs between taking and giving up \<open>ptable.lock\<close>,
  so it is one step of the table. The services of the other parts of the kernel that these
  operations call are collected in the record \<open>services\<close>; they act on the rest of the kernel
  state (\<open>world\<close>) and never see the process table.
\<close>

definition NPROC :: nat where "NPROC = 64"
definition NOFILE :: nat where "NOFILE = 16"

datatype procstate = UNUSED | EMBRYO | SLEEPING | RUNNABLE | RUNNING | ZOMBIE

text \<open>
  What a process sleeps on: the address of a process structure (\<open>wait\<close>), of the tick counter
  (\<open>sys_sleep\<close>) or of some other kernel object; \<open>NoChan\<close> is the null pointer.
\<close>

datatype wchan = NoChan | ProcChan nat | TicksChan | ObjChan u32

datatype kcontext = NoContext | Forkret | Swtched

record trapframe =
  eax :: u32
  eip :: u32
  esp :: u32
  ebp :: u32
  eflags :: u32
  cs_sel :: u16
  ds_sel :: u16
  es_sel :: u16
  ss_sel :: u16

record proc =
  sz :: u32
  pgdir :: u32
  kstack :: u32
  state :: procstate
  pid :: int
  parent :: "nat option"
  tf :: trapframe
  ctx :: kcontext
  chan :: wchan
  killed :: bool
  ofile :: "nat option list"
  cwd :: "nat option"
  pname :: string

record ('p, 'w) kernel =
  ptable :: "'p list"
  nextpid :: int
  initproc :: "nat option"
  world :: 'w

record 'w services =
  kalloc_s :: "'w \<Rightarrow> u32 \<times> 'w"
  kfree_s :: "u32 \<Rightarrow> 'w \<Rightarrow> kerr + 'w"
  setupkvm_s :: "'w \<Rightarrow> u32 \<times> 'w"
  inituvm_s :: "u32 \<Rightarrow> 'w \<Rightarrow> kerr + 'w"
  copyuvm_s :: "u32 \<Rightarrow> u32 \<Rightarrow> 'w \<Rightarrow> kerr + u32 \<times> 'w"
  allocuvm_s :: "u32 \<Rightarrow> u32 \<Rightarrow> u32 \<Rightarrow> 'w \<Rightarrow> kerr + u32 \<times> 'w"
  deallocuvm_s :: "u32 \<Rightarrow> u32 \<Rightarrow> u32 \<Rightarrow> 'w \<Rightarrow> kerr + u32 \<times> 'w"
  freevm_s :: "u32 \<Rightarrow> 'w \<Rightarrow> kerr + 'w"
  filedup_s :: "nat \<Rightarrow> 'w \<Rightarrow> kerr + 'w"
  fileclose_s :: "nat \<Rightarrow> 'w \<Rightarrow> kerr + 'w"
  idup_s :: "nat \<Rightarrow> 'w \<Rightarrow> kerr + 'w"
  iput_s :: "nat \<Rightarrow> 'w \<Rightarrow> kerr + 'w"
  namei_root_s :: "'w \<Rightarrow> kerr + nat option \<times> 'w"

definition upd_proc :: "nat \<Rightarrow> ('p \<Rightarrow> 'p) \<Rightarrow> ('p, 'w) kernel \<Rightarrow> ('p, 'w) kernel" where
  "upd_proc i f s = s\<lparr>ptable := (ptable s)[i := f (ptable s ! i)]\<rparr>"

text \<open>\<open>pinit\<close> leaves the statically zeroed table; \<open>NULL_proc\<close> is one zeroed entry.\<close>

definition NULL_tf :: trapframe where
  "NULL_tf = \<lparr>eax = 0, eip = 0, esp = 0, ebp = 0, eflags = 0, cs_sel = 0, ds_sel = 0, es_sel = 0, ss_sel = 0\<rparr>"

definition NULL_proc :: proc where
  "NULL_proc = \<lparr>sz = 0, pgdir = 0, kstack = 0, state = UNUSED, pid = 0, parent = None, tf = NULL_tf,
     ctx = NoContext, chan = NoChan, killed = False, ofile = replicate NOFILE None, cwd = None,
     pname = []\<rparr>"

definition boot_kernel :: "'p \<Rightarrow> 'w \<Rightarrow> ('p, 'w) kernel" where
  "boot_kernel null w = \<lparr>ptable = replicate NPROC null, nextpid = 1, initproc = None, world = w\<rparr>"

subsection \<open>Allocation of an entry\<close>

definition alloc_slot :: "('p proc_scheme, 'w) kernel \<Rightarrow> nat option" where
  "alloc_slot s = first_idx (\<lambda>p. state p = UNUSED) (ptable s)"

text \<open>
  \<open>init\<close> is what a version of the code sets in the entry beyond the common fields while it
  holds the lock (the thread counters of project 4).
\<close>

definition take_slot ::
  "('p proc_scheme \<Rightarrow> 'p proc_scheme) \<Rightarrow> nat \<Rightarrow> ('p proc_scheme, 'w) kernel \<Rightarrow> ('p proc_scheme, 'w) kernel" where
  "take_slot init i s =
     (upd_proc i (\<lambda>p. init (p\<lparr>state := EMBRYO, pid := nextpid s\<rparr>)) s)\<lparr>nextpid := int_succ (nextpid s)\<rparr>"

definition alloc_kstack ::
  "'w services \<Rightarrow> nat \<Rightarrow> ('p proc_scheme, 'w) kernel \<Rightarrow> nat option \<times> ('p proc_scheme, 'w) kernel" where
  "alloc_kstack svc i s =
     (let (ks, w) = kalloc_s svc (world s); s1 = s\<lparr>world := w\<rparr> in
      if ks = 0 then (None, upd_proc i (\<lambda>p. p\<lparr>kstack := 0, state := UNUSED\<rparr>) s1)
      else (Some i, upd_proc i (\<lambda>p. p\<lparr>kstack := ks, ctx := Forkret\<rparr>) s1))"

definition allocproc_with ::
  "'w services \<Rightarrow> ('p proc_scheme \<Rightarrow> 'p proc_scheme) \<Rightarrow> ('p proc_scheme, 'w) kernel
     \<Rightarrow> nat option \<times> ('p proc_scheme, 'w) kernel" where
  "allocproc_with svc init s =
     (case alloc_slot s of
        None \<Rightarrow> (None, s)
      | Some i \<Rightarrow> alloc_kstack svc i (take_slot init i s))"

definition allocproc ::
  "'w services \<Rightarrow> ('p proc_scheme, 'w) kernel \<Rightarrow> nat option \<times> ('p proc_scheme, 'w) kernel" where
  "allocproc svc s = allocproc_with svc (\<lambda>p. p) s"

text \<open>What the version-specific settings leave alone.\<close>

definition keeps_identity :: "('p proc_scheme \<Rightarrow> 'p proc_scheme) \<Rightarrow> bool" where
  "keeps_identity f = (\<forall>c. state (f c) = state c \<and> pid (f c) = pid c \<and> parent (f c) = parent c)"

lemma keeps_identity_id [simp]: "keeps_identity (\<lambda>c. c)"
  by (simp add: keeps_identity_def)

subsection \<open>The first process\<close>

definition user_tf :: trapframe where
  "user_tf = \<lparr>eax = 0, eip = 0, esp = 4096, ebp = 0, eflags = 0x200,
     cs_sel = push_bit 3 4 OR 3, ds_sel = push_bit 3 5 OR 3, es_sel = push_bit 3 5 OR 3,
     ss_sel = push_bit 3 5 OR 3\<rparr>"

definition userinit :: "'w services \<Rightarrow> ('p proc_scheme, 'w) kernel \<Rightarrow> kerr + ('p proc_scheme, 'w) kernel" where
  "userinit svc s =
     (case allocproc svc s of
        (None, s1) \<Rightarrow> Inl (Panic ''trap'')
      | (Some i, s1) \<Rightarrow>
          (let (pg, w) = setupkvm_s svc (world s1) in
           if pg = 0 then Inl (Panic ''userinit: out of memory?'')
           else bindE (inituvm_s svc pg w) (\<lambda>w1. bindE (namei_root_s svc w1) (\<lambda>(ip, w2).
             Inr ((upd_proc i (\<lambda>p. p\<lparr>pgdir := pg, sz := 4096, tf := user_tf,
                      pname := ''initcode'', cwd := ip, state := RUNNABLE\<rparr>) s1)
                    \<lparr>initproc := Some i, world := w2\<rparr>)))))"

subsection \<open>Growing memory\<close>

definition growproc ::
  "'w services \<Rightarrow> nat \<Rightarrow> int \<Rightarrow> ('p proc_scheme, 'w) kernel \<Rightarrow> kerr + int \<times> ('p proc_scheme, 'w) kernel" where
  "growproc svc me n s =
     (let p = ptable s ! me in
      bindE (if 0 < n then allocuvm_s svc (pgdir p) (sz p) (sz p + of_int n) (world s)
             else if n < 0 then deallocuvm_s svc (pgdir p) (sz p) (sz p + of_int n) (world s)
             else Inr (sz p, world s))
        (\<lambda>(sz', w).
           if n \<noteq> 0 \<and> sz' = 0 then Inr (-1, s\<lparr>world := w\<rparr>)
           else Inr (0, upd_proc me (\<lambda>p. p\<lparr>sz := sz'\<rparr>) (s\<lparr>world := w\<rparr>))))"

subsection \<open>fork\<close>

fun dup_files ::
  "'w services \<Rightarrow> nat option list \<Rightarrow> nat option list \<Rightarrow> 'w \<Rightarrow> kerr + nat option list \<times> 'w" where
  "dup_files svc (Some f # fs) (n # ns) w =
     bindE (filedup_s svc f w) (\<lambda>w1. bindE (dup_files svc fs ns w1) (\<lambda>(rs, w2). Inr (Some f # rs, w2)))"
| "dup_files svc (None # fs) (n # ns) w =
     bindE (dup_files svc fs ns w) (\<lambda>(rs, w2). Inr (n # rs, w2))"
| "dup_files svc fs ns w = Inr (ns, w)"

definition idup_opt :: "'w services \<Rightarrow> nat option \<Rightarrow> 'w \<Rightarrow> kerr + 'w" where
  "idup_opt svc ip w = (case ip of None \<Rightarrow> Inl (Panic ''trap'') | Some i \<Rightarrow> idup_s svc i w)"

text \<open>
  \<open>fork\<close> takes an entry and fills it in; between the two the entry is \<open>EMBRYO\<close> and the table lock is free.
  \<open>init0\<close> and \<open>init\<close> are what the version of the code sets in the entry at its allocation, and in the child
  beyond the common fields. The result is the child's pid, or -1.
\<close>

definition fork_fill ::
  "'w services \<Rightarrow> ('p proc_scheme \<Rightarrow> 'p proc_scheme) \<Rightarrow> nat \<Rightarrow> nat
     \<Rightarrow> ('p proc_scheme, 'w) kernel \<Rightarrow> kerr + int \<times> ('p proc_scheme, 'w) kernel" where
  "fork_fill svc init me np s1 =
          (let p = ptable s1 ! me in
           bindE (copyuvm_s svc (pgdir p) (sz p) (world s1)) (\<lambda>(pg, w1).
             if pg = 0 then
               bindE (kfree_s svc (kstack (ptable s1 ! np)) w1) (\<lambda>w2.
                 Inr (-1, upd_proc np (\<lambda>c. c\<lparr>pgdir := 0, kstack := 0, state := UNUSED\<rparr>) (s1\<lparr>world := w2\<rparr>)))
             else
               bindE (dup_files svc (ofile p) (ofile (ptable s1 ! np)) w1) (\<lambda>(fs, w2).
                 bindE (idup_opt svc (cwd p) w2) (\<lambda>w3.
                   Inr (pid (ptable s1 ! np),
                     upd_proc np (\<lambda>c. init (c\<lparr>pgdir := pg, sz := sz p, parent := Some me,
                         tf := (tf p)\<lparr>eax := 0\<rparr>, ofile := fs, cwd := cwd p, state := RUNNABLE,
                         pname := pname p\<rparr>)) (s1\<lparr>world := w3\<rparr>))))))"

definition fork_with ::
  "'w services \<Rightarrow> ('p proc_scheme \<Rightarrow> 'p proc_scheme) \<Rightarrow> ('p proc_scheme \<Rightarrow> 'p proc_scheme) \<Rightarrow> nat
     \<Rightarrow> ('p proc_scheme, 'w) kernel \<Rightarrow> kerr + int \<times> ('p proc_scheme, 'w) kernel" where
  "fork_with svc init0 init me s =
     (case allocproc_with svc init0 s of
        (None, s1) \<Rightarrow> Inr (-1, s1)
      | (Some np, s1) \<Rightarrow> fork_fill svc init me np s1)"

definition fork :: "'w services \<Rightarrow> nat \<Rightarrow> ('p proc_scheme, 'w) kernel \<Rightarrow> kerr + int \<times> ('p proc_scheme, 'w) kernel" where
  "fork svc me s = fork_with svc (\<lambda>c. c) (\<lambda>c. c) me s"

subsection \<open>Sleep and wakeup\<close>

definition wakeup1 :: "wchan \<Rightarrow> ('p proc_scheme, 'w) kernel \<Rightarrow> ('p proc_scheme, 'w) kernel" where
  "wakeup1 c s = s\<lparr>ptable := map (\<lambda>p. if state p = SLEEPING \<and> chan p = c
     then p\<lparr>state := RUNNABLE\<rparr> else p) (ptable s)\<rparr>"

definition wakeup :: "wchan \<Rightarrow> ('p proc_scheme, 'w) kernel \<Rightarrow> ('p proc_scheme, 'w) kernel" where
  "wakeup c s = wakeup1 c s"

text \<open>\<open>sleep\<close> up to the call of \<open>sched\<close>, and what it does when it is scheduled again.\<close>

definition sleep_enter :: "wchan \<Rightarrow> nat \<Rightarrow> ('p proc_scheme, 'w) kernel \<Rightarrow> ('p proc_scheme, 'w) kernel" where
  "sleep_enter c me s = upd_proc me (\<lambda>p. p\<lparr>chan := c, state := SLEEPING, ctx := Swtched\<rparr>) s"

definition sleep_resume :: "nat \<Rightarrow> ('p proc_scheme, 'w) kernel \<Rightarrow> ('p proc_scheme, 'w) kernel" where
  "sleep_resume me s = upd_proc me (\<lambda>p. p\<lparr>chan := NoChan\<rparr>) s"

definition yield :: "nat \<Rightarrow> ('p proc_scheme, 'w) kernel \<Rightarrow> ('p proc_scheme, 'w) kernel" where
  "yield me s = upd_proc me (\<lambda>p. p\<lparr>state := RUNNABLE, ctx := Swtched\<rparr>) s"

definition kill :: "int \<Rightarrow> ('p proc_scheme, 'w) kernel \<Rightarrow> int \<times> ('p proc_scheme, 'w) kernel" where
  "kill n s =
     (case first_idx (\<lambda>p. pid p = n) (ptable s) of
        None \<Rightarrow> (-1, s)
      | Some i \<Rightarrow> (0, upd_proc i (\<lambda>p. p\<lparr>killed := True,
           state := (if state p = SLEEPING then RUNNABLE else state p)\<rparr>) s))"

subsection \<open>exit and wait\<close>

fun close_files :: "'w services \<Rightarrow> nat option list \<Rightarrow> 'w \<Rightarrow> kerr + 'w" where
  "close_files svc [] w = Inr w"
| "close_files svc (None # fs) w = close_files svc fs w"
| "close_files svc (Some f # fs) w = bindE (fileclose_s svc f w) (\<lambda>w1. close_files svc fs w1)"

definition iput_opt :: "'w services \<Rightarrow> nat option \<Rightarrow> 'w \<Rightarrow> kerr + 'w" where
  "iput_opt svc ip w = (case ip of None \<Rightarrow> Inl (Panic ''trap'') | Some i \<Rightarrow> iput_s svc i w)"

definition ptr_chan :: "nat option \<Rightarrow> wchan" where
  "ptr_chan p = (case p of None \<Rightarrow> NoChan | Some i \<Rightarrow> ProcChan i)"

text \<open>One iteration of the loop that hands the children of \<open>me\<close> to the first process.\<close>

definition reparent :: "nat \<Rightarrow> ('p proc_scheme, 'w) kernel \<Rightarrow> nat \<Rightarrow> ('p proc_scheme, 'w) kernel" where
  "reparent me s i =
     (if parent (ptable s ! i) = Some me then
        (let s1 = upd_proc i (\<lambda>p. p\<lparr>parent := initproc s\<rparr>) s in
         if state (ptable s1 ! i) = ZOMBIE then wakeup1 (ptr_chan (initproc s)) s1 else s1)
      else s)"

definition exit_proc :: "'w services \<Rightarrow> nat \<Rightarrow> ('p proc_scheme, 'w) kernel \<Rightarrow> kerr + ('p proc_scheme, 'w) kernel" where
  "exit_proc svc me s =
     (if initproc s = Some me then Inl (Panic ''init exiting'')
      else
        bindE (close_files svc (ofile (ptable s ! me)) (world s)) (\<lambda>w1.
          bindE (iput_opt svc (cwd (ptable s ! me)) w1) (\<lambda>w2.
            (let s1 = upd_proc me (\<lambda>p. p\<lparr>ofile := replicate (length (ofile p)) None, cwd := None\<rparr>)
                        (s\<lparr>world := w2\<rparr>);
                 s2 = wakeup1 (ptr_chan (parent (ptable s1 ! me))) s1;
                 s3 = foldl (reparent me) s2 [0..<NPROC]
             in Inr (upd_proc me (\<lambda>p. p\<lparr>state := ZOMBIE, ctx := Swtched\<rparr>) s3)))))"

datatype wait_result = Reaped int | NoWait | WaitSleep

definition reap_fields :: "'p proc_scheme \<Rightarrow> 'p proc_scheme" where
  "reap_fields p = p\<lparr>kstack := 0, state := UNUSED, pid := 0, parent := None, pname := [], killed := False\<rparr>"

text \<open>
  One turn of the loop of \<open>wait\<close>: \<open>Reaped pid\<close>, \<open>NoWait\<close> (the result -1), or \<open>WaitSleep\<close>, after
  which the loop starts again when a child exits.
\<close>

definition wait_proc ::
  "'w services \<Rightarrow> nat \<Rightarrow> ('p proc_scheme, 'w) kernel \<Rightarrow> kerr + wait_result \<times> ('p proc_scheme, 'w) kernel" where
  "wait_proc svc me s =
     (case first_idx (\<lambda>p. parent p = Some me \<and> state p = ZOMBIE) (ptable s) of
        Some i \<Rightarrow>
          (let p = ptable s ! i in
           bindE (kfree_s svc (kstack p) (world s)) (\<lambda>w1.
             bindE (freevm_s svc (pgdir p) w1) (\<lambda>w2.
               Inr (Reaped (pid p), upd_proc i reap_fields (s\<lparr>world := w2\<rparr>)))))
      | None \<Rightarrow>
          if (\<forall>p \<in> set (ptable s). parent p \<noteq> Some me) \<or> killed (ptable s ! me) then Inr (NoWait, s)
          else Inr (WaitSleep, sleep_enter (ProcChan me) me s))"

subsection \<open>Entering the scheduler, and its loop\<close>

text \<open>The checks of \<open>sched\<close>, in their order; on success the process's context is saved.\<close>

definition sched ::
  "bool \<Rightarrow> int \<Rightarrow> bool \<Rightarrow> nat \<Rightarrow> ('p proc_scheme, 'w) kernel \<Rightarrow> kerr + ('p proc_scheme, 'w) kernel" where
  "sched holding ncli ints_on me s =
     (if \<not> holding then Inl (Panic ''sched ptable.lock'')
      else if ncli \<noteq> 1 then Inl (Panic ''sched locks'')
      else if state (ptable s ! me) = RUNNING then Inl (Panic ''sched running'')
      else if ints_on then Inl (Panic ''sched interruptible'')
      else Inr (upd_proc me (\<lambda>p. p\<lparr>ctx := Swtched\<rparr>) s))"

text \<open>
  One pass of the scheduler over the table. \<open>run i\<close> is what happens from \<open>swtch\<close> into
  process \<open>i\<close> until that process comes back to the scheduler: any change of the kernel state.
\<close>

definition sched_visit ::
  "(nat \<Rightarrow> ('p proc_scheme, 'w) kernel \<Rightarrow> ('p proc_scheme, 'w) kernel) \<Rightarrow> ('p proc_scheme, 'w) kernel
     \<Rightarrow> nat \<Rightarrow> ('p proc_scheme, 'w) kernel" where
  "sched_visit run s i =
     (if state (ptable s ! i) \<noteq> RUNNABLE then s
      else run i (upd_proc i (\<lambda>p. p\<lparr>state := RUNNING\<rparr>) s))"

definition scheduler_pass ::
  "(nat \<Rightarrow> ('p proc_scheme, 'w) kernel \<Rightarrow> ('p proc_scheme, 'w) kernel) \<Rightarrow> ('p proc_scheme, 'w) kernel
     \<Rightarrow> ('p proc_scheme, 'w) kernel" where
  "scheduler_pass run s = foldl (sched_visit run) s [0..<NPROC]"

subsection \<open>Frame lemmas\<close>

abbreviation st :: "('p proc_scheme, 'w) kernel \<Rightarrow> nat \<Rightarrow> procstate" where
  "st s i \<equiv> state (ptable s ! i)"

abbreviation par :: "('p proc_scheme, 'w) kernel \<Rightarrow> nat \<Rightarrow> nat option" where
  "par s i \<equiv> parent (ptable s ! i)"

abbreviation pd :: "('p proc_scheme, 'w) kernel \<Rightarrow> nat \<Rightarrow> int" where
  "pd s i \<equiv> pid (ptable s ! i)"

lemma upd_proc_simps [simp]:
  "length (ptable (upd_proc i f s)) = length (ptable s)"
  "nextpid (upd_proc i f s) = nextpid s"
  "initproc (upd_proc i f s) = initproc s"
  "world (upd_proc i f s) = world s"
  by (simp_all add: upd_proc_def)

lemma upd_proc_nth:
  "j < length (ptable s) \<Longrightarrow> ptable (upd_proc i f s) ! j = (if j = i then f (ptable s ! i) else ptable s ! j)"
  by (simp add: upd_proc_def nth_list_update)

lemma wakeup1_simps [simp]:
  "length (ptable (wakeup1 c s)) = length (ptable s)"
  "nextpid (wakeup1 c s) = nextpid s"
  "initproc (wakeup1 c s) = initproc s"
  "world (wakeup1 c s) = world s"
  by (simp_all add: wakeup1_def)

lemma wakeup1_nth:
  "j < length (ptable s) \<Longrightarrow> ptable (wakeup1 c s) ! j =
     (if st s j = SLEEPING \<and> chan (ptable s ! j) = c then (ptable s ! j)\<lparr>state := RUNNABLE\<rparr> else ptable s ! j)"
  by (simp add: wakeup1_def)

lemmas table_simps = upd_proc_nth wakeup1_nth

text \<open>What \<open>wakeup1\<close> may do to an entry: nothing but waking it.\<close>

definition woken :: "'p proc_scheme \<Rightarrow> 'p proc_scheme \<Rightarrow> bool" where
  "woken p q = (q = p \<or> (state p = SLEEPING \<and> q = p\<lparr>state := RUNNABLE\<rparr>))"

lemma woken_refl [simp]: "woken p p"
  by (simp add: woken_def)

lemma woken_fields:
  "woken p q \<Longrightarrow> parent q = parent p \<and> pid q = pid p \<and> chan q = chan p \<and> ofile q = ofile p \<and> cwd q = cwd p \<and> (state q = UNUSED) = (state p = UNUSED)
     \<and> (state q = ZOMBIE) = (state p = ZOMBIE) \<and> (state q \<noteq> state p \<longrightarrow> state p = SLEEPING \<and> state q = RUNNABLE)"
  by (auto simp: woken_def)

lemma woken_wakeup1: "j < length (ptable s) \<Longrightarrow> woken (ptable s ! j) (ptable (wakeup1 c s) ! j)"
  by (simp add: wakeup1_nth woken_def)

lemma reparent_simps [simp]:
  "length (ptable (reparent me s i)) = length (ptable s)"
  "nextpid (reparent me s i) = nextpid s"
  "initproc (reparent me s i) = initproc s"
  "world (reparent me s i) = world s"
  by (simp_all add: reparent_def Let_def)

lemma reparent_fold_simps [simp]:
  "length (ptable (foldl (reparent me) s xs)) = length (ptable s)"
  "nextpid (foldl (reparent me) s xs) = nextpid s"
  "initproc (foldl (reparent me) s xs) = initproc s"
  "world (foldl (reparent me) s xs) = world s"
  by (induction xs arbitrary: s) simp_all

lemma reparent_nth:
  assumes "j < length (ptable s)"
  shows "woken ((ptable s ! j)\<lparr>parent := (if j = i \<and> par s j = Some me then initproc s else par s j)\<rparr>)
           (ptable (reparent me s i) ! j)"
  using assms by (auto simp: reparent_def Let_def table_simps woken_def)

lemma reparent_fold_nth:
  assumes "j < length (ptable s)" and "n \<le> length (ptable s)"
  shows "parent (ptable (foldl (reparent me) s [0..<n]) ! j)
      = (if j < n \<and> par s j = Some me then initproc s else par s j)
    \<and> woken ((ptable s ! j)\<lparr>parent := parent (ptable (foldl (reparent me) s [0..<n]) ! j)\<rparr>)
        (ptable (foldl (reparent me) s [0..<n]) ! j)"
  using assms(2)
proof (induction n)
  case 0
  then show ?case by simp
next
  case (Suc n)
  let ?s = "foldl (reparent me) s [0..<n]"
  have "woken ((ptable ?s ! j)\<lparr>parent := (if j = n \<and> par ?s j = Some me then initproc s else par ?s j)\<rparr>)
          (ptable (reparent me ?s n) ! j)"
    using reparent_nth [of j ?s n me] assms(1) by (simp only: reparent_fold_simps)
  with Suc show ?case by (auto simp: woken_def less_Suc_eq split: if_splits)
qed

subsection \<open>The process-table invariant\<close>

text \<open>
  Live entries have distinct pids below \<open>nextpid\<close>; unused entries and those in the making have no parent;
  the parent of an entry is another entry that is complete and has not exited, and so is the first process, which
  has no parent. A process that sleeps in \<open>wait\<close> has no child that has already exited.
\<close>

definition alive :: "('p proc_scheme, 'w) kernel \<Rightarrow> nat \<Rightarrow> bool" where
  "alive s i = (i < NPROC \<and> st s i \<notin> {UNUSED, EMBRYO, ZOMBIE})"

definition pids_ok :: "('p proc_scheme, 'w) kernel \<Rightarrow> bool" where
  "pids_ok s = (length (ptable s) = NPROC \<and> 0 < nextpid s
    \<and> (\<forall>i < NPROC. st s i \<noteq> UNUSED \<longrightarrow> 0 < pd s i \<and> pd s i < nextpid s)
    \<and> (\<forall>i < NPROC. \<forall>j < NPROC. i \<noteq> j \<longrightarrow> st s i \<noteq> UNUSED \<longrightarrow> st s j \<noteq> UNUSED \<longrightarrow> pd s i \<noteq> pd s j))"

definition family_ok :: "('p proc_scheme, 'w) kernel \<Rightarrow> bool" where
  "family_ok s = ((\<forall>i < NPROC. st s i \<in> {UNUSED, EMBRYO} \<longrightarrow> par s i = None)
    \<and> (\<forall>i < NPROC. \<forall>j. par s i = Some j \<longrightarrow> alive s j \<and> j \<noteq> i)
    \<and> (\<forall>k. initproc s = Some k \<longrightarrow> alive s k \<and> par s k = None))"

text \<open>
  \<open>table_inv True\<close> has both parts; \<open>table_inv False\<close> is what is left when \<open>nextpid\<close> has gone round and pids
  may repeat.
\<close>

definition table_inv :: "bool \<Rightarrow> ('p proc_scheme, 'w) kernel \<Rightarrow> bool" where
  "table_inv up s = (length (ptable s) = NPROC \<and> (up \<longrightarrow> pids_ok s) \<and> family_ok s)"

definition in_wait :: "('p proc_scheme, 'w) kernel \<Rightarrow> nat \<Rightarrow> bool" where
  "in_wait s i = (st s i = SLEEPING \<and> chan (ptable s ! i) = ProcChan i)"

definition waiters_ok :: "('p proc_scheme, 'w) kernel \<Rightarrow> bool" where
  "waiters_ok s = (\<forall>i < NPROC. \<forall>j < NPROC. in_wait s i \<longrightarrow> par s j = Some i \<longrightarrow> st s j \<noteq> ZOMBIE)"

definition kernel_inv :: "bool \<Rightarrow> ('p proc_scheme, 'w) kernel \<Rightarrow> bool" where
  "kernel_inv up s = (table_inv up s \<and> waiters_ok s)"

lemma table_inv_boot: "state null = UNUSED \<Longrightarrow> parent null = None \<Longrightarrow> table_inv up (boot_kernel null w)"
  by (simp add: table_inv_def pids_ok_def family_ok_def boot_kernel_def)

text \<open>
  Most operations change no entry's existence, pid or parent: then the invariant is kept.
\<close>

lemma table_inv_same:
  assumes "table_inv up s" and "length (ptable t) = length (ptable s)"
    and "nextpid t = nextpid s" and "initproc t = initproc s"
    and "\<And>i. i < NPROC \<Longrightarrow> pd t i = pd s i \<and> par t i = par s i
           \<and> (st t i = UNUSED) = (st s i = UNUSED) \<and> (st t i = ZOMBIE) = (st s i = ZOMBIE)
           \<and> (st t i = EMBRYO) = (st s i = EMBRYO)"
  shows "table_inv up t"
proof -
  have eqs: "pd t i = pd s i" "par t i = par s i" "(st t i = UNUSED) = (st s i = UNUSED)"
    "(st t i = ZOMBIE) = (st s i = ZOMBIE)" "(st t i = EMBRYO) = (st s i = EMBRYO)" if "i < NPROC" for i
    using assms(5) [OF that] by simp_all
  have al: "alive t i = alive s i" for i
    by (cases "i < NPROC") (simp_all add: alive_def eqs)
  have "length (ptable t) = NPROC \<and> (up \<longrightarrow> pids_ok t)" using assms(1-4) by (simp add: table_inv_def pids_ok_def eqs)
  moreover have "family_ok t"
    unfolding family_ok_def al assms(4)
  proof (intro conjI allI impI)
    have fam: "family_ok s" using assms(1) by (simp add: table_inv_def)
    fix i assume i: "i < NPROC"
    show "par t i = None" if "st t i \<in> {UNUSED, EMBRYO}" using that fam i eqs [OF i] by (auto simp: family_ok_def)
    show "alive s j" "j \<noteq> i" if "par t i = Some j" for j using that fam i eqs [OF i] by (auto simp: family_ok_def)
  next
    fix k assume "initproc s = Some k"
    then have "alive s k" "par s k = None" using assms(1) by (auto simp: table_inv_def family_ok_def)
    then show "alive s k" "par t k = None" using eqs(2) [of k] by (auto simp: alive_def)
  qed
  ultimately show ?thesis by (simp add: table_inv_def)
qed

lemma table_inv_length: "table_inv up s \<Longrightarrow> length (ptable s) = NPROC"
  by (simp add: table_inv_def pids_ok_def)

lemma table_inv_wakeup: "table_inv up s \<Longrightarrow> table_inv up (wakeup c s)"
  by (rule table_inv_same) (auto simp: wakeup_def table_inv_length wakeup1_nth)

lemma table_inv_upd:
  assumes "table_inv up s"
    and "\<And>p. pid (f p) = pid p \<and> parent (f p) = parent p
          \<and> (state (f p) = UNUSED) = (state p = UNUSED) \<and> (state (f p) = ZOMBIE) = (state p = ZOMBIE)
          \<and> (state (f p) = EMBRYO) = (state p = EMBRYO)"
  shows "table_inv up (upd_proc i f s)"
  by (rule table_inv_same [OF assms(1)]) (auto simp: table_inv_length [OF assms(1)] upd_proc_nth assms(2))

lemma table_inv_world: "table_inv up (s\<lparr>world := w\<rparr>) = table_inv up s"
  by (simp add: table_inv_def pids_ok_def family_ok_def alive_def)

lemma table_inv_kill:
  assumes "table_inv up s"
  shows "table_inv up (snd (kill n s))"
proof (cases "first_idx (\<lambda>p. pid p = n) (ptable s)")
  case None
  then show ?thesis using assms by (simp add: kill_def)
next
  case (Some i)
  have "table_inv up (upd_proc i (\<lambda>p. p\<lparr>killed := True,
           state := (if state p = SLEEPING then RUNNABLE else state p)\<rparr>) s)"
    by (rule table_inv_upd [OF assms]) simp
  with Some show ?thesis by (simp add: kill_def)
qed

lemma alloc_slotD:
  assumes "alloc_slot s = Some i" and "length (ptable s) = NPROC"
  shows "i < NPROC" and "st s i = UNUSED" and "\<And>j. j < i \<Longrightarrow> st s j \<noteq> UNUSED"
  using assms first_idx_SomeD [of _ "ptable s" i] by (auto simp: alloc_slot_def)

text \<open>The entry that \<open>allocproc\<close> returns, and the rest of the table.\<close>

lemma allocproc_Some:
  assumes inv: "table_inv up s" and init: "keeps_identity init" and a: "allocproc_with svc init s = (Some i, s1)"
  shows "i < NPROC" and "st s i = UNUSED" and "nextpid s1 = int_succ (nextpid s)" and "initproc s1 = initproc s"
    and "length (ptable s1) = NPROC" and "world s1 = snd (kalloc_s svc (world s))"
    and "ptable s1 ! i = (init ((ptable s ! i)\<lparr>state := EMBRYO, pid := nextpid s\<rparr>))
            \<lparr>kstack := fst (kalloc_s svc (world s)), ctx := Forkret\<rparr>"
    and "st s1 i = EMBRYO \<and> pd s1 i = nextpid s \<and> par s1 i = None"
    and "\<And>j. j < NPROC \<Longrightarrow> j \<noteq> i \<Longrightarrow> ptable s1 ! j = ptable s ! j"
    and "fst (kalloc_s svc (world s)) \<noteq> 0"
proof -
  have sl: "alloc_slot s = Some i" and k: "alloc_kstack svc i (take_slot init i s) = (Some i, s1)"
    using a by (auto simp: allocproc_with_def alloc_kstack_def Let_def split: option.splits prod.splits if_splits)
  note len = table_inv_length [OF inv]
  show i: "i < NPROC" and un: "st s i = UNUSED" using alloc_slotD [OF sl len] by auto
  show "nextpid s1 = int_succ (nextpid s)" "initproc s1 = initproc s" "length (ptable s1) = NPROC"
    "world s1 = snd (kalloc_s svc (world s))" "fst (kalloc_s svc (world s)) \<noteq> 0"
    using k len by (auto simp: alloc_kstack_def take_slot_def Let_def split: prod.splits if_splits)
  show e: "ptable s1 ! i = (init ((ptable s ! i)\<lparr>state := EMBRYO, pid := nextpid s\<rparr>))
            \<lparr>kstack := fst (kalloc_s svc (world s)), ctx := Forkret\<rparr>"
    using k len i by (auto simp: alloc_kstack_def take_slot_def Let_def upd_proc_def split: prod.splits if_splits)
  have "par s i = None" using inv i un by (simp add: table_inv_def family_ok_def)
  then show "st s1 i = EMBRYO \<and> pd s1 i = nextpid s \<and> par s1 i = None"
    using init by (simp add: e keeps_identity_def)
  show "ptable s1 ! j = ptable s ! j" if "j < NPROC" "j \<noteq> i" for j
    using k len i that by (auto simp: alloc_kstack_def take_slot_def Let_def upd_proc_def split: prod.splits if_splits)
qed

text \<open>When it fails: no entry is free and nothing changes, or no page is free.\<close>

lemma allocproc_None:
  assumes inv: "table_inv up s" and init: "keeps_identity init" and a: "allocproc_with svc init s = (None, s1)"
  obtains (full) "s1 = s" "\<forall>j < NPROC. st s j \<noteq> UNUSED"
  | (nopage) i where "fst (kalloc_s svc (world s)) = 0" "i < NPROC" "st s i = UNUSED"
      "st s1 i = UNUSED \<and> par s1 i = None" "\<And>j. j < NPROC \<Longrightarrow> j \<noteq> i \<Longrightarrow> ptable s1 ! j = ptable s ! j"
      "nextpid s1 = int_succ (nextpid s)" "initproc s1 = initproc s" "length (ptable s1) = NPROC"
proof (cases "alloc_slot s")
  case None
  then have "s1 = s" using a by (simp add: allocproc_with_def)
  moreover have "\<forall>j < NPROC. st s j \<noteq> UNUSED"
    using None table_inv_length [OF inv] by (auto simp: alloc_slot_def first_idx_None_iff)
  ultimately show ?thesis by (rule full)
next
  case (Some i)
  note len = table_inv_length [OF inv]
  note sl = alloc_slotD [OF Some len]
  have s1: "s1 = upd_proc i (\<lambda>p. p\<lparr>kstack := 0, state := UNUSED\<rparr>)
      ((take_slot init i s)\<lparr>world := snd (kalloc_s svc (world s))\<rparr>)" and z: "fst (kalloc_s svc (world s)) = 0"
    using a Some by (auto simp: allocproc_with_def alloc_kstack_def take_slot_def Let_def split: prod.splits if_splits)
  have pi: "par s i = None" using inv sl(1,2) by (simp add: table_inv_def family_ok_def)
  have "st s1 i = UNUSED \<and> par s1 i = None"
    using sl(1) len pi init by (simp add: s1 take_slot_def upd_proc_def keeps_identity_def)
  moreover have "ptable s1 ! j = ptable s ! j" if "j < NPROC" "j \<noteq> i" for j
    using that sl(1) len by (simp add: s1 take_slot_def upd_proc_def)
  moreover have "nextpid s1 = int_succ (nextpid s)" "initproc s1 = initproc s" "length (ptable s1) = NPROC"
    using len by (simp_all add: s1 take_slot_def)
  ultimately show ?thesis using nopage z sl(1,2) by blast
qed

end
