(* ===== verification/ProcSteps.thy ===== *)
theory ProcSteps
  imports Proc
begin

text \<open>
  The life cycle of processes as a step relation over the process table, and the invariant
  that every reachable table satisfies. A step is one critical section of \<open>kernel/proc.c\<close>:
  an operation of theory \<open>Proc\<close> performed by a running process (or by the scheduler or an
  interrupt handler), in any interleaving of the processes.
\<close>

subsection \<open>One entry is filled\<close>

lemma table_inv_fill:
  assumes inv: "table_inv up s" and i: "i < NPROC" "st s i = UNUSED"
    and rest: "\<And>j. j < NPROC \<Longrightarrow> j \<noteq> i \<Longrightarrow> ptable t ! j = ptable s ! j"
    and len: "length (ptable t) = NPROC" and np: "nextpid t = int_succ (nextpid s)"
    and new: "(st t i = UNUSED \<and> par t i = None)
        \<or> (st t i = EMBRYO \<and> pd t i = nextpid s \<and> par t i = None)
        \<or> (st t i = RUNNABLE \<and> pd t i = nextpid s \<and> (case par t i of None \<Rightarrow> True | Some j \<Rightarrow> alive s j))"
    and low: "up \<longrightarrow> nextpid s < INT_MAX"
    and ini: "initproc t = initproc s \<or> (initproc t = Some i \<and> st t i = RUNNABLE \<and> par t i = None)"
  shows "table_inv up t"
proof -
  have fam: "family_ok s" using inv by (auto simp: table_inv_def)
  have al: "alive t j" if "alive s j" for j
    using that rest i by (cases "j = i") (auto simp: alive_def)
  have ni: "\<not> alive s i" using i by (simp add: alive_def)
  have "pids_ok t" if up
    unfolding pids_ok_def
  proof (intro conjI allI impI)
    have pids: "pids_ok s" and np: "nextpid t = nextpid s + 1" using inv np low that by (auto simp: table_inv_def)
    show "length (ptable t) = NPROC" by (rule len)
    show "0 < nextpid t" using pids np by (simp add: pids_ok_def)
    have fresh: "0 < nextpid s" using pids by (simp add: pids_ok_def)
    fix j assume j: "j < NPROC" "st t j \<noteq> UNUSED"
    have b: "0 < pd s k \<and> pd s k < nextpid s" if "k < NPROC" "k \<noteq> i" "st t k \<noteq> UNUSED" for k
      using that pids rest by (auto simp: pids_ok_def)
    have bi: "pd t i = nextpid s \<and> 0 < nextpid s" if "st t i \<noteq> UNUSED"
      using that new pids by (auto simp: pids_ok_def)
    show "0 < pd t j" "pd t j < nextpid t"
      using b [of j] bi j rest [of j] np by (cases "j = i"; auto)+
    fix k assume k: "k < NPROC" "j \<noteq> k" "st t k \<noteq> UNUSED"
    show "pd t j \<noteq> pd t k"
    proof (cases "j = i \<or> k = i")
      case True
      then show ?thesis using b [of j] b [of k] bi j k rest [of j] rest [of k] by auto
    next
      case False
      then show ?thesis using pids j k rest [of j] rest [of k] by (auto simp: pids_ok_def)
    qed
  qed
  moreover have "family_ok t"
    unfolding family_ok_def
  proof (intro conjI allI impI)
    fix j assume j: "j < NPROC"
    { assume "st t j \<in> {UNUSED, EMBRYO}"
      then show "par t j = None" using new fam rest [of j] j by (cases "j = i") (auto simp: family_ok_def) }
    fix k assume k: "par t j = Some k"
    show "alive t k"
      using new fam rest [of j] j k al by (cases "j = i") (auto simp: family_ok_def)
    show "k \<noteq> j"
      using new fam rest [of j] j k ni by (cases "j = i") (auto simp: family_ok_def)
  next
    fix k assume k: "initproc t = Some k"
    show "alive t k" using ini
    proof
      assume "initproc t = initproc s"
      then show ?thesis using k fam al by (simp add: family_ok_def)
    next
      assume "initproc t = Some i \<and> st t i = RUNNABLE \<and> par t i = None"
      then show ?thesis using k i by (simp add: alive_def)
    qed
    show "par t k = None"
      using ini
    proof
      assume "initproc t = initproc s"
      then have "alive s k" "par s k = None" using k fam by (auto simp: family_ok_def)
      then show ?thesis using rest [of k] i by (cases "k = i") (auto simp: alive_def)
    qed (use k in auto)
  qed
  ultimately show ?thesis using len by (simp add: table_inv_def)
qed

lemma kernel_inv_fill:
  assumes inv: "kernel_inv up s" and i: "i < NPROC" "st s i = UNUSED"
    and rest: "\<And>j. j < NPROC \<Longrightarrow> j \<noteq> i \<Longrightarrow> ptable t ! j = ptable s ! j"
    and len: "length (ptable t) = NPROC" and np: "nextpid t = int_succ (nextpid s)"
    and new: "(st t i = UNUSED \<and> par t i = None)
        \<or> (st t i = EMBRYO \<and> pd t i = nextpid s \<and> par t i = None)
        \<or> (st t i = RUNNABLE \<and> pd t i = nextpid s \<and> (case par t i of None \<Rightarrow> True | Some j \<Rightarrow> alive s j))"
    and low: "up \<longrightarrow> nextpid s < INT_MAX"
    and ini: "initproc t = initproc s \<or> (initproc t = Some i \<and> st t i = RUNNABLE \<and> par t i = None)"
  shows "kernel_inv up t"
proof -
  have wt: "waiters_ok s" and tinv: "table_inv up s" using inv by (auto simp: kernel_inv_def)
  have "waiters_ok t"
    unfolding waiters_ok_def
  proof (intro allI impI)
    fix w j assume a: "w < NPROC" "j < NPROC" "in_wait t w" "par t j = Some w"
    have "w \<noteq> i" using a(3) new by (auto simp: in_wait_def)
    then have iw: "in_wait s w" using a rest [of w] by (simp add: in_wait_def)
    show "st t j \<noteq> ZOMBIE"
    proof (cases "j = i")
      case True
      then show ?thesis using new by auto
    next
      case False
      then show ?thesis using a iw rest [of j] wt by (auto simp: waiters_ok_def)
    qed
  qed
  then show ?thesis
    using table_inv_fill [OF tinv i rest len np new low ini] by (simp add: kernel_inv_def)
qed

lemma kernel_inv_length: "kernel_inv up s \<Longrightarrow> length (ptable s) = NPROC"
  unfolding kernel_inv_def using table_inv_length by blast

subsection \<open>fork\<close>

text \<open>
  What \<open>fork\<close> does to the table: one free entry is taken and stays free (the result is -1), or
  becomes a runnable child of the caller with the next pid, which is the result; or no entry is
  free and nothing changes. Every other entry is as before.
\<close>

definition fork_shape :: "int \<Rightarrow> nat \<Rightarrow> ('p proc_scheme, 'w) kernel \<Rightarrow> ('p proc_scheme, 'w) kernel \<Rightarrow> nat \<Rightarrow> bool" where
  "fork_shape r me s t i =
     (i < NPROC \<and> st s i = UNUSED \<and> length (ptable t) = NPROC \<and> nextpid t = int_succ (nextpid s)
      \<and> initproc t = initproc s
      \<and> (r = -1 \<and> st t i = UNUSED \<and> par t i = None
         \<or> r = nextpid s \<and> st t i = RUNNABLE \<and> pd t i = r \<and> par t i = Some me))"

lemma fork_with_cases:
  assumes tinv: "table_inv up s" and f: "fork_with svc init0 init me s = Inr (r, t)"
    and init: "keeps_identity init0" "keeps_identity init"
  obtains (full) "t = s" "r = -1" "\<forall>j < NPROC. st s j \<noteq> UNUSED"
  | (entry) i where "fork_shape r me s t i" "\<And>j. j < NPROC \<Longrightarrow> j \<noteq> i \<Longrightarrow> ptable t ! j = ptable s ! j"
proof -
  obtain o1 s1 where a: "allocproc_with svc init0 s = (o1, s1)" by fastforce
  show ?thesis
  proof (cases o1)
    case None
    then have t: "t = s1" "r = -1" using f a by (simp_all add: fork_with_def fork_fill_def)
    from tinv init(1) a [unfolded None] show ?thesis
    proof (cases rule: allocproc_None)
      case full
      with t show ?thesis using that(1) by blast
    next
      case (nopage i)
      with t show ?thesis using that(2) [of i] by (auto simp: fork_shape_def)
    qed
  next
    case (Some np)
    note A = allocproc_Some [OF tinv init(1) a [unfolded Some]]
    obtain pg w1 where c: "copyuvm_s svc (pgdir (ptable s1 ! me)) (sz (ptable s1 ! me)) (world s1) = Inr (pg, w1)"
      using f a Some by (auto simp: fork_with_def fork_fill_def Let_def bindE_eq_Inr_iff)
    show ?thesis
    proof (cases "pg = 0")
      case True
      then obtain w2 where t: "t = upd_proc np (\<lambda>c. c\<lparr>pgdir := 0, kstack := 0, state := UNUSED\<rparr>) (s1\<lparr>world := w2\<rparr>)"
          and r: "r = -1"
        using f a Some c by (auto simp: fork_with_def fork_fill_def Let_def bindE_eq_Inr_iff)
      have "ptable t ! j = ptable s ! j" if "j < NPROC" "j \<noteq> np" for j
        using that A(1,5,9) by (simp add: t upd_proc_def)
      moreover have "st t np = UNUSED" "par t np = None" using A(1,5,8) by (simp_all add: t upd_proc_nth)
      ultimately show ?thesis using that(2) [of np] A(1-5) r by (simp add: fork_shape_def t)
    next
      case False
      then obtain fs w3 where t: "t = upd_proc np (\<lambda>c. init (c\<lparr>pgdir := pg, sz := sz (ptable s1 ! me),
             parent := Some me, tf := (tf (ptable s1 ! me))\<lparr>eax := 0\<rparr>, ofile := fs,
             cwd := cwd (ptable s1 ! me), state := RUNNABLE, pname := pname (ptable s1 ! me)\<rparr>)) (s1\<lparr>world := w3\<rparr>)"
          and r: "r = pid (ptable s1 ! np)"
        using f a Some c by (auto simp: fork_with_def fork_fill_def Let_def bindE_eq_Inr_iff)
      have "ptable t ! j = ptable s ! j" if "j < NPROC" "j \<noteq> np" for j
        using that A(1,5,9) by (simp add: t upd_proc_def)
      moreover have "st t np = RUNNABLE" "pd t np = r" "par t np = Some me" "r = nextpid s"
        using A(1,5,8) init(2) r by (simp_all add: t upd_proc_nth keeps_identity_def)
      ultimately show ?thesis using that(2) [of np] A(1-5) by (simp add: fork_shape_def t)
    qed
  qed
qed

lemma table_inv_fork_shape:
  assumes "table_inv up s" and "fork_shape r me s t i" and "\<And>j. j < NPROC \<Longrightarrow> j \<noteq> i \<Longrightarrow> ptable t ! j = ptable s ! j"
    and "alive s me" and "up \<longrightarrow> nextpid s < INT_MAX"
  shows "table_inv up t"
  by (rule table_inv_fill [OF assms(1) _ _ assms(3)]) (use assms(2,4,5) in \<open>auto simp: fork_shape_def\<close>)

lemma table_inv_fork_with:
  assumes "table_inv up s" and "fork_with svc init0 init me s = Inr (r, t)" and "alive s me"
    and "keeps_identity init0" "keeps_identity init" and "up \<longrightarrow> nextpid s < INT_MAX"
  shows "table_inv up t"
  using assms(1,2,4,5) by (cases rule: fork_with_cases) (use assms table_inv_fork_shape in blast)+

text \<open>An entry in the making is completed, or given up.\<close>

lemma kernel_inv_complete:
  assumes inv: "kernel_inv up s" and i: "i < NPROC" "st s i = EMBRYO"
    and rest: "\<And>j. j < NPROC \<Longrightarrow> j \<noteq> i \<Longrightarrow> ptable t ! j = ptable s ! j"
    and len: "length (ptable t) = NPROC" and np: "nextpid t = nextpid s" and ini: "initproc t = initproc s"
    and new: "(st t i = UNUSED \<and> par t i = None) \<or> (st t i = EMBRYO \<and> pd t i = pd s i \<and> par t i = None)
        \<or> (st t i = RUNNABLE \<and> pd t i = pd s i \<and> par t i = Some me \<and> alive s me)"
  shows "kernel_inv up t"
proof -
  have fam: "family_ok s" and wt: "waiters_ok s" using inv by (auto simp: kernel_inv_def table_inv_def)
  have ni: "\<not> alive s i" using i by (simp add: alive_def)
  have al: "alive t j" if "alive s j" for j
    using that rest ni by (cases "j = i") (auto simp: alive_def)
  have up: "pids_ok t" if up
  proof -
    have "pids_ok s" using inv that by (simp add: kernel_inv_def table_inv_def)
    moreover have "pd t j = pd s j \<and> st s j \<noteq> UNUSED" if "j < NPROC" "st t j \<noteq> UNUSED" for j
      using that rest [of j] new i by (cases "j = i") auto
    ultimately show ?thesis unfolding pids_ok_def np len by metis
  qed
  have "family_ok t"
    unfolding family_ok_def ini
  proof (intro conjI allI impI)
    fix j assume j: "j < NPROC"
    show "par t j = None" if "st t j \<in> {UNUSED, EMBRYO}"
      using that new fam rest [of j] j by (cases "j = i") (auto simp: family_ok_def)
    fix k assume k: "par t j = Some k"
    have "alive s k \<and> k \<noteq> j"
      using new fam rest [of j] j k ni by (cases "j = i") (auto simp: family_ok_def)
    then show "alive t k" "k \<noteq> j" using al by auto
  next
    fix k assume "initproc s = Some k"
    then have k: "alive s k" "par s k = None" using fam by (auto simp: family_ok_def)
    then show "alive t k" using al by simp
    show "par t k = None" using k rest [of k] ni by (cases "k = i") (auto simp: alive_def)
  qed
  moreover have "waiters_ok t"
    unfolding waiters_ok_def
  proof (intro allI impI)
    fix w j assume a: "w < NPROC" "j < NPROC" "in_wait t w" "par t j = Some w"
    have w: "w \<noteq> i" using a(3) new by (auto simp: in_wait_def)
    then have "in_wait s w" using a rest [of w] by (simp add: in_wait_def)
    then show "st t j \<noteq> ZOMBIE" using a new rest [of j] wt by (cases "j = i") (auto simp: waiters_ok_def)
  qed
  ultimately show ?thesis using up len by (simp add: kernel_inv_def table_inv_def)
qed

text \<open>\<open>allocproc\<close> and the rest of \<open>fork\<close> as the steps between which other processes run.\<close>

lemma kernel_inv_take_slot:
  assumes inv: "kernel_inv up s" and "alloc_slot s = Some i" and "up \<longrightarrow> nextpid s < INT_MAX"
  shows "kernel_inv up (take_slot (\<lambda>c. c) i s)"
proof -
  note len = kernel_inv_length [OF inv]
  note sl = alloc_slotD [OF assms(2) len]
  have "par s i = None" using inv sl by (simp add: kernel_inv_def table_inv_def family_ok_def)
  then show ?thesis
    by (intro kernel_inv_fill [OF inv sl(1,2)]) (use sl len assms(3) in \<open>auto simp: take_slot_def upd_proc_nth\<close>)
qed

lemma kernel_inv_alloc_kstack:
  assumes inv: "kernel_inv up s" and i: "i < NPROC" "st s i = EMBRYO" and a: "alloc_kstack svc i s = (o1, t)"
  shows "kernel_inv up t"
proof -
  note len = kernel_inv_length [OF inv]
  have "par s i = None" using inv i by (simp add: kernel_inv_def table_inv_def family_ok_def)
  then show ?thesis
    by (intro kernel_inv_complete [OF inv i])
      (use a len i in \<open>auto simp: alloc_kstack_def Let_def upd_proc_nth split: prod.splits if_splits\<close>)
qed

lemma kernel_inv_fork_fill:
  assumes inv: "kernel_inv up s" and i: "i < NPROC" "st s i = EMBRYO" and me: "alive s me"
    and f: "fork_fill svc init me i s = Inr (r, t)" and init: "keeps_identity init"
  shows "kernel_inv up t"
proof -
  note len = kernel_inv_length [OF inv]
  have p: "par s i = None" using inv i by (simp add: kernel_inv_def table_inv_def family_ok_def)
  consider (none) w where "t = upd_proc i (\<lambda>c. c\<lparr>pgdir := 0, kstack := 0, state := UNUSED\<rparr>) (s\<lparr>world := w\<rparr>)"
    | (child) pg fs w where "t = upd_proc i (\<lambda>c. init (c\<lparr>pgdir := pg, sz := sz (ptable s ! me), parent := Some me,
        tf := (tf (ptable s ! me))\<lparr>eax := 0\<rparr>, ofile := fs, cwd := cwd (ptable s ! me), state := RUNNABLE,
        pname := pname (ptable s ! me)\<rparr>)) (s\<lparr>world := w\<rparr>)"
    using f by (auto simp: fork_fill_def Let_def bindE_eq_Inr_iff split: if_splits)
  then show ?thesis
  proof cases
    case none
    then show ?thesis by (intro kernel_inv_complete [OF inv i]) (use p len i in \<open>auto simp: upd_proc_nth\<close>)
  next
    case child
    then show ?thesis by (intro kernel_inv_complete [OF inv i]) (use me len i init in \<open>auto simp: upd_proc_nth keeps_identity_def\<close>)
  qed
qed

subsection \<open>exit\<close>

lemma table_inv_family:
  assumes "table_inv up s"
  shows "i < NPROC \<Longrightarrow> par s i = Some j \<Longrightarrow> j < NPROC \<and> j \<noteq> i \<and> alive s j"
    and "initproc s = Some k \<Longrightarrow> k < NPROC \<and> alive s k \<and> par s k = None"
proof -
  have fam: "family_ok s" using assms by (simp add: table_inv_def)
  have lt: "alive s j \<Longrightarrow> j < NPROC" for j by (simp add: alive_def)
  show "i < NPROC \<Longrightarrow> par s i = Some j \<Longrightarrow> j < NPROC \<and> j \<noteq> i \<and> alive s j"
    and "initproc s = Some k \<Longrightarrow> k < NPROC \<and> alive s k \<and> par s k = None"
    using fam lt unfolding family_ok_def by blast+
qed

lemma reparent_fold_wakes:
  assumes len: "n \<le> length (ptable s)" and k: "k < length (ptable s)" "st s k = SLEEPING"
      "chan (ptable s ! k) = ptr_chan (initproc s)"
    and j: "j < n" "par s j = Some me" "st s j = ZOMBIE"
  shows "st (foldl (reparent me) s [0..<n]) k = RUNNABLE"
  using len j(1)
proof (induction n)
  case 0
  then show ?case by simp
next
  case (Suc n)
  let ?s = "foldl (reparent me) s [0..<n]"
  have w: "woken ((ptable ?s ! k)\<lparr>parent := (if k = n \<and> par ?s k = Some me then initproc s else par ?s k)\<rparr>)
          (ptable (reparent me ?s n) ! k)"
    using reparent_nth [of k ?s n me] k by (simp only: reparent_fold_simps)
  show ?case
  proof (cases "j < n")
    case True
    then have "st ?s k = RUNNABLE" using Suc by simp
    then show ?thesis using w by (auto simp: woken_def)
  next
    case False
    then have jn: "j = n" using Suc.prems by simp
    have f: "par ?s j = Some me" "st ?s j = ZOMBIE"
      using reparent_fold_nth [of j s n me] Suc.prems j jn by (auto dest: woken_fields)
    have g: "st ?s k = SLEEPING \<or> st ?s k = RUNNABLE" "chan (ptable ?s ! k) = ptr_chan (initproc s)"
      using reparent_fold_nth [of k s n me] Suc.prems k by (auto simp: woken_def)
    have "st (reparent me ?s n) k = RUNNABLE"
      using f g k jn Suc.prems by (auto simp: reparent_def Let_def table_simps)
    then show ?thesis by simp
  qed
qed

text \<open>The table after \<open>exit\<close>, entry by entry.\<close>

lemma exit_proc_shape:
  assumes inv: "table_inv up s" and e: "exit_proc svc me s = Inr t" and me: "alive s me"
  shows "initproc s \<noteq> Some me" and "length (ptable t) = NPROC"
    and "nextpid t = nextpid s" and "initproc t = initproc s"
    and "st t me = ZOMBIE" and "\<And>j. j < NPROC \<Longrightarrow> pd t j = pd s j"
    and "\<And>j. j < NPROC \<Longrightarrow> par t j = (if par s j = Some me then initproc s else par s j)"
    and "\<And>j. j < NPROC \<Longrightarrow> j \<noteq> me \<Longrightarrow> chan (ptable t ! j) = chan (ptable s ! j)"
    and "\<And>j. j < NPROC \<Longrightarrow> j \<noteq> me \<Longrightarrow> st t j = st s j \<or> st s j = SLEEPING \<and> st t j = RUNNABLE"
    and "\<And>k. par s me = Some k \<Longrightarrow> in_wait s k \<Longrightarrow> st t k = RUNNABLE"
    and "\<And>k j. initproc s = Some k \<Longrightarrow> in_wait s k \<Longrightarrow> j < NPROC \<Longrightarrow> par s j = Some me \<Longrightarrow> st s j = ZOMBIE
           \<Longrightarrow> st t k = RUNNABLE"
    and "ofile (ptable t ! me) = replicate (length (ofile (ptable s ! me))) None \<and> cwd (ptable t ! me) = None"
proof -
  show ini: "initproc s \<noteq> Some me" using e by (auto simp: exit_proc_def)
  have len: "length (ptable s) = NPROC" by (rule table_inv_length [OF inv])
  have me': "me < NPROC" "st s me \<noteq> ZOMBIE" using me by (auto simp: alive_def)
  obtain w2 where t0: "t = upd_proc me (\<lambda>p. p\<lparr>state := ZOMBIE, ctx := Swtched\<rparr>)
      (foldl (reparent me)
        (wakeup1 (ptr_chan (parent (ptable (upd_proc me (\<lambda>p. p\<lparr>ofile := replicate (length (ofile p)) None, cwd := None\<rparr>)
                        (s\<lparr>world := w2\<rparr>)) ! me)))
           (upd_proc me (\<lambda>p. p\<lparr>ofile := replicate (length (ofile p)) None, cwd := None\<rparr>) (s\<lparr>world := w2\<rparr>)))
        [0..<NPROC])"
    using e by (auto simp: exit_proc_def Let_def bindE_eq_Inr_iff split: if_splits)
  define s1 where "s1 = upd_proc me (\<lambda>p. p\<lparr>ofile := replicate (length (ofile p)) None, cwd := None\<rparr>) (s\<lparr>world := w2\<rparr>)"
  define s2 where "s2 = wakeup1 (ptr_chan (par s1 me)) s1"
  define s3 where "s3 = foldl (reparent me) s2 [0..<NPROC]"
  have t: "t = upd_proc me (\<lambda>p. p\<lparr>state := ZOMBIE, ctx := Swtched\<rparr>) s3"
    by (simp add: t0 s1_def s2_def s3_def)
  have n: "length (ptable s3) = NPROC" "nextpid s3 = nextpid s" "initproc s3 = initproc s"
      "length (ptable s2) = NPROC" "initproc s2 = initproc s" "length (ptable s1) = NPROC"
    by (simp_all add: s3_def s2_def s1_def len)
  then show "length (ptable t) = NPROC" "nextpid t = nextpid s" "initproc t = initproc s" by (simp_all add: t)
  have a1: "st s1 j = st s j" "pd s1 j = pd s j" "par s1 j = par s j" "chan (ptable s1 ! j) = chan (ptable s ! j)"
    if "j < NPROC" for j
    using that len me' by (auto simp: s1_def upd_proc_nth)
  have a2: "woken (ptable s1 ! j) (ptable s2 ! j)" if "j < NPROC" for j
    using that n woken_wakeup1 [of j s1 "ptr_chan (par s1 me)"] by (simp add: s2_def)
  have a3: "par s3 j = (if par s2 j = Some me then initproc s else par s2 j)"
      "woken ((ptable s2 ! j)\<lparr>parent := par s3 j\<rparr>) (ptable s3 ! j)" if "j < NPROC" for j
  proof -
    have *: "j < length (ptable s2)" "NPROC \<le> length (ptable s2)" using that n by simp_all
    show "par s3 j = (if par s2 j = Some me then initproc s else par s2 j)"
      using conjunct1 [OF reparent_fold_nth [OF *, of me]] that n by (simp add: s3_def)
    show "woken ((ptable s2 ! j)\<lparr>parent := par s3 j\<rparr>) (ptable s3 ! j)"
      unfolding s3_def by (rule conjunct2 [OF reparent_fold_nth [OF *]])
  qed
  have a4: "ptable t ! j = (if j = me then (ptable s3 ! me)\<lparr>state := ZOMBIE, ctx := Swtched\<rparr> else ptable s3 ! j)"
    if "j < NPROC" for j
    using that n by (simp add: t upd_proc_nth)
  show "st t me = ZOMBIE" using a4 me' by simp
  show "pd t j = pd s j" if j: "j < NPROC" for j
    using a4 [OF j] woken_fields [OF a3(2) [OF j]] woken_fields [OF a2 [OF j]] a1(2) [OF j]
    by (cases "j = me") simp_all
  have par2: "par s2 j = par s j" if j: "j < NPROC" for j
    using woken_fields [OF a2 [OF j]] a1(3) [OF j] by simp
  show "par t j = (if par s j = Some me then initproc s else par s j)" if j: "j < NPROC" for j
    using a4 [OF j] a3(1) [OF j] par2 [OF j] by (cases "j = me") simp_all
  show "chan (ptable t ! j) = chan (ptable s ! j)" if j: "j < NPROC" "j \<noteq> me" for j
    using a4 j woken_fields [OF a3(2) [OF j(1)]] woken_fields [OF a2 [OF j(1)]] a1(4) j by simp
  show sts: "st t j = st s j \<or> st s j = SLEEPING \<and> st t j = RUNNABLE" if j: "j < NPROC" "j \<noteq> me" for j
    using a4 [OF j(1)] j woken_fields [OF a3(2) [OF j(1)]] woken_fields [OF a2 [OF j(1)]] a1(1) [OF j(1)]
    by simp argo
  show "ofile (ptable t ! me) = replicate (length (ofile (ptable s ! me))) None \<and> cwd (ptable t ! me) = None"
    using a4 [OF me'(1)] woken_fields [OF a3(2) [OF me'(1)]] woken_fields [OF a2 [OF me'(1)]] me' len
    by (simp add: s1_def upd_proc_nth)
  have st3: "st s3 j = RUNNABLE" if j: "j < NPROC" "st s2 j = RUNNABLE" for j
    using woken_fields [OF a3(2) [OF j(1)]] j by simp
  show "st t k = RUNNABLE" if k: "par s me = Some k" "in_wait s k" for k
  proof -
    have kk: "k < NPROC" "k \<noteq> me"
      using table_inv_family(1) [OF inv me'(1) k(1)] by simp_all
    have "st s2 k = RUNNABLE"
      using k kk n a1 me' by (simp add: s2_def wakeup1_nth ptr_chan_def in_wait_def)
    with kk a4 st3 show ?thesis by simp
  qed
  show "st t k = RUNNABLE" if k: "initproc s = Some k" "in_wait s k" "j < NPROC" "par s j = Some me" "st s j = ZOMBIE"
    for k j
  proof -
    have kk: "k < NPROC" "k \<noteq> me"
      using table_inv_family(2) [OF inv k(1)] ini k(1) by auto
    have j2: "par s2 j = Some me" "st s2 j = ZOMBIE"
      using par2 [OF k(3)] k woken_fields [OF a2 [OF k(3)]] a1(1) [OF k(3)] by simp_all
    have "st s2 k = SLEEPING \<or> st s2 k = RUNNABLE" "chan (ptable s2 ! k) = ptr_chan (initproc s2)"
      using woken_fields [OF a2 [OF kk(1)]] a1 [OF kk(1)] k n by (simp_all add: in_wait_def ptr_chan_def) argo
    then have "st s3 k = RUNNABLE"
      using st3 [OF kk(1)] reparent_fold_wakes [of NPROC s2 k j me] kk n j2 k(3) by (auto simp: s3_def)
    with kk a4 show ?thesis by simp
  qed
qed

lemma table_inv_exit:
  assumes inv: "table_inv up s" and e: "exit_proc svc me s = Inr t" and me: "alive s me"
  shows "table_inv up t"
proof -
  note E = exit_proc_shape [OF inv e me]
  have fam: "family_ok s" using inv by (auto simp: table_inv_def)
  have m: "me < NPROC" "st s me \<notin> {UNUSED, EMBRYO, ZOMBIE}" using me by (auto simp: alive_def)
  have un: "(st t j = UNUSED) = (st s j = UNUSED)" "(st t j = EMBRYO) = (st s j = EMBRYO)" if "j < NPROC" for j
    using E(9) [OF that] E(5) m by (cases "j = me"; auto)+
  have al: "alive t j" if "alive s j" "j \<noteq> me" for j
    using that E(9) [of j] by (auto simp: alive_def)
  have "length (ptable t) = NPROC \<and> (up \<longrightarrow> pids_ok t)" using inv E(2,3,6) un by (simp add: table_inv_def pids_ok_def)
  moreover have "family_ok t"
    unfolding family_ok_def
  proof (intro conjI allI impI)
    fix j assume j: "j < NPROC"
    { assume "st t j \<in> {UNUSED, EMBRYO}"
      then show "par t j = None" using fam un [OF j] j E(7) by (auto simp: family_ok_def) }
    fix k assume k: "par t j = Some k"
    show "alive t k" "k \<noteq> j"
    proof -
      show "alive t k"
        using k fam j E(7) [OF j] E(1) al by (auto simp: family_ok_def split: if_splits)
      show "k \<noteq> j"
        using k fam j E(7) [OF j] by (auto simp: family_ok_def split: if_splits)
    qed
  next
    fix k assume k: "initproc t = Some k"
    then have ks: "initproc s = Some k" using E(4) by simp
    then have a: "alive s k" "par s k = None" using fam by (auto simp: family_ok_def)
    show "alive t k" using al [OF a(1)] E(1) ks by auto
    show "par t k = None" using E(7) [of k] a by (auto simp: alive_def)
  qed
  ultimately show ?thesis by (simp add: table_inv_def)
qed

lemma kernel_inv_exit:
  assumes inv: "kernel_inv up s" and e: "exit_proc svc me s = Inr t" and me: "alive s me"
  shows "kernel_inv up t"
proof -
  have tinv: "table_inv up s" and wt: "waiters_ok s" using inv by (auto simp: kernel_inv_def)
  note E = exit_proc_shape [OF tinv e me]
  have fam: "family_ok s" using tinv by (auto simp: table_inv_def)
  have m: "me < NPROC" "st s me \<noteq> UNUSED" "st s me \<noteq> ZOMBIE" using me by (auto simp: alive_def)
  have "waiters_ok t"
    unfolding waiters_ok_def
  proof (intro allI impI notI)
    fix w j assume a: "w < NPROC" "j < NPROC" "in_wait t w" "par t j = Some w" "st t j = ZOMBIE"
    have wm: "w \<noteq> me" using a E(5) by (auto simp: in_wait_def)
    have iw: "in_wait s w" using a E(8) [of w] E(9) [of w] wm by (auto simp: in_wait_def)
    have nr: "st t w \<noteq> RUNNABLE" using a by (simp add: in_wait_def)
    have zj: "j = me \<or> st s j = ZOMBIE" using E(9) [of j] a(2,5) by (cases "j = me") auto
    show False
    proof (cases "par s j = Some me")
      case True
      then have "initproc s = Some w" using E(7) [of j] a by simp
      moreover have "j \<noteq> me" using True fam m by (auto simp: family_ok_def)
      ultimately show False using E(11) [of w j] iw a zj True nr by auto
    next
      case False
      then have pj: "par s j = Some w" using E(7) [of j] a by simp
      show False
      proof (cases "j = me")
        case True
        then show False using E(10) [of w] pj iw nr by auto
      next
        case False
        then show False using wt iw pj zj a by (auto simp: waiters_ok_def)
      qed
    qed
  qed
  then show ?thesis using table_inv_exit [OF tinv e me] by (simp add: kernel_inv_def)
qed

subsection \<open>wait\<close>

lemma wait_proc_cases:
  assumes w: "wait_proc svc me s = Inr (r, t)"
  obtains (reap) i w2 where "i < length (ptable s)" "par s i = Some me" "st s i = ZOMBIE"
      "\<And>j. j < i \<Longrightarrow> par s j = Some me \<Longrightarrow> st s j \<noteq> ZOMBIE"
      "r = Reaped (pd s i)" "t = upd_proc i reap_fields (s\<lparr>world := w2\<rparr>)"
  | (none) "r = NoWait" "t = s" "\<And>j. j < length (ptable s) \<Longrightarrow> par s j = Some me \<Longrightarrow> st s j \<noteq> ZOMBIE"
      "(\<forall>j < length (ptable s). par s j \<noteq> Some me) \<or> killed (ptable s ! me)"
  | (again) j where "r = WaitSleep" "t = sleep_enter (ProcChan me) me s" "\<not> killed (ptable s ! me)"
      "\<And>j. j < length (ptable s) \<Longrightarrow> par s j = Some me \<Longrightarrow> st s j \<noteq> ZOMBIE"
      "j < length (ptable s)" "par s j = Some me"
proof (cases "first_idx (\<lambda>p. parent p = Some me \<and> state p = ZOMBIE) (ptable s)")
  case (Some i)
  then show ?thesis
    using w first_idx_SomeD [OF Some]
    by (auto simp: wait_proc_def Let_def bindE_eq_Inr_iff intro!: reap)
next
  case None
  then have z: "\<And>j. j < length (ptable s) \<Longrightarrow> par s j = Some me \<Longrightarrow> st s j \<noteq> ZOMBIE"
    by (auto simp: first_idx_None_iff)
  show ?thesis
  proof (cases "(\<forall>p \<in> set (ptable s). parent p \<noteq> Some me) \<or> killed (ptable s ! me)")
    case True
    then show ?thesis using w None z by (auto simp: wait_proc_def intro!: none)
  next
    case False
    then obtain j where "j < length (ptable s)" "par s j = Some me" by (auto simp: in_set_conv_nth)
    then show ?thesis using w None False z by (auto simp: wait_proc_def intro!: again)
  qed
qed

lemma kernel_inv_upd:
  assumes inv: "kernel_inv up s" and i: "i < NPROC" "ptable s ! i = p"
    and f: "pid (f p) = pid p" "parent (f p) = parent p" "(state (f p) = UNUSED) = (state p = UNUSED)"
      "(state (f p) = ZOMBIE) = (state p = ZOMBIE)" "(state (f p) = EMBRYO) = (state p = EMBRYO)"
    and w: "state (f p) = SLEEPING \<longrightarrow> chan (f p) = ProcChan i \<longrightarrow> in_wait s i \<or> (\<forall>j < NPROC. par s j = Some i \<longrightarrow> st s j \<noteq> ZOMBIE)"
  shows "kernel_inv up (upd_proc i f s)"
proof -
  have tinv: "table_inv up s" using inv by (simp add: kernel_inv_def)
  note len = table_inv_length [OF tinv]
  have "table_inv up (upd_proc i f s)"
    by (rule table_inv_same [OF tinv]) (use len f i in \<open>auto simp: upd_proc_nth\<close>)
  moreover have "waiters_ok (upd_proc i f s)"
    unfolding waiters_ok_def
  proof (intro allI impI)
    fix k j assume a: "k < NPROC" "j < NPROC" "in_wait (upd_proc i f s) k" "par (upd_proc i f s) j = Some k"
    have pj: "par s j = Some k" and zj: "(st (upd_proc i f s) j = ZOMBIE) = (st s j = ZOMBIE)"
      using a(2,4) len f i by (auto simp: upd_proc_nth split: if_splits)
    have "in_wait s k \<or> (\<forall>j < NPROC. par s j = Some k \<longrightarrow> st s j \<noteq> ZOMBIE)"
      using a(1,3) w len i by (auto simp: in_wait_def upd_proc_nth split: if_splits)
    then show "st (upd_proc i f s) j \<noteq> ZOMBIE"
      using zj pj a inv by (auto simp: kernel_inv_def waiters_ok_def)
  qed
  ultimately show ?thesis by (simp add: kernel_inv_def)
qed

lemma kernel_inv_world [simp]: "kernel_inv up (s\<lparr>world := w\<rparr>) = kernel_inv up s"
  by (simp add: kernel_inv_def table_inv_world waiters_ok_def in_wait_def)

lemma kernel_inv_wakeup: "kernel_inv up s \<Longrightarrow> kernel_inv up (wakeup c s)"
proof -
  assume inv: "kernel_inv up s"
  then have tinv: "table_inv up s" by (simp add: kernel_inv_def)
  have "waiters_ok (wakeup c s)"
    using inv table_inv_length [OF tinv]
    by (auto simp: waiters_ok_def wakeup_def in_wait_def wakeup1_nth kernel_inv_def split: if_splits)
  then show ?thesis using table_inv_wakeup [OF tinv] by (simp add: kernel_inv_def)
qed

lemma kernel_inv_kill: "kernel_inv up s \<Longrightarrow> kernel_inv up (snd (kill n s))"
proof (cases "first_idx (\<lambda>p. pid p = n) (ptable s)")
  case (Some i)
  assume inv: "kernel_inv up s"
  have "i < NPROC" using first_idx_SomeD(1) [OF Some] kernel_inv_length [OF inv] by simp
  then have "kernel_inv up (upd_proc i (\<lambda>p. p\<lparr>killed := True,
           state := (if state p = SLEEPING then RUNNABLE else state p)\<rparr>) s)"
    by (intro kernel_inv_upd [OF inv _ refl]) simp_all
  with Some show ?thesis by (simp add: kill_def)
qed (simp add: kill_def)

text \<open>Reaping an exited entry: nobody is its child.\<close>

lemma table_inv_reap:
  assumes inv: "table_inv up s" and i: "i < NPROC" "st s i = ZOMBIE" "st t i = UNUSED" "par t i = None"
    and rest: "\<And>j. j < NPROC \<Longrightarrow> j \<noteq> i \<Longrightarrow> st t j = st s j \<and> pd t j = pd s j \<and> par t j = par s j"
    and n: "length (ptable t) = NPROC" "nextpid t = nextpid s" "initproc t = initproc s"
  shows "table_inv up t"
proof -
  have ni: "\<not> alive s i" using i by (simp add: alive_def)
  have al: "alive t j = alive s j" for j
    using ni i rest [of j] by (cases "j < NPROC"; cases "j = i") (auto simp: alive_def)
  have fam: "family_ok s" using inv by (auto simp: table_inv_def)
  have ne: "j \<noteq> i" if "st t j \<noteq> UNUSED" for j using that i by auto
  have "pids_ok t" if up
    unfolding pids_ok_def n
  proof (intro conjI allI impI)
    have pids: "pids_ok s" using inv that by (auto simp: table_inv_def)
    show "0 < nextpid s" using pids by (simp add: pids_ok_def)
    fix j assume j: "j < NPROC" "st t j \<noteq> UNUSED"
    then show "0 < pd t j" "pd t j < nextpid s"
      using pids rest [OF j(1) ne [OF j(2)]] by (auto simp: pids_ok_def)
    fix k assume k: "k < NPROC" "j \<noteq> k" "st t k \<noteq> UNUSED"
    then show "pd t j \<noteq> pd t k"
      using pids rest [OF j(1) ne [OF j(2)]] rest [OF k(1) ne [OF k(3)]] j by (auto simp: pids_ok_def)
  qed simp
  moreover have "family_ok t"
    unfolding family_ok_def al n
  proof (intro conjI allI impI)
    fix j assume j: "j < NPROC"
    show "par t j = None" if "st t j \<in> {UNUSED, EMBRYO}"
      using that fam j i rest [OF j] by (cases "j = i") (auto simp: family_ok_def)
    fix k assume k: "par t j = Some k"
    then have "j \<noteq> i" using i by auto
    then have "par s j = Some k" using k rest [OF j] by simp
    then show "alive s k" "k \<noteq> j" using table_inv_family(1) [OF inv j] by auto
  next
    fix k assume "initproc s = Some k"
    then have k: "k < NPROC" "alive s k" "par s k = None" using table_inv_family(2) [OF inv] by auto
    then have "k \<noteq> i" using ni by auto
    then show "alive s k" "par t k = None" using k rest [of k] by auto
  qed
  ultimately show ?thesis using n(1) by (simp add: table_inv_def)
qed

lemma kernel_inv_wait:
  assumes inv: "kernel_inv up s" and w: "wait_proc svc me s = Inr (r, t)" and me: "alive s me"
  shows "kernel_inv up t"
  using w
proof (cases rule: wait_proc_cases)
  case (reap i w2)
  have len: "length (ptable s) = NPROC" by (rule kernel_inv_length [OF inv])
  have i: "i < NPROC" using reap len by simp
  have p: "ptable t ! j = (if j = i then reap_fields (ptable s ! i) else ptable s ! j)" if "j < NPROC" for j
    using that len by (simp add: reap upd_proc_nth)
  have "table_inv up t"
  proof (rule table_inv_reap [OF _ i reap(3)])
    show "table_inv up s" using inv by (simp add: kernel_inv_def)
    show "length (ptable t) = NPROC" "nextpid t = nextpid s" "initproc t = initproc s"
      using len by (simp_all add: reap(6))
  qed (use i in \<open>simp_all add: p reap_fields_def\<close>)
  moreover have "waiters_ok t"
    using inv by (auto simp: kernel_inv_def waiters_ok_def p in_wait_def reap_fields_def)
  ultimately show ?thesis by (simp add: kernel_inv_def)
next
  case (none)
  then show ?thesis using inv by simp
next
  case (again j)
  have len: "length (ptable s) = NPROC" by (rule kernel_inv_length [OF inv])
  show ?thesis
    unfolding again sleep_enter_def
    by (rule kernel_inv_upd [OF inv _ refl]) (use me again len in \<open>auto simp: alive_def\<close>)
qed

subsection \<open>The step relation\<close>

text \<open>
  \<open>run_step svc init k s t\<close>: some process, the scheduler or an interrupt handler performs one critical
  section; \<open>k\<close> counts the pids that the step gives out, \<open>init\<close> is what the version of the code sets in a child. \<open>fork\<close> is three steps, as the code holds the table lock only
  while it takes the entry: \<open>rs_take\<close>, \<open>rs_stack\<close> and \<open>rs_fill\<close>, with steps of other processes in between. That
  the same process does all three is not required: the relation allows more than the code does. \<open>sleep\<close> is called with the address of a process structure only by \<open>wait\<close>; every
  other caller sleeps on an object of its own. \<open>world\<close> stands for the steps of the rest of the
  kernel, and \<open>store\<close> for assignments of a running process to its own other fields.
\<close>

lemma growproc_shape:
  assumes "growproc svc me n s = Inr (r, t)"
  shows "\<exists>z w. t = s\<lparr>world := w\<rparr> \<or> t = upd_proc me (\<lambda>p. p\<lparr>sz := z\<rparr>) (s\<lparr>world := w\<rparr>)"
proof -
  define p where "p = ptable s ! me"
  define m where "m = (if 0 < n then allocuvm_s svc (pgdir p) (sz p) (sz p + of_int n) (world s)
             else if n < 0 then deallocuvm_s svc (pgdir p) (sz p) (sz p + of_int n) (world s)
             else Inr (sz p, world s))"
  have "bindE m (\<lambda>(sz', w). if n \<noteq> 0 \<and> sz' = 0 then Inr (-1, s\<lparr>world := w\<rparr>)
           else Inr (0, upd_proc me (\<lambda>p. p\<lparr>sz := sz'\<rparr>) (s\<lparr>world := w\<rparr>))) = Inr (r, t)"
    using assms by (simp only: growproc_def Let_def m_def p_def)
  then obtain z w where "m = Inr (z, w)"
      "t = s\<lparr>world := w\<rparr> \<or> t = upd_proc me (\<lambda>p. p\<lparr>sz := z\<rparr>) (s\<lparr>world := w\<rparr>)"
    by (cases m) (auto split: if_splits)
  then show ?thesis by blast
qed

inductive run_step :: "'w services \<Rightarrow> ('p proc_scheme \<Rightarrow> 'p proc_scheme) \<Rightarrow> nat \<Rightarrow> ('p proc_scheme, 'w) kernel \<Rightarrow> ('p proc_scheme, 'w) kernel \<Rightarrow> bool"
  for svc :: "'w services" and init :: "'p proc_scheme \<Rightarrow> 'p proc_scheme" where
  rs_take: "me < NPROC \<Longrightarrow> st s me = RUNNING \<Longrightarrow> alloc_slot s = Some i \<Longrightarrow> run_step svc init 1 s (take_slot (\<lambda>c. c) i s)"
| rs_stack: "i < NPROC \<Longrightarrow> st s i = EMBRYO \<Longrightarrow> alloc_kstack svc i s = (o1, t) \<Longrightarrow> run_step svc init 0 s t"
| rs_fill: "me < NPROC \<Longrightarrow> st s me = RUNNING \<Longrightarrow> np < NPROC \<Longrightarrow> st s np = EMBRYO
     \<Longrightarrow> fork_fill svc init me np s = Inr (r, t) \<Longrightarrow> run_step svc init 0 s t"
| rs_exit: "me < NPROC \<Longrightarrow> st s me = RUNNING \<Longrightarrow> exit_proc svc me s = Inr t \<Longrightarrow> run_step svc init 0 s t"
| rs_wait: "me < NPROC \<Longrightarrow> st s me = RUNNING \<Longrightarrow> wait_proc svc me s = Inr (r, t) \<Longrightarrow> run_step svc init 0 s t"
| rs_sleep: "me < NPROC \<Longrightarrow> st s me = RUNNING \<Longrightarrow> c \<in> insert TicksChan (range ObjChan)
     \<Longrightarrow> run_step svc init 0 s (sleep_enter c me s)"
| rs_resume: "me < NPROC \<Longrightarrow> st s me = RUNNING \<Longrightarrow> run_step svc init 0 s (sleep_resume me s)"
| rs_yield: "me < NPROC \<Longrightarrow> st s me = RUNNING \<Longrightarrow> run_step svc init 0 s (yield me s)"
| rs_grow: "me < NPROC \<Longrightarrow> st s me = RUNNING \<Longrightarrow> growproc svc me n s = Inr (r, t) \<Longrightarrow> run_step svc init 0 s t"
| rs_kill: "run_step svc init 0 s (snd (kill n s))"
| rs_wakeup: "run_step svc init 0 s (wakeup c s)"
| rs_switch: "i < NPROC \<Longrightarrow> st s i = RUNNABLE \<Longrightarrow> run_step svc init 0 s (upd_proc i (\<lambda>p. p\<lparr>state := RUNNING\<rparr>) s)"
| rs_store: "me < NPROC \<Longrightarrow> st s me = RUNNING
     \<Longrightarrow> run_step svc init 0 s (upd_proc me (\<lambda>p. p\<lparr>ofile := fs, cwd := d, tf := u, sz := n, pgdir := pg, pname := nm\<rparr>) s)"
| rs_world: "run_step svc init 0 s (s\<lparr>world := w\<rparr>)"

lemma kernel_inv_step:
  "run_step svc init k s t \<Longrightarrow> keeps_identity init \<Longrightarrow> kernel_inv up s \<Longrightarrow> up \<longrightarrow> k = 0 \<or> nextpid s < INT_MAX \<Longrightarrow> kernel_inv up t"
proof (induction rule: run_step.induct)
  case (rs_take me s i)
  then show ?case by (intro kernel_inv_take_slot) auto
next
  case (rs_stack i s o1 t)
  show ?case by (rule kernel_inv_alloc_kstack [OF rs_stack(5) rs_stack(1-3)])
next
  case (rs_fill me s np r t)
  then have "alive s me" by (simp add: alive_def)
  then show ?case by (rule kernel_inv_fork_fill [OF rs_fill(7,3,4) _ rs_fill(5,6)])
next
  case (rs_exit me s t)
  then have "alive s me" by (simp add: alive_def)
  then show ?case by (rule kernel_inv_exit [OF rs_exit(5,3)])
next
  case (rs_wait me s r t)
  then have "alive s me" by (simp add: alive_def)
  then show ?case by (rule kernel_inv_wait [OF rs_wait(5,3)])
next
  case (rs_grow me s n r t)
  then obtain sz' w where "t = s\<lparr>world := w\<rparr> \<or> t = upd_proc me (\<lambda>p. p\<lparr>sz := sz'\<rparr>) (s\<lparr>world := w\<rparr>)"
    using growproc_shape by blast
  moreover have "kernel_inv up (upd_proc me (\<lambda>p. p\<lparr>sz := sz'\<rparr>) (s\<lparr>world := w\<rparr>))"
    using rs_grow by (intro kernel_inv_upd [OF _ _ refl]) (auto simp: in_wait_def)
  ultimately show ?case using rs_grow by auto
next
  case (rs_sleep me s c)
  then show ?case unfolding sleep_enter_def by (intro kernel_inv_upd [OF _ _ refl]) auto
qed (auto simp: kernel_inv_kill kernel_inv_wakeup sleep_resume_def yield_def intro!: kernel_inv_upd)

lemma nextpid_step: "run_step svc init k s t \<Longrightarrow> kernel_inv up s \<Longrightarrow> nextpid t = (if k = 0 then nextpid s else int_succ (nextpid s))"
proof (induction rule: run_step.induct)
  case (rs_exit me s t)
  then have "alive s me" by (simp add: alive_def)
  then show ?case using exit_proc_shape(3) [OF _ rs_exit(3)] rs_exit(4) by (auto simp: kernel_inv_def)
next
  case (rs_wait me s r t)
  then show ?case by (auto elim!: wait_proc_cases simp: sleep_enter_def)
next
  case (rs_grow me s n r t)
  then show ?case using growproc_shape by fastforce
next
  case (rs_kill s n)
  then show ?case by (auto simp: kill_def split: option.splits)
qed (auto simp: take_slot_def alloc_kstack_def fork_fill_def Let_def bindE_eq_Inr_iff wakeup_def sleep_enter_def sleep_resume_def yield_def
      split: prod.splits if_splits)

text \<open>The fields that a version of the code adds to an entry change only when a child is filled in.\<close>

lemma reparent_fold_more:
  "j < length (ptable s) \<Longrightarrow> \<forall>i \<in> set is. i < length (ptable s)
     \<Longrightarrow> proc.more (ptable (foldl (reparent me) s is) ! j) = proc.more (ptable s ! j)"
proof (induction "is" arbitrary: s)
  case (Cons i "is")
  have "proc.more (ptable (reparent me s i) ! j) = proc.more (ptable s ! j)"
    using Cons.prems(1) by (auto simp: reparent_def Let_def table_simps)
  then show ?case using Cons by simp
qed simp

lemma exit_proc_more:
  assumes "exit_proc svc me s = Inr t" and "j < NPROC" and "length (ptable s) = NPROC"
  shows "proc.more (ptable t ! j) = proc.more (ptable s ! j)"
proof -
  obtain w2 where t: "t = upd_proc me (\<lambda>p. p\<lparr>state := ZOMBIE, ctx := Swtched\<rparr>)
      (foldl (reparent me)
        (wakeup1 (ptr_chan (parent (ptable (upd_proc me (\<lambda>p. p\<lparr>ofile := replicate (length (ofile p)) None, cwd := None\<rparr>)
                        (s\<lparr>world := w2\<rparr>)) ! me)))
           (upd_proc me (\<lambda>p. p\<lparr>ofile := replicate (length (ofile p)) None, cwd := None\<rparr>) (s\<lparr>world := w2\<rparr>)))
        [0..<NPROC])"
    using assms(1) by (auto simp: exit_proc_def Let_def bindE_eq_Inr_iff split: if_splits)
  show ?thesis
    using assms(2,3) by (simp add: t upd_proc_nth reparent_fold_more) (simp add: table_simps)
qed

lemma run_step_more:
  assumes "run_step svc init k s t" and "length (ptable s) = NPROC" and "j < NPROC"
  shows "proc.more (ptable t ! j) = proc.more (ptable s ! j) \<or> st s j = EMBRYO \<and> (\<exists>c. ptable t ! j = init c)"
  using assms
proof (induction rule: run_step.induct)
  case (rs_exit me s t)
  then show ?case using exit_proc_more by blast
next
  case (rs_wait me s r t)
  then show ?case by (auto elim!: wait_proc_cases simp: sleep_enter_def upd_proc_nth reap_fields_def split: if_splits)
next
  case (rs_grow me s n r t)
  then obtain sz' w where "t = s\<lparr>world := w\<rparr> \<or> t = upd_proc me (\<lambda>p. p\<lparr>sz := sz'\<rparr>) (s\<lparr>world := w\<rparr>)"
    using growproc_shape by blast
  then show ?case using rs_grow by (auto simp: upd_proc_nth split: if_splits)
next
  case (rs_kill s n)
  then show ?case by (auto simp: kill_def upd_proc_nth split: option.splits)
next
  case (rs_fill me s np r t)
  then show ?case
    by (cases "j = np") (auto simp: fork_fill_def Let_def bindE_eq_Inr_iff upd_proc_nth split: if_splits)
qed (auto simp: take_slot_def alloc_kstack_def Let_def wakeup_def sleep_enter_def sleep_resume_def yield_def table_simps
      split: prod.splits if_splits)

text \<open>
  The machine boots with the first process made by \<open>userinit\<close>. \<open>reachable svc w n s\<close>: \<open>s\<close> is reached with \<open>n\<close> pids
  given out.
\<close>

inductive reachable :: "'w services \<Rightarrow> 'w \<Rightarrow> nat \<Rightarrow> (proc, 'w) kernel \<Rightarrow> bool"
  for svc :: "'w services" and w :: 'w where
  reach_boot: "userinit svc (boot_kernel NULL_proc w) = Inr s \<Longrightarrow> reachable svc w 1 s"
| reach_step: "reachable svc w n s \<Longrightarrow> run_step svc (\<lambda>c. c) k s t \<Longrightarrow> reachable svc w (n + k) t"

lemma kernel_inv_boot: "state null = UNUSED \<Longrightarrow> parent null = None \<Longrightarrow> kernel_inv up (boot_kernel null w)"
  unfolding kernel_inv_def by (simp add: table_inv_boot) (simp add: waiters_ok_def in_wait_def boot_kernel_def)

lemma kernel_inv_userinit:
  assumes inv: "kernel_inv up s" and u: "userinit svc s = Inr t" and low: "nextpid s < INT_MAX"
  shows "kernel_inv up t" and "nextpid t = nextpid s + 1" and "\<exists>i. initproc t = Some i \<and> st t i = RUNNABLE"
proof -
  have tinv: "table_inv up s" using inv by (simp add: kernel_inv_def)
  obtain i s1 where a: "allocproc svc s = (Some i, s1)"
    using u by (auto simp: userinit_def split: prod.splits option.splits)
  note A = allocproc_Some [OF tinv keeps_identity_id a [unfolded allocproc_def]]
  obtain pg w2 ip where t: "t = (upd_proc i (\<lambda>p. p\<lparr>pgdir := pg, sz := 4096, tf := user_tf,
                      pname := ''initcode'', cwd := ip, state := RUNNABLE\<rparr>) s1)
                    \<lparr>initproc := Some i, world := w2\<rparr>"
    using u a by (auto simp: userinit_def Let_def bindE_eq_Inr_iff split: prod.splits if_splits)
  have p: "ptable t ! j = ptable s ! j" if "j < NPROC" "j \<noteq> i" for j
    using that A by (simp add: t upd_proc_nth)
  have q: "st t i = RUNNABLE" "pd t i = nextpid s" "par t i = None"
    using A by (simp_all add: t upd_proc_nth)
  show "kernel_inv up t"
    by (rule kernel_inv_fill [OF inv A(1,2)]) (use p q A low in \<open>auto simp: t\<close>)
  show "nextpid t = nextpid s + 1" using A low by (simp add: t)
  show "\<exists>i. initproc t = Some i \<and> st t i = RUNNABLE" using q by (auto simp: t)
qed

lemma reachable_kernel_inv:
  "reachable svc w n s \<Longrightarrow> kernel_inv (int n < INT_MAX) s \<and> (int n < INT_MAX \<longrightarrow> nextpid s = int n + 1)"
proof (induction rule: reachable.induct)
  case (reach_boot s)
  have b: "kernel_inv (int 1 < INT_MAX) (boot_kernel NULL_proc w)" by (rule kernel_inv_boot) (simp_all add: NULL_proc_def)
  have "nextpid (boot_kernel NULL_proc w) < INT_MAX" by (simp add: boot_kernel_def INT_MAX_def)
  from kernel_inv_userinit [OF b reach_boot this] show ?case by (simp add: boot_kernel_def)
next
  case (reach_step n s k t)
  have k: "k \<in> {0, 1}" using reach_step(2) by (cases rule: run_step.cases) auto
  have w: "kernel_inv (int (n + k) < INT_MAX) s"
    using reach_step(3) by (auto simp: kernel_inv_def table_inv_def)
  have "kernel_inv (int (n + k) < INT_MAX) t"
    by (rule kernel_inv_step [OF reach_step(2) keeps_identity_id w]) (use reach_step(3) k in auto)
  moreover have "int (n + k) < INT_MAX \<longrightarrow> nextpid t = int (n + k) + 1"
    using nextpid_step [OF reach_step(2) w] reach_step(3) k by auto
  ultimately show ?case by simp
qed

subsection \<open>Properties\<close>

text \<open>A concrete environment: one page frame, address 4096, which every request gets.\<close>

definition any_page :: "'w services" where
  "any_page = \<lparr>kalloc_s = (\<lambda>w. (4096, w)), kfree_s = (\<lambda>a w. Inr w), setupkvm_s = (\<lambda>w. (4096, w)),
     inituvm_s = (\<lambda>pg w. Inr w), copyuvm_s = (\<lambda>pg n w. Inr (4096, w)), allocuvm_s = (\<lambda>pg o1 n w. Inr (n, w)),
     deallocuvm_s = (\<lambda>pg o1 n w. Inr (n, w)), freevm_s = (\<lambda>pg w. Inr w), filedup_s = (\<lambda>f w. Inr w),
     fileclose_s = (\<lambda>f w. Inr w), idup_s = (\<lambda>i w. Inr w), iput_s = (\<lambda>i w. Inr w), namei_root_s = (\<lambda>w. Inr (Some 0, w))\<rparr>"

lemma any_page_simps [simp]:
  "kalloc_s any_page w = (4096, w)" "kfree_s any_page a w = Inr w" "setupkvm_s any_page w = (4096, w)"
  "inituvm_s any_page pg w = Inr w" "copyuvm_s any_page pg n w = Inr (4096, w)" "freevm_s any_page pg w = Inr w"
  "filedup_s any_page f w = Inr w" "fileclose_s any_page f w = Inr w" "idup_s any_page i w = Inr w"
  "iput_s any_page i w = Inr w" "namei_root_s any_page w = Inr (Some 0, w)"
  by (simp_all add: any_page_def)

definition one_page :: "unit services" where
  "one_page = any_page"

lemma one_page_simps [simp]:
  "kalloc_s one_page w = (4096, w)" "kfree_s one_page a w = Inr w" "setupkvm_s one_page w = (4096, w)"
  "inituvm_s one_page pg w = Inr w" "copyuvm_s one_page pg n w = Inr (4096, w)" "freevm_s one_page pg w = Inr w"
  "filedup_s one_page f w = Inr w" "fileclose_s one_page f w = Inr w" "idup_s one_page i w = Inr w"
  "iput_s one_page i w = Inr w" "namei_root_s one_page w = Inr (Some 0, w)"
  by (simp_all add: one_page_def)

text \<open>The table just after boot, and with the first process running and one exited child of it.\<close>

definition init_table :: "(proc, unit) kernel" where
  "init_table = (boot_kernel (NULL_proc\<lparr>cwd := Some 0\<rparr>) ())\<lparr>ptable := (replicate NPROC NULL_proc)
     [0 := NULL_proc\<lparr>state := RUNNING, pid := 1, kstack := 4096, pgdir := 4096, sz := 4096, cwd := Some 0\<rparr>],
     nextpid := 2, initproc := Some 0\<rparr>"

definition zombie_table :: "(proc, unit) kernel" where
  "zombie_table = init_table\<lparr>ptable := (ptable init_table)
     [1 := NULL_proc\<lparr>state := ZOMBIE, pid := 2, kstack := 4096, pgdir := 4096, parent := Some 0\<rparr>], nextpid := 3\<rparr>"

definition child_table :: "(proc, unit) kernel" where
  "child_table = init_table\<lparr>ptable := (ptable init_table)
     [0 := (ptable init_table ! 0)\<lparr>state := SLEEPING, chan := ProcChan 0\<rparr>,
      1 := NULL_proc\<lparr>state := RUNNING, pid := 2, kstack := 4096, pgdir := 4096, parent := Some 0, cwd := Some 0\<rparr>], nextpid := 3\<rparr>"

lemma single_entries:
  "i < NPROC \<Longrightarrow> ptable init_table ! i = (if i = 0 then NULL_proc\<lparr>state := RUNNING, pid := 1, kstack := 4096, pgdir := 4096, sz := 4096, cwd := Some 0\<rparr> else NULL_proc)"
  by (simp add: init_table_def nth_list_update NPROC_def)

lemma init_table_inv: "kernel_inv True init_table"
proof -
  have "length (ptable init_table) = NPROC" "nextpid init_table = 2" "initproc init_table = Some 0"
    by (simp_all add: init_table_def)
  then show ?thesis
    by (auto simp: kernel_inv_def table_inv_def pids_ok_def family_ok_def waiters_ok_def in_wait_def alive_def single_entries NULL_proc_def NPROC_def)
qed

lemma first_slots: "alloc_slot (boot_kernel NULL_proc ()) = Some 0" "alloc_slot init_table = Some 1"
proof -
  show "alloc_slot (boot_kernel NULL_proc ()) = Some 0"
    by (simp add: alloc_slot_def boot_kernel_def first_idx_Some_iff NPROC_def NULL_proc_def)
  have "length (ptable init_table) = NPROC" by (simp add: init_table_def)
  then show "alloc_slot init_table = Some 1"
    unfolding alloc_slot_def first_idx_Some_iff
    by (simp add: single_entries NULL_proc_def NPROC_def)
qed

lemma child_entries:
  "i < NPROC \<Longrightarrow> ptable child_table ! i
     = (if i = 0 then NULL_proc\<lparr>state := SLEEPING, pid := 1, kstack := 4096, pgdir := 4096, sz := 4096, cwd := Some 0, chan := ProcChan 0\<rparr>
        else if i = 1 then NULL_proc\<lparr>state := RUNNING, pid := 2, kstack := 4096, pgdir := 4096, parent := Some 0, cwd := Some 0\<rparr> else NULL_proc)"
  by (simp add: child_table_def init_table_def nth_list_update NPROC_def)

lemma child_table_inv: "kernel_inv True child_table" "alive child_table 1"
proof -
  have "length (ptable child_table) = NPROC" "nextpid child_table = 3" "initproc child_table = Some 0"
    by (simp_all add: child_table_def init_table_def)
  then show "kernel_inv True child_table" "alive child_table 1"
    by (auto simp: kernel_inv_def table_inv_def pids_ok_def family_ok_def waiters_ok_def in_wait_def alive_def child_entries NULL_proc_def NPROC_def)
qed

lemma dup_files_shape:
  "dup_files svc fs ns w = Inr (rs, w2) \<Longrightarrow> length fs = length ns
     \<Longrightarrow> rs = map2 (\<lambda>f n. case f of None \<Rightarrow> n | Some g \<Rightarrow> Some g) fs ns"
  by (induction svc fs ns w arbitrary: rs w2 rule: dup_files.induct) (auto simp: bindE_eq_Inr_iff)

text \<open>C1: In every state the kernel can reach from boot, by any interleaving of the steps of \<open>fork\<close> and of \<open>exit\<close>,
  \<open>wait\<close>, \<open>sleep\<close>, \<open>wakeup\<close>, \<open>kill\<close>, \<open>yield\<close>, \<open>growproc\<close> and context switches, the parent of an entry is another
  entry that is complete and has not exited, and a process that sleeps in \<open>wait\<close> has no exited child: no wakeup
  is lost. As long as fewer than \<open>2^31 - 1\<close> pids have been given out, live entries have different positive pids
  below \<open>nextpid\<close>; with the next one the counter, an \<open>int\<close>, wraps.\<close>

theorem process_table_safe:
  assumes "reachable svc w n s"
  shows "(n < 2147483647 \<longrightarrow> pids_ok s) \<and> (\<forall>i < NPROC. \<forall>j. par s i = Some j \<longrightarrow> alive s j \<and> j \<noteq> i)
    \<and> (\<forall>i < NPROC. \<forall>j < NPROC. in_wait s i \<longrightarrow> par s j = Some i \<longrightarrow> st s j \<noteq> ZOMBIE)"
proof (intro conjI allI impI)
  have k: "kernel_inv (int n < INT_MAX) s" using reachable_kernel_inv [OF assms] by blast
  then have t: "table_inv (int n < INT_MAX) s" by (simp add: kernel_inv_def)
  then show "pids_ok s" if "n < 2147483647" using that by (simp add: table_inv_def INT_MAX_def)
  show "alive s j" "j \<noteq> i" if "i < NPROC" "par s i = Some j" for i j
    using table_inv_family(1) [OF t that] by auto
  show "st s j \<noteq> ZOMBIE" if "i < NPROC" "j < NPROC" "in_wait s i" "par s j = Some i" for i j
    using k that by (auto simp: kernel_inv_def waiters_ok_def)
qed

theorem process_table_safe_witness: "\<exists>s. reachable one_page () 1 s \<and> pids_ok s"
proof -
  have "\<exists>t. alloc_kstack one_page 0 s = (Some 0, t)" for s :: "(proc, unit) kernel" by (simp add: alloc_kstack_def)
  then obtain t where "allocproc one_page (boot_kernel NULL_proc ()) = (Some 0, t)"
    unfolding allocproc_def allocproc_with_def first_slots option.case by blast
  then have "\<exists>s. userinit one_page (boot_kernel NULL_proc ()) = Inr s" by (simp add: userinit_def Let_def)
  then obtain s where "userinit one_page (boot_kernel NULL_proc ()) = Inr s" ..
  then have r: "reachable one_page () 1 s" by (rule reach_boot)
  then have "pids_ok s" using process_table_safe [OF r] by simp
  then show ?thesis using r by blast
qed

text \<open>The pid after the largest \<open>int\<close> is negative, and the next ones are pids of old entries again in time.\<close>

lemma pid_wraps: "nextpid s = 2147483647 \<Longrightarrow> nextpid (take_slot init i s) = -2147483648"
  by (simp add: take_slot_def int_succ_def INT_MAX_def)

lemma fork_child_of_init:
  assumes "length (ptable s) = NPROC" and "alloc_slot s = Some 1" and "nextpid s = 2"
    and "ofile (ptable s ! 0) = replicate 16 None" "cwd (ptable s ! 0) = Some 0" "ofile (ptable s ! 1) = replicate 16 None"
  shows "\<exists>t. fork one_page 0 s = Inr (2, t)"
proof -
  have "dup_files one_page (replicate 16 None) (replicate 16 None) w = Inr (replicate 16 None, w)" for w
    by (simp add: numeral_eq_Suc)
  then show ?thesis
    using assms by (simp add: fork_def fork_with_def fork_fill_def allocproc_with_def alloc_kstack_def take_slot_def
        Let_def idup_opt_def upd_proc_nth NPROC_def)
qed

text \<open>C31: When \<open>fork\<close> succeeds, exactly one unused entry became a runnable child of the caller: its pid
  is the next pid and the result, it has the parent's size, current directory, name and registers
  except \<open>eax = 0\<close>, and every open file of the parent; all other entries are as before.\<close>

theorem fork_copies:
  assumes inv: "table_inv up s" and me: "alive s me" and f: "fork svc me s = Inr (r, t)" and r: "r \<noteq> -1"
    and files: "\<forall>p \<in> set (ptable s). length (ofile p) = NOFILE"
  shows "\<exists>i < NPROC. st s i = UNUSED \<and> r = nextpid s
     \<and> (let c = ptable t ! i; p = ptable s ! me in
         state c = RUNNABLE \<and> pid c = r \<and> parent c = Some me \<and> sz c = sz p \<and> cwd c = cwd p
         \<and> pname c = pname p \<and> tf c = (tf p)\<lparr>eax := 0\<rparr> \<and> pgdir c \<noteq> 0
         \<and> (\<forall>k < NOFILE. ofile p ! k \<noteq> None \<longrightarrow> ofile c ! k = ofile p ! k))
     \<and> (\<forall>j < NPROC. j \<noteq> i \<longrightarrow> ptable t ! j = ptable s ! j)"
proof -
  obtain o1 s1 where a: "allocproc_with svc (\<lambda>c. c) s = (o1, s1)" by fastforce
  obtain np where o1: "o1 = Some np" using f a r by (cases o1) (auto simp: fork_def fork_with_def fork_fill_def)
  note A = allocproc_Some [OF inv keeps_identity_id a [unfolded o1]]
  note len = table_inv_length [OF inv]
  have m: "me < NPROC" "me \<noteq> np" using me A(2) by (auto simp: alive_def)
  then have p: "ptable s1 ! me = ptable s ! me" using A(9) by blast
  obtain pg w1 fs w2 w3 where pg: "pg \<noteq> 0"
      and d: "dup_files svc (ofile (ptable s ! me)) (ofile (ptable s1 ! np)) w1 = Inr (fs, w2)"
      and t: "t = upd_proc np (\<lambda>c. c\<lparr>pgdir := pg, sz := sz (ptable s ! me), parent := Some me,
             tf := (tf (ptable s ! me))\<lparr>eax := 0\<rparr>, ofile := fs, cwd := cwd (ptable s ! me),
             state := RUNNABLE, pname := pname (ptable s ! me)\<rparr>) (s1\<lparr>world := w3\<rparr>)"
      and rr: "r = pid (ptable s1 ! np)"
    using f a r o1 p by (auto simp: fork_def fork_with_def fork_fill_def Let_def bindE_eq_Inr_iff split: if_splits)
  have l: "length (ofile (ptable s ! me)) = NOFILE" "length (ofile (ptable s1 ! np)) = NOFILE"
    using files m A(1,7) len by simp_all
  have "fs = map2 (\<lambda>f n. case f of None \<Rightarrow> n | Some g \<Rightarrow> Some g) (ofile (ptable s ! me)) (ofile (ptable s1 ! np))"
    by (rule dup_files_shape [OF d]) (simp add: l)
  then have "\<forall>k < NOFILE. ofile (ptable s ! me) ! k \<noteq> None \<longrightarrow> fs ! k = ofile (ptable s ! me) ! k"
    using l by auto
  moreover have "ptable t ! j = ptable s ! j" if "j < NPROC" "j \<noteq> np" for j
    using that A(1,5,9) by (simp add: t upd_proc_nth)
  ultimately show ?thesis
    using A(1,2,5,8) rr pg by (intro exI [of _ np]) (simp add: t upd_proc_nth)
qed

theorem fork_copies_witness:
  "\<exists>r t i. fork one_page 0 init_table = Inr (r, t) \<and> r = 2 \<and> i < NPROC \<and> pid (ptable t ! i) = r"
proof -
  have inv: "table_inv True init_table" "alive init_table 0"
    using init_table_inv by (auto simp: kernel_inv_def alive_def single_entries NPROC_def)
  have f: "\<forall>p \<in> set (ptable init_table). length (ofile p) = NOFILE"
    by (auto simp: init_table_def NULL_proc_def NPROC_def in_set_conv_nth nth_list_update NOFILE_def)
  have "\<exists>t. fork one_page 0 init_table = Inr (2, t)"
    by (rule fork_child_of_init [OF _ first_slots(2)])
      (simp_all add: single_entries NPROC_def NULL_proc_def NOFILE_def, simp_all add: init_table_def NPROC_def)
  then obtain t where t: "fork one_page 0 init_table = Inr (2, t)" ..
  obtain i where "i < NPROC" "pid (ptable t ! i) = 2"
    using fork_copies [OF inv t _ f] by (auto simp: Let_def)
  then show ?thesis using t by blast
qed

text \<open>\<open>exit\<close> turns the caller into a zombie with its pid, with no open file and no current directory;
  its children now belong to the first process, which is woken if one of them has already exited; the
  parent is woken if it sleeps in \<open>wait\<close>; no other process changes except by being woken.\<close>

theorem exit_hands_over:
  assumes inv: "table_inv up s" and e: "exit_proc svc me s = Inr t" and me: "alive s me"
  shows "st t me = ZOMBIE \<and> pd t me = pd s me \<and> par t me = par s me
      \<and> ofile (ptable t ! me) = replicate (length (ofile (ptable s ! me))) None \<and> cwd (ptable t ! me) = None
    \<and> (\<forall>j < NPROC. par t j = (if par s j = Some me then initproc s else par s j))
    \<and> (\<forall>k. par s me = Some k \<longrightarrow> in_wait s k \<longrightarrow> st t k = RUNNABLE)
    \<and> (\<forall>k. \<forall>j < NPROC. initproc s = Some k \<longrightarrow> in_wait s k \<longrightarrow> par s j = Some me \<longrightarrow> st s j = ZOMBIE \<longrightarrow> st t k = RUNNABLE)
    \<and> (\<forall>j < NPROC. j \<noteq> me \<longrightarrow> st t j = st s j \<or> st s j = SLEEPING \<and> st t j = RUNNABLE)"
proof -
  note E = exit_proc_shape [OF assms]
  have m: "me < NPROC" using me by (simp add: alive_def)
  have "par s me \<noteq> Some me" using table_inv_family(1) [OF inv m] by blast
  then have "par t me = par s me" using E(7) [OF m] by simp
  then show ?thesis using E(5,7,9,10,11,12) E(6) [OF m] by simp
qed

lemma child_exits: "\<exists>t. exit_proc one_page 1 child_table = Inr t"
proof -
  have "initproc child_table \<noteq> Some 1" "cwd (ptable child_table ! 1) = Some 0"
      "ofile (ptable child_table ! 1) = replicate 16 None"
    by (simp_all add: child_entries NPROC_def NULL_proc_def NOFILE_def) (simp add: child_table_def init_table_def)
  moreover have "close_files one_page (replicate 16 None) w = Inr w" for w by (simp add: numeral_eq_Suc)
  ultimately show ?thesis by (simp add: exit_proc_def iput_opt_def Let_def)
qed

theorem exit_hands_over_witness:
  "\<exists>t. exit_proc one_page 1 child_table = Inr t \<and> st t 1 = ZOMBIE \<and> st t 0 = RUNNABLE"
proof -
  obtain t where t: "exit_proc one_page 1 child_table = Inr t" using child_exits ..
  have inv: "table_inv True child_table" using child_table_inv(1) by (simp add: kernel_inv_def)
  have "par child_table 1 = Some 0" "in_wait child_table 0"
    by (simp_all add: child_entries NPROC_def in_wait_def)
  then have "st t 1 = ZOMBIE \<and> st t 0 = RUNNABLE"
    using exit_hands_over [OF inv t child_table_inv(2)] by simp
  then show ?thesis using t by (intro exI conjI) auto
qed

text \<open>C14: A process exits while no other child of its parent, and no child of its own, has exited. Then it is woken if it sleeps in
  \<open>wait\<close>, and its \<open>wait\<close> frees the kernel stack and the page table of the exited process, returns its pid and
  leaves its entry unused and without a parent, with the table well formed.\<close>

theorem exit_then_wait:
  assumes inv: "table_inv up s" and e: "exit_proc svc me s = Inr t" and me: "alive s me" and k: "par s me = Some k"
    and only: "\<forall>j < NPROC. j \<noteq> me \<longrightarrow> par s j \<in> {Some k, Some me} \<longrightarrow> st s j \<noteq> ZOMBIE"
    and free: "kfree_s svc (kstack (ptable t ! me)) (world t) = Inr w1" "freevm_s svc (pgdir (ptable t ! me)) w1 = Inr w2"
  shows "(in_wait s k \<longrightarrow> st t k = RUNNABLE)
    \<and> (\<exists>u. wait_proc svc k t = Inr (Reaped (pd s me), u) \<and> world u = w2 \<and> st u me = UNUSED \<and> par u me = None \<and> table_inv up u)"
proof -
  note E = exit_proc_shape [OF inv e me]
  have m: "me < NPROC" using me by (simp add: alive_def)
  have "par s me \<noteq> Some me" using table_inv_family(1) [OF inv m] by blast
  then have p: "par t me = Some k" using E(7) [OF m] k by simp
  have z: "\<not> (par t j = Some k \<and> st t j = ZOMBIE)" if "j < NPROC" "j \<noteq> me" for j
    using that E(7) [of j] E(9) [of j] only by (auto split: if_splits)
  have "first_idx (\<lambda>p. parent p = Some k \<and> state p = ZOMBIE) (ptable t) = Some me"
    unfolding first_idx_Some_iff using m E(2,5) p z by auto
  then have w: "wait_proc svc k t = Inr (Reaped (pd t me), upd_proc me reap_fields (t\<lparr>world := w2\<rparr>))"
    using free by (simp add: wait_proc_def Let_def)
  have q: "ptable (upd_proc me reap_fields (t\<lparr>world := w2\<rparr>)) ! j
      = (if j = me then reap_fields (ptable t ! me) else ptable t ! j)" if "j < NPROC" for j
    using that E(2) by (simp add: upd_proc_nth)
  have "table_inv up (upd_proc me reap_fields (t\<lparr>world := w2\<rparr>))"
    by (rule table_inv_reap [OF table_inv_exit [OF inv e me] m E(5)])
      (use m E(2) in \<open>simp_all add: q reap_fields_def\<close>)
  moreover have "in_wait s k \<longrightarrow> st t k = RUNNABLE" using E(10) [OF k] by blast
  ultimately show ?thesis using w q [OF m] E(6) [OF m] by (simp add: reap_fields_def)
qed

theorem exit_then_wait_witness:
  "\<exists>t u. exit_proc one_page 1 child_table = Inr t \<and> wait_proc one_page 0 t = Inr (Reaped 2, u)"
proof -
  obtain t where t: "exit_proc one_page 1 child_table = Inr t" using child_exits ..
  have inv: "table_inv True child_table" using child_table_inv(1) by (simp add: kernel_inv_def)
  have f: "par child_table 1 = Some 0" "pd child_table 1 = 2"
      "\<forall>j < NPROC. j \<noteq> 1 \<longrightarrow> par child_table j \<in> {Some 0, Some 1} \<longrightarrow> st child_table j \<noteq> ZOMBIE"
    using child_entries [of 1] by (auto simp: child_entries NULL_proc_def NPROC_def)
  have "\<exists>u. wait_proc one_page 0 t = Inr (Reaped (pd child_table 1), u)"
    using exit_then_wait [OF inv t child_table_inv(2) f(1,3) one_page_simps(2,6)] by blast
  then obtain u where "wait_proc one_page 0 t = Inr (Reaped 2, u)" unfolding f(2) ..
  then show ?thesis using t by (intro exI conjI)
qed

text \<open>\<open>kill(0)\<close> finds an unused entry, whose pid is 0, and succeeds; \<open>allocproc\<close> does not clear
  \<open>killed\<close>, so the next child that \<open>fork\<close> puts in that entry is born killed.\<close>

theorem kill_zero_dooms_next_child:
  assumes inv: "table_inv True s" and me: "alive s me" and i: "alloc_slot s = Some i" "pd s i = 0"
    and k: "kill 0 s = (r0, s')" and f: "fork svc me s' = Inr (r, t)" and r: "r \<noteq> -1"
  shows "r0 = 0 \<and> st t i = RUNNABLE \<and> pd t i = r \<and> killed (ptable t ! i)"
proof -
  note len = table_inv_length [OF inv]
  note sl = alloc_slotD [OF i(1) len]
  have pos: "pd s j \<noteq> 0" if "j < i" for j
  proof -
    have "j < NPROC" using that sl(1) by simp
    then have "0 < pd s j" using sl(3) [OF that] inv by (simp add: table_inv_def pids_ok_def)
    then show ?thesis by simp
  qed
  then have fi: "first_idx (\<lambda>p. pid p = 0) (ptable s) = Some i"
    using i(2) sl(1) len by (simp add: first_idx_Some_iff)
  have s': "r0 = 0" "s' = upd_proc i (\<lambda>p. p\<lparr>killed := True, state := (if state p = SLEEPING then RUNNABLE else state p)\<rparr>) s"
    using k by (auto simp: kill_def fi)
  have inv': "table_inv True s'" using table_inv_kill [OF inv, of 0] k by simp
  have e': "ptable s' ! j = (if j = i then (ptable s ! i)\<lparr>killed := True\<rparr> else ptable s ! j)" if "j < NPROC" for j
    using that len sl(2) by (simp add: s' upd_proc_nth)
  obtain o1 s1 where a: "allocproc_with svc (\<lambda>c. c) s' = (o1, s1)" by fastforce
  obtain np where o1: "o1 = Some np" using f a r by (cases o1) (auto simp: fork_def fork_with_def fork_fill_def)
  note A = allocproc_Some [OF inv' keeps_identity_id a [unfolded o1]]
  have as: "alloc_slot s' = Some i"
    using sl len e' by (auto simp: alloc_slot_def first_idx_Some_iff s' upd_proc_nth)
  have np: "np = i" using a o1 as by (auto simp: allocproc_with_def alloc_kstack_def Let_def split: prod.splits if_splits)
  obtain pg fs w3 where t: "t = upd_proc np (\<lambda>c. c\<lparr>pgdir := pg, sz := sz (ptable s1 ! me), parent := Some me,
             tf := (tf (ptable s1 ! me))\<lparr>eax := 0\<rparr>, ofile := fs, cwd := cwd (ptable s1 ! me),
             state := RUNNABLE, pname := pname (ptable s1 ! me)\<rparr>) (s1\<lparr>world := w3\<rparr>)"
      and rr: "r = pid (ptable s1 ! np)"
    using f a r o1 by (auto simp: fork_def fork_with_def fork_fill_def Let_def bindE_eq_Inr_iff split: if_splits)
  show ?thesis
    using s'(1) rr A(1,5,7) np e' [OF A(1)] by (simp add: t upd_proc_nth)
qed

theorem kill_zero_dooms_next_child_witness:
  "\<exists>s' t. kill 0 init_table = (0, s') \<and> fork one_page 0 s' = Inr (2, t) \<and> killed (ptable t ! 1)"
proof -
  have inv: "table_inv True init_table" "alive init_table 0"
    using init_table_inv by (auto simp: kernel_inv_def alive_def single_entries NPROC_def)
  have p: "pd init_table 1 = 0" using single_entries [of 1] by (simp add: NPROC_def NULL_proc_def)
  note len = table_inv_length [OF inv(1)]
  have fi: "first_idx (\<lambda>p. pid p = 0) (ptable init_table) = Some 1"
    unfolding first_idx_Some_iff using len p by (simp add: single_entries NPROC_def)
  define s' where "s' = upd_proc 1 (\<lambda>p. p\<lparr>killed := True, state := (if state p = SLEEPING then RUNNABLE else state p)\<rparr>) init_table"
  have k: "kill 0 init_table = (0, s')" by (simp add: kill_def fi s'_def)
  have e: "ptable s' ! 0 = ptable init_table ! 0" "ptable s' ! 1 = NULL_proc\<lparr>killed := True\<rparr>" "length (ptable s') = NPROC"
    using len single_entries [of 1] by (simp_all add: s'_def upd_proc_nth NPROC_def NULL_proc_def)
  have "alloc_slot s' = Some 1"
    unfolding alloc_slot_def first_idx_Some_iff using e by (simp add: single_entries NPROC_def NULL_proc_def)
  moreover have "nextpid s' = 2" by (simp add: s'_def init_table_def)
  moreover have "ofile (ptable s' ! 0) = replicate 16 None" "cwd (ptable s' ! 0) = Some 0" "ofile (ptable s' ! 1) = replicate 16 None"
    unfolding e by (simp_all add: single_entries NPROC_def NULL_proc_def NOFILE_def)
  ultimately obtain t where t: "fork one_page 0 s' = Inr (2, t)" using fork_child_of_init [OF e(3)] by blast
  have "killed (ptable t ! 1)"
    using kill_zero_dooms_next_child [OF inv first_slots(2) p k t] by simp
  then show ?thesis using k t by (intro exI conjI)
qed

end
