(* ===== verification/Mlfq.thy ===== *)
theory Mlfq
  imports ProcSteps Fifo
begin

text \<open>
  The multi-level feedback queue scheduler of project 2: \<open>p2/xv6/kernel/proc.c\<close> and the timer
  part of \<open>p2/xv6/kernel/trap.c\<close>. A process carries its priority (0 is the highest), its tick
  counts and its time slices; processes of priority 3 take turns through the circular queue
  \<open>p3q\<close>. The process operations that project 2 leaves as they are come from theory \<open>Proc\<close>.
\<close>

definition QLEN :: int where "QLEN = 100"

record p3queue =
  front :: int
  rear :: int
  qsize :: int
  p3q :: "int list"

record proc2 = proc +
  priority :: u32
  pticks :: "u32 list"
  starved :: u32
  ts :: u32
  slice :: "u32 list"
  p3ticks :: u32

text \<open>What the kernel holds beside the process table: the run queue, the clock, the rest.\<close>

record 'w mworld =
  runq :: p3queue
  clock :: u32
  others :: 'w

type_synonym ('p, 'w) mkernel = "('p proc2_scheme, 'w mworld) kernel"

definition NULL_proc2 :: proc2 where
  "NULL_proc2 = proc.extend NULL_proc (proc2.fields 0 (replicate 4 0) 0 0 (replicate 4 0) 0)"

subsection \<open>The queue\<close>

definition queue_boot :: p3queue where
  "queue_boot = \<lparr>front = 0, rear = QLEN - 1, qsize = 0, p3q = replicate (nat QLEN) 0\<rparr>"

definition addq :: "int \<Rightarrow> p3queue \<Rightarrow> p3queue" where
  "addq n q = (let r = (rear q + 1) mod QLEN in
     q\<lparr>rear := r, qsize := qsize q + 1, p3q := (p3q q)[nat r := n]\<rparr>)"

definition remq :: "p3queue \<Rightarrow> p3queue" where
  "remq q = q\<lparr>front := (front q + 1) mod QLEN, qsize := qsize q - 1\<rparr>"

definition isemp :: "p3queue \<Rightarrow> bool" where
  "isemp q = (qsize q = 0)"

definition frontq :: "p3queue \<Rightarrow> int" where
  "frontq q = (if isemp q then -1 else p3q q ! nat (front q))"

definition queue_inv :: "p3queue \<Rightarrow> bool" where
  "queue_inv q = (length (p3q q) = 100 \<and> 0 \<le> front q \<and> front q < QLEN \<and> 0 \<le> qsize q \<and> qsize q \<le> QLEN
     \<and> rear q = (front q + qsize q - 1) mod QLEN)"

definition queue_content :: "p3queue \<Rightarrow> int list" where
  "queue_content q = ring 100 (p3q q) (nat (front q)) (nat (qsize q))"

lemma queue_inv_boot: "queue_inv queue_boot \<and> queue_content queue_boot = []"
  by (simp add: queue_inv_def queue_boot_def QLEN_def queue_content_def)

lemma addq_inv:
  assumes "queue_inv q" and "qsize q < QLEN"
  shows "queue_inv (addq n q)" and "queue_content (addq n q) = queue_content q @ [n]"
proof -
  obtain f d where fd: "front q = int f" "qsize q = int d"
    using assms by (metis queue_inv_def nonneg_int_cases)
  have b: "f < 100" "d < 100" "length (p3q q) = 100"
    using assms fd by (auto simp: queue_inv_def QLEN_def)
  have r: "(rear q + 1) mod QLEN = int ((f + d) mod 100)"
    using assms fd by (simp add: queue_inv_def QLEN_def mod_simps zmod_int)
  show "queue_inv (addq n q)"
    using b r fd by (simp add: queue_inv_def addq_def Let_def QLEN_def zmod_int)
  show "queue_content (addq n q) = queue_content q @ [n]"
    using b r fd ring_put [of "p3q q" 100 d f n]
    by (simp add: queue_content_def addq_def Let_def nat_add_distrib)
qed

lemma remq_inv:
  assumes "queue_inv q" and "queue_content q \<noteq> []"
  shows "queue_inv (remq q)" and "queue_content q = frontq q # queue_content (remq q)"
proof -
  obtain f d where fd: "front q = int f" "qsize q = int d"
    using assms by (metis queue_inv_def nonneg_int_cases)
  obtain e where e: "d = Suc e" using assms(2) fd by (cases d) (auto simp: queue_content_def)
  have b: "f < 100" "d \<le> 100" "length (p3q q) = 100" "rear q = (int f + int e) mod 100"
    using assms fd e by (auto simp: queue_inv_def QLEN_def)
  have m: "(1 + int f) mod 100 = int (Suc f mod 100)" by (simp add: zmod_int)
  show "queue_inv (remq q)"
  proof -
    have "((int f + 1) mod 100 + int e - 1) mod 100 = (int f + int e) mod 100"
      using mod_add_left_eq [of "int f + 1" 100 "int e - 1"] by (simp add: algebra_simps)
    then show ?thesis using b fd e by (simp add: queue_inv_def remq_def QLEN_def)
  qed
  have Suc_as_int: "nat (1 + int k) = Suc k" for k by simp
  have c: "ring 100 (p3q q) (Suc f mod 100) e = ring 100 (p3q q) (Suc f) e" by (rule ring_mod)
  show "queue_content q = frontq q # queue_content (remq q)"
    using b fd e m c Suc_as_int [of e] Suc_as_int [of f]
    by (simp add: queue_content_def remq_def QLEN_def ring_Suc_front frontq_def isemp_def add.commute)
qed

text \<open>
  The scheduler takes the head with \<open>frontq\<close> and drops it with \<open>remq\<close>. Below its capacity the
  queue is a first-in first-out buffer of 100 entries.
\<close>

interpretation p3fifo: bounded_fifo addq "\<lambda>q. (frontq q, remq q)" queue_content queue_inv "\<lambda>_. 100"
proof
  fix q x
  assume i: "queue_inv q"
  { assume "length (queue_content q) < 100"
    then have "qsize q < QLEN" by (simp add: queue_content_def QLEN_def)
    then show "queue_content (addq x q) = queue_content q @ [x]" "queue_inv (addq x q)"
      using addq_inv i by auto }
  { assume c: "queue_content q \<noteq> []"
    show "queue_content q = fst (frontq q, remq q) # queue_content (snd (frontq q, remq q))"
      using remq_inv(2) [OF i c] by simp
    show "queue_inv (snd (frontq q, remq q))" using remq_inv(1) [OF i c] by simp }
  show "length (queue_content q) \<le> 100"
    using i by (simp add: queue_content_def queue_inv_def QLEN_def nat_le_iff)
qed simp_all

text \<open>Nothing tests the capacity: the hundred-and-first entry overwrites the head.\<close>

lemma addq_full_overwrites:
  assumes "queue_inv q" and "qsize q = QLEN"
  shows "frontq (addq n q) = n" and "qsize (addq n q) = QLEN + 1" and "\<not> queue_inv (addq n q)"
proof -
  have r: "(rear q + 1) mod QLEN = front q"
    using assms by (simp add: queue_inv_def QLEN_def mod_simps)
  have "nat (front q) < length (p3q q)" using assms by (simp add: queue_inv_def QLEN_def nat_less_iff)
  then show "frontq (addq n q) = n" and "qsize (addq n q) = QLEN + 1"
    using r assms(2) by (simp_all add: frontq_def addq_def Let_def isemp_def QLEN_def)
  then show "\<not> queue_inv (addq n q)" by (simp add: queue_inv_def)
qed

subsection \<open>fork\<close>

definition mlfq_init :: "'p proc2_scheme \<Rightarrow> 'p proc2_scheme" where
  "mlfq_init c = c\<lparr>priority := 0, pticks := replicate 4 0, slice := replicate 4 0, starved := 1, p3ticks := 0\<rparr>"

definition mlfq_fork ::
  "'w mworld services \<Rightarrow> nat \<Rightarrow> ('p, 'w) mkernel \<Rightarrow> kerr + int \<times> ('p, 'w) mkernel" where
  "mlfq_fork svc me s = fork_with svc (\<lambda>c. c) mlfq_init me s"

subsection \<open>The scheduler\<close>

definition bump :: "nat \<Rightarrow> u32 list \<Rightarrow> u32 list" where
  "bump k xs = xs[k := xs ! k + 1]"

text \<open>The switch into process \<open>i\<close> and back; \<open>run i\<close> is the time the process runs.\<close>

definition dispatch ::
  "(nat \<Rightarrow> ('p, 'w) mkernel \<Rightarrow> ('p, 'w) mkernel) \<Rightarrow> nat \<Rightarrow> nat \<Rightarrow> ('p, 'w) mkernel \<Rightarrow> ('p, 'w) mkernel" where
  "dispatch run k i s =
     (let s1 = upd_proc i (\<lambda>p. p\<lparr>state := RUNNING, starved := 0, ts := clock (world s)\<rparr>) s
      in upd_proc i (\<lambda>p. p\<lparr>pticks := bump k (pticks p), slice := bump k (slice p)\<rparr>) (run i s1))"

definition upd_runq :: "(p3queue \<Rightarrow> p3queue) \<Rightarrow> ('p, 'w) mkernel \<Rightarrow> ('p, 'w) mkernel" where
  "upd_runq f s = s\<lparr>world := (world s)\<lparr>runq := f (runq (world s))\<rparr>\<rparr>"

text \<open>
  One iteration of the scan, and whether it ends with \<open>break\<close> (true) or goes on to the next entry.
\<close>

definition visit_level ::
  "(nat \<Rightarrow> ('p, 'w) mkernel \<Rightarrow> ('p, 'w) mkernel) \<Rightarrow> nat \<Rightarrow> u32 \<Rightarrow> nat \<Rightarrow> ('p, 'w) mkernel \<Rightarrow> ('p, 'w) mkernel \<times> bool" where
  "visit_level run k limit i s =
     (if slice (ptable s ! i) ! k \<ge> limit then (upd_proc i (\<lambda>p. p\<lparr>priority := of_nat (k + 1)\<rparr>) s, False)
      else (dispatch run k i s, k = 0))"

definition visit_p3 ::
  "(nat \<Rightarrow> ('p, 'w) mkernel \<Rightarrow> ('p, 'w) mkernel) \<Rightarrow> nat \<Rightarrow> ('p, 'w) mkernel \<Rightarrow> ('p, 'w) mkernel \<times> bool" where
  "visit_p3 run i s =
     (let s1 = upd_runq (addq (pid (ptable s ! i))) s in
      if pid (ptable s ! i) = frontq (runq (world s1)) then
        (let s2 = upd_proc i (\<lambda>p. p\<lparr>p3ticks := p3ticks p + 1\<rparr>) (dispatch run 3 i s1);
             n = p3ticks (ptable s2 ! i)
         in (if n \<noteq> 0 \<and> n mod 20 = 0
             then upd_proc i (\<lambda>p. p\<lparr>p3ticks := 0\<rparr>) (upd_runq remq s2) else s2, False))
      else (s1, False))"

definition visit ::
  "(nat \<Rightarrow> ('p, 'w) mkernel \<Rightarrow> ('p, 'w) mkernel) \<Rightarrow> nat \<Rightarrow> ('p, 'w) mkernel \<Rightarrow> ('p, 'w) mkernel \<times> bool" where
  "visit run i s =
     (let p = ptable s ! i in
      if state p \<noteq> RUNNABLE then (s, False)
      else if priority p = 0 then visit_level run 0 5 i s
      else if priority p = 1 then visit_level run 1 5 i s
      else if priority p = 2 then visit_level run 2 10 i s
      else if priority p = 3 then visit_p3 run i s
      else (s, False))"

fun scan ::
  "(nat \<Rightarrow> ('p, 'w) mkernel \<Rightarrow> ('p, 'w) mkernel) \<Rightarrow> nat list \<Rightarrow> ('p, 'w) mkernel \<Rightarrow> ('p, 'w) mkernel" where
  "scan run [] s = s"
| "scan run (i # is) s = (if snd (visit run i s) then fst (visit run i s) else scan run is (fst (visit run i s)))"

definition mlfq_pass ::
  "(nat \<Rightarrow> ('p, 'w) mkernel \<Rightarrow> ('p, 'w) mkernel) \<Rightarrow> ('p, 'w) mkernel \<Rightarrow> ('p, 'w) mkernel" where
  "mlfq_pass run s = scan run [0..<NPROC] s"

subsection \<open>Aging\<close>

definition age :: "'p proc2_scheme \<Rightarrow> 'p proc2_scheme" where
  "age p =
     (if state p \<noteq> RUNNABLE then p
      else if starved p = 1 then
        (if priority p = 1 \<or> priority p = 2 \<or> priority p = 3
         then p\<lparr>priority := priority p - 1, slice := (slice p)[unat (priority p - 1) := 0]\<rparr>
         else p)
      else p\<lparr>starved := 1\<rparr>)"

definition resets_queue :: "'p proc2_scheme \<Rightarrow> bool" where
  "resets_queue p = (state p = RUNNABLE \<and> starved p = 1 \<and> priority p = 3)"

definition bump_priority :: "('p, 'w) mkernel \<Rightarrow> ('p, 'w) mkernel" where
  "bump_priority s =
     (let s1 = s\<lparr>ptable := map age (ptable s)\<rparr> in
      if list_ex resets_queue (ptable s)
      then upd_runq (\<lambda>q. q\<lparr>front := 0, rear := QLEN - 1, qsize := 0\<rparr>) s1 else s1)"

text \<open>
  The clock interrupt, as \<open>trap\<close> handles it while process \<open>me\<close> runs (\<open>None\<close>: no process): the
  tick, the wakeup of the sleepers on it, the yield, and every hundredth tick the aging.
  \<open>resume\<close> is what happens from the yield until the process runs again.
\<close>

definition clock_tick :: "bool \<Rightarrow> ('p, 'w) mkernel \<Rightarrow> ('p, 'w) mkernel" where
  "clock_tick cpu0 s =
     (if cpu0 then wakeup TicksChan (s\<lparr>world := (world s)\<lparr>clock := clock (world s) + 1\<rparr>\<rparr>) else s)"

definition timer_trap ::
  "bool \<Rightarrow> (('p, 'w) mkernel \<Rightarrow> ('p, 'w) mkernel) \<Rightarrow> nat option \<Rightarrow> ('p, 'w) mkernel \<Rightarrow> ('p, 'w) mkernel" where
  "timer_trap cpu0 resume me s =
     (let s1 = clock_tick cpu0 s;
          s2 = (case me of Some i \<Rightarrow> if state (ptable s1 ! i) = RUNNING then resume (yield i s1) else s1
                | None \<Rightarrow> s1)
      in if clock (world s2) mod 100 = 0 then bump_priority s2 else s2)"

subsection \<open>getpinfo\<close>

record pstat_row =
  inuse :: int
  spid :: int
  sprio :: int
  sstate :: procstate
  sticks :: "int list"

definition pinfo_row :: "'p proc2_scheme \<Rightarrow> pstat_row" where
  "pinfo_row p = \<lparr>inuse = 1, spid = pid p, sprio = sint (priority p), sstate = state p,
     sticks = map sint (pticks p)\<rparr>"

fun fill_pstat :: "'p proc2_scheme list \<Rightarrow> nat \<Rightarrow> pstat_row list \<Rightarrow> pstat_row list" where
  "fill_pstat [] i ps = ps"
| "fill_pstat (p # rest) i ps =
     (if state p = UNUSED then fill_pstat rest i ps
      else fill_pstat rest (Suc i) (ps[i := pinfo_row p]))"

definition sys_getpinfo :: "pstat_row list option \<Rightarrow> ('p, 'w) mkernel \<Rightarrow> int \<times> pstat_row list option" where
  "sys_getpinfo arg s =
     (case arg of None \<Rightarrow> (-1, None)
      | Some ps \<Rightarrow> (0, Some (fill_pstat (ptable s) 0 ps)))"

lemma fill_pstat_eq:
  assumes "i + length (filter (\<lambda>p. state p \<noteq> UNUSED) tab) \<le> length ps"
  shows "fill_pstat tab i ps = take i ps @ map pinfo_row (filter (\<lambda>p. state p \<noteq> UNUSED) tab)
           @ drop (i + length (filter (\<lambda>p. state p \<noteq> UNUSED) tab)) ps"
  using assms
proof (induction tab arbitrary: i ps)
  case Nil
  then show ?case by simp
next
  case (Cons p tab)
  show ?case
  proof (cases "state p = UNUSED")
    case True
    then show ?thesis using Cons by simp
  next
    case False
    then have "i < length ps" using Cons.prems by simp
    then show ?thesis
      using Cons.IH [of "Suc i" "ps[i := pinfo_row p]"] Cons.prems False
      by (simp add: take_Suc_conv_app_nth take_update_cancel drop_update_cancel)
  qed
qed

subsection \<open>Slices and priorities stay in their bounds\<close>

text \<open>
  A process leaves priorities 0, 1 and 2 after 5, 5 and 10 slices there.
\<close>

definition level_bound :: "nat \<Rightarrow> u32" where
  "level_bound k = (if k = 2 then 10 else 5)"

definition mlfq_ok :: "'p proc2_scheme \<Rightarrow> bool" where
  "mlfq_ok p = (length (slice p) = 4 \<and> length (pticks p) = 4 \<and> priority p \<le> 3
     \<and> slice p ! 0 \<le> 5 \<and> slice p ! 1 \<le> 5 \<and> slice p ! 2 \<le> 10)"

definition procs_ok :: "('p, 'w) mkernel \<Rightarrow> bool" where
  "procs_ok s = (length (ptable s) = NPROC \<and> (\<forall>p \<in> set (ptable s). mlfq_ok p))"

text \<open>
  What happens from the switch into process \<open>i\<close> until the processor is back in the scheduler: steps of the kernel
  (of \<open>i\<close>, and of the interrupt handlers), clock ticks and agings, each while \<open>i\<close> is the running process. Project 2
  runs on one processor.
\<close>

inductive cpu_run :: "'w mworld services \<Rightarrow> nat \<Rightarrow> ('p, 'w) mkernel \<Rightarrow> ('p, 'w) mkernel \<Rightarrow> bool"
  for svc :: "'w mworld services" and i :: nat where
  cr_back: "cpu_run svc i s s"
| cr_step: "st s i = RUNNING \<Longrightarrow> run_step svc mlfq_init k s t \<Longrightarrow> cpu_run svc i t u \<Longrightarrow> cpu_run svc i s u"
| cr_tick: "st s i = RUNNING \<Longrightarrow> cpu_run svc i (clock_tick cpu0 s) u \<Longrightarrow> cpu_run svc i s u"
| cr_age: "st s i = RUNNING \<Longrightarrow> cpu_run svc i (bump_priority s) u \<Longrightarrow> cpu_run svc i s u"

definition runs_of :: "'w mworld services \<Rightarrow> (nat \<Rightarrow> ('p, 'w) mkernel \<Rightarrow> ('p, 'w) mkernel) \<Rightarrow> bool" where
  "runs_of svc run = (\<forall>i s. cpu_run svc i s (run i s))"

text \<open>
  The states between the passes of the scheduler: after the first process has been made, after each pass, and
  after an interrupt that comes while no process runs.
\<close>

inductive mlfq_reachable :: "'w mworld services \<Rightarrow> 'w mworld \<Rightarrow> (unit, 'w) mkernel \<Rightarrow> bool"
  for svc :: "'w mworld services" and w :: "'w mworld" where
  mr_boot: "userinit svc (boot_kernel NULL_proc2 w) = Inr s \<Longrightarrow> mlfq_reachable svc w s"
| mr_pass: "mlfq_reachable svc w s \<Longrightarrow> runs_of svc run \<Longrightarrow> mlfq_reachable svc w (mlfq_pass run s)"
| mr_tick: "mlfq_reachable svc w s \<Longrightarrow> mlfq_reachable svc w (clock_tick cpu0 s)"
| mr_age: "mlfq_reachable svc w s \<Longrightarrow> mlfq_reachable svc w (bump_priority s)"
| mr_wakeup: "mlfq_reachable svc w s \<Longrightarrow> mlfq_reachable svc w (wakeup c s)"

lemma mlfq_ok_init: "mlfq_ok (mlfq_init c)"
  by (simp add: mlfq_ok_def mlfq_init_def)

lemma word_pred_le: "(p::u32) = 1 \<or> p = 2 \<or> p = 3 \<Longrightarrow> p - 1 \<le> 3"
  by auto

lemma mlfq_ok_age: "mlfq_ok p \<Longrightarrow> mlfq_ok (age p)"
  unfolding mlfq_ok_def age_def by (auto simp: nth_list_update)

lemma procs_ok_upd:
  assumes "procs_ok s" and "i < NPROC" and "mlfq_ok (f (ptable s ! i))"
  shows "procs_ok (upd_proc i f s)"
  using assms set_update_subset_insert [of "ptable s" i "f (ptable s ! i)"]
  by (auto simp: procs_ok_def upd_proc_def)

lemma procs_ok_nth: "procs_ok s \<Longrightarrow> i < NPROC \<Longrightarrow> mlfq_ok (ptable s ! i)"
  by (simp add: procs_ok_def)

lemma procs_ok_runq [simp]: "procs_ok (upd_runq f s) = procs_ok s"
  by (simp add: procs_ok_def upd_runq_def)

lemma upd_runq_simps [simp]:
  "ptable (upd_runq f s) = ptable s" "runq (world (upd_runq f s)) = f (runq (world s))"
  "nextpid (upd_runq f s) = nextpid s" "initproc (upd_runq f s) = initproc s"
  "clock (world (upd_runq f s)) = clock (world s)"
  by (simp_all add: upd_runq_def)

lemma procs_ok_bump_priority: "procs_ok s \<Longrightarrow> procs_ok (bump_priority s)"
  by (auto simp: bump_priority_def Let_def procs_ok_def mlfq_ok_age)

lemma mlfq_ok_bump:
  assumes "mlfq_ok p" and "k < 4" and "k < 3 \<Longrightarrow> slice p ! k < level_bound k"
  shows "mlfq_ok (p\<lparr>pticks := bump k (pticks p), slice := bump k (slice p)\<rparr>)"
  using assms by (auto simp: mlfq_ok_def bump_def nth_list_update level_bound_def intro: inc_le)

text \<open>No step of the kernel touches the scheduling fields, except that it gives a new child fresh ones.\<close>

lemma sched_fields_more:
  "proc.more p = proc.more q \<Longrightarrow> slice p = slice q \<and> pticks p = pticks q \<and> priority p = priority (q :: 'p proc2_scheme)"
  by (cases p; cases q) simp

lemma mlfq_ok_more: "proc.more p = proc.more q \<Longrightarrow> mlfq_ok p = mlfq_ok q"
  using sched_fields_more [of p q] by (simp add: mlfq_ok_def)

lemma run_step_length: "run_step svc init k s t \<Longrightarrow> length (ptable t) = length (ptable s)"
proof (induction rule: run_step.induct)
  case (rs_exit me s t)
  then show ?case by (auto simp: exit_proc_def Let_def bindE_eq_Inr_iff split: if_splits)
next
  case (rs_wait me s r t)
  then show ?case by (auto elim!: wait_proc_cases simp: sleep_enter_def)
next
  case (rs_grow me s n r t)
  then show ?case using growproc_shape by fastforce
next
  case (rs_kill s n)
  then show ?case by (auto simp: kill_def split: option.splits)
qed (auto simp: take_slot_def alloc_kstack_def fork_fill_def Let_def bindE_eq_Inr_iff wakeup_def sleep_enter_def sleep_resume_def yield_def
      split: prod.splits if_splits)

lemma procs_ok_run_step:
  assumes "run_step svc mlfq_init k s t" and "procs_ok s"
  shows "procs_ok t"
proof -
  have len: "length (ptable s) = NPROC" "length (ptable t) = NPROC"
    using assms run_step_length [OF assms(1)] by (auto simp: procs_ok_def)
  have "mlfq_ok (ptable t ! j)" if j: "j < NPROC" for j
    using run_step_more [OF assms(1) len(1) j]
  proof
    assume "proc.more (ptable t ! j) = proc.more (ptable s ! j)"
    from mlfq_ok_more [OF this] show ?thesis using procs_ok_nth [OF assms(2) j] by simp
  qed (auto simp: mlfq_ok_init)
  then show ?thesis using len by (auto simp: procs_ok_def in_set_conv_nth)
qed

lemma procs_ok_tick: "procs_ok s \<Longrightarrow> procs_ok (wakeup c s)" "procs_ok s \<Longrightarrow> procs_ok (clock_tick cpu0 s)"
  by (auto simp: procs_ok_def clock_tick_def wakeup_def wakeup1_def mlfq_ok_def)

lemma slice_tick:
  "i < length (ptable s) \<Longrightarrow> slice (ptable (clock_tick cpu0 s) ! i) = slice (ptable s ! i)"
  by (auto simp: clock_tick_def wakeup_def wakeup1_nth)

lemma slice_age:
  "i < length (ptable s) \<Longrightarrow> st s i = RUNNING \<Longrightarrow> slice (ptable (bump_priority s) ! i) = slice (ptable s ! i)"
  by (simp add: bump_priority_def Let_def age_def)

lemma cpu_run_ok:
  "cpu_run svc i s t \<Longrightarrow> procs_ok s \<Longrightarrow> i < NPROC \<Longrightarrow> procs_ok t \<and> slice (ptable t ! i) = slice (ptable s ! i)"
proof (induction rule: cpu_run.induct)
  case (cr_step s k t u)
  have len: "length (ptable s) = NPROC" using cr_step.prems by (simp add: procs_ok_def)
  have "slice (ptable t ! i) = slice (ptable s ! i)"
    using run_step_more [OF cr_step(2) len cr_step.prems(2)] cr_step(1) sched_fields_more by auto
  then show ?case using cr_step procs_ok_run_step by metis
next
  case (cr_tick s cpu0 u)
  have "i < length (ptable s)" using cr_tick.prems by (simp add: procs_ok_def)
  then show ?case using cr_tick procs_ok_tick(2) slice_tick by metis
next
  case (cr_age s u)
  have "i < length (ptable s)" using cr_age.prems by (simp add: procs_ok_def)
  then show ?case using cr_age procs_ok_bump_priority slice_age by metis
qed simp

lemma procs_ok_dispatch:
  assumes ok: "procs_ok s" and run: "runs_of svc run" and i: "i < NPROC" and k: "k < 4"
    and lt: "k < 3 \<Longrightarrow> slice (ptable s ! i) ! k < level_bound k"
  shows "procs_ok (dispatch run k i s)"
proof -
  define s1 where "s1 = upd_proc i (\<lambda>p. p\<lparr>state := RUNNING, starved := 0, ts := clock (world s)\<rparr>) s"
  have len: "length (ptable s) = NPROC" using ok by (simp add: procs_ok_def)
  have "procs_ok s1"
    unfolding s1_def using procs_ok_nth [OF ok i] by (intro procs_ok_upd ok i) (simp add: mlfq_ok_def)
  moreover have "slice (ptable s1 ! i) = slice (ptable s ! i)"
    using len i by (simp add: s1_def upd_proc_nth)
  ultimately have a: "procs_ok s1" "slice (ptable s1 ! i) = slice (ptable s ! i)" .
  then have b: "procs_ok (run i s1)" "slice (ptable (run i s1) ! i) = slice (ptable s ! i)"
    using cpu_run_ok [of svc i s1 "run i s1"] run i by (auto simp: runs_of_def)
  have "mlfq_ok ((ptable (run i s1) ! i)\<lparr>pticks := bump k (pticks (ptable (run i s1) ! i)),
          slice := bump k (slice (ptable (run i s1) ! i))\<rparr>)"
    by (rule mlfq_ok_bump) (use b k lt i procs_ok_nth in auto)
  then show ?thesis
    unfolding dispatch_def Let_def s1_def [symmetric] by (intro procs_ok_upd b(1) i)
qed

lemma procs_ok_visit_level:
  assumes ok: "procs_ok s" and run: "runs_of svc run" and i: "i < NPROC" and k: "k < 3" "limit = level_bound k"
  shows "procs_ok (fst (visit_level run k limit i s))"
proof (cases "slice (ptable s ! i) ! k \<ge> limit")
  case True
  have "(of_nat (k + 1) :: u32) \<le> 3" using k(1) by (auto simp: less_Suc_eq numeral_3_eq_3)
  then have "mlfq_ok ((ptable s ! i)\<lparr>priority := of_nat (k + 1)\<rparr>)"
    using procs_ok_nth [OF ok i] by (simp add: mlfq_ok_def)
  then show ?thesis using True procs_ok_upd [OF ok i] by (simp add: visit_level_def)
next
  case False
  then show ?thesis using procs_ok_dispatch [OF ok run i, of k] k by (simp add: visit_level_def)
qed

lemma procs_ok_p3ticks:
  assumes "procs_ok s" and "i < NPROC"
  shows "procs_ok (upd_proc i (\<lambda>p. p\<lparr>p3ticks := f p\<rparr>) s)"
  using procs_ok_nth [OF assms] by (intro procs_ok_upd assms) (simp add: mlfq_ok_def)

lemma procs_ok_visit_p3:
  assumes ok: "procs_ok s" and run: "runs_of svc run" and i: "i < NPROC"
  shows "procs_ok (fst (visit_p3 run i s))"
proof -
  have "procs_ok (dispatch run 3 i (upd_runq f s))" for f
    by (rule procs_ok_dispatch [OF _ run i]) (simp_all add: ok)
  then show ?thesis
    by (simp add: visit_p3_def Let_def ok procs_ok_p3ticks i)
qed

lemma procs_ok_visit:
  assumes ok: "procs_ok s" and run: "runs_of svc run" and i: "i < NPROC"
  shows "procs_ok (fst (visit run i s))"
  using procs_ok_visit_level [OF ok run i, of 0 5] procs_ok_visit_level [OF ok run i, of 1 5]
    procs_ok_visit_level [OF ok run i, of 2 10] procs_ok_visit_p3 [OF ok run i] ok
  by (simp add: visit_def Let_def level_bound_def)

lemma procs_ok_scan:
  assumes "procs_ok s" and "runs_of svc run" and "\<forall>i \<in> set is. i < NPROC"
  shows "procs_ok (scan run is s)"
  using assms by (induction "is" arbitrary: s) (auto simp: procs_ok_visit)

lemma procs_ok_boot: "procs_ok (boot_kernel NULL_proc2 w)"
  by (simp add: procs_ok_def boot_kernel_def NULL_proc2_def proc.defs proc2.defs NULL_proc_def mlfq_ok_def)

subsection \<open>Properties\<close>

lemma procs_ok_userinit:
  assumes "userinit svc s = Inr t" and "procs_ok s"
  shows "procs_ok t"
proof -
  obtain i s1 where a: "alloc_slot s = Some i" "alloc_kstack svc i (take_slot (\<lambda>c. c) i s) = (Some i, s1)"
    using assms(1) by (auto simp: userinit_def allocproc_def allocproc_with_def alloc_kstack_def Let_def split: prod.splits option.splits if_splits)
  then have u: "allocproc svc s = (Some i, s1)" by (simp add: allocproc_def allocproc_with_def)
  have len: "length (ptable s) = NPROC" using assms(2) by (simp add: procs_ok_def)
  have i: "i < NPROC" using alloc_slotD [OF a(1) len] by simp
  obtain pg w2 ip where t: "t = (upd_proc i (\<lambda>p. p\<lparr>pgdir := pg, sz := 4096, tf := user_tf,
                      pname := ''initcode'', cwd := ip, state := RUNNABLE\<rparr>) s1)
                    \<lparr>initproc := Some i, world := w2\<rparr>"
    using assms(1) u by (auto simp: userinit_def Let_def bindE_eq_Inr_iff split: prod.splits if_splits)
  have "length (ptable t) = NPROC \<and> proc.more (ptable t ! j) = proc.more (ptable s ! j)" if "j < NPROC" for j
    using a(2) len i that by (auto simp: t alloc_kstack_def take_slot_def Let_def upd_proc_nth split: prod.splits if_splits)
  then have "length (ptable t) = NPROC" "\<forall>j < NPROC. mlfq_ok (ptable t ! j)"
    using mlfq_ok_more procs_ok_nth [OF assms(2)] i by (blast, metis)
  then show ?thesis by (auto simp: procs_ok_def in_set_conv_nth)
qed

text \<open>C39: From boot on, through any scheduler passes in which the processes do any of the steps of the kernel
  (\<open>fork\<close>, \<open>exit\<close>, \<open>wait\<close>, \<open>sleep\<close>, \<open>yield\<close>, \<open>kill\<close>, growing) and clock interrupts and agings come at any time, the
  priority of every process stays between 0 and 3 and it never has more than 5, 5 and 10 slices at priorities 0, 1
  and 2.\<close>

theorem mlfq_levels_bounded:
  assumes "mlfq_reachable svc w s" and "i < NPROC"
  shows "priority (ptable s ! i) \<le> 3 \<and> slice (ptable s ! i) ! 0 \<le> 5 \<and> slice (ptable s ! i) ! 1 \<le> 5
    \<and> slice (ptable s ! i) ! 2 \<le> 10"
proof -
  from assms(1) have "procs_ok s"
  proof (induction rule: mlfq_reachable.induct)
    case (mr_boot s)
    then show ?case using procs_ok_userinit procs_ok_boot by blast
  next
    case (mr_pass s run)
    then show ?case using procs_ok_scan [of s svc run "[0..<NPROC]"] by (simp add: mlfq_pass_def)
  qed (auto simp: procs_ok_tick procs_ok_bump_priority)
  from procs_ok_nth [OF this assms(2)] show ?thesis by (simp add: mlfq_ok_def)
qed

text \<open>The first process runs for one slice.\<close>

definition one_world :: "unit mworld" where
  "one_world = \<lparr>runq = queue_boot, clock = 0, others = ()\<rparr>"

definition runs_once :: "nat \<Rightarrow> (unit, unit) mkernel \<Rightarrow> (unit, unit) mkernel" where
  "runs_once i s = (if i < NPROC \<and> st s i = RUNNING then yield i s else s)"

lemma runs_once_runs: "runs_of any_page runs_once"
  unfolding runs_of_def runs_once_def by (auto intro: cr_back cr_step [OF _ rs_yield])

theorem mlfq_levels_bounded_witness:
  "\<exists>s. mlfq_reachable any_page one_world s \<and> slice (ptable s ! 0) ! 0 = 1 \<and> priority (ptable s ! 0) \<le> 3"
proof -
  define b where "b = boot_kernel NULL_proc2 one_world"
  have n: "state NULL_proc2 = UNUSED" "priority NULL_proc2 = 0" "slice NULL_proc2 = replicate 4 0"
    by (simp_all add: NULL_proc2_def proc.defs proc2.defs NULL_proc_def)
  have a: "alloc_slot b = Some 0" by (simp add: b_def alloc_slot_def boot_kernel_def first_idx_Some_iff NPROC_def n)
  have b: "length (ptable b) = NPROC" "ptable b ! 0 = NULL_proc2" by (simp_all add: b_def boot_kernel_def NPROC_def)
  have "\<exists>s. userinit any_page b = Inr s \<and> length (ptable s) = NPROC \<and> st s 0 = RUNNABLE \<and> priority (ptable s ! 0) = 0
      \<and> slice (ptable s ! 0) = replicate 4 0"
    by (simp add: userinit_def allocproc_def allocproc_with_def a alloc_kstack_def take_slot_def Let_def upd_proc_nth
        b n NPROC_def)
  then obtain s where s: "userinit any_page b = Inr s" "length (ptable s) = NPROC" "st s 0 = RUNNABLE" "priority (ptable s ! 0) = 0"
      "slice (ptable s ! 0) = replicate 4 0" by blast
  have r: "mlfq_reachable any_page one_world (mlfq_pass runs_once s)"
    by (rule mr_pass [OF mr_boot [OF s(1) [unfolded b_def]] runs_once_runs])
  have "[0..<NPROC] = 0 # [1..<NPROC]" by (simp add: NPROC_def upt_conv_Cons)
  then have "mlfq_pass runs_once s = dispatch runs_once 0 0 s"
    using s by (simp add: mlfq_pass_def visit_def visit_level_def)
  then have "slice (ptable (mlfq_pass runs_once s) ! 0) ! 0 = 1"
    using s by (simp add: dispatch_def Let_def upd_proc_nth runs_once_def yield_def bump_def NPROC_def)
  then show ?thesis using r mlfq_levels_bounded [OF r, of 0] by (auto simp: NPROC_def)
qed

text \<open>A runnable process of priority 0 to 2 that has used up its slices at its level is moved one level
  down without being run; otherwise it is run once, charged one tick and one slice of its level, and
  the scan stops after a process of priority 0.\<close>

theorem mlfq_demotes_after_slices:
  assumes "state (ptable s ! i) = RUNNABLE" and "priority (ptable s ! i) = of_nat k" and "k < 3"
  shows "visit run i s =
     (if slice (ptable s ! i) ! k \<ge> level_bound k then (upd_proc i (\<lambda>p. p\<lparr>priority := of_nat (k + 1)\<rparr>) s, False)
      else (dispatch run k i s, k = 0))"
proof -
  consider "k = 0" | "k = 1" | "k = 2" using assms(3) by linarith
  then have v: "visit run i s = visit_level run k (level_bound k) i s"
    using assms(1,2) by cases (simp_all add: visit_def level_bound_def Let_def)
  show ?thesis by (simp add: v visit_level_def)
qed

definition one_runnable :: "(unit, unit) mkernel" where
  "one_runnable = \<lparr>ptable = [NULL_proc2\<lparr>state := RUNNABLE, pid := 1, slice := [5, 0, 0, 0]\<rparr>], nextpid = 2,
     initproc = None, world = \<lparr>runq = queue_boot, clock = 0, others = ()\<rparr>\<rparr>"

theorem mlfq_demotes_after_slices_witness:
  "priority (ptable (fst (visit (\<lambda>i s. s) 0 one_runnable)) ! 0) = 1"
proof -
  have s: "slice (ptable one_runnable ! 0) ! 0 \<ge> level_bound 0"
    by (simp add: one_runnable_def level_bound_def)
  have "visit (\<lambda>i s. s) 0 one_runnable =
     (if slice (ptable one_runnable ! 0) ! 0 \<ge> level_bound 0 then (upd_proc 0 (\<lambda>p. p\<lparr>priority := of_nat (0 + 1)\<rparr>) one_runnable, False)
      else (dispatch (\<lambda>i s. s) 0 0 one_runnable, (0::nat) = 0))"
    by (rule mlfq_demotes_after_slices)
      (simp_all add: one_runnable_def NULL_proc2_def proc.defs proc2.defs NULL_proc_def)
  then have "visit (\<lambda>i s. s) 0 one_runnable = (upd_proc 0 (\<lambda>p. p\<lparr>priority := of_nat (0 + 1)\<rparr>) one_runnable, False)"
    by (simp only: s if_True)
  then show ?thesis by (simp add: upd_proc_nth one_runnable_def)
qed

text \<open>The run queue of priority 3 never checks its capacity, and the scan adds a runnable process at
  every visit: with 100 entries the next \<open>addq\<close> overwrites the process at the head, and the queue is no
  longer a queue of at most 100 entries.\<close>

theorem run_queue_overflows:
  assumes "queue_inv q" and "qsize q = QLEN"
  shows "frontq (addq n q) = n \<and> qsize (addq n q) = QLEN + 1 \<and> \<not> queue_inv (addq n q)"
  using addq_full_overwrites [OF assms] by blast

theorem run_queue_overflows_witness:
  "frontq (addq 7 (queue_boot\<lparr>qsize := QLEN\<rparr>)) = 7"
  using run_queue_overflows [of "queue_boot\<lparr>qsize := QLEN\<rparr>" 7] by (simp add: queue_inv_def queue_boot_def QLEN_def)

text \<open>The run queue behaves as a first-in first-out queue while it is not overfilled: up to 100 pids
  added to an empty queue come out in the order in which they were added.\<close>

theorem run_queue_fifo:
  assumes "queue_inv q" and "queue_content q = []" and "length xs \<le> 100"
  shows "fst (takes (\<lambda>q. (frontq q, remq q)) (length xs) (fold addq xs q)) = xs"
  by (rule p3fifo.puts_takes [OF assms])

theorem run_queue_fifo_witness:
  "fst (takes (\<lambda>q. (frontq q, remq q)) 2 (fold addq [3, 4] queue_boot)) = [3, 4]"
  using run_queue_fifo [of queue_boot "[3, 4]"] queue_inv_boot by (simp add: numeral_2_eq_2)

text \<open>\<open>getpinfo\<close> writes one row for each live process, in table order and from the first row on, with
  its pid, priority and ticks; the rows after them keep what the caller had there (their \<open>inuse\<close> is not
  cleared).\<close>

theorem getpinfo_rows:
  assumes "length (ptable s) \<le> length ps"
  shows "sys_getpinfo (Some ps) s
     = (0, Some (map pinfo_row (filter (\<lambda>p. state p \<noteq> UNUSED) (ptable s))
                 @ drop (length (filter (\<lambda>p. state p \<noteq> UNUSED) (ptable s))) ps))"
  using fill_pstat_eq [of 0 "ptable s" ps] length_filter_le [of "\<lambda>p. state p \<noteq> UNUSED" "ptable s"] assms
  by (simp add: sys_getpinfo_def)

theorem getpinfo_rows_witness:
  "\<exists>r. sys_getpinfo (Some [r]) one_runnable = (0, Some [pinfo_row (ptable one_runnable ! 0)])"
proof -
  have "length (ptable one_runnable) \<le> length [x :: pstat_row]" for x by (simp add: one_runnable_def)
  from getpinfo_rows [OF this] show ?thesis by (simp add: one_runnable_def)
qed

end
