(* ===== verification/Threads.thy ===== *)
theory Threads
  imports ProcSteps
begin

text \<open>
  Kernel threads, project 4: \<open>p4/xv6/kernel/proc.c\<close> (\<open>clone\<close>, \<open>join\<close>, and the operations that
  project 4 changes because threads share an address space) and the checks of \<open>sys_clone\<close> in
  \<open>p4/xv6/kernel/sysproc.c\<close>. A thread is an entry of the process table whose \<open>pgdir\<close> is its
  creator's; \<open>parent_pid\<close> names the creator and \<open>num_child\<close> counts a creator's threads.
\<close>

record proc4 = proc +
  num_child :: int
  parent_pid :: int
  tstack :: u32

type_synonym ('p, 'w) tkernel = "('p proc4_scheme, 'w) kernel"

definition NULL_proc4 :: proc4 where
  "NULL_proc4 = proc.extend NULL_proc (proc4.fields 0 0 0)"

definition thread_init :: "'p proc4_scheme \<Rightarrow> 'p proc4_scheme" where
  "thread_init p = p\<lparr>parent_pid := -1, num_child := 0\<rparr>"

definition allocproc4 :: "'w services \<Rightarrow> ('p, 'w) tkernel \<Rightarrow> nat option \<times> ('p, 'w) tkernel" where
  "allocproc4 svc s = allocproc_with svc thread_init s"

definition fork4 :: "'w services \<Rightarrow> nat \<Rightarrow> ('p, 'w) tkernel \<Rightarrow> kerr + int \<times> ('p, 'w) tkernel" where
  "fork4 svc me s = fork_with svc thread_init (\<lambda>c. c) me s"

text \<open>Growing memory: every process with the same page table gets the new size.\<close>

definition growproc4 :: "'w services \<Rightarrow> nat \<Rightarrow> int \<Rightarrow> ('p, 'w) tkernel \<Rightarrow> kerr + int \<times> ('p, 'w) tkernel" where
  "growproc4 svc me n s =
     bindE (growproc svc me n s) (\<lambda>(r, s1).
       if r < 0 then Inr (r, s1)
       else Inr (0, s1\<lparr>ptable := map (\<lambda>p. if pgdir p = pgdir (ptable s1 ! me)
                       then p\<lparr>sz := sz (ptable s1 ! me)\<rparr> else p) (ptable s1)\<rparr>))"

subsection \<open>clone\<close>

text \<open>
  \<open>put pg va bytes\<close> is a store to the user memory of the page table \<open>pg\<close>.
\<close>

type_synonym 'w user_store = "u32 \<Rightarrow> u32 \<Rightarrow> u8 list \<Rightarrow> 'w \<Rightarrow> kerr + 'w"

definition clone_tf :: "u32 \<Rightarrow> u32 \<Rightarrow> trapframe \<Rightarrow> trapframe" where
  "clone_tf fcn stack t = t\<lparr>eax := 0, esp := stack + 4096 - 8, ebp := stack + 4096 - 8, eip := fcn\<rparr>"

definition clone ::
  "'w services \<Rightarrow> 'w user_store \<Rightarrow> u32 \<Rightarrow> u32 \<Rightarrow> u32 \<Rightarrow> nat \<Rightarrow> ('p, 'w) tkernel \<Rightarrow> kerr + int \<times> ('p, 'w) tkernel" where
  "clone svc put fcn arg stack me s =
     (case allocproc4 svc s of
        (None, s1) \<Rightarrow> Inr (-1, s1)
      | (Some np, s1) \<Rightarrow>
          (let s2 = upd_proc me (\<lambda>p. p\<lparr>num_child := num_child p + 1\<rparr>) s1;
               p = ptable s2 ! me in
           bindE (put (pgdir p) (stack + 4096 - 4) (le32 arg) (world s2)) (\<lambda>w1.
             bindE (put (pgdir p) (stack + 4096 - 8) (replicate 4 0xFF) w1) (\<lambda>w2.
               bindE (dup_files svc (ofile p) (ofile (ptable s2 ! np)) w2) (\<lambda>(fs, w3).
                 bindE (idup_opt svc (cwd p) w3) (\<lambda>w4.
                   Inr (pid (ptable s2 ! np),
                     upd_proc np (\<lambda>c. c\<lparr>pgdir := pgdir p, sz := sz p, parent := Some me,
                         parent_pid := pid p, tf := clone_tf fcn stack (tf p), tstack := stack,
                         ofile := fs, cwd := cwd p, state := RUNNABLE, pname := pname p\<rparr>)
                       (s2\<lparr>world := w4\<rparr>))))))))"

text \<open>
  The checks of \<open>sys_clone\<close>: \<open>args\<close> is what the three calls of \<open>argptr\<close> return (\<open>None\<close> when one
  of them fails).
\<close>

definition sys_clone ::
  "'w services \<Rightarrow> 'w user_store \<Rightarrow> (u32 \<times> u32 \<times> u32) option \<Rightarrow> nat \<Rightarrow> ('p, 'w) tkernel
     \<Rightarrow> kerr + int \<times> ('p, 'w) tkernel" where
  "sys_clone svc put args me s =
     (case args of None \<Rightarrow> Inr (-1, s)
      | Some (fcn, arg, stack) \<Rightarrow>
          if stack mod 4096 \<noteq> 0 then Inr (-1, s)
          else if stack + 4096 > sz (ptable s ! me) then Inr (-1, s)
          else clone svc put fcn arg stack me s)"

subsection \<open>exit\<close>

text \<open>
  When a child shares the address space of the exiting process, the exiting process moves to a
  copy of it and leaves the original to the child.
\<close>

definition reparent4 ::
  "'w services \<Rightarrow> nat \<Rightarrow> nat \<Rightarrow> ('p, 'w) tkernel \<Rightarrow> kerr + ('p, 'w) tkernel" where
  "reparent4 svc me i s =
     (if parent (ptable s ! i) = Some me then
        bindE (if pgdir (ptable s ! i) = pgdir (ptable s ! me)
               then bindE (copyuvm_s svc (pgdir (ptable s ! i)) (sz (ptable s ! i)) (world s))
                      (\<lambda>(pg, w). Inr (upd_proc me (\<lambda>p. p\<lparr>pgdir := pg\<rparr>) (s\<lparr>world := w\<rparr>)))
               else Inr s)
          (\<lambda>s1. Inr (let s2 = upd_proc i (\<lambda>p. p\<lparr>parent := initproc s1\<rparr>) s1 in
                     if state (ptable s2 ! i) = ZOMBIE then wakeup1 (ptr_chan (initproc s2)) s2 else s2))
      else Inr s)"

fun reparent4_all ::
  "'w services \<Rightarrow> nat \<Rightarrow> nat list \<Rightarrow> ('p, 'w) tkernel \<Rightarrow> kerr + ('p, 'w) tkernel" where
  "reparent4_all svc me [] s = Inr s"
| "reparent4_all svc me (i # is) s = bindE (reparent4 svc me i s) (reparent4_all svc me is)"

definition exit4 :: "'w services \<Rightarrow> nat \<Rightarrow> ('p, 'w) tkernel \<Rightarrow> kerr + ('p, 'w) tkernel" where
  "exit4 svc me s =
     (if initproc s = Some me then Inl (Panic ''init exiting'')
      else
        bindE (close_files svc (ofile (ptable s ! me)) (world s)) (\<lambda>w1.
          bindE (iput_opt svc (cwd (ptable s ! me)) w1) (\<lambda>w2.
            (let s1 = upd_proc me (\<lambda>p. p\<lparr>ofile := replicate (length (ofile p)) None, cwd := None\<rparr>)
                        (s\<lparr>world := w2\<rparr>);
                 s2 = wakeup1 (ptr_chan (parent (ptable s1 ! me))) s1
             in bindE (reparent4_all svc me [0..<NPROC] s2) (\<lambda>s3.
                  Inr (upd_proc me (\<lambda>p. p\<lparr>state := ZOMBIE, ctx := Swtched\<rparr>) s3))))))"

subsection \<open>wait and join\<close>

text \<open>The loop that uncounts a thread at the entries whose pid is its \<open>parent_pid\<close>.\<close>

definition uncount :: "int \<Rightarrow> ('p, 'w) tkernel \<Rightarrow> ('p, 'w) tkernel" where
  "uncount n s = s\<lparr>ptable := map (\<lambda>p. if pid p = n then p\<lparr>num_child := num_child p - 1\<rparr> else p) (ptable s)\<rparr>"

definition is_process_of :: "nat \<Rightarrow> ('p, 'w) tkernel \<Rightarrow> 'p proc4_scheme \<Rightarrow> bool" where
  "is_process_of me s p = (parent p = Some me \<and> pgdir p \<noteq> pgdir (ptable s ! me))"

definition is_thread_of :: "nat \<Rightarrow> ('p, 'w) tkernel \<Rightarrow> 'p proc4_scheme \<Rightarrow> bool" where
  "is_thread_of me s p = (parent p = Some me \<and> pgdir p = pgdir (ptable s ! me))"

definition wait4 :: "'w services \<Rightarrow> nat \<Rightarrow> ('p, 'w) tkernel \<Rightarrow> kerr + wait_result \<times> ('p, 'w) tkernel" where
  "wait4 svc me s =
     (case first_idx (\<lambda>p. is_process_of me s p \<and> state p = ZOMBIE) (ptable s) of
        Some i \<Rightarrow>
          (let p = ptable s ! i in
           bindE (kfree_s svc (kstack p) (world s)) (\<lambda>w1.
             bindE (if \<exists>q \<in> set (ptable s). pid q = parent_pid p then Inr w1 else freevm_s svc (pgdir p) w1) (\<lambda>w2.
               Inr (Reaped (pid p), upd_proc i reap_fields (uncount (parent_pid p) (s\<lparr>world := w2\<rparr>))))))
      | None \<Rightarrow>
          if (\<forall>p \<in> set (ptable s). \<not> is_process_of me s p) \<or> killed (ptable s ! me) then Inr (NoWait, s)
          else Inr (WaitSleep, sleep_enter (ProcChan me) me s))"

definition join ::
  "'w services \<Rightarrow> 'w user_store \<Rightarrow> u32 \<Rightarrow> nat \<Rightarrow> ('p, 'w) tkernel \<Rightarrow> kerr + wait_result \<times> ('p, 'w) tkernel" where
  "join svc put stackp me s =
     (if num_child (ptable s ! me) = 0 then Inr (NoWait, s)
      else case first_idx (\<lambda>p. is_thread_of me s p \<and> state p = ZOMBIE) (ptable s) of
        Some i \<Rightarrow>
          (let p = ptable s ! i in
           bindE (kfree_s svc (kstack p) (world s)) (\<lambda>w1.
             bindE (put (pgdir (ptable s ! me)) stackp (le32 (tstack p)) w1) (\<lambda>w2.
               Inr (Reaped (pid p), upd_proc i reap_fields (uncount (parent_pid p) (s\<lparr>world := w2\<rparr>))))))
      | None \<Rightarrow>
          if (\<forall>p \<in> set (ptable s). \<not> is_thread_of me s p) \<or> killed (ptable s ! me) then Inr (NoWait, s)
          else Inr (WaitSleep, sleep_enter (ProcChan me) me s))"

subsection \<open>Relation to the process operations\<close>

lemma keeps_identity_thread_init [simp]: "keeps_identity thread_init"
  by (simp add: keeps_identity_def thread_init_def)

definition move_to :: "nat \<Rightarrow> u32 \<Rightarrow> 'w \<Rightarrow> ('p proc_scheme, 'w) kernel \<Rightarrow> ('p proc_scheme, 'w) kernel" where
  "move_to me pg w s = upd_proc me (\<lambda>p. p\<lparr>pgdir := pg\<rparr>) (s\<lparr>world := w\<rparr>)"

lemma move_to_simps [simp]:
  "length (ptable (move_to me pg w s)) = length (ptable s)" "initproc (move_to me pg w s) = initproc s"
  "world (move_to me pg w s) = w" "nextpid (move_to me pg w s) = nextpid s"
  by (simp_all add: move_to_def)

lemma move_to_move_to [simp]: "move_to me pg w (move_to me pg' w' s) = move_to me pg w s"
  by (cases "me < length (ptable s)") (simp_all add: move_to_def upd_proc_def list_update_beyond)

lemma kernel_eqI:
  assumes "length (ptable s) = length (ptable t)" "\<And>j. j < length (ptable t) \<Longrightarrow> ptable s ! j = ptable t ! j"
    and "nextpid s = nextpid t" "initproc s = initproc t" "world s = world t"
  shows "s = (t :: ('p, 'w) kernel)"
  using assms by (simp add: kernel.equality nth_equalityI)

lemma move_to_nth:
  "j < length (ptable s) \<Longrightarrow> ptable (move_to me pg w s) ! j
     = (if j = me then (ptable s ! me)\<lparr>pgdir := pg\<rparr> else ptable s ! j)"
  by (simp add: move_to_def upd_proc_nth)

lemma reparent_move_to:
  assumes "i < length (ptable s)"
  shows "reparent me (move_to me pg w s) i = move_to me pg w (reparent me s i)"
  by (rule kernel_eqI)
    (use assms in \<open>auto simp: reparent_def Let_def move_to_nth table_simps\<close>)

lemma move_to_self: "me < length (ptable s) \<Longrightarrow> move_to me (pgdir (ptable s ! me)) (world s) s = s"
  by (rule kernel_eqI) (auto simp: move_to_nth)

lemma reparent4_move_to:
  assumes "reparent4 svc me i s = Inr t" and "i < length (ptable s)" and "me < length (ptable s)"
  shows "\<exists>pg w. t = move_to me pg w (reparent me s i)"
proof (cases "parent (ptable s ! i) = Some me")
  case False
  then have "t = move_to me (pgdir (ptable s ! me)) (world s) (reparent me s i)"
    using assms by (simp add: reparent4_def reparent_def move_to_self)
  then show ?thesis by blast
next
  case True
  obtain s1 where s1: "s1 = s \<or> (\<exists>pg w. s1 = move_to me pg w s)"
      and t: "t = (let s2 = upd_proc i (\<lambda>p. p\<lparr>parent := initproc s1\<rparr>) s1 in
                     if state (ptable s2 ! i) = ZOMBIE then wakeup1 (ptr_chan (initproc s2)) s2 else s2)"
    using assms(1) True unfolding reparent4_def
    by (cases "pgdir (ptable s ! i) = pgdir (ptable s ! me)") (auto simp: bindE_eq_Inr_iff move_to_def)
  then obtain pg w where m: "s1 = move_to me pg w s" using move_to_self [OF assms(3)] by metis
  then have "par s1 i = Some me" using True assms(2,3) by (cases "i = me") (simp_all add: move_to_nth)
  then have "t = reparent me s1 i" using t by (simp add: reparent_def Let_def)
  then show ?thesis using m reparent_move_to [OF assms(2)] by blast
qed

lemma reparent4_all_move_to:
  assumes "reparent4_all svc me is s = Inr t" and "\<forall>i \<in> set is. i < length (ptable s)" and "me < length (ptable s)"
  shows "\<exists>pg w. t = move_to me pg w (foldl (reparent me) s is)"
  using assms
proof (induction "is" arbitrary: s)
  case Nil
  then have "t = move_to me (pgdir (ptable s ! me)) (world s) (foldl (reparent me) s [])"
    using move_to_self [OF Nil(3)] by simp
  then show ?case by blast
next
  case (Cons i "is")
  then obtain s1 where s1: "reparent4 svc me i s = Inr s1" "reparent4_all svc me is s1 = Inr t"
    by (auto simp: bindE_eq_Inr_iff)
  obtain pg w where m: "s1 = move_to me pg w (reparent me s i)"
    using reparent4_move_to [OF s1(1)] Cons.prems by auto
  then obtain pg' w' where t: "t = move_to me pg' w' (foldl (reparent me) s1 is)"
    using Cons.IH [OF s1(2)] Cons.prems by auto
  have "foldl (reparent me) (move_to me pg w u) js = move_to me pg w (foldl (reparent me) u js)"
    if "\<forall>j \<in> set js. j < length (ptable u)" for js and u :: "('a, 'b) tkernel"
    using that by (induction js arbitrary: u) (simp_all add: reparent_move_to)
  then show ?case using t m Cons.prems by auto
qed

text \<open>
  The exit of project 4 is the common exit, except for the page table of the exited process
  and the memory that was allocated for it.
\<close>

lemma exit4_exit_proc:
  assumes "exit4 svc me s = Inr t" and "me < NPROC" and "length (ptable s) = NPROC"
  shows "\<exists>t0 pg w. exit_proc svc me s = Inr t0 \<and> t = move_to me pg w t0"
proof -
  obtain w2 s3 where s3: "reparent4_all svc me [0..<NPROC]
        (wakeup1 (ptr_chan (par (upd_proc me (\<lambda>p. p\<lparr>ofile := replicate (length (ofile p)) None, cwd := None\<rparr>) (s\<lparr>world := w2\<rparr>)) me))
          (upd_proc me (\<lambda>p. p\<lparr>ofile := replicate (length (ofile p)) None, cwd := None\<rparr>) (s\<lparr>world := w2\<rparr>))) = Inr s3"
      and t: "t = upd_proc me (\<lambda>p. p\<lparr>state := ZOMBIE, ctx := Swtched\<rparr>) s3"
      and c: "bindE (close_files svc (ofile (ptable s ! me)) (world s)) (iput_opt svc (cwd (ptable s ! me))) = Inr w2"
      and i: "initproc s \<noteq> Some me"
    using assms(1) by (auto simp: exit4_def Let_def bindE_eq_Inr_iff split: if_splits)
  define s2 where "s2 = wakeup1 (ptr_chan (par (upd_proc me (\<lambda>p. p\<lparr>ofile := replicate (length (ofile p)) None, cwd := None\<rparr>) (s\<lparr>world := w2\<rparr>)) me))
          (upd_proc me (\<lambda>p. p\<lparr>ofile := replicate (length (ofile p)) None, cwd := None\<rparr>) (s\<lparr>world := w2\<rparr>))"
  have len: "length (ptable s2) = NPROC" using assms(3) by (simp add: s2_def)
  obtain pg w where m: "s3 = move_to me pg w (foldl (reparent me) s2 [0..<NPROC])"
    using reparent4_all_move_to [OF s3 [folded s2_def]] len assms(2) by auto
  have "exit_proc svc me s = Inr (upd_proc me (\<lambda>p. p\<lparr>state := ZOMBIE, ctx := Swtched\<rparr>) (foldl (reparent me) s2 [0..<NPROC]))"
    using c i by (auto simp: exit_proc_def Let_def s2_def bindE_eq_Inr_iff)
  moreover have "t = move_to me pg w (upd_proc me (\<lambda>p. p\<lparr>state := ZOMBIE, ctx := Swtched\<rparr>) (foldl (reparent me) s2 [0..<NPROC]))"
    unfolding t m by (rule kernel_eqI) (simp_all add: move_to_nth upd_proc_nth len)
  ultimately show ?thesis by blast
qed

subsection \<open>The table invariant\<close>

lemma table_inv_move_to: "table_inv up s \<Longrightarrow> table_inv up (move_to me pg w s)"
  unfolding move_to_def by (rule table_inv_upd) (simp_all add: table_inv_world)

lemma table_inv_exit4:
  assumes "table_inv up s" and "exit4 svc me s = Inr t" and "alive s me"
  shows "table_inv up t"
proof -
  have "me < NPROC" using assms(3) by (simp add: alive_def)
  from exit4_exit_proc [OF assms(2) this table_inv_length [OF assms(1)]]
  obtain t0 pg w where t: "exit_proc svc me s = Inr t0" "t = move_to me pg w t0" by blast
  show ?thesis unfolding t(2) by (intro table_inv_move_to table_inv_exit [OF assms(1) t(1) assms(3)])
qed

lemma table_inv_fork4:
  "table_inv up s \<Longrightarrow> fork4 svc me s = Inr (r, t) \<Longrightarrow> alive s me
     \<Longrightarrow> up \<longrightarrow> nextpid s < INT_MAX \<Longrightarrow> table_inv up t"
  unfolding fork4_def by (rule table_inv_fork_with) auto

lemma uncount_simps [simp]:
  "length (ptable (uncount n s)) = length (ptable s)" "nextpid (uncount n s) = nextpid s"
  "initproc (uncount n s) = initproc s" "world (uncount n s) = world s"
  by (simp_all add: uncount_def)

lemma uncount_nth:
  "j < length (ptable s) \<Longrightarrow> ptable (uncount n s) ! j
     = (if pd s j = n then (ptable s ! j)\<lparr>num_child := num_child (ptable s ! j) - 1\<rparr> else ptable s ! j)"
  by (simp add: uncount_def)

text \<open>Both \<open>wait\<close> and \<open>join\<close> change the table in one of these ways.\<close>

definition reaped :: "nat \<Rightarrow> 'w \<Rightarrow> ('p, 'w) tkernel \<Rightarrow> ('p, 'w) tkernel" where
  "reaped i w s = upd_proc i reap_fields (uncount (parent_pid (ptable s ! i)) (s\<lparr>world := w\<rparr>))"

lemma wait4_cases:
  assumes w: "wait4 svc me s = Inr (r, t)"
  obtains (reap) i w2 where "i < length (ptable s)" "is_process_of me s (ptable s ! i)" "st s i = ZOMBIE"
      "r = Reaped (pd s i)" "t = reaped i w2 s"
  | (none) "r = NoWait" "t = s"
  | (again) "r = WaitSleep" "t = sleep_enter (ProcChan me) me s"
proof (cases "first_idx (\<lambda>p. is_process_of me s p \<and> state p = ZOMBIE) (ptable s)")
  case (Some i)
  then show ?thesis
    using w first_idx_SomeD [OF Some]
    by (auto simp: wait4_def Let_def bindE_eq_Inr_iff reaped_def intro!: reap split: if_splits)
next
  case None
  then show ?thesis using w none again by (auto simp: wait4_def split: if_splits)
qed

lemma join_cases:
  assumes w: "join svc put p me s = Inr (r, t)"
  obtains (reap) i w2 where "i < length (ptable s)" "is_thread_of me s (ptable s ! i)" "st s i = ZOMBIE"
      "r = Reaped (pd s i)" "t = reaped i w2 s"
  | (none) "r = NoWait" "t = s"
  | (again) "r = WaitSleep" "t = sleep_enter (ProcChan me) me s"
proof (cases "num_child (ptable s ! me) = 0")
  case True
  then show ?thesis using w none by (simp add: join_def)
next
  case nz: False
  show ?thesis
  proof (cases "first_idx (\<lambda>p. is_thread_of me s p \<and> state p = ZOMBIE) (ptable s)")
    case (Some i)
    then show ?thesis
      using w nz first_idx_SomeD [OF Some]
      by (auto simp: join_def Let_def bindE_eq_Inr_iff reaped_def intro!: reap)
  next
    case None
    then show ?thesis using w nz none again by (auto simp: join_def split: if_splits)
  qed
qed

lemma table_inv_reaped:
  assumes "table_inv up s" and "i < length (ptable s)" and "st s i = ZOMBIE"
  shows "table_inv up (reaped i w s)"
proof -
  have i: "i < NPROC" using assms table_inv_length by metis
  note len = table_inv_length [OF assms(1)]
  show ?thesis
    by (rule table_inv_reap [OF assms(1) i assms(3)])
      (use len i in \<open>simp_all add: reaped_def upd_proc_nth uncount_nth reap_fields_def\<close>)
qed

lemma table_inv_sleep_enter:
  assumes "table_inv up s" and "alive s me"
  shows "table_inv up (sleep_enter c me s)"
  unfolding sleep_enter_def
  by (rule table_inv_same [OF assms(1)])
    (use assms(2) table_inv_length [OF assms(1)] in \<open>auto simp: alive_def upd_proc_nth\<close>)

lemma table_inv_wait4:
  "table_inv up s \<Longrightarrow> wait4 svc me s = Inr (r, t) \<Longrightarrow> alive s me \<Longrightarrow> table_inv up t"
  by (erule wait4_cases) (auto simp: table_inv_reaped table_inv_sleep_enter)

lemma table_inv_join:
  "table_inv up s \<Longrightarrow> join svc put p me s = Inr (r, t) \<Longrightarrow> alive s me \<Longrightarrow> table_inv up t"
  by (erule join_cases) (auto simp: table_inv_reaped table_inv_sleep_enter)

lemma table_inv_growproc4:
  assumes "table_inv up s" and "growproc4 svc me n s = Inr (r, t)"
  shows "table_inv up t"
proof -
  obtain r0 s1 where g: "growproc svc me n s = Inr (r0, s1)"
      and t: "t = s1 \<or> t = s1\<lparr>ptable := map (\<lambda>p. if pgdir p = pgdir (ptable s1 ! me)
                       then p\<lparr>sz := sz (ptable s1 ! me)\<rparr> else p) (ptable s1)\<rparr>"
    using assms(2) by (auto simp: growproc4_def bindE_eq_Inr_iff split: if_splits)
  have s1: "table_inv up s1"
    using growproc_shape [OF g] assms(1) by (auto simp: table_inv_world intro!: table_inv_upd)
  then show ?thesis
    using t by (auto intro!: table_inv_same [OF s1] simp: table_inv_length [OF s1] split: if_splits)
qed

subsection \<open>clone\<close>

text \<open>
  \<open>clone\<close> fails without a free entry or page, and then leaves the live entries alone; or it
  makes entry \<open>i\<close> a thread of the caller.
\<close>

definition thread_made ::
  "u32 \<Rightarrow> u32 \<Rightarrow> nat \<Rightarrow> ('p, 'w) tkernel \<Rightarrow> ('p, 'w) tkernel \<Rightarrow> nat \<Rightarrow> bool" where
  "thread_made fcn stack me s t i =
     (i < NPROC \<and> st s i = UNUSED
      \<and> (let p = ptable s ! me; c = ptable t ! i in
          state c = RUNNABLE \<and> pid c = nextpid s \<and> parent c = Some me \<and> parent_pid c = pid p
          \<and> num_child c = 0 \<and> pgdir c = pgdir p \<and> sz c = sz p \<and> tstack c = stack
          \<and> tf c = clone_tf fcn stack (tf p) \<and> cwd c = cwd p \<and> pname c = pname p)
      \<and> (\<forall>j < NPROC. j \<noteq> i \<longrightarrow> ptable t ! j
           = (if j = me then (ptable s ! me)\<lparr>num_child := num_child (ptable s ! me) + 1\<rparr> else ptable s ! j))
      \<and> length (ptable t) = NPROC \<and> nextpid t = int_succ (nextpid s) \<and> initproc t = initproc s)"

lemma clone_cases:
  assumes inv: "table_inv up s" and me: "alive s me" and c: "clone svc put fcn arg stack me s = Inr (r, t)"
  obtains (failed) "r = -1" "allocproc4 svc s = (None, t)"
  | (thread) i w where "r = nextpid s" "thread_made fcn stack me s t i"
      "bindE (put (pgdir (ptable s ! me)) (stack + 4092) (le32 arg) (snd (kalloc_s svc (world s))))
         (put (pgdir (ptable s ! me)) (stack + 4088) (replicate 4 0xFF)) = Inr w"
proof -
  obtain o1 s1 where a: "allocproc4 svc s = (o1, s1)" by fastforce
  show ?thesis
  proof (cases o1)
    case None
    then show ?thesis using a c failed by (simp add: clone_def)
  next
    case (Some np)
    note A = allocproc_Some [OF inv keeps_identity_thread_init a [unfolded allocproc4_def Some]]
    have ne: "me \<noteq> np" "me < NPROC" using A(2) me by (auto simp: alive_def)
    define s2 where "s2 = upd_proc me (\<lambda>p. p\<lparr>num_child := num_child p + 1\<rparr>) s1"
    define p where "p = ptable s2 ! me"
    have p: "p = (ptable s ! me)\<lparr>num_child := num_child (ptable s ! me) + 1\<rparr>"
      using A(5,9) ne by (simp add: p_def s2_def upd_proc_nth)
    have len: "length (ptable s2) = NPROC" "world s2 = snd (kalloc_s svc (world s))" using A by (simp_all add: s2_def)
    have np: "ptable s2 ! np = ptable s1 ! np" using A(1,5) ne by (simp add: s2_def upd_proc_nth)
    obtain w1 w2 fs w4 where w: "put (pgdir p) (stack + 4096 - 4) (le32 arg) (world s2) = Inr w1"
        "put (pgdir p) (stack + 4096 - 8) (replicate 4 0xFF) w1 = Inr w2"
      and t: "t = upd_proc np (\<lambda>c. c\<lparr>pgdir := pgdir p, sz := sz p, parent := Some me,
                         parent_pid := pid p, tf := clone_tf fcn stack (tf p), tstack := stack,
                         ofile := fs, cwd := cwd p, state := RUNNABLE, pname := pname p\<rparr>)
                       (s2\<lparr>world := w4\<rparr>)" and r: "r = pid (ptable s2 ! np)"
      using c a Some unfolding clone_def s2_def p_def
      by (auto simp: Let_def bindE_eq_Inr_iff)
    have "thread_made fcn stack me s t np"
      unfolding thread_made_def Let_def
    proof (intro conjI allI impI)
      fix j assume "j < NPROC" "j \<noteq> np"
      then show "ptable t ! j = (if j = me then (ptable s ! me)\<lparr>num_child := num_child (ptable s ! me) + 1\<rparr> else ptable s ! j)"
        using len A(5,9) ne by (simp add: t s2_def upd_proc_nth)
    qed (use A(1,2,3,4,5,7,8) len np p in \<open>simp_all add: t upd_proc_nth thread_init_def s2_def\<close>)
    moreover have "r = nextpid s" using r np A(8) by simp
    ultimately show ?thesis using thread w len p by (simp add: algebra_simps)
  qed
qed

lemma table_inv_thread_made:
  assumes inv: "table_inv up s" and me: "alive s me" and m: "thread_made fcn stack me s t i"
    and low: "up \<longrightarrow> nextpid s < INT_MAX"
  shows "table_inv up t"
proof -
  define s' where "s' = upd_proc me (\<lambda>p. p\<lparr>num_child := num_child p + 1\<rparr>) s"
  have me': "me < NPROC" "me \<noteq> i" using me m by (auto simp: alive_def thread_made_def)
  have len: "length (ptable s) = NPROC" by (rule table_inv_length [OF inv])
  have inv': "table_inv up s'" unfolding s'_def by (rule table_inv_upd [OF inv]) simp
  have al: "alive s' me" using me me' len by (simp add: alive_def s'_def upd_proc_nth)
  show ?thesis
    by (rule table_inv_fill [OF inv', where i = i])
      (use m me' len al low in \<open>auto simp: thread_made_def Let_def s'_def upd_proc_nth\<close>)
qed

lemma table_inv_allocproc_None:
  assumes "table_inv up s" and "keeps_identity init" and "allocproc_with svc init s = (None, t)"
    and low: "up \<longrightarrow> nextpid s < INT_MAX"
  shows "table_inv up t"
  using assms(1-3)
proof (cases rule: allocproc_None)
  case full
  then show ?thesis using assms(1) by simp
next
  case (nopage i)
  show ?thesis by (rule table_inv_fill [OF assms(1) nopage(2,3,5)]) (use nopage low in auto)
qed

lemma table_inv_clone:
  assumes "table_inv up s" and "clone svc put fcn arg stack me s = Inr (r, t)" and "alive s me"
    and "up \<longrightarrow> nextpid s < INT_MAX"
  shows "table_inv up t"
  using assms(1,3,2)
proof (cases rule: clone_cases)
  case failed
  then show ?thesis
    using table_inv_allocproc_None [OF assms(1) keeps_identity_thread_init] assms(4) by (simp add: allocproc4_def)
next
  case (thread i w)
  then show ?thesis using table_inv_thread_made assms by blast
qed

text \<open>After memory has grown or shrunk, every entry on the same page table has the new size.\<close>

lemma growproc4_shared_size:
  assumes "growproc4 svc me n s = Inr (0, t)" and "i < length (ptable t)" and "me < length (ptable t)"
    and "pgdir (ptable t ! i) = pgdir (ptable t ! me)"
  shows "sz (ptable t ! i) = sz (ptable t ! me)"
proof -
  obtain r0 s1 where t: "t = s1\<lparr>ptable := map (\<lambda>p. if pgdir p = pgdir (ptable s1 ! me)
                       then p\<lparr>sz := sz (ptable s1 ! me)\<rparr> else p) (ptable s1)\<rparr>"
    using assms(1) by (auto simp: growproc4_def bindE_eq_Inr_iff split: if_splits)
  show ?thesis using assms(2-4) unfolding t by (auto split: if_splits)
qed

subsection \<open>Properties\<close>

text \<open>A table whose first process has one exited thread and one that runs; then the same with the creator gone.\<close>

definition creator :: proc4 where
  "creator = NULL_proc4\<lparr>state := RUNNING, pid := 1, kstack := 4096, pgdir := 8192, sz := 0x8000, cwd := Some 0, num_child := 1\<rparr>"

definition dead_thread :: proc4 where
  "dead_thread = NULL_proc4\<lparr>state := ZOMBIE, pid := 2, kstack := 4096, pgdir := 8192, parent := Some 0, parent_pid := 1, tstack := 0x3000\<rparr>"

definition thread_table :: "(proc4, unit) kernel" where
  "thread_table = \<lparr>ptable = (replicate NPROC NULL_proc4)[0 := creator, 1 := dead_thread], nextpid = 3, initproc = Some 0, world = ()\<rparr>"

lemma NULL_proc4_simps: "state NULL_proc4 = UNUSED" "parent NULL_proc4 = None" "pid NULL_proc4 = 0"
  by (simp_all add: NULL_proc4_def proc.defs NULL_proc_def)

lemma thread_entries:
  "i < NPROC \<Longrightarrow> ptable thread_table ! i = (if i = 0 then creator else if i = 1 then dead_thread else NULL_proc4)"
  by (simp add: thread_table_def nth_list_update NPROC_def)

lemma thread_table_inv: "table_inv True thread_table" "alive thread_table 0"
proof -
  have "length (ptable thread_table) = NPROC" "nextpid thread_table = 3" "initproc thread_table = Some 0"
    by (simp_all add: thread_table_def)
  then show "table_inv True thread_table" "alive thread_table 0"
    by (auto simp: table_inv_def pids_ok_def family_ok_def alive_def thread_entries NULL_proc4_simps creator_def dead_thread_def NPROC_def)
qed

text \<open>C34: A \<open>clone\<close> that succeeds makes one unused entry a runnable thread of the caller: same page table and
  size, next pid, entry point \<open>fcn\<close>, result register 0, stack pointer 8 below the end of the stack page,
  where the argument and the return address 0xffffffff have been stored; the caller counts it, every other
  entry is as before, and the table stays well formed (its pids distinct as long as the counter of pids does not wrap).\<close>

theorem clone_makes_thread:
  assumes inv: "table_inv up s" and me: "alive s me" and c: "clone svc put fcn arg stack me s = Inr (r, t)" and r: "r \<noteq> -1"
  shows "((up \<longrightarrow> nextpid s < INT_MAX) \<longrightarrow> table_inv up t) \<and> r = nextpid s
     \<and> (\<exists>w1 w2. put (pgdir (ptable s ! me)) (stack + 4092) (le32 arg) (snd (kalloc_s svc (world s))) = Inr w1
          \<and> put (pgdir (ptable s ! me)) (stack + 4088) (replicate 4 0xFF) w1 = Inr w2)
     \<and> (\<exists>i < NPROC. st s i = UNUSED \<and> st t i = RUNNABLE \<and> pd t i = r \<and> par t i = Some me
          \<and> pgdir (ptable t ! i) = pgdir (ptable s ! me) \<and> sz (ptable t ! i) = sz (ptable s ! me)
          \<and> parent_pid (ptable t ! i) = pd s me \<and> tstack (ptable t ! i) = stack
          \<and> eip (tf (ptable t ! i)) = fcn \<and> eax (tf (ptable t ! i)) = 0 \<and> esp (tf (ptable t ! i)) = stack + 4088
          \<and> (\<forall>j < NPROC. j \<noteq> i \<longrightarrow> j \<noteq> me \<longrightarrow> ptable t ! j = ptable s ! j)
          \<and> num_child (ptable t ! me) = num_child (ptable s ! me) + 1)"
  using inv me c
proof (cases rule: clone_cases)
  case failed
  then show ?thesis using r by simp
next
  case (thread i w)
  have "(up \<longrightarrow> nextpid s < INT_MAX) \<longrightarrow> table_inv up t" using table_inv_thread_made [OF inv me thread(2)] by blast
  moreover have "me < NPROC" "me \<noteq> i" using me thread(2) by (auto simp: alive_def thread_made_def)
  ultimately show ?thesis
    using thread by (auto simp: thread_made_def Let_def clone_tf_def bindE_eq_Inr_iff algebra_simps intro!: exI [of _ i])
qed

theorem clone_makes_thread_witness:
  "\<exists>t. clone one_page (\<lambda>pg va bs w. Inr w) 7 9 0x2000 0 thread_table = Inr (3, t) \<and> table_inv True t"
proof -
  have sl: "alloc_slot thread_table = Some 2"
    unfolding alloc_slot_def first_idx_Some_iff
    by (auto simp: thread_entries table_inv_length [OF thread_table_inv(1)] NULL_proc4_simps creator_def dead_thread_def NPROC_def less_2_cases_iff)
  have len: "length (ptable thread_table) = NPROC" by (rule table_inv_length [OF thread_table_inv(1)])
  have o: "ofile (ptable thread_table ! 0) = replicate 16 None" "ofile (ptable thread_table ! 2) = replicate 16 None"
      "cwd (ptable thread_table ! 0) = Some 0" "nextpid thread_table = 3"
    by (simp_all add: thread_entries NPROC_def creator_def NULL_proc4_def proc.defs NULL_proc_def NOFILE_def)
      (simp add: thread_table_def)
  have "dup_files one_page (replicate 16 None) (replicate 16 None) w = Inr (replicate 16 None, w)" for w
    by (simp add: numeral_eq_Suc)
  then have "\<exists>t. clone one_page (\<lambda>pg va bs w. Inr w) 7 9 0x2000 0 thread_table = Inr (3, t)"
    using sl len o by (simp add: clone_def allocproc4_def allocproc_with_def alloc_kstack_def take_slot_def Let_def
        upd_proc_nth idup_opt_def NPROC_def thread_init_def)
  then obtain t where t: "clone one_page (\<lambda>pg va bs w. Inr w) 7 9 0x2000 0 thread_table = Inr (3, t)" ..
  have "table_inv True t" using clone_makes_thread [OF thread_table_inv t] o(4) by (simp add: INT_MAX_def)
  then show ?thesis using t by (intro exI conjI)
qed

text \<open>C35: \<open>wait\<close> reaps only exited children with another page table and \<open>join\<close> only exited children with the
  caller's own, that is its threads; either returns the pid of the child, frees its entry and keeps the
  process table well formed.\<close>

theorem wait_and_join_reap:
  assumes inv: "table_inv up s" and me: "alive s me"
  shows "(wait4 svc me s = Inr (Reaped n, t) \<longrightarrow> table_inv up t \<and> (\<exists>i < NPROC. par s i = Some me \<and> st s i = ZOMBIE
       \<and> pgdir (ptable s ! i) \<noteq> pgdir (ptable s ! me) \<and> n = pd s i \<and> st t i = UNUSED))
    \<and> (join svc put p me s = Inr (Reaped n, t) \<longrightarrow> table_inv up t \<and> (\<exists>i < NPROC. par s i = Some me \<and> st s i = ZOMBIE
       \<and> pgdir (ptable s ! i) = pgdir (ptable s ! me) \<and> n = pd s i \<and> st t i = UNUSED))"
proof -
  note len = table_inv_length [OF inv]
  have u: "st (reaped i w s) i = UNUSED" if "i < NPROC" for i w
    using that len by (simp add: reaped_def upd_proc_nth reap_fields_def)
  { assume w: "wait4 svc me s = Inr (Reaped n, t)"
    then have W: "table_inv up t \<and> (\<exists>i < NPROC. par s i = Some me \<and> st s i = ZOMBIE
       \<and> pgdir (ptable s ! i) \<noteq> pgdir (ptable s ! me) \<and> n = pd s i \<and> st t i = UNUSED)"
      by (cases rule: wait4_cases) (use u len table_inv_wait4 [OF inv w me] in \<open>auto simp: is_process_of_def\<close>) }
  note W = this
  { assume w: "join svc put p me s = Inr (Reaped n, t)"
    then have J: "table_inv up t \<and> (\<exists>i < NPROC. par s i = Some me \<and> st s i = ZOMBIE
       \<and> pgdir (ptable s ! i) = pgdir (ptable s ! me) \<and> n = pd s i \<and> st t i = UNUSED)"
      by (cases rule: join_cases) (use u len table_inv_join [OF inv w me] in \<open>auto simp: is_thread_of_def\<close>) }
  note J = this
  show ?thesis using W J by blast
qed

theorem wait_and_join_reap_witness:
  "\<exists>t. join one_page (\<lambda>pg va bs w. Inr w) 0x100 0 thread_table = Inr (Reaped 2, t) \<and> table_inv True t"
proof -
  have f: "first_idx (\<lambda>p. is_thread_of 0 thread_table p \<and> state p = ZOMBIE) (ptable thread_table) = Some 1"
    unfolding first_idx_Some_iff is_thread_of_def
    by (auto simp: thread_entries table_inv_length [OF thread_table_inv(1)] creator_def dead_thread_def NPROC_def)
  have "\<exists>t. join one_page (\<lambda>pg va bs w. Inr w) 0x100 0 thread_table = Inr (Reaped 2, t)"
    using f by (simp add: join_def Let_def thread_entries NPROC_def creator_def dead_thread_def)
  then obtain t where t: "join one_page (\<lambda>pg va bs w. Inr w) 0x100 0 thread_table = Inr (Reaped 2, t)" ..
  have "table_inv True t" using wait_and_join_reap [OF thread_table_inv] t by simp
  then show ?thesis using t by (intro exI conjI)
qed

text \<open>C40: Every operation that project 4 changed for threads keeps the process table well formed: live parents, a live
  first process, and distinct pids, the latter as long as the counter of pids does not wrap.\<close>

theorem thread_operations_keep_table:
  assumes "table_inv up s" and "alive s me"
  shows "(fork4 svc me s = Inr (r, t) \<longrightarrow> (up \<longrightarrow> nextpid s < INT_MAX) \<longrightarrow> table_inv up t) \<and> (exit4 svc me s = Inr t \<longrightarrow> table_inv up t)
    \<and> (clone svc put fcn arg stack me s = Inr (r, t) \<longrightarrow> (up \<longrightarrow> nextpid s < INT_MAX) \<longrightarrow> table_inv up t) \<and> (growproc4 svc me n s = Inr (r, t) \<longrightarrow> table_inv up t)
    \<and> (wait4 svc me s = Inr (v, t) \<longrightarrow> table_inv up t) \<and> (join svc put p me s = Inr (v, t) \<longrightarrow> table_inv up t)"
proof (intro conjI impI)
  show "table_inv up t" if "fork4 svc me s = Inr (r, t)" "up \<longrightarrow> nextpid s < INT_MAX"
    using that by (rule table_inv_fork4 [OF assms(1) _ assms(2)])
  show "table_inv up t" if "exit4 svc me s = Inr t" using that by (rule table_inv_exit4 [OF assms(1) _ assms(2)])
  show "table_inv up t" if "clone svc put fcn arg stack me s = Inr (r, t)" "up \<longrightarrow> nextpid s < INT_MAX"
    using that by (rule table_inv_clone [OF assms(1) _ assms(2)])
  show "table_inv up t" if "growproc4 svc me n s = Inr (r, t)" using that by (rule table_inv_growproc4 [OF assms(1)])
  show "table_inv up t" if "wait4 svc me s = Inr (v, t)" using that by (rule table_inv_wait4 [OF assms(1) _ assms(2)])
  show "table_inv up t" if "join svc put p me s = Inr (v, t)" using that by (rule table_inv_join [OF assms(1) _ assms(2)])
qed

theorem thread_operations_keep_table_witness: "table_inv True (snd (projr (wait4 one_page 0 thread_table)))"
proof -
  have "\<forall>p \<in> set (ptable thread_table). \<not> is_process_of 0 thread_table p"
    using table_inv_length [OF thread_table_inv(1)]
    by (auto simp: in_set_conv_nth is_process_of_def thread_entries NULL_proc4_simps creator_def dead_thread_def NPROC_def)
  moreover from this have "first_idx (\<lambda>p. is_process_of 0 thread_table p \<and> state p = ZOMBIE) (ptable thread_table) = None"
    by (auto simp: first_idx_None_iff)
  ultimately have w: "wait4 one_page 0 thread_table = Inr (NoWait, thread_table)" by (simp add: wait4_def)
  show ?thesis using thread_operations_keep_table [OF thread_table_inv, of one_page _ thread_table _ _ _ _ _ NoWait] by (simp add: w)
qed

text \<open>After \<open>sbrk\<close> has succeeded, every process table entry that shares the caller's page table has the
  caller's new size: no thread keeps a stale size.\<close>

theorem growproc_updates_threads:
  assumes "growproc4 svc me n s = Inr (0, t)" and "i < length (ptable t)" and "me < length (ptable t)"
    and "pgdir (ptable t ! i) = pgdir (ptable t ! me)"
  shows "sz (ptable t ! i) = sz (ptable t ! me)"
  by (rule growproc4_shared_size [OF assms])

theorem growproc_updates_threads_witness:
  "\<exists>t. growproc4 one_page 0 0 thread_table = Inr (0, t) \<and> sz (ptable t ! 1) = sz (ptable t ! 0)"
proof -
  have len: "length (ptable thread_table) = NPROC" by (rule table_inv_length [OF thread_table_inv(1)])
  have "\<exists>t. growproc4 one_page 0 0 thread_table = Inr (0, t) \<and> length (ptable t) = NPROC
      \<and> pgdir (ptable t ! 1) = pgdir (ptable t ! 0)"
    using len by (simp add: growproc4_def growproc_def Let_def upd_proc_nth NPROC_def thread_entries creator_def dead_thread_def)
  then obtain t where t: "growproc4 one_page 0 0 thread_table = Inr (0, t)" "length (ptable t) = NPROC"
      "pgdir (ptable t ! 1) = pgdir (ptable t ! 0)" by (elim exE conjE)
  have "sz (ptable t ! 1) = sz (ptable t ! 0)"
    by (rule growproc_updates_threads [OF t(1)]) (use t in \<open>simp_all add: NPROC_def\<close>)
  then show ?thesis using t(1) by (intro exI conjI)
qed

text \<open>A thread whose creator has already been reaped is reaped with its address space: \<open>wait\<close> looks only
  for the creator's pid, so when it finds none it frees the page table even though another thread still
  runs on it.\<close>

theorem wait_frees_running_threads_memory:
  assumes z: "first_idx (\<lambda>p. is_process_of me s p \<and> state p = ZOMBIE) (ptable s) = Some i"
    and gone: "\<forall>q \<in> set (ptable s). pid q \<noteq> parent_pid (ptable s ! i)"
    and j: "j < length (ptable s)" "j \<noteq> i" "st s j = RUNNABLE" "pgdir (ptable s ! j) = pgdir (ptable s ! i)"
    and free: "kfree_s svc (kstack (ptable s ! i)) (world s) = Inr w1" "freevm_s svc (pgdir (ptable s ! i)) w1 = Inr w2"
  shows "\<exists>t. wait4 svc me s = Inr (Reaped (pd s i), t) \<and> world t = w2 \<and> st t j = RUNNABLE
     \<and> pgdir (ptable t ! j) = pgdir (ptable s ! i)"
proof -
  have "wait4 svc me s = Inr (Reaped (pd s i), reaped i w2 s)"
    using z gone free by (auto simp: wait4_def Let_def reaped_def)
  moreover have "st (reaped i w2 s) j = RUNNABLE" "pgdir (ptable (reaped i w2 s) ! j) = pgdir (ptable s ! i)"
    using j by (simp_all add: reaped_def upd_proc_nth uncount_nth)
  ultimately show ?thesis by (simp add: reaped_def)
qed

definition orphans :: "(proc4, unit) kernel" where
  "orphans = \<lparr>ptable = [creator\<lparr>pgdir := 4096\<rparr>, dead_thread\<lparr>parent_pid := 9\<rparr>, dead_thread\<lparr>state := RUNNABLE, pid := 3, parent_pid := 9\<rparr>],
     nextpid = 10, initproc = Some 0, world = ()\<rparr>"

theorem wait_frees_running_threads_memory_witness:
  "\<exists>t. wait4 one_page 0 orphans = Inr (Reaped 2, t) \<and> st t 2 = RUNNABLE"
proof -
  have z: "first_idx (\<lambda>p. is_process_of 0 orphans p \<and> state p = ZOMBIE) (ptable orphans) = Some 1"
    by (simp add: orphans_def is_process_of_def creator_def dead_thread_def)
  have "\<exists>t. wait4 one_page 0 orphans = Inr (Reaped (pd orphans 1), t) \<and> world t = () \<and> st t 2 = RUNNABLE
     \<and> pgdir (ptable t ! 2) = pgdir (ptable orphans ! 1)"
    by (rule wait_frees_running_threads_memory [OF z]) (simp_all add: orphans_def creator_def dead_thread_def)
  moreover have "pd orphans 1 = 2" by (simp add: orphans_def dead_thread_def)
  ultimately show ?thesis by auto
qed

end
