(* ===== verification/Spinlock.thy ===== *)
theory Spinlock
  imports Prelude
begin

text \<open>
  \<open>kernel/spinlock.c\<close>: spin locks and the nesting of interrupt disabling. The processors
  interleave at the granularity of the atomic \<open>xchg\<close>: \<open>acquire\<close> and \<open>release\<close> are cut there,
  and \<open>pc\<close> says where a processor stands inside them. \<open>cs\<close> is the set of the locks whose
  \<open>acquire\<close> has returned to the processor and whose \<open>release\<close> it has not called yet: it is no
  part of the code's state, and the code's tests never read it. Mutual exclusion is a statement
  about \<open>cs\<close>; it is what lets the other theories treat a critical section as one step.
\<close>

record spinlock =
  locked :: bool
  lcpu :: "nat option"

record cpu =
  ncli :: int
  intena :: bool
  iflag :: bool

datatype point = Outside | Spinning nat | Got nat | Releasing nat

record machine =
  locks :: "nat \<Rightarrow> spinlock"
  cpus :: "nat \<Rightarrow> cpu"
  pc :: "nat \<Rightarrow> point"
  cs :: "nat \<Rightarrow> nat set"

definition initlock :: spinlock where
  "initlock = \<lparr>locked = False, lcpu = None\<rparr>"

definition holding :: "nat \<Rightarrow> spinlock \<Rightarrow> bool" where
  "holding c lk = (locked lk \<and> lcpu lk = Some c)"

definition pushcli :: "cpu \<Rightarrow> cpu" where
  "pushcli u = u\<lparr>iflag := False, ncli := ncli u + 1, intena := (if ncli u = 0 then iflag u else intena u)\<rparr>"

definition popcli :: "cpu \<Rightarrow> kerr + cpu" where
  "popcli u =
     (if iflag u then Inl (Panic ''popcli - interruptible'')
      else if ncli u - 1 < 0 then Inl (Panic ''popcli'')
      else Inr (u\<lparr>ncli := ncli u - 1, iflag := (ncli u - 1 = 0 \<and> intena u)\<rparr>))"

subsection \<open>acquire and release in steps\<close>

definition acquire_enter :: "nat \<Rightarrow> nat \<Rightarrow> machine \<Rightarrow> kerr + machine" where
  "acquire_enter c l m =
     (let m1 = m\<lparr>cpus := (cpus m)(c := pushcli (cpus m c))\<rparr> in
      if holding c (locks m1 l) then Inl (Panic ''acquire'')
      else Inr (m1\<lparr>pc := (pc m1)(c := Spinning l)\<rparr>))"

text \<open>One turn of \<open>while(xchg(&lk->locked, 1) != 0);\<close>\<close>

definition acquire_xchg :: "nat \<Rightarrow> nat \<Rightarrow> machine \<Rightarrow> machine" where
  "acquire_xchg c l m =
     (let old = locked (locks m l);
          m1 = m\<lparr>locks := (locks m)(l := (locks m l)\<lparr>locked := True\<rparr>)\<rparr>
      in if old then m1 else m1\<lparr>pc := (pc m)(c := Got l)\<rparr>)"

definition acquire_done :: "nat \<Rightarrow> nat \<Rightarrow> machine \<Rightarrow> machine" where
  "acquire_done c l m = m\<lparr>locks := (locks m)(l := (locks m l)\<lparr>lcpu := Some c\<rparr>),
      pc := (pc m)(c := Outside), cs := (cs m)(c := insert l (cs m c))\<rparr>"

definition release_enter :: "nat \<Rightarrow> nat \<Rightarrow> machine \<Rightarrow> kerr + machine" where
  "release_enter c l m =
     (if \<not> holding c (locks m l) then Inl (Panic ''release'')
      else Inr (m\<lparr>locks := (locks m)(l := (locks m l)\<lparr>lcpu := None\<rparr>),
             pc := (pc m)(c := Releasing l), cs := (cs m)(c := cs m c - {l})\<rparr>))"

definition release_xchg :: "nat \<Rightarrow> nat \<Rightarrow> machine \<Rightarrow> kerr + machine" where
  "release_xchg c l m =
     bindE (popcli (cpus m c)) (\<lambda>u.
       Inr (m\<lparr>locks := (locks m)(l := (locks m l)\<lparr>locked := False\<rparr>),
              pc := (pc m)(c := Outside), cpus := (cpus m)(c := u)\<rparr>))"

text \<open>
  Any processor takes its next step. A processor outside the two routines may call either
  of them; \<open>sti\<close> is executed only outside critical sections (the loop of \<open>scheduler\<close>, and
  the return from a trap). A call that panics is no step: \<open>no_panic\<close> below shows which calls do.
\<close>

inductive mstep :: "machine \<Rightarrow> machine \<Rightarrow> bool" where
  m_acquire: "pc m c = Outside \<Longrightarrow> acquire_enter c l m = Inr m' \<Longrightarrow> mstep m m'"
| m_xchg: "pc m c = Spinning l \<Longrightarrow> mstep m (acquire_xchg c l m)"
| m_got: "pc m c = Got l \<Longrightarrow> mstep m (acquire_done c l m)"
| m_release: "pc m c = Outside \<Longrightarrow> release_enter c l m = Inr m' \<Longrightarrow> mstep m m'"
| m_released: "pc m c = Releasing l \<Longrightarrow> release_xchg c l m = Inr m' \<Longrightarrow> mstep m m'"
| m_sti: "pc m c = Outside \<Longrightarrow> ncli (cpus m c) = 0
     \<Longrightarrow> mstep m (m\<lparr>cpus := (cpus m)(c := (cpus m c)\<lparr>iflag := b\<rparr>)\<rparr>)"

definition boot_machine :: machine where
  "boot_machine = \<lparr>locks = (\<lambda>_. initlock), cpus = (\<lambda>_. \<lparr>ncli = 0, intena = False, iflag = False\<rparr>),
     pc = (\<lambda>_. Outside), cs = (\<lambda>_. {})\<rparr>"

inductive mreach :: "machine \<Rightarrow> bool" where
  mreach_boot: "mreach boot_machine"
| mreach_step: "mreach m \<Longrightarrow> mstep m m' \<Longrightarrow> mreach m'"

subsection \<open>The invariant\<close>

definition occupies :: "machine \<Rightarrow> nat \<Rightarrow> nat \<Rightarrow> bool" where
  "occupies m c l = (l \<in> cs m c \<or> pc m c = Got l \<or> pc m c = Releasing l)"

definition lock_inv :: "machine \<Rightarrow> bool" where
  "lock_inv m = ((\<forall>l c. occupies m c l \<longrightarrow> locked (locks m l))
    \<and> (\<forall>l c c'. occupies m c l \<longrightarrow> occupies m c' l \<longrightarrow> c = c')
    \<and> (\<forall>l. locked (locks m l) \<longrightarrow> (\<exists>c. occupies m c l))
    \<and> (\<forall>l c. l \<in> cs m c \<longleftrightarrow> lcpu (locks m l) = Some c)
    \<and> (\<forall>l c. l \<in> cs m c \<longrightarrow> pc m c \<noteq> Got l \<and> pc m c \<noteq> Releasing l \<and> pc m c \<noteq> Spinning l))"

definition depth :: "machine \<Rightarrow> nat \<Rightarrow> nat" where
  "depth m c = card (cs m c) + (if pc m c = Outside then 0 else 1)"

definition intr_ok :: "machine \<Rightarrow> nat \<Rightarrow> bool" where
  "intr_ok m c = (finite (cs m c) \<and> ncli (cpus m c) = int (depth m c)
     \<and> (ncli (cpus m c) > 0 \<longrightarrow> \<not> iflag (cpus m c)))"

definition intr_inv :: "machine \<Rightarrow> bool" where
  "intr_inv m = (\<forall>c. intr_ok m c)"

lemma lock_invI:
  assumes "\<And>l c. occupies m c l \<Longrightarrow> locked (locks m l)"
    and "\<And>l c c'. occupies m c l \<Longrightarrow> occupies m c' l \<Longrightarrow> c = c'"
    and "\<And>l. locked (locks m l) \<Longrightarrow> \<exists>c. occupies m c l"
    and "\<And>l c. l \<in> cs m c \<longleftrightarrow> lcpu (locks m l) = Some c"
    and "\<And>l c. l \<in> cs m c \<Longrightarrow> pc m c \<noteq> Got l \<and> pc m c \<noteq> Releasing l \<and> pc m c \<noteq> Spinning l"
  shows "lock_inv m"
  unfolding lock_inv_def using assms by blast

lemma lock_invD:
  assumes "lock_inv m"
  shows "occupies m c l \<Longrightarrow> locked (locks m l)"
    and "occupies m c l \<Longrightarrow> occupies m c' l \<Longrightarrow> c = c'"
    and "locked (locks m l) \<Longrightarrow> \<exists>c. occupies m c l"
    and "l \<in> cs m c \<longleftrightarrow> lcpu (locks m l) = Some c"
    and "l \<in> cs m c \<Longrightarrow> pc m c \<noteq> Got l \<and> pc m c \<noteq> Releasing l \<and> pc m c \<noteq> Spinning l"
  using assms unfolding lock_inv_def by blast+

lemma holding_iff_cs: "lock_inv m \<Longrightarrow> holding c (locks m l) \<longleftrightarrow> l \<in> cs m c"
  unfolding lock_inv_def holding_def occupies_def by metis

lemma lock_inv_boot: "lock_inv boot_machine"
  by (simp add: lock_inv_def occupies_def boot_machine_def initlock_def)

lemma lock_inv_acquire_enter:
  assumes inv: "lock_inv m" and c: "pc m c = Outside" and a: "acquire_enter c l m = Inr m'"
  shows "lock_inv m'"
proof -
  have "\<not> holding c (locks m l)" using a by (auto simp: acquire_enter_def Let_def split: if_splits)
  then have l: "l \<notin> cs m c" using holding_iff_cs [OF inv] by simp
  have m': "locks m' = locks m" "cs m' = cs m" "pc m' = (pc m)(c := Spinning l)"
    using a by (auto simp: acquire_enter_def Let_def split: if_splits)
  have "occupies m' = occupies m"
    using c by (intro ext) (auto simp: occupies_def m')
  then show ?thesis using inv l c unfolding lock_inv_def m' by auto
qed

lemma lock_inv_xchg:
  assumes inv: "lock_inv m" and c: "pc m c = Spinning l"
  shows "lock_inv (acquire_xchg c l m)"
proof (cases "locked (locks m l)")
  case True
  then have "acquire_xchg c l m = m" by (simp add: acquire_xchg_def fun_upd_idem)
  then show ?thesis using inv by simp
next
  case False
  then have free: "\<not> occupies m d l" for d using inv unfolding lock_inv_def by metis
  define m' where "m' = acquire_xchg c l m"
  have m': "locks m' = (locks m)(l := (locks m l)\<lparr>locked := True\<rparr>)" "cs m' = cs m" "pc m' = (pc m)(c := Got l)"
    using False by (simp_all add: m'_def acquire_xchg_def)
  have occ: "occupies m' d k = (if k = l then d = c else occupies m d k)" for d k
    using c free [of d] by (auto simp: occupies_def m')
  have ncs: "l \<notin> cs m d" for d using free [of d] by (simp add: occupies_def)
  show ?thesis
    unfolding m'_def [symmetric]
  proof (rule lock_invI, unfold occ)
    fix k d d'
    show "(if k = l then d = c else occupies m d k) \<Longrightarrow> locked (locks m' k)"
      using lock_invD(1) [OF inv, of d k] by (simp add: m' split: if_splits)
    show "(if k = l then d = c else occupies m d k) \<Longrightarrow> (if k = l then d' = c else occupies m d' k) \<Longrightarrow> d = d'"
      using lock_invD(2) [OF inv, of d k d'] by (simp split: if_splits)
    show "locked (locks m' k) \<Longrightarrow> \<exists>d. if k = l then d = c else occupies m d k"
      using lock_invD(3) [OF inv, of k] by (simp add: m' split: if_splits)
    show "(k \<in> cs m' d) = (lcpu (locks m' k) = Some d)" using lock_invD(4) [OF inv, of k d] by (simp add: m')
    show "k \<in> cs m' d \<Longrightarrow> pc m' d \<noteq> Got k \<and> pc m' d \<noteq> Releasing k \<and> pc m' d \<noteq> Spinning k"
      using lock_invD(5) [OF inv, of k d] ncs [of d] by (auto simp: m')
  qed
qed

lemma lock_inv_done:
  assumes inv: "lock_inv m" and c: "pc m c = Got l"
  shows "lock_inv (acquire_done c l m)"
proof -
  define m' where "m' = acquire_done c l m"
  have m': "locks m' = (locks m)(l := (locks m l)\<lparr>lcpu := Some c\<rparr>)" "cs m' = (cs m)(c := insert l (cs m c))"
      "pc m' = (pc m)(c := Outside)"
    by (simp_all add: m'_def acquire_done_def)
  have occ: "occupies m' d k = occupies m d k" for d k
    using c by (auto simp: occupies_def m')
  have "occupies m c l" using c by (simp add: occupies_def)
  then have ncs: "l \<notin> cs m d" for d
    using lock_invD(2) [OF inv, of c l d] lock_invD(5) [OF inv, of l d] c by (auto simp: occupies_def)
  show ?thesis
    unfolding m'_def [symmetric]
  proof (rule lock_invI, unfold occ)
    fix k d
    show "occupies m d k \<Longrightarrow> locked (locks m' k)" using lock_invD(1) [OF inv, of d k] by (auto simp: m')
    show "locked (locks m' k) \<Longrightarrow> \<exists>c. occupies m c k"
      using lock_invD(3) [OF inv, of k] by (simp add: m' split: if_splits)
    show "(k \<in> cs m' d) = (lcpu (locks m' k) = Some d)" using lock_invD(4) [OF inv, of k d] ncs [of d] by (auto simp: m')
    show "k \<in> cs m' d \<Longrightarrow> pc m' d \<noteq> Got k \<and> pc m' d \<noteq> Releasing k \<and> pc m' d \<noteq> Spinning k"
      using lock_invD(5) [OF inv, of k d] by (auto simp: m' split: if_splits)
  qed (use lock_invD(2) [OF inv] in blast)
qed

lemma lock_inv_release_enter:
  assumes inv: "lock_inv m" and c: "pc m c = Outside" and r: "release_enter c l m = Inr m'"
  shows "lock_inv m'"
proof -
  have h: "l \<in> cs m c" using r holding_iff_cs [OF inv] by (auto simp: release_enter_def split: if_splits)
  have m': "locks m' = (locks m)(l := (locks m l)\<lparr>lcpu := None\<rparr>)" "cs m' = (cs m)(c := cs m c - {l})"
      "pc m' = (pc m)(c := Releasing l)"
    using r by (auto simp: release_enter_def split: if_splits)
  have occ: "occupies m' d k = occupies m d k" for d k
    using c h by (auto simp: occupies_def m')
  have ncs: "d = c \<or> l \<notin> cs m d" for d
    using lock_invD(2) [OF inv, of c l d] h by (auto simp: occupies_def)
  show ?thesis
  proof (rule lock_invI, unfold occ)
    fix k d
    show "occupies m d k \<Longrightarrow> locked (locks m' k)" using lock_invD(1) [OF inv, of d k] by (auto simp: m')
    show "locked (locks m' k) \<Longrightarrow> \<exists>c. occupies m c k"
      using lock_invD(3) [OF inv, of k] by (simp add: m' split: if_splits)
    show "(k \<in> cs m' d) = (lcpu (locks m' k) = Some d)" using lock_invD(4) [OF inv, of k d] ncs [of d] by (auto simp: m')
    show "k \<in> cs m' d \<Longrightarrow> pc m' d \<noteq> Got k \<and> pc m' d \<noteq> Releasing k \<and> pc m' d \<noteq> Spinning k"
      using lock_invD(5) [OF inv, of k d] by (auto simp: m' split: if_splits)
  qed (use lock_invD(2) [OF inv] in blast)
qed

lemma lock_inv_release_xchg:
  assumes inv: "lock_inv m" and c: "pc m c = Releasing l" and r: "release_xchg c l m = Inr m'"
  shows "lock_inv m'"
proof -
  have m': "locks m' = (locks m)(l := (locks m l)\<lparr>locked := False\<rparr>)" "cs m' = cs m"
      "pc m' = (pc m)(c := Outside)"
    using r by (auto simp: release_xchg_def bindE_eq_Inr_iff)
  have oc: "occupies m c l" using c by (simp add: occupies_def)
  have only: "occupies m d l \<Longrightarrow> d = c" for d using lock_invD(2) [OF inv _ oc] by blast
  have ncs: "l \<notin> cs m d" for d
  proof
    assume l: "l \<in> cs m d"
    then have "d = c" by (intro only) (simp add: occupies_def)
    then show False using lock_invD(5) [OF inv l] c by simp
  qed
  have occ: "occupies m' d k = (k \<noteq> l \<and> occupies m d k)" for d k
  proof (cases "d = c")
    case True
    then show ?thesis using c ncs [of c] by (auto simp: occupies_def m')
  next
    case False
    then have "\<not> occupies m d l" using only by blast
    then show ?thesis using False by (cases "k = l") (simp_all add: occupies_def m')
  qed
  show ?thesis
  proof (rule lock_invI, unfold occ)
    fix k d d'
    show "k \<noteq> l \<and> occupies m d k \<Longrightarrow> locked (locks m' k)"
      using lock_invD(1) [OF inv, of d k] by (simp add: m')
    show "k \<noteq> l \<and> occupies m d k \<Longrightarrow> k \<noteq> l \<and> occupies m d' k \<Longrightarrow> d = d'"
      using lock_invD(2) [OF inv, of d k d'] by simp
    show "locked (locks m' k) \<Longrightarrow> \<exists>d. k \<noteq> l \<and> occupies m d k"
      using lock_invD(3) [OF inv, of k] by (simp add: m' split: if_splits)
    show "(k \<in> cs m' d) = (lcpu (locks m' k) = Some d)" using lock_invD(4) [OF inv, of k d] by (simp add: m')
    show "k \<in> cs m' d \<Longrightarrow> pc m' d \<noteq> Got k \<and> pc m' d \<noteq> Releasing k \<and> pc m' d \<noteq> Spinning k"
      using lock_invD(5) [OF inv, of k d] by (simp add: m')
  qed
qed

lemma lock_inv_cpus: "lock_inv (m\<lparr>cpus := u\<rparr>) = lock_inv m"
  by (cases m) (simp only: lock_inv_def occupies_def machine.select_convs machine.update_convs)

lemma lock_inv_step: "mstep m m' \<Longrightarrow> lock_inv m \<Longrightarrow> lock_inv m'"
proof (induction rule: mstep.induct)
  case (m_sti m c b)
  then show ?case by (simp only: lock_inv_cpus)
qed (blast intro: lock_inv_acquire_enter lock_inv_xchg lock_inv_done lock_inv_release_enter lock_inv_release_xchg)+

subsection \<open>Interrupts\<close>

lemma intr_inv_boot: "intr_inv boot_machine"
  by (simp add: intr_inv_def intr_ok_def boot_machine_def depth_def)

text \<open>A step of a processor changes the interrupt state of no other.\<close>

lemma intr_invI:
  assumes "intr_inv m" and "intr_ok m' c"
    and "\<And>d. d \<noteq> c \<Longrightarrow> cs m' d = cs m d \<and> cpus m' d = cpus m d \<and> pc m' d = pc m d"
  shows "intr_inv m'"
  unfolding intr_inv_def
proof
  fix d
  show "intr_ok m' d"
    using assms by (cases "d = c") (simp_all add: intr_inv_def intr_ok_def depth_def)
qed

lemma intr_inv_step: "mstep m m' \<Longrightarrow> lock_inv m \<Longrightarrow> intr_inv m \<Longrightarrow> intr_inv m'"
proof (induction rule: mstep.induct)
  case (m_acquire m c l m')
  then have ok: "intr_ok m c" by (simp add: intr_inv_def)
  have m': "cs m' = cs m" "cpus m' = (cpus m)(c := pushcli (cpus m c))" "pc m' = (pc m)(c := Spinning l)"
    using m_acquire(2) by (auto simp: acquire_enter_def Let_def split: if_splits)
  show ?case
    by (rule intr_invI [OF m_acquire(4)]) (use ok m_acquire(1) in \<open>auto simp: m' intr_ok_def pushcli_def depth_def\<close>)
next
  case (m_xchg m c l)
  then have ok: "intr_ok m c" by (simp add: intr_inv_def)
  show ?case
    by (rule intr_invI [OF m_xchg(3), where c = c])
      (use ok m_xchg(1) in \<open>auto simp: intr_ok_def acquire_xchg_def Let_def depth_def\<close>)
next
  case (m_got m c l)
  then have ok: "intr_ok m c" by (simp add: intr_inv_def)
  have l: "l \<notin> cs m c" using lock_invD(5) [OF m_got(2), of l c] m_got(1) by auto
  show ?case
    by (rule intr_invI [OF m_got(3), where c = c])
      (use ok l m_got(1) in \<open>auto simp: intr_ok_def acquire_done_def depth_def\<close>)
next
  case (m_release m c l m')
  have ok: "intr_ok m c" using m_release by (simp add: intr_inv_def)
  have l: "l \<in> cs m c"
    using m_release(2) holding_iff_cs [OF m_release(3)] by (auto simp: release_enter_def split: if_splits)
  define n where "n = card (cs m c - {l})"
  have card: "card (cs m c) = Suc n" using ok l unfolding n_def by (metis card.remove intr_ok_def)
  have m': "cs m' = (cs m)(c := cs m c - {l})" "cpus m' = cpus m" "pc m' = (pc m)(c := Releasing l)"
    using m_release(2) by (auto simp: release_enter_def split: if_splits)
  show ?case
    by (rule intr_invI [OF m_release(4), where c = c])
      (use ok m_release(1) card in \<open>simp_all add: m' intr_ok_def depth_def n_def [symmetric]
          del: card_Diff_singleton card_Diff_insert\<close>)
next
  case (m_released m c l m')
  have ok: "intr_ok m c" using m_released by (simp add: intr_inv_def)
  obtain u where u: "popcli (cpus m c) = Inr u" and m': "cs m' = cs m" "cpus m' = (cpus m)(c := u)"
      "pc m' = (pc m)(c := Outside)"
    using m_released(2) by (auto simp: release_xchg_def bindE_eq_Inr_iff)
  show ?case
    by (rule intr_invI [OF m_released(4), where c = c])
      (use ok u m_released(1) in \<open>auto simp: m' intr_ok_def popcli_def depth_def split: if_splits\<close>)
next
  case (m_sti m c b)
  have ok: "intr_ok m c" using m_sti by (simp add: intr_inv_def)
  show ?case
    by (rule intr_invI [OF m_sti(4), where c = c]) (use ok m_sti(1,2) in \<open>auto simp: intr_ok_def depth_def\<close>)
qed

lemma mreach_inv: "mreach m \<Longrightarrow> lock_inv m \<and> intr_inv m"
  by (induction rule: mreach.induct) (auto simp: lock_inv_boot intr_inv_boot intro: lock_inv_step intr_inv_step)

text \<open>
  The panics: \<open>acquire\<close> panics only when the processor holds the lock already, \<open>release\<close> only when
  it does not hold it, and \<open>popcli\<close> never in a release.
\<close>

lemma acquire_panics_iff:
  assumes "lock_inv m"
  shows "acquire_enter c l m = Inl e \<longleftrightarrow> l \<in> cs m c \<and> e = Panic ''acquire''"
  using holding_iff_cs [OF assms] by (auto simp: acquire_enter_def Let_def)

lemma release_panics_iff:
  assumes "lock_inv m"
  shows "release_enter c l m = Inl e \<longleftrightarrow> l \<notin> cs m c \<and> e = Panic ''release''"
  using holding_iff_cs [OF assms] by (auto simp: release_enter_def)

lemma release_xchg_succeeds:
  assumes "intr_inv m" and "pc m c = Releasing l"
  shows "\<exists>m'. release_xchg c l m = Inr m'"
proof -
  have "ncli (cpus m c) = int (Suc (card (cs m c)))" "\<not> iflag (cpus m c)"
    using assms by (auto simp: intr_inv_def intr_ok_def depth_def)
  then show ?thesis by (simp add: release_xchg_def popcli_def)
qed

subsection \<open>Properties\<close>

text \<open>C2: In every interleaving of the processors at the level of the atomic exchange, at most one processor
  is between the return of \<open>acquire\<close> and its call of \<open>release\<close> for a given lock; and while it holds any
  lock its interrupts are off.\<close>

theorem mutual_exclusion:
  assumes "mreach m" and "l \<in> cs m c"
  shows "(\<forall>c'. l \<in> cs m c' \<longrightarrow> c' = c) \<and> \<not> iflag (cpus m c)"
proof (intro conjI allI impI)
  have l: "lock_inv m" and i: "intr_inv m" using mreach_inv [OF assms(1)] by auto
  show "c' = c" if "l \<in> cs m c'" for c' using lock_invD(2) [OF l, of c l c'] assms(2) that by (simp add: occupies_def)
  have f: "finite (cs m c)" "ncli (cpus m c) = int (depth m c)" "ncli (cpus m c) > 0 \<longrightarrow> \<not> iflag (cpus m c)"
    using i by (auto simp: intr_inv_def intr_ok_def)
  have "0 < card (cs m c)" using f(1) assms(2) by (auto simp: card_gt_0_iff)
  then show "\<not> iflag (cpus m c)" using f(2,3) by (simp add: depth_def)
qed

lemma one_acquire: "\<exists>m. mreach m \<and> cs m 0 = {5}"
proof -
  obtain m1 where m1: "acquire_enter 0 5 boot_machine = Inr m1"
    and p1: "pc m1 0 = Spinning 5" "locks m1 5 = initlock" "cs m1 = (\<lambda>_. {})"
    by (simp add: acquire_enter_def boot_machine_def holding_def initlock_def)
  have r1: "mreach m1" by (rule mreach_step [OF mreach_boot m_acquire [OF _ m1]]) (simp add: boot_machine_def)
  let ?m2 = "acquire_xchg 0 5 m1"
  have r2: "mreach ?m2" by (rule mreach_step [OF r1 m_xchg [OF p1(1)]])
  have p2: "pc ?m2 0 = Got 5" "cs ?m2 = (\<lambda>_. {})" using p1 by (simp_all add: acquire_xchg_def initlock_def)
  have "mreach (acquire_done 0 5 ?m2)" by (rule mreach_step [OF r2 m_got [OF p2(1)]])
  moreover have "cs (acquire_done 0 5 ?m2) 0 = {5}" by (simp add: acquire_done_def p2)
  ultimately show ?thesis by blast
qed

theorem mutual_exclusion_witness: "\<exists>m. mreach m \<and> 5 \<in> cs m 0 \<and> \<not> iflag (cpus m 0)"
proof -
  obtain m where m: "mreach m" "cs m 0 = {5}" using one_acquire by blast
  then have l: "5 \<in> cs m 0" by simp
  show ?thesis using m(1) l mutual_exclusion [OF m(1) l] by blast
qed

text \<open>In every reachable state, \<open>acquire\<close> panics exactly when the processor already holds the lock,
  \<open>release\<close> exactly when it does not hold it, and the \<open>popcli\<close> inside \<open>release\<close> never panics.\<close>

theorem lock_panics:
  assumes "mreach m"
  shows "(acquire_enter c l m = Inl e \<longleftrightarrow> l \<in> cs m c \<and> e = Panic ''acquire'')
    \<and> (release_enter c l m = Inl e \<longleftrightarrow> l \<notin> cs m c \<and> e = Panic ''release'')
    \<and> (pc m c = Releasing l \<longrightarrow> (\<exists>m'. release_xchg c l m = Inr m'))"
proof (intro conjI impI)
  have l: "lock_inv m" and i: "intr_inv m" using mreach_inv [OF assms] by auto
  show "acquire_enter c l m = Inl e \<longleftrightarrow> l \<in> cs m c \<and> e = Panic ''acquire''" by (rule acquire_panics_iff [OF l])
  show "release_enter c l m = Inl e \<longleftrightarrow> l \<notin> cs m c \<and> e = Panic ''release''" by (rule release_panics_iff [OF l])
  show "pc m c = Releasing l \<Longrightarrow> \<exists>m'. release_xchg c l m = Inr m'" by (rule release_xchg_succeeds [OF i])
qed

theorem lock_panics_witness:
  "\<exists>m. mreach m \<and> acquire_enter 0 5 m = Inl (Panic ''acquire'') \<and> release_enter 1 5 boot_machine = Inl (Panic ''release'')"
proof -
  obtain m where m: "mreach m" "cs m 0 = {5}" using one_acquire by blast
  have "acquire_enter 0 5 m = Inl (Panic ''acquire'')" using lock_panics [OF m(1)] m(2) by simp
  moreover have "release_enter 1 5 boot_machine = Inl (Panic ''release'')"
    using lock_panics [OF mreach_boot] by (simp add: boot_machine_def)
  ultimately show ?thesis using m(1) by blast
qed

end
