(* ===== verification/Syscall.thy ===== *)
theory Syscall
  imports ProcSteps Kalloc
begin

text \<open>
  System calls and traps: \<open>kernel/syscall.c\<close> (the fetching and the checking of arguments, the
  dispatch; projects 5 and 3), \<open>kernel/sysproc.c\<close> and \<open>kernel/trap.c\<close>. User memory is a function
  from virtual addresses to bytes; \<open>psz\<close> is the size of the process.
\<close>

type_synonym umem = "u32 \<Rightarrow> u8"

subsection \<open>Arguments\<close>

definition umem_word :: "umem \<Rightarrow> u32 \<Rightarrow> u32" where
  "umem_word m a = word32 [m a, m (a + 1), m (a + 2), m (a + 3)]"

definition fetchint :: "umem \<Rightarrow> u32 \<Rightarrow> u32 \<Rightarrow> u32 option" where
  "fetchint m psz addr = (if addr \<ge> psz \<or> addr + 4 > psz then None else Some (umem_word m addr))"

text \<open>The loop of \<open>fetchstr\<close>: the address of the first zero byte below \<open>ep\<close>.\<close>

function find_nul :: "umem \<Rightarrow> u32 \<Rightarrow> u32 \<Rightarrow> u32 option" where
  "find_nul m s ep = (if s < ep then if m s = 0 then Some s else find_nul m (s + 1) ep else None)"
  by auto
termination
proof (relation "measure (\<lambda>(m, s, ep). unat (ep - s))")
  fix m :: umem and s ep :: u32
  assume lt: "s < ep"
  then have le: "s + 1 \<le> ep" by (rule inc_le)
  have "unat s < unat ep" using lt by (simp add: word_less_nat_alt)
  have "unat (s + 1) = Suc (unat s)" by (rule unat_Suc_below [OF lt])
  then show "((m, s + 1, ep), m, s, ep) \<in> measure (\<lambda>(m, s, ep). unat (ep - s))"
    using lt le \<open>unat s < unat ep\<close> by (simp add: unat_sub order_less_imp_le)
qed simp

declare find_nul.simps [simp del]

definition fetchstr :: "umem \<Rightarrow> u32 \<Rightarrow> u32 \<Rightarrow> (u32 \<times> u32) option" where
  "fetchstr m psz addr =
     (if addr \<ge> psz then None
      else map_option (\<lambda>s. (addr, s - addr)) (find_nul m addr psz))"

definition argint :: "umem \<Rightarrow> u32 \<Rightarrow> u32 \<Rightarrow> u32 \<Rightarrow> u32 option" where
  "argint m psz usp n = fetchint m psz (usp + 4 + 4 * n)"

definition argptr :: "umem \<Rightarrow> u32 \<Rightarrow> u32 \<Rightarrow> u32 \<Rightarrow> u32 \<Rightarrow> u32 option" where
  "argptr m psz usp n len =
     (case argint m psz usp n of None \<Rightarrow> None
      | Some i \<Rightarrow> if i \<ge> psz \<or> i + len > psz then None else Some i)"

definition argstr :: "umem \<Rightarrow> u32 \<Rightarrow> u32 \<Rightarrow> u32 \<Rightarrow> (u32 \<times> u32) option" where
  "argstr m psz usp n =
     (case argint m psz usp n of None \<Rightarrow> None | Some addr \<Rightarrow> fetchstr m psz addr)"

lemma find_nul_Some:
  "find_nul m s ep = Some t \<Longrightarrow> s \<le> t \<and> t < ep \<and> m t = 0 \<and> (\<forall>u. s \<le> u \<longrightarrow> u < t \<longrightarrow> m u \<noteq> 0)"
proof (induction m s ep rule: find_nul.induct)
  case (1 m s ep)
  have lt: "s < ep" using 1(2) by (subst (asm) find_nul.simps) (simp split: if_splits)
  show ?case
  proof (cases "m s = 0")
    case True
    then have "t = s" using 1(2) lt by (simp add: find_nul.simps)
    then show ?thesis using True lt by auto
  next
    case False
    then have r: "find_nul m (s + 1) ep = Some t" using 1(2) lt by (simp add: find_nul.simps [of m s])
    have ih: "s + 1 \<le> t \<and> t < ep \<and> m t = 0 \<and> (\<forall>u. s + 1 \<le> u \<longrightarrow> u < t \<longrightarrow> m u \<noteq> 0)"
      by (rule 1(1) [OF lt False r])
    have "s < s + 1" by (rule less_Suc_below [OF lt])
    then have "s \<le> t" using ih by (meson order_less_imp_le order_trans)
    moreover have "m u \<noteq> 0" if "s \<le> u" "u < t" for u
      using that ih False by (metis inc_le order_le_less)
    ultimately show ?thesis using ih by blast
  qed
qed

text \<open>
  What the kernel may read through an accepted pointer: with sizes that do not wrap, the whole
  range lies inside the process.
\<close>

lemma fetchint_in_range:
  assumes "fetchint m psz addr = Some v" and "psz \<le> 0xFFFFFFF0"
  shows "unat addr + 4 \<le> unat psz"
proof -
  have lt: "addr < psz" "addr + 4 \<le> psz" using assms by (auto simp: fetchint_def not_le split: if_splits)
  then have "unat addr < unat psz" by (simp add: word_less_nat_alt)
  moreover have "unat psz \<le> 0xFFFFFFF0" using assms(2) by (simp add: word_le_nat_alt)
  ultimately have "unat (addr + 4) = unat addr + 4" by (intro unat_add_small [where b = 4, simplified]) simp
  then show ?thesis using lt(2) by (simp add: word_le_nat_alt)
qed

lemma argptr_in_range:
  assumes "argptr m psz usp n len = Some p" and "unat psz + unat len < 2 ^ 32"
  shows "unat p + unat len \<le> unat psz" and "unat p < unat psz"
proof -
  have lt: "p < psz" "p + len \<le> psz" using assms(1) by (auto simp: argptr_def not_le split: if_splits option.splits)
  then show "unat p < unat psz" by (simp add: word_less_nat_alt)
  then have "unat (p + len) = unat p + unat len" using assms(2) by (intro unat_add_small) simp
  then show "unat p + unat len \<le> unat psz" using lt(2) by (simp add: word_le_nat_alt)
qed

lemma argstr_in_range:
  assumes "argstr m psz usp n = Some (p, l)"
  shows "unat p + unat l < unat psz" and "m (p + l) = 0" and "\<And>k. k < l \<Longrightarrow> m (p + k) \<noteq> 0"
proof -
  obtain t where t: "find_nul m p psz = Some t" "l = t - p"
    using assms by (auto simp: argstr_def fetchstr_def split: option.splits if_splits)
  note f = find_nul_Some [OF t(1)]
  have "unat l = unat t - unat p" using f by (simp add: t(2) unat_sub_small)
  then show "unat p + unat l < unat psz" using f by (auto simp: word_less_nat_alt word_le_nat_alt)
  show "m (p + l) = 0" using f by (simp add: t(2))
  show "m (p + k) \<noteq> 0" if k: "k < l" for k
  proof -
    have "unat (p + k) = unat p + unat k"
      using k \<open>unat p + unat l < unat psz\<close> unat_u32_less [of psz]
      by (intro unat_add_small) (simp add: word_less_nat_alt)
    moreover have "unat k < unat t - unat p" using k \<open>unat l = _\<close> by (simp add: word_less_nat_alt)
    ultimately have "p \<le> p + k" "p + k < t" by (simp_all add: word_le_nat_alt word_less_nat_alt)
    then show ?thesis using f by blast
  qed
qed

subsection \<open>Arguments with shared memory pages (project 3)\<close>

text \<open>
  In project 3 a process also owns the shared pages between \<open>shm_sz\<close> and \<open>USERTOP\<close>.
\<close>

definition fetchint3 :: "umem \<Rightarrow> u32 \<Rightarrow> u32 \<Rightarrow> u32 \<Rightarrow> u32 option" where
  "fetchint3 m psz shm_sz addr =
     (let f1 = addr \<ge> psz \<and> addr < shm_sz; f2 = addr \<ge> USERTOP;
          f3 = addr + 4 > psz \<and> addr + 4 \<le> shm_sz; f4 = addr + 4 > USERTOP
      in if f1 \<or> f2 \<or> f3 \<or> f4 then None else Some (umem_word m addr))"

definition fetchstr3 :: "umem \<Rightarrow> u32 \<Rightarrow> u32 \<Rightarrow> u32 \<Rightarrow> (u32 \<times> u32) option" where
  "fetchstr3 m psz shm_sz addr =
     (let f1 = addr \<ge> psz \<and> addr < shm_sz; f2 = addr \<ge> USERTOP in
      if f1 \<or> f2 then None
      else map_option (\<lambda>s. (addr, s - addr)) (find_nul m addr (if addr < psz then psz else USERTOP)))"

definition argptr3_ok :: "u32 \<Rightarrow> u32 \<Rightarrow> u32 \<Rightarrow> u32 \<Rightarrow> bool" where
  "argptr3_ok psz shm_sz v len =
     (let f1 = v \<ge> psz \<and> v < shm_sz; f2 = v \<ge> USERTOP;
          f3 = v + len > psz \<and> v + len \<le> shm_sz; f4 = v + len > USERTOP
      in \<not> (f1 \<or> f2 \<or> f3 \<or> f4))"

definition argptr3 :: "umem \<Rightarrow> u32 \<Rightarrow> u32 \<Rightarrow> u32 \<Rightarrow> u32 \<Rightarrow> u32 \<Rightarrow> u32 option" where
  "argptr3 m psz shm_sz usp n len =
     (case fetchint3 m psz shm_sz (usp + 4 + 4 * n) of None \<Rightarrow> None
      | Some v \<Rightarrow> if argptr3_ok psz shm_sz v len then Some v else None)"

subsection \<open>Dispatch\<close>

text \<open>
  \<open>syscalls\<close> is the table of the handlers, indexed by number; \<open>num\<close> is the signed value of \<open>eax\<close>.
\<close>

definition set_eax :: "nat \<Rightarrow> u32 \<Rightarrow> ('p proc_scheme, 'w) kernel \<Rightarrow> ('p proc_scheme, 'w) kernel" where
  "set_eax me v s = upd_proc me (\<lambda>p. p\<lparr>tf := (tf p)\<lparr>eax := v\<rparr>\<rparr>) s"

definition syscall ::
  "(('p proc_scheme, 'w) kernel \<Rightarrow> kerr + u32 \<times> ('p proc_scheme, 'w) kernel) option list \<Rightarrow> nat
     \<Rightarrow> ('p proc_scheme, 'w) kernel \<Rightarrow> kerr + ('p proc_scheme, 'w) kernel" where
  "syscall syscalls me s =
     (let num = sint (eax (tf (ptable s ! me))) in
      if num > 0 \<and> num < int (length syscalls) then
        case syscalls ! nat num of
          Some h \<Rightarrow> bindE (h s) (\<lambda>(v, t). Inr (set_eax me v t))
        | None \<Rightarrow> Inr (set_eax me (-1) s)
      else Inr (set_eax me (-1) s))"

lemma syscall_bad_number:
  assumes "\<not> (0 < sint (eax (tf (ptable s ! me))) \<and> sint (eax (tf (ptable s ! me))) < int (length syscalls))"
  shows "syscall syscalls me s = Inr (set_eax me (-1) s)"
  unfolding syscall_def Let_def by (rule if_not_P [OF assms])

subsection \<open>sysproc.c\<close>

definition sys_kill :: "u32 option \<Rightarrow> ('p proc_scheme, 'w) kernel \<Rightarrow> int \<times> ('p proc_scheme, 'w) kernel" where
  "sys_kill arg s = (case arg of None \<Rightarrow> (-1, s) | Some n \<Rightarrow> kill (sint n) s)"

definition sys_getpid :: "nat \<Rightarrow> ('p proc_scheme, 'w) kernel \<Rightarrow> int" where
  "sys_getpid me s = pid (ptable s ! me)"

definition sys_sbrk ::
  "'w services \<Rightarrow> u32 option \<Rightarrow> nat \<Rightarrow> ('p proc_scheme, 'w) kernel \<Rightarrow> kerr + int \<times> ('p proc_scheme, 'w) kernel" where
  "sys_sbrk svc arg me s =
     (case arg of None \<Rightarrow> Inr (-1, s)
      | Some n \<Rightarrow> bindE (growproc svc me (sint n) s) (\<lambda>(r, t).
          Inr (if r < 0 then -1 else sint (sz (ptable s ! me)), t)))"

text \<open>
  \<open>sys_sleep\<close> after its argument: the test of the loop with the tick count \<open>ticks\<close>; the process
  goes to sleep on the counter when it is \<open>TickSleep\<close> and repeats the test when it is woken.
\<close>

datatype tick_result = TickRet int | TickSleep

definition sleep_test :: "u32 \<Rightarrow> u32 \<Rightarrow> u32 \<Rightarrow> bool \<Rightarrow> tick_result" where
  "sleep_test ticks ticks0 n k =
     (if ticks - ticks0 < n then if k then TickRet (-1) else TickSleep else TickRet 0)"

text \<open>The wait through the successive tick counts and killed flags the process sees at its tests.\<close>

fun sleep_run :: "u32 \<Rightarrow> u32 \<Rightarrow> (u32 \<times> bool) list \<Rightarrow> (int \<times> u32) option" where
  "sleep_run ticks0 n [] = None"
| "sleep_run ticks0 n ((t, k) # rest) =
     (case sleep_test t ticks0 n k of TickRet r \<Rightarrow> Some (r, t) | TickSleep \<Rightarrow> sleep_run ticks0 n rest)"

definition sys_sleep :: "u32 option \<Rightarrow> u32 \<Rightarrow> (u32 \<times> bool) list \<Rightarrow> int option" where
  "sys_sleep arg ticks0 obs =
     (case arg of None \<Rightarrow> Some (-1) | Some n \<Rightarrow> map_option fst (sleep_run ticks0 n obs))"

lemma sleep_run_elapsed:
  "sleep_run ticks0 n obs = Some (r, t) \<Longrightarrow> r = 0 \<and> n \<le> t - ticks0 \<or> r = -1 \<and> t - ticks0 < n \<and> (t, True) \<in> set obs"
  by (induction ticks0 n obs rule: sleep_run.induct)
    (auto simp: sleep_test_def not_less split: if_splits tick_result.splits)

lemma sleep_run_returns:
  "(t, k) \<in> set obs \<Longrightarrow> n \<le> t - ticks0 \<or> k \<Longrightarrow> \<exists>r u. sleep_run ticks0 n obs = Some (r, u)"
proof (induction obs)
  case (Cons a obs)
  obtain t' k' where a: "a = (t', k')" by fastforce
  show ?case
  proof (cases "sleep_test t' ticks0 n k'")
    case TickSleep
    then have "(t, k) \<in> set obs" using Cons.prems a by (auto simp: sleep_test_def split: if_splits)
    then show ?thesis using Cons TickSleep a by simp
  qed (simp add: a)
qed simp

subsection \<open>Traps\<close>

definition T_SYSCALL :: nat where "T_SYSCALL = 64"
definition T_IRQ0 :: nat where "T_IRQ0 = 32"
definition IRQ_TIMER :: nat where "IRQ_TIMER = 0"
definition IRQ_KBD :: nat where "IRQ_KBD = 1"
definition IRQ_COM1 :: nat where "IRQ_COM1 = 4"
definition IRQ_IDE :: nat where "IRQ_IDE = 14"
definition IRQ_SPURIOUS :: nat where "IRQ_SPURIOUS = 31"

text \<open>
  What a trap needs from the rest of the kernel: the clock tick of the first processor, the
  interrupt routines of the devices, the system call, and the time between \<open>yield\<close> and the next
  run of the process.
\<close>

record ('p, 'w) trap_env =
  tick :: "('p, 'w) kernel \<Rightarrow> ('p, 'w) kernel"
  ideintr :: "('p, 'w) kernel \<Rightarrow> ('p, 'w) kernel"
  kbdintr :: "('p, 'w) kernel \<Rightarrow> ('p, 'w) kernel"
  uartintr :: "('p, 'w) kernel \<Rightarrow> ('p, 'w) kernel"
  do_syscall :: "nat \<Rightarrow> ('p, 'w) kernel \<Rightarrow> kerr + ('p, 'w) kernel"
  resume :: "nat \<Rightarrow> ('p, 'w) kernel \<Rightarrow> ('p, 'w) kernel"

text \<open>A trap returns to the interrupted code, or the process exits.\<close>

datatype 's trap_end = Back 's | Exits 's

definition killed_user :: "bool \<Rightarrow> nat option \<Rightarrow> ('p proc_scheme, 'w) kernel \<Rightarrow> bool" where
  "killed_user user me s = (case me of None \<Rightarrow> False | Some i \<Rightarrow> killed (ptable s ! i) \<and> user)"

definition trap_irq ::
  "('p proc_scheme, 'w) trap_env \<Rightarrow> bool \<Rightarrow> nat \<Rightarrow> bool \<Rightarrow> nat option \<Rightarrow> ('p proc_scheme, 'w) kernel
     \<Rightarrow> kerr + ('p proc_scheme, 'w) kernel" where
  "trap_irq env cpu0 trapno user me s =
     (if trapno = T_IRQ0 + IRQ_TIMER then Inr (if cpu0 then wakeup TicksChan (tick env s) else s)
      else if trapno = T_IRQ0 + IRQ_IDE then Inr (ideintr env s)
      else if trapno = T_IRQ0 + IRQ_IDE + 1 then Inr s
      else if trapno = T_IRQ0 + IRQ_KBD then Inr (kbdintr env s)
      else if trapno = T_IRQ0 + IRQ_COM1 then Inr (uartintr env s)
      else if trapno = T_IRQ0 + 7 \<or> trapno = T_IRQ0 + IRQ_SPURIOUS then Inr s
      else (case me of
          None \<Rightarrow> Inl (Panic ''trap'')
        | Some i \<Rightarrow> if \<not> user then Inl (Panic ''trap'')
                    else Inr (upd_proc i (\<lambda>p. p\<lparr>killed := True\<rparr>) s)))"

definition trap ::
  "('p proc_scheme, 'w) trap_env \<Rightarrow> bool \<Rightarrow> nat \<Rightarrow> bool \<Rightarrow> nat option \<Rightarrow> ('p proc_scheme, 'w) kernel
     \<Rightarrow> kerr + ('p proc_scheme, 'w) kernel trap_end" where
  "trap env cpu0 trapno user me s =
     (if trapno = T_SYSCALL then
        (case me of None \<Rightarrow> Inl (Panic ''trap'')
         | Some i \<Rightarrow>
             if killed (ptable s ! i) then Inr (Exits s)
             else bindE (do_syscall env i s) (\<lambda>t.
                    Inr (if killed (ptable t ! i) then Exits t else Back t)))
      else
        bindE (trap_irq env cpu0 trapno user me s) (\<lambda>s1.
          if killed_user user me s1 then Inr (Exits s1)
          else
            let s2 = (case me of None \<Rightarrow> s1
                      | Some i \<Rightarrow> if state (ptable s1 ! i) = RUNNING \<and> trapno = T_IRQ0 + IRQ_TIMER
                                  then resume env i (yield i s1) else s1)
            in Inr (if killed_user user me s2 then Exits s2 else Back s2)))"

text \<open>A killed process never gets back to user code.\<close>

lemma trap_back_not_killed:
  assumes "trap env cpu0 trapno True (Some i) s = Inr (Back t)"
  shows "\<not> killed (ptable t ! i)"
  using assms
  by (auto simp: trap_def killed_user_def Let_def bindE_eq_Inr_iff split: if_splits)

text \<open>The kernel panics on a trap that it does not expect, and only then kills nobody.\<close>

lemma trap_unexpected:
  assumes "trapno \<notin> {T_SYSCALL, T_IRQ0, T_IRQ0 + IRQ_IDE, T_IRQ0 + IRQ_IDE + 1, T_IRQ0 + IRQ_KBD,
      T_IRQ0 + IRQ_COM1, T_IRQ0 + 7, T_IRQ0 + IRQ_SPURIOUS}" and "i < length (ptable s)"
  shows "trap env cpu0 trapno False me s = Inl (Panic ''trap'')"
    and "trap env cpu0 trapno True (Some i) s = Inr (Exits (upd_proc i (\<lambda>p. p\<lparr>killed := True\<rparr>) s))"
  using assms by (auto simp: trap_def trap_irq_def killed_user_def IRQ_TIMER_def upd_proc_nth split: option.splits)

subsection \<open>Properties\<close>

text \<open>C38: What a system call may touch through its arguments lies inside the process: a string from
  \<open>argstr\<close> with its terminating zero (and the zero is the first one), and a block from \<open>argptr\<close>
  whose size does not wrap around the address space.\<close>

theorem syscall_arguments_in_bounds:
  "(\<forall>p l. argstr m psz usp n = Some (p, l) \<longrightarrow> unat p + unat l < unat psz \<and> m (p + l) = 0 \<and> (\<forall>k < l. m (p + k) \<noteq> 0))
   \<and> (\<forall>q len. argptr m psz usp n len = Some q \<longrightarrow> unat psz + unat len < 2 ^ 32
        \<longrightarrow> unat q + unat len \<le> unat psz \<and> unat q < unat psz)"
  using argstr_in_range [of m psz usp n] argptr_in_range [of m psz usp n] by simp

theorem syscall_arguments_in_bounds_witness:
  "argptr (\<lambda>a. 0) 4096 0 0 16 = Some 0 \<and> unat (0::u32) + unat (16::u32) \<le> unat (4096::u32)"
proof -
  have "argptr (\<lambda>a. 0) 4096 0 0 16 = Some 0"
    by (simp add: argptr_def argint_def fetchint_def umem_word_def word32_def)
  from this syscall_arguments_in_bounds [of "\<lambda>a. 0" 4096 0 0] show ?thesis by simp
qed

text \<open>In project 3 \<open>argptr\<close> accepts a block that starts below the heap limit and ends above the start of
  the shared pages, although all of the unmapped region between the two lies inside it.\<close>

theorem argptr3_accepts_the_hole:
  assumes "v < psz" and "psz < shm" and "shm < v + len" and "v + len \<le> USERTOP"
    and "fetchint3 m psz shm (usp + 4 + 4 * n) = Some v"
  shows "argptr3 m psz shm usp n len = Some v \<and> (\<forall>a. psz \<le> a \<and> a < shm \<longrightarrow> v \<le> a \<and> a < v + len)"
proof (rule conjI)
  have "v < USERTOP" using assms(1-4) by (meson order.strict_trans order.strict_trans1 order.strict_trans2 order_less_le_trans)
  then show "argptr3 m psz shm usp n len = Some v"
    using assms by (auto simp: argptr3_def argptr3_ok_def not_less not_le)
  show "\<forall>a. psz \<le> a \<and> a < shm \<longrightarrow> v \<le> a \<and> a < v + len"
    using assms by (meson order.strict_trans order_less_imp_le order_less_le_trans)
qed

theorem argptr3_accepts_the_hole_witness:
  "argptr3 (\<lambda>a. 0) 0x5000 0x9C000 0 0 0x9D000 = Some 0"
  by (rule argptr3_accepts_the_hole [THEN conjunct1])
    (simp_all add: USERTOP_def fetchint3_def umem_word_def word32_def)

text \<open>\<open>sleep(n)\<close> returns 0 only after \<open>n\<close> ticks (counted modulo \<open>2^32\<close>) and -1 only when the process was
  killed before that; it does return once it is scheduled with either of them true.\<close>

theorem sleep_exact:
  "(\<forall>r. sys_sleep (Some n) t0 obs = Some r \<longrightarrow> (\<exists>(t, k) \<in> set obs. r = 0 \<and> n \<le> t - t0 \<or> r = -1 \<and> k \<and> t - t0 < n))
   \<and> (\<forall>(t, k) \<in> set obs. n \<le> t - t0 \<or> k \<longrightarrow> (\<exists>r. sys_sleep (Some n) t0 obs = Some r))"
proof (intro conjI)
  have m: "sleep_run t0 n obs = Some (r, u) \<Longrightarrow> \<exists>k. (u, k) \<in> set obs" for r u
    by (induction t0 n obs rule: sleep_run.induct) (auto split: tick_result.splits)
  show "\<forall>r. sys_sleep (Some n) t0 obs = Some r \<longrightarrow> (\<exists>(t, k) \<in> set obs. r = 0 \<and> n \<le> t - t0 \<or> r = -1 \<and> k \<and> t - t0 < n)"
    using sleep_run_elapsed [of t0 n obs] m by (fastforce simp: sys_sleep_def)
  show "\<forall>(t, k) \<in> set obs. n \<le> t - t0 \<or> k \<longrightarrow> (\<exists>r. sys_sleep (Some n) t0 obs = Some r)"
    using sleep_run_returns [of _ _ obs n t0] by (fastforce simp: sys_sleep_def)
qed

theorem sleep_exact_witness: "\<exists>r. sys_sleep (Some 5) 0xFFFFFFFE [(0, False), (3, False)] = Some r"
  using sleep_exact [of 5 "0xFFFFFFFE" "[(0, False), (3, False)]"] by simp

text \<open>A process that has been killed never gets back to user code: no trap taken from user mode returns
  to a process whose \<open>killed\<close> flag is set; and an unexpected trap kills the user process that caused it
  but panics when the kernel caused it.\<close>

theorem trap_stops_killed:
  assumes "i < length (ptable s)"
  shows "(\<forall>t. trap env cpu0 trapno True (Some i) s = Inr (Back t) \<longrightarrow> \<not> killed (ptable t ! i))
   \<and> (trapno \<notin> {T_SYSCALL, T_IRQ0, T_IRQ0 + IRQ_IDE, T_IRQ0 + IRQ_IDE + 1, T_IRQ0 + IRQ_KBD,
         T_IRQ0 + IRQ_COM1, T_IRQ0 + 7, T_IRQ0 + IRQ_SPURIOUS} \<longrightarrow>
       trap env cpu0 trapno False me s = Inl (Panic ''trap'')
       \<and> trap env cpu0 trapno True (Some i) s = Inr (Exits (upd_proc i (\<lambda>p. p\<lparr>killed := True\<rparr>) s)))"
  using assms trap_back_not_killed [of env cpu0 trapno i s] trap_unexpected [of trapno i s env cpu0] by simp

theorem trap_stops_killed_witness:
  "trap (\<lparr>tick = id, ideintr = id, kbdintr = id, uartintr = id, do_syscall = (\<lambda>i. Inr), resume = (\<lambda>i. id)\<rparr>)
     True 14 False None init_table = Inl (Panic ''trap'')"
  using trap_stops_killed [where trapno = 14 and i = 0 and s = init_table] init_table_inv kernel_inv_length [of True init_table]
  by (simp add: T_SYSCALL_def T_IRQ0_def IRQ_IDE_def IRQ_KBD_def IRQ_COM1_def IRQ_SPURIOUS_def NPROC_def)

text \<open>\<open>syscall\<close> calls the handler of a number that has one and stores its result in the caller's \<open>eax\<close>;
  for any other number, negative or too large ones and gaps of the table included, it stores -1 and
  changes nothing else.\<close>

theorem syscall_dispatches:
  assumes "me < length (ptable s)" and "num = sint (eax (tf (ptable s ! me)))"
  shows "0 < num \<Longrightarrow> num < int (length syscalls) \<Longrightarrow> syscalls ! nat num = Some h \<Longrightarrow> h s = Inr (v, t)
      \<Longrightarrow> syscall syscalls me s = Inr (set_eax me v t)"
    and "num \<le> 0 \<or> int (length syscalls) \<le> num \<or> syscalls ! nat num = None
      \<Longrightarrow> syscall syscalls me s = Inr (set_eax me (-1) s) \<and> eax (tf (ptable (set_eax me (-1) s) ! me)) = -1"
proof -
  show "0 < num \<Longrightarrow> num < int (length syscalls) \<Longrightarrow> syscalls ! nat num = Some h \<Longrightarrow> h s = Inr (v, t)
      \<Longrightarrow> syscall syscalls me s = Inr (set_eax me v t)"
    unfolding assms(2) by (simp add: syscall_def Let_def)
  have "eax (tf (ptable (set_eax me (-1) s) ! me)) = -1" using assms(1) by (simp add: set_eax_def upd_proc_nth)
  then show "num \<le> 0 \<or> int (length syscalls) \<le> num \<or> syscalls ! nat num = None
      \<Longrightarrow> syscall syscalls me s = Inr (set_eax me (-1) s) \<and> eax (tf (ptable (set_eax me (-1) s) ! me)) = -1"
    unfolding assms(2) by (auto simp: syscall_def Let_def)
qed

theorem syscall_dispatches_witness:
  "syscall [None, None] 0 init_table = Inr (set_eax 0 (-1) init_table)"
  using syscall_dispatches(2) [of 0 init_table _ "[None, None]"] init_table_inv kernel_inv_length [of True init_table]
  by (simp add: single_entries NPROC_def NULL_proc_def NULL_tf_def)

end
