(* ===== verification/Shell.thy ===== *)
theory Shell
  imports Prelude
begin

text \<open>
  The shell, \<open>user/sh.c\<close>: the tokenizer, the recursive-descent parser, \<open>nulterminate\<close> and the
  process script of \<open>runcmd\<close>. The parser works on the rest of the line; a pointer into the line
  buffer is the number of characters from it to the end \<open>es\<close>. \<open>panic\<close> is an error value. The
  four mutually recursive functions of the parser take fuel; \<open>parse_fuel\<close> is always enough.
\<close>

type_synonym tok = "nat \<times> nat"

datatype cmd =
    Exec "tok list"
  | Redir cmd tok nat nat
  | Pipe cmd cmd
  | Seq cmd cmd
  | Back cmd

datatype perr = Syntax string | NoFuel

definition MAXARGS :: nat where "MAXARGS = 10"
definition O_RDONLY :: nat where "O_RDONLY = 0"
definition O_WRONLY_CREATE :: nat where "O_WRONLY_CREATE = 0x201"

definition whitespace :: string where
  "whitespace = [CHR '' '', CHR 0x09, CHR 0x0D, CHR 0x0A, CHR 0x0B]"

definition symbols :: string where "symbols = ''<|>&;()''"

definition is_ws :: "char \<Rightarrow> bool" where "is_ws c = (c \<in> set whitespace)"

definition is_word :: "char \<Rightarrow> bool" where "is_word c = (c \<notin> set whitespace \<and> c \<notin> set symbols)"

subsection \<open>Tokens\<close>

datatype token = TEnd | TWord | TSym char | TAppend

text \<open>\<open>gettoken r\<close>: the kind, \<open>q\<close>, \<open>eq\<close> and the new rest of the line.\<close>

definition skip_ws :: "string \<Rightarrow> string" where "skip_ws r = dropWhile is_ws r"

definition scan_token :: "string \<Rightarrow> token \<times> string" where
  "scan_token s =
     (case s of
        [] \<Rightarrow> (TEnd, s)
      | c # s1 \<Rightarrow>
          if c \<in> set ''|();&<'' then (TSym c, s1)
          else if c = CHR ''>'' then
            (case s1 of [] \<Rightarrow> (TSym c, s1)
             | d # s2 \<Rightarrow> if d = CHR ''>'' then (TAppend, s2) else (TSym c, s1))
          else (TWord, dropWhile is_word s))"

definition gettoken :: "string \<Rightarrow> token \<times> tok \<times> string" where
  "gettoken r =
     (let s = skip_ws r; (k, e) = scan_token s in (k, (length s, length e), skip_ws e))"

definition peek :: "string \<Rightarrow> string \<Rightarrow> bool" where
  "peek toks r = (case skip_ws r of [] \<Rightarrow> False | c # _ \<Rightarrow> c \<in> set toks)"

lemma length_skip_ws: "length (skip_ws r) \<le> length r"
  by (simp add: skip_ws_def length_dropWhile_le)

lemma length_scan_token: "scan_token s = (k, e) \<Longrightarrow> length e \<le> length s"
  by (auto simp: scan_token_def length_dropWhile_le le_SucI split: list.splits if_splits)

lemma length_scan_token_less: "scan_token s = (k, e) \<Longrightarrow> s \<noteq> [] \<Longrightarrow> \<not> is_ws (hd s) \<Longrightarrow> length e < length s"
  by (auto simp: scan_token_def length_dropWhile_le le_imp_less_Suc le_SucI is_word_def is_ws_def symbols_def
      split: list.splits if_splits)

lemma hd_skip_ws: "skip_ws r \<noteq> [] \<Longrightarrow> \<not> is_ws (hd (skip_ws r))"
  by (simp add: skip_ws_def hd_dropWhile)

lemma length_gettoken:
  assumes "gettoken r = (k, t, r')"
  shows "length r' \<le> length r" and "k \<noteq> TEnd \<Longrightarrow> length r' < length r" and "peek toks r \<Longrightarrow> length r' < length r"
proof -
  obtain e where e: "scan_token (skip_ws r) = (k, e)" and r': "r' = skip_ws e"
    using assms by (auto simp: gettoken_def Let_def split: prod.splits)
  have le: "length r' \<le> length e" using length_skip_ws r' by simp
  show "length r' \<le> length r" using le length_scan_token [OF e] length_skip_ws [of r] by simp
  have less: "length r' < length r" if "skip_ws r \<noteq> []"
    using le length_scan_token_less [OF e that hd_skip_ws [OF that]] length_skip_ws [of r] by simp
  show "k \<noteq> TEnd \<Longrightarrow> length r' < length r" using less e by (cases "skip_ws r") (auto simp: scan_token_def)
  show "peek toks r \<Longrightarrow> length r' < length r" using less by (cases "skip_ws r") (auto simp: peek_def)
qed

abbreviation rest :: "string \<Rightarrow> string" where
  "rest r \<equiv> snd (snd (gettoken r))"

lemma length_rest:
  "length (rest r) \<le> length r" "fst (gettoken r) \<noteq> TEnd \<Longrightarrow> length (rest r) < length r"
  "peek toks r \<Longrightarrow> length (rest r) < length r"
  using length_gettoken [of r "fst (gettoken r)" "fst (snd (gettoken r))" "rest r"] by simp_all

subsection \<open>Redirections\<close>

definition redir_of :: "token \<Rightarrow> tok \<Rightarrow> cmd \<Rightarrow> cmd" where
  "redir_of k t c =
     (if k = TSym (CHR ''<'') then Redir c t O_RDONLY 0
      else if k = TSym (CHR ''>'') \<or> k = TAppend then Redir c t O_WRONLY_CREATE 1 else c)"

text \<open>
  The loop of \<open>parseredirs\<close>, which returns what it wraps around a command, outermost last.
\<close>

function parseredirs :: "string \<Rightarrow> perr + (token \<times> tok) list \<times> string" where
  "parseredirs r =
     (if peek ''<>'' r then
        (if fst (gettoken (rest r)) \<noteq> TWord then Inl (Syntax ''missing file for redirection'')
         else bindE (parseredirs (rest (rest r))) (\<lambda>(rs, r'). Inr ((fst (gettoken r), fst (snd (gettoken (rest r)))) # rs, r')))
      else Inr ([], skip_ws r))"
  by auto
termination
proof (relation "measure length")
  fix r
  assume "peek ''<>'' r"
  then show "(rest (rest r), r) \<in> measure length"
    using length_rest(3) [of "''<>''" r] length_rest(1) [of "rest r"] by simp
qed simp

declare parseredirs.simps [simp del]

definition wrap :: "(token \<times> tok) list \<Rightarrow> cmd \<Rightarrow> cmd" where
  "wrap rs c = foldl (\<lambda>c (k, t). redir_of k t c) c rs"

lemma parseredirs_length: "parseredirs r = Inr (rs, r') \<Longrightarrow> length r' \<le> length r"
proof (induction r arbitrary: rs r' rule: parseredirs.induct)
  case (1 r)
  show ?case
  proof (cases "peek ''<>'' r")
    case False
    then show ?thesis using 1(2) length_skip_ws by (auto simp: parseredirs.simps [of r])
  next
    case True
    then obtain rs1 where w: "fst (gettoken (rest r)) = TWord" and p: "parseredirs (rest (rest r)) = Inr (rs1, r')"
      using 1(2) by (auto simp: parseredirs.simps [of r] bindE_eq_Inr_iff split: if_splits)
    have "length r' \<le> length (rest (rest r))" using 1(1) [OF True] p w by simp
    then show ?thesis using length_rest(1) [of r] length_rest(1) [of "rest r"] by simp
  qed
qed

subsection \<open>Simple commands\<close>

text \<open>The loop of \<open>parseexec\<close> with \<open>argc\<close> arguments so far.\<close>

function parseargs :: "nat \<Rightarrow> string \<Rightarrow> perr + tok list \<times> (token \<times> tok) list \<times> string" where
  "parseargs argc r =
     (if peek ''|)&;'' r then Inr ([], [], skip_ws r)
      else if fst (gettoken (skip_ws r)) = TEnd then Inr ([], [], rest (skip_ws r))
      else if fst (gettoken (skip_ws r)) \<noteq> TWord then Inl (Syntax ''syntax'')
      else if argc + 1 \<ge> MAXARGS then Inl (Syntax ''too many args'')
      else (case parseredirs (rest (skip_ws r)) of
              Inl e \<Rightarrow> Inl e
            | Inr (rs, r1) \<Rightarrow>
                if length r1 < length r then
                  bindE (parseargs (argc + 1) r1) (\<lambda>(ts, rs', r').
                    Inr (fst (snd (gettoken (skip_ws r))) # ts, rs @ rs', r'))
                else Inl NoFuel))"
  by pat_completeness auto
termination by (relation "measure (\<lambda>(argc, r). length r)") auto

declare parseargs.simps [simp del]

text \<open>The last alternative is there for the recursion only and is never taken.\<close>

lemma parseargs_progress:
  assumes "fst (gettoken (skip_ws r)) = TWord" and "parseredirs (rest (skip_ws r)) = Inr (rs, r1)"
  shows "length r1 < length r"
  using parseredirs_length [OF assms(2)] length_rest(2) [of "skip_ws r"] length_skip_ws [of r] assms(1) by simp

subsection \<open>The recursive parser\<close>

function backs :: "cmd \<Rightarrow> string \<Rightarrow> cmd \<times> string" where
  "backs c r = (if peek ''&'' r then backs (Back c) (rest r) else (c, skip_ws r))"
  by auto
termination
proof (relation "measure (\<lambda>(c, r). length r)")
  fix c r
  assume "peek ''&'' r"
  then show "((Back c, rest r), c, r) \<in> measure (\<lambda>(c, r). length r)"
    using length_rest(3) [of "''&''" r] by simp
qed simp

declare backs.simps [simp del]

fun parseline :: "nat \<Rightarrow> string \<Rightarrow> perr + cmd \<times> string"
  and parsepipe :: "nat \<Rightarrow> string \<Rightarrow> perr + cmd \<times> string"
  and parseexec :: "nat \<Rightarrow> string \<Rightarrow> perr + cmd \<times> string"
  and parseblock :: "nat \<Rightarrow> string \<Rightarrow> perr + cmd \<times> string" where
  "parseline 0 r = Inl NoFuel"
| "parseline (Suc n) r =
     bindE (parsepipe n r) (\<lambda>(c0, r0).
       (if peek '';'' (snd (backs c0 r0)) then
          bindE (parseline n (rest (snd (backs c0 r0)))) (\<lambda>(d, r'). Inr (Seq (fst (backs c0 r0)) d, r'))
        else Inr (fst (backs c0 r0), skip_ws (snd (backs c0 r0)))))"
| "parsepipe 0 r = Inl NoFuel"
| "parsepipe (Suc n) r =
     bindE (parseexec n r) (\<lambda>(c, r1).
       if peek ''|'' r1 then bindE (parsepipe n (rest r1)) (\<lambda>(d, r'). Inr (Pipe c d, r'))
       else Inr (c, skip_ws r1))"
| "parseexec 0 r = Inl NoFuel"
| "parseexec (Suc n) r =
     (if peek ''('' r then parseblock n (skip_ws r)
      else bindE (parseredirs r) (\<lambda>(rs, r1).
             bindE (parseargs 0 r1) (\<lambda>(ts, rs', r').
               Inr (wrap (rs @ rs') (Exec ts), r'))))"
| "parseblock 0 r = Inl NoFuel"
| "parseblock (Suc n) r =
     (if \<not> peek ''('' r then Inl (Syntax ''parseblock'')
      else bindE (parseline n (rest r)) (\<lambda>(c, r1).
             if \<not> peek '')'' r1 then Inl (Syntax ''syntax - missing )'')
             else bindE (parseredirs (rest r1)) (\<lambda>(rs, r'). Inr (wrap rs c, r'))))"

definition parse_fuel :: "string \<Rightarrow> nat" where
  "parse_fuel s = 4 * length s + 4"

definition parsecmd :: "string \<Rightarrow> perr + cmd" where
  "parsecmd s =
     bindE (parseline (parse_fuel s) s) (\<lambda>(c, r).
       if skip_ws r \<noteq> [] then Inl (Syntax ''syntax'') else Inr c)"

subsection \<open>The parser returns\<close>

lemma parseargs_length: "parseargs a r = Inr (ts, rs, r') \<Longrightarrow> length r' \<le> length r"
proof (induction a r arbitrary: ts rs r' rule: parseargs.induct)
  case (1 a r)
  show ?case
    using 1(2) length_skip_ws [of r] length_rest(1) [of "skip_ws r"]
    by (subst (asm) parseargs.simps)
      (auto simp: bindE_eq_Inr_iff split: if_splits sum.splits prod.splits dest!: 1(1))
qed

lemma parseargs_no_fuel: "parseargs a r \<noteq> Inl NoFuel"
proof (induction a r rule: parseargs.induct)
  case (1 a r)
  have "parseredirs r \<noteq> Inl NoFuel" for r
    by (induction r rule: parseredirs.induct)
      (subst parseredirs.simps, auto simp: bindE_eq_Inl_iff)
  then show ?case
    using 1 parseargs_progress
    by (subst parseargs.simps) (auto simp: bindE_eq_Inl_iff split: sum.splits)
qed

lemma skip_ws_idem [simp]: "skip_ws (skip_ws r) = skip_ws r"
  using hd_skip_ws [of r] by (simp add: skip_ws_def dropWhile_eq_self_iff)

lemma peek_skip_ws [simp]: "peek toks (skip_ws r) = peek toks r"
  by (simp add: peek_def)

lemma parseredirs_no_fuel: "parseredirs r \<noteq> Inl NoFuel"
  by (induction r rule: parseredirs.induct) (subst parseredirs.simps, auto simp: bindE_eq_Inl_iff)

lemma backs_length: "length (snd (backs c r)) \<le> length r"
proof (induction c r rule: backs.induct)
  case (1 c r)
  show ?case
  proof (cases "peek ''&'' r")
    case True
    then show ?thesis using 1 length_rest(1) [of r] by (subst backs.simps) simp
  qed (subst backs.simps, simp add: length_skip_ws)
qed

lemma parse_length:
  "\<And>c r'. parseline n r = Inr (c, r') \<Longrightarrow> length r' \<le> length r"
  "\<And>c r'. parsepipe n r = Inr (c, r') \<Longrightarrow> length r' \<le> length r"
  "\<And>c r'. parseexec n r = Inr (c, r') \<Longrightarrow> length r' \<le> length r"
  "\<And>c r'. parseblock n r = Inr (c, r') \<Longrightarrow> length r' \<le> length r"
proof (induction n r and n r and n r and n r rule: parseline_parsepipe_parseexec_parseblock.induct)
  case (2 n r)
  obtain c0 r0 where p: "parsepipe n r = Inr (c0, r0)" using 2(3) by (auto simp: bindE_eq_Inr_iff)
  have a: "length r0 \<le> length r" using 2(1) p by blast
  define b where "b = snd (backs c0 r0)"
  have b: "length b \<le> length r0" unfolding b_def by (rule backs_length)
  show ?case
  proof (cases "peek '';'' b")
    case True
    then obtain d where d: "parseline n (rest b) = Inr (d, r')"
      using 2(3) p by (auto simp: bindE_eq_Inr_iff b_def)
    have "length r' \<le> length (rest b)" using 2(2) [OF p refl] True d unfolding b_def by simp
    then show ?thesis using a b length_rest(1) [of b] by simp
  next
    case False
    then have "r' = skip_ws b" using 2(3) p by (auto simp: b_def)
    then show ?thesis using a b length_skip_ws [of b] by simp
  qed
next
  case (4 n r)
  obtain c0 r0 where p: "parseexec n r = Inr (c0, r0)" using 4(3) by (auto simp: bindE_eq_Inr_iff)
  have a: "length r0 \<le> length r" using 4(1) p by blast
  show ?case
  proof (cases "peek ''|'' r0")
    case True
    then obtain d where d: "parsepipe n (rest r0) = Inr (d, r')" using 4(3) p by (auto simp: bindE_eq_Inr_iff)
    have "length r' \<le> length (rest r0)" using 4(2) [OF p refl] True d by simp
    then show ?thesis using a length_rest(1) [of r0] by simp
  next
    case False
    then have "r' = skip_ws r0" using 4(3) p by auto
    then show ?thesis using a length_skip_ws [of r0] by simp
  qed
next
  case (6 n r)
  show ?case
  proof (cases "peek ''('' r")
    case True
    then have "length r' \<le> length (skip_ws r)" using 6 by simp
    then show ?thesis using length_skip_ws [of r] by simp
  next
    case False
    then obtain rs r1 ts rs' where "parseredirs r = Inr (rs, r1)" "parseargs 0 r1 = Inr (ts, rs', r')"
      using 6(2) by (auto simp: bindE_eq_Inr_iff)
    then show ?thesis using parseredirs_length parseargs_length by fastforce
  qed
next
  case (8 n r)
  then obtain c1 r1 rs where b: "parseline n (rest r) = Inr (c1, r1)" "parseredirs (rest r1) = Inr (rs, r')"
      and pk: "peek ''('' r"
    by (auto simp: bindE_eq_Inr_iff split: if_splits)
  have "length r1 \<le> length (rest r)" using 8(1) pk b(1) by blast
  then show ?case using parseredirs_length [OF b(2)] length_rest(1) [of r1] length_rest(1) [of r] by simp
qed simp_all

lemma parse_enough_fuel:
  "4 * length r + 4 \<le> n \<Longrightarrow> parseline n r \<noteq> Inl NoFuel"
  "4 * length r + 3 \<le> n \<Longrightarrow> parsepipe n r \<noteq> Inl NoFuel"
  "4 * length r + 2 \<le> n \<Longrightarrow> parseexec n r \<noteq> Inl NoFuel"
  "peek ''('' r \<Longrightarrow> 4 * length r + 1 \<le> n \<Longrightarrow> parseblock n r \<noteq> Inl NoFuel"
proof (induction n r and n r and n r and n r rule: parseline_parsepipe_parseexec_parseblock.induct)
  case (2 n r)
  have a: "parsepipe n r \<noteq> Inl NoFuel" using 2(1) 2(3) by simp
  show ?case
  proof
    assume "parseline (Suc n) r = Inl NoFuel"
    then obtain c0 r0 where p: "parsepipe n r = Inr (c0, r0)" and s: "peek '';'' (snd (backs c0 r0))"
        and l: "parseline n (rest (snd (backs c0 r0))) = Inl NoFuel"
      using a by (auto simp: bindE_eq_Inl_iff split: if_splits)
    have "length (rest (snd (backs c0 r0))) < length r"
      using length_rest(3) [OF s] backs_length [of c0 r0] parse_length(2) [OF p] by simp
    then show False using 2(2) [OF p refl] s l 2(3) by simp
  qed
next
  case (4 n r)
  have a: "parseexec n r \<noteq> Inl NoFuel" using 4(1) 4(3) by simp
  show ?case
  proof
    assume "parsepipe (Suc n) r = Inl NoFuel"
    then obtain c0 r0 where p: "parseexec n r = Inr (c0, r0)" and s: "peek ''|'' r0"
        and l: "parsepipe n (rest r0) = Inl NoFuel"
      using a by (auto simp: bindE_eq_Inl_iff split: if_splits)
    have "length (rest r0) < length r"
      using length_rest(3) [OF s] parse_length(3) [OF p] by simp
    then show False using 4(2) [OF p refl] s l 4(3) by simp
  qed
next
  case (6 n r)
  show ?case
  proof (cases "peek ''('' r")
    case True
    then show ?thesis using 6 length_skip_ws [of r] by simp
  next
    case False
    then show ?thesis using parseredirs_no_fuel [of r] parseargs_no_fuel by (auto simp: bindE_eq_Inl_iff)
  qed
next
  case (8 n r)
  have lt: "length (rest r) < length r" using length_rest(3) [OF 8(2)] .
  then have "parseline n (rest r) \<noteq> Inl NoFuel" using 8(1,2,3) by simp
  then show ?case using parseredirs_no_fuel 8(2) by (auto simp: bindE_eq_Inl_iff split: if_splits)
qed simp_all

text \<open>The parser ends with a command or with one of its panics, on every line.\<close>

lemma parsecmd_returns: "parsecmd s \<noteq> Inl NoFuel"
  using parse_enough_fuel(1) [of s "parse_fuel s"]
  by (auto simp: parsecmd_def parse_fuel_def bindE_eq_Inl_iff split: if_splits)

subsection \<open>nulterminate\<close>

text \<open>
  The tokens of a command in the order of \<open>nulterminate\<close>, and the buffer (text and final zero
  byte, characters as codes) after it has written a zero at the end of each.
\<close>

fun toks :: "cmd \<Rightarrow> tok list" where
  "toks (Exec ts) = ts"
| "toks (Redir c t m f) = toks c @ [t]"
| "toks (Pipe c d) = toks c @ toks d"
| "toks (Seq c d) = toks c @ toks d"
| "toks (Back c) = toks c"

fun nulterminate :: "cmd \<Rightarrow> string \<Rightarrow> string" where
  "nulterminate (Exec ts) buf = foldl (\<lambda>b (q, e). b[length buf - 1 - e := CHR 0x00]) buf ts"
| "nulterminate (Redir c (q, e) m f) buf = (nulterminate c buf)[length buf - 1 - e := CHR 0x00]"
| "nulterminate (Pipe c d) buf = nulterminate d (nulterminate c buf)"
| "nulterminate (Seq c d) buf = nulterminate d (nulterminate c buf)"
| "nulterminate (Back c) buf = nulterminate c buf"

text \<open>The string a pointer with \<open>q\<close> characters to the end denotes: up to the first zero.\<close>

definition c_string :: "string \<Rightarrow> nat \<Rightarrow> string" where
  "c_string buf q = takeWhile (\<lambda>c. c \<noteq> CHR 0x00) (drop (length buf - 1 - q) buf)"

definition token_text :: "string \<Rightarrow> tok \<Rightarrow> string" where
  "token_text s t = take (fst t - snd t) (drop (length s - fst t) s)"

text \<open>
  The words of a text, whatever the parser does: the longest runs of characters that are neither white space nor symbols, each with
  something else or the edge of the text on both sides.
\<close>

definition is_run :: "string \<Rightarrow> tok \<Rightarrow> bool" where
  "is_run s t = (\<exists>a w b. s = a @ w @ b \<and> t = (length (w @ b), length b) \<and> w \<noteq> [] \<and> list_all is_word w
     \<and> (a = [] \<or> \<not> is_word (last a)) \<and> (b = [] \<or> \<not> is_word (hd b)))"

definition word_runs :: "string \<Rightarrow> tok set" where
  "word_runs s = {t. is_run s t}"

lemma word_runs_Nil [simp]: "word_runs [] = {}"
  by (simp add: word_runs_def is_run_def)

lemma word_runs_other:
  assumes "\<not> is_word c"
  shows "word_runs (c # s) = word_runs s"
proof -
  have "is_run (c # s) t = is_run s t" for t
  proof
    assume "is_run (c # s) t"
    then obtain a w b where r: "c # s = a @ w @ b" "t = (length (w @ b), length b)" "w \<noteq> []" "list_all is_word w"
        "a = [] \<or> \<not> is_word (last a)" "b = [] \<or> \<not> is_word (hd b)" unfolding is_run_def by blast
    have "a \<noteq> []" using r(1,3,4) assms by (cases w) auto
    then obtain a1 where "a = c # a1" using r(1) by (cases a) auto
    then show "is_run s t" unfolding is_run_def using r by (intro exI [of _ a1] exI [of _ w] exI [of _ b]) (auto split: if_splits)
  next
    assume "is_run s t"
    then obtain a w b where r: "s = a @ w @ b" "t = (length (w @ b), length b)" "w \<noteq> []" "list_all is_word w"
        "a = [] \<or> \<not> is_word (last a)" "b = [] \<or> \<not> is_word (hd b)" unfolding is_run_def by blast
    then show "is_run (c # s) t" unfolding is_run_def using assms
      by (intro exI [of _ "c # a"] exI [of _ w] exI [of _ b]) auto
  qed
  then show ?thesis by (simp add: word_runs_def)
qed

lemma word_runs_skip [simp]: "word_runs (skip_ws r) = word_runs r"
  unfolding skip_ws_def by (induction r) (auto simp: word_runs_other is_word_def is_ws_def)

lemma word_prefix_unique:
  assumes "v @ e = w @ b" and "list_all is_word v" "e = [] \<or> \<not> is_word (hd e)" and "list_all is_word w" "b = [] \<or> \<not> is_word (hd b)"
  shows "w = v \<and> b = e"
proof -
  have "takeWhile is_word (x @ y) = x" if "list_all is_word x" "y = [] \<or> \<not> is_word (hd y)" for x y
    using that by (cases y) (auto simp: list_all_iff)
  then have "v = w" using assms by metis
  then show ?thesis using assms(1) by simp
qed

lemma word_runs_word:
  assumes "v \<noteq> []" "list_all is_word v" and e: "e = [] \<or> \<not> is_word (hd e)"
  shows "word_runs (v @ e) = insert (length (v @ e), length e) (word_runs e)"
proof -
  have "is_run (v @ e) t \<longleftrightarrow> t = (length (v @ e), length e) \<or> is_run e t" for t
  proof
    assume "is_run (v @ e) t"
    then obtain a w b where r: "v @ e = a @ w @ b" "t = (length (w @ b), length b)" "w \<noteq> []" "list_all is_word w"
        "a = [] \<or> \<not> is_word (last a)" "b = [] \<or> \<not> is_word (hd b)" unfolding is_run_def by blast
    show "t = (length (v @ e), length e) \<or> is_run e t"
    proof (cases "a = []")
      case True
      then show ?thesis using word_prefix_unique [of v e w b] r assms by auto
    next
      case False
      have na: "\<not> list_all is_word a" using r(5) False last_in_set by (auto simp: list_all_iff)
      obtain us where "v = a @ us \<and> us @ e = w @ b \<or> v @ us = a \<and> e = us @ w @ b" using r(1) by (auto simp: append_eq_append_conv2)
      then have u: "a = v @ us" "e = us @ w @ b" using na assms(2) by (auto simp: list_all_iff)
      have "us = [] \<or> \<not> is_word (last us)" using u r(5) False by auto
      then have "is_run e t" unfolding is_run_def using r(2-4,6) u(2) by blast
      then show ?thesis ..
    qed
  next
    assume "t = (length (v @ e), length e) \<or> is_run e t"
    then show "is_run (v @ e) t"
    proof
      assume "t = (length (v @ e), length e)"
      then show ?thesis unfolding is_run_def using assms by (intro exI [of _ "[]"] exI [of _ v] exI [of _ e]) simp
    next
      assume "is_run e t"
      then obtain a w b where r: "e = a @ w @ b" "t = (length (w @ b), length b)" "w \<noteq> []" "list_all is_word w"
          "a = [] \<or> \<not> is_word (last a)" "b = [] \<or> \<not> is_word (hd b)" unfolding is_run_def by blast
      have "a \<noteq> []" using r(1,3,4) e by (cases w) auto
      then show ?thesis unfolding is_run_def using r by (intro exI [of _ "v @ a"] exI [of _ w] exI [of _ b]) auto
    qed
  qed
  then show ?thesis by (auto simp: word_runs_def)
qed

text \<open>A token takes one word off the text or none.\<close>

lemma word_runs_scan:
  assumes "scan_token s = (k, e)" and ws: "s = [] \<or> \<not> is_ws (hd s)"
  shows "word_runs s = (if k = TWord then insert (length s, length e) (word_runs e) else word_runs e)"
proof (cases s)
  case (Cons c s1)
  have sym: "\<not> is_word c" if "c \<in> set ''|();&<>''" for c using that by (auto simp: is_word_def symbols_def)
  consider "c \<in> set ''|();&<''" | "c = CHR ''>''" | "c \<notin> set ''|();&<''" "c \<noteq> CHR ''>''" by blast
  then show ?thesis
  proof cases
    case 1
    then show ?thesis using assms Cons sym [of c] by (auto simp: scan_token_def word_runs_other)
  next
    case 2
    then show ?thesis using assms Cons sym [of c] by (auto simp: scan_token_def word_runs_other split: list.splits if_splits)
  next
    case 3
    then have k: "k = TWord" "e = dropWhile is_word s" using assms Cons by (auto simp: scan_token_def)
    have w: "is_word c" using 3 ws Cons by (auto simp: is_word_def symbols_def is_ws_def)
    have "word_runs (takeWhile is_word s @ e) = insert (length (takeWhile is_word s @ e), length e) (word_runs e)"
    proof (rule word_runs_word)
      show "takeWhile is_word s \<noteq> []" using w Cons by simp
      show "list_all is_word (takeWhile is_word s)" by (auto simp: list_all_iff dest: set_takeWhileD)
      show "e = [] \<or> \<not> is_word (hd e)" unfolding k(2) using hd_dropWhile by blast
    qed
    moreover have "takeWhile is_word s @ e = s" by (simp add: k(2))
    ultimately show ?thesis using k(1) by simp
  qed
qed (use assms in \<open>auto simp: scan_token_def\<close>)

lemma word_runs_gettoken:
  "word_runs r = (if fst (gettoken r) = TWord then insert (fst (snd (gettoken r))) (word_runs (rest r)) else word_runs (rest r))"
proof -
  obtain k e where s: "scan_token (skip_ws r) = (k, e)" by fastforce
  have "skip_ws r = [] \<or> \<not> is_ws (hd (skip_ws r))" using hd_skip_ws by blast
  from word_runs_scan [OF s this] show ?thesis using s by (simp add: gettoken_def Let_def)
qed

lemma word_runs_symbol: "peek ts r \<Longrightarrow> set ts \<subseteq> set symbols \<Longrightarrow> word_runs r = word_runs (rest r)"
  using word_runs_gettoken [of r]
  by (auto simp: peek_def gettoken_def scan_token_def Let_def symbols_def split: list.splits if_splits)

definition is_redir :: "token \<Rightarrow> bool" where
  "is_redir k = (k = TSym (CHR ''<'') \<or> k = TSym (CHR ''>'') \<or> k = TAppend)"

lemma peek_redir: "peek ''<>'' r \<Longrightarrow> is_redir (fst (gettoken r))"
  by (auto simp: peek_def gettoken_def scan_token_def Let_def is_redir_def split: list.splits)

text \<open>Each part of the parser accounts for the words between its two ends, no word twice and none left out.\<close>

lemma parseredirs_runs:
  "parseredirs r = Inr (rs, r') \<Longrightarrow> word_runs r = set (map snd rs) \<union> word_runs r' \<and> (\<forall>k \<in> set (map fst rs). is_redir k)"
proof (induction r arbitrary: rs r' rule: parseredirs.induct)
  case (1 r)
  show ?case
  proof (cases "peek ''<>'' r")
    case False
    then show ?thesis using 1(2) by (auto simp: parseredirs.simps [of r])
  next
    case True
    then obtain rs1 where w: "fst (gettoken (rest r)) = TWord" and p: "parseredirs (rest (rest r)) = Inr (rs1, r')"
        and rs: "rs = (fst (gettoken r), fst (snd (gettoken (rest r)))) # rs1"
      using 1(2) by (auto simp: parseredirs.simps [of r] bindE_eq_Inr_iff split: if_splits)
    have "word_runs (rest (rest r)) = set (map snd rs1) \<union> word_runs r' \<and> (\<forall>k \<in> set (map fst rs1). is_redir k)"
      using 1(1) [OF True _ p] w by simp
    moreover have "word_runs r = word_runs (rest r)" by (rule word_runs_symbol [OF True]) (simp add: symbols_def)
    ultimately show ?thesis using word_runs_gettoken [of "rest r"] w peek_redir [OF True] by (simp add: rs)
  qed
qed

lemma parseargs_runs:
  "parseargs a r = Inr (ts, rs, r')
     \<Longrightarrow> word_runs r = set ts \<union> set (map snd rs) \<union> word_runs r' \<and> (\<forall>k \<in> set (map fst rs). is_redir k)"
proof (induction a r arbitrary: ts rs r' rule: parseargs.induct)
  case (1 a r)
  note t = word_runs_gettoken [of "skip_ws r"]
  show ?case
  proof (cases "peek ''|)&;'' r \<or> fst (gettoken (skip_ws r)) = TEnd")
    case True
    then have "ts = [] \<and> rs = [] \<and> (r' = skip_ws r \<or> fst (gettoken (skip_ws r)) = TEnd \<and> r' = rest (skip_ws r))"
      using 1(2) by (simp add: parseargs.simps [of a r] split: if_splits)
    then show ?thesis using t by (elim conjE disjE) simp_all
  next
    case False
    then obtain rs1 r1 ts2 rs2 where w: "fst (gettoken (skip_ws r)) = TWord" "\<not> MAXARGS \<le> a + 1"
        and p: "parseredirs (rest (skip_ws r)) = Inr (rs1, r1)" "length r1 < length r"
        and q: "parseargs (a + 1) r1 = Inr (ts2, rs2, r')"
        and eq: "ts = fst (snd (gettoken (skip_ws r))) # ts2" "rs = rs1 @ rs2"
      using 1(2) by (auto simp: parseargs.simps [of a r] bindE_eq_Inr_iff split: if_splits sum.splits)
    have "word_runs r1 = set ts2 \<union> set (map snd rs2) \<union> word_runs r' \<and> (\<forall>k \<in> set (map fst rs2). is_redir k)"
      using 1(1) [OF _ _ _ _ p(1) refl p(2) q] False w by simp
    then show ?thesis using parseredirs_runs [OF p(1)] t w(1) by (auto simp: eq)
  qed
qed

lemma toks_wrap:
  "\<forall>k \<in> set (map fst rs). is_redir k \<Longrightarrow> set (toks (wrap rs c)) = set (toks c) \<union> set (map snd rs)"
proof (induction rs arbitrary: c)
  case (Cons kt rs)
  obtain k t where kt: "kt = (k, t)" by (cases kt)
  have "set (toks (redir_of k t c)) = insert t (set (toks c))" using Cons(2) by (auto simp: redir_of_def is_redir_def kt)
  then show ?case using Cons(1) [of "redir_of k t c"] Cons(2) by (auto simp: wrap_def kt)
qed (simp add: wrap_def)

lemma backs_runs: "toks (fst (backs c r)) = toks c \<and> word_runs (snd (backs c r)) = word_runs r"
proof (induction c r rule: backs.induct)
  case (1 c r)
  show ?case
  proof (cases "peek ''&'' r")
    case True
    then show ?thesis using 1 [OF True] word_runs_symbol [OF True] by (simp add: backs.simps [of c r] symbols_def)
  qed (simp add: backs.simps [of c r])
qed

lemma parse_runs:
  "\<And>c r'. parseline n r = Inr (c, r') \<Longrightarrow> word_runs r = set (toks c) \<union> word_runs r'"
  "\<And>c r'. parsepipe n r = Inr (c, r') \<Longrightarrow> word_runs r = set (toks c) \<union> word_runs r'"
  "\<And>c r'. parseexec n r = Inr (c, r') \<Longrightarrow> word_runs r = set (toks c) \<union> word_runs r'"
  "\<And>c r'. parseblock n r = Inr (c, r') \<Longrightarrow> word_runs r = set (toks c) \<union> word_runs r'"
proof (induction n r and n r and n r and n r rule: parseline_parsepipe_parseexec_parseblock.induct)
  case (2 n r)
  obtain c0 r0 where p: "parsepipe n r = Inr (c0, r0)" using 2(3) by (auto simp: bindE_eq_Inr_iff)
  have a: "word_runs r = set (toks c0) \<union> word_runs r0" using 2(1) p by blast
  note b = backs_runs [of c0 r0]
  show ?case
  proof (cases "peek '';'' (snd (backs c0 r0))")
    case True
    then obtain d where d: "parseline n (rest (snd (backs c0 r0))) = Inr (d, r')" "c = Seq (fst (backs c0 r0)) d"
      using 2(3) p by (auto simp: bindE_eq_Inr_iff)
    then show ?thesis using 2(2) [OF p refl True d(1)] a b word_runs_symbol [OF True] by (auto simp: symbols_def)
  next
    case False
    then show ?thesis using 2(3) p a b by auto
  qed
next
  case (4 n r)
  obtain c0 r0 where p: "parseexec n r = Inr (c0, r0)" using 4(3) by (auto simp: bindE_eq_Inr_iff)
  have a: "word_runs r = set (toks c0) \<union> word_runs r0" using 4(1) p by blast
  show ?case
  proof (cases "peek ''|'' r0")
    case True
    then obtain d where d: "parsepipe n (rest r0) = Inr (d, r')" "c = Pipe c0 d" using 4(3) p by (auto simp: bindE_eq_Inr_iff)
    then show ?thesis using 4(2) [OF p refl True d(1)] a word_runs_symbol [OF True] by (auto simp: symbols_def)
  next
    case False
    then show ?thesis using 4(3) p a by auto
  qed
next
  case (6 n r)
  show ?case
  proof (cases "peek ''('' r")
    case True
    then show ?thesis using 6 by simp
  next
    case False
    then obtain rs r1 ts rs' where *: "parseredirs r = Inr (rs, r1)" "parseargs 0 r1 = Inr (ts, rs', r')"
        "c = wrap (rs @ rs') (Exec ts)"
      using 6(2) by (auto simp: bindE_eq_Inr_iff)
    then show ?thesis using parseredirs_runs [OF *(1)] parseargs_runs [OF *(2)] toks_wrap [of "rs @ rs'" "Exec ts"] by auto
  qed
next
  case (8 n r)
  then obtain c1 r1 rs where b: "parseline n (rest r) = Inr (c1, r1)" "parseredirs (rest r1) = Inr (rs, r')"
      "c = wrap rs c1" and pk: "peek ''('' r" "peek '')'' r1"
    by (auto simp: bindE_eq_Inr_iff split: if_splits)
  have "word_runs (rest r) = set (toks c1) \<union> word_runs r1" using 8(1) pk b(1) by blast
  then show ?case using parseredirs_runs [OF b(2)] toks_wrap [of rs c1] word_runs_symbol [OF pk(1)] word_runs_symbol [OF pk(2)]
    by (auto simp: b(3) symbols_def)
qed simp_all

lemma parsecmd_runs: "parsecmd s = Inr c \<Longrightarrow> set (toks c) = word_runs s"
proof -
  assume "parsecmd s = Inr c"
  then obtain r where "parseline (parse_fuel s) s = Inr (c, r)" "skip_ws r = []"
    by (auto simp: parsecmd_def bindE_eq_Inr_iff split: if_splits)
  then show ?thesis using parse_runs(1) [of "parse_fuel s" s c r] word_runs_skip [of r] by simp
qed

text \<open>The same by positions: word characters up to the end, then something else or the end of the text.\<close>

definition good_tok :: "string \<Rightarrow> tok \<Rightarrow> bool" where
  "good_tok s t = (snd t < fst t \<and> fst t \<le> length s
     \<and> (\<forall>k. length s - fst t \<le> k \<longrightarrow> k < length s - snd t \<longrightarrow> is_word (s ! k))
     \<and> (snd t \<noteq> 0 \<longrightarrow> \<not> is_word (s ! (length s - snd t))))"

definition good_toks :: "string \<Rightarrow> tok list \<Rightarrow> bool" where
  "good_toks s ts = (\<forall>t \<in> set ts. good_tok s t)"

lemma is_run_good_tok:
  assumes "is_run s t"
  shows "good_tok s t"
proof -
  obtain a w b where r: "s = a @ w @ b" "t = (length (w @ b), length b)" "w \<noteq> []" "list_all is_word w" "b = [] \<or> \<not> is_word (hd b)"
    using assms unfolding is_run_def by blast
  have "is_word (s ! k)" if "length a \<le> k" "k < length a + length w" for k
    using that r(4) by (auto simp: r(1) nth_append list_all_length)
  then show ?thesis using r(3,5) by (cases b) (auto simp: good_tok_def r(1,2) nth_append)
qed

text \<open>The writes of \<open>nulterminate\<close>, as one sequence.\<close>

definition put_nul :: "string \<Rightarrow> tok \<Rightarrow> string" where
  "put_nul b t = b[length b - 1 - snd t := CHR 0x00]"

lemma length_put_nuls [simp]: "length (foldl put_nul b ts) = length b"
  by (induction ts arbitrary: b) (simp_all add: put_nul_def)

lemma nulterminate_eq: "nulterminate c b = foldl put_nul b (toks c)"
proof (induction c arbitrary: b)
  case (Exec ts)
  have "foldl (\<lambda>b (q, e). b[n - 1 - e := CHR 0x00]) b ts = foldl put_nul b ts" if "length b = n" for n b
    using that by (induction ts arbitrary: b) (auto simp: put_nul_def)
  then show ?case by simp
next
  case (Redir c t m f)
  have "length (foldl put_nul b (toks c)) = length b" by (rule length_put_nuls)
  with Redir show ?case by (cases t) (simp add: put_nul_def [of "foldl put_nul b (toks c)"])
qed simp_all

lemma put_nuls_nth:
  assumes "k < length b"
  shows "foldl put_nul b ts ! k = (if \<exists>t \<in> set ts. k = length b - 1 - snd t then CHR 0x00 else b ! k)"
  using assms
proof (induction ts arbitrary: b)
  case (Cons t ts)
  have "length (put_nul b t) = length b" by (simp add: put_nul_def)
  then show ?case using Cons by (auto simp: put_nul_def nth_list_update)
qed simp

lemma nulterminated_tokens:
  assumes nz: "CHR 0x00 \<notin> set s" and good: "good_toks s (toks c)" and t: "t \<in> set (toks c)"
  shows "c_string (nulterminate c (s @ [CHR 0x00])) (fst t) = token_text s t"
proof -
  define b where "b = s @ [CHR 0x00]"
  define R where "R = nulterminate c b"
  define p where "p = length s - fst t"
  define d where "d = fst t - snd t"
  have lb: "length b - 1 = length s" by (simp add: b_def)
  have lR: "length R = length s + 1" by (simp add: R_def nulterminate_eq b_def)
  have gt: "snd t < fst t" "fst t \<le> length s" using good t by (auto simp: good_toks_def good_tok_def)
  then have pd: "p + d = length s - snd t" by (simp add: p_def d_def)
  have R: "R ! k = (if \<exists>u \<in> set (toks c). k = length s - snd u then CHR 0x00 else b ! k)" if "k \<le> length s" for k
    using that put_nuls_nth [of k b "toks c"] by (simp add: R_def nulterminate_eq lb) (simp add: b_def)
  have span: "R ! k = s ! k" if k: "p \<le> k" "k < p + d" for k
  proof -
    have w: "is_word (s ! k)" using good t k gt pd by (auto simp: good_toks_def good_tok_def p_def)
    have kl: "k < length s" using k pd by simp
    have "\<not> (\<exists>u \<in> set (toks c). k = length s - snd u)"
    proof
      assume "\<exists>u \<in> set (toks c). k = length s - snd u"
      then obtain u where u: "u \<in> set (toks c)" "k = length s - snd u" by blast
      then have "snd u \<noteq> 0" using kl by auto
      then show False using good u w by (auto simp: good_toks_def good_tok_def)
    qed
    then show ?thesis using R [of k] kl by (simp add: b_def nth_append)
  qed
  have stop: "R ! (p + d) = CHR 0x00" using R [of "p + d"] t pd by auto
  have len: "p + d < length R" using pd lR by simp
  have split: "drop p R = take d (drop p R) @ R ! (p + d) # drop (Suc (p + d)) R"
    using id_take_nth_drop [of d "drop p R"] len by (simp add: add.commute)
  have tk: "take d (drop p R) = take d (drop p s)"
    by (rule nth_equalityI) (use len span pd lR in auto)
  have nn: "\<forall>x \<in> set (take d (drop p s)). x \<noteq> CHR 0x00"
    using nz by (metis in_set_dropD in_set_takeD)
  have "take d (drop p R) @ R ! (p + d) # drop (Suc (p + d)) R
      = take d (drop p s) @ CHR 0x00 # drop (Suc (p + d)) R"
    by (simp only: tk stop)
  with split have s2: "drop p R = take d (drop p s) @ CHR 0x00 # drop (Suc (p + d)) R" by (rule trans)
  have "takeWhile (\<lambda>c. c \<noteq> CHR 0x00) (drop p R) = take d (drop p s)"
    unfolding s2 using nn by (subst takeWhile_append2) auto
  then show ?thesis
    by (simp add: c_string_def token_text_def R_def [symmetric] b_def [symmetric] lR p_def d_def)
qed

subsection \<open>Running a command\<close>

text \<open>
  The system calls of the process that runs a command; a fork carries the calls of the child.
  \<open>shell_env\<close> answers the calls that may fail: the descriptors of \<open>pipe\<close>, and whether \<open>fork\<close>,
  \<open>open\<close> of a file and \<open>exec\<close> of an argument vector succeed.
\<close>

datatype sys =
    SClose nat
  | SOpen tok nat
  | SDup nat
  | SPipe nat nat
  | SExec "tok list"
  | SFork "sys list"
  | SWait
  | SMsg string
  | SExit

record shell_env =
  pipe_fds :: "(nat \<times> nat) option"
  fork_ok :: bool
  open_ok :: "tok \<Rightarrow> bool"
  exec_ok :: "tok list \<Rightarrow> bool"

definition sh_panic :: "string \<Rightarrow> sys list" where
  "sh_panic msg = [SMsg msg, SExit]"

text \<open>\<open>fork1\<close>, the child's calls and the parent's.\<close>

definition fork1 :: "shell_env \<Rightarrow> sys list \<Rightarrow> sys list \<Rightarrow> sys list" where
  "fork1 env child parent = (if fork_ok env then SFork child # parent else sh_panic ''fork'')"

fun runcmd :: "shell_env \<Rightarrow> cmd \<Rightarrow> sys list" where
  "runcmd env (Exec ts) =
     (if ts = [] then [SExit]
      else if exec_ok env ts then [SExec ts] else [SExec ts, SMsg ''exec failed'', SExit])"
| "runcmd env (Redir c f m fd) =
     SClose fd # SOpen f m # (if open_ok env f then runcmd env c else [SMsg ''open failed'', SExit])"
| "runcmd env (Seq c d) = fork1 env (runcmd env c) (SWait # runcmd env d)"
| "runcmd env (Pipe c d) =
     (case pipe_fds env of
        None \<Rightarrow> sh_panic ''pipe''
      | Some (p0, p1) \<Rightarrow> SPipe p0 p1 #
          fork1 env (SClose 1 # SDup p1 # SClose p0 # SClose p1 # runcmd env c)
            (fork1 env (SClose 0 # SDup p0 # SClose p0 # SClose p1 # runcmd env d)
              [SClose p0, SClose p1, SWait, SWait, SExit]))"
| "runcmd env (Back c) = fork1 env (runcmd env c) [SExit]"

datatype line_action = ChDir string | RunCmd "perr + cmd"

text \<open>One iteration of the loop of \<open>main\<close>; \<open>buf\<close> is the line with its newline.\<close>

definition shell_line :: "string \<Rightarrow> line_action" where
  "shell_line buf = (if take 3 buf = ''cd '' then ChDir (drop 3 (butlast buf)) else RunCmd (parsecmd buf))"

text \<open>Every process of a command ends: by \<open>exit\<close>, or by an \<open>exec\<close> that succeeds.\<close>

fun ends :: "shell_env \<Rightarrow> sys list \<Rightarrow> bool" where
  "ends env [] = False"
| "ends env (SExit # xs) = (xs = [])"
| "ends env (SExec ts # xs) = (if exec_ok env ts then xs = [] else ends env xs)"
| "ends env (SFork child # xs) = (ends env child \<and> ends env xs)"
| "ends env (x # xs) = ends env xs"

lemma runcmd_ends_all: "ends env (runcmd env c)"
  by (induction c) (auto simp: fork1_def sh_panic_def split: option.split)

subsection \<open>Properties\<close>

text \<open>C33: The recursive-descent parser returns on every line: the fuel given to it, proportional to the
  length of the line, never runs out, so the result is a command or one of the parser's own errors.\<close>

theorem parser_returns: "(\<exists>c. parsecmd s = Inr c) \<or> (\<exists>msg. parsecmd s = Inl (Syntax msg))"
proof (cases "parsecmd s")
  case (Inl e)
  then show ?thesis using parsecmd_returns [of s] by (cases e) auto
qed auto

text \<open>C15: The tokens of a parsed command are exactly the words of the line, the longest runs of characters that are neither
  white space nor symbols: none is left out, shortened or split. After \<open>nulterminate\<close> has written its zero bytes each of them, read
  as a C string from its start, is that word: the zeros cut no other.\<close>

theorem parsed_tokens_are_strings:
  assumes "parsecmd s = Inr c" and "CHR 0x00 \<notin> set s"
  shows "set (toks c) = {t. is_run s t}
     \<and> (\<forall>t \<in> set (toks c). c_string (nulterminate c (s @ [CHR 0x00])) (fst t) = token_text s t)"
proof
  show w: "set (toks c) = {t. is_run s t}" using parsecmd_runs [OF assms(1)] by (simp add: word_runs_def)
  have "good_toks s (toks c)" using w is_run_good_tok by (auto simp: good_toks_def)
  then show "\<forall>t \<in> set (toks c). c_string (nulterminate c (s @ [CHR 0x00])) (fst t) = token_text s t"
    using nulterminated_tokens [OF assms(2)] by blast
qed

theorem parsed_tokens_are_strings_witness:
  "{t. is_run ''a|bc'' t} = {(4, 3), (2, 0)}
     \<and> c_string (nulterminate (Pipe (Exec [(4, 3)]) (Exec [(2, 0)])) (''a|bc'' @ [CHR 0x00])) 2 = ''bc''"
proof -
  have p: "parsecmd ''a|bc'' = Inr (Pipe (Exec [(4, 3)]) (Exec [(2, 0)]))" by code_simp
  from parsed_tokens_are_strings [OF p] show ?thesis by (simp add: token_text_def)
qed

text \<open>However the calls of a command turn out, every process that \<open>runcmd\<close> makes for it ends, with
  \<open>exit\<close> or a successful \<open>exec\<close>, and no process runs on behind it.\<close>

theorem command_processes_end: "ends env (runcmd env c)"
  by (rule runcmd_ends_all)

end
