(* ===== verification/Ulib.thy ===== *)
theory Ulib
  imports Prelude
begin

text \<open>
  The user library: \<open>user/ulib.c\<close> and \<open>user/printf.c\<close>. A C string that is only read is the
  list of its characters before the zero byte.
\<close>

subsection \<open>Strings\<close>

definition NUL :: char where "NUL = CHR 0x00"

definition c_str :: "string \<Rightarrow> bool" where
  "c_str s = (NUL \<notin> set s)"

definition code :: "char \<Rightarrow> int" where "code c = of_char c"

fun strcmp :: "string \<Rightarrow> string \<Rightarrow> int" where
  "strcmp (p # ps) (q # qs) = (if p = q then strcmp ps qs else code p - code q)"
| "strcmp (p # ps) [] = code p"
| "strcmp [] (q # qs) = - code q"
| "strcmp [] [] = 0"

fun strchr :: "string \<Rightarrow> char \<Rightarrow> string option" where
  "strchr [] c = None"
| "strchr (d # s) c = (if d = c then Some (d # s) else strchr s c)"

text \<open>
  \<open>gets\<close>: the input is the characters that \<open>read\<close> delivers before it returns less than 1;
  the result is the line and the input left.
\<close>

fun gets_loop :: "nat \<Rightarrow> string \<Rightarrow> string \<times> string" where
  "gets_loop 0 inp = ([], inp)"
| "gets_loop (Suc n) [] = ([], [])"
| "gets_loop (Suc n) (c # inp) =
     (if c = CHR 0x0A \<or> c = CHR 0x0D then ([c], inp)
      else (c # fst (gets_loop n inp), snd (gets_loop n inp)))"

definition gets :: "nat \<Rightarrow> string \<Rightarrow> string \<times> string" where
  "gets m inp = gets_loop (m - 1) inp"

lemma code_eq_iff: "code p = code q \<longleftrightarrow> p = q"
  by (simp add: code_def of_char_eq_iff)

lemma code_NUL: "code NUL = 0"
  by (simp add: code_def NUL_def)

lemma code_0_iff: "code p = 0 \<longleftrightarrow> p = NUL"
  using code_eq_iff [of p NUL] by (simp add: code_NUL)

lemma strcmp_0_iff: "c_str s \<Longrightarrow> c_str t \<Longrightarrow> strcmp s t = 0 \<longleftrightarrow> s = t"
  by (induction s t rule: strcmp.induct) (auto simp: c_str_def code_eq_iff code_0_iff)

lemma strcmp_antisym: "strcmp t s = - strcmp s t"
  by (induction s t rule: strcmp.induct) auto

lemma strchr_Some_iff: "strchr s c = Some r \<longleftrightarrow> (\<exists>p. s = p @ r \<and> c \<notin> set p \<and> r \<noteq> [] \<and> hd r = c)"
proof (induction s)
  case (Cons d s)
  show ?case
  proof (cases "d = c")
    case True
    have "p = []" if "d # s = p @ r" "c \<notin> set p" for p
      using that True by (cases p) auto
    then show ?thesis using True by (auto intro: exI [where x = "[]"])
  next
    case False
    have "(\<exists>p. d # s = p @ r \<and> c \<notin> set p \<and> r \<noteq> [] \<and> hd r = c)
        \<longleftrightarrow> (\<exists>p. s = p @ r \<and> c \<notin> set p \<and> r \<noteq> [] \<and> hd r = c)" (is "?L = ?R")
    proof
      assume ?L
      then obtain p where p: "d # s = p @ r" "c \<notin> set p" "r \<noteq> []" "hd r = c" by blast
      then have "p \<noteq> []" using False by auto
      then show ?R using p by (cases p) auto
    next
      assume ?R
      then obtain p where p: "s = p @ r" "c \<notin> set p" "r \<noteq> []" "hd r = c" by blast
      then show ?L using False by (intro exI [where x = "d # p"]) auto
    qed
    then show ?thesis using Cons False by simp
  qed
qed simp

text \<open>\<open>gets\<close> splits the input after the first line end, or after \<open>max - 1\<close> characters.\<close>

lemma gets_loop_splits: "fst (gets_loop n inp) @ snd (gets_loop n inp) = inp"
  by (induction n inp rule: gets_loop.induct) auto

lemma gets_loop_length: "length (fst (gets_loop n inp)) \<le> n"
  by (induction n inp rule: gets_loop.induct) auto

lemma gets_loop_line:
  "length (fst (gets_loop n inp)) = n \<or> snd (gets_loop n inp) = []
     \<or> (fst (gets_loop n inp) \<noteq> [] \<and> last (fst (gets_loop n inp)) \<in> {CHR 0x0A, CHR 0x0D})"
  by (induction n inp rule: gets_loop.induct) auto

lemma gets_loop_inner: "c \<in> set (butlast (fst (gets_loop n inp))) \<Longrightarrow> c \<noteq> CHR 0x0A \<and> c \<noteq> CHR 0x0D"
  by (induction n inp rule: gets_loop.induct) (auto split: if_splits)

subsection \<open>Numbers\<close>

definition is_digit :: "char \<Rightarrow> bool" where
  "is_digit c = (code (CHR ''0'') \<le> code c \<and> code c \<le> code (CHR ''9''))"

text \<open>\<open>n = n*10 + *s++ - '0'\<close> on the 32 bits of an \<open>int\<close>.\<close>

fun atoi_loop :: "u32 \<Rightarrow> string \<Rightarrow> u32" where
  "atoi_loop n [] = n"
| "atoi_loop n (c # s) =
     (if is_digit c then atoi_loop (n * 10 + of_int (code c) - of_int (code (CHR ''0''))) s else n)"

definition atoi :: "string \<Rightarrow> int" where
  "atoi s = sint (atoi_loop 0 s)"

definition digits :: string where "digits = ''0123456789ABCDEF''"

text \<open>
  The digits of \<open>x\<close>, least significant first; \<open>printf\<close> calls \<open>printint\<close> with the bases 10 and 16
  only, and the guard on the base is for the termination.
\<close>

function digits_rev :: "u32 \<Rightarrow> u32 \<Rightarrow> string" where
  "digits_rev b x =
     digits ! unat (x mod b) # (if x div b \<noteq> 0 \<and> 2 \<le> b then digits_rev b (x div b) else [])"
  by auto
termination
proof (relation "measure (\<lambda>(b, x). unat x)")
  fix b x :: u32
  assume "x div b \<noteq> 0 \<and> 2 \<le> b"
  then have "x \<noteq> 0" "2 \<le> unat b" by (auto simp: word_le_nat_alt)
  moreover from this have "0 < unat x" by (simp add: unat_gt_0)
  moreover have "unat (x div b) = unat x div unat b" by (simp add: unat_div)
  ultimately show "((b, x div b), b, x) \<in> measure (\<lambda>(b, x). unat x)" by simp
qed simp

declare digits_rev.simps [simp del]

definition printint :: "u32 \<Rightarrow> u32 \<Rightarrow> bool \<Rightarrow> string" where
  "printint xx base sg =
     (let neg = sg \<and> sint xx < 0; x = (if neg then - xx else xx)
      in rev (digits_rev base x @ (if neg then ''-'' else '''')))"

definition dec_val :: "string \<Rightarrow> nat" where
  "dec_val s = foldl (\<lambda>n c. n * 10 + nat (code c - 48)) 0 s"

definition digit_str :: "string \<Rightarrow> bool" where
  "digit_str s = (\<forall>c \<in> set s. is_digit c)"

lemma digit_chars:
  "k < 10 \<Longrightarrow> is_digit (digits ! k)" "k < 10 \<Longrightarrow> code (digits ! k) = 48 + int k"
  by (auto simp: digits_def is_digit_def code_def less_Suc_eq numeral_eq_Suc)

lemma digits_rev_10:
  "digit_str (digits_rev 10 x) \<and> dec_val (rev (digits_rev 10 x)) = unat x"
proof (induction "10 :: u32" x rule: digits_rev.induct)
  case (1 x)
  have m: "unat (x mod 10) = unat x mod 10" "unat (x div 10) = unat x div 10"
    by (simp_all add: unat_div unat_mod)
  have d: "is_digit (digits ! (unat x mod 10))" "nat (code (digits ! (unat x mod 10)) - 48) = unat x mod 10"
    using digit_chars [of "unat x mod 10"] by simp_all
  show ?case
  proof (cases "x div 10 \<noteq> 0")
    case True
    then have ih: "digit_str (digits_rev 10 (x div 10))" "dec_val (rev (digits_rev 10 (x div 10))) = unat x div 10"
      using 1 m by auto
    show ?thesis
      using True ih d m by (simp add: digits_rev.simps [of 10 x] digit_str_def dec_val_def)
  next
    case False
    then have "unat x div 10 = 0" using m(2) by simp
    then show ?thesis
      using False d m by (simp add: digits_rev.simps [of 10 x] digit_str_def dec_val_def)
  qed
qed

lemma length_digits_rev:
  assumes "unat x < 10 ^ n" and "0 < n"
  shows "length (digits_rev 10 x) \<le> n"
  using assms
proof (induction n arbitrary: x)
  case (Suc n)
  show ?case
  proof (cases "x div 10 \<noteq> 0")
    case True
    have d: "unat (x div 10) = unat x div 10" by (simp add: unat_div)
    then have "unat x div 10 \<noteq> 0" using True by (metis unat_eq_zero)
    then have "n \<noteq> 0" using Suc.prems by (cases n) auto
    moreover have "unat (x div 10) < 10 ^ n" using Suc.prems d by (simp add: less_mult_imp_div_less mult.commute)
    ultimately show ?thesis using Suc.IH [of "x div 10"] True by (simp add: digits_rev.simps [of 10 x])
  next
    case False
    then show ?thesis by (simp add: digits_rev.simps [of 10 x])
  qed
qed simp

text \<open>\<open>printint\<close> writes at most eleven characters in base ten: its buffer of 16 is never overrun.\<close>

lemma printint_fits: "length (printint xx 10 sg) \<le> 11"
proof -
  have "length (digits_rev 10 x) \<le> 10" for x
    using length_digits_rev [of x 10] unat_u32_less [of x] by simp
  from this [of "- xx"] this [of xx] show ?thesis by (auto simp: printint_def Let_def)
qed

lemma atoi_loop_val:
  "digit_str s \<Longrightarrow> atoi_loop (of_nat n) s = of_nat (foldl (\<lambda>n c. n * 10 + nat (code c - 48)) n s)"
proof (induction s arbitrary: n)
  case (Cons c s)
  have z: "code (CHR ''0'') = 48" by (simp add: code_def)
  have c: "is_digit c" "digit_str s" using Cons.prems by (auto simp: digit_str_def)
  then have "48 \<le> code c" by (simp add: is_digit_def z)
  then obtain k where k: "code c = 48 + int k" by (metis le_iff_add nonneg_int_cases add_0_right zle_iff_zadd)
  have "(of_nat n * 10 + of_int (code c) - of_int 48 :: u32) = of_nat (n * 10 + nat (code c - 48))"
    by (simp add: k)
  then have "atoi_loop (of_nat n) (c # s) = atoi_loop (of_nat (n * 10 + nat (code c - 48))) s"
    by (simp only: atoi_loop.simps c if_True z)
  then show ?case using Cons.IH [OF c(2), of "n * 10 + nat (code c - 48)"] by (simp only: foldl_Cons)
qed simp

text \<open>What \<open>printf\<close> prints for a non-negative number, \<open>atoi\<close> reads back.\<close>

lemma atoi_printint:
  assumes "0 \<le> sint xx"
  shows "atoi (printint xx 10 True) = sint xx"
proof -
  have p: "printint xx 10 True = rev (digits_rev 10 xx)" using assms by (simp add: printint_def Let_def)
  have "atoi_loop 0 (rev (digits_rev 10 xx)) = of_nat (dec_val (rev (digits_rev 10 xx)))"
    using atoi_loop_val [of "rev (digits_rev 10 xx)" 0] digits_rev_10 [of xx]
    by (simp add: digit_str_def dec_val_def)
  also have "\<dots> = xx" using digits_rev_10 [of xx] by simp
  finally show ?thesis by (simp add: atoi_def p)
qed

subsection \<open>printf\<close>

text \<open>
  \<open>at\<close> gives the string at an address. The result is what is written, and the arguments left;
  \<open>None\<close> when the format asks for more arguments than there are. \<open>pct\<close> is the state after \<open>'%'\<close>.
\<close>

fun printf_loop :: "(u32 \<Rightarrow> string) \<Rightarrow> bool \<Rightarrow> string \<Rightarrow> u32 list \<Rightarrow> (string \<times> bool \<times> u32 list) option" where
  "printf_loop at pct [] ap = Some ([], pct, ap)"
| "printf_loop at False (c # f) ap =
     (if c = CHR ''%'' then printf_loop at True f ap
      else map_option (\<lambda>(out, r). (c # out, r)) (printf_loop at False f ap))"
| "printf_loop at True (c # f) ap =
     (if c \<in> set ''dxpsc'' then
        (case ap of
           [] \<Rightarrow> None
         | a # ap' \<Rightarrow>
             map_option (\<lambda>(out, r).
               ((if c = CHR ''d'' then printint a 10 True
                 else if c = CHR ''x'' \<or> c = CHR ''p'' then printint a 16 False
                 else if c = CHR ''s'' then (if a = 0 then ''(null)'' else at a)
                 else [char_of (unat a)]) @ out, r)) (printf_loop at False f ap'))
      else map_option (\<lambda>(out, r). ((if c = CHR ''%'' then [c] else [CHR ''%'', c]) @ out, r))
             (printf_loop at False f ap))"

definition printf :: "(u32 \<Rightarrow> string) \<Rightarrow> string \<Rightarrow> u32 list \<Rightarrow> string option" where
  "printf at fmt ap = map_option fst (printf_loop at False fmt ap)"

text \<open>The output of a format is the outputs of its parts, each with the arguments it consumes.\<close>

lemma printf_loop_append:
  "printf_loop at pct (f @ g) ap =
     (case printf_loop at pct f ap of
        None \<Rightarrow> None
      | Some (out, pct', ap') \<Rightarrow> map_option (\<lambda>(out', r). (out @ out', r)) (printf_loop at pct' g ap'))"
proof (induction at pct f ap rule: printf_loop.induct)
  case (1 at pct ap)
  then show ?case by (simp add: option.map_id split_beta flip: id_def)
next
  case (2 at c f ap)
  then show ?case
    by (auto simp: option.map_comp comp_def case_prod_unfold split: option.splits)
next
  case (3 at c f ap)
  then show ?case
    by (auto simp: option.map_comp comp_def case_prod_unfold split: option.splits list.splits)
qed

lemma printf_verbatim: "CHR ''%'' \<notin> set f \<Longrightarrow> printf_loop at False f ap = Some (f, False, ap)"
  by (induction f) auto

subsection \<open>Properties\<close>

text \<open>\<open>printf("%d")\<close> and \<open>atoi\<close> are inverse on the non-negative 32-bit integers, and the digits of any
  number with its sign fit the 16 bytes of \<open>printint\<close>'s buffer.\<close>

theorem atoi_reads_printint:
  "length (printint xx 10 sg) \<le> 16 \<and> (0 \<le> sint xx \<longrightarrow> atoi (printint xx 10 True) = sint xx)"
  using printint_fits [of xx sg] atoi_printint [of xx] by simp_all

theorem atoi_reads_printint_witness: "atoi (printint 1234 10 True) = 1234"
  using atoi_reads_printint [of 1234] by simp

text \<open>\<open>strcmp\<close> is zero exactly for equal strings and changes its sign when the arguments are exchanged;
  \<open>strchr\<close> finds the first occurrence of the character.\<close>

theorem strcmp_strchr_correct:
  "c_str s \<Longrightarrow> c_str t \<Longrightarrow> strcmp s t = 0 \<longleftrightarrow> s = t" "strcmp t s = - strcmp s t"
  "strchr s c = Some r \<longleftrightarrow> (\<exists>p. s = p @ r \<and> c \<notin> set p \<and> r \<noteq> [] \<and> hd r = c)"
  by (rule strcmp_0_iff, assumption+) (rule strcmp_antisym, rule strchr_Some_iff)

theorem strcmp_strchr_correct_witness: "strcmp ''ab'' ''ab'' = 0"
  using strcmp_strchr_correct(1) [of "''ab''" "''ab''"] by (simp add: c_str_def NUL_def)

text \<open>\<open>gets\<close> takes a prefix of the input of at most \<open>m - 1\<close> characters and leaves the rest; it contains no
  line end except as its last character, and is shorter than \<open>m - 1\<close> only at a line end or the end of input.\<close>

theorem gets_takes_a_line:
  "gets m inp = (line, left) \<Longrightarrow> line @ left = inp \<and> length line \<le> m - 1
     \<and> (\<forall>c \<in> set (butlast line). c \<noteq> CHR 0x0A \<and> c \<noteq> CHR 0x0D)
     \<and> (length line = m - 1 \<or> left = [] \<or> line \<noteq> [] \<and> last line \<in> {CHR 0x0A, CHR 0x0D})"
  using gets_loop_splits [of "m - 1" inp] gets_loop_length [of "m - 1" inp] gets_loop_line [of "m - 1" inp]
    gets_loop_inner [of _ "m - 1" inp]
  by (auto simp: gets_def)

theorem gets_takes_a_line_witness: "fst (gets 10 (''hi'' @ [CHR 0x0A] @ ''x'')) @ snd (gets 10 (''hi'' @ [CHR 0x0A] @ ''x'')) = ''hi'' @ [CHR 0x0A] @ ''x''"
  using gets_takes_a_line [of 10 "''hi'' @ [CHR 0x0A] @ ''x''"] by (metis prod.collapse)

end
