(* ===== verification/UlibMem.thy ===== *)
theory UlibMem
  imports KString Ulib
begin

text \<open>
  The routines of \<open>user/ulib.c\<close> that write memory, over the byte memory of \<open>KString\<close>, and \<open>stat\<close>, over system calls that are arguments.
  The names have a \<open>u\<close> in front where the kernel has a routine of the same name.
\<close>

text \<open>\<open>strcpy\<close> does not return when there is no terminating zero.\<close>

partial_function (option) strcpy_loop :: "nat \<Rightarrow> nat \<Rightarrow> bytes \<Rightarrow> bytes option" where
  "strcpy_loop s t m = (if m t \<noteq> 0 then strcpy_loop (Suc s) (Suc t) (m(s := m t)) else Some (m(s := m t)))"

definition ustrcpy :: "nat \<Rightarrow> nat \<Rightarrow> bytes \<Rightarrow> bytes option" where
  "ustrcpy s t m = strcpy_loop s t m"

partial_function (option) ustrlen_from :: "bytes \<Rightarrow> nat \<Rightarrow> nat option" where
  "ustrlen_from s n = (if s n \<noteq> 0 then ustrlen_from s (Suc n) else Some n)"

definition ustrlen :: "bytes \<Rightarrow> nat option" where
  "ustrlen s = ustrlen_from s 0"

definition umemset :: "nat \<Rightarrow> u32 \<Rightarrow> nat \<Rightarrow> bytes \<Rightarrow> bytes" where
  "umemset dst c n m = (\<lambda>a. if dst \<le> a \<and> a < dst + n then ucast c else m a)"

definition umemmove :: "nat \<Rightarrow> nat \<Rightarrow> int \<Rightarrow> bytes \<Rightarrow> bytes" where
  "umemmove dst src n m = copy_up dst src (nat n) m"

definition ustat :: "('w \<Rightarrow> int \<times> 'w) \<Rightarrow> (int \<Rightarrow> 'w \<Rightarrow> int \<times> 'w) \<Rightarrow> (int \<Rightarrow> 'w \<Rightarrow> 'w) \<Rightarrow> 'w \<Rightarrow> int \<times> 'w" where
  "ustat open_path fstat close w =
     (let (fd, w) = open_path w in
      if fd < 0 then (-1, w) else let (r, w) = fstat fd w in (r, close fd w))"

text \<open>The string at \<open>t\<close> has length \<open>l\<close>.\<close>

definition string_at :: "bytes \<Rightarrow> nat \<Rightarrow> nat \<Rightarrow> bool" where
  "string_at m t l = (m (t + l) = 0 \<and> (\<forall>i < l. m (t + i) \<noteq> 0))"

lemma string_at_Suc: "string_at m t (Suc l) \<longleftrightarrow> m t \<noteq> 0 \<and> string_at m (Suc t) l"
  by (auto simp: string_at_def All_less_Suc2)

lemma string_at_upd: "s < t \<or> t + l < s \<Longrightarrow> string_at (m(s := c)) t l = string_at m t l"
proof -
  assume "s < t \<or> t + l < s"
  then have "(m(s := c)) (t + i) = m (t + i)" if "i \<le> l" for i using that by auto
  then show ?thesis unfolding string_at_def by (metis less_imp_le_nat order_refl)
qed

text \<open>\<open>strcpy\<close> copies a string that the destination does not touch, with its zero, and nothing else.\<close>

theorem strcpy_copies_string:
  assumes "string_at m t l" and "s + l < t \<or> t + l < s"
  shows "ustrcpy s t m = Some (\<lambda>a. if s \<le> a \<and> a \<le> s + l then m (t + (a - s)) else m a)"
  unfolding ustrcpy_def using assms
proof (induction l arbitrary: s t m)
  case 0
  then show ?case by (subst strcpy_loop.simps) (auto simp: string_at_def fun_eq_iff)
next
  case (Suc l)
  let ?m = "m(s := m t)"
  have "string_at ?m (Suc t) l" using Suc.prems string_at_upd [of s "Suc t" l] by (auto simp: string_at_Suc simp del: fun_upd_apply)
  then have "strcpy_loop (Suc s) (Suc t) ?m = Some (\<lambda>a. if Suc s \<le> a \<and> a \<le> Suc s + l then ?m (Suc t + (a - Suc s)) else ?m a)"
    using Suc.prems(2) by (intro Suc.IH) (auto simp del: fun_upd_apply)
  also have "(\<lambda>a. if Suc s \<le> a \<and> a \<le> Suc s + l then ?m (Suc t + (a - Suc s)) else ?m a) = (\<lambda>a. if s \<le> a \<and> a \<le> s + Suc l then m (t + (a - s)) else m a)"
    using Suc.prems(2) by (auto simp: fun_eq_iff Suc_diff_Suc)
  finally show ?case using Suc.prems(1) by (subst strcpy_loop.simps) (simp add: string_at_Suc del: fun_upd_apply)
qed

lemma ustrlen_from_eq: "string_at m (t + n) l \<Longrightarrow> ustrlen_from (at_ptr m t) n = Some (n + l)"
proof (induction l arbitrary: n)
  case 0
  then show ?case by (subst ustrlen_from.simps) (simp add: string_at_def at_ptr_def)
next
  case (Suc l)
  then have "m (t + n) \<noteq> 0" "string_at m (t + Suc n) l" by (simp_all add: string_at_Suc)
  then show ?case using Suc.IH [of "Suc n"] by (subst ustrlen_from.simps) (simp add: at_ptr_def)
qed

lemma strlen_of_string: "string_at m t l \<Longrightarrow> ustrlen (at_ptr m t) = Some l"
  using ustrlen_from_eq [of m t 0 l] by (simp add: ustrlen_def)

text \<open>The user's \<open>memmove\<close> agrees with the kernel's when the destination is not inside the source behind its start; inside it smears.\<close>

lemma umemmove_agrees: "\<not> (src < dst \<and> dst < src + n) \<Longrightarrow> umemmove dst src (int n) m = memmove dst src n m"
proof -
  assume n: "\<not> (src < dst \<and> dst < src + n)"
  show ?thesis by (simp only: umemmove_def memmove_def if_not_P [OF n] nat_int)
qed

lemma umemmove_smears: "umemmove 1 0 2 m 2 = m 0 \<and> memmove 1 0 2 m 2 = m 1"
  by (simp add: umemmove_def memmove_def numeral_2_eq_2)

end
