(* ===== verification/Grep.thy ===== *)
theory Grep
  imports Ulib
begin

text \<open>
  \<open>user/grep.c\<close>: the pattern matcher, with its meaning, and the loop that cuts the input of
  \<open>read\<close> into lines inside the 1024-byte buffer.
\<close>

subsection \<open>The matcher\<close>

text \<open>
  Patterns and texts are C strings. \<open>matchhere\<close> and \<open>matchstar\<close> read \<open>re[1]\<close> one past the
  pattern's end at most, where the zero byte is.
\<close>

function matchhere :: "string \<Rightarrow> string \<Rightarrow> bool"
  and matchstar :: "char \<Rightarrow> string \<Rightarrow> string \<Rightarrow> bool" where
  "matchhere [] t = True"
| "matchhere (c # re) t =
     (if re \<noteq> [] \<and> hd re = CHR ''*'' then matchstar c (tl re) t
      else if c = CHR ''$'' \<and> re = [] then t = []
      else if t \<noteq> [] \<and> (c = CHR ''.'' \<or> c = hd t) then matchhere re (tl t)
      else False)"
| "matchstar c re t =
     (if matchhere re t then True
      else if t \<noteq> [] \<and> (hd t = c \<or> c = CHR ''.'') then matchstar c re (tl t)
      else False)"
  by pat_completeness auto
termination
proof (relation "measure (\<lambda>p. case p of Inl (re, t) \<Rightarrow> 2 * length re + length t
    | Inr (c, re, t) \<Rightarrow> 2 * length re + length t + 1)")
  show "wf (measure (\<lambda>p :: string \<times> string + char \<times> string \<times> string. case p of Inl (re, t) \<Rightarrow> 2 * length re + length t
    | Inr (c, re, t) \<Rightarrow> 2 * length re + length t + 1))" by simp
qed (auto simp: neq_Nil_conv)

declare matchhere.simps(2) [simp del] matchstar.simps [simp del]

fun match_from :: "string \<Rightarrow> string \<Rightarrow> bool" where
  "match_from re [] = matchhere re []"
| "match_from re (c # t) = (matchhere re (c # t) \<or> match_from re t)"

definition match :: "string \<Rightarrow> string \<Rightarrow> bool" where
  "match re t = (if re \<noteq> [] \<and> hd re = CHR ''^'' then matchhere (tl re) t else match_from re t)"

subsection \<open>What patterns mean\<close>

datatype item = One char | Many char | AtEnd

fun items :: "string \<Rightarrow> item list" where
  "items [] = []"
| "items [c] = (if c = CHR ''$'' then [AtEnd] else [One c])"
| "items (c # d # re) = (if d = CHR ''*'' then Many c # items re else One c # items (d # re))"

definition fits :: "char \<Rightarrow> char \<Rightarrow> bool" where
  "fits c d = (c = CHR ''.'' \<or> c = d)"

text \<open>
  \<open>denotes is s t\<close>: the items match exactly the text \<open>s\<close> when \<open>t\<close> follows it.
\<close>

inductive denotes :: "item list \<Rightarrow> string \<Rightarrow> string \<Rightarrow> bool" where
  den_nil: "denotes [] [] t"
| den_end: "denotes [AtEnd] [] []"
| den_one: "fits c d \<Longrightarrow> denotes is s t \<Longrightarrow> denotes (One c # is) (d # s) t"
| den_many: "\<forall>d \<in> set u. fits c d \<Longrightarrow> denotes is s t \<Longrightarrow> denotes (Many c # is) (u @ s) t"

inductive_cases den_nilE: "denotes [] s t"
inductive_cases den_endE: "denotes (AtEnd # is) s t"
inductive_cases den_oneE: "denotes (One c # is) s t"
inductive_cases den_manyE: "denotes (Many c # is) s t"

definition prefix_denoted :: "item list \<Rightarrow> string \<Rightarrow> bool" where
  "prefix_denoted is t = (\<exists>s r. t = s @ r \<and> denotes is s r)"

lemma prefix_denoted_nil [simp]: "prefix_denoted [] t"
  unfolding prefix_denoted_def by (rule exI [of _ "[]"]) (auto intro: den_nil)

lemma prefix_denoted_end: "prefix_denoted [AtEnd] t \<longleftrightarrow> t = []"
  unfolding prefix_denoted_def by (auto elim: den_endE intro: den_end)

lemma prefix_denoted_one:
  "prefix_denoted (One c # is) t \<longleftrightarrow> t \<noteq> [] \<and> fits c (hd t) \<and> prefix_denoted is (tl t)"
proof
  assume "prefix_denoted (One c # is) t"
  then show "t \<noteq> [] \<and> fits c (hd t) \<and> prefix_denoted is (tl t)"
    unfolding prefix_denoted_def by (fastforce elim: den_oneE)
next
  assume a: "t \<noteq> [] \<and> fits c (hd t) \<and> prefix_denoted is (tl t)"
  then obtain s r where s: "tl t = s @ r" "denotes is s r" unfolding prefix_denoted_def by blast
  then have "denotes (One c # is) (hd t # s) r" "t = (hd t # s) @ r" using a den_one by (auto simp: neq_Nil_conv)
  then show "prefix_denoted (One c # is) t" unfolding prefix_denoted_def by blast
qed

lemma prefix_denoted_many:
  "prefix_denoted (Many c # is) t
     \<longleftrightarrow> prefix_denoted is t \<or> t \<noteq> [] \<and> fits c (hd t) \<and> prefix_denoted (Many c # is) (tl t)"
proof
  assume "prefix_denoted (Many c # is) t"
  then obtain u s r where t: "t = u @ s @ r" and u: "\<forall>d \<in> set u. fits c d" and s: "denotes is s r"
    unfolding prefix_denoted_def by (auto elim!: den_manyE)
  show "prefix_denoted is t \<or> t \<noteq> [] \<and> fits c (hd t) \<and> prefix_denoted (Many c # is) (tl t)"
  proof (cases u)
    case Nil
    then show ?thesis using t s unfolding prefix_denoted_def by auto
  next
    case (Cons d v)
    then have "denotes (Many c # is) (v @ s) r" using u s by (auto intro: den_many)
    then have "prefix_denoted (Many c # is) (tl t)"
      using t Cons unfolding prefix_denoted_def by (intro exI [of _ "v @ s"] exI [of _ r]) simp
    then show ?thesis using t u Cons by simp
  qed
next
  assume "prefix_denoted is t \<or> t \<noteq> [] \<and> fits c (hd t) \<and> prefix_denoted (Many c # is) (tl t)"
  then show "prefix_denoted (Many c # is) t"
  proof
    assume "prefix_denoted is t"
    then obtain s r where "t = s @ r" "denotes is s r" unfolding prefix_denoted_def by blast
    moreover from this have "denotes (Many c # is) ([] @ s) r" by (intro den_many) auto
    ultimately show ?thesis unfolding prefix_denoted_def by auto
  next
    assume a: "t \<noteq> [] \<and> fits c (hd t) \<and> prefix_denoted (Many c # is) (tl t)"
    then obtain u s r where t: "tl t = u @ s @ r" and u: "\<forall>d \<in> set u. fits c d" and s: "denotes is s r"
      unfolding prefix_denoted_def by (auto elim!: den_manyE)
    have "denotes (Many c # is) ((hd t # u) @ s) r" using u s a by (intro den_many) auto
    moreover have "t = ((hd t # u) @ s) @ r" using t a by (auto simp: neq_Nil_conv)
    ultimately show ?thesis unfolding prefix_denoted_def by blast
  qed
qed

lemma items_star: "items (c # CHR ''*'' # re) = Many c # items re"
  by simp

lemma items_plain: "re = [] \<and> c \<noteq> CHR ''$'' \<or> re \<noteq> [] \<and> hd re \<noteq> CHR ''*'' \<Longrightarrow> items (c # re) = One c # items re"
  by (cases re) auto

text \<open>The matcher decides whether a prefix of the text is in the language of the pattern.\<close>

lemma matchhere_denotes:
  "matchhere re t \<longleftrightarrow> prefix_denoted (items re) t"
  "matchstar c re t \<longleftrightarrow> prefix_denoted (Many c # items re) t"
proof (induction re t and c re t rule: matchhere_matchstar.induct)
  case (2 c re t)
  consider "re \<noteq> []" "hd re = CHR ''*''" | "c = CHR ''$''" "re = []"
    | "\<not> (re \<noteq> [] \<and> hd re = CHR ''*'')" "\<not> (c = CHR ''$'' \<and> re = [])" by blast
  then show ?case
  proof cases
    case 1
    then have "items (c # re) = Many c # items (tl re)" by (cases re) auto
    then show ?thesis using 1 2(1) by (simp add: matchhere.simps(2))
  next
    case a: 2
    then show ?thesis by (simp add: matchhere.simps(2) prefix_denoted_end)
  next
    case 3
    then have "items (c # re) = One c # items re" by (intro items_plain) auto
    then show ?thesis using 3 2(2)
      by (auto simp: matchhere.simps(2) prefix_denoted_one fits_def)
  qed
next
  case (3 c re t)
  show ?case
    using 3 by (subst matchstar.simps, subst prefix_denoted_many) (auto simp: fits_def)
qed simp

lemma match_from_iff: "match_from re t \<longleftrightarrow> (\<exists>p u. t = p @ u \<and> matchhere re u)"
proof (induction t)
  case (Cons c t)
  have "(\<exists>p u. c # t = p @ u \<and> matchhere re u) \<longleftrightarrow> matchhere re (c # t) \<or> (\<exists>p u. t = p @ u \<and> matchhere re u)"
    by (metis append_Cons append_Nil list.inject neq_Nil_conv)
  then show ?case using Cons by simp
qed simp

subsection \<open>The line loop\<close>

text \<open>
  \<open>buf\<close> is the whole static buffer; positions are counted from its start. \<open>m\<close> is an \<open>int\<close>.
  An access outside the buffer is the error \<open>OutOfBuf\<close>.
\<close>

datatype buf_err = OutOfBuf

definition BUFSZ :: nat where "BUFSZ = 1024"

text \<open>\<open>strchr(p, '\n')\<close>: a position, or the end of the string (\<open>None\<close>).\<close>

function find_nl :: "string \<Rightarrow> nat \<Rightarrow> buf_err + nat option" where
  "find_nl buf p =
     (if p \<ge> length buf then Inl OutOfBuf
      else if buf ! p = NUL then Inr None
      else if buf ! p = CHR 0x0A then Inr (Some p)
      else find_nl buf (p + 1))"
  by auto
termination by (relation "measure (\<lambda>(buf, p). length buf - p)") auto

declare find_nl.simps [simp del]

text \<open>
  The inner loop: the lines that start at \<open>p\<close>. The written lines, and the last \<open>p\<close>. The newline of
  a line that does not match stays overwritten by a zero.
\<close>

function grep_lines :: "string \<Rightarrow> string \<Rightarrow> nat \<Rightarrow> buf_err + string list \<times> nat \<times> string" where
  "grep_lines pat buf p =
     (if p \<ge> length buf then Inl OutOfBuf
      else case find_nl buf p of
        Inl e \<Rightarrow> Inl e
      | Inr None \<Rightarrow> Inr ([], p, buf)
      | Inr (Some q) \<Rightarrow>
          if q < p then Inl OutOfBuf
          else (let line = take (q - p) (drop p buf) in
            if match pat line then
              bindE (grep_lines pat buf (q + 1)) (\<lambda>(out, r). Inr ((line @ [CHR 0x0A]) # out, r))
            else grep_lines pat (buf[q := NUL]) (q + 1)))"
  by pat_completeness auto
termination by (relation "measure (\<lambda>(pat, buf, p). length buf - p)") auto

declare grep_lines.simps [simp del]

lemma find_nl_ge: "find_nl buf p = Inr (Some q) \<Longrightarrow> p \<le> q \<and> q < length buf \<and> buf ! q = CHR 0x0A"
proof (induction buf p rule: find_nl.induct)
  case (1 buf p)
  then show ?case by (subst (asm) (2) find_nl.simps) (auto split: if_splits)
qed

text \<open>
  One turn of the outer loop, for the \<open>data\<close> that \<open>read\<close> puts at \<open>buf + m\<close>; the written lines,
  and the new buffer and \<open>m\<close>.
\<close>

definition overwrite :: "nat \<Rightarrow> string \<Rightarrow> string \<Rightarrow> string" where
  "overwrite p xs buf = take p buf @ xs @ drop (p + length xs) buf"

definition grep_read :: "string \<Rightarrow> string \<Rightarrow> string \<times> int \<Rightarrow> buf_err + string list \<times> string \<times> int" where
  "grep_read pat data st =
     (let (buf, m) = st in
      if m < 0 \<or> m + int (length data) > int BUFSZ then Inl OutOfBuf
      else
        (let buf1 = overwrite (nat m) data buf; m1 = m + int (length data) in
         bindE (grep_lines pat buf1 0) (\<lambda>(out, p, buf2).
           (let m2 = (if p = 0 then 0 else m1);
                m3 = (if m2 > 0 then m2 - int p else m2);
                buf3 = (if m2 > 0 then overwrite 0 (take (nat m3) (drop p buf2)) buf2 else buf2)
            in Inr (out, buf3, m3)))))"

fun grep_loop :: "string \<Rightarrow> string list \<Rightarrow> string \<times> int \<Rightarrow> buf_err + string list" where
  "grep_loop pat [] st = Inr []"
| "grep_loop pat (data # reads) st =
     bindE (grep_read pat data st) (\<lambda>(out, st').
       bindE (grep_loop pat reads st') (\<lambda>out'. Inr (out @ out')))"

definition grep :: "string \<Rightarrow> string list \<Rightarrow> buf_err + string list" where
  "grep pat reads = grep_loop pat reads (replicate BUFSZ NUL, 0)"

text \<open>Lines that arrive together in a fresh buffer.\<close>

definition plain_line :: "string \<Rightarrow> bool" where
  "plain_line l = (NUL \<notin> set l \<and> CHR 0x0A \<notin> set l)"

definition line_text :: "string \<Rightarrow> string" where
  "line_text l = l @ [CHR 0x0A]"

lemma find_nl_line:
  "plain_line l \<Longrightarrow> drop p buf = l @ CHR 0x0A # r \<Longrightarrow> find_nl buf p = Inr (Some (p + length l))"
proof (induction l arbitrary: p)
  case Nil
  then have "p < length buf" "buf ! p = CHR 0x0A"
    by (metis append_Nil drop_eq_Nil2 list.distinct(1) not_le_imp_less, metis append_Nil drop_eq_Nil2 hd_drop_conv_nth list.distinct(1) list.sel(1) not_le_imp_less)
  then show ?case by (simp add: find_nl.simps [of buf p] NUL_def)
next
  case (Cons c l)
  then have lt: "p < length buf" and c: "buf ! p = c" and d: "drop (Suc p) buf = l @ CHR 0x0A # r"
    by (metis append_Cons drop_eq_Nil2 list.distinct(1) not_le_imp_less,
        metis append_Cons drop_eq_Nil2 hd_drop_conv_nth list.distinct(1) list.sel(1) not_le_imp_less,
        metis append_Cons drop_Suc list.sel(3) tl_drop)
  have "plain_line l" "c \<noteq> NUL" "c \<noteq> CHR 0x0A" using Cons.prems(1) by (auto simp: plain_line_def)
  then show ?case using Cons.IH [of "Suc p"] lt c d by (simp add: find_nl.simps [of buf p])
qed

lemma find_nl_stop:
  assumes "drop p buf = NUL # r"
  shows "p < length buf" and "find_nl buf p = Inr None"
proof -
  show lt: "p < length buf" using assms by (metis drop_eq_Nil2 list.distinct(1) not_le_imp_less)
  have "buf ! p = NUL" using assms lt by (metis hd_drop_conv_nth list.sel(1))
  then show "find_nl buf p = Inr None" using lt by (simp add: find_nl.simps [of buf p])
qed

lemma grep_lines_all:
  "\<forall>l \<in> set ls. plain_line l \<Longrightarrow> drop p buf = concat (map line_text ls) @ NUL # r
     \<Longrightarrow> \<exists>q buf'. grep_lines pat buf p = Inr (map line_text (filter (match pat) ls), q, buf')"
proof (induction ls arbitrary: p buf)
  case Nil
  then have "drop p buf = NUL # r" by simp
  from find_nl_stop [OF this] show ?case by (simp add: grep_lines.simps [of pat buf p])
next
  case (Cons l ls)
  define rest where "rest = concat (map line_text ls) @ NUL # r"
  have d: "drop p buf = l @ CHR 0x0A # rest" using Cons.prems(2) by (simp add: line_text_def [of l] rest_def)
  have f: "find_nl buf p = Inr (Some (p + length l))"
    by (rule find_nl_line [OF _ d]) (use Cons.prems(1) in simp)
  have lt: "p < length buf" using d by (metis append_is_Nil_conv drop_eq_Nil2 list.distinct(1) not_le_imp_less)
  have line: "take (p + length l - p) (drop p buf) = l" by (simp add: d)
  have d2: "drop (p + length l + 1) b = rest"
    if "b = buf \<or> b = buf[p + length l := NUL]" for b
  proof -
    have "drop (p + length l + 1) buf = drop (length l + 1) (drop p buf)" by (simp add: add.commute add.left_commute)
    also have "\<dots> = rest" by (simp only: d) simp
    finally show ?thesis using that by auto
  qed
  have g: "grep_lines pat buf p = (if match pat l then
              bindE (grep_lines pat buf (p + length l + 1)) (\<lambda>(out, r). Inr (line_text l # out, r))
            else grep_lines pat (buf[p + length l := NUL]) (p + length l + 1))"
    using lt by (simp add: grep_lines.simps [of pat buf p] f line Let_def line_text_def [of l] d)
  obtain q1 b1 where r1: "grep_lines pat buf (p + length l + 1) = Inr (map line_text (filter (match pat) ls), q1, b1)"
    using Cons.IH [of "p + length l + 1" buf] Cons.prems(1) d2 [of buf] by (auto simp: rest_def)
  obtain q2 b2 where r2: "grep_lines pat (buf[p + length l := NUL]) (p + length l + 1)
      = Inr (map line_text (filter (match pat) ls), q2, b2)"
    using Cons.IH [of "p + length l + 1" "buf[p + length l := NUL]"] Cons.prems(1) d2 by (auto simp: rest_def)
  show ?case using g r1 r2 by auto
qed

lemma grep_one_read:
  assumes "\<forall>l \<in> set ls. plain_line l" and "length (concat (map line_text ls)) < BUFSZ"
  shows "grep pat [concat (map line_text ls)] = Inr (map line_text (filter (match pat) ls))"
proof -
  define data where "data = concat (map line_text ls)"
  define b where "b = overwrite 0 data (replicate BUFSZ NUL)"
  have lt: "length data < BUFSZ" using assms(2) by (simp add: data_def)
  then obtain k where k: "BUFSZ - length data = Suc k" by (metis Suc_diff_Suc)
  have "drop 0 b = concat (map line_text ls) @ NUL # replicate k NUL"
    by (simp add: b_def overwrite_def k data_def [symmetric])
  from grep_lines_all [OF assms(1) this] obtain q buf' where
    g: "grep_lines pat b 0 = Inr (map line_text (filter (match pat) ls), q, buf')" by blast
  then show ?thesis
    using lt by (simp add: grep_def grep_read_def Let_def data_def [symmetric] b_def [symmetric])
qed

subsection \<open>Properties\<close>

text \<open>C36: \<open>match\<close> decides the meaning of patterns: with \<open>^\<close> the rest of the pattern must denote a prefix
  of the text, without it a prefix of some suffix; \<open>c*\<close> stands for any number of \<open>c\<close>, \<open>.\<close> for any
  character and a final \<open>$\<close> for the end.\<close>

theorem match_denotes:
  "match re t \<longleftrightarrow>
     (if re \<noteq> [] \<and> hd re = CHR ''^'' then prefix_denoted (items (tl re)) t
      else \<exists>p u. t = p @ u \<and> prefix_denoted (items re) u)"
  by (simp add: match_def match_from_iff matchhere_denotes(1))

text \<open>When the whole input arrives in one \<open>read\<close> shorter than the buffer, \<open>grep\<close> writes exactly the
  matching lines, in order.\<close>

theorem grep_writes_matching_lines:
  assumes "\<forall>l \<in> set ls. plain_line l" and "length (concat (map line_text ls)) < BUFSZ"
  shows "grep pat [concat (map line_text ls)] = Inr (map line_text (filter (match pat) ls))"
  by (rule grep_one_read [OF assms])

theorem grep_writes_matching_lines_witness:
  "grep ''b'' [concat (map line_text [''ab'', ''c''])] = Inr [line_text ''ab'']"
proof -
  have "match ''b'' ''ab'' \<and> \<not> match ''b'' ''c''" by code_simp
  then show ?thesis
    using grep_writes_matching_lines [of "[''ab'', ''c'']" "''b''"]
    by (simp add: plain_line_def NUL_def line_text_def BUFSZ_def)
qed

text \<open>The buffer is not terminated after a \<open>read\<close>, so lines of an earlier one are searched again: for
  input \<open>aaaa\<close>, \<open>bbbb\<close> and then, in a second read, \<open>cc\<close> without a newline, \<open>grep a\<close> writes a line
  \<open>ccaa\<close> that is not in the input.\<close>

theorem grep_writes_spurious_line:
  "grep ''a'' [line_text ''aaaa'' @ line_text ''bbbb'', ''cc''] = Inr [line_text ''aaaa'', line_text ''ccaa'']"
  by code_simp

end
