(* ===== verification/Layout.thy ===== *)
theory Layout
  imports Prelude
begin

text \<open>
  The on-disk format of project 5, \<open>include/fs.h\<close>: the superblock, inodes, directory entries and
  the block bitmap as the bytes of 512-byte blocks, with what is written read back.
\<close>

definition BSIZE :: nat where "BSIZE = 512"
definition NDIRECT :: nat where "NDIRECT = 12"
definition NINDIRECT :: nat where "NINDIRECT = 128"
definition MAXFILE :: nat where "MAXFILE = 140"
definition IPB :: u32 where "IPB = 8"
definition BPB :: u32 where "BPB = 4096"
definition DIRSIZ :: nat where "DIRSIZ = 14"
definition ROOTINO :: u32 where "ROOTINO = 1"

definition T_DIR :: u16 where "T_DIR = 1"
definition T_FILE :: u16 where "T_FILE = 2"
definition T_DEV :: u16 where "T_DEV = 3"
definition T_CHECKED :: u16 where "T_CHECKED = 4"

type_synonym block = "u8 list"

definition is_block :: "block \<Rightarrow> bool" where
  "is_block b = (length b = BSIZE)"

record superblock =
  sb_size :: u32
  sb_nblocks :: u32
  sb_ninodes :: u32

record dinode =
  itype :: u16
  imajor :: u16
  iminor :: u16
  inlink :: u16
  isize :: u32
  addrs :: "u32 list"

record dirent =
  de_inum :: u16
  de_name :: "u8 list"

text \<open>\<open>IBLOCK\<close> and \<open>BBLOCK\<close>.\<close>

definition IBLOCK :: "u32 \<Rightarrow> u32" where
  "IBLOCK i = i div IPB + 2"

definition BBLOCK :: "u32 \<Rightarrow> u32 \<Rightarrow> u32" where
  "BBLOCK b ninodes = b div BPB + ninodes div IPB + 3"

subsection \<open>Bytes at an offset\<close>

definition bytes_at :: "nat \<Rightarrow> nat \<Rightarrow> u8 list \<Rightarrow> u8 list" where
  "bytes_at off n b = take n (drop off b)"

definition put_bytes :: "nat \<Rightarrow> u8 list \<Rightarrow> u8 list \<Rightarrow> u8 list" where
  "put_bytes off xs b = take off b @ xs @ drop (off + length xs) b"

lemma length_put_bytes [simp]: "off + length xs \<le> length b \<Longrightarrow> length (put_bytes off xs b) = length b"
  by (simp add: put_bytes_def)

lemma length_bytes_at [simp]: "off + n \<le> length b \<Longrightarrow> length (bytes_at off n b) = n"
  by (simp add: bytes_at_def)

lemma bytes_at_put_bytes [simp]:
  "off + length xs \<le> length b \<Longrightarrow> n = length xs \<Longrightarrow> bytes_at off n (put_bytes off xs b) = xs"
  by (simp add: bytes_at_def put_bytes_def)

lemma put_bytes_nth:
  assumes "off + length xs \<le> length b" and "k < length b"
  shows "put_bytes off xs b ! k = (if off \<le> k \<and> k < off + length xs then xs ! (k - off) else b ! k)"
  using assms by (auto simp: put_bytes_def nth_append min_def)

lemma bytes_at_put_bytes_other:
  assumes "off + length xs \<le> length b" and "p + n \<le> off \<or> off + length xs \<le> p" and "p + n \<le> length b"
  shows "bytes_at p n (put_bytes off xs b) = bytes_at p n b"
proof (rule nth_equalityI)
  show "length (bytes_at p n (put_bytes off xs b)) = length (bytes_at p n b)" using assms by simp
  fix i assume "i < length (bytes_at p n (put_bytes off xs b))"
  then have "i < n" using assms by simp
  then show "bytes_at p n (put_bytes off xs b) ! i = bytes_at p n b ! i"
    using assms by (auto simp: bytes_at_def put_bytes_nth)
qed

lemma put_bytes_same: "off + n \<le> length b \<Longrightarrow> put_bytes off (bytes_at off n b) b = b"
  by (simp add: put_bytes_def bytes_at_def) (metis append_assoc append_take_drop_id take_add add.commute)

definition words_of :: "nat \<Rightarrow> u8 list \<Rightarrow> u32 list" where
  "words_of n b = map (\<lambda>k. word32 (drop (4 * k) b)) [0..<n]"

lemma words_of_concat:
  "length ws = n \<Longrightarrow> words_of n (concat (map le32 ws) @ r) = ws"
proof -
  assume n: "length ws = n"
  have d: "word32 (drop (4 * k) (concat (map le32 ws) @ r)) = ws ! k" if "k < length ws" for k
    using that
  proof (induction ws arbitrary: k)
    case (Cons w ws)
    show ?case
    proof (cases k)
      case 0
      then show ?thesis by simp
    next
      case (Suc j)
      then have "drop (4 * k) (concat (map le32 (w # ws)) @ r) = drop (4 * j) (concat (map le32 ws) @ r)"
        by simp
      then show ?thesis using Cons Suc by simp
    qed
  qed simp
  show ?thesis by (rule nth_equalityI) (use n d in \<open>auto simp: words_of_def\<close>)
qed

lemma length_words_of [simp]: "length (words_of n b) = n"
  by (simp add: words_of_def)

subsection \<open>Superblock\<close>

definition dec_superblock :: "block \<Rightarrow> superblock" where
  "dec_superblock b = \<lparr>sb_size = word32 b, sb_nblocks = word32 (drop 4 b), sb_ninodes = word32 (drop 8 b)\<rparr>"

definition enc_superblock :: "superblock \<Rightarrow> u8 list" where
  "enc_superblock sb = le32 (sb_size sb) @ le32 (sb_nblocks sb) @ le32 (sb_ninodes sb)"

lemma superblock_roundtrip: "dec_superblock (enc_superblock sb @ r) = sb"
  by (simp add: dec_superblock_def enc_superblock_def)

subsection \<open>Inodes\<close>

definition enc_dinode :: "'a dinode_scheme \<Rightarrow> u8 list" where
  "enc_dinode d = le16 (itype d) @ le16 (imajor d) @ le16 (iminor d) @ le16 (inlink d) @ le32 (isize d)
     @ concat (map le32 (addrs d))"

definition dec_dinode :: "u8 list \<Rightarrow> dinode" where
  "dec_dinode b = \<lparr>itype = word16 b, imajor = word16 (drop 2 b), iminor = word16 (drop 4 b),
     inlink = word16 (drop 6 b), isize = word32 (drop 8 b), addrs = words_of (NDIRECT + 1) (drop 12 b)\<rparr>"

text \<open>\<open>(struct dinode*)bp->data + inum%IPB\<close>, read and written.\<close>

definition get_dinode :: "u32 \<Rightarrow> block \<Rightarrow> dinode" where
  "get_dinode inum b = dec_dinode (bytes_at (64 * unat (inum mod IPB)) 64 b)"

definition put_dinode :: "u32 \<Rightarrow> 'a dinode_scheme \<Rightarrow> block \<Rightarrow> block" where
  "put_dinode inum d b = put_bytes (64 * unat (inum mod IPB)) (enc_dinode d) b"

lemma length_enc_dinode: "length (addrs d) = NDIRECT + 1 \<Longrightarrow> length (enc_dinode d) = 64"
  by (simp add: enc_dinode_def NDIRECT_def)

lemma dinode_roundtrip:
  assumes "length (addrs d) = NDIRECT + 1"
  shows "dec_dinode (enc_dinode d @ r) = \<lparr>itype = itype d, imajor = imajor d, iminor = iminor d,
     inlink = inlink d, isize = isize d, addrs = addrs d\<rparr>"
  using words_of_concat [OF assms, of r] by (simp add: dec_dinode_def enc_dinode_def)

lemma slot_bound: "unat (inum mod IPB) < 8"
proof -
  have "inum mod IPB < IPB" by (simp add: IPB_def word_mod_less_divisor)
  then show ?thesis by (simp add: IPB_def word_less_nat_alt)
qed

lemma get_put_dinode:
  assumes "is_block b" and "length (addrs d) = NDIRECT + 1"
  shows "get_dinode inum (put_dinode inum d b) = \<lparr>itype = itype d, imajor = imajor d, iminor = iminor d,
     inlink = inlink d, isize = isize d, addrs = addrs d\<rparr>"
proof -
  have "64 * unat (inum mod IPB) + 64 \<le> length b"
    using assms(1) slot_bound [of inum] by (simp add: is_block_def BSIZE_def)
  then show ?thesis
    using dinode_roundtrip [OF assms(2), of "[]"] length_enc_dinode [OF assms(2)]
    by (simp add: get_dinode_def put_dinode_def)
qed

lemma get_put_dinode_other:
  assumes "is_block b" and "length (addrs d) = NDIRECT + 1" and "inum mod IPB \<noteq> other mod IPB"
  shows "get_dinode other (put_dinode inum d b) = get_dinode other b"
proof -
  have ne: "unat (inum mod IPB) \<noteq> unat (other mod IPB)" using assms(3) by (simp add: word_unat_eq_iff)
  have "64 * unat (inum mod IPB) + 64 \<le> length b" "64 * unat (other mod IPB) + 64 \<le> length b"
    using assms(1) slot_bound [of inum] slot_bound [of other] by (simp_all add: is_block_def BSIZE_def)
  moreover have "64 * unat (other mod IPB) + 64 \<le> 64 * unat (inum mod IPB)
      \<or> 64 * unat (inum mod IPB) + 64 \<le> 64 * unat (other mod IPB)" using ne by linarith
  ultimately show ?thesis
    using length_enc_dinode [OF assms(2)] by (simp add: get_dinode_def put_dinode_def bytes_at_put_bytes_other)
qed

lemma is_block_put_dinode:
  assumes "is_block b" and "length (addrs d) = NDIRECT + 1"
  shows "is_block (put_dinode inum d b)"
proof -
  have "64 * unat (inum mod IPB) + 64 \<le> length b"
    using assms(1) slot_bound [of inum] by (simp add: is_block_def BSIZE_def)
  then show ?thesis using assms length_enc_dinode [OF assms(2)] by (simp add: put_dinode_def is_block_def)
qed

subsection \<open>Directory entries\<close>

definition enc_dirent :: "dirent \<Rightarrow> u8 list" where
  "enc_dirent de = le16 (de_inum de) @ de_name de"

definition dec_dirent :: "u8 list \<Rightarrow> dirent" where
  "dec_dirent b = \<lparr>de_inum = word16 b, de_name = take DIRSIZ (drop 2 b)\<rparr>"

lemma dirent_roundtrip: "length (de_name de) = DIRSIZ \<Longrightarrow> dec_dirent (enc_dirent de @ r) = de"
  by (simp add: dec_dirent_def enc_dirent_def)

subsection \<open>Pointers in a block\<close>

definition get_ptr :: "nat \<Rightarrow> block \<Rightarrow> u32" where
  "get_ptr k b = word32 (bytes_at (4 * k) 4 b)"

definition put_ptr :: "nat \<Rightarrow> u32 \<Rightarrow> block \<Rightarrow> block" where
  "put_ptr k a b = put_bytes (4 * k) (le32 a) b"

lemma get_put_ptr:
  assumes "is_block b" and "k < NINDIRECT" and "j < NINDIRECT"
  shows "get_ptr j (put_ptr k a b) = (if j = k then a else get_ptr j b)"
proof -
  have l: "4 * k + 4 \<le> length b" "4 * j + 4 \<le> length b"
    using assms by (simp_all add: is_block_def BSIZE_def NINDIRECT_def)
  show ?thesis
  proof (cases "j = k")
    case False
    then have "4 * j + 4 \<le> 4 * k \<or> 4 * k + 4 \<le> 4 * j" by linarith
    then show ?thesis using False l by (simp add: get_ptr_def put_ptr_def bytes_at_put_bytes_other)
  qed (use l in \<open>simp add: get_ptr_def put_ptr_def\<close>)
qed

subsection \<open>The bitmap\<close>

text \<open>\<open>data[bi/8] & (1 << (bi % 8))\<close>, and setting and clearing the bit.\<close>

definition bit_set :: "nat \<Rightarrow> block \<Rightarrow> bool" where
  "bit_set bi b = (b ! (bi div 8) AND push_bit (bi mod 8) 1 \<noteq> 0)"

definition set_bit_at :: "nat \<Rightarrow> block \<Rightarrow> block" where
  "set_bit_at bi b = b[bi div 8 := b ! (bi div 8) OR push_bit (bi mod 8) 1]"

definition clear_bit_at :: "nat \<Rightarrow> block \<Rightarrow> block" where
  "clear_bit_at bi b = b[bi div 8 := b ! (bi div 8) AND NOT (push_bit (bi mod 8) 1)]"

lemma bit_set_iff: "bit_set bi b \<longleftrightarrow> bit (b ! (bi div 8)) (bi mod 8)"
  by (simp only: bit_set_def bit_iff_and_push_bit_not_eq_0)

lemma byte_index: "is_block b \<Longrightarrow> bi < 4096 \<Longrightarrow> bi div 8 < length b"
  by (simp add: is_block_def BSIZE_def less_mult_imp_div_less)

lemma same_bit: "bi div 8 = bj div 8 \<Longrightarrow> bi mod 8 = bj mod 8 \<Longrightarrow> bi = (bj::nat)"
  by (metis div_mult_mod_eq)

lemma byte_bits:
  assumes "i < 8" and "j < 8"
  shows "bit ((w::u8) OR push_bit i 1) j \<longleftrightarrow> j = i \<or> bit w j"
    and "bit (w AND NOT (push_bit i 1)) j \<longleftrightarrow> j \<noteq> i \<and> bit w j"
  using assms by (auto simp: bit_simps)

lemma bit_set_set_bit:
  assumes "is_block b" and "bi < 4096" and "bj < 4096"
  shows "bit_set bj (set_bit_at bi b) \<longleftrightarrow> bj = bi \<or> bit_set bj b"
proof (cases "bi div 8 = bj div 8")
  case True
  then have "bit_set bj (set_bit_at bi b) \<longleftrightarrow> bj mod 8 = bi mod 8 \<or> bit_set bj b"
    using byte_index [OF assms(1,2)] byte_bits(1) [of "bi mod 8" "bj mod 8"] by (simp add: bit_set_iff set_bit_at_def)
  moreover have "bj mod 8 = bi mod 8 \<longleftrightarrow> bj = bi" using same_bit [OF True] by metis
  ultimately show ?thesis by simp
next
  case False
  then have "bj \<noteq> bi" by metis
  then show ?thesis using False by (simp add: bit_set_iff set_bit_at_def)
qed

lemma bit_set_clear_bit:
  assumes "is_block b" and "bi < 4096" and "bj < 4096"
  shows "bit_set bj (clear_bit_at bi b) \<longleftrightarrow> bj \<noteq> bi \<and> bit_set bj b"
proof (cases "bi div 8 = bj div 8")
  case True
  then have "bit_set bj (clear_bit_at bi b) \<longleftrightarrow> bj mod 8 \<noteq> bi mod 8 \<and> bit_set bj b"
    using byte_index [OF assms(1,2)] byte_bits(2) [of "bi mod 8" "bj mod 8"] by (simp add: bit_set_iff clear_bit_at_def)
  moreover have "bj mod 8 = bi mod 8 \<longleftrightarrow> bj = bi" using same_bit [OF True] by metis
  ultimately show ?thesis by simp
next
  case False
  then have "bj \<noteq> bi" by metis
  then show ?thesis using False by (simp add: bit_set_iff clear_bit_at_def)
qed

lemma is_block_bits [simp]: "is_block (set_bit_at bi b) = is_block b" "is_block (clear_bit_at bi b) = is_block b"
  by (simp_all add: is_block_def set_bit_at_def clear_bit_at_def)

end
