(* ===== verification/Bio.thy ===== *)
theory Bio
  imports Layout
begin

text \<open>
  The buffer cache, \<open>kernel/bio.c\<close>, over the disk requests of \<open>kernel/ide.c\<close>; and the interface
  \<open>block_device\<close> that the file system relies on. The cache is the list of its buffers in the
  order of the links from \<open>head.next\<close> on, most recently used first. A buffer pointer that
  \<open>bread\<close> returned is named by the device and sector of the buffer, which no other buffer in
  use shares. A request of \<open>iderw\<close> is complete when it returns.
\<close>

definition NBUF :: nat where "NBUF = 10"

record buf =
  bdev :: u32
  bsector :: u32
  busy :: bool
  valid :: bool
  dirty :: bool
  bdata :: block

record bcache =
  bufs :: "buf list"
  disk :: "u32 \<Rightarrow> u32 \<Rightarrow> block"
  havedisk1 :: bool

definition fresh_buf :: buf where
  "fresh_buf = \<lparr>bdev = -1, bsector = 0, busy = False, valid = False, dirty = False, bdata = replicate BSIZE 0\<rparr>"

definition binit :: "(u32 \<Rightarrow> u32 \<Rightarrow> block) \<Rightarrow> bool \<Rightarrow> bcache" where
  "binit d two = \<lparr>bufs = replicate NBUF fresh_buf, disk = d, havedisk1 = two\<rparr>"

definition upd_buf :: "nat \<Rightarrow> (buf \<Rightarrow> buf) \<Rightarrow> bcache \<Rightarrow> bcache" where
  "upd_buf i f c = c\<lparr>bufs := (bufs c)[i := f (bufs c ! i)]\<rparr>"

definition find_buf :: "u32 \<Rightarrow> u32 \<Rightarrow> bcache \<Rightarrow> nat option" where
  "find_buf dev sector c = first_idx (\<lambda>b. bdev b = dev \<and> bsector b = sector) (bufs c)"

text \<open>The scan from \<open>head.prev\<close>, the least recently used buffer, backwards.\<close>

definition last_free :: "bcache \<Rightarrow> nat option" where
  "last_free c = map_option (\<lambda>k. length (bufs c) - 1 - k) (first_idx (\<lambda>b. \<not> busy b) (rev (bufs c)))"

text \<open>\<open>bget\<close>: \<open>Blocked\<close> when another user holds the block, for which it sleeps.\<close>

definition bget :: "u32 \<Rightarrow> u32 \<Rightarrow> bcache \<Rightarrow> kerr + nat \<times> bcache" where
  "bget dev sector c =
     (case find_buf dev sector c of
        Some i \<Rightarrow> if \<not> busy (bufs c ! i) then Inr (i, upd_buf i (\<lambda>b. b\<lparr>busy := True\<rparr>) c) else Inl Blocked
      | None \<Rightarrow>
          (case last_free c of
             Some i \<Rightarrow> Inr (i, upd_buf i (\<lambda>b. b\<lparr>bdev := dev, bsector := sector, busy := True,
                         valid := False, dirty := False\<rparr>) c)
           | None \<Rightarrow> Inl (Panic ''bget: no buffers'')))"

text \<open>\<open>iderw\<close>: write the buffer if it is dirty, read it otherwise.\<close>

definition iderw :: "nat \<Rightarrow> bcache \<Rightarrow> kerr + bcache" where
  "iderw i c =
     (let b = bufs c ! i in
      if \<not> busy b then Inl (Panic ''iderw: buf not busy'')
      else if valid b \<and> \<not> dirty b then Inl (Panic ''iderw: nothing to do'')
      else if bdev b \<noteq> 0 \<and> \<not> havedisk1 c then Inl (Panic ''iderw: ide disk 1 not present'')
      else if dirty b then
        Inr ((upd_buf i (\<lambda>b. b\<lparr>valid := True, dirty := False\<rparr>) c)
               \<lparr>disk := (disk c)(bdev b := (disk c (bdev b))(bsector b := bdata b))\<rparr>)
      else Inr (upd_buf i (\<lambda>b. b\<lparr>valid := True, dirty := False, bdata := disk c (bdev b) (bsector b)\<rparr>) c))"

definition bread :: "u32 \<Rightarrow> u32 \<Rightarrow> bcache \<Rightarrow> kerr + block \<times> bcache" where
  "bread dev sector c =
     bindE (bget dev sector c) (\<lambda>(i, c1).
       bindE (if \<not> valid (bufs c1 ! i) then iderw i c1 else Inr c1) (\<lambda>c2.
         Inr (bdata (bufs c2 ! i), c2)))"

text \<open>\<open>bwrite\<close> of the buffer of a block, whose bytes the caller has changed to \<open>data\<close>.\<close>

definition bwrite :: "u32 \<Rightarrow> u32 \<Rightarrow> block \<Rightarrow> bcache \<Rightarrow> kerr + bcache" where
  "bwrite dev sector data c =
     (case find_buf dev sector c of
        None \<Rightarrow> Inl (Panic ''bwrite'')
      | Some i \<Rightarrow> if \<not> busy (bufs c ! i) then Inl (Panic ''bwrite'')
                  else iderw i (upd_buf i (\<lambda>b. b\<lparr>bdata := data, dirty := True\<rparr>) c))"

text \<open>\<open>brelse\<close> moves the buffer to the front.\<close>

definition brelse :: "u32 \<Rightarrow> u32 \<Rightarrow> bcache \<Rightarrow> kerr + bcache" where
  "brelse dev sector c =
     (case find_buf dev sector c of
        None \<Rightarrow> Inl (Panic ''brelse'')
      | Some i \<Rightarrow>
          if \<not> busy (bufs c ! i) then Inl (Panic ''brelse'')
          else Inr (c\<lparr>bufs := (bufs c ! i)\<lparr>busy := False\<rparr> # (take i (bufs c) @ drop (Suc i) (bufs c))\<rparr>))"

subsection \<open>The interface of the file system\<close>

locale block_device =
  fixes rd :: "u32 \<Rightarrow> u32 \<Rightarrow> 'b \<Rightarrow> kerr + block \<times> 'b"
    and wr :: "u32 \<Rightarrow> u32 \<Rightarrow> block \<Rightarrow> 'b \<Rightarrow> kerr + 'b"
    and rl :: "u32 \<Rightarrow> u32 \<Rightarrow> 'b \<Rightarrow> kerr + 'b"
    and view :: "'b \<Rightarrow> u32 \<Rightarrow> u32 \<Rightarrow> block"
    and held :: "'b \<Rightarrow> (u32 \<times> u32) set"
    and room :: nat
    and usable :: "'b \<Rightarrow> u32 \<Rightarrow> bool"
    and inv :: "'b \<Rightarrow> bool"
  assumes rd_ok: "inv b \<Longrightarrow> usable b d \<Longrightarrow> (d, s) \<notin> held b \<Longrightarrow> card (held b) < room
      \<Longrightarrow> \<exists>b'. rd d s b = Inr (view b d s, b') \<and> inv b' \<and> held b' = insert (d, s) (held b)
            \<and> view b' = view b \<and> (\<forall>e. usable b' e = usable b e)"
    and wr_ok: "inv b \<Longrightarrow> (d, s) \<in> held b \<Longrightarrow> is_block x
      \<Longrightarrow> \<exists>b'. wr d s x b = Inr b' \<and> inv b' \<and> held b' = held b
            \<and> view b' = (view b)(d := (view b d)(s := x)) \<and> (\<forall>e. usable b' e = usable b e)"
    and rl_ok: "inv b \<Longrightarrow> (d, s) \<in> held b
      \<Longrightarrow> \<exists>b'. rl d s b = Inr b' \<and> inv b' \<and> held b' = held b - {(d, s)}
            \<and> view b' = view b \<and> (\<forall>e. usable b' e = usable b e)"
    and view_block: "inv b \<Longrightarrow> is_block (view b d s)"
    and held_finite: "inv b \<Longrightarrow> finite (held b)"
begin

text \<open>The idiom of the file system: read a block, look at it, release it.\<close>

lemma rd_rl:
  assumes "inv b" and "usable b d" and "(d, s) \<notin> held b" and "card (held b) < room"
  shows "\<exists>b'. bindE (rd d s b) (\<lambda>(x, b1). bindE (rl d s b1) (\<lambda>b2. Inr (f x, b2))) = Inr (f (view b d s), b')
           \<and> inv b' \<and> held b' = held b \<and> view b' = view b \<and> (\<forall>e. usable b' e = usable b e)"
proof -
  obtain b1 where b1: "rd d s b = Inr (view b d s, b1)" "inv b1" "held b1 = insert (d, s) (held b)"
      "view b1 = view b" "\<forall>e. usable b1 e = usable b e"
    using rd_ok [OF assms] by blast
  obtain b2 where b2: "rl d s b1 = Inr b2" "inv b2" "held b2 = held b1 - {(d, s)}" "view b2 = view b1"
      "\<forall>e. usable b2 e = usable b1 e"
    using rl_ok [OF b1(2), of d s] b1(3) by auto
  show ?thesis using b1 b2 assms(3) by (intro exI [of _ b2]) auto
qed

text \<open>Read a block, change it, write it back, release it.\<close>

lemma rd_wr_rl:
  assumes "inv b" and "usable b d" and "(d, s) \<notin> held b" and "card (held b) < room" and "is_block (f (view b d s))"
  shows "\<exists>b'. bindE (rd d s b) (\<lambda>(x, b1). bindE (wr d s (f x) b1) (\<lambda>b2. rl d s b2)) = Inr b'
           \<and> inv b' \<and> held b' = held b \<and> view b' = (view b)(d := (view b d)(s := f (view b d s)))
           \<and> (\<forall>e. usable b' e = usable b e)"
proof -
  obtain b1 where b1: "rd d s b = Inr (view b d s, b1)" "inv b1" "held b1 = insert (d, s) (held b)"
      "view b1 = view b" "\<forall>e. usable b1 e = usable b e"
    using rd_ok [OF assms(1-4)] by blast
  obtain b2 where b2: "wr d s (f (view b d s)) b1 = Inr b2" "inv b2" "held b2 = held b1"
      "view b2 = (view b1)(d := (view b1 d)(s := f (view b d s)))" "\<forall>e. usable b2 e = usable b1 e"
    using wr_ok [OF b1(2), of d s "f (view b d s)"] b1(3) assms(5) by auto
  obtain b3 where b3: "rl d s b2 = Inr b3" "inv b3" "held b3 = held b2 - {(d, s)}" "view b3 = view b2"
      "\<forall>e. usable b3 e = usable b2 e"
    using rl_ok [OF b2(2), of d s] b1(3) b2(3) by auto
  show ?thesis using b1 b2 b3 assms(3) by (intro exI [of _ b3]) auto
qed

end

subsection \<open>The cache implements it\<close>

text \<open>
  The buffers in use (\<open>bdev\<close> is not the -1 of \<open>binit\<close>) are valid, clean copies of different
  blocks; a busy buffer is in use.
\<close>

definition bkey :: "buf \<Rightarrow> u32 \<times> u32" where
  "bkey b = (bdev b, bsector b)"

definition buf_ok :: "bcache \<Rightarrow> buf \<Rightarrow> bool" where
  "buf_ok c b = (if bdev b = -1 then \<not> busy b
     else valid b \<and> \<not> dirty b \<and> bdata b = disk c (bdev b) (bsector b) \<and> (bdev b = 0 \<or> havedisk1 c))"

definition used_bufs :: "bcache \<Rightarrow> buf list" where
  "used_bufs c = filter (\<lambda>b. bdev b \<noteq> -1) (bufs c)"

definition bcache_inv :: "bcache \<Rightarrow> bool" where
  "bcache_inv c = (length (bufs c) = NBUF \<and> (\<forall>b \<in> set (bufs c). buf_ok c b)
     \<and> distinct (map bkey (used_bufs c)) \<and> (\<forall>d s. is_block (disk c d s)))"

definition held_blocks :: "bcache \<Rightarrow> (u32 \<times> u32) set" where
  "held_blocks c = bkey ` {b \<in> set (bufs c). busy b}"

definition usable_dev :: "bcache \<Rightarrow> u32 \<Rightarrow> bool" where
  "usable_dev c d = (d \<noteq> -1 \<and> (d = 0 \<or> havedisk1 c))"

lemma bcache_inv_binit: "\<forall>d s. is_block (f d s) \<Longrightarrow> bcache_inv (binit f two) \<and> held_blocks (binit f two) = {}"
  by (simp add: bcache_inv_def binit_def buf_ok_def used_bufs_def fresh_buf_def held_blocks_def)

lemma first_idx_split:
  assumes "first_idx P xs = Some i"
  shows "\<exists>us y vs. xs = us @ y # vs \<and> length us = i \<and> P y \<and> (\<forall>u \<in> set us. \<not> P u)"
proof -
  note i = first_idx_SomeD [OF assms]
  have "xs = take i xs @ xs ! i # drop (Suc i) xs" using i(1) by (rule id_take_nth_drop)
  moreover have "\<forall>u \<in> set (take i xs). \<not> P u" using i(3) by (auto simp: in_set_conv_nth)
  ultimately show ?thesis using i by (metis length_take min.absorb4)
qed

lemma find_buf_Some:
  assumes "find_buf d s c = Some i"
  shows "\<exists>us b vs. bufs c = us @ b # vs \<and> length us = i \<and> bkey b = (d, s)"
  using first_idx_split [OF assms [unfolded find_buf_def]] by (auto simp: bkey_def)

lemma find_buf_None: "find_buf d s c = None \<Longrightarrow> b \<in> set (bufs c) \<Longrightarrow> bkey b \<noteq> (d, s)"
  by (auto simp: find_buf_def first_idx_None_iff bkey_def)

lemma last_free_Some:
  assumes "last_free c = Some i"
  shows "\<exists>us b vs. bufs c = us @ b # vs \<and> length us = i \<and> \<not> busy b"
proof -
  obtain k where k: "first_idx (\<lambda>b. \<not> busy b) (rev (bufs c)) = Some k" "i = length (bufs c) - 1 - k"
    using assms by (auto simp: last_free_def)
  obtain us y vs where s: "rev (bufs c) = us @ y # vs" "length us = k" "\<not> busy y"
    using first_idx_split [OF k(1)] by blast
  have "bufs c = rev vs @ y # rev us" using s(1) by (metis append.assoc append_Cons append_Nil rev.simps(2) rev_append rev_rev_ident)
  moreover from this have "length (rev vs) = i" using k(2) s(2) by simp
  ultimately show ?thesis using s(3) by blast
qed

lemma last_free_None: "last_free c = None \<Longrightarrow> b \<in> set (bufs c) \<Longrightarrow> busy b"
  by (auto simp: last_free_def first_idx_None_iff)

lemma upd_buf_split:
  "bufs c = us @ b # vs \<Longrightarrow> length us = i \<Longrightarrow> upd_buf i f c = c\<lparr>bufs := us @ f b # vs\<rparr>"
  by (auto simp: upd_buf_def)

text \<open>The invariant and the held blocks around one buffer.\<close>

lemma bcache_inv_split:
  assumes "bufs c = us @ b # vs"
  shows "bcache_inv c \<longleftrightarrow> length us + length vs + 1 = NBUF \<and> buf_ok c b
      \<and> (\<forall>x \<in> set us \<union> set vs. buf_ok c x)
      \<and> distinct (map bkey (filter (\<lambda>b. bdev b \<noteq> -1) (us @ vs)))
      \<and> (bdev b \<noteq> -1 \<longrightarrow> bkey b \<notin> bkey ` {x \<in> set us \<union> set vs. bdev x \<noteq> -1})
      \<and> (\<forall>d s. is_block (disk c d s))"
  unfolding bcache_inv_def used_bufs_def assms by auto

lemma held_split:
  assumes "bufs c = us @ b # vs"
  shows "held_blocks c = (if busy b then {bkey b} else {}) \<union> bkey ` {x \<in> set us \<union> set vs. busy x}"
  by (auto simp: held_blocks_def assms)

lemma all_busy_held:
  assumes "bcache_inv c" and "\<forall>b \<in> set (bufs c). busy b"
  shows "card (held_blocks c) = NBUF"
proof -
  have "\<forall>b \<in> set (bufs c). bdev b \<noteq> -1" using assms by (auto simp: bcache_inv_def buf_ok_def split: if_splits)
  then have "used_bufs c = bufs c" by (auto simp: used_bufs_def filter_id_conv)
  then have "distinct (map bkey (bufs c))" "length (bufs c) = NBUF" using assms(1) by (auto simp: bcache_inv_def)
  moreover have "held_blocks c = set (map bkey (bufs c))" using assms(2) by (auto simp: held_blocks_def)
  ultimately show ?thesis using distinct_card by (metis length_map)
qed

lemma busy_used: "buf_ok c b \<Longrightarrow> busy b \<Longrightarrow> bdev b \<noteq> -1"
  by (auto simp: buf_ok_def split: if_splits)

lemma other_key:
  assumes inv: "bcache_inv c" and b: "bufs c = us @ b # vs" "bdev b \<noteq> -1" and y: "y \<in> set us \<union> set vs"
  shows "bkey y \<noteq> bkey b"
proof
  assume e: "bkey y = bkey b"
  then have "bdev y \<noteq> -1" using b(2) by (simp add: bkey_def)
  then have "bkey b \<in> bkey ` {x \<in> set us \<union> set vs. bdev x \<noteq> -1}" using e y by (metis (mono_tags, lifting) image_eqI mem_Collect_eq)
  then show False using inv b(2) unfolding bcache_inv_split [OF b(1)] by blast
qed

lemma bread_ok:
  assumes inv: "bcache_inv c" and u: "usable_dev c d" and nh: "(d, s) \<notin> held_blocks c"
    and room: "card (held_blocks c) < NBUF"
  shows "\<exists>c'. bread d s c = Inr (disk c d s, c') \<and> bcache_inv c' \<and> held_blocks c' = insert (d, s) (held_blocks c)
      \<and> disk c' = disk c \<and> (\<forall>e. usable_dev c' e = usable_dev c e)"
proof -
  have d: "d \<noteq> -1" "d = 0 \<or> havedisk1 c" using u by (auto simp: usable_dev_def)
  show ?thesis
  proof (cases "find_buf d s c")
    case (Some i)
    obtain us b vs where b: "bufs c = us @ b # vs" "length us = i" "bkey b = (d, s)"
      using find_buf_Some [OF Some] by blast
    have bd: "bdev b = d" "bsector b = s" using b(3) by (auto simp: bkey_def)
    have nb: "\<not> busy b"
    proof
      assume "busy b"
      then have "bkey b \<in> held_blocks c" using b(1) by (auto simp: held_blocks_def)
      then show False using nh b(3) by simp
    qed
    have ok: "valid b" "\<not> dirty b" "bdata b = disk c d s"
      using inv bd d unfolding bcache_inv_split [OF b(1)] by (auto simp: buf_ok_def)
    define c' where "c' = c\<lparr>bufs := us @ b\<lparr>busy := True\<rparr> # vs\<rparr>"
    have nth: "bufs c ! i = b" "bufs c' ! i = b\<lparr>busy := True\<rparr>" using b by (auto simp: c'_def)
    have r: "bread d s c = Inr (disk c d s, c')"
      using Some nb nth ok upd_buf_split [OF b(1,2)] by (simp add: bread_def bget_def c'_def)
    have b': "bufs c' = us @ b\<lparr>busy := True\<rparr> # vs" by (simp add: c'_def)
    have bo: "buf_ok c' x = buf_ok c x" for x by (simp add: buf_ok_def c'_def)
    have "bcache_inv c'"
      using inv ok bd d unfolding bcache_inv_split [OF b(1)] bcache_inv_split [OF b'] bo
      by (simp add: c'_def buf_ok_def bkey_def)
    moreover have "held_blocks c' = insert (d, s) (held_blocks c)"
      using nb bd unfolding held_split [OF b(1)] held_split [OF b'] by (simp add: bkey_def)
    ultimately show ?thesis using r by (intro exI [of _ c']) (auto simp: c'_def usable_dev_def)
  next
    case None
    have "last_free c \<noteq> None"
    proof
      assume "last_free c = None"
      then have "card (held_blocks c) = NBUF" using all_busy_held [OF inv] last_free_None by blast
      then show False using room by simp
    qed
    then obtain i where i: "last_free c = Some i" by blast
    obtain us b vs where b: "bufs c = us @ b # vs" "length us = i" "\<not> busy b"
      using last_free_Some [OF i] by blast
    define b1 where "b1 = b\<lparr>bdev := d, bsector := s, busy := True, valid := False, dirty := False\<rparr>"
    define b2 where "b2 = b1\<lparr>valid := True, dirty := False, bdata := disk c d s\<rparr>"
    define c' where "c' = c\<lparr>bufs := us @ b2 # vs\<rparr>"
    have g: "bget d s c = Inr (i, c\<lparr>bufs := us @ b1 # vs\<rparr>)"
      using None i upd_buf_split [OF b(1,2)] by (simp add: bget_def b1_def)
    have "iderw i (c\<lparr>bufs := us @ b1 # vs\<rparr>) = Inr c'"
      using b(2) d by (auto simp: iderw_def Let_def b1_def b2_def c'_def upd_buf_def)
    then have r: "bread d s c = Inr (disk c d s, c')"
      using g b(2) by (auto simp: bread_def b1_def b2_def c'_def)
    have b': "bufs c' = us @ b2 # vs" by (simp add: c'_def)
    have bo: "buf_ok c' x = buf_ok c x" for x by (simp add: buf_ok_def c'_def)
    have new: "(d, s) \<notin> bkey ` {x \<in> set us \<union> set vs. P x}" for P
    proof
      assume "(d, s) \<in> bkey ` {x \<in> set us \<union> set vs. P x}"
      then obtain x where "x \<in> set us \<union> set vs" "(d, s) = bkey x" by blast
      moreover from this have "x \<in> set (bufs c)" using b(1) by auto
      ultimately show False using find_buf_None [OF None] by metis
    qed
    have b2f: "bkey b2 = (d, s)" "bdev b2 = d" "bsector b2 = s" "busy b2" "valid b2" "\<not> dirty b2" "bdata b2 = disk c d s"
      by (simp_all add: b2_def b1_def bkey_def)
    have "bcache_inv c'"
      using inv new d unfolding bcache_inv_split [OF b(1)] bcache_inv_split [OF b'] bo
      by (simp add: c'_def buf_ok_def b2f)
    moreover have "held_blocks c' = insert (d, s) (held_blocks c)"
      using b(3) unfolding held_split [OF b(1)] held_split [OF b'] by (simp add: b2f)
    ultimately show ?thesis using r by (intro exI [of _ c']) (auto simp: c'_def usable_dev_def)
  qed
qed

text \<open>The buffer of a held block.\<close>

lemma held_buf:
  assumes inv: "bcache_inv c" and h: "(d, s) \<in> held_blocks c"
  obtains i us b vs where "find_buf d s c = Some i" "bufs c = us @ b # vs" "length us = i" "busy b"
    "bdev b = d" "bsector b = s" "d \<noteq> -1"
proof -
  obtain b where b: "b \<in> set (bufs c)" "busy b" "bkey b = (d, s)" using h by (auto simp: held_blocks_def)
  then have d: "d \<noteq> -1" using inv by (auto simp: bcache_inv_def buf_ok_def bkey_def split: if_splits)
  then obtain i where i: "find_buf d s c = Some i"
    using b find_buf_None [of d s c b] by (cases "find_buf d s c") auto
  obtain us b' vs where b': "bufs c = us @ b' # vs" "length us = i" "bkey b' = (d, s)"
    using find_buf_Some [OF i] by blast
  have "b = b'"
    using inv b b' d unfolding bcache_inv_split [OF b'(1)] by (auto simp: bkey_def)
  then show thesis using that i b' b d by (auto simp: bkey_def)
qed

lemma bwrite_ok:
  assumes inv: "bcache_inv c" and h: "(d, s) \<in> held_blocks c" and x: "is_block x"
  shows "\<exists>c'. bwrite d s x c = Inr c' \<and> bcache_inv c' \<and> held_blocks c' = held_blocks c
      \<and> disk c' = (disk c)(d := (disk c d)(s := x)) \<and> (\<forall>e. usable_dev c' e = usable_dev c e)"
proof -
  obtain i us b vs where b: "find_buf d s c = Some i" "bufs c = us @ b # vs" "length us = i" "busy b"
      "bdev b = d" "bsector b = s" "d \<noteq> -1"
    by (rule held_buf [OF inv h])
  define b2 where "b2 = b\<lparr>bdata := x, dirty := False, valid := True\<rparr>"
  define c' where "c' = c\<lparr>bufs := us @ b2 # vs, disk := (disk c)(d := (disk c d)(s := x))\<rparr>"
  have nth: "bufs c ! i = b" using b by auto
  have u: "d = 0 \<or> havedisk1 c" using inv b(5,7) unfolding bcache_inv_split [OF b(2)] by (auto simp: buf_ok_def)
  have r: "bwrite d s x c = Inr c'"
    using b nth u by (auto simp: bwrite_def iderw_def Let_def upd_buf_def b2_def c'_def)
  have b': "bufs c' = us @ b2 # vs" by (simp add: c'_def)
  have key: "bkey y \<noteq> (d, s)" if "y \<in> set us \<union> set vs" "bdev y \<noteq> -1" for y
    using other_key [OF inv b(2) _ that(1)] b(5,6,7) by (simp add: bkey_def)
  have bo: "buf_ok c' y = buf_ok c y" if "y \<in> set us \<union> set vs" for y
    using key [OF that] by (auto simp: buf_ok_def c'_def bkey_def)
  have "bcache_inv c'"
    using inv b(4-7) x unfolding bcache_inv_split [OF b(2)] bcache_inv_split [OF b']
    by (simp add: bo) (auto simp: c'_def buf_ok_def b2_def bkey_def)
  moreover have "held_blocks c' = held_blocks c"
    unfolding held_split [OF b(2)] held_split [OF b'] by (simp add: b2_def bkey_def)
  ultimately show ?thesis using r by (intro exI [of _ c']) (auto simp: c'_def usable_dev_def)
qed

lemma brelse_ok:
  assumes inv: "bcache_inv c" and h: "(d, s) \<in> held_blocks c"
  shows "\<exists>c'. brelse d s c = Inr c' \<and> bcache_inv c' \<and> held_blocks c' = held_blocks c - {(d, s)}
      \<and> disk c' = disk c \<and> (\<forall>e. usable_dev c' e = usable_dev c e)"
proof -
  obtain i us b vs where b: "find_buf d s c = Some i" "bufs c = us @ b # vs" "length us = i" "busy b"
      "bdev b = d" "bsector b = s" "d \<noteq> -1"
    by (rule held_buf [OF inv h])
  define b2 where "b2 = b\<lparr>busy := False\<rparr>"
  define c' where "c' = c\<lparr>bufs := b2 # us @ vs\<rparr>"
  have r: "brelse d s c = Inr c'"
    using b by (auto simp: brelse_def b2_def c'_def)
  have b': "bufs c' = [] @ b2 # (us @ vs)" by (simp add: c'_def)
  have bo: "buf_ok c' y = buf_ok c y" for y by (auto simp: buf_ok_def c'_def)
  have b2: "buf_ok c b2 = buf_ok c b" "bkey b2 = bkey b" "bdev b2 = bdev b" "\<not> busy b2"
    using b(5,7) by (auto simp: buf_ok_def b2_def bkey_def)
  have "bcache_inv c'"
    using inv unfolding bcache_inv_split [OF b(2)] bcache_inv_split [OF b'] bo b2 by (simp add: c'_def)
  moreover have "bkey b \<notin> bkey ` {x \<in> set us \<union> set vs. busy x}"
    using other_key [OF inv b(2)] b(5,7) by (metis (no_types, lifting) image_iff mem_Collect_eq)
  then have "held_blocks c' = held_blocks c - {(d, s)}"
    using b(4-6) b2 unfolding held_split [OF b(2)] held_split [OF b'] by (auto simp: bkey_def)
  ultimately show ?thesis using r by (intro exI [of _ c']) (auto simp: c'_def usable_dev_def)
qed

interpretation bio: block_device bread bwrite brelse disk held_blocks NBUF usable_dev bcache_inv
proof
  fix c d s
  assume inv: "bcache_inv c"
  { assume "usable_dev c d" "(d, s) \<notin> held_blocks c" "card (held_blocks c) < NBUF"
    then show "\<exists>b'. bread d s c = Inr (disk c d s, b') \<and> bcache_inv b' \<and> held_blocks b' = insert (d, s) (held_blocks c)
          \<and> disk b' = disk c \<and> (\<forall>e. usable_dev b' e = usable_dev c e)"
      by (rule bread_ok [OF inv]) }
  { fix x
    assume "(d, s) \<in> held_blocks c" "is_block x"
    then show "\<exists>b'. bwrite d s x c = Inr b' \<and> bcache_inv b' \<and> held_blocks b' = held_blocks c
          \<and> disk b' = (disk c)(d := (disk c d)(s := x)) \<and> (\<forall>e. usable_dev b' e = usable_dev c e)"
      by (rule bwrite_ok [OF inv]) }
  { assume "(d, s) \<in> held_blocks c"
    then show "\<exists>b'. brelse d s c = Inr b' \<and> bcache_inv b' \<and> held_blocks b' = held_blocks c - {(d, s)}
          \<and> disk b' = disk c \<and> (\<forall>e. usable_dev b' e = usable_dev c e)"
      by (rule brelse_ok [OF inv]) }
  show "is_block (disk c d s)" using inv by (simp add: bcache_inv_def)
  show "finite (held_blocks c)" by (simp add: held_blocks_def)
qed

subsection \<open>Properties\<close>

text \<open>C32: Through the cache a block reads as the last block written: with fewer than \<open>NBUF\<close> buffers in use,
  \<open>bread\<close>, \<open>bwrite\<close> of new bytes and \<open>brelse\<close> succeed, a later \<open>bread\<close> returns these bytes whether or
  not the buffer was reused in between, the disk has them in that block and is unchanged elsewhere.\<close>

theorem read_after_write:
  assumes inv: "bcache_inv c" and u: "usable_dev c d" and nh: "(d, s) \<notin> held_blocks c"
    and room: "card (held_blocks c) < NBUF" and x: "is_block x"
  shows "\<exists>c1 c2 c3 c4. bread d s c = Inr (disk c d s, c1) \<and> bwrite d s x c1 = Inr c2 \<and> brelse d s c2 = Inr c3
     \<and> bread d s c3 = Inr (x, c4) \<and> disk c4 = (disk c)(d := (disk c d)(s := x)) \<and> bcache_inv c4"
proof -
  obtain c1 where 1: "bread d s c = Inr (disk c d s, c1)" "bcache_inv c1" "held_blocks c1 = insert (d, s) (held_blocks c)"
      "disk c1 = disk c" "usable_dev c1 d"
    using bio.rd_ok [OF inv u nh room] u by blast
  have "(d, s) \<in> held_blocks c1" by (simp add: 1(3))
  from bio.wr_ok [OF 1(2) this x] obtain c2 where 2: "bwrite d s x c1 = Inr c2" "bcache_inv c2"
      "held_blocks c2 = held_blocks c1" "disk c2 = (disk c1)(d := (disk c1 d)(s := x))" "usable_dev c2 d"
    using 1(5) by blast
  have "(d, s) \<in> held_blocks c2" by (simp add: 1(3) 2(3))
  from bio.rl_ok [OF 2(2) this] obtain c3 where 3: "brelse d s c2 = Inr c3" "bcache_inv c3"
      "held_blocks c3 = held_blocks c2 - {(d, s)}" "disk c3 = disk c2" "usable_dev c3 d"
    using 2(5) by blast
  have h: "held_blocks c3 = held_blocks c" using nh by (simp add: 3(3) 2(3) 1(3))
  have v: "disk c3 d s = x" by (simp add: 3(4) 2(4))
  have "(d, s) \<notin> held_blocks c3" "card (held_blocks c3) < NBUF" using nh room by (simp_all add: h)
  from bio.rd_ok [OF 3(2,5) this, unfolded v]
  obtain c4 where "bread d s c3 = Inr (x, c4)" "bcache_inv c4" "disk c4 = disk c3" by blast
  then show ?thesis using 1(1,4) 2(1,4) 3(1,4) by auto
qed

theorem read_after_write_witness:
  "\<exists>c3 c4. bread 0 7 c3 = Inr (replicate BSIZE 1, c4)"
proof -
  let ?c = "binit (\<lambda>d s. replicate BSIZE 0) False"
  have i: "bcache_inv ?c" "held_blocks ?c = {}" using bcache_inv_binit [of "\<lambda>d s. replicate BSIZE 0" False] by (simp_all add: is_block_def)
  have "usable_dev ?c 0" by (simp add: usable_dev_def)
  then have "\<exists>c1 c2 c3 c4. bread 0 7 ?c = Inr (disk ?c 0 7, c1) \<and> bwrite 0 7 (replicate BSIZE 1) c1 = Inr c2
      \<and> brelse 0 7 c2 = Inr c3 \<and> bread 0 7 c3 = Inr (replicate BSIZE 1, c4)
      \<and> disk c4 = (disk ?c)(0 := (disk ?c 0)(7 := replicate BSIZE 1)) \<and> bcache_inv c4"
    by (intro read_after_write [OF i(1)]) (simp_all only: i(2), simp_all add: is_block_def NBUF_def)
  then show ?thesis by (elim exE conjE) (intro exI)
qed

text \<open>When every buffer is held, asking for another block panics, and asking again for a block that is
  held waits for its holder: the cache never hands out one buffer twice.\<close>

theorem cache_never_shares_a_buffer:
  assumes "bcache_inv c"
  shows "((d, s) \<in> held_blocks c \<longrightarrow> bread d s c = Inl Blocked)
    \<and> ((\<forall>b \<in> set (bufs c). busy b) \<and> (d, s) \<notin> held_blocks c \<longrightarrow> bread d s c = Inl (Panic ''bget: no buffers''))"
proof (intro conjI impI; (elim conjE)?)
  { assume "(d, s) \<in> held_blocks c"
    from held_buf [OF assms this]
    obtain i us b vs where h: "find_buf d s c = Some i" "bufs c = us @ b # vs" "length us = i" "busy b" .
    then have "busy (bufs c ! i)" by (auto simp: nth_append)
    then show "bread d s c = Inl Blocked" by (simp add: bread_def bget_def h(1)) }
  { assume b: "\<forall>b \<in> set (bufs c). busy b" and nh: "(d, s) \<notin> held_blocks c"
    have "find_buf d s c = None"
    proof (rule ccontr)
      assume "find_buf d s c \<noteq> None"
      then obtain i where "find_buf d s c = Some i" by blast
      then obtain us y vs where y: "bufs c = us @ y # vs" "bkey y = (d, s)" using find_buf_Some by blast
      then have "busy y" using b by simp
      then have "(d, s) \<in> held_blocks c" using held_split [OF y(1)] y(2) by simp
      then show False using nh by simp
    qed
    moreover have "last_free c = None" using b by (auto simp: last_free_def first_idx_None_iff)
    ultimately show "bread d s c = Inl (Panic ''bget: no buffers'')" by (simp add: bread_def bget_def) }
qed

theorem cache_never_shares_a_buffer_witness:
  "\<exists>c. bread 0 7 c = Inl Blocked"
proof -
  let ?c = "binit (\<lambda>d s. replicate BSIZE 0) False"
  have i: "bcache_inv ?c" "held_blocks ?c = {}" using bcache_inv_binit [of "\<lambda>d s. replicate BSIZE 0" False] by (simp_all add: is_block_def)
  have "usable_dev ?c 0" by (simp add: usable_dev_def)
  from bio.rd_ok [OF i(1) this, of 7] obtain c where c: "bcache_inv c" "held_blocks c = insert (0, 7) {}"
    unfolding i(2) NBUF_def by auto
  then have "(0, 7) \<in> held_blocks c" by simp
  from cache_never_shares_a_buffer [OF c(1), THEN conjunct1, rule_format, OF this] show ?thesis ..
qed

end
