(* ===== verification/Ide.thy ===== *)
theory Ide
  imports Bio
begin

text \<open>
  The disk driver \<open>kernel/ide.c\<close>: the queue of requests, the registers it writes, the interrupt and the processes that
  sleep for their buffers; and a refinement of the \<open>iderw\<close> of \<open>Bio\<close>, which is complete when it returns. The drive is hardware:
  it carries out the command in its registers on the sectors of \<open>disk\<close>, by way of a buffer of one sector. The bytes that a polled status port
  delivers are arguments; a drive that never gets ready is \<open>Blocked\<close>. A buffer pointer is its position in \<open>bufs\<close>.
\<close>

definition IDE_BSY :: u8 where "IDE_BSY = 0x80"
definition IDE_DRDY :: u8 where "IDE_DRDY = 0x40"
definition IDE_DF :: u8 where "IDE_DF = 0x20"
definition IDE_ERR :: u8 where "IDE_ERR = 0x01"
definition IDE_CMD_READ :: u8 where "IDE_CMD_READ = 0x20"
definition IDE_CMD_WRITE :: u8 where "IDE_CMD_WRITE = 0x30"

record ide = bcache +
  idequeue :: "nat list"
  ports :: "u16 \<Rightarrow> u8"
  sector_buf :: block
  working :: bool
  asleep :: "nat set"
  awakened :: "nat set"

fun idewait :: "bool \<Rightarrow> u8 list \<Rightarrow> kerr + int" where
  "idewait checkerr [] = Inl Blocked"
| "idewait checkerr (r # rs) =
     (if r AND (IDE_BSY OR IDE_DRDY) \<noteq> IDE_DRDY then idewait checkerr rs
      else Inr (if checkerr \<and> r AND (IDE_DF OR IDE_ERR) \<noteq> 0 then -1 else 0))"

text \<open>Writing the command port starts the drive.\<close>

definition outb :: "u16 \<Rightarrow> u8 \<Rightarrow> ide \<Rightarrow> ide" where
  "outb p v s = s\<lparr>ports := (ports s)(p := v), working := (working s \<or> p = 0x1f7)\<rparr>"

definition ideinit :: "u8 list \<Rightarrow> u8 list \<Rightarrow> ide \<Rightarrow> kerr + ide" where
  "ideinit ready probes s =
     bindE (idewait False ready) (\<lambda>_.
       let s = outb 0x1f6 (0xe0 OR push_bit 4 1) s;
           s = (if list_ex (\<lambda>r. r \<noteq> 0) (take 1000 probes) then s\<lparr>havedisk1 := True\<rparr> else s) in
       Inr (outb 0x1f6 (0xe0 OR push_bit 4 0) s))"

definition idestart :: "u8 list \<Rightarrow> nat option \<Rightarrow> ide \<Rightarrow> kerr + ide" where
  "idestart ready bp s =
     (case bp of None \<Rightarrow> Inl (Panic ''idestart'')
      | Some i \<Rightarrow>
          let b = bufs s ! i in
          bindE (idewait False ready) (\<lambda>_.
            let s = outb 0x3f6 0 s;
                s = outb 0x1f2 1 s;
                s = outb 0x1f3 (ucast (bsector b AND 0xff)) s;
                s = outb 0x1f4 (ucast (drop_bit 8 (bsector b) AND 0xff)) s;
                s = outb 0x1f5 (ucast (drop_bit 16 (bsector b) AND 0xff)) s;
                s = outb 0x1f6 (ucast (0xe0 OR push_bit 4 (bdev b AND 1) OR (drop_bit 24 (bsector b) AND 0x0f))) s in
            Inr (if dirty b then (outb 0x1f7 IDE_CMD_WRITE s)\<lparr>sector_buf := bdata b\<rparr> else outb 0x1f7 IDE_CMD_READ s)))"

definition set_buf :: "nat \<Rightarrow> (buf \<Rightarrow> buf) \<Rightarrow> ide \<Rightarrow> ide" where
  "set_buf i f s = s\<lparr>bufs := (bufs s)[i := f (bufs s ! i)]\<rparr>"

definition wakeup_buf :: "nat \<Rightarrow> ide \<Rightarrow> ide" where
  "wakeup_buf i s = s\<lparr>asleep := asleep s - {i}, awakened := awakened s \<union> (asleep s \<inter> {i})\<rparr>"

definition ideintr :: "u8 list \<Rightarrow> u8 list \<Rightarrow> ide \<Rightarrow> kerr + ide" where
  "ideintr ready ready' s =
     (case idequeue s of [] \<Rightarrow> Inr s
      | i # q \<Rightarrow>
          let s = s\<lparr>idequeue := q\<rparr> in
          bindE (if \<not> dirty (bufs s ! i) then
                   bindE (idewait True ready) (\<lambda>r. Inr (if r \<ge> 0 then set_buf i (\<lambda>b. b\<lparr>bdata := sector_buf s\<rparr>) s else s))
                 else Inr s) (\<lambda>s.
            let s = wakeup_buf i (set_buf i (\<lambda>b. b\<lparr>valid := True, dirty := False\<rparr>) s) in
            case idequeue s of [] \<Rightarrow> Inr s | j # _ \<Rightarrow> idestart ready' (Some j) s))"

text \<open>The loop of \<open>iderw\<close>: the result says whether it returns or sleeps.\<close>

definition iderw_wait :: "nat \<Rightarrow> ide \<Rightarrow> bool \<times> ide" where
  "iderw_wait i s =
     (if valid (bufs s ! i) \<and> \<not> dirty (bufs s ! i) then (True, s\<lparr>awakened := awakened s - {i}\<rparr>)
      else (False, s\<lparr>asleep := insert i (asleep s), awakened := awakened s - {i}\<rparr>))"

definition iderw_enter :: "u8 list \<Rightarrow> nat \<Rightarrow> ide \<Rightarrow> kerr + bool \<times> ide" where
  "iderw_enter ready i s =
     (let b = bufs s ! i in
      if \<not> busy b then Inl (Panic ''iderw: buf not busy'')
      else if valid b \<and> \<not> dirty b then Inl (Panic ''iderw: nothing to do'')
      else if bdev b \<noteq> 0 \<and> \<not> havedisk1 s then Inl (Panic ''iderw: ide disk 1 not present'')
      else let s = s\<lparr>idequeue := idequeue s @ [i]\<rparr> in
        bindE (if hd (idequeue s) = i then idestart ready (Some i) s else Inr s) (\<lambda>s. Inr (iderw_wait i s)))"

subsection \<open>The drive\<close>

definition drive_dev :: "(u16 \<Rightarrow> u8) \<Rightarrow> u32" where
  "drive_dev r = drop_bit 4 (ucast (r 0x1f6)) AND 1"

definition drive_lba :: "(u16 \<Rightarrow> u8) \<Rightarrow> u32" where
  "drive_lba r = ucast (r 0x1f3) OR push_bit 8 (ucast (r 0x1f4)) OR push_bit 16 (ucast (r 0x1f5)) OR push_bit 24 (ucast (r 0x1f6) AND 0x0f)"

definition drive_run :: "ide \<Rightarrow> ide" where
  "drive_run s =
     (let d = drive_dev (ports s); n = drive_lba (ports s) in
      if ports s 0x1f7 = IDE_CMD_WRITE then s\<lparr>disk := (disk s)(d := (disk s d)(n := sector_buf s)), working := False\<rparr>
      else s\<lparr>sector_buf := disk s d n, working := False\<rparr>)"

lemma bytes_of_sector:
  fixes x d :: u32
  assumes "x < 2 ^ 28" and "d = 0 \<or> d = 1"
  shows "(ucast (ucast (x AND 0xff) :: u8) :: u32) OR push_bit 8 (ucast (ucast (drop_bit 8 x AND 0xff) :: u8))
      OR push_bit 16 (ucast (ucast (drop_bit 16 x AND 0xff) :: u8))
      OR push_bit 24 (ucast (ucast (0xe0 OR push_bit 4 (d AND 1) OR (drop_bit 24 x AND 0x0f)) :: u8) AND 0x0f) = x"
    and "drop_bit 4 (ucast (ucast (0xe0 OR push_bit 4 (d AND 1) OR (drop_bit 24 x AND 0x0f)) :: u8) :: u32) AND 1 = d"
proof -
  have m: "(0xff :: u32) = mask 8" "(0x0f :: u32) = mask 4" by (simp_all add: mask_eq_exp_minus_1)
  have c: "\<not> bit (0xe0 :: u32) k" "\<not> bit (0xe0 :: int) k" if "k < 4" for k
  proof -
    have "k = 0 \<or> k = 1 \<or> k = 2 \<or> k = 3" using that by linarith
    then show "\<not> bit (0xe0 :: u32) k" "\<not> bit (0xe0 :: int) k" by auto
  qed
  have z: "\<not> bit x n" if "28 \<le> n" for n
  proof -
    have "x AND mask 28 = x" unfolding mask_eq_iff using assms(1) by (simp add: word_less_def)
    then have "bit x n \<longleftrightarrow> bit (x AND mask 28) n" by simp
    then show ?thesis using that by (simp add: bit_simps)
  qed
  show "(ucast (ucast (x AND 0xff) :: u8) :: u32) OR push_bit 8 (ucast (ucast (drop_bit 8 x AND 0xff) :: u8))
      OR push_bit 16 (ucast (ucast (drop_bit 16 x AND 0xff) :: u8))
      OR push_bit 24 (ucast (ucast (0xe0 OR push_bit 4 (d AND 1) OR (drop_bit 24 x AND 0x0f)) :: u8) AND 0x0f) = x"
    unfolding m
  proof (rule bit_word_eqI)
    fix n assume "n < LENGTH(32)"
    consider "n < 8" | k where "n = 8 + k" "k < 8" | k where "n = 16 + k" "k < 8" | k where "n = 24 + k" "k < 4" | "28 \<le> n"
    proof -
      have "n = 8 + (n - 8)" if "8 \<le> n" using that by simp
      moreover have "n = 16 + (n - 16)" if "16 \<le> n" using that by simp
      moreover have "n = 24 + (n - 24)" if "24 \<le> n" using that by simp
      moreover consider "n < 8" | "8 \<le> n \<and> n - 8 < 8" | "16 \<le> n \<and> n - 16 < 8" | "24 \<le> n \<and> n - 24 < 4" | "28 \<le> n" by linarith
      ultimately show thesis using that by cases blast+
    qed
    then show "bit ((ucast (ucast (x AND mask 8) :: u8) :: u32) OR push_bit 8 (ucast (ucast (drop_bit 8 x AND mask 8) :: u8))
      OR push_bit 16 (ucast (ucast (drop_bit 16 x AND mask 8) :: u8))
      OR push_bit 24 (ucast (ucast (0xe0 OR push_bit 4 (d AND 1) OR (drop_bit 24 x AND mask 4)) :: u8) AND mask 4)) n = bit x n"
      by cases (auto simp add: bit_simps z c)
  qed
  show "drop_bit 4 (ucast (ucast (0xe0 OR push_bit 4 (d AND 1) OR (drop_bit 24 x AND 0x0f)) :: u8) :: u32) AND 1 = d"
    unfolding m by (rule bit_word_eqI) (use assms(2) in \<open>auto simp: bit_simps\<close>)
qed


subsection \<open>Runs\<close>

text \<open>
  The owner of a busy buffer calls \<open>iderw\<close>, sleeps, and goes on after it is woken; the drive works and then interrupts without
  an error; buffers that are not in \<open>iderw\<close> may change in any way.
\<close>

datatype ide_event = Request nat | Resume nat | Drive | Interrupt | Clients "buf list"

inductive ide_step :: "ide \<Rightarrow> ide_event \<Rightarrow> ide \<Rightarrow> bool" where
  request: "i < length (bufs s) \<Longrightarrow> i \<notin> set (idequeue s) \<Longrightarrow> i \<notin> awakened s \<Longrightarrow> bdev (bufs s ! i) \<le> 1 \<Longrightarrow> bsector (bufs s ! i) < 2 ^ 28
    \<Longrightarrow> iderw_enter ready i s = Inr (r, s') \<Longrightarrow> ide_step s (Request i) s'"
| resume: "i \<in> awakened s \<Longrightarrow> iderw_wait i s = (r, s') \<Longrightarrow> ide_step s (Resume i) s'"
| drive: "working s \<Longrightarrow> ide_step s Drive (drive_run s)"
| interrupt: "\<not> working s \<Longrightarrow> idewait True ready \<noteq> Inr (-1) \<Longrightarrow> ideintr ready ready' s = Inr s' \<Longrightarrow> ide_step s Interrupt s'"
| clients: "length bs = length (bufs s) \<Longrightarrow> \<forall>i \<in> set (idequeue s) \<union> awakened s. bs ! i = bufs s ! i
    \<Longrightarrow> ide_step s (Clients bs) (s\<lparr>bufs := bs\<rparr>)"

inductive ide_reach :: "ide \<Rightarrow> bool" where
  boot: "idequeue s = [] \<Longrightarrow> \<not> working s \<Longrightarrow> asleep s = {} \<Longrightarrow> awakened s = {} \<Longrightarrow> ide_reach s"
| more: "ide_reach s \<Longrightarrow> ide_step s e s' \<Longrightarrow> ide_reach s'"

text \<open>The registers ask for the transfer of a buffer.\<close>

definition asks :: "ide \<Rightarrow> buf \<Rightarrow> bool" where
  "asks s b = (drive_dev (ports s) = bdev b \<and> drive_lba (ports s) = bsector b
     \<and> (if dirty b then ports s 0x1f7 = IDE_CMD_WRITE \<and> sector_buf s = bdata b else ports s 0x1f7 = IDE_CMD_READ))"

definition queued_ok :: "ide \<Rightarrow> nat \<Rightarrow> bool" where
  "queued_ok s i = (i < length (bufs s) \<and> busy (bufs s ! i) \<and> \<not> (valid (bufs s ! i) \<and> \<not> dirty (bufs s ! i))
     \<and> (bdev (bufs s ! i) = 0 \<or> bdev (bufs s ! i) = 1 \<and> havedisk1 s) \<and> bsector (bufs s ! i) < 2 ^ 28)"

definition ide_ok :: "ide \<Rightarrow> bool" where
  "ide_ok s = (distinct (idequeue s) \<and> (\<forall>i \<in> set (idequeue s). queued_ok s i)
     \<and> (idequeue s \<noteq> [] \<and> working s \<longrightarrow> asks s (bufs s ! hd (idequeue s))) \<and> (working s \<longrightarrow> idequeue s \<noteq> [])
     \<and> asleep s = set (idequeue s) \<and> awakened s \<inter> set (idequeue s) = {}
     \<and> (\<forall>i \<in> awakened s. i < length (bufs s) \<and> valid (bufs s ! i) \<and> \<not> dirty (bufs s ! i)))"

text \<open>What the cache sees: a transfer has happened as soon as the drive is done with it.\<close>

definition transferred :: "block \<Rightarrow> buf \<Rightarrow> buf" where
  "transferred x b = b\<lparr>valid := True, dirty := False, bdata := (if dirty b then bdata b else x)\<rparr>"

definition cache_view :: "ide \<Rightarrow> bcache" where
  "cache_view s = \<lparr>bufs = (if idequeue s \<noteq> [] \<and> \<not> working s then (bufs s)[hd (idequeue s) := transferred (sector_buf s) (bufs s ! hd (idequeue s))] else bufs s),
     disk = disk s, havedisk1 = havedisk1 s\<rparr>"

lemma idestart_asks:
  assumes "idestart ready (Some i) s = Inr s'" and "bdev (bufs s ! i) = 0 \<or> bdev (bufs s ! i) = 1" and "bsector (bufs s ! i) < 2 ^ 28"
  shows "asks s' (bufs s ! i)" and "\<exists>p x. s' = s\<lparr>ports := p, sector_buf := x, working := True\<rparr>"
proof -
  let ?b = "bufs s ! i"
  note bs = bytes_of_sector [OF assms(3,2)]
  show "asks s' ?b" using assms(1) bs
    by (auto simp: idestart_def outb_def bindE_eq_Inr_iff asks_def drive_dev_def drive_lba_def Let_def IDE_CMD_READ_def IDE_CMD_WRITE_def split: if_splits)
  show "\<exists>p x. s' = s\<lparr>ports := p, sector_buf := x, working := True\<rparr>" using assms(1)
    by (cases s) (auto simp: idestart_def outb_def bindE_eq_Inr_iff Let_def split: if_splits)
qed


lemma transferred_dirty: "dirty b \<Longrightarrow> transferred x b = b\<lparr>valid := True, dirty := False\<rparr>"
  and transferred_clean: "\<not> dirty b \<Longrightarrow> transferred x b = b\<lparr>bdata := x, valid := True, dirty := False\<rparr>"
  by (cases b; simp add: transferred_def)+

lemma request_result:
  assumes e: "iderw_enter ready i s = Inr (r, s')" and i: "i \<notin> set (idequeue s)" and b: "bdev (bufs s ! i) \<le> 1" "bsector (bufs s ! i) < 2 ^ 28"
  obtains p x w where "s' = s\<lparr>idequeue := idequeue s @ [i], ports := p, sector_buf := x, working := w, asleep := insert i (asleep s), awakened := awakened s - {i}\<rparr>"
    "if idequeue s = [] then w \<and> asks s' (bufs s ! i) else p = ports s \<and> x = sector_buf s \<and> w = working s"
    "busy (bufs s ! i)" "\<not> (valid (bufs s ! i) \<and> \<not> dirty (bufs s ! i))" "bdev (bufs s ! i) = 0 \<or> bdev (bufs s ! i) = 1 \<and> havedisk1 s"
proof -
  have d: "bdev (bufs s ! i) = 0 \<or> bdev (bufs s ! i) = 1" using b(1) by (metis word_le_less_eq word_less_1)
  have g: "busy (bufs s ! i)" "\<not> (valid (bufs s ! i) \<and> \<not> dirty (bufs s ! i))" "bdev (bufs s ! i) = 0 \<or> bdev (bufs s ! i) = 1 \<and> havedisk1 s"
    using e d by (auto simp: iderw_enter_def Let_def split: if_splits)
  let ?s = "s\<lparr>idequeue := idequeue s @ [i]\<rparr>"
  show thesis
  proof (cases "idequeue s = []")
    case True
    then obtain s1 where s1: "idestart ready (Some i) ?s = Inr s1" "iderw_wait i s1 = (r, s')"
      using e g by (auto simp: iderw_enter_def Let_def bindE_eq_Inr_iff split: if_splits)
    have "asks s1 (bufs s ! i)" using idestart_asks(1) [OF s1(1)] d b(2) by simp
    moreover obtain p x where p: "s1 = s\<lparr>idequeue := idequeue s @ [i], ports := p, sector_buf := x, working := True\<rparr>"
      using idestart_asks(2) [OF s1(1)] d b(2) by auto
    ultimately show thesis using s1(2) g True by (intro that [where p = p and x = x and w = True]) (auto simp: iderw_wait_def asks_def)
  next
    case False
    then have "hd (idequeue s @ [i]) \<noteq> i" using i by (cases "idequeue s") auto
    then have "iderw_wait i ?s = (r, s')" using e g by (auto simp: iderw_enter_def Let_def split: if_splits)
    then show thesis using g False by (intro that [where p = "ports s" and x = "sector_buf s" and w = "working s"]) (auto simp: iderw_wait_def)
  qed
qed

lemma interrupt_result:
  assumes e: "ideintr ready ready' s = Inr s'" and r: "idewait True ready \<noteq> Inr (-1)" and q: "idequeue s = i # q" and ok: "ide_ok s"
  obtains p x w where "s' = s\<lparr>idequeue := q, bufs := (bufs s)[i := transferred (sector_buf s) (bufs s ! i)], ports := p, sector_buf := x, working := w,
      asleep := asleep s - {i}, awakened := insert i (awakened s)\<rparr>"
    "if q = [] then p = ports s \<and> x = sector_buf s \<and> w = working s else w \<and> asks s' (bufs s' ! hd q)"
proof -
  have i: "i < length (bufs s)" "i \<in> asleep s" "i \<notin> set q" and qd: "\<forall>j \<in> set q. queued_ok s j" using ok q by (auto simp: ide_ok_def queued_ok_def)
  define b where "b = bufs s ! i"
  let ?s = "s\<lparr>idequeue := q, bufs := (bufs s)[i := transferred (sector_buf s) b], asleep := asleep s - {i}, awakened := insert i (awakened s)\<rparr>"
  have rd: "idewait True ready = Inr n \<Longrightarrow> 0 \<le> n" for n using r by (induction True ready rule: idewait.induct) (auto split: if_splits)
  have "(case q of [] \<Rightarrow> Inr ?s | j # _ \<Rightarrow> idestart ready' (Some j) ?s) = Inr s'"
  proof (cases "dirty b")
    case True
    then show ?thesis using e i q by (cases q) (simp_all add: ideintr_def wakeup_buf_def set_buf_def b_def [symmetric] transferred_dirty Let_def)
  next
    case False
    then obtain n where "idewait True ready = Inr n" 
      using e q by (cases "idewait True ready") (simp_all add: ideintr_def b_def Let_def)
    then show ?thesis using False e i q rd by (cases q) (simp_all add: ideintr_def wakeup_buf_def set_buf_def b_def [symmetric] transferred_clean Let_def)
  qed
  note s' = this
  show thesis
  proof (cases q)
    case Nil
    then show thesis using s' by (intro that [where p = "ports s" and x = "sector_buf s" and w = "working s"]) (auto simp: b_def)
  next
    case (Cons j q')
    have st: "idestart ready' (Some j) ?s = Inr s'" using s' Cons by simp
    have j: "queued_ok s j" "j \<noteq> i" using qd i Cons by auto
    then have b: "bufs ?s ! j = bufs s ! j" by simp
    have k: "bdev (bufs ?s ! j) = 0 \<or> bdev (bufs ?s ! j) = 1" "bsector (bufs ?s ! j) < 2 ^ 28" using j b by (auto simp: queued_ok_def)
    obtain p x where "s' = ?s\<lparr>ports := p, sector_buf := x, working := True\<rparr>" using idestart_asks(2) [OF st k] by blast
    then show thesis using idestart_asks(1) [OF st k] b j Cons by (intro that [where p = p and x = x and w = True]) (auto simp: b_def)
  qed
qed


lemma ide_ok_step:
  assumes "ide_step s e s'" and "ide_ok s"
  shows "ide_ok s'"
  using assms
proof cases
  case (request i ready r)
  obtain p x w where s': "s' = s\<lparr>idequeue := idequeue s @ [i], ports := p, sector_buf := x, working := w, asleep := insert i (asleep s),
        awakened := awakened s - {i}\<rparr>"
    and a: "if idequeue s = [] then w \<and> asks s' (bufs s ! i) else p = ports s \<and> x = sector_buf s \<and> w = working s"
    and b: "busy (bufs s ! i)" "\<not> (valid (bufs s ! i) \<and> \<not> dirty (bufs s ! i))" "bdev (bufs s ! i) = 0 \<or> bdev (bufs s ! i) = 1 \<and> havedisk1 s"
    by (rule request_result [OF request(7) request(3,5,6)])
  have q: "queued_ok s' j = queued_ok s j" for j by (simp add: queued_ok_def s')
  have "queued_ok s i" using request(2,6) b by (simp add: queued_ok_def)
  moreover have "asks s' (bufs s ! hd (idequeue s @ [i]))" if "w"
    using a that assms(2) by (cases "idequeue s") (auto simp: ide_ok_def asks_def s')
  ultimately show ?thesis using assms(2) request(3) a unfolding ide_ok_def q by (auto simp: s')
next
  case (resume i r)
  then have "s' = s\<lparr>awakened := awakened s - {i}\<rparr>" using assms(2) by (auto simp: iderw_wait_def ide_ok_def)
  moreover have "queued_ok (s\<lparr>awakened := awakened s - {i}\<rparr>) j = queued_ok s j" "asks (s\<lparr>awakened := awakened s - {i}\<rparr>) b = asks s b" for j b
    by (simp_all add: queued_ok_def asks_def)
  ultimately show ?thesis using assms(2) by (auto simp: ide_ok_def)
next
  case drive
  have "bufs s' = bufs s" "idequeue s' = idequeue s" "\<not> working s'" "asleep s' = asleep s" "awakened s' = awakened s" "havedisk1 s' = havedisk1 s"
    by (simp_all add: drive(2) drive_run_def Let_def)
  then show ?thesis using assms(2) by (simp add: ide_ok_def queued_ok_def)
next
  case (interrupt ready ready')
  show ?thesis
  proof (cases "idequeue s")
    case Nil
    then show ?thesis using interrupt(4) assms(2) by (simp add: ideintr_def)
  next
    case (Cons i q)
    obtain p x w where s': "s' = s\<lparr>idequeue := q, bufs := (bufs s)[i := transferred (sector_buf s) (bufs s ! i)], ports := p, sector_buf := x, working := w,
        asleep := asleep s - {i}, awakened := insert i (awakened s)\<rparr>"
      and a: "if q = [] then p = ports s \<and> x = sector_buf s \<and> w = working s else w \<and> asks s' (bufs s' ! hd q)"
      by (rule interrupt_result [OF interrupt(4,3) Cons assms(2)])
    have i: "i < length (bufs s)" "i \<notin> set q" using assms(2) Cons by (auto simp: ide_ok_def queued_ok_def)
    have q: "queued_ok s' j = queued_ok s j" if "j \<noteq> i" for j using that by (simp add: queued_ok_def s')
    have "\<forall>j \<in> set q. queued_ok s' j" using assms(2) Cons i(2) q by (metis ide_ok_def list.set_intros(2))
    then show ?thesis using assms(2) Cons i a interrupt(2) unfolding ide_ok_def
      by (auto simp: s' nth_list_update transferred_def)
  qed
next
  case (clients bs)
  have "queued_ok s' i = queued_ok s i" if "i \<in> set (idequeue s)" for i using that clients(3,4) by (simp add: queued_ok_def clients(2))
  moreover have "asks s' b = asks s b" for b by (simp add: asks_def clients(2))
  ultimately show ?thesis using assms(2) clients(3,4) unfolding ide_ok_def by (auto simp: clients(2))
qed

lemma ide_reach_ok: "ide_reach s \<Longrightarrow> ide_ok s"
proof (induction rule: ide_reach.induct)
  case (boot s)
  then show ?case by (simp add: ide_ok_def)
qed (blast intro: ide_ok_step)


text \<open>A transfer that fails is not told to anyone: the buffer becomes valid with the bytes that it had.\<close>

lemma read_error_ignored:
  assumes "idewait True ready = Inr (-1)" and "idequeue s = [i]" and "i < length (bufs s)" and "\<not> dirty (bufs s ! i)"
  shows "\<exists>s'. ideintr ready ready' s = Inr s' \<and> valid (bufs s' ! i) \<and> bdata (bufs s' ! i) = bdata (bufs s ! i)"
  using assms by (simp add: ideintr_def Let_def wakeup_buf_def set_buf_def)

text \<open>No wakeup is lost: a process sleeps exactly for a buffer in the queue, and with every interrupt of a drive that is done the first request is over.\<close>

lemma sleepers_are_queued: "ide_reach s \<Longrightarrow> asleep s = set (idequeue s) \<and> distinct (idequeue s)"
  using ide_reach_ok [of s] by (simp add: ide_ok_def)

lemma idestart_ready: "\<exists>s'. idestart [IDE_DRDY] (Some i) s = Inr s'"
  by (simp add: idestart_def IDE_BSY_def IDE_DRDY_def Let_def)

lemma ideintr_ready:
  assumes "idewait True ready = Inr r"
  shows "\<exists>s'. ideintr ready [IDE_DRDY] s = Inr s'"
proof -
  have k: "\<exists>x. (case idequeue t of [] \<Rightarrow> Inr t | j # _ \<Rightarrow> idestart [IDE_DRDY] (Some j) t) = Inr x" for t
    using idestart_ready by (cases "idequeue t") auto
  show ?thesis using k assms by (cases "idequeue s") (simp_all add: ideintr_def Let_def)
qed

definition serve :: "ide \<Rightarrow> kerr + ide" where
  "serve s = ideintr [IDE_DRDY] [IDE_DRDY] (if working s then drive_run s else s)"

lemma queue_is_served:
  assumes "ide_reach s" and "length (idequeue s) = n"
  shows "\<exists>s'. ((\<lambda>m. bindE m serve) ^^ n) (Inr s) = Inr s' \<and> ide_reach s' \<and> idequeue s' = [] \<and> asleep s' = {} \<and> set (idequeue s) \<union> awakened s \<subseteq> awakened s'"
  using assms
proof (induction n arbitrary: s)
  case 0
  then show ?case using sleepers_are_queued [of s] by simp
next
  case (Suc n)
  obtain i q where q: "idequeue s = i # q" using Suc.prems(2) by (cases "idequeue s") auto
  define s1 where "s1 = (if working s then drive_run s else s)"
  have "working s \<Longrightarrow> ide_reach (drive_run s)" using Suc.prems(1) drive more by blast
  then have r1: "ide_reach s1" using Suc.prems(1) by (simp add: s1_def)
  have q1: "idequeue s1 = i # q" "\<not> working s1" "awakened s1 = awakened s" by (auto simp: s1_def drive_run_def Let_def q)
  have w: "idewait True [IDE_DRDY] = Inr 0" "idewait True [IDE_DRDY] \<noteq> Inr (-1)" by code_simp+
  obtain s2 where s2: "ideintr [IDE_DRDY] [IDE_DRDY] s1 = Inr s2"
    using ideintr_ready [OF w(1)] by blast
  have r2: "ide_reach s2" by (rule more [OF r1 interrupt [OF q1(2) w(2) s2]])
  have k2: "idequeue s2 = q" "awakened s2 = insert i (awakened s1)"
    by (rule interrupt_result [OF s2 w(2) q1(1) ide_reach_ok [OF r1]]; simp)+
  obtain s' where s': "((\<lambda>m. bindE m serve) ^^ n) (Inr s2) = Inr s'" "ide_reach s'" "idequeue s' = []" "asleep s' = {}"
      "set q \<union> awakened s2 \<subseteq> awakened s'"
    using Suc.IH [OF r2] Suc.prems(2) q k2(1) by auto
  have sv: "serve s = Inr s2" using s2 by (simp add: serve_def s1_def)
  have "((\<lambda>m. bindE m serve) ^^ Suc n) (Inr s) = ((\<lambda>m. bindE m serve) ^^ n) (Inr s2)"
    by (simp only: funpow_Suc_right o_apply bindE_simps sv)
  then show ?case using s' k2 q q1(3) by (intro exI [of _ s']) simp
qed

text \<open>C11: In every run the driver behaves for the buffer cache as if a request was complete at once: when the drive finishes the
  command in its registers, the first request of the queue has had exactly the effect of the atomic \<open>iderw\<close>; starting a request,
  the interrupt and the wakeups are invisible.\<close>

theorem driver_refines_iderw:
  assumes r: "ide_reach s" and st: "ide_step s e s'"
  shows "case e of Drive \<Rightarrow> iderw (hd (idequeue s)) (cache_view s) = Inr (cache_view s')
     | Clients bs \<Rightarrow> cache_view s' = (cache_view s)\<lparr>bufs := bufs (cache_view s')\<rparr>
         \<and> list_all (\<lambda>i. bufs (cache_view s') ! i = bufs (cache_view s) ! i) (idequeue s)
     | _ \<Rightarrow> cache_view s' = cache_view s"
  using st
proof cases
  case (request i ready r)
  obtain p x w where s': "s' = s\<lparr>idequeue := idequeue s @ [i], ports := p, sector_buf := x, working := w, asleep := insert i (asleep s),
        awakened := awakened s - {i}\<rparr>"
    and a: "if idequeue s = [] then w \<and> asks s' (bufs s ! i) else p = ports s \<and> x = sector_buf s \<and> w = working s"
    by (rule request_result [OF request(7) request(3,5,6)])
  then show ?thesis using request(1) by (cases "idequeue s") (auto simp: cache_view_def)
next
  case (resume i r)
  then show ?thesis by (auto simp: cache_view_def iderw_wait_def split: if_splits)
next
  case drive
  note ok = ide_reach_ok [OF r]
  obtain i q where q: "idequeue s = i # q" using ok drive(3) by (cases "idequeue s") (auto simp: ide_ok_def)
  have i: "queued_ok s i" "asks s (bufs s ! i)" using ok drive(3) q by (auto simp: ide_ok_def)
  show ?thesis
    using i q drive by (auto simp: cache_view_def iderw_def upd_buf_def Let_def queued_ok_def asks_def drive_run_def transferred_def
        IDE_CMD_READ_def IDE_CMD_WRITE_def split: if_splits)
next
  case (interrupt ready ready')
  show ?thesis
  proof (cases "idequeue s")
    case Nil
    then show ?thesis using interrupt by (simp add: ideintr_def)
  next
    case (Cons i q)
    obtain p x w where s': "s' = s\<lparr>idequeue := q, bufs := (bufs s)[i := transferred (sector_buf s) (bufs s ! i)], ports := p, sector_buf := x, working := w,
        asleep := asleep s - {i}, awakened := insert i (awakened s)\<rparr>"
      and a: "if q = [] then p = ports s \<and> x = sector_buf s \<and> w = working s else w \<and> asks s' (bufs s' ! hd q)"
      by (rule interrupt_result [OF interrupt(4,3) Cons ide_reach_ok [OF r]])
    then show ?thesis using interrupt(1,2) Cons by (cases q) (simp_all add: cache_view_def)
  qed
next
  case (clients bs)
  moreover have "\<forall>i \<in> set (idequeue s). i < length (bufs s)" using ide_reach_ok [OF r] by (auto simp: ide_ok_def queued_ok_def)
  ultimately show ?thesis by (cases "idequeue s") (auto simp: cache_view_def list_all_iff nth_list_update)
qed

definition two_requests :: ide where
  "two_requests = \<lparr>bufs = [\<lparr>bdev = 0, bsector = 7, busy = True, valid = False, dirty = False, bdata = []\<rparr>,
       \<lparr>bdev = 1, bsector = 300, busy = True, valid = True, dirty = True, bdata = [5]\<rparr>],
     disk = (\<lambda>_ _. [9]), havedisk1 = True, idequeue = [], ports = (\<lambda>_. 0), sector_buf = [], working = False, asleep = {}, awakened = {}\<rparr>"

lemma driver_refines_iderw_witness:
  "\<exists>s1. ide_step two_requests (Request 1) s1 \<and> working s1 \<and> iderw 1 (cache_view s1) = Inr (cache_view (drive_run s1)) \<and> disk (drive_run s1) 1 300 = [5]"
proof -
  have r: "ide_reach two_requests" by (rule boot) (simp_all add: two_requests_def)
  obtain s1 where e: "iderw_enter [IDE_DRDY] 1 two_requests = Inr (False, s1)" and s1: "working s1" "idequeue s1 = [1]" "disk (drive_run s1) 1 300 = [5]"
  proof -
    have "case iderw_enter [IDE_DRDY] 1 two_requests of Inr (r, s1) \<Rightarrow> \<not> r \<and> working s1 \<and> idequeue s1 = [1] \<and> disk (drive_run s1) 1 300 = [5]
      | _ \<Rightarrow> False" by code_simp
    then show thesis using that by (auto split: sum.splits)
  qed
  have st: "ide_step two_requests (Request 1) s1" by (rule request [OF _ _ _ _ _ e]) (simp_all add: two_requests_def)
  have "iderw (hd (idequeue s1)) (cache_view s1) = Inr (cache_view (drive_run s1))"
    using driver_refines_iderw [OF more [OF r st] drive [OF s1(1)]] by simp
  then show ?thesis using st s1 by auto
qed

end
