(* ===== verification/Fs.thy ===== *)
theory Fs
  imports Bio KString
begin

text \<open>
  The file system of project 5, \<open>kernel/fs.c\<close>: block allocation, the inode cache, the contents of
  inodes with the checksums of \<open>T_CHECKED\<close> files, directories and path names. An inode pointer
  is an index of \<open>icache.inode\<close>; \<open>dw\<close> is the state of the devices behind \<open>devsw\<close>. A call that
  has to wait for the lock of an inode is \<open>Blocked\<close>.
\<close>

definition NINODE :: nat where "NINODE = 50"
definition NDEV :: int where "NDEV = 10"
definition ROOTDEV :: u32 where "ROOTDEV = 1"

record inode = dinode +
  idev :: u32
  inum :: u32
  iref :: int
  ibusy :: bool
  ivalid :: bool

record 'w fs =
  bc :: bcache
  icache :: "inode list"
  dw :: 'w

text \<open>The device switch: reading and writing of a device by its major number.\<close>

record 'w devsw =
  dev_read :: "int \<Rightarrow> (u32 \<Rightarrow> 'w \<Rightarrow> kerr + (int \<times> u8 list) \<times> 'w) option"
  dev_write :: "int \<Rightarrow> (u8 list \<Rightarrow> 'w \<Rightarrow> kerr + int \<times> 'w) option"

definition free_inode :: inode where
  "free_inode = \<lparr>itype = 0, imajor = 0, iminor = 0, inlink = 0, isize = 0, addrs = replicate (NDIRECT + 1) 0,
     idev = 0, inum = 0, iref = 0, ibusy = False, ivalid = False\<rparr>"

definition iinit :: "bcache \<Rightarrow> 'w \<Rightarrow> 'w fs" where
  "iinit c w = \<lparr>bc = c, icache = replicate NINODE free_inode, dw = w\<rparr>"

definition upd_inode :: "nat \<Rightarrow> (inode \<Rightarrow> inode) \<Rightarrow> 'w fs \<Rightarrow> 'w fs" where
  "upd_inode i f st = st\<lparr>icache := (icache st)[i := f (icache st ! i)]\<rparr>"

abbreviation ino :: "'w fs \<Rightarrow> nat \<Rightarrow> inode" where
  "ino st i \<equiv> icache st ! i"

subsection \<open>Blocks\<close>

definition get_block :: "u32 \<Rightarrow> u32 \<Rightarrow> 'w fs \<Rightarrow> kerr + block \<times> 'w fs" where
  "get_block dev b st = bindE (bread dev b (bc st)) (\<lambda>(x, c). Inr (x, st\<lparr>bc := c\<rparr>))"

definition put_block :: "u32 \<Rightarrow> u32 \<Rightarrow> block \<Rightarrow> 'w fs \<Rightarrow> kerr + 'w fs" where
  "put_block dev b x st = bindE (bwrite dev b x (bc st)) (\<lambda>c. Inr (st\<lparr>bc := c\<rparr>))"

definition rel_block :: "u32 \<Rightarrow> u32 \<Rightarrow> 'w fs \<Rightarrow> kerr + 'w fs" where
  "rel_block dev b st = bindE (brelse dev b (bc st)) (\<lambda>c. Inr (st\<lparr>bc := c\<rparr>))"

definition readsb :: "u32 \<Rightarrow> 'w fs \<Rightarrow> kerr + superblock \<times> 'w fs" where
  "readsb dev st =
     bindE (get_block dev 1 st) (\<lambda>(x, s1). bindE (rel_block dev 1 s1) (\<lambda>s2. Inr (dec_superblock x, s2)))"

definition bzero :: "u32 \<Rightarrow> u32 \<Rightarrow> 'w fs \<Rightarrow> kerr + 'w fs" where
  "bzero dev b st =
     bindE (get_block dev b st) (\<lambda>(x, s1).
       bindE (put_block dev b (replicate BSIZE 0) s1) (rel_block dev b))"

text \<open>The values of \<open>b\<close> in \<open>for(b = 0; b < sb.size; b += BPB)\<close>.\<close>

definition bitmap_starts :: "u32 \<Rightarrow> u32 list" where
  "bitmap_starts n = map (\<lambda>k. of_nat (4096 * k)) [0..<(unat n + 4095) div 4096]"

fun balloc_scan :: "u32 \<Rightarrow> u32 \<Rightarrow> u32 list \<Rightarrow> 'w fs \<Rightarrow> kerr + u32 \<times> 'w fs" where
  "balloc_scan dev ninodes [] st = Inl (Panic ''balloc: out of blocks'')"
| "balloc_scan dev ninodes (b # bs) st =
     bindE (get_block dev (BBLOCK b ninodes) st) (\<lambda>(x, s1).
       case first_idx (\<lambda>bi. \<not> bit_set bi x) [0..<4096] of
         Some bi \<Rightarrow>
           bindE (put_block dev (BBLOCK b ninodes) (set_bit_at bi x) s1) (\<lambda>s2.
             bindE (rel_block dev (BBLOCK b ninodes) s2) (\<lambda>s3. Inr (b + of_nat bi, s3)))
       | None \<Rightarrow> bindE (rel_block dev (BBLOCK b ninodes) s1) (balloc_scan dev ninodes bs))"

definition balloc :: "u32 \<Rightarrow> 'w fs \<Rightarrow> kerr + u32 \<times> 'w fs" where
  "balloc dev st =
     bindE (readsb dev st) (\<lambda>(sb, s1). balloc_scan dev (sb_ninodes sb) (bitmap_starts (sb_size sb)) s1)"

definition bfree :: "u32 \<Rightarrow> u32 \<Rightarrow> 'w fs \<Rightarrow> kerr + 'w fs" where
  "bfree dev b st =
     bindE (bzero dev b st) (\<lambda>s1.
       bindE (readsb dev s1) (\<lambda>(sb, s2).
         bindE (get_block dev (BBLOCK b (sb_ninodes sb)) s2) (\<lambda>(x, s3).
           let bi = unat (b mod BPB) in
           if \<not> bit_set bi x then Inl (Panic ''freeing free block'')
           else bindE (put_block dev (BBLOCK b (sb_ninodes sb)) (clear_bit_at bi x) s3)
                  (rel_block dev (BBLOCK b (sb_ninodes sb))))))"

subsection \<open>Inodes\<close>

definition iget :: "u32 \<Rightarrow> u32 \<Rightarrow> 'w fs \<Rightarrow> kerr + nat \<times> 'w fs" where
  "iget dev n st =
     (case first_idx (\<lambda>ip. iref ip > 0 \<and> idev ip = dev \<and> inum ip = n) (icache st) of
        Some i \<Rightarrow> Inr (i, upd_inode i (\<lambda>ip. ip\<lparr>iref := iref ip + 1\<rparr>) st)
      | None \<Rightarrow>
          (case first_idx (\<lambda>ip. iref ip = 0) (icache st) of
             None \<Rightarrow> Inl (Panic ''iget: no inodes'')
           | Some i \<Rightarrow> Inr (i, upd_inode i (\<lambda>ip. ip\<lparr>idev := dev, inum := n, iref := 1, ibusy := False, ivalid := False\<rparr>) st)))"

definition idup :: "nat \<Rightarrow> 'w fs \<Rightarrow> 'w fs" where
  "idup i st = upd_inode i (\<lambda>ip. ip\<lparr>iref := iref ip + 1\<rparr>) st"

definition empty_dinode :: "u16 \<Rightarrow> dinode" where
  "empty_dinode t = \<lparr>itype = t, imajor = 0, iminor = 0, inlink = 0, isize = 0, addrs = replicate (NDIRECT + 1) 0\<rparr>"

fun ialloc_scan :: "u32 \<Rightarrow> u16 \<Rightarrow> u32 list \<Rightarrow> 'w fs \<Rightarrow> kerr + nat \<times> 'w fs" where
  "ialloc_scan dev t [] st = Inl (Panic ''ialloc: no inodes'')"
| "ialloc_scan dev t (n # ns) st =
     bindE (get_block dev (IBLOCK n) st) (\<lambda>(x, s1).
       if itype (get_dinode n x) = 0 then
         bindE (put_block dev (IBLOCK n) (put_dinode n (empty_dinode t) x) s1) (\<lambda>s2.
           bindE (rel_block dev (IBLOCK n) s2) (iget dev n))
       else bindE (rel_block dev (IBLOCK n) s1) (ialloc_scan dev t ns))"

definition ialloc :: "u32 \<Rightarrow> u16 \<Rightarrow> 'w fs \<Rightarrow> kerr + nat \<times> 'w fs" where
  "ialloc dev t st =
     bindE (readsb dev st) (\<lambda>(sb, s1). ialloc_scan dev t (map of_nat [1..<unat (sb_ninodes sb)]) s1)"

definition iupdate :: "nat \<Rightarrow> 'w fs \<Rightarrow> kerr + 'w fs" where
  "iupdate i st =
     (let ip = ino st i in
      bindE (get_block (idev ip) (IBLOCK (inum ip)) st) (\<lambda>(x, s1).
        bindE (put_block (idev ip) (IBLOCK (inum ip)) (put_dinode (inum ip) ip x) s1)
          (rel_block (idev ip) (IBLOCK (inum ip)))))"

definition load_inode :: "dinode \<Rightarrow> inode \<Rightarrow> inode" where
  "load_inode d ip = ip\<lparr>itype := itype d, imajor := imajor d, iminor := iminor d, inlink := inlink d,
     isize := isize d, addrs := addrs d, ivalid := True\<rparr>"

definition ilock :: "nat \<Rightarrow> 'w fs \<Rightarrow> kerr + 'w fs" where
  "ilock i st =
     (if iref (ino st i) < 1 then Inl (Panic ''ilock'')
      else if ibusy (ino st i) then Inl Blocked
      else
        (let s0 = upd_inode i (\<lambda>ip. ip\<lparr>ibusy := True\<rparr>) st; ip = ino s0 i in
         if ivalid ip then Inr s0
         else
           bindE (get_block (idev ip) (IBLOCK (inum ip)) s0) (\<lambda>(x, s1).
             bindE (rel_block (idev ip) (IBLOCK (inum ip)) s1) (\<lambda>s2.
               if itype (get_dinode (inum ip) x) = 0 then Inl (Panic ''ilock: no type'')
               else Inr (upd_inode i (load_inode (get_dinode (inum ip) x)) s2)))))"

definition iunlock :: "nat \<Rightarrow> 'w fs \<Rightarrow> kerr + 'w fs" where
  "iunlock i st =
     (if \<not> ibusy (ino st i) \<or> iref (ino st i) < 1 then Inl (Panic ''iunlock'')
      else Inr (upd_inode i (\<lambda>ip. ip\<lparr>ibusy := False\<rparr>) st))"

subsection \<open>Block maps\<close>

definition ADDR_MASK :: u32 where "ADDR_MASK = 0x00ffffff"

definition masked :: "u16 \<Rightarrow> u32 \<Rightarrow> u32" where
  "masked t a = (if t = T_CHECKED then a AND ADDR_MASK else a)"

text \<open>
  \<open>if((addr = ip->addrs[k]) == 0) ip->addrs[k] = addr = balloc(ip->dev)\<close>, for a direct block and
  for the indirect one.
\<close>

definition bmap_direct :: "nat \<Rightarrow> nat \<Rightarrow> 'w fs \<Rightarrow> kerr + u32 \<times> 'w fs" where
  "bmap_direct i k st =
     (let a = addrs (ino st i) ! k in
      if a = 0 then
        bindE (balloc (idev (ino st i)) st) (\<lambda>(a', s1).
          Inr (a', upd_inode i (\<lambda>ip. ip\<lparr>addrs := (addrs ip)[k := a']\<rparr>) s1))
      else Inr (a, st))"

definition bmap :: "nat \<Rightarrow> nat \<Rightarrow> 'w fs \<Rightarrow> kerr + u32 \<times> 'w fs" where
  "bmap i bn st =
     (let t = itype (ino st i); dev = idev (ino st i) in
      if bn < NDIRECT then
        bindE (bmap_direct i bn st) (\<lambda>(a, s1). Inr (masked t a, s1))
      else if bn - NDIRECT < NINDIRECT then
        bindE (bmap_direct i NDIRECT st) (\<lambda>(ind, s1).
          bindE (get_block dev ind s1) (\<lambda>(x, s2).
            let a = get_ptr (bn - NDIRECT) x in
            if a = 0 then
              bindE (balloc dev s2) (\<lambda>(a', s3).
                bindE (put_block dev ind (put_ptr (bn - NDIRECT) a' x) s3) (\<lambda>s4.
                  bindE (rel_block dev ind s4) (\<lambda>s5. Inr (masked t a', s5))))
            else bindE (rel_block dev ind s2) (\<lambda>s3. Inr (masked t a, s3))))
      else Inl (Panic ''bmap: out of range''))"

text \<open>The address that \<open>itrunc\<close> gives to \<open>bfree\<close>.\<close>

definition trunc_addr :: "u16 \<Rightarrow> u32 \<Rightarrow> u32" where
  "trunc_addr t a = (if t = T_CHECKED then a else a AND ADDR_MASK)"

fun trunc_direct :: "nat \<Rightarrow> nat list \<Rightarrow> 'w fs \<Rightarrow> kerr + 'w fs" where
  "trunc_direct i [] st = Inr st"
| "trunc_direct i (k # ks) st =
     (if addrs (ino st i) ! k \<noteq> 0 then
        bindE (bfree (idev (ino st i)) (trunc_addr (itype (ino st i)) (addrs (ino st i) ! k)) st) (\<lambda>s1.
          trunc_direct i ks (upd_inode i (\<lambda>ip. ip\<lparr>addrs := (addrs ip)[k := 0]\<rparr>) s1))
      else trunc_direct i ks st)"

fun trunc_ptrs :: "u32 \<Rightarrow> u16 \<Rightarrow> u32 list \<Rightarrow> 'w fs \<Rightarrow> kerr + 'w fs" where
  "trunc_ptrs dev t [] st = Inr st"
| "trunc_ptrs dev t (a # as) st =
     (if a \<noteq> 0 then bindE (bfree dev (trunc_addr t a) st) (trunc_ptrs dev t as)
      else trunc_ptrs dev t as st)"

definition itrunc :: "nat \<Rightarrow> 'w fs \<Rightarrow> kerr + 'w fs" where
  "itrunc i st =
     bindE (trunc_direct i [0..<NDIRECT] st) (\<lambda>s1.
       bindE
         (let ind = addrs (ino s1 i) ! NDIRECT; dev = idev (ino s1 i); t = itype (ino s1 i) in
          if ind \<noteq> 0 then
            bindE (get_block dev ind s1) (\<lambda>(x, s2).
              bindE (trunc_ptrs dev t (map (\<lambda>j. get_ptr j x) [0..<NINDIRECT]) s2) (\<lambda>s3.
                bindE (rel_block dev ind s3) (\<lambda>s4.
                  bindE (bfree dev ind s4) (\<lambda>s5.
                    Inr (upd_inode i (\<lambda>ip. ip\<lparr>addrs := (addrs ip)[NDIRECT := 0]\<rparr>) s5)))))
          else Inr s1)
         (\<lambda>s6. iupdate i (upd_inode i (\<lambda>ip. ip\<lparr>isize := 0\<rparr>) s6)))"

definition iput :: "nat \<Rightarrow> 'w fs \<Rightarrow> kerr + 'w fs" where
  "iput i st =
     bindE
       (if iref (ino st i) = 1 \<and> ivalid (ino st i) \<and> inlink (ino st i) = 0 then
          if ibusy (ino st i) then Inl (Panic ''iput busy'')
          else
            bindE (itrunc i (upd_inode i (\<lambda>ip. ip\<lparr>ibusy := True\<rparr>) st)) (\<lambda>s1.
              bindE (iupdate i (upd_inode i (\<lambda>ip. ip\<lparr>itype := 0\<rparr>) s1)) (\<lambda>s2.
                Inr (upd_inode i (\<lambda>ip. ip\<lparr>ibusy := False, ivalid := False\<rparr>) s2)))
        else Inr st)
       (\<lambda>s. Inr (upd_inode i (\<lambda>ip. ip\<lparr>iref := iref ip - 1\<rparr>) s))"

definition iunlockput :: "nat \<Rightarrow> 'w fs \<Rightarrow> kerr + 'w fs" where
  "iunlockput i st = bindE (iunlock i st) (iput i)"

subsection \<open>stat\<close>

record stat =
  st_type :: u16
  st_dev :: u32
  st_ino :: u32
  st_nlink :: u16
  st_size :: u32
  st_checksum :: u8

definition xor_list :: "('a::len) word list \<Rightarrow> 'a word" where
  "xor_list xs = foldl (XOR) 0 xs"

definition top_byte :: "u32 \<Rightarrow> u32" where
  "top_byte a = drop_bit 24 a"

definition stati :: "nat \<Rightarrow> stat \<Rightarrow> 'w fs \<Rightarrow> kerr + stat \<times> 'w fs" where
  "stati i old st =
     (let ip = ino st i;
          s0 = old\<lparr>st_dev := idev ip, st_ino := inum ip, st_type := itype ip, st_nlink := inlink ip, st_size := isize ip\<rparr>
      in if itype ip = T_CHECKED then
           bindE (get_block (idev ip) (addrs ip ! NDIRECT) st) (\<lambda>(x, s1).
             bindE (rel_block (idev ip) (addrs ip ! NDIRECT) s1) (\<lambda>s2.
               Inr (s0\<lparr>st_checksum := ucast (xor_list (map top_byte (take NDIRECT (addrs ip)))
                         XOR xor_list (map (\<lambda>j. top_byte (get_ptr j x)) [0..<128]))\<rparr>, s2)))
         else Inr (s0, st))"

subsection \<open>Reading and writing\<close>

text \<open>\<open>min(n - tot, BSIZE - off%BSIZE)\<close>\<close>

definition chunk :: "nat \<Rightarrow> nat \<Rightarrow> nat" where
  "chunk off n = min n (BSIZE - off mod BSIZE)"

lemma chunk_pos: "n \<noteq> 0 \<Longrightarrow> 0 < chunk off n"
  by (simp add: chunk_def BSIZE_def)

text \<open>The checksum byte that is stored for block \<open>k\<close> of the file.\<close>

definition stored_sum :: "nat \<Rightarrow> nat \<Rightarrow> 'w fs \<Rightarrow> kerr + u32 \<times> 'w fs" where
  "stored_sum i k st =
     (let ip = ino st i in
      if k < NDIRECT then Inr (top_byte (addrs ip ! k), st)
      else
        bindE (get_block (idev ip) (addrs ip ! NDIRECT) st) (\<lambda>(x, s1).
          bindE (rel_block (idev ip) (addrs ip ! NDIRECT) s1) (\<lambda>s2.
            Inr (top_byte (get_ptr (k - NDIRECT) x), s2))))"

text \<open>
  One turn of the loop of \<open>readi\<close>: the bytes that go to \<open>dst\<close>, and whether the block passed the
  check of its checksum. \<open>bp\<close> is held during the check.
\<close>

definition read_block :: "nat \<Rightarrow> nat \<Rightarrow> nat \<Rightarrow> 'w fs \<Rightarrow> kerr + (u8 list \<times> bool) \<times> 'w fs" where
  "read_block i off n st =
     bindE (bmap i (off div BSIZE) st) (\<lambda>(a, s1).
       let dev = idev (ino s1 i) in
       bindE (get_block dev a s1) (\<lambda>(x, s2).
         let out = bytes_at (off mod BSIZE) (chunk off n) x in
         if itype (ino s2 i) = T_CHECKED then
           bindE (stored_sum i (off div BSIZE) s2) (\<lambda>(sm, s3).
             bindE (rel_block dev a s3) (\<lambda>s4. Inr ((out, xor_list (map ucast x) = sm), s4)))
         else bindE (rel_block dev a s2) (\<lambda>s3. Inr ((out, True), s3))))"

function readi_loop :: "nat \<Rightarrow> nat \<Rightarrow> nat \<Rightarrow> 'w fs \<Rightarrow> kerr + (u8 list \<times> bool) \<times> 'w fs" where
  "readi_loop i off n st =
     (if n = 0 then Inr (([], True), st)
      else bindE (read_block i off n st) (\<lambda>((out, ok), s1).
        if ok then
          bindE (readi_loop i (off + chunk off n) (n - chunk off n) s1) (\<lambda>((out', ok'), s2).
            Inr ((out @ out', ok'), s2))
        else Inr ((out, False), s1)))"
  by auto
termination by (relation "measure (\<lambda>(i, off, n, st). n)") (auto simp: chunk_pos)

declare readi_loop.simps [simp del]

text \<open>
  The result of \<open>readi\<close>, and the bytes it copied to \<open>dst\<close> (also when the result is -1 because of
  a bad checksum).
\<close>

definition readi :: "'w devsw \<Rightarrow> nat \<Rightarrow> u32 \<Rightarrow> u32 \<Rightarrow> 'w fs \<Rightarrow> kerr + (int \<times> u8 list) \<times> 'w fs" where
  "readi sw i off n st =
     (let ip = ino st i in
      if itype ip = T_DEV then
        (if sint (imajor ip) < 0 \<or> sint (imajor ip) \<ge> NDEV then Inr ((-1, []), st)
         else case dev_read sw (sint (imajor ip)) of
                None \<Rightarrow> Inr ((-1, []), st)
              | Some f \<Rightarrow> bindE (f n (dw st)) (\<lambda>(r, w). Inr (r, st\<lparr>dw := w\<rparr>)))
      else if off > isize ip \<or> off + n < off then Inr ((-1, []), st)
      else
        (let m = (if off + n > isize ip then isize ip - off else n) in
         bindE (readi_loop i (unat off) (unat m) st) (\<lambda>((out, ok), s1).
           Inr ((if ok then sint m else -1, out), s1))))"

text \<open>Storing the checksum of block \<open>k\<close>, whose bytes are now \<open>x\<close>.\<close>

definition store_sum :: "nat \<Rightarrow> nat \<Rightarrow> block \<Rightarrow> 'w fs \<Rightarrow> kerr + 'w fs" where
  "store_sum i k x st =
     (let ip = ino st i; sm = push_bit 24 (xor_list (map ucast x)) :: u32 in
      if k < NDIRECT then
        Inr (upd_inode i (\<lambda>ip. ip\<lparr>addrs := (addrs ip)[k := (addrs ip ! k AND ADDR_MASK) OR sm]\<rparr>) st)
      else
        bindE (get_block (idev ip) (addrs ip ! NDIRECT) st) (\<lambda>(t, s1).
          bindE (put_block (idev ip) (addrs ip ! NDIRECT)
                   (put_ptr (k - NDIRECT) ((get_ptr (k - NDIRECT) t AND ADDR_MASK) OR sm) t) s1)
            (rel_block (idev ip) (addrs ip ! NDIRECT))))"

definition write_block :: "nat \<Rightarrow> nat \<Rightarrow> u8 list \<Rightarrow> 'w fs \<Rightarrow> kerr + 'w fs" where
  "write_block i off src st =
     bindE (bmap i (off div BSIZE) st) (\<lambda>(a, s1).
       let dev = idev (ino s1 i) in
       bindE (get_block dev a s1) (\<lambda>(x, s2).
         let x' = put_bytes (off mod BSIZE) (take (chunk off (length src)) src) x in
         bindE (if itype (ino s2 i) = T_CHECKED then store_sum i (off div BSIZE) x' s2 else Inr s2) (\<lambda>s3.
           bindE (put_block dev a x' s3) (rel_block dev a))))"

function writei_loop :: "nat \<Rightarrow> nat \<Rightarrow> u8 list \<Rightarrow> 'w fs \<Rightarrow> kerr + 'w fs" where
  "writei_loop i off src st =
     (if src = [] then Inr st
      else bindE (write_block i off src st)
             (writei_loop i (off + chunk off (length src)) (drop (chunk off (length src)) src)))"
  by auto
termination by (relation "measure (\<lambda>(i, off, src, st). length src)") (auto simp: chunk_pos)

declare writei_loop.simps [simp del]

text \<open>\<open>src\<close> are the \<open>n\<close> bytes to write.\<close>

definition writei :: "'w devsw \<Rightarrow> nat \<Rightarrow> u32 \<Rightarrow> u8 list \<Rightarrow> 'w fs \<Rightarrow> kerr + int \<times> 'w fs" where
  "writei sw i off src st =
     (let ip = ino st i; n = of_nat (length src) :: u32 in
      if itype ip = T_DEV then
        (if sint (imajor ip) < 0 \<or> sint (imajor ip) \<ge> NDEV then Inr (-1, st)
         else case dev_write sw (sint (imajor ip)) of
                None \<Rightarrow> Inr (-1, st)
              | Some f \<Rightarrow> bindE (f src (dw st)) (\<lambda>(r, w). Inr (r, st\<lparr>dw := w\<rparr>)))
      else if off > isize ip \<or> off + n < off then Inr (-1, st)
      else
        (let m = (if off + n > of_nat (MAXFILE * BSIZE) then of_nat (MAXFILE * BSIZE) - off else n);
             e = off + m in
         bindE (writei_loop i (unat off) (take (unat m) src) st) (\<lambda>s1.
           if m > 0 \<and> e > isize (ino s1 i) then
             bindE (iupdate i (upd_inode i (\<lambda>ip. ip\<lparr>isize := e\<rparr>) s1)) (\<lambda>s2. Inr (sint m, s2))
           else Inr (sint m, s1))))"

subsection \<open>Directories\<close>

text \<open>Names are C strings, at most the first 14 bytes of which count.\<close>

definition mem_of :: "u8 list \<Rightarrow> bytes" where
  "mem_of s = (\<lambda>k. if k < length s then s ! k else 0)"

definition namecmp :: "u8 list \<Rightarrow> u8 list \<Rightarrow> int" where
  "namecmp s t = strncmp (mem_of s) (mem_of t) DIRSIZ"

definition dirents :: "block \<Rightarrow> dirent list" where
  "dirents x = map (\<lambda>k. dec_dirent (bytes_at (16 * k) 16 x)) [0..<32]"

definition matches :: "u8 list \<Rightarrow> dirent \<Rightarrow> bool" where
  "matches name de = (de_inum de \<noteq> 0 \<and> namecmp name (de_name de) = 0)"

text \<open>
  The loop of \<open>dirlookup\<close> over the blocks of the directory: the inode and the offset of the entry.
\<close>

function dirlookup_loop :: "nat \<Rightarrow> u8 list \<Rightarrow> nat \<Rightarrow> nat \<Rightarrow> 'w fs \<Rightarrow> kerr + (nat \<times> nat) option \<times> 'w fs" where
  "dirlookup_loop i name off lim st =
     (if off < lim then
        bindE (bmap i (off div BSIZE) st) (\<lambda>(a, s1).
          let dev = idev (ino s1 i) in
          bindE (get_block dev a s1) (\<lambda>(x, s2).
            bindE (rel_block dev a s2) (\<lambda>s3.
              case first_idx (matches name) (dirents x) of
                Some k \<Rightarrow>
                  bindE (iget dev (ucast (de_inum (dirents x ! k))) s3) (\<lambda>(j, s4).
                    Inr (Some (j, off + 16 * k), s4))
              | None \<Rightarrow> dirlookup_loop i name (off + BSIZE) lim s3)))
      else Inr (None, st))"
  by auto
termination by (relation "measure (\<lambda>(i, name, off, lim, st). lim - off)") (auto simp: BSIZE_def)

declare dirlookup_loop.simps [simp del]

definition dirlookup :: "nat \<Rightarrow> u8 list \<Rightarrow> 'w fs \<Rightarrow> kerr + (nat \<times> nat) option \<times> 'w fs" where
  "dirlookup i name st =
     (if itype (ino st i) \<noteq> T_DIR then Inl (Panic ''dirlookup not DIR'')
      else dirlookup_loop i name 0 (unat (isize (ino st i))) st)"

text \<open>The scan of \<open>dirlink\<close> for an empty entry; the size when there is none.\<close>

function find_slot :: "'w devsw \<Rightarrow> nat \<Rightarrow> nat \<Rightarrow> nat \<Rightarrow> 'w fs \<Rightarrow> kerr + nat \<times> 'w fs" where
  "find_slot sw i off lim st =
     (if off < lim then
        bindE (readi sw i (of_nat off) 16 st) (\<lambda>((r, x), s1).
          if r \<noteq> 16 then Inl (Panic ''dirlink read'')
          else if de_inum (dec_dirent x) = 0 then Inr (off, s1)
          else find_slot sw i (off + 16) lim s1)
      else Inr (off, st))"
  by auto
termination by (relation "measure (\<lambda>(sw, i, off, lim, st). lim - off)") auto

declare find_slot.simps [simp del]

text \<open>\<open>strncpy(de.name, name, DIRSIZ)\<close>\<close>

definition dir_name :: "u8 list \<Rightarrow> u8 list" where
  "dir_name name = take DIRSIZ (name @ replicate DIRSIZ 0)"

definition dirlink :: "'w devsw \<Rightarrow> nat \<Rightarrow> u8 list \<Rightarrow> u32 \<Rightarrow> 'w fs \<Rightarrow> kerr + int \<times> 'w fs" where
  "dirlink sw i name n st =
     bindE (dirlookup i name st) (\<lambda>(r, s1).
       case r of
         Some (j, off) \<Rightarrow> bindE (iput j s1) (\<lambda>s2. Inr (-1, s2))
       | None \<Rightarrow>
           bindE (find_slot sw i 0 (unat (isize (ino s1 i))) s1) (\<lambda>(off, s2).
             bindE (writei sw i (of_nat off) (enc_dirent \<lparr>de_inum = ucast n, de_name = dir_name name\<rparr>) s2) (\<lambda>(w, s3).
               if w \<noteq> 16 then Inl (Panic ''dirlink'') else Inr (0, s3))))"

subsection \<open>Path names\<close>

definition SLASH :: u8 where "SLASH = 47"

text \<open>\<open>skipelem\<close>: the first element of a path, cut to 14 bytes, and the rest without leading slashes.\<close>

definition skipelem :: "u8 list \<Rightarrow> (u8 list \<times> u8 list) option" where
  "skipelem path =
     (let p = dropWhile (\<lambda>c. c = SLASH) path in
      if p = [] then None
      else Some (take DIRSIZ (takeWhile (\<lambda>c. c \<noteq> SLASH) p),
                 dropWhile (\<lambda>c. c = SLASH) (dropWhile (\<lambda>c. c \<noteq> SLASH) p)))"

lemma skipelem_length: "skipelem path = Some (name, r) \<Longrightarrow> length r < length path"
proof -
  assume s: "skipelem path = Some (name, r)"
  define p where "p = dropWhile (\<lambda>c. c = SLASH) path"
  have p: "p \<noteq> []" "r = dropWhile (\<lambda>c. c = SLASH) (dropWhile (\<lambda>c. c \<noteq> SLASH) p)"
    using s by (auto simp: skipelem_def Let_def p_def split: if_splits)
  obtain c q where c: "p = c # q" using p(1) by (cases p) auto
  have "c \<noteq> SLASH" using hd_dropWhile [of "\<lambda>c. c = SLASH" path] p(1) c by (simp add: p_def [symmetric])
  then have "length (dropWhile (\<lambda>c. c \<noteq> SLASH) p) \<le> length q" by (simp add: c length_dropWhile_le)
  then have "length r \<le> length q"
    using p(2) length_dropWhile_le [of "\<lambda>c. c = SLASH" "dropWhile (\<lambda>c. c \<noteq> SLASH) p"] by simp
  moreover have "length p \<le> length path" by (simp add: p_def length_dropWhile_le)
  ultimately show ?thesis using c by simp
qed

text \<open>
  The loop of \<open>namex\<close> from inode \<open>i\<close>; \<open>par\<close> is \<open>nameiparent\<close>. The result is the inode and, with
  \<open>par\<close>, the last element.
\<close>

function namex_loop :: "bool \<Rightarrow> nat \<Rightarrow> u8 list \<Rightarrow> 'w fs \<Rightarrow> kerr + (nat \<times> u8 list) option \<times> 'w fs" where
  "namex_loop par i path st =
     (case skipelem path of
        None \<Rightarrow> if par then bindE (iput i st) (\<lambda>s. Inr (None, s)) else Inr (Some (i, []), st)
      | Some (name, path') \<Rightarrow>
          bindE (ilock i st) (\<lambda>s1.
            if itype (ino s1 i) \<noteq> T_DIR then bindE (iunlockput i s1) (\<lambda>s. Inr (None, s))
            else if par \<and> path' = [] then bindE (iunlock i s1) (\<lambda>s. Inr (Some (i, name), s))
            else
              bindE (dirlookup i name s1) (\<lambda>(r, s2).
                case r of
                  None \<Rightarrow> bindE (iunlockput i s2) (\<lambda>s. Inr (None, s))
                | Some (j, off) \<Rightarrow> bindE (iunlockput i s2) (namex_loop par j path'))))"
  by auto
termination
  by (relation "measure (\<lambda>(par, i, path, st). length path)") (auto dest: skipelem_length)

declare namex_loop.simps [simp del]

text \<open>\<open>cwd\<close> is the current directory of the process.\<close>

definition namex :: "bool \<Rightarrow> nat \<Rightarrow> u8 list \<Rightarrow> 'w fs \<Rightarrow> kerr + (nat \<times> u8 list) option \<times> 'w fs" where
  "namex par cwd path st =
     (if path \<noteq> [] \<and> hd path = SLASH then
        bindE (iget ROOTDEV ROOTINO st) (\<lambda>(i, s1). namex_loop par i path s1)
      else namex_loop par cwd path (idup cwd st))"

definition namei :: "nat \<Rightarrow> u8 list \<Rightarrow> 'w fs \<Rightarrow> kerr + nat option \<times> 'w fs" where
  "namei cwd path st = bindE (namex False cwd path st) (\<lambda>(r, s). Inr (map_option fst r, s))"

definition nameiparent :: "nat \<Rightarrow> u8 list \<Rightarrow> 'w fs \<Rightarrow> kerr + (nat \<times> u8 list) option \<times> 'w fs" where
  "nameiparent cwd path st = namex True cwd path st"

end
