(* ===== verification/FsBlocks.thy ===== *)
theory FsBlocks
  imports Fs
begin

text \<open>
  The block layer of the file system: what \<open>readsb\<close>, \<open>bzero\<close>, \<open>balloc\<close> and \<open>bfree\<close> do to the
  blocks of the disk, from the contract of the buffer cache (\<open>block_device\<close>, interpreted for
  \<open>bio.c\<close> in theory \<open>Bio\<close>).
\<close>

text \<open>\<open>V\<close> is the new content of the disk, \<open>H\<close> the blocks held; the rest of the state is as before.\<close>

definition bstep :: "'w fs \<Rightarrow> 'w fs \<Rightarrow> (u32 \<Rightarrow> u32 \<Rightarrow> block) \<Rightarrow> (u32 \<times> u32) set \<Rightarrow> bool" where
  "bstep st st' V H = (bcache_inv (bc st') \<and> disk (bc st') = V \<and> held_blocks (bc st') = H
     \<and> (\<forall>e. usable_dev (bc st') e = usable_dev (bc st) e) \<and> icache st' = icache st \<and> dw st' = dw st)"

definition upd_disk :: "(u32 \<Rightarrow> u32 \<Rightarrow> block) \<Rightarrow> u32 \<Rightarrow> u32 \<Rightarrow> block \<Rightarrow> (u32 \<Rightarrow> u32 \<Rightarrow> block)" where
  "upd_disk V d b x = V(d := (V d)(b := x))"

lemma upd_disk_apply: "upd_disk V d b x e c = (if e = d \<and> c = b then x else V e c)"
  by (simp add: upd_disk_def)

lemma bstep_trans: "bstep s t V H \<Longrightarrow> bstep t u W G \<Longrightarrow> bstep s u W G"
  by (simp add: bstep_def)

lemma bstep_refl: "bcache_inv (bc s) \<Longrightarrow> bstep s s (disk (bc s)) (held_blocks (bc s))"
  by (simp add: bstep_def)

lemma get_block_ok:
  assumes "bcache_inv (bc st)" "usable_dev (bc st) d" "(d, b) \<notin> held_blocks (bc st)" "card (held_blocks (bc st)) < NBUF"
  shows "\<exists>st'. get_block d b st = Inr (disk (bc st) d b, st')
     \<and> bstep st st' (disk (bc st)) (insert (d, b) (held_blocks (bc st)))"
proof -
  obtain c where "bread d b (bc st) = Inr (disk (bc st) d b, c)" "bcache_inv c"
      "held_blocks c = insert (d, b) (held_blocks (bc st))" "disk c = disk (bc st)"
      "\<forall>e. usable_dev c e = usable_dev (bc st) e"
    using bio.rd_ok [OF assms] by blast
  then show ?thesis by (intro exI [of _ "st\<lparr>bc := c\<rparr>"]) (simp add: get_block_def bstep_def)
qed

lemma put_block_ok:
  assumes "bcache_inv (bc st)" "(d, b) \<in> held_blocks (bc st)" "is_block x"
  shows "\<exists>st'. put_block d b x st = Inr st' \<and> bstep st st' (upd_disk (disk (bc st)) d b x) (held_blocks (bc st))"
proof -
  obtain c where "bwrite d b x (bc st) = Inr c" "bcache_inv c" "held_blocks c = held_blocks (bc st)"
      "disk c = upd_disk (disk (bc st)) d b x" "\<forall>e. usable_dev c e = usable_dev (bc st) e"
    using bio.wr_ok [OF assms] by (auto simp: upd_disk_def)
  then show ?thesis by (intro exI [of _ "st\<lparr>bc := c\<rparr>"]) (simp add: put_block_def bstep_def)
qed

lemma rel_block_ok:
  assumes "bcache_inv (bc st)" "(d, b) \<in> held_blocks (bc st)"
  shows "\<exists>st'. rel_block d b st = Inr st' \<and> bstep st st' (disk (bc st)) (held_blocks (bc st) - {(d, b)})"
proof -
  obtain c where "brelse d b (bc st) = Inr c" "bcache_inv c" "held_blocks c = held_blocks (bc st) - {(d, b)}"
      "disk c = disk (bc st)" "\<forall>e. usable_dev c e = usable_dev (bc st) e"
    using bio.rl_ok [OF assms] by blast
  then show ?thesis by (intro exI [of _ "st\<lparr>bc := c\<rparr>"]) (simp add: rel_block_def bstep_def)
qed

text \<open>
  A state in which device \<open>d\<close> can be used and fewer than \<open>NBUF - k\<close> blocks are held, none of
  them in \<open>B\<close>.
\<close>

definition ready :: "u32 \<Rightarrow> nat \<Rightarrow> u32 set \<Rightarrow> 'w fs \<Rightarrow> bool" where
  "ready d k B st = (bcache_inv (bc st) \<and> usable_dev (bc st) d \<and> card (held_blocks (bc st)) + k \<le> NBUF
     \<and> (\<forall>b \<in> B. (d, b) \<notin> held_blocks (bc st)))"

lemma ready_bstep: "ready d k B st \<Longrightarrow> bstep st st' V (held_blocks (bc st)) \<Longrightarrow> ready d k B st'"
  by (simp add: ready_def bstep_def)

lemma ready_mono: "ready d k B st \<Longrightarrow> j \<le> k \<Longrightarrow> A \<subseteq> B \<Longrightarrow> ready d j A st"
  by (auto simp: ready_def)

text \<open>Look at a block; look at it and change it.\<close>

lemma peek_block:
  assumes "ready d 1 {b} st"
  shows "\<exists>s1 s2. get_block d b st = Inr (disk (bc st) d b, s1) \<and> rel_block d b s1 = Inr s2
     \<and> bstep st s2 (disk (bc st)) (held_blocks (bc st))"
proof -
  have r: "bcache_inv (bc st)" "usable_dev (bc st) d" "(d, b) \<notin> held_blocks (bc st)" "card (held_blocks (bc st)) < NBUF"
    using assms by (auto simp: ready_def)
  obtain s1 where s1: "get_block d b st = Inr (disk (bc st) d b, s1)"
      "bstep st s1 (disk (bc st)) (insert (d, b) (held_blocks (bc st)))"
    using get_block_ok [OF r] by blast
  obtain s2 where s2: "rel_block d b s1 = Inr s2" "bstep s1 s2 (disk (bc s1)) (held_blocks (bc s1) - {(d, b)})"
    using rel_block_ok [of s1 d b] s1(2) by (auto simp: bstep_def)
  have "bstep st s2 (disk (bc st)) (held_blocks (bc st))"
    using s1(2) s2(2) r(3) by (simp add: bstep_def)
  then show ?thesis using s1 s2 by blast
qed

lemma poke_block:
  assumes "ready d 1 {b} st" and "is_block x"
  shows "\<exists>s1 s2 s3. get_block d b st = Inr (disk (bc st) d b, s1) \<and> put_block d b x s1 = Inr s2
     \<and> rel_block d b s2 = Inr s3 \<and> bstep st s3 (upd_disk (disk (bc st)) d b x) (held_blocks (bc st))"
proof -
  have r: "bcache_inv (bc st)" "usable_dev (bc st) d" "(d, b) \<notin> held_blocks (bc st)" "card (held_blocks (bc st)) < NBUF"
    using assms by (auto simp: ready_def)
  obtain s1 where s1: "get_block d b st = Inr (disk (bc st) d b, s1)"
      "bstep st s1 (disk (bc st)) (insert (d, b) (held_blocks (bc st)))"
    using get_block_ok [OF r] by blast
  obtain s2 where s2: "put_block d b x s1 = Inr s2" "bstep s1 s2 (upd_disk (disk (bc s1)) d b x) (held_blocks (bc s1))"
    using put_block_ok [of s1 d b x] s1(2) assms(2) by (auto simp: bstep_def)
  obtain s3 where s3: "rel_block d b s2 = Inr s3" "bstep s2 s3 (disk (bc s2)) (held_blocks (bc s2) - {(d, b)})"
    using rel_block_ok [of s2 d b] s1(2) s2(2) by (auto simp: bstep_def)
  have "bstep st s3 (upd_disk (disk (bc st)) d b x) (held_blocks (bc st))"
    using s1(2) s2(2) s3(2) r(3) by (simp add: bstep_def)
  then show ?thesis using s1 s2 s3 by blast
qed

lemma disk_is_block: "ready d k B st \<Longrightarrow> is_block (disk (bc st) e b)"
  using bio.view_block by (simp add: ready_def)

subsection \<open>Superblock and clearing\<close>

lemma readsb_ok:
  assumes "ready d 1 {1} st"
  shows "\<exists>st'. readsb d st = Inr (dec_superblock (disk (bc st) d 1), st') \<and> bstep st st' (disk (bc st)) (held_blocks (bc st))"
  using peek_block [OF assms] by (auto simp: readsb_def)

lemma bzero_ok:
  assumes "ready d 1 {b} st"
  shows "\<exists>st'. bzero d b st = Inr st' \<and> bstep st st' (upd_disk (disk (bc st)) d b (replicate BSIZE 0)) (held_blocks (bc st))"
proof -
  have "is_block (replicate BSIZE (0::u8))" by (simp add: is_block_def)
  from poke_block [OF assms this] show ?thesis by (auto simp: bzero_def)
qed

subsection \<open>The bitmap\<close>

definition block_used :: "(u32 \<Rightarrow> u32 \<Rightarrow> block) \<Rightarrow> u32 \<Rightarrow> u32 \<Rightarrow> bool" where
  "block_used V d b = bit_set (unat (b mod BPB)) (V d (BBLOCK b (sb_ninodes (dec_superblock (V d 1)))))"

lemma unat_mod_BPB: "unat (b mod BPB) = unat b mod 4096" "unat (b div BPB) = unat b div 4096"
  by (simp_all add: BPB_def unat_mod unat_div)

lemma BBLOCK_eq_iff: "BBLOCK b n = BBLOCK c n \<longleftrightarrow> b div BPB = c div BPB"
  by (simp add: BBLOCK_def)

lemma block_index_eq: "b div BPB = c div BPB \<Longrightarrow> unat (b mod BPB) = unat (c mod BPB) \<Longrightarrow> b = c"
  by (metis unat_mod_BPB div_mult_mod_eq word_unat_eq_iff)

text \<open>Setting and clearing one bit of the bitmap.\<close>

lemma block_used_upd:
  assumes n: "n = sb_ninodes (dec_superblock (V d 1))" and b1: "BBLOCK b n \<noteq> 1"
  shows "block_used (upd_disk V d (BBLOCK b n) y) d c
     = (if b div BPB = c div BPB then bit_set (unat (c mod BPB)) y else block_used V d c)"
  using assms(2) BBLOCK_eq_iff [of b n c] by (auto simp: block_used_def upd_disk_apply n [symmetric])

lemma block_used_here:
  assumes n: "n = sb_ninodes (dec_superblock (V d 1))" and e: "b div BPB = c div BPB"
  shows "bit_set (unat (c mod BPB)) (V d (BBLOCK b n)) = block_used V d c"
  using e BBLOCK_eq_iff [of b n c] by (simp add: block_used_def n [symmetric])

lemma mod_BPB_less: "unat (e mod BPB) < 4096"
  by (simp add: unat_mod_BPB)

lemma block_used_set:
  assumes x: "is_block (V d (BBLOCK b n))" and n: "n = sb_ninodes (dec_superblock (V d 1))" and b1: "BBLOCK b n \<noteq> 1"
  shows "block_used (upd_disk V d (BBLOCK b n) (set_bit_at (unat (b mod BPB)) (V d (BBLOCK b n)))) d c
     = (block_used V d c \<or> c = b)"
proof (cases "b div BPB = c div BPB")
  case True
  have i: "(unat (c mod BPB) = unat (b mod BPB)) = (c = b)" using block_index_eq [OF True] by auto
  show ?thesis
    using True i block_used_here [of n V d b c, OF n True] bit_set_set_bit [OF x mod_BPB_less mod_BPB_less, of c b]
    by (auto simp: block_used_upd [of n V d b _ c, OF n b1])
next
  case False
  then show ?thesis by (auto simp: block_used_upd [of n V d b _ c, OF n b1])
qed

lemma block_used_clear:
  assumes x: "is_block (V d (BBLOCK b n))" and n: "n = sb_ninodes (dec_superblock (V d 1))" and b1: "BBLOCK b n \<noteq> 1"
  shows "block_used (upd_disk V d (BBLOCK b n) (clear_bit_at (unat (b mod BPB)) (V d (BBLOCK b n)))) d c
     = (block_used V d c \<and> c \<noteq> b)"
proof (cases "b div BPB = c div BPB")
  case True
  have i: "(unat (c mod BPB) = unat (b mod BPB)) = (c = b)" using block_index_eq [OF True] by auto
  show ?thesis
    using True i block_used_here [of n V d b c, OF n True] bit_set_clear_bit [OF x mod_BPB_less mod_BPB_less, of c b]
    by (auto simp: block_used_upd [of n V d b _ c, OF n b1])
next
  case False
  then show ?thesis by (auto simp: block_used_upd [of n V d b _ c, OF n b1])
qed

text \<open>Blocks of the form \<open>4096 k + i\<close>.\<close>

lemma block_of_index:
  assumes "4096 * k + i < 2 ^ 32" and "i < 4096"
  shows "unat ((of_nat (4096 * k) + of_nat i :: u32) mod BPB) = i"
    and "(of_nat (4096 * k) + of_nat i :: u32) div BPB = of_nat (4096 * k) div BPB"
proof -
  have v: "unat (of_nat (4096 * k) :: u32) = 4096 * k"
    using assms(1) by (intro unat_of_nat_small) simp
  have u: "unat (of_nat (4096 * k) + of_nat i :: u32) = 4096 * k + i"
    using assms(1) unfolding of_nat_add [symmetric] by (intro unat_of_nat_small)
  show "unat ((of_nat (4096 * k) + of_nat i :: u32) mod BPB) = i"
    using assms(2) unfolding unat_mod_BPB u by simp
  show "(of_nat (4096 * k) + of_nat i :: u32) div BPB = of_nat (4096 * k) div BPB"
    using assms(2) unfolding word_unat_eq_iff unat_mod_BPB u v by simp
qed

lemma bitmap_block_ne_1: "sb_ninodes sb div IPB < 2 ^ 20 \<Longrightarrow> BBLOCK b (sb_ninodes sb) \<noteq> 1"
proof -
  assume a: "sb_ninodes sb div IPB < 2 ^ 20"
  have "unat (b div BPB) < 2 ^ 20" using unat_u32_less [of b] by (simp add: unat_mod_BPB)
  moreover have "unat (sb_ninodes sb div IPB) < 2 ^ 20" using a by (simp add: word_less_nat_alt)
  ultimately have "unat (BBLOCK b (sb_ninodes sb)) = unat (b div BPB) + unat (sb_ninodes sb div IPB) + 3"
    by (simp add: BBLOCK_def unat_word_ariths)
  then show ?thesis by auto
qed

text \<open>The blocks that group \<open>k\<close> of the bitmap describes.\<close>

lemma block_used_group:
  assumes n: "n = sb_ninodes (dec_superblock (V d 1))" and c: "unat c div 4096 = k"
  shows "bit_set (unat c mod 4096) (V d (BBLOCK (of_nat (4096 * k)) n)) = block_used V d c"
proof -
  have "4096 * k \<le> unat c" using c by (auto intro: le_trans [OF _ div_times_less_eq_dividend [of "unat c" 4096]])
  then have v: "unat (of_nat (4096 * k) :: u32) = 4096 * k"
    using unat_u32_less [of c] by (intro unat_of_nat_small) simp
  have "(of_nat (4096 * k) :: u32) div BPB = c div BPB"
    unfolding word_unat_eq_iff unat_mod_BPB v using c by simp
  from block_used_here [of n V d "of_nat (4096 * k)" c, OF n this] show ?thesis by (simp add: unat_mod_BPB)
qed

definition balloc_result :: "u32 \<Rightarrow> u32 \<Rightarrow> nat \<Rightarrow> nat \<Rightarrow> 'w fs \<Rightarrow> (kerr + u32 \<times> 'w fs) \<Rightarrow> bool" where
  "balloc_result d n lo hi st r =
     (case r of
        Inl e \<Rightarrow> e = Panic ''balloc: out of blocks''
          \<and> (\<forall>c. lo \<le> unat c \<and> unat c < hi \<longrightarrow> block_used (disk (bc st)) d c)
      | Inr (b, st') \<Rightarrow> \<not> block_used (disk (bc st)) d b \<and> lo \<le> unat b \<and> unat b < hi
          \<and> (\<forall>c. lo \<le> unat c \<and> c < b \<longrightarrow> block_used (disk (bc st)) d c)
          \<and> bstep st st' (upd_disk (disk (bc st)) d (BBLOCK b n)
                (set_bit_at (unat (b mod BPB)) (disk (bc st) d (BBLOCK b n)))) (held_blocks (bc st)))"

lemma balloc_result_below:
  assumes r: "balloc_result d n lo' hi s2 r" and s: "bstep st s2 (disk (bc st)) (held_blocks (bc st))"
    and u: "\<And>c. lo \<le> unat c \<Longrightarrow> lo' \<le> unat c \<or> block_used (disk (bc st)) d c" and lo: "lo \<le> lo'"
  shows "balloc_result d n lo hi st r"
proof -
  have same: "disk (bc s2) = disk (bc st)" "held_blocks (bc s2) = held_blocks (bc st)" using s by (auto simp: bstep_def)
  show ?thesis
  proof (cases r)
    case (Inl e)
    have "block_used (disk (bc st)) d c" if "lo \<le> unat c" "unat c < hi" for c
      using r u [OF that(1)] that(2) by (auto simp: balloc_result_def same Inl)
    then show ?thesis using r by (simp add: balloc_result_def same Inl)
  next
    case (Inr p)
    obtain b s3 where p: "p = (b, s3)" by (cases p)
    have "block_used (disk (bc st)) d c" if "lo \<le> unat c" "c < b" for c
      using r u [OF that(1)] that(2) unfolding balloc_result_def same Inr p by auto
    then show ?thesis
      using r lo bstep_trans [OF s, of s3] by (simp add: balloc_result_def same Inr p)
  qed
qed

lemma balloc_scan_result:
  assumes n: "n = sb_ninodes (dec_superblock (disk (bc st) d 1))" and K: "4096 * K \<le> 2 ^ 32"
    and r: "ready d 1 {b. \<exists>c. b = BBLOCK c n} st"
  shows "balloc_result d n (4096 * k) (4096 * K) st
     (balloc_scan d n (map (\<lambda>k. of_nat (4096 * k)) [k..<K]) st)"
  using n r
proof (induction "K - k" arbitrary: k st)
  case 0
  then show ?case by (auto simp: balloc_result_def)
next
  case (Suc m)
  then have k: "k < K" by simp
  define x where "x = disk (bc st) d (BBLOCK (of_nat (4096 * k)) n)"
  have upt: "[k..<K] = k # [Suc k..<K]" using k by (simp add: upt_rec)
  have in_group: "unat c div 4096 = k \<Longrightarrow> bit_set (unat c mod 4096) x = block_used (disk (bc st)) d c" for c
    unfolding x_def using block_used_group [of n "disk (bc st)" d c k, OF Suc.prems(1)] by simp
  have r1: "ready d 1 {BBLOCK (of_nat (4096 * k)) n} st" using Suc.prems(2) by (auto simp: ready_def)
  show ?case
  proof (cases "first_idx (\<lambda>bi. \<not> bit_set bi x) [0..<4096]")
    case None
    obtain s1 s2 where s: "get_block d (BBLOCK (of_nat (4096 * k)) n) st = Inr (x, s1)"
        "rel_block d (BBLOCK (of_nat (4096 * k)) n) s1 = Inr s2" "bstep st s2 (disk (bc st)) (held_blocks (bc st))"
      using peek_block [OF r1] unfolding x_def by blast
    have full: "block_used (disk (bc st)) d c" if "unat c div 4096 = k" for c
      using in_group [OF that] None by (auto simp: first_idx_None_iff)
    have same: "disk (bc s2) = disk (bc st)" "held_blocks (bc s2) = held_blocks (bc st)" using s(3) by (auto simp: bstep_def)
    have "balloc_result d n (4096 * Suc k) (4096 * K) s2 (balloc_scan d n (map (\<lambda>k. of_nat (4096 * k)) [Suc k..<K]) s2)"
    proof (rule Suc.hyps(1))
      show "m = K - Suc k" using Suc.hyps(2) by simp
      show "n = sb_ninodes (dec_superblock (disk (bc s2) d 1))" using Suc.prems(1) by (simp add: same)
      show "ready d 1 {b. \<exists>c. b = BBLOCK c n} s2" by (rule ready_bstep [OF Suc.prems(2) s(3)])
    qed
    moreover have "balloc_scan d n (map (\<lambda>k. of_nat (4096 * k)) [k..<K]) st
        = balloc_scan d n (map (\<lambda>k. of_nat (4096 * k)) [Suc k..<K]) s2"
      using s None by (simp add: upt del: of_nat_mult)
    moreover have "4096 * k \<le> unat c \<Longrightarrow> 4096 * Suc k \<le> unat c \<or> block_used (disk (bc st)) d c" for c
      using full [of c] by (cases "unat c div 4096 = k") (auto simp: not_le div_nat_eqI)
    ultimately show ?thesis
      using balloc_result_below [OF _ s(3)] by (metis le_less_linear mult_le_mono2 lessI less_imp_le)
  next
    case (Some bi)
    then have bi: "bi < 4096" "\<not> bit_set bi x" "\<And>j. j < bi \<Longrightarrow> bit_set j x"
      by (auto simp: first_idx_Some_iff)
    define b :: u32 where "b = of_nat (4096 * k) + of_nat bi"
    have small: "4096 * k + bi < 2 ^ 32" using k K bi(1) by simp
    have ub: "unat b = 4096 * k + bi"
      unfolding b_def of_nat_add [symmetric] using small by (rule unat_of_nat_small)
    have B: "BBLOCK b n = BBLOCK (of_nat (4096 * k)) n" "unat (b mod BPB) = bi"
      using block_of_index [OF small bi(1)] by (auto simp: BBLOCK_eq_iff b_def)
    have "is_block (set_bit_at bi x)" using disk_is_block [OF r1] by (simp add: x_def)
    then obtain s1 s2 s3 where s: "get_block d (BBLOCK (of_nat (4096 * k)) n) st = Inr (x, s1)"
        "put_block d (BBLOCK (of_nat (4096 * k)) n) (set_bit_at bi x) s1 = Inr s2"
        "rel_block d (BBLOCK (of_nat (4096 * k)) n) s2 = Inr s3"
        "bstep st s3 (upd_disk (disk (bc st)) d (BBLOCK (of_nat (4096 * k)) n) (set_bit_at bi x)) (held_blocks (bc st))"
      using poke_block [OF r1] unfolding x_def by blast
    have "balloc_scan d n (map (\<lambda>k. of_nat (4096 * k)) [k..<K]) st = Inr (b, s3)"
      using s Some by (simp add: upt b_def del: of_nat_mult)
    moreover have "\<not> block_used (disk (bc st)) d b" using in_group [of b] bi(1,2) by (simp add: ub)
    moreover have "block_used (disk (bc st)) d c" if "4096 * k \<le> unat c" "c < b" for c
    proof -
      have c: "unat c < 4096 * k + bi" using that(2) by (simp add: word_less_nat_alt ub)
      then have "unat c div 4096 = k" using that(1) bi(1) by (intro div_nat_eqI) simp_all
      moreover from this have "unat c mod 4096 < bi" using c that(1) by (metis add_less_cancel_left mult_div_mod_eq)
      ultimately show ?thesis using in_group [of c] bi(3) by simp
    qed
    ultimately show ?thesis using s(4) bi(1) k by (simp add: balloc_result_def B ub x_def)
  qed
qed

lemma balloc_ok:
  assumes n: "n = sb_ninodes (dec_superblock (disk (bc st) d 1))"
    and z: "z = unat (sb_size (dec_superblock (disk (bc st) d 1)))" and hi: "z \<le> 2 ^ 32 - 4096"
    and r: "ready d 1 (insert 1 {b. \<exists>c. b = BBLOCK c n}) st"
  shows "balloc_result d n 0 (4096 * ((z + 4095) div 4096)) st (balloc d st)"
proof -
  have "ready d 1 {1} st" using r by (rule ready_mono) auto
  from readsb_ok [OF this] obtain s1 where s1: "readsb d st = Inr (dec_superblock (disk (bc st) d 1), s1)"
      "bstep st s1 (disk (bc st)) (held_blocks (bc st))" by blast
  have same: "disk (bc s1) = disk (bc st)" using s1(2) by (simp add: bstep_def)
  have "4096 * ((z + 4095) div 4096) \<le> 2 ^ 32" using hi by simp
  moreover have "ready d 1 {b. \<exists>c. b = BBLOCK c n} s1"
    by (rule ready_bstep [OF _ s1(2)], rule ready_mono [OF r]) auto
  ultimately have "balloc_result d n (4096 * 0) (4096 * ((z + 4095) div 4096)) s1
      (balloc_scan d n (map (\<lambda>k. of_nat (4096 * k)) [0..<(z + 4095) div 4096]) s1)"
    using n same by (intro balloc_scan_result) simp_all
  then have "balloc_result d n 0 (4096 * ((z + 4095) div 4096)) st
      (balloc_scan d n (map (\<lambda>k. of_nat (4096 * k)) [0..<(z + 4095) div 4096]) s1)"
    using balloc_result_below [OF _ s1(2)] by simp
  moreover have "balloc d st = balloc_scan d n (map (\<lambda>k. of_nat (4096 * k)) [0..<(z + 4095) div 4096]) s1"
    by (simp add: balloc_def s1(1) bitmap_starts_def n z)
  ultimately show ?thesis by simp
qed

text \<open>\<open>bfree\<close> clears the block, then its bit; it panics when the bit is clear already.\<close>

lemma bfree_ok:
  assumes n: "n = sb_ninodes (dec_superblock (disk (bc st) d 1))"
    and r: "ready d 1 {1, b, BBLOCK b n} st" and b: "b \<noteq> 1" "b \<noteq> BBLOCK b n"
  shows "if block_used (disk (bc st)) d b
    then \<exists>st'. bfree d b st = Inr st' \<and> bstep st st'
           (upd_disk (upd_disk (disk (bc st)) d b (replicate BSIZE 0)) d (BBLOCK b n)
              (clear_bit_at (unat (b mod BPB)) (disk (bc st) d (BBLOCK b n)))) (held_blocks (bc st))
    else bfree d b st = Inl (Panic ''freeing free block'')"
proof -
  let ?V = "disk (bc st)" and ?H = "held_blocks (bc st)"
  let ?V1 = "upd_disk ?V d b (replicate BSIZE 0)" and ?m = "BBLOCK b n"
  let ?x = "?V d ?m"
  have "ready d 1 {b} st" using r by (rule ready_mono) auto
  from bzero_ok [OF this] obtain s1 where s1: "bzero d b st = Inr s1" "bstep st s1 ?V1 ?H" by blast
  have same1: "disk (bc s1) = ?V1" "held_blocks (bc s1) = ?H" using s1(2) by (auto simp: bstep_def)
  have r1: "ready d 1 {1, b, ?m} s1" by (rule ready_bstep [OF r s1(2)])
  have "ready d 1 {1} s1" using r1 by (rule ready_mono) auto
  moreover have sb: "disk (bc s1) d 1 = ?V d 1" using b(1) by (simp add: same1 upd_disk_apply)
  ultimately obtain s2 where s2: "readsb d s1 = Inr (dec_superblock (?V d 1), s2)" "bstep s1 s2 ?V1 ?H"
    using readsb_ok [of d s1] by (auto simp: same1)
  have s02: "bstep st s2 ?V1 ?H" by (rule bstep_trans [OF s1(2) s2(2)])
  have same2: "disk (bc s2) = ?V1" "held_blocks (bc s2) = ?H" using s02 by (auto simp: bstep_def)
  have r2: "ready d 1 {?m} s2" by (rule ready_bstep [OF _ s02], rule ready_mono [OF r]) auto
  have x: "disk (bc s2) d ?m = ?x" using b(2) by (simp add: same2 upd_disk_apply)
  have u: "bit_set (unat (b mod BPB)) ?x = block_used ?V d b" by (simp add: block_used_def n)
  show ?thesis
  proof (cases "block_used ?V d b")
    case True
    have "is_block (clear_bit_at (unat (b mod BPB)) ?x)" using disk_is_block [OF r] by simp
    from poke_block [OF r2 this, unfolded x] obtain s3 s4 s5 where s: "get_block d ?m s2 = Inr (?x, s3)"
        "put_block d ?m (clear_bit_at (unat (b mod BPB)) ?x) s3 = Inr s4" "rel_block d ?m s4 = Inr s5"
        "bstep s2 s5 (upd_disk ?V1 d ?m (clear_bit_at (unat (b mod BPB)) ?x)) ?H"
      unfolding same2 by blast
    have "bfree d b st = Inr s5"
      using s1 s2 s(1-3) True u by (simp add: bfree_def n [symmetric] Let_def)
    then show ?thesis using bstep_trans [OF s02 s(4)] True by auto
  next
    case False
    from peek_block [OF r2, unfolded x] obtain s3 where "get_block d ?m s2 = Inr (?x, s3)" by blast
    then have "bfree d b st = Inl (Panic ''freeing free block'')"
      using s1 s2 False u by (simp add: bfree_def n [symmetric] Let_def)
    then show ?thesis using False by simp
  qed
qed

subsection \<open>Properties\<close>

text \<open>C9: \<open>balloc\<close> returns the first block whose bit is clear, sets exactly that bit of the bitmap and changes
  no other block of the disk; it panics only when every block that the bitmap covers for the disk's size is
  in use.\<close>

theorem balloc_takes_first_free:
  assumes n: "n = sb_ninodes (dec_superblock (disk (bc st) d 1))" "n div IPB < 2 ^ 20"
    and z: "z = unat (sb_size (dec_superblock (disk (bc st) d 1)))" "z \<le> 2 ^ 32 - 4096"
    and r: "ready d 1 (insert 1 {b. \<exists>c. b = BBLOCK c n}) st"
  shows "(\<exists>b st'. balloc d st = Inr (b, st') \<and> \<not> block_used (disk (bc st)) d b
       \<and> (\<forall>c < b. block_used (disk (bc st)) d c)
       \<and> (\<forall>c. block_used (disk (bc st')) d c \<longleftrightarrow> c = b \<or> block_used (disk (bc st)) d c)
       \<and> (\<forall>e c. (e, c) \<noteq> (d, BBLOCK b n) \<longrightarrow> disk (bc st') e c = disk (bc st) e c))
   \<or> balloc d st = Inl (Panic ''balloc: out of blocks'') \<and> (\<forall>c. unat c < z \<longrightarrow> block_used (disk (bc st)) d c)"
proof -
  have res: "balloc_result d n 0 (4096 * ((z + 4095) div 4096)) st (balloc d st)" by (rule balloc_ok [OF n(1) z r])
  show ?thesis
  proof (cases "balloc d st")
    case (Inl e)
    have "z \<le> 4096 * ((z + 4095) div 4096)" by simp
    then show ?thesis using res Inl by (auto simp: balloc_result_def)
  next
    case (Inr p)
    obtain b st' where p: "p = (b, st')" by (cases p)
    have ne: "BBLOCK b n \<noteq> 1" unfolding n(1) by (rule bitmap_block_ne_1) (use n in simp)
    have x: "is_block (disk (bc st) d (BBLOCK b n))" by (rule disk_is_block [OF r])
    have b: "\<not> block_used (disk (bc st)) d b" "\<forall>c < b. block_used (disk (bc st)) d c"
        "disk (bc st') = upd_disk (disk (bc st)) d (BBLOCK b n) (set_bit_at (unat (b mod BPB)) (disk (bc st) d (BBLOCK b n)))"
      using res by (auto simp: balloc_result_def Inr p bstep_def)
    have "block_used (disk (bc st')) d c \<longleftrightarrow> c = b \<or> block_used (disk (bc st)) d c" for c
      unfolding b(3) using block_used_set [of "disk (bc st)" d b n c, OF x n(1) ne] by blast
    moreover have "\<forall>e c. (e, c) \<noteq> (d, BBLOCK b n) \<longrightarrow> disk (bc st') e c = disk (bc st) e c"
      unfolding b(3) by (simp add: upd_disk_apply)
    ultimately show ?thesis using b(1,2) Inr p by blast
  qed
qed

definition tiny_disk :: "unit fs" where
  "tiny_disk = iinit (binit (\<lambda>d b. if b = 1 then 1 # replicate 511 0 else replicate 512 0) False) ()"

lemma tiny_disk_ready: "ready 0 1 B tiny_disk"
proof -
  have "\<forall>d s. is_block ((\<lambda>d b. if b = 1 then 1 # replicate 511 0 else replicate 512 0) d (s::u32))"
    by (simp add: is_block_def BSIZE_def)
  from bcache_inv_binit [OF this, of False] show ?thesis
    by (simp add: ready_def tiny_disk_def iinit_def NBUF_def) (simp add: usable_dev_def)
qed

lemma tiny_disk_super:
  "dec_superblock (disk (bc tiny_disk) 0 1) = \<lparr>sb_size = 1, sb_nblocks = 0, sb_ninodes = 0\<rparr>"
  by (simp add: tiny_disk_def iinit_def binit_def dec_superblock_def word32_def numeral_eq_Suc)

lemma tiny_disk_free: "\<not> block_used (disk (bc tiny_disk)) 0 0"
  unfolding block_used_def tiny_disk_super
  by (simp add: tiny_disk_def iinit_def binit_def bit_set_def BBLOCK_def IPB_def BPB_def)

theorem balloc_takes_first_free_witness: "\<exists>st'. balloc 0 tiny_disk = Inr (0, st')"
proof -
  have "(\<exists>b st'. balloc 0 tiny_disk = Inr (b, st') \<and> \<not> block_used (disk (bc tiny_disk)) 0 b
       \<and> (\<forall>c < b. block_used (disk (bc tiny_disk)) 0 c)
       \<and> (\<forall>c. block_used (disk (bc st')) 0 c \<longleftrightarrow> c = b \<or> block_used (disk (bc tiny_disk)) 0 c)
       \<and> (\<forall>e c. (e, c) \<noteq> (0, BBLOCK b 0) \<longrightarrow> disk (bc st') e c = disk (bc tiny_disk) e c))
   \<or> balloc 0 tiny_disk = Inl (Panic ''balloc: out of blocks'') \<and> (\<forall>c. unat c < 1 \<longrightarrow> block_used (disk (bc tiny_disk)) 0 c)"
    by (rule balloc_takes_first_free) (simp_all add: tiny_disk_super tiny_disk_ready [unfolded One_nat_def] IPB_def)
  then obtain b st' where b: "balloc 0 tiny_disk = Inr (b, st')" "\<forall>c < b. block_used (disk (bc tiny_disk)) 0 c"
    using tiny_disk_free by auto
  have "b = 0" using b(2) tiny_disk_free word_gt_0 [of b] by blast
  then show ?thesis using b(1) by blast
qed

text \<open>\<open>bfree\<close> of a block in use clears its bit and only its bit, fills the block with zeros and leaves every
  other block but that bitmap block alone; on a block that is free already it panics.\<close>

theorem bfree_releases:
  assumes n: "n = sb_ninodes (dec_superblock (disk (bc st) d 1))" "n div IPB < 2 ^ 20"
    and r: "ready d 1 {1, b, BBLOCK b n} st" and b: "b \<noteq> 1" "\<forall>c. b \<noteq> BBLOCK c n"
  shows "if block_used (disk (bc st)) d b then \<exists>st'. bfree d b st = Inr st'
       \<and> (\<forall>c. block_used (disk (bc st')) d c \<longleftrightarrow> c \<noteq> b \<and> block_used (disk (bc st)) d c)
       \<and> disk (bc st') d b = replicate BSIZE 0
       \<and> (\<forall>e c. (e, c) \<notin> {(d, b), (d, BBLOCK b n)} \<longrightarrow> disk (bc st') e c = disk (bc st) e c)
     else bfree d b st = Inl (Panic ''freeing free block'')"
proof (rule if_bool_eq_conj [THEN iffD2], intro conjI impI)
  note f = bfree_ok [OF n(1) r b(1) b(2) [rule_format]]
  show "bfree d b st = Inl (Panic ''freeing free block'')" if "\<not> block_used (disk (bc st)) d b" using that f by simp
  assume "block_used (disk (bc st)) d b"
  then obtain st' where f: "bfree d b st = Inr st'" and V: "disk (bc st') =
      upd_disk (upd_disk (disk (bc st)) d b (replicate BSIZE 0)) d (BBLOCK b n)
              (clear_bit_at (unat (b mod BPB)) (disk (bc st) d (BBLOCK b n)))"
    using f by (auto simp: bstep_def)
  define W where "W = upd_disk (disk (bc st)) d b (replicate BSIZE 0)"
  have w: "W d (BBLOCK c n) = disk (bc st) d (BBLOCK c n)" "W d 1 = disk (bc st) d 1" for c
    using b(1) b(2) [rule_format, of c] by (auto simp: W_def upd_disk_apply)
  have nW: "n = sb_ninodes (dec_superblock (W d 1))" by (simp add: w n(1))
  have u: "block_used W d c = block_used (disk (bc st)) d c" for c
    unfolding block_used_def by (simp only: w(2) n(1) [symmetric] w(1))
  have ne: "BBLOCK b n \<noteq> 1" unfolding n(1) by (rule bitmap_block_ne_1) (use n in simp)
  have x: "is_block (W d (BBLOCK b n))" unfolding w by (rule disk_is_block [OF r])
  have "block_used (disk (bc st')) d c \<longleftrightarrow> c \<noteq> b \<and> block_used (disk (bc st)) d c" for c
    using block_used_clear [of W d b n c, OF x nW ne] unfolding V W_def [symmetric] w(1) u by blast
  then show "\<exists>st'. bfree d b st = Inr st'
       \<and> (\<forall>c. block_used (disk (bc st')) d c \<longleftrightarrow> c \<noteq> b \<and> block_used (disk (bc st)) d c)
       \<and> disk (bc st') d b = replicate BSIZE 0
       \<and> (\<forall>e c. (e, c) \<notin> {(d, b), (d, BBLOCK b n)} \<longrightarrow> disk (bc st') e c = disk (bc st) e c)"
    using f b(2) by (intro exI [of _ st']) (auto simp: V upd_disk_apply)
qed

theorem bfree_releases_witness: "bfree 0 0 tiny_disk = Inl (Panic ''freeing free block'')"
proof -
  have ne: "\<forall>c. (0::u32) \<noteq> BBLOCK c 0"
  proof
    fix c
    have "BBLOCK c 0 = c div BPB + 3" by (simp add: BBLOCK_def IPB_def)
    moreover have "unat (c div BPB + 3) = unat (c div BPB) + 3"
      using unat_u32_less [of c] by (intro unat_add_small [where b = 3, simplified]) (simp add: unat_mod_BPB)
    ultimately show "(0::u32) \<noteq> BBLOCK c 0" by auto
  qed
  have "if block_used (disk (bc tiny_disk)) 0 0 then \<exists>st'. bfree 0 0 tiny_disk = Inr st'
       \<and> (\<forall>c. block_used (disk (bc st')) 0 c \<longleftrightarrow> c \<noteq> 0 \<and> block_used (disk (bc tiny_disk)) 0 c)
       \<and> disk (bc st') 0 0 = replicate BSIZE 0
       \<and> (\<forall>e c. (e, c) \<notin> {(0, 0), (0, BBLOCK 0 0)} \<longrightarrow> disk (bc st') e c = disk (bc tiny_disk) e c)
     else bfree 0 0 tiny_disk = Inl (Panic ''freeing free block'')"
    by (rule bfree_releases) (use ne in \<open>simp_all add: tiny_disk_super tiny_disk_ready [unfolded One_nat_def] IPB_def tiny_disk_free\<close>)
  then show ?thesis by (simp add: tiny_disk_free)
qed

end
