(* ===== verification/FsFiles.thy ===== *)
theory FsFiles
  imports FsBlocks
begin

text \<open>
  Files as byte arrays. The bytes of a file are those of its blocks, direct and indirect, cut at its size;
  for a file whose blocks are allocated, \<open>readi\<close> returns a slice of these bytes and \<open>writei\<close> overwrites one,
  keeping the checksums of a \<open>T_CHECKED\<close> file correct and leaving all other blocks alone.
\<close>

subsection \<open>The blocks of a file\<close>

text \<open>The entry of the block map for block \<open>k\<close>, checksum included, and the address in it.\<close>

definition map_entry :: "(u32 \<Rightarrow> u32 \<Rightarrow> block) \<Rightarrow> inode \<Rightarrow> nat \<Rightarrow> u32" where
  "map_entry V ip k = (if k < NDIRECT then addrs ip ! k else get_ptr (k - NDIRECT) (V (idev ip) (addrs ip ! NDIRECT)))"

definition block_addr :: "(u32 \<Rightarrow> u32 \<Rightarrow> block) \<Rightarrow> inode \<Rightarrow> nat \<Rightarrow> u32" where
  "block_addr V ip k = masked (itype ip) (map_entry V ip k)"

definition sum_block :: "block \<Rightarrow> u32" where
  "sum_block x = xor_list (map ucast x)"

definition file_byte :: "(u32 \<Rightarrow> u32 \<Rightarrow> block) \<Rightarrow> inode \<Rightarrow> nat \<Rightarrow> u8" where
  "file_byte V ip x = V (idev ip) (block_addr V ip (x div BSIZE)) ! (x mod BSIZE)"

definition file_bytes :: "'w fs \<Rightarrow> nat \<Rightarrow> u8 list" where
  "file_bytes st i = map (file_byte (disk (bc st)) (ino st i)) [0..<unat (isize (ino st i))]"

text \<open>
  The first \<open>nb\<close> blocks of a file are allocated: addresses are distinct and differ from the indirect
  block. Nothing is said of the checksums.
\<close>

definition file_alloc :: "(u32 \<Rightarrow> u32 \<Rightarrow> block) \<Rightarrow> inode \<Rightarrow> nat \<Rightarrow> bool" where
  "file_alloc V ip nb =
     (nb \<le> MAXFILE \<and> length (addrs ip) = NDIRECT + 1 \<and> (NDIRECT < nb \<longrightarrow> addrs ip ! NDIRECT \<noteq> 0)
      \<and> (\<forall>k < nb. block_addr V ip k \<noteq> 0)
      \<and> (\<forall>k < nb. \<forall>l < nb. block_addr V ip k = block_addr V ip l \<longrightarrow> k = l)
      \<and> (NDIRECT < nb \<longrightarrow> (\<forall>k < nb. block_addr V ip k \<noteq> addrs ip ! NDIRECT)))"

text \<open>Block \<open>k\<close> of a \<open>T_CHECKED\<close> file has the stored checksum; other files have none.\<close>

definition sum_ok :: "(u32 \<Rightarrow> u32 \<Rightarrow> block) \<Rightarrow> inode \<Rightarrow> nat \<Rightarrow> bool" where
  "sum_ok V ip k = (itype ip = T_CHECKED \<longrightarrow> top_byte (map_entry V ip k) = sum_block (V (idev ip) (block_addr V ip k)))"

text \<open>Blocks allocated and checksums right: what \<open>writei\<close> keeps.\<close>

definition file_blocks :: "(u32 \<Rightarrow> u32 \<Rightarrow> block) \<Rightarrow> inode \<Rightarrow> nat \<Rightarrow> bool" where
  "file_blocks V ip nb =
     (nb \<le> MAXFILE \<and> length (addrs ip) = NDIRECT + 1 \<and> (NDIRECT < nb \<longrightarrow> addrs ip ! NDIRECT \<noteq> 0)
      \<and> (\<forall>k < nb. block_addr V ip k \<noteq> 0)
      \<and> (\<forall>k < nb. \<forall>l < nb. block_addr V ip k = block_addr V ip l \<longrightarrow> k = l)
      \<and> (NDIRECT < nb \<longrightarrow> (\<forall>k < nb. block_addr V ip k \<noteq> addrs ip ! NDIRECT))
      \<and> (itype ip = T_CHECKED \<longrightarrow> (\<forall>k < nb. top_byte (map_entry V ip k) = sum_block (V (idev ip) (block_addr V ip k)))))"

lemma file_blocks_alloc: "file_blocks V ip nb \<longleftrightarrow> file_alloc V ip nb \<and> (\<forall>k < nb. sum_ok V ip k)"
  by (auto simp: file_blocks_def file_alloc_def sum_ok_def)

text \<open>An inode that a process has locked, with room in the buffer cache for two blocks of the file.\<close>

definition meta_blocks :: "(u32 \<Rightarrow> u32 \<Rightarrow> block) \<Rightarrow> inode \<Rightarrow> nat \<Rightarrow> u32 set" where
  "meta_blocks V ip nb = block_addr V ip ` {..<nb} \<union> (if NDIRECT < nb then {addrs ip ! NDIRECT} else {})"

definition open_inode_ok :: "nat \<Rightarrow> nat \<Rightarrow> 'w fs \<Rightarrow> bool" where
  "open_inode_ok i nb st =
     (i < length (icache st) \<and> itype (ino st i) \<noteq> T_DEV \<and> file_blocks (disk (bc st)) (ino st i) nb
      \<and> ready (idev (ino st i)) 2 (meta_blocks (disk (bc st)) (ino st i) nb) st)"

text \<open>The same without the checksums, which is all that reading needs.\<close>

definition open_alloc :: "nat \<Rightarrow> nat \<Rightarrow> 'w fs \<Rightarrow> bool" where
  "open_alloc i nb st =
     (i < length (icache st) \<and> itype (ino st i) \<noteq> T_DEV \<and> file_alloc (disk (bc st)) (ino st i) nb
      \<and> ready (idev (ino st i)) 2 (meta_blocks (disk (bc st)) (ino st i) nb) st)"

lemma open_inode_ok_alloc:
  "open_inode_ok i nb st \<longleftrightarrow> open_alloc i nb st \<and> (\<forall>k < nb. sum_ok (disk (bc st)) (ino st i) k)"
  by (auto simp: open_inode_ok_def open_alloc_def file_blocks_alloc)

lemma file_allocD:
  assumes "file_alloc V ip nb" and "k < nb"
  shows "nb \<le> MAXFILE" "length (addrs ip) = NDIRECT + 1" "\<not> k < NDIRECT \<Longrightarrow> addrs ip ! NDIRECT \<noteq> 0" "map_entry V ip k \<noteq> 0"
    "NDIRECT < nb \<Longrightarrow> block_addr V ip k \<noteq> addrs ip ! NDIRECT"
  using assms unfolding file_alloc_def by (auto simp: block_addr_def masked_def split: if_splits)

lemma file_blocksD:
  assumes "file_blocks V ip nb" and "k < nb"
  shows "nb \<le> MAXFILE" "length (addrs ip) = NDIRECT + 1" "\<not> k < NDIRECT \<Longrightarrow> addrs ip ! NDIRECT \<noteq> 0" "map_entry V ip k \<noteq> 0" "block_addr V ip k \<noteq> 0"
    "l < nb \<Longrightarrow> block_addr V ip k = block_addr V ip l \<Longrightarrow> k = l" "NDIRECT < nb \<Longrightarrow> block_addr V ip k \<noteq> addrs ip ! NDIRECT"
    "itype ip = T_CHECKED \<Longrightarrow> top_byte (map_entry V ip k) = sum_block (V (idev ip) (block_addr V ip k))"
  using assms unfolding file_blocks_def by (auto simp: block_addr_def masked_def split: if_splits)

lemma bmap_ok:
  assumes ok: "open_alloc i nb st" and k: "k < nb"
  shows "\<exists>s. bmap i k st = Inr (block_addr (disk (bc st)) (ino st i) k, s) \<and> bstep st s (disk (bc st)) (held_blocks (bc st))"
proof -
  let ?ip = "ino st i" and ?V = "disk (bc st)"
  have fb: "file_alloc ?V ?ip nb" and r: "ready (idev ?ip) 2 (meta_blocks ?V ?ip nb) st" using ok by (simp_all add: open_alloc_def)
  note f = file_allocD [OF fb k]
  have inv: "bcache_inv (bc st)" using r by (simp add: ready_def)
  show ?thesis
  proof (cases "k < NDIRECT")
    case True
    then have "addrs ?ip ! k \<noteq> 0" using f(4) by (simp add: map_entry_def)
    then show ?thesis using True bstep_refl [OF inv]
      by (simp add: bmap_def bmap_direct_def block_addr_def map_entry_def)
  next
    case False
    then have n: "NDIRECT < nb \<or> k = NDIRECT" "NDIRECT < nb" using k by auto
    have "k - NDIRECT < NINDIRECT" using f(1) k by (simp add: MAXFILE_def NDIRECT_def NINDIRECT_def)
    moreover have "ready (idev ?ip) 1 {addrs ?ip ! NDIRECT} st" by (rule ready_mono [OF r]) (use n in \<open>auto simp: meta_blocks_def\<close>)
    then obtain s1 s2 where "get_block (idev ?ip) (addrs ?ip ! NDIRECT) st = Inr (?V (idev ?ip) (addrs ?ip ! NDIRECT), s1)"
        "rel_block (idev ?ip) (addrs ?ip ! NDIRECT) s1 = Inr s2" "bstep st s2 ?V (held_blocks (bc st))"
      using peek_block by blast
    moreover have "get_ptr (k - NDIRECT) (?V (idev ?ip) (addrs ?ip ! NDIRECT)) \<noteq> 0" using f(4) False by (simp add: map_entry_def)
    ultimately show ?thesis using False f(3) by (simp add: bmap_def bmap_direct_def block_addr_def map_entry_def)
  qed
qed

lemma open_inode_ok_bstep:
  "open_inode_ok i nb st \<Longrightarrow> bstep st s (disk (bc st)) (held_blocks (bc st)) \<Longrightarrow> open_inode_ok i nb s"
  using ready_bstep [of _ 2 _ st s "disk (bc st)"] by (auto simp: open_inode_ok_def bstep_def)

lemma open_alloc_bstep:
  "open_alloc i nb st \<Longrightarrow> bstep st s (disk (bc st)) (held_blocks (bc st)) \<Longrightarrow> open_alloc i nb s"
  using ready_bstep [of _ 2 _ st s "disk (bc st)"] by (auto simp: open_alloc_def bstep_def)

subsection \<open>Reading\<close>

lemma hold_ready:
  assumes "ready d (Suc k) B st" and "bstep st s V (insert (d, b) (held_blocks (bc st)))"
  shows "ready d k (B - {b}) s"
proof -
  have "card (insert (d, b) (held_blocks (bc st))) \<le> Suc (card (held_blocks (bc st)))"
    by (cases "finite (held_blocks (bc st))") (simp_all add: card_insert_if)
  then show ?thesis using assms by (auto simp: ready_def bstep_def)
qed

lemma get_block_ready:
  assumes "ready d (Suc k) B st" and "b \<in> B"
  shows "\<exists>s. get_block d b st = Inr (disk (bc st) d b, s) \<and> bstep st s (disk (bc st)) (insert (d, b) (held_blocks (bc st)))
     \<and> ready d k (B - {b}) s"
proof -
  obtain s where s: "get_block d b st = Inr (disk (bc st) d b, s)" "bstep st s (disk (bc st)) (insert (d, b) (held_blocks (bc st)))"
    using get_block_ok [of st d b] assms by (auto simp: ready_def)
  then show ?thesis using hold_ready [OF assms(1) s(2)] by blast
qed

lemma rel_block_ready:
  assumes "bstep st s V (insert (d, b) (held_blocks (bc st)))" and "(d, b) \<notin> held_blocks (bc st)"
  shows "\<exists>t. rel_block d b s = Inr t \<and> bstep st t V (held_blocks (bc st))"
proof -
  obtain t where t: "rel_block d b s = Inr t" "bstep s t (disk (bc s)) (held_blocks (bc s) - {(d, b)})"
    using rel_block_ok [of s d b] assms(1) by (auto simp: bstep_def)
  then have "bstep st t V (held_blocks (bc st))" using assms by (simp add: bstep_def)
  then show ?thesis using t(1) by blast
qed

lemma stored_sum_ok:
  assumes r: "ready (idev (ino st i)) 1 B st" and b: "\<not> k < NDIRECT \<Longrightarrow> addrs (ino st i) ! NDIRECT \<in> B"
  shows "\<exists>s. stored_sum i k st = Inr (top_byte (map_entry (disk (bc st)) (ino st i) k), s) \<and> bstep st s (disk (bc st)) (held_blocks (bc st))"
proof (cases "k < NDIRECT")
  case True
  then show ?thesis using bstep_refl r by (auto simp: stored_sum_def map_entry_def ready_def)
next
  case False
  then have "ready (idev (ino st i)) 1 {addrs (ino st i) ! NDIRECT} st" using ready_mono [OF r] b by simp
  from peek_block [OF this] False show ?thesis by (auto simp: stored_sum_def map_entry_def Let_def)
qed

lemma read_block_ok:
  assumes ok: "open_alloc i nb st" and k: "off div BSIZE < nb"
  shows "\<exists>s. read_block i off n st = Inr ((bytes_at (off mod BSIZE) (chunk off n)
       (disk (bc st) (idev (ino st i)) (block_addr (disk (bc st)) (ino st i) (off div BSIZE))), sum_ok (disk (bc st)) (ino st i) (off div BSIZE)), s)
     \<and> bstep st s (disk (bc st)) (held_blocks (bc st))"
proof -
  let ?ip = "ino st i" and ?V = "disk (bc st)" and ?k = "off div BSIZE"
  let ?a = "block_addr ?V ?ip ?k" and ?d = "idev ?ip" and ?H = "held_blocks (bc st)"
  obtain s1 where s1: "bmap i ?k st = Inr (?a, s1)" "bstep st s1 ?V ?H" using bmap_ok [OF ok k] by blast
  have e1: "ino s1 i = ?ip" "disk (bc s1) = ?V" "held_blocks (bc s1) = ?H" using s1(2) by (simp_all add: bstep_def)
  have fb: "file_alloc ?V ?ip nb" and r1: "ready ?d 2 (meta_blocks ?V ?ip nb) s1"
    using open_alloc_bstep [OF ok s1(2)] e1 by (simp_all add: open_alloc_def)
  have a: "?a \<in> meta_blocks ?V ?ip nb" using k by (simp add: meta_blocks_def)
  obtain s2 where s2: "get_block ?d ?a s1 = Inr (?V ?d ?a, s2)" "bstep s1 s2 ?V (insert (?d, ?a) ?H)"
      "ready ?d 1 (meta_blocks ?V ?ip nb - {?a}) s2"
    using get_block_ready [of ?d 1 _ s1, OF _ a] r1 e1 by (auto simp: numeral_2_eq_2)
  have e2: "ino s2 i = ?ip" "disk (bc s2) = ?V" "held_blocks (bc s2) = insert (?d, ?a) ?H" using s2(2) e1 by (simp_all add: bstep_def)
  have nh: "(?d, ?a) \<notin> ?H" using r1 a e1 by (auto simp: ready_def)
  show ?thesis
  proof (cases "itype ?ip = T_CHECKED")
    case True
    have "\<not> ?k < NDIRECT \<Longrightarrow> addrs ?ip ! NDIRECT \<in> meta_blocks ?V ?ip nb - {?a}"
      using k file_allocD(5) [OF fb k] by (auto simp: meta_blocks_def)
    then obtain s3 where s3: "stored_sum i ?k s2 = Inr (top_byte (map_entry ?V ?ip ?k), s3)" "bstep s2 s3 ?V (insert (?d, ?a) ?H)"
      using stored_sum_ok [of s2 i _ ?k] s2(3) e2 by auto
    have "bstep st s3 ?V (insert (?d, ?a) ?H)" using bstep_trans [OF bstep_trans [OF s1(2) s2(2)] s3(2)] by simp
    then obtain s4 where "rel_block ?d ?a s3 = Inr s4" "bstep st s4 ?V ?H" using rel_block_ready nh by blast
    moreover have "(xor_list (map ucast (?V ?d ?a)) = top_byte (map_entry ?V ?ip ?k)) = sum_ok ?V ?ip ?k"
      using True by (auto simp: sum_block_def sum_ok_def)
    ultimately show ?thesis using s1(1) s2(1) s3(1) e1 e2 True by (simp add: read_block_def Let_def)
  next
    case False
    have "bstep st s2 ?V (insert (?d, ?a) ?H)" using bstep_trans [OF s1(2) s2(2)] by simp
    then obtain s4 where "rel_block ?d ?a s2 = Inr s4" "bstep st s4 ?V ?H" using rel_block_ready nh by blast
    then show ?thesis using s1(1) s2(1) e1 e2 False by (simp add: read_block_def Let_def sum_ok_def)
  qed
qed

lemma chunk_bytes:
  assumes "m \<le> BSIZE - off mod BSIZE" and "is_block x" and "x = V (idev ip) (block_addr V ip (off div BSIZE))"
  shows "bytes_at (off mod BSIZE) m x = map (file_byte V ip) [off..<off + m]"
proof (rule nth_equalityI)
  have l: "length x = BSIZE" using assms(2) by (simp add: is_block_def)
  have o: "off mod BSIZE < BSIZE" by (simp add: BSIZE_def)
  show "length (bytes_at (off mod BSIZE) m x) = length (map (file_byte V ip) [off..<off + m])"
    using assms(1) l o by (simp add: bytes_at_def)
  fix j assume "j < length (bytes_at (off mod BSIZE) m x)"
  then have j: "j < m" using assms(1) l o by (simp add: bytes_at_def)
  then have s: "off mod BSIZE + j < BSIZE" using assms(1) o by linarith
  have "off + j = off div BSIZE * BSIZE + (off mod BSIZE + j)" by simp
  then have "(off + j) div BSIZE = off div BSIZE \<and> (off + j) mod BSIZE = off mod BSIZE + j"
    using s by (metis div_mult_self3 div_less mod_less mod_mult_self3 add.right_neutral BSIZE_def zero_neq_numeral)
  then show "bytes_at (off mod BSIZE) m x ! j = map (file_byte V ip) [off..<off + m] ! j"
    using j l s assms(3) by (simp add: bytes_at_def file_byte_def)
qed

text \<open>
  The bytes of the range \<open>[x, e)\<close> lie in blocks with right checksums; and the place where a read of the
  range stops: the end of the first block whose checksum is wrong.
\<close>

definition sums_right :: "(u32 \<Rightarrow> u32 \<Rightarrow> block) \<Rightarrow> inode \<Rightarrow> nat \<Rightarrow> nat \<Rightarrow> bool" where
  "sums_right V ip x e = (\<forall>y. x \<le> y \<and> y < e \<longrightarrow> sum_ok V ip (y div BSIZE))"

definition stops_at :: "(u32 \<Rightarrow> u32 \<Rightarrow> block) \<Rightarrow> inode \<Rightarrow> nat \<Rightarrow> nat \<Rightarrow> nat \<Rightarrow> bool" where
  "stops_at V ip x e z = (\<exists>k. \<not> sum_ok V ip k \<and> x < z \<and> (\<forall>y. x \<le> y \<and> y < k * BSIZE \<longrightarrow> sum_ok V ip (y div BSIZE))
     \<and> k * BSIZE < z \<and> z = min e ((k + 1) * BSIZE))"

lemma chunk_end: "off + chunk off n = min (off + n) ((off div BSIZE + 1) * BSIZE)"
proof -
  have o: "off = off div BSIZE * BSIZE + off mod BSIZE" "off mod BSIZE < BSIZE" by (simp_all add: BSIZE_def)
  have "q + r + min n (b - r) = min (q + r + n) (q + b)" if "r < b" for q r b :: nat using that by (auto simp: min_def)
  from this [OF o(2), of "off div BSIZE * BSIZE"] show ?thesis using o(1) by (simp add: chunk_def add.commute)
qed

lemma same_block_chunk:
  assumes "off \<le> y" and "y < off + chunk off n"
  shows "y div BSIZE = off div BSIZE"
proof -
  have o: "off = off div BSIZE * BSIZE + off mod BSIZE" "off mod BSIZE < BSIZE" by (simp_all add: BSIZE_def)
  have "chunk off n \<le> BSIZE - off mod BSIZE" by (simp add: chunk_def)
  then have "off div BSIZE * BSIZE \<le> y" "y < off div BSIZE * BSIZE + BSIZE" using assms o by linarith+
  then show ?thesis by (intro div_nat_eqI) (simp_all add: mult.commute)
qed

lemma readi_loop_ok:
  assumes "open_alloc i nb st" and "off + n \<le> nb * BSIZE"
  shows "\<exists>s z. readi_loop i off n st = Inr ((map (file_byte (disk (bc st)) (ino st i)) [off..<z], sums_right (disk (bc st)) (ino st i) off (off + n)), s)
     \<and> bstep st s (disk (bc st)) (held_blocks (bc st))
     \<and> (if sums_right (disk (bc st)) (ino st i) off (off + n) then z = off + n else stops_at (disk (bc st)) (ino st i) off (off + n) z)"
  using assms
proof (induction i off n st rule: readi_loop.induct)
  case (1 i off n st)
  let ?V = "disk (bc st)" and ?ip = "ino st i" and ?c = "chunk off n" and ?k = "off div BSIZE"
  show ?case
  proof (cases "n = 0")
    case True
    then have "readi_loop i off n st = Inr (([], True), st)" by (simp add: readi_loop.simps [of i off 0 st])
    moreover have "sums_right ?V ?ip off (off + n)" using True by (auto simp: sums_right_def)
    ultimately show ?thesis using bstep_refl [of st] "1.prems"(1) True by (auto simp: open_alloc_def ready_def)
  next
    case False
    have k: "?k < nb" using "1.prems"(2) False by (intro less_mult_imp_div_less) linarith
    have c: "?c \<le> n" "?c \<le> BSIZE - off mod BSIZE" "0 < ?c" using chunk_pos [OF False] by (simp_all add: chunk_def)
    obtain s1 where s1: "read_block i off n st = Inr ((bytes_at (off mod BSIZE) ?c (?V (idev ?ip) (block_addr ?V ?ip ?k)), sum_ok ?V ?ip ?k), s1)"
        "bstep st s1 ?V (held_blocks (bc st))"
      using read_block_ok [OF "1.prems"(1) k] by blast
    have e: "ino s1 i = ?ip" "disk (bc s1) = ?V" "held_blocks (bc s1) = held_blocks (bc st)" using s1(2) by (simp_all add: bstep_def)
    have "is_block (?V (idev ?ip) (block_addr ?V ?ip ?k))" using "1.prems"(1) disk_is_block by (auto simp: open_alloc_def)
    note b = chunk_bytes [of ?c off "?V (idev ?ip) (block_addr ?V ?ip ?k)" ?V ?ip, OF c(2) this refl]
    have o: "off + ?c + (n - ?c) = off + n" using c(1) by simp
    show ?thesis
    proof (cases "sum_ok ?V ?ip ?k")
      case bad: False
      have "readi_loop i off n st = Inr ((map (file_byte ?V ?ip) [off..<off + ?c], False), s1)"
        using False s1(1) b bad by (simp add: readi_loop.simps [of i off n st])
      moreover have "\<not> sums_right ?V ?ip off (off + n)" using bad False by (auto simp: sums_right_def intro!: exI [of _ off])
      moreover have l: "?k * BSIZE \<le> off" "\<not> (off \<le> y \<and> y < ?k * BSIZE)" for y using div_times_less_eq_dividend [of off BSIZE] by linarith+
      have "?k * BSIZE < off + ?c" using l(1) c(3) by linarith
      then have "stops_at ?V ?ip off (off + n) (off + ?c)" unfolding stops_at_def
        using bad c(3) l(2) by (intro exI [of _ ?k] conjI chunk_end allI impI) (simp_all, blast)
      ultimately have "\<exists>z. readi_loop i off n st = Inr ((map (file_byte ?V ?ip) [off..<z], sums_right ?V ?ip off (off + n)), s1)
          \<and> stops_at ?V ?ip off (off + n) z \<and> \<not> sums_right ?V ?ip off (off + n)"
        by (intro exI [of _ "off + ?c"]) simp
      then show ?thesis using s1(2) by auto
    next
      case good: True
      obtain s2 z where s2: "readi_loop i (off + ?c) (n - ?c) s1
            = Inr ((map (file_byte ?V ?ip) [off + ?c..<z], sums_right ?V ?ip (off + ?c) (off + n)), s2)"
          "bstep s1 s2 ?V (held_blocks (bc st))"
          and z: "if sums_right ?V ?ip (off + ?c) (off + n) then z = off + n else stops_at ?V ?ip (off + ?c) (off + n) z"
        using "1.IH" [OF False s1(1) refl refl good open_alloc_bstep [OF "1.prems"(1) s1(2)]] "1.prems"(2) unfolding e o by blast
      have first: "sum_ok ?V ?ip (y div BSIZE)" if "off \<le> y" "y < off + ?c" for y using same_block_chunk [OF that] good by simp
      have sr: "sums_right ?V ?ip off (off + n) = sums_right ?V ?ip (off + ?c) (off + n)"
        unfolding sums_right_def using first c(1) by (metis le_add1 le_trans not_le)
      have zl: "off + ?c \<le> z" using z c(1) by (auto simp: stops_at_def split: if_splits)
      have st: "stops_at ?V ?ip off (off + n) z" if "stops_at ?V ?ip (off + ?c) (off + n) z"
      proof -
        from that obtain k where k: "\<not> sum_ok ?V ?ip k \<and> off + ?c < z \<and> (\<forall>y. off + ?c \<le> y \<and> y < k * BSIZE \<longrightarrow> sum_ok ?V ?ip (y div BSIZE))
            \<and> k * BSIZE < z \<and> z = min (off + n) ((k + 1) * BSIZE)"
          unfolding stops_at_def by (rule exE)
        have "sum_ok ?V ?ip (y div BSIZE)" if "off \<le> y" "y < k * BSIZE" for y
          using first [OF that(1)] k that(2) by (meson not_le)
        moreover have "off < z" using k by linarith
        ultimately show ?thesis unfolding stops_at_def by (intro exI [of _ k] conjI allI impI) (use k in \<open>blast+\<close>)
      qed
      have "map (file_byte ?V ?ip) [off..<off + ?c] @ map (file_byte ?V ?ip) [off + ?c..<z] = map (file_byte ?V ?ip) [off..<z]"
        using upt_add_eq_append [of off "off + ?c" "z - (off + ?c)"] zl by (metis le_add1 map_append le_add_diff_inverse)
      then have "readi_loop i off n st = Inr ((map (file_byte ?V ?ip) [off..<z], sums_right ?V ?ip off (off + n)), s2)"
        using False s1(1) s2(1) b good sr by (simp add: readi_loop.simps [of i off n st])
      then show ?thesis using bstep_trans [OF s1(2) s2(2)] z st sr by auto
    qed
  qed
qed

subsection \<open>Writing\<close>

lemma xor_list_ucast: "(xor_list (map ucast (x :: u8 list)) :: u32) = ucast (xor_list x)"
proof -
  have "foldl (XOR) (ucast (a :: u8)) (map ucast x) = (ucast (foldl (XOR) a x) :: u32)" for a
  proof (induction x arbitrary: a)
    case (Cons c x)
    have "ucast a XOR ucast c = (ucast (a XOR c) :: u32)" by (simp add: unsigned_xor_eq)
    then show ?case using Cons.IH [of "a XOR c"] by simp
  qed simp
  from this [of 0] show ?thesis by (simp add: xor_list_def)
qed

lemma ADDR_MASK_mask: "ADDR_MASK = mask 24"
  by (simp add: ADDR_MASK_def mask_eq_exp_minus_1)

lemma mask_sum:
  assumes "b = (a AND ADDR_MASK) OR push_bit 24 (sum_block x)"
  shows "b AND ADDR_MASK = a AND ADDR_MASK" and "top_byte b = sum_block x"
proof -
  define s where "s = xor_list x"
  have b: "b = (a AND mask 24) OR push_bit 24 (ucast s)" using assms by (simp add: sum_block_def xor_list_ucast ADDR_MASK_mask s_def)
  show "b AND ADDR_MASK = a AND ADDR_MASK"
    unfolding b ADDR_MASK_mask by (rule bit_word_eqI) (auto simp: bit_simps)
  have "top_byte b = ucast s"
    unfolding b top_byte_def by (rule bit_word_eqI) (auto simp: bit_simps dest: bit_imp_le_length)
  then show "top_byte b = sum_block x" by (simp add: sum_block_def xor_list_ucast s_def)
qed

text \<open>
  What a write may change: the addresses (checksums) of inode \<open>i\<close> and the blocks of the file; no block moves.
\<close>

definition wstep :: "nat \<Rightarrow> nat \<Rightarrow> 'w fs \<Rightarrow> 'w fs \<Rightarrow> bool" where
  "wstep i nb s t =
     (bcache_inv (bc t) \<and> held_blocks (bc t) = held_blocks (bc s) \<and> (\<forall>e. usable_dev (bc t) e = usable_dev (bc s) e) \<and> dw t = dw s
      \<and> (\<exists>as. length as = NDIRECT + 1 \<and> as ! NDIRECT = addrs (ino s i) ! NDIRECT \<and> icache t = (icache s)[i := (ino s i)\<lparr>addrs := as\<rparr>])
      \<and> (\<forall>k < nb. block_addr (disk (bc t)) (ino t i) k = block_addr (disk (bc s)) (ino s i) k)
      \<and> (\<forall>e b. e = idev (ino s i) \<and> b \<in> meta_blocks (disk (bc s)) (ino s i) nb \<or> disk (bc t) e b = disk (bc s) e b))"

lemma wstep_inode:
  assumes "wstep i nb s t" and "i < length (icache s)"
  shows "length (icache t) = length (icache s)" "idev (ino t i) = idev (ino s i)" "itype (ino t i) = itype (ino s i)"
    "isize (ino t i) = isize (ino s i)" "inum (ino t i) = inum (ino s i)" "addrs (ino t i) ! NDIRECT = addrs (ino s i) ! NDIRECT"
    "j \<noteq> i \<Longrightarrow> ino t j = ino s j" "meta_blocks (disk (bc t)) (ino t i) nb = meta_blocks (disk (bc s)) (ino s i) nb"
proof -
  obtain as where a: "as ! NDIRECT = addrs (ino s i) ! NDIRECT" "icache t = (icache s)[i := (ino s i)\<lparr>addrs := as\<rparr>]"
    using assms(1) unfolding wstep_def by blast
  then show *: "length (icache t) = length (icache s)" "idev (ino t i) = idev (ino s i)" "itype (ino t i) = itype (ino s i)"
    "isize (ino t i) = isize (ino s i)" "inum (ino t i) = inum (ino s i)" "addrs (ino t i) ! NDIRECT = addrs (ino s i) ! NDIRECT"
    "j \<noteq> i \<Longrightarrow> ino t j = ino s j"
    using assms(2) by simp_all
  have "\<forall>k < nb. block_addr (disk (bc t)) (ino t i) k = block_addr (disk (bc s)) (ino s i) k" using assms(1) by (simp add: wstep_def)
  then have "block_addr (disk (bc t)) (ino t i) ` {..<nb} = block_addr (disk (bc s)) (ino s i) ` {..<nb}" by (auto simp: image_def)
  then show "meta_blocks (disk (bc t)) (ino t i) nb = meta_blocks (disk (bc s)) (ino s i) nb" using * by (simp add: meta_blocks_def)
qed

lemma wstep_refl: "bcache_inv (bc s) \<Longrightarrow> length (addrs (ino s i)) = NDIRECT + 1 \<Longrightarrow> wstep i nb s s"
  unfolding wstep_def by (auto intro!: exI [of _ "addrs (ino s i)"])

lemma wstep_trans:
  assumes st: "wstep i nb s t" and tu: "wstep i nb t u" and i: "i < length (icache s)"
  shows "wstep i nb s u"
proof -
  note e = wstep_inode [OF st i]
  obtain as where as: "icache t = (icache s)[i := (ino s i)\<lparr>addrs := as\<rparr>]" using st unfolding wstep_def by blast
  obtain bs where bs: "length bs = NDIRECT + 1" "bs ! NDIRECT = addrs (ino t i) ! NDIRECT" "icache u = (icache t)[i := (ino t i)\<lparr>addrs := bs\<rparr>]"
    using tu unfolding wstep_def by blast
  have "icache u = (icache s)[i := (ino s i)\<lparr>addrs := bs\<rparr>]" unfolding bs(3) as using i by simp
  then have ex: "\<exists>as. length as = NDIRECT + 1 \<and> as ! NDIRECT = addrs (ino s i) ! NDIRECT \<and> icache u = (icache s)[i := (ino s i)\<lparr>addrs := as\<rparr>]"
    using bs(1,2) e(6) by auto
  have d: "e = idev (ino s i) \<and> b \<in> meta_blocks (disk (bc s)) (ino s i) nb \<or> disk (bc u) e b = disk (bc s) e b" for e b
    using st tu unfolding wstep_def wstep_inode(2,8) [OF st i] by metis
  show ?thesis using st tu ex d unfolding wstep_def by simp
qed

lemma wstep_ok:
  assumes "open_inode_ok i nb s" and "wstep i nb s t" and "file_blocks (disk (bc t)) (ino t i) nb"
  shows "open_inode_ok i nb t"
proof -
  have i: "i < length (icache s)" using assms(1) by (simp add: open_inode_ok_def)
  show ?thesis using assms wstep_inode [OF assms(2) i] i unfolding open_inode_ok_def
    by (auto simp: ready_def wstep_def)
qed

lemma map_entry_upd:
  "length (addrs ip) = NDIRECT + 1 \<Longrightarrow> k < NDIRECT \<Longrightarrow> map_entry V (ip\<lparr>addrs := (addrs ip)[k := w]\<rparr>) l = (if l = k then w else map_entry V ip l)"
  by (auto simp: map_entry_def nth_list_update)

lemma meta_direct: "k < nb \<Longrightarrow> block_addr V ip k \<in> meta_blocks V ip nb"
  by (simp add: meta_blocks_def)

lemma meta_indirect: "k < nb \<Longrightarrow> \<not> k < NDIRECT \<Longrightarrow> addrs ip ! NDIRECT \<in> meta_blocks V ip nb"
  by (simp add: meta_blocks_def)

lemma bstep_wstep:
  assumes "bstep s t V (held_blocks (bc s))" and "length (addrs (ino s i)) = NDIRECT + 1"
    and "\<And>k. k < nb \<Longrightarrow> block_addr V (ino s i) k = block_addr (disk (bc s)) (ino s i) k"
    and "\<And>e b. e = idev (ino s i) \<and> b \<in> meta_blocks (disk (bc s)) (ino s i) nb \<or> V e b = disk (bc s) e b"
  shows "wstep i nb s t"
  using assms unfolding wstep_def bstep_def by (auto intro!: exI [of _ "addrs (ino s i)"])

lemma store_sum_ok:
  assumes fb: "file_blocks (disk (bc s)) (ino s i) nb" and i: "i < length (icache s)" and k: "k < nb"
    and r: "ready (idev (ino s i)) 1 B s" and B: "\<not> k < NDIRECT \<Longrightarrow> addrs (ino s i) ! NDIRECT \<in> B" and ty: "itype (ino s i) = T_CHECKED"
  shows "\<exists>t. store_sum i k x s = Inr t \<and> wstep i nb s t
     \<and> (\<forall>l < nb. map_entry (disk (bc t)) (ino t i) l = (if l = k then (map_entry (disk (bc s)) (ino s i) k AND ADDR_MASK) OR push_bit 24 (sum_block x)
          else map_entry (disk (bc s)) (ino s i) l))
     \<and> (\<forall>e b. disk (bc t) e b = disk (bc s) e b \<or> NDIRECT < nb \<and> e = idev (ino s i) \<and> b = addrs (ino s i) ! NDIRECT)"
proof -
  let ?ip = "ino s i" and ?V = "disk (bc s)"
  let ?w = "(map_entry ?V ?ip k AND ADDR_MASK) OR push_bit 24 (sum_block x)"
  have len: "length (addrs ?ip) = NDIRECT + 1" using file_blocksD(2) [OF fb k] .
  have inv: "bcache_inv (bc s)" using r by (simp add: ready_def)
  have wm: "?w AND ADDR_MASK = map_entry ?V ?ip k AND ADDR_MASK" by (rule mask_sum(1) [OF refl])
  show ?thesis
  proof (cases "k < NDIRECT")
    case True
    define t where "t = upd_inode i (\<lambda>ip. ip\<lparr>addrs := (addrs ip)[k := ?w]\<rparr>) s"
    have t: "store_sum i k x s = Inr t" using True by (simp add: store_sum_def t_def map_entry_def sum_block_def upd_inode_def)
    have ti: "ino t i = ?ip\<lparr>addrs := (addrs ?ip)[k := ?w]\<rparr>" "disk (bc t) = ?V" using i by (simp_all add: t_def upd_inode_def)
    have me: "map_entry ?V (ino t i) l = (if l = k then ?w else map_entry ?V ?ip l)" for l
      unfolding ti by (rule map_entry_upd [OF len True])
    have "wstep i nb s t"
      unfolding wstep_def
    proof (intro conjI)
      show "\<exists>as. length as = NDIRECT + 1 \<and> as ! NDIRECT = addrs ?ip ! NDIRECT \<and> icache t = (icache s)[i := ?ip\<lparr>addrs := as\<rparr>]"
        using len True by (intro exI [of _ "(addrs ?ip)[k := ?w]"]) (simp add: t_def upd_inode_def)
      show "\<forall>l < nb. block_addr (disk (bc t)) (ino t i) l = block_addr ?V ?ip l"
        using wm by (simp add: block_addr_def ti(2) me) (simp add: ti(1) masked_def ty)
    qed (use inv in \<open>simp_all add: t_def upd_inode_def\<close>)
    then show ?thesis using t me ti(2) by (intro exI [of _ t]) simp
  next
    case False
    let ?d = "idev ?ip" and ?a = "addrs ?ip ! NDIRECT" and ?j = "k - NDIRECT"
    have kb: "?j < NINDIRECT" "NDIRECT < nb" using file_blocksD(1) [OF fb k] k False by (simp_all add: MAXFILE_def NINDIRECT_def NDIRECT_def)
    have blk: "is_block (?V ?d ?a)" by (rule disk_is_block [OF r])
    define y where "y = put_ptr ?j ?w (?V ?d ?a)"
    have gp: "get_ptr l y = (if l = ?j then ?w else get_ptr l (?V ?d ?a))" if "l < NINDIRECT" for l
      unfolding y_def by (rule get_put_ptr [OF blk kb(1) that])
    have "4 * ?j + 4 \<le> length (?V ?d ?a)" using blk kb(1) by (simp add: is_block_def BSIZE_def NINDIRECT_def)
    then have yb: "is_block y" using blk by (simp add: y_def put_ptr_def is_block_def)
    have "ready ?d 1 {?a} s" using ready_mono [OF r] B False by simp
    from poke_block [OF this yb] obtain s1 s2 t where s: "get_block ?d ?a s = Inr (?V ?d ?a, s1)" "put_block ?d ?a y s1 = Inr s2" "rel_block ?d ?a s2 = Inr t"
        "bstep s t (upd_disk ?V ?d ?a y) (held_blocks (bc s))" by blast
    have t: "store_sum i k x s = Inr t"
      using s(1-3) False by (simp add: store_sum_def map_entry_def sum_block_def y_def Let_def)
    have ti: "ino t i = ?ip" "disk (bc t) = upd_disk ?V ?d ?a y" using s(4) by (simp_all add: bstep_def)
    have me: "map_entry (upd_disk ?V ?d ?a y) ?ip l = (if l = k then ?w else map_entry ?V ?ip l)" if "l < nb" for l
    proof (cases "l < NDIRECT")
      case True
      then show ?thesis using False by (auto simp: map_entry_def)
    next
      case l: False
      have "l - NDIRECT < NINDIRECT" using file_blocksD(1) [OF fb k] that by (simp add: MAXFILE_def NDIRECT_def NINDIRECT_def)
      moreover have "l - NDIRECT = ?j \<longleftrightarrow> l = k" using l False by linarith
      ultimately show ?thesis using l by (simp add: map_entry_def upd_disk_apply gp)
    qed
    have "wstep i nb s t"
    proof (rule bstep_wstep [OF s(4) len])
      show "block_addr (upd_disk ?V ?d ?a y) ?ip l = block_addr ?V ?ip l" if "l < nb" for l
        using wm by (simp add: block_addr_def me [OF that]) (simp add: masked_def ty)
      show "e = ?d \<and> b \<in> meta_blocks ?V ?ip nb \<or> upd_disk ?V ?d ?a y e b = ?V e b" for e b
        using meta_indirect [OF k False, of ?ip ?V] by (simp add: upd_disk_apply)
    qed
    then show ?thesis using t me ti kb(2) by (intro exI [of _ t]) (simp add: upd_disk_apply)
  qed
qed

lemma write_block_ok:
  assumes ok: "open_inode_ok i nb st" and k: "off div BSIZE < nb" and src: "src \<noteq> []"
  shows "\<exists>t. write_block i off src st = Inr t \<and> wstep i nb st t \<and> file_blocks (disk (bc t)) (ino t i) nb
     \<and> (\<forall>y. y div BSIZE < nb \<longrightarrow> file_byte (disk (bc t)) (ino t i) y
         = (if off \<le> y \<and> y < off + chunk off (length src) then src ! (y - off) else file_byte (disk (bc st)) (ino st i) y))"
proof -
  let ?ip = "ino st i" and ?V = "disk (bc st)" and ?k = "off div BSIZE" and ?c = "chunk off (length src)" and ?o = "off mod BSIZE"
  let ?a = "block_addr ?V ?ip ?k" and ?d = "idev ?ip" and ?H = "held_blocks (bc st)"
  have i: "i < length (icache st)" and fb: "file_blocks ?V ?ip nb" using ok by (simp_all add: open_inode_ok_def)
  note f = file_blocksD [OF fb k]
  obtain s1 where s1: "bmap i ?k st = Inr (?a, s1)" "bstep st s1 ?V ?H" using bmap_ok [of i nb st, OF _ k] ok by (auto simp: open_inode_ok_alloc)
  have e1: "ino s1 i = ?ip" "disk (bc s1) = ?V" "held_blocks (bc s1) = ?H" "icache s1 = icache st" using s1(2) by (simp_all add: bstep_def)
  have r1: "ready ?d 2 (meta_blocks ?V ?ip nb) s1"
    using open_inode_ok_bstep [OF ok s1(2)] e1 by (simp add: open_inode_ok_def)
  note a = meta_direct [OF k, of ?V ?ip]
  obtain s2 where s2: "get_block ?d ?a s1 = Inr (?V ?d ?a, s2)" "bstep s1 s2 ?V (insert (?d, ?a) ?H)"
      "ready ?d 1 (meta_blocks ?V ?ip nb - {?a}) s2"
    using get_block_ready [of ?d 1 _ s1, OF _ a] r1 e1 by (auto simp: numeral_2_eq_2)
  have e2: "ino s2 i = ?ip" "disk (bc s2) = ?V" "held_blocks (bc s2) = insert (?d, ?a) ?H" "icache s2 = icache st"
    using s2(2) e1 by (simp_all add: bstep_def)
  have nh: "(?d, ?a) \<notin> ?H" using r1 a e1 by (auto simp: ready_def)
  have blk: "is_block (?V ?d ?a)" by (rule disk_is_block [OF s2(3), unfolded e2])
  have c: "?c \<le> length src" "?o + ?c \<le> BSIZE" "?o < BSIZE" by (simp_all add: chunk_def BSIZE_def)
  define x where "x = put_bytes ?o (take ?c src) (?V ?d ?a)"
  have xb: "is_block x" using c blk by (simp add: x_def is_block_def)
  let ?w = "if itype ?ip = T_CHECKED then (map_entry ?V ?ip ?k AND ADDR_MASK) OR push_bit 24 (sum_block x) else map_entry ?V ?ip ?k"
  have "\<exists>s3. (if itype ?ip = T_CHECKED then store_sum i ?k x s2 else Inr s2) = Inr s3 \<and> wstep i nb s2 s3
     \<and> (\<forall>l < nb. map_entry (disk (bc s3)) (ino s3 i) l = (if l = ?k then ?w else map_entry ?V ?ip l))
     \<and> (\<forall>e b. disk (bc s3) e b = ?V e b \<or> NDIRECT < nb \<and> e = ?d \<and> b = addrs ?ip ! NDIRECT)"
  proof (cases "itype ?ip = T_CHECKED")
    case True
    have "\<not> ?k < NDIRECT \<Longrightarrow> addrs ?ip ! NDIRECT \<in> meta_blocks ?V ?ip nb - {?a}"
      using meta_indirect [OF k, of ?ip ?V] k f(7) by fastforce
    from store_sum_ok [of s2 i nb ?k _ x, unfolded e2(2,4), OF fb i k s2(3) this True] True show ?thesis by simp
  next
    case False
    have "wstep i nb s2 s2" by (rule wstep_refl) (use f(2) s2(3) e2 in \<open>simp_all add: ready_def\<close>)
    then show ?thesis using False e2 by auto
  qed
  then obtain s3 where s3: "(if itype ?ip = T_CHECKED then store_sum i ?k x s2 else Inr s2) = Inr s3" "wstep i nb s2 s3"
      "\<And>l. l < nb \<Longrightarrow> map_entry (disk (bc s3)) (ino s3 i) l = (if l = ?k then ?w else map_entry ?V ?ip l)"
      "\<And>e b. disk (bc s3) e b = ?V e b \<or> NDIRECT < nb \<and> e = ?d \<and> b = addrs ?ip ! NDIRECT" by blast
  note w3 = wstep_inode [OF s3(2), unfolded e2, OF i]
  have i3: "bcache_inv (bc s3)" "held_blocks (bc s3) = insert (?d, ?a) ?H" using s3(2) e2 by (simp_all add: wstep_def)
  obtain s4 where s4: "put_block ?d ?a x s3 = Inr s4" "bstep s3 s4 (upd_disk (disk (bc s3)) ?d ?a x) (insert (?d, ?a) ?H)"
    using put_block_ok [of s3 ?d ?a x] i3 xb by auto
  obtain t where t: "rel_block ?d ?a s4 = Inr t" "bstep s4 t (disk (bc s4)) (?H - {(?d, ?a)})"
    using rel_block_ok [of s4 ?d ?a] s4(2) by (auto simp: bstep_def)
  have run: "write_block i off src st = Inr t"
    using s1(1) s2(1) s3(1) s4(1) t(1) e1 e2 by (cases "itype ?ip = T_CHECKED") (simp_all add: write_block_def Let_def x_def)
  have tt: "disk (bc t) = upd_disk (disk (bc s3)) ?d ?a x" "icache t = icache s3" "held_blocks (bc t) = ?H" "bcache_inv (bc t)"
      "\<forall>e. usable_dev (bc t) e = usable_dev (bc st) e" "dw t = dw st"
    using t(2) s4(2) s3(2) s2(2) s1(2) nh by (simp_all add: bstep_def wstep_def)
  have me: "map_entry (disk (bc t)) (ino t i) l = (if l = ?k then ?w else map_entry ?V ?ip l)" if "l < nb" for l
  proof -
    have "NDIRECT \<le> l \<Longrightarrow> addrs ?ip ! NDIRECT \<noteq> ?a" using f(7) that by fastforce
    then have "map_entry (disk (bc t)) (ino t i) l = map_entry (disk (bc s3)) (ino s3 i) l"
      using w3(2,6) by (simp add: map_entry_def tt upd_disk_apply)
    then show ?thesis using s3(3) [OF that] by simp
  qed
  have ba: "block_addr (disk (bc t)) (ino t i) l = block_addr ?V ?ip l" if "l < nb" for l
    using me [OF that] w3(3) mask_sum(1) [OF refl, of "map_entry ?V ?ip ?k" x] by (simp add: block_addr_def masked_def tt)
  have dt: "disk (bc t) e b = ?V e b \<or> e = ?d \<and> b \<in> meta_blocks ?V ?ip nb" for e b
    using s3(4) [of e b] a by (auto simp: tt upd_disk_apply meta_blocks_def)
  have cont: "disk (bc t) ?d (block_addr ?V ?ip l) = (if l = ?k then x else ?V ?d (block_addr ?V ?ip l))" if "l < nb" for l
    using s3(4) [of ?d "block_addr ?V ?ip l"] file_blocksD(7) [OF fb that] file_blocksD(6) [OF fb that k] f(6) [OF that] by (auto simp: tt upd_disk_apply)
  obtain as where as: "length as = NDIRECT + 1" "as ! NDIRECT = addrs ?ip ! NDIRECT" "icache s3 = (icache st)[i := ?ip\<lparr>addrs := as\<rparr>]"
    using s3(2) unfolding wstep_def e2 by blast
  have ws: "wstep i nb st t" unfolding wstep_def
  proof (intro conjI)
    show "\<exists>as. length as = NDIRECT + 1 \<and> as ! NDIRECT = addrs ?ip ! NDIRECT \<and> icache t = (icache st)[i := ?ip\<lparr>addrs := as\<rparr>]"
      using as tt(2) by auto
  qed (use tt ba dt in blast)+
  have lt: "length (addrs (ino t i)) = NDIRECT + 1" using as i tt(2) by simp
  note wt = wstep_inode [OF ws i]
  have fbt: "file_blocks (disk (bc t)) (ino t i) nb"
    unfolding file_blocks_def wt(2,3,6)
  proof (intro conjI allI impI)
    show "top_byte (map_entry (disk (bc t)) (ino t i) l) = sum_block (disk (bc t) ?d (block_addr (disk (bc t)) (ino t i) l))"
      if ty: "itype ?ip = T_CHECKED" and l: "l < nb" for l
      using me [OF l] cont [OF l] ba [OF l] mask_sum(2) [OF refl, of "map_entry ?V ?ip ?k" x] file_blocksD(8) [OF fb l ty] ty by simp
  qed (use lt f(1,3) k fb ba file_blocksD(5,6,7) [OF fb] in \<open>auto simp: file_blocks_def\<close>)
  have bytes: "file_byte (disk (bc t)) (ino t i) y
         = (if off \<le> y \<and> y < off + ?c then src ! (y - off) else file_byte ?V ?ip y)" if y: "y div BSIZE < nb" for y
  proof (cases "y div BSIZE = ?k")
    case False
    then have "\<not> (off \<le> y \<and> y < off + ?c)"
      using same_block_chunk [of off y "length src"] by blast
    then have "(if off \<le> y \<and> y < off + ?c then src ! (y - off) else file_byte ?V ?ip y) = file_byte ?V ?ip y" by (simp only: if_False)
    then show ?thesis using cont [OF y] ba [OF y] False wt(2) by (simp add: file_byte_def)
  next
    case True
    have "y mod BSIZE < length (?V ?d ?a)" using blk by (simp add: is_block_def BSIZE_def)
    moreover have "off = ?k * BSIZE + ?o" "y = ?k * BSIZE + y mod BSIZE" using True by (metis div_mult_mod_eq)+
    then have "y - off = y mod BSIZE - ?o" "off \<le> y \<longleftrightarrow> ?o \<le> y mod BSIZE" "y < off + ?c \<longleftrightarrow> y mod BSIZE < ?o + ?c" by linarith+
    moreover have "?o + length (take ?c src) \<le> length (?V ?d ?a)" using c blk by (simp add: is_block_def)
    ultimately have "x ! (y mod BSIZE) = (if off \<le> y \<and> y < off + ?c then src ! (y - off) else ?V ?d ?a ! (y mod BSIZE))"
      using c(1) by (auto simp: x_def put_bytes_nth)
    then show ?thesis using cont [OF y] ba [OF y] True wt(2) by (simp add: file_byte_def)
  qed
  show ?thesis using run ws fbt bytes by blast
qed

lemma writei_loop_ok:
  assumes "open_inode_ok i nb st" and "off + length src \<le> nb * BSIZE"
  shows "\<exists>t. writei_loop i off src st = Inr t \<and> wstep i nb st t \<and> file_blocks (disk (bc t)) (ino t i) nb
     \<and> (\<forall>y. y div BSIZE < nb \<longrightarrow> file_byte (disk (bc t)) (ino t i) y
         = (if off \<le> y \<and> y < off + length src then src ! (y - off) else file_byte (disk (bc st)) (ino st i) y))"
  using assms
proof (induction i off src st rule: writei_loop.induct)
  case (1 i off src st)
  have i: "i < length (icache st)" and fb: "file_blocks (disk (bc st)) (ino st i) nb" using "1.prems"(1) by (simp_all add: open_inode_ok_def)
  show ?case
  proof (cases "src = []")
    case True
    have "wstep i nb st st" by (rule wstep_refl) (use fb "1.prems"(1) in \<open>simp_all add: file_blocks_def open_inode_ok_def ready_def\<close>)
    moreover have "writei_loop i off src st = Inr st" unfolding True by (simp add: writei_loop.simps [of i off "[]" st])
    ultimately show ?thesis using True fb by auto
  next
    case False
    let ?c = "chunk off (length src)"
    have "0 < length src" using False by simp
    then have k: "off div BSIZE < nb" using "1.prems"(2) by (intro less_mult_imp_div_less) linarith
    have c: "?c \<le> length src" by (simp add: chunk_def)
    obtain s where s: "write_block i off src st = Inr s" "wstep i nb st s" "file_blocks (disk (bc s)) (ino s i) nb"
        "\<And>y. y div BSIZE < nb \<Longrightarrow> file_byte (disk (bc s)) (ino s i) y
          = (if off \<le> y \<and> y < off + ?c then src ! (y - off) else file_byte (disk (bc st)) (ino st i) y)"
      using write_block_ok [OF "1.prems"(1) k False] by blast
    have o: "off + ?c + length (drop ?c src) = off + length src" using c by simp
    obtain t where t: "writei_loop i (off + ?c) (drop ?c src) s = Inr t" "wstep i nb s t" "file_blocks (disk (bc t)) (ino t i) nb"
        "\<And>y. y div BSIZE < nb \<Longrightarrow> file_byte (disk (bc t)) (ino t i) y
          = (if off + ?c \<le> y \<and> y < off + length src then drop ?c src ! (y - (off + ?c)) else file_byte (disk (bc s)) (ino s i) y)"
      using "1.IH" [OF False s(1) wstep_ok [OF "1.prems"(1) s(2,3)]] "1.prems"(2) unfolding o by blast
    have "writei_loop i off src st = Inr t" using False s(1) t(1) by (simp add: writei_loop.simps [of i off src st])
    moreover have "file_byte (disk (bc t)) (ino t i) y
        = (if off \<le> y \<and> y < off + length src then src ! (y - off) else file_byte (disk (bc st)) (ino st i) y)" if "y div BSIZE < nb" for y
      using t(4) [OF that] s(4) [OF that] c by (auto simp: nth_drop)
    ultimately show ?thesis using wstep_trans [OF s(2) t(2) i] t(3) by blast
  qed
qed

subsection \<open>\<open>readi\<close> and \<open>writei\<close>\<close>

lemma file_size_bound:
  assumes "open_alloc i nb st" and "unat (isize (ino st i)) \<le> nb * BSIZE"
  shows "nb * BSIZE \<le> 71680" "unat (isize (ino st i)) \<le> 71680"
proof -
  have "nb \<le> 140" using assms(1) by (simp add: open_alloc_def file_alloc_def MAXFILE_def)
  then show "nb * BSIZE \<le> 71680" by (simp add: BSIZE_def)
  with assms(2) show "unat (isize (ino st i)) \<le> 71680" by linarith
qed

lemma no_overflow_add: "\<not> off + n < off \<longleftrightarrow> unat (off :: u32) + unat n < 2 ^ 32"
proof -
  have "unat (off + n) = (unat off + unat n) mod 2 ^ 32" by (simp add: unat_word_ariths)
  moreover have "unat n < 2 ^ 32" "unat off < 2 ^ 32" using unat_u32_less by simp_all
  ultimately show ?thesis
    by (cases "unat off + unat n < 2 ^ 32") (simp_all add: word_less_nat_alt mod_less le_mod_geq not_less)
qed

lemma bytes_at_map: "bytes_at k n (map f [0..<z]) = map f [k..<min (k + n) z]"
proof (cases "k + n \<le> z")
  case True
  then show ?thesis by (simp add: bytes_at_def drop_map take_map take_upt)
next
  case False
  then show ?thesis by (simp add: bytes_at_def drop_map take_map)
qed

text \<open>\<open>readi\<close> of a file with any checksums: \<open>e\<close> is where the range ends, cut at the size.\<close>

lemma readi_any_sums:
  assumes ok: "open_alloc i nb st" and sz: "unat (isize (ino st i)) \<le> nb * BSIZE"
    and e: "e = min (unat off + unat n) (unat (isize (ino st i)))"
  shows "if unat off \<le> unat (isize (ino st i)) \<and> unat off + unat n < 2 ^ 32
    then \<exists>s z. readi sw i off n st = Inr ((if sums_right (disk (bc st)) (ino st i) (unat off) e then int (e - unat off) else -1,
              map (file_byte (disk (bc st)) (ino st i)) [unat off..<z]), s)
       \<and> bstep st s (disk (bc st)) (held_blocks (bc st))
       \<and> (if sums_right (disk (bc st)) (ino st i) (unat off) e then z = e else stops_at (disk (bc st)) (ino st i) (unat off) e z)
    else readi sw i off n st = Inr ((-1, []), st)"
proof -
  let ?ip = "ino st i"
  have nd: "itype ?ip \<noteq> T_DEV" using ok by (simp add: open_alloc_def)
  have g: "(off > isize ?ip \<or> off + n < off) = (\<not> (unat off \<le> unat (isize ?ip) \<and> unat off + unat n < 2 ^ 32))"
    using no_overflow_add [of off n] by (auto simp: word_less_nat_alt)
  show ?thesis
  proof (cases "unat off \<le> unat (isize ?ip) \<and> unat off + unat n < 2 ^ 32")
    case False
    then have "readi sw i off n st = Inr ((-1, []), st)" using nd g by (simp add: readi_def)
    then show ?thesis by (simp only: False if_False)
  next
    case True
    define m where "m = (if off + n > isize ?ip then isize ?ip - off else n)"
    have un: "unat (off + n) = unat off + unat n" using True by (simp add: unat_word_ariths)
    have um: "unat m = min (unat n) (unat (isize ?ip) - unat off)"
      using True by (auto simp: m_def un word_less_nat_alt unat_sub word_le_nat_alt)
    have em: "e = unat off + unat m" "e - unat off = unat m" using um True e by auto
    have le: "unat off + unat m \<le> nb * BSIZE" using um sz True by auto
    have small: "unat m < 2 ^ 31" using um file_size_bound [OF ok sz] by auto
    obtain s z where s: "readi_loop i (unat off) (unat m) st
          = Inr ((map (file_byte (disk (bc st)) ?ip) [unat off..<z], sums_right (disk (bc st)) ?ip (unat off) e), s)"
        "bstep st s (disk (bc st)) (held_blocks (bc st))"
        "if sums_right (disk (bc st)) ?ip (unat off) e then z = e else stops_at (disk (bc st)) ?ip (unat off) e z"
      using readi_loop_ok [OF ok le] unfolding em(1) by blast
    have "readi sw i off n st = Inr ((if sums_right (disk (bc st)) ?ip (unat off) e then int (e - unat off) else -1,
        map (file_byte (disk (bc st)) ?ip) [unat off..<z]), s)"
      using nd g True s(1) sint_small [OF small] by (simp add: readi_def m_def [symmetric] em(2))
    then show ?thesis unfolding if_P [OF True] using s(2,3) by blast
  qed
qed

text \<open>With right checksums the result is the slice.\<close>

lemma file_slice:
  "bytes_at (unat off) n (file_bytes st i)
    = map (file_byte (disk (bc st)) (ino st i)) [unat off..<min (unat off + n) (unat (isize (ino st i)))]"
  by (simp add: file_bytes_def bytes_at_map)

lemma readi_result:
  assumes ok: "open_inode_ok i nb st" and sz: "unat (isize (ino st i)) \<le> nb * BSIZE"
  shows "if unat off \<le> unat (isize (ino st i)) \<and> unat off + unat n < 2 ^ 32
    then \<exists>s. readi sw i off n st = Inr ((int (length (bytes_at (unat off) (unat n) (file_bytes st i))), bytes_at (unat off) (unat n) (file_bytes st i)), s)
       \<and> bstep st s (disk (bc st)) (held_blocks (bc st))
    else readi sw i off n st = Inr ((-1, []), st)"
proof -
  let ?e = "min (unat off + unat n) (unat (isize (ino st i)))"
  have a: "open_alloc i nb st" and sums: "\<forall>k < nb. sum_ok (disk (bc st)) (ino st i) k" using ok by (simp_all add: open_inode_ok_alloc)
  have "y div BSIZE < nb" if "y < ?e" for y using that sz by (intro less_mult_imp_div_less) simp
  then have "sums_right (disk (bc st)) (ino st i) (unat off) ?e" using sums by (simp add: sums_right_def)
  then show ?thesis using readi_any_sums [OF a sz refl, of off n sw] unfolding file_slice by auto
qed

lemma iupdate_ok:
  assumes r: "ready (idev (ino s i)) 1 {IBLOCK (inum (ino s i))} s" and len: "length (addrs (ino s i)) = NDIRECT + 1"
  shows "\<exists>t. iupdate i s = Inr t \<and> bstep s t (upd_disk (disk (bc s)) (idev (ino s i)) (IBLOCK (inum (ino s i)))
     (put_dinode (inum (ino s i)) (ino s i) (disk (bc s) (idev (ino s i)) (IBLOCK (inum (ino s i)))))) (held_blocks (bc s))"
proof -
  have "is_block (put_dinode (inum (ino s i)) (ino s i) (disk (bc s) (idev (ino s i)) (IBLOCK (inum (ino s i)))))"
    using disk_is_block [OF r] len by (intro is_block_put_dinode) simp_all
  from poke_block [OF r this] show ?thesis by (auto simp: iupdate_def Let_def)
qed

text \<open>A change of blocks that are not of the file.\<close>

lemma file_bytes_cong:
  assumes fb: "file_blocks V ip nb" and "addrs jp = addrs ip" "idev jp = idev ip" "itype jp = itype ip"
    and other: "\<And>b. b \<in> meta_blocks V ip nb \<Longrightarrow> W (idev ip) b = V (idev ip) b"
  shows "file_blocks W jp nb" and "k < nb \<Longrightarrow> block_addr W jp k = block_addr V ip k" and "meta_blocks W jp nb = meta_blocks V ip nb"
    and "y div BSIZE < nb \<Longrightarrow> file_byte W jp y = file_byte V ip y"
proof -
  have me: "map_entry W jp k = map_entry V ip k" if "k < nb" for k
    using other [of "addrs ip ! NDIRECT"] meta_indirect [OF that, of ip V] assms(2,3) by (simp add: map_entry_def)
  have ba: "block_addr W jp k = block_addr V ip k" if "k < nb" for k using me [OF that] assms(4) by (simp add: block_addr_def)
  show "k < nb \<Longrightarrow> block_addr W jp k = block_addr V ip k" by (rule ba)
  have "block_addr W jp ` {..<nb} = block_addr V ip ` {..<nb}" using ba by (auto simp: image_def)
  then show "meta_blocks W jp nb = meta_blocks V ip nb" using assms(2) by (simp add: meta_blocks_def)
  have cont: "W (idev ip) (block_addr V ip k) = V (idev ip) (block_addr V ip k)" if "k < nb" for k
    by (rule other [OF meta_direct [OF that]])
  then show "y div BSIZE < nb \<Longrightarrow> file_byte W jp y = file_byte V ip y" using ba assms(3) by (simp add: file_byte_def)
  show "file_blocks W jp nb" using fb ba me cont unfolding file_blocks_def assms(2-4) by simp
qed

definition room_for_inode :: "nat \<Rightarrow> nat \<Rightarrow> 'w fs \<Rightarrow> bool" where
  "room_for_inode i nb st = (IBLOCK (inum (ino st i)) \<notin> meta_blocks (disk (bc st)) (ino st i) nb
     \<and> (idev (ino st i), IBLOCK (inum (ino st i))) \<notin> held_blocks (bc st))"

text \<open>What \<open>writei\<close> leaves alone.\<close>

definition writei_frame :: "nat \<Rightarrow> nat \<Rightarrow> 'w fs \<Rightarrow> 'w fs \<Rightarrow> bool" where
  "writei_frame i nb s t =
     (held_blocks (bc t) = held_blocks (bc s) \<and> dw t = dw s \<and> length (icache t) = length (icache s) \<and> (\<forall>j. j \<noteq> i \<longrightarrow> ino t j = ino s j)
      \<and> (\<forall>e b. e = idev (ino s i) \<and> b \<in> insert (IBLOCK (inum (ino s i))) (meta_blocks (disk (bc s)) (ino s i) nb)
           \<or> disk (bc t) e b = disk (bc s) e b))"

lemma wstep_frame: "wstep i nb s t \<Longrightarrow> i < length (icache s) \<Longrightarrow> writei_frame i nb s t"
  using wstep_inode [of i nb s t] by (auto simp: writei_frame_def wstep_def)

lemma put_bytes_map:
  assumes "off \<le> z" and "\<And>y. y < max z (off + length src) \<Longrightarrow> g y = (if off \<le> y \<and> y < off + length src then src ! (y - off) else f y)"
  shows "put_bytes off src (map f [0..<z]) = map g [0..<max z (off + length src)]"
proof (rule nth_equalityI)
  show l: "length (put_bytes off src (map f [0..<z])) = length (map g [0..<max z (off + length src)])"
    using assms(1) by (simp add: put_bytes_def)
  fix y assume "y < length (put_bytes off src (map f [0..<z]))"
  then have y: "y < max z (off + length src)" using l by simp
  show "put_bytes off src (map f [0..<z]) ! y = map g [0..<max z (off + length src)] ! y"
  proof (cases "y < off + length src")
    case True
    have "length (take off (map f [0..<z])) = off" using assms(1) by simp
    then show ?thesis using y True assms(1) assms(2) [OF y] by (cases "off \<le> y") (auto simp: put_bytes_def nth_append)
  next
    case False
    then have "y < z" using y by simp
    moreover have "\<not> y - off < length src" using False by linarith
    ultimately show ?thesis using y False assms(1) assms(2) [OF y] by (simp add: put_bytes_def nth_append)
  qed
qed

lemma writei_result:
  assumes ok: "open_inode_ok i nb st" and sz: "unat (isize (ino st i)) \<le> nb * BSIZE" and room: "room_for_inode i nb st"
    and off: "unat off \<le> unat (isize (ino st i))" and fit: "unat off + length src \<le> nb * BSIZE"
  shows "\<exists>t. writei sw i off src st = Inr (int (length src), t) \<and> open_inode_ok i nb t \<and> room_for_inode i nb t
     \<and> unat (isize (ino t i)) = max (unat (isize (ino st i))) (unat off + length src)
     \<and> file_bytes t i = put_bytes (unat off) src (file_bytes st i) \<and> writei_frame i nb st t"
proof -
  let ?ip = "ino st i" and ?n = "of_nat (length src) :: u32"
  have "open_alloc i nb st" using ok by (simp add: open_inode_ok_alloc)
  note bound = file_size_bound [OF this sz]
  have i: "i < length (icache st)" and nd: "itype ?ip \<noteq> T_DEV" using ok by (simp_all add: open_inode_ok_def)
  have un: "unat ?n = length src" using bound fit by (intro unat_of_nat_small) simp
  have us: "unat (off + ?n) = unat off + length src" using un bound fit by (simp add: unat_word_ariths)
  have g: "\<not> (off > isize ?ip \<or> off + ?n < off)" using off us by (auto simp: word_less_nat_alt)
  have mx: "\<not> off + ?n > of_nat (MAXFILE * BSIZE)"
    using us bound fit by (simp add: word_less_nat_alt MAXFILE_def BSIZE_def)
  obtain s where s: "writei_loop i (unat off) src st = Inr s" "wstep i nb st s" "file_blocks (disk (bc s)) (ino s i) nb"
      "\<And>y. y div BSIZE < nb \<Longrightarrow> file_byte (disk (bc s)) (ino s i) y
         = (if unat off \<le> y \<and> y < unat off + length src then src ! (y - unat off) else file_byte (disk (bc st)) ?ip y)"
    using writei_loop_ok [OF ok fit] by blast
  note w = wstep_inode [OF s(2) i] and fr = wstep_frame [OF s(2) i]
  have ok_s: "open_inode_ok i nb s" by (rule wstep_ok [OF ok s(2,3)])
  have hs: "held_blocks (bc s) = held_blocks (bc st)" using s(2) by (simp add: wstep_def)
  have small: "unat ?n < 2 ^ 31" using un bound fit by simp
  have blk: "y div BSIZE < nb" if "y < max (unat (isize ?ip)) (unat off + length src)" for y
    using that sz fit by (intro less_mult_imp_div_less) auto
  have bytes: "put_bytes (unat off) src (file_bytes st i)
      = map (file_byte (disk (bc s)) (ino s i)) [0..<max (unat (isize ?ip)) (unat off + length src)]"
    unfolding file_bytes_def by (rule put_bytes_map [OF off]) (use s(4) blk in blast)
  have run: "writei sw i off src st = (if ?n > 0 \<and> off + ?n > isize ?ip
      then bindE (iupdate i (upd_inode i (\<lambda>ip. ip\<lparr>isize := off + ?n\<rparr>) s)) (\<lambda>s2. Inr (int (length src), s2)) else Inr (int (length src), s))"
    using nd g mx un s(1) w(4) sint_small [OF small] by (simp add: writei_def Let_def)
  show ?thesis
  proof (cases "off + ?n > isize ?ip")
    case False
    then have m: "max (unat (isize ?ip)) (unat off + length src) = unat (isize ?ip)" using us by (simp add: word_less_nat_alt)
    have "room_for_inode i nb s" using room w(2,5,8) hs by (simp add: room_for_inode_def)
    then show ?thesis using run False ok_s fr w(4) bytes m by (simp add: file_bytes_def)
  next
    case True
    then have m: "max (unat (isize ?ip)) (unat off + length src) = unat (off + ?n)" using us by (simp add: word_less_nat_alt)
    have "length src \<noteq> 0"
    proof
      assume "length src = 0"
      then have "unat (off + ?n) = unat off" using us by simp
      then show False using True off by (simp add: word_less_nat_alt)
    qed
    then have pos: "?n > 0" using un by (simp add: word_less_nat_alt)
    define u where "u = upd_inode i (\<lambda>ip. ip\<lparr>isize := off + ?n\<rparr>) s"
    have u: "ino u i = (ino s i)\<lparr>isize := off + ?n\<rparr>" "bc u = bc s" "j \<noteq> i \<Longrightarrow> ino u j = ino s j" "dw u = dw s" "length (icache u) = length (icache s)" for j
      using i w(1) by (simp_all add: u_def upd_inode_def)
    have len: "length (addrs (ino s i)) = NDIRECT + 1" using s(3) by (simp add: file_blocks_def)
    have "ready (idev (ino s i)) 2 (meta_blocks (disk (bc s)) (ino s i) nb) s" using ok_s by (simp add: open_inode_ok_def)
    then have "ready (idev (ino u i)) 1 {IBLOCK (inum (ino u i))} u"
      using room w(2,5) hs by (simp add: u ready_def room_for_inode_def)
    from iupdate_ok [OF this] len obtain t where t: "iupdate i u = Inr t"
        "bstep u t (upd_disk (disk (bc s)) (idev (ino s i)) (IBLOCK (inum (ino s i)))
           (put_dinode (inum (ino s i)) (ino u i) (disk (bc s) (idev (ino s i)) (IBLOCK (inum (ino s i)))))) (held_blocks (bc s))"
      by (auto simp: u)
    have ti: "ino t i = (ino s i)\<lparr>isize := off + ?n\<rparr>" "held_blocks (bc t) = held_blocks (bc s)" "icache t = icache u" "dw t = dw s"
        "disk (bc t) = upd_disk (disk (bc s)) (idev (ino s i)) (IBLOCK (inum (ino s i)))
           (put_dinode (inum (ino s i)) (ino u i) (disk (bc s) (idev (ino s i)) (IBLOCK (inum (ino s i)))))"
      using t(2) u by (simp_all add: bstep_def)
    have nm: "IBLOCK (inum (ino s i)) \<notin> meta_blocks (disk (bc s)) (ino s i) nb" using room w(5,8) by (simp add: room_for_inode_def)
    have same: "disk (bc t) (idev (ino s i)) b = disk (bc s) (idev (ino s i)) b" if "b \<in> meta_blocks (disk (bc s)) (ino s i) nb" for b
      using that nm by (auto simp: ti(5) upd_disk_apply)
    have e: "addrs (ino t i) = addrs (ino s i)" "idev (ino t i) = idev (ino s i)" "itype (ino t i) = itype (ino s i)" by (simp_all add: ti(1))
    note cg = file_bytes_cong [where V = "disk (bc s)" and W = "disk (bc t)" and ip = "ino s i" and jp = "ino t i" and nb = nb, OF s(3) e same]
    have fb: "file_blocks (disk (bc t)) (ino t i) nb" and mb: "meta_blocks (disk (bc t)) (ino t i) nb = meta_blocks (disk (bc s)) (ino s i) nb"
      using cg(1,3) ti(1) by simp_all
    have "open_inode_ok i nb t"
      using ok_s fb mb t(2) u ti by (simp add: open_inode_ok_def) (simp add: ready_def bstep_def)
    moreover have "room_for_inode i nb t" using room mb ti(1,2) w(2,5,8) hs by (simp add: room_for_inode_def)
    moreover have "file_bytes t i = put_bytes (unat off) src (file_bytes st i)"
      unfolding bytes m using cg(4) blk by (simp add: file_bytes_def ti(1) m)
    moreover have "writei_frame i nb st t" using fr w(2,5,8) ti u by (auto simp: writei_frame_def upd_disk_apply)
    ultimately show ?thesis using run True pos t(1) m by (intro exI [of _ t]) (simp add: u_def ti(1))
  qed
qed

subsection \<open>Properties\<close>

text \<open>A disk with an open \<open>T_CHECKED\<close> file of one block.\<close>

definition one_block_file :: inode where
  "one_block_file = \<lparr>itype = T_CHECKED, imajor = 0, iminor = 0, inlink = 1, isize = 4, addrs = 5 # replicate 12 0,
     idev = 0, inum = 1, iref = 1, ibusy = True, ivalid = True\<rparr>"

definition file_disk :: "unit fs" where
  "file_disk = tiny_disk\<lparr>icache := [one_block_file]\<rparr>"

lemma xor_list_zero: "xor_list (replicate n 0) = 0"
  by (induction n) (simp_all add: xor_list_def)

lemma file_disk_open: "open_inode_ok 0 1 file_disk \<and> room_for_inode 0 1 file_disk \<and> isize (ino file_disk 0) = 4"
proof -
  have d: "disk (bc file_disk) = (\<lambda>d b. if b = 1 then 1 # replicate 511 0 else replicate 512 0)" "held_blocks (bc file_disk) = {}"
    using tiny_disk_ready [of "{}"] by (simp_all add: file_disk_def tiny_disk_def iinit_def binit_def held_blocks_def fresh_buf_def)
  have i: "ino file_disk 0 = one_block_file" by (simp add: file_disk_def)
  have me: "map_entry V one_block_file 0 = 5" for V by (simp add: map_entry_def one_block_file_def NDIRECT_def)
  have ty: "itype one_block_file = T_CHECKED" "itype one_block_file \<noteq> T_DEV" "idev one_block_file = 0" "inum one_block_file = 1"
    by (simp_all add: one_block_file_def T_CHECKED_def T_DEV_def)
  have ba: "block_addr V one_block_file 0 = 5" for V by (simp add: block_addr_def me masked_def ADDR_MASK_def)
  have "sum_block (replicate 512 0) = 0" by (simp add: sum_block_def xor_list_zero)
  then have "file_blocks (disk (bc file_disk)) one_block_file 1"
    by (simp add: file_blocks_def me ba MAXFILE_def d top_byte_def) (simp add: one_block_file_def NDIRECT_def)
  moreover have mb: "meta_blocks (disk (bc file_disk)) one_block_file 1 = {5}" by (auto simp: meta_blocks_def ba NDIRECT_def)
  moreover have "ready 0 2 {5} file_disk"
    using tiny_disk_ready [of "{5}"] d(2) by (simp add: ready_def file_disk_def NBUF_def)
  moreover have "room_for_inode 0 1 file_disk" unfolding room_for_inode_def i mb ty d(2) by (simp add: IBLOCK_def IPB_def)
  ultimately show ?thesis by (simp add: open_inode_ok_def i ty mb) (simp add: file_disk_def one_block_file_def T_CHECKED_def T_DEV_def)
qed

text \<open>The same disk with a byte of the file changed behind the back of the checksum.\<close>

definition bad_disk :: "unit fs" where
  "bad_disk = file_disk\<lparr>icache := [one_block_file\<lparr>addrs := 0x07000005 # replicate 12 0\<rparr>]\<rparr>"

lemma bad_disk_open:
  "open_alloc 0 1 bad_disk" "unat (isize (ino bad_disk 0)) = 4" "\<not> sum_ok (disk (bc bad_disk)) (ino bad_disk 0) 0"
proof -
  have d: "disk (bc bad_disk) = (\<lambda>d b. if b = 1 then 1 # replicate 511 0 else replicate 512 0)" "held_blocks (bc bad_disk) = {}"
    using tiny_disk_ready [of "{}"] by (simp_all add: bad_disk_def file_disk_def tiny_disk_def iinit_def binit_def held_blocks_def fresh_buf_def)
  let ?f = "one_block_file\<lparr>addrs := 0x07000005 # replicate 12 0\<rparr>"
  have i: "ino bad_disk 0 = ?f" by (simp add: bad_disk_def)
  have me: "map_entry V ?f 0 = 0x07000005" for V by (simp add: map_entry_def NDIRECT_def)
  have ty: "itype ?f = T_CHECKED" "itype ?f \<noteq> T_DEV" "idev ?f = 0" by (simp_all add: one_block_file_def T_CHECKED_def T_DEV_def)
  have ba: "block_addr V ?f 0 = 5" for V using ty by (simp add: block_addr_def me masked_def ADDR_MASK_def)
  have "file_alloc (disk (bc bad_disk)) ?f 1"
    by (simp add: file_alloc_def ba MAXFILE_def) (simp add: NDIRECT_def)
  moreover have mb: "meta_blocks (disk (bc bad_disk)) ?f 1 = {5}" by (auto simp: meta_blocks_def ba NDIRECT_def)
  moreover have "ready 0 2 {5} bad_disk"
    using tiny_disk_ready [of "{5}"] d(2) by (simp add: ready_def bad_disk_def file_disk_def NBUF_def)
  ultimately show "open_alloc 0 1 bad_disk" using ty(2) by (simp only: open_alloc_def i ty mb) (simp add: bad_disk_def file_disk_def)
  show "unat (isize (ino bad_disk 0)) = 4" by (simp add: i one_block_file_def)
  have "sum_block (replicate 512 0) = 0" by (simp add: sum_block_def xor_list_zero)
  then show "\<not> sum_ok (disk (bc bad_disk)) (ino bad_disk 0) 0"
    unfolding i sum_ok_def me ba ty(1,3) d(1) by (simp add: top_byte_def)
qed

lemma bad_disk_stops: "stops_at (disk (bc bad_disk)) (ino bad_disk 0) 2 4 z \<longleftrightarrow> z = 4"
proof -
  let ?b = "\<lambda>k. sum_ok (disk (bc bad_disk)) (ino bad_disk 0) k"
  have "k = 0" if "\<forall>y. 2 \<le> y \<and> y < k * 512 \<longrightarrow> ?b (y div 512)" for k
    using that bad_disk_open(3) by (cases k) (auto dest: spec [of _ 2])
  then show ?thesis using bad_disk_open(3) by (fastforce simp: stops_at_def BSIZE_def)
qed

text \<open>C12: For a locked file with its blocks allocated and any checksums, \<open>readi\<close> changes nothing and fails with -1 and no bytes
  when \<open>off\<close> lies behind the end or \<open>off + n\<close> overflows. Otherwise, when every block of the range has its checksum (other types than
  \<open>T_CHECKED\<close> have none), it returns the slice of the bytes of the file that starts at \<open>off\<close> and has at most \<open>n\<close>
  bytes, across direct and indirect blocks; and when one has not, it returns -1, after copying the bytes of the range up to the end of
  the first such block.\<close>

theorem readi_returns_slice:
  assumes "open_alloc i nb st" and "unat (isize (ino st i)) \<le> nb * BSIZE" and "e = min (unat off + unat n) (unat (isize (ino st i)))"
  shows "if unat (isize (ino st i)) < unat off \<or> 2 ^ 32 \<le> unat off + unat n then readi sw i off n st = Inr ((-1, []), st)
    else \<exists>s r out. readi sw i off n st = Inr ((r, out), s)
       \<and> disk (bc s) = disk (bc st) \<and> icache s = icache st \<and> held_blocks (bc s) = held_blocks (bc st)
       \<and> (if sums_right (disk (bc st)) (ino st i) (unat off) e
          then out = bytes_at (unat off) (unat n) (file_bytes st i) \<and> r = int (length out)
          else r = -1 \<and> (\<exists>z. stops_at (disk (bc st)) (ino st i) (unat off) e z \<and> out = bytes_at (unat off) (z - unat off) (file_bytes st i)))"
proof -
  let ?V = "disk (bc st)" and ?ip = "ino st i"
  show ?thesis
  proof (cases "unat (isize ?ip) < unat off \<or> 2 ^ 32 \<le> unat off + unat n")
    case True
    then show ?thesis using readi_any_sums [OF assms, of sw] by auto
  next
    case False
    obtain s z where s: "readi sw i off n st = Inr ((if sums_right ?V ?ip (unat off) e then int (e - unat off) else -1,
          map (file_byte ?V ?ip) [unat off..<z]), s)" "bstep st s ?V (held_blocks (bc st))"
        "if sums_right ?V ?ip (unat off) e then z = e else stops_at ?V ?ip (unat off) e z"
      using readi_any_sums [OF assms, of sw] False by auto
    have "map (file_byte ?V ?ip) [unat off..<z] = bytes_at (unat off) (z - unat off) (file_bytes st i)" if "stops_at ?V ?ip (unat off) e z"
      using that assms(3) unfolding file_slice by (auto simp: stops_at_def intro!: arg_cong [where f = "map _"])
    then show ?thesis using False s assms(3) unfolding file_slice by (auto simp: bstep_def)
  qed
qed

theorem readi_returns_slice_witness:
  "(\<exists>sw s. readi sw 0 2 10 file_disk = Inr ((2, bytes_at 2 10 (file_bytes file_disk 0)), s))
   \<and> (\<exists>sw s. readi sw 0 2 10 bad_disk = Inr ((-1, bytes_at 2 2 (file_bytes bad_disk 0)), s))"
proof
  have a: "open_alloc 0 1 file_disk" and sz: "unat (isize (ino file_disk 0)) = 4" using file_disk_open by (simp_all add: open_inode_ok_alloc)
  have "sums_right (disk (bc file_disk)) (ino file_disk 0) 2 4"
    using file_disk_open by (auto simp: open_inode_ok_alloc sums_right_def BSIZE_def)
  moreover have "length (bytes_at 2 10 (file_bytes file_disk 0)) = 2" using file_disk_open by (simp add: file_bytes_def bytes_at_def)
  ultimately show "\<exists>sw s. readi sw 0 2 10 file_disk = Inr ((2, bytes_at 2 10 (file_bytes file_disk 0)), s)"
    using readi_returns_slice [OF a _ refl, of 2 10] sz by (simp add: BSIZE_def) blast
next
  have "\<not> sums_right (disk (bc bad_disk)) (ino bad_disk 0) 2 4"
    using bad_disk_open(3) by (auto simp: sums_right_def BSIZE_def intro!: exI [of _ 2])
  then show "\<exists>sw s. readi sw 0 2 10 bad_disk = Inr ((-1, bytes_at 2 2 (file_bytes bad_disk 0)), s)"
    using readi_returns_slice [OF bad_disk_open(1) _ refl, of 2 10] bad_disk_open(2) bad_disk_stops by (simp add: BSIZE_def) blast
qed

text \<open>C10: On such a file \<open>writei\<close> implements the overwriting of a byte array: it returns the number of bytes, the
  bytes of the file from \<open>off\<close> on become those written and the others stay, the file grows when needed, its block map and its
  checksums stay in order, and only blocks of the file and the block of its inode change.\<close>

theorem writei_overwrites_bytes:
  assumes "open_inode_ok i nb st" and "unat (isize (ino st i)) \<le> nb * BSIZE" and "room_for_inode i nb st"
    and "unat off \<le> length (file_bytes st i)" and "unat off + length src \<le> nb * BSIZE"
  shows "\<exists>t. writei sw i off src st = Inr (int (length src), t) \<and> open_inode_ok i nb t
     \<and> file_bytes t i = put_bytes (unat off) src (file_bytes st i) \<and> writei_frame i nb st t"
  using writei_result [OF assms(1-3) _ assms(5), of sw] assms(4) by (auto simp: file_bytes_def)

theorem writei_overwrites_bytes_witness:
  "\<exists>sw t. writei sw 0 4 [104, 105] file_disk = Inr (2, t) \<and> file_bytes t 0 = put_bytes 4 [104, 105] (file_bytes file_disk 0)"
  using writei_overwrites_bytes [of 0 1 file_disk 4 "[104, 105]" sw] file_disk_open by (auto simp: file_bytes_def BSIZE_def)

text \<open>C13: What \<open>writei\<close> wrote is what \<open>readi\<close> reads back.\<close>

theorem written_bytes_read_back:
  assumes "open_inode_ok i nb st" and "unat (isize (ino st i)) \<le> nb * BSIZE" and "room_for_inode i nb st"
    and "unat off \<le> length (file_bytes st i)" and "unat off + length src \<le> nb * BSIZE"
  shows "\<exists>t s. writei sw i off src st = Inr (int (length src), t) \<and> readi sw i off (of_nat (length src)) t = Inr ((int (length src), src), s)"
proof -
  have oa: "open_alloc i nb st" using assms(1) by (simp add: open_inode_ok_alloc)
  have off: "unat off \<le> unat (isize (ino st i))" using assms(4) by (simp add: file_bytes_def)
  obtain t where t: "writei sw i off src st = Inr (int (length src), t)" "open_inode_ok i nb t"
      "unat (isize (ino t i)) = max (unat (isize (ino st i))) (unat off + length src)"
      "file_bytes t i = put_bytes (unat off) src (file_bytes st i)"
    using writei_result [OF assms(1-3) off assms(5)] by blast
  have un: "unat (of_nat (length src) :: u32) = length src"
    using file_size_bound(1) [OF oa assms(2)] assms(5) by (intro unat_of_nat_small) simp
  have "bytes_at (unat off) (length src) (file_bytes t i) = src" using assms(4) by (simp add: t(4) bytes_at_def put_bytes_def)
  moreover have "unat (isize (ino t i)) \<le> nb * BSIZE" "unat off \<le> unat (isize (ino t i))" "unat off + length src < 2 ^ 32"
    using t(3) assms(2,5) off file_size_bound(1) [OF oa assms(2)] by auto
  ultimately show ?thesis
    using readi_result [OF t(2), of off "of_nat (length src)" sw] t(1) un by auto
qed

theorem written_bytes_read_back_witness:
  "\<exists>sw t s. writei sw 0 4 [104, 105] file_disk = Inr (2, t) \<and> readi sw 0 4 2 t = Inr ((2, [104, 105]), s)"
  using written_bytes_read_back [of 0 1 file_disk 4 "[104, 105]" sw] file_disk_open by (auto simp: file_bytes_def BSIZE_def)

end
