(* ===== verification/Vm.thy ===== *)
theory Vm
  imports Kalloc
begin

text \<open>
  Virtual memory and shared memory of project 3, \<open>kernel/vm.c\<close>: the two-level page tables, which
  live in pages of physical memory that \<open>kalloc\<close> hands out, the address spaces made of them, and
  the shared pages that \<open>shmgetat\<close> maps below \<open>USERTOP\<close>. A page table is the address of its
  directory page; a pointer to an entry is the address of a word of memory, 0 is the null
  pointer. \<open>kdata\<close> is the linker symbol \<open>data\<close>, \<open>kend\<close> is \<open>end\<close>. The abstraction is \<open>pte_of\<close>: the
  entry that the processor finds for a virtual address.
\<close>

subsection \<open>Entries\<close>

definition PTE_P :: u32 where "PTE_P = 0x001"
definition PTE_W :: u32 where "PTE_W = 0x002"
definition PTE_U :: u32 where "PTE_U = 0x004"

definition PTE_ADDR :: "u32 \<Rightarrow> u32" where "PTE_ADDR pte = pte AND NOT 0xFFF"
definition PDX :: "u32 \<Rightarrow> u32" where "PDX la = drop_bit 22 la AND 0x3FF"
definition PTX :: "u32 \<Rightarrow> u32" where "PTX la = drop_bit 12 la AND 0x3FF"

definition present :: "u32 \<Rightarrow> bool" where "present pte = (pte AND PTE_P \<noteq> 0)"

definition poke :: "u32 \<Rightarrow> u32 \<Rightarrow> kmem \<Rightarrow> kmem" where
  "poke a w s = s\<lparr>mem := (mem s)(a := w)\<rparr>"

text \<open>\<open>memset(p, 0, PGSIZE)\<close> and \<open>memmove(d, p, PGSIZE)\<close> of whole pages.\<close>

definition zero_page :: "u32 \<Rightarrow> kmem \<Rightarrow> kmem" where
  "zero_page p s = s\<lparr>mem := fill_page p 0 (mem s)\<rparr>"

definition copy_page :: "u32 \<Rightarrow> u32 \<Rightarrow> kmem \<Rightarrow> kmem" where
  "copy_page d p s = s\<lparr>mem := (\<lambda>a. if a - d < PGSIZE then mem s (p + (a - d)) else mem s a)\<rparr>"

text \<open>Bytes of memory; words are little-endian.\<close>

definition get_byte :: "(u32 \<Rightarrow> u32) \<Rightarrow> u32 \<Rightarrow> u8" where
  "get_byte m a = ucast (drop_bit (8 * unat (a mod 4)) (m (a - a mod 4)))"

definition put_byte :: "u32 \<Rightarrow> u8 \<Rightarrow> (u32 \<Rightarrow> u32) \<Rightarrow> (u32 \<Rightarrow> u32)" where
  "put_byte a b m =
     (let k = 8 * unat (a mod 4); w = a - a mod 4 in
      m(w := (m w AND NOT (push_bit k 0xFF)) OR push_bit k (ucast b)))"

primrec write_bytes :: "u32 \<Rightarrow> u8 list \<Rightarrow> (u32 \<Rightarrow> u32) \<Rightarrow> (u32 \<Rightarrow> u32)" where
  "write_bytes a [] m = m"
| "write_bytes a (b # bs) m = write_bytes (a + 1) bs (put_byte a b m)"

subsection \<open>Page tables\<close>

definition walkpgdir :: "u32 \<Rightarrow> u32 \<Rightarrow> bool \<Rightarrow> kmem \<Rightarrow> u32 \<times> kmem" where
  "walkpgdir pgdir va create s =
     (let pde = pgdir + 4 * PDX va in
      if present (mem s pde) then (PTE_ADDR (mem s pde) + 4 * PTX va, s)
      else if \<not> create then (0, s)
      else
        (let (pgtab, s1) = kalloc s in
         if pgtab = 0 then (0, s1)
         else (pgtab + 4 * PTX va,
               poke pde (pgtab OR PTE_P OR PTE_W OR PTE_U) (zero_page pgtab s1))))"

text \<open>
  \<open>n\<close> is the number of pages from \<open>a\<close> to \<open>last\<close>, not counting \<open>a\<close>: the loop stops when \<open>a == last\<close>.
\<close>

fun mappages_loop :: "u32 \<Rightarrow> nat \<Rightarrow> u32 \<Rightarrow> u32 \<Rightarrow> u32 \<Rightarrow> kmem \<Rightarrow> int \<times> kmem" where
  "mappages_loop pgdir n a pa perm s =
     (let (pte, s1) = walkpgdir pgdir a True s in
      if pte = 0 then (-1, s1)
      else if present (mem s1 pte) then (-1, s1)
      else
        (let s2 = poke pte (pa OR perm OR PTE_P) s1 in
         case n of 0 \<Rightarrow> (0, s2)
         | Suc k \<Rightarrow> mappages_loop pgdir k (a + PGSIZE) (pa + PGSIZE) perm s2))"

declare mappages_loop.simps [simp del]

definition mappages :: "u32 \<Rightarrow> u32 \<Rightarrow> u32 \<Rightarrow> u32 \<Rightarrow> u32 \<Rightarrow> kmem \<Rightarrow> int \<times> kmem" where
  "mappages pgdir la len pa perm s =
     (let a = PGROUNDDOWN la; last = PGROUNDDOWN (la + len - 1)
      in mappages_loop pgdir (unat (last - a) div 4096) a pa perm s)"

definition kmap :: "u32 \<Rightarrow> (u32 \<times> u32 \<times> u32) list" where
  "kmap kdata = [(USERTOP, 0x100000, PTE_W), (0x100000, kdata, 0), (kdata, PHYSTOP, PTE_W), (0xFE000000, 0, PTE_W)]"

fun setupkvm_loop :: "u32 \<Rightarrow> (u32 \<times> u32 \<times> u32) list \<Rightarrow> kmem \<Rightarrow> u32 \<times> kmem" where
  "setupkvm_loop pgdir [] s = (pgdir, s)"
| "setupkvm_loop pgdir ((p, e, perm) # ks) s =
     (let (r, s1) = mappages pgdir p (e - p) p perm s in
      if r < 0 then (0, s1) else setupkvm_loop pgdir ks s1)"

definition setupkvm :: "u32 \<Rightarrow> kmem \<Rightarrow> u32 \<times> kmem" where
  "setupkvm kdata s =
     (let (pgdir, s1) = kalloc s in
      if pgdir = 0 then (0, s1) else setupkvm_loop pgdir (kmap kdata) (zero_page pgdir s1))"

text \<open>
  The addresses of \<open>for(a = lo; a < hi; a += PGSIZE)\<close>. They do not wrap: \<open>hi\<close> is at most
  \<open>USERTOP\<close>, or, in \<open>loaduvm\<close>, the end of the file stops the loop.
\<close>

definition page_range :: "u32 \<Rightarrow> u32 \<Rightarrow> u32 list" where
  "page_range lo hi = map (\<lambda>k. lo + of_nat (4096 * k)) [0..<(unat hi - unat lo + 4095) div 4096]"

subsection \<open>User memory\<close>

text \<open>\<open>inituvm\<close> does not look at the result of \<open>kalloc\<close>: at boot nothing is mapped at address 0.\<close>

definition inituvm :: "u32 \<Rightarrow> u8 list \<Rightarrow> kmem \<Rightarrow> kerr + kmem" where
  "inituvm pgdir init s =
     (if length init \<ge> 4096 then Inl (Panic ''inituvm: more than a page'')
      else
        (let (p, s1) = kalloc s in
         if p = 0 then Inl (Panic ''trap'')
         else
           (let (r, s2) = mappages pgdir 0 PGSIZE p (PTE_W OR PTE_U) (zero_page p s1)
            in Inr (s2\<lparr>mem := write_bytes p init (mem s2)\<rparr>))))"

fun deallocuvm_loop :: "u32 \<Rightarrow> u32 \<Rightarrow> u32 list \<Rightarrow> kmem \<Rightarrow> kerr + kmem" where
  "deallocuvm_loop kend pgdir [] s = Inr s"
| "deallocuvm_loop kend pgdir (a # as) s =
     (let pte = fst (walkpgdir pgdir a False s) in
      if pte \<noteq> 0 \<and> present (mem s pte) then
        (let pa = PTE_ADDR (mem s pte) in
         if pa = 0 then Inl (Panic ''kfree'')
         else bindE (kfree kend pa s) (\<lambda>s1. deallocuvm_loop kend pgdir as (poke pte 0 s1)))
      else deallocuvm_loop kend pgdir as s)"

definition deallocuvm :: "u32 \<Rightarrow> u32 \<Rightarrow> u32 \<Rightarrow> u32 \<Rightarrow> kmem \<Rightarrow> kerr + u32 \<times> kmem" where
  "deallocuvm kend pgdir oldsz newsz s =
     (if newsz \<ge> oldsz then Inr (oldsz, s)
      else bindE (deallocuvm_loop kend pgdir (page_range (PGROUNDUP newsz) oldsz) s) (\<lambda>s1. Inr (newsz, s1)))"

fun allocuvm_loop :: "u32 \<Rightarrow> u32 \<Rightarrow> u32 \<Rightarrow> u32 \<Rightarrow> u32 list \<Rightarrow> kmem \<Rightarrow> kerr + u32 \<times> kmem" where
  "allocuvm_loop kend pgdir oldsz newsz [] s = Inr (newsz, s)"
| "allocuvm_loop kend pgdir oldsz newsz (a # as) s =
     (let (p, s1) = kalloc s in
      if p = 0 then bindE (deallocuvm kend pgdir newsz oldsz s1) (\<lambda>(r, s2). Inr (0, s2))
      else
        (let (r, s2) = mappages pgdir a PGSIZE p (PTE_W OR PTE_U) (zero_page p s1) in
         if r < 0 then Inr (0, s2) else allocuvm_loop kend pgdir oldsz newsz as s2))"

definition allocuvm :: "u32 \<Rightarrow> u32 \<Rightarrow> u32 \<Rightarrow> u32 \<Rightarrow> kmem \<Rightarrow> kerr + u32 \<times> kmem" where
  "allocuvm kend pgdir oldsz newsz s =
     (if newsz > USERTOP then Inr (0, s)
      else if newsz < oldsz then Inr (oldsz, s)
      else allocuvm_loop kend pgdir oldsz newsz (page_range (PGROUNDUP oldsz) newsz) s)"

text \<open>
  \<open>nul\<close> is the word that the kernel reads at virtual address 0: \<open>uva2ka\<close> reads the entry without
  testing whether the page table exists.
\<close>

definition uva2ka :: "u32 \<Rightarrow> u32 \<Rightarrow> u32 \<Rightarrow> kmem \<Rightarrow> u32" where
  "uva2ka nul pgdir uva s =
     (let pte = fst (walkpgdir pgdir uva False s); w = (if pte = 0 then nul else mem s pte) in
      if w AND PTE_P = 0 then 0
      else if w AND PTE_U = 0 then 0
      else PTE_ADDR w)"

lemma PGROUNDDOWN_mod: "PGROUNDDOWN a = a - a mod 4096"
  using and_not_4095 [of a] by (simp add: PGROUNDDOWN_def PGSIZE_def)

lemma page_offset: "va - PGROUNDDOWN va = va mod 4096"
  by (simp add: PGROUNDDOWN_mod)

lemma unat_mod_4096: "unat (va mod 4096 :: u32) < 4096"
  by (simp add: unat_mod)

function copyout :: "u32 \<Rightarrow> u32 \<Rightarrow> u32 \<Rightarrow> u8 list \<Rightarrow> kmem \<Rightarrow> int \<times> kmem" where
  "copyout nul pgdir va p s =
     (if p = [] then (0, s)
      else
        (let va0 = PGROUNDDOWN va; pa0 = uva2ka nul pgdir va0 s in
         if pa0 = 0 then (-1, s)
         else
           (let n = min (4096 - unat (va - va0)) (length p)
            in copyout nul pgdir (va0 + PGSIZE) (drop n p)
                 (s\<lparr>mem := write_bytes (pa0 + (va - va0)) (take n p) (mem s)\<rparr>))))"
  by auto
termination
  by (relation "measure (\<lambda>(nul, pgdir, va, p, s). length p)") (auto simp: page_offset unat_mod_4096)

declare copyout.simps [simp del]

text \<open>The loop of \<open>loaduvm\<close> over \<open>i\<close>; \<open>rd off n\<close> is \<open>readi\<close> of the program's file.\<close>

fun loaduvm_loop :: "(u32 \<Rightarrow> u32 \<Rightarrow> 'f \<Rightarrow> kerr + (int \<times> u8 list) \<times> 'f) \<Rightarrow> u32 \<Rightarrow> u32 \<Rightarrow> u32 \<Rightarrow> u32 \<Rightarrow> u32 list
     \<Rightarrow> kmem \<times> 'f \<Rightarrow> kerr + int \<times> (kmem \<times> 'f)" where
  "loaduvm_loop rd pgdir addr off len [] (s, f) = Inr (0, (s, f))"
| "loaduvm_loop rd pgdir addr off len (i # is) (s, f) =
     (let pte = fst (walkpgdir pgdir (addr + i) False s) in
      if pte = 0 then Inl (Panic ''loaduvm: address should exist'')
      else
        (let pa = PTE_ADDR (mem s pte); n = (if len - i < PGSIZE then len - i else PGSIZE) in
         bindE (rd (off + i) n f) (\<lambda>((r, bs), f1).
           let s1 = s\<lparr>mem := write_bytes pa bs (mem s)\<rparr> in
           if (word_of_int r :: u32) \<noteq> n then Inr (-1, (s1, f1))
           else loaduvm_loop rd pgdir addr off len is (s1, f1))))"

definition loaduvm :: "(u32 \<Rightarrow> u32 \<Rightarrow> 'f \<Rightarrow> kerr + (int \<times> u8 list) \<times> 'f) \<Rightarrow> u32 \<Rightarrow> u32 \<Rightarrow> u32 \<Rightarrow> u32
     \<Rightarrow> kmem \<times> 'f \<Rightarrow> kerr + int \<times> (kmem \<times> 'f)" where
  "loaduvm rd pgdir addr off len sf =
     (if addr mod PGSIZE \<noteq> 0 then Inl (Panic ''loaduvm: addr must be page aligned'')
      else loaduvm_loop rd pgdir addr off len (page_range 0 len) sf)"

subsection \<open>Shared memory\<close>

record shmkey =
  ref_count :: int
  num_pages :: int
  page_ptr :: "u32 list"

record vm =
  phys :: kmem
  keys :: "shmkey list"

text \<open>The fields of \<open>struct proc\<close> that shared memory uses.\<close>

record shmproc =
  shm_pgdir :: u32
  shm_va :: "u32 list"
  shm_sz :: u32

definition shm_init :: "shmkey list \<Rightarrow> shmkey list" where
  "shm_init ks = map (\<lambda>k. k\<lparr>ref_count := 0, num_pages := 0\<rparr>) ks"

definition key_pages :: "shmkey \<Rightarrow> u32 list" where
  "key_pages k = take (nat (num_pages k)) (page_ptr k)"

text \<open>The search of \<open>checkifshared\<close>: the first key, and the page in it, with this address.\<close>

definition find_shared :: "u32 \<Rightarrow> shmkey list \<Rightarrow> (nat \<times> nat) option" where
  "find_shared pa ks =
     (case first_idx (\<lambda>k. first_idx (\<lambda>p. p = pa) (key_pages k) \<noteq> None) ks of
        None \<Rightarrow> None
      | Some i \<Rightarrow> map_option (\<lambda>j. (i, j)) (first_idx (\<lambda>p. p = pa) (key_pages (ks ! i))))"

definition upd_key :: "nat \<Rightarrow> (shmkey \<Rightarrow> shmkey) \<Rightarrow> vm \<Rightarrow> vm" where
  "upd_key i f v = v\<lparr>keys := (keys v)[i := f (keys v ! i)]\<rparr>"

definition checkifshared :: "u32 \<Rightarrow> u32 \<Rightarrow> vm \<Rightarrow> kerr + vm" where
  "checkifshared kend pte v =
     (let pa = PTE_ADDR (mem (phys v) pte) in
      case find_shared pa (keys v) of
        None \<Rightarrow> Inr v
      | Some (i, j) \<Rightarrow>
          bindE (if ref_count (keys v ! i) = 1 then
                   (if pa = 0 then Inl (Panic ''kfree in checkifshared'')
                    else bindE (kfree kend pa (phys v)) (\<lambda>s. Inr (v\<lparr>phys := poke pte 0 s\<rparr>)))
                 else Inr v)
            (\<lambda>v1. Inr (if j = 0 then upd_key i (\<lambda>k. k\<lparr>ref_count := ref_count k - 1\<rparr>) v1 else v1)))"

fun deallocshm_loop :: "u32 \<Rightarrow> u32 \<Rightarrow> u32 list \<Rightarrow> vm \<Rightarrow> kerr + vm" where
  "deallocshm_loop kend pgdir [] v = Inr v"
| "deallocshm_loop kend pgdir (a # as) v =
     (let pte = fst (walkpgdir pgdir a False (phys v)) in
      if pte \<noteq> 0 \<and> present (mem (phys v) pte)
      then bindE (checkifshared kend pte v) (deallocshm_loop kend pgdir as)
      else deallocshm_loop kend pgdir as v)"

text \<open>The result -1 of an empty range is not looked at by the caller.\<close>

definition deallocshm :: "u32 \<Rightarrow> u32 \<Rightarrow> u32 \<Rightarrow> u32 \<Rightarrow> vm \<Rightarrow> kerr + u32 \<times> vm" where
  "deallocshm kend pgdir oldsz newsz v =
     (if newsz \<ge> oldsz then Inr (-1, v)
      else bindE (deallocshm_loop kend pgdir (page_range (PGROUNDUP newsz) oldsz) v) (\<lambda>v1. Inr (newsz, v1)))"

text \<open>The loop of \<open>freevm\<close> over the page directory, from entry \<open>NPDENTRIES - n\<close>.\<close>

primrec free_tables :: "u32 \<Rightarrow> u32 \<Rightarrow> nat \<Rightarrow> kmem \<Rightarrow> kerr + kmem" where
  "free_tables kend pgdir 0 s = Inr s"
| "free_tables kend pgdir (Suc n) s =
     (let pde = mem s (pgdir + 4 * of_nat (1023 - n)) in
      if present pde then bindE (kfree kend (PTE_ADDR pde) s) (free_tables kend pgdir n)
      else free_tables kend pgdir n s)"

definition freevm :: "u32 \<Rightarrow> u32 \<Rightarrow> u32 \<Rightarrow> vm \<Rightarrow> kerr + vm" where
  "freevm kend pgdir len v =
     (if pgdir = 0 then Inl (Panic ''freevm: no pgdir'')
      else
        bindE (deallocuvm kend pgdir len 0 (phys v)) (\<lambda>(r, s1).
          bindE (deallocshm kend pgdir USERTOP len (v\<lparr>phys := s1\<rparr>)) (\<lambda>(r', v2).
            bindE (free_tables kend pgdir 1024 (phys v2)) (\<lambda>s3.
              bindE (kfree kend pgdir s3) (\<lambda>s4. Inr (v2\<lparr>phys := s4\<rparr>))))))"

text \<open>The loop of \<open>copyuvm\<close>; \<open>False\<close> is the jump to \<open>bad\<close>.\<close>

fun copyuvm_loop :: "u32 \<Rightarrow> u32 \<Rightarrow> u32 list \<Rightarrow> kmem \<Rightarrow> kerr + bool \<times> kmem" where
  "copyuvm_loop d pgdir [] s = Inr (True, s)"
| "copyuvm_loop d pgdir (i # is) s =
     (let pte = fst (walkpgdir pgdir i False s) in
      if pte = 0 then Inl (Panic ''copyuvm: pte should exist'')
      else if \<not> present (mem s pte) then Inl (Panic ''copyuvm: page not present'')
      else
        (let pa = PTE_ADDR (mem s pte); (p, s1) = kalloc s in
         if p = 0 then Inr (False, s1)
         else
           (let (r, s2) = mappages d i PGSIZE p (PTE_W OR PTE_U) (copy_page p pa s1) in
            if r < 0 then Inr (False, s2) else copyuvm_loop d pgdir is s2)))"

definition copyuvm :: "u32 \<Rightarrow> u32 \<Rightarrow> u32 \<Rightarrow> u32 \<Rightarrow> vm \<Rightarrow> kerr + u32 \<times> vm" where
  "copyuvm kend kdata pgdir len v =
     (let (d, s1) = setupkvm kdata (phys v) in
      if d = 0 then Inr (0, v\<lparr>phys := s1\<rparr>)
      else
        bindE (copyuvm_loop d pgdir (page_range 0 len) s1) (\<lambda>(ok, s2).
          if ok then Inr (d, v\<lparr>phys := s2\<rparr>)
          else bindE (freevm kend d len (v\<lparr>phys := s2\<rparr>)) (\<lambda>v3. Inr (0, v3))))"

text \<open>
  \<open>while(*pte & PTE_P) vaddr -= PGSIZE\<close>: the next unmapped page at or below \<open>vaddr\<close>; \<open>None\<close> when
  there is no page table. After \<open>2 ^ 20\<close> pages the search is back at its first page.
\<close>

definition ALL_PAGES :: nat where "ALL_PAGES = 2 ^ 20"

primrec next_free_va :: "nat \<Rightarrow> u32 \<Rightarrow> u32 \<Rightarrow> kmem \<Rightarrow> kerr + u32 option" where
  "next_free_va 0 pgdir va s = Inl Blocked"
| "next_free_va (Suc n) pgdir va s =
     (let pte = fst (walkpgdir pgdir va False s) in
      if pte = 0 then Inr None
      else if present (mem s pte) then next_free_va n pgdir (va - PGSIZE) s
      else Inr (Some va))"

fun shm_map :: "u32 \<Rightarrow> u32 list \<Rightarrow> u32 \<Rightarrow> kmem \<Rightarrow> kerr + u32 option \<times> kmem" where
  "shm_map pgdir [] va s = Inr (Some va, s)"
| "shm_map pgdir (p # ps) va s =
     bindE (next_free_va ALL_PAGES pgdir va s) (\<lambda>r.
       case r of None \<Rightarrow> Inr (None, s)
       | Some va' \<Rightarrow> shm_map pgdir ps va' (snd (mappages pgdir va' PGSIZE p (PTE_W OR PTE_U) s)))"

primrec shm_alloc :: "nat \<Rightarrow> kmem \<Rightarrow> kerr + u32 list \<times> kmem" where
  "shm_alloc 0 s = Inr ([], s)"
| "shm_alloc (Suc n) s =
     (let (p, s1) = kalloc s in
      if p = 0 then Inl (Panic (''kalloc failed'' @ [CHR 0x0A]))
      else bindE (shm_alloc n (zero_page p s1)) (\<lambda>(ps, s2). Inr (p # ps, s2)))"

definition shmgetat :: "int \<Rightarrow> int \<Rightarrow> shmproc \<Rightarrow> vm \<Rightarrow> kerr + u32 \<times> shmproc \<times> vm" where
  "shmgetat key n pr v =
     (if \<not> (key \<ge> 0 \<and> key \<le> 7 \<and> n \<ge> 1 \<and> n \<le> 4) then Inr (-1, pr, v)
      else if shm_va pr ! nat key \<noteq> USERTOP then Inr (shm_va pr ! nat key, pr, v)
      else
        (let k = keys v ! nat key in
         bindE (if ref_count k = 0 then shm_alloc (nat n) (phys v) else Inr ([], phys v)) (\<lambda>(ps, s1).
           let k1 = k\<lparr>page_ptr := ps @ drop (length ps) (page_ptr k), ref_count := ref_count k + 1, num_pages := n\<rparr>;
               v1 = v\<lparr>phys := s1, keys := (keys v)[nat key := k1]\<rparr> in
           bindE (shm_map (shm_pgdir pr) (key_pages k1) (USERTOP - PGSIZE) s1) (\<lambda>(r, s2).
             let v2 = v1\<lparr>phys := s2\<rparr> in
             case r of
               None \<Rightarrow> Inr (-1, pr, v2)
             | Some va \<Rightarrow>
                 Inr (va, pr\<lparr>shm_va := (shm_va pr)[nat key := va],
                          shm_sz := (if shm_sz pr > va then va else shm_sz pr)\<rparr>, v2)))))"

definition shm_refcount :: "int \<Rightarrow> vm \<Rightarrow> int" where
  "shm_refcount key v = (if \<not> (key \<ge> 0 \<and> key \<le> 7) then -1 else ref_count (keys v ! nat key))"

text \<open>
  What \<open>fork\<close> of project 3 does for shared memory: the pages below \<open>USERTOP\<close> are mapped in the child
  down to the first unmapped one, and every key the parent uses is counted. \<open>None\<close> is the return -1.
\<close>

primrec fork_map :: "nat \<Rightarrow> u32 \<Rightarrow> u32 \<Rightarrow> u32 \<Rightarrow> kmem \<Rightarrow> kerr + bool \<times> kmem" where
  "fork_map 0 pgdir d va s = Inl Blocked"
| "fork_map (Suc n) pgdir d va s =
     (let pte = fst (walkpgdir pgdir va False s) in
      if pte = 0 then Inr (False, s)
      else if present (mem s pte)
      then fork_map n pgdir d (va - PGSIZE) (snd (mappages d va PGSIZE (PTE_ADDR (mem s pte)) (PTE_W OR PTE_U) s))
      else Inr (True, s))"

definition fork_shm :: "shmproc \<Rightarrow> shmproc \<Rightarrow> vm \<Rightarrow> kerr + shmproc option \<times> vm" where
  "fork_shm pr np v =
     bindE (fork_map ALL_PAGES (shm_pgdir pr) (shm_pgdir np) (USERTOP - PGSIZE) (phys v)) (\<lambda>(ok, s).
       if \<not> ok then Inr (None, v\<lparr>phys := s\<rparr>)
       else Inr (Some (np\<lparr>shm_va := shm_va pr, shm_sz := shm_sz pr\<rparr>),
                 v\<lparr>phys := s, keys := map (\<lambda>(k, va). if va \<noteq> USERTOP then k\<lparr>ref_count := ref_count k + 1\<rparr> else k)
                                       (zip (keys v) (shm_va pr))\<rparr>))"

text \<open>The fields of a new process, and of one that has been reaped or has called \<open>exec\<close>.\<close>

definition no_shm :: "shmproc \<Rightarrow> shmproc" where
  "no_shm pr = pr\<lparr>shm_va := replicate 8 USERTOP, shm_sz := USERTOP\<rparr>"

end
