(* ===== verification/VmTables.thy ===== *)
theory VmTables
  imports Vm
begin

text \<open>
  Page tables as maps: \<open>pte_of\<close> is the entry that a walk of the two levels finds. Every step of the
  code that changes a page table is shown to change this map at the pages it names and nowhere
  else, to take pages only from the free list, and to write only into pages of the table or
  pages that were free.
\<close>

subsection \<open>Pages and indices\<close>

abbreviation pg :: "u32 \<Rightarrow> u32" where "pg \<equiv> PGROUNDDOWN"
lemma unat_aligned: "(p::u32) mod 4096 = 0 \<longleftrightarrow> unat p mod 4096 = 0"
  by (simp add: word_unat_eq_iff unat_mod)

lemma pg_add:
  assumes "p mod 4096 = 0" and "off < 4096"
  shows "pg (p + off) = p" and "(p + off) mod 4096 = off"
proof -
  have "unat (p + off) mod 4096 = (unat p + unat off) mod 4096" by (rule unat_add_mod) simp
  also have "\<dots> = (unat p mod 4096 + unat off) mod 4096" by (simp add: mod_simps)
  also have "unat p mod 4096 = 0" using assms(1) by (simp only: unat_aligned)
  finally have "unat ((p + off) mod 4096) = unat off" using assms(2) by (simp add: unat_mod word_less_nat_alt)
  then show m: "(p + off) mod 4096 = off" by (simp add: word_unat_eq_iff)
  show "pg (p + off) = p" by (simp add: PGROUNDDOWN_mod m)
qed

lemma pg_aligned [simp]: "pg a mod 4096 = 0"
proof -
  have "a mod 4096 \<le> a" by (simp add: word_le_nat_alt unat_mod)
  then have "unat (pg a) = unat a - unat a mod 4096" by (simp add: PGROUNDDOWN_mod unat_sub unat_mod)
  then show ?thesis unfolding unat_aligned by (metis minus_mod_eq_mult_div mod_mult_self1_is_0)
qed

lemma pg_split: "a = pg a + a mod 4096"
  by (simp add: PGROUNDDOWN_mod)

lemma pg_of_aligned [simp]: "p mod 4096 = 0 \<Longrightarrow> pg p = p"
  by (simp add: PGROUNDDOWN_mod)

lemma mod_4096_less: "(a::u32) mod 4096 < 4096"
  by (simp add: word_less_nat_alt unat_mod)

lemma in_page_iff: "p mod 4096 = 0 \<Longrightarrow> a - p < 4096 \<longleftrightarrow> pg a = p"
proof
  assume p: "p mod 4096 = 0" and "a - p < 4096"
  from pg_add(1) [OF this] show "pg a = p" by simp
next
  assume "pg a = p"
  then show "a - p < 4096" using page_offset [of a] mod_4096_less [of a] by simp
qed

lemma PDX_less: "PDX a < 1024" "PTX a < 1024"
proof -
  have "x AND 1023 < (1024 :: u32)" for x :: u32
    using word_and_le1 [of x 1023] by (rule le_less_trans) simp
  then show "PDX a < 1024" "PTX a < 1024" by (simp_all add: PDX_def PTX_def)
qed

lemma unat_times4: "x < 1024 \<Longrightarrow> unat (4 * x :: u32) = 4 * unat x"
  by (simp add: unat_word_ariths word_less_nat_alt)

lemma times4_less: "x < 1024 \<Longrightarrow> 4 * x < (4096 :: u32)"
  by (simp add: word_less_nat_alt unat_times4)

lemma times4_inj: "x < 1024 \<Longrightarrow> y < 1024 \<Longrightarrow> 4 * x = 4 * y \<longleftrightarrow> x = (y :: u32)"
  by (auto simp: word_unat_eq_iff unat_times4)

lemma bit_index: "bit (drop_bit k a AND 0x3FF :: u32) n \<longleftrightarrow> n < 10 \<and> bit a (k + n)"
proof -
  have "(0x3FF :: u32) = mask 10" by (simp add: mask_eq_exp_minus_1)
  then have "drop_bit k a AND 0x3FF = take_bit 10 (drop_bit k a)" by (simp only: take_bit_eq_mask)
  then show ?thesis by (simp add: bit_simps)
qed

lemma bit_pg: "bit (pg a) n \<longleftrightarrow> 12 \<le> n \<and> bit a n"
proof -
  have "(4095 :: u32) = mask 12" by (simp add: mask_eq_exp_minus_1)
  moreover have "PGSIZE - 1 = 4095" by (simp add: PGSIZE_def)
  ultimately have "pg a = a AND NOT (mask 12)" by (simp only: PGROUNDDOWN_def)
  then show ?thesis using bit_imp_le_length [of a n] by (auto simp: bit_simps)
qed

lemma same_page_iff: "pg a = pg b \<longleftrightarrow> PDX a = PDX b \<and> PTX a = PTX b"
proof
  assume e: "pg a = pg b"
  have "bit a n = bit b n" if "12 \<le> n" for n using e that bit_pg by metis
  then show "PDX a = PDX b \<and> PTX a = PTX b"
    by (intro conjI bit_word_eqI) (auto simp: PDX_def PTX_def bit_index)
next
  assume e: "PDX a = PDX b \<and> PTX a = PTX b"
  show "pg a = pg b"
  proof (rule bit_word_eqI)
    fix n assume n: "n < LENGTH(32)"
    have "bit a n = bit b n" if "12 \<le> n" "n < 22"
    proof -
      have "n - 12 < 10" "12 + (n - 12) = n" using that by auto
      then show ?thesis using e bit_index [of 12 a "n - 12"] bit_index [of 12 b "n - 12"] by (simp add: PTX_def)
    qed
    moreover have "bit a n = bit b n" if "22 \<le> n"
    proof -
      have "n - 22 < 10" "22 + (n - 22) = n" using that n by auto
      then show ?thesis using e bit_index [of 22 a "n - 22"] bit_index [of 22 b "n - 22"] by (simp add: PDX_def)
    qed
    ultimately show "bit (pg a) n = bit (pg b) n" by (cases "n < 22") (auto simp: bit_pg)
  qed
qed

lemma PTE_ADDR_pg: "PTE_ADDR e = pg e"
  by (simp add: PTE_ADDR_def PGROUNDDOWN_def PGSIZE_def)

lemma pg_or_flags: "pg (x OR y) = pg x OR pg y"
  by (rule bit_word_eqI) (auto simp: bit_pg bit_simps)

lemma flag_bit: "(e :: u32) AND push_bit k 1 = 0 \<longleftrightarrow> \<not> bit e k"
  if "k < 32"
proof
  assume "e AND push_bit k 1 = 0"
  then have "\<not> bit (e AND push_bit k 1) k" by simp
  then show "\<not> bit e k" using that by (simp add: bit_simps)
next
  assume "\<not> bit e k"
  then show "e AND push_bit k 1 = 0" by (intro bit_word_eqI) (auto simp: bit_simps)
qed

lemma flags_push: "PTE_P = push_bit 0 1" "PTE_W = push_bit 1 1" "PTE_U = push_bit 2 1"
  by (simp_all add: PTE_P_def PTE_W_def PTE_U_def)

lemma bit_flags: "bit PTE_P n \<longleftrightarrow> n = 0" "bit PTE_W n \<longleftrightarrow> n = 1" "bit PTE_U n \<longleftrightarrow> n = 2"
  unfolding flags_push by (simp_all only: bit_push_bit_iff bit_1_iff) auto

lemma present_bit: "present e \<longleftrightarrow> bit e 0"
  using flag_bit [of 0 e] by (simp add: present_def flags_push)

lemma user_bit: "e AND PTE_U = 0 \<longleftrightarrow> \<not> bit e 2"
  unfolding flags_push by (rule flag_bit) simp

lemma pg_flags [simp]: "pg PTE_P = 0" "pg PTE_W = 0" "pg PTE_U = 0" "pg 0 = 0"
  by (rule bit_word_eqI; simp add: bit_pg bit_flags)+

lemma present_or [simp]: "present (x OR PTE_P)" "present (x OR PTE_P OR y)" "present (PTE_P OR y)" "\<not> present 0"
  by (simp_all add: present_bit bit_or_iff bit_flags)

subsection \<open>The table as a map\<close>

definition pde_at :: "kmem \<Rightarrow> u32 \<Rightarrow> u32 \<Rightarrow> u32" where
  "pde_at s pd va = mem s (pd + 4 * PDX va)"

definition slot :: "kmem \<Rightarrow> u32 \<Rightarrow> u32 \<Rightarrow> u32" where
  "slot s pd va = PTE_ADDR (pde_at s pd va) + 4 * PTX va"

definition pte_of :: "kmem \<Rightarrow> u32 \<Rightarrow> u32 \<Rightarrow> u32" where
  "pte_of s pd va = (if present (pde_at s pd va) then mem s (slot s pd va) else 0)"

definition tables :: "kmem \<Rightarrow> u32 \<Rightarrow> u32 set" where
  "tables s pd = {PTE_ADDR (pde_at s pd va) | va. present (pde_at s pd va)}"

definition pt_pages :: "kmem \<Rightarrow> u32 \<Rightarrow> u32 set" where
  "pt_pages s pd = insert pd (tables s pd)"

definition pt_ok :: "u32 \<Rightarrow> kmem \<Rightarrow> u32 list \<Rightarrow> u32 \<Rightarrow> bool" where
  "pt_ok kend s ps pd =
     (kmem_rep kend s ps \<and> (\<forall>p \<in> pt_pages s pd. page_ok kend p \<and> p \<notin> set ps) \<and> pd \<notin> tables s pd
      \<and> (\<forall>va vb. present (pde_at s pd va) \<and> present (pde_at s pd vb)
           \<and> PTE_ADDR (pde_at s pd va) = PTE_ADDR (pde_at s pd vb) \<longrightarrow> PDX va = PDX vb))"

text \<open>\<open>s'\<close> differs from \<open>s\<close> at most in the pages \<open>A\<close>.\<close>

definition touches :: "u32 set \<Rightarrow> kmem \<Rightarrow> kmem \<Rightarrow> bool" where
  "touches A s s' = (\<forall>a. pg a \<notin> A \<longrightarrow> mem s' a = mem s a)"

lemma touches_refl [simp]: "touches A s s"
  by (simp add: touches_def)

lemma touches_trans: "touches A s s' \<Longrightarrow> touches B s' s'' \<Longrightarrow> B \<subseteq> A \<Longrightarrow> touches A s s''"
  by (fastforce simp: touches_def)

lemma touches_mono: "touches A s s' \<Longrightarrow> A \<subseteq> B \<Longrightarrow> touches B s s'"
  by (auto simp: touches_def)

lemma touches_poke: "pg a \<in> A \<Longrightarrow> touches A s (poke a w s)"
  by (auto simp: touches_def poke_def)

lemma mem_zero_page: "p mod 4096 = 0 \<Longrightarrow> mem (zero_page p s) a = (if pg a = p then 0 else mem s a)"
  by (simp add: zero_page_def fill_page_def PGSIZE_def in_page_iff)

lemma mem_copy_page: "p mod 4096 = 0 \<Longrightarrow> mem (copy_page p q s) a = (if pg a = p then mem s (q + (a - p)) else mem s a)"
  by (simp add: copy_page_def PGSIZE_def in_page_iff)

lemma page_ok_aligned: "page_ok kend p \<Longrightarrow> p mod 4096 = 0"
  by (simp add: page_ok_def PGSIZE_def)

lemma page_ok_nonzero: "kmem_rep kend s ps \<Longrightarrow> page_ok kend p \<Longrightarrow> p \<noteq> 0"
  by (auto simp: page_ok_def kmem_rep_def word_gt_0_no)

lemma pg_index [simp]:
  assumes "p mod 4096 = 0"
  shows "pg (p + 4 * PDX va) = p" and "pg (p + 4 * PTX va) = p"
  using pg_add(1) [OF assms] times4_less PDX_less by blast+

lemma walk_False: "walkpgdir pd va False s = (if present (pde_at s pd va) then slot s pd va else 0, s)"
  by (simp add: walkpgdir_def Let_def pde_at_def slot_def)

lemma pt_ok_table:
  assumes "pt_ok kend s ps pd" and "present (pde_at s pd va)"
  shows "page_ok kend (PTE_ADDR (pde_at s pd va))" and "PTE_ADDR (pde_at s pd va) \<in> pt_pages s pd"
    and "PTE_ADDR (pde_at s pd va) \<noteq> pd" and "PTE_ADDR (pde_at s pd va) \<notin> set ps"
    and "pg (slot s pd va) = PTE_ADDR (pde_at s pd va)" and "slot s pd va \<noteq> 0"
proof -
  have t: "PTE_ADDR (pde_at s pd va) \<in> tables s pd" using assms(2) by (auto simp: tables_def)
  show p: "page_ok kend (PTE_ADDR (pde_at s pd va))" and "PTE_ADDR (pde_at s pd va) \<in> pt_pages s pd"
    and "PTE_ADDR (pde_at s pd va) \<noteq> pd" and "PTE_ADDR (pde_at s pd va) \<notin> set ps"
    using t assms(1) by (auto simp: pt_ok_def pt_pages_def)
  show g: "pg (slot s pd va) = PTE_ADDR (pde_at s pd va)"
    by (simp add: slot_def page_ok_aligned [OF p])
  have "PTE_ADDR (pde_at s pd va) \<noteq> 0" using page_ok_nonzero [OF _ p] assms(1) by (auto simp: pt_ok_def)
  then show "slot s pd va \<noteq> 0" using g by auto
qed

lemma pt_ok_pd:
  assumes "pt_ok kend s ps pd"
  shows "page_ok kend pd" and "pd \<notin> set ps" and "pd mod 4096 = 0" and "pg (pd + 4 * PDX va) = pd"
proof -
  show "page_ok kend pd" and "pd \<notin> set ps" using assms by (auto simp: pt_ok_def pt_pages_def)
  then show a: "pd mod 4096 = 0" by (auto intro: page_ok_aligned)
  then show "pg (pd + 4 * PDX va) = pd" by simp
qed

lemma walk_present:
  assumes "pt_ok kend s ps pd" and "pte = fst (walkpgdir pd va False s)"
  shows "pte \<noteq> 0 \<and> present (mem s pte) \<longleftrightarrow> present (pte_of s pd va)"
    and "present (pte_of s pd va) \<Longrightarrow> pte = slot s pd va \<and> mem s pte = pte_of s pd va \<and> present (pde_at s pd va)"
  using pt_ok_table(6) [OF assms(1), of va] by (auto simp: assms(2) walk_False pte_of_def split: if_splits)

text \<open>A state that agrees on the pages of a table and whose free list avoids them has the same table.\<close>

lemma same_tables:
  assumes "pt_ok kend s ps pd" and "\<And>a. pg a \<in> pt_pages s pd \<Longrightarrow> mem s' a = mem s a"
  shows "pde_at s' pd va = pde_at s pd va" and "pte_of s' pd va = pte_of s pd va" and "pt_pages s' pd = pt_pages s pd"
proof -
  have pde: "pde_at s' pd vb = pde_at s pd vb" for vb
    using assms(2) pt_ok_pd(4) [OF assms(1)] by (simp add: pde_at_def pt_pages_def)
  then show "pde_at s' pd va = pde_at s pd va" "pt_pages s' pd = pt_pages s pd"
    by (simp_all add: pt_pages_def tables_def)
  show "pte_of s' pd va = pte_of s pd va"
    using pt_ok_table(2,5) [OF assms(1)] assms(2) by (simp add: pte_of_def pde slot_def)
qed

lemma pt_ok_frame:
  assumes "pt_ok kend s ps pd" and "\<And>a. pg a \<in> pt_pages s pd \<Longrightarrow> mem s' a = mem s a"
    and "kmem_rep kend s' ps'" and "pt_pages s pd \<inter> set ps' = {}"
  shows "pt_ok kend s' ps' pd"
  using assms(1,3,4) same_tables [OF assms(1,2)] unfolding pt_ok_def tables_def pt_pages_def by auto

subsection \<open>Walking and creating\<close>

lemma same_table_index:
  "pt_ok kend s ps pd \<Longrightarrow> present (pde_at s pd va) \<Longrightarrow> present (pde_at s pd vb)
     \<Longrightarrow> PTE_ADDR (pde_at s pd va) = PTE_ADDR (pde_at s pd vb) \<longleftrightarrow> PDX va = PDX vb"
  by (auto simp: pt_ok_def pde_at_def)

lemma slot_eq_iff:
  assumes ok: "pt_ok kend s ps pd" and p: "present (pde_at s pd va)" "present (pde_at s pd vb)"
  shows "slot s pd va = slot s pd vb \<longleftrightarrow> pg va = pg vb"
proof
  assume e: "slot s pd va = slot s pd vb"
  then have t: "PTE_ADDR (pde_at s pd va) = PTE_ADDR (pde_at s pd vb)"
    using pt_ok_table(5) [OF ok p(1)] pt_ok_table(5) [OF ok p(2)] by simp
  then have "4 * PTX va = 4 * PTX vb" using e by (simp add: slot_def)
  then have "PTX va = PTX vb" using times4_inj PDX_less by blast
  then show "pg va = pg vb" using t same_table_index [OF ok p] by (simp add: same_page_iff)
next
  assume "pg va = pg vb"
  then show "slot s pd va = slot s pd vb" by (simp add: slot_def pde_at_def same_page_iff)
qed

lemma slot_not_pde:
  assumes ok: "pt_ok kend s ps pd" and p: "present (pde_at s pd va)"
  shows "slot s pd va \<noteq> pd + 4 * PDX vb"
  using pt_ok_table(3,5) [OF ok p] pt_ok_pd(4) [OF ok, of vb] by metis

text \<open>Writing an entry.\<close>

lemma poke_slot:
  fixes w :: u32
  assumes ok: "pt_ok kend s ps pd" and p: "present (pde_at s pd va)"
  defines "s' \<equiv> poke (slot s pd va) w s"
  shows "pt_ok kend s' ps pd" and "pte_of s' pd vb = (if pg vb = pg va then w else pte_of s pd vb)"
    and "pt_pages s' pd = pt_pages s pd" and "touches (pt_pages s pd) s s'"
    and "pde_at s' pd vb = pde_at s pd vb" and "slot s' pd vb = slot s pd vb"
proof -
  have sl: "slot s' pd vc = slot s pd vc" if "pde_at s' pd vc = pde_at s pd vc" for vc by (simp add: slot_def that)
  have pde: "pde_at s' pd vc = pde_at s pd vc" for vc
    using slot_not_pde [OF ok p, of vc] by (auto simp: s'_def poke_def pde_at_def)
  then show "pde_at s' pd vb = pde_at s pd vb" and sl: "slot s' pd vb = slot s pd vb" by (simp_all add: sl)
  show pp: "pt_pages s' pd = pt_pages s pd" by (simp add: pt_pages_def tables_def pde)
  show "touches (pt_pages s pd) s s'" unfolding s'_def by (rule touches_poke) (simp add: pt_ok_table(2,5) [OF ok p])
  have "slot s pd va \<notin> set ps"
  proof
    assume i: "slot s pd va \<in> set ps"
    then have "page_ok kend (slot s pd va)" using ok by (auto simp: pt_ok_def kmem_rep_def)
    then have "pg (slot s pd va) = slot s pd va" by (intro pg_of_aligned page_ok_aligned)
    then show False using i pt_ok_table(4,5) [OF ok p] by simp
  qed
  then have "kmem_rep kend s' ps" using ok kmem_rep_write unfolding s'_def poke_def pt_ok_def by blast
  then show "pt_ok kend s' ps pd" using ok pp unfolding pt_ok_def tables_def pde by blast
  show "pte_of s' pd vb = (if pg vb = pg va then w else pte_of s pd vb)"
  proof (cases "present (pde_at s pd vb)")
    case True
    moreover have "mem s' a = (if a = slot s pd va then w else mem s a)" for a by (simp add: s'_def poke_def)
    ultimately show ?thesis using slot_eq_iff [OF ok True p] by (simp add: pte_of_def pde sl)
  next
    case False
    then have "pg vb \<noteq> pg va" using p by (auto simp: same_page_iff pde_at_def)
    then show ?thesis using False by (simp add: pte_of_def pde)
  qed
qed

lemma kmem_rep_zero: "kmem_rep kend s ps \<Longrightarrow> page_ok kend p \<Longrightarrow> p \<notin> set ps \<Longrightarrow> kmem_rep kend (zero_page p s) ps"
  unfolding zero_page_def by (rule kmem_rep_fill)

lemma pde_flags:
  assumes "p mod 4096 = 0"
  shows "PTE_ADDR (p OR PTE_P OR PTE_W OR PTE_U) = p"
  by (simp add: PTE_ADDR_pg pg_or_flags assms)

text \<open>Adding a page table: \<open>p\<close> is the page that \<open>kalloc\<close> took from the free list.\<close>

lemma new_table:
  assumes ok: "pt_ok kend s (p # qs) pd" and a: "\<not> present (pde_at s pd va)"
    and s1: "kmem_rep kend s1 qs" "mem s1 = mem s"
  defines "s' \<equiv> poke (pd + 4 * PDX va) (p OR PTE_P OR PTE_W OR PTE_U) (zero_page p s1)"
  shows "pt_ok kend s' qs pd" and "pte_of s' pd vb = pte_of s pd vb" and "p + 4 * PTX va = slot s' pd va"
    and "present (pde_at s' pd va)" and "pt_pages s' pd = insert p (pt_pages s pd)"
    and "touches (insert p (pt_pages s pd)) s s'" and "PDX vb \<noteq> PDX va \<Longrightarrow> pde_at s' pd vb = pde_at s pd vb"
proof -
  have p: "page_ok kend p" "p \<notin> set qs" "p \<notin> pt_pages s pd" "p mod 4096 = 0" "p \<noteq> pd"
    using ok page_ok_aligned by (auto simp: pt_ok_def kmem_rep_def pt_pages_def)
  have m: "mem s' a = (if a = pd + 4 * PDX va then p OR PTE_P OR PTE_W OR PTE_U else if pg a = p then 0 else mem s a)" for a
    by (simp add: s'_def poke_def mem_zero_page [OF p(4)] s1(2))
  have pde: "pde_at s' pd vc = (if PDX vc = PDX va then p OR PTE_P OR PTE_W OR PTE_U else pde_at s pd vc)" for vc
  proof -
    have "pg (pd + 4 * PDX vc) \<noteq> p" using p(5) pt_ok_pd(4) [OF ok] by simp
    moreover have "pd + 4 * PDX vc = pd + 4 * PDX va \<longleftrightarrow> PDX vc = PDX va" using times4_inj PDX_less by simp
    ultimately show ?thesis by (simp add: pde_at_def m)
  qed
  then show "PDX vb \<noteq> PDX va \<Longrightarrow> pde_at s' pd vb = pde_at s pd vb" by simp
  show pr: "present (pde_at s' pd va)" by (simp add: pde)
  show "p + 4 * PTX va = slot s' pd va" by (simp add: slot_def pde pde_flags [OF p(4)])
  have tb: "tables s' pd = insert p (tables s pd)"
  proof -
    have "x \<in> tables s' pd \<longleftrightarrow> x = p \<or> x \<in> tables s pd" for x
    proof
      assume "x \<in> tables s' pd"
      then show "x = p \<or> x \<in> tables s pd" by (auto simp: tables_def pde pde_flags [OF p(4)] split: if_splits)
    next
      assume "x = p \<or> x \<in> tables s pd"
      then show "x \<in> tables s' pd"
      proof
        assume "x = p"
        then show ?thesis using pr by (auto simp: tables_def pde pde_flags [OF p(4)] intro!: exI [of _ va])
      next
        assume "x \<in> tables s pd"
        then obtain vc where v: "x = PTE_ADDR (pde_at s pd vc)" "present (pde_at s pd vc)" by (auto simp: tables_def)
        then have "PDX vc \<noteq> PDX va" using a by (auto simp: pde_at_def)
        then show ?thesis using v by (auto simp: tables_def pde intro!: exI [of _ vc])
      qed
    qed
    then show ?thesis by blast
  qed
  then show pp: "pt_pages s' pd = insert p (pt_pages s pd)" by (auto simp: pt_pages_def)
  show "touches (insert p (pt_pages s pd)) s s'"
    using pt_ok_pd(4) [OF ok, of va] by (auto simp: touches_def m pt_pages_def)
  have "kmem_rep kend s' qs"
  proof -
    have "pd + 4 * PDX va \<notin> set qs"
    proof
      assume i: "pd + 4 * PDX va \<in> set qs"
      then have "page_ok kend (pd + 4 * PDX va)" using s1(1) by (auto simp: kmem_rep_def)
      then have "pd + 4 * PDX va = pd" using pg_of_aligned page_ok_aligned pt_ok_pd(4) [OF ok] by metis
      then show False using i pt_ok_pd(2) [OF ok] by simp
    qed
    then show ?thesis unfolding s'_def poke_def by (intro kmem_rep_write kmem_rep_zero s1(1) p(1,2))
  qed
  moreover have "\<forall>q \<in> pt_pages s pd. page_ok kend q \<and> q \<notin> set qs" "pd \<notin> tables s pd"
    using ok by (auto simp: pt_ok_def)
  moreover have "PDX vb = PDX vc" if "present (pde_at s' pd vb)" "present (pde_at s' pd vc)"
      "PTE_ADDR (pde_at s' pd vb) = PTE_ADDR (pde_at s' pd vc)" for vb vc
  proof -
    have t: "PTE_ADDR (pde_at s pd vd) \<noteq> p" if "present (pde_at s pd vd)" for vd
      using pt_ok_table(2) [OF ok that] p(3) by auto
    show ?thesis
      using that t [of vb] t [of vc] same_table_index [OF ok, of vb vc]
      by (auto simp: pde pde_flags [OF p(4)] split: if_splits)
  qed
  ultimately show "pt_ok kend s' qs pd" using p by (auto simp: pt_ok_def pp tb)
  show "pte_of s' pd vb = pte_of s pd vb"
  proof (cases "PDX vb = PDX va")
    case True
    then have z: "slot s' pd vb = p + 4 * PTX vb" by (simp add: slot_def pde pde_flags [OF p(4)])
    have "pg (p + 4 * PTX vb) = p" by (simp add: p(4))
    moreover from this have "p + 4 * PTX vb \<noteq> pd + 4 * PDX va" using p(5) pt_ok_pd(4) [OF ok, of va] by auto
    ultimately have "mem s' (slot s' pd vb) = 0" by (simp add: z m)
    moreover have "\<not> present (pde_at s pd vb)" using a True by (simp add: pde_at_def)
    ultimately show ?thesis by (simp add: pte_of_def)
  next
    case False
    then have e: "pde_at s' pd vb = pde_at s pd vb" "slot s' pd vb = slot s pd vb" by (simp_all add: pde slot_def)
    show ?thesis
    proof (cases "present (pde_at s pd vb)")
      case True
      have "pg (slot s pd vb) \<noteq> p" "slot s pd vb \<noteq> pd + 4 * PDX va"
        using pt_ok_table(2,5) [OF ok True] p(3) slot_not_pde [OF ok True] by auto
      then show ?thesis by (simp add: pte_of_def e m)
    qed (simp add: pte_of_def e)
  qed
qed

text \<open>
  A step on the table \<open>pd\<close>: pages move only from the free list to the table, and only these pages are
  written.
\<close>

definition pt_step :: "u32 \<Rightarrow> kmem \<Rightarrow> u32 list \<Rightarrow> u32 \<Rightarrow> kmem \<Rightarrow> u32 list \<Rightarrow> bool" where
  "pt_step kend s ps pd s' ps' =
     (pt_ok kend s' ps' pd \<and> set ps' \<subseteq> set ps \<and> pt_pages s pd \<subseteq> pt_pages s' pd
      \<and> pt_pages s' pd \<union> set ps' = pt_pages s pd \<union> set ps \<and> touches (pt_pages s pd \<union> set ps) s s')"

lemma pt_step_refl: "pt_ok kend s ps pd \<Longrightarrow> pt_step kend s ps pd s ps"
  by (simp add: pt_step_def)

lemma pt_step_trans: "pt_step kend s ps pd s' ps' \<Longrightarrow> pt_step kend s' ps' pd s'' ps'' \<Longrightarrow> pt_step kend s ps pd s'' ps''"
  unfolding pt_step_def by (intro conjI; (elim conjE)?; (rule touches_trans, assumption, assumption)?) auto

lemma pt_step_ok: "pt_step kend s ps pd s' ps' \<Longrightarrow> pt_ok kend s' ps' pd"
  by (simp add: pt_step_def)

lemma walk_create:
  assumes ok: "pt_ok kend s ps pd" and w: "walkpgdir pd va True s = (r, s')"
  obtains (nomem) "r = 0" "s' = s" "ps = []"
    | (entry) ps' where "pt_ok kend s' ps' pd" "r = slot s' pd va" "r \<noteq> 0" "present (pde_at s' pd va)"
        "\<And>vb. pte_of s' pd vb = pte_of s pd vb" "pt_step kend s ps pd s' ps'" "\<And>vb. PDX vb \<noteq> PDX va \<Longrightarrow> pde_at s' pd vb = pde_at s pd vb"
proof (cases "present (pde_at s pd va)")
  case True
  then have "r = slot s pd va" "s' = s" using w by (auto simp: walkpgdir_def Let_def slot_def pde_at_def)
  then show ?thesis using entry [of ps] ok True pt_ok_table(6) [OF ok True] pt_step_refl [OF ok] by simp
next
  case False
  obtain p s1 where k: "kalloc s = (p, s1)" by (cases "kalloc s")
  have rep: "kmem_rep kend s ps" using ok by (simp add: pt_ok_def)
  from kalloc_cases [OF rep k] show ?thesis
  proof (elim disjE exE conjE)
    assume "ps = []" "p = 0" "s1 = s"
    then show ?thesis using w False k nomem by (simp add: walkpgdir_def Let_def pde_at_def)
  next
    fix qs assume q: "ps = p # qs" "p \<noteq> 0" "page_ok kend p" "kmem_rep kend s1 qs" "mem s1 = mem s"
    have rs: "r = p + 4 * PTX va" "s' = poke (pd + 4 * PDX va) (p OR PTE_P OR PTE_W OR PTE_U) (zero_page p s1)"
      using w False k q(2) by (auto simp: walkpgdir_def Let_def pde_at_def)
    note n = new_table [OF ok [unfolded q(1)] False q(4,5), folded rs(2)]
    show ?thesis
    proof (rule entry [of qs])
      show "r = slot s' pd va" using n(3) by (simp add: rs(1))
      then show "r \<noteq> 0" using pt_ok_table(6) [OF n(1) n(4)] by simp
      have "touches (pt_pages s pd \<union> set ps) s s'" by (rule touches_mono [OF n(6)]) (auto simp: q(1))
      then show "pt_step kend s ps pd s' qs" using n(1,5) by (auto simp: pt_step_def q(1))
    qed (use n in auto)
  qed
qed

subsection \<open>Mapping pages\<close>

lemma map_one:
  assumes ok: "pt_ok kend s ps pd" and m: "mappages_loop pd 0 a pa perm s = (r, s')"
  obtains (fail) ps' where "r = -1" "pt_step kend s ps pd s' ps'" "\<And>vb. pte_of s' pd vb = pte_of s pd vb"
        "present (pte_of s pd a) \<or> ps = []"
    | (mapped) ps' where "r = 0" "pt_step kend s ps pd s' ps'" "\<not> present (pte_of s pd a)"
        "\<And>vb. pte_of s' pd vb = (if pg vb = pg a then pa OR perm OR PTE_P else pte_of s pd vb)"
        "\<And>vb. PDX vb \<noteq> PDX a \<Longrightarrow> pde_at s' pd vb = pde_at s pd vb"
proof -
  obtain q s1 where w: "walkpgdir pd a True s = (q, s1)" by (cases "walkpgdir pd a True s")
  from ok w show ?thesis
  proof (cases rule: walk_create)
    case nomem
    then show ?thesis using fail [of ps] m w pt_step_refl [OF ok] by (simp add: mappages_loop.simps)
  next
    case (entry qs)
    have e: "mem s1 q = pte_of s pd a" using entry(2,4) entry(5) [of a] by (simp add: pte_of_def)
    show ?thesis
    proof (cases "present (pte_of s pd a)")
      case True
      then show ?thesis using fail [of qs] m w entry e by (simp add: mappages_loop.simps)
    next
      case False
      then have r: "r = 0" "s' = poke (slot s1 pd a) (pa OR perm OR PTE_P) s1"
        using m w entry(3) e by (simp_all add: mappages_loop.simps entry(2))
      note k = poke_slot [OF entry(1,4), of "pa OR perm OR PTE_P", folded r(2)]
      show ?thesis
      proof (rule mapped [OF r(1) _ False, of qs])
        have "touches (pt_pages s pd \<union> set ps) s s'"
          by (rule touches_trans [OF _ k(4)]) (use entry(6) in \<open>auto simp: pt_step_def\<close>)
        then show "pt_step kend s ps pd s' qs" using entry(6) k(1,3) by (simp add: pt_step_def)
        show "pte_of s' pd vb = (if pg vb = pg a then pa OR perm OR PTE_P else pte_of s pd vb)" for vb
          by (simp add: k(2) entry(5))
        show "pde_at s' pd vb = pde_at s pd vb" if "PDX vb \<noteq> PDX a" for vb by (simp add: k(5) entry(7) [OF that])
      qed
    qed
  qed
qed

lemma mappages_page: "a mod 4096 = 0 \<Longrightarrow> mappages pd a PGSIZE pa perm s = mappages_loop pd 0 a pa perm s"
proof -
  assume a: "a mod 4096 = 0"
  have "pg (a + 4095) = a" by (rule pg_add(1) [OF a]) (simp add: word_less_nat_alt)
  moreover have "a + PGSIZE - 1 = a + 4095" by (simp add: PGSIZE_def)
  ultimately have "pg (a + PGSIZE - 1) = a" by (simp only:)
  then show ?thesis unfolding mappages_def Let_def by (simp only: pg_of_aligned [OF a] cancel_comm_monoid_add_class.diff_cancel) simp
qed

lemma mappages_loop_Suc:
  "mappages_loop pd (Suc n) a pa perm s =
     (let (r, s1) = mappages_loop pd 0 a pa perm s in
      if r = -1 then (-1, s1) else mappages_loop pd n (a + PGSIZE) (pa + PGSIZE) perm s1)"
  by (simp add: mappages_loop.simps [of pd "Suc n"] mappages_loop.simps [of pd 0] Let_def split: prod.splits)

end
