(* ===== verification/VmSpace.thy ===== *)
theory VmSpace
  imports VmTables
begin

text \<open>
  Address spaces: a page table together with the frames of its user pages. The invariant \<open>as_ok\<close>
  says that the pages of the table, the frames and the free list are pairwise disjoint and no
  frame is mapped twice; \<open>view\<close> is what the processor sees. \<open>allocuvm\<close>, \<open>deallocuvm\<close>, \<open>copyuvm\<close>,
  \<open>freevm\<close> and \<open>copyout\<close> are shown to do to the view what they promise and to keep every
  page accounted for.
\<close>

definition user :: "u32 \<Rightarrow> bool" where "user e = (present e \<and> e AND PTE_U \<noteq> 0)"

definition frames :: "kmem \<Rightarrow> u32 \<Rightarrow> u32 set" where
  "frames s pd = {PTE_ADDR (pte_of s pd va) | va. user (pte_of s pd va)}"

definition owned :: "kmem \<Rightarrow> u32 \<Rightarrow> u32 set" where
  "owned s pd = pt_pages s pd \<union> frames s pd"

definition as_ok :: "u32 \<Rightarrow> kmem \<Rightarrow> u32 list \<Rightarrow> u32 \<Rightarrow> bool" where
  "as_ok kend s ps pd =
     (pt_ok kend s ps pd \<and> (\<forall>f \<in> frames s pd. page_ok kend f \<and> f \<notin> set ps \<and> f \<notin> pt_pages s pd)
      \<and> (\<forall>va vb. user (pte_of s pd va) \<and> user (pte_of s pd vb)
           \<and> PTE_ADDR (pte_of s pd va) = PTE_ADDR (pte_of s pd vb) \<longrightarrow> pg va = pg vb))"

text \<open>The processor's view of an address: the entry if it is present. The word at a user address.\<close>

definition view :: "kmem \<Rightarrow> u32 \<Rightarrow> u32 \<Rightarrow> u32 option" where
  "view s pd va = (if present (pte_of s pd va) then Some (pte_of s pd va) else None)"

definition phys_addr :: "kmem \<Rightarrow> u32 \<Rightarrow> u32 \<Rightarrow> u32" where
  "phys_addr s pd va = PTE_ADDR (pte_of s pd va) + va mod 4096"

definition uword :: "kmem \<Rightarrow> u32 \<Rightarrow> u32 \<Rightarrow> u32" where
  "uword s pd va = mem s (phys_addr s pd va)"

text \<open>The process notices no difference between \<open>s\<close> and \<open>s'\<close>.\<close>

definition same_space :: "kmem \<Rightarrow> kmem \<Rightarrow> u32 \<Rightarrow> bool" where
  "same_space s s' pd =
     (\<forall>va. view s' pd va = view s pd va \<and> (user (pte_of s pd va) \<longrightarrow> uword s' pd va = uword s pd va))"

lemma as_okD:
  assumes "as_ok kend s ps pd"
  shows "pt_ok kend s ps pd" and "kmem_rep kend s ps" and "owned s pd \<inter> set ps = {}"
    and "user (pte_of s pd va) \<Longrightarrow> page_ok kend (PTE_ADDR (pte_of s pd va))"
    and "user (pte_of s pd va) \<Longrightarrow> PTE_ADDR (pte_of s pd va) \<notin> set ps"
    and "user (pte_of s pd va) \<Longrightarrow> PTE_ADDR (pte_of s pd va) \<notin> pt_pages s pd"
    and "user (pte_of s pd va) \<Longrightarrow> PTE_ADDR (pte_of s pd va) \<in> frames s pd"
  using assms by (auto simp: as_ok_def pt_ok_def owned_def frames_def)

lemma frame_unique:
  "as_ok kend s ps pd \<Longrightarrow> user (pte_of s pd va) \<Longrightarrow> user (pte_of s pd vb)
     \<Longrightarrow> PTE_ADDR (pte_of s pd va) = PTE_ADDR (pte_of s pd vb) \<Longrightarrow> pg va = pg vb"
  unfolding as_ok_def by blast

lemma pte_of_page: "pg va = pg vb \<Longrightarrow> pte_of s pd va = pte_of s pd vb"
  by (simp add: same_page_iff pte_of_def slot_def pde_at_def)

lemma pg_phys_addr: "user (pte_of s pd va) \<Longrightarrow> as_ok kend s ps pd \<Longrightarrow> pg (phys_addr s pd va) = PTE_ADDR (pte_of s pd va)"
  unfolding phys_addr_def by (rule pg_add(1) [OF page_ok_aligned mod_4096_less]) (rule as_okD(4))

text \<open>The frame rule: what does not write the pages of an address space does not change it.\<close>

lemma as_frame:
  assumes ok: "as_ok kend s ps pd" and same: "\<And>a. pg a \<in> owned s pd \<Longrightarrow> mem s' a = mem s a"
    and rep: "kmem_rep kend s' ps'" and dis: "owned s pd \<inter> set ps' = {}"
  shows "as_ok kend s' ps' pd" and "pte_of s' pd va = pte_of s pd va" and "owned s' pd = owned s pd"
    and "view s' pd va = view s pd va" and "user (pte_of s pd va) \<Longrightarrow> uword s' pd va = uword s pd va"
proof -
  have m: "\<And>a. pg a \<in> pt_pages s pd \<Longrightarrow> mem s' a = mem s a" using same by (simp add: owned_def)
  note t = same_tables [OF as_okD(1) [OF ok] m]
  have d: "pt_pages s pd \<inter> set ps' = {}" "frames s pd \<inter> set ps' = {}" using dis by (auto simp: owned_def)
  have p: "pt_ok kend s' ps' pd" by (rule pt_ok_frame [OF as_okD(1) [OF ok] m rep d(1)])
  show e: "pte_of s' pd va = pte_of s pd va" for va by (rule t(2))
  have f: "frames s' pd = frames s pd" by (simp add: frames_def e)
  show "owned s' pd = owned s pd" by (simp add: owned_def f t(3))
  show "view s' pd va = view s pd va" by (simp add: view_def e)
  show "as_ok kend s' ps' pd" using ok d(2) p by (auto simp: as_ok_def f e t(3))
  show "uword s' pd va = uword s pd va" if u: "user (pte_of s pd va)"
  proof -
    have "pg (phys_addr s pd va) \<in> owned s pd" using pg_phys_addr [OF u ok] as_okD(7) [OF ok u] by (simp add: owned_def)
    then show ?thesis by (simp add: uword_def phys_addr_def e same)
  qed
qed

subsection \<open>Adding a page\<close>

lemma user_entry:
  assumes "p mod 4096 = 0"
  shows "user (p OR (PTE_W OR PTE_U) OR PTE_P)" and "PTE_ADDR (p OR (PTE_W OR PTE_U) OR PTE_P) = p"
  by (simp_all add: user_def user_bit present_bit bit_or_iff bit_flags PTE_ADDR_pg pg_or_flags assms)

text \<open>
  \<open>kalloc\<close> has returned \<open>p\<close>, the caller has filled the page (\<open>s2\<close>) and maps it at \<open>a\<close>.
\<close>

definition grows :: "u32 \<Rightarrow> kmem \<Rightarrow> u32 list \<Rightarrow> u32 \<Rightarrow> kmem \<Rightarrow> u32 list \<Rightarrow> bool" where
  "grows kend s ps pd s' ps' =
     (as_ok kend s' ps' pd \<and> set ps' \<subseteq> set ps \<and> owned s pd \<subseteq> owned s' pd
      \<and> owned s' pd \<union> set ps' = owned s pd \<union> set ps \<and> touches (pt_pages s pd \<union> set ps) s s')"

lemma grows_refl: "as_ok kend s ps pd \<Longrightarrow> grows kend s ps pd s ps"
  by (simp add: grows_def)

lemma map_user:
  assumes ok: "as_ok kend s (p # qs) pd" and rep: "kmem_rep kend s2 qs" and t2: "touches {p} s s2"
    and a: "a mod 4096 = 0" "\<not> present (pte_of s pd a)" and pde: "present (pde_at s pd a)"
    and m: "mappages pd a PGSIZE p (PTE_W OR PTE_U) s2 = (r, s')"
  shows "r = 0" and "grows kend s (p # qs) pd s' qs"
    and "pte_of s' pd vb = (if pg vb = a then p OR (PTE_W OR PTE_U) OR PTE_P else pte_of s pd vb)"
    and "\<And>x. pg x = p \<Longrightarrow> mem s' x = mem s2 x" and "pde_at s' pd vb = pde_at s pd vb"
proof -
  have p: "page_ok kend p" "p \<notin> set qs" "p \<notin> owned s pd" "p mod 4096 = 0"
    using as_okD(2,3) [OF ok] by (auto simp: kmem_rep_def intro: page_ok_aligned)
  have same: "mem s2 x = mem s x" if "pg x \<in> owned s pd" for x using t2 p(3) that by (auto simp: touches_def)
  have dis: "owned s pd \<inter> set qs = {}" using as_okD(3) [OF ok] by auto
  note f = as_frame [OF ok same rep dis]
  note pt2 = as_okD(1) [OF f(1)]
  have m0: "mappages_loop pd 0 a p (PTE_W OR PTE_U) s2 = (r, s')" using m by (simp add: mappages_page [OF a(1)])
  have pde2: "present (pde_at s2 pd a)"
    using same_tables(1) [OF as_okD(1) [OF ok], of s2 a] same pde by (simp add: owned_def)
  define e where "e = p OR (PTE_W OR PTE_U) OR PTE_P"
  have w: "walkpgdir pd a True s2 = (slot s2 pd a, s2)"
    using pde2 by (simp add: walkpgdir_def Let_def pde_at_def slot_def)
  have np: "\<not> present (mem s2 (slot s2 pd a))" using a(2) f(2) [of a] pde2 by (simp add: pte_of_def)
  then have rs: "r = 0" "s' = poke (slot s2 pd a) e s2"
    using m0 pt_ok_table(6) [OF pt2 pde2] by (simp_all add: mappages_loop.simps w e_def)
  show "r = 0" by (rule rs(1))
  note k = poke_slot [OF pt2 pde2, of e, folded rs(2)]
  show pte: "pte_of s' pd vb = (if pg vb = a then p OR (PTE_W OR PTE_U) OR PTE_P else pte_of s pd vb)" for vb
    using k(2) [of vb] a(1) by (simp add: f(2) e_def)
  have pp: "pt_pages s' pd = pt_pages s pd"
    using k(3) same_tables(3) [OF as_okD(1) [OF ok], of s2] same by (simp add: owned_def)
  note ue = user_entry [OF p(4)]
  show "pde_at s' pd vb = pde_at s pd vb"
    using k(5) same_tables(1) [OF as_okD(1) [OF ok], of s2] same by (simp add: owned_def)
  have pa: "pg a = a" using a(1) by simp
  have fr: "frames s' pd = insert p (frames s pd)"
  proof (intro set_eqI iffI)
    fix x assume "x \<in> frames s' pd"
    then show "x \<in> insert p (frames s pd)" using ue by (auto simp: frames_def pte split: if_splits)
  next
    fix x assume "x \<in> insert p (frames s pd)"
    then show "x \<in> frames s' pd"
    proof
      assume "x = p"
      then show ?thesis using ue pa by (auto simp: frames_def pte intro!: exI [of _ a])
    next
      assume "x \<in> frames s pd"
      then obtain va where v: "x = PTE_ADDR (pte_of s pd va)" "user (pte_of s pd va)" by (auto simp: frames_def)
      then have "pg va \<noteq> a" using a(2) pte_of_page [of va a s pd] pa by (auto simp: user_def)
      then show ?thesis using v by (auto simp: frames_def pte intro!: exI [of _ va])
    qed
  qed
  have ok': "as_ok kend s' qs pd"
  proof -
    have "\<forall>f \<in> frames s' pd. page_ok kend f \<and> f \<notin> set qs \<and> f \<notin> pt_pages s' pd"
      using ok p by (auto simp: fr pp as_ok_def owned_def)
    moreover have "pg va = pg vb" if "user (pte_of s' pd va)" "user (pte_of s' pd vb)"
        "PTE_ADDR (pte_of s' pd va) = PTE_ADDR (pte_of s' pd vb)" for va vb
    proof -
      have n: "PTE_ADDR (pte_of s pd vc) \<noteq> p" if "user (pte_of s pd vc)" for vc
        using as_okD(7) [OF ok that] p(3) by (auto simp: owned_def)
      show ?thesis
        using that frame_unique [OF ok, of va vb] n [of va] n [of vb] ue(2)
        unfolding pte by (cases "pg va = a"; cases "pg vb = a") auto
    qed
    ultimately show ?thesis using k(1) by (auto simp: as_ok_def)
  qed
  have "touches (pt_pages s pd \<union> set (p # qs)) s s'"
    using t2 k(4) same_tables(3) [OF as_okD(1) [OF ok], of s2] same by (auto simp: touches_def owned_def)
  then show "grows kend s (p # qs) pd s' qs"
    using ok' by (auto simp: grows_def owned_def fr pp)
  show "mem s' x = mem s2 x" if "pg x = p" for x
  proof -
    have "pg (slot s2 pd a) \<in> pt_pages s2 pd" using pt_ok_table(2,5) [OF pt2 pde2] by simp
    then have "pg (slot s2 pd a) \<noteq> p" using p(3) f(3) same_tables(3) [OF as_okD(1) [OF ok], of s2] same by (auto simp: owned_def)
    then show ?thesis using that by (auto simp: rs(2) poke_def)
  qed
qed

text \<open>The pages \<open>A\<close> have been added with the words \<open>c\<close>; nothing else has changed.\<close>

definition extends ::
  "u32 \<Rightarrow> kmem \<Rightarrow> u32 list \<Rightarrow> u32 \<Rightarrow> u32 set \<Rightarrow> (u32 \<Rightarrow> u32) \<Rightarrow> kmem \<Rightarrow> u32 list \<Rightarrow> bool" where
  "extends kend s ps pd A c s' ps' =
     (grows kend s ps pd s' ps' \<and> (\<forall>va. pde_at s' pd va = pde_at s pd va)
      \<and> (\<forall>va. if pg va \<in> A then user (pte_of s' pd va) \<and> uword s' pd va = c va else pte_of s' pd va = pte_of s pd va))"

lemma grows_uword:
  assumes "grows kend s ps pd s' ps'" and ok: "as_ok kend s ps pd" and u: "user (pte_of s pd va)"
    and "pte_of s' pd va = pte_of s pd va"
  shows "uword s' pd va = uword s pd va"
proof -
  have "pg (phys_addr s pd va) \<notin> pt_pages s pd \<union> set ps"
    using pg_phys_addr [OF u ok] as_okD(5,6) [OF ok u] by simp
  then show ?thesis using assms(1,4) by (simp add: grows_def touches_def uword_def phys_addr_def)
qed

lemma extends_refl: "as_ok kend s ps pd \<Longrightarrow> extends kend s ps pd {} c s ps"
  by (simp add: extends_def grows_refl)

lemma kmem_rep_touches:
  assumes "kmem_rep kend s ps" and "touches A s s'" and "A \<inter> set ps = {}" and "freelist s' = freelist s"
  shows "kmem_rep kend s' ps"
proof -
  have "mem s' p = mem s p" if "p \<in> set ps" for p
  proof -
    have "pg p = p" using assms(1) that by (intro pg_of_aligned page_ok_aligned) (auto simp: kmem_rep_def)
    then show ?thesis using assms(2,3) that by (auto simp: touches_def)
  qed
  then have "flist (mem s') h ps = flist (mem s) h ps" for h by (rule flist_cong)
  then show ?thesis using assms(1,4) by (simp add: kmem_rep_def)
qed

text \<open>\<open>kalloc\<close> returned \<open>p\<close>; \<open>s2\<close> is the state in which the page has been filled with the words \<open>c\<close>.\<close>

lemma extends_page:
  assumes ok: "as_ok kend s ps pd" and k: "kalloc s = (p, s1)" and p: "p \<noteq> 0"
    and s2: "touches {p} s1 s2" "freelist s2 = freelist s1" "\<And>va. pg va = a \<Longrightarrow> mem s2 (p + va mod 4096) = c va"
    and a: "a mod 4096 = 0" "\<not> present (pte_of s pd a)" "present (pde_at s pd a)"
  shows "\<exists>s' ps'. mappages pd a PGSIZE p (PTE_W OR PTE_U) s2 = (0, s')
     \<and> extends kend s ps pd {a} c s' ps' \<and> ps = p # ps'"
proof -
  obtain qs where q: "ps = p # qs" "page_ok kend p" "kmem_rep kend s1 qs" "mem s1 = mem s"
    using kalloc_cases [OF as_okD(2) [OF ok] k] p by auto
  have al: "p mod 4096 = 0" and "p \<notin> set qs" using as_okD(2) [OF ok] q(1,2) by (auto simp: kmem_rep_def intro: page_ok_aligned)
  then have rep: "kmem_rep kend s2 qs" by (intro kmem_rep_touches [OF q(3) s2(1) _ s2(2)]) simp
  have t: "touches {p} s s2" using s2(1) by (simp add: touches_def q(4))
  obtain r s' where m: "mappages pd a PGSIZE p (PTE_W OR PTE_U) s2 = (r, s')"
    by (cases "mappages pd a PGSIZE p (PTE_W OR PTE_U) s2")
  note u = map_user [OF ok [unfolded q(1)] rep t a(1,2,3) m]
  have "uword s' pd va = c va" if "pg va = a" for va
  proof -
    have "phys_addr s' pd va = p + va mod 4096" using u(3) that user_entry(2) [OF al] by (simp add: phys_addr_def)
    then show ?thesis using u(4) pg_add(1) [OF al mod_4096_less] s2(3) [OF that] by (simp add: uword_def)
  qed
  then have "extends kend s ps pd {a} c s' qs"
    using u(2,3,5) user_entry(1) [OF al] by (simp add: extends_def q(1))
  then show ?thesis using m u(1) q(1) by auto
qed

lemma kalloc_page:
  assumes "as_ok kend s ps pd" and "kalloc s = (p, s1)" and "p \<noteq> 0"
  shows "p mod 4096 = 0" and "mem s1 = mem s" and "p \<in> set ps" and "p \<notin> owned s pd"
  using kalloc_cases [OF as_okD(2) [OF assms(1)] assms(2)] assms(3) as_okD(3) [OF assms(1)]
  by (auto intro: page_ok_aligned)

lemma grows_trans: "grows kend s ps pd s' ps' \<Longrightarrow> grows kend s' ps' pd s'' ps'' \<Longrightarrow> as_ok kend s ps pd \<Longrightarrow>
    pt_pages s' pd \<subseteq> pt_pages s pd \<union> set ps \<Longrightarrow> grows kend s ps pd s'' ps''"
  unfolding grows_def by (intro conjI; (elim conjE)?; (rule touches_trans, assumption, assumption)?) auto

lemma pt_pages_pde: "(\<And>va. pde_at s' pd va = pde_at s pd va) \<Longrightarrow> pt_pages s' pd = pt_pages s pd"
  by (simp add: pt_pages_def tables_def)

lemma extends_trans:
  assumes 1: "extends kend s ps pd A c s' ps'" and 2: "extends kend s' ps' pd B c s'' ps''"
    and ok: "as_ok kend s ps pd" and dis: "A \<inter> B = {}"
  shows "extends kend s ps pd (A \<union> B) c s'' ps''"
proof -
  have pp: "pt_pages s' pd = pt_pages s pd" using 1 by (intro pt_pages_pde) (simp add: extends_def)
  have g: "grows kend s ps pd s'' ps''"
    by (rule grows_trans [of _ s ps pd s' ps']) (use 1 2 ok pp in \<open>auto simp: extends_def\<close>)
  have ok': "as_ok kend s' ps' pd" using 1 by (simp add: extends_def grows_def)
  have "uword s'' pd va = c va \<and> user (pte_of s'' pd va)" if a: "pg va \<in> A" for va
  proof -
    have "pg va \<notin> B" using a dis by auto
    then have e: "pte_of s'' pd va = pte_of s' pd va" using 2 by (simp add: extends_def)
    have u: "user (pte_of s' pd va)" "uword s' pd va = c va" using 1 a by (simp_all add: extends_def)
    moreover have "grows kend s' ps' pd s'' ps''" using 2 by (simp add: extends_def)
    ultimately show ?thesis using grows_uword [OF _ ok' u(1) e] e by simp
  qed
  then show ?thesis using g 1 2 by (auto simp: extends_def)
qed

lemma alloc_loop:
  assumes "as_ok kend s ps pd" and "distinct as"
    and "\<forall>a \<in> set as. a mod 4096 = 0 \<and> \<not> present (pte_of s pd a) \<and> present (pde_at s pd a)"
  shows "(\<exists>s' ps'. allocuvm_loop kend pd oldsz newsz as s = Inr (newsz, s') \<and> extends kend s ps pd (set as) (\<lambda>_. 0) s' ps'
            \<and> length ps' + length as = length ps)
       \<or> (\<exists>s' A. A \<subseteq> set as \<and> extends kend s ps pd A (\<lambda>_. 0) s' [] \<and> length ps < length as \<and>
            allocuvm_loop kend pd oldsz newsz as s = bindE (deallocuvm kend pd newsz oldsz s') (\<lambda>(r, s2). Inr (0, s2)))"
  using assms
proof (induction as arbitrary: s ps)
  case Nil
  then show ?case using extends_refl [OF Nil(1)] by auto
next
  case (Cons a as)
  obtain p s1 where k: "kalloc s = (p, s1)" by (cases "kalloc s")
  show ?case
  proof (cases "p = 0")
    case True
    then have "ps = []" "s1 = s" using kalloc_cases [OF as_okD(2) [OF Cons(2)] k] by auto
    then show ?thesis using True k extends_refl [OF Cons(2)] by (auto intro!: exI [of _ s] exI [of _ "{}"])
  next
    case False
    have al: "p mod 4096 = 0" by (rule kalloc_page [OF Cons(2) k False])
    have z: "touches {p} s1 (zero_page p s1)" "mem (zero_page p s1) (p + va mod 4096) = 0" for va
      using pg_add(1) [OF al mod_4096_less] by (simp_all add: touches_def mem_zero_page [OF al])
    obtain s2 qs where 2: "mappages pd a PGSIZE p (PTE_W OR PTE_U) (zero_page p s1) = (0, s2)"
        "extends kend s ps pd {a} (\<lambda>_. 0) s2 qs" "ps = p # qs"
      using extends_page [OF Cons(2) k False z(1) _ z(2), of a] Cons(4) by (auto simp: zero_page_def)
    have ok2: "as_ok kend s2 qs pd" using 2(2) by (simp add: extends_def grows_def)
    have h: "\<forall>b \<in> set as. b mod 4096 = 0 \<and> \<not> present (pte_of s2 pd b) \<and> present (pde_at s2 pd b)"
    proof
      fix b assume b: "b \<in> set as"
      then have "pg b = b" "b \<noteq> a" "pg b \<notin> {a}" using Cons(3,4) by auto
      then have "pte_of s2 pd b = pte_of s pd b" "pde_at s2 pd b = pde_at s pd b" using 2(2) unfolding extends_def by metis+
      then show "b mod 4096 = 0 \<and> \<not> present (pte_of s2 pd b) \<and> present (pde_at s2 pd b)" using Cons(4) b by simp
    qed
    have l: "allocuvm_loop kend pd oldsz newsz (a # as) s = allocuvm_loop kend pd oldsz newsz as s2"
      using False by (simp add: k 2(1))
    note t = extends_trans [OF 2(2) _ Cons(2)]
    have "distinct as" using Cons(3) by simp
    from Cons.IH [OF ok2 this h] show ?thesis
    proof (elim disjE exE conjE)
      fix s' ps' assume "allocuvm_loop kend pd oldsz newsz as s2 = Inr (newsz, s')" "extends kend s2 qs pd (set as) (\<lambda>_. 0) s' ps'"
         "length ps' + length as = length qs"
      then show ?thesis using l t [of "set as" s' ps'] Cons(3) 2(3) by (intro disjI1) auto
    next
      fix s' A assume "A \<subseteq> set as" "extends kend s2 qs pd A (\<lambda>_. 0) s' []" "length qs < length as"
        "allocuvm_loop kend pd oldsz newsz as s2 = bindE (deallocuvm kend pd newsz oldsz s') (\<lambda>(r, s2). Inr (0, s2))"
      then show ?thesis using l t [of A s' "[]"] Cons(3) 2(3)
        by (intro disjI2 exI [of _ s'] exI [of _ "insert a A"]) auto
    qed
  qed
qed

text \<open>At a page that is mapped already the loop gives up: the pages before it stay, and one page is lost.\<close>

lemma alloc_loop_append:
  "allocuvm_loop kend pd old new xs s = Inr (new, s1) \<Longrightarrow> new \<noteq> 0
     \<Longrightarrow> allocuvm_loop kend pd old new (xs @ zs) s = allocuvm_loop kend pd old new zs s1"
  by (induction xs arbitrary: s) (auto simp: Let_def bindE_eq_Inr_iff split: prod.splits if_splits)

lemma mappages_mapped:
  assumes ok: "pt_ok kend s ps pd" and a: "a mod 4096 = 0" "present (pte_of s pd a)"
  shows "mappages pd a PGSIZE p perm s = (-1, s)"
proof -
  have pde: "present (pde_at s pd a)" using a(2) by (auto simp: pte_of_def split: if_splits)
  then have "walkpgdir pd a True s = (slot s pd a, s)" by (simp add: walkpgdir_def Let_def pde_at_def slot_def)
  moreover have "present (mem s (slot s pd a))" using a(2) pde by (simp add: pte_of_def)
  ultimately show ?thesis using pt_ok_table(6) [OF ok pde] by (simp add: mappages_page [OF a(1)] mappages_loop.simps)
qed

lemma alloc_stops:
  assumes ok: "as_ok kend s ps pd" and d: "distinct (xs @ a # ys)"
    and xs: "\<forall>x \<in> set xs. x mod 4096 = 0 \<and> \<not> present (pte_of s pd x) \<and> present (pde_at s pd x)"
    and a: "a mod 4096 = 0" "present (pte_of s pd a)" and n: "length xs < length ps" and nz: "new \<noteq> 0"
  shows "\<exists>p s' ps'. allocuvm_loop kend pd old new (xs @ a # ys) s = Inr (0, s') \<and> as_ok kend s' ps' pd
     \<and> p \<in> set ps \<and> p \<notin> owned s' pd \<union> set ps' \<and> insert p (owned s' pd \<union> set ps') = owned s pd \<union> set ps
     \<and> (\<forall>va. if pg va \<in> set xs then user (pte_of s' pd va) \<and> uword s' pd va = 0
          else view s' pd va = view s pd va \<and> (user (pte_of s pd va) \<longrightarrow> uword s' pd va = uword s pd va))"
proof -
  have "distinct xs" using d by simp
  from alloc_loop [OF ok this xs, of old new] n obtain s1 ps1 where
      1: "allocuvm_loop kend pd old new xs s = Inr (new, s1)" "extends kend s ps pd (set xs) (\<lambda>_. 0) s1 ps1" "length ps1 + length xs = length ps"
    by auto
  have g: "grows kend s ps pd s1 ps1" and ok1: "as_ok kend s1 ps1 pd" using 1(2) by (simp_all add: extends_def grows_def)
  obtain p qs where q: "ps1 = p # qs" using 1(3) n by (cases ps1) auto
  have rep1: "kmem_rep kend s1 (p # qs)" using as_okD(2) [OF ok1] q by simp
  obtain s2 where k: "kalloc s1 = (p, s2)" "kmem_rep kend s2 qs" "mem s2 = mem s1" using kalloc_rep_Cons [OF rep1] by blast
  have p: "page_ok kend p" "p \<notin> set qs" "p \<noteq> 0" using rep1 page_ok_nonzero [OF rep1] by (auto simp: kmem_rep_def)
  have po: "p \<notin> owned s1 pd" using as_okD(3) [OF ok1] q by auto
  define s3 where "s3 = zero_page p s2"
  have same: "mem s3 x = mem s1 x" if "pg x \<noteq> p" for x
    using that mem_zero_page [OF page_ok_aligned [OF p(1)], of s2 x] by (simp add: s3_def k(3))
  have t: "mem s3 x = mem s1 x" if "pg x \<in> owned s1 pd" for x using same [of x] po that by auto
  have rep3: "kmem_rep kend s3 qs" unfolding s3_def by (rule kmem_rep_zero [OF k(2) p(1,2)])
  have "owned s1 pd \<inter> set qs = {}" using as_okD(3) [OF ok1] q by auto
  note f = as_frame [OF ok1 t rep3 this]
  have "pg a \<notin> set xs" using d a(1) by simp
  then have "pte_of s1 pd a = pte_of s pd a" using 1(2) by (simp add: extends_def)
  then have "present (pte_of s3 pd a)" using a(2) f(2) by simp
  note m = mappages_mapped [OF as_okD(1) [OF f(1)] a(1) this]
  have run: "allocuvm_loop kend pd old new (xs @ a # ys) s = Inr (0, s3)"
    unfolding alloc_loop_append [OF 1(1) nz] using k(1) p(3) m by (simp add: s3_def [symmetric])
  have own: "owned s3 pd = owned s1 pd" by (rule f(3))
  have vw: "view s3 pd va = view s1 pd va" for va by (rule f(4))
  have uw: "user (pte_of s1 pd va) \<Longrightarrow> uword s3 pd va = uword s1 pd va" for va by (rule f(5))
  have "if pg va \<in> set xs then user (pte_of s3 pd va) \<and> uword s3 pd va = 0
      else view s3 pd va = view s pd va \<and> (user (pte_of s pd va) \<longrightarrow> uword s3 pd va = uword s pd va)" for va
  proof (cases "pg va \<in> set xs")
    case True
    then show ?thesis using 1(2) uw f(2) by (simp add: extends_def)
  next
    case False
    then have e: "pte_of s1 pd va = pte_of s pd va" using 1(2) by (simp add: extends_def)
    then show ?thesis using False uw [of va] vw grows_uword [OF g ok _ e] by (simp add: view_def)
  qed
  moreover have "insert p (owned s3 pd \<union> set qs) = owned s pd \<union> set ps" "p \<notin> owned s3 pd \<union> set qs"
    using g own q po p(2) by (auto simp: grows_def)
  moreover have "p \<in> set ps" using g q by (auto simp: grows_def)
  ultimately show ?thesis using run f(1) by blast
qed

subsection \<open>Removing pages\<close>

lemma kfree_touches: "kfree kend p s = Inr s' \<Longrightarrow> p mod 4096 = 0 \<Longrightarrow> touches {p} s s'"
  using pg_of_aligned [of p]
  by (auto simp: kfree_def touches_def fill_page_def PGSIZE_def in_page_iff simp del: pg_of_aligned split: if_splits)

text \<open>The user pages in \<open>A\<close> have been unmapped and freed.\<close>

definition shrinks :: "u32 \<Rightarrow> kmem \<Rightarrow> u32 list \<Rightarrow> u32 \<Rightarrow> u32 set \<Rightarrow> kmem \<Rightarrow> u32 list \<Rightarrow> bool" where
  "shrinks kend s ps pd A s' ps' =
     (as_ok kend s' ps' pd \<and> owned s' pd \<subseteq> owned s pd \<and> owned s' pd \<union> set ps' = owned s pd \<union> set ps
      \<and> touches (owned s pd) s s' \<and> (\<forall>va. pde_at s' pd va = pde_at s pd va)
      \<and> (\<forall>va. view s' pd va = (if pg va \<in> A then None else view s pd va))
      \<and> (\<forall>va. user (pte_of s pd va) \<and> pg va \<notin> A \<longrightarrow> uword s' pd va = uword s pd va))"

lemma shrinks_refl:
  assumes "as_ok kend s ps pd" and "\<And>va. pg va \<in> A \<Longrightarrow> \<not> present (pte_of s pd va)"
  shows "shrinks kend s ps pd A s ps"
  using assms by (simp add: shrinks_def view_def)

lemma shrinks_user:
  "shrinks kend s ps pd A s' ps' \<Longrightarrow> user (pte_of s pd va) \<Longrightarrow> pg va \<notin> A \<Longrightarrow> pte_of s' pd va = pte_of s pd va"
  unfolding shrinks_def view_def user_def by (metis option.inject option.distinct(1))

lemma shrinks_trans:
  assumes 1: "shrinks kend s ps pd A s' ps'" and 2: "shrinks kend s' ps' pd B s'' ps''"
  shows "shrinks kend s ps pd (A \<union> B) s'' ps''"
proof -
  have "touches (owned s pd) s s''"
    by (rule touches_trans [of _ s s']) (use 1 2 in \<open>auto simp: shrinks_def\<close>)
  moreover have "uword s'' pd va = uword s pd va" if "user (pte_of s pd va)" "pg va \<notin> A \<union> B" for va
    using 1 2 that shrinks_user [OF 1 that(1)] by (simp add: shrinks_def)
  ultimately show ?thesis using 1 2 unfolding shrinks_def by auto
qed

lemma free_page:
  assumes ok: "as_ok kend s ps pd" and u: "user (pte_of s pd a)"
  defines "pa \<equiv> PTE_ADDR (pte_of s pd a)"
  shows "\<exists>s1. kfree kend pa s = Inr s1 \<and> shrinks kend s ps pd {pg a} (poke (slot s pd a) 0 s1) (pa # ps)"
proof -
  note pk = as_okD(4) [OF ok u, folded pa_def] as_okD(5) [OF ok u, folded pa_def] as_okD(6) [OF ok u, folded pa_def]
  have al: "pa mod 4096 = 0" by (rule page_ok_aligned [OF pk(1)])
  have prs: "present (pde_at s pd a)" using u by (simp add: user_def pte_of_def split: if_splits)
  obtain s1 where k: "kfree kend pa s = Inr s1" "kmem_rep kend s1 (pa # ps)"
    using kfree_rep [OF as_okD(2) [OF ok] pk(1,2)] by blast
  have t: "touches {pa} s s1" by (rule kfree_touches [OF k(1) al])
  have same: "mem s1 x = mem s x" if "pg x \<in> pt_pages s pd" for x using t pk(3) that by (auto simp: touches_def)
  note st = same_tables [OF as_okD(1) [OF ok] same]
  have pt1: "pt_ok kend s1 (pa # ps) pd"
    by (rule pt_ok_frame [OF as_okD(1) [OF ok] same k(2)]) (use as_okD(1) [OF ok] pk(3) in \<open>auto simp: pt_ok_def\<close>)
  have prs1: "present (pde_at s1 pd a)" using prs by (simp add: st(1))
  define s' where "s' = poke (slot s1 pd a) 0 s1"
  have sl: "slot s1 pd a = slot s pd a" by (simp add: slot_def st(1))
  note w = poke_slot [OF pt1 prs1, of 0, folded s'_def]
  have pte: "pte_of s' pd vb = (if pg vb = pg a then 0 else pte_of s pd vb)" for vb by (simp add: w(2) st(2))
  have pp: "pt_pages s' pd = pt_pages s pd" by (simp add: w(3) st(3))
  have up: "user (pte_of s' pd vb) \<longleftrightarrow> pg vb \<noteq> pg a \<and> user (pte_of s pd vb)" for vb
    by (simp add: pte user_def)
  have fr: "frames s' pd = frames s pd - {pa}"
  proof (intro set_eqI iffI)
    fix x assume "x \<in> frames s' pd"
    then obtain vb where "x = PTE_ADDR (pte_of s' pd vb)" "user (pte_of s' pd vb)" unfolding frames_def by blast
    then have v: "x = PTE_ADDR (pte_of s pd vb)" "pg vb \<noteq> pg a" "user (pte_of s pd vb)"
      using up [of vb] pte [of vb] by auto
    then show "x \<in> frames s pd - {pa}" using frame_unique [OF ok v(3) u] by (auto simp: frames_def pa_def)
  next
    fix x assume "x \<in> frames s pd - {pa}"
    then obtain vb where v: "x = PTE_ADDR (pte_of s pd vb)" "user (pte_of s pd vb)" "x \<noteq> pa" by (auto simp: frames_def)
    then have "pg vb \<noteq> pg a" using pte_of_page [of vb a s pd] by (auto simp: pa_def)
    then show "x \<in> frames s' pd" using v by (auto simp: frames_def up pte intro!: exI [of _ vb])
  qed
  have ok': "as_ok kend s' (pa # ps) pd"
  proof -
    have "\<forall>f \<in> frames s' pd. page_ok kend f \<and> f \<notin> set (pa # ps) \<and> f \<notin> pt_pages s' pd"
      using ok by (auto simp: fr pp as_ok_def)
    moreover have "pg va = pg vb" if "user (pte_of s' pd va)" "user (pte_of s' pd vb)"
        "PTE_ADDR (pte_of s' pd va) = PTE_ADDR (pte_of s' pd vb)" for va vb
    proof -
      have "pg va \<noteq> pg a \<and> user (pte_of s pd va)" "pg vb \<noteq> pg a \<and> user (pte_of s pd vb)" using that up by blast+
      then show ?thesis using that(3) frame_unique [OF ok, of va vb] by (simp add: pte)
    qed
    ultimately show ?thesis using w(1) by (auto simp: as_ok_def)
  qed
  have inf: "pa \<in> frames s pd" unfolding pa_def by (rule as_okD(7) [OF ok u])
  have tt: "touches (pt_pages s pd \<union> {pa}) s s'"
    using t w(4) by (auto simp: touches_def st(3))
  have uw: "uword s' pd va = uword s pd va" if x: "user (pte_of s pd va)" "pg va \<noteq> pg a" for va
  proof -
    have "pg (phys_addr s pd va) \<notin> pt_pages s pd \<union> {pa}"
      using pg_phys_addr [OF x(1) ok] as_okD(6) [OF ok x(1)] frame_unique [OF ok x(1) u] x(2) by (auto simp: pa_def)
    then show ?thesis using tt x(2) by (simp add: touches_def uword_def phys_addr_def pte)
  qed
  have "shrinks kend s ps pd {pg a} s' (pa # ps)"
    unfolding shrinks_def
  proof (intro conjI)
    show "touches (owned s pd) s s'" by (rule touches_mono [OF tt]) (use inf in \<open>auto simp: owned_def\<close>)
    show "\<forall>va. pde_at s' pd va = pde_at s pd va" by (simp add: w(5) st(1))
    show "\<forall>va. view s' pd va = (if pg va \<in> {pg a} then None else view s pd va)" by (simp add: view_def pte)
    show "\<forall>va. user (pte_of s pd va) \<and> pg va \<notin> {pg a} \<longrightarrow> uword s' pd va = uword s pd va" using uw by simp
    show "owned s' pd \<union> set (pa # ps) = owned s pd \<union> set ps" using inf by (auto simp: owned_def fr pp)
  qed (use ok' in \<open>auto simp: owned_def fr pp\<close>)
  then show ?thesis using k(1) by (simp add: s'_def sl)
qed

lemma dealloc_loop:
  assumes "as_ok kend s ps pd" and "\<forall>a \<in> set as. a mod 4096 = 0 \<and> (present (pte_of s pd a) \<longrightarrow> user (pte_of s pd a))"
  shows "\<exists>s' ps'. deallocuvm_loop kend pd as s = Inr s' \<and> shrinks kend s ps pd (set as) s' ps'"
  using assms
proof (induction as arbitrary: s ps)
  case Nil
  then show ?case using shrinks_refl [of kend s ps pd "{}"] by auto
next
  case (Cons a as)
  define pte where "pte = fst (walkpgdir pd a False s)"
  note w = walk_present [OF as_okD(1) [OF Cons(2)] pte_def]
  have step: "\<exists>s1 qs. deallocuvm_loop kend pd (a # as) s = deallocuvm_loop kend pd as s1 \<and> shrinks kend s ps pd {a} s1 qs"
  proof (cases "present (pte_of s pd a)")
    case True
    then have u: "user (pte_of s pd a)" using Cons(3) by simp
    have nz: "PTE_ADDR (pte_of s pd a) \<noteq> 0" by (rule page_ok_nonzero [OF as_okD(2,4) [OF Cons(2)]]) (rule u)
    have "pg a = a" using Cons(3) by simp
    then obtain s1 where "kfree kend (PTE_ADDR (pte_of s pd a)) s = Inr s1"
        "shrinks kend s ps pd {a} (poke (slot s pd a) 0 s1) (PTE_ADDR (pte_of s pd a) # ps)"
      using free_page [OF Cons(2) u] by auto
    then show ?thesis using w True nz by (auto simp: Let_def pte_def [symmetric])
  next
    case False
    have "pg a = a" using Cons(3) by simp
    then have "\<not> present (pte_of s pd va)" if "pg va \<in> {a}" for va
      using False pte_of_page [of va a s pd] that by simp
    then have "shrinks kend s ps pd {a} s ps" by (rule shrinks_refl [OF Cons(2)])
    then show ?thesis using w False by (auto simp: Let_def pte_def [symmetric])
  qed
  then obtain s1 qs where 1: "deallocuvm_loop kend pd (a # as) s = deallocuvm_loop kend pd as s1" "shrinks kend s ps pd {a} s1 qs"
    by blast
  have ok1: "as_ok kend s1 qs pd" using 1(2) by (simp add: shrinks_def)
  have h: "\<forall>b \<in> set as. b mod 4096 = 0 \<and> (present (pte_of s1 pd b) \<longrightarrow> user (pte_of s1 pd b))"
  proof
    fix b assume b: "b \<in> set as"
    have "present (pte_of s1 pd b) \<longrightarrow> pte_of s1 pd b = pte_of s pd b"
      using 1(2) by (auto simp: shrinks_def view_def split: if_splits)
    then show "b mod 4096 = 0 \<and> (present (pte_of s1 pd b) \<longrightarrow> user (pte_of s1 pd b))" using Cons(3) b by auto
  qed
  from Cons.IH [OF ok1 h] obtain s' ps' where "deallocuvm_loop kend pd as s1 = Inr s'" "shrinks kend s1 qs pd (set as) s' ps'"
    by blast
  with shrinks_trans [OF 1(2) this(2)] 1(1) show ?case by auto
qed

subsection \<open>The pages of a range\<close>

lemma PGROUNDUP_small:
  assumes "a \<le> USERTOP"
  shows "unat (PGROUNDUP a) = (unat a + 4095) div 4096 * 4096" and "PGROUNDUP a mod 4096 = 0"
    and "a \<le> PGROUNDUP a" and "PGROUNDUP a \<le> USERTOP"
proof -
  have a: "unat a \<le> 655360" using assms by (simp add: USERTOP_def word_le_nat_alt)
  then have "uint a \<le> 655360" unfolding uint_nat by linarith
  then have "uint (PGROUNDUP a) = (uint a + 4095) div 4096 * 4096" by (intro uint_PGROUNDUP) simp
  then have "int (unat (PGROUNDUP a)) = int ((unat a + 4095) div 4096 * 4096)" unfolding uint_nat by (simp add: zdiv_int)
  then show r: "unat (PGROUNDUP a) = (unat a + 4095) div 4096 * 4096" by (simp only: of_nat_eq_iff)
  show "PGROUNDUP a mod 4096 = 0" unfolding unat_aligned r by simp
  show "a \<le> PGROUNDUP a" unfolding word_le_nat_alt r by linarith
  have "(unat a + 4095) div 4096 \<le> (655360 + 4095) div 4096" using a by (intro div_le_mono) simp
  then have "(unat a + 4095) div 4096 * 4096 \<le> 655360" by simp
  then show "PGROUNDUP a \<le> USERTOP" by (simp add: USERTOP_def word_le_nat_alt r)
qed

lemma page_range:
  assumes lo: "lo mod 4096 = 0" and hi: "hi \<le> USERTOP"
  shows "set (page_range lo hi) = {a. a mod 4096 = 0 \<and> lo \<le> a \<and> a < hi}" and "distinct (page_range lo hi)"
proof -
  define n where "n = (unat hi - unat lo + 4095) div 4096"
  have hi': "unat hi \<le> 655360" using hi by (simp add: USERTOP_def word_le_nat_alt)
  have bnd: "unat lo + 4096 * k < unat hi" if "k < n" for k using that unfolding n_def by linarith
  have u: "unat (lo + of_nat (4096 * k)) = unat lo + 4096 * k" if "k < n" for k
  proof -
    have "unat (of_nat (4096 * k) :: u32) = 4096 * k" using bnd [OF that] hi' by (intro unat_of_nat_small) simp
    then show ?thesis using unat_add_small [of lo "of_nat (4096 * k)"] bnd [OF that] hi' by linarith
  qed
  show "distinct (page_range lo hi)"
    unfolding page_range_def n_def [symmetric] distinct_map
  proof (intro conjI inj_onI)
    fix x y assume "x \<in> set [0..<n]" "y \<in> set [0..<n]" "lo + of_nat (4096 * x) = lo + of_nat (4096 * y)"
    then show "x = y" using u [of x] u [of y] by simp
  qed simp
  show "set (page_range lo hi) = {a. a mod 4096 = 0 \<and> lo \<le> a \<and> a < hi}"
  proof (intro set_eqI iffI)
    fix a assume "a \<in> set (page_range lo hi)"
    then obtain k where k: "k < n" "a = lo + of_nat (4096 * k)"
      unfolding page_range_def n_def [symmetric] by auto
    have a: "unat a = unat lo + 4096 * k" by (simp only: k(2) u [OF k(1)])
    have "unat a mod 4096 = 0" using lo unfolding unat_aligned a by simp
    then show "a \<in> {a. a mod 4096 = 0 \<and> lo \<le> a \<and> a < hi}"
      using bnd [OF k(1)] by (simp add: unat_aligned word_le_nat_alt word_less_nat_alt a)
  next
    fix a assume "a \<in> {a. a mod 4096 = 0 \<and> lo \<le> a \<and> a < hi}"
    then have a: "unat a mod 4096 = 0" "unat lo \<le> unat a" "unat a < unat hi" "unat lo mod 4096 = 0"
      using lo by (simp_all only: mem_Collect_eq unat_aligned word_le_nat_alt word_less_nat_alt)
    define k where "k = (unat a - unat lo) div 4096"
    have e: "unat a = unat lo + 4096 * k"
    proof -
      obtain i j where ij: "unat a = 4096 * i" "unat lo = 4096 * j" using a(1,4) by (auto simp: mod_eq_0_iff_dvd elim!: dvdE)
      then have "k = i - j" "j \<le> i" using a(2) by (simp_all add: k_def diff_mult_distrib2 [symmetric])
      then show ?thesis by (simp add: ij diff_mult_distrib2)
    qed
    then have "k < n" using a(3) unfolding n_def by linarith
    moreover from u [OF this] have "a = lo + of_nat (4096 * k)" by (simp only: word_unat_eq_iff e)
    ultimately show "a \<in> set (page_range lo hi)" unfolding page_range_def n_def [symmetric] by auto
  qed
qed

lemma PDX_user: "a < USERTOP \<Longrightarrow> PDX a = 0"
proof -
  assume "a < USERTOP"
  then have "unat a < 4194304" by (simp add: USERTOP_def word_less_nat_alt)
  then have "drop_bit 22 (unat a) = 0" by (simp add: drop_bit_eq_div)
  then have "unat (drop_bit 22 a) = 0" by (simp only: unat_drop_bit_eq)
  then show ?thesis unfolding PDX_def by (simp only: unat_eq_0) simp
qed

lemma pg_le: "pg a \<le> a"
  by (simp add: PGROUNDDOWN_mod word_le_nat_alt unat_mod unat_sub)

subsection \<open>\<open>allocuvm\<close> and \<open>deallocuvm\<close>\<close>

lemma in_page_range:
  "lo \<le> USERTOP \<Longrightarrow> hi \<le> USERTOP \<Longrightarrow> pg va \<in> set (page_range (PGROUNDUP lo) hi) \<longleftrightarrow> PGROUNDUP lo \<le> pg va \<and> pg va < hi"
  by (simp add: page_range(1) PGROUNDUP_small(2))

lemma allocuvm_result:
  assumes ok: "as_ok kend s ps pd" and sz: "old \<le> new" "new \<le> USERTOP" and kvm: "present (pde_at s pd 0)"
    and free: "\<forall>va. PGROUNDUP old \<le> va \<and> va < new \<longrightarrow> view s pd va = None"
  defines "as \<equiv> page_range (PGROUNDUP old) new"
  shows "(\<exists>s' ps'. allocuvm kend pd old new s = Inr (new, s') \<and> length as \<le> length ps \<and> extends kend s ps pd (set as) (\<lambda>_. 0) s' ps')
       \<or> (\<exists>s' ps'. allocuvm kend pd old new s = Inr (0, s') \<and> length ps < length as \<and> as_ok kend s' ps' pd
           \<and> owned s' pd \<union> set ps' = owned s pd \<union> set ps
           \<and> (\<forall>va. view s' pd va = view s pd va \<and> (user (pte_of s pd va) \<longrightarrow> uword s' pd va = uword s pd va)))"
proof -
  have old: "old \<le> USERTOP" using sz by simp
  note as = page_range [OF PGROUNDUP_small(2) [OF old] sz(2), folded as_def]
  have h: "\<forall>a \<in> set as. a mod 4096 = 0 \<and> \<not> present (pte_of s pd a) \<and> present (pde_at s pd a)"
  proof
    fix a assume "a \<in> set as"
    then have a: "a mod 4096 = 0" "PGROUNDUP old \<le> a" "a < new" by (simp_all add: as(1))
    then have "PDX a = 0" using PDX_user [of a] sz(2) by simp
    moreover have "PDX 0 = 0" by (simp add: PDX_def)
    ultimately have "pde_at s pd a = pde_at s pd 0" by (simp add: pde_at_def)
    then show "a mod 4096 = 0 \<and> \<not> present (pte_of s pd a) \<and> present (pde_at s pd a)"
      using a kvm free [rule_format, of a] by (simp add: view_def split: if_splits)
  qed
  have e: "allocuvm kend pd old new s = allocuvm_loop kend pd old new as s"
    using sz by (auto simp: allocuvm_def as_def)
  from alloc_loop [OF ok as(2) h, of old new] show ?thesis
  proof (elim disjE exE conjE)
    fix s' ps' assume "allocuvm_loop kend pd old new as s = Inr (new, s')" "extends kend s ps pd (set as) (\<lambda>_. 0) s' ps'" "length ps' + length as = length ps"
    then show ?thesis by (intro disjI1) (auto simp: e)
  next
    fix s1 A assume A: "A \<subseteq> set as" and x: "extends kend s ps pd A (\<lambda>_. 0) s1 []" and l: "length ps < length as"
      and r: "allocuvm_loop kend pd old new as s = bindE (deallocuvm kend pd new old s1) (\<lambda>(r, s2). Inr (0, s2))"
    have g: "grows kend s ps pd s1 []" and ok1: "as_ok kend s1 [] pd" using x by (simp_all add: extends_def grows_def)
    have p1: "present (pte_of s1 pd va) \<longrightarrow> user (pte_of s1 pd va)" if "pg va \<in> set as" for va
    proof (cases "pg va \<in> A")
      case True
      then show ?thesis using x by (simp add: extends_def)
    next
      case False
      have "\<not> present (pte_of s pd (pg va))" using h that by blast
      then show ?thesis using False x pte_of_page [of "pg va" va s pd] by (simp add: extends_def)
    qed
    have h1: "\<forall>a \<in> set as. a mod 4096 = 0 \<and> (present (pte_of s1 pd a) \<longrightarrow> user (pte_of s1 pd a))"
      using h p1 by simp
    obtain s2 ps2 where 2: "deallocuvm_loop kend pd as s1 = Inr s2" "shrinks kend s1 [] pd (set as) s2 ps2"
      using dealloc_loop [OF ok1 h1] by blast
    have "as \<noteq> []" using l by auto
    then have "\<exists>a. a \<in> set as" by (cases as) auto
    then have "old < new" using PGROUNDUP_small(3) [OF old] by (auto simp: as(1))
    then have res: "allocuvm kend pd old new s = Inr (0, s2)"
      using 2(1) by (simp add: e r deallocuvm_def as_def [symmetric])
    have v: "view s2 pd va = view s pd va \<and> (user (pte_of s pd va) \<longrightarrow> uword s2 pd va = uword s pd va)" for va
    proof (cases "pg va \<in> set as")
      case True
      then have "\<not> present (pte_of s pd (pg va))" using h by blast
      then have "\<not> present (pte_of s pd va)" using pte_of_page [of "pg va" va s pd] by simp
      then show ?thesis using 2(2) True by (simp add: shrinks_def view_def user_def)
    next
      case False
      then have "pg va \<notin> A" using A by blast
      then have e1: "pte_of s1 pd va = pte_of s pd va" using x by (simp add: extends_def)
      then show ?thesis using 2(2) False grows_uword [OF g ok _ e1] by (simp add: shrinks_def view_def)
    qed
    have "owned s2 pd \<union> set ps2 = owned s pd \<union> set ps" "as_ok kend s2 ps2 pd"
      using g 2(2) by (simp_all add: grows_def shrinks_def)
    then show ?thesis using res l v by blast
  qed
qed

lemma deallocuvm_result:
  assumes ok: "as_ok kend s ps pd" and sz: "new \<le> old" "old \<le> USERTOP"
    and u: "\<And>va. PGROUNDUP new \<le> va \<Longrightarrow> va < old \<Longrightarrow> present (pte_of s pd va) \<Longrightarrow> user (pte_of s pd va)"
  shows "\<exists>s' ps'. deallocuvm kend pd old new s = Inr (new, s')
     \<and> shrinks kend s ps pd (set (page_range (PGROUNDUP new) old)) s' ps'"
proof (cases "new = old")
  case True
  then have "page_range (PGROUNDUP new) old = []"
    using page_range(1) [OF PGROUNDUP_small(2) sz(2), of new] PGROUNDUP_small(3) [OF sz(2)] sz(2)
    by (metis (no_types, lifting) Collect_empty_eq leD order_trans set_empty)
  then show ?thesis using shrinks_refl [OF ok, of "{}"] True by (auto simp: deallocuvm_def)
next
  case False
  then have lt: "new < old" using sz by simp
  have new: "new \<le> USERTOP" using sz by simp
  note as = page_range [OF PGROUNDUP_small(2) [OF new] sz(2)]
  have "\<forall>a \<in> set (page_range (PGROUNDUP new) old). a mod 4096 = 0 \<and> (present (pte_of s pd a) \<longrightarrow> user (pte_of s pd a))"
    using u by (simp add: as(1))
  from dealloc_loop [OF ok this] show ?thesis using lt by (auto simp: deallocuvm_def)
qed

subsection \<open>Properties\<close>


text \<open>A small machine: the directory at \<open>0x1000\<close>, one table at \<open>0x2000\<close>, one user page, one free page.\<close>

definition tiny_space :: kmem where
  "tiny_space = \<lparr>mem = (\<lambda>a. if a = 0x1000 then 0x2007 else if a = 0x2000 then 0x3007 else if a = 0x3000 then 42 else 0),
     freelist = 0x4000\<rparr>"

lemma tiny_pte:
  "pde_at tiny_space 0x1000 va = (if PDX va = 0 then 0x2007 else 0)"
  "pte_of tiny_space 0x1000 va = (if pg va = 0 then 0x3007 else 0)"
proof -
  have 1: "pg (0x1000 + 4 * PDX va) = 0x1000" for va by (rule pg_index) simp
  have 2: "pg (0x2000 + 4 * PTX va) = 0x2000" by (rule pg_index) simp
  have pg: "pg 0x1000 = 0x1000" "pg 0x2000 = 0x2000" "pg 0x3000 = 0x3000" by simp_all
  have i: "4 * x = 0 \<longleftrightarrow> x = 0" if "x < 1024" for x :: u32 using times4_inj [OF that, of 0] by simp
  have e: "0x1000 + 4 * PDX vb = 0x1000 \<longleftrightarrow> PDX vb = 0" "0x2000 + 4 * PTX vb = 0x2000 \<longleftrightarrow> PTX vb = 0" for vb
    using i PDX_less by simp_all
  have ne_pg: "x \<noteq> y" if "pg x \<noteq> pg y" for x y using that by auto
  have ne: "0x1000 + 4 * PDX vb \<noteq> 0x2000" "0x1000 + 4 * PDX vb \<noteq> 0x3000" "0x2000 + 4 * PTX va \<noteq> 0x1000"
      "0x2000 + 4 * PTX va \<noteq> 0x3000" for vb
    by (rule ne_pg, simp add: 1 2 pg del: pg_of_aligned)+
  show p: "pde_at tiny_space 0x1000 vb = (if PDX vb = 0 then 0x2007 else 0)" for vb
    using ne(1) [of vb] ne(2) [of vb] e(1) [of vb] by (simp add: tiny_space_def pde_at_def)
  have "PTE_ADDR 0x2007 = 0x2000" "present 0x2007" by (simp_all add: PTE_ADDR_def present_def PTE_P_def)
  moreover have "pg va = 0 \<longleftrightarrow> PDX va = 0 \<and> PTX va = 0" using same_page_iff [of va 0] by (simp add: PDX_def PTX_def)
  ultimately show "pte_of tiny_space 0x1000 va = (if pg va = 0 then 0x3007 else 0)"
    using ne e(2) [of va] by (simp add: pte_of_def slot_def p) (simp add: tiny_space_def)
qed

lemma tiny_space_ok: "as_ok 0x1000 tiny_space [0x4000] 0x1000" "present (pde_at tiny_space 0x1000 0)"
  "owned tiny_space 0x1000 = {0x1000, 0x2000, 0x3000}"
proof -
  have f: "PTE_ADDR 0x2007 = 0x2000" "PTE_ADDR 0x3007 = 0x3000" "present 0x2007" "user 0x3007"
    by (simp_all add: PTE_ADDR_def user_def present_def PTE_P_def PTE_U_def)
  have pd0: "PDX 0 = 0" "pg 0 = 0" by (simp_all add: PDX_def)
  show "present (pde_at tiny_space 0x1000 0)" by (simp add: tiny_pte pd0 f)
  have t: "tables tiny_space 0x1000 = {0x2000}"
    unfolding tables_def tiny_pte by (auto simp: f intro: exI [of _ 0] simp: pd0)
  have fr: "frames tiny_space 0x1000 = {0x3000}"
    unfolding frames_def tiny_pte by (auto simp: f user_def [of 0] intro: exI [of _ 0] simp: pd0)
  show "owned tiny_space 0x1000 = {0x1000, 0x2000, 0x3000}" by (auto simp: owned_def pt_pages_def t fr)
  have "kmem_rep 0x1000 tiny_space [0x4000]"
    by (simp add: kmem_rep_def tiny_space_def page_ok_def PGSIZE_def PHYSTOP_def)
  then have "pt_ok 0x1000 tiny_space [0x4000] 0x1000"
    unfolding pt_ok_def pt_pages_def t by (auto simp: tiny_pte page_ok_def PGSIZE_def PHYSTOP_def split: if_splits)
  then show "as_ok 0x1000 tiny_space [0x4000] 0x1000"
    unfolding as_ok_def pt_pages_def fr t by (auto simp: tiny_pte page_ok_def PGSIZE_def PHYSTOP_def user_def split: if_splits)
qed


end
