(* ===== verification/VmFork.thy ===== *)
theory VmFork
  imports VmSpace
begin

text \<open>
  Making and destroying address spaces: the kernel part that \<open>setupkvm\<close> maps, the copy that
  \<open>copyuvm\<close> makes for \<open>fork\<close>, and \<open>freevm\<close>, which gives every page back.
\<close>

subsection \<open>The kernel part\<close>

lemma frames_empty: "frames s pd = {} \<longleftrightarrow> (\<forall>va. \<not> user (pte_of s pd va))"
  by (auto simp: frames_def)

lemma kernel_entry:
  assumes "pa mod 4096 = 0" and "\<not> bit perm 2"
  shows "\<not> user (pa OR perm OR PTE_P)"
proof -
  have "\<not> bit pa 2" using bit_pg [of pa 2] assms(1) by simp
  then show ?thesis using assms(2) by (simp add: user_def user_bit bit_or_iff bit_flags)
qed

lemma map_kernel:
  assumes "pt_ok kend s ps pd" and "mappages_loop pd n a pa perm s = (r, s')" and "a mod 4096 = 0" and "pa mod 4096 = 0"
    and "unat a + 4096 * n < 2 ^ 32" and "\<not> bit perm 2" and "frames s pd = {}"
  shows "\<exists>ps'. pt_step kend s ps pd s' ps' \<and> frames s' pd = {} \<and> (r = 0 \<or> r = -1)
     \<and> (\<forall>va. pg va < a \<longrightarrow> pte_of s' pd va = pte_of s pd va) \<and> (r = 0 \<longrightarrow> present (pte_of s' pd a))"
  using assms
proof (induction n arbitrary: a pa s ps)
  case 0
  from 0(1,2) show ?case
  proof (cases rule: map_one)
    case (fail ps')
    then show ?thesis using 0(7) by (auto simp: frames_empty)
  next
    case (mapped ps')
    have "\<not> user (pa OR perm OR PTE_P)" by (rule kernel_entry) (use 0 in auto)
    then show ?thesis using mapped 0(3,7) by (intro exI [of _ ps']) (auto simp: frames_empty present_bit bit_or_iff bit_flags)
  qed
next
  case (Suc n)
  obtain r1 s1 where m: "mappages_loop pd 0 a pa perm s = (r1, s1)" by (cases "mappages_loop pd 0 a pa perm s")
  from Suc.prems(1) m show ?case
  proof (cases rule: map_one)
    case (fail ps')
    then show ?thesis using Suc.prems(2,7) m by (auto simp: mappages_loop_Suc frames_empty)
  next
    case (mapped qs)
    have l: "mappages_loop pd n (a + PGSIZE) (pa + PGSIZE) perm s1 = (r, s')"
      using Suc.prems(2) m mapped(1) by (simp add: mappages_loop_Suc)
    have nu: "\<not> user (pa OR perm OR PTE_P)" by (rule kernel_entry) (use Suc.prems in auto)
    have fr: "frames s1 pd = {}" using Suc.prems(7) nu mapped(4) by (auto simp: frames_empty)
    have ua: "unat (a + PGSIZE) = unat a + 4096"
      using Suc.prems(5) unat_add_small [of a PGSIZE] by (simp add: PGSIZE_def)
    have al: "(a + PGSIZE) mod 4096 = 0" "(pa + PGSIZE) mod 4096 = 0"
      using Suc.prems(3,4) by (simp_all add: unat_aligned unat_add_mod PGSIZE_def)
    have b: "unat (a + PGSIZE) + 4096 * n < 2 ^ 32" using Suc.prems(5) by (simp add: ua)
    from Suc.IH [OF pt_step_ok [OF mapped(2)] l al b Suc.prems(6) fr]
    obtain ps' where i: "pt_step kend s1 qs pd s' ps'" "frames s' pd = {}" "r = 0 \<or> r = -1"
        "\<forall>va. pg va < a + PGSIZE \<longrightarrow> pte_of s' pd va = pte_of s1 pd va" by blast
    have lt: "a < a + PGSIZE" by (simp add: word_less_nat_alt ua)
    have "present (pte_of s' pd a)" using i(4) lt Suc.prems(3) mapped(4) by (simp add: present_bit bit_or_iff bit_flags)
    moreover have "pte_of s' pd va = pte_of s pd va" if "pg va < a" for va
      using that lt i(4) mapped(4) Suc.prems(3) by auto
    ultimately show ?thesis using pt_step_trans [OF mapped(2) i(1)] i(2,3) by blast
  qed
qed

lemma mappages_range:
  assumes al: "p mod 4096 = 0" "e mod 4096 = 0" and lt: "p \<le> e - 4096"
  obtains n where "mappages pd p (e - p) p perm s = mappages_loop pd n p p perm s" "unat p + 4096 * n = unat (e - 4096)"
proof -
  have e4: "(e - 4096) mod 4096 = 0"
  proof -
    have "unat (e - 4096 + 4096) mod 4096 = (unat (e - 4096) + unat (4096 :: u32)) mod 4096" by (rule unat_add_mod) simp
    then have "unat (e - 4096) mod 4096 = 0" using al(2) by (simp add: unat_aligned)
    then show ?thesis by (simp add: unat_aligned)
  qed
  have "pg (e - 4096 + 4095) = e - 4096" by (rule pg_add(1) [OF e4]) (simp add: word_less_nat_alt)
  moreover have "p + (e - p) - 1 = e - 4096 + 4095" by simp
  ultimately have last: "pg (p + (e - p) - 1) = e - 4096" by (simp only:)
  have "mappages pd p (e - p) p perm s = mappages_loop pd (unat (e - 4096 - p) div 4096) p p perm s"
    unfolding mappages_def Let_def by (simp only: last pg_of_aligned [OF al(1)])
  moreover have "unat (e - 4096 - p) = unat (e - 4096) - unat p" using lt by (simp add: unat_sub)
  moreover obtain i j where "unat p = 4096 * i" "unat (e - 4096) = 4096 * j"
    using al(1) e4 unfolding unat_aligned by (auto simp: mod_eq_0_iff_dvd elim!: dvdE)
  ultimately show ?thesis using that lt by (simp add: word_le_nat_alt diff_mult_distrib2 [symmetric])
qed

lemma map_kernel_range:
  assumes ok: "pt_ok kend s ps pd" and m: "mappages pd p (e - p) p perm s = (r, s')" and al: "p mod 4096 = 0" "e mod 4096 = 0"
    and lt: "p \<le> e - 4096" and perm: "\<not> bit perm 2" and fr: "frames s pd = {}"
  shows "\<exists>ps'. pt_step kend s ps pd s' ps' \<and> frames s' pd = {} \<and> (r = 0 \<or> r = -1)
     \<and> (\<forall>va. pg va < p \<longrightarrow> pte_of s' pd va = pte_of s pd va) \<and> (r = 0 \<longrightarrow> present (pte_of s' pd p))"
proof -
  obtain n where n: "mappages pd p (e - p) p perm s = mappages_loop pd n p p perm s" "unat p + 4096 * n = unat (e - 4096)"
    by (rule mappages_range [OF al lt])
  then have "unat p + 4096 * n < 2 ^ 32" using unat_u32_less [of "e - 4096"] by simp
  then show ?thesis using map_kernel [OF ok m [unfolded n(1)] al(1) al(1) _ perm fr] by blast
qed

definition kernel_map :: "u32 \<Rightarrow> bool" where
  "kernel_map kdata = (kdata mod 4096 = 0 \<and> 0x100000 < kdata \<and> kdata < PHYSTOP)"

lemma aligned_step:
  assumes "p mod 4096 = 0" and "e mod 4096 = 0" and "(p :: u32) < e"
  shows "p \<le> e - 4096"
proof -
  obtain i j where ij: "unat p = 4096 * i" "unat e = 4096 * j"
    using assms(1,2) unfolding unat_aligned by (auto simp: mod_eq_0_iff_dvd elim!: dvdE)
  then have lt: "i < j" using assms(3) by (simp add: word_less_nat_alt)
  then have "4096 \<le> e" using ij by (simp add: word_le_nat_alt)
  then have "unat (e - 4096) = unat e - 4096" by (simp add: unat_sub)
  then show ?thesis using ij lt by (simp add: word_le_nat_alt)
qed

lemma setup_loop:
  assumes "pt_ok kend s ps pd" and "frames s pd = {}" and "setupkvm_loop pd ks s = (d, s')"
    and "\<forall>(p, e, perm) \<in> set ks. p mod 4096 = 0 \<and> e mod 4096 = 0 \<and> p \<le> e - 4096 \<and> \<not> bit perm 2 \<and> lo < p"
  shows "\<exists>ps'. pt_step kend s ps pd s' ps' \<and> frames s' pd = {} \<and> (d = 0 \<or> d = pd)
     \<and> (\<forall>va. pg va \<le> lo \<longrightarrow> pte_of s' pd va = pte_of s pd va)"
  using assms
proof (induction ks arbitrary: s ps)
  case Nil
  then show ?case using pt_step_refl [OF Nil(1)] by auto
next
  case (Cons k ks)
  obtain p e perm where k: "k = (p, e, perm)" by (cases k)
  obtain r s1 where m: "mappages pd p (e - p) p perm s = (r, s1)" by (cases "mappages pd p (e - p) p perm s")
  have pr: "p mod 4096 = 0" "e mod 4096 = 0" "p \<le> e - 4096" "\<not> bit perm 2" "lo < p" using Cons.prems(4) by (auto simp: k)
  obtain qs where 1: "pt_step kend s ps pd s1 qs" "frames s1 pd = {}" "r = 0 \<or> r = -1"
      "\<forall>va. pg va < p \<longrightarrow> pte_of s1 pd va = pte_of s pd va"
    using map_kernel_range [OF Cons.prems(1) m pr(1-4) Cons.prems(2)] by blast
  have eq: "pte_of s1 pd va = pte_of s pd va" if "pg va \<le> lo" for va using 1(4) pr(5) that by simp
  show ?case
  proof (cases "r = 0")
    case False
    then show ?thesis using 1 m Cons.prems(3) eq by (auto simp: k)
  next
    case True
    then have "setupkvm_loop pd ks s1 = (d, s')" using Cons.prems(3) m by (simp add: k)
    from Cons.IH [OF pt_step_ok [OF 1(1)] 1(2) this] Cons.prems(4)
    obtain ps' where "pt_step kend s1 qs pd s' ps'" "frames s' pd = {}" "d = 0 \<or> d = pd"
        "\<forall>va. pg va \<le> lo \<longrightarrow> pte_of s' pd va = pte_of s1 pd va" by auto
    with pt_step_trans [OF 1(1) this(1)] eq show ?thesis by (intro exI [of _ ps']) auto
  qed
qed

lemma empty_directory:
  assumes rep: "kmem_rep kend s1 qs" and pd: "page_ok kend pd" "pd \<notin> set qs"
  defines "s \<equiv> zero_page pd s1"
  shows "pt_ok kend s qs pd" and "pte_of s pd va = 0" and "pt_pages s pd = {pd}"
proof -
  have al: "pd mod 4096 = 0" by (rule page_ok_aligned [OF pd(1)])
  have pde: "pde_at s pd vb = 0" for vb by (simp add: s_def pde_at_def mem_zero_page [OF al] al)
  then show "pte_of s pd va = 0" "pt_pages s pd = {pd}" by (simp_all add: pte_of_def pt_pages_def tables_def)
  moreover have "kmem_rep kend s qs" unfolding s_def by (rule kmem_rep_zero [OF rep pd])
  ultimately show "pt_ok kend s qs pd" using pd by (simp add: pt_ok_def tables_def pde)
qed

lemma setupkvm_result:
  assumes rep: "kmem_rep kend s ps" and kd: "kernel_map kdata" and c: "setupkvm kdata s = (d, s')"
  shows "\<exists>ps'. kmem_rep kend s' ps' \<and> set ps' \<subseteq> set ps \<and> touches (set ps) s s' \<and> (d = 0 \<or>
     as_ok kend s' ps' d \<and> frames s' d = {} \<and> present (pde_at s' d 0) \<and> owned s' d \<union> set ps' = set ps
     \<and> (\<forall>va. pg va < USERTOP \<longrightarrow> pte_of s' d va = 0))"
proof -
  obtain pd s1 where k: "kalloc s = (pd, s1)" by (cases "kalloc s")
  show ?thesis
  proof (cases "pd = 0")
    case True
    then show ?thesis using c k kalloc_cases [OF rep k] rep by (auto simp: setupkvm_def)
  next
    case False
    obtain qs where q: "ps = pd # qs" "page_ok kend pd" "kmem_rep kend s1 qs" "mem s1 = mem s"
      using kalloc_cases [OF rep k] False by auto
    have nin: "pd \<notin> set qs" using rep by (simp add: q(1) kmem_rep_def)
    have al: "pd mod 4096 = 0" by (rule page_ok_aligned [OF q(2)])
    define z where "z = zero_page pd s1"
    note em = empty_directory [OF q(3,2) nin, folded z_def]
    have fz: "frames z pd = {}" by (simp add: frames_empty em(2) user_def)
    have tz: "touches {pd} s z" by (simp add: touches_def z_def mem_zero_page [OF al] q(4))
    obtain r s2 where m: "mappages pd USERTOP (0x100000 - USERTOP) USERTOP PTE_W z = (r, s2)"
      by (cases "mappages pd USERTOP (0x100000 - USERTOP) USERTOP PTE_W z")
    have u: "USERTOP mod 4096 = 0" "(0x100000 :: u32) mod 4096 = 0" "USERTOP \<le> 0x100000 - 4096" "\<not> bit PTE_W 2"
      by (simp_all add: USERTOP_def bit_flags)
    obtain rs where 1: "pt_step kend z qs pd s2 rs" "frames s2 pd = {}" "r = 0 \<or> r = -1"
        "\<forall>va. pg va < USERTOP \<longrightarrow> pte_of s2 pd va = pte_of z pd va" "r = 0 \<longrightarrow> present (pte_of s2 pd USERTOP)"
      using map_kernel_range [OF em(1) m u fz] by blast
    define ks where "ks = [(0x100000, kdata, 0), (kdata, PHYSTOP, PTE_W), (0xFE000000, 0, PTE_W)]"
    have loop: "setupkvm_loop pd (kmap kdata) z = (if r < 0 then (0, s2) else setupkvm_loop pd ks s2)"
      by (simp add: kmap_def m ks_def)
    have c': "setupkvm_loop pd (kmap kdata) z = (d, s')" using c k False by (simp add: setupkvm_def z_def)
    have ksp: "\<forall>(p, e, perm) \<in> set ks. p mod 4096 = 0 \<and> e mod 4096 = 0 \<and> p \<le> e - 4096 \<and> \<not> bit perm 2 \<and> USERTOP < p"
    proof -
      have "0x100000 \<le> kdata - 4096" "kdata \<le> PHYSTOP - 4096"
        using kd aligned_step [of "0x100000" kdata] aligned_step [of kdata PHYSTOP]
        unfolding kernel_map_def by (simp_all add: PHYSTOP_def)
      moreover have "USERTOP < kdata" using kd by (auto simp: kernel_map_def USERTOP_def intro: order.strict_trans [of _ "0x100000"])
      ultimately show ?thesis using kd by (simp add: ks_def kernel_map_def PHYSTOP_def USERTOP_def bit_flags)
    qed
    have fin: ?thesis if st: "pt_step kend z qs pd s' ps'" "frames s' pd = {}" "d = 0 \<or> d = pd"
        "d \<noteq> 0 \<longrightarrow> present (pte_of s' pd USERTOP) \<and> (\<forall>va. pg va < USERTOP \<longrightarrow> pte_of s' pd va = 0)" for ps'
    proof -
      have sub: "set ps' \<subseteq> set qs" "pt_pages s' pd \<union> set ps' = insert pd (set qs)" "touches (insert pd (set qs)) z s'"
        using st(1) em(3) by (auto simp: pt_step_def)
      have t: "touches (set ps) s s'" by (rule touches_trans [OF touches_mono [OF tz] sub(3)]) (auto simp: q(1))
      have "\<not> user (pte_of s' pd va)" for va using st(2) by (simp add: frames_empty)
      then have ok: "as_ok kend s' ps' pd" using pt_step_ok [OF st(1)] st(2) by (simp add: as_ok_def)
      have "present (pde_at s' pd 0)" if "d \<noteq> 0"
      proof -
        have "present (pde_at s' pd USERTOP)" using st(4) that by (auto simp: pte_of_def split: if_splits)
        moreover have "PDX USERTOP = PDX 0" by (simp add: PDX_def USERTOP_def)
        ultimately show ?thesis by (simp add: pde_at_def)
      qed
      then show ?thesis
        using st ok t sub as_okD(2) [OF ok] by (intro exI [of _ ps']) (auto simp: q(1) owned_def)
    qed
    show ?thesis
    proof (cases "r = 0")
      case False
      then have "d = 0" "s' = s2" using 1(3) c' loop by auto
      then show ?thesis using fin [of rs] 1(1,2) by simp
    next
      case True
      then have "setupkvm_loop pd ks s2 = (d, s')" using c' loop by simp
      from setup_loop [OF pt_step_ok [OF 1(1)] 1(2) this ksp]
      obtain ps' where 2: "pt_step kend s2 rs pd s' ps'" "frames s' pd = {}" "d = 0 \<or> d = pd"
        "\<forall>va. pg va \<le> USERTOP \<longrightarrow> pte_of s' pd va = pte_of s2 pd va" by blast
      have "pg USERTOP = USERTOP" using u(1) by simp
      then show ?thesis using fin [OF pt_step_trans [OF 1(1) 2(1)] 2(2,3)] 2(4) 1(4,5) True em(2) by auto
    qed
  qed
qed

subsection \<open>The copy for \<open>fork\<close>\<close>

lemma extends_cong:
  "extends kend s ps pd A c s' ps' \<Longrightarrow> (\<And>va. pg va \<in> A \<Longrightarrow> c va = c' va) \<Longrightarrow> extends kend s ps pd A c' s' ps'"
  by (simp add: extends_def)

text \<open>An address space \<open>pd\<close> beside the one that grows is not touched.\<close>

lemma beside_grows:
  assumes ok: "as_ok kend s ps pd" and g: "grows kend s ps d s' ps'" and dis: "owned s pd \<inter> owned s d = {}"
  shows "as_ok kend s' ps' pd" and "pte_of s' pd va = pte_of s pd va" and "owned s' pd \<inter> owned s' d = {}"
    and "view s' pd va = view s pd va" and "user (pte_of s pd va) \<Longrightarrow> uword s' pd va = uword s pd va"
    and "owned s' pd = owned s pd"
proof -
  have same: "mem s' a = mem s a" if "pg a \<in> owned s pd" for a
  proof -
    have "pg a \<notin> pt_pages s d \<union> set ps" using that dis as_okD(3) [OF ok] by (auto simp: owned_def)
    then show ?thesis using g by (simp add: grows_def touches_def)
  qed
  have rep: "kmem_rep kend s' ps'" using g as_okD(2) by (auto simp: grows_def)
  have d: "owned s pd \<inter> set ps' = {}" using g as_okD(3) [OF ok] by (auto simp: grows_def)
  note f = as_frame [OF ok same rep d]
  show "as_ok kend s' ps' pd" and "pte_of s' pd va = pte_of s pd va" and "view s' pd va = view s pd va"
    and "user (pte_of s pd va) \<Longrightarrow> uword s' pd va = uword s pd va" and o: "owned s' pd = owned s pd" by (rule f; assumption?)+
  show "owned s' pd \<inter> owned s' d = {}"
    using g dis as_okD(3) [OF ok] unfolding o grows_def by blast
qed

lemma copy_loop:
  assumes "as_ok kend s ps pd" and "as_ok kend s ps d" and "owned s pd \<inter> owned s d = {}" and "distinct is"
    and "\<forall>i \<in> set is. i mod 4096 = 0 \<and> user (pte_of s pd i) \<and> \<not> present (pte_of s d i) \<and> present (pde_at s d i)"
  shows "\<exists>b s' ps' A. copyuvm_loop d pd is s = Inr (b, s') \<and> A \<subseteq> set is \<and> (b \<longrightarrow> A = set is) \<and> (b \<longleftrightarrow> length is \<le> length ps)
     \<and> extends kend s ps d A (uword s pd) s' ps'"
  using assms
proof (induction "is" arbitrary: s ps)
  case Nil
  then show ?case using extends_refl [OF Nil(2)] by fastforce
next
  case (Cons a as)
  have a: "a mod 4096 = 0" "user (pte_of s pd a)" "\<not> present (pte_of s d a)" "present (pde_at s d a)" using Cons.prems(5) by auto
  define pte where "pte = fst (walkpgdir pd a False s)"
  have w: "pte \<noteq> 0" "present (mem s pte)" "mem s pte = pte_of s pd a"
    using walk_present [OF as_okD(1) [OF Cons.prems(1)] pte_def] a(2) by (auto simp: user_def)
  define pa where "pa = PTE_ADDR (pte_of s pd a)"
  obtain p s1 where k: "kalloc s = (p, s1)" by (cases "kalloc s")
  show ?case
  proof (cases "p = 0")
    case True
    then have "ps = []" "s1 = s" using kalloc_cases [OF as_okD(2) [OF Cons.prems(1)] k] by auto
    then show ?thesis
      using True k w extends_refl [OF Cons.prems(2)]
      by (intro exI [of _ False] exI [of _ s] exI [of _ ps] exI [of _ "{}"]) (simp add: Let_def pte_def [symmetric])
  next
    case False
    note kp = kalloc_page [OF Cons.prems(1) k False]
    have t: "touches {p} s1 (copy_page p pa s1)" by (simp add: touches_def mem_copy_page [OF kp(1)])
    have cp: "mem (copy_page p pa s1) (p + va mod 4096) = uword s pd va" if "pg va = a" for va
    proof -
      have "pte_of s pd va = pte_of s pd a" by (rule pte_of_page) (use that a(1) in simp)
      then show ?thesis
        using pg_add(1) [OF kp(1) mod_4096_less] kp(2) by (simp add: mem_copy_page [OF kp(1)] uword_def phys_addr_def pa_def)
    qed
    obtain s2 qs where 2: "mappages d a PGSIZE p (PTE_W OR PTE_U) (copy_page p pa s1) = (0, s2)"
        "extends kend s ps d {a} (uword s pd) s2 qs" "ps = p # qs"
      using extends_page [OF Cons.prems(2) k False t _ cp, of a] a by (auto simp: copy_page_def)
    have g: "grows kend s ps d s2 qs" using 2(2) by (simp add: extends_def)
    note b = beside_grows [OF Cons.prems(1) g Cons.prems(3)]
    have ok2: "as_ok kend s2 qs d" using g by (simp add: grows_def)
    have h: "\<forall>i \<in> set as. i mod 4096 = 0 \<and> user (pte_of s2 pd i) \<and> \<not> present (pte_of s2 d i) \<and> present (pde_at s2 d i)"
    proof
      fix i assume i: "i \<in> set as"
      then have "pg i \<notin> {a}" using Cons.prems(4,5) by auto
      then have "pte_of s2 d i = pte_of s d i" "pde_at s2 d i = pde_at s d i" using 2(2) unfolding extends_def by metis+
      then show "i mod 4096 = 0 \<and> user (pte_of s2 pd i) \<and> \<not> present (pte_of s2 d i) \<and> present (pde_at s2 d i)"
        using Cons.prems(5) i by (simp add: b(2))
    qed
    have "distinct as" using Cons.prems(4) by simp
    from Cons.IH [OF b(1) ok2 b(3) this h] obtain ok s' ps' A where r: "copyuvm_loop d pd as s2 = Inr (ok, s')" "A \<subseteq> set as"
        "ok \<longrightarrow> A = set as" "ok \<longleftrightarrow> length as \<le> length qs" "extends kend s2 qs d A (uword s2 pd) s' ps'" by blast
    have "extends kend s2 qs d A (uword s pd) s' ps'"
    proof (rule extends_cong [OF r(5)])
      fix va assume "pg va \<in> A"
      then have "user (pte_of s pd (pg va))" using r(2) Cons.prems(5) by auto
      then have "user (pte_of s pd va)" using pte_of_page [of "pg va" va s pd] by simp
      then show "uword s2 pd va = uword s pd va" by (rule b(5))
    qed
    moreover have "{a} \<inter> A = {}" using r(2) Cons.prems(4) by auto
    ultimately have "extends kend s ps d ({a} \<union> A) (uword s pd) s' ps'"
      by (rule extends_trans [OF 2(2) _ Cons.prems(2)])
    moreover have "copyuvm_loop d pd (a # as) s = Inr (ok, s')"
      using w k False 2(1) r(1) by (simp add: Let_def pte_def [symmetric] pa_def)
    ultimately show ?thesis
      using r(2-4) 2(3) by (intro exI [of _ ok] exI [of _ s'] exI [of _ ps'] exI [of _ "insert a A"]) auto
  qed
qed

subsection \<open>Giving everything back\<close>

lemma index_in_page: "i < 1024 \<Longrightarrow> pd mod 4096 = 0 \<Longrightarrow> pg (pd + 4 * of_nat i) = pd"
proof -
  assume i: "i < 1024" and pd: "pd mod 4096 = 0"
  have "(of_nat i :: u32) < 1024" using i by (simp add: word_less_nat_alt unat_of_nat_small)
  then show ?thesis by (intro pg_add(1) [OF pd] times4_less)
qed

definition entries :: "(nat \<Rightarrow> u32) \<Rightarrow> nat \<Rightarrow> nat set" where
  "entries e n = {i. 1024 - n \<le> i \<and> i < 1024 \<and> present (e i)}"

lemma free_tables_result:
  assumes "kmem_rep kend s ps" and "n \<le> 1024" and "\<And>i. i < 1024 \<Longrightarrow> mem s (pd + 4 * of_nat i) = e i"
    and "pd mod 4096 = 0" and "inj_on (\<lambda>i. PTE_ADDR (e i)) (entries e n)"
    and "\<And>i. i \<in> entries e n \<Longrightarrow> page_ok kend (PTE_ADDR (e i)) \<and> PTE_ADDR (e i) \<notin> set ps \<and> PTE_ADDR (e i) \<noteq> pd"
  shows "\<exists>s' ps'. free_tables kend pd n s = Inr s' \<and> kmem_rep kend s' ps'
     \<and> touches ((\<lambda>i. PTE_ADDR (e i)) ` entries e n) s s' \<and> set ps' = set ps \<union> (\<lambda>i. PTE_ADDR (e i)) ` entries e n"
  using assms
proof (induction n arbitrary: s ps)
  case 0
  have "entries e 0 = {}" by (auto simp: entries_def)
  then show ?case using 0(1) by auto
next
  case (Suc n)
  let ?i = "1023 - n" let ?t = "\<lambda>i. PTE_ADDR (e i)"
  have i: "?i < 1024" and n: "n \<le> 1024" using Suc.prems(2) by auto
  have m: "mem s (pd + 4 * of_nat ?i) = e ?i" by (rule Suc.prems(3) [OF i])
  have sub: "entries e n \<subseteq> entries e (Suc n)" by (auto simp: entries_def)
  show ?case
  proof (cases "present (e ?i)")
    case False
    have en: "entries e (Suc n) = entries e n"
    proof -
      have "x \<noteq> ?i \<and> 1024 - Suc n \<le> x \<longleftrightarrow> x \<noteq> ?i \<and> 1024 - n \<le> x" for x by auto
      then show ?thesis using False unfolding entries_def by (intro Collect_cong) metis
    qed
    have "free_tables kend pd (Suc n) s = free_tables kend pd n s" using m False by (simp only: free_tables.simps Let_def if_False)
    moreover note Suc.IH [OF Suc.prems(1) n Suc.prems(3,4) Suc.prems(5) [unfolded en] Suc.prems(6) [unfolded en]]
    ultimately show ?thesis unfolding en by (simp only:)
  next
    case True
    have ei: "?i \<in> entries e (Suc n)" using True Suc.prems(2) by (auto simp: entries_def)
    have nin: "?i \<notin> entries e n" using Suc.prems(2) by (auto simp: entries_def)
    have en: "entries e (Suc n) = insert ?i (entries e n)" using True Suc.prems(2) by (auto simp: entries_def)
    note p = Suc.prems(6) [OF ei]
    obtain s1 where k: "kfree kend (?t ?i) s = Inr s1" "kmem_rep kend s1 (?t ?i # ps)"
      using kfree_rep [OF Suc.prems(1)] p by blast
    have t: "touches {?t ?i} s s1" by (rule kfree_touches [OF k(1)]) (use p in \<open>auto intro: page_ok_aligned\<close>)
    have same: "mem s1 (pd + 4 * of_nat j) = e j" if "j < 1024" for j
      using t p index_in_page [OF that Suc.prems(4)] Suc.prems(3) [OF that] by (auto simp: touches_def)
    have inj: "inj_on ?t (entries e n)" by (rule inj_on_subset [OF Suc.prems(5) sub])
    have pr: "page_ok kend (?t j) \<and> ?t j \<notin> set (?t ?i # ps) \<and> ?t j \<noteq> pd" if "j \<in> entries e n" for j
    proof -
      have "j \<in> entries e (Suc n)" "j \<noteq> ?i" using that nin sub by auto
      then have "?t j \<noteq> ?t ?i" using inj_onD [OF Suc.prems(5) _ _ ei, of j] by blast
      then show ?thesis using Suc.prems(6) [of j] that sub by auto
    qed
    from Suc.IH [OF k(2) n same Suc.prems(4) inj pr] obtain s' ps' where r: "free_tables kend pd n s1 = Inr s'" "kmem_rep kend s' ps'"
        "touches (?t ` entries e n) s1 s'" "set ps' = set (?t ?i # ps) \<union> ?t ` entries e n" by blast
    have "free_tables kend pd (Suc n) s = Inr s'"
      using m True k(1) r(1) by (simp only: free_tables.simps Let_def if_True bindE_simps)
    moreover have "touches (?t ` entries e (Suc n)) s s1" "touches (?t ` entries e (Suc n)) s1 s'"
      using ei sub by (auto intro: touches_mono [OF t] touches_mono [OF r(3)])
    moreover from touches_trans [OF this order.refl] have "touches (?t ` entries e (Suc n)) s s'" .
    ultimately show ?thesis using r(2,4) by (intro exI [of _ s'] exI [of _ ps']) (auto simp: en)
  qed
qed

text \<open>Without shared pages the second loop of \<open>freevm\<close> does nothing.\<close>

lemma deallocshm_loop_none:
  assumes "pt_ok kend (phys v) ps pd" and "\<forall>a \<in> set as. \<not> present (pte_of (phys v) pd a)"
  shows "deallocshm_loop kend pd as v = Inr v"
  using assms(2)
proof (induction as)
  case (Cons a as)
  then show ?case using walk_present(1) [OF assms(1) refl, of a] by (auto simp: Let_def)
qed simp

lemma PDX_push: "i < 1024 \<Longrightarrow> PDX (push_bit 22 (of_nat i)) = of_nat i"
proof (rule bit_word_eqI)
  fix n assume i: "i < 1024" and "n < LENGTH(32)"
  have "(of_nat i :: u32) = take_bit 10 (of_nat i)"
    using i by (simp only: take_bit_of_nat) (simp add: take_bit_nat_eq_self)
  then have "bit (of_nat i :: u32) n \<longleftrightarrow> n < 10 \<and> bit (of_nat i :: u32) n" by (metis bit_take_bit_iff)
  then show "bit (PDX (push_bit 22 (of_nat i))) n = bit (of_nat i :: u32) n"
    unfolding PDX_def bit_index by (auto simp: bit_simps)
qed

lemma tables_index:
  "tables s pd = (\<lambda>i. PTE_ADDR (mem s (pd + 4 * of_nat i))) ` entries (\<lambda>i. mem s (pd + 4 * of_nat i)) 1024"
proof (intro set_eqI iffI)
  fix x assume "x \<in> tables s pd"
  then obtain va where v: "x = PTE_ADDR (pde_at s pd va)" "present (pde_at s pd va)" by (auto simp: tables_def)
  have "unat (PDX va) < 1024" "of_nat (unat (PDX va)) = PDX va" using PDX_less(1) [of va] by (simp_all add: word_less_nat_alt)
  then show "x \<in> (\<lambda>i. PTE_ADDR (mem s (pd + 4 * of_nat i))) ` entries (\<lambda>i. mem s (pd + 4 * of_nat i)) 1024"
    using v by (intro image_eqI [of _ _ "unat (PDX va)"]) (simp_all add: pde_at_def entries_def)
next
  fix x assume "x \<in> (\<lambda>i. PTE_ADDR (mem s (pd + 4 * of_nat i))) ` entries (\<lambda>i. mem s (pd + 4 * of_nat i)) 1024"
  then obtain i where i: "i < 1024" "x = PTE_ADDR (mem s (pd + 4 * of_nat i))" "present (mem s (pd + 4 * of_nat i))"
    by (auto simp: entries_def)
  have "PDX (push_bit 22 (of_nat i)) = (of_nat i :: u32)"
    by (rule PDX_push [OF i(1)])
  then show "x \<in> tables s pd" using i by (auto simp: tables_def pde_at_def intro!: exI [of _ "push_bit 22 (of_nat i)"])
qed

text \<open>
  \<open>freevm\<close> of an address space that uses no shared pages: all its pages go back to the free list.
\<close>

text \<open>The last part of \<open>freevm\<close>: all page tables and the directory go back to the free list.\<close>

lemma free_all_tables:
  assumes pt1: "pt_ok kend s1 ps1 pd"
  shows "\<exists>s2 s3 ps3. free_tables kend pd 1024 s1 = Inr s2 \<and> kfree kend pd s2 = Inr s3 \<and> kmem_rep kend s3 ps3
     \<and> set ps3 = set ps1 \<union> pt_pages s1 pd \<and> touches (pt_pages s1 pd) s1 s3"
proof -
  have rep1: "kmem_rep kend s1 ps1" using pt1 by (simp add: pt_ok_def)
  let ?e = "\<lambda>i. mem s1 (pd + 4 * of_nat i)"
  have tab: "tables s1 pd = (\<lambda>i. PTE_ADDR (?e i)) ` entries ?e 1024" by (rule tables_index)
  have pr: "page_ok kend (PTE_ADDR (?e i)) \<and> PTE_ADDR (?e i) \<notin> set ps1 \<and> PTE_ADDR (?e i) \<noteq> pd" if "i \<in> entries ?e 1024" for i
  proof -
    have "PTE_ADDR (?e i) \<in> tables s1 pd" using that by (auto simp: tab)
    then show ?thesis using pt1 by (auto simp: pt_ok_def pt_pages_def)
  qed
  have inj: "inj_on (\<lambda>i. PTE_ADDR (?e i)) (entries ?e 1024)"
  proof (rule inj_onI)
    fix i j assume ij: "i \<in> entries ?e 1024" "j \<in> entries ?e 1024" "PTE_ADDR (?e i) = PTE_ADDR (?e j)"
    then have b: "i < 1024" "j < 1024" by (auto simp: entries_def)
    have "PDX (push_bit 22 (of_nat i)) = PDX (push_bit 22 (of_nat j))"
      using ij same_table_index [OF pt1, of "push_bit 22 (of_nat i)" "push_bit 22 (of_nat j)"]
      by (simp add: pde_at_def PDX_push b entries_def)
    then have "unat (of_nat i :: u32) = unat (of_nat j :: u32)" by (simp only: PDX_push [OF b(1)] PDX_push [OF b(2)])
    moreover have "i < 2 ^ 32" "j < 2 ^ 32" using b by auto
    ultimately show "i = j" by (simp only: unat_of_nat_small)
  qed
  obtain s2 ps2 where 2: "free_tables kend pd 1024 s1 = Inr s2" "kmem_rep kend s2 ps2" "touches (tables s1 pd) s1 s2"
      "set ps2 = set ps1 \<union> tables s1 pd"
    using free_tables_result [OF rep1 order.refl refl pt_ok_pd(3) [OF pt1] inj pr] unfolding tab by blast
  have pd: "page_ok kend pd" "pd \<notin> set ps2"
    using pt_ok_pd [OF pt1] pt1 by (auto simp: 2(4) pt_ok_def)
  obtain s3 where 3: "kfree kend pd s2 = Inr s3" "kmem_rep kend s3 (pd # ps2)"
    using kfree_rep [OF 2(2) pd] by blast
  have "touches (pt_pages s1 pd) s2 s3"
    by (rule touches_mono [OF kfree_touches [OF 3(1) pt_ok_pd(3) [OF pt1]]]) (simp add: pt_pages_def)
  moreover have "touches (pt_pages s1 pd) s1 s2" by (rule touches_mono [OF 2(3)]) (auto simp: pt_pages_def)
  ultimately have "touches (pt_pages s1 pd) s1 s3" by (meson touches_trans order.refl)
  moreover have "set (pd # ps2) = set ps1 \<union> pt_pages s1 pd" by (auto simp: 2(4) pt_pages_def)
  ultimately show ?thesis using 2(1) 3 by blast
qed

lemma freevm_result:
  assumes ok: "as_ok kend (phys v) ps pd" and len: "len \<le> USERTOP"
    and low: "\<And>va. pg va < len \<Longrightarrow> present (pte_of (phys v) pd va) \<Longrightarrow> user (pte_of (phys v) pd va)"
    and high: "\<And>va. len \<le> pg va \<Longrightarrow> pg va < USERTOP \<Longrightarrow> \<not> present (pte_of (phys v) pd va)"
    and kernel: "\<And>va. USERTOP \<le> pg va \<Longrightarrow> \<not> user (pte_of (phys v) pd va)"
  shows "\<exists>s' ps'. freevm kend pd len v = Inr (v\<lparr>phys := s'\<rparr>) \<and> kmem_rep kend s' ps'
     \<and> set ps' = set ps \<union> owned (phys v) pd \<and> touches (owned (phys v) pd) (phys v) s'"
proof -
  have nz: "pd \<noteq> 0" by (rule page_ok_nonzero [OF as_okD(2) [OF ok] pt_ok_pd(1) [OF as_okD(1) [OF ok]]])
  have z: "0 mod 4096 = (0 :: u32)" "PGROUNDUP 0 = 0" by (simp_all add: PGROUNDUP_def PGSIZE_def)
  have pg0: "pg va \<in> set (page_range 0 len) \<longleftrightarrow> pg va < len" for va
    by (simp add: page_range(1) [OF z(1) len])
  have u: "user (pte_of (phys v) pd va)" if "va < len" "present (pte_of (phys v) pd va)" for va
    using low [OF _ that(2)] pg_le [of va] that(1) by simp
  obtain s1 ps1 where 1: "deallocuvm kend pd len 0 (phys v) = Inr (0, s1)"
      "shrinks kend (phys v) ps pd (set (page_range 0 len)) s1 ps1"
    using deallocuvm_result [OF ok _ len, of 0] u by (auto simp: z)
  have ok1: "as_ok kend s1 ps1 pd" using 1(2) by (simp add: shrinks_def)
  note pt1 = as_okD(1) [OF ok1]
  have none: "\<not> present (pte_of s1 pd va)" if "pg va < USERTOP" for va
  proof -
    have "view s1 pd va = (if pg va < len then None else view (phys v) pd va)"
      using 1(2) by (simp add: shrinks_def pg0)
    then show ?thesis using high [of va] that by (auto simp: view_def split: if_splits)
  qed
  have nouser: "frames s1 pd = {}"
  proof -
    have "\<not> user (pte_of s1 pd va)" for va
    proof (cases "pg va < USERTOP")
      case True
      then show ?thesis using none by (simp add: user_def)
    next
      case False
      then have "view s1 pd va = view (phys v) pd va" using 1(2) pg0 [of va] len by (auto simp: shrinks_def)
      then show ?thesis using kernel [of va] False by (auto simp: view_def user_def split: if_splits)
    qed
    then show ?thesis by (simp add: frames_empty)
  qed
  define v1 where "v1 = v\<lparr>phys := s1\<rparr>"
  have "\<forall>a \<in> set (page_range (PGROUNDUP len) USERTOP). \<not> present (pte_of s1 pd a)"
    using none by (simp add: page_range(1) PGROUNDUP_small(2) [OF len])
  then have sh: "\<exists>r. deallocshm kend pd USERTOP len v1 = Inr (r, v1)"
    using deallocshm_loop_none [of kend v1 ps1 pd] pt1 by (auto simp: deallocshm_def v1_def)
  obtain s2 s3 ps3 where 2: "free_tables kend pd 1024 s1 = Inr s2" "kfree kend pd s2 = Inr s3" "kmem_rep kend s3 ps3"
      "set ps3 = set ps1 \<union> pt_pages s1 pd" "touches (pt_pages s1 pd) s1 s3"
    using free_all_tables [OF pt1] by blast
  have own: "owned s1 pd \<union> set ps1 = owned (phys v) pd \<union> set ps" "owned s1 pd \<subseteq> owned (phys v) pd"
      "touches (owned (phys v) pd) (phys v) s1"
    using 1(2) by (simp_all add: shrinks_def)
  have fr: "set ps3 = set ps \<union> owned (phys v) pd"
    using own(1) by (auto simp: 2(4) owned_def nouser)
  have "touches (owned s1 pd) s1 s3" by (rule touches_mono [OF 2(5)]) (simp add: owned_def)
  then have "touches (owned (phys v) pd) (phys v) s3" using own(2,3) by (meson touches_mono touches_trans order.refl)
  moreover have "freevm kend pd len v = Inr (v\<lparr>phys := s3\<rparr>)"
    using nz 1(1) sh 2(1,2) by (auto simp: freevm_def v1_def)
  ultimately show ?thesis using 2(3) fr by blast
qed

lemma beside_touches:
  assumes ok: "as_ok kend s ps pd" and t: "touches A s s'" "A \<inter> owned s pd = {}" and rep: "kmem_rep kend s' ps'"
    and d: "owned s pd \<inter> set ps' = {}"
  shows "as_ok kend s' ps' pd" and "view s' pd va = view s pd va" and "owned s' pd = owned s pd"
    and "user (pte_of s pd va) \<Longrightarrow> uword s' pd va = uword s pd va" and "pte_of s' pd va = pte_of s pd va"
proof -
  have "mem s' a = mem s a" if "pg a \<in> owned s pd" for a using t that by (auto simp: touches_def)
  note f = as_frame [OF ok this rep d]
  show "as_ok kend s' ps' pd" and "view s' pd va = view s pd va" and "owned s' pd = owned s pd"
    and "user (pte_of s pd va) \<Longrightarrow> uword s' pd va = uword s pd va" and "pte_of s' pd va = pte_of s pd va"
    by (rule f; assumption?)+
qed

lemma copyuvm_result:
  assumes ok: "as_ok kend (phys v) ps pd" and len: "len \<le> USERTOP" and kd: "kernel_map kdata"
    and pages: "\<And>va. va < len \<Longrightarrow> user (pte_of (phys v) pd va)"
  shows "\<exists>d s' ps'. copyuvm kend kdata pd len v = Inr (d, v\<lparr>phys := s'\<rparr>) \<and> as_ok kend s' ps' pd
     \<and> same_space (phys v) s' pd \<and> set ps' \<subseteq> set ps \<and> (d \<noteq> 0 \<longrightarrow> as_ok kend s' ps' d \<and> owned s' d \<inter> owned s' pd = {}
        \<and> owned s' d \<union> set ps' = set ps
        \<and> (\<forall>va < len. user (pte_of s' d va) \<and> uword s' d va = uword (phys v) pd va)
        \<and> (\<forall>va. len \<le> pg va \<and> pg va < USERTOP \<longrightarrow> view s' d va = None))"
proof -
  let ?s = "phys v"
  note dis = as_okD(3) [OF ok]
  obtain d s1 where s1: "setupkvm kdata ?s = (d, s1)" by (cases "setupkvm kdata ?s")
  obtain ps1 where 1: "kmem_rep kend s1 ps1" "set ps1 \<subseteq> set ps" "touches (set ps) ?s s1" "d = 0 \<or>
     as_ok kend s1 ps1 d \<and> frames s1 d = {} \<and> present (pde_at s1 d 0) \<and> owned s1 d \<union> set ps1 = set ps
     \<and> (\<forall>va. pg va < USERTOP \<longrightarrow> pte_of s1 d va = 0)"
    using setupkvm_result [OF as_okD(2) [OF ok] kd s1] by blast
  have "set ps \<inter> owned ?s pd = {}" "owned ?s pd \<inter> set ps1 = {}" using dis 1(2) by auto
  note b1 = beside_touches [OF ok 1(3) this(1) 1(1) this(2)]
  have sm1: "same_space ?s s1 pd" by (simp add: same_space_def b1)
  show ?thesis
  proof (cases "d = 0")
    case True
    then show ?thesis using s1 b1(1) sm1 1(2) by (intro exI [of _ 0] exI [of _ s1] exI [of _ ps1]) (simp add: copyuvm_def)
  next
    case False
    then have d: "as_ok kend s1 ps1 d" "frames s1 d = {}" "present (pde_at s1 d 0)" "owned s1 d \<union> set ps1 = set ps"
        "\<forall>va. pg va < USERTOP \<longrightarrow> pte_of s1 d va = 0" using 1(4) by auto
    have dj: "owned s1 pd \<inter> owned s1 d = {}" using dis d(4) by (auto simp: b1(3))
    let ?as = "page_range 0 len"
    have z: "0 mod 4096 = (0 :: u32)" by simp
    note as = page_range [OF z len]
    have h: "\<forall>i \<in> set ?as. i mod 4096 = 0 \<and> user (pte_of s1 pd i) \<and> \<not> present (pte_of s1 d i) \<and> present (pde_at s1 d i)"
    proof
      fix i assume i: "i \<in> set ?as"
      then have l: "i < len" "i mod 4096 = 0" "pg i = i" "i < USERTOP" using len by (auto simp: as(1))
      have "PDX i = PDX 0" using PDX_user [OF l(4)] by (simp add: PDX_def)
      then have "pde_at s1 d i = pde_at s1 d 0" by (simp add: pde_at_def)
      then show "i mod 4096 = 0 \<and> user (pte_of s1 pd i) \<and> \<not> present (pte_of s1 d i) \<and> present (pde_at s1 d i)"
        using l d(3,5) pages [OF l(1)] by (simp add: b1(5))
    qed
    obtain b s2 ps2 A where 2: "copyuvm_loop d pd ?as s1 = Inr (b, s2)" "A \<subseteq> set ?as" "b \<longrightarrow> A = set ?as"
        "extends kend s1 ps1 d A (uword s1 pd) s2 ps2"
      using copy_loop [OF b1(1) d(1) dj as(2) h] by blast
    have g: "grows kend s1 ps1 d s2 ps2" using 2(4) by (simp add: extends_def)
    note b2 = beside_grows [OF b1(1) g dj]
    have sm2: "same_space ?s s2 pd" using sm1 b1(5) by (simp add: same_space_def b2(4) b2(5))
    have ok2: "as_ok kend s2 ps2 d" and own: "owned s2 d \<union> set ps2 = set ps" "set ps2 \<subseteq> set ps"
      using g d(4) 1(2) by (auto simp: grows_def)
    have pgA: "pg va \<in> set ?as \<longleftrightarrow> pg va < len" for va by (simp add: as(1))
    have out: "pte_of s2 d va = pte_of s1 d va" if "pg va \<notin> A" for va using 2(4) that by (simp add: extends_def)
    have high: "\<not> present (pte_of s2 d va)" if "len \<le> pg va" "pg va < USERTOP" for va
    proof -
      have "pg va \<notin> A" using that(1) 2(2) pgA [of va] by auto
      then show ?thesis using out d(5) that(2) by simp
    qed
    show ?thesis
    proof (cases b)
      case True
      have in_as: "pg va \<in> A" if "va < len" for va using 2(3) True pgA [of va] that pg_le [of va] by simp
      have "user (pte_of s2 d va) \<and> uword s2 d va = uword ?s pd va" if l: "va < len" for va
      proof -
        have "uword s1 pd va = uword ?s pd va" by (rule b1(4) [OF pages [OF l]])
        then show ?thesis using 2(4) in_as [OF l] by (simp add: extends_def)
      qed
      then show ?thesis
        using s1 False 2(1) True b2(1,3) sm2 ok2 own high
        by (intro exI [of _ d] exI [of _ s2] exI [of _ ps2]) (auto simp: copyuvm_def view_def)
    next
      case nb: False
      have low: "user (pte_of s2 d va)" if "pg va < len" "present (pte_of s2 d va)" for va
      proof (cases "pg va \<in> A")
        case True
        then show ?thesis using 2(4) by (simp add: extends_def)
      next
        case False
        then show ?thesis using out [OF False] d(5) that len by simp
      qed
      have kern: "\<not> user (pte_of s2 d va)" if "USERTOP \<le> pg va" for va
      proof -
        have "pg va \<notin> A" using that 2(2) pgA [of va] len by auto
        then show ?thesis using out d(2) by (simp add: frames_empty)
      qed
      have ok2': "as_ok kend (phys (v\<lparr>phys := s2\<rparr>)) ps2 d" using ok2 by simp
      obtain s3 ps3 where 3: "freevm kend d len (v\<lparr>phys := s2\<rparr>) = Inr (v\<lparr>phys := s3\<rparr>)" "kmem_rep kend s3 ps3"
         "set ps3 = set ps2 \<union> owned s2 d" "touches (owned s2 d) s2 s3"
        using freevm_result [OF ok2' len] low high kern by auto
      have "owned s2 d \<inter> owned s2 pd = {}" "owned s2 pd \<inter> set ps3 = {}"
        using b2(3) as_okD(3) [OF b2(1)] by (auto simp: 3(3))
      note b3 = beside_touches [OF b2(1) 3(4) this(1) 3(2) this(2)]
      have "same_space ?s s3 pd" using sm2 b3(5) by (auto simp: same_space_def b3(2) b3(4) b2(2) b1(5))
      then show ?thesis
        using s1 False 2(1) nb 3(1,3) b3(1) own by (intro exI [of _ 0] exI [of _ s3] exI [of _ ps3]) (auto simp: copyuvm_def)
    qed
  qed
qed

subsection \<open>Properties\<close>

text \<open>C3: The address space that \<open>copyuvm\<close> makes for \<open>fork\<close> has the parent's words at every address below the
  size and nothing mapped above it, on pages of its own taken from the free list; the parent notices no
  difference, also when memory runs out and the copy is undone.\<close>

theorem copyuvm_isolates:
  assumes "as_ok kend (phys v) ps pd" and "len \<le> USERTOP" and "kernel_map kdata"
    and pages: "\<forall>va < len. user (pte_of (phys v) pd va)"
  shows "\<exists>d s' ps'. copyuvm kend kdata pd len v = Inr (d, v\<lparr>phys := s'\<rparr>) \<and> as_ok kend s' ps' pd
     \<and> same_space (phys v) s' pd \<and> set ps' \<subseteq> set ps \<and> (d \<noteq> 0 \<longrightarrow> as_ok kend s' ps' d \<and> owned s' d \<inter> owned s' pd = {}
        \<and> owned s' d \<union> set ps' = set ps
        \<and> (\<forall>va < len. user (pte_of s' d va) \<and> uword s' d va = uword (phys v) pd va)
        \<and> (\<forall>va. len \<le> pg va \<and> pg va < USERTOP \<longrightarrow> view s' d va = None))"
  using pages by (intro copyuvm_result [OF assms(1-3)]) blast

definition tiny_vm :: vm where
  "tiny_vm = \<lparr>phys = tiny_space, keys = replicate 8 \<lparr>ref_count = 0, num_pages = 0, page_ptr = replicate 4 0\<rparr>\<rparr>"

lemma tiny_user: "user (pte_of tiny_space 0x1000 va) \<longleftrightarrow> pg va = 0"
  by (simp add: tiny_pte user_def present_def PTE_P_def PTE_U_def)

theorem copyuvm_isolates_witness:
  "\<exists>d s'. copyuvm 0x1000 0x101000 0x1000 0x1000 tiny_vm = Inr (d, tiny_vm\<lparr>phys := s'\<rparr>) \<and> uword s' 0x1000 0 = 42"
proof -
  have pg: "pg va = 0" if "va < 0x1000" for va :: u32
    using pg_add(1) [of 0 va] that by simp
  have "\<exists>d s' ps'. copyuvm 0x1000 0x101000 0x1000 0x1000 tiny_vm = Inr (d, tiny_vm\<lparr>phys := s'\<rparr>) \<and> as_ok 0x1000 s' ps' 0x1000
     \<and> same_space (phys tiny_vm) s' 0x1000 \<and> set ps' \<subseteq> set [0x4000] \<and> (d \<noteq> 0 \<longrightarrow> as_ok 0x1000 s' ps' d \<and> owned s' d \<inter> owned s' 0x1000 = {}
        \<and> owned s' d \<union> set ps' = set [0x4000]
        \<and> (\<forall>va < 0x1000. user (pte_of s' d va) \<and> uword s' d va = uword (phys tiny_vm) 0x1000 va)
        \<and> (\<forall>va. 0x1000 \<le> pg va \<and> pg va < USERTOP \<longrightarrow> view s' d va = None))"
    by (rule copyuvm_isolates) (simp_all add: tiny_vm_def tiny_space_ok USERTOP_def kernel_map_def PHYSTOP_def tiny_user pg)
  then obtain d s' where c: "copyuvm 0x1000 0x101000 0x1000 0x1000 tiny_vm = Inr (d, tiny_vm\<lparr>phys := s'\<rparr>)"
      "same_space tiny_space s' 0x1000" by (auto simp: tiny_vm_def)
  have "uword tiny_space 0x1000 0 = 42"
    by (simp add: uword_def phys_addr_def tiny_pte PTE_ADDR_def) (simp add: tiny_space_def)
  then have "uword s' 0x1000 0 = 42" using c(2) tiny_user [of 0] by (simp add: same_space_def)
  then show ?thesis using c(1) by blast
qed

text \<open>\<open>freevm\<close> of an address space that maps user pages below its size, nothing from there to
  \<open>USERTOP\<close> and only kernel pages above puts every page of it back on the free list, writes no other page and
  does not panic.\<close>

theorem freevm_returns_pages:
  assumes ok: "as_ok kend (phys v) ps pd" and len: "len \<le> USERTOP"
    and shape: "\<forall>va. if pg va < len then present (pte_of (phys v) pd va) \<longrightarrow> user (pte_of (phys v) pd va)
       else if pg va < USERTOP then \<not> present (pte_of (phys v) pd va) else \<not> user (pte_of (phys v) pd va)"
  shows "\<exists>s' ps'. freevm kend pd len v = Inr (v\<lparr>phys := s'\<rparr>) \<and> kmem_rep kend s' ps'
     \<and> set ps' = set ps \<union> owned (phys v) pd \<and> touches (owned (phys v) pd) (phys v) s'"
proof (rule freevm_result [OF ok len])
  fix va
  show "user (pte_of (phys v) pd va)" if "pg va < len" "present (pte_of (phys v) pd va)" using shape that by metis
  show "\<not> present (pte_of (phys v) pd va)" if "len \<le> pg va" "pg va < USERTOP" using shape that by (metis leD)
  show "\<not> user (pte_of (phys v) pd va)" if "USERTOP \<le> pg va" using shape that len by (metis leD order_trans)
qed

theorem freevm_returns_pages_witness:
  "\<exists>s' ps'. freevm 0x1000 0x1000 0x1000 tiny_vm = Inr (tiny_vm\<lparr>phys := s'\<rparr>) \<and> kmem_rep 0x1000 s' ps'
     \<and> set ps' = {0x4000} \<union> owned tiny_space 0x1000"
proof -
  have "\<exists>s' ps'. freevm 0x1000 0x1000 0x1000 tiny_vm = Inr (tiny_vm\<lparr>phys := s'\<rparr>) \<and> kmem_rep 0x1000 s' ps'
     \<and> set ps' = set [0x4000] \<union> owned (phys tiny_vm) 0x1000 \<and> touches (owned (phys tiny_vm) 0x1000) (phys tiny_vm) s'"
  proof (rule freevm_returns_pages)
    show "as_ok 0x1000 (phys tiny_vm) [0x4000] 0x1000" by (simp add: tiny_vm_def tiny_space_ok)
    show "\<forall>va. if pg va < 0x1000 then present (pte_of (phys tiny_vm) 0x1000 va) \<longrightarrow> user (pte_of (phys tiny_vm) 0x1000 va)
       else if pg va < USERTOP then \<not> present (pte_of (phys tiny_vm) 0x1000 va) else \<not> user (pte_of (phys tiny_vm) 0x1000 va)"
      by (simp add: tiny_vm_def tiny_pte user_def present_def PTE_P_def PTE_U_def)
  qed (simp add: USERTOP_def)
  then show ?thesis by (auto simp: tiny_vm_def)
qed

end
