(* ===== verification/VmSetup.thy ===== *)
theory VmSetup
  imports VmFork
begin

text \<open>
  \<open>setupkvm\<close> with memory: it needs one page for the directory and one for each of the twelve page tables of the kernel
  part, the four of \<open>USERTOP\<close> to \<open>PHYSTOP\<close> and the eight of the device range, and with that many it succeeds.
\<close>

text \<open>The tables of \<open>pd\<close> are at indices of \<open>D\<close>.\<close>

definition tables_in :: "u32 set \<Rightarrow> kmem \<Rightarrow> u32 \<Rightarrow> bool" where
  "tables_in D s pd = (\<forall>va. present (pde_at s pd va) \<longrightarrow> PDX va \<in> D)"

lemma card_tables_in:
  assumes "tables_in D s pd" and "finite D"
  shows "card (pt_pages s pd) \<le> card D + 1"
proof -
  have "tables s pd \<subseteq> (\<lambda>i. PTE_ADDR (mem s (pd + 4 * i))) ` D"
    using assms(1) by (auto simp: tables_def tables_in_def pde_at_def)
  then have "card (tables s pd) \<le> card D" "finite (tables s pd)"
    using assms(2) by (meson card_image_le card_mono finite_imageI le_trans, meson finite_imageI finite_subset)
  then show ?thesis by (simp add: pt_pages_def card_insert_if)
qed

lemma pages_left:
  assumes "pt_step kend s0 ps0 pd s ps" and "tables_in D s pd" and "finite D" and "card D + 1 < card (pt_pages s0 pd \<union> set ps0)"
  shows "ps \<noteq> []"
  using assms card_tables_in [OF assms(2,3)] by (auto simp: pt_step_def)

lemma map_one_ok:
  assumes st: "pt_step kend s0 ps0 pd s ps" and D: "tables_in D s pd" "finite D" "card D + 1 < card (pt_pages s0 pd \<union> set ps0)"
    and a: "\<not> present (pte_of s pd a)" "PDX a \<in> D" and m: "mappages_loop pd 0 a pa perm s = (r, s')"
  shows "r = 0 \<and> (\<exists>ps'. pt_step kend s0 ps0 pd s' ps') \<and> tables_in D s' pd
     \<and> (\<forall>vb. pte_of s' pd vb = (if pg vb = pg a then pa OR perm OR PTE_P else pte_of s pd vb))"
  using pt_step_ok [OF st] m
proof (cases rule: map_one)
  case (fail ps')
  then show ?thesis using a(1) pages_left [OF st D] by simp
next
  case (mapped ps')
  have "tables_in D s' pd" unfolding tables_in_def
  proof (intro allI impI)
    fix vb assume "present (pde_at s' pd vb)"
    then show "PDX vb \<in> D" using mapped(5) [of vb] D(1) a(2) by (cases "PDX vb = PDX a") (auto simp: tables_in_def)
  qed
  then show ?thesis using mapped(1,4) pt_step_trans [OF st mapped(2)] by blast
qed

lemma map_many_ok:
  assumes "pt_step kend s0 ps0 pd s ps" and "tables_in D s pd" and D: "finite D" "card D + 1 < card (pt_pages s0 pd \<union> set ps0)"
    and "\<forall>va. a \<le> pg va \<longrightarrow> \<not> present (pte_of s pd va)" and "\<forall>va. a \<le> va \<and> unat va \<le> unat a + 4096 * n \<longrightarrow> PDX va \<in> D"
    and "mappages_loop pd n a pa perm s = (r, s')" and "a mod 4096 = 0" and "unat a + 4096 * n < 2 ^ 32"
  shows "r = 0 \<and> (\<exists>ps'. pt_step kend s0 ps0 pd s' ps') \<and> tables_in D s' pd
     \<and> (\<forall>va. unat a + 4096 * n < unat (pg va) \<longrightarrow> \<not> present (pte_of s' pd va))"
  using assms(1,2,5-9)
proof (induction n arbitrary: a pa s ps)
  case 0
  have "\<not> present (pte_of s pd a)" "PDX a \<in> D" using 0(3,4,6) by simp_all
  from map_one_ok [OF 0(1,2) D this 0(5)] show ?case using 0(3,6) by (auto simp: word_le_nat_alt)
next
  case (Suc n)
  obtain r1 s1 where m: "mappages_loop pd 0 a pa perm s = (r1, s1)" by (cases "mappages_loop pd 0 a pa perm s")
  have "\<not> present (pte_of s pd a)" "PDX a \<in> D" using Suc.prems(3,4,6) by simp_all
  from map_one_ok [OF Suc.prems(1,2) D this m] obtain ps1 where 1: "r1 = 0" "pt_step kend s0 ps0 pd s1 ps1" "tables_in D s1 pd"
      "\<And>vb. pte_of s1 pd vb = (if pg vb = pg a then pa OR perm OR PTE_P else pte_of s pd vb)" by blast
  have l: "mappages_loop pd n (a + PGSIZE) (pa + PGSIZE) perm s1 = (r, s')"
    using Suc.prems(5) m 1(1) by (simp add: mappages_loop_Suc)
  have ua: "unat (a + PGSIZE) = unat a + 4096"
    using Suc.prems(7) unat_add_small [of a PGSIZE] by (simp add: PGSIZE_def)
  have al: "(a + PGSIZE) mod 4096 = 0" using Suc.prems(6) by (simp add: unat_aligned unat_add_mod PGSIZE_def)
  have b: "unat (a + PGSIZE) + 4096 * n < 2 ^ 32" using Suc.prems(7) by (simp add: ua)
  have np: "\<forall>va. a + PGSIZE \<le> pg va \<longrightarrow> \<not> present (pte_of s1 pd va)"
    using Suc.prems(3,6) by (auto simp: 1(4) word_le_nat_alt ua)
  have inD: "\<forall>va. a + PGSIZE \<le> va \<and> unat va \<le> unat (a + PGSIZE) + 4096 * n \<longrightarrow> PDX va \<in> D"
    using Suc.prems(4) by (simp add: ua word_le_nat_alt)
  show ?case using Suc.IH [OF 1(2,3) np inD l al b] by (simp add: ua)
qed

lemma map_range_ok:
  assumes st: "pt_step kend s0 ps0 pd s ps" and D: "tables_in D s pd" "finite D" "card D + 1 < card (pt_pages s0 pd \<union> set ps0)"
    and np: "\<forall>va. p \<le> pg va \<longrightarrow> \<not> present (pte_of s pd va)" and inD: "\<forall>va. p \<le> va \<and> va \<le> e - 4096 \<longrightarrow> PDX va \<in> D"
    and al: "p mod 4096 = 0" "e mod 4096 = 0" "p \<le> e - 4096"
    and m: "mappages pd p (e - p) p perm s = (r, s')"
  shows "r = 0 \<and> (\<exists>ps'. pt_step kend s0 ps0 pd s' ps') \<and> tables_in D s' pd \<and> (\<forall>va. e - 4096 < pg va \<longrightarrow> \<not> present (pte_of s' pd va))"
proof -
  obtain n where n: "mappages pd p (e - p) p perm s = mappages_loop pd n p p perm s" and un: "unat p + 4096 * n = unat (e - 4096)"
    by (rule mappages_range [OF al])
  show ?thesis
    using map_many_ok [OF st D np _ m [unfolded n] al(1)] inD un unat_u32_less [of "e - 4096"] by (simp add: word_le_nat_alt word_less_nat_alt)
qed

lemma setup_loop_ok:
  assumes "pt_step kend s0 ps0 pd s ps" and "tables_in D s pd" and D: "finite D" "card D + 1 < card (pt_pages s0 pd \<union> set ps0)"
    and "\<forall>(p, e, perm) \<in> set ks. p mod 4096 = 0 \<and> e mod 4096 = 0 \<and> p \<le> e - 4096 \<and> (\<forall>va. p \<le> va \<and> va \<le> e - 4096 \<longrightarrow> PDX va \<in> D)"
    and "sorted_wrt (\<lambda>(p, e, _) (p', _, _). e - 4096 < p') ks"
    and "\<forall>(p, e, perm) \<in> set ks. \<forall>va. p \<le> pg va \<longrightarrow> \<not> present (pte_of s pd va)"
  shows "\<exists>s'. setupkvm_loop pd ks s = (pd, s') \<and> tables_in D s' pd"
  using assms(1,2,5-7)
proof (induction ks arbitrary: s ps)
  case (Cons k ks)
  obtain p e perm where k: "k = (p, e, perm)" by (cases k)
  obtain r s1 where m: "mappages pd p (e - p) p perm s = (r, s1)" by (cases "mappages pd p (e - p) p perm s")
  have k1: "p mod 4096 = 0" "e mod 4096 = 0" "p \<le> e - 4096" "\<forall>va. p \<le> va \<and> va \<le> e - 4096 \<longrightarrow> PDX va \<in> D"
    using Cons.prems(3) by (simp_all add: k)
  have np: "\<forall>va. p \<le> pg va \<longrightarrow> \<not> present (pte_of s pd va)" using Cons.prems(5) by (simp add: k)
  from map_range_ok [OF Cons.prems(1,2) D np k1(4,1,2,3) m] obtain ps1 where
      1: "r = 0" "pt_step kend s0 ps0 pd s1 ps1" "tables_in D s1 pd" "\<forall>va. e - 4096 < pg va \<longrightarrow> \<not> present (pte_of s1 pd va)" by blast
  have np1: "\<forall>(p, e, perm) \<in> set ks. \<forall>va. p \<le> pg va \<longrightarrow> \<not> present (pte_of s1 pd va)"
    using 1(4) Cons.prems(4) by (fastforce simp: k)
  show ?case using Cons.IH [OF 1(2,3) _ _ np1] Cons.prems(3,4) m 1(1) by (simp add: k)
qed simp

text \<open>The indices of the kernel part.\<close>

definition kernel_tables :: "u32 set" where
  "kernel_tables = set [0, 1, 2, 3, 1016, 1017, 1018, 1019, 1020, 1021, 1022, 1023]"

lemma unat_PDX: "unat (PDX va) = unat va div 2 ^ 22"
proof -
  have "(0x3FF :: u32) = mask 10" by (simp add: mask_eq_exp_minus_1)
  then have "PDX va = take_bit 10 (drop_bit 22 va)" unfolding PDX_def by (simp only: take_bit_eq_mask)
  also have "\<dots> = drop_bit 22 va"
  proof (rule bit_word_eqI)
    fix n assume "n < LENGTH(32)"
    then show "bit (take_bit 10 (drop_bit 22 va)) n = bit (drop_bit 22 va) n"
      by (auto simp: bit_simps dest: bit_imp_le_length)
  qed
  finally show ?thesis by (simp add: drop_bit_eq_div unat_div_distrib)
qed

lemma in_kernel_tables:
  "va < PHYSTOP \<Longrightarrow> PDX va \<in> kernel_tables" "0xFE000000 \<le> va \<Longrightarrow> PDX va \<in> kernel_tables"
proof -
  have "PDX va = of_nat (unat (PDX va))" by simp
  then have w: "PDX va = of_nat (unat va div 2 ^ 22)" by (simp only: unat_PDX)
  show "PDX va \<in> kernel_tables" if "va < PHYSTOP"
  proof -
    have "unat va div 2 ^ 22 \<in> {0, 1, 2, 3}" using that by (auto simp: word_less_nat_alt PHYSTOP_def)
    then show ?thesis unfolding w kernel_tables_def by auto
  qed
  show "PDX va \<in> kernel_tables" if "0xFE000000 \<le> va"
  proof -
    have "1016 \<le> unat va div 2 ^ 22" "unat va div 2 ^ 22 < 1024" using that unat_u32_less [of va] by (auto simp: word_le_nat_alt)
    then have "unat va div 2 ^ 22 \<in> {1016, 1017, 1018, 1019, 1020, 1021, 1022, 1023}" by auto
    then show ?thesis unfolding w kernel_tables_def by auto
  qed
qed

theorem setupkvm_succeeds:
  assumes rep: "kmem_rep kend s ps" and kd: "kernel_map kdata" and room: "14 \<le> length ps"
  shows "\<exists>pd s'. setupkvm kdata s = (pd, s') \<and> pd \<noteq> 0 \<and> card (pt_pages s' pd) \<le> 13"
proof -
  obtain pd s1 where k: "kalloc s = (pd, s1)" by (cases "kalloc s")
  obtain qs where q: "ps = pd # qs" "pd \<noteq> 0" "page_ok kend pd" "kmem_rep kend s1 qs" "mem s1 = mem s"
    using kalloc_cases [OF rep k] room by auto
  have nin: "pd \<notin> set qs" "distinct qs" using rep by (simp_all add: q(1) kmem_rep_def)
  define z where "z = zero_page pd s1"
  note em = empty_directory [OF q(4,3) nin(1), folded z_def]
  have "pde_at z pd va = 0" for va using page_ok_aligned [OF q(3)] by (simp add: z_def pde_at_def mem_zero_page)
  then have ti: "tables_in kernel_tables z pd" by (simp add: tables_in_def)
  have "card kernel_tables \<le> 12" unfolding kernel_tables_def by (rule order_trans [OF card_length]) simp
  moreover have "card (pt_pages z pd \<union> set qs) = length ps" using nin by (simp add: em(3) q(1) distinct_card)
  ultimately have D: "finite kernel_tables" "card kernel_tables + 1 < card (pt_pages z pd \<union> set qs)" "card kernel_tables + 1 \<le> 13"
    using room by (simp_all add: kernel_tables_def)
  have kk: "kdata mod 4096 = 0" "0x100000 < kdata" "kdata < PHYSTOP" using kd by (simp_all add: kernel_map_def)
  have le: "0x100000 \<le> kdata - 4096" "kdata \<le> PHYSTOP - 4096"
    using kk aligned_step [of "0x100000" kdata] aligned_step [of kdata PHYSTOP] by (simp_all add: PHYSTOP_def)
  have lt: "kdata - 4096 < kdata" using kk(2) by (simp add: word_less_nat_alt unat_sub_small word_le_nat_alt)
  have "\<forall>(p, e, perm) \<in> set (kmap kdata). p mod 4096 = 0 \<and> e mod 4096 = 0 \<and> p \<le> e - 4096
      \<and> (\<forall>va. p \<le> va \<and> va \<le> e - 4096 \<longrightarrow> PDX va \<in> kernel_tables)"
  proof -
    have small: "PDX va \<in> kernel_tables" if "va \<le> x" "x < PHYSTOP" for va x
      using in_kernel_tables(1) le_less_trans [OF that] by blast
    have "kdata - 4096 < PHYSTOP" "0x100000 - 4096 < PHYSTOP" "PHYSTOP - 4096 < PHYSTOP"
      using lt kk(3) by (simp_all add: PHYSTOP_def)
    then show ?thesis
      using kk(1) le small in_kernel_tables(2) by (auto simp: kmap_def USERTOP_def PHYSTOP_def)
  qed
  moreover have "\<forall>(p, e, perm) \<in> set (kmap kdata). \<forall>va. p \<le> pg va \<longrightarrow> \<not> present (pte_of z pd va)"
    by (auto simp: em(2))
  moreover have "sorted_wrt (\<lambda>(p, e, _) (p', _, _). e - 4096 < p') (kmap kdata)"
  proof -
    have "0x100000 - 4096 < kdata" using kk(2) by (rule order.strict_trans [rotated]) simp
    moreover have "kdata - 4096 < 0xFE000000" using order.strict_trans [OF lt kk(3)] by (simp add: PHYSTOP_def word_less_nat_alt)
    ultimately show ?thesis using lt by (simp add: kmap_def PHYSTOP_def)
  qed
  ultimately obtain s' where "setupkvm_loop pd (kmap kdata) z = (pd, s')" "tables_in kernel_tables s' pd"
    using setup_loop_ok [OF pt_step_refl [OF em(1)] ti D(1,2)] by blast
  then show ?thesis using k q(2) card_tables_in [OF _ D(1)] D(3) by (fastforce simp: setupkvm_def z_def)
qed

end
