(* ===== verification/VmCopyout.thy ===== *)
theory VmCopyout
  imports VmSpace
begin

text \<open>
  \<open>copyout\<close>: the bytes that the kernel stores through a page table are the bytes that the process
  reads at these addresses, and nothing else in the address space changes.
\<close>

subsection \<open>Bytes of words\<close>

lemma unat_mod_4: "unat (a mod 4 :: u32) < 4"
  by (simp add: unat_mod)

lemma same_byte_iff: "a = b \<longleftrightarrow> a - a mod 4 = b - b mod 4 \<and> unat (a mod 4) = unat (b mod 4 :: u32)"
  by (metis diff_add_cancel word_unat_eq_iff)

lemma bit_byte: "j < 8 \<Longrightarrow> bit (get_byte m a) j \<longleftrightarrow> bit (m (a - a mod 4)) (8 * unat (a mod 4) + j)"
  by (simp add: get_byte_def bit_simps)

lemma get_put_byte: "get_byte (put_byte a b m) a' = (if a' = a then b else get_byte m a')"
proof (rule bit_word_eqI)
  fix j assume "j < LENGTH(8)"
  then have j: "j < 8" by simp
  let ?k = "8 * unat (a mod 4)" let ?k' = "8 * unat (a' mod 4)"
  define M where "M = (0xFF :: u32)"
  have ff: "bit M i \<longleftrightarrow> i < 8" for i
  proof -
    have "M = mask 8" by (simp add: M_def mask_eq_exp_minus_1)
    then show ?thesis by (simp only: bit_mask_iff) auto
  qed
  have lt: "?k' + j < 32" using unat_mod_4 [of a'] j by linarith
  have p: "bit ((m w AND NOT (push_bit ?k M)) OR push_bit ?k (ucast b)) (?k' + j) \<longleftrightarrow>
      (if ?k \<le> ?k' + j \<and> ?k' + j < ?k + 8 then bit b (?k' + j - ?k) else bit (m w) (?k' + j))" for w
  proof (cases "?k \<le> ?k' + j \<and> ?k' + j < ?k + 8")
    case True
    then have "?k' + j - ?k < 8" by linarith
    then show ?thesis using True lt by (simp add: bit_simps ff)
  next
    case False
    then have "?k \<le> ?k' + j \<Longrightarrow> \<not> ?k' + j - ?k < 8" by linarith
    then show ?thesis using False lt by (auto simp: bit_simps ff dest: bit_imp_le_length)
  qed
  have eqk: "?k \<le> ?k' + j \<and> ?k' + j < ?k + 8 \<longleftrightarrow> unat (a mod 4) = unat (a' mod 4)" using j by linarith
  show "bit (get_byte (put_byte a b m) a') j = bit (if a' = a then b else get_byte m a') j"
  proof (cases "a' - a' mod 4 = a - a mod 4")
    case True
    then have "bit (get_byte (put_byte a b m) a') j \<longleftrightarrow>
        (if unat (a mod 4) = unat (a' mod 4) then bit b (?k' + j - ?k) else bit (m (a - a mod 4)) (?k' + j))"
      unfolding bit_byte [OF j] put_byte_def Let_def M_def [symmetric] True by (simp only: fun_upd_same p eqk)
    moreover have "a' = a \<longleftrightarrow> unat (a mod 4) = unat (a' mod 4)" using True same_byte_iff [of a' a] by auto
    ultimately show ?thesis using bit_byte [OF j, of m a'] True by simp
  next
    case False
    then have "a' \<noteq> a" by auto
    then show ?thesis using False unfolding bit_byte [OF j] put_byte_def Let_def by (simp add: bit_byte [OF j])
  qed
qed

lemma get_write_bytes:
  "length bs \<le> 2 ^ 32 \<Longrightarrow> get_byte (write_bytes a bs m) x =
     (if unat (x - a) < length bs then bs ! unat (x - a) else get_byte m x)"
proof (induction bs arbitrary: a m)
  case (Cons b bs)
  show ?case
  proof (cases "x = a")
    case True
    have "unat (x - (a + 1)) = 2 ^ 32 - 1" by (simp add: True unsigned_minus_1_eq_mask mask_eq_exp_minus_1)
    then show ?thesis using Cons True by (simp add: get_put_byte)
  next
    case False
    then have nz: "0 < unat (x - a)" by (metis eq_iff_diff_eq_0 gr0I unat_eq_0)
    have e: "x - (a + 1) = (x - a) - 1" by simp
    have "unat ((x - a) - 1) = unat (x - a) - unat (1 :: u32)"
      by (rule unat_sub_small) (use nz in \<open>simp add: word_le_nat_alt\<close>)
    then have "unat (x - (a + 1)) = unat (x - a) - 1" "0 < unat (x - a)" unfolding e using nz by simp_all
    then show ?thesis using Cons False by (auto simp: get_put_byte nth_Cons split: nat.splits)
  qed
qed simp

subsection \<open>Writing through the page table\<close>

definition ubyte :: "kmem \<Rightarrow> u32 \<Rightarrow> u32 \<Rightarrow> u8" where
  "ubyte s pd va = get_byte (mem s) (phys_addr s pd va)"

lemma pg_word: "pg (a - a mod 4) = pg a"
proof (rule bit_word_eqI)
  fix n
  have "(3 :: u32) = mask 2" by (simp add: mask_eq_exp_minus_1)
  then have "a - a mod 4 = a AND NOT (mask 2)" by (simp only: and_not_3 [symmetric])
  then show "bit (pg (a - a mod 4)) n = bit (pg a) n" by (auto simp: bit_pg bit_simps dest: bit_imp_le_length)
qed

lemma write_bytes_other: "(\<And>k. k < length bs \<Longrightarrow> pg (a + of_nat k) \<noteq> pg x) \<Longrightarrow> write_bytes a bs m x = m x"
proof (induction bs arbitrary: a m)
  case (Cons b bs)
  have "pg a \<noteq> pg x" using Cons(2) [of 0] by simp
  then have "x \<noteq> a - a mod 4" using pg_word [of a] by auto
  moreover have "pg (a + 1 + of_nat k) \<noteq> pg x" if "k < length bs" for k
    using Cons(2) [of "Suc k"] that by (simp add: algebra_simps)
  ultimately show ?case using Cons(1) by (simp add: put_byte_def Let_def)
qed simp

lemma pg_between:
  assumes "va \<le> x" and "unat x < unat (pg va) + 4096"
  shows "pg x = pg va"
proof -
  have "pg va \<le> x" using pg_le [of va] assms(1) by simp
  then have "unat (x - pg va) < 4096" using assms(2) by (simp add: unat_sub word_le_nat_alt)
  then have "x - pg va < 4096" by (simp add: word_less_nat_alt)
  then show ?thesis by (simp add: in_page_iff)
qed

lemma unat_split: "unat a = unat (pg a) + unat (a mod 4096)"
  using pg_le [of a] by (simp add: PGROUNDDOWN_mod unat_sub word_le_nat_alt unat_mod)

lemma in_frame:
  assumes "page_ok kend f" and "unat off + k < 4096"
  shows "pg (f + off + of_nat k) = f" and "unat (f + off + of_nat k) = unat f + unat off + k"
proof -
  have k: "unat (of_nat k :: u32) = k" using assms(2) by (intro unat_of_nat_small) simp
  have o: "unat (off + of_nat k) = unat off + k" using assms(2) k by (subst unat_add_small) simp_all
  then have lt: "off + of_nat k < 4096" using assms(2) by (simp add: word_less_nat_alt)
  show "pg (f + off + of_nat k) = f" using pg_add(1) [OF page_ok_aligned [OF assms(1)] lt] by (simp add: add.assoc)
  have "unat f < 16777216" using assms(1) by (simp add: page_ok_def PHYSTOP_def word_less_nat_alt)
  then show "unat (f + off + of_nat k) = unat f + unat off + k"
    unfolding add.assoc using o assms(2) by (subst unat_add_small) simp_all
qed

text \<open>Storing \<open>bs\<close> at the physical address of \<open>va\<close>, within its page.\<close>

lemma store_in_frame:
  assumes ok: "as_ok kend s ps pd" and u: "user (pte_of s pd va)" and n: "unat (va mod 4096) + length bs \<le> 4096"
  defines "s1 \<equiv> s\<lparr>mem := write_bytes (phys_addr s pd va) bs (mem s)\<rparr>"
  shows "as_ok kend s1 ps pd" and "pte_of s1 pd x = pte_of s pd x" and "touches (frames s pd) s s1"
    and "user (pte_of s pd x) \<Longrightarrow> ubyte s1 pd x =
      (if va \<le> x \<and> unat x < unat va + length bs then bs ! (unat x - unat va) else ubyte s pd x)"
proof -
  let ?f = "PTE_ADDR (pte_of s pd va)" let ?o = "va mod 4096" let ?a = "phys_addr s pd va"
  have f: "page_ok kend ?f" by (rule as_okD(4) [OF ok u])
  have a: "?a = ?f + ?o" by (simp add: phys_addr_def)
  have ina: "pg (?a + of_nat k) = ?f" "unat (?a + of_nat k) = unat ?f + unat ?o + k" if "k < length bs" for k
    unfolding a using in_frame [OF f, of ?o k] that n by auto
  have t1: "touches {?f} s s1" unfolding touches_def s1_def
    using write_bytes_other [of bs ?a _ "mem s"] ina(1) by auto
  have inf: "?f \<in> frames s pd" by (rule as_okD(7) [OF ok u])
  then show "touches (frames s pd) s s1" by (intro touches_mono [OF t1]) simp
  have nf: "?f \<notin> pt_pages s pd" "?f \<notin> set ps" by (rule as_okD(6) [OF ok u]) (rule as_okD(5) [OF ok u])
  have rep1: "kmem_rep kend s1 ps" by (rule kmem_rep_touches [OF as_okD(2) [OF ok] t1]) (use nf in \<open>auto simp: s1_def\<close>)
  have same: "mem s1 b = mem s b" if "pg b \<in> pt_pages s pd" for b
  proof -
    have "pg b \<notin> {?f}" using that nf(1) by auto
    then show ?thesis using t1 unfolding touches_def by blast
  qed
  note st = same_tables [OF as_okD(1) [OF ok] same]
  have pt1: "pt_ok kend s1 ps pd"
    by (rule pt_ok_frame [OF as_okD(1) [OF ok] same rep1]) (use as_okD(3) [OF ok] in \<open>auto simp: owned_def\<close>)
  have pte: "pte_of s1 pd y = pte_of s pd y" for y by (rule st(2))
  have pp: "pt_pages s1 pd = pt_pages s pd" by (rule st(3))
  show "pte_of s1 pd x = pte_of s pd x" by (rule pte)
  show "as_ok kend s1 ps pd" using ok pt1 unfolding as_ok_def frames_def pte pp by blast
  show "ubyte s1 pd x = (if va \<le> x \<and> unat x < unat va + length bs then bs ! (unat x - unat va) else ubyte s pd x)"
    if ux: "user (pte_of s pd x)"
  proof -
    define d where "d = unat (phys_addr s pd x - ?a)"
    have len: "length bs \<le> 2 ^ 32" using n by simp
    have g: "ubyte s1 pd x = (if d < length bs then bs ! d else ubyte s pd x)"
    proof -
      have "phys_addr s1 pd x = phys_addr s pd x" by (simp add: phys_addr_def pte)
      moreover have "mem s1 = write_bytes ?a bs (mem s)" by (simp add: s1_def)
      ultimately show ?thesis using get_write_bytes [OF len, of ?a "mem s" "phys_addr s pd x"] by (simp add: ubyte_def d_def)
    qed
    have pa: "unat (phys_addr s pd x) = unat (PTE_ADDR (pte_of s pd x)) + unat (x mod 4096)"
      using in_frame(2) [OF as_okD(4) [OF ok ux], of "x mod 4096" 0] unat_mod_4096 by (simp add: phys_addr_def)
    have pa': "phys_addr s pd x = ?a + of_nat d" by (simp add: d_def)
    have "d < length bs \<longleftrightarrow> va \<le> x \<and> unat x < unat va + length bs"
    proof
      assume d: "d < length bs"
      have "pg x = pg va"
        using ina(1) [OF d] pg_phys_addr [OF ux ok] frame_unique [OF ok ux u] by (simp add: pa')
      moreover from this have "unat (x mod 4096) = unat ?o + d"
        using ina(2) [OF d] pa pte_of_page [of x va s pd] by (simp add: pa')
      ultimately show "va \<le> x \<and> unat x < unat va + length bs"
        using unat_split [of x] unat_split [of va] d by (simp add: word_le_nat_alt)
    next
      assume b: "va \<le> x \<and> unat x < unat va + length bs"
      then have px: "pg x = pg va" using unat_split [of va] n by (intro pg_between) auto
      then have o: "unat ?o \<le> unat (x mod 4096)" "unat (x mod 4096) < unat ?o + length bs"
        using b unat_split [of x] unat_split [of va] by (simp_all add: word_le_nat_alt)
      then have "unat (x mod 4096) - unat ?o < length bs" by linarith
      moreover note o(1)
      moreover have "phys_addr s pd x - ?a = x mod 4096 - ?o" using pte_of_page [OF px, of s pd] by (simp add: phys_addr_def)
      ultimately show "d < length bs" by (simp add: d_def unat_sub word_le_nat_alt)
    qed
    moreover have "d = unat x - unat va" if d: "d < length bs"
    proof -
      have px: "pg x = pg va"
        using ina(1) [OF d] pg_phys_addr [OF ux ok] frame_unique [OF ok ux u] by (simp add: pa')
      then have "unat (x mod 4096) = unat ?o + d"
        using ina(2) [OF d] pa pte_of_page [of x va s pd] by (simp add: pa')
      then show ?thesis using unat_split [of x] unat_split [of va] px by simp
    qed
    ultimately show ?thesis using g by auto
  qed
qed

lemma copyout_step:
  assumes ok: "as_ok kend s ps pd" and u: "user (pte_of s pd va)" and ne: "p \<noteq> []"
  defines "n \<equiv> min (4096 - unat (va mod 4096)) (length p)"
  shows "copyout nul pd va p s =
    copyout nul pd (pg va + PGSIZE) (drop n p) (s\<lparr>mem := write_bytes (phys_addr s pd va) (take n p) (mem s)\<rparr>)"
proof -
  have pd0: "pte_of s pd (pg va) = pte_of s pd va" by (rule pte_of_page) simp
  have "fst (walkpgdir pd (pg va) False s) \<noteq> 0" "mem s (fst (walkpgdir pd (pg va) False s)) = pte_of s pd va"
    using walk_present [OF as_okD(1) [OF ok] refl, of "pg va"] u by (auto simp: pd0 user_def)
  then have "uva2ka nul pd (pg va) s = PTE_ADDR (pte_of s pd va)"
    using u by (auto simp: uva2ka_def Let_def user_def present_def)
  moreover have "PTE_ADDR (pte_of s pd va) \<noteq> 0" by (rule page_ok_nonzero [OF as_okD(2,4) [OF ok]]) (rule u)
  ultimately show ?thesis
    unfolding copyout.simps [of nul pd va p s] using ne by (simp add: Let_def page_offset n_def phys_addr_def)
qed

lemma copyout_result:
  assumes "as_ok kend s ps pd" and "unat va + length p \<le> unat USERTOP"
    and "\<And>x. va \<le> x \<Longrightarrow> unat x < unat va + length p \<Longrightarrow> user (pte_of s pd x)"
  shows "\<exists>s'. copyout nul pd va p s = (0, s') \<and> as_ok kend s' ps pd
     \<and> (\<forall>x. pte_of s' pd x = pte_of s pd x) \<and> touches (frames s pd) s s'
     \<and> (\<forall>x. user (pte_of s pd x) \<longrightarrow> ubyte s' pd x =
          (if va \<le> x \<and> unat x < unat va + length p then p ! (unat x - unat va) else ubyte s pd x))"
  using assms
proof (induction "length p" arbitrary: va p s rule: less_induct)
  case less
  note ok = less.prems(1)
  show ?case
  proof (cases "p = []")
    case True
    then show ?thesis using ok by (auto simp: copyout.simps word_le_nat_alt)
  next
    case False
    define n where "n = min (4096 - unat (va mod 4096)) (length p)"
    have n: "0 < n" "n \<le> length p" "unat (va mod 4096) + n \<le> 4096"
      using False unat_mod_4096 [of va] by (auto simp: n_def)
    have u: "user (pte_of s pd va)" using less.prems(3) [of va] False by simp
    define s1 where "s1 = s\<lparr>mem := write_bytes (phys_addr s pd va) (take n p) (mem s)\<rparr>"
    note step = copyout_step [OF ok u False, of nul, folded n_def, folded s1_def]
    have ln: "length (take n p) = n" "unat (va mod 4096) + length (take n p) \<le> 4096" using n by auto
    note st = store_in_frame [OF ok u ln(2), folded s1_def]
    define va1 where "va1 = pg va + PGSIZE"
    have top: "unat USERTOP = 655360" by (simp add: USERTOP_def)
    have "unat va1 = unat (pg va) + 4096"
      using less.prems(2) unat_split [of va] unat_add_small [of "pg va" PGSIZE] by (simp add: va1_def PGSIZE_def top)
    then have va1: "unat va1 = unat va + n" if "n < length p" 
      using that unat_split [of va] unat_mod_4096 [of va] by (simp add: n_def min_def split: if_splits)
    show ?thesis
    proof (cases "n < length p")
      case False
      then have "drop n p = []" "n = length p" using n by auto
      then show ?thesis using step st ln(1) by (intro exI [of _ s1]) (simp add: copyout.simps)
    next
      case True
      let ?q = "drop n p"
      have "\<exists>s'. copyout nul pd va1 ?q s1 = (0, s') \<and> as_ok kend s' ps pd
         \<and> (\<forall>x. pte_of s' pd x = pte_of s1 pd x) \<and> touches (frames s1 pd) s1 s'
         \<and> (\<forall>x. user (pte_of s1 pd x) \<longrightarrow> ubyte s' pd x =
              (if va1 \<le> x \<and> unat x < unat va1 + length ?q then ?q ! (unat x - unat va1) else ubyte s1 pd x))"
      proof (rule less.hyps)
        show "length ?q < length p" using n True by simp
        show "as_ok kend s1 ps pd" by (rule st(1))
        show "unat va1 + length ?q \<le> unat USERTOP" using va1 [OF True] less.prems(2) True by simp
        show "user (pte_of s1 pd x)" if "va1 \<le> x" "unat x < unat va1 + length ?q" for x
          using less.prems(3) [of x] that va1 [OF True] True by (simp add: st(2) word_le_nat_alt)
      qed
      then obtain s' where i: "copyout nul pd va1 ?q s1 = (0, s')" "as_ok kend s' ps pd"
          "\<forall>x. pte_of s' pd x = pte_of s1 pd x" "touches (frames s1 pd) s1 s'"
          "\<forall>x. user (pte_of s1 pd x) \<longrightarrow> ubyte s' pd x =
              (if va1 \<le> x \<and> unat x < unat va1 + length ?q then ?q ! (unat x - unat va1) else ubyte s1 pd x)"
        by blast
      have "frames s1 pd = frames s pd" by (simp add: frames_def st(2))
      then have t: "touches (frames s pd) s s'" using touches_trans [OF st(3) i(4)] by simp
      have "ubyte s' pd x = (if va \<le> x \<and> unat x < unat va + length p then p ! (unat x - unat va) else ubyte s pd x)"
        if ux: "user (pte_of s pd x)" for x
      proof -
        have "ubyte s' pd x = (if va1 \<le> x \<and> unat x < unat va1 + length ?q then ?q ! (unat x - unat va1) else ubyte s1 pd x)"
          using i(5) ux by (simp add: st(2))
        then show ?thesis using st(4) [OF ux] ln(1) va1 [OF True] True by (auto simp: word_le_nat_alt)
      qed
      then show ?thesis using step i(1-3) t by (intro exI [of _ s']) (simp add: va1_def st(2))
    qed
  qed
qed

subsection \<open>Properties\<close>

text \<open>\<open>copyout\<close> to mapped user memory succeeds: the process then reads the bytes at \<open>va\<close> and finds every
  other byte and the page table as before.\<close>

theorem copyout_writes:
  assumes "as_ok kend s ps pd" and "unat va + length p \<le> unat USERTOP"
    and "\<forall>x. va \<le> x \<and> unat x < unat va + length p \<longrightarrow> user (pte_of s pd x)"
  shows "\<exists>s'. copyout nul pd va p s = (0, s') \<and> as_ok kend s' ps pd \<and> (\<forall>x. pte_of s' pd x = pte_of s pd x)
     \<and> (\<forall>x. user (pte_of s pd x) \<longrightarrow> ubyte s' pd x =
          (if va \<le> x \<and> unat x < unat va + length p then p ! (unat x - unat va) else ubyte s pd x))"
  using copyout_result [OF assms(1,2)] assms(3) by blast

theorem copyout_writes_witness:
  "\<exists>s'. copyout 0 0x1000 8 [7, 9] tiny_space = (0, s') \<and> ubyte s' 0x1000 9 = 9"
proof -
  have pg: "pg va = 0" if "va < 0x1000" for va :: u32 using pg_add(1) [of 0 va] that by simp
  have "\<exists>s'. copyout 0 0x1000 8 [7, 9] tiny_space = (0, s') \<and> as_ok 0x1000 s' [0x4000] 0x1000
     \<and> (\<forall>x. pte_of s' 0x1000 x = pte_of tiny_space 0x1000 x)
     \<and> (\<forall>x. user (pte_of tiny_space 0x1000 x) \<longrightarrow> ubyte s' 0x1000 x =
          (if 8 \<le> x \<and> unat x < unat (8 :: u32) + length [7, 9 :: u8] then [7, 9] ! (unat x - unat (8 :: u32)) else ubyte tiny_space 0x1000 x))"
  proof (rule copyout_writes [OF tiny_space_ok(1)])
    show "\<forall>x. 8 \<le> x \<and> unat x < unat (8 :: u32) + length [7, 9 :: u8] \<longrightarrow> user (pte_of tiny_space 0x1000 x)"
    proof (intro allI impI)
      fix x :: u32 assume "8 \<le> x \<and> unat x < unat (8 :: u32) + length [7, 9 :: u8]"
      then have "x < 0x1000" by (simp add: word_less_nat_alt)
      then show "user (pte_of tiny_space 0x1000 x)"
        using pg [of x] by (simp add: tiny_pte user_def present_def PTE_P_def PTE_U_def)
    qed
  qed (simp add: USERTOP_def)
  then obtain s' where s': "copyout 0 0x1000 8 [7, 9] tiny_space = (0, s')"
     "\<forall>x. user (pte_of tiny_space 0x1000 x) \<longrightarrow> ubyte s' 0x1000 x =
          (if 8 \<le> x \<and> unat x < unat (8 :: u32) + length [7, 9 :: u8] then [7, 9] ! (unat x - unat (8 :: u32)) else ubyte tiny_space 0x1000 x)"
    by blast
  have "user (pte_of tiny_space 0x1000 9)"
    using pg [of 9] by (simp add: tiny_pte user_def present_def PTE_P_def PTE_U_def)
  then show ?thesis using s'(1) spec [OF s'(2), of 9] by (intro exI [of _ s']) simp
qed

end
