(* ===== verification/VmShm.thy ===== *)
theory VmShm
  imports VmSpace
begin

text \<open>
  Shared memory: where \<open>shmgetat\<close> maps the pages of a key, and what goes wrong when the callers of a
  key disagree about its number of pages or a key has been released.
\<close>

lemma next_free_here:
  assumes ok: "pt_ok kend s ps pd" and "present (pde_at s pd va)" and "\<not> present (pte_of s pd va)" and "0 < n"
  shows "next_free_va n pd va s = Inr (Some va)"
proof -
  obtain m where "n = Suc m" using assms(4) by (cases n) auto
  then show ?thesis
    using walk_present(1) [OF ok refl, of va] pt_ok_table(6) [OF ok assms(2)] assms(2,3) by (simp add: walk_False Let_def)
qed

lemma next_free_skip:
  assumes ok: "pt_ok kend s ps pd" and "present (pte_of s pd va)"
  shows "next_free_va (Suc n) pd va s = next_free_va n pd (va - PGSIZE) s"
  using walk_present [OF ok refl, of va] assms(2) by (simp add: Let_def)

lemma map_absent:
  assumes ok: "pt_ok kend s ps pd" and a: "a mod 4096 = 0" "\<not> present (pte_of s pd a)" "present (pde_at s pd a)"
  shows "\<exists>s'. mappages pd a PGSIZE p perm s = (0, s') \<and> pt_ok kend s' ps pd \<and> (\<forall>va. pde_at s' pd va = pde_at s pd va)
     \<and> (\<forall>va. pte_of s' pd va = (if pg va = a then p OR perm OR PTE_P else pte_of s pd va))"
proof -
  have "walkpgdir pd a True s = (slot s pd a, s)" using a(3) by (simp add: walkpgdir_def Let_def pde_at_def slot_def)
  moreover have "\<not> present (mem s (slot s pd a))" using a(2,3) by (simp add: pte_of_def)
  ultimately have "mappages pd a PGSIZE p perm s = (0, poke (slot s pd a) (p OR perm OR PTE_P) s)"
    using pt_ok_table(6) [OF ok a(3)] by (simp add: mappages_page [OF a(1)] mappages_loop.simps)
  then show ?thesis using poke_slot [OF ok a(3), of "p OR perm OR PTE_P"] a(1) by auto
qed

lemma pages_below_top:
  assumes "k \<le> 160"
  shows "unat (USERTOP - of_nat (4096 * k)) = 655360 - 4096 * k" and "(USERTOP - of_nat (4096 * k)) mod 4096 = 0"
proof -
  have k: "unat (of_nat (4096 * k) :: u32) = 4096 * k" by (rule unat_of_nat_small) (use assms in simp)
  have "(of_nat (4096 * k) :: u32) \<le> USERTOP" unfolding word_le_nat_alt k using assms by (simp add: USERTOP_def)
  then show u: "unat (USERTOP - of_nat (4096 * k)) = 655360 - 4096 * k"
    using k by (simp add: unat_sub) (simp add: USERTOP_def)
  have "655360 - 4096 * k = 4096 * (160 - k)" by (simp add: diff_mult_distrib2)
  then show "(USERTOP - of_nat (4096 * k)) mod 4096 = 0" unfolding unat_aligned u by simp
qed

text \<open>The address of the \<open>k\<close>-th page below \<open>USERTOP\<close>.\<close>

definition top_page :: "nat \<Rightarrow> u32" where "top_page k = USERTOP - of_nat (4096 * Suc k)"

lemma top_page:
  assumes "k < 160"
  shows "unat (top_page k) = 655360 - 4096 * Suc k" and "top_page k mod 4096 = 0" and "top_page k < USERTOP"
    and "pg (top_page k) = top_page k"
proof -
  show u: "unat (top_page k) = 655360 - 4096 * Suc k" and a: "top_page k mod 4096 = 0"
    using pages_below_top [of "Suc k"] assms by (simp_all only: top_page_def)
  show "top_page k < USERTOP" unfolding word_less_nat_alt u by (simp add: USERTOP_def)
  show "pg (top_page k) = top_page k" using a by simp
qed

lemma top_page_Suc: "top_page k - PGSIZE = top_page (Suc k)" "USERTOP - PGSIZE = top_page 0"
  by (simp_all add: top_page_def PGSIZE_def algebra_simps)

lemma top_page_eq: "j < 160 \<Longrightarrow> k < 160 \<Longrightarrow> top_page j = top_page k \<longleftrightarrow> j = k"
  using top_page(1) [of j] top_page(1) [of k] by auto

definition shared_pte :: "u32 \<Rightarrow> u32" where "shared_pte f = f OR (PTE_W OR PTE_U) OR PTE_P"

lemma present_shared: "present (shared_pte f)"
  by (simp add: shared_pte_def present_bit bit_or_iff bit_flags)

lemma shm_map_result:
  assumes "pt_ok kend s ps pd" and "present (pde_at s pd 0)" and "j + length fs \<le> 160"
    and "\<And>i. i < length fs \<Longrightarrow> \<not> present (pte_of s pd (top_page (j + i)))"
    and "fs \<noteq> [] \<Longrightarrow> next_free_va ALL_PAGES pd va s = Inr (Some (top_page j))"
  shows "\<exists>s'. shm_map pd fs va s = Inr (Some (if fs = [] then va else top_page (j + length fs - 1)), s') \<and> pt_ok kend s' ps pd
     \<and> (\<forall>i < length fs. pte_of s' pd (top_page (j + i)) = shared_pte (fs ! i))
     \<and> (\<forall>x. pg x \<notin> (\<lambda>i. top_page (j + i)) ` {..<length fs} \<longrightarrow> pte_of s' pd x = pte_of s pd x)"
  using assms
proof (induction fs arbitrary: j va s)
  case (Cons f fs)
  have j: "j < 160" using Cons.prems(3) by simp
  have pde: "present (pde_at s pd (top_page k))" if "k < 160" for k
    using Cons.prems(2) PDX_user [OF top_page(3) [OF that]] by (simp add: pde_at_def PDX_def)
  have abs: "\<not> present (pte_of s pd (top_page j))" using Cons.prems(4) [of 0] by simp
  obtain s1 where 1: "mappages pd (top_page j) PGSIZE f (PTE_W OR PTE_U) s = (0, s1)" "pt_ok kend s1 ps pd"
      "\<forall>va. pde_at s1 pd va = pde_at s pd va"
      "\<forall>va. pte_of s1 pd va = (if pg va = top_page j then shared_pte f else pte_of s pd va)"
    using map_absent [OF Cons.prems(1) top_page(2) [OF j] abs pde [OF j], of f "PTE_W OR PTE_U"] by (auto simp: shared_pte_def)
  have ne: "top_page (Suc j + i) \<noteq> top_page j" if "i < length fs" for i
    using that Cons.prems(3) top_page_eq [of "Suc j + i" j] by auto
  have abs1: "\<not> present (pte_of s1 pd (top_page (Suc j + i)))" if "i < length fs" for i
    using Cons.prems(4) [of "Suc i"] that 1(4) ne [OF that] Cons.prems(3) top_page(4) [of "Suc j + i"] by auto
  have nf: "next_free_va ALL_PAGES pd (top_page j) s1 = Inr (Some (top_page (Suc j)))" if "fs \<noteq> []"
  proof -
    have l: "0 < length fs" using that by simp
    then have "Suc j < 160" using Cons.prems(3) by (cases fs) auto
    then have pj: "present (pde_at s1 pd (top_page (Suc j)))" using 1(3) pde by simp
    have "ALL_PAGES = Suc (ALL_PAGES - 1)" "0 < ALL_PAGES - 1" by (simp_all add: ALL_PAGES_def)
    moreover have "present (pte_of s1 pd (top_page j))" using 1(4) top_page(4) [OF j] by (simp add: present_shared)
    ultimately have "next_free_va ALL_PAGES pd (top_page j) s1 = next_free_va (ALL_PAGES - 1) pd (top_page (Suc j)) s1"
      using next_free_skip [OF 1(2), of "top_page j" "ALL_PAGES - 1"] by (simp add: top_page_Suc)
    also have "\<dots> = Inr (Some (top_page (Suc j)))"
      by (rule next_free_here [OF 1(2) pj]) (use l abs1 [of 0] in \<open>auto simp: ALL_PAGES_def\<close>)
    finally show ?thesis .
  qed
  have pd1: "present (pde_at s1 pd 0)" using 1(3) Cons.prems(2) by simp
  have l1: "Suc j + length fs \<le> 160" using Cons.prems(3) by simp
  from Cons.IH [OF 1(2) pd1 l1 abs1 nf] obtain s' where 2:
      "shm_map pd fs (top_page j) s1 = Inr (Some (if fs = [] then top_page j else top_page (Suc j + length fs - 1)), s')"
      "pt_ok kend s' ps pd" "\<forall>i < length fs. pte_of s' pd (top_page (Suc j + i)) = shared_pte (fs ! i)"
      "\<forall>x. pg x \<notin> (\<lambda>i. top_page (Suc j + i)) ` {..<length fs} \<longrightarrow> pte_of s' pd x = pte_of s1 pd x" by blast
  have first: "pte_of s' pd (top_page j) = shared_pte f"
  proof -
    have "pg (top_page j) \<notin> (\<lambda>i. top_page (Suc j + i)) ` {..<length fs}" using ne top_page(4) [OF j] by force
    then show ?thesis using 2(4) 1(4) top_page(4) [OF j] by simp
  qed
  have all: "pte_of s' pd (top_page (j + i)) = shared_pte ((f # fs) ! i)" if "i < length (f # fs)" for i
    using that first 2(3) by (cases i) auto
  have rest: "pte_of s' pd x = pte_of s pd x" if x: "pg x \<notin> (\<lambda>i. top_page (j + i)) ` {..<length (f # fs)}" for x
  proof -
    have "pg x \<noteq> top_page j" using x by force
    moreover have "pg x \<notin> (\<lambda>i. top_page (Suc j + i)) ` {..<length fs}"
    proof
      assume "pg x \<in> (\<lambda>i. top_page (Suc j + i)) ` {..<length fs}"
      then obtain i where "i < length fs" "pg x = top_page (j + Suc i)" by auto
      then have "pg x \<in> (\<lambda>i. top_page (j + i)) ` {..<length (f # fs)}" by (intro image_eqI [of _ _ "Suc i"]) auto
      then show False using x by simp
    qed
    ultimately show ?thesis using 2(4) 1(4) by simp
  qed
  have "shm_map pd (f # fs) va s = shm_map pd fs (top_page j) s1" using Cons.prems(5) 1(1) by simp
  then show ?case using 2(1,2) all rest by (intro exI [of _ s']) auto
qed simp

text \<open>The search passes over the pages that are mapped below \<open>USERTOP\<close>.\<close>

lemma next_free_below:
  assumes ok: "pt_ok kend s ps pd" and kvm: "present (pde_at s pd 0)" and m: "m < 160"
    and p: "\<And>i. i < m \<Longrightarrow> present (pte_of s pd (top_page i))" and np: "\<not> present (pte_of s pd (top_page m))"
  shows "j \<le> m \<Longrightarrow> m - j < n \<Longrightarrow> next_free_va n pd (top_page j) s = Inr (Some (top_page m))"
proof (induction "m - j" arbitrary: j n)
  case 0
  have "present (pde_at s pd (top_page m))" using kvm PDX_user [OF top_page(3) [OF m]] by (simp add: pde_at_def PDX_def)
  then show ?case using next_free_here [OF ok _ np] 0 by auto
next
  case (Suc d)
  then obtain n' where n: "n = Suc n'" by (cases n) auto
  have "next_free_va n pd (top_page j) s = next_free_va n' pd (top_page (Suc j)) s"
    unfolding n using next_free_skip [OF ok p [of j]] Suc by (simp add: top_page_Suc)
  then show ?case using Suc.hyps(1) [of "Suc j" n'] Suc.hyps(2) Suc.prems n by simp
qed

lemma shm_alloc_result:
  assumes "pt_ok kend s ps pd" and "n \<le> length ps"
  shows "\<exists>s'. shm_alloc n s = Inr (take n ps, s') \<and> pt_ok kend s' (drop n ps) pd \<and> (\<forall>va. pte_of s' pd va = pte_of s pd va)
     \<and> (\<forall>va. pde_at s' pd va = pde_at s pd va)"
  using assms
proof (induction n arbitrary: s ps)
  case (Suc n)
  then obtain p qs where q: "ps = p # qs" by (cases ps) auto
  have rep: "kmem_rep kend s (p # qs)" using Suc.prems(1) by (simp add: q pt_ok_def)
  obtain s1 where k: "kalloc s = (p, s1)" "kmem_rep kend s1 qs" "mem s1 = mem s" using kalloc_rep_Cons [OF rep] by blast
  have p: "page_ok kend p" "p \<notin> set qs" "p \<noteq> 0" "p \<notin> pt_pages s pd"
    using rep page_ok_nonzero [OF rep] Suc.prems(1) by (auto simp: kmem_rep_def pt_ok_def q)
  have same: "mem (zero_page p s1) a = mem s a" if "pg a \<in> pt_pages s pd" for a
    using that p(4) mem_zero_page [OF page_ok_aligned [OF p(1)], of s1 a] by (auto simp: k(3))
  note st = same_tables [OF Suc.prems(1) same]
  have ok1: "pt_ok kend (zero_page p s1) qs pd"
    by (rule pt_ok_frame [OF Suc.prems(1) same kmem_rep_zero [OF k(2) p(1,2)]]) (use Suc.prems(1) in \<open>auto simp: pt_ok_def q\<close>)
  from Suc.IH [OF ok1] Suc.prems(2) obtain s' where "shm_alloc n (zero_page p s1) = Inr (take n qs, s')" "pt_ok kend s' (drop n qs) pd"
    "\<forall>va. pte_of s' pd va = pte_of (zero_page p s1) pd va" "\<forall>va. pde_at s' pd va = pde_at (zero_page p s1) pd va"
    by (auto simp: q)
  then show ?case using k(1) p(3) st(1,2) by (simp add: q)
qed simp

text \<open>
  The pages below \<open>USERTOP\<close> that a process has mapped for other keys are the first \<open>m\<close>; the \<open>n\<close> below them are free.
\<close>

definition room_below :: "kmem \<Rightarrow> u32 \<Rightarrow> nat \<Rightarrow> nat \<Rightarrow> bool" where
  "room_below s pd m n = (m + n \<le> 160 \<and> (\<forall>i < m. view s pd (top_page i) \<noteq> None) \<and> (\<forall>i < n. view s pd (top_page (m + i)) = None))"

lemma shmgetat_result:
  assumes ok: "pt_ok kend (phys v) ps (shm_pgdir pr)" and kvm: "present (pde_at (phys v) (shm_pgdir pr) 0)"
    and free: "room_below (phys v) (shm_pgdir pr) m (nat n)"
    and key: "0 \<le> key" "key \<le> 7" "1 \<le> n" "n \<le> 4" "shm_va pr ! nat key = USERTOP" "length (shm_va pr) = 8" "length (keys v) = 8"
    and k: "k = keys v ! nat key" "length (page_ptr k) = 4" "ref_count k = 0 \<longrightarrow> nat n \<le> length ps"
  shows "\<exists>pr' v'. shmgetat key n pr v = Inr (top_page (m + nat n - 1), pr', v') \<and> shm_va pr' ! nat key = top_page (m + nat n - 1)
     \<and> shm_sz pr' = min (shm_sz pr) (top_page (m + nat n - 1))
     \<and> (\<exists>k'. keys v' = (keys v)[nat key := k'] \<and> ref_count k' = ref_count k + 1 \<and> num_pages k' = n
        \<and> (\<forall>i < nat n. view (phys v') (shm_pgdir pr) (top_page (m + i)) = Some (shared_pte (page_ptr k' ! i)))
        \<and> (if ref_count k = 0 then take (nat n) (page_ptr k') = take (nat n) ps else page_ptr k' = page_ptr k))
     \<and> (\<forall>x. pg x \<notin> (\<lambda>i. top_page (m + i)) ` {..<nat n} \<longrightarrow> view (phys v') (shm_pgdir pr) x = view (phys v) (shm_pgdir pr) x)"
proof -
  let ?pd = "shm_pgdir pr" let ?n = "nat n"
  have n: "1 \<le> ?n" "?n \<le> 4" using key by auto
  have mn: "m + ?n \<le> 160" using free by (simp add: room_below_def)
  have fr: "\<not> present (pte_of (phys v) ?pd (top_page (m + i)))" if "i < ?n" for i
    using free that by (auto simp: room_below_def view_def split: if_splits)
  have mp: "present (pte_of (phys v) ?pd (top_page i))" if "i < m" for i
    using free that by (auto simp: room_below_def view_def split: if_splits)
  define fs where "fs = (if ref_count k = 0 then take ?n ps else [])"
  obtain s1 qs where 1: "(if ref_count k = 0 then shm_alloc ?n (phys v) else Inr ([], phys v)) = Inr (fs, s1)"
      "pt_ok kend s1 qs ?pd" "\<forall>va. pte_of s1 ?pd va = pte_of (phys v) ?pd va" "\<forall>va. pde_at s1 ?pd va = pde_at (phys v) ?pd va"
    using shm_alloc_result [OF ok, of ?n] k(3) ok by (cases "ref_count k = 0") (auto simp: fs_def)
  define k1 where "k1 = k\<lparr>page_ptr := fs @ drop (length fs) (page_ptr k), ref_count := ref_count k + 1, num_pages := n\<rparr>"
  have lf: "length fs = (if ref_count k = 0 then ?n else 0)" using k(3) by (simp add: fs_def)
  have kp: "key_pages k1 = take ?n (fs @ drop (length fs) (page_ptr k))" "length (key_pages k1) = ?n"
    using n k(2) lf by (simp_all add: key_pages_def k1_def)
  have abs: "\<not> present (pte_of s1 ?pd (top_page (m + i)))" if "i < length (key_pages k1)" for i
    using fr [of i] that kp(2) 1(3) by simp
  have pd1: "present (pde_at s1 ?pd 0)" using 1(4) kvm by simp
  have nf: "next_free_va ALL_PAGES ?pd (USERTOP - PGSIZE) s1 = Inr (Some (top_page m))"
    unfolding top_page_Suc
    by (rule next_free_below [OF 1(2) pd1]) (use abs [of 0] mp 1(3) kp(2) n mn in \<open>auto simp: ALL_PAGES_def\<close>)
  have l4: "m + length (key_pages k1) \<le> 160" using kp(2) mn by simp
  have ne: "key_pages k1 \<noteq> []" using kp(2) n by auto
  obtain s2 where 2: "shm_map ?pd (key_pages k1) (USERTOP - PGSIZE) s1 = Inr (Some (top_page (m + ?n - 1)), s2)"
      "\<forall>i < ?n. pte_of s2 ?pd (top_page (m + i)) = shared_pte (key_pages k1 ! i)"
      "\<forall>x. pg x \<notin> (\<lambda>i. top_page (m + i)) ` {..<?n} \<longrightarrow> pte_of s2 ?pd x = pte_of s1 ?pd x"
    using shm_map_result [OF 1(2) pd1 l4 abs nf] ne kp(2) by auto
  have nk: "nat key < 8" using key by simp
  define v1 where "v1 = v\<lparr>phys := s2, keys := (keys v)[nat key := k1]\<rparr>"
  define pr1 where "pr1 = pr\<lparr>shm_va := (shm_va pr)[nat key := top_page (m + ?n - 1)],
     shm_sz := (if shm_sz pr > top_page (m + ?n - 1) then top_page (m + ?n - 1) else shm_sz pr)\<rparr>"
  have "key_pages k1 = take ?n (page_ptr k1)" by (simp add: key_pages_def k1_def del: take_append)
  then have vw: "view (phys v1) ?pd (top_page (m + i)) = Some (shared_pte (page_ptr k1 ! i))" if "i < ?n" for i
    using 2(2) that by (simp add: view_def present_shared v1_def)
  show ?thesis
  proof (intro exI [of _ pr1] exI [of _ v1] exI [of _ k1] conjI)
    show "shmgetat key n pr v = Inr (top_page (m + ?n - 1), pr1, v1)"
      using key 1(1) 2(1) unfolding shmgetat_def Let_def k(1) [symmetric]
      by (simp add: k1_def [symmetric] v1_def pr1_def)
    show "shm_va pr1 ! nat key = top_page (m + ?n - 1)" using nk key by (simp add: pr1_def)
    show "shm_sz pr1 = min (shm_sz pr) (top_page (m + ?n - 1))" by (auto simp: pr1_def min_def simp del: One_nat_def)
    show "keys v1 = (keys v)[nat key := k1]" by (simp add: v1_def)
    show "ref_count k1 = ref_count k + 1" "num_pages k1 = n" by (simp_all add: k1_def)
    show "\<forall>i < ?n. view (phys v1) ?pd (top_page (m + i)) = Some (shared_pte (page_ptr k1 ! i))" using vw by blast
    show "if ref_count k = 0 then take ?n (page_ptr k1) = take ?n ps else page_ptr k1 = page_ptr k"
      using k(3) by (simp add: k1_def fs_def)
    show "\<forall>x. pg x \<notin> (\<lambda>i. top_page (m + i)) ` {..<?n} \<longrightarrow> view (phys v1) ?pd x = view (phys v) ?pd x"
      using 2(3) 1(3) by (simp add: view_def v1_def)
  qed
qed

subsection \<open>Properties\<close>


definition shm_user :: shmproc where
  "shm_user = \<lparr>shm_pgdir = 0x1000, shm_va = replicate 8 USERTOP, shm_sz = USERTOP\<rparr>"

definition shm_state :: "shmkey \<Rightarrow> vm" where
  "shm_state k = \<lparr>phys = tiny_space, keys = replicate 8 k\<rparr>"

lemma tiny_top: "view tiny_space 0x1000 (top_page k) = None" if "k < 159"
proof -
  have "unat (top_page k) \<noteq> unat (0 :: u32)" using top_page(1) [of k] that by simp
  then have "top_page k \<noteq> 0" by metis
  then show ?thesis using top_page(4) [of k] that by (simp add: view_def tiny_pte)
qed


text \<open>\<open>shmgetat\<close> trusts the number of pages of the caller: a process that asks for more pages than the key
  was made with gets mappings for page pointers that were never filled. For a key of one page, a request for two maps
  physical page 0, writable, into the process.\<close>

theorem shmgetat_maps_page_zero:
  assumes ok: "pt_ok kend (phys v) ps (shm_pgdir pr)" and kvm: "present (pde_at (phys v) (shm_pgdir pr) 0)"
    and free: "room_below (phys v) (shm_pgdir pr) m 2"
    and key: "0 \<le> key" "key \<le> 7" "shm_va pr ! nat key = USERTOP" "length (shm_va pr) = 8" "length (keys v) = 8"
    and k: "keys v ! nat key = \<lparr>ref_count = 1, num_pages = 1, page_ptr = [f, 0, 0, 0]\<rparr>"
  shows "\<exists>pr' v'. shmgetat key 2 pr v = Inr (top_page (m + 1), pr', v')
     \<and> view (phys v') (shm_pgdir pr) (top_page (m + 1)) = Some (shared_pte 0)"
proof -
  let ?k = "\<lparr>ref_count = 1, num_pages = 1, page_ptr = [f, 0, 0, 0]\<rparr>"
  have "room_below (phys v) (shm_pgdir pr) m (nat 2)" using free by simp
  note r = shmgetat_result [OF ok kvm this key(1,2) _ _ key(3-5), where k = ?k]
  have e: "1 \<le> (2 :: int)" "(2 :: int) \<le> 4" "length (page_ptr ?k) = 4" "ref_count ?k = 0 \<longrightarrow> nat 2 \<le> length ps" by simp_all
  from r [OF e(1,2) k [symmetric] e(3,4)] show ?thesis
  proof (elim exE conjE)
    fix pr' v' k' assume r': "shmgetat key 2 pr v = Inr (top_page (m + nat 2 - 1), pr', v')"
      "\<forall>i < nat 2. view (phys v') (shm_pgdir pr) (top_page (m + i)) = Some (shared_pte (page_ptr k' ! i))"
      "if ref_count ?k = 0 then take (nat 2) (page_ptr k') = take (nat 2) ps else page_ptr k' = page_ptr ?k"
    have "view (phys v') (shm_pgdir pr) (top_page (m + 1)) = Some (shared_pte 0)" using r'(2) [rule_format, of 1] r'(3) by simp
    moreover have "m + nat 2 - 1 = m + 1" by simp
    ultimately show ?thesis using r'(1) by metis
  qed
qed

theorem shmgetat_maps_page_zero_witness:
  "\<exists>pr' v'. shmgetat 3 2 shm_user (shm_state \<lparr>ref_count = 1, num_pages = 1, page_ptr = [0x5000, 0, 0, 0]\<rparr>) = Inr (top_page 1, pr', v')
     \<and> view (phys v') (shm_pgdir shm_user) (top_page 1) = Some (shared_pte 0)"
  using shmgetat_maps_page_zero [of "0x1000" "shm_state \<lparr>ref_count = 1, num_pages = 1, page_ptr = [0x5000, 0, 0, 0]\<rparr>" "[0x4000]" shm_user 0 3 "0x5000"]
    tiny_space_ok as_okD(1) [OF tiny_space_ok(1)] tiny_top
  by (auto simp: shm_state_def shm_user_def room_below_def)

end
