(* ===== verification/Exec.thy ===== *)
theory Exec
  imports VmCopyout VmSetup
begin

text \<open>
  \<open>exec\<close> of project 3, \<open>kernel/exec.c\<close>, on the address spaces of \<open>Vm\<close>. The functions of \<open>fs.c\<close> that it calls are the
  record \<open>exec_files\<close> over a state \<open>'f\<close> of the file system; the buffer of the file header holds \<open>junk\<close> before it
  is read. A character is a byte, a string the bytes before its zero.
\<close>

record 'f exec_files =
  ex_namei :: "u8 list \<Rightarrow> 'f \<Rightarrow> kerr + u32 \<times> 'f"
  ex_ilock :: "u32 \<Rightarrow> 'f \<Rightarrow> kerr + 'f"
  ex_readi :: "u32 \<Rightarrow> u32 \<Rightarrow> u32 \<Rightarrow> 'f \<Rightarrow> kerr + (int \<times> u8 list) \<times> 'f"
  ex_iunlockput :: "u32 \<Rightarrow> 'f \<Rightarrow> kerr + 'f"

text \<open>The fields of \<open>struct proc\<close> and of its trap frame that \<open>exec\<close> sets.\<close>

record exproc = shmproc +
  ex_sz :: u32
  ex_name :: "u8 list"
  ex_eip :: u32
  ex_esp :: u32

record elfhdr =
  e_magic :: u32
  e_entry :: u32
  e_phoff :: u32
  e_phnum :: u16

record proghdr =
  p_type :: u32
  p_offset :: u32
  p_va :: u32
  p_filesz :: u32
  p_memsz :: u32

definition ELF_MAGIC :: u32 where "ELF_MAGIC = 0x464C457F"
definition ELF_PROG_LOAD :: u32 where "ELF_PROG_LOAD = 1"
definition MAXARG :: nat where "MAXARG = 32"

definition dec_elfhdr :: "u8 list \<Rightarrow> elfhdr" where
  "dec_elfhdr b = \<lparr>e_magic = word32 b, e_entry = word32 (drop 24 b), e_phoff = word32 (drop 28 b), e_phnum = word16 (drop 44 b)\<rparr>"

definition dec_proghdr :: "u8 list \<Rightarrow> proghdr" where
  "dec_proghdr b = \<lparr>p_type = word32 b, p_offset = word32 (drop 4 b), p_va = word32 (drop 8 b), p_filesz = word32 (drop 16 b),
     p_memsz = word32 (drop 20 b)\<rparr>"

text \<open>The loop over the program headers: whether it ran to its end, and the size.\<close>

primrec load_segments :: "'f exec_files \<Rightarrow> u32 \<Rightarrow> u32 \<Rightarrow> u32 \<Rightarrow> nat \<Rightarrow> u32 \<Rightarrow> u32 \<Rightarrow> kmem \<times> 'f \<Rightarrow> kerr + (bool \<times> u32) \<times> (kmem \<times> 'f)" where
  "load_segments F ip kend pgdir 0 off len sf = Inr ((True, len), sf)"
| "load_segments F ip kend pgdir (Suc n) off len sf =
     bindE (ex_readi F ip off 32 (snd sf)) (\<lambda>((r, b), f).
       let sf = (fst sf, f); ph = dec_proghdr b in
       if (word_of_int r :: u32) \<noteq> 32 then Inr ((False, len), sf)
       else if p_type ph \<noteq> ELF_PROG_LOAD then load_segments F ip kend pgdir n (off + 32) len sf
       else if p_memsz ph < p_filesz ph then Inr ((False, len), sf)
       else bindE (allocuvm kend pgdir len (p_va ph + p_memsz ph) (fst sf)) (\<lambda>(len, s).
         if len = 0 then Inr ((False, 0), (s, f))
         else bindE (loaduvm (ex_readi F ip) pgdir (p_va ph) (p_offset ph) (p_filesz ph) (s, f)) (\<lambda>(r, sf).
           if r < 0 then Inr ((False, len), sf) else load_segments F ip kend pgdir n (off + 32) len sf)))"

text \<open>The loop that pushes the argument strings: the stack pointer and the addresses of the strings.\<close>

fun push_args :: "u32 \<Rightarrow> u32 \<Rightarrow> nat \<Rightarrow> u8 list list \<Rightarrow> u32 \<Rightarrow> kmem \<Rightarrow> (u32 \<times> u32 list) option \<times> kmem" where
  "push_args nul pgdir argc [] sp s = (Some (sp, []), s)"
| "push_args nul pgdir argc (a # as) sp s =
     (if argc \<ge> MAXARG then (None, s)
      else
        (let sp = (sp - of_nat (length a + 1)) AND NOT 3; (r, s) = copyout nul pgdir sp (a @ [0]) s in
         if r < 0 then (None, s)
         else (case push_args nul pgdir (Suc argc) as sp s of
             (None, s) \<Rightarrow> (None, s)
           | (Some (sp', ptrs), s) \<Rightarrow> (Some (sp', sp # ptrs), s))))"

definition base_name :: "u8 list \<Rightarrow> u8 list" where
  "base_name path = rev (takeWhile (\<lambda>c. c \<noteq> 47) (rev path))"

definition exec_bad :: "'f exec_files \<Rightarrow> u32 \<Rightarrow> u32 \<Rightarrow> u32 \<Rightarrow> u32 \<Rightarrow> 'a \<Rightarrow> vm \<times> 'f \<Rightarrow> kerr + int \<times> 'a \<times> vm \<times> 'f" where
  "exec_bad F kend ip pgdir len pr vf =
     bindE (if pgdir \<noteq> 0 then freevm kend pgdir len (fst vf) else Inr (fst vf)) (\<lambda>v.
     bindE (if ip \<noteq> 0 then ex_iunlockput F ip (snd vf) else Inr (snd vf)) (\<lambda>f. Inr (-1, pr, v, f)))"

definition ustack :: "u32 \<Rightarrow> u32 list \<Rightarrow> u8 list" where
  "ustack sp ptrs = concat (map le32 (0xFFFFFFFF # of_nat (length ptrs) # (sp - of_nat ((length ptrs + 1) * 4)) # ptrs @ [0]))"

definition exec :: "'f exec_files \<Rightarrow> u32 \<Rightarrow> u32 \<Rightarrow> u32 \<Rightarrow> u8 list \<Rightarrow> u8 list \<Rightarrow> u8 list list \<Rightarrow> exproc \<Rightarrow> vm \<times> 'f
    \<Rightarrow> kerr + int \<times> exproc \<times> vm \<times> 'f" where
  "exec F kend kdata nul junk path argv pr vf =
     bindE (ex_namei F path (snd vf)) (\<lambda>(ip, f).
     if ip = 0 then Inr (-1, pr, fst vf, f)
     else bindE (ex_ilock F ip f) (\<lambda>f.
     bindE (ex_readi F ip 0 52 f) (\<lambda>((r, b), f).
     let elf = dec_elfhdr (b @ drop (length b) junk); v = fst vf in
     if (word_of_int r :: u32) < 52 \<or> e_magic elf \<noteq> ELF_MAGIC then exec_bad F kend ip 0 0 pr (v, f)
     else
       (let (pgdir, s) = setupkvm kdata (phys v) in
        if pgdir = 0 then exec_bad F kend ip 0 0 pr (v\<lparr>phys := s\<rparr>, f)
        else bindE (load_segments F ip kend pgdir (unat (e_phnum elf)) (e_phoff elf) 0 (s, f)) (\<lambda>((ok, len), (s, f)).
        if \<not> ok then exec_bad F kend ip pgdir len pr (v\<lparr>phys := s\<rparr>, f)
        else bindE (ex_iunlockput F ip f) (\<lambda>f.
        let len = PGROUNDUP len in
        bindE (allocuvm kend pgdir len (len + PGSIZE) s) (\<lambda>(len, s).
        if len = 0 then exec_bad F kend 0 pgdir 0 pr (v\<lparr>phys := s\<rparr>, f)
        else (case push_args nul pgdir 0 argv len s of
            (None, s) \<Rightarrow> exec_bad F kend 0 pgdir len pr (v\<lparr>phys := s\<rparr>, f)
          | (Some (sp, ptrs), s) \<Rightarrow>
              (let us = ustack sp ptrs; sp = sp - of_nat (length us); (r, s) = copyout nul pgdir sp us s in
               if r < 0 then exec_bad F kend 0 pgdir len pr (v\<lparr>phys := s\<rparr>, f)
               else bindE (freevm kend (shm_pgdir pr) (ex_sz pr) (v\<lparr>phys := s\<rparr>)) (\<lambda>v.
                 Inr (0, pr\<lparr>ex_name := take 15 (base_name path), shm_pgdir := pgdir, ex_sz := len, ex_eip := e_entry elf,
                   ex_esp := sp, shm_va := replicate 8 USERTOP, shm_sz := USERTOP\<rparr>, v, f)))))))))))"

subsection \<open>The image of a program\<close>

text \<open>The address space \<open>pd\<close> holds the user pages below \<open>len\<close> with the bytes \<open>B\<close> and no other. \<open>P\<close> are the pages that it and the
  free list had at the start, \<open>T\<close> the pages of its tables; nothing else has changed since \<open>s0\<close>.\<close>

definition image :: "u32 \<Rightarrow> u32 set \<Rightarrow> u32 set \<Rightarrow> kmem \<Rightarrow> u32 \<Rightarrow> u32 \<Rightarrow> (u32 \<Rightarrow> u8) \<Rightarrow> kmem \<Rightarrow> u32 list \<Rightarrow> bool" where
  "image kend P T s0 pd len B s ps = (as_ok kend s ps pd \<and> len \<le> USERTOP \<and> present (pde_at s pd 0) \<and> pt_pages s pd = T
     \<and> owned s pd \<union> set ps = P \<and> touches P s0 s
     \<and> (\<forall>va. va < PGROUNDUP len \<longrightarrow> user (pte_of s pd va) \<and> ubyte s pd va = B va)
     \<and> (\<forall>va. PGROUNDUP len \<le> va \<and> va < USERTOP \<longrightarrow> \<not> present (pte_of s pd va))
     \<and> (\<forall>va. PGROUNDUP len \<le> va \<longrightarrow> \<not> user (pte_of s pd va)))"

definition overlay :: "nat \<Rightarrow> u8 list \<Rightarrow> (u32 \<Rightarrow> u8) \<Rightarrow> (u32 \<Rightarrow> u8)" where
  "overlay a bs B = (\<lambda>x. if a \<le> unat x \<and> unat x < a + length bs then bs ! (unat x - a) else B x)"

lemma USERTOP_nat: "unat USERTOP = 655360"
  by (simp add: USERTOP_def)

lemma unat_pg: "unat (pg va) = 4096 * (unat va div 4096)"
proof -
  have "unat va = unat (pg va) + unat va mod 4096" using unat_split [of va] by (simp add: unat_mod)
  then show ?thesis using mult_div_mod_eq [of 4096 "unat va"] by linarith
qed

lemma pg_less_aligned:
  assumes "b mod 4096 = 0"
  shows "va < b \<longleftrightarrow> pg va < (b :: u32)"
proof -
  obtain j where b: "unat b = 4096 * j" using assms unfolding unat_aligned by auto
  have "unat va < 4096 * j \<longleftrightarrow> unat va div 4096 < j" by (simp add: div_less_iff_less_mult mult.commute)
  then show ?thesis by (simp add: word_less_nat_alt b unat_pg)
qed

lemma mod_4_4096:
  assumes "f mod 4096 = 0"
  shows "f + (v :: nat) mod 4096 - (f + v mod 4096) mod 4 = f + (v - v mod 4) mod 4096"
proof -
  obtain k where f: "f = 4096 * k" using assms by auto
  have m: "v mod 4096 mod 4 = v mod 4" by (rule mod_mod_cancel) simp
  have "4096 * k = 4 * (1024 * k)" by simp
  then have "(4096 * k + v mod 4096) mod 4 = v mod 4" by (simp only: mod_mult_self4 m)
  moreover have "v mod 4 \<le> v mod 4096" using mod_less_eq_dividend [of "v mod 4096" 4] by (simp only: m)
  moreover have "(v - v mod 4) mod 4096 = v mod 4096 - v mod 4"
  proof -
    have "v - v mod 4 = 4096 * (v div 4096) + (v mod 4096 - v mod 4)" using calculation(2) mult_div_mod_eq [of 4096 v] by linarith
    moreover have "v mod 4096 - v mod 4 < 4096" by (simp add: less_imp_diff_less)
    ultimately show ?thesis by simp
  qed
  ultimately show ?thesis unfolding f by linarith
qed

lemma ubyte_cong:
  assumes ok: "as_ok kend s ps pd" and u: "user (pte_of s pd va)" and e: "pte_of s' pd va = pte_of s pd va"
    and m: "\<And>a. pg a = PTE_ADDR (pte_of s pd va) \<Longrightarrow> mem s' a = mem s a"
  shows "ubyte s' pd va = ubyte s pd va"
proof -
  have "pg (phys_addr s pd va - phys_addr s pd va mod 4) = PTE_ADDR (pte_of s pd va)"
    unfolding pg_word by (rule pg_phys_addr [OF u ok])
  then show ?thesis using m by (simp add: ubyte_def get_byte_def phys_addr_def e)
qed

lemma unat_sub_mod_4: "unat (a - a mod 4 :: u32) = unat a - unat a mod 4"
proof -
  have "a mod 4 \<le> a" by (simp add: word_le_nat_alt unat_mod)
  then show ?thesis using unat_sub_small [of "a mod 4" a] by (simp add: unat_mod)
qed

lemma ubyte_zero:
  assumes ok: "as_ok kend s ps pd" and u: "user (pte_of s pd va)" and z: "\<And>x. pg x = pg va \<Longrightarrow> uword s pd x = 0"
  shows "ubyte s pd va = 0"
proof -
  let ?f = "PTE_ADDR (pte_of s pd va)" and ?x = "va - va mod 4"
  have f: "page_ok kend ?f" by (rule as_okD(4) [OF ok u])
  have fa: "unat ?f mod 4096 = 0" by (rule iffD1 [OF unat_aligned page_ok_aligned [OF f]])
  have x: "pg ?x = pg va" by (rule pg_word)
  have ux: "unat ?x = unat va - unat va mod 4" using unat_sub_mod_4 .
  have p: "unat (phys_addr s pd y) = unat ?f + unat y mod 4096" if "pg y = pg va" for y
  proof -
    have "unat (?f + y mod 4096 + of_nat 0) = unat ?f + unat (y mod 4096) + 0" by (rule in_frame(2) [OF f]) (simp add: unat_mod_4096)
    then show ?thesis using pte_of_page [OF that, of s pd] by (simp add: phys_addr_def unat_mod)
  qed
  have "unat (phys_addr s pd va - phys_addr s pd va mod 4) = unat ?f + unat va mod 4096 - (unat ?f + unat va mod 4096) mod 4"
    using p [of va] by (simp add: unat_sub_mod_4)
  also have "\<dots> = unat ?f + (unat va - unat va mod 4) mod 4096" by (rule mod_4_4096 [OF fa])
  also have "\<dots> = unat (phys_addr s pd ?x)" using p [OF x] ux by simp
  finally have "phys_addr s pd va - phys_addr s pd va mod 4 = phys_addr s pd ?x" by (simp only: word_unat_eq_iff)
  then have "mem s (phys_addr s pd va - phys_addr s pd va mod 4) = 0" using z [OF x] by (simp only: uword_def)
  then show ?thesis unfolding ubyte_def get_byte_def by simp
qed

definition pages_of :: "u32 \<Rightarrow> nat" where
  "pages_of len = (unat len + 4095) div 4096"

lemma PGROUNDUP_pages: "len \<le> USERTOP \<Longrightarrow> unat (PGROUNDUP len) = 4096 * pages_of len"
  using PGROUNDUP_small(1) by (simp add: pages_of_def)

lemma below_PGROUNDUP:
  assumes "len \<le> USERTOP"
  shows "va < PGROUNDUP len \<longleftrightarrow> unat va div 4096 < pages_of len" and "pg va < len \<longleftrightarrow> unat va div 4096 < pages_of len"
proof -
  have "unat va < 4096 * pages_of len \<longleftrightarrow> unat va div 4096 < pages_of len" by (simp add: div_less_iff_less_mult mult.commute)
  then show "va < PGROUNDUP len \<longleftrightarrow> unat va div 4096 < pages_of len" by (simp add: word_less_nat_alt PGROUNDUP_pages [OF assms])
  have "4096 * q < n \<longleftrightarrow> q < (n + 4095) div 4096" for q n :: nat
  proof -
    have "q < (n + 4095) div 4096 \<longleftrightarrow> Suc q * 4096 \<le> n + 4095" using less_eq_div_iff_mult_less_eq [of 4096 "Suc q" "n + 4095"] by (simp add: Suc_le_eq)
    then show ?thesis by auto
  qed
  then show "pg va < len \<longleftrightarrow> unat va div 4096 < pages_of len" by (simp add: word_less_nat_alt unat_pg pages_of_def)
qed

lemma length_page_range: "len \<le> USERTOP \<Longrightarrow> length (page_range (PGROUNDUP len) new) = pages_of new - pages_of len"
proof -
  assume "len \<le> USERTOP"
  then have "length (page_range (PGROUNDUP len) new) = (unat new - 4096 * pages_of len + 4095) div 4096"
    by (simp add: page_range_def PGROUNDUP_pages)
  also have "\<dots> = pages_of new - pages_of len"
  proof (cases "4096 * pages_of len \<le> unat new")
    case True
    then obtain y where y: "unat new = 4096 * pages_of len + y" by (auto simp: le_iff_add)
    have "(unat new + 4095) div 4096 = pages_of len + (y + 4095) div 4096" unfolding y add.assoc by (rule div_mult_self4) simp
    then show ?thesis by (simp add: pages_of_def [of new] y)
  next
    case False
    then have "pages_of new \<le> pages_of len" unfolding pages_of_def by (simp add: div_le_mono less_mult_imp_div_less) 
    then show ?thesis using False by simp
  qed
  finally show ?thesis .
qed

lemma imageD:
  assumes "image kend P T s0 pd len B s ps"
  shows "as_ok kend s ps pd" "len \<le> USERTOP" "present (pde_at s pd 0)" "pt_pages s pd = T" "owned s pd \<union> set ps = P" "touches P s0 s"
    and "unat va div 4096 < pages_of len \<Longrightarrow> user (pte_of s pd va)" and "unat va div 4096 < pages_of len \<Longrightarrow> ubyte s pd va = B va"
    and "pages_of len \<le> unat va div 4096 \<Longrightarrow> va < USERTOP \<Longrightarrow> \<not> present (pte_of s pd va)"
    and "pages_of len \<le> unat va div 4096 \<Longrightarrow> \<not> user (pte_of s pd va)"
proof -
  show l: "as_ok kend s ps pd" "len \<le> USERTOP" "present (pde_at s pd 0)" "pt_pages s pd = T" "owned s pd \<union> set ps = P" "touches P s0 s"
    using assms unfolding image_def by blast+
  have va: "va < PGROUNDUP len \<longleftrightarrow> unat va div 4096 < pages_of len" by (rule below_PGROUNDUP(1) [OF l(2)])
  show "unat va div 4096 < pages_of len \<Longrightarrow> user (pte_of s pd va)" "unat va div 4096 < pages_of len \<Longrightarrow> ubyte s pd va = B va"
    using assms va unfolding image_def by blast+
  have "PGROUNDUP len \<le> va \<longleftrightarrow> pages_of len \<le> unat va div 4096" using va by (simp add: not_less [symmetric])
  then show "pages_of len \<le> unat va div 4096 \<Longrightarrow> va < USERTOP \<Longrightarrow> \<not> present (pte_of s pd va)"
    "pages_of len \<le> unat va div 4096 \<Longrightarrow> \<not> user (pte_of s pd va)" using assms unfolding image_def by blast+
qed

lemma imageI:
  assumes "as_ok kend s ps pd" "len \<le> USERTOP" "present (pde_at s pd 0)" "pt_pages s pd = T" "owned s pd \<union> set ps = P" "touches P s0 s"
    and "\<And>va. unat va div 4096 < pages_of len \<Longrightarrow> user (pte_of s pd va) \<and> ubyte s pd va = B va"
    and "\<And>va. pages_of len \<le> unat va div 4096 \<Longrightarrow> va < USERTOP \<Longrightarrow> \<not> present (pte_of s pd va)"
    and "\<And>va. pages_of len \<le> unat va div 4096 \<Longrightarrow> \<not> user (pte_of s pd va)"
  shows "image kend P T s0 pd len B s ps"
  using assms below_PGROUNDUP(1) [OF assms(2)] unfolding image_def by (simp add: not_less [symmetric])

lemma image_setup:
  assumes "kmem_rep kend s ps" and "kernel_map kdata" and "setupkvm kdata s = (pd, s')" and "pd \<noteq> 0"
  shows "\<exists>ps'. image kend (set ps) (pt_pages s' pd) s pd 0 B s' ps'"
proof -
  obtain ps' where r: "kmem_rep kend s' ps'" "set ps' \<subseteq> set ps" "touches (set ps) s s'" "as_ok kend s' ps' pd" "frames s' pd = {}"
      "present (pde_at s' pd 0)" "owned s' pd \<union> set ps' = set ps" "\<And>va. pg va < USERTOP \<Longrightarrow> pte_of s' pd va = 0"
    using setupkvm_result [OF assms(1-3)] assms(4) by blast
  have nu: "\<not> user (pte_of s' pd va)" for va using r(5) unfolding frames_empty by blast
  have np: "\<not> present (pte_of s' pd va)" if "va < USERTOP" for va
  proof -
    have "pg va < USERTOP" using pg_le [of va] that by (rule le_less_trans)
    then show ?thesis using r(8) [of va] by (simp add: present_def)
  qed
  show ?thesis
    by (intro exI [of _ ps'] imageI) (use r nu np in \<open>simp_all add: pages_of_def\<close>)
qed

lemma image_alloc:
  assumes im: "image kend P T s0 pd len B s ps" and new: "len \<le> new" "new \<le> USERTOP" and room: "pages_of new - pages_of len \<le> length ps"
  shows "\<exists>s' ps'. allocuvm kend pd len new s = Inr (new, s')
     \<and> image kend P T s0 pd new (\<lambda>va. if unat va div 4096 < pages_of len then B va else 0) s' ps'"
proof -
  note im = imageD [OF im]
  let ?as = "page_range (PGROUNDUP len) new"
  have mono: "pages_of len \<le> pages_of new" using new(1) unfolding pages_of_def word_le_nat_alt by (intro div_le_mono) simp
  have lt: "va < USERTOP" if "va < new" for va using that new(2) by (rule less_le_trans)
  have free: "\<forall>va. PGROUNDUP len \<le> va \<and> va < new \<longrightarrow> view s pd va = None"
    using im(9) lt below_PGROUNDUP(1) [OF im(2)] by (auto simp: view_def not_less [symmetric])
  have le: "length ?as \<le> length ps" using room by (simp add: length_page_range [OF im(2)])
  from allocuvm_result [OF im(1) new im(3) free] le obtain s' ps' where
      run: "allocuvm kend pd len new s = Inr (new, s')" and e: "extends kend s ps pd (set ?as) (\<lambda>_. 0) s' ps'" by auto
  have g: "as_ok kend s' ps' pd" "owned s' pd \<union> set ps' = owned s pd \<union> set ps" "touches (pt_pages s pd \<union> set ps) s s'"
    and pde: "\<And>va. pde_at s' pd va = pde_at s pd va"
    and pte: "\<And>va. if pg va \<in> set ?as then user (pte_of s' pd va) \<and> uword s' pd va = 0 else pte_of s' pd va = pte_of s pd va"
    using e unfolding extends_def grows_def by blast+
  have mem: "pg va \<in> set ?as \<longleftrightarrow> pages_of len \<le> unat va div 4096 \<and> unat va div 4096 < pages_of new" for va
  proof -
    have "PGROUNDUP len \<le> pg va \<longleftrightarrow> \<not> va < PGROUNDUP len"
      using pg_less_aligned [OF PGROUNDUP_small(2) [OF im(2)], of va] by (simp add: not_less)
    then show ?thesis
      using in_page_range [OF im(2) new(2), of va] below_PGROUNDUP(1) [OF im(2), of va] below_PGROUNDUP(2) [OF new(2), of va] by auto
  qed
  have "image kend P T s0 pd new (\<lambda>va. if unat va div 4096 < pages_of len then B va else 0) s' ps'"
  proof (rule imageI)
    show "as_ok kend s' ps' pd" "new \<le> USERTOP" by (rule g(1), rule new(2))
    show "present (pde_at s' pd 0)" using im(3) pde by simp
    show "pt_pages s' pd = T" using pt_pages_pde [of s' pd s] pde im(4) by simp
    show "owned s' pd \<union> set ps' = P" using g(2) im(5) by simp
    have "pt_pages s pd \<union> set ps \<subseteq> P" using im(5) unfolding owned_def by blast
    then show "touches P s0 s'" by (rule touches_trans [OF im(6) g(3)])
    fix va
    show "user (pte_of s' pd va) \<and> ubyte s' pd va = (if unat va div 4096 < pages_of len then B va else 0)" if "unat va div 4096 < pages_of new"
    proof (cases "unat va div 4096 < pages_of len")
      case True
      then have nm: "pg va \<notin> set ?as" by (simp add: mem)
      then have p: "pte_of s' pd va = pte_of s pd va" using pte [of va] by simp
      have u: "user (pte_of s pd va)" by (rule im(7) [OF True])
      have "ubyte s' pd va = ubyte s pd va"
      proof (rule ubyte_cong [OF im(1) u p])
        fix a assume "pg a = PTE_ADDR (pte_of s pd va)"
        then have "pg a \<notin> pt_pages s pd \<union> set ps" using as_okD(5,6) [OF im(1) u] by simp
        then show "mem s' a = mem s a" using g(3) by (simp add: touches_def)
      qed
      then show ?thesis using True u p im(8) [OF True] by simp
    next
      case False
      then have m: "pg va \<in> set ?as" using that by (simp add: mem)
      then have u: "user (pte_of s' pd va)" using pte [of va] by simp
      have "uword s' pd x = 0" if "pg x = pg va" for x using pte [of x] m that by simp
      then have "ubyte s' pd va = 0" by (rule ubyte_zero [OF g(1) u])
      then show ?thesis using u False by simp
    qed
    have same: "pte_of s' pd va = pte_of s pd va" if "pages_of new \<le> unat va div 4096" using pte [of va] mem [of va] that by simp
    show "\<not> present (pte_of s' pd va)" if "pages_of new \<le> unat va div 4096" "va < USERTOP"
      using same [OF that(1)] im(9) [of va] that mono by simp
    show "\<not> user (pte_of s' pd va)" if "pages_of new \<le> unat va div 4096" using same [OF that] im(10) [of va] that mono by simp
  qed
  then show ?thesis using run by blast
qed

text \<open>A store of bytes into the pages keeps the image up to those bytes.\<close>

lemma image_store:
  assumes im: "image kend P T s0 pd len B s ps" and ok: "as_ok kend s' ps pd" and pte: "\<And>x. pte_of s' pd x = pte_of s pd x"
    and t: "touches (frames s pd) s s'" and b: "\<And>x. user (pte_of s pd x) \<Longrightarrow> ubyte s' pd x = C x (ubyte s pd x)"
  shows "image kend P T s0 pd len (\<lambda>x. C x (B x)) s' ps"
proof -
  note im = imageD [OF im]
  have "mem s' a = mem s a" if "pg a \<in> pt_pages s pd" for a
  proof -
    have "pg a \<notin> frames s pd" using im(1) that unfolding as_ok_def by blast
    then show ?thesis using t by (simp add: touches_def)
  qed
  note st = same_tables [OF as_okD(1) [OF im(1)] this]
  have fr: "frames s' pd = frames s pd" by (simp add: frames_def pte)
  have P: "frames s pd \<subseteq> P" using im(5) unfolding owned_def by blast
  show ?thesis
  proof (rule imageI)
    show "present (pde_at s' pd 0)" "pt_pages s' pd = T" using st im(3,4) by simp_all
    show "owned s' pd \<union> set ps = P" using im(4,5) st(3) fr by (simp add: owned_def)
    show "touches P s0 s'" by (rule touches_trans [OF im(6) t P])
    show "user (pte_of s' pd va) \<and> ubyte s' pd va = C va (B va)" if "unat va div 4096 < pages_of len" for va
      using im(7,8) [OF that] b [of va] pte [of va] by simp
  qed (use im ok pte in auto)
qed

lemma image_copyout:
  assumes im: "image kend P T s0 pd len B s ps" and fits: "unat va + length bs \<le> 4096 * pages_of len"
  shows "\<exists>s'. copyout nul pd va bs s = (0, s') \<and> image kend P T s0 pd len (overlay (unat va) bs B) s' ps"
proof -
  note imD = imageD [OF im]
  have top: "4096 * pages_of len \<le> unat USERTOP"
    using PGROUNDUP_small(4) [OF imD(2)] PGROUNDUP_pages [OF imD(2)] by (simp add: word_le_nat_alt)
  have u: "user (pte_of s pd x)" if "va \<le> x" "unat x < unat va + length bs" for x
    by (rule imD(7)) (use that fits in \<open>simp add: div_less_iff_less_mult\<close>)
  have "unat va + length bs \<le> unat USERTOP" using fits top by simp
  from copyout_result [OF imD(1) this u] obtain s' where c: "copyout nul pd va bs s = (0, s')" "as_ok kend s' ps pd"
      "\<forall>x. pte_of s' pd x = pte_of s pd x" "touches (frames s pd) s s'"
      "\<forall>x. user (pte_of s pd x) \<longrightarrow> ubyte s' pd x = (if va \<le> x \<and> unat x < unat va + length bs then bs ! (unat x - unat va) else ubyte s pd x)"
    by blast
  have "image kend P T s0 pd len (\<lambda>x. if va \<le> x \<and> unat x < unat va + length bs then bs ! (unat x - unat va) else B x) s' ps"
    using image_store [OF im c(2) _ c(4), where C = "\<lambda>x b. if va \<le> x \<and> unat x < unat va + length bs then bs ! (unat x - unat va) else b"] c(3,5)
    by blast
  then show ?thesis using c(1) by (auto simp: overlay_def word_le_nat_alt)
qed

subsection \<open>Loading a segment\<close>

text \<open>What the file system promises of \<open>readi\<close> on a file that holds \<open>prog\<close> (\<open>FsFiles.readi_returns_slice\<close>).\<close>

definition reads_file :: "(u32 \<Rightarrow> u32 \<Rightarrow> 'f \<Rightarrow> kerr + (int \<times> u8 list) \<times> 'f) \<Rightarrow> 'f \<Rightarrow> u8 list \<Rightarrow> bool" where
  "reads_file rd f prog = (length prog < 4294967296 \<and> (\<forall>off n. unat off + unat n \<le> length prog
     \<longrightarrow> rd off n f = Inr ((int (unat n), take (unat n) (drop (unat off) prog)), f)))"

lemma overlay_split:
  "n \<le> length bs \<Longrightarrow> overlay (a + n) (drop n bs) (overlay a (take n bs) B) = overlay a bs B"
  by (rule ext) (auto simp: overlay_def)

lemma overlay_Nil [simp]: "overlay a [] B = B"
  by (rule ext) (auto simp: overlay_def)

lemma load_page:
  assumes im: "image kend P T s0 pd L B s ps" and va: "va mod 4096 = 0" "unat va div 4096 < pages_of L" and bs: "length bs \<le> 4096"
  defines "pte \<equiv> fst (walkpgdir pd va False s)"
  shows "pte \<noteq> 0" and "image kend P T s0 pd L (overlay (unat va) bs B) (s\<lparr>mem := write_bytes (PTE_ADDR (mem s pte)) bs (mem s)\<rparr>) ps"
proof -
  note imD = imageD [OF im]
  have u: "user (pte_of s pd va)" by (rule imD(7) [OF va(2)])
  then have pr: "present (pte_of s pd va)" by (simp add: user_def)
  note w = walk_present [OF as_okD(1) [OF imD(1)] refl, of va, folded pte_def]
  show "pte \<noteq> 0" using w(1) pr by blast
  have "mem s pte = pte_of s pd va" using w(2) [OF pr] by blast
  then have pa: "PTE_ADDR (mem s pte) = phys_addr s pd va" by (simp add: phys_addr_def va(1))
  have n: "unat (va mod 4096) + length bs \<le> 4096" using va(1) bs by simp
  note st = store_in_frame [OF imD(1) u n]
  show "image kend P T s0 pd L (overlay (unat va) bs B) (s\<lparr>mem := write_bytes (PTE_ADDR (mem s pte)) bs (mem s)\<rparr>) ps"
    unfolding pa overlay_def
    by (rule image_store [OF im st(1,2,3), where C = "\<lambda>x b. if unat va \<le> unat x \<and> unat x < unat va + length bs then bs ! (unat x - unat va) else b"])
      (simp add: st(4) word_le_nat_alt)
qed

lemma load_loop:
  assumes "image kend P T s0 pd L B s ps" and va: "va mod 4096 = 0" "unat va + unat len \<le> 4096 * pages_of L"
    and rd: "reads_file rd f prog" "unat off + unat len \<le> length prog" and m: "m \<le> pages_of len"
  shows "\<exists>s'. loaduvm_loop rd pd va off len (map (\<lambda>k. of_nat (4096 * k)) [m..<pages_of len]) (s, f) = Inr (0, (s', f))
     \<and> image kend P T s0 pd L (overlay (unat va + 4096 * m) (drop (4096 * m) (take (unat len) (drop (unat off) prog))) B) s' ps"
  using assms(1) m
proof (induction "pages_of len - m" arbitrary: m s B)
  case 0
  then have "m = pages_of len" by simp
  then have "unat len \<le> 4096 * m" unfolding pages_of_def by (simp add: le_div_geq) 
  then show ?case using 0 \<open>m = pages_of len\<close> by simp
next
  case (Suc d)
  have im: "image kend P T s0 pd L B s ps" by (rule Suc.prems(1))
  have ml: "m < pages_of len" using Suc.hyps(2) by simp
  have lt: "4096 * m < unat len"
  proof -
    have "Suc m * 4096 \<le> unat len + 4095" using ml less_eq_div_iff_mult_less_eq [of 4096 "Suc m" "unat len + 4095"] by (simp add: pages_of_def)
    then show ?thesis by simp
  qed
  let ?i = "of_nat (4096 * m) :: u32"
  have i: "unat ?i = 4096 * m" using lt unat_u32_less [of len] by (intro unat_of_nat_small) simp
  have va_i: "unat (va + ?i) = unat va + 4096 * m"
  proof -
    have "4096 * pages_of L \<le> 655360" using imageD(2) [OF im] PGROUNDUP_small(4) PGROUNDUP_pages USERTOP_nat by (metis word_le_nat_alt)
    then show ?thesis using va(2) lt i by (subst unat_add_small) simp_all
  qed
  obtain j where j: "unat va = 4096 * j" using va(1) unfolding unat_aligned by auto
  have al: "(va + ?i) mod 4096 = 0" unfolding unat_aligned va_i j by simp
  have pgs: "unat (va + ?i) div 4096 < pages_of L"
  proof -
    have "4096 * j + 4096 * m < 4096 * pages_of L" using va(2) lt j by linarith
    then have "j + m < pages_of L" by linarith
    moreover have "unat (va + ?i) = 4096 * (j + m)" unfolding va_i j by (simp add: distrib_left)
    ultimately show ?thesis by simp
  qed
  define n where "n = (if len - ?i < PGSIZE then len - ?i else PGSIZE)"
  have li: "unat (len - ?i) = unat len - 4096 * m" using lt i by (subst unat_sub_small) (simp_all add: word_le_nat_alt)
  have n: "unat n = min (unat len - 4096 * m) 4096"
    unfolding n_def PGSIZE_def word_less_nat_alt by (cases "unat (len - ?i) < unat (4096 :: u32)") (simp_all only: if_True if_False li, simp_all)
  have oi: "unat (off + ?i) = unat off + 4096 * m" using rd lt i by (subst unat_add_small) (auto simp: reads_file_def)
  define bs where "bs = take (unat n) (drop (unat (off + ?i)) prog)"
  have rdi: "rd (off + ?i) n f = Inr ((int (unat n), bs), f)"
  proof -
    have "unat (off + ?i) + unat n \<le> length prog" unfolding n oi using rd(2) lt by linarith
    then show ?thesis using rd(1) unfolding reads_file_def bs_def by blast
  qed
  have lb: "length bs = unat n" using rd(2) lt n oi by (simp add: bs_def)
  have l4: "length bs \<le> 4096" using lb n by simp
  note pg = load_page [OF im al pgs l4]
  define s1 where "s1 = s\<lparr>mem := write_bytes (PTE_ADDR (mem s (fst (walkpgdir pd (va + ?i) False s)))) bs (mem s)\<rparr>"
  have im1: "image kend P T s0 pd L (overlay (unat va + 4096 * m) bs B) s1 ps" using pg(2) unfolding va_i s1_def .
  have up: "[m..<pages_of len] = m # [Suc m..<pages_of len]" by (rule upt_conv_Cons [OF ml])
  have wi: "word_of_int (int (unat n)) = n" by simp
  have run: "loaduvm_loop rd pd va off len (map (\<lambda>k. of_nat (4096 * k)) [m..<pages_of len]) (s, f)
     = loaduvm_loop rd pd va off len (map (\<lambda>k. of_nat (4096 * k)) [Suc m..<pages_of len]) (s1, f)"
    unfolding up list.map loaduvm_loop.simps Let_def n_def [symmetric] rdi s1_def if_not_P [OF pg(1)] by simp
  have d: "d = pages_of len - Suc m" "Suc m \<le> pages_of len" using Suc.hyps(2) ml by simp_all
  from Suc.hyps(1) [OF d(1) im1 d(2)] obtain s' where
      s': "loaduvm_loop rd pd va off len (map (\<lambda>k. of_nat (4096 * k)) [Suc m..<pages_of len]) (s1, f) = Inr (0, (s', f))"
      "image kend P T s0 pd L (overlay (unat va + 4096 * Suc m) (drop (4096 * Suc m) (take (unat len) (drop (unat off) prog)))
         (overlay (unat va + 4096 * m) bs B)) s' ps" by blast
  let ?seg = "drop (4096 * m) (take (unat len) (drop (unat off) prog))"
  have "overlay (unat va + 4096 * Suc m) (drop (4096 * Suc m) (take (unat len) (drop (unat off) prog))) (overlay (unat va + 4096 * m) bs B)
      = overlay (unat va + 4096 * m) ?seg B"
  proof (cases "unat len - 4096 * m \<le> 4096")
    case True
    then have "bs = ?seg" using n oi by (simp add: bs_def min_def drop_take ac_simps)
    moreover have "drop (4096 * Suc m) (take (unat len) (drop (unat off) prog)) = []" using True lt by simp
    ultimately show ?thesis by simp
  next
    case False
    then have b: "bs = take 4096 ?seg" using n oi by (simp add: bs_def min_def drop_take ac_simps)
    have dr: "drop (4096 * Suc m) (take (unat len) (drop (unat off) prog)) = drop 4096 ?seg" by (simp add: ac_simps)
    have "4096 \<le> length ?seg" using False rd(2) by simp
    from overlay_split [OF this, of "unat va + 4096 * m" B] show ?thesis unfolding b dr by (simp add: ac_simps)
  qed
  then show ?case using s' run by auto
qed

lemma image_load:
  assumes im: "image kend P T s0 pd L B s ps" and va: "va mod 4096 = 0" "unat va + unat len \<le> 4096 * pages_of L"
    and rd: "reads_file rd f prog" "unat off + unat len \<le> length prog"
  shows "\<exists>s'. loaduvm rd pd va off len (s, f) = Inr (0, (s', f))
     \<and> image kend P T s0 pd L (overlay (unat va) (take (unat len) (drop (unat off) prog)) B) s' ps"
proof -
  have "page_range 0 len = map (\<lambda>k. of_nat (4096 * k)) [0..<pages_of len]" by (simp add: page_range_def pages_of_def)
  then show ?thesis using load_loop [OF im va rd, of 0] va(1) by (simp add: loaduvm_def PGSIZE_def)
qed

subsection \<open>Counting pages\<close>

lemma image_count:
  assumes im: "image kend P T s0 pd len B s ps"
  shows "length ps + pages_of len + card T = card P"
proof -
  note imD = imageD [OF im]
  let ?n = "pages_of len" and ?v = "\<lambda>k. of_nat (4096 * k) :: u32"
  let ?f = "\<lambda>k. PTE_ADDR (pte_of s pd (?v k))"
  have top: "4096 * ?n \<le> 655360" using imD(2) PGROUNDUP_small(4) PGROUNDUP_pages USERTOP_nat by (metis word_le_nat_alt)
  have v: "unat (?v k) = 4096 * k" if "k < ?n" for k using that top by (intro unat_of_nat_small) simp
  have u: "user (pte_of s pd (?v k))" if "k < ?n" for k by (rule imD(7), subst v [OF that], use that in simp)
  have fr: "frames s pd = ?f ` {..<?n}"
  proof
    show "?f ` {..<?n} \<subseteq> frames s pd" using u unfolding frames_def by blast
    show "frames s pd \<subseteq> ?f ` {..<?n}"
    proof
      fix f assume "f \<in> frames s pd"
      then obtain va where va: "f = PTE_ADDR (pte_of s pd va)" "user (pte_of s pd va)" unfolding frames_def by blast
      then have k: "unat va div 4096 < ?n" using imD(10) [of va] by (auto simp: not_less [symmetric])
      have "unat (pg (?v (unat va div 4096))) = unat (pg va)" by (simp only: unat_pg v [OF k]) simp
      then have "pg (?v (unat va div 4096)) = pg va" by (simp only: word_unat_eq_iff)
      then have "f = ?f (unat va div 4096)" using va(1) pte_of_page by metis
      then show "f \<in> ?f ` {..<?n}" using k by blast
    qed
  qed
  have "inj_on ?f {..<?n}"
  proof (rule inj_onI)
    fix j k assume jk: "j \<in> {..<?n}" "k \<in> {..<?n}" "?f j = ?f k"
    then have j: "j < ?n" and k: "k < ?n" by simp_all
    have "pg (?v j) = pg (?v k)" by (rule frame_unique [OF imD(1) u [OF j] u [OF k] jk(3)])
    then have "unat (pg (?v j)) = unat (pg (?v k))" by simp
    then show "j = k" by (simp only: unat_pg v [OF j] v [OF k])
  qed
  then have cf: "card (frames s pd) = ?n" unfolding fr by (simp add: card_image)
  have disj: "T \<inter> frames s pd = {}" using imD(1,4) unfolding as_ok_def by blast
  have "card P = card (owned s pd \<union> set ps)" using imD(5) by simp
  also have "\<dots> = card (owned s pd) + card (set ps)" by (rule card_Un_disjoint) (use as_okD(3) [OF imD(1)] in simp_all)
  also have "card (owned s pd) = card T + card (frames s pd)" unfolding owned_def imD(4) by (rule card_Un_disjoint) (use disj in simp_all)
  also have "card (set ps) = length ps" using as_okD(2) [OF imD(1)] by (simp add: kmem_rep_def distinct_card)
  finally show ?thesis using cf by simp
qed

subsection \<open>Loading a program\<close>

definition segments :: "u8 list \<Rightarrow> nat \<Rightarrow> nat \<Rightarrow> proghdr list" where
  "segments prog off n = map (\<lambda>k. dec_proghdr (take 32 (drop (off + 32 * k) prog))) [0..<n]"

definition good_segment :: "u8 list \<Rightarrow> proghdr \<Rightarrow> bool" where
  "good_segment prog ph = (p_type ph = ELF_PROG_LOAD \<longrightarrow> p_va ph mod 4096 = 0 \<and> p_filesz ph \<le> p_memsz ph \<and> 0 < unat (p_va ph) + unat (p_memsz ph)
     \<and> unat (p_va ph) + unat (p_memsz ph) \<le> unat USERTOP \<and> unat (p_offset ph) + unat (p_filesz ph) \<le> length prog)"

definition seg_end :: "proghdr \<Rightarrow> u32 \<Rightarrow> u32" where
  "seg_end ph len = (if p_type ph = ELF_PROG_LOAD \<and> len \<le> p_va ph + p_memsz ph then p_va ph + p_memsz ph else len)"

definition seg_bytes :: "u8 list \<Rightarrow> proghdr \<Rightarrow> (u32 \<Rightarrow> u8) \<Rightarrow> (u32 \<Rightarrow> u8)" where
  "seg_bytes prog ph B = (if p_type ph = ELF_PROG_LOAD
     then overlay (unat (p_va ph)) (take (unat (p_filesz ph)) (drop (unat (p_offset ph)) prog)) B else B)"

lemma segments_Suc: "segments prog off (Suc n) = dec_proghdr (take 32 (drop off prog)) # segments prog (off + 32) n"
proof -
  have "[0..<Suc n] = 0 # map Suc [0..<n]" by (simp add: upt_conv_Cons map_Suc_upt del: upt_Suc)
  then show ?thesis by (simp add: segments_def ac_simps del: upt_Suc)
qed

lemma pages_of_mono: "a \<le> b \<Longrightarrow> pages_of a \<le> pages_of b"
  unfolding pages_of_def word_le_nat_alt by (intro div_le_mono) simp

lemma end_in_pages: "unat len \<le> 4096 * pages_of len"
proof -
  have "unat len + 4095 = 4096 * pages_of len + (unat len + 4095) mod 4096" by (simp add: pages_of_def)
  moreover have "(unat len + 4095) mod 4096 \<le> 4095" by (simp add: less_Suc_eq_le [symmetric])
  ultimately show ?thesis by linarith
qed

lemma load_segment_ok:
  assumes im: "image kend P T s0 pd len B s ps" and z: "\<And>x. pages_of len \<le> unat x div 4096 \<Longrightarrow> B x = 0"
    and rd: "reads_file rd f prog" and g: "good_segment prog ph" "p_type ph = ELF_PROG_LOAD"
    and room: "pages_of (p_va ph + p_memsz ph) \<le> length ps + pages_of len"
  shows "\<exists>s1 s2 ps'. allocuvm kend pd len (p_va ph + p_memsz ph) s = Inr (seg_end ph len, s1) \<and> seg_end ph len \<noteq> 0
     \<and> loaduvm rd pd (p_va ph) (p_offset ph) (p_filesz ph) (s1, f) = Inr (0, (s2, f))
     \<and> image kend P T s0 pd (seg_end ph len) (seg_bytes prog ph B) s2 ps'"
    and "pages_of (seg_end ph len) \<le> unat x div 4096 \<Longrightarrow> seg_bytes prog ph B x = 0"
proof -
  let ?new = "p_va ph + p_memsz ph" and ?len = "seg_end ph len"
  have gs: "p_va ph mod 4096 = 0" "p_filesz ph \<le> p_memsz ph" "0 < unat (p_va ph) + unat (p_memsz ph)"
    "unat (p_va ph) + unat (p_memsz ph) \<le> unat USERTOP" "unat (p_offset ph) + unat (p_filesz ph) \<le> length prog"
    using g by (simp_all add: good_segment_def)
  have un: "unat ?new = unat (p_va ph) + unat (p_memsz ph)" using gs(4) by (intro unat_add_small) (simp add: USERTOP_nat)
  have top: "?new \<le> USERTOP" using gs(4) un by (simp add: word_le_nat_alt)
  have le: "len \<le> ?len" "?new \<le> ?len" using g(2) by (auto simp: seg_end_def)
  have nz: "?len \<noteq> 0" using le(2) un gs(3) by (auto simp: word_le_nat_alt)
  have seg: "unat (p_va ph) + unat (p_filesz ph) \<le> 4096 * pages_of ?len"
  proof -
    have "unat (p_va ph) + unat (p_filesz ph) \<le> unat ?len" using gs(2) le(2) un unfolding word_le_nat_alt by linarith
    then show ?thesis using end_in_pages [of ?len] by linarith
  qed
  have "\<exists>s1 ps1. allocuvm kend pd len ?new s = Inr (?len, s1) \<and> image kend P T s0 pd ?len B s1 ps1"
  proof (cases "len \<le> ?new")
    case True
    have "(\<lambda>va. if unat va div 4096 < pages_of len then B va else 0) = B" using z by (intro ext) (simp add: not_less)
    moreover have "?len = ?new" using True g(2) by (simp add: seg_end_def)
    moreover have "pages_of ?new - pages_of len \<le> length ps" using room by simp
    ultimately show ?thesis using image_alloc [OF im True top] by auto
  next
    case False
    then have "\<not> USERTOP < ?new" "?new < len" using top by simp_all
    then have "allocuvm kend pd len ?new s = Inr (len, s)" unfolding allocuvm_def by (simp only: if_True if_False)
    then show ?thesis using im False by (auto simp: seg_end_def)
  qed
  then obtain s1 ps1 where a: "allocuvm kend pd len ?new s = Inr (?len, s1)" "image kend P T s0 pd ?len B s1 ps1" by blast
  have im2: "\<exists>s2. loaduvm rd pd (p_va ph) (p_offset ph) (p_filesz ph) (s1, f) = Inr (0, (s2, f))
     \<and> image kend P T s0 pd ?len (seg_bytes prog ph B) s2 ps1"
    using image_load [OF a(2) gs(1) seg rd gs(5)] g(2) by (simp add: seg_bytes_def)
  then show "\<exists>s1 s2 ps'. allocuvm kend pd len ?new s = Inr (?len, s1) \<and> ?len \<noteq> 0
     \<and> loaduvm rd pd (p_va ph) (p_offset ph) (p_filesz ph) (s1, f) = Inr (0, (s2, f))
     \<and> image kend P T s0 pd ?len (seg_bytes prog ph B) s2 ps'" using a(1) nz by blast
  show "seg_bytes prog ph B x = 0" if "pages_of ?len \<le> unat x div 4096"
  proof -
    have "B x = 0" using z pages_of_mono [OF le(1)] that by simp
    moreover have "\<not> unat x < 4096 * pages_of ?len" using that times_div_less_eq_dividend [of 4096 "unat x"] by linarith
    ultimately show ?thesis using seg g(2) gs(5) by (auto simp: seg_bytes_def overlay_def)
  qed
qed

lemma load_segments_ok:
  assumes "image kend P T s0 pd len B s ps" and "\<forall>x. pages_of len \<le> unat x div 4096 \<longrightarrow> B x = 0"
    and rd: "reads_file (ex_readi F ip) f prog" and "unat off + 32 * n \<le> length prog"
    and "\<forall>ph \<in> set (segments prog (unat off) n). good_segment prog ph
      \<and> (p_type ph = ELF_PROG_LOAD \<longrightarrow> pages_of (p_va ph + p_memsz ph) + card T \<le> card P)"
  shows "\<exists>s' ps'. load_segments F ip kend pd n off len (s, f) = Inr ((True, fold seg_end (segments prog (unat off) n) len), (s', f))
     \<and> image kend P T s0 pd (fold seg_end (segments prog (unat off) n) len) (fold (seg_bytes prog) (segments prog (unat off) n) B) s' ps'
     \<and> (\<forall>x. pages_of (fold seg_end (segments prog (unat off) n) len) \<le> unat x div 4096
        \<longrightarrow> fold (seg_bytes prog) (segments prog (unat off) n) B x = 0)"
  using assms(1,2,4,5)
proof (induction n arbitrary: off len B s ps)
  case 0
  then show ?case by (auto simp: segments_def)
next
  case (Suc n)
  note im = Suc.prems(1) and z = Suc.prems(2)
  let ?ph = "dec_proghdr (take 32 (drop (unat off) prog))"
  have L: "length prog < 4294967296" using rd by (simp add: reads_file_def)
  have o32: "unat off + 32 \<le> length prog" using Suc.prems(3) by simp
  have rdh: "ex_readi F ip off 32 f = Inr ((32, take 32 (drop (unat off) prog)), f)"
    using rd o32 by (simp add: reads_file_def)
  have un: "unat (off + 32) = unat off + 32" using o32 L by (subst unat_add_small) simp_all
  have segs: "segments prog (unat off) (Suc n) = ?ph # segments prog (unat (off + 32)) n" by (simp only: segments_Suc un)
  have prem: "unat (off + 32) + 32 * n \<le> length prog" using Suc.prems(3) un by simp
  have good: "\<forall>ph \<in> set (segments prog (unat (off + 32)) n). good_segment prog ph
      \<and> (p_type ph = ELF_PROG_LOAD \<longrightarrow> pages_of (p_va ph + p_memsz ph) + card T \<le> card P)"
    and g: "good_segment prog ?ph" and room: "p_type ?ph = ELF_PROG_LOAD \<Longrightarrow> pages_of (p_va ?ph + p_memsz ?ph) + card T \<le> card P"
    using Suc.prems(4) unfolding segs by simp_all
  show ?case
  proof (cases "p_type ?ph = ELF_PROG_LOAD")
    case False
    then have "seg_end ?ph len = len" "seg_bytes prog ?ph B = B" by (simp_all add: seg_end_def seg_bytes_def)
    then show ?thesis using Suc.IH [OF im z prem good] False unfolding segs by (simp add: rdh Let_def)
  next
    case True
    have rm: "pages_of (p_va ?ph + p_memsz ?ph) \<le> length ps + pages_of len" using room [OF True] image_count [OF im] by simp
    have le: "\<not> p_memsz ?ph < p_filesz ?ph" using g True by (simp add: good_segment_def not_less)
    note seg = load_segment_ok [OF im z [rule_format] rd g True rm]
    from seg(1) obtain s1 s2 ps' where s: "allocuvm kend pd len (p_va ?ph + p_memsz ?ph) s = Inr (seg_end ?ph len, s1)"
        "seg_end ?ph len \<noteq> 0" "loaduvm (ex_readi F ip) pd (p_va ?ph) (p_offset ?ph) (p_filesz ?ph) (s1, f) = Inr (0, (s2, f))"
        "image kend P T s0 pd (seg_end ?ph len) (seg_bytes prog ?ph B) s2 ps'" by blast
    have z': "\<forall>x. pages_of (seg_end ?ph len) \<le> unat x div 4096 \<longrightarrow> seg_bytes prog ?ph B x = 0" using seg(2) by blast
    show ?thesis using Suc.IH [OF s(4) z' prem good] True le s(1,2,3) unfolding segs by (simp add: rdh Let_def)
  qed
qed

subsection \<open>The arguments on the stack\<close>

text \<open>The bytes that the arguments take at most: each string with its zero, aligned down, and the words that \<open>main\<close> finds.\<close>

definition args_need :: "u8 list list \<Rightarrow> nat" where
  "args_need as = sum_list (map (\<lambda>a. length a + 4) as)"

lemma unat_align:
  assumes "n \<le> unat (sp :: u32)"
  shows "unat ((sp - of_nat n) AND NOT 3) \<le> unat sp - n" and "unat sp \<le> unat ((sp - of_nat n) AND NOT 3) + n + 3"
proof -
  have n: "unat (of_nat n :: u32) = n" using assms unat_u32_less [of sp] by (intro unat_of_nat_small) simp
  then have d: "unat (sp - of_nat n) = unat sp - n" using assms by (subst unat_sub_small) (simp_all add: word_le_nat_alt)
  have "unat ((sp - of_nat n) AND NOT 3) = unat sp - n - (unat sp - n) mod 4" unfolding and_not_3 unat_sub_mod_4 d ..
  moreover have "(unat sp - n) mod 4 < 4" by simp
  ultimately show "unat ((sp - of_nat n) AND NOT 3) \<le> unat sp - n" and "unat sp \<le> unat ((sp - of_nat n) AND NOT 3) + n + 3"
    using assms by linarith+
qed

text \<open>The string \<open>a\<close> stands at \<open>p\<close>.\<close>

definition string_at :: "(u32 \<Rightarrow> u8) \<Rightarrow> u32 \<Rightarrow> u8 list \<Rightarrow> bool" where
  "string_at B p a = (\<forall>x. unat p \<le> unat x \<and> unat x < unat p + length a \<longrightarrow> B x = a ! (unat x - unat p))"

lemma string_at_overlay: "string_at (overlay (unat p) a B) p a"
  by (simp add: string_at_def overlay_def)

lemma push_args_ok:
  assumes "image kend P T s0 pd len B s ps" and "unat sp \<le> 4096 * pages_of len" and "args_need as \<le> unat sp" and "argc + length as \<le> 32"
  shows "\<exists>s' sp' ptrs B'. push_args nul pd argc as sp s = (Some (sp', ptrs), s') \<and> image kend P T s0 pd len B' s' ps
     \<and> length ptrs = length as \<and> unat sp' \<le> unat sp \<and> unat sp \<le> unat sp' + args_need as
     \<and> (\<forall>x. unat x < unat sp' \<or> unat sp \<le> unat x \<longrightarrow> B' x = B x)
     \<and> (\<forall>i < length as. unat sp' \<le> unat (ptrs ! i) \<and> unat (ptrs ! i) + length (as ! i @ [0]) \<le> unat sp \<and> string_at B' (ptrs ! i) (as ! i @ [0]))"
  using assms
proof (induction as arbitrary: argc sp s B)
  case Nil
  then show ?case by (auto simp: args_need_def)
next
  case (Cons a as)
  let ?sp = "(sp - of_nat (length a + 1)) AND NOT 3"
  have need: "args_need (a # as) = length a + 4 + args_need as" by (simp add: args_need_def)
  have n: "length a + 1 \<le> unat sp" using Cons.prems(3) need by linarith
  note al = unat_align [OF n]
  have fits: "unat ?sp + length (a @ [0]) \<le> 4096 * pages_of len" using al(1) n Cons.prems(2) by simp
  obtain s1 where c: "copyout nul pd ?sp (a @ [0]) s = (0, s1)" "image kend P T s0 pd len (overlay (unat ?sp) (a @ [0]) B) s1 ps"
    using image_copyout [OF Cons.prems(1) fits] by blast
  have p: "unat ?sp \<le> 4096 * pages_of len" "args_need as \<le> unat ?sp" "Suc argc + length as \<le> 32"
    using fits al(2) n Cons.prems(3,4) need by (simp_all del: of_nat_add of_nat_Suc)
  from Cons.IH [OF c(2) p] obtain s' sp' ptrs B' where
      r: "push_args nul pd (Suc argc) as ?sp s1 = (Some (sp', ptrs), s')" "image kend P T s0 pd len B' s' ps"
      "length ptrs = length as" "unat sp' \<le> unat ?sp" "unat ?sp \<le> unat sp' + args_need as"
      "\<forall>x. unat x < unat sp' \<or> unat ?sp \<le> unat x \<longrightarrow> B' x = overlay (unat ?sp) (a @ [0]) B x"
      "\<forall>i < length as. unat sp' \<le> unat (ptrs ! i) \<and> unat (ptrs ! i) + length (as ! i @ [0]) \<le> unat ?sp \<and> string_at B' (ptrs ! i) (as ! i @ [0])"
    by blast
  have "argc < MAXARG" using Cons.prems(4) by (simp add: MAXARG_def)
  then have run: "push_args nul pd argc (a # as) sp s = (Some (sp', ?sp # ptrs), s')"
    unfolding push_args.simps Let_def c(1) prod.case r(1) option.case by simp
  have str: "string_at B' ?sp (a @ [0])" using r(6) string_at_overlay [of ?sp "a @ [0]" B] unfolding string_at_def by simp
  have same: "B' x = B x" if "unat x < unat sp' \<or> unat sp \<le> unat x" for x
  proof -
    have "unat x < unat sp' \<or> unat ?sp \<le> unat x" "\<not> (unat ?sp \<le> unat x \<and> unat x < unat ?sp + length (a @ [0]))"
      using that r(4) al(1) n by auto
    moreover have "B' x = overlay (unat ?sp) (a @ [0]) B x" using r(6) calculation(1) by blast
    ultimately show ?thesis unfolding overlay_def by (simp only: if_False)
  qed
  have "unat sp' \<le> unat ((?sp # ptrs) ! i) \<and> unat ((?sp # ptrs) ! i) + length ((a # as) ! i @ [0]) \<le> unat sp
      \<and> string_at B' ((?sp # ptrs) ! i) ((a # as) ! i @ [0])" if "i < length (a # as)" for i
  proof (cases i)
    case 0
    then show ?thesis using r(4) str al(1) n unfolding 0 nth_Cons_0 by simp
  next
    case (Suc k)
    then have k: "k < length as" using that by simp
    have "unat ?sp \<le> unat sp" using al(1) by linarith
    moreover note r(7) [rule_format, OF k]
    ultimately show ?thesis unfolding Suc nth_Cons_Suc by linarith
  qed
  moreover have "unat sp' \<le> unat sp" "unat sp \<le> unat sp' + args_need (a # as)" using r(4,5) al need by linarith+
  ultimately show ?case using run r(2,3) same by (intro exI [of _ s'] exI [of _ sp'] exI [of _ "?sp # ptrs"] exI [of _ B'] conjI allI impI; fastforce)
qed

text \<open>What \<open>main\<close> finds at the stack pointer: a return address, \<open>argc\<close>, \<open>argv\<close>, the pointers and a zero; a string at each.\<close>

definition args_at :: "(u32 \<Rightarrow> u8) \<Rightarrow> u32 \<Rightarrow> u8 list list \<Rightarrow> bool" where
  "args_at B esp argv = (\<exists>ptrs. length ptrs = length argv
     \<and> string_at B esp (concat (map le32 (0xFFFFFFFF # of_nat (length argv) # (esp + 12) # ptrs @ [0])))
     \<and> (\<forall>i < length argv. string_at B (ptrs ! i) (argv ! i @ [0])))"

lemma build_stack_ok:
  assumes "image kend P T s0 pd len B s ps" and len: "unat len = 4096 * pages_of len" and need: "args_need argv + 4 * (length argv + 4) \<le> 4096"
    and pos: "0 < pages_of len" and n: "length argv \<le> 32"
  shows "\<exists>s1 sp ptrs s2 B'. push_args nul pd 0 argv len s = (Some (sp, ptrs), s1)
     \<and> copyout nul pd (sp - of_nat (length (ustack sp ptrs))) (ustack sp ptrs) s1 = (0, s2)
     \<and> image kend P T s0 pd len B' s2 ps
     \<and> (\<forall>C. (\<forall>x. unat x < unat len \<longrightarrow> C x = B' x) \<longrightarrow> args_at C (sp - of_nat (length (ustack sp ptrs))) argv)
     \<and> (\<forall>x. unat x < 4096 * (pages_of len - 1) \<longrightarrow> B' x = B x)"
proof -
  have l4: "4096 \<le> unat len" using len pos by linarith
  have "unat len \<le> 4096 * pages_of len" "args_need argv \<le> unat len" "0 + length argv \<le> 32" using len need l4 n by linarith+
  from push_args_ok [OF assms(1) this] obtain s1 sp ptrs B1 where
      r: "push_args nul pd 0 argv len s = (Some (sp, ptrs), s1)" "image kend P T s0 pd len B1 s1 ps"
      "length ptrs = length argv" "unat sp \<le> unat len" "unat len \<le> unat sp + args_need argv"
      "\<forall>x. unat x < unat sp \<or> unat len \<le> unat x \<longrightarrow> B1 x = B x"
      "\<forall>i < length argv. unat sp \<le> unat (ptrs ! i) \<and> unat (ptrs ! i) + length (argv ! i @ [0]) \<le> unat len \<and> string_at B1 (ptrs ! i) (argv ! i @ [0])"
    by blast
  let ?us = "ustack sp ptrs" and ?esp = "sp - of_nat (length (ustack sp ptrs))"
  have lu: "length ?us = 4 * (length argv + 4)" unfolding ustack_def length_concat_le32 by (simp add: r(3))
  have unl: "unat (of_nat (length ?us) :: u32) = length ?us" using lu n by (intro unat_of_nat_small) simp
  have le: "4 * (length argv + 4) \<le> unat sp" using r(5) need l4 by linarith
  have esp: "unat ?esp = unat sp - 4 * (length argv + 4)"
    using unl le unfolding lu by (subst unat_sub_small) (simp_all add: word_le_nat_alt)
  have fits: "unat ?esp + length ?us \<le> 4096 * pages_of len" using le r(4) len lu esp by linarith
  obtain s2 where c: "copyout nul pd ?esp ?us s1 = (0, s2)" "image kend P T s0 pd len (overlay (unat ?esp) ?us B1) s2 ps"
    using image_copyout [OF r(2) fits] by blast
  let ?B = "overlay (unat ?esp) ?us B1"
  have end_us: "unat ?esp + length ?us = unat sp" using le lu esp by linarith
  have strings: "string_at C (ptrs ! i) (argv ! i @ [0])" if i: "i < length argv" and C: "\<forall>x. unat x < unat len \<longrightarrow> C x = ?B x" for i C
  proof -
    note ri = r(7) [rule_format, OF i]
    have "C x = B1 x" if x: "unat (ptrs ! i) \<le> unat x" "unat x < unat (ptrs ! i) + length (argv ! i @ [0])" for x
    proof -
      have "\<not> unat x < unat ?esp + length ?us" "unat x < unat len" using ri x end_us by linarith+
      then show ?thesis using C by (simp add: overlay_def)
    qed
    then show ?thesis using ri unfolding string_at_def by simp
  qed
  have "sp - of_nat ((length ptrs + 1) * 4) = ?esp + 12" unfolding lu r(3) by simp
  then have "?us = concat (map le32 (0xFFFFFFFF # of_nat (length argv) # (?esp + 12) # ptrs @ [0]))"
    unfolding ustack_def r(3) by (simp add: algebra_simps)
  moreover have "string_at C ?esp ?us" if C: "\<forall>x. unat x < unat len \<longrightarrow> C x = ?B x" for C
  proof -
    have "C x = ?B x" if "unat x < unat ?esp + length ?us" for x using that end_us r(4) C by simp
    then show ?thesis using string_at_overlay [of ?esp ?us B1] unfolding string_at_def by metis
  qed
  ultimately have "\<forall>C. (\<forall>x. unat x < unat len \<longrightarrow> C x = ?B x) \<longrightarrow> args_at C ?esp argv"
    using strings r(3) unfolding args_at_def by metis
  moreover have "?B x = B x" if "unat x < 4096 * (pages_of len - 1)" for x
  proof -
    have "4096 * (pages_of len - 1) = unat len - 4096" using len pos by (simp add: diff_mult_distrib2)
    then have "unat x < unat ?esp" "unat x < unat sp" using that r(5) need esp by linarith+
    then show ?thesis using r(6) by (simp add: overlay_def)
  qed
  ultimately show ?thesis using r(1) c by blast
qed

subsection \<open>The whole call\<close>

definition elf_of :: "u8 list \<Rightarrow> elfhdr" where "elf_of prog = dec_elfhdr (take 52 prog)"

definition prog_segments :: "u8 list \<Rightarrow> proghdr list" where
  "prog_segments prog = segments prog (unat (e_phoff (elf_of prog))) (unat (e_phnum (elf_of prog)))"

text \<open>A program file that \<open>exec\<close> can load: the magic number and headers inside the file, and segments inside the file and
  below \<open>USERTOP\<close>, with a page left for the stack.\<close>

definition loadable :: "u8 list \<Rightarrow> bool" where
  "loadable prog = (52 \<le> length prog \<and> e_magic (elf_of prog) = ELF_MAGIC
     \<and> unat (e_phoff (elf_of prog)) + 32 * unat (e_phnum (elf_of prog)) \<le> length prog
     \<and> (\<forall>ph \<in> set (prog_segments prog). good_segment prog ph)
     \<and> 4096 * (pages_of (fold seg_end (prog_segments prog) 0) + 1) \<le> unat USERTOP)"

definition prog_pages :: "u8 list \<Rightarrow> nat" where
  "prog_pages prog = pages_of (fold seg_end (prog_segments prog) 0)"

definition prog_byte :: "u8 list \<Rightarrow> u32 \<Rightarrow> u8" where
  "prog_byte prog = fold (seg_bytes prog) (prog_segments prog) (\<lambda>_. 0)"

lemma fold_seg_end: "l \<le> fold seg_end phs l"
  "ph \<in> set phs \<Longrightarrow> p_type ph = ELF_PROG_LOAD \<Longrightarrow> p_va ph + p_memsz ph \<le> fold seg_end phs l"
proof -
  show ge: "l \<le> fold seg_end phs l" for phs l
  proof (induction phs arbitrary: l)
    case (Cons ph phs)
    have "l \<le> seg_end ph l" by (simp add: seg_end_def)
    then show ?case using Cons [of "seg_end ph l"] by simp
  qed simp
  show "ph \<in> set phs \<Longrightarrow> p_type ph = ELF_PROG_LOAD \<Longrightarrow> p_va ph + p_memsz ph \<le> fold seg_end phs l"
  proof (induction phs arbitrary: l)
    case (Cons q phs)
    show ?case
    proof (cases "ph = q")
      case True
      then have "p_va ph + p_memsz ph \<le> seg_end q l" using Cons.prems(2) by (auto simp: seg_end_def)
      then show ?thesis using ge [of "seg_end q l" phs] by simp
    qed (use Cons in simp)
  qed simp
qed

lemma dec_elfhdr_append: "length b = 52 \<Longrightarrow> dec_elfhdr (b @ j) = dec_elfhdr b"
  by (simp add: dec_elfhdr_def word32_def word16_def nth_append)

lemma exec_loads:
  assumes rep: "kmem_rep kend s ps" and kd: "kernel_map kdata" and pd: "setupkvm kdata s = (pd, s1)" "pd \<noteq> 0"
    and rd: "reads_file (ex_readi F ip) f prog" and good: "loadable prog"
    and room: "prog_pages prog + 1 + card (pt_pages s1 pd) \<le> length ps"
  defines "len \<equiv> fold seg_end (prog_segments prog) 0"
  shows "\<exists>s2 s3 ps3. load_segments F ip kend pd (unat (e_phnum (elf_of prog))) (e_phoff (elf_of prog)) 0 (s1, f) = Inr ((True, len), (s2, f))
     \<and> allocuvm kend pd (PGROUNDUP len) (PGROUNDUP len + PGSIZE) s2 = Inr (PGROUNDUP len + PGSIZE, s3)
     \<and> image kend (set ps) (pt_pages s1 pd) s pd (PGROUNDUP len + PGSIZE) (prog_byte prog) s3 ps3
     \<and> unat (PGROUNDUP len + PGSIZE) = 4096 * (prog_pages prog + 1) \<and> pages_of (PGROUNDUP len + PGSIZE) = prog_pages prog + 1"
proof -
  let ?T = "pt_pages s1 pd" and ?phs = "prog_segments prog"
  have phs: "segments prog (unat (e_phoff (elf_of prog))) (unat (e_phnum (elf_of prog))) = ?phs" by (simp add: prog_segments_def)
  have n: "pages_of len = prog_pages prog" by (simp add: len_def prog_pages_def)
  have cP: "card (set ps) = length ps" using rep by (simp add: kmem_rep_def distinct_card)
  obtain ps1 where im1: "image kend (set ps) ?T s pd 0 (\<lambda>_. 0) s1 ps1" using image_setup [OF rep kd pd] by blast
  have "\<forall>ph \<in> set ?phs. good_segment prog ph \<and> (p_type ph = ELF_PROG_LOAD \<longrightarrow> pages_of (p_va ph + p_memsz ph) + card ?T \<le> card (set ps))"
  proof (intro ballI conjI impI)
    fix ph assume ph: "ph \<in> set ?phs"
    then show "good_segment prog ph" using good by (simp add: loadable_def)
    assume "p_type ph = ELF_PROG_LOAD"
    from pages_of_mono [OF fold_seg_end(2) [OF ph this, of 0]] show "pages_of (p_va ph + p_memsz ph) + card ?T \<le> card (set ps)"
      using room unfolding cP prog_pages_def by linarith
  qed
  moreover have "unat (e_phoff (elf_of prog)) + 32 * unat (e_phnum (elf_of prog)) \<le> length prog" using good by (simp add: loadable_def)
  moreover have "\<forall>x. pages_of 0 \<le> unat x div 4096 \<longrightarrow> (\<lambda>_. 0 :: u8) x = 0" by simp
  ultimately obtain s2 ps2 where
      l: "load_segments F ip kend pd (unat (e_phnum (elf_of prog))) (e_phoff (elf_of prog)) 0 (s1, f) = Inr ((True, len), (s2, f))"
      "image kend (set ps) ?T s pd len (prog_byte prog) s2 ps2" and z: "\<forall>x. pages_of len \<le> unat x div 4096 \<longrightarrow> prog_byte prog x = 0"
    using load_segments_ok [OF im1 _ rd, of "e_phoff (elf_of prog)" "unat (e_phnum (elf_of prog))"]
    unfolding phs len_def prog_byte_def by blast
  note imD2 = imageD [OF l(2)]
  have top: "4096 * (prog_pages prog + 1) \<le> 655360" using good by (simp add: loadable_def prog_pages_def USERTOP_nat)
  have up: "unat (PGROUNDUP len) = 4096 * prog_pages prog" using PGROUNDUP_pages [OF imD2(2)] n by simp
  have un: "unat (PGROUNDUP len + PGSIZE) = 4096 * (prog_pages prog + 1)"
    using top by (subst unat_add_small) (simp_all add: up PGSIZE_def)
  have pn: "pages_of (PGROUNDUP len) = prog_pages prog" "pages_of (PGROUNDUP len + PGSIZE) = prog_pages prog + 1"
    unfolding pages_of_def up un by simp_all
  have le: "PGROUNDUP len \<le> PGROUNDUP len + PGSIZE" "PGROUNDUP len + PGSIZE \<le> USERTOP" "PGROUNDUP len \<le> USERTOP"
    unfolding word_le_nat_alt up un USERTOP_nat using top by simp_all
  have im2: "image kend (set ps) ?T s pd (PGROUNDUP len) (prog_byte prog) s2 ps2"
    by (rule imageI) (use imD2 pn n le(3) in auto)
  have "length ps2 + pages_of len + card ?T = length ps" using image_count [OF l(2)] cP by simp
  then have "pages_of (PGROUNDUP len + PGSIZE) - pages_of (PGROUNDUP len) \<le> length ps2" using room pn n by simp
  from image_alloc [OF im2 le(1,2) this] obtain s3 ps3 where
      a: "allocuvm kend pd (PGROUNDUP len) (PGROUNDUP len + PGSIZE) s2 = Inr (PGROUNDUP len + PGSIZE, s3)"
      "image kend (set ps) ?T s pd (PGROUNDUP len + PGSIZE) (\<lambda>va. if unat va div 4096 < pages_of (PGROUNDUP len) then prog_byte prog va else 0) s3 ps3"
    by blast
  have "(\<lambda>va. if unat va div 4096 < pages_of (PGROUNDUP len) then prog_byte prog va else 0) = prog_byte prog"
    using z pn n by (intro ext) (simp add: not_less)
  then show ?thesis using l(1) a un pn by auto
qed

text \<open>What \<open>exec\<close> relies on of the file system: the path names an inode whose file holds \<open>prog\<close>, in the states it passes.\<close>

definition program_file :: "'f exec_files \<Rightarrow> u8 list \<Rightarrow> u8 list \<Rightarrow> 'f \<Rightarrow> 'f \<Rightarrow> bool" where
  "program_file F path prog f f' = (\<exists>ip f1 f2. ex_namei F path f = Inr (ip, f1) \<and> ip \<noteq> 0 \<and> ex_ilock F ip f1 = Inr f2
     \<and> reads_file (ex_readi F ip) f2 prog \<and> ex_iunlockput F ip f2 = Inr f')"

text \<open>An address space of the user pages below \<open>len\<close> that shares none of them.\<close>

definition plain_space :: "kmem \<Rightarrow> u32 \<Rightarrow> u32 \<Rightarrow> bool" where
  "plain_space s pd len = (len \<le> USERTOP \<and> (\<forall>va. if pg va < len then present (pte_of s pd va) \<longrightarrow> user (pte_of s pd va)
       else if pg va < USERTOP then \<not> present (pte_of s pd va) else \<not> user (pte_of s pd va)))"

lemma free_old_space:
  assumes im: "image kend (set ps) T (phys v) pd len B s ps1" and old: "as_ok kend (phys v) ps q" "plain_space (phys v) q osz"
  shows "\<exists>s' ps'. freevm kend q osz (v\<lparr>phys := s\<rparr>) = Inr (v\<lparr>phys := s'\<rparr>) \<and> as_ok kend s' ps' pd \<and> set ps' = set ps1 \<union> owned (phys v) q
     \<and> (\<forall>va. unat va div 4096 < pages_of len \<longrightarrow> user (pte_of s' pd va) \<and> ubyte s' pd va = B va)
     \<and> (\<forall>va. pages_of len \<le> unat va div 4096 \<longrightarrow> \<not> user (pte_of s' pd va))"
proof -
  note imD = imageD [OF im]
  let ?v = "v\<lparr>phys := s\<rparr>"
  have dis: "set ps \<inter> owned (phys v) q = {}" "owned (phys v) q \<inter> set ps1 = {}" using as_okD(3) [OF old(1)] imD(5) by blast+
  note b = beside_touches [OF old(1) imD(6) dis(1) as_okD(2) [OF imD(1)] dis(2)]
  have ok: "as_ok kend (phys ?v) ps1 q" using b(1) by simp
  have pl: "osz \<le> USERTOP" "if pg va < osz then present (pte_of s q va) \<longrightarrow> user (pte_of s q va)
       else if pg va < USERTOP then \<not> present (pte_of s q va) else \<not> user (pte_of s q va)" for va
    using old(2) unfolding plain_space_def b(5) by blast+
  have "\<exists>s' ps'. freevm kend q osz ?v = Inr (?v\<lparr>phys := s'\<rparr>) \<and> kmem_rep kend s' ps' \<and> set ps' = set ps1 \<union> owned (phys ?v) q
     \<and> touches (owned (phys ?v) q) (phys ?v) s'"
  proof (rule freevm_result [OF ok pl(1)])
    show "pg va < osz \<Longrightarrow> present (pte_of (phys ?v) q va) \<Longrightarrow> user (pte_of (phys ?v) q va)" for va using pl(2) [of va] by simp
    show "osz \<le> pg va \<Longrightarrow> pg va < USERTOP \<Longrightarrow> \<not> present (pte_of (phys ?v) q va)" for va using pl(2) [of va] by (simp add: not_less [symmetric])
    show "USERTOP \<le> pg va \<Longrightarrow> \<not> user (pte_of (phys ?v) q va)" for va using pl(1) pl(2) [of va] by (auto simp: not_less [symmetric] split: if_splits)
  qed
  then obtain s' ps' where fr: "freevm kend q osz ?v = Inr (v\<lparr>phys := s'\<rparr>)" "kmem_rep kend s' ps'"
      "set ps' = set ps1 \<union> owned (phys v) q" "touches (owned (phys v) q) s s'"
    by (auto simp: b(3))
  have sep: "owned (phys v) q \<inter> owned s pd = {}" using dis(1) imD(5) by blast
  have "owned s pd \<inter> set ps' = {}" using sep as_okD(3) [OF imD(1)] fr(3) by blast
  note b2 = beside_touches [OF imD(1) fr(4) sep fr(2) this]
  have "ubyte s' pd va = ubyte s pd va" if u: "user (pte_of s pd va)" for va
  proof (rule ubyte_cong [OF imD(1) u b2(5)])
    fix a assume "pg a = PTE_ADDR (pte_of s pd va)"
    then have "pg a \<in> owned s pd" using u unfolding owned_def frames_def by blast
    then show "mem s' a = mem s a" using fr(4) sep by (auto simp: touches_def)
  qed
  then have "\<forall>va. unat va div 4096 < pages_of len \<longrightarrow> user (pte_of s' pd va) \<and> ubyte s' pd va = B va"
    using imD(7,8) by (simp add: b2(5))
  moreover have "\<forall>va. pages_of len \<le> unat va div 4096 \<longrightarrow> \<not> user (pte_of s' pd va)" using imD(10) by (simp add: b2(5))
  ultimately show ?thesis using fr(1,3) b2(1) by blast
qed

text \<open>The run of \<open>exec\<close> whose parts all succeed.\<close>

lemma exec_path:
  assumes F: "ex_namei F path f = Inr (ip, f1)" "ip \<noteq> 0" "ex_ilock F ip f1 = Inr f2" "reads_file (ex_readi F ip) f2 prog" "ex_iunlockput F ip f2 = Inr f'"
    and good: "loadable prog" and pd: "setupkvm kdata (phys v) = (pd, s1)" "pd \<noteq> 0" and nz: "len \<noteq> 0"
    and l: "load_segments F ip kend pd (unat (e_phnum (elf_of prog))) (e_phoff (elf_of prog)) 0 (s1, f2) = Inr ((True, z), (s2, f2))"
      "allocuvm kend pd (PGROUNDUP z) (PGROUNDUP z + PGSIZE) s2 = Inr (len, s3)"
    and b: "push_args nul pd 0 argv len s3 = (Some (sp, ptrs), s4)"
      "copyout nul pd (sp - of_nat (length (ustack sp ptrs))) (ustack sp ptrs) s4 = (0, s5)"
    and fr: "freevm kend (shm_pgdir pr) (ex_sz pr) (v\<lparr>phys := s5\<rparr>) = Inr (v\<lparr>phys := s'\<rparr>)"
  shows "exec F kend kdata nul junk path argv pr (v, f) = Inr (0, pr\<lparr>ex_name := take 15 (base_name path), shm_pgdir := pd,
      ex_sz := len, ex_eip := e_entry (elf_of prog), ex_esp := sp - of_nat (length (ustack sp ptrs)),
      shm_va := replicate 8 USERTOP, shm_sz := USERTOP\<rparr>, v\<lparr>phys := s'\<rparr>, f')"
proof -
  have L: "52 \<le> length prog" "e_magic (elf_of prog) = ELF_MAGIC" using good by (simp_all add: loadable_def)
  have rdh: "ex_readi F ip 0 52 f2 = Inr ((52, take 52 prog), f2)" using F(4) L(1) by (simp add: reads_file_def)
  have hdr: "dec_elfhdr (take 52 prog @ drop (length (take 52 prog)) junk) = elf_of prog"
    unfolding elf_of_def by (rule dec_elfhdr_append) (use L(1) in simp)
  have ok: "\<not> ((word_of_int 52 :: u32) < 52 \<or> e_magic (elf_of prog) \<noteq> ELF_MAGIC)" "\<not> \<not> True" "\<not> (0 :: int) < 0" using L(2) by simp_all
  show ?thesis
    unfolding exec_def snd_conv fst_conv F(1,3,5) bindE_simps prod.case if_not_P [OF F(2)] rdh Let_def hdr if_not_P [OF ok(1)] pd(1)
      if_not_P [OF pd(2)] l(1) if_not_P [OF ok(2)] l(2) if_not_P [OF nz] b(1) option.case b(2) if_not_P [OF ok(3)] fr
    by (rule refl)
qed

text \<open>C4: With a program file that \<open>loadable\<close> accepts, an old address space without shared pages, fourteen free pages more than
  the program has, and arguments that fit into a page, \<open>exec\<close> succeeds: the new space is exactly the program's pages and the
  stack, with the bytes of the segments and zeroes, \<open>main\<close> finds its arguments on the stack, and the pages of the old space are free.\<close>

theorem exec_builds_image:
  assumes src: "program_file F path prog f f'" and good: "loadable prog"
    and old: "as_ok kend (phys v) ps (shm_pgdir pr)" "plain_space (phys v) (shm_pgdir pr) (ex_sz pr)"
    and kd: "kernel_map kdata" and mem: "prog_pages prog + 14 \<le> length ps"
    and args: "length argv \<le> 32" "args_need argv + 4 * (length argv + 4) \<le> 4096"
  shows "\<exists>pd esp s' ps'. exec F kend kdata nul junk path argv pr (v, f) = Inr (0, pr\<lparr>ex_name := take 15 (base_name path), shm_pgdir := pd,
         ex_sz := of_nat (4096 * (prog_pages prog + 1)), ex_eip := e_entry (elf_of prog), ex_esp := esp,
         shm_va := replicate 8 USERTOP, shm_sz := USERTOP\<rparr>, v\<lparr>phys := s'\<rparr>, f')
     \<and> as_ok kend s' ps' pd \<and> (\<forall>va. user (pte_of s' pd va) \<longleftrightarrow> unat va div 4096 < prog_pages prog + 1)
     \<and> (\<forall>va. unat va div 4096 < prog_pages prog \<longrightarrow> ubyte s' pd va = prog_byte prog va)
     \<and> args_at (ubyte s' pd) esp argv \<and> owned (phys v) (shm_pgdir pr) \<subseteq> set ps'"
proof -
  from src obtain ip f1 f2 where F: "ex_namei F path f = Inr (ip, f1)" "ip \<noteq> 0" "ex_ilock F ip f1 = Inr f2"
      "reads_file (ex_readi F ip) f2 prog" "ex_iunlockput F ip f2 = Inr f'" unfolding program_file_def by blast
  obtain pd s1 where pd: "setupkvm kdata (phys v) = (pd, s1)" "pd \<noteq> 0" and T: "card (pt_pages s1 pd) \<le> 13"
    using setupkvm_succeeds [OF as_okD(2) [OF old(1)] kd] mem by auto
  have room: "prog_pages prog + 1 + card (pt_pages s1 pd) \<le> length ps" using mem T by simp
  let ?len = "PGROUNDUP (fold seg_end (prog_segments prog) 0) + PGSIZE"
  from exec_loads [OF as_okD(2) [OF old(1)] kd pd F(4) good room] obtain s2 s3 ps3 where
      l: "load_segments F ip kend pd (unat (e_phnum (elf_of prog))) (e_phoff (elf_of prog)) 0 (s1, f2) = Inr ((True, fold seg_end (prog_segments prog) 0), (s2, f2))"
      "allocuvm kend pd (PGROUNDUP (fold seg_end (prog_segments prog) 0)) ?len s2 = Inr (?len, s3)"
      "image kend (set ps) (pt_pages s1 pd) (phys v) pd ?len (prog_byte prog) s3 ps3"
      "unat ?len = 4096 * (prog_pages prog + 1)" "pages_of ?len = prog_pages prog + 1" by blast
  have nz: "?len \<noteq> 0" using l(4) by (auto simp del: unat_eq_zero)
  have "unat ?len = 4096 * pages_of ?len" "0 < pages_of ?len" using l(4,5) by simp_all
  from build_stack_ok [OF l(3) this(1) args(2) this(2) args(1)] obtain s4 sp ptrs s5 B' where
      b: "push_args nul pd 0 argv ?len s3 = (Some (sp, ptrs), s4)"
      "copyout nul pd (sp - of_nat (length (ustack sp ptrs))) (ustack sp ptrs) s4 = (0, s5)"
      "image kend (set ps) (pt_pages s1 pd) (phys v) pd ?len B' s5 ps3"
      "\<forall>C. (\<forall>x. unat x < unat ?len \<longrightarrow> C x = B' x) \<longrightarrow> args_at C (sp - of_nat (length (ustack sp ptrs))) argv"
      "\<forall>x. unat x < 4096 * (pages_of ?len - 1) \<longrightarrow> B' x = prog_byte prog x" by blast
  from free_old_space [OF b(3) old] obtain s' ps' where
      fr: "freevm kend (shm_pgdir pr) (ex_sz pr) (v\<lparr>phys := s5\<rparr>) = Inr (v\<lparr>phys := s'\<rparr>)" "as_ok kend s' ps' pd"
      "set ps' = set ps3 \<union> owned (phys v) (shm_pgdir pr)"
      "\<forall>va. unat va div 4096 < pages_of ?len \<longrightarrow> user (pte_of s' pd va) \<and> ubyte s' pd va = B' va"
      "\<forall>va. pages_of ?len \<le> unat va div 4096 \<longrightarrow> \<not> user (pte_of s' pd va)" by blast
  let ?esp = "sp - of_nat (length (ustack sp ptrs))"
  have in_len: "unat x < unat ?len \<longleftrightarrow> unat x div 4096 < pages_of ?len" for x :: u32
    unfolding l(4,5) by (simp add: div_less_iff_less_mult mult.commute)
  have "args_at (ubyte s' pd) ?esp argv" using b(4) fr(4) in_len by blast
  moreover have "ubyte s' pd va = prog_byte prog va" if "unat va div 4096 < prog_pages prog" for va
  proof -
    have "unat va < 4096 * (pages_of ?len - 1)" "unat va div 4096 < pages_of ?len"
      using that unfolding l(5) by (simp_all add: div_less_iff_less_mult mult.commute)
    then show ?thesis using b(5) fr(4) by simp
  qed
  moreover have "user (pte_of s' pd va) \<longleftrightarrow> unat va div 4096 < prog_pages prog + 1" for va
    using fr(4,5) l(5) by (metis not_less)
  moreover have "exec F kend kdata nul junk path argv pr (v, f) = Inr (0, pr\<lparr>ex_name := take 15 (base_name path), shm_pgdir := pd,
      ex_sz := of_nat (4096 * (prog_pages prog + 1)), ex_eip := e_entry (elf_of prog), ex_esp := ?esp,
      shm_va := replicate 8 USERTOP, shm_sz := USERTOP\<rparr>, v\<lparr>phys := s'\<rparr>, f')"
    using exec_path [OF F good pd nz l(1,2) b(1,2) fr(1)] unfolding l(4) [symmetric] by simp
  ultimately show ?thesis using fr(2,3) by blast
qed

subsection \<open>A program of one page\<close>

definition small_prog :: "u8 list" where
  "small_prog = le32 ELF_MAGIC @ replicate 20 0 @ le32 0 @ le32 52 @ replicate 12 0 @ le16 1 @ replicate 6 0
     @ le32 ELF_PROG_LOAD @ le32 84 @ le32 0 @ le32 0 @ le32 2 @ le32 8 @ replicate 8 0 @ [0xB8, 0x90]"

lemma small_prog_parts:
  "elf_of small_prog = \<lparr>e_magic = ELF_MAGIC, e_entry = 0, e_phoff = 52, e_phnum = 1\<rparr>"
  "prog_segments small_prog = [\<lparr>p_type = ELF_PROG_LOAD, p_offset = 84, p_va = 0, p_filesz = 2, p_memsz = 8\<rparr>]"
  "length small_prog = 86" "take 2 (drop 84 small_prog) = [0xB8, 0x90]"
  by code_simp+

lemma small_prog_loads: "loadable small_prog" "prog_pages small_prog = 1" "prog_byte small_prog 1 = 0x90"
  by (simp_all add: loadable_def prog_pages_def prog_byte_def small_prog_parts good_segment_def seg_end_def seg_bytes_def overlay_def
      pages_of_def USERTOP_def)

definition small_files :: "unit exec_files" where
  "small_files = \<lparr>ex_namei = (\<lambda>_ f. Inr (1, f)), ex_ilock = (\<lambda>_ f. Inr f),
     ex_readi = (\<lambda>_ off n f. Inr ((int (unat n), take (unat n) (drop (unat off) small_prog)), f)), ex_iunlockput = (\<lambda>_ f. Inr f)\<rparr>"

lemma small_file: "program_file small_files path small_prog f f"
  by (simp add: program_file_def small_files_def reads_file_def small_prog_parts)

text \<open>The small machine with sixteen free pages.\<close>

definition boot_space :: kmem where
  "boot_space = \<lparr>mem = (\<lambda>a. if 0x4000 \<le> a \<and> a < 0x13000 \<and> a mod 4096 = 0 then a + 4096 else mem tiny_space a), freelist = 0x4000\<rparr>"

abbreviation boot_pages :: "u32 list" where
  "boot_pages \<equiv> map (\<lambda>k. of_nat (4096 * k)) [4..<20]"

lemma boot_space_ok: "as_ok 0x1000 boot_space boot_pages 0x1000" "plain_space boot_space 0x1000 0x1000" "length boot_pages = 16"
proof -
  have l: "[4..<20] = [4, 5, 6, 7, 8, 9, 10, 11, 12, 13, 14, 15, 16, 17, 18, 19]" by code_simp
  have rep: "kmem_rep 0x1000 boot_space boot_pages"
    unfolding kmem_rep_def l by (simp add: boot_space_def tiny_space_def page_ok_def PGSIZE_def PHYSTOP_def)
  have same: "mem boot_space a = mem tiny_space a" if "pg a \<in> owned tiny_space 0x1000" for a
  proof -
    have "\<not> (0x4000 \<le> a \<and> a < 0x13000 \<and> a mod 4096 = 0)"
    proof
      assume c: "0x4000 \<le> a \<and> a < 0x13000 \<and> a mod 4096 = 0"
      then have "pg a = a" by (intro pg_of_aligned) blast
      then have "a \<in> {0x1000, 0x2000, 0x3000}" using that by (simp only: tiny_space_ok(3))
      then show False using c by auto
    qed
    then show ?thesis by (simp only: boot_space_def kmem.select_convs if_False)
  qed
  have "owned tiny_space 0x1000 \<inter> set boot_pages = {}" unfolding tiny_space_ok(3) l by simp
  note f = as_frame [OF tiny_space_ok(1) same rep this]
  show "as_ok 0x1000 boot_space boot_pages 0x1000" by (rule f(1))
  have "pg va = 0" if "pg va < 0x1000" for va :: u32 using that pg_less_aligned
    by (metis (no_types, lifting) in_page_iff that mod_0 diff_zero pg_of_aligned pg_aligned)
  then show "plain_space boot_space 0x1000 0x1000"
    by (auto simp: plain_space_def f(2) tiny_pte USERTOP_def user_def present_def PTE_P_def PTE_U_def)
  show "length boot_pages = 16" by simp
qed

theorem exec_builds_image_witness:
  "\<exists>pd esp s' pr. exec small_files 0x1000 0x200000 0 [] [47, 99] [[97]]
       \<lparr>shm_pgdir = 0x1000, shm_va = [], shm_sz = 0, ex_sz = 0x1000, ex_name = [], ex_eip = 0, ex_esp = 0\<rparr>
       (\<lparr>phys = boot_space, keys = []\<rparr>, ()) = Inr (0, pr, \<lparr>phys = s', keys = []\<rparr>, ())
     \<and> ubyte s' pd 1 = 0x90 \<and> args_at (ubyte s' pd) esp [[97]] \<and> ex_sz pr = 0x2000 \<and> ex_esp pr = esp \<and> ex_name pr = [99]"
proof -
  let ?pr = "\<lparr>shm_pgdir = 0x1000, shm_va = [], shm_sz = 0, ex_sz = 0x1000, ex_name = [], ex_eip = 0, ex_esp = 0\<rparr>"
    and ?v = "\<lparr>phys = boot_space, keys = []\<rparr>"
  have old: "as_ok 0x1000 (phys ?v) boot_pages (shm_pgdir ?pr)" "plain_space (phys ?v) (shm_pgdir ?pr) (ex_sz ?pr)"
    using boot_space_ok by simp_all
  have h: "kernel_map 0x200000" "prog_pages small_prog + 14 \<le> length boot_pages" "length [[97 :: u8]] \<le> 32"
      "args_need [[97]] + 4 * (length [[97 :: u8]] + 4) \<le> 4096"
    by (simp_all add: kernel_map_def PHYSTOP_def small_prog_loads args_need_def)
  from exec_builds_image [OF small_file small_prog_loads(1) old h, of 0 "[]" "[47, 99]" "()"]
  obtain pd esp s' where e: "exec small_files 0x1000 0x200000 0 [] [47, 99] [[97]] ?pr (?v, ()) = Inr (0, ?pr\<lparr>ex_name := take 15 (base_name [47, 99]),
        shm_pgdir := pd, ex_sz := of_nat (4096 * (prog_pages small_prog + 1)), ex_eip := e_entry (elf_of small_prog), ex_esp := esp,
        shm_va := replicate 8 USERTOP, shm_sz := USERTOP\<rparr>, ?v\<lparr>phys := s'\<rparr>, ())"
      "\<forall>va. unat va div 4096 < prog_pages small_prog \<longrightarrow> ubyte s' pd va = prog_byte small_prog va" "args_at (ubyte s' pd) esp [[97]]" by blast
  have "ubyte s' pd 1 = 0x90" using e(2) [rule_format, of 1] by (simp add: small_prog_loads)
  then show ?thesis using e(1,3) by (intro exI) (auto simp: small_prog_loads base_name_def)
qed

subsection \<open>Failure\<close>

text \<open>A call that returns has succeeded with a new address space, or has failed and left the process as it was.\<close>

definition keeps :: "'a exproc_scheme \<Rightarrow> 'e + int \<times> 'a exproc_scheme \<times> 'v \<times> 'f \<Rightarrow> bool" where
  "keeps pr x = (\<forall>r pr' v f. x = Inr (r, pr', v, f) \<longrightarrow> r = 0 \<and> shm_pgdir pr' \<noteq> 0 \<or> r = -1 \<and> pr' = pr)"

lemma keeps_bind: "(\<And>y. keeps pr (g y)) \<Longrightarrow> keeps pr (bindE m g)"
  by (cases m) (simp_all add: keeps_def)

lemma keeps_intros:
  "(c \<Longrightarrow> keeps pr x) \<Longrightarrow> (\<not> c \<Longrightarrow> keeps pr y) \<Longrightarrow> keeps pr (if c then x else y)"
  "(\<And>a b. keeps pr (h a b)) \<Longrightarrow> keeps pr (case p of (a, b) \<Rightarrow> h a b)"
  "keeps pr x \<Longrightarrow> (\<And>a. keeps pr (k a)) \<Longrightarrow> keeps pr (case q of None \<Rightarrow> x | Some a \<Rightarrow> k a)"
  "(\<And>a b. keeps pr (h' a b w)) \<Longrightarrow> keeps pr ((case p of (a, b) \<Rightarrow> h' a b) w)"
  "keeps pr (x' w) \<Longrightarrow> (\<And>a. keeps pr (k' a w)) \<Longrightarrow> keeps pr ((case q of None \<Rightarrow> x' | Some a \<Rightarrow> k' a) w)"
  "keeps pr (exec_bad F kend ip pgdir len pr vf)"
  "keeps pr (Inr (-1, pr, v, f))"
  by (auto simp: keeps_def bindE_eq_Inr_iff exec_bad_def split: prod.splits option.splits)

lemma keeps_done:
  "pd \<noteq> 0 \<Longrightarrow> keeps pr (Inr (0, pr\<lparr>ex_name := n, shm_pgdir := pd, ex_sz := z, ex_eip := e, ex_esp := p, shm_va := a, shm_sz := b\<rparr>, v, f))"
  by (simp add: keeps_def)



end
