(* ===== verification/File.thy ===== *)
theory File
  imports Fs Pipe Kalloc
begin

text \<open>
  The system-wide file table, \<open>kernel/file.c\<close>, and \<open>pipealloc\<close>. A \<open>struct file *\<close> is an index of
  \<open>ftable.file\<close>. Pipes live in pages from \<open>kalloc\<close>: \<open>pipes\<close> maps the address of a page to the pipe in it, and a
  use of a page that holds no pipe is the failure \<open>trap\<close>. \<open>pwoken\<close> records the calls of \<open>wakeup\<close> on
  the channels of pipes, latest first.
\<close>

definition NFILE :: nat where "NFILE = 100"

datatype fdtype = FD_NONE | FD_PIPE | FD_INODE

record kfile =
  ftype :: fdtype
  fref :: int
  freadable :: bool
  fwritable :: bool
  fpipe :: u32
  fip :: nat
  foff :: u32

record 'w files =
  fsys :: "'w fs"
  ftable :: "kfile list"
  pipes :: "u32 \<Rightarrow> pipe option"
  kpages :: kmem
  pwoken :: "(u32 \<times> chan) list"

definition upd_file :: "nat \<Rightarrow> (kfile \<Rightarrow> kfile) \<Rightarrow> 'w files \<Rightarrow> 'w files" where
  "upd_file i g s = s\<lparr>ftable := (ftable s)[i := g (ftable s ! i)]\<rparr>"

definition filealloc :: "'w files \<Rightarrow> nat option \<times> 'w files" where
  "filealloc s =
     (case first_idx (\<lambda>f. fref f = 0) (ftable s) of
        Some i \<Rightarrow> (Some i, upd_file i (\<lambda>f. f\<lparr>fref := 1\<rparr>) s)
      | None \<Rightarrow> (None, s))"

definition filedup :: "nat \<Rightarrow> 'w files \<Rightarrow> kerr + 'w files" where
  "filedup i s =
     (if fref (ftable s ! i) < 1 then Inl (Panic ''filedup'')
      else Inr (upd_file i (\<lambda>f. f\<lparr>fref := fref f + 1\<rparr>) s))"

text \<open>\<open>pipeclose\<close> on the pipe in the page \<open>a\<close>: the page is freed with the second end.\<close>

definition close_pipe :: "u32 \<Rightarrow> u32 \<Rightarrow> bool \<Rightarrow> 'w files \<Rightarrow> kerr + 'w files" where
  "close_pipe kend a writable s =
     (case pipes s a of
        None \<Rightarrow> Inl (Panic ''trap'')
      | Some p \<Rightarrow>
          (let (both, w, p1) = pipeclose p writable; s1 = s\<lparr>pwoken := map (Pair a) w @ pwoken s\<rparr> in
           if both then bindE (kfree kend a (kpages s1)) (\<lambda>k. Inr (s1\<lparr>kpages := k, pipes := (pipes s1)(a := None)\<rparr>))
           else Inr (s1\<lparr>pipes := (pipes s1)(a := Some p1)\<rparr>)))"

definition fileclose :: "u32 \<Rightarrow> nat \<Rightarrow> 'w files \<Rightarrow> kerr + 'w files" where
  "fileclose kend i s =
     (let f = ftable s ! i in
      if fref f < 1 then Inl (Panic ''fileclose'')
      else if fref f - 1 > 0 then Inr (upd_file i (\<lambda>f. f\<lparr>fref := fref f - 1\<rparr>) s)
      else
        (let s1 = upd_file i (\<lambda>f. f\<lparr>fref := 0, ftype := FD_NONE\<rparr>) s in
         case ftype f of
           FD_PIPE \<Rightarrow> close_pipe kend (fpipe f) (fwritable f) s1
         | FD_INODE \<Rightarrow> bindE (iput (fip f) (fsys s1)) (\<lambda>x. Inr (s1\<lparr>fsys := x\<rparr>))
         | FD_NONE \<Rightarrow> Inr s1))"

definition filestat :: "nat \<Rightarrow> stat \<Rightarrow> 'w files \<Rightarrow> kerr + stat option \<times> 'w files" where
  "filestat i old s =
     (let f = ftable s ! i in
      if ftype f = FD_INODE then
        bindE (ilock (fip f) (fsys s)) (\<lambda>x1.
          bindE (stati (fip f) old x1) (\<lambda>(st, x2).
            bindE (iunlock (fip f) x2) (\<lambda>x3. Inr (Some st, s\<lparr>fsys := x3\<rparr>))))
      else Inr (None, s))"

text \<open>
  The outcome of a read and the bytes that it stores at \<open>addr\<close>. A negative \<open>n\<close> reaches \<open>readi\<close> as a large
  unsigned number.
\<close>

definition fileread :: "'w devsw \<Rightarrow> bool \<Rightarrow> nat \<Rightarrow> int \<Rightarrow> 'w files \<Rightarrow> kerr + (outcome \<times> u8 list) \<times> 'w files" where
  "fileread sw killed i n s =
     (let f = ftable s ! i in
      if \<not> freadable f then Inr ((Ret (-1), []), s)
      else case ftype f of
        FD_PIPE \<Rightarrow>
          (case pipes s (fpipe f) of
             None \<Rightarrow> Inl (Panic ''trap'')
           | Some p \<Rightarrow>
               (let (out, w, bs, p1) = piperead killed p n in
                Inr ((out, bs), s\<lparr>pipes := (pipes s)(fpipe f := Some p1), pwoken := map (Pair (fpipe f)) w @ pwoken s\<rparr>)))
      | FD_INODE \<Rightarrow>
          bindE (ilock (fip f) (fsys s)) (\<lambda>x1.
            bindE (readi sw (fip f) (foff f) (word_of_int n) x1) (\<lambda>((r, bs), x2).
              let s1 = (if r > 0 then upd_file i (\<lambda>f. f\<lparr>foff := foff f + word_of_int r\<rparr>) s else s) in
              bindE (iunlock (fip f) x2) (\<lambda>x3. Inr ((Ret r, bs), s1\<lparr>fsys := x3\<rparr>))))
      | FD_NONE \<Rightarrow> Inl (Panic ''fileread''))"

text \<open>\<open>m\<close> is memory as the kernel sees it, from which the bytes at \<open>addr\<close> are taken.\<close>

definition mem_bytes :: "(u32 \<Rightarrow> u8) \<Rightarrow> u32 \<Rightarrow> nat \<Rightarrow> u8 list" where
  "mem_bytes m a n = map (\<lambda>k. m (a + of_nat k)) [0..<n]"

definition filewrite :: "'w devsw \<Rightarrow> bool \<Rightarrow> nat \<Rightarrow> (u32 \<Rightarrow> u8) \<Rightarrow> u32 \<Rightarrow> int \<Rightarrow> 'w files \<Rightarrow> kerr + outcome \<times> 'w files" where
  "filewrite sw killed i m addr n s =
     (let f = ftable s ! i in
      if \<not> fwritable f then Inr (Ret (-1), s)
      else case ftype f of
        FD_PIPE \<Rightarrow>
          (case pipes s (fpipe f) of
             None \<Rightarrow> Inl (Panic ''trap'')
           | Some p \<Rightarrow>
               (let (out, w, p1) = pipewrite killed p (mem_bytes m addr (nat n)) n in
                Inr (out, s\<lparr>pipes := (pipes s)(fpipe f := Some p1), pwoken := map (Pair (fpipe f)) w @ pwoken s\<rparr>)))
      | FD_INODE \<Rightarrow>
          bindE (ilock (fip f) (fsys s)) (\<lambda>x1.
            bindE (writei sw (fip f) (foff f) (mem_bytes m addr (unat (word_of_int n :: u32))) x1) (\<lambda>(r, x2).
              let s1 = (if r > 0 then upd_file i (\<lambda>f. f\<lparr>foff := foff f + word_of_int r\<rparr>) s else s) in
              bindE (iunlock (fip f) x2) (\<lambda>x3. Inr (Ret r, s1\<lparr>fsys := x3\<rparr>))))
      | FD_NONE \<Rightarrow> Inl (Panic ''filewrite''))"

text \<open>
  \<open>pipealloc\<close>: the two files, reader first, or \<open>None\<close> for the result -1. \<open>page\<close> is what the page holds
  where the buffer of the pipe lies.
\<close>

definition close_opt :: "u32 \<Rightarrow> nat option \<Rightarrow> 'w files \<Rightarrow> kerr + 'w files" where
  "close_opt kend i s = (case i of None \<Rightarrow> Inr s | Some j \<Rightarrow> fileclose kend j s)"

definition pipealloc :: "u32 \<Rightarrow> u8 list \<Rightarrow> 'w files \<Rightarrow> kerr + (nat \<times> nat) option \<times> 'w files" where
  "pipealloc kend page s =
     (let (f0, s1) = filealloc s;
          (f1, s2) = (if f0 = None then (None, s1) else filealloc s1);
          (a, k) = (if f1 = None then (0, kpages s2) else kalloc (kpages s2));
          s3 = s2\<lparr>kpages := k\<rparr>
      in case (f0, f1) of
           (Some i, Some j) \<Rightarrow>
             if a = 0 then bindE (close_opt kend f0 s3) (\<lambda>s4. bindE (close_opt kend f1 s4) (\<lambda>s5. Inr (None, s5)))
             else
               Inr (Some (i, j),
                 upd_file j (\<lambda>f. f\<lparr>ftype := FD_PIPE, freadable := False, fwritable := True, fpipe := a\<rparr>)
                   (upd_file i (\<lambda>f. f\<lparr>ftype := FD_PIPE, freadable := True, fwritable := False, fpipe := a\<rparr>)
                     (s3\<lparr>pipes := (pipes s3)(a := Some (pipe_new page))\<rparr>)))
         | _ \<Rightarrow> bindE (close_opt kend f0 s3) (\<lambda>s4. bindE (close_opt kend f1 s4) (\<lambda>s5. Inr (None, s5))))"

end
