(* ===== verification/FileInv.thy ===== *)
theory FileInv
  imports File
begin

text \<open>
  Invariants of the file table: every open end of a pipe has exactly one entry, so the page of a pipe is
  freed once, with its second end, and never used afterwards; and the reference counts are the numbers of
  descriptors.
\<close>

lemma upd_file_nth:
  "i < length (ftable s) \<Longrightarrow> ftable (upd_file i g s) ! j = (if j = i then g (ftable s ! i) else ftable s ! j)"
  by (simp add: upd_file_def nth_list_update)

lemma upd_file_simps [simp]:
  "length (ftable (upd_file i g s)) = length (ftable s)" "pipes (upd_file i g s) = pipes s"
  "kpages (upd_file i g s) = kpages s" "fsys (upd_file i g s) = fsys s" "pwoken (upd_file i g s) = pwoken s"
  by (simp_all add: upd_file_def)

subsection \<open>Pipes\<close>

definition end_open :: "bool \<Rightarrow> pipe \<Rightarrow> bool" where
  "end_open w p = (if w then writeopen p else readopen p)"

text \<open>Entry \<open>i\<close> is an end (the write end, if \<open>w\<close>) of the pipe at \<open>a\<close>.\<close>

definition is_end :: "'w files \<Rightarrow> nat \<Rightarrow> u32 \<Rightarrow> bool \<Rightarrow> bool" where
  "is_end s i a w = (i < length (ftable s) \<and> ftype (ftable s ! i) = FD_PIPE \<and> fpipe (ftable s ! i) = a
     \<and> fwritable (ftable s ! i) = w)"

definition counts_ok :: "'w files \<Rightarrow> bool" where
  "counts_ok s = (length (ftable s) = NFILE
     \<and> (\<forall>f \<in> set (ftable s). 0 \<le> fref f \<and> (fref f = 0 \<longrightarrow> ftype f = FD_NONE)))"

text \<open>The open ends of the pipes are the entries of the table, one each; the pages are not free.\<close>

definition pipes_ok :: "u32 \<Rightarrow> 'w files \<Rightarrow> bool" where
  "pipes_ok kend s =
     (counts_ok s
      \<and> (\<exists>ps. kmem_rep kend (kpages s) ps \<and> (\<forall>a \<in> dom (pipes s). page_ok kend a \<and> a \<notin> set ps))
      \<and> (\<forall>a w. (\<exists>i. is_end s i a w) \<longleftrightarrow> (\<exists>p. pipes s a = Some p \<and> end_open w p))
      \<and> (\<forall>i j a w. is_end s i a w \<and> is_end s j a w \<longrightarrow> i = j)
      \<and> (\<forall>a p. pipes s a = Some p \<longrightarrow> end_open True p \<or> end_open False p))"

lemma pipes_okD:
  assumes "pipes_ok kend s"
  shows "counts_ok s"
    and "\<exists>ps. kmem_rep kend (kpages s) ps \<and> (\<forall>a \<in> dom (pipes s). page_ok kend a \<and> a \<notin> set ps)"
    and "\<forall>a w. (\<exists>i. is_end s i a w) \<longleftrightarrow> (\<exists>p. pipes s a = Some p \<and> end_open w p)"
    and "\<forall>i j a w. is_end s i a w \<and> is_end s j a w \<longrightarrow> i = j"
    and "\<forall>a p. pipes s a = Some p \<longrightarrow> end_open True p \<or> end_open False p"
proof -
  note p = assms [unfolded pipes_ok_def]
  show "counts_ok s" by (rule p [THEN conjunct1])
  note p = p [THEN conjunct2]
  show "\<exists>ps. kmem_rep kend (kpages s) ps \<and> (\<forall>a \<in> dom (pipes s). page_ok kend a \<and> a \<notin> set ps)" by (rule p [THEN conjunct1])
  note p = p [THEN conjunct2]
  show "\<forall>a w. (\<exists>i. is_end s i a w) \<longleftrightarrow> (\<exists>p. pipes s a = Some p \<and> end_open w p)" by (rule p [THEN conjunct1])
  note p = p [THEN conjunct2]
  show "\<forall>i j a w. is_end s i a w \<and> is_end s j a w \<longrightarrow> i = j" by (rule p [THEN conjunct1])
  show "\<forall>a p. pipes s a = Some p \<longrightarrow> end_open True p \<or> end_open False p" by (rule p [THEN conjunct2])
qed

lemma is_end_upd:
  assumes "i < length (ftable s)"
  shows "is_end (upd_file i g s) j a w = (if j = i then ftype (g (ftable s ! i)) = FD_PIPE \<and> fpipe (g (ftable s ! i)) = a
     \<and> fwritable (g (ftable s ! i)) = w else is_end s j a w)"
  using assms by (simp add: is_end_def upd_file_nth)

lemma counts_ok_upd:
  "counts_ok s \<Longrightarrow> i < NFILE \<Longrightarrow> 0 \<le> fref (g (ftable s ! i)) \<Longrightarrow> (fref (g (ftable s ! i)) = 0 \<Longrightarrow> ftype (g (ftable s ! i)) = FD_NONE)
     \<Longrightarrow> counts_ok (upd_file i g s)"
  unfolding counts_ok_def upd_file_def by (auto dest!: subsetD [OF set_update_subset_insert])

text \<open>A change that leaves all ends as they are.\<close>

lemma pipes_ok_same_ends:
  assumes "pipes_ok kend s" and "counts_ok t" and "kpages t = kpages s" and "dom (pipes t) = dom (pipes s)"
    and "\<And>i a w. is_end t i a w = is_end s i a w"
    and "\<And>a p q. pipes s a = Some p \<Longrightarrow> pipes t a = Some q \<Longrightarrow> readopen q = readopen p \<and> writeopen q = writeopen p"
  shows "pipes_ok kend t"
proof -
  have e: "(\<exists>q. pipes t a = Some q \<and> end_open w q) \<longleftrightarrow> (\<exists>p. pipes s a = Some p \<and> end_open w p)" for a w
  proof (cases "pipes s a")
    case None
    then have "pipes t a = None" using assms(4) by (metis domIff)
    then show ?thesis using None by simp
  next
    case (Some p)
    then obtain q where "pipes t a = Some q" using assms(4) by (metis domIff not_None_eq)
    then show ?thesis using Some assms(6) [OF Some] by (auto simp: end_open_def)
  qed
  have o: "end_open True q \<or> end_open False q" if "pipes t a = Some q" for a q
  proof -
    have "a \<in> dom (pipes s)" using that assms(4) by blast
    then obtain p where p: "pipes s a = Some p" by blast
    then have "end_open True p \<or> end_open False p" using assms(1) by (simp add: pipes_ok_def)
    then show ?thesis using assms(6) [OF p that] by (simp add: end_open_def)
  qed
  note s = pipes_okD [OF assms(1)]
  show ?thesis unfolding pipes_ok_def assms(3,4,5) e
  proof (intro conjI)
    show "\<exists>ps. kmem_rep kend (kpages s) ps \<and> (\<forall>a \<in> dom (pipes s). page_ok kend a \<and> a \<notin> set ps)" by (rule s(2))
    show "\<forall>a w. (\<exists>i. is_end s i a w) \<longleftrightarrow> (\<exists>p. pipes s a = Some p \<and> end_open w p)" by (rule s(3))
    show "\<forall>i j a w. is_end s i a w \<and> is_end s j a w \<longrightarrow> i = j" by (rule s(4))
    show "\<forall>a p. pipes t a = Some p \<longrightarrow> end_open True p \<or> end_open False p" using o by simp
  qed (rule assms(2))
qed

lemma pipes_ok_upd_file:
  assumes ok: "pipes_ok kend s" and i: "i < NFILE"
    and "ftype (g (ftable s ! i)) = ftype (ftable s ! i)" "fpipe (g (ftable s ! i)) = fpipe (ftable s ! i)"
    and "fwritable (g (ftable s ! i)) = fwritable (ftable s ! i)" and r: "1 \<le> fref (g (ftable s ! i))"
  shows "pipes_ok kend (upd_file i g s)"
proof (rule pipes_ok_same_ends [OF ok])
  have len: "length (ftable s) = NFILE" using ok by (simp add: pipes_ok_def counts_ok_def)
  show "is_end (upd_file i g s) j a w = is_end s j a w" for j a w
    using is_end_upd [of i s g j a w] assms(3-5) i len by (auto simp: is_end_def)
  show "counts_ok (upd_file i g s)" using ok i r by (intro counts_ok_upd) (simp_all add: pipes_ok_def)
qed simp_all

lemma pipes_ok_fsys: "pipes_ok kend (s\<lparr>fsys := x\<rparr>) = pipes_ok kend s"
  by (simp add: pipes_ok_def counts_ok_def is_end_def)

lemma filealloc_ok:
  assumes ok: "pipes_ok kend s" and "filealloc s = (Some i, t)"
  shows "pipes_ok kend t" and "i < NFILE" and "ftype (ftable t ! i) = FD_NONE" and "fref (ftable t ! i) = 1" and "pipes t = pipes s"
    and "kpages t = kpages s"
proof -
  have len: "length (ftable s) = NFILE" using ok by (simp add: pipes_ok_def counts_ok_def)
  have i: "i < NFILE" "fref (ftable s ! i) = 0" "t = upd_file i (\<lambda>f. f\<lparr>fref := 1\<rparr>) s"
    using assms(2) len by (auto simp: filealloc_def first_idx_Some_iff split: option.splits)
  then have "ftype (ftable s ! i) = FD_NONE" using ok len nth_mem [of i "ftable s"] by (auto simp: pipes_ok_def counts_ok_def)
  then show "ftype (ftable t ! i) = FD_NONE" "fref (ftable t ! i) = 1" using i len by (simp_all add: upd_file_nth)
  show "pipes_ok kend t" unfolding i(3) by (rule pipes_ok_upd_file [OF ok i(1)]) simp_all
  show "i < NFILE" "pipes t = pipes s" "kpages t = kpages s" using i by simp_all
qed

lemma filedup_ok:
  assumes "pipes_ok kend s" and "i < NFILE" and "filedup i s = Inr t"
  shows "pipes_ok kend t"
  using assms pipes_ok_upd_file [OF assms(1,2), of "\<lambda>f. f\<lparr>fref := fref f + 1\<rparr>"] by (auto simp: filedup_def split: if_splits)

lemma end_open_set:
  "pipeclose p w = (both, ch, q) \<Longrightarrow> both = (\<not> end_open (\<not> w) p) \<and> end_open v q = (v \<noteq> w \<and> end_open v p)"
  by (cases v; cases w) (auto simp: pipeclose_def end_open_def)

lemma close_last_pipe:
  assumes ok: "pipes_ok kend s" and e: "is_end s i a w"
  defines "s1 \<equiv> upd_file i (\<lambda>f. f\<lparr>fref := 0, ftype := FD_NONE\<rparr>) s"
  shows "\<exists>t. close_pipe kend a w s1 = Inr t \<and> pipes_ok kend t \<and> ftable t = ftable s1"
proof -
  note ok1 = pipes_okD [OF ok]
  have i: "i < length (ftable s)" "i < NFILE" using e ok1(1) by (auto simp: is_end_def counts_ok_def)
  obtain p where p: "pipes s a = Some p" "end_open w p" using ok1(3) e by blast
  obtain both ch q where c: "pipeclose p w = (both, ch, q)" by (cases "pipeclose p w")
  note q = end_open_set [OF c]
  have ends1: "is_end s1 j b v \<longleftrightarrow> j \<noteq> i \<and> is_end s j b v" for j b v
    using is_end_upd [OF i(1)] by (simp add: s1_def)
  have cnt: "counts_ok s1" unfolding s1_def by (rule counts_ok_upd [OF ok1(1) i(2)]) simp_all
  obtain ps where ps: "kmem_rep kend (kpages s) ps" "\<forall>b \<in> dom (pipes s). page_ok kend b \<and> b \<notin> set ps" using ok1(2) by blast
  have pg: "page_ok kend a" "a \<notin> set ps" using ps(2) p(1) by auto
  obtain k where k: "kfree kend a (kpages s) = Inr k" "kmem_rep kend k (a # ps)" using kfree_rep [OF ps(1) pg] by blast
  define t where "t = (if both then s1\<lparr>pwoken := map (Pair a) ch @ pwoken s, kpages := k, pipes := (pipes s)(a := None)\<rparr>
     else s1\<lparr>pwoken := map (Pair a) ch @ pwoken s, pipes := (pipes s)(a := Some q)\<rparr>)"
  have r: "close_pipe kend a w s1 = Inr t" using p(1) c k(1) by (simp add: close_pipe_def s1_def t_def)
  have tt: "ftable t = ftable s1" "pipes t = (pipes s)(a := if both then None else Some q)" by (simp_all add: t_def)
  have te: "is_end t j b v = is_end s1 j b v" for j b v by (simp add: is_end_def tt)
  have "pipes_ok kend t"
    unfolding pipes_ok_def te ends1
  proof (intro conjI)
    show "counts_ok t" using cnt by (simp add: counts_ok_def tt)
    show "\<exists>ps. kmem_rep kend (kpages t) ps \<and> (\<forall>b \<in> dom (pipes t). page_ok kend b \<and> b \<notin> set ps)"
    proof (cases both)
      case True
      then show ?thesis using k(2) ps(2) by (intro exI [of _ "a # ps"]) (auto simp: t_def)
    next
      case False
      then show ?thesis using ps pg by (intro exI [of _ ps]) (auto simp: t_def s1_def)
    qed
    show "\<forall>b v. (\<exists>j. j \<noteq> i \<and> is_end s j b v) \<longleftrightarrow> (\<exists>y. pipes t b = Some y \<and> end_open v y)"
    proof (intro allI)
      fix b v
      show "(\<exists>j. j \<noteq> i \<and> is_end s j b v) \<longleftrightarrow> (\<exists>y. pipes t b = Some y \<and> end_open v y)"
      proof (cases "b = a")
        case False
        then have "\<not> is_end s i b v" using e by (auto simp: is_end_def)
        then have "(\<exists>j. j \<noteq> i \<and> is_end s j b v) \<longleftrightarrow> (\<exists>j. is_end s j b v)" by metis
        then show ?thesis using False ok1(3) by (simp add: tt(2))
      next
        case ba: True
        show ?thesis
        proof (cases "v = w")
          case True
          then have "\<not> (\<exists>j. j \<noteq> i \<and> is_end s j b v)" using ok1(4) e ba by blast
          then show ?thesis using q True ba by (auto simp: tt(2))
        next
          case False
          then have "\<not> is_end s i b v" using e by (auto simp: is_end_def)
          then have "(\<exists>j. j \<noteq> i \<and> is_end s j b v) \<longleftrightarrow> (\<exists>j. is_end s j b v)" by metis
          also have "\<dots> \<longleftrightarrow> end_open v p" using ok1(3) p(1) ba by simp
          also have "\<dots> \<longleftrightarrow> (\<exists>y. pipes t b = Some y \<and> end_open v y)" using q [of v] False ba by (cases v; cases w) (auto simp: tt(2))
          finally show ?thesis .
        qed
      qed
    qed
    show "\<forall>j l b v. (j \<noteq> i \<and> is_end s j b v) \<and> l \<noteq> i \<and> is_end s l b v \<longrightarrow> j = l" using ok1(4) by blast
    show "\<forall>b y. pipes t b = Some y \<longrightarrow> end_open True y \<or> end_open False y"
    proof (intro allI impI)
      fix b y assume y: "pipes t b = Some y"
      show "end_open True y \<or> end_open False y"
      proof (cases "b = a")
        case True
        then have "\<not> both" "y = q" using y by (auto simp: tt(2) split: if_splits)
        then show ?thesis using q [of "\<not> w"] by (cases w) auto
      next
        case False
        then show ?thesis using y ok1(5) by (auto simp: tt(2))
      qed
    qed
  qed
  then show ?thesis using r tt(1) by blast
qed

lemma fileclose_ok:
  assumes ok: "pipes_ok kend s" and i: "i < NFILE" and c: "fileclose kend i s = Inr t"
  shows "pipes_ok kend t"
proof -
  let ?f = "ftable s ! i" and ?g = "\<lambda>f. f\<lparr>fref := 0, ftype := FD_NONE\<rparr>"
  have len: "length (ftable s) = NFILE" using pipes_okD(1) [OF ok] by (simp add: counts_ok_def)
  show ?thesis
  proof (cases "fref ?f - 1 > 0")
    case True
    then have "t = upd_file i (\<lambda>f. f\<lparr>fref := fref f - 1\<rparr>) s" using c by (auto simp: fileclose_def Let_def split: if_splits)
    then show ?thesis using pipes_ok_upd_file [OF ok i, of "\<lambda>f. f\<lparr>fref := fref f - 1\<rparr>"] True by simp
  next
    case False
    have cnt: "counts_ok (upd_file i ?g s)" by (rule counts_ok_upd [OF pipes_okD(1) [OF ok] i]) simp_all
    have np: "pipes_ok kend (upd_file i ?g s)" if "ftype ?f \<noteq> FD_PIPE"
      by (rule pipes_ok_same_ends [OF ok cnt])
        (use that is_end_upd [of i s ?g] i len in \<open>auto simp: is_end_def\<close>)
    show ?thesis
    proof (cases "ftype ?f")
      case FD_PIPE
      then have "is_end s i (fpipe ?f) (fwritable ?f)" using i len by (simp add: is_end_def)
      from close_last_pipe [OF ok this] show ?thesis using c False FD_PIPE by (auto simp: fileclose_def Let_def split: if_splits)
    next
      case FD_INODE
      then show ?thesis using c False np by (auto simp: fileclose_def Let_def bindE_eq_Inr_iff pipes_ok_fsys split: if_splits)
    next
      case FD_NONE
      then show ?thesis using c False np by (auto simp: fileclose_def Let_def split: if_splits)
    qed
  qed
qed

text \<open>Reading and writing a pipe does not open or close its ends.\<close>

lemma pipewrite_from_ends:
  "pipewrite_from killed addr n i p = (r, ch, q) \<Longrightarrow> readopen q = readopen p \<and> writeopen q = writeopen p"
proof (induction killed addr n i p rule: pipewrite_from.induct)
  case (1 killed addr n i p)
  then show ?case by (simp add: pipewrite_from.simps [of killed addr n i p] split: if_splits)
qed

lemma piperead_copy_ends: "piperead_copy n i p = (cs, q) \<Longrightarrow> readopen q = readopen p \<and> writeopen q = writeopen p"
proof (induction n i p arbitrary: cs q rule: piperead_copy.induct)
  case (1 n i p)
  show ?case
  proof (cases "i < n \<and> nread p \<noteq> nwrite p")
    case True
    obtain c p1 where g: "pipe_get p = (c, p1)" by (cases "pipe_get p")
    obtain ds p2 where r: "piperead_copy n (i + 1) p1 = (ds, p2)" by (cases "piperead_copy n (i + 1) p1")
    have "readopen p2 = readopen p1 \<and> writeopen p2 = writeopen p1" by (rule "1.IH" [OF True refl _ r]) (simp add: g)
    moreover have "q = p2" using "1.prems" True g r by (simp add: piperead_copy.simps [of n i p])
    moreover have "readopen p1 = readopen p" "writeopen p1 = writeopen p" using g by (auto simp: pipe_get_def)
    ultimately show ?thesis by simp
  next
    case False
    have "q = p" using "1.prems" unfolding piperead_copy.simps [of n i p] if_not_P [OF False] by simp
    then show ?thesis by simp
  qed
qed

lemma piperead_ends: "piperead killed p n = (out, ch, bs, q) \<Longrightarrow> readopen q = readopen p \<and> writeopen q = writeopen p"
  using piperead_copy_ends by (auto simp: piperead_def Let_def split: if_splits prod.splits)

lemma pipes_ok_use:
  assumes "pipes_ok kend s" and "pipes s a = Some p" and "readopen q = readopen p" and "writeopen q = writeopen p"
  shows "pipes_ok kend (s\<lparr>pipes := (pipes s)(a := Some q), pwoken := w\<rparr>)"
  by (rule pipes_ok_same_ends [OF assms(1)]) (use assms pipes_okD(1) [OF assms(1)] in \<open>auto simp: counts_ok_def is_end_def split: if_splits\<close>)

lemma move_offset_ok:
  assumes ok: "pipes_ok kend s" and i: "i < NFILE" and t: "ftype (ftable s ! i) \<noteq> FD_NONE"
  shows "pipes_ok kend (upd_file i (\<lambda>f. f\<lparr>foff := foff f + d\<rparr>) s)"
proof -
  have "length (ftable s) = NFILE" using pipes_okD(1) [OF ok] by (simp add: counts_ok_def)
  then have "ftable s ! i \<in> set (ftable s)" using i by simp
  then have "0 \<le> fref (ftable s ! i)" "fref (ftable s ! i) \<noteq> 0" using pipes_okD(1) [OF ok] t by (auto simp: counts_ok_def)
  then show ?thesis by (intro pipes_ok_upd_file [OF ok i]) simp_all
qed

lemma fileread_ok:
  assumes ok: "pipes_ok kend s" and i: "i < NFILE" and r: "fileread sw killed i n s = Inr (o1, t)"
  shows "pipes_ok kend t"
proof (cases "ftype (ftable s ! i)")
  case FD_PIPE
  then show ?thesis
    using r ok pipes_ok_use [OF ok] by (auto simp: fileread_def Let_def split: if_splits option.splits prod.splits dest!: piperead_ends)
next
  case FD_INODE
  then show ?thesis
    using r ok move_offset_ok [OF ok i] by (auto simp: fileread_def Let_def bindE_eq_Inr_iff pipes_ok_fsys split: if_splits)
next
  case FD_NONE
  then show ?thesis using r ok by (auto simp: fileread_def Let_def split: if_splits)
qed

lemma filewrite_ok:
  assumes ok: "pipes_ok kend s" and i: "i < NFILE" and r: "filewrite sw killed i m addr n s = Inr (o1, t)"
  shows "pipes_ok kend t"
proof (cases "ftype (ftable s ! i)")
  case FD_PIPE
  then show ?thesis
    using r ok pipes_ok_use [OF ok] by (auto simp: filewrite_def pipewrite_def Let_def split: if_splits option.splits prod.splits dest!: pipewrite_from_ends)
next
  case FD_INODE
  then show ?thesis
    using r ok move_offset_ok [OF ok i] by (auto simp: filewrite_def Let_def bindE_eq_Inr_iff pipes_ok_fsys split: if_splits)
next
  case FD_NONE
  then show ?thesis using r ok by (auto simp: filewrite_def Let_def split: if_splits)
qed

subsection \<open>\<open>pipealloc\<close>\<close>

lemma filealloc_free:
  "filealloc s = (Some i, t) \<Longrightarrow> i < length (ftable s) \<and> fref (ftable s ! i) = 0 \<and> t = upd_file i (\<lambda>f. f\<lparr>fref := 1\<rparr>) s"
  by (auto simp: filealloc_def first_idx_Some_iff split: option.splits)

lemma pipes_ok_kpages:
  assumes ok: "pipes_ok kend s" and ps: "kmem_rep kend k ps" "\<forall>a \<in> dom (pipes s). page_ok kend a \<and> a \<notin> set ps"
  shows "pipes_ok kend (s\<lparr>kpages := k\<rparr>)"
proof -
  have "is_end (s\<lparr>kpages := k\<rparr>) = is_end s" by (intro ext) (simp add: is_end_def)
  moreover have "counts_ok (s\<lparr>kpages := k\<rparr>)" using pipes_okD(1) [OF ok] by (simp add: counts_ok_def)
  moreover have "\<exists>ps. kmem_rep kend k ps \<and> (\<forall>a \<in> dom (pipes s). page_ok kend a \<and> a \<notin> set ps)" using ps by blast
  ultimately show ?thesis using pipes_okD(3-5) [OF ok] by (simp add: pipes_ok_def)
qed

text \<open>The two ends of a new pipe.\<close>

lemma new_pipe_ok:
  fixes page :: "u8 list"
  assumes ok: "pipes_ok kend s" and ij: "i < NFILE" "j < NFILE" "i \<noteq> j"
    and none: "ftype (ftable s ! i) = FD_NONE" "ftype (ftable s ! j) = FD_NONE"
    and one: "fref (ftable s ! i) = 1" "fref (ftable s ! j) = 1"
    and ps: "kmem_rep kend (kpages s) ps" "\<forall>b \<in> dom (pipes s). b \<notin> set ps" and a: "page_ok kend a" "a \<notin> set ps" "pipes s a = None"
  defines "t \<equiv> upd_file j (\<lambda>f. f\<lparr>ftype := FD_PIPE, freadable := False, fwritable := True, fpipe := a\<rparr>)
     (upd_file i (\<lambda>f. f\<lparr>ftype := FD_PIPE, freadable := True, fwritable := False, fpipe := a\<rparr>)
       (s\<lparr>pipes := (pipes s)(a := Some (pipe_new page))\<rparr>))"
  shows "pipes_ok kend t"
proof -
  note ok1 = pipes_okD [OF ok]
  have len: "length (ftable s) = NFILE" using ok1(1) by (simp add: counts_ok_def)
  have ends: "is_end t k b w \<longleftrightarrow> (if k = j then b = a \<and> w else if k = i then b = a \<and> \<not> w else is_end s k b w)" for k b w
    using ij len by (auto simp: t_def is_end_upd is_end_def upd_file_nth)
  have nos: "\<not> is_end s i b w" "\<not> is_end s j b w" for b w using none by (simp_all add: is_end_def)
  have noa: "\<not> is_end s k a w" for k w using ok1(3) a(3) by (metis option.distinct(1))
  have pt: "pipes t = (pipes s)(a := Some (pipe_new page))" by (simp add: t_def)
  have c0: "counts_ok (s\<lparr>pipes := (pipes s)(a := Some (pipe_new page))\<rparr>)" using ok1(1) by (simp add: counts_ok_def)
  have cnt: "counts_ok t"
    unfolding t_def using ij one len by (intro counts_ok_upd c0) (simp_all add: upd_file_nth)
  show ?thesis unfolding pipes_ok_def
  proof (intro conjI)
    show "\<exists>ps. kmem_rep kend (kpages t) ps \<and> (\<forall>b \<in> dom (pipes t). page_ok kend b \<and> b \<notin> set ps)"
      using ps a ok1(2) by (intro exI [of _ ps]) (auto simp: t_def)
    show "\<forall>b w. (\<exists>k. is_end t k b w) \<longleftrightarrow> (\<exists>p. pipes t b = Some p \<and> end_open w p)"
    proof (intro allI)
      fix b w
      show "(\<exists>k. is_end t k b w) \<longleftrightarrow> (\<exists>p. pipes t b = Some p \<and> end_open w p)"
      proof (cases "b = a")
        case True
        then have "is_end t (if w then j else i) b w" using ij by (simp add: ends)
        then show ?thesis using True by (auto simp: pt end_open_def pipe_new_def)
      next
        case False
        then have "(\<exists>k. is_end t k b w) \<longleftrightarrow> (\<exists>k. is_end s k b w)" using nos ends by metis
        then show ?thesis using ok1(3) False by (simp add: pt)
      qed
    qed
    show "\<forall>k l b w. is_end t k b w \<and> is_end t l b w \<longrightarrow> k = l"
      using ok1(4) nos noa unfolding ends by (auto split: if_splits)
    show "\<forall>b p. pipes t b = Some p \<longrightarrow> end_open True p \<or> end_open False p"
      using ok1(5) by (auto simp: pt end_open_def pipe_new_def)
  qed (rule cnt)
qed

lemma fileclose_fresh:
  "fref (ftable s ! i) = 1 \<Longrightarrow> ftype (ftable s ! i) = FD_NONE \<Longrightarrow> fileclose kend i s = Inr (upd_file i (\<lambda>f. f\<lparr>fref := 0, ftype := FD_NONE\<rparr>) s)"
  by (simp add: fileclose_def)

subsection \<open>What the operations do to the counts\<close>

text \<open>The reference count and the type of entry \<open>j\<close>.\<close>

definition ref_type :: "'w files \<Rightarrow> nat \<Rightarrow> int \<times> fdtype" where
  "ref_type s j = (fref (ftable s ! j), ftype (ftable s ! j))"

lemma ref_type_upd:
  "i < length (ftable s) \<Longrightarrow> ref_type (upd_file i g s) j = (if j = i then (fref (g (ftable s ! i)), ftype (g (ftable s ! i))) else ref_type s j)"
  by (simp add: ref_type_def upd_file_nth)

lemma ref_type_upd_same:
  "fref (g (ftable s ! i)) = fref (ftable s ! i) \<Longrightarrow> ftype (g (ftable s ! i)) = ftype (ftable s ! i) \<Longrightarrow> ref_type (upd_file i g s) = ref_type s"
  by (cases "i < length (ftable s)") (auto simp: ref_type_def upd_file_def nth_list_update list_update_beyond intro!: ext)

lemma ref_type_cong: "ftable t = ftable s \<Longrightarrow> ref_type t = ref_type s"
  by (intro ext) (simp add: ref_type_def)

lemma ref_type_frame:
  "ref_type (s\<lparr>fsys := x\<rparr>) = ref_type s" "ref_type (s\<lparr>pipes := y\<rparr>) = ref_type s" "ref_type (s\<lparr>pwoken := w\<rparr>) = ref_type s"
  "ref_type (s\<lparr>kpages := k\<rparr>) = ref_type s"
  by (rule ref_type_cong, simp)+

lemma close_pipe_table: "close_pipe kend a w s = Inr t \<Longrightarrow> ftable t = ftable s"
  by (auto simp: close_pipe_def Let_def bindE_eq_Inr_iff split: option.splits prod.splits if_splits)

lemma fileclose_table:
  assumes "fileclose kend i s = Inr t"
  shows "1 \<le> fref (ftable s ! i) \<and> ftable t = (ftable s)[i := (if fref (ftable s ! i) = 1 then (ftable s ! i)\<lparr>fref := 0, ftype := FD_NONE\<rparr>
     else (ftable s ! i)\<lparr>fref := fref (ftable s ! i) - 1\<rparr>)]"
  using assms by (auto simp: fileclose_def upd_file_def Let_def bindE_eq_Inr_iff split: if_splits fdtype.splits dest!: close_pipe_table)

lemma filedup_table:
  "filedup i s = Inr t \<Longrightarrow> t = upd_file i (\<lambda>f. f\<lparr>fref := fref f + 1\<rparr>) s \<and> 1 \<le> fref (ftable s ! i)"
  by (auto simp: filedup_def split: if_splits)

lemma fileread_table:
  "fileread sw killed i n s = Inr (o1, t) \<Longrightarrow> length (ftable t) = length (ftable s) \<and> ref_type t = ref_type s"
  by (cases "ftype (ftable s ! i)")
    (auto simp: fileread_def Let_def bindE_eq_Inr_iff ref_type_upd_same ref_type_frame split: if_splits option.splits prod.splits)

lemma filewrite_table:
  "filewrite sw killed i m addr n s = Inr (o1, t) \<Longrightarrow> length (ftable t) = length (ftable s) \<and> ref_type t = ref_type s"
  by (cases "ftype (ftable s ! i)")
    (auto simp: filewrite_def Let_def bindE_eq_Inr_iff ref_type_upd_same ref_type_frame split: if_splits option.splits prod.splits)

lemma filestat_table: "filestat i old s = Inr (r, t) \<Longrightarrow> \<exists>x. t = s\<lparr>fsys := x\<rparr>"
  by (auto simp: filestat_def Let_def bindE_eq_Inr_iff split: if_splits) (metis files.surjective files.update_convs(1))

text \<open>
  \<open>pipealloc\<close> always returns. It gives nothing and changes no count, or the two ends of a new pipe in two
  entries that were free.
\<close>

definition pipealloc_result :: "'w files \<Rightarrow> (nat \<times> nat) option \<Rightarrow> 'w files \<Rightarrow> bool" where
  "pipealloc_result s res t = (length (ftable t) = NFILE \<and>
     (case res of None \<Rightarrow> ref_type t = ref_type s
      | Some (i, j) \<Rightarrow> i \<noteq> j \<and> i < NFILE \<and> j < NFILE \<and> ref_type s i = (0, FD_NONE) \<and> ref_type s j = (0, FD_NONE)
          \<and> ref_type t = (ref_type s)(i := (1, FD_PIPE), j := (1, FD_PIPE))))"

lemma filealloc_ref_type:
  "pipes_ok kend s \<Longrightarrow> filealloc s = (Some i, t) \<Longrightarrow> ref_type s i = (0, FD_NONE) \<and> ref_type t = (ref_type s)(i := (1, FD_NONE))"
  using filealloc_free [of s i t] filealloc_ok(3) [of kend s i t] by (auto simp: ref_type_upd ref_type_def upd_file_nth)

lemma close_fresh_ref_type:
  assumes ok: "pipes_ok kend s" and i: "i < NFILE" and f: "ref_type s i = (1, FD_NONE)"
  shows "\<exists>t. fileclose kend i s = Inr t \<and> pipes_ok kend t \<and> ref_type t = (ref_type s)(i := (0, FD_NONE)) \<and> length (ftable t) = NFILE"
proof -
  have len: "length (ftable s) = NFILE" using pipes_okD(1) [OF ok] by (simp add: counts_ok_def)
  have c: "fileclose kend i s = Inr (upd_file i (\<lambda>f. f\<lparr>fref := 0, ftype := FD_NONE\<rparr>) s)"
    by (rule fileclose_fresh) (use f in \<open>simp_all add: ref_type_def\<close>)
  show ?thesis using c fileclose_ok [OF ok i c] i len by (auto simp: ref_type_upd)
qed

lemma pipealloc_ok:
  assumes ok: "pipes_ok kend s"
  shows "\<exists>res t. pipealloc kend page s = Inr (res, t) \<and> pipes_ok kend t \<and> pipealloc_result s res t"
proof (cases "filealloc s")
  case (Pair f0 s1)
  have len: "length (ftable s) = NFILE" using pipes_okD(1) [OF ok] by (simp add: counts_ok_def)
  show ?thesis
  proof (cases f0)
    case None
    then have "s1 = s" using Pair by (auto simp: filealloc_def split: option.splits)
    then show ?thesis using Pair None ok len by (simp add: pipealloc_def close_opt_def pipealloc_result_def)
  next
    case (Some i)
    note i = filealloc_ok [OF ok Pair [unfolded Some]] and ri = filealloc_ref_type [OF ok Pair [unfolded Some]]
    obtain f1 s2 where p2: "filealloc s1 = (f1, s2)" by (cases "filealloc s1")
    show ?thesis
    proof (cases f1)
      case None
      then have s2: "s2 = s1" using p2 by (auto simp: filealloc_def split: option.splits)
      obtain t where t: "fileclose kend i s1 = Inr t" "pipes_ok kend t" "ref_type t = (ref_type s1)(i := (0, FD_NONE))" "length (ftable t) = NFILE"
        using close_fresh_ref_type [OF i(1,2)] ri by auto
      have "ref_type t = ref_type s" using t(3) ri by auto
      then show ?thesis using Pair p2 Some None t s2 by (simp add: pipealloc_def close_opt_def pipealloc_result_def)
    next
      case f1: (Some j)
      note j = filealloc_ok [OF i(1) p2 [unfolded f1]] and rj = filealloc_ref_type [OF i(1) p2 [unfolded f1]]
      have ij: "i \<noteq> j" using ri rj by auto
      then have r2: "ref_type s2 i = (1, FD_NONE)" "ref_type s2 j = (1, FD_NONE)" "ref_type s j = (0, FD_NONE)" using ri rj by auto
      then have fi: "ftype (ftable s2 ! i) = FD_NONE" "fref (ftable s2 ! i) = 1" by (simp_all add: ref_type_def)
      obtain ps where ps: "kmem_rep kend (kpages s2) ps" "\<forall>b \<in> dom (pipes s2). page_ok kend b \<and> b \<notin> set ps"
        using pipes_okD(2) [OF j(1)] by blast
      obtain a k where k: "kalloc (kpages s2) = (a, k)" by (cases "kalloc (kpages s2)")
      show ?thesis
      proof (cases "a = 0")
        case True
        have sc: "k = kpages s2" using kalloc_cases [OF ps(1) k] True by auto
        obtain u where u: "fileclose kend i s2 = Inr u" "pipes_ok kend u" "ref_type u = (ref_type s2)(i := (0, FD_NONE))"
          using close_fresh_ref_type [OF j(1) i(2) r2(1)] by auto
        obtain t where t: "fileclose kend j u = Inr t" "pipes_ok kend t" "ref_type t = (ref_type u)(j := (0, FD_NONE))" "length (ftable t) = NFILE"
          using close_fresh_ref_type [OF u(2) j(2)] u(3) ij r2(2) by auto
        have "ref_type t = ref_type s" using t(3) u(3) ri rj r2(3) by auto
        then show ?thesis using Pair p2 Some f1 k True sc u t by (simp add: pipealloc_def close_opt_def pipealloc_result_def)
      next
        case False
        with kalloc_cases [OF ps(1) k] obtain qs where qs: "ps = a # qs" "page_ok kend a" "kmem_rep kend k qs" by blast
        have "a \<notin> set qs" using ps(1) qs(1) by (simp add: kmem_rep_def)
        have ok3: "pipes_ok kend (s2\<lparr>kpages := k\<rparr>)" by (rule pipes_ok_kpages [OF j(1) qs(3)]) (use ps(2) qs(1) in auto)
        define t where "t = upd_file j (\<lambda>f. f\<lparr>ftype := FD_PIPE, freadable := False, fwritable := True, fpipe := a\<rparr>)
     (upd_file i (\<lambda>f. f\<lparr>ftype := FD_PIPE, freadable := True, fwritable := False, fpipe := a\<rparr>)
       (s2\<lparr>kpages := k, pipes := (pipes s2)(a := Some (pipe_new page))\<rparr>))"
        have "pipes s2 a = None" using ps(2) qs(1) by (auto simp: dom_def)
        then have "pipes_ok kend t" unfolding t_def
          using new_pipe_ok [OF ok3 i(2) j(2) ij, of qs a page] fi j(3,4) qs(2,3) \<open>a \<notin> set qs\<close> ps(2) qs(1) by simp
        moreover have "length (ftable s2) = NFILE" using pipes_okD(1) [OF j(1)] by (simp add: counts_ok_def)
        then have "ref_type t = (ref_type s)(i := (1, FD_PIPE), j := (1, FD_PIPE))" "length (ftable t) = NFILE"
          unfolding t_def using ij i(2) j(2) ri rj r2(3) fi j(3,4)
          by (auto simp: ref_type_upd upd_file_nth ref_type_frame)
        moreover have "pipealloc kend page s = Inr (Some (i, j), t)"
          using Pair p2 Some f1 k False by (simp add: pipealloc_def t_def)
        ultimately show ?thesis using ij i(2) j(2) ri r2(3) by (simp add: pipealloc_result_def)
      qed
    qed
  qed
qed

end
