(* ===== verification/Sysfile.thy ===== *)
theory Sysfile
  imports File Syscall
begin

text \<open>
  The file system calls of project 5, \<open>kernel/sysfile.c\<close>. A call works on the calling process (its
  descriptors, current directory and memory) and on the file table and file system. The result is the value
  returned to the process, or \<open>SleepAt\<close> when a pipe makes the call wait.
\<close>

record uproc =
  ufd :: "nat option list"
  ucwd :: nat
  umemory :: umem
  usize :: u32
  uesp :: u32
  ukilled :: bool

type_synonym 'w sst = "uproc \<times> 'w files"

abbreviation arg_int :: "uproc \<Rightarrow> u32 \<Rightarrow> u32 option" where
  "arg_int p n \<equiv> argint (umemory p) (usize p) (uesp p) n"

abbreviation arg_ptr :: "uproc \<Rightarrow> u32 \<Rightarrow> u32 \<Rightarrow> u32 option" where
  "arg_ptr p n len \<equiv> argptr (umemory p) (usize p) (uesp p) n len"

text \<open>A string argument as its bytes.\<close>

definition arg_path :: "uproc \<Rightarrow> u32 \<Rightarrow> u8 list option" where
  "arg_path p n = map_option (\<lambda>(a, l). mem_bytes (umemory p) a (unat l)) (argstr (umemory p) (usize p) (uesp p) n)"

text \<open>Bytes that the kernel stores in the memory of the process.\<close>

definition store_user :: "u32 \<Rightarrow> u8 list \<Rightarrow> uproc \<Rightarrow> uproc" where
  "store_user a bs p = p\<lparr>umemory := (\<lambda>x. if unat (x - a) < length bs then bs ! unat (x - a) else umemory p x)\<rparr>"

definition argfd :: "uproc \<Rightarrow> u32 \<Rightarrow> (nat \<times> nat) option" where
  "argfd p n =
     (case arg_int p n of None \<Rightarrow> None
      | Some w \<Rightarrow>
          if sint w < 0 \<or> sint w \<ge> int NOFILE then None
          else map_option (Pair (nat (sint w))) (ufd p ! nat (sint w)))"

definition fdalloc :: "nat \<Rightarrow> uproc \<Rightarrow> (nat \<times> uproc) option" where
  "fdalloc f p =
     (case first_idx (\<lambda>x. x = None) (ufd p) of None \<Rightarrow> None
      | Some fd \<Rightarrow> Some (fd, p\<lparr>ufd := (ufd p)[fd := Some f]\<rparr>))"

definition sys_dup :: "'w sst \<Rightarrow> kerr + int \<times> 'w sst" where
  "sys_dup = (\<lambda>(p, s).
     case argfd p 0 of None \<Rightarrow> Inr (-1, (p, s))
     | Some (_, f) \<Rightarrow>
         (case fdalloc f p of None \<Rightarrow> Inr (-1, (p, s))
          | Some (fd, p1) \<Rightarrow> bindE (filedup f s) (\<lambda>s1. Inr (int fd, (p1, s1)))))"

definition sys_read :: "'w devsw \<Rightarrow> 'w sst \<Rightarrow> kerr + outcome \<times> 'w sst" where
  "sys_read sw = (\<lambda>(p, s).
     case argfd p 0 of None \<Rightarrow> Inr (Ret (-1), (p, s))
     | Some (_, f) \<Rightarrow>
         (case arg_int p 2 of None \<Rightarrow> Inr (Ret (-1), (p, s))
          | Some n \<Rightarrow>
              (case arg_ptr p 1 n of None \<Rightarrow> Inr (Ret (-1), (p, s))
               | Some a \<Rightarrow> bindE (fileread sw (ukilled p) f (sint n) s) (\<lambda>((out, bs), s1).
                   Inr (out, (store_user a bs p, s1))))))"

definition sys_write :: "'w devsw \<Rightarrow> 'w sst \<Rightarrow> kerr + outcome \<times> 'w sst" where
  "sys_write sw = (\<lambda>(p, s).
     case argfd p 0 of None \<Rightarrow> Inr (Ret (-1), (p, s))
     | Some (_, f) \<Rightarrow>
         (case arg_int p 2 of None \<Rightarrow> Inr (Ret (-1), (p, s))
          | Some n \<Rightarrow>
              (case arg_ptr p 1 n of None \<Rightarrow> Inr (Ret (-1), (p, s))
               | Some a \<Rightarrow> bindE (filewrite sw (ukilled p) f (umemory p) a (sint n) s) (\<lambda>(out, s1). Inr (out, (p, s1))))))"

definition sys_close :: "u32 \<Rightarrow> 'w sst \<Rightarrow> kerr + int \<times> 'w sst" where
  "sys_close kend = (\<lambda>(p, s).
     case argfd p 0 of None \<Rightarrow> Inr (-1, (p, s))
     | Some (fd, f) \<Rightarrow> bindE (fileclose kend f s) (\<lambda>s1. Inr (0, (p\<lparr>ufd := (ufd p)[fd := None]\<rparr>, s1))))"

text \<open>\<open>struct stat\<close> in memory: the fields at offsets 0, 4, 8, 12, 16 and 20 of 24 bytes.\<close>

definition get_stat :: "umem \<Rightarrow> u32 \<Rightarrow> stat" where
  "get_stat m a = \<lparr>st_type = word16 [m a, m (a + 1)], st_dev = umem_word m (a + 4), st_ino = umem_word m (a + 8),
     st_nlink = word16 [m (a + 12), m (a + 13)], st_size = umem_word m (a + 16), st_checksum = m (a + 20)\<rparr>"

definition put_stat :: "u32 \<Rightarrow> stat \<Rightarrow> uproc \<Rightarrow> uproc" where
  "put_stat a sr p =
     store_user (a + 20) [st_checksum sr] (store_user (a + 16) (le32 (st_size sr))
       (store_user (a + 12) (le16 (st_nlink sr)) (store_user (a + 8) (le32 (st_ino sr))
         (store_user (a + 4) (le32 (st_dev sr)) (store_user a (le16 (st_type sr)) p)))))"

definition sys_fstat :: "'w sst \<Rightarrow> kerr + int \<times> 'w sst" where
  "sys_fstat = (\<lambda>(p, s).
     case argfd p 0 of None \<Rightarrow> Inr (-1, (p, s))
     | Some (_, f) \<Rightarrow>
         (case arg_ptr p 1 24 of None \<Rightarrow> Inr (-1, (p, s))
          | Some a \<Rightarrow> bindE (filestat f (get_stat (umemory p) a) s) (\<lambda>(r, s1).
              case r of None \<Rightarrow> Inr (-1, (p, s1)) | Some sr \<Rightarrow> Inr (0, (put_stat a sr p, s1)))))"

subsection \<open>Links\<close>

text \<open>\<open>ip->nlink\<close> changed and written back.\<close>

definition add_link :: "u16 \<Rightarrow> nat \<Rightarrow> 'w fs \<Rightarrow> kerr + 'w fs" where
  "add_link d i x = iupdate i (upd_inode i (\<lambda>ip. ip\<lparr>inlink := inlink ip + d\<rparr>) x)"

definition link_bad :: "nat \<Rightarrow> 'w fs \<Rightarrow> kerr + int \<times> 'w fs" where
  "link_bad i x =
     bindE (ilock i x) (\<lambda>x1. bindE (add_link (-1) i x1) (\<lambda>x2. bindE (iunlockput i x2) (\<lambda>x3. Inr (-1, x3))))"

definition link_paths :: "'w devsw \<Rightarrow> nat \<Rightarrow> u8 list \<Rightarrow> u8 list \<Rightarrow> 'w fs \<Rightarrow> kerr + int \<times> 'w fs" where
  "link_paths sw wd old new x =
     bindE (namei wd old x) (\<lambda>(r, x1).
       case r of None \<Rightarrow> Inr (-1, x1)
       | Some i \<Rightarrow>
           bindE (ilock i x1) (\<lambda>x2.
             if itype (ino x2 i) = T_DIR then bindE (iunlockput i x2) (\<lambda>x3. Inr (-1, x3))
             else
               bindE (add_link 1 i x2) (\<lambda>x3. bindE (iunlock i x3) (\<lambda>x4.
                 bindE (nameiparent wd new x4) (\<lambda>(d, x5).
                   case d of None \<Rightarrow> link_bad i x5
                   | Some (dp, name) \<Rightarrow>
                       bindE (ilock dp x5) (\<lambda>x6.
                         bindE (if idev (ino x6 dp) \<noteq> idev (ino x6 i) then Inr (-1, x6)
                                else dirlink sw dp name (inum (ino x6 i)) x6) (\<lambda>(l, x7).
                           bindE (iunlockput dp x7) (\<lambda>x8.
                             if l < 0 then link_bad i x8
                             else bindE (iput i x8) (\<lambda>x9. Inr (0, x9))))))))))"

definition on_fs :: "('w fs \<Rightarrow> kerr + int \<times> 'w fs) \<Rightarrow> 'w sst \<Rightarrow> kerr + int \<times> 'w sst" where
  "on_fs g = (\<lambda>(p, s). bindE (g (fsys s)) (\<lambda>(r, x). Inr (r, (p, s\<lparr>fsys := x\<rparr>))))"

definition sys_link :: "'w devsw \<Rightarrow> 'w sst \<Rightarrow> kerr + int \<times> 'w sst" where
  "sys_link sw = (\<lambda>(p, s).
     case (arg_path p 0, arg_path p 1) of
       (Some old, Some new) \<Rightarrow> on_fs (link_paths sw (ucwd p) old new) (p, s)
     | _ \<Rightarrow> Inr (-1, (p, s)))"

function isdirempty_loop :: "'w devsw \<Rightarrow> nat \<Rightarrow> nat \<Rightarrow> nat \<Rightarrow> 'w fs \<Rightarrow> kerr + bool \<times> 'w fs" where
  "isdirempty_loop sw i off lim x =
     (if off < lim then
        bindE (readi sw i (of_nat off) 16 x) (\<lambda>((r, bs), x1).
          if r \<noteq> 16 then Inl (Panic ''isdirempty: readi'')
          else if de_inum (dec_dirent bs) \<noteq> 0 then Inr (False, x1)
          else isdirempty_loop sw i (off + 16) lim x1)
      else Inr (True, x))"
  by auto
termination by (relation "measure (\<lambda>(sw, i, off, lim, x). lim - off)") auto

declare isdirempty_loop.simps [simp del]

definition isdirempty :: "'w devsw \<Rightarrow> nat \<Rightarrow> 'w fs \<Rightarrow> kerr + bool \<times> 'w fs" where
  "isdirempty sw i x = isdirempty_loop sw i 32 (unat (isize (ino x i))) x"

definition DOT :: u8 where "DOT = 46"

text \<open>The part of \<open>sys_unlink\<close> after both inodes are locked and the directory test has passed.\<close>

definition unlink_entry :: "'w devsw \<Rightarrow> nat \<Rightarrow> nat \<Rightarrow> nat \<Rightarrow> 'w fs \<Rightarrow> kerr + int \<times> 'w fs" where
  "unlink_entry sw dp i off x =
     bindE (writei sw dp (of_nat off) (replicate 16 0) x) (\<lambda>(w, x1).
       if w \<noteq> 16 then Inl (Panic ''unlink: writei'')
       else
         bindE (if itype (ino x1 i) = T_DIR then add_link (-1) dp x1 else Inr x1) (\<lambda>x2.
           bindE (iunlockput dp x2) (\<lambda>x3.
             bindE (add_link (-1) i x3) (\<lambda>x4. bindE (iunlockput i x4) (\<lambda>x5. Inr (0, x5))))))"

definition unlink_path :: "'w devsw \<Rightarrow> nat \<Rightarrow> u8 list \<Rightarrow> 'w fs \<Rightarrow> kerr + int \<times> 'w fs" where
  "unlink_path sw wd path x =
     bindE (nameiparent wd path x) (\<lambda>(d, x1).
       case d of None \<Rightarrow> Inr (-1, x1)
       | Some (dp, name) \<Rightarrow>
           bindE (ilock dp x1) (\<lambda>x2.
             if namecmp name [DOT] = 0 \<or> namecmp name [DOT, DOT] = 0 then bindE (iunlockput dp x2) (\<lambda>x3. Inr (-1, x3))
             else
               bindE (dirlookup dp name x2) (\<lambda>(r, x3).
                 case r of None \<Rightarrow> bindE (iunlockput dp x3) (\<lambda>x4. Inr (-1, x4))
                 | Some (i, off) \<Rightarrow>
                     bindE (ilock i x3) (\<lambda>x4.
                       if sint (inlink (ino x4 i)) < 1 then Inl (Panic ''unlink: nlink < 1'')
                       else
                         bindE (if itype (ino x4 i) = T_DIR then isdirempty sw i x4 else Inr (True, x4)) (\<lambda>(empty, x5).
                           if \<not> empty then
                             bindE (iunlockput i x5) (\<lambda>x6. bindE (iunlockput dp x6) (\<lambda>x7. Inr (-1, x7)))
                           else unlink_entry sw dp i off x5)))))"

definition sys_unlink :: "'w devsw \<Rightarrow> 'w sst \<Rightarrow> kerr + int \<times> 'w sst" where
  "sys_unlink sw = (\<lambda>(p, s).
     case arg_path p 0 of None \<Rightarrow> Inr (-1, (p, s))
     | Some path \<Rightarrow> on_fs (unlink_path sw (ucwd p) path) (p, s))"

subsection \<open>Creating and opening\<close>

definition O_WRONLY :: u32 where "O_WRONLY = 0x001"
definition O_RDWR :: u32 where "O_RDWR = 0x002"
definition O_CREATE :: u32 where "O_CREATE = 0x200"
definition O_CHECKED :: u32 where "O_CHECKED = 0x400"

text \<open>The new inode \<open>i\<close> in directory \<open>dp\<close>, both locked.\<close>

definition create_entry :: "'w devsw \<Rightarrow> nat \<Rightarrow> u8 list \<Rightarrow> u16 \<Rightarrow> nat \<Rightarrow> 'w fs \<Rightarrow> kerr + nat option \<times> 'w fs" where
  "create_entry sw dp name t i x =
     bindE
       (if t = T_DIR then
          bindE (add_link 1 dp x) (\<lambda>x1.
            bindE (dirlink sw i [DOT] (inum (ino x1 i)) x1) (\<lambda>(r1, x2).
              if r1 < 0 then Inl (Panic ''create dots'')
              else
                bindE (dirlink sw i [DOT, DOT] (inum (ino x2 dp)) x2) (\<lambda>(r2, x3).
                  if r2 < 0 then Inl (Panic ''create dots'') else Inr x3)))
        else Inr x)
       (\<lambda>x4. bindE (dirlink sw dp name (inum (ino x4 i)) x4) (\<lambda>(r, x5).
          if r < 0 then Inl (Panic ''create: dirlink'')
          else bindE (iunlockput dp x5) (\<lambda>x6. Inr (Some i, x6))))"

definition create :: "'w devsw \<Rightarrow> nat \<Rightarrow> u8 list \<Rightarrow> u16 \<Rightarrow> u16 \<Rightarrow> u16 \<Rightarrow> 'w fs \<Rightarrow> kerr + nat option \<times> 'w fs" where
  "create sw wd path t major minor x =
     bindE (nameiparent wd path x) (\<lambda>(d, x1).
       case d of None \<Rightarrow> Inr (None, x1)
       | Some (dp, name) \<Rightarrow>
           bindE (ilock dp x1) (\<lambda>x2.
             bindE (dirlookup dp name x2) (\<lambda>(r, x3).
               case r of
                 Some (i, off) \<Rightarrow>
                   bindE (iunlockput dp x3) (\<lambda>x4. bindE (ilock i x4) (\<lambda>x5.
                     if (t = T_FILE \<and> itype (ino x5 i) = T_FILE) \<or> (t = T_CHECKED \<and> itype (ino x5 i) = T_CHECKED)
                     then Inr (Some i, x5)
                     else bindE (iunlockput i x5) (\<lambda>x6. Inr (None, x6))))
               | None \<Rightarrow>
                   bindE (ialloc (idev (ino x3 dp)) t x3) (\<lambda>(i, x4).
                     bindE (ilock i x4) (\<lambda>x5.
                       bindE (iupdate i (upd_inode i (\<lambda>ip. ip\<lparr>imajor := major, iminor := minor, inlink := 1\<rparr>) x5)) (\<lambda>x6.
                         create_entry sw dp name t i x6))))))"

text \<open>The locked inode that \<open>sys_open\<close> opens.\<close>

definition open_inode :: "'w devsw \<Rightarrow> nat \<Rightarrow> u8 list \<Rightarrow> u32 \<Rightarrow> 'w fs \<Rightarrow> kerr + nat option \<times> 'w fs" where
  "open_inode sw wd path omode x =
     (if omode AND O_CREATE \<noteq> 0 then
        create sw wd path (if omode AND O_CHECKED \<noteq> 0 then T_CHECKED else T_FILE) 0 0 x
      else
        bindE (namei wd path x) (\<lambda>(r, x1).
          case r of None \<Rightarrow> Inr (None, x1)
          | Some i \<Rightarrow>
              bindE (ilock i x1) (\<lambda>x2.
                if itype (ino x2 i) = T_DIR \<and> omode \<noteq> 0 then bindE (iunlockput i x2) (\<lambda>x3. Inr (None, x3))
                else Inr (Some i, x2))))"

definition open_file :: "nat \<Rightarrow> u32 \<Rightarrow> kfile \<Rightarrow> kfile" where
  "open_file i omode f = f\<lparr>ftype := FD_INODE, fip := i, foff := 0, freadable := (omode AND O_WRONLY = 0),
     fwritable := (omode AND O_WRONLY \<noteq> 0 \<or> omode AND O_RDWR \<noteq> 0)\<rparr>"

definition open_fail :: "u32 \<Rightarrow> nat option \<Rightarrow> nat \<Rightarrow> 'w sst \<Rightarrow> kerr + int \<times> 'w sst" where
  "open_fail kend f i = (\<lambda>(p, s).
     bindE (close_opt kend f s) (\<lambda>s1. bindE (iunlockput i (fsys s1)) (\<lambda>x. Inr (-1, (p, s1\<lparr>fsys := x\<rparr>)))))"

definition sys_open :: "u32 \<Rightarrow> 'w devsw \<Rightarrow> 'w sst \<Rightarrow> kerr + int \<times> 'w sst" where
  "sys_open kend sw = (\<lambda>(p, s).
     case (arg_path p 0, arg_int p 1) of
       (Some path, Some omode) \<Rightarrow>
         bindE (open_inode sw (ucwd p) path omode (fsys s)) (\<lambda>(r, x).
           let s1 = s\<lparr>fsys := x\<rparr> in
           case r of None \<Rightarrow> Inr (-1, (p, s1))
           | Some i \<Rightarrow>
               (case filealloc s1 of
                  (None, s2) \<Rightarrow> open_fail kend None i (p, s2)
                | (Some f, s2) \<Rightarrow>
                    (case fdalloc f p of
                       None \<Rightarrow> open_fail kend (Some f) i (p, s2)
                     | Some (fd, p1) \<Rightarrow>
                         bindE (iunlock i (fsys s2)) (\<lambda>x1.
                           Inr (int fd, (p1, upd_file f (open_file i omode) (s2\<lparr>fsys := x1\<rparr>)))))))
     | _ \<Rightarrow> Inr (-1, (p, s)))"

text \<open>\<open>create\<close> followed by \<open>iunlockput\<close>, for \<open>sys_mkdir\<close> and \<open>sys_mknod\<close>.\<close>

definition make_node :: "'w devsw \<Rightarrow> nat \<Rightarrow> u8 list \<Rightarrow> u16 \<Rightarrow> u16 \<Rightarrow> u16 \<Rightarrow> 'w fs \<Rightarrow> kerr + int \<times> 'w fs" where
  "make_node sw wd path t major minor x =
     bindE (create sw wd path t major minor x) (\<lambda>(r, x1).
       case r of None \<Rightarrow> Inr (-1, x1) | Some i \<Rightarrow> bindE (iunlockput i x1) (\<lambda>x2. Inr (0, x2)))"

definition sys_mkdir :: "'w devsw \<Rightarrow> 'w sst \<Rightarrow> kerr + int \<times> 'w sst" where
  "sys_mkdir sw = (\<lambda>(p, s).
     case arg_path p 0 of None \<Rightarrow> Inr (-1, (p, s))
     | Some path \<Rightarrow> on_fs (make_node sw (ucwd p) path T_DIR 0 0) (p, s))"

definition sys_mknod :: "'w devsw \<Rightarrow> 'w sst \<Rightarrow> kerr + int \<times> 'w sst" where
  "sys_mknod sw = (\<lambda>(p, s).
     case (arg_path p 0, arg_int p 1, arg_int p 2) of
       (Some path, Some major, Some minor) \<Rightarrow> on_fs (make_node sw (ucwd p) path T_DEV (ucast major) (ucast minor)) (p, s)
     | _ \<Rightarrow> Inr (-1, (p, s)))"

definition sys_chdir :: "'w sst \<Rightarrow> kerr + int \<times> 'w sst" where
  "sys_chdir = (\<lambda>(p, s).
     case arg_path p 0 of None \<Rightarrow> Inr (-1, (p, s))
     | Some path \<Rightarrow>
         bindE (namei (ucwd p) path (fsys s)) (\<lambda>(r, x1).
           case r of None \<Rightarrow> Inr (-1, (p, s\<lparr>fsys := x1\<rparr>))
           | Some i \<Rightarrow>
               bindE (ilock i x1) (\<lambda>x2.
                 if itype (ino x2 i) \<noteq> T_DIR then bindE (iunlockput i x2) (\<lambda>x3. Inr (-1, (p, s\<lparr>fsys := x3\<rparr>)))
                 else
                   bindE (iunlock i x2) (\<lambda>x3. bindE (iput (ucwd p) x3) (\<lambda>x4.
                     Inr (0, (p\<lparr>ucwd := i\<rparr>, s\<lparr>fsys := x4\<rparr>)))))))"

subsection \<open>\<open>exec\<close> arguments and \<open>pipe\<close>\<close>

definition MAXARG :: nat where "MAXARG = 32"

text \<open>
  The loop of \<open>sys_exec\<close> from argument \<open>i\<close>, with \<open>k\<close> entries of \<open>argv\<close> left; \<open>None\<close> is the return -1.
\<close>

primrec exec_args :: "uproc \<Rightarrow> u32 \<Rightarrow> nat \<Rightarrow> u32 \<Rightarrow> u8 list list option" where
  "exec_args p uargv 0 i = None"
| "exec_args p uargv (Suc k) i =
     (case fetchint (umemory p) (usize p) (uargv + 4 * i) of
        None \<Rightarrow> None
      | Some a \<Rightarrow>
          if a = 0 then Some []
          else (case fetchstr (umemory p) (usize p) a of
                  None \<Rightarrow> None
                | Some (q, l) \<Rightarrow> map_option (Cons (mem_bytes (umemory p) q (unat l))) (exec_args p uargv k (i + 1))))"

text \<open>\<open>ex\<close> is \<open>exec\<close>.\<close>

definition sys_exec :: "(u8 list \<Rightarrow> u8 list list \<Rightarrow> 'w sst \<Rightarrow> kerr + int \<times> 'w sst) \<Rightarrow> 'w sst \<Rightarrow> kerr + int \<times> 'w sst" where
  "sys_exec ex = (\<lambda>(p, s).
     case (arg_path p 0, arg_int p 1) of
       (Some path, Some uargv) \<Rightarrow>
         (case exec_args p uargv MAXARG 0 of None \<Rightarrow> Inr (-1, (p, s)) | Some argv \<Rightarrow> ex path argv (p, s))
     | _ \<Rightarrow> Inr (-1, (p, s)))"

definition pipe_fail :: "u32 \<Rightarrow> nat option \<Rightarrow> nat \<Rightarrow> nat \<Rightarrow> 'w sst \<Rightarrow> kerr + int \<times> 'w sst" where
  "pipe_fail kend fd0 rf wr = (\<lambda>(p, s).
     bindE (fileclose kend rf s) (\<lambda>s1. bindE (fileclose kend wr s1) (\<lambda>s2.
       Inr (-1, (case fd0 of None \<Rightarrow> p | Some fd \<Rightarrow> p\<lparr>ufd := (ufd p)[fd := None]\<rparr>, s2)))))"

definition sys_pipe :: "u32 \<Rightarrow> u8 list \<Rightarrow> 'w sst \<Rightarrow> kerr + int \<times> 'w sst" where
  "sys_pipe kend page = (\<lambda>(p, s).
     case arg_ptr p 0 8 of None \<Rightarrow> Inr (-1, (p, s))
     | Some a \<Rightarrow>
         bindE (pipealloc kend page s) (\<lambda>(r, s1).
           case r of None \<Rightarrow> Inr (-1, (p, s1))
           | Some (rf, wr) \<Rightarrow>
               (case fdalloc rf p of
                  None \<Rightarrow> pipe_fail kend None rf wr (p, s1)
                | Some (fd0, p1) \<Rightarrow>
                    (case fdalloc wr p1 of
                       None \<Rightarrow> pipe_fail kend (Some fd0) rf wr (p1, s1)
                     | Some (fd1, p2) \<Rightarrow>
                         Inr (0, (store_user (a + 4) (le32 (of_nat fd1)) (store_user a (le32 (of_nat fd0)) p2), s1))))))"

end
