(* ===== verification/SysfileInv.thy ===== *)
theory SysfileInv
  imports FileInv Sysfile Proc
begin

text \<open>
  The descriptors of all processes and the file table: the reference count of every file is the number of
  descriptors that name it, through every history of the system calls, \<open>fork\<close> and \<open>exit\<close>, and the calls on
  pipes and descriptors never panic or use a freed page.
\<close>

subsection \<open>Counting descriptors\<close>

definition refs :: "uproc list \<Rightarrow> nat \<Rightarrow> nat" where
  "refs ps i = (\<Sum>p \<leftarrow> ps. count_list (ufd p) (Some i))"

definition fds_ok :: "nat option list \<Rightarrow> bool" where
  "fds_ok fds = (length fds = NOFILE \<and> (\<forall>f. Some f \<in> set fds \<longrightarrow> f < NFILE))"

text \<open>Every file has as many references as descriptors, and a type exactly when it has references.\<close>

definition refs_ok :: "uproc list \<Rightarrow> 'w files \<Rightarrow> bool" where
  "refs_ok ps s = (length (ftable s) = NFILE \<and> (\<forall>p \<in> set ps. fds_ok (ufd p))
     \<and> (\<forall>i < NFILE. fref (ftable s ! i) = int (refs ps i) \<and> (fref (ftable s ! i) = 0 \<longleftrightarrow> ftype (ftable s ! i) = FD_NONE)))"

definition sys_ok :: "u32 \<Rightarrow> uproc list \<times> 'w files \<Rightarrow> bool" where
  "sys_ok kend = (\<lambda>(ps, s). pipes_ok kend s \<and> refs_ok ps s)"

lemma refs_okD:
  assumes "refs_ok ps s" and "i < NFILE"
  shows "fref (ftable s ! i) = int (refs ps i)" and "fref (ftable s ! i) = 0 \<longleftrightarrow> ftype (ftable s ! i) = FD_NONE"
  using assms unfolding refs_ok_def by blast+

lemma count_list_update:
  "k < length xs \<Longrightarrow> count_list (xs[k := y]) a + (if xs ! k = a then 1 else 0) = count_list xs a + (if y = a then 1 else 0)"
proof (induction xs arbitrary: k)
  case (Cons x xs)
  show ?case
  proof (cases k)
    case 0
    then show ?thesis by simp
  next
    case (Suc j)
    then show ?thesis using Cons.IH [of j] Cons.prems by (auto split: if_splits)
  qed
qed simp

lemma refs_update:
  assumes "q < length ps"
  shows "int (refs (ps[q := p]) i) = int (refs ps i) + int (count_list (ufd p) (Some i)) - int (count_list (ufd (ps ! q)) (Some i))"
proof -
  let ?g = "\<lambda>p. count_list (ufd p) (Some i)"
  have "?g (ps ! q) \<le> sum_list (map ?g ps)" using assms elem_le_sum_list [of q "map ?g ps"] by simp
  then show ?thesis using assms sum_list_update [of q "map ?g ps" "?g p"] by (simp add: refs_def map_update)
qed

lemma refs_step:
  assumes ok: "refs_ok ps s" and q: "q < length ps" and len: "length (ftable t) = NFILE" and fds: "fds_ok (ufd p)"
    and new: "\<And>i. i < NFILE \<Longrightarrow> fref (ftable t ! i) - fref (ftable s ! i)
       = int (count_list (ufd p) (Some i)) - int (count_list (ufd (ps ! q)) (Some i)) \<and> (fref (ftable t ! i) = 0 \<longleftrightarrow> ftype (ftable t ! i) = FD_NONE)"
  shows "refs_ok (ps[q := p]) t"
proof -
  have "fds_ok (ufd x)" if "x \<in> set (ps[q := p])" for x
    using that fds ok set_update_subset_insert [of ps q p] by (auto simp: refs_ok_def)
  moreover have "fref (ftable t ! i) = int (refs (ps[q := p]) i)" if "i < NFILE" for i
    using new [OF that] ok that by (simp add: refs_ok_def refs_update [OF q])
  ultimately show ?thesis using len new by (simp add: refs_ok_def)
qed

lemma refs_same:
  assumes ok: "refs_ok ps s" and q: "q < length ps" and "length (ftable t) = NFILE" and "ref_type t = ref_type s" and "ufd p = ufd (ps ! q)"
  shows "refs_ok (ps[q := p]) t"
proof (rule refs_step [OF ok q assms(3)])
  show "fds_ok (ufd p)" using ok q by (simp add: refs_ok_def assms(5))
  fix i assume "i < NFILE"
  then have "fref (ftable s ! i) = 0 \<longleftrightarrow> ftype (ftable s ! i) = FD_NONE" using ok by (auto simp: refs_ok_def)
  then show "fref (ftable t ! i) - fref (ftable s ! i) = int (count_list (ufd p) (Some i)) - int (count_list (ufd (ps ! q)) (Some i))
      \<and> (fref (ftable t ! i) = 0 \<longleftrightarrow> ftype (ftable t ! i) = FD_NONE)"
    using ok fun_cong [OF assms(4), of i] by (simp add: assms(5) ref_type_def)
qed

lemma argfd_Some:
  "argfd p n = Some (fd, f) \<Longrightarrow> length (ufd p) = NOFILE \<Longrightarrow> fd < NOFILE \<and> ufd p ! fd = Some f"
  by (auto simp: argfd_def split: option.splits if_splits)

lemma fdalloc_Some:
  assumes "fdalloc f p = Some (fd, p1)"
  shows "fd < length (ufd p) \<and> ufd p ! fd = None \<and> p1 = p\<lparr>ufd := (ufd p)[fd := Some f]\<rparr>"
  using assms by (auto simp: fdalloc_def first_idx_Some_iff split: option.splits)

lemma fds_ok_set: "fds_ok fds \<Longrightarrow> (\<And>f. x = Some f \<Longrightarrow> f < NFILE) \<Longrightarrow> fds_ok (fds[k := x])"
  by (auto simp: fds_ok_def dest!: subsetD [OF set_update_subset_insert])

lemma store_user_frame [simp]: "ufd (store_user a bs p) = ufd p"
  by (simp add: store_user_def)

subsection \<open>One file and one descriptor\<close>

lemma refs_gain:
  assumes ok: "refs_ok ps s" and q: "q < length ps" and f: "f < NFILE" and fd: "fd < NOFILE" "ufd (ps ! q) ! fd = None"
    and t: "length (ftable t) = NFILE" "ref_type t = (ref_type s)(f := (fref (ftable s ! f) + 1, ty))" "ty \<noteq> FD_NONE"
    and p: "ufd p = (ufd (ps ! q))[fd := Some f]"
  shows "refs_ok (ps[q := p]) t"
proof (rule refs_step [OF ok q t(1)])
  have fds: "fds_ok (ufd (ps ! q))" using ok q by (simp add: refs_ok_def)
  then have len: "fd < length (ufd (ps ! q))" using fd by (simp add: fds_ok_def)
  show "fds_ok (ufd p)" unfolding p by (rule fds_ok_set [OF fds]) (simp add: f)
  fix i assume i: "i < NFILE"
  have cnt: "int (count_list (ufd p) (Some i)) - int (count_list (ufd (ps ! q)) (Some i)) = (if i = f then 1 else 0)"
    using count_list_update [OF len, of "Some f" "Some i"] fd(2) by (auto simp: p)
  have si: "0 \<le> fref (ftable s ! i)" "fref (ftable s ! i) = 0 \<longleftrightarrow> ftype (ftable s ! i) = FD_NONE" using ok i by (auto simp: refs_ok_def)
  show "fref (ftable t ! i) - fref (ftable s ! i) = int (count_list (ufd p) (Some i)) - int (count_list (ufd (ps ! q)) (Some i))
      \<and> (fref (ftable t ! i) = 0 \<longleftrightarrow> ftype (ftable t ! i) = FD_NONE)"
    using fun_cong [OF t(2), of i] si t(3) unfolding cnt by (auto simp: ref_type_def split: if_splits)
qed

lemma refs_lose:
  assumes ok: "refs_ok ps s" and q: "q < length ps" and fd: "fd < NOFILE" "ufd (ps ! q) ! fd = Some f"
    and c: "fileclose kend f s = Inr t" and p: "ufd p = (ufd (ps ! q))[fd := None]"
  shows "refs_ok (ps[q := p]) t"
proof -
  have fds: "fds_ok (ufd (ps ! q))" using ok q by (simp add: refs_ok_def)
  then have len: "fd < length (ufd (ps ! q))" using fd by (simp add: fds_ok_def)
  then have f: "f < NFILE" using fds fd(2) nth_mem [OF len] by (auto simp: fds_ok_def)
  have ls: "length (ftable s) = NFILE" using ok by (simp add: refs_ok_def)
  note tt = fileclose_table [OF c]
  show ?thesis
  proof (rule refs_step [OF ok q])
    show "length (ftable t) = NFILE" using tt ls by simp
    show "fds_ok (ufd p)" unfolding p by (rule fds_ok_set [OF fds]) simp
    fix i assume i: "i < NFILE"
    have cnt: "int (count_list (ufd p) (Some i)) - int (count_list (ufd (ps ! q)) (Some i)) = (if i = f then -1 else 0)"
      using count_list_update [OF len, of None "Some i"] fd(2) by (auto simp: p)
    have si: "fref (ftable s ! i) = 0 \<longleftrightarrow> ftype (ftable s ! i) = FD_NONE" using ok i by (auto simp: refs_ok_def)
    show "fref (ftable t ! i) - fref (ftable s ! i) = int (count_list (ufd p) (Some i)) - int (count_list (ufd (ps ! q)) (Some i))
      \<and> (fref (ftable t ! i) = 0 \<longleftrightarrow> ftype (ftable t ! i) = FD_NONE)"
      using tt si f ls unfolding cnt by (auto simp: nth_list_update)
  qed
qed

subsection \<open>The system calls\<close>

datatype filecall = CallDup | CallRead | CallWrite | CallClose | CallFstat | CallLink | CallUnlink | CallOpen | CallMkdir
  | CallMknod | CallChdir | CallPipe "u8 list"

definition returns :: "kerr + int \<times> 'w sst \<Rightarrow> kerr + outcome \<times> 'w sst" where
  "returns x = bindE x (\<lambda>(r, y). Inr (Ret r, y))"

fun file_call :: "u32 \<Rightarrow> 'w devsw \<Rightarrow> filecall \<Rightarrow> 'w sst \<Rightarrow> kerr + outcome \<times> 'w sst" where
  "file_call kend sw CallDup x = returns (sys_dup x)"
| "file_call kend sw CallRead x = sys_read sw x"
| "file_call kend sw CallWrite x = sys_write sw x"
| "file_call kend sw CallClose x = returns (sys_close kend x)"
| "file_call kend sw CallFstat x = returns (sys_fstat x)"
| "file_call kend sw CallLink x = returns (sys_link sw x)"
| "file_call kend sw CallUnlink x = returns (sys_unlink sw x)"
| "file_call kend sw CallOpen x = returns (sys_open kend sw x)"
| "file_call kend sw CallMkdir x = returns (sys_mkdir sw x)"
| "file_call kend sw CallMknod x = returns (sys_mknod sw x)"
| "file_call kend sw CallChdir x = returns (sys_chdir x)"
| "file_call kend sw (CallPipe page) x = returns (sys_pipe kend page x)"

lemma returns_Inr: "returns x = Inr (r, y) \<longleftrightarrow> (\<exists>k. x = Inr (k, y) \<and> r = Ret k)"
  by (cases y) (auto simp: returns_def bindE_eq_Inr_iff)

text \<open>A call that leaves the counts and the descriptors alone.\<close>

definition neutral :: "'w sst \<Rightarrow> 'w sst \<Rightarrow> bool" where
  "neutral x y = (ufd (fst y) = ufd (fst x) \<and> length (ftable (snd y)) = length (ftable (snd x)) \<and> ref_type (snd y) = ref_type (snd x))"

lemma neutral_refs:
  assumes "refs_ok ps s" and "q < length ps" and "neutral (ps ! q, s) (p, t)"
  shows "refs_ok (ps[q := p]) t"
  by (rule refs_same [OF assms(1,2)]) (use assms in \<open>simp_all add: neutral_def refs_ok_def\<close>)

lemma neutral_fs: "ufd p' = ufd p \<Longrightarrow> neutral (p, s) (p', s\<lparr>fsys := x\<rparr>)"
  by (simp add: neutral_def ref_type_frame)

lemma neutral_refl: "neutral x x"
  by (simp add: neutral_def)

definition fs_only :: "'w files \<Rightarrow> 'w files \<Rightarrow> bool" where
  "fs_only s t = (\<exists>x. t = s\<lparr>fsys := x\<rparr>)"

lemma fs_onlyI [simp, intro]: "fs_only s s" "fs_only s (s\<lparr>fsys := x\<rparr>)"
  unfolding fs_only_def by (metis files.surjective files.update_convs(1)) blast

lemma on_fs_keeps: "on_fs g (p, s) = Inr (r, (p', t)) \<Longrightarrow> p' = p \<and> fs_only s t"
  by (auto simp: on_fs_def bindE_eq_Inr_iff)

lemma filestat_keeps: "filestat i old s = Inr (r, t) \<Longrightarrow> fs_only s t"
  using filestat_table by (metis fs_only_def)

lemma fs_calls_keep:
  assumes "c \<in> {CallFstat, CallLink, CallUnlink, CallMkdir, CallMknod, CallChdir}" and "file_call kend sw c (p, s) = Inr (r, (p', t))"
  shows "ufd p' = ufd p \<and> fs_only s t"
proof -
  have "ufd (put_stat a sr p) = ufd p" for a sr by (simp add: put_stat_def)
  then show ?thesis using assms
    by (auto simp: returns_Inr sys_fstat_def sys_link_def sys_unlink_def sys_mkdir_def sys_mknod_def sys_chdir_def bindE_eq_Inr_iff
        split: option.splits if_splits dest!: on_fs_keeps filestat_keeps)
qed

lemma sys_okD:
  assumes "sys_ok kend (ps, s)"
  shows "pipes_ok kend s" "refs_ok ps s" "length (ftable s) = NFILE"
  using assms by (auto simp: sys_ok_def refs_ok_def)

lemma sys_ok_neutral:
  assumes "sys_ok kend (ps, s)" and "q < length ps" and "neutral (ps ! q, s) (p, t)" and "pipes_ok kend t"
  shows "sys_ok kend (ps[q := p], t)"
  using neutral_refs [OF sys_okD(2) [OF assms(1)] assms(2,3)] assms(4) by (simp add: sys_ok_def)

lemma sys_ok_fs:
  assumes "sys_ok kend (ps, s)" and "q < length ps" and "ufd p = ufd (ps ! q)" and "fs_only s t"
  shows "sys_ok kend (ps[q := p], t)"
proof -
  obtain x where x: "t = s\<lparr>fsys := x\<rparr>" using assms(4) by (auto simp: fs_only_def)
  show ?thesis unfolding x by (rule sys_ok_neutral [OF assms(1,2)]) (use assms sys_okD(1) [OF assms(1)] in \<open>simp_all add: neutral_fs pipes_ok_fsys\<close>)
qed

lemma argfd_file:
  assumes "sys_ok kend (ps, s)" and "q < length ps" and "argfd (ps ! q) n = Some (fd, f)"
  shows "fd < NOFILE" "ufd (ps ! q) ! fd = Some f" "f < NFILE" "1 \<le> fref (ftable s ! f)" "ftype (ftable s ! f) \<noteq> FD_NONE"
proof -
  note r = sys_okD(2) [OF assms(1)]
  have fds: "fds_ok (ufd (ps ! q))" using r assms(2) by (simp add: refs_ok_def)
  then have a: "fd < NOFILE" "ufd (ps ! q) ! fd = Some f" using argfd_Some [OF assms(3)] by (auto simp: fds_ok_def)
  then have m: "Some f \<in> set (ufd (ps ! q))" using fds by (metis fds_ok_def nth_mem)
  then have f: "f < NFILE" using fds by (simp add: fds_ok_def)
  have "0 < count_list (ufd (ps ! q)) (Some f)" using m count_list_0_iff by fastforce
  moreover have "count_list (ufd (ps ! q)) (Some f) \<le> refs ps f"
    using elem_le_sum_list [of q "map (\<lambda>p. count_list (ufd p) (Some f)) ps"] assms(2) by (simp add: refs_def)
  ultimately have "1 \<le> fref (ftable s ! f) \<and> ftype (ftable s ! f) \<noteq> FD_NONE" using r f by (auto simp: refs_ok_def)
  then show "fd < NOFILE" "ufd (ps ! q) ! fd = Some f" "f < NFILE" "1 \<le> fref (ftable s ! f)" "ftype (ftable s ! f) \<noteq> FD_NONE"
    using a f by simp_all
qed

lemma dup_keeps:
  assumes ok: "sys_ok kend (ps, s)" and q: "q < length ps" and r: "sys_dup (ps ! q, s) = Inr (k, (p, t))"
  shows "sys_ok kend (ps[q := p], t)"
proof (cases "\<exists>fd f fd1 p1. argfd (ps ! q) 0 = Some (fd, f) \<and> fdalloc f (ps ! q) = Some (fd1, p1)")
  case False
  then have "p = ps ! q" "t = s" using r by (auto simp: sys_dup_def split: option.splits)
  then show ?thesis using ok by simp
next
  case True
  then obtain fd f fd1 p1 where a: "argfd (ps ! q) 0 = Some (fd, f)" "fdalloc f (ps ! q) = Some (fd1, p1)" by blast
  note f = argfd_file [OF ok q a(1)] and n = fdalloc_Some [OF a(2)]
  have d: "filedup f s = Inr t" "p = p1" using r a by (auto simp: sys_dup_def bindE_eq_Inr_iff)
  note t = filedup_table [OF d(1), THEN conjunct1]
  have "refs_ok (ps[q := p]) t"
  proof (rule refs_gain [OF sys_okD(2) [OF ok] q f(3)])
    show "fd1 < NOFILE" "ufd (ps ! q) ! fd1 = None" "ufd p = (ufd (ps ! q))[fd1 := Some f]"
      using n d(2) sys_okD(2) [OF ok] q by (auto simp: refs_ok_def fds_ok_def)
    show "ref_type t = (ref_type s)(f := (fref (ftable s ! f) + 1, ftype (ftable s ! f)))"
      using f(3) sys_okD(3) [OF ok] by (auto simp: t ref_type_upd)
    show "length (ftable t) = NFILE" using t sys_okD(3) [OF ok] by simp
  qed (rule f(5))
  then show ?thesis using filedup_ok [OF sys_okD(1) [OF ok] f(3) d(1)] by (simp add: sys_ok_def)
qed

lemma close_keeps:
  assumes ok: "sys_ok kend (ps, s)" and q: "q < length ps" and r: "sys_close kend (ps ! q, s) = Inr (k, (p, t))"
  shows "sys_ok kend (ps[q := p], t)"
proof (cases "argfd (ps ! q) 0")
  case None
  then have "p = ps ! q" "t = s" using r by (auto simp: sys_close_def)
  then show ?thesis using ok by simp
next
  case (Some a)
  then obtain fd f where a: "argfd (ps ! q) 0 = Some (fd, f)" by (cases a) simp
  note f = argfd_file [OF ok q a]
  have c: "fileclose kend f s = Inr t" and p: "ufd p = (ufd (ps ! q))[fd := None]" using r a by (auto simp: sys_close_def bindE_eq_Inr_iff)
  show ?thesis
    using refs_lose [OF sys_okD(2) [OF ok] q f(1,2) c p] fileclose_ok [OF sys_okD(1) [OF ok] f(3) c] by (simp add: sys_ok_def)
qed

lemma read_keeps:
  assumes ok: "sys_ok kend (ps, s)" and q: "q < length ps" and r: "sys_read sw (ps ! q, s) = Inr (k, (p, t))"
  shows "sys_ok kend (ps[q := p], t)"
proof (cases "p = ps ! q \<and> t = s")
  case True
  then show ?thesis using ok by simp
next
  case False
  then obtain fd f n o1 where a: "argfd (ps ! q) 0 = Some (fd, f)" and rd: "fileread sw (ukilled (ps ! q)) f n s = Inr (o1, t)"
      and p: "ufd p = ufd (ps ! q)"
    using r by (auto simp: sys_read_def bindE_eq_Inr_iff split: option.splits)
  have "neutral (ps ! q, s) (p, t)" using fileread_table [OF rd] p by (simp add: neutral_def)
  then show ?thesis using fileread_ok [OF sys_okD(1) [OF ok] argfd_file(3) [OF ok q a] rd] by (rule sys_ok_neutral [OF ok q])
qed

lemma write_keeps:
  assumes ok: "sys_ok kend (ps, s)" and q: "q < length ps" and r: "sys_write sw (ps ! q, s) = Inr (k, (p, t))"
  shows "sys_ok kend (ps[q := p], t)"
proof (cases "p = ps ! q \<and> t = s")
  case True
  then show ?thesis using ok by simp
next
  case False
  then obtain fd f m a1 n o1 where a: "argfd (ps ! q) 0 = Some (fd, f)" and wr: "filewrite sw (ukilled (ps ! q)) f m a1 n s = Inr (o1, t)"
      and p: "ufd p = ufd (ps ! q)"
    using r by (auto simp: sys_write_def bindE_eq_Inr_iff split: option.splits)
  have "neutral (ps ! q, s) (p, t)" using filewrite_table [OF wr] p by (simp add: neutral_def)
  then show ?thesis using filewrite_ok [OF sys_okD(1) [OF ok] argfd_file(3) [OF ok q a] wr] by (rule sys_ok_neutral [OF ok q])
qed

subsection \<open>\<open>open\<close> and \<open>pipe\<close>\<close>

lemma pipes_ok_not_pipe:
  assumes ok: "pipes_ok kend s" and i: "i < NFILE" and t: "ftype (ftable s ! i) \<noteq> FD_PIPE" "ftype (g (ftable s ! i)) \<noteq> FD_PIPE"
    and r: "1 \<le> fref (g (ftable s ! i))"
  shows "pipes_ok kend (upd_file i g s)"
proof (rule pipes_ok_same_ends [OF ok])
  have len: "length (ftable s) = NFILE" using pipes_okD(1) [OF ok] by (simp add: counts_ok_def)
  show "is_end (upd_file i g s) j a w = is_end s j a w" for j a w
    using is_end_upd [of i s g j a w] t i len by (auto simp: is_end_def)
  show "counts_ok (upd_file i g s)" by (rule counts_ok_upd [OF pipes_okD(1) [OF ok] i]) (use r in simp_all)
qed simp_all

lemma fileclose_ref_type:
  "fileclose kend i s = Inr t \<Longrightarrow> i < length (ftable s)
     \<Longrightarrow> ref_type t = (ref_type s)(i := if fref (ftable s ! i) = 1 then (0, FD_NONE) else (fref (ftable s ! i) - 1, ftype (ftable s ! i)))
       \<and> length (ftable t) = length (ftable s)"
  using fileclose_table [of kend i s t] by (auto simp: ref_type_def nth_list_update intro!: ext)

lemma open_fail_keeps:
  assumes ok: "pipes_ok kend s" and r: "open_fail kend f i (p, s) = Inr (k, (p', t))"
    and f: "\<And>j. f = Some j \<Longrightarrow> j < NFILE \<and> ref_type s j = (1, FD_NONE)"
  shows "p' = p \<and> pipes_ok kend t \<and> length (ftable t) = NFILE \<and> ref_type t = (case f of None \<Rightarrow> ref_type s | Some j \<Rightarrow> (ref_type s)(j := (0, FD_NONE)))"
proof -
  obtain u x where u: "close_opt kend f s = Inr u" and t: "t = u\<lparr>fsys := x\<rparr>" "p' = p" using r by (auto simp: open_fail_def bindE_eq_Inr_iff)
  have len: "length (ftable s) = NFILE" using pipes_okD(1) [OF ok] by (simp add: counts_ok_def)
  show ?thesis
  proof (cases f)
    case None
    then show ?thesis using u t ok len by (simp add: close_opt_def pipes_ok_fsys ref_type_frame)
  next
    case (Some j)
    then have "fileclose kend j s = Inr u" using u by (simp add: close_opt_def)
    then have "pipes_ok kend u \<and> ref_type u = (ref_type s)(j := (0, FD_NONE)) \<and> length (ftable u) = NFILE"
      using close_fresh_ref_type [OF ok, of j] f [OF Some] by auto
    then show ?thesis using Some t by (simp add: pipes_ok_fsys ref_type_frame)
  qed
qed

lemma open_keeps:
  assumes ok: "sys_ok kend (ps, s)" and q: "q < length ps" and r: "sys_open kend sw (ps ! q, s) = Inr (k, (p, t))"
  shows "sys_ok kend (ps[q := p], t)"
proof (cases "p = ps ! q \<and> fs_only s t")
  case True
  then show ?thesis using sys_ok_fs [OF ok q, of p t] by simp
next
  case False
  obtain path om i x where s1: "open_inode sw (ucwd (ps ! q)) path om (fsys s) = Inr (Some i, x)"
      and r1: "(case filealloc (s\<lparr>fsys := x\<rparr>) of
                  (None, s2) \<Rightarrow> open_fail kend None i (ps ! q, s2)
                | (Some f, s2) \<Rightarrow>
                    (case fdalloc f (ps ! q) of
                       None \<Rightarrow> open_fail kend (Some f) i (ps ! q, s2)
                     | Some (fd, p1) \<Rightarrow>
                         bindE (iunlock i (fsys s2)) (\<lambda>x1.
                           Inr (int fd, (p1, upd_file f (open_file i om) (s2\<lparr>fsys := x1\<rparr>)))))) = Inr (k, (p, t))"
    using r False by (auto simp: sys_open_def bindE_eq_Inr_iff Let_def split: option.splits)
  let ?s1 = "s\<lparr>fsys := x\<rparr>"
  have ok1: "pipes_ok kend ?s1" using sys_okD(1) [OF ok] by (simp add: pipes_ok_fsys)
  have rt1: "ref_type ?s1 = ref_type s" by (simp add: ref_type_frame)
  have neut: "sys_ok kend (ps[q := p], t)" if "p = ps ! q" "pipes_ok kend t" "length (ftable t) = NFILE" "ref_type t = ref_type s"
    by (rule sys_ok_neutral [OF ok q _ that(2)]) (use that sys_okD(3) [OF ok] in \<open>simp add: neutral_def\<close>)
  obtain f0 s2 where a: "filealloc ?s1 = (f0, s2)" by (cases "filealloc ?s1")
  show ?thesis
  proof (cases f0)
    case None
    then have "s2 = ?s1" using a by (auto simp: filealloc_def split: option.splits)
    then show ?thesis using open_fail_keeps [OF ok1, of None i "ps ! q" k p t] r1 a None rt1 neut by simp
  next
    case (Some f)
    note fo = filealloc_ok [OF ok1 a [unfolded Some]] and fr = filealloc_ref_type [OF ok1 a [unfolded Some]]
    show ?thesis
    proof (cases "fdalloc f (ps ! q)")
      case None
      then have "open_fail kend (Some f) i (ps ! q, s2) = Inr (k, (p, t))" using r1 a Some by simp
      then have "p = ps ! q \<and> pipes_ok kend t \<and> length (ftable t) = NFILE \<and> ref_type t = (ref_type s2)(f := (0, FD_NONE))"
        using open_fail_keeps [OF fo(1), of "Some f" i "ps ! q" k p t] fo(2) fr by simp
      moreover have "(ref_type s)(f := (0, FD_NONE)) = ref_type s" by (rule fun_upd_idem) (use fr rt1 in simp)
      ultimately show ?thesis using neut fr rt1 by simp
    next
      case fd: (Some y)
      obtain fd p1 where y: "fdalloc f (ps ! q) = Some (fd, p1)" using fd by (cases y) simp
      note n = fdalloc_Some [OF y]
      obtain x1 where t: "t = upd_file f (open_file i om) (s2\<lparr>fsys := x1\<rparr>)" "p = p1"
        using r1 a Some y by (auto simp: bindE_eq_Inr_iff)
      have ok2: "pipes_ok kend (s2\<lparr>fsys := x1\<rparr>)" using fo(1) by (simp add: pipes_ok_fsys)
      have len2: "length (ftable s2) = NFILE" using pipes_okD(1) [OF fo(1)] by (simp add: counts_ok_def)
      have "pipes_ok kend t" unfolding t(1) by (rule pipes_ok_not_pipe [OF ok2 fo(2)]) (use fo(3,4) in \<open>simp_all add: open_file_def\<close>)
      moreover have "refs_ok (ps[q := p]) t"
      proof (rule refs_gain [OF sys_okD(2) [OF ok] q fo(2)])
        show "fd < NOFILE" "ufd (ps ! q) ! fd = None" "ufd p = (ufd (ps ! q))[fd := Some f]"
          using n t(2) sys_okD(2) [OF ok] q by (auto simp: refs_ok_def fds_ok_def)
        have "fref (ftable s ! f) = 0" using fr rt1 by (simp add: ref_type_def)
        then show "ref_type t = (ref_type s)(f := (fref (ftable s ! f) + 1, FD_INODE))"
          using fo(2,4) len2 fr rt1 by (auto simp: t(1) ref_type_upd ref_type_frame open_file_def)
        show "length (ftable t) = NFILE" using len2 by (simp add: t(1))
      qed simp
      ultimately show ?thesis by (simp add: sys_ok_def)
    qed
  qed
qed

lemma pipe_keeps:
  assumes ok: "sys_ok kend (ps, s)" and q: "q < length ps" and r: "sys_pipe kend page (ps ! q, s) = Inr (k, (p, t))"
  shows "sys_ok kend (ps[q := p], t)"
proof (cases "arg_ptr (ps ! q) 0 8")
  case None
  then have "p = ps ! q" "t = s" using r by (auto simp: sys_pipe_def)
  then show ?thesis using ok by simp
next
  case (Some a)
  obtain res s1 where pa: "pipealloc kend page s = Inr (res, s1)" "pipes_ok kend s1" "pipealloc_result s res s1"
    using pipealloc_ok [OF sys_okD(1) [OF ok]] by blast
  have len1: "length (ftable s1) = NFILE" using pa(3) by (simp add: pipealloc_result_def)
  show ?thesis
  proof (cases res)
    case None
    then have "p = ps ! q" "t = s1" using r Some pa(1) by (auto simp: sys_pipe_def)
    moreover have "ref_type s1 = ref_type s" using pa(3) None by (simp add: pipealloc_result_def)
    ultimately show ?thesis
      by (intro sys_ok_neutral [OF ok q]) (use len1 pa(2) sys_okD(3) [OF ok] in \<open>simp_all add: neutral_def\<close>)
  next
    case res: (Some w)
    obtain i j where w: "res = Some (i, j)" using res by (cases w) simp
    have ij: "i \<noteq> j" "i < NFILE" "j < NFILE" "ref_type s i = (0, FD_NONE)" "ref_type s j = (0, FD_NONE)"
        "ref_type s1 = (ref_type s)(i := (1, FD_PIPE), j := (1, FD_PIPE))"
      using pa(3) w by (simp_all add: pipealloc_result_def)
    have fail: "sys_ok kend (ps[q := p], t)" if f: "fileclose kend i s1 = Inr u" "fileclose kend j u = Inr t" and u: "ufd p = ufd (ps ! q)" for u
    proof -
      have "ref_type s1 i = (1, FD_PIPE)" using ij by simp
      then have "fref (ftable s1 ! i) = 1" by (simp add: ref_type_def)
      then have ru: "ref_type u = (ref_type s1)(i := (0, FD_NONE))" "length (ftable u) = NFILE"
        using fileclose_ref_type [OF f(1)] ij(2) len1 by simp_all
      have "ref_type u j = (1, FD_PIPE)" using ru ij(1,6) by simp
      then have "fref (ftable u ! j) = 1" by (simp add: ref_type_def)
      then have "ref_type t = (ref_type u)(j := (0, FD_NONE))" "length (ftable t) = NFILE"
        using fileclose_ref_type [OF f(2)] ij(3) ru(2) by simp_all
      then have n: "neutral (ps ! q, s) (p, t)" using ru ij u sys_okD(3) [OF ok] by (auto simp: neutral_def)
      have "pipes_ok kend t" by (rule fileclose_ok [OF fileclose_ok [OF pa(2) ij(2) f(1)] ij(3) f(2)])
      then show ?thesis by (rule sys_ok_neutral [OF ok q n])
    qed
    show ?thesis
    proof (cases "fdalloc i (ps ! q)")
      case None
      then show ?thesis using r Some pa(1) w fail by (auto simp: sys_pipe_def pipe_fail_def bindE_eq_Inr_iff)
    next
      case f0: (Some y0)
      obtain fd0 p1 where y0: "fdalloc i (ps ! q) = Some (fd0, p1)" using f0 by (cases y0) simp
      note n0 = fdalloc_Some [OF y0]
      show ?thesis
      proof (cases "fdalloc j p1")
        case None
        have "(ufd (ps ! q))[fd0 := None] = ufd (ps ! q)" using n0 by (metis list_update_id)
        then show ?thesis using r Some pa(1) w fail y0 None n0 by (auto simp: sys_pipe_def pipe_fail_def bindE_eq_Inr_iff)
      next
        case f1: (Some y1)
        obtain fd1 p2 where y1: "fdalloc j p1 = Some (fd1, p2)" using f1 by (cases y1) simp
        note n1 = fdalloc_Some [OF y1]
        have t: "t = s1" "ufd p = ((ufd (ps ! q))[fd0 := Some i])[fd1 := Some j]"
          using r Some pa(1) w y0 y1 n0 n1 by (auto simp: sys_pipe_def)
        have fds: "fds_ok (ufd (ps ! q))" using sys_okD(2) [OF ok] q by (simp add: refs_ok_def)
        have fd: "fd0 < NOFILE" "fd1 < NOFILE" using n0 n1 fds by (auto simp: fds_ok_def)
        have len: "length (ftable s) = NFILE" by (rule sys_okD(3) [OF ok])
        define s0 where "s0 = upd_file i (\<lambda>f. f\<lparr>fref := 1, ftype := FD_PIPE\<rparr>) s"
        have r0: "ref_type s0 = (ref_type s)(i := (1, FD_PIPE))" "length (ftable s0) = NFILE"
          using ij(2) len by (auto simp: s0_def ref_type_upd)
        have z: "fref (ftable s ! i) = 0" "fref (ftable s0 ! j) = 0" using ij(4) ij(1,5) fun_cong [OF r0(1), of j] by (simp_all add: ref_type_def)
        have "refs_ok (ps[q := p1]) s0"
          by (rule refs_gain [OF sys_okD(2) [OF ok] q ij(2) fd(1) _ r0(2), of FD_PIPE]) (use n0 r0 z in simp_all)
        then have "refs_ok ((ps[q := p1])[q := p]) s1"
        proof (rule refs_gain [OF _ _ ij(3) fd(2)])
          show "ref_type s1 = (ref_type s0)(j := (fref (ftable s0 ! j) + 1, FD_PIPE))" using ij(6) r0(1) z(2) by simp
        qed (use n0 n1 q t(2) len1 in simp_all)
        then show ?thesis using t(1) pa(2) by (simp add: sys_ok_def)
      qed
    qed
  qed
qed

lemma file_call_keeps:
  assumes "sys_ok kend (ps, s)" and "q < length ps" and "file_call kend sw c (ps ! q, s) = Inr (r, (p, t))"
  shows "sys_ok kend (ps[q := p], t)"
proof (cases "c \<in> {CallFstat, CallLink, CallUnlink, CallMkdir, CallMknod, CallChdir}")
  case True
  then show ?thesis using fs_calls_keep [OF True assms(3)] sys_ok_fs [OF assms(1,2)] by simp
next
  case False
  then show ?thesis
    using assms dup_keeps close_keeps read_keeps write_keeps open_keeps pipe_keeps by (cases c) (auto simp: returns_Inr)
qed

subsection \<open>\<open>fork\<close> and \<open>exit\<close>\<close>

text \<open>The services of the other parts of the kernel with those of \<open>file.c\<close> filled in.\<close>

definition with_files :: "u32 \<Rightarrow> 'w files services \<Rightarrow> 'w files services" where
  "with_files kend svc = svc\<lparr>filedup_s := filedup, fileclose_s := fileclose kend\<rparr>"

lemma with_files_simps [simp]: "filedup_s (with_files kend svc) = filedup" "fileclose_s (with_files kend svc) = fileclose kend"
  by (simp_all add: with_files_def)

lemma dup_files_ok:
  assumes "dup_files (with_files kend svc) fs ns s = Inr (rs, t)" and "pipes_ok kend s" and "length ns = length fs"
    and "\<And>f. Some f \<in> set fs \<Longrightarrow> f < NFILE" and "\<And>n. n \<in> set ns \<Longrightarrow> n = None"
  shows "pipes_ok kend t \<and> rs = fs \<and> (\<forall>i < NFILE. ref_type t i = (fref (ftable s ! i) + int (count_list fs (Some i)), ftype (ftable s ! i)))"
  using assms
proof (induction "with_files kend svc" fs ns s arbitrary: rs t rule: dup_files.induct)
  case (1 f fs n ns w)
  obtain w1 rs1 where w1: "filedup f w = Inr w1" and d: "dup_files (with_files kend svc) fs ns w1 = Inr (rs1, t)" and rs: "rs = Some f # rs1"
    using "1.prems"(1) by (auto simp: bindE_eq_Inr_iff)
  have f: "f < NFILE" using "1.prems"(4) by simp
  have ok1: "pipes_ok kend w1" by (rule filedup_ok [OF "1.prems"(2) f w1])
  have IH: "pipes_ok kend t \<and> rs1 = fs \<and> (\<forall>i < NFILE. ref_type t i = (fref (ftable w1 ! i) + int (count_list fs (Some i)), ftype (ftable w1 ! i)))"
    by (rule "1.hyps" [OF _ d ok1]) (use "1.prems"(3-5) w1 in \<open>auto\<close>)
  have len: "f < length (ftable w)" using f pipes_okD(1) [OF "1.prems"(2)] by (simp add: counts_ok_def)
  have "fref (ftable w1 ! i) = fref (ftable w ! i) + (if i = f then 1 else 0) \<and> ftype (ftable w1 ! i) = ftype (ftable w ! i)" for i
    using filedup_table [OF w1] len by (simp add: upd_file_nth)
  then show ?case using IH rs by simp
next
  case (2 fs n ns w)
  then obtain rs1 where d: "dup_files (with_files kend svc) fs ns w = Inr (rs1, t)" and rs: "rs = n # rs1"
    by (auto simp: bindE_eq_Inr_iff)
  have "pipes_ok kend t \<and> rs1 = fs \<and> (\<forall>i < NFILE. ref_type t i = (fref (ftable w ! i) + int (count_list fs (Some i)), ftype (ftable w ! i)))"
    by (rule "2.hyps" [OF d]) (use "2.prems" in auto)
  then show ?case using rs "2.prems"(5) by simp
qed (auto simp: ref_type_def)

lemma fork_files_keep:
  assumes ok: "sys_ok kend (ps, s)" and me: "me < length ps" and np: "np < length ps" and free: "ufd (ps ! np) = replicate NOFILE None"
    and d: "dup_files (with_files kend svc) (ufd (ps ! me)) (ufd (ps ! np)) s = Inr (fs, t)"
  shows "sys_ok kend (ps[np := (ps ! np)\<lparr>ufd := fs\<rparr>], t)"
proof -
  note r = sys_okD(2) [OF ok]
  have fds: "fds_ok (ufd (ps ! me))" using r me by (simp add: refs_ok_def)
  then have t: "pipes_ok kend t" "fs = ufd (ps ! me)"
      "\<And>i. i < NFILE \<Longrightarrow> ref_type t i = (fref (ftable s ! i) + int (count_list (ufd (ps ! me)) (Some i)), ftype (ftable s ! i))"
    using dup_files_ok [OF d sys_okD(1) [OF ok]] by (auto simp: fds_ok_def free)
  have "refs_ok (ps[np := (ps ! np)\<lparr>ufd := fs\<rparr>]) t"
  proof (rule refs_step [OF r np])
    show "length (ftable t) = NFILE" using pipes_okD(1) [OF t(1)] by (simp add: counts_ok_def)
    show "fds_ok (ufd ((ps ! np)\<lparr>ufd := fs\<rparr>))" using fds t(2) by simp
    fix i assume i: "i < NFILE"
    have "count_list (ufd (ps ! me)) (Some i) \<le> refs ps i"
      using elem_le_sum_list [of me "map (\<lambda>p. count_list (ufd p) (Some i)) ps"] me by (simp add: refs_def)
    then have "int (count_list (ufd (ps ! me)) (Some i)) \<le> fref (ftable s ! i)" using r i by (simp add: refs_ok_def)
    moreover have "fref (ftable s ! i) = 0 \<longleftrightarrow> ftype (ftable s ! i) = FD_NONE" using r i by (auto simp: refs_ok_def)
    ultimately show "fref (ftable t ! i) - fref (ftable s ! i)
        = int (count_list (ufd ((ps ! np)\<lparr>ufd := fs\<rparr>)) (Some i)) - int (count_list (ufd (ps ! np)) (Some i))
        \<and> (fref (ftable t ! i) = 0 \<longleftrightarrow> ftype (ftable t ! i) = FD_NONE)"
      using t(3) [OF i] by (auto simp: ref_type_def free t(2))
  qed
  then show ?thesis using t(1) by (simp add: sys_ok_def)
qed

lemma close_files_ok:
  assumes "close_files (with_files kend svc) fs s = Inr t" and "pipes_ok kend s" and "\<And>f. Some f \<in> set fs \<Longrightarrow> f < NFILE"
    and "\<And>i. i < NFILE \<Longrightarrow> fref (ftable s ! i) = 0 \<longleftrightarrow> ftype (ftable s ! i) = FD_NONE"
  shows "pipes_ok kend t \<and> (\<forall>i < NFILE. fref (ftable t ! i) = fref (ftable s ! i) - int (count_list fs (Some i))
     \<and> (fref (ftable t ! i) = 0 \<longleftrightarrow> ftype (ftable t ! i) = FD_NONE))"
  using assms
proof (induction "with_files kend svc" fs s arbitrary: t rule: close_files.induct)
  case (3 f fs w)
  obtain w1 where w1: "fileclose kend f w = Inr w1" and d: "close_files (with_files kend svc) fs w1 = Inr t"
    using "3.prems"(1) by (auto simp: bindE_eq_Inr_iff)
  have f: "f < NFILE" using "3.prems"(3) by simp
  have len: "length (ftable w) = NFILE" using pipes_okD(1) [OF "3.prems"(2)] by (simp add: counts_ok_def)
  have e: "fref (ftable w1 ! i) = fref (ftable w ! i) - (if i = f then 1 else 0)
      \<and> (fref (ftable w1 ! i) = 0 \<longleftrightarrow> ftype (ftable w1 ! i) = FD_NONE)" if "i < NFILE" for i
    using fileclose_table [OF w1] f len "3.prems"(4) [OF that] "3.prems"(4) [OF f] by (auto simp: nth_list_update)
  have "pipes_ok kend t \<and> (\<forall>i < NFILE. fref (ftable t ! i) = fref (ftable w1 ! i) - int (count_list fs (Some i))
     \<and> (fref (ftable t ! i) = 0 \<longleftrightarrow> ftype (ftable t ! i) = FD_NONE))"
  proof (rule "3.hyps" [OF _ d fileclose_ok [OF "3.prems"(2) f w1]])
    show "fileclose_s (with_files kend svc) f w = Inr w1" using w1 by simp
    show "g < NFILE" if "Some g \<in> set fs" for g using that "3.prems"(3) by simp
    show "fref (ftable w1 ! i) = 0 \<longleftrightarrow> ftype (ftable w1 ! i) = FD_NONE" if "i < NFILE" for i by (rule e [OF that, THEN conjunct2])
  qed
  then show ?case using e by auto
qed auto

lemma exit_files_keep:
  assumes ok: "sys_ok kend (ps, s)" and me: "me < length ps" and d: "close_files (with_files kend svc) (ufd (ps ! me)) s = Inr t"
  shows "sys_ok kend (ps[me := (ps ! me)\<lparr>ufd := replicate NOFILE None\<rparr>], t)"
proof -
  note r = sys_okD(2) [OF ok]
  have fds: "fds_ok (ufd (ps ! me))" using r me by (simp add: refs_ok_def)
  then have lt: "f < NFILE" if "Some f \<in> set (ufd (ps ! me))" for f using that by (simp add: fds_ok_def)
  have t: "pipes_ok kend t \<and> (\<forall>i < NFILE. fref (ftable t ! i) = fref (ftable s ! i) - int (count_list (ufd (ps ! me)) (Some i))
     \<and> (fref (ftable t ! i) = 0 \<longleftrightarrow> ftype (ftable t ! i) = FD_NONE))"
    by (rule close_files_ok [OF d sys_okD(1) [OF ok] lt refs_okD(2) [OF r]])
  have z: "count_list (replicate n (None :: nat option)) (Some i) = 0" for n i by (simp add: count_list_0_iff)
  have "refs_ok (ps[me := (ps ! me)\<lparr>ufd := replicate NOFILE None\<rparr>]) t"
  proof (rule refs_step [OF r me])
    show "length (ftable t) = NFILE" using pipes_okD(1) [OF t [THEN conjunct1]] by (simp add: counts_ok_def)
    show "fds_ok (ufd ((ps ! me)\<lparr>ufd := replicate NOFILE None\<rparr>))" by (simp add: fds_ok_def)
    fix i assume i: "i < NFILE"
    show "fref (ftable t ! i) - fref (ftable s ! i) = int (count_list (ufd ((ps ! me)\<lparr>ufd := replicate NOFILE None\<rparr>)) (Some i))
        - int (count_list (ufd (ps ! me)) (Some i)) \<and> (fref (ftable t ! i) = 0 \<longleftrightarrow> ftype (ftable t ! i) = FD_NONE)"
      by (rule conjI [OF _ t [THEN conjunct2, rule_format, OF i, THEN conjunct2]])
        (use t [THEN conjunct2, rule_format, OF i, THEN conjunct1] z in simp)
  qed
  then show ?thesis using t by (simp add: sys_ok_def)
qed

subsection \<open>Every history of the descriptors\<close>

text \<open>
  Any number of processes make the calls; between the calls a process changes its memory, a sleeping
  \<open>pipewrite\<close> is resumed, and the other parts of the kernel use the file system and the page allocator. The
  pages that hold pipes are not given to them.
\<close>

definition idle_files :: "uproc list \<Rightarrow> 'w files \<Rightarrow> bool" where
  "idle_files ps s = (ftable s = replicate NFILE (ftable s ! 0) \<and> fref (ftable s ! 0) = 0 \<and> ftype (ftable s ! 0) = FD_NONE
     \<and> pipes s = Map.empty \<and> (\<forall>p \<in> set ps. ufd p = replicate NOFILE None))"

inductive file_hist :: "u32 \<Rightarrow> 'w devsw \<Rightarrow> 'w files services \<Rightarrow> uproc list \<times> 'w files \<Rightarrow> bool" for kend sw svc where
  fh_init: "idle_files ps s \<Longrightarrow> kmem_hist kend (kpages s) out \<Longrightarrow> file_hist kend sw svc (ps, s)"
| fh_call: "file_hist kend sw svc (ps, s) \<Longrightarrow> q < length ps \<Longrightarrow> file_call kend sw c (ps ! q, s) = Inr (r, (p, t))
     \<Longrightarrow> file_hist kend sw svc (ps[q := p], t)"
| fh_fork: "file_hist kend sw svc (ps, s) \<Longrightarrow> me < length ps \<Longrightarrow> np < length ps \<Longrightarrow> ufd (ps ! np) = replicate NOFILE None
     \<Longrightarrow> dup_files (with_files kend svc) (ufd (ps ! me)) (ufd (ps ! np)) s = Inr (fs, t)
     \<Longrightarrow> file_hist kend sw svc (ps[np := (ps ! np)\<lparr>ufd := fs\<rparr>], t)"
| fh_exit: "file_hist kend sw svc (ps, s) \<Longrightarrow> me < length ps \<Longrightarrow> close_files (with_files kend svc) (ufd (ps ! me)) s = Inr t
     \<Longrightarrow> file_hist kend sw svc (ps[me := (ps ! me)\<lparr>ufd := replicate NOFILE None\<rparr>], t)"
| fh_user: "file_hist kend sw svc (ps, s) \<Longrightarrow> q < length ps \<Longrightarrow> ufd p = ufd (ps ! q) \<Longrightarrow> file_hist kend sw svc (ps[q := p], s)"
| fh_resume: "file_hist kend sw svc (ps, s) \<Longrightarrow> pipes s a = Some pp \<Longrightarrow> pipewrite_from kd addr n i pp = (oc, ch, pq)
     \<Longrightarrow> file_hist kend sw svc (ps, s\<lparr>pipes := (pipes s)(a := Some pq), pwoken := map (Pair a) ch @ pwoken s\<rparr>)"
| fh_fs: "file_hist kend sw svc (ps, s) \<Longrightarrow> file_hist kend sw svc (ps, s\<lparr>fsys := x\<rparr>)"
| fh_kalloc: "file_hist kend sw svc (ps, s) \<Longrightarrow> kalloc (kpages s) = (a, k) \<Longrightarrow> file_hist kend sw svc (ps, s\<lparr>kpages := k\<rparr>)"
| fh_kfree: "file_hist kend sw svc (ps, s) \<Longrightarrow> pipes s a = None \<Longrightarrow> kmem_rep kend (kpages s) free \<Longrightarrow> a \<notin> set free
     \<Longrightarrow> kfree kend a (kpages s) = Inr k \<Longrightarrow> file_hist kend sw svc (ps, s\<lparr>kpages := k\<rparr>)"
| fh_store: "file_hist kend sw svc (ps, s) \<Longrightarrow> kmem_rep kend (kpages s) free \<Longrightarrow> a \<notin> set free
     \<Longrightarrow> file_hist kend sw svc (ps, s\<lparr>kpages := (kpages s)\<lparr>mem := (mem (kpages s))(a := w)\<rparr>\<rparr>)"

lemma kmem_rep_unique: "kmem_rep kend s ps \<Longrightarrow> kmem_rep kend s qs \<Longrightarrow> ps = qs"
  by (auto simp: kmem_rep_def dest: flist_unique)

lemma refs_ok_frame:
  "refs_ok ps (s\<lparr>fsys := x\<rparr>) = refs_ok ps s" "refs_ok ps (s\<lparr>kpages := k\<rparr>) = refs_ok ps s"
  "refs_ok ps (s\<lparr>pipes := y, pwoken := w\<rparr>) = refs_ok ps s"
  by (simp_all add: refs_ok_def)

lemma sys_ok_kpages:
  assumes "sys_ok kend (ps, s)" and "kmem_rep kend k free" "\<forall>a \<in> dom (pipes s). page_ok kend a \<and> a \<notin> set free"
  shows "sys_ok kend (ps, s\<lparr>kpages := k\<rparr>)"
  using sys_okD(2) [OF assms(1)] pipes_ok_kpages [OF sys_okD(1) [OF assms(1)] assms(2,3)] by (simp add: sys_ok_def refs_ok_frame)

lemma pipe_pages:
  assumes "sys_ok kend (ps, s)" and "kmem_rep kend (kpages s) free"
  shows "\<forall>a \<in> dom (pipes s). page_ok kend a \<and> a \<notin> set free"
  using pipes_okD(2) [OF sys_okD(1) [OF assms(1)]] kmem_rep_unique [OF assms(2)] by blast

lemma idle_files_ok:
  assumes "idle_files ps s" and "kmem_hist kend (kpages s) out"
  shows "sys_ok kend (ps, s)"
proof -
  obtain free where free: "kmem_rep kend (kpages s) free" using kmem_hist_split [OF assms(2)] by blast
  let ?f = "ftable s ! 0"
  have rep: "ftable s = replicate NFILE ?f" using assms(1) by (simp add: idle_files_def)
  have len: "length (ftable s) = NFILE" by (subst rep) simp
  have f: "fref ?f = 0" "ftype ?f = FD_NONE" "pipes s = Map.empty" "\<forall>p \<in> set ps. ufd p = replicate NOFILE None"
    using assms(1) by (auto simp: idle_files_def)
  have all: "\<forall>f \<in> set (ftable s). fref f = 0 \<and> ftype f = FD_NONE" using f by (subst rep) simp
  then have i: "fref (ftable s ! i) = 0 \<and> ftype (ftable s ! i) = FD_NONE" if "i < NFILE" for i using that len by simp
  have ends: "\<not> is_end s i a w" for i a w using i [of i] len by (auto simp: is_end_def)
  have "pipes_ok kend s" unfolding pipes_ok_def
  proof (intro conjI)
    show "counts_ok s" using all len by (simp add: counts_ok_def)
    show "\<exists>ps. kmem_rep kend (kpages s) ps \<and> (\<forall>a \<in> dom (pipes s). page_ok kend a \<and> a \<notin> set ps)" using free f(3) by auto
  qed (use ends f(3) in simp_all)
  moreover have "refs ps i = 0" for i
    using f(4) by (auto simp: refs_def count_list_0_iff)
  then have "refs_ok ps s" using i f len by (simp add: refs_ok_def fds_ok_def)
  ultimately show ?thesis by (simp add: sys_ok_def)
qed

lemma file_hist_ok: "file_hist kend sw svc ss \<Longrightarrow> sys_ok kend ss"
proof (induction rule: file_hist.induct)
  case (fh_init ps s out)
  then show ?case by (rule idle_files_ok)
next
  case (fh_call ps s q c r p t)
  then show ?case by (intro file_call_keeps)
next
  case (fh_fork ps s me np fs t)
  then show ?case by (intro fork_files_keep)
next
  case (fh_exit ps s me t)
  then show ?case by (intro exit_files_keep)
next
  case (fh_user ps s q p)
  show ?case by (rule sys_ok_fs [OF fh_user.IH fh_user.hyps(2,3) fs_onlyI(1)])
next
  case (fh_resume ps s a pp kd addr n i oc ch pq)
  note e = pipewrite_from_ends [OF fh_resume.hyps(3)]
  show ?case
    using sys_okD(2) [OF fh_resume.IH] pipes_ok_use [OF sys_okD(1) [OF fh_resume.IH] fh_resume.hyps(2), of pq] e by (simp add: sys_ok_def refs_ok_frame)
next
  case (fh_fs ps s x)
  then show ?case by (simp add: sys_ok_def pipes_ok_fsys refs_ok_frame)
next
  case (fh_kalloc ps s a k)
  obtain free where free: "kmem_rep kend (kpages s) free" using pipes_okD(2) [OF sys_okD(1) [OF fh_kalloc.IH]] by blast
  note pg = pipe_pages [OF fh_kalloc.IH free]
  from kalloc_cases [OF free fh_kalloc.hyps(2)] show ?case
  proof
    assume "free = [] \<and> a = 0 \<and> k = kpages s"
    then show ?thesis using fh_kalloc.IH by simp
  next
    assume "\<exists>qs. free = a # qs \<and> a \<noteq> 0 \<and> page_ok kend a \<and> kmem_rep kend k qs \<and> mem k = mem (kpages s)"
    then obtain qs where "free = a # qs" "kmem_rep kend k qs" by blast
    then show ?thesis using pg by (intro sys_ok_kpages [OF fh_kalloc.IH, of k qs]) auto
  qed
next
  case (fh_kfree ps s a free k)
  note pg = pipe_pages [OF fh_kfree.IH fh_kfree.hyps(3)]
  have pa: "page_ok kend a" using kfree_panics [of kend a "kpages s"] fh_kfree.hyps(5) by auto
  then have "kmem_rep kend k (a # free)" using kfree_rep [OF fh_kfree.hyps(3) pa fh_kfree.hyps(4)] fh_kfree.hyps(5) by auto
  then show ?case by (rule sys_ok_kpages [OF fh_kfree.IH]) (use pg fh_kfree.hyps(2) in auto)
next
  case (fh_store ps s free a w)
  show ?case
    by (rule sys_ok_kpages [OF fh_store.IH kmem_rep_write [OF fh_store.hyps(2,3)] pipe_pages [OF fh_store.IH fh_store.hyps(2)]])
qed

subsection \<open>The end of a pipe\<close>

lemma fileclose_pipe:
  assumes ok: "pipes_ok kend s" and i: "i < NFILE" "1 \<le> fref (ftable s ! i)" "ftype (ftable s ! i) = FD_PIPE"
  defines "a \<equiv> fpipe (ftable s ! i)" and "w \<equiv> fwritable (ftable s ! i)"
  shows "\<exists>p t. pipes s a = Some p \<and> end_open w p \<and> fileclose kend i s = Inr t \<and> pipes_ok kend t
     \<and> (if fref (ftable s ! i) = 1 \<and> \<not> end_open (\<not> w) p
        then pipes t a = None \<and> (\<exists>free. kmem_rep kend (kpages t) (a # free))
        else kpages t = kpages s \<and> (\<exists>p1. pipes t a = Some p1 \<and> end_open (\<not> w) p1 = end_open (\<not> w) p
          \<and> (end_open w p1 \<longleftrightarrow> fref (ftable s ! i) \<noteq> 1)))"
proof -
  have len: "length (ftable s) = NFILE" using pipes_okD(1) [OF ok] by (simp add: counts_ok_def)
  have e: "is_end s i a w" using i len by (simp add: is_end_def a_def w_def)
  obtain p where p: "pipes s a = Some p" "end_open w p" using pipes_okD(3) [OF ok] e by blast
  show ?thesis
  proof (cases "fref (ftable s ! i) = 1")
    case False
    then have c: "fileclose kend i s = Inr (upd_file i (\<lambda>f. f\<lparr>fref := fref f - 1\<rparr>) s)" using i(2) by (simp add: fileclose_def)
    show ?thesis using p False c fileclose_ok [OF ok i(1) c] by simp
  next
    case True
    define s1 where "s1 = upd_file i (\<lambda>f. f\<lparr>fref := 0, ftype := FD_NONE\<rparr>) s"
    obtain t where t: "close_pipe kend a w s1 = Inr t" "pipes_ok kend t" using close_last_pipe [OF ok e] unfolding s1_def by blast
    have c: "fileclose kend i s = Inr t" using t(1) True i(3) by (simp add: fileclose_def a_def w_def s1_def)
    obtain both ch q where pc: "pipeclose p w = (both, ch, q)" by (cases "pipeclose p w")
    note q = end_open_set [OF pc]
    obtain free where free: "kmem_rep kend (kpages s) free" "page_ok kend a \<and> a \<notin> set free"
      using pipes_okD(2) [OF ok] p(1) by blast
    show ?thesis
    proof (cases both)
      case both: True
      obtain k where k: "kfree kend a (kpages s) = Inr k" "kmem_rep kend k (a # free)"
        using kfree_rep [OF free(1) free(2) [THEN conjunct1] free(2) [THEN conjunct2]] by blast
      have "pipes t a = None" "kpages t = k" using t(1) p(1) pc both k(1) by (auto simp: close_pipe_def s1_def)
      moreover have "\<not> end_open (\<not> w) p" using q [of w] both by blast
      ultimately show ?thesis using p c t(2) k(2) True by (intro exI [of _ p] exI [of _ t]) auto
    next
      case False
      have u: "pipes t a = Some q" "kpages t = kpages s" using t(1) p(1) pc False by (auto simp: close_pipe_def s1_def)
      have o: "end_open (\<not> w) p" using q [of w] False by blast
      have "end_open (\<not> w) q = end_open (\<not> w) p" "\<not> end_open w q" using q [of "\<not> w"] q [of w] by (cases w; simp)+
      then show ?thesis using p c t(2) True u o by (intro exI [of _ p] exI [of _ t]) (simp add: exI [of _ q])
    qed
  qed
qed

lemma pipe_returns:
  assumes ok: "sys_ok kend (ps, s)" and q: "q < length ps"
  shows "\<exists>r y. sys_pipe kend page (ps ! q, s) = Inr (r, y)"
proof (cases "arg_ptr (ps ! q) 0 8")
  case (Some a)
  obtain res s1 where pa: "pipealloc kend page s = Inr (res, s1)" "pipes_ok kend s1" "pipealloc_result s res s1"
    using pipealloc_ok [OF sys_okD(1) [OF ok]] by blast
  show ?thesis
  proof (cases res)
    case None
    then show ?thesis using Some pa(1) by (simp add: sys_pipe_def)
  next
    case res: (Some w)
    obtain i j where w: "res = Some (i, j)" using res by (cases w) simp
    then have ij: "i \<noteq> j" "i < NFILE" "j < NFILE" "ref_type s1 i = (1, FD_PIPE)" "ref_type s1 j = (1, FD_PIPE)" "length (ftable s1) = NFILE"
      using pa(3) by (simp_all add: pipealloc_result_def)
    have "1 \<le> fref (ftable s1 ! i)" "ftype (ftable s1 ! i) = FD_PIPE" using ij(4) by (simp_all add: ref_type_def)
    then obtain u where u: "fileclose kend i s1 = Inr u" "pipes_ok kend u" using fileclose_pipe [OF pa(2) ij(2)] by blast
    have "ref_type u j = (1, FD_PIPE)" using fileclose_ref_type [OF u(1)] ij by auto
    then have "1 \<le> fref (ftable u ! j)" "ftype (ftable u ! j) = FD_PIPE" by (simp_all add: ref_type_def)
    then obtain v where v: "fileclose kend j u = Inr v" using fileclose_pipe [OF u(2) ij(3)] by blast
    have f: "\<exists>r y. pipe_fail kend fd i j (p, s1) = Inr (r, y)" for fd p using u v by (simp add: pipe_fail_def)
    show ?thesis using Some pa(1) w f by (auto simp: sys_pipe_def split: option.splits)
  qed
qed (simp add: sys_pipe_def)

lemma dup_returns:
  assumes ok: "sys_ok kend (ps, s)" and q: "q < length ps"
  shows "\<exists>r y. sys_dup (ps ! q, s) = Inr (r, y)"
proof (cases "argfd (ps ! q) 0")
  case (Some y)
  obtain fd f where a: "argfd (ps ! q) 0 = Some (fd, f)" using Some by (cases y) simp
  then have "1 \<le> fref (ftable s ! f)" by (rule argfd_file(4) [OF ok q])
  then show ?thesis using a by (auto simp: sys_dup_def filedup_def split: option.splits)
qed (simp add: sys_dup_def)

lemma pipe_calls_return:
  assumes ok: "sys_ok kend (ps, s)" and q: "q < length ps" and a: "argfd (ps ! q) 0 = Some (fd, f)" and p: "ftype (ftable s ! f) = FD_PIPE"
  shows "\<exists>r y. sys_read sw (ps ! q, s) = Inr (r, y)" and "\<exists>r y. sys_write sw (ps ! q, s) = Inr (r, y)"
    and "\<exists>r y. sys_close kend (ps ! q, s) = Inr (r, y)"
proof -
  note f = argfd_file [OF ok q a]
  obtain pp t where pp: "pipes s (fpipe (ftable s ! f)) = Some pp" "fileclose kend f s = Inr t"
    using fileclose_pipe [OF sys_okD(1) [OF ok] f(3,4) p] by blast
  have "\<exists>r y. fileread sw kd f n s = Inr (r, y)" for kd n using p pp by (auto simp: fileread_def Let_def split: prod.splits)
  then show "\<exists>r y. sys_read sw (ps ! q, s) = Inr (r, y)" using a
    by (auto simp: sys_read_def bindE_def split: option.splits sum.splits prod.splits) (metis Inl_Inr_False)+
  have "\<exists>r y. filewrite sw kd f m ad n s = Inr (r, y)" for kd m ad n using p pp by (auto simp: filewrite_def Let_def split: prod.splits)
  then show "\<exists>r y. sys_write sw (ps ! q, s) = Inr (r, y)" using a
    by (auto simp: sys_write_def bindE_def split: option.splits sum.splits prod.splits) (metis Inl_Inr_False)+
  show "\<exists>r y. sys_close kend (ps ! q, s) = Inr (r, y)" using a pp by (simp add: sys_close_def)
qed

subsection \<open>Properties\<close>

text \<open>A process and a file table for the witnesses, and the state after the process has made a pipe.\<close>

definition first_user :: uproc where
  "first_user = \<lparr>ufd = replicate NOFILE None, ucwd = 0, umemory = (\<lambda>a. 0), usize = 4096, uesp = 0, ukilled = False\<rparr>"

definition no_file :: kfile where
  "no_file = \<lparr>ftype = FD_NONE, fref = 0, freadable = False, fwritable = False, fpipe = 0, fip = 0, foff = 0\<rparr>"

definition boot_files :: "'w fs \<Rightarrow> kmem \<Rightarrow> 'w files" where
  "boot_files x k = \<lparr>fsys = x, ftable = replicate NFILE no_file, pipes = Map.empty, kpages = k, pwoken = []\<rparr>"

lemma boot_files_hist:
  "\<exists>k p qs. kmem_rep 0xFFF000 k (p # qs) \<and> file_hist 0xFFF000 sw svc ([first_user], boot_files x k)"
proof -
  obtain k0 :: kmem where "freelist k0 = 0" by (metis kmem.select_convs(2))
  then obtain k ps where k: "kinit 0xFFF000 k0 = Inr k" "kmem_rep 0xFFF000 k ps" "set ps = {q. page_ok 0xFFF000 q}"
    using kinit_rep [of "0xFFF000" k0] by (auto simp: PHYSTOP_def)
  have h: "kmem_hist 0xFFF000 k {}" using kh_init [of "0xFFF000" k0 k] k(1) \<open>freelist k0 = 0\<close> by (simp add: PHYSTOP_def)
  have "page_ok 0xFFF000 0xFFF000" by (simp add: page_ok_uint)
  then obtain p qs where "ps = p # qs" using k(3) by (cases ps) auto
  moreover have "idle_files [first_user] (boot_files x k)" by (simp add: idle_files_def boot_files_def first_user_def no_file_def NFILE_def)
  then have "file_hist 0xFFF000 sw svc ([first_user], boot_files x k)" using h by (intro fh_init) (simp_all add: boot_files_def)
  ultimately show ?thesis using k(2) by blast
qed

lemma pipe_made:
  "\<exists>p t. file_hist 0xFFF000 sw svc ([p], t) \<and> ufd p = Some 0 # Some 1 # replicate 14 None \<and> ftype (ftable t ! 1) = FD_PIPE \<and> argfd p 0 = Some (1, 1)"
proof -
  fix x :: "'a fs"
  obtain k a qs where k: "kmem_rep 0xFFF000 k (a # qs)" and h: "file_hist 0xFFF000 sw svc ([first_user], boot_files x k)"
    using boot_files_hist by blast
  obtain k1 where k1: "kalloc k = (a, k1)" using kalloc_rep_Cons [OF k] by blast
  have "a \<noteq> 0" using kalloc_cases [OF k k1] by auto
  define f where "f w = no_file\<lparr>ftype := FD_PIPE, fref := 1, freadable := \<not> w, fwritable := w, fpipe := a\<rparr>" for w
  define t where "t = \<lparr>fsys = x, ftable = f False # f True # replicate 98 no_file, pipes = Map.empty(a := Some (pipe_new [])), kpages = k1, pwoken = []\<rparr>"
  have n: "replicate NFILE no_file = no_file # no_file # replicate 98 no_file" by (simp add: NFILE_def numeral_eq_Suc)
  have pa: "pipealloc 0xFFF000 [] (boot_files x k) = Inr (Some (0, 1), t)"
    using k1 \<open>a \<noteq> 0\<close> unfolding boot_files_def n
    by (simp add: pipealloc_def filealloc_def upd_file_def no_file_def f_def t_def)
  have fd: "replicate NOFILE None = None # None # replicate 14 None" by (simp add: NOFILE_def numeral_eq_Suc)
  have arg: "arg_ptr first_user 0 8 = Some 0" by (simp add: first_user_def argptr_def argint_def fetchint_def umem_word_def word32_def)
  define p where "p = store_user 4 (le32 1) (store_user 0 (le32 0) (first_user\<lparr>ufd := Some 0 # Some 1 # replicate 14 None\<rparr>))"
  have "sys_pipe 0xFFF000 [] (first_user, boot_files x k) = Inr (0, (p, t))"
    using pa arg by (simp add: sys_pipe_def fdalloc_def first_user_def fd p_def)
  then have "file_call 0xFFF000 sw (CallPipe []) ([first_user] ! 0, boot_files x k) = Inr (Ret 0, (p, t))" by (simp add: returns_def)
  from fh_call [OF h _ this] have "file_hist 0xFFF000 sw svc ([p], t)" by simp
  moreover have "ufd p = Some 0 # Some 1 # replicate 14 None" by (simp add: p_def)
  moreover have "argfd p 0 = Some (1, 1)"
    by (simp add: p_def argfd_def argint_def fetchint_def store_user_def first_user_def umem_word_def NOFILE_def word32_def le32_def)
  ultimately show ?thesis by (intro exI [of _ p] exI [of _ t]) (simp add: t_def f_def)
qed

text \<open>C7: In every history of the file system calls, of \<open>fork\<close> and of \<open>exit\<close>, the reference count of a file is the
  number of descriptors of all processes that name it, and a file has a type exactly while it is referenced.\<close>

theorem references_are_descriptors:
  assumes "file_hist kend sw svc (ps, s)" and "i < NFILE"
  shows "fref (ftable s ! i) = int (refs ps i) \<and> (fref (ftable s ! i) = 0 \<longleftrightarrow> ftype (ftable s ! i) = FD_NONE)"
  using refs_okD [OF sys_okD(2) [OF file_hist_ok [OF assms(1)]] assms(2)] by blast

theorem references_are_descriptors_witness:
  "\<exists>sw svc p t. file_hist 0xFFF000 sw svc ([p], t) \<and> fref (ftable t ! 1) = int (refs [p] 1) \<and> refs [p] 1 = 1"
proof -
  fix sw :: "'a devsw" and svc :: "'a files services"
  obtain p t where h: "file_hist 0xFFF000 sw svc ([p], t)" and p: "ufd p = Some 0 # Some 1 # replicate 14 None"
    using pipe_made by blast
  have "count_list (replicate 14 (None :: nat option)) (Some 1) = 0" by (simp add: count_list_0_iff)
  then have "refs [p] 1 = 1" by (simp add: refs_def p)
  moreover have "fref (ftable t ! 1) = int (refs [p] 1)"
    using references_are_descriptors [OF h, of 1] by (simp add: NFILE_def)
  ultimately show ?thesis using h by blast
qed

text \<open>C8: Through every such history, closing an end of a pipe succeeds; the page of the pipe goes back to the
  free list exactly when the last descriptor of its second end is closed, and until then the pipe stays in
  its page with the other end as it was.\<close>

theorem pipe_page_freed_once:
  assumes "file_hist kend sw svc (ps, s)" and "q < length ps" and "argfd (ps ! q) 0 = Some (fd, f)" and "ftype (ftable s ! f) = FD_PIPE"
  defines "a \<equiv> fpipe (ftable s ! f)" and "w \<equiv> fwritable (ftable s ! f)"
  shows "\<exists>p t. pipes s a = Some p \<and> end_open w p \<and> sys_close kend (ps ! q, s) = Inr (0, ((ps ! q)\<lparr>ufd := (ufd (ps ! q))[fd := None]\<rparr>, t))
     \<and> (if refs ps f = 1 \<and> \<not> end_open (\<not> w) p
        then pipes t a = None \<and> (\<exists>free. kmem_rep kend (kpages t) (a # free))
        else kpages t = kpages s \<and> (\<exists>p1. pipes t a = Some p1 \<and> end_open (\<not> w) p1 = end_open (\<not> w) p
          \<and> (end_open w p1 \<longleftrightarrow> refs ps f \<noteq> 1)))"
proof -
  note ok = file_hist_ok [OF assms(1)]
  note f = argfd_file [OF ok assms(2,3)]
  have r: "fref (ftable s ! f) = 1 \<longleftrightarrow> refs ps f = 1" using refs_okD(1) [OF sys_okD(2) [OF ok] f(3)] by simp
  obtain p t where c: "pipes s a = Some p" "end_open w p" "fileclose kend f s = Inr t"
      "if refs ps f = 1 \<and> \<not> end_open (\<not> w) p then pipes t a = None \<and> (\<exists>free. kmem_rep kend (kpages t) (a # free))
        else kpages t = kpages s \<and> (\<exists>p1. pipes t a = Some p1 \<and> end_open (\<not> w) p1 = end_open (\<not> w) p \<and> (end_open w p1 \<longleftrightarrow> refs ps f \<noteq> 1))"
    using fileclose_pipe [OF sys_okD(1) [OF ok] f(3,4) assms(4)] unfolding a_def w_def r by blast
  have "sys_close kend (ps ! q, s) = Inr (0, ((ps ! q)\<lparr>ufd := (ufd (ps ! q))[fd := None]\<rparr>, t))"
    using c(3) assms(3) by (simp add: sys_close_def)
  then show ?thesis using c by blast
qed

theorem pipe_page_freed_once_witness:
  "\<exists>sw svc p t r. file_hist 0xFFF000 sw svc ([p], t) \<and> sys_close 0xFFF000 (p, t) = Inr r"
proof -
  fix sw :: "'a devsw" and svc :: "'a files services"
  obtain p t where h: "file_hist 0xFFF000 sw svc ([p], t)" "ftype (ftable t ! 1) = FD_PIPE" "argfd p 0 = Some (1, 1)"
    using pipe_made by blast
  then have "\<exists>r. sys_close 0xFFF000 (p, t) = Inr r" using pipe_page_freed_once [OF h(1), of 0 1 1] by auto
  then show ?thesis using h(1) by blast
qed

text \<open>In every such history \<open>dup\<close> and \<open>pipe\<close> return, and so do \<open>read\<close>, \<open>write\<close> and \<open>close\<close> on a descriptor of a
  pipe: none panics and none uses a pipe that is gone.\<close>

theorem pipe_calls_never_panic:
  assumes "file_hist kend sw svc (ps, s)" and "q < length ps" and "argfd (ps ! q) 0 = Some (fd, f)" and "ftype (ftable s ! f) = FD_PIPE"
    and "c \<in> {CallDup, CallPipe page, CallRead, CallWrite, CallClose}"
  shows "\<exists>r y. file_call kend sw c (ps ! q, s) = Inr (r, y)"
proof -
  note ok = file_hist_ok [OF assms(1)]
  note all = dup_returns [OF ok assms(2)] pipe_returns [OF ok assms(2), of page] pipe_calls_return(1,2) [OF ok assms(2-4), of sw]
    pipe_calls_return(3) [OF ok assms(2-4)]
  show ?thesis using assms(5) all by (auto simp: returns_Inr)
qed

theorem pipe_calls_never_panic_witness:
  "\<exists>sw svc p t r y. file_hist 0xFFF000 sw svc ([p], t) \<and> file_call 0xFFF000 sw CallWrite (p, t) = Inr (r, y)"
proof -
  fix sw :: "'a devsw" and svc :: "'a files services"
  obtain p t where h: "file_hist 0xFFF000 sw svc ([p], t)" "ftype (ftable t ! 1) = FD_PIPE" "argfd p 0 = Some (1, 1)"
    using pipe_made by blast
  then have "\<exists>r y. file_call 0xFFF000 sw CallWrite (p, t) = Inr (r, y)" using pipe_calls_never_panic [OF h(1), of 0 1 1 CallWrite "[]"] by simp
  then show ?thesis using h(1) by blast
qed

end
