(* ===== verification/Umalloc.thy ===== *)
theory Umalloc
  imports Prelude
begin

text \<open>
  The memory allocator of user programs, \<open>user/umalloc.c\<close>: a circular list of free blocks in the order of
  their addresses, through headers of 8 bytes. \<open>hptr\<close> and \<open>hsize\<close> are the two fields of a header by its
  address; sizes count headers. \<open>base\<close> is the address of the static first header. The break of the process
  is \<open>brk\<close>, and \<open>grow b n\<close> is the new break when the kernel grants \<open>sbrk(n)\<close> at the break \<open>b\<close>. Loops along the list are
  partial functions: \<open>None\<close> is a loop that does not end.
\<close>

record uheap =
  hptr :: "u32 \<Rightarrow> u32"
  hsize :: "u32 \<Rightarrow> u32"
  freep :: u32
  brk :: u32

definition set_ptr :: "u32 \<Rightarrow> u32 \<Rightarrow> uheap \<Rightarrow> uheap" where
  "set_ptr a v h = h\<lparr>hptr := (hptr h)(a := v)\<rparr>"

definition set_size :: "u32 \<Rightarrow> u32 \<Rightarrow> uheap \<Rightarrow> uheap" where
  "set_size a v h = h\<lparr>hsize := (hsize h)(a := v)\<rparr>"

text \<open>\<open>p + p->s.size\<close> in units of headers.\<close>

definition next_to :: "uheap \<Rightarrow> u32 \<Rightarrow> u32" where
  "next_to h p = p + 8 * hsize h p"

text \<open>The loop of \<open>free\<close> that finds the place of \<open>bp\<close>.\<close>

partial_function (option) free_scan :: "u32 \<Rightarrow> u32 \<Rightarrow> uheap \<Rightarrow> u32 option" where
  "free_scan bp p h =
     (if bp > p \<and> bp < hptr h p then Some p
      else if p \<ge> hptr h p \<and> (bp > p \<or> bp < hptr h p) then Some p
      else free_scan bp (hptr h p) h)"

definition join_upper :: "u32 \<Rightarrow> u32 \<Rightarrow> uheap \<Rightarrow> uheap" where
  "join_upper bp p h =
     (let n = hptr h p in
      if next_to h bp = n then set_ptr bp (hptr h n) (set_size bp (hsize h bp + hsize h n) h)
      else set_ptr bp n h)"

definition join_lower :: "u32 \<Rightarrow> u32 \<Rightarrow> uheap \<Rightarrow> uheap" where
  "join_lower bp p h =
     (if next_to h p = bp then set_ptr p (hptr h bp) (set_size p (hsize h p + hsize h bp) h)
      else set_ptr p bp h)"

definition free_block :: "u32 \<Rightarrow> uheap \<Rightarrow> uheap option" where
  "free_block ap h =
     (let bp = ap - 8 in
      map_option (\<lambda>p. (join_lower bp p (join_upper bp p h))\<lparr>freep := p\<rparr>) (free_scan bp (freep h) h))"

definition sbrk :: "(u32 \<Rightarrow> u32 \<Rightarrow> u32 option) \<Rightarrow> u32 \<Rightarrow> uheap \<Rightarrow> u32 \<times> uheap" where
  "sbrk grow n h = (case grow (brk h) n of None \<Rightarrow> (-1, h) | Some b \<Rightarrow> (brk h, h\<lparr>brk := b\<rparr>))"

definition morecore :: "(u32 \<Rightarrow> u32 \<Rightarrow> u32 option) \<Rightarrow> u32 \<Rightarrow> uheap \<Rightarrow> (u32 \<times> uheap) option" where
  "morecore grow nu0 h =
     (let nu = (if nu0 < 4096 then 4096 else nu0); (p, h1) = sbrk grow (nu * 8) h in
      if p = -1 then Some (0, h1)
      else map_option (\<lambda>h2. (freep h2, h2)) (free_block (p + 8) (set_size p nu h1)))"

text \<open>The block of \<open>n\<close> units taken from the free block \<open>p\<close> behind \<open>prevp\<close>.\<close>

definition take_block :: "u32 \<Rightarrow> u32 \<Rightarrow> u32 \<Rightarrow> uheap \<Rightarrow> u32 \<times> uheap" where
  "take_block n prevp p h =
     (if hsize h p = n then (p + 8, (set_ptr prevp (hptr h p) h)\<lparr>freep := prevp\<rparr>)
      else
        (let h1 = set_size p (hsize h p - n) h; q = next_to h1 p in
         (q + 8, (set_size q n h1)\<lparr>freep := prevp\<rparr>)))"

partial_function (option) malloc_loop :: "(u32 \<Rightarrow> u32 \<Rightarrow> u32 option) \<Rightarrow> u32 \<Rightarrow> u32 \<Rightarrow> u32 \<Rightarrow> uheap \<Rightarrow> (u32 \<times> uheap) option" where
  "malloc_loop grow n prevp p h =
     (if hsize h p \<ge> n then Some (take_block n prevp p h)
      else if p = freep h then
        Option.bind (morecore grow n h) (\<lambda>(q, h1). if q = 0 then Some (0, h1) else malloc_loop grow n q (hptr h1 q) h1)
      else malloc_loop grow n p (hptr h p) h)"

definition units :: "u32 \<Rightarrow> u32" where
  "units nbytes = (nbytes + 8 - 1) div 8 + 1"

definition malloc :: "(u32 \<Rightarrow> u32 \<Rightarrow> u32 option) \<Rightarrow> u32 \<Rightarrow> u32 \<Rightarrow> uheap \<Rightarrow> (u32 \<times> uheap) option" where
  "malloc grow base nbytes h =
     (let h1 = (if freep h = 0 then (set_size base 0 (set_ptr base base h))\<lparr>freep := base\<rparr> else h)
      in malloc_loop grow (units nbytes) (freep h1) (hptr h1 (freep h1)) h1)"

subsection \<open>The list of free blocks\<close>

text \<open>The list \<open>xs\<close> of headers leads from \<open>p\<close> to \<open>q\<close>.\<close>

fun linked :: "uheap \<Rightarrow> u32 \<Rightarrow> u32 list \<Rightarrow> u32 \<Rightarrow> bool" where
  "linked h p [] q = (p = q)"
| "linked h p (x # xs) q = (p = x \<and> linked h (hptr h x) xs q)"

lemma linked_append: "linked h p (xs @ ys) q \<longleftrightarrow> (\<exists>m. linked h p xs m \<and> linked h m ys q)"
  by (induction xs arbitrary: p) auto

lemma linked_cong: "(\<And>x. x \<in> set xs \<Longrightarrow> hptr g x = hptr h x) \<Longrightarrow> linked g p xs q = linked h p xs q"
  by (induction xs arbitrary: p) auto

definition blk_end :: "uheap \<Rightarrow> u32 \<Rightarrow> nat" where
  "blk_end h a = unat a + 8 * unat (hsize h a)"

definition apart :: "uheap \<Rightarrow> u32 \<Rightarrow> u32 \<Rightarrow> bool" where
  "apart h a b = (blk_end h a \<le> unat b \<or> blk_end h b \<le> unat a)"

text \<open>Blocks that are not empty, lie between the first header and the break and do not overlap.\<close>

definition blocks_ok :: "u32 \<Rightarrow> uheap \<Rightarrow> u32 set \<Rightarrow> bool" where
  "blocks_ok base h B = (unat base + 8 \<le> unat (brk h)
     \<and> (\<forall>a \<in> B. unat base + 8 \<le> unat a \<and> 0 < hsize h a \<and> blk_end h a \<le> unat (brk h))
     \<and> (\<forall>a \<in> B. \<forall>b \<in> B. a \<noteq> b \<longrightarrow> apart h a b))"

definition chain :: "u32 \<Rightarrow> uheap \<Rightarrow> u32 list \<Rightarrow> bool" where
  "chain base h fs = (linked h base (base # fs) base \<and> sorted_wrt (<) (base # fs) \<and> hsize h base = 0
     \<and> freep h \<in> set (base # fs))"

text \<open>\<open>A\<close> are the headers of the blocks that \<open>malloc\<close> has given out, \<open>fs\<close> those of the free ones.\<close>

definition heap_rep :: "u32 \<Rightarrow> uheap \<Rightarrow> u32 list \<Rightarrow> u32 set \<Rightarrow> bool" where
  "heap_rep base h fs A = (base \<noteq> 0 \<and> chain base h fs \<and> blocks_ok base h (set fs \<union> A) \<and> set fs \<inter> A = {})"

subsection \<open>Finding the place of a block\<close>

lemma linked_split:
  assumes "linked h base (xs @ t # ys) base"
  shows "hptr h t = hd (ys @ [base])" and "linked h t (t # ys @ xs) t"
proof -
  have a: "linked h base xs t" "linked h (hptr h t) ys base" using assms by (auto simp: linked_append)
  then show "hptr h t = hd (ys @ [base])" by (cases ys) auto
  show "linked h t (t # ys @ xs) t" using a by (auto simp: linked_append)
qed

lemma free_scan_hit:
  "(bp > p \<and> bp < hptr h p) \<or> (p \<ge> hptr h p \<and> (bp > p \<or> bp < hptr h p)) \<Longrightarrow> free_scan bp p h = Some p"
  by (subst free_scan.simps) auto

lemma free_scan_miss:
  "\<not> ((bp > p \<and> bp < hptr h p) \<or> (p \<ge> hptr h p \<and> (bp > p \<or> bp < hptr h p))) \<Longrightarrow> free_scan bp p h = free_scan bp (hptr h p) h"
  by (subst free_scan.simps) auto

text \<open>On the circle \<open>xs\<close> from \<open>p\<close> the scan stops at \<open>t\<close>, the only entry that passes the test.\<close>

lemma free_scan_finds:
  assumes "linked h p xs q" and "t \<in> set xs"
    and "\<And>x. x \<in> set xs \<Longrightarrow> ((bp > x \<and> bp < hptr h x) \<or> (x \<ge> hptr h x \<and> (bp > x \<or> bp < hptr h x))) = (x = t)"
  shows "free_scan bp p h = Some t"
  using assms
proof (induction xs arbitrary: p)
  case (Cons x xs)
  then have p: "p = x" "linked h (hptr h x) xs q" by simp_all
  show ?case
  proof (cases "x = t")
    case True
    then show ?thesis using p(1) Cons.prems(3) [of x] free_scan_hit by simp
  next
    case False
    have "free_scan bp x h = free_scan bp (hptr h x) h" by (rule free_scan_miss) (use False Cons.prems(3) [of x] in simp)
    then show ?thesis using Cons.IH [OF p(2)] Cons.prems(2,3) False p(1) by simp
  qed
qed simp

lemma sorted_last_le: "sorted_wrt (<) (x # xs) \<Longrightarrow> y \<in> set (x # xs) \<Longrightarrow> (x :: u32) \<le> y"
  by auto

lemma append_eq_append_conv_distinct:
  "us @ x # vs = ps @ x # ws \<Longrightarrow> distinct (us @ x # vs) \<Longrightarrow> vs = ws"
proof (induction us arbitrary: ps)
  case Nil
  then show ?case by (cases ps) auto
next
  case (Cons a us)
  show ?case
  proof (cases ps)
    case Nil
    then show ?thesis using Cons.prems by auto
  next
    case (Cons b qs)
    then show ?thesis using Cons.IH [of qs] Cons.prems by simp
  qed
qed

lemma scan_test:
  assumes l: "linked h base (base # fs) base" and so: "sorted_wrt (<) (base # fs)" and s: "base # fs = xs @ t # ys"
    and bp: "t < bp" "\<And>y. y \<in> set ys \<Longrightarrow> bp < y" and x: "x \<in> set (base # fs)"
  shows "((bp > x \<and> bp < hptr h x) \<or> (x \<ge> hptr h x \<and> (bp > x \<or> bp < hptr h x))) = (x = t)"
proof -
  obtain us vs where u: "base # fs = us @ x # vs" using x by (meson split_list)
  have nx: "hptr h x = hd (vs @ [base])" by (rule linked_split(1)) (use l u in simp)
  have base: "base \<le> y" if "y \<in> set (base # fs)" for y using sorted_last_le [OF so that] .
  have bb: "base < bp" using base [of t] bp(1) s by (auto intro: order_le_less_trans)
  have lt: "x < v" if "v \<in> set vs" for v using so that unfolding u sorted_wrt_append by auto
  have side: "y < bp \<longleftrightarrow> y \<in> set (xs @ [t])" if "y \<in> set (base # fs)" for y
  proof -
    have "y < t" if "y \<in> set xs" for y using so that unfolding s sorted_wrt_append by auto
    then have "y < bp" if "y \<in> set (xs @ [t])" for y using that bp(1) by (auto intro: less_trans)
    moreover have "\<not> y < bp" if "y \<in> set ys" for y using bp(2) [OF that] by auto
    moreover have "y \<in> set (xs @ [t]) \<or> y \<in> set ys" using that s by auto
    ultimately show ?thesis using that s so by (metis bp(2) less_asym)
  qed
  have dist: "distinct (base # fs)" using so strict_sorted_iff [of "base # fs"] by simp
  show ?thesis
  proof (cases vs)
    case Nil
    then have "hptr h x = base" using nx by simp
    moreover have "t = x \<longleftrightarrow> x < bp"
    proof
      assume "x < bp"
      then have "x \<in> set (xs @ [t])" using side x by blast
      then show "t = x"
        using dist s u Nil by (cases ys rule: rev_cases) (auto simp: append_eq_append_conv2)
    qed (use bp in simp)
    ultimately show ?thesis using bb base [OF x] by auto
  next
    case (Cons v vs')
    then have v: "hptr h x = v" "x < v" "v \<in> set (base # fs)" using nx lt u by auto
    have "x < bp \<and> bp < v \<longleftrightarrow> x = t"
    proof
      assume a: "x < bp \<and> bp < v"
      then have xin: "x \<in> set (xs @ [t])" and vn: "v \<notin> set (xs @ [t])" using side x v(3) by (auto dest: less_asym)
      show "x = t"
      proof (rule ccontr)
        assume "x \<noteq> t"
        then have "x \<in> set xs" using xin by simp
        then obtain ps qs where "xs = ps @ x # qs" by (meson split_list)
        then have e: "us @ x # v # vs' = ps @ x # qs @ t # ys" using u Cons s by simp
        moreover have "distinct (us @ x # v # vs')" using dist u Cons by simp
        ultimately have "v # vs' = qs @ t # ys" by (metis append_eq_append_conv_distinct)
        then show False using vn \<open>xs = ps @ x # qs\<close> by (cases qs) auto
      qed
    next
      assume e: "x = t"
      have "us @ x # vs = xs @ t # ys" using u s by simp
      then have "vs = ys" using dist u s e by (metis append_eq_append_conv_distinct)
      then show "x < bp \<and> bp < v" using bp(1) bp(2) [of v] e Cons by auto
    qed
    then show ?thesis using v by auto
  qed
qed

subsection \<open>Joining blocks\<close>

lemma blocks_okD:
  assumes "blocks_ok base h B" and "a \<in> B"
  shows "unat base + 8 \<le> unat a" "0 < hsize h a" "0 < unat (hsize h a)" "blk_end h a \<le> unat (brk h)" "blk_end h a < 2 ^ 32" "base < a" "a \<noteq> base"
    "unat a < blk_end h a"
proof -
  show a: "unat base + 8 \<le> unat a" "0 < hsize h a" "blk_end h a \<le> unat (brk h)" using assms unfolding blocks_ok_def by blast+
  show p: "0 < unat (hsize h a)" using a(2) by (simp add: word_less_nat_alt)
  show "blk_end h a < 2 ^ 32" using a(3) unat_u32_less [of "brk h"] by simp
  show "base < a" using a(1) by (simp add: word_less_nat_alt)
  then show "a \<noteq> base" by simp
  show "unat a < blk_end h a" using p by (simp add: blk_end_def)
qed

lemma blocks_apart: "blocks_ok base h B \<Longrightarrow> a \<in> B \<Longrightarrow> b \<in> B \<Longrightarrow> a \<noteq> b \<Longrightarrow> apart h a b"
  unfolding blocks_ok_def by blast

lemma next_to_iff:
  assumes "blk_end h p < 2 ^ 32"
  shows "next_to h p = q \<longleftrightarrow> blk_end h p = unat q"
proof -
  have "unat (8 * hsize h p) = 8 * unat (hsize h p)"
    using assms by (simp add: blk_end_def unat_word_ariths)
  then have "unat (next_to h p) = blk_end h p"
    using assms by (simp add: next_to_def blk_end_def unat_word_ariths)
  then show ?thesis by (metis word_unat_eq_iff)
qed

lemma blocks_ok_cong:
  "blocks_ok base h B \<Longrightarrow> C \<subseteq> B \<Longrightarrow> (\<And>a. a \<in> C \<Longrightarrow> hsize g a = hsize h a) \<Longrightarrow> brk g = brk h \<Longrightarrow> blocks_ok base g C"
  unfolding blocks_ok_def apart_def blk_end_def by (simp add: subset_iff)

text \<open>Block \<open>a\<close> takes over its upper neighbour \<open>c\<close>.\<close>

lemma merge_size:
  assumes ok: "blocks_ok base h B" and c: "c \<in> B" and e: "blk_end h a = unat c"
  shows "unat (hsize h a + hsize h c) = unat (hsize h a) + unat (hsize h c)"
proof -
  have "8 * (unat (hsize h a) + unat (hsize h c)) \<le> blk_end h c" using e by (simp add: blk_end_def)
  then have "unat (hsize h a) + unat (hsize h c) < 2 ^ 32" using blocks_okD(5) [OF ok c] by simp
  then show ?thesis by (simp add: unat_word_ariths)
qed

lemma merge_size_le:
  assumes "blocks_ok base h B" "c \<in> B" "blk_end h a = unat c"
  shows "hsize h a \<le> hsize h a + hsize h c" "hsize h c \<le> hsize h a + hsize h c"
  by (simp_all add: word_le_nat_alt merge_size [OF assms])

lemma blocks_ok_merge:
  assumes ok: "blocks_ok base h B" and a: "a \<in> B" and c: "c \<in> B" "a \<noteq> c" and e: "blk_end h a = unat c"
    and g: "hsize g a = hsize h a + hsize h c" "\<And>x. x \<noteq> a \<Longrightarrow> hsize g x = hsize h x" "brk g = brk h"
  shows "blocks_ok base g (B - {c})"
proof -
  have s: "blk_end g a = blk_end h c" and pos: "0 < unat (hsize g a)"
  proof -
    have u: "unat (hsize g a) = unat (hsize h a) + unat (hsize h c)" by (simp add: g(1) merge_size [OF ok c(1) e])
    then show "blk_end g a = blk_end h c" using e by (simp add: blk_end_def)
    show "0 < unat (hsize g a)" using u blocks_okD(3) [OF ok a] by simp
  qed
  have same: "blk_end g x = blk_end h x" if "x \<noteq> a" for x using g(2) [OF that] by (simp add: blk_end_def)
  have ap: "apart g a x" if "x \<in> B - {c}" "x \<noteq> a" for x
  proof -
    have x: "x \<in> B" "x \<noteq> c" using that by auto
    note ax = blocks_apart [OF ok a x(1)] and cx = blocks_apart [OF ok c(1) x(1)]
    have "blk_end h a \<le> unat x \<or> blk_end h x \<le> unat a" "blk_end h c \<le> unat x \<or> blk_end h x \<le> unat c"
      using ax cx that x unfolding apart_def by blast+
    then show ?thesis using e s same [OF that(2)] blocks_okD(8) [OF ok x(1)] unfolding apart_def by linarith
  qed
  show ?thesis
    unfolding blocks_ok_def
  proof (intro conjI ballI impI)
    show "unat base + 8 \<le> unat (brk g)" using ok g(3) by (simp add: blocks_ok_def)
    fix x assume x: "x \<in> B - {c}"
    show "unat base + 8 \<le> unat x" using blocks_okD(1) [OF ok] x by blast
    show "0 < hsize g x" using pos g(2) [of x] blocks_okD(2) [OF ok] x by (cases "x = a") (auto simp: word_less_nat_alt)
    show "blk_end g x \<le> unat (brk g)"
      using s same [of x] g(3) blocks_okD(4) [OF ok c(1)] blocks_okD(4) [OF ok, of x] x by (cases "x = a") auto
    fix y assume y: "y \<in> B - {c}" "x \<noteq> y"
    show "apart g x y"
    proof (cases "x = a \<or> y = a")
      case True
      then show ?thesis using ap [of x] ap [of y] x y unfolding apart_def by blast
    next
      case False
      then show ?thesis using blocks_apart [OF ok, of x y] x y same [of x] same [of y] unfolding apart_def by auto
    qed
  qed
qed

subsection \<open>\<open>free\<close>\<close>

lemma sorted_place:
  assumes "sorted_wrt (<) (l :: u32 list)" and "l \<noteq> []" and "hd l < b" and "b \<notin> set l"
  shows "\<exists>xs t ys. l = xs @ t # ys \<and> t < b \<and> (\<forall>y \<in> set ys. b < y) \<and> (\<forall>x \<in> set xs. x < b)"
  using assms
proof (induction l rule: rev_induct)
  case (snoc y l)
  show ?case
  proof (cases "y < b")
    case True
    moreover have "\<forall>x \<in> set l. x < b" using snoc.prems(1) True by (simp add: sorted_wrt_append) (metis less_trans)
    ultimately show ?thesis by (intro exI [of _ l] exI [of _ y] exI [of _ "[]"]) simp
  next
    case False
    then have yb: "b < y" using snoc.prems(4) by auto
    then have l: "l \<noteq> []" using snoc.prems(3) by (cases l) auto
    have "sorted_wrt (<) l" "hd l < b" "b \<notin> set l" using snoc.prems l by (simp_all add: sorted_wrt_append)
    from snoc.IH [OF this(1) l this(2,3)] obtain xs t ys where "l = xs @ t # ys" "t < b" "\<forall>y \<in> set ys. b < y" "\<forall>x \<in> set xs. x < b"
      by blast
    then show ?thesis using yb by (intro exI [of _ xs] exI [of _ t] exI [of _ "ys @ [y]"]) auto
  qed
qed simp

text \<open>After \<open>join_upper\<close> the block points at what follows it, and has taken over a neighbour, if there was one.\<close>

lemma join_upper_ok:
  assumes ok: "blocks_ok base h B" and b: "b \<in> B" and ys: "set ys \<subseteq> B" "b \<notin> set ys" "hptr h t = hd (ys @ [base])" "t \<noteq> b"
    and ly: "linked h (hd (ys @ [base])) ys base" and dist: "distinct ys"
  shows "\<exists>zs. (zs = ys \<or> ys \<noteq> [] \<and> zs = tl ys) \<and> (\<forall>x. x \<noteq> b \<longrightarrow> hptr (join_upper b t h) x = hptr h x \<and> hsize (join_upper b t h) x = hsize h x)
     \<and> brk (join_upper b t h) = brk h \<and> freep (join_upper b t h) = freep h
     \<and> hptr (join_upper b t h) b = hd (zs @ [base]) \<and> linked h (hd (zs @ [base])) zs base
     \<and> blocks_ok base (join_upper b t h) (B - (set ys - set zs)) \<and> hsize h b \<le> hsize (join_upper b t h) b"
proof (cases "next_to h b = hd (ys @ [base])")
  case False
  let ?g = "join_upper b t h"
  have g: "?g = set_ptr b (hd (ys @ [base])) h" using False ys(3) by (simp add: join_upper_def)
  have "blocks_ok base ?g B" by (rule blocks_ok_cong [OF ok]) (simp_all add: g set_ptr_def)
  then show ?thesis using ly by (intro exI [of _ ys]) (simp add: g set_ptr_def)
next
  case True
  let ?g = "join_upper b t h"
  note bb = blocks_okD [OF ok b]
  obtain n zs where y: "ys = n # zs"
    using True next_to_iff [OF bb(5)] bb(1,8) by (cases ys) auto
  have n: "n \<in> B" "n \<noteq> b" using ys y by auto
  have e: "blk_end h b = unat n" using True next_to_iff [OF bb(5)] y by simp
  have g: "?g = set_ptr b (hptr h n) (set_size b (hsize h b + hsize h n) h)" using True ys(3) y by (simp add: join_upper_def)
  have zs: "hptr h n = hd (zs @ [base])" "linked h (hd (zs @ [base])) zs base" using ly y by (cases zs; simp)+
  have "blocks_ok base ?g (B - {n})"
    by (rule blocks_ok_merge [OF ok b n(1) n(2) [symmetric] e]) (simp_all add: g set_ptr_def set_size_def)
  moreover have "set ys - set zs = {n}" using y dist by auto
  ultimately show ?thesis using y zs merge_size_le(1) [OF ok n(1) e]
    by (intro exI [of _ zs]) (simp add: g set_ptr_def set_size_def)
qed

lemma join_lower_ok:
  assumes ok: "blocks_ok base h B" and b: "b \<in> B" and t: "t = base \<and> hsize h base = 0 \<or> t \<in> B" "t \<noteq> b" "t < b"
    and fs: "xs @ [t] = base # us" "b \<notin> set us" "b \<notin> set zs" "t \<notin> set zs" "distinct (xs @ [t])"
    and lx: "linked h base xs t" and lz: "hptr h b = hd (zs @ [base])" "linked h (hd (zs @ [base])) zs base" and disj: "set xs \<inter> set zs = {}"
  shows "\<exists>vs. (vs = us @ b # zs \<or> vs = us @ zs \<and> t \<noteq> base) \<and> linked (join_lower b t h) base (base # vs) base
     \<and> (\<forall>x. x \<noteq> t \<longrightarrow> hsize (join_lower b t h) x = hsize h x) \<and> (t \<noteq> base \<or> hsize (join_lower b t h) base = hsize h base) \<and> brk (join_lower b t h) = brk h
     \<and> blocks_ok base (join_lower b t h) (if b \<in> set vs then B else B - {b}) \<and> (\<exists>x \<in> set vs. hsize h b \<le> hsize (join_lower b t h) x)"
proof (cases "next_to h t = b")
  case False
  let ?g = "join_lower b t h"
  have g: "?g = set_ptr t b h" using False by (simp add: join_lower_def)
  have ok': "blocks_ok base ?g B" by (rule blocks_ok_cong [OF ok]) (simp_all add: g set_ptr_def)
  have "linked ?g base (xs @ [t] @ b # zs) base"
  proof -
    have "linked ?g base xs t = linked h base xs t" by (rule linked_cong) (use fs(5) in \<open>auto simp: g set_ptr_def\<close>)
    moreover have "linked ?g (hd (zs @ [base])) zs base = linked h (hd (zs @ [base])) zs base"
      by (rule linked_cong) (use fs(4) in \<open>auto simp: g set_ptr_def\<close>)
    ultimately show ?thesis using lx lz t(2) by (auto simp: linked_append g set_ptr_def)
  qed
  then have "linked ?g base (base # us @ b # zs) base" using fs(1) by (metis append.assoc append_Cons)
  then show ?thesis using ok' by (intro exI [of _ "us @ b # zs"]) (simp add: g set_ptr_def)
next
  case True
  let ?g = "join_lower b t h"
  have tn: "t \<noteq> base"
  proof
    assume "t = base"
    moreover have "hsize h base = 0 \<or> base \<in> B" using t(1) \<open>t = base\<close> by blast
    moreover have "base \<notin> B" using blocks_okD(7) [OF ok] by blast
    ultimately show False using True t(2) by (simp add: next_to_def)
  qed
  then have tB: "t \<in> B" using t(1) by blast
  have e: "blk_end h t = unat b" using True next_to_iff [OF blocks_okD(5) [OF ok tB]] by simp
  have g: "?g = set_ptr t (hptr h b) (set_size t (hsize h t + hsize h b) h)" using True by (simp add: join_lower_def)
  have ok': "blocks_ok base ?g (B - {b})"
    by (rule blocks_ok_merge [OF ok tB b t(2) e]) (simp_all add: g set_ptr_def set_size_def)
  have "linked ?g base (xs @ [t] @ zs) base"
  proof -
    have "linked ?g base xs t = linked h base xs t" by (rule linked_cong) (use fs(5) in \<open>auto simp: g set_ptr_def set_size_def\<close>)
    moreover have "linked ?g (hd (zs @ [base])) zs base = linked h (hd (zs @ [base])) zs base"
      by (rule linked_cong) (use fs(4) in \<open>auto simp: g set_ptr_def set_size_def\<close>)
    ultimately show ?thesis using lx lz by (auto simp: linked_append g set_ptr_def set_size_def)
  qed
  then have "linked ?g base (base # us @ zs) base" using fs(1) by (metis append.assoc append_Cons)
  moreover have "\<exists>x \<in> set (us @ zs). hsize h b \<le> hsize ?g x"
  proof -
    have "t \<in> set (xs @ [t])" by simp
    then have "t \<in> set us" using tn unfolding fs(1) by simp
    then show ?thesis using merge_size_le(2) [OF ok b e] by (intro bexI [of _ t]) (simp_all add: g set_ptr_def set_size_def)
  qed
  ultimately show ?thesis using ok' tn fs(2,3) by (intro exI [of _ "us @ zs"]) (simp add: g set_ptr_def set_size_def)
qed

lemma so_insert:
  assumes "sorted_wrt (<) (base # us @ ys)" and "xs @ [t] = base # us" and "(t :: u32) < b" "\<forall>y \<in> set ys. b < y"
    and "zs = ys \<or> ys \<noteq> [] \<and> zs = tl ys" and "vs = us @ b # zs \<or> vs = us @ zs \<and> t \<noteq> base"
  shows "sorted_wrt (<) (base # vs)"
proof -
  have s: "sorted_wrt (<) (xs @ [t] @ ys)" using assms(1,2) by (metis append.assoc append_Cons)
  then have xt: "\<forall>x \<in> set (xs @ [t]). x < b" using assms(3) by (auto simp: sorted_wrt_append intro: less_trans)
  have z: "sorted_wrt (<) zs" "set zs \<subseteq> set ys" using assms(5) s by (cases ys; auto simp: sorted_wrt_append)+
  have c: "sorted_wrt (<) (xs @ [t])" "\<forall>x \<in> set (xs @ [t]). \<forall>y \<in> set ys. x < y" using s by (simp_all add: sorted_wrt_append ball_Un)
  have "sorted_wrt (<) ((xs @ [t]) @ b # zs)" "sorted_wrt (<) ((xs @ [t]) @ zs)"
    using c xt z assms(4) by (auto simp: sorted_wrt_append)
  then show ?thesis using assms(2,6) by (metis append_Cons)
qed

lemma free_block_ok:
  assumes rep: "heap_rep base h fs A" and b: "b \<in> A"
  shows "\<exists>g gs. free_block (b + 8) h = Some g \<and> heap_rep base g gs (A - {b}) \<and> (\<forall>a \<in> A - {b}. hsize g a = hsize h a) \<and> brk g = brk h
     \<and> (\<exists>x \<in> set gs. hsize h b \<le> hsize g x)"
proof -
  have ch: "linked h base (base # fs) base" "sorted_wrt (<) (base # fs)" "hsize h base = 0" "freep h \<in> set (base # fs)"
    and ok: "blocks_ok base h (set fs \<union> A)" and disj: "set fs \<inter> A = {}" and b0: "base \<noteq> 0"
    using rep by (simp_all add: heap_rep_def chain_def)
  have bB: "b \<in> set fs \<union> A" using b by simp
  note bb = blocks_okD [OF ok bB]
  have bn: "b \<notin> set (base # fs)" using bb(7) b disj by auto
  have dist: "distinct (base # fs)" using ch(2) strict_sorted_iff [of "base # fs"] by simp
  obtain xs t ys where s: "base # fs = xs @ t # ys" and tb: "t < b" "\<forall>y \<in> set ys. b < y"
    using sorted_place [OF ch(2) _ _ bn] bb(6) by auto
  have scan: "free_scan b (freep h) h = Some t"
  proof -
    obtain us vs where u: "base # fs = us @ freep h # vs" using ch(4) by (meson split_list)
    have lr: "linked h (freep h) (freep h # vs @ us) (freep h)" by (rule linked_split(2)) (use ch(1) u in simp)
    have e: "set (freep h # vs @ us) = set (base # fs)" using u by auto
    show ?thesis
    proof (rule free_scan_finds [OF lr])
      show "t \<in> set (freep h # vs @ us)" unfolding e s by simp
      show "((b > x \<and> b < hptr h x) \<or> (x \<ge> hptr h x \<and> (b > x \<or> b < hptr h x))) = (x = t)" if "x \<in> set (freep h # vs @ us)" for x
        by (rule scan_test [OF ch(1,2) s tb(1) bspec [OF tb(2)]]) (use that e in auto)
    qed
  qed
  have tmem: "t \<in> set (base # fs)" using s by simp
  have base: "base \<notin> set fs" using dist by simp
  obtain us where us: "xs @ [t] = base # us" using s by (cases xs) auto
  then have fs: "fs = us @ ys" using s by (metis append.assoc append_Cons append_Nil list.inject)
  have lk: "linked h base xs t" "linked h (hptr h t) ys base" using ch(1) unfolding s by (auto simp: linked_append)
  have nt: "hptr h t = hd (ys @ [base])" by (rule linked_split(1)) (use ch(1) s in simp)
  let ?h1 = "join_upper b t h"
  have "\<exists>zs. (zs = ys \<or> ys \<noteq> [] \<and> zs = tl ys) \<and> (\<forall>x. x \<noteq> b \<longrightarrow> hptr ?h1 x = hptr h x \<and> hsize ?h1 x = hsize h x)
     \<and> brk ?h1 = brk h \<and> freep ?h1 = freep h \<and> hptr ?h1 b = hd (zs @ [base]) \<and> linked h (hd (zs @ [base])) zs base
     \<and> blocks_ok base ?h1 ((set fs \<union> A) - (set ys - set zs)) \<and> hsize h b \<le> hsize ?h1 b"
    by (rule join_upper_ok [OF ok bB]) (use fs bn nt tb lk(2) dist in \<open>auto\<close>)
  then obtain zs where zs: "zs = ys \<or> ys \<noteq> [] \<and> zs = tl ys" "\<And>x. x \<noteq> b \<Longrightarrow> hptr ?h1 x = hptr h x \<and> hsize ?h1 x = hsize h x"
      "brk ?h1 = brk h" "freep ?h1 = freep h" "hptr ?h1 b = hd (zs @ [base])" "linked h (hd (zs @ [base])) zs base"
      "blocks_ok base ?h1 ((set fs \<union> A) - (set ys - set zs))" "hsize h b \<le> hsize ?h1 b" by blast
  have zsub: "set zs \<subseteq> set ys" using zs(1) by (cases ys) auto
  define B where "B = (set fs \<union> A) - (set ys - set zs)"
  have dx: "distinct (xs @ t # ys)" using dist s by simp
  have "b \<notin> set (xs @ t # ys)" using bn s by simp
  then have bx: "b \<notin> set xs" "b \<notin> set ys" "b \<noteq> t" "b \<notin> set us" using bn fs by auto
  have "t = base \<or> t \<in> set us" using us by (metis last_ConsL last_ConsR last_in_set last_snoc)
  then have tin: "t = base \<and> hsize ?h1 base = 0 \<or> t \<in> B" using ch(3) zs(2) [of base] bb(7) fs dx unfolding B_def by auto
  have "\<exists>vs. (vs = us @ b # zs \<or> vs = us @ zs \<and> t \<noteq> base) \<and> linked (join_lower b t ?h1) base (base # vs) base
     \<and> (\<forall>x. x \<noteq> t \<longrightarrow> hsize (join_lower b t ?h1) x = hsize ?h1 x) \<and> (t \<noteq> base \<or> hsize (join_lower b t ?h1) base = hsize ?h1 base)
     \<and> brk (join_lower b t ?h1) = brk ?h1 \<and> blocks_ok base (join_lower b t ?h1) (if b \<in> set vs then B else B - {b})
     \<and> (\<exists>x \<in> set vs. hsize ?h1 b \<le> hsize (join_lower b t ?h1) x)"
  proof (rule join_lower_ok)
    show "blocks_ok base ?h1 B" using zs(7) by (simp add: B_def)
    show "linked ?h1 base xs t" using lk(1) linked_cong [of xs ?h1 h] zs(2) bx(1) by metis
    show "linked ?h1 (hd (zs @ [base])) zs base" using zs(6) linked_cong [of zs ?h1 h] zs(2) bx(2) zsub by (metis subsetD)
    show "distinct (xs @ [t])" using dx by simp
    show "b \<in> B" using bB bx(2) by (simp add: B_def)
    show "xs @ [t] = base # us" "t = base \<and> hsize ?h1 base = 0 \<or> t \<in> B" by (rule us, rule tin)
    show "b \<notin> set zs" "t \<notin> set zs" "set xs \<inter> set zs = {}" using dx bx(2) zsub by auto
  qed (use bx zs(5) tb(1) in simp_all)
  then obtain vs where vs: "vs = us @ b # zs \<or> vs = us @ zs \<and> t \<noteq> base" "linked (join_lower b t ?h1) base (base # vs) base"
      "\<And>x. x \<noteq> t \<Longrightarrow> hsize (join_lower b t ?h1) x = hsize ?h1 x" "t \<noteq> base \<or> hsize (join_lower b t ?h1) base = hsize ?h1 base"
      "brk (join_lower b t ?h1) = brk ?h1" "blocks_ok base (join_lower b t ?h1) (if b \<in> set vs then B else B - {b})"
      "\<exists>x \<in> set vs. hsize ?h1 b \<le> hsize (join_lower b t ?h1) x" by blast
  define g where "g = (join_lower b t ?h1)\<lparr>freep := t\<rparr>"
  have run: "free_block (b + 8) h = Some g" using scan by (simp add: free_block_def g_def)
  have gs: "hsize g = hsize (join_lower b t ?h1)" "hptr g = hptr (join_lower b t ?h1)" "brk g = brk h" "freep g = t"
    using vs(5) zs(3) by (simp_all add: g_def)
  have "sorted_wrt (<) (base # us @ ys)" using ch(2) fs by simp
  then have so: "sorted_wrt (<) (base # vs)"
    using vs(1) zs(1) tb so_insert [of base us ys xs t b zs vs] us by blast
  have lv: "linked g base (base # vs) base" using vs(2) linked_cong [of "base # vs" g "join_lower b t ?h1"] gs(2) by metis
  have sz: "hsize g base = 0" using vs(3) [of base] vs(4) zs(2) [of base] ch(3) bb(7) gs(1) by (cases "t = base") auto
  have tv: "t \<in> set (base # vs)" using \<open>t = base \<or> t \<in> set us\<close> vs(1) by auto
  have "set us \<subseteq> set (xs @ [t])" unfolding us by auto
  then have ud: "set us \<inter> set ys = {}" using dx by auto
  have setv: "set vs \<union> (A - {b}) \<subseteq> (if b \<in> set vs then B else B - {b})"
    using vs(1) fs zsub b disj ud bx unfolding B_def by auto
  have okg: "blocks_ok base g (set vs \<union> (A - {b}))" by (rule blocks_ok_cong [OF vs(6) setv]) (simp_all add: gs vs(5) zs(3))
  have "set vs \<inter> (A - {b}) = {}" 
  proof -
    have "set vs \<subseteq> set us \<union> set ys \<union> {b}" using vs(1) zsub by auto
    moreover have "set fs = set us \<union> set ys" by (simp add: fs)
    ultimately show ?thesis using disj by blast
  qed
  then have "heap_rep base g vs (A - {b})" using b0 lv so sz tv okg gs(4) by (simp add: heap_rep_def chain_def)
  moreover have "hsize g a = hsize h a" if "a \<in> A - {b}" for a
  proof -
    have "a \<noteq> t" using that tmem disj blocks_okD(7) [OF ok, of a] by auto
    then show ?thesis using vs(3) [of a] zs(2) [of a] that gs(1) by simp
  qed
  moreover have "\<exists>x \<in> set vs. hsize h b \<le> hsize g x" using vs(7) zs(8) gs(1) by (auto intro: order_trans)
  ultimately show ?thesis using run gs(3) by blast
qed

subsection \<open>\<open>malloc\<close>\<close>

lemma unat_8_mult: "8 * unat w < 4294967296 \<Longrightarrow> unat (8 * w :: u32) = 8 * unat w"
  by (simp add: unat_word_ariths)

lemma blocks_ok_split:
  assumes ok: "blocks_ok base h B" and x: "x \<in> B" and n: "0 < n" "n < hsize h x"
    and g: "hsize g = (hsize h)(x := hsize h x - n, q := n)" "brk g = brk h" and q: "q = x + 8 * (hsize h x - n)"
  shows "blocks_ok base g (insert q B)" and "q \<notin> B"
proof -
  note bx = blocks_okD [OF ok x]
  have un: "unat (hsize h x - n) = unat (hsize h x) - unat n" "0 < unat n" "unat n < unat (hsize h x)"
    using n unat_sub_small [OF less_imp_le [OF n(2)]] by (simp_all add: word_less_nat_alt)
  have lim: "unat x + 8 * (unat (hsize h x) - unat n) < 4294967296" using bx(5) un by (simp add: blk_end_def)
  have "unat (8 * (hsize h x - n)) = 8 * unat (hsize h x - n)" by (rule unat_8_mult) (use lim un in simp)
  then have uq: "unat q = unat x + 8 * (unat (hsize h x) - unat n)"
    using lim un unat_add_small [of x "8 * (hsize h x - n)"] unfolding q by simp
  then have qx: "q \<noteq> x" using un by auto
  have ap: "blk_end h x \<le> unat y \<or> blk_end h y \<le> unat x" if "y \<in> B" "y \<noteq> x" for y
    using blocks_apart [OF ok x that(1)] that(2) unfolding apart_def by blast
  show qB: "q \<notin> B"
  proof
    assume "q \<in> B"
    then show False using ap [of q] qx uq un blocks_okD(8) [OF ok, of q] by (auto simp: blk_end_def)
  qed
  have ends: "blk_end g x = unat q" "blk_end g q = blk_end h x" "\<And>y. y \<in> B \<Longrightarrow> y \<noteq> x \<Longrightarrow> blk_end g y = blk_end h y"
    using uq un qx qB g(1) by (auto simp: blk_end_def)
  have others: "apart g x y" "apart g q y" if "y \<in> B" "y \<noteq> x" for y
    using ap [OF that] ends(1,2) ends(3) [OF that] uq un unfolding apart_def by (auto simp: blk_end_def)
  show "blocks_ok base g (insert q B)"
    unfolding blocks_ok_def
  proof (intro conjI ballI impI)
    show "unat base + 8 \<le> unat (brk g)" using ok g(2) by (simp add: blocks_ok_def)
    fix y assume y: "y \<in> insert q B"
    show "unat base + 8 \<le> unat y" using y bx(1) uq blocks_okD(1) [OF ok, of y] by auto
    show "0 < hsize g y" using y g(1) n un blocks_okD(2) [OF ok, of y] qx by (auto simp: word_less_nat_alt)
    show "blk_end g y \<le> unat (brk g)"
    proof (cases "y = q \<or> y = x")
      case True
      then show ?thesis using ends(1,2) bx(4) uq un g(2) by (auto simp: blk_end_def)
    next
      case False
      then show ?thesis using y ends(3) [of y] blocks_okD(4) [OF ok, of y] g(2) by auto
    qed
    fix z assume z: "z \<in> insert q B" "y \<noteq> z"
    have xq: "apart g x q" using ends(1) by (simp add: apart_def)
    show "apart g y z"
    proof (cases "y \<in> {x, q}")
      case True
      then show ?thesis using xq others [of z] z x unfolding apart_def by blast
    next
      case yn: False
      then have yB: "y \<in> B" "y \<noteq> x" using y by auto
      show ?thesis
      proof (cases "z \<in> {x, q}")
        case True
        then show ?thesis using others [OF yB] unfolding apart_def by blast
      next
        case False
        then have zB: "z \<in> B" "z \<noteq> x" using z by auto
        show ?thesis using blocks_apart [OF ok yB(1) zB(1) z(2)] ends(3) [OF yB] ends(3) [OF zB] by (simp add: apart_def)
      qed
    qed
  qed
qed

lemma chain_next:
  assumes l: "linked h base (base # fs) base" and so: "sorted_wrt (<) (base # fs)" and p: "p \<in> set (base # fs)" "hptr h p = x" and x: "x \<in> set fs"
  shows "\<exists>us vs. base # fs = us @ p # x # vs"
proof -
  have dist: "distinct (base # fs)" using so strict_sorted_iff [of "base # fs"] by simp
  obtain us ws where u: "base # fs = us @ p # ws" using p(1) by (meson split_list)
  have "hptr h p = hd (ws @ [base])" by (rule linked_split(1)) (use l u in simp)
  moreover have "x \<noteq> base" using x dist by auto
  ultimately obtain vs where "ws = x # vs" using p(2) by (cases ws) auto
  then show ?thesis using u by blast
qed

lemma take_block_ok:
  assumes rep: "heap_rep base h fs A" and p: "p \<in> set (base # fs)" "hptr h p = x" and x: "x \<in> set fs" and n: "0 < n" "n \<le> hsize h x"
    and t: "take_block n p x h = (r, g)"
  shows "\<exists>gs b. r = b + 8 \<and> r \<noteq> 0 \<and> heap_rep base g gs (insert b A) \<and> b \<notin> A \<and> hsize g b = n \<and> (\<forall>a \<in> A. hsize g a = hsize h a) \<and> brk g = brk h"
proof -
  have ch: "linked h base (base # fs) base" "sorted_wrt (<) (base # fs)" "hsize h base = 0" "freep h \<in> set (base # fs)"
    and ok: "blocks_ok base h (set fs \<union> A)" and disj: "set fs \<inter> A = {}" and b0: "base \<noteq> 0"
    using rep by (simp_all add: heap_rep_def chain_def)
  have dist: "distinct (base # fs)" using ch(2) strict_sorted_iff [of "base # fs"] by simp
  have xB: "x \<in> set fs \<union> A" using x by simp
  note bx = blocks_okD [OF ok xB]
  have nz: "b + 8 \<noteq> 0" if "blocks_ok base g B" "b \<in> B" for b B
  proof -
    note bb = blocks_okD [OF that]
    have "unat (b + 8) = unat b + 8" using bb(3,5) by (simp add: blk_end_def unat_word_ariths)
    then show ?thesis by (metis add_is_0 unat_0 zero_neq_numeral)
  qed
  show ?thesis
  proof (cases "hsize h x = n")
    case True
    obtain us vs where u: "base # fs = us @ p # x # vs" using chain_next [OF ch(1,2) p x] by blast
    have g: "r = x + 8" "g = (set_ptr p (hptr h x) h)\<lparr>freep := p\<rparr>" using t True by (simp_all add: take_block_def)
    obtain gs where gs: "us @ p # vs = base # gs" using u by (cases us) auto
    have du: "distinct (us @ p # x # vs)" using dist u by simp
    have setg: "set fs = insert x (set gs)" "x \<notin> set gs"
    proof -
      have "insert base (set fs) = insert x (insert base (set gs))"
        using arg_cong [OF u, of set] arg_cong [OF gs, of set] by auto
      moreover have "base \<notin> set fs" "base \<noteq> x" using dist x by auto
      moreover have "distinct (base # gs)" "x \<notin> set (base # gs)" using du unfolding gs [symmetric] by auto
      ultimately show "set fs = insert x (set gs)" "x \<notin> set gs" by auto
    qed
    have l: "linked h base us p" "linked h (hptr h x) vs base" using ch(1) unfolding u by (auto simp: linked_append)
    have "linked g base us p = linked h base us p" by (rule linked_cong) (use du in \<open>auto simp: g(2) set_ptr_def\<close>)
    moreover have "linked g (hptr h x) vs base = linked h (hptr h x) vs base" by (rule linked_cong) (use du in \<open>auto simp: g(2) set_ptr_def\<close>)
    ultimately have "linked g base (us @ p # vs) base" using l by (auto simp: linked_append g(2) set_ptr_def)
    then have lg: "linked g base (base # gs) base" by (simp only: gs)
    have so: "sorted_wrt (<) (base # gs)" using ch(2) unfolding u gs [symmetric] by (auto simp: sorted_wrt_append)
    have pg: "p \<in> set (base # gs)" unfolding gs [symmetric] by simp
    have okg: "blocks_ok base g (set gs \<union> insert x A)" by (rule blocks_ok_cong [OF ok]) (use setg in \<open>auto simp: g(2) set_ptr_def\<close>)
    have "heap_rep base g gs (insert x A)"
      using b0 lg so pg okg ch(3) disj setg by (auto simp: heap_rep_def chain_def g(2) set_ptr_def)
    moreover have "x \<notin> A" using disj x by auto
    ultimately show ?thesis using g True nz [OF okg, of x] by (intro exI [of _ gs] exI [of _ x]) (simp add: set_ptr_def)
  next
    case False
    let ?q = "x + 8 * (hsize h x - n)"
    have g: "r = ?q + 8" "hsize g = (hsize h)(x := hsize h x - n, ?q := n)" "brk g = brk h" "hptr g = hptr h" "freep g = p"
      using t False by (auto simp: take_block_def Let_def set_size_def next_to_def)
    have ln: "n < hsize h x" using n(2) False by auto
    note sp = blocks_ok_split [OF ok xB n(1) ln g(2,3) refl]
    have qb: "?q \<noteq> base" using blocks_okD(7) [OF sp(1), of ?q] by simp
    have "linked g base (base # fs) base = linked h base (base # fs) base" by (rule linked_cong) (simp add: g(4))
    moreover have "hsize g base = 0" using ch(3) qb bx(7) by (simp add: g(2))
    moreover have "insert ?q (set fs \<union> A) = set fs \<union> insert ?q A" by auto
    ultimately have "heap_rep base g fs (insert ?q A)" using b0 ch sp disj p(1) g(5) by (simp add: heap_rep_def chain_def)
    moreover have "hsize g a = hsize h a" if "a \<in> A" for a using that disj x sp(2) by (auto simp: g(2))
    moreover have "hsize g ?q = n" by (simp add: g(2))
    ultimately show ?thesis using g(1,3) sp(2) nz [OF sp(1), of ?q] by (intro exI [of _ fs] exI [of _ ?q]) simp
  qed
qed

text \<open>What the allocator relies on: a granted increase moves the break up by its argument, within the 32 bits.\<close>

definition grows_up :: "(u32 \<Rightarrow> u32 \<Rightarrow> u32 option) \<Rightarrow> bool" where
  "grows_up grow = (\<forall>b n c. grow b n = Some c \<and> unat n < 2 ^ 31 \<longrightarrow> unat c = unat b + unat n)"

lemma sbrk_block_ok:
  assumes rep: "heap_rep base h fs A" and nu: "0 < nu" "8 * unat nu < 2 ^ 31"
    and c: "unat c = unat (brk h) + 8 * unat nu"
  defines "g \<equiv> set_size (brk h) nu (h\<lparr>brk := c\<rparr>)"
  shows "heap_rep base g fs (insert (brk h) A)" and "brk h \<notin> set fs \<union> A" and "brk h \<noteq> base"
proof -
  let ?b = "brk h"
  have ch: "chain base h fs" and ok: "blocks_ok base h (set fs \<union> A)" and disj: "set fs \<inter> A = {}" and b0: "base \<noteq> 0"
    using rep by (simp_all add: heap_rep_def)
  have base: "unat base + 8 \<le> unat ?b" using ok by (simp add: blocks_ok_def)
  then show nb: "?b \<noteq> base" by auto
  show new: "?b \<notin> set fs \<union> A" using blocks_okD(4,8) [OF ok, of ?b] by auto
  have g: "hsize g = (hsize h)(?b := nu)" "brk g = c" "hptr g = hptr h" "freep g = freep h" by (simp_all add: g_def set_size_def)
  have "0 < unat nu" using nu(1) by (simp add: word_less_nat_alt)
  have e: "blk_end g ?b = unat c" "\<And>x. x \<in> set fs \<union> A \<Longrightarrow> blk_end g x = blk_end h x \<and> blk_end h x \<le> unat ?b"
    using c new blocks_okD(4) [OF ok] by (auto simp: blk_end_def g)
  have "linked g base (base # fs) base = linked h base (base # fs) base" by (rule linked_cong) (simp add: g)
  then have "chain base g fs" using ch nb by (simp add: chain_def g)
  moreover have "blocks_ok base g (insert ?b (set fs \<union> A))"
    unfolding blocks_ok_def
  proof (intro conjI ballI impI)
    show "unat base + 8 \<le> unat (brk g)" using base c g by simp
    fix y assume y: "y \<in> insert ?b (set fs \<union> A)"
    show "unat base + 8 \<le> unat y" using y base blocks_okD(1) [OF ok, of y] by auto
    show "0 < hsize g y" using y nu(1) blocks_okD(2) [OF ok, of y] by (auto simp: g)
    show "blk_end g y \<le> unat (brk g)" using y e c g by force
    fix z assume z: "z \<in> insert ?b (set fs \<union> A)" "y \<noteq> z"
    show "apart g y z"
    proof (cases "y = ?b \<or> z = ?b")
      case True
      then show ?thesis using e(2) [of y] e(2) [of z] y z unfolding apart_def by auto
    next
      case False
      then have m: "y \<in> set fs \<union> A" "z \<in> set fs \<union> A" using y z by auto
      show ?thesis using blocks_apart [OF ok m z(2)] e(2) [OF m(1)] e(2) [OF m(2)] by (simp add: apart_def)
    qed
  qed
  ultimately show "heap_rep base g fs (insert ?b A)" using disj new b0 by (simp add: heap_rep_def)
qed

lemma freep_nonzero: "heap_rep base h fs A \<Longrightarrow> freep h \<noteq> 0"
proof -
  assume rep: "heap_rep base h fs A"
  then have "base \<le> freep h" using sorted_last_le [of base fs "freep h"] by (simp add: heap_rep_def chain_def)
  moreover have "base \<noteq> 0" using rep by (simp add: heap_rep_def)
  ultimately show ?thesis by auto
qed

lemma morecore_ok:
  assumes rep: "heap_rep base h fs A" and up: "grows_up grow" and n: "0 < n" "8 * unat n < 2 ^ 31"
  shows "\<exists>q g gs. morecore grow n h = Some (q, g) \<and> heap_rep base g gs A \<and> (\<forall>a \<in> A. hsize g a = hsize h a)
     \<and> (q = 0 \<or> q = freep g \<and> (\<exists>x \<in> set gs. n \<le> hsize g x))"
proof -
  define nu where "nu = (if n < 4096 then 4096 else n)"
  have nu: "0 < nu" "8 * unat nu < 2 ^ 31" "n \<le> nu" using n by (auto simp: nu_def)
  have un: "unat (nu * 8) = 8 * unat nu" using unat_8_mult [of nu] nu(2) by (simp add: mult.commute)
  show ?thesis
  proof (cases "grow (brk h) (nu * 8)")
    case None
    then have "morecore grow n h = Some (0, h)" by (simp add: morecore_def Let_def sbrk_def flip: nu_def)
    then show ?thesis using rep by auto
  next
    case (Some c)
    then have c: "unat c = unat (brk h) + 8 * unat nu" using up un nu(2) unfolding grows_up_def by (metis un)
    let ?g1 = "set_size (brk h) nu (h\<lparr>brk := c\<rparr>)"
    note s = sbrk_block_ok [OF rep nu(1,2) c]
    have m1: "brk h \<noteq> -1" 
    proof
      assume "brk h = -1"
      moreover have "unat (-1 :: u32) = 4294967295" by (simp add: unsigned_minus_1_eq_mask mask_eq_exp_minus_1)
      ultimately have "unat (brk h) = 4294967295" by (simp only:)
      then show False using c nu(1) unat_u32_less [of c] by (simp add: word_less_nat_alt)
    qed
    have run: "morecore grow n h = map_option (\<lambda>h2. (freep h2, h2)) (free_block (brk h + 8) ?g1)"
      using Some m1 by (simp add: morecore_def Let_def sbrk_def flip: nu_def)
    obtain g gs where g: "free_block (brk h + 8) ?g1 = Some g" "heap_rep base g gs (insert (brk h) A - {brk h})"
        "\<And>a. a \<in> insert (brk h) A - {brk h} \<Longrightarrow> hsize g a = hsize ?g1 a" "\<exists>x \<in> set gs. hsize ?g1 (brk h) \<le> hsize g x"
      using free_block_ok [OF s(1), of "brk h"] by blast
    have "insert (brk h) A - {brk h} = A" using s(2) by auto
    then have "heap_rep base g gs A" "\<And>a. a \<in> A \<Longrightarrow> hsize g a = hsize h a" using g(2,3) s(2) by (auto simp: set_size_def)
    moreover have "\<exists>x \<in> set gs. n \<le> hsize g x" using g(4) order_trans [OF nu(3)] by (auto simp: set_size_def)
    ultimately show ?thesis using run g(1) by auto
  qed
qed

text \<open>The loop of \<open>malloc\<close> along the circle \<open>xs\<close>, which ends at \<open>freep\<close>: a block is found, or more memory is asked for.\<close>

lemma malloc_walk:
  assumes "linked h x (xs @ [freep h]) z" and "freep h \<notin> set xs" and "hptr h prev = x" and "prev \<in> C" and "set xs \<subseteq> C"
  shows "(\<exists>p y. p \<in> C \<and> y \<in> set (xs @ [freep h]) \<and> hptr h p = y \<and> n \<le> hsize h y \<and> malloc_loop grow n prev x h = Some (take_block n p y h))
     \<or> (\<forall>y \<in> set (xs @ [freep h]). hsize h y < n) \<and> malloc_loop grow n prev x h
         = Option.bind (morecore grow n h) (\<lambda>(q, h1). if q = 0 then Some (0, h1) else malloc_loop grow n q (hptr h1 q) h1)"
  using assms
proof (induction xs arbitrary: x prev)
  case Nil
  then have x: "x = freep h" by simp
  show ?case
  proof (cases "n \<le> hsize h x")
    case True
    then have "malloc_loop grow n prev x h = Some (take_block n prev x h)" by (simp add: malloc_loop.simps [of grow n prev x h])
    then show ?thesis using Nil True x by auto
  next
    case False
    then have "malloc_loop grow n prev x h
        = Option.bind (morecore grow n h) (\<lambda>(q, h1). if q = 0 then Some (0, h1) else malloc_loop grow n q (hptr h1 q) h1)"
      using x by (simp add: malloc_loop.simps [of grow n prev "freep h" h])
    then show ?thesis using x False by simp
  qed
next
  case (Cons y xs)
  then have y: "x = y" "linked h (hptr h y) (xs @ [freep h]) z" "y \<in> C" "y \<noteq> freep h" by auto
  show ?case
  proof (cases "n \<le> hsize h y")
    case True
    then have "malloc_loop grow n prev x h = Some (take_block n prev y h)" by (simp add: malloc_loop.simps [of grow n prev y h] y(1))
    then show ?thesis using Cons.prems True y(1) by auto
  next
    case False
    then have "malloc_loop grow n prev x h = malloc_loop grow n y (hptr h y) h"
      using y(1,4) by (simp add: malloc_loop.simps [of grow n prev y h])
    moreover have "freep h \<notin> set xs" "set xs \<subseteq> C" "hsize h y < n" using Cons.prems False by auto
    ultimately show ?thesis using Cons.IH [OF y(2) _ refl y(3)] by auto
  qed
qed

text \<open>From \<open>freep\<close> the walk sees every block.\<close>

lemma malloc_round:
  assumes rep: "heap_rep base h fs A" and n: "0 < n"
  shows "(\<exists>p y. p \<in> set (base # fs) \<and> y \<in> set fs \<and> hptr h p = y \<and> n \<le> hsize h y
        \<and> malloc_loop grow n (freep h) (hptr h (freep h)) h = Some (take_block n p y h))
     \<or> (\<forall>y \<in> set fs. hsize h y < n) \<and> malloc_loop grow n (freep h) (hptr h (freep h)) h
         = Option.bind (morecore grow n h) (\<lambda>(q, h1). if q = 0 then Some (0, h1) else malloc_loop grow n q (hptr h1 q) h1)"
proof -
  have ch: "linked h base (base # fs) base" "sorted_wrt (<) (base # fs)" "hsize h base = 0" "freep h \<in> set (base # fs)"
    using rep by (simp_all add: heap_rep_def chain_def)
  have dist: "distinct (base # fs)" using ch(2) strict_sorted_iff [of "base # fs"] by simp
  obtain us vs where u: "base # fs = us @ freep h # vs" using ch(4) by (meson split_list)
  have "linked h (freep h) (freep h # vs @ us) (freep h)" by (rule linked_split(2)) (use ch(1) u in simp)
  then have l: "linked h (hptr h (freep h)) ((vs @ us) @ [freep h]) (hptr h (freep h))" by (auto simp: linked_append)
  have e: "set ((vs @ us) @ [freep h]) = set (base # fs)" using u by auto
  have "distinct (us @ freep h # vs)" using dist u by simp
  then have fn: "freep h \<notin> set (vs @ us)" by auto
  have sub: "set (vs @ us) \<subseteq> set (base # fs)" using e by auto
  have "\<not> n \<le> hsize h base" using ch(3) n by auto
  then have found: "y \<in> set fs" if "y \<in> set ((vs @ us) @ [freep h])" "n \<le> hsize h y" for y using that unfolding e by auto
  show ?thesis using malloc_walk [OF l fn refl ch(4) sub, of n grow] found unfolding e by auto
qed

text \<open>\<open>malloc\<close> of \<open>n\<close> units ends, with no memory or with a new block that overlaps none of the blocks given out.\<close>

lemma malloc_loop_ok:
  assumes rep: "heap_rep base h fs A" and up: "grows_up grow" and n: "0 < n" "8 * unat n < 2 ^ 31"
  shows "\<exists>r g gs. malloc_loop grow n (freep h) (hptr h (freep h)) h = Some (r, g) \<and> (\<forall>a \<in> A. hsize g a = hsize h a)
     \<and> (r = 0 \<and> heap_rep base g gs A \<or> r \<noteq> 0 \<and> r - 8 \<notin> A \<and> heap_rep base g gs (insert (r - 8) A) \<and> hsize g (r - 8) = n)"
proof -
  have take: "\<exists>r k gs. take_block n p y g = (r, k) \<and> (\<forall>a \<in> A. hsize k a = hsize g a)
     \<and> r \<noteq> 0 \<and> r - 8 \<notin> A \<and> heap_rep base k gs (insert (r - 8) A) \<and> hsize k (r - 8) = n"
    if asm: "heap_rep base g gs A" "p \<in> set (base # gs)" "y \<in> set gs" "hptr g p = y" "n \<le> hsize g y" for g gs p y
  proof -
    obtain r k where t: "take_block n p y g = (r, k)" by fastforce
    obtain ks b where "r = b + 8" "r \<noteq> 0" "heap_rep base k ks (insert b A)" "b \<notin> A" "hsize k b = n" "\<forall>a \<in> A. hsize k a = hsize g a"
      using take_block_ok [OF asm(1,2,4,3) n(1) asm(5) t] by blast
    then show ?thesis using t by (intro exI [of _ r] exI [of _ k] exI [of _ ks]) simp
  qed
  from malloc_round [OF rep n(1), of grow] show ?thesis
  proof (elim disjE exE conjE)
    fix p y assume "p \<in> set (base # fs)" "y \<in> set fs" "hptr h p = y" "n \<le> hsize h y"
      and run: "malloc_loop grow n (freep h) (hptr h (freep h)) h = Some (take_block n p y h)"
    then show ?thesis using take [OF rep] by (metis (no_types, lifting))
  next
    assume run: "malloc_loop grow n (freep h) (hptr h (freep h)) h
         = Option.bind (morecore grow n h) (\<lambda>(q, h1). if q = 0 then Some (0, h1) else malloc_loop grow n q (hptr h1 q) h1)"
    obtain q g gs where m: "morecore grow n h = Some (q, g)" "heap_rep base g gs A" "\<forall>a \<in> A. hsize g a = hsize h a"
        "q = 0 \<or> q = freep g \<and> (\<exists>x \<in> set gs. n \<le> hsize g x)"
      using morecore_ok [OF rep up n] by blast
    show ?thesis
    proof (cases "q = 0")
      case True
      then show ?thesis using run m by auto
    next
      case False
      then have q: "q = freep g" "\<exists>x \<in> set gs. n \<le> hsize g x" using m(4) by auto
      then obtain p y where "p \<in> set (base # gs)" "y \<in> set gs" "hptr g p = y" "n \<le> hsize g y"
          and run2: "malloc_loop grow n q (hptr g q) g = Some (take_block n p y g)"
        using malloc_round [OF m(2) n(1), of grow] by (auto simp: not_le [symmetric])
      from take [OF m(2) this(1-4)] obtain r k ks where t: "take_block n p y g = (r, k)" "\<forall>a \<in> A. hsize k a = hsize g a"
          "r \<noteq> 0" "r - 8 \<notin> A" "heap_rep base k ks (insert (r - 8) A)" "hsize k (r - 8) = n" by blast
      have "malloc_loop grow n (freep h) (hptr h (freep h)) h = Some (r, k)" using run m(1) False run2 t(1) by simp
      then show ?thesis using t m(3) by (intro exI [of _ r] exI [of _ k] exI [of _ ks]) simp
    qed
  qed
qed

subsection \<open>A program that calls \<open>malloc\<close> and \<open>free\<close>\<close>

text \<open>
  The largest request whose block, header included, has fewer than \<open>2^31\<close> bytes. From the next one on the argument of
  \<open>sbrk\<close>, an \<open>int\<close>, turns negative and \<open>sbrk\<close> shrinks the process; close to \<open>2^32\<close> the number of units wraps. The code
  has no test for either, so the histories below make no such request.
\<close>

definition MAX_REQUEST :: u32 where "MAX_REQUEST = 2147483632"

lemma MAX_REQUEST_largest: "sint (units MAX_REQUEST * 8) = 2147483640 \<and> sint (units (MAX_REQUEST + 1) * 8) < 0"
  by (simp add: units_def MAX_REQUEST_def)

text \<open>The states of the heap of a program that frees only what it was given, with the blocks it holds: the pointer and
  the number of bytes asked for.\<close>

inductive uses_heap :: "(u32 \<Rightarrow> u32 \<Rightarrow> u32 option) \<Rightarrow> u32 \<Rightarrow> uheap \<Rightarrow> (u32 \<rightharpoonup> u32) \<Rightarrow> bool" for grow base where
  uh_start: "freep h = 0 \<Longrightarrow> base \<noteq> 0 \<Longrightarrow> unat base + 8 \<le> unat (brk h) \<Longrightarrow> uses_heap grow base h (\<lambda>_. None)"
| uh_malloc: "uses_heap grow base h live \<Longrightarrow> n \<le> MAX_REQUEST \<Longrightarrow> malloc grow base n h = Some (r, g) \<Longrightarrow> r \<noteq> 0
    \<Longrightarrow> uses_heap grow base g (live(r \<mapsto> n))"
| uh_fails: "uses_heap grow base h live \<Longrightarrow> n \<le> MAX_REQUEST \<Longrightarrow> malloc grow base n h = Some (0, g) \<Longrightarrow> uses_heap grow base g live"
| uh_free: "uses_heap grow base h live \<Longrightarrow> live r = Some n \<Longrightarrow> free_block r h = Some g \<Longrightarrow> uses_heap grow base g (live(r := None))"

lemma units_bound:
  assumes "n \<le> MAX_REQUEST"
  shows "0 < units n" "8 * unat (units n) < 2 ^ 31" "unat n + 8 \<le> 8 * unat (units n)"
proof -
  have n: "unat n \<le> 2147483632" using assms by (simp add: word_le_nat_alt MAX_REQUEST_def)
  have "unat (n + 8 - 1) = unat n + 7" using n unat_add_small [of 7 n] by simp
  then have u: "unat (units n) = (unat n + 7) div 8 + 1"
    using n unat_add_small [of "(n + 8 - 1) div 8" 1] by (simp add: units_def unat_div)
  then show "0 < units n" by (simp add: word_less_nat_alt)
  show "8 * unat (units n) < 2 ^ 31" "unat n + 8 \<le> 8 * unat (units n)" using u n by simp_all
qed

definition holds :: "u32 \<Rightarrow> uheap \<Rightarrow> (u32 \<rightharpoonup> u32) \<Rightarrow> bool" where
  "holds base h live = (if freep h = 0 then live = (\<lambda>_. None) \<and> base \<noteq> 0 \<and> unat base + 8 \<le> unat (brk h)
     else (\<exists>fs. heap_rep base h fs ((\<lambda>r. r - 8) ` dom live)) \<and> (\<forall>r n. live r = Some n \<longrightarrow> unat n + 8 \<le> 8 * unat (hsize h (r - 8))))"

lemma holds_rep: "heap_rep base h fs ((\<lambda>r. r - 8) ` dom live) \<Longrightarrow> (\<And>r n. live r = Some n \<Longrightarrow> unat n + 8 \<le> 8 * unat (hsize h (r - 8)))
    \<Longrightarrow> holds base h live"
  using freep_nonzero by (auto simp: holds_def)

lemma empty_heap_rep:
  assumes "base \<noteq> 0" and "unat base + 8 \<le> unat (brk h)"
  shows "heap_rep base ((set_size base 0 (set_ptr base base h))\<lparr>freep := base\<rparr>) [] {}"
  using assms by (simp add: heap_rep_def chain_def blocks_ok_def set_size_def set_ptr_def)

lemma malloc_holds:
  assumes hol: "holds base h live" and up: "grows_up grow" and n: "n \<le> MAX_REQUEST"
  shows "\<exists>r g. malloc grow base n h = Some (r, g) \<and> (r = 0 \<and> holds base g live \<or> r \<noteq> 0 \<and> holds base g (live(r \<mapsto> n)))"
proof -
  define h1 where "h1 = (if freep h = 0 then (set_size base 0 (set_ptr base base h))\<lparr>freep := base\<rparr> else h)"
  let ?A = "(\<lambda>r. r - 8) ` dom live"
  have sz: "unat m + 8 \<le> 8 * unat (hsize h1 (s - 8))" if "live s = Some m" for s m
  proof -
    have "freep h \<noteq> 0" using hol that unfolding holds_def by fastforce
    then show ?thesis using hol that unfolding holds_def h1_def by simp
  qed
  have "\<exists>fs. heap_rep base h1 fs ?A"
  proof (cases "freep h = 0")
    case True
    then show ?thesis using hol empty_heap_rep [of base h] by (intro exI [of _ "[]"]) (simp add: holds_def h1_def)
  next
    case False
    then show ?thesis using hol by (simp add: holds_def h1_def)
  qed
  then obtain fs where rep: "heap_rep base h1 fs ?A" by blast
  have run: "malloc grow base n h = malloc_loop grow (units n) (freep h1) (hptr h1 (freep h1)) h1"
    by (simp add: malloc_def h1_def)
  obtain r g gs where r: "malloc_loop grow (units n) (freep h1) (hptr h1 (freep h1)) h1 = Some (r, g)"
      and same: "\<And>a. a \<in> ?A \<Longrightarrow> hsize g a = hsize h1 a"
      and res: "r = 0 \<and> heap_rep base g gs ?A \<or> r \<noteq> 0 \<and> r - 8 \<notin> ?A \<and> heap_rep base g gs (insert (r - 8) ?A) \<and> hsize g (r - 8) = units n"
    using malloc_loop_ok [OF rep up units_bound(1,2) [OF n]] by metis
  have sg: "unat m + 8 \<le> 8 * unat (hsize g (s - 8))" if "live s = Some m" for s m
    using sz [OF that] same [of "s - 8"] that by (auto simp: dom_def)
  from res show ?thesis
  proof (elim disjE conjE)
    assume "r = 0" "heap_rep base g gs ?A"
    then show ?thesis using r run holds_rep sg by simp
  next
    assume a: "r \<noteq> 0" "heap_rep base g gs (insert (r - 8) ?A)" "hsize g (r - 8) = units n" "r - 8 \<notin> ?A"
    have "(\<lambda>r. r - 8) ` dom (live(r \<mapsto> n)) = insert (r - 8) ?A" by auto
    then have "heap_rep base g gs ((\<lambda>r. r - 8) ` dom (live(r \<mapsto> n)))" using a(2) by simp
    then have "holds base g (live(r \<mapsto> n))"
      by (rule holds_rep) (use sg a(3) units_bound(3) [OF n] in \<open>auto split: if_splits\<close>)
    then show ?thesis using r run a(1) by simp
  qed
qed

lemma free_holds:
  assumes hol: "holds base h live" and r: "live r = Some n"
  shows "\<exists>g. free_block r h = Some g \<and> holds base g (live(r := None))"
proof -
  let ?A = "(\<lambda>r. r - 8) ` dom live"
  obtain fs where rep: "heap_rep base h fs ?A" and sz: "\<And>s m. live s = Some m \<Longrightarrow> unat m + 8 \<le> 8 * unat (hsize h (s - 8))"
    using hol r by (auto simp: holds_def split: if_splits)
  have "r - 8 \<in> ?A" using r by auto
  from free_block_ok [OF rep this] obtain g gs where g: "free_block r h = Some g" "heap_rep base g gs (?A - {r - 8})"
      "\<And>a. a \<in> ?A - {r - 8} \<Longrightarrow> hsize g a = hsize h a" by auto
  have "(\<lambda>r. r - 8) ` dom (live(r := None)) = ?A - {r - 8}" by auto
  then have rep2: "heap_rep base g gs ((\<lambda>r. r - 8) ` dom (live(r := None)))" using g(2) by simp
  have "holds base g (live(r := None))"
  proof (rule holds_rep [OF rep2])
    fix s m assume s: "(live(r := None)) s = Some m"
    then have "s - 8 \<in> ?A - {r - 8}" "live s = Some m" by (auto split: if_splits)
    then show "unat m + 8 \<le> 8 * unat (hsize g (s - 8))" using sz [of s m] g(3) by simp
  qed
  then show ?thesis using g(1) by blast
qed

lemma uses_heap_holds: "uses_heap grow base h live \<Longrightarrow> grows_up grow \<Longrightarrow> holds base h live"
proof (induction rule: uses_heap.induct)
  case (uh_start h)
  then show ?case by (simp add: holds_def)
next
  case (uh_malloc h live n r g)
  from malloc_holds [OF uh_malloc.IH [OF uh_malloc.prems] uh_malloc.prems uh_malloc.hyps(2)] show ?case
    unfolding uh_malloc.hyps(3) using uh_malloc.hyps(4) by blast
next
  case (uh_fails h live n g)
  then show ?case using malloc_holds [of base h live grow n] by auto
next
  case (uh_free h live r n g)
  from free_holds [OF uh_free.IH [OF uh_free.prems] uh_free.hyps(2)] show ?case unfolding uh_free.hyps(3) by blast
qed

lemma holds_apart:
  assumes hol: "holds base h live" and r: "live r = Some m" and s: "live s = Some n" "r \<noteq> s"
  shows "unat base + 16 \<le> unat r" and "unat r + unat m \<le> unat (brk h)" and "unat r + unat m \<le> unat s \<or> unat s + unat n \<le> unat r"
proof -
  obtain fs where rep: "heap_rep base h fs ((\<lambda>r. r - 8) ` dom live)"
      and sz: "\<And>s m. live s = Some m \<Longrightarrow> unat m + 8 \<le> 8 * unat (hsize h (s - 8))"
    using hol r by (auto simp: holds_def split: if_splits)
  then have ok: "blocks_ok base h (set fs \<union> (\<lambda>r. r - 8) ` dom live)" by (simp add: heap_rep_def)
  have blk: "unat q = unat (q - 8) + 8" "q - 8 \<in> set fs \<union> (\<lambda>r. r - 8) ` dom live" "unat q + unat k \<le> blk_end h (q - 8)"
    if "live q = Some k" for q k
  proof -
    show m: "q - 8 \<in> set fs \<union> (\<lambda>r. r - 8) ` dom live" using that by auto
    show u: "unat q = unat (q - 8) + 8"
      using blocks_okD(3,5) [OF ok m] unat_add_small [of "q - 8" 8] by (simp add: blk_end_def)
    show "unat q + unat k \<le> blk_end h (q - 8)" using u sz [OF that] by (simp add: blk_end_def)
  qed
  show "unat base + 16 \<le> unat r" using blk(1) [OF r] blocks_okD(1) [OF ok blk(2) [OF r]] by simp
  show "unat r + unat m \<le> unat (brk h)" using blk(3) [OF r] blocks_okD(4) [OF ok blk(2) [OF r]] by simp
  have "r - 8 \<noteq> s - 8" using s(2) by simp
  then show "unat r + unat m \<le> unat s \<or> unat s + unat n \<le> unat r"
    using blocks_apart [OF ok blk(2) [OF r] blk(2) [OF s(1)]] blk(1,3) [OF r] blk(1,3) [OF s(1)] unfolding apart_def by linarith
qed

text \<open>C18: whatever the order in which a program calls \<open>malloc\<close>, with at most \<open>MAX_REQUEST\<close> bytes at a time, and \<open>free\<close>, and whichever requests for memory the kernel
  grants, every call returns: the walks along the circular list of free blocks end.\<close>

theorem allocator_calls_return:
  assumes "uses_heap grow base h live" and "grows_up grow"
  shows "(n \<le> MAX_REQUEST \<longrightarrow> (\<exists>r g. malloc grow base n h = Some (r, g))) \<and> (r \<in> dom live \<longrightarrow> (\<exists>g. free_block r h = Some g))"
  using malloc_holds [OF uses_heap_holds [OF assms] assms(2), of n] free_holds [OF uses_heap_holds [OF assms], of r] by blast

text \<open>C17: in a program whose requests are at most \<open>MAX_REQUEST\<close> bytes each, two blocks that it holds at the same time never overlap, have all the bytes asked for, and lie between
  the allocator's static header and the break of the process.\<close>

theorem allocated_blocks_are_apart:
  assumes "uses_heap grow base h live" and "grows_up grow" and "live r = Some m" and "live s = Some n" and "r \<noteq> s"
  shows "unat base + 16 \<le> unat r \<and> unat r + unat m \<le> unat (brk h) \<and> (unat r + unat m \<le> unat s \<or> unat s + unat n \<le> unat r)"
  using holds_apart [OF uses_heap_holds [OF assms(1,2)] assms(3-5)] by blast

text \<open>A request close to the largest number wraps to a block of one header, which has no byte to use.\<close>

lemma units_wrap: "units 0xFFFFFFFF = 1"
  by (simp add: units_def)

subsection \<open>Witnesses\<close>

definition plain_grow :: "u32 \<Rightarrow> u32 \<Rightarrow> u32 option" where
  "plain_grow b n = (if unat b + unat n < 4294967296 then Some (b + n) else None)"

definition fresh_heap :: uheap where
  "fresh_heap = \<lparr>hptr = (\<lambda>_. 0), hsize = (\<lambda>_. 0), freep = 0, brk = 0x1000\<rparr>"

lemma plain_grow_up: "grows_up plain_grow"
  by (auto simp: grows_up_def plain_grow_def unat_add_small split: if_splits)

definition one_held :: uheap where
  "one_held = \<lparr>hptr = (\<lambda>_. 0)(0x100 := 0x100, 0x1000 := 0x100, 0x100 := 0x1000),
     hsize = (\<lambda>_. 0)(0x100 := 0, 0x1000 := 4096, 0x1000 := 4094, 0x8FF0 := 2), freep = 0x100, brk = 0x9000\<rparr>"

lemma first_malloc: "malloc plain_grow 0x100 5 fresh_heap = Some (0x8FF8, one_held)"
  by (simp add: malloc_def units_def fresh_heap_def malloc_loop.simps free_scan.simps morecore_def sbrk_def plain_grow_def free_block_def
      join_upper_def join_lower_def next_to_def set_ptr_def set_size_def take_block_def one_held_def Let_def)

definition two_held :: uheap where
  "two_held = \<lparr>hptr = hptr one_held, hsize = (hsize one_held)(0x1000 := 4091, 0x8FD8 := 3), freep = 0x100, brk = 0x9000\<rparr>"

lemma second_malloc: "malloc plain_grow 0x100 10 one_held = Some (0x8FE0, two_held)"
  by (simp add: malloc_def units_def one_held_def two_held_def malloc_loop.simps next_to_def set_ptr_def set_size_def take_block_def Let_def)

lemma held_one: "uses_heap plain_grow 0x100 one_held [0x8FF8 \<mapsto> 5]"
  by (rule uh_malloc [OF uh_start _ first_malloc]) (simp_all add: fresh_heap_def MAX_REQUEST_def)

lemma held_two: "uses_heap plain_grow 0x100 two_held [0x8FF8 \<mapsto> 5, 0x8FE0 \<mapsto> 10]"
  by (rule uh_malloc [OF held_one _ second_malloc]) (simp_all add: MAX_REQUEST_def)

lemma allocator_calls_return_witness:
  "(\<exists>r g. malloc plain_grow 0x100 10 one_held = Some (r, g)) \<and> (\<exists>g. free_block 0x8FF8 one_held = Some g)"
  using allocator_calls_return [OF held_one plain_grow_up, of 10 "0x8FF8"] by (simp add: MAX_REQUEST_def)

lemma allocated_blocks_are_apart_witness:
  "unat (0x100 :: u32) + 16 \<le> unat (0x8FE0 :: u32) \<and> unat (0x8FE0 :: u32) + unat (10 :: u32) \<le> unat (brk two_held)
     \<and> (unat (0x8FE0 :: u32) + unat (10 :: u32) \<le> unat (0x8FF8 :: u32) \<or> unat (0x8FF8 :: u32) + unat (5 :: u32) \<le> unat (0x8FE0 :: u32))"
  by (rule allocated_blocks_are_apart [OF held_two plain_grow_up]) simp_all

end
