(* ===== verification/Fscheck.thy ===== *)
theory Fscheck
  imports Layout
begin

text \<open>
  The file system checker of project 5, \<open>linux/fscheck.c\<close>. The mapped image is its bytes and the size of the
  file; a page of the mapping reads as 0 behind the end of the file, and a read behind the last page is \<open>Fault\<close>, like
  an index outside an array of the checker. A report and \<open>exit(1)\<close> is \<open>Inl\<close> of the error. The checker's three arrays are
  the record \<open>tallies\<close>. The loop that clears the two arrays over the inodes runs to the number of blocks: the entries
  behind it hold \<open>junk\<close>, and the zeroes it writes behind the arrays when there are more blocks than inodes fall into
  arrays declared before, which are zero at that point. Counters of loops are natural numbers.
\<close>

datatype fsck_error = Image_not_found | Bad_inode | Bad_address | Marked_free | Used_twice | Bad_directory | No_root
  | Parent_mismatch | Not_in_use | Not_in_directory | Inode_free | Bad_count | Directory_twice | Fault

record fsimage =
  img_bytes :: "nat \<Rightarrow> u8"
  st_size :: nat

record tallies =
  u_blocks :: "u32 list"
  uind_table :: "u32 list"
  uind_dir :: "u32 list"

subsection \<open>The image\<close>

definition image_byte :: "fsimage \<Rightarrow> nat \<Rightarrow> u8" where
  "image_byte img a = (if a < st_size img then img_bytes img a else 0)"

definition mapped_end :: "fsimage \<Rightarrow> nat" where
  "mapped_end img = (st_size img + 4095) div 4096 * 4096"

definition fetch8 :: "fsimage \<Rightarrow> nat \<Rightarrow> fsck_error + u8" where
  "fetch8 img a = (if a < mapped_end img then Inr (image_byte img a) else Inl Fault)"

definition fetch16 :: "fsimage \<Rightarrow> nat \<Rightarrow> fsck_error + u16" where
  "fetch16 img a = (if a + 2 \<le> mapped_end img then Inr (word16 (map (image_byte img) [a, a + 1])) else Inl Fault)"

definition fetch32 :: "fsimage \<Rightarrow> nat \<Rightarrow> fsck_error + u32" where
  "fetch32 img a = (if a + 4 \<le> mapped_end img then Inr (word32 (map (image_byte img) [a, a + 1, a + 2, a + 3])) else Inl Fault)"

definition read_superblock :: "fsimage \<Rightarrow> fsck_error + superblock" where
  "read_superblock img = bindE (fetch32 img BSIZE) (\<lambda>s. bindE (fetch32 img (BSIZE + 4)) (\<lambda>nb. bindE (fetch32 img (BSIZE + 8)) (\<lambda>ni.
     Inr \<lparr>sb_size = s, sb_nblocks = nb, sb_ninodes = ni\<rparr>)))"

definition nbitmaps :: "superblock \<Rightarrow> u32" where
  "nbitmaps sb = sb_nblocks sb div (512 * 8) + 1"

definition nind_blocks :: "superblock \<Rightarrow> u32" where
  "nind_blocks sb = sb_ninodes sb div IPB + 1"

definition b_start :: "superblock \<Rightarrow> u32" where
  "b_start sb = 2 + nind_blocks sb + nbitmaps sb"

text \<open>The offset of block \<open>a\<close> in the image; the product is one of 32-bit numbers. Inode \<open>i\<close> and its fields.\<close>

definition block_at :: "u32 \<Rightarrow> nat" where
  "block_at a = unat (a * 512)"

definition inode_at :: "nat \<Rightarrow> nat" where
  "inode_at i = 2 * BSIZE + 64 * i"

definition inode_type :: "fsimage \<Rightarrow> nat \<Rightarrow> fsck_error + u16" where
  "inode_type img i = fetch16 img (inode_at i)"

definition inode_nlink :: "fsimage \<Rightarrow> nat \<Rightarrow> fsck_error + u16" where
  "inode_nlink img i = fetch16 img (inode_at i + 6)"

definition inode_addr :: "fsimage \<Rightarrow> nat \<Rightarrow> nat \<Rightarrow> fsck_error + u32" where
  "inode_addr img i j = fetch32 img (inode_at i + 12 + 4 * j)"

definition indirect_addr :: "fsimage \<Rightarrow> u32 \<Rightarrow> nat \<Rightarrow> fsck_error + u32" where
  "indirect_addr img a j = fetch32 img (block_at a + 4 * j)"

text \<open>\<open>*byt & (1 << offst)\<close> for block \<open>a\<close>.\<close>

definition bitmap_bit :: "fsimage \<Rightarrow> superblock \<Rightarrow> u32 \<Rightarrow> fsck_error + bool" where
  "bitmap_bit img sb a = bindE (fetch32 img (block_at (b_start sb - nbitmaps sb) + 4 * unat (a div 32))) (\<lambda>w.
     Inr (w AND push_bit (unat (a mod 32)) 1 \<noteq> 0))"

text \<open>The two calls of \<open>strncmp\<close> that recognise the entries \<open>.\<close> and \<open>..\<close> by the first characters of the name.\<close>

definition names_dot :: "fsimage \<Rightarrow> nat \<Rightarrow> fsck_error + bool" where
  "names_dot img p = bindE (fetch8 img (p + 2)) (\<lambda>c. Inr (c = 46))"

definition names_dotdot :: "fsimage \<Rightarrow> nat \<Rightarrow> fsck_error + bool" where
  "names_dotdot img p = bindE (fetch8 img (p + 2)) (\<lambda>c. if c \<noteq> 46 then Inr False
     else bindE (fetch8 img (p + 3)) (\<lambda>d. Inr (d = 46)))"

fun foldE :: "('a \<Rightarrow> 's \<Rightarrow> 'e + 's) \<Rightarrow> 'a list \<Rightarrow> 's \<Rightarrow> 'e + 's" where
  "foldE f [] s = Inr s"
| "foldE f (x # xs) s = bindE (f x s) (foldE f xs)"

definition require :: "bool \<Rightarrow> fsck_error \<Rightarrow> fsck_error + unit" where
  "require b e = (if b then Inr () else Inl e)"

subsection \<open>The checks of one inode\<close>

definition use_addr :: "fsimage \<Rightarrow> superblock \<Rightarrow> u32 \<Rightarrow> tallies \<Rightarrow> fsck_error + tallies" where
  "use_addr img sb a t =
     (if a < b_start sb \<or> a \<ge> sb_size sb then Inl Bad_address
      else bindE (bitmap_bit img sb a) (\<lambda>b. bindE (require b Marked_free) (\<lambda>_.
        let k = unat (a - b_start sb) in
        if k \<ge> length (u_blocks t) then Inl Fault
        else if u_blocks t ! k = 1 then Inl Used_twice
        else Inr (t\<lparr>u_blocks := (u_blocks t)[k := 1]\<rparr>))))"

definition use_direct :: "fsimage \<Rightarrow> superblock \<Rightarrow> nat \<Rightarrow> tallies \<Rightarrow> fsck_error + tallies" where
  "use_direct img sb i = foldE (\<lambda>j t. bindE (inode_addr img i j) (\<lambda>a. if a \<noteq> 0 then use_addr img sb a t else Inr t)) [0..<NDIRECT + 1]"

definition use_indirect :: "fsimage \<Rightarrow> superblock \<Rightarrow> nat \<Rightarrow> tallies \<Rightarrow> fsck_error + tallies" where
  "use_indirect img sb i t = bindE (inode_addr img i NDIRECT) (\<lambda>ind.
     if ind = 0 then Inr t
     else foldE (\<lambda>j t. bindE (indirect_addr img ind j) (\<lambda>a. if a \<noteq> 0 then use_addr img sb a t else Inr t)) [0..<NINDIRECT] t)"

definition check_directory :: "fsimage \<Rightarrow> nat \<Rightarrow> fsck_error + unit" where
  "check_directory img i = bindE (inode_addr img i 0) (\<lambda>a.
     bindE (names_dot img (block_at a)) (\<lambda>d. bindE (require d Bad_directory) (\<lambda>_.
     bindE (names_dotdot img (block_at a + 16)) (\<lambda>d. require d Bad_directory))))"

definition check_root :: "fsimage \<Rightarrow> nat \<Rightarrow> fsck_error + unit" where
  "check_root img i = bindE (inode_addr img i 0) (\<lambda>a. bindE (require (a \<noteq> 0) No_root) (\<lambda>_.
     bindE (fetch16 img (block_at a)) (\<lambda>n. bindE (require (n = 1) No_root) (\<lambda>_.
     bindE (fetch16 img (block_at a + 16)) (\<lambda>n. require (n = 1) No_root)))))"

text \<open>The entries of one block of a directory are counted; \<open>n \<le> 0 && n \<ge> ninodes\<close> is the guard as the code has it.\<close>

definition count_entry :: "fsimage \<Rightarrow> superblock \<Rightarrow> nat \<Rightarrow> tallies \<Rightarrow> fsck_error + tallies" where
  "count_entry img sb p t = bindE (fetch16 img p) (\<lambda>n.
     if n \<le> 0 \<and> unat n \<ge> unat (sb_ninodes sb) then Inr t
     else bindE (names_dot img p) (\<lambda>d. bindE (if d then Inr True else names_dotdot img p) (\<lambda>d.
       if d then Inr t
       else if unat n \<ge> length (uind_dir t) then Inl Fault
       else Inr (t\<lparr>uind_dir := (uind_dir t)[unat n := uind_dir t ! unat n + 1]\<rparr>))))"

definition DPB :: nat where "DPB = 32"

definition count_block :: "fsimage \<Rightarrow> superblock \<Rightarrow> u32 \<Rightarrow> tallies \<Rightarrow> fsck_error + tallies" where
  "count_block img sb a = foldE (\<lambda>n. count_entry img sb (block_at a + 16 * n)) [0..<DPB]"

definition count_directory :: "fsimage \<Rightarrow> superblock \<Rightarrow> nat \<Rightarrow> tallies \<Rightarrow> fsck_error + tallies" where
  "count_directory img sb i t =
     bindE (foldE (\<lambda>j t. bindE (inode_addr img i j) (\<lambda>a. if a \<noteq> 0 then count_block img sb a t else Inr t)) [0..<NDIRECT + 1] t) (\<lambda>t.
     bindE (inode_addr img i NDIRECT) (\<lambda>ind.
       if ind = 0 then Inr t
       else foldE (\<lambda>j t. bindE (indirect_addr img ind j) (\<lambda>a. if a \<noteq> 0 then count_block img sb a t else Inr t)) [0..<NINDIRECT] t))"

text \<open>The search for the directory \<open>cdi\<close> in a block of its parent. The indirect blocks are those of the directory
  itself, \<open>dinp\<close>, not of the parent: the code reads them through the wrong inode.\<close>

definition find_entry :: "fsimage \<Rightarrow> superblock \<Rightarrow> u16 \<Rightarrow> nat \<Rightarrow> bool \<Rightarrow> fsck_error + bool" where
  "find_entry img sb cdi p found = bindE (fetch16 img p) (\<lambda>n.
     if n \<le> 0 \<and> unat n \<ge> unat (sb_ninodes sb) then Inr found
     else bindE (names_dot img p) (\<lambda>d. bindE (if d then Inr True else names_dotdot img p) (\<lambda>d.
       if d then Inr found else Inr (found \<or> n = cdi))))"

definition find_in_block :: "fsimage \<Rightarrow> superblock \<Rightarrow> u16 \<Rightarrow> u32 \<Rightarrow> bool \<Rightarrow> fsck_error + bool" where
  "find_in_block img sb cdi a = foldE (\<lambda>n. find_entry img sb cdi (block_at a + 16 * n)) [0..<DPB]"

definition find_in_parent :: "fsimage \<Rightarrow> superblock \<Rightarrow> nat \<Rightarrow> fsck_error + bool" where
  "find_in_parent img sb i = bindE (inode_addr img i 0) (\<lambda>a.
     bindE (fetch16 img (block_at a)) (\<lambda>cdi. bindE (fetch16 img (block_at a + 16)) (\<lambda>cdp.
     bindE (foldE (\<lambda>j f. bindE (inode_addr img (unat cdp) j) (\<lambda>a. if a \<noteq> 0 then find_in_block img sb cdi a f else Inr f))
        [0..<NDIRECT + 1] False) (\<lambda>f.
     bindE (inode_addr img (unat cdp) NDIRECT) (\<lambda>ind.
       if ind = 0 then Inr f
       else bindE (inode_addr img i NDIRECT) (\<lambda>own.
         foldE (\<lambda>j f. bindE (indirect_addr img own j) (\<lambda>a. if a \<noteq> 0 then find_in_block img sb cdi a f else Inr f)) [0..<NINDIRECT] f))))))"

definition check_inode :: "fsimage \<Rightarrow> superblock \<Rightarrow> nat \<Rightarrow> tallies \<Rightarrow> fsck_error + tallies" where
  "check_inode img sb i t = bindE (inode_type img i) (\<lambda>ty.
     if ty \<noteq> 0 \<and> ty \<noteq> T_FILE \<and> ty \<noteq> T_DEV \<and> ty \<noteq> T_DIR then Inl Bad_inode
     else bindE (if ty \<noteq> 0 then bindE (use_direct img sb i t) (use_indirect img sb i) else Inr t) (\<lambda>t.
       bindE (if ty = T_DIR then check_directory img i else Inr ()) (\<lambda>_.
       bindE (if i = unat ROOTINO then check_root img i else Inr ()) (\<lambda>_.
       let t = (if ty \<noteq> 0 then t\<lparr>uind_table := (uind_table t)[i := uind_table t ! i + 1]\<rparr> else t) in
       bindE (if ty = T_DIR then count_directory img sb i t else Inr t) (\<lambda>t.
       if ty = T_DIR \<and> i \<noteq> 1 then bindE (find_in_parent img sb i) (\<lambda>f. bindE (require f Parent_mismatch) (\<lambda>_. Inr t))
       else Inr t)))))"

subsection \<open>The checks after the scan\<close>

definition check_bitmap :: "fsimage \<Rightarrow> superblock \<Rightarrow> tallies \<Rightarrow> fsck_error + unit" where
  "check_bitmap img sb t = foldE (\<lambda>l _. bindE (bitmap_bit img sb (of_nat l)) (\<lambda>b.
     require (\<not> b \<or> u_blocks t ! (l - unat (b_start sb)) \<noteq> 0) Not_in_use)) [unat (b_start sb)..<unat (b_start sb + sb_nblocks sb)] ()"

definition check_found :: "superblock \<Rightarrow> tallies \<Rightarrow> fsck_error + unit" where
  "check_found sb t = foldE (\<lambda>l _. require (\<not> (uind_table t ! l \<noteq> 0 \<and> uind_dir t ! l = 0)) Not_in_directory) [2..<unat (sb_ninodes sb)] ()"

definition check_marked :: "superblock \<Rightarrow> tallies \<Rightarrow> fsck_error + unit" where
  "check_marked sb t = foldE (\<lambda>l _. require (\<not> (uind_dir t ! l \<noteq> 0 \<and> uind_table t ! l = 0)) Inode_free) [2..<unat (sb_ninodes sb)] ()"

definition check_counts :: "fsimage \<Rightarrow> superblock \<Rightarrow> tallies \<Rightarrow> fsck_error + unit" where
  "check_counts img sb t = foldE (\<lambda>i _. bindE (inode_type img i) (\<lambda>ty.
     bindE (if ty = T_FILE then bindE (inode_nlink img i) (\<lambda>n. require (scast n = uind_dir t ! i) Bad_count) else Inr ()) (\<lambda>_.
     require (\<not> (ty = T_DIR \<and> i \<noteq> 1 \<and> uind_dir t ! i \<noteq> 1)) Directory_twice))) [0..<unat (sb_ninodes sb)] ()"

definition initial_tallies :: "(nat \<Rightarrow> u32) \<Rightarrow> (nat \<Rightarrow> u32) \<Rightarrow> superblock \<Rightarrow> tallies" where
  "initial_tallies junk_table junk_dir sb = \<lparr>u_blocks = replicate (unat (sb_nblocks sb)) 0,
     uind_table = map (\<lambda>k. if k < unat (sb_nblocks sb) then 0 else junk_table k) [0..<unat (sb_ninodes sb)],
     uind_dir = map (\<lambda>k. if k < unat (sb_nblocks sb) then 0 else junk_dir k) [0..<unat (sb_ninodes sb)]\<rparr>"

definition fscheck :: "(nat \<Rightarrow> u32) \<Rightarrow> (nat \<Rightarrow> u32) \<Rightarrow> fsimage option \<Rightarrow> fsck_error + unit" where
  "fscheck junk_table junk_dir arg = (case arg of None \<Rightarrow> Inl Image_not_found | Some img \<Rightarrow>
     bindE (read_superblock img) (\<lambda>sb.
     bindE (foldE (check_inode img sb) [0..<unat (sb_ninodes sb)] (initial_tallies junk_table junk_dir sb)) (\<lambda>t.
     bindE (check_bitmap img sb t) (\<lambda>_. bindE (check_found sb t) (\<lambda>_. bindE (check_marked sb t) (\<lambda>_.
     check_counts img sb t))))))"

subsection \<open>What the image holds\<close>

definition word_at :: "fsimage \<Rightarrow> nat \<Rightarrow> u32" where
  "word_at img a = word32 (map (image_byte img) [a, a + 1, a + 2, a + 3])"

definition half_at :: "fsimage \<Rightarrow> nat \<Rightarrow> u16" where
  "half_at img a = word16 (map (image_byte img) [a, a + 1])"

lemma fetch_Inr:
  "fetch32 img a = Inr w \<longleftrightarrow> a + 4 \<le> mapped_end img \<and> w = word_at img a"
  "fetch16 img a = Inr h \<longleftrightarrow> a + 2 \<le> mapped_end img \<and> h = half_at img a"
  "fetch8 img a = Inr b \<longleftrightarrow> a < mapped_end img \<and> b = image_byte img a"
  by (auto simp: fetch32_def fetch16_def fetch8_def word_at_def half_at_def)

lemma require_Inr [simp]: "require b e = Inr u \<longleftrightarrow> b"
  by (simp add: require_def)

definition type_of :: "fsimage \<Rightarrow> nat \<Rightarrow> u16" where
  "type_of img i = half_at img (inode_at i)"

definition nlink_of :: "fsimage \<Rightarrow> nat \<Rightarrow> u16" where
  "nlink_of img i = half_at img (inode_at i + 6)"

definition addr_of :: "fsimage \<Rightarrow> nat \<Rightarrow> nat \<Rightarrow> u32" where
  "addr_of img i j = word_at img (inode_at i + 12 + 4 * j)"

definition in_bitmap :: "fsimage \<Rightarrow> superblock \<Rightarrow> u32 \<Rightarrow> bool" where
  "in_bitmap img sb a = bit (word_at img (block_at (b_start sb - nbitmaps sb) + 4 * unat (a div 32))) (unat (a mod 32))"

lemma bitmap_bit_Inr: "bitmap_bit img sb a = Inr b \<Longrightarrow> b = in_bitmap img sb a"
  by (auto simp: bitmap_bit_def bindE_eq_Inr_iff fetch_Inr in_bitmap_def bit_iff_and_push_bit_not_eq_0)

text \<open>The blocks that an inode names: the direct ones, the indirect block, and the entries of the indirect block.\<close>

definition inode_blocks :: "fsimage \<Rightarrow> nat \<Rightarrow> u32 list" where
  "inode_blocks img i = filter (\<lambda>a. a \<noteq> 0) (map (addr_of img i) [0..<NDIRECT + 1]) @
     (if addr_of img i NDIRECT = 0 then []
      else filter (\<lambda>a. a \<noteq> 0) (map (\<lambda>j. word_at img (block_at (addr_of img i NDIRECT) + 4 * j)) [0..<NINDIRECT]))"

definition blocks_below :: "fsimage \<Rightarrow> nat \<Rightarrow> u32 list" where
  "blocks_below img n = concat (map (\<lambda>i. if type_of img i = 0 then [] else inode_blocks img i) [0..<n])"

lemma blocks_below_Suc: "blocks_below img (Suc n) = blocks_below img n @ (if type_of img n = 0 then [] else inode_blocks img n)"
  by (simp add: blocks_below_def)

text \<open>The inode numbers in the entries of a block of a directory whose names do not start with a dot.\<close>

definition block_refs :: "fsimage \<Rightarrow> u32 \<Rightarrow> u16 list" where
  "block_refs img a = map (\<lambda>n. half_at img (block_at a + 16 * n)) (filter (\<lambda>n. image_byte img (block_at a + 16 * n + 2) \<noteq> 46) [0..<DPB])"

definition refs_below :: "fsimage \<Rightarrow> nat \<Rightarrow> u16 list" where
  "refs_below img n = concat (map (\<lambda>i. if type_of img i = T_DIR then concat (map (block_refs img) (inode_blocks img i)) else []) [0..<n])"

lemma refs_below_Suc: "refs_below img (Suc n) = refs_below img n @ (if type_of img n = T_DIR then concat (map (block_refs img) (inode_blocks img n)) else [])"
  by (simp add: refs_below_def)

subsection \<open>The tallies of a scan\<close>

text \<open>\<open>u_blocks\<close> marks exactly the blocks of \<open>ls\<close>, which are all different, in range and in use in the bitmap.\<close>

definition marks :: "fsimage \<Rightarrow> superblock \<Rightarrow> u32 list \<Rightarrow> tallies \<Rightarrow> bool" where
  "marks img sb ls t = (length (u_blocks t) = unat (sb_nblocks sb) \<and> distinct ls
     \<and> (\<forall>a \<in> set ls. b_start sb \<le> a \<and> a < sb_size sb \<and> unat (a - b_start sb) < unat (sb_nblocks sb) \<and> in_bitmap img sb a)
     \<and> (\<forall>k < unat (sb_nblocks sb). u_blocks t ! k = (if \<exists>a \<in> set ls. unat (a - b_start sb) = k then 1 else 0)))"

text \<open>\<open>uind_dir\<close> counts the inode numbers \<open>rs\<close>.\<close>

definition counts :: "superblock \<Rightarrow> tallies \<Rightarrow> u16 list \<Rightarrow> tallies \<Rightarrow> bool" where
  "counts sb t0 rs t = (length (uind_dir t) = unat (sb_ninodes sb) \<and> (\<forall>n \<in> set rs. unat n < unat (sb_ninodes sb))
     \<and> (\<forall>k < unat (sb_ninodes sb). uind_dir t ! k = uind_dir t0 ! k + of_nat (length (filter (\<lambda>n. unat n = k) rs))))"

text \<open>A fold whose steps add the items of \<open>g\<close> to a list that the state keeps track of.\<close>

lemma foldE_collects:
  assumes "foldE f xs s = Inr s'" and "P ls s"
    and "\<And>x s s' ls. x \<in> set xs \<Longrightarrow> f x s = Inr s' \<Longrightarrow> P ls s \<Longrightarrow> P (ls @ g x) s'"
  shows "P (ls @ concat (map g xs)) s'"
  using assms
proof (induction xs arbitrary: s ls)
  case (Cons x xs)
  then obtain s1 where s1: "f x s = Inr s1" "foldE f xs s1 = Inr s'" by (auto simp: bindE_eq_Inr_iff)
  have "P (ls @ g x) s1" using Cons.prems(3) [OF _ s1(1) Cons.prems(2)] by simp
  then show ?case using Cons.IH [OF s1(2), of "ls @ g x"] Cons.prems(3) by simp
qed simp

lemma foldE_all:
  assumes "foldE f xs s = Inr s'" and "\<And>x s s'. x \<in> set xs \<Longrightarrow> f x s = Inr s' \<Longrightarrow> Q x"
  shows "\<forall>x \<in> set xs. Q x"
  using assms by (induction xs arbitrary: s) (auto simp: bindE_eq_Inr_iff)

lemma foldE_keeps:
  assumes "foldE f xs s = Inr s'" and "\<And>x s s'. x \<in> set xs \<Longrightarrow> f x s = Inr s' \<Longrightarrow> h s' = h s"
  shows "h s' = h s"
  using assms
proof (induction xs arbitrary: s)
  case (Cons x xs)
  then obtain s1 where "f x s = Inr s1" "foldE f xs s1 = Inr s'" by (auto simp: bindE_eq_Inr_iff)
  then show ?case using Cons by (metis list.set_intros)
qed simp

lemma concat_if: "concat (map (\<lambda>x. if p x then [g x] else []) xs) = map g (filter p xs)"
  by (induction xs) auto

lemma use_addr_marks:
  assumes r: "use_addr img sb a t = Inr t'" and m: "marks img sb ls t"
  shows "marks img sb (ls @ [a]) t'" and "uind_table t' = uind_table t" and "uind_dir t' = uind_dir t"
proof -
  let ?k = "unat (a - b_start sb)"
  have a: "b_start sb \<le> a" "a < sb_size sb" "in_bitmap img sb a" "?k < length (u_blocks t)" "u_blocks t ! ?k \<noteq> 1"
      and t': "t' = t\<lparr>u_blocks := (u_blocks t)[?k := 1]\<rparr>"
    using r bitmap_bit_Inr [of img sb a] by (auto simp: use_addr_def Let_def bindE_eq_Inr_iff not_le not_less split: if_splits)
  have l: "length (u_blocks t) = unat (sb_nblocks sb)" using m by (simp add: marks_def)
  have new: "\<not> (\<exists>b \<in> set ls. unat (b - b_start sb) = ?k)" using m a(4,5) l unfolding marks_def by metis
  then have "a \<notin> set ls" by auto
  then show "marks img sb (ls @ [a]) t'" using m a l new by (auto simp: marks_def t' nth_list_update)
  show "uind_table t' = uind_table t" "uind_dir t' = uind_dir t" by (simp_all add: t')
qed

text \<open>The two loops over the addresses of an inode, with the blocks \<open>v j\<close>.\<close>

lemma foldE_addresses:
  assumes r: "foldE (\<lambda>j t. bindE (g j) (\<lambda>a. if a \<noteq> 0 then f a t else Inr t)) js t = Inr t'"
    and v: "\<And>j a. g j = Inr a \<Longrightarrow> a = v j" and p: "P ls t"
    and f: "\<And>a t t' ls. f a t = Inr t' \<Longrightarrow> P ls t \<Longrightarrow> P (ls @ h a) t'"
  shows "P (ls @ concat (map h (filter (\<lambda>a. a \<noteq> 0) (map v js)))) t'"
proof -
  have "P (ls @ concat (map (\<lambda>j. if v j \<noteq> 0 then h (v j) else []) js)) t'"
    by (rule foldE_collects [where P = P, OF r p]) (use v f in \<open>auto simp: bindE_eq_Inr_iff split: if_splits\<close>)
  moreover have "concat (map (\<lambda>j. if v j \<noteq> 0 then h (v j) else []) js) = concat (map h (filter (\<lambda>a. a \<noteq> 0) (map v js)))"
    by (induction js) auto
  ultimately show ?thesis by simp
qed

lemma inode_addr_Inr: "inode_addr img i j = Inr a \<Longrightarrow> a = addr_of img i j"
  by (simp add: inode_addr_def addr_of_def fetch_Inr)

lemma indirect_addr_Inr: "indirect_addr img a j = Inr b \<Longrightarrow> b = word_at img (block_at a + 4 * j)"
  by (simp add: indirect_addr_def fetch_Inr)

lemma uses_marks:
  assumes d: "use_direct img sb i t = Inr t1" and n: "use_indirect img sb i t1 = Inr t'" and m: "marks img sb ls t"
  shows "marks img sb (ls @ inode_blocks img i) t'" and "uind_table t' = uind_table t" and "uind_dir t' = uind_dir t"
proof -
  let ?P = "\<lambda>ls s. marks img sb ls s \<and> uind_table s = uind_table t \<and> uind_dir s = uind_dir t"
  have step: "?P (ls @ [a]) t2" if "use_addr img sb a t1 = Inr t2" "?P ls t1" for a t1 t2 ls
    using use_addr_marks [of img sb a t1 t2 ls] that by simp
  have 1: "?P (ls @ concat (map (\<lambda>a. [a]) (filter (\<lambda>a. a \<noteq> 0) (map (addr_of img i) [0..<NDIRECT + 1])))) t1"
    by (rule foldE_addresses [where P = ?P, OF d [unfolded use_direct_def] inode_addr_Inr _ step]) (use m in simp_all)
  let ?ind = "addr_of img i NDIRECT"
  have "?P (ls @ inode_blocks img i) t'"
  proof (cases "?ind = 0")
    case True
    then have "t' = t1" using n by (auto simp: use_indirect_def bindE_eq_Inr_iff dest: inode_addr_Inr)
    then show ?thesis using 1 True by (simp add: inode_blocks_def)
  next
    case False
    then have f: "foldE (\<lambda>j t. bindE (indirect_addr img ?ind j) (\<lambda>a. if a \<noteq> 0 then use_addr img sb a t else Inr t)) [0..<NINDIRECT] t1 = Inr t'"
      using n by (auto simp: use_indirect_def bindE_eq_Inr_iff dest: inode_addr_Inr)
    have "?P ((ls @ concat (map (\<lambda>a. [a]) (filter (\<lambda>a. a \<noteq> 0) (map (addr_of img i) [0..<NDIRECT + 1])))) @
        concat (map (\<lambda>a. [a]) (filter (\<lambda>a. a \<noteq> 0) (map (\<lambda>j. word_at img (block_at ?ind + 4 * j)) [0..<NINDIRECT])))) t'"
      by (rule foldE_addresses [where P = ?P, OF f indirect_addr_Inr _ step]) (use 1 in simp_all)
    then show ?thesis using False by (simp add: inode_blocks_def)
  qed
  then show "marks img sb (ls @ inode_blocks img i) t'" "uind_table t' = uind_table t" "uind_dir t' = uind_dir t" by simp_all
qed

lemma names_Inr:
  "names_dot img p = Inr d \<Longrightarrow> d = (image_byte img (p + 2) = 46)"
  "names_dotdot img p = Inr d \<Longrightarrow> d \<Longrightarrow> image_byte img (p + 2) = 46"
  by (auto simp: names_dot_def names_dotdot_def bindE_eq_Inr_iff fetch_Inr split: if_splits)

lemma count_entry_counts:
  assumes r: "count_entry img sb p t = Inr t'" and m: "counts sb t0 rs t" and n: "0 < unat (sb_ninodes sb)"
  shows "counts sb t0 (rs @ (if image_byte img (p + 2) = 46 then [] else [half_at img p])) t'"
    and "uind_table t' = uind_table t" and "u_blocks t' = u_blocks t"
proof -
  let ?n = "half_at img p"
  let ?k = "\<lambda>d. if d then Inr t else if unat ?n \<ge> length (uind_dir t) then Inl Fault
       else Inr (t\<lparr>uind_dir := (uind_dir t)[unat ?n := uind_dir t ! unat ?n + 1]\<rparr>)"
  have g: "\<not> (?n \<le> 0 \<and> unat (sb_ninodes sb) \<le> unat ?n)" using n by auto
  have f: "fetch16 img p = Inr ?n" using r by (auto simp: count_entry_def bindE_eq_Inr_iff fetch_Inr)
  have "bindE (names_dot img p) (\<lambda>d. bindE (if d then Inr True else names_dotdot img p) ?k) = Inr t'"
    using r unfolding count_entry_def f bindE_simps if_not_P [OF g] .
  then obtain d where d: "names_dot img p = Inr d" "bindE (if d then Inr True else names_dotdot img p) ?k = Inr t'"
    unfolding bindE_eq_Inr_iff [of "names_dot img p"] by blast
  then have dd: "d = (image_byte img (p + 2) = 46)" using names_Inr by blast
  have t': "t' = (if d then t else t\<lparr>uind_dir := (uind_dir t)[unat ?n := uind_dir t ! unat ?n + 1]\<rparr>)" "d \<or> unat ?n < length (uind_dir t)"
    using d(2) dd names_Inr(2) [of img p] by (auto simp: bindE_eq_Inr_iff split: if_splits)
  show "counts sb t0 (rs @ (if image_byte img (p + 2) = 46 then [] else [?n])) t'"
    using m t' dd by (auto simp: counts_def nth_list_update)
  show "uind_table t' = uind_table t" "u_blocks t' = u_blocks t" by (simp_all add: t')
qed

lemma count_directory_counts:
  assumes r: "count_directory img sb i t = Inr t'" and m: "counts sb t0 rs t" and n: "0 < unat (sb_ninodes sb)"
  shows "counts sb t0 (rs @ concat (map (block_refs img) (inode_blocks img i))) t'"
    and "uind_table t' = uind_table t" and "u_blocks t' = u_blocks t"
proof -
  let ?P = "\<lambda>ls s. counts sb t0 ls s \<and> uind_table s = uind_table t \<and> u_blocks s = u_blocks t"
  have step: "?P (ls @ block_refs img a) t2" if b: "count_block img sb a t1 = Inr t2" and p: "?P ls t1" for a t1 t2 ls
  proof -
    have "?P (ls @ concat (map (\<lambda>n. if image_byte img (block_at a + 16 * n + 2) = 46 then [] else [half_at img (block_at a + 16 * n)]) [0..<DPB])) t2"
      by (rule foldE_collects [where P = ?P, OF b [unfolded count_block_def] p]) (use count_entry_counts [OF _ _ n] in \<open>metis (no_types, lifting)\<close>)
    moreover have "concat (map (\<lambda>n. if image_byte img (block_at a + 16 * n + 2) = 46 then [] else [half_at img (block_at a + 16 * n)]) ns)
        = map (\<lambda>n. half_at img (block_at a + 16 * n)) (filter (\<lambda>n. image_byte img (block_at a + 16 * n + 2) \<noteq> 46) ns)" for ns
      by (induction ns) auto
    ultimately show ?thesis by (simp add: block_refs_def)
  qed
  obtain t1 where d: "foldE (\<lambda>j t. bindE (inode_addr img i j) (\<lambda>a. if a \<noteq> 0 then count_block img sb a t else Inr t)) [0..<NDIRECT + 1] t = Inr t1"
      and n: "bindE (inode_addr img i NDIRECT) (\<lambda>ind. if ind = 0 then Inr t1
       else foldE (\<lambda>j t. bindE (indirect_addr img ind j) (\<lambda>a. if a \<noteq> 0 then count_block img sb a t else Inr t)) [0..<NINDIRECT] t1) = Inr t'"
    using r by (auto simp: count_directory_def bindE_eq_Inr_iff)
  have 1: "?P (rs @ concat (map (block_refs img) (filter (\<lambda>a. a \<noteq> 0) (map (addr_of img i) [0..<NDIRECT + 1])))) t1"
    by (rule foldE_addresses [where P = ?P, OF d inode_addr_Inr _ step]) (use m in simp_all)
  let ?ind = "addr_of img i NDIRECT"
  have "?P (rs @ concat (map (block_refs img) (inode_blocks img i))) t'"
  proof (cases "?ind = 0")
    case True
    then have "t' = t1" using n by (auto simp: bindE_eq_Inr_iff dest: inode_addr_Inr)
    then show ?thesis using 1 True by (simp add: inode_blocks_def)
  next
    case False
    then have f: "foldE (\<lambda>j t. bindE (indirect_addr img ?ind j) (\<lambda>a. if a \<noteq> 0 then count_block img sb a t else Inr t)) [0..<NINDIRECT] t1 = Inr t'"
      using n by (auto simp: bindE_eq_Inr_iff dest: inode_addr_Inr)
    have "?P ((rs @ concat (map (block_refs img) (filter (\<lambda>a. a \<noteq> 0) (map (addr_of img i) [0..<NDIRECT + 1])))) @
        concat (map (block_refs img) (filter (\<lambda>a. a \<noteq> 0) (map (\<lambda>j. word_at img (block_at ?ind + 4 * j)) [0..<NINDIRECT])))) t'"
      by (rule foldE_addresses [where P = ?P, OF f indirect_addr_Inr _ step]) (use 1 in simp_all)
    then show ?thesis using False by (simp add: inode_blocks_def)
  qed
  then show "counts sb t0 (rs @ concat (map (block_refs img) (inode_blocks img i))) t'"
    "uind_table t' = uind_table t" "u_blocks t' = u_blocks t" by simp_all
qed

text \<open>What the checks of the inodes below \<open>n\<close> have established.\<close>

definition dir_format :: "fsimage \<Rightarrow> nat \<Rightarrow> bool" where
  "dir_format img i = (image_byte img (block_at (addr_of img i 0) + 2) = 46 \<and> image_byte img (block_at (addr_of img i 0) + 18) = 46)"

definition root_format :: "fsimage \<Rightarrow> bool" where
  "root_format img = (addr_of img 1 0 \<noteq> 0 \<and> half_at img (block_at (addr_of img 1 0)) = 1 \<and> half_at img (block_at (addr_of img 1 0) + 16) = 1)"

definition scanned :: "fsimage \<Rightarrow> superblock \<Rightarrow> tallies \<Rightarrow> nat \<Rightarrow> tallies \<Rightarrow> bool" where
  "scanned img sb t0 n t = (marks img sb (blocks_below img n) t \<and> counts sb t0 (refs_below img n) t
     \<and> length (uind_table t) = unat (sb_ninodes sb)
     \<and> (\<forall>k < unat (sb_ninodes sb). uind_table t ! k = uind_table t0 ! k + (if k < n \<and> type_of img k \<noteq> 0 then 1 else 0))
     \<and> (\<forall>i < n. type_of img i \<in> {0, T_FILE, T_DEV, T_DIR} \<and> (type_of img i = T_DIR \<longrightarrow> dir_format img i)) \<and> (1 < n \<longrightarrow> root_format img))"

lemma check_directory_format: "check_directory img i = Inr u \<Longrightarrow> dir_format img i"
  by (auto simp: check_directory_def dir_format_def bindE_eq_Inr_iff ac_simps dest!: inode_addr_Inr names_Inr)

lemma check_root_format: "check_root img 1 = Inr u \<Longrightarrow> root_format img"
  by (auto simp: check_root_def root_format_def bindE_eq_Inr_iff fetch_Inr dest!: inode_addr_Inr)

lemma check_inode_scanned:
  assumes r: "check_inode img sb n t = Inr t'" and s: "scanned img sb t0 n t" and n: "n < unat (sb_ninodes sb)"
  shows "scanned img sb t0 (Suc n) t'"
proof -
  let ?ty = "type_of img n"
  have ty: "inode_type img n = Inr ?ty" using r by (auto simp: check_inode_def bindE_eq_Inr_iff inode_type_def fetch_Inr type_of_def)
  have good: "?ty \<in> {0, T_FILE, T_DEV, T_DIR}"
  proof (rule ccontr)
    assume "\<not> ?thesis"
    then show False using r ty by (simp add: check_inode_def)
  qed
  define k where "k = (\<lambda>t. bindE (if ?ty = T_DIR then check_directory img n else Inr ()) (\<lambda>_.
       bindE (if n = unat ROOTINO then check_root img n else Inr ()) (\<lambda>_.
       let t = (if ?ty \<noteq> 0 then t\<lparr>uind_table := (uind_table t)[n := uind_table t ! n + 1]\<rparr> else t) in
       bindE (if ?ty = T_DIR then count_directory img sb n t else Inr t) (\<lambda>t.
       if ?ty = T_DIR \<and> n \<noteq> 1 then bindE (find_in_parent img sb n) (\<lambda>f. bindE (require f Parent_mismatch) (\<lambda>_. Inr t))
       else Inr t))))"
  have "bindE (if ?ty \<noteq> 0 then bindE (use_direct img sb n t) (use_indirect img sb n) else Inr t) k = Inr t'"
    using r ty good unfolding check_inode_def k_def by (auto split: if_splits)
  then obtain t1 where u: "(if ?ty \<noteq> 0 then bindE (use_direct img sb n t) (use_indirect img sb n) else Inr t) = Inr t1" and k: "k t1 = Inr t'"
    unfolding bindE_eq_Inr_iff [where f = k] by blast
  have "marks img sb (blocks_below img (Suc n)) t1 \<and> uind_table t1 = uind_table t \<and> uind_dir t1 = uind_dir t"
  proof (cases "?ty = 0")
    case True
    then show ?thesis using u s by (simp add: scanned_def blocks_below_Suc)
  next
    case False
    then obtain t2 where "use_direct img sb n t = Inr t2" "use_indirect img sb n t2 = Inr t1" using u by (auto simp: bindE_eq_Inr_iff)
    note m = uses_marks [OF this, of "blocks_below img n"]
    show ?thesis using m False s by (simp add: scanned_def blocks_below_Suc)
  qed
  then have m1: "marks img sb (blocks_below img (Suc n)) t1" "uind_table t1 = uind_table t" "uind_dir t1 = uind_dir t" by simp_all
  define t2 where "t2 = (if ?ty \<noteq> 0 then t1\<lparr>uind_table := (uind_table t1)[n := uind_table t1 ! n + 1]\<rparr> else t1)"
  have k2: "?ty = T_DIR \<Longrightarrow> dir_format img n" "n = 1 \<Longrightarrow> root_format img"
      "(if ?ty = T_DIR then count_directory img sb n t2 else Inr t2) = Inr t'"
    using k unfolding k_def Let_def by (auto simp: bindE_eq_Inr_iff t2_def ROOTINO_def split: if_splits dest: check_directory_format check_root_format [unfolded One_nat_def])
  have c2: "counts sb t0 (refs_below img n) t2" "marks img sb (blocks_below img (Suc n)) t2"
    using s m1 by (simp_all add: t2_def counts_def marks_def scanned_def)
  have "counts sb t0 (refs_below img (Suc n)) t' \<and> uind_table t' = uind_table t2 \<and> u_blocks t' = u_blocks t2"
  proof (cases "?ty = T_DIR")
    case True
    then have "count_directory img sb n t2 = Inr t'" using k2(3) by simp
    from count_directory_counts [OF this c2(1)] n True show ?thesis by (simp add: refs_below_Suc)
  next
    case False
    then show ?thesis using k2(3) c2(1) by (simp add: refs_below_Suc)
  qed
  then have c3: "counts sb t0 (refs_below img (Suc n)) t'" "uind_table t' = uind_table t2" "u_blocks t' = u_blocks t2" by simp_all
  have m3: "marks img sb (blocks_below img (Suc n)) t'" using c2(2) c3(3) by (simp add: marks_def)
  have "length (uind_table t') = unat (sb_ninodes sb)" using s c3(2) m1(2) by (simp add: scanned_def t2_def)
  moreover have "uind_table t' ! j = uind_table t0 ! j + (if j < Suc n \<and> type_of img j \<noteq> 0 then 1 else 0)" if "j < unat (sb_ninodes sb)" for j
    using s c3(2) m1(2) that n by (auto simp: scanned_def t2_def nth_list_update less_Suc_eq)
  ultimately show ?thesis using c3(1) m3 k2(1,2) good s by (auto simp: scanned_def less_Suc_eq)
qed

lemma scan_scanned:
  assumes "foldE (check_inode img sb) [m..<n] t = Inr t'" and "m \<le> n" and "n \<le> unat (sb_ninodes sb)" and "scanned img sb t0 m t"
  shows "scanned img sb t0 n t'"
  using assms
proof (induction "n - m" arbitrary: m t)
  case (Suc d)
  then have "m < n" by simp
  then have "[m..<n] = m # [Suc m..<n]" by (rule upt_conv_Cons)
  then obtain t1 where "check_inode img sb m t = Inr t1" "foldE (check_inode img sb) [Suc m..<n] t1 = Inr t'"
    using Suc.prems(1) by (auto simp: bindE_eq_Inr_iff)
  then show ?case using Suc.hyps(1) [of "Suc m" t1] Suc.hyps(2) Suc.prems check_inode_scanned \<open>m < n\<close> by simp
qed simp

subsection \<open>Accepted images\<close>

lemma fscheck_accepts:
  assumes "fscheck j1 j2 (Some img) = Inr u"
  obtains sb t where "read_superblock img = Inr sb" and "scanned img sb (initial_tallies j1 j2 sb) (unat (sb_ninodes sb)) t"
    and "check_bitmap img sb t = Inr ()" and "check_found sb t = Inr ()" and "check_marked sb t = Inr ()" and "check_counts img sb t = Inr ()"
proof -
  obtain sb t where r: "read_superblock img = Inr sb" and f: "foldE (check_inode img sb) [0..<unat (sb_ninodes sb)] (initial_tallies j1 j2 sb) = Inr t"
    and c: "check_bitmap img sb t = Inr ()" "check_found sb t = Inr ()" "check_marked sb t = Inr ()" "check_counts img sb t = Inr ()"
    using assms by (auto simp: fscheck_def bindE_eq_Inr_iff)
  have "scanned img sb (initial_tallies j1 j2 sb) 0 (initial_tallies j1 j2 sb)"
    by (simp add: scanned_def marks_def counts_def blocks_below_def refs_below_def initial_tallies_def)
  from scan_scanned [OF f _ _ this] show ?thesis using that r c by simp
qed

lemma in_bitmap_of: "bitmap_bit img sb a = Inr b \<Longrightarrow> b \<longleftrightarrow> in_bitmap img sb a"
  using bitmap_bit_Inr by blast

lemma check_bitmap_used:
  assumes c: "check_bitmap img sb t = Inr ()" and m: "marks img sb ls t" and w: "unat (b_start sb) + unat (sb_nblocks sb) < 4294967296"
    and a: "b_start sb \<le> a" "a < b_start sb + sb_nblocks sb"
  shows "in_bitmap img sb a \<longleftrightarrow> a \<in> set ls"
proof
  assume "a \<in> set ls"
  then show "in_bitmap img sb a" using m by (simp add: marks_def)
next
  assume b: "in_bitmap img sb a"
  have u: "unat (b_start sb + sb_nblocks sb) = unat (b_start sb) + unat (sb_nblocks sb)" by (rule unat_add_small [OF w])
  have l: "unat a \<in> set [unat (b_start sb)..<unat (b_start sb + sb_nblocks sb)]" using a by (simp add: word_le_nat_alt word_less_nat_alt)
  have "\<forall>l \<in> set [unat (b_start sb)..<unat (b_start sb + sb_nblocks sb)]. in_bitmap img sb (of_nat l) \<longrightarrow> u_blocks t ! (l - unat (b_start sb)) \<noteq> 0"
    by (rule foldE_all [OF c [unfolded check_bitmap_def]]) (auto simp: bindE_eq_Inr_iff dest: in_bitmap_of)
  then have nz: "u_blocks t ! (unat a - unat (b_start sb)) \<noteq> 0" using l b by force
  have k: "unat (a - b_start sb) = unat a - unat (b_start sb)" by (rule unat_sub_small [OF a(1)])
  then have "unat (a - b_start sb) < unat (sb_nblocks sb)" using l u by (simp only: set_upt atLeastLessThan_iff) linarith
  then obtain c where c: "c \<in> set ls" "unat (c - b_start sb) = unat (a - b_start sb)" using nz m k unfolding marks_def by metis
  then have "c - b_start sb = a - b_start sb" by (simp only: word_unat_eq_iff)
  then show "a \<in> set ls" using c(1) by simp
qed

text \<open>The checker's own count of the entries that name the inode \<open>i\<close>.\<close>

definition ref_count :: "fsimage \<Rightarrow> superblock \<Rightarrow> nat \<Rightarrow> nat" where
  "ref_count img sb i = length (filter (\<lambda>n. unat n = i) (refs_below img (unat (sb_ninodes sb))))"

text \<open>
  The links of the image, without regard to the checker: the data blocks of a directory are the direct ones and those that the
  indirect block points to; an entry with a number other than 0 is a link unless its name is \<open>.\<close> or \<open>..\<close>.
\<close>

definition data_blocks :: "fsimage \<Rightarrow> nat \<Rightarrow> u32 list" where
  "data_blocks img d = filter (\<lambda>a. a \<noteq> 0) (map (addr_of img d) [0..<NDIRECT]) @
     (if addr_of img d NDIRECT = 0 then []
      else filter (\<lambda>a. a \<noteq> 0) (map (\<lambda>j. word_at img (block_at (addr_of img d NDIRECT) + 4 * j)) [0..<NINDIRECT]))"

definition dir_entries :: "fsimage \<Rightarrow> nat \<Rightarrow> nat list" where
  "dir_entries img d = concat (map (\<lambda>a. map (\<lambda>n. block_at a + 16 * n) [0..<DPB]) (data_blocks img d))"

definition entry_name :: "fsimage \<Rightarrow> nat \<Rightarrow> u8 list" where
  "entry_name img e = takeWhile (\<lambda>b. b \<noteq> 0) (map (image_byte img) [e + 2..<e + 16])"

definition is_link :: "fsimage \<Rightarrow> nat \<Rightarrow> bool" where
  "is_link img e = (half_at img e \<noteq> 0 \<and> entry_name img e \<notin> {[46], [46, 46]})"

definition links_to :: "fsimage \<Rightarrow> superblock \<Rightarrow> nat \<Rightarrow> nat" where
  "links_to img sb i = length (filter (\<lambda>e. is_link img e \<and> unat (half_at img e) = i)
     (concat (map (\<lambda>d. if type_of img d = T_DIR then dir_entries img d else []) [0..<unat (sb_ninodes sb)])))"

text \<open>
  Images on which the checker's count is the number of links: it takes the indirect block of a directory for a block of entries, and
  leaves out every name that starts with a dot.
\<close>

definition plain_dirs :: "fsimage \<Rightarrow> superblock \<Rightarrow> bool" where
  "plain_dirs img sb = (\<forall>d < unat (sb_ninodes sb). type_of img d = T_DIR \<longrightarrow> addr_of img d NDIRECT = 0
     \<and> (\<forall>e \<in> set (dir_entries img d). half_at img e \<noteq> 0 \<and> image_byte img (e + 2) = 46 \<longrightarrow> entry_name img e \<in> {[46], [46, 46]}))"

lemma name_starts: "entry_name img e \<in> {[46], [46, 46]} \<Longrightarrow> image_byte img (e + 2) = 46"
  unfolding entry_name_def by (simp add: upt_conv_Cons split: if_splits)

lemma length_filter_concat: "length (filter P (concat xss)) = sum_list (map (\<lambda>xs. length (filter P xs)) xss)"
  by (induction xss) simp_all

lemma dir_count:
  assumes "addr_of img d NDIRECT = 0" and i: "i \<noteq> 0"
    and dots: "\<forall>e \<in> set (dir_entries img d). half_at img e \<noteq> 0 \<and> image_byte img (e + 2) = 46 \<longrightarrow> entry_name img e \<in> {[46], [46, 46]}"
  shows "length (filter (\<lambda>n. unat n = i) (concat (map (block_refs img) (inode_blocks img d))))
    = length (filter (\<lambda>e. is_link img e \<and> unat (half_at img e) = i) (dir_entries img d))"
proof -
  have b: "inode_blocks img d = data_blocks img d" using assms(1) by (simp add: inode_blocks_def data_blocks_def)
  have blk: "length (filter (\<lambda>n. unat n = i) (block_refs img a))
      = length (filter (\<lambda>e. is_link img e \<and> unat (half_at img e) = i) (map (\<lambda>n. block_at a + 16 * n) [0..<DPB]))"
    if a: "a \<in> set (data_blocks img d)" for a
  proof -
    have "(image_byte img (e + 2) \<noteq> 46 \<and> unat (half_at img e) = i) = (is_link img e \<and> unat (half_at img e) = i)"
      if "e \<in> set (dir_entries img d)" for e
      using dots that i name_starts [of img e] by (auto simp: is_link_def)
    moreover have "block_at a + 16 * n \<in> set (dir_entries img d)" if "n < DPB" for n using a that by (force simp: dir_entries_def)
    ultimately have "filter (\<lambda>n. image_byte img (block_at a + 16 * n + 2) \<noteq> 46 \<and> unat (half_at img (block_at a + 16 * n)) = i) [0..<DPB]
        = filter (\<lambda>n. is_link img (block_at a + 16 * n) \<and> unat (half_at img (block_at a + 16 * n)) = i) [0..<DPB]"
      by (intro filter_cong [OF refl]) (simp only: set_upt atLeastLessThan_iff)
    then show ?thesis by (simp add: block_refs_def filter_map comp_def conj_commute)
  qed
  show ?thesis unfolding b dir_entries_def length_filter_concat map_map comp_def
    using blk by (intro arg_cong [where f = sum_list] map_cong) simp_all
qed

lemma ref_count_links:
  assumes "plain_dirs img sb" and "i \<noteq> 0"
  shows "ref_count img sb i = links_to img sb i"
  unfolding ref_count_def refs_below_def links_to_def length_filter_concat map_map comp_def
  using assms dir_count [OF _ assms(2)] by (intro arg_cong [where f = sum_list] map_cong) (auto simp: plain_dirs_def)

lemma length_block_refs: "length (block_refs img a) \<le> 32"
  using length_filter_le [of "\<lambda>n. image_byte img (block_at a + 16 * n + 2) \<noteq> 46" "[0..<DPB]"] by (simp add: block_refs_def DPB_def)

lemma length_inode_blocks: "length (inode_blocks img i) \<le> 141"
proof -
  let ?ds = "filter (\<lambda>a. a \<noteq> 0) (map (addr_of img i) [0..<NDIRECT + 1])"
  let ?is = "filter (\<lambda>a. a \<noteq> 0) (map (\<lambda>j. word_at img (block_at (addr_of img i NDIRECT) + 4 * j)) [0..<NINDIRECT])"
  have d: "length ?ds \<le> 13" "length ?is \<le> 128" by (rule order_trans [OF length_filter_le]; simp add: NDIRECT_def NINDIRECT_def)+
  show ?thesis
  proof (cases "addr_of img i NDIRECT = 0")
    case True
    show ?thesis unfolding inode_blocks_def if_P [OF True] append_Nil2 using d by linarith
  next
    case False
    show ?thesis unfolding inode_blocks_def if_not_P [OF False] length_append using d by linarith
  qed
qed

lemma length_concat_le: "(\<And>x. x \<in> set xs \<Longrightarrow> length (f x) \<le> b) \<Longrightarrow> length (concat (map f xs)) \<le> b * length xs"
  by (induction xs) (force simp: algebra_simps)+

lemma length_refs_below: "length (refs_below img n) \<le> 4512 * n"
proof -
  have "length (concat (map (block_refs img) (inode_blocks img i))) \<le> 4512" for i
    using length_concat_le [of "inode_blocks img i" "block_refs img" 32] length_block_refs length_inode_blocks [of img i] by fastforce
  then show ?thesis unfolding refs_below_def by (intro order_trans [OF length_concat_le [of _ _ 4512]]) auto
qed

lemma ref_count_bound: "unat (sb_ninodes sb) \<le> 65536 \<Longrightarrow> ref_count img sb i < 2147483648"
  using length_refs_below [of img "unat (sb_ninodes sb)"] length_filter_le [of "\<lambda>n. unat n = i" "refs_below img (unat (sb_ninodes sb))"]
  unfolding ref_count_def by linarith

lemma tallies_at:
  assumes s: "scanned img sb (initial_tallies j1 j2 sb) (unat (sb_ninodes sb)) t" and n: "sb_ninodes sb \<le> sb_nblocks sb" "i < unat (sb_ninodes sb)"
  shows "uind_dir t ! i = of_nat (ref_count img sb i)" and "uind_table t ! i = (if type_of img i \<noteq> 0 then 1 else 0)"
proof -
  have "i < unat (sb_nblocks sb)" using n by (simp add: word_le_nat_alt)
  then show "uind_dir t ! i = of_nat (ref_count img sb i)" "uind_table t ! i = (if type_of img i \<noteq> 0 then 1 else 0)"
    using s n(2) by (simp_all add: scanned_def counts_def ref_count_def initial_tallies_def)
qed

lemma of_nat_u32_eq_iff: "m < 4294967296 \<Longrightarrow> n < 4294967296 \<Longrightarrow> (of_nat m :: u32) = of_nat n \<longleftrightarrow> m = n"
proof -
  assume "m < 4294967296" "n < 4294967296"
  then have "unat (of_nat m :: u32) = m" "unat (of_nat n :: u32) = n" by (simp_all add: unat_of_nat_small)
  then show "(of_nat m :: u32) = of_nat n \<longleftrightarrow> m = n" by metis
qed

lemma sint_scast_u32: "sint (scast (w :: u16) :: u32) = sint w"
  by (rule sint_up_scast) (simp add: is_up)

lemma check_lists:
  "check_found sb t = Inr u \<Longrightarrow> 2 \<le> i \<Longrightarrow> i < unat (sb_ninodes sb) \<Longrightarrow> uind_table t ! i \<noteq> 0 \<Longrightarrow> uind_dir t ! i \<noteq> 0"
  "check_marked sb t = Inr u \<Longrightarrow> 2 \<le> i \<Longrightarrow> i < unat (sb_ninodes sb) \<Longrightarrow> uind_dir t ! i \<noteq> 0 \<Longrightarrow> uind_table t ! i \<noteq> 0"
proof -
  assume "check_found sb t = Inr u"
  then have "\<forall>l \<in> set [2..<unat (sb_ninodes sb)]. \<not> (uind_table t ! l \<noteq> 0 \<and> uind_dir t ! l = 0)"
    unfolding check_found_def by (rule foldE_all) simp
  then show "2 \<le> i \<Longrightarrow> i < unat (sb_ninodes sb) \<Longrightarrow> uind_table t ! i \<noteq> 0 \<Longrightarrow> uind_dir t ! i \<noteq> 0" by auto
next
  assume "check_marked sb t = Inr u"
  then have "\<forall>l \<in> set [2..<unat (sb_ninodes sb)]. \<not> (uind_dir t ! l \<noteq> 0 \<and> uind_table t ! l = 0)"
    unfolding check_marked_def by (rule foldE_all) simp
  then show "2 \<le> i \<Longrightarrow> i < unat (sb_ninodes sb) \<Longrightarrow> uind_dir t ! i \<noteq> 0 \<Longrightarrow> uind_table t ! i \<noteq> 0" by auto
qed

lemma check_counts_at:
  assumes "check_counts img sb t = Inr u" and "i < unat (sb_ninodes sb)"
  shows "(type_of img i = T_FILE \<longrightarrow> scast (nlink_of img i) = uind_dir t ! i) \<and> (type_of img i = T_DIR \<and> i \<noteq> 1 \<longrightarrow> uind_dir t ! i = 1)"
proof -
  have ty: "inode_type img i = Inr ty \<Longrightarrow> ty = type_of img i" "inode_nlink img i = Inr n \<Longrightarrow> n = nlink_of img i" for i ty n
    by (simp_all add: inode_type_def inode_nlink_def type_of_def nlink_of_def fetch_Inr)
  have "\<forall>i \<in> set [0..<unat (sb_ninodes sb)].
      (type_of img i = T_FILE \<longrightarrow> scast (nlink_of img i) = uind_dir t ! i) \<and> (type_of img i = T_DIR \<and> i \<noteq> 1 \<longrightarrow> uind_dir t ! i = 1)"
    by (rule foldE_all [OF assms(1) [unfolded check_counts_def]]) (auto simp: bindE_eq_Inr_iff dest!: ty split: if_splits)
  then show ?thesis using assms(2) by simp
qed

text \<open>C20: in an image that the checker accepts no block is used twice, every used block is a data block inside the image,
  and the bitmap marks exactly the used blocks of the data area.\<close>

theorem accepted_blocks_exact:
  assumes "fscheck j1 j2 (Some img) = Inr ()" and "read_superblock img = Inr sb"
    and "unat (b_start sb) + unat (sb_nblocks sb) < 4294967296"
  defines "used \<equiv> blocks_below img (unat (sb_ninodes sb))"
  shows "distinct used \<and> (\<forall>a \<in> set used. b_start sb \<le> a \<and> a < sb_size sb)
    \<and> (\<forall>a. b_start sb \<le> a \<and> a < b_start sb + sb_nblocks sb \<longrightarrow> (in_bitmap img sb a \<longleftrightarrow> a \<in> set used))"
proof -
  obtain t where s: "scanned img sb (initial_tallies j1 j2 sb) (unat (sb_ninodes sb)) t" and c: "check_bitmap img sb t = Inr ()"
    using fscheck_accepts [OF assms(1)] assms(2) by (metis sum.inject(2))
  have m: "marks img sb used t" using s by (simp add: scanned_def used_def)
  then show ?thesis using check_bitmap_used [OF c m assms(3)] by (simp add: marks_def)
qed

text \<open>C21: in an accepted image without entries whose names only start with a dot and without indirect blocks of directories, and
  with at most as many inodes as data blocks and at most 65536, an inode from number 2 on is in use exactly when an entry other than
  \<open>.\<close> and \<open>..\<close> in a directory names it, a file has as many links as such entries, and a directory has exactly one.\<close>

theorem accepted_links_exact:
  assumes "fscheck j1 j2 (Some img) = Inr ()" and "read_superblock img = Inr sb" and "plain_dirs img sb"
    and "sb_ninodes sb \<le> sb_nblocks sb" and "unat (sb_ninodes sb) \<le> 65536" and "2 \<le> i" and "i < unat (sb_ninodes sb)"
  shows "(type_of img i \<noteq> 0 \<longleftrightarrow> 0 < links_to img sb i) \<and> (type_of img i = T_FILE \<longrightarrow> sint (nlink_of img i) = int (links_to img sb i))
    \<and> (type_of img i = T_DIR \<longrightarrow> links_to img sb i = 1)"
proof -
  obtain t where s: "scanned img sb (initial_tallies j1 j2 sb) (unat (sb_ninodes sb)) t"
    and c: "check_found sb t = Inr ()" "check_marked sb t = Inr ()" "check_counts img sb t = Inr ()"
    using fscheck_accepts [OF assms(1)] assms(2) by (metis sum.inject(2))
  note at = tallies_at [OF s assms(4,7)]
  have b: "ref_count img sb i < 4294967296" using ref_count_bound [OF assms(5), of img i] by simp
  have nz: "uind_dir t ! i \<noteq> 0 \<longleftrightarrow> 0 < ref_count img sb i" using of_nat_u32_eq_iff [OF b, of 0] by (simp add: at(1))
  have one: "uind_dir t ! i = 1 \<longleftrightarrow> ref_count img sb i = 1" using of_nat_u32_eq_iff [OF b, of 1] by (simp add: at(1))
  have "type_of img i \<noteq> 0 \<longleftrightarrow> uind_table t ! i \<noteq> 0" by (simp add: at(2))
  then have 1: "type_of img i \<noteq> 0 \<longleftrightarrow> 0 < ref_count img sb i"
    using check_lists(1) [OF c(1) assms(6,7)] check_lists(2) [OF c(2) assms(6,7)] nz by blast
  note k = check_counts_at [OF c(3) assms(7)]
  have "sint (nlink_of img i) = int (ref_count img sb i)" if "type_of img i = T_FILE"
  proof -
    have "(scast (nlink_of img i) :: u32) = of_nat (ref_count img sb i)" using k that at(1) by simp
    then have "sint (nlink_of img i) = sint (of_nat (ref_count img sb i) :: u32)" by (metis sint_scast_u32)
    then show ?thesis using sint_of_nat_u32 ref_count_bound [OF assms(5), of img i] by simp
  qed
  then show ?thesis using 1 k one assms(6) ref_count_links [OF assms(3), of i] by auto
qed

subsection \<open>Witnesses\<close>

text \<open>An image of seven blocks with three inodes: the root directory in block 4 and a file of one block, 5.\<close>

definition small_image :: fsimage where
  "small_image = \<lparr>img_bytes = (\<lambda>_. 0)(512 := 7, 516 := 3, 520 := 3, 1088 := 1, 1100 := 4, 1152 := 2, 1158 := 1, 1164 := 5, 1536 := 0x30,
     2048 := 1, 2050 := 46, 2064 := 1, 2066 := 46, 2067 := 46, 2080 := 2, 2082 := 102), st_size = 3584\<rparr>"

definition small_sb :: superblock where
  "small_sb = \<lparr>sb_size = 7, sb_nblocks = 3, sb_ninodes = 3\<rparr>"

lemma small_byte: "image_byte small_image a = ((\<lambda>_. 0)(512 := 7, 516 := 3, 520 := 3, 1088 := 1, 1100 := 4, 1152 := 2, 1158 := 1, 1164 := 5, 1536 := 0x30,
     2048 := 1, 2050 := 46, 2064 := 1, 2066 := 46, 2067 := 46, 2080 := 2, 2082 := 102)) a"
  by (simp add: image_byte_def small_image_def)

lemma small_end: "mapped_end small_image = 4096"
  by (simp add: mapped_end_def small_image_def)

lemmas small_fetch = fetch8_def fetch16_def fetch32_def small_end small_byte word16_def word32_def

lemma small_geometry: "nbitmaps small_sb = 1" "b_start small_sb = 4" "sb_size small_sb = 7" "sb_ninodes small_sb = 3" "sb_nblocks small_sb = 3"
  by (simp_all add: nbitmaps_def b_start_def nind_blocks_def small_sb_def IPB_def)

lemma small_superblock: "read_superblock small_image = Inr small_sb"
  by (simp add: read_superblock_def small_fetch BSIZE_def small_sb_def)

lemma small_addrs:
  "j < 13 \<Longrightarrow> inode_addr small_image 1 j = Inr (if j = 0 then 4 else 0)"
  "j < 13 \<Longrightarrow> inode_addr small_image 2 j = Inr (if j = 0 then 5 else 0)"
  by (simp_all add: inode_addr_def inode_at_def BSIZE_def small_fetch)

lemma small_bitmap:
  "bitmap_bit small_image small_sb 4 = Inr True" "bitmap_bit small_image small_sb 5 = Inr True" "bitmap_bit small_image small_sb 6 = Inr False"
  by (simp_all add: bitmap_bit_def small_geometry block_at_def small_fetch)

lemmas small_root = small_addrs(1) [unfolded One_nat_def]

lemma foldE_skip: "(\<And>x. x \<in> set xs \<Longrightarrow> f x s = Inr s) \<Longrightarrow> foldE f xs s = Inr s"
  by (induction xs) simp_all

lemma bindE_Inr: "bindE m Inr = m"
  by (cases m) simp_all

lemma small_direct:
  assumes "\<And>j. j < 13 \<Longrightarrow> inode_addr small_image i j = Inr (if j = 0 then a else 0)" and "a \<noteq> 0"
  shows "foldE (\<lambda>j t. bindE (inode_addr small_image i j) (\<lambda>a. if a \<noteq> 0 then f a t else Inr t)) [0..<NDIRECT + 1] t = f a t"
proof -
  let ?f = "\<lambda>j t. bindE (inode_addr small_image i j) (\<lambda>a. if a \<noteq> 0 then f a t else Inr t)"
  have u: "[0..<NDIRECT + 1] = 0 # [Suc 0..<13]" by (simp add: NDIRECT_def upt_conv_Cons)
  have "foldE ?f [Suc 0..<13] = Inr" by (rule ext, rule foldE_skip) (use assms in simp)
  then show ?thesis unfolding u foldE.simps using assms by (simp add: bindE_Inr)
qed

lemma small_use:
  "use_direct small_image small_sb 1 t = use_addr small_image small_sb 4 t"
  "use_direct small_image small_sb 2 t = use_addr small_image small_sb 5 t"
  "use_indirect small_image small_sb 1 t = Inr t" "use_indirect small_image small_sb 2 t = Inr t"
  unfolding use_direct_def use_indirect_def
  by (rule small_direct [OF small_addrs(1)], simp, simp, rule small_direct [OF small_addrs(2)], simp, simp)
    (simp_all add: NDIRECT_def small_addrs small_root)

lemma small_types: "inode_type small_image 0 = Inr 0" "inode_type small_image 1 = Inr 1" "inode_type small_image 2 = Inr 2"
    "inode_nlink small_image 2 = Inr 1"
  by (simp_all add: inode_type_def inode_nlink_def inode_at_def BSIZE_def small_fetch)

lemma small_formats: "check_directory small_image 1 = Inr ()" "check_root small_image 1 = Inr ()"
  by (simp_all add: check_directory_def check_root_def small_root names_dot_def names_dotdot_def block_at_def small_fetch require_def)

lemma small_entry:
  assumes "n < 32" and "length (uind_dir t) = 3"
  shows "count_entry small_image small_sb (2048 + 16 * n) t
    = Inr (if n < 2 then t else t\<lparr>uind_dir := (uind_dir t)[(if n = 2 then 2 else 0) := uind_dir t ! (if n = 2 then 2 else 0) + 1]\<rparr>)"
proof -
  have f: "fetch16 small_image (2048 + 16 * n) = Inr (if n < 2 then 1 else if n = 2 then 2 else 0)"
    "names_dot small_image (2048 + 16 * n) = Inr (n < 2)" "n < 2 \<or> names_dotdot small_image (2048 + 16 * n) = Inr False"
    using assms(1) by (auto simp: names_dot_def names_dotdot_def small_fetch)
  then show ?thesis using assms(2) by (auto simp: count_entry_def small_geometry)
qed

lemma small_count_from:
  assumes "length (uind_dir t) = 3" and "m \<le> 32" and "3 \<le> m"
  shows "foldE (\<lambda>n. count_entry small_image small_sb (2048 + 16 * n)) [m..<32] t = Inr (t\<lparr>uind_dir := (uind_dir t)[0 := uind_dir t ! 0 + of_nat (32 - m)]\<rparr>)"
  using assms
proof (induction "32 - m" arbitrary: m t)
  case (Suc d)
  then have m: "m < 32" by simp
  have s: "32 - m = Suc (32 - Suc m)" using m by simp
  show ?case
    unfolding upt_conv_Cons [OF m] foldE.simps
    using Suc.hyps(1) [of "Suc m" "t\<lparr>uind_dir := (uind_dir t)[0 := uind_dir t ! 0 + 1]\<rparr>"] Suc.hyps(2) Suc.prems m
    by (simp add: small_entry s add_diff_eq diff_add_eq add.commute [of 32])
qed simp

lemma small_count:
  assumes "length (uind_dir t) = 3"
  shows "count_directory small_image small_sb 1 t = Inr (t\<lparr>uind_dir := (uind_dir t)[2 := uind_dir t ! 2 + 1, 0 := uind_dir t ! 0 + 29]\<rparr>)"
proof -
  have "count_block small_image small_sb 4 t = foldE (\<lambda>n. count_entry small_image small_sb (2048 + 16 * n)) [0..<32] t"
    by (simp add: count_block_def block_at_def DPB_def)
  also have "[0..<32] = 0 # 1 # 2 # [3..<32]" by (simp add: upt_conv_Cons)
  also have "foldE (\<lambda>n. count_entry small_image small_sb (2048 + 16 * n)) (0 # 1 # 2 # [3..<32]) t
      = Inr (t\<lparr>uind_dir := (uind_dir t)[2 := uind_dir t ! 2 + 1, 0 := uind_dir t ! 0 + 29]\<rparr>)"
    using small_entry [of 0 t] small_entry [of 1 t] small_entry [of 2 t] small_count_from [of "t\<lparr>uind_dir := (uind_dir t)[2 := uind_dir t ! 2 + 1]\<rparr>" 3] assms
    by simp
  finally have "count_block small_image small_sb 4 t = Inr (t\<lparr>uind_dir := (uind_dir t)[2 := uind_dir t ! 2 + 1, 0 := uind_dir t ! 0 + 29]\<rparr>)" .
  then show ?thesis
    unfolding count_directory_def by (subst small_direct [OF small_addrs(1)]) (simp_all add: NDIRECT_def small_root)
qed

lemma small_accepted: "fscheck (\<lambda>_. 0) (\<lambda>_. 0) (Some small_image) = Inr ()"
proof -
  let ?t = "\<lparr>u_blocks = [1, 1, 0], uind_table = [0, 1, 1], uind_dir = [29, 0, 1]\<rparr>"
  have i: "initial_tallies (\<lambda>_. 0) (\<lambda>_. 0) small_sb = \<lparr>u_blocks = [0, 0, 0], uind_table = [0, 0, 0], uind_dir = [0, 0, 0]\<rparr>"
  proof -
    have "replicate 3 0 = [0, 0, 0 :: u32]" "[0..<3] = [0, 1, 2]" by (simp_all add: numeral_eq_Suc)
    then show ?thesis by (simp add: initial_tallies_def small_geometry)
  qed
  have n: "[0..<unat (sb_ninodes small_sb)] = [0, 1, 2]" by (simp add: small_geometry upt_conv_Cons)
  have 0: "check_inode small_image small_sb 0 t = Inr t" for t
    by (simp add: check_inode_def small_types T_DIR_def ROOTINO_def Let_def)
  have 1: "check_inode small_image small_sb 1 \<lparr>u_blocks = [0, 0, 0], uind_table = [0, 0, 0], uind_dir = [0, 0, 0]\<rparr>
      = Inr \<lparr>u_blocks = [1, 0, 0], uind_table = [0, 1, 0], uind_dir = [29, 0, 1]\<rparr>"
    using small_types(2) small_use(1,3) small_formats
    by (simp add: check_inode_def T_FILE_def T_DEV_def T_DIR_def ROOTINO_def Let_def small_count [unfolded One_nat_def] use_addr_def small_bitmap small_geometry require_def)
  have 2: "check_inode small_image small_sb 2 \<lparr>u_blocks = [1, 0, 0], uind_table = [0, 1, 0], uind_dir = [29, 0, 1]\<rparr> = Inr ?t"
    by (simp add: check_inode_def small_types small_use T_FILE_def T_DEV_def T_DIR_def ROOTINO_def Let_def use_addr_def small_bitmap small_geometry require_def)
  have "foldE (check_inode small_image small_sb) [0, 1, 2] \<lparr>u_blocks = [0, 0, 0], uind_table = [0, 0, 0], uind_dir = [0, 0, 0]\<rparr> = Inr ?t"
    using 0 1 2 by simp
  moreover have "check_bitmap small_image small_sb ?t = Inr ()"
    by (simp add: check_bitmap_def small_geometry upt_conv_Cons small_bitmap require_def)
  moreover have "check_found small_sb ?t = Inr ()" "check_marked small_sb ?t = Inr ()" 
    by (simp_all add: check_found_def check_marked_def small_geometry upt_conv_Cons require_def)
  moreover have "check_counts small_image small_sb ?t = Inr ()"
    using small_types
    by (simp add: check_counts_def n T_FILE_def T_DIR_def require_def)
  ultimately show ?thesis by (simp add: fscheck_def small_superblock n i)
qed

lemma accepted_blocks_exact_witness:
  "distinct (blocks_below small_image (unat (sb_ninodes small_sb)))
    \<and> (in_bitmap small_image small_sb 6 \<longleftrightarrow> 6 \<in> set (blocks_below small_image (unat (sb_ninodes small_sb))))"
  using accepted_blocks_exact [OF small_accepted small_superblock] by (simp add: small_geometry)

lemma small_plain: "plain_dirs small_image small_sb"
proof -
  have ty: "type_of small_image 0 = 0" "type_of small_image (Suc 0) = 1" "type_of small_image 2 = 2"
    by (simp_all add: type_of_def half_at_def inode_at_def BSIZE_def small_byte word16_def)
  have ad: "addr_of small_image (Suc 0) j = (if j = 0 then 4 else 0)" if "j < 13" for j
    using that by (simp add: addr_of_def word_at_def inode_at_def BSIZE_def small_byte word32_def)
  have "filter (\<lambda>a. a \<noteq> 0) (map (addr_of small_image (Suc 0)) [0..<12]) = [4]"
    using ad by (simp add: upt_conv_Cons)
  then have "data_blocks small_image (Suc 0) = [4]" using ad [of 12] by (simp add: data_blocks_def NDIRECT_def)
  then have es: "dir_entries small_image (Suc 0) = map (\<lambda>n. 2048 + 16 * n) [0..<32]" by (simp add: dir_entries_def block_at_def DPB_def)
  have names: "n < 2" if "n < 32" "image_byte small_image (2048 + 16 * n + 2) = 46" for n
    using that by (auto simp: small_byte split: if_splits)
  have dots: "entry_name small_image 2048 = [46]" "entry_name small_image 2064 = [46, 46]"
    by (simp_all add: entry_name_def upt_conv_Cons small_byte)
  have "entry_name small_image (2048 + 16 * n) \<in> {[46], [46, 46]}" if "n < 2" for n
    using that dots by (cases n) (auto simp: less_Suc_eq)
  then have d: "\<forall>e \<in> set (dir_entries small_image (Suc 0)).
      half_at small_image e \<noteq> 0 \<and> image_byte small_image (e + 2) = 46 \<longrightarrow> entry_name small_image e \<in> {[46], [46, 46]}"
    unfolding es using names by auto
  show ?thesis
    unfolding plain_dirs_def
  proof (intro allI impI)
    fix k assume k: "k < unat (sb_ninodes small_sb)" "type_of small_image k = T_DIR"
    have "k = 0 \<or> k = Suc 0 \<or> k = 2" using k(1) by (simp add: small_geometry) linarith
    then have "k = Suc 0" using ty k(2) by (elim disjE) (simp_all add: T_DIR_def)
    then show "addr_of small_image k NDIRECT = 0 \<and> (\<forall>e \<in> set (dir_entries small_image k).
        half_at small_image e \<noteq> 0 \<and> image_byte small_image (e + 2) = 46 \<longrightarrow> entry_name small_image e \<in> {[46], [46, 46]})"
      using d ad [of 12] by (simp add: NDIRECT_def)
  qed
qed

lemma accepted_links_exact_witness: "links_to small_image small_sb 2 = 1"
proof -
  have "type_of small_image 2 = T_FILE" "sint (nlink_of small_image 2) = 1"
    by (simp_all add: type_of_def nlink_of_def half_at_def inode_at_def BSIZE_def small_byte word16_def T_FILE_def)
  then show ?thesis using accepted_links_exact [OF small_accepted small_superblock small_plain, of 2] by (simp add: small_geometry)
qed

end
