(* ===== verification/Server.thy ===== *)
theory Server
  imports Fifo "HOL-Library.Multiset"
begin

text \<open>
  The web server of project 4, \<open>linux/server.c\<close>: the main thread accepts connections into a bounded buffer, from
  which worker threads take them. A step of a thread is what it does between two points where others can run: locking
  the mutex, the test of the loop around a wait with what follows under the lock, unlocking. A call of
  \<open>pthread_cond_wait\<close> releases the mutex and sleeps in one step; the thread is woken by a signal, or spuriously, and locks
  the mutex again. The calls of the thread library succeed. \<open>requestHandle\<close> returns, or it does not (theory \<open>Request\<close> shows that it loops forever when the
  client closes inside the header): then the worker is hung with its connection. A call that ends the whole process (\<open>Server_exits\<close> there) is the end of every run. Which waiting worker a signal wakes is a choice.
\<close>

subsection \<open>The buffer\<close>

record connbuf =
  nbuffers :: nat
  buffer :: "int list"
  count :: nat
  filled :: nat
  used :: nat

definition buf_put :: "int \<Rightarrow> connbuf \<Rightarrow> connbuf" where
  "buf_put fd b = b\<lparr>buffer := (buffer b)[filled b := fd], filled := (filled b + 1) mod nbuffers b, count := count b + 1\<rparr>"

definition buf_get :: "connbuf \<Rightarrow> int \<times> connbuf" where
  "buf_get b = (buffer b ! used b, b\<lparr>used := (used b + 1) mod nbuffers b, count := count b - 1\<rparr>)"

definition buf_new :: "nat \<Rightarrow> connbuf" where
  "buf_new n = \<lparr>nbuffers = n, buffer = replicate n 0, count = 0, filled = 0, used = 0\<rparr>"

definition buf_content :: "connbuf \<Rightarrow> int list" where
  "buf_content b = ring (nbuffers b) (buffer b) (used b) (count b)"

definition buf_ok :: "connbuf \<Rightarrow> bool" where
  "buf_ok b = (0 < nbuffers b \<and> length (buffer b) = nbuffers b \<and> count b \<le> nbuffers b \<and> used b < nbuffers b
     \<and> filled b = (used b + count b) mod nbuffers b)"

interpretation connq: bounded_fifo buf_put buf_get buf_content buf_ok nbuffers
proof
  fix b x
  assume ok: "buf_ok b" and l: "length (buf_content b) < nbuffers b"
  show "buf_content (buf_put x b) = buf_content b @ [x]"
    using ok l ring_put [of "buffer b" "nbuffers b" "count b" "used b" x] by (simp add: buf_ok_def buf_content_def buf_put_def)
  show "buf_ok (buf_put x b)" using ok l by (auto simp: buf_ok_def buf_content_def buf_put_def mod_Suc_eq)
next
  fix b
  assume ok: "buf_ok b" and ne: "buf_content b \<noteq> []"
  then obtain d where d: "count b = Suc d" by (cases "count b") (auto simp: buf_content_def)
  have u: "used b mod nbuffers b = used b" using ok by (simp add: buf_ok_def)
  show "buf_content b = fst (buf_get b) # buf_content (snd (buf_get b))"
    unfolding buf_content_def d ring_Suc_front u by (simp add: buf_get_def d ring_mod)
  have "(used b + 1 + d) mod nbuffers b = ((used b + 1) mod nbuffers b + d) mod nbuffers b" by (simp only: mod_add_left_eq)
  then show "buf_ok (snd (buf_get b))" using ok d by (simp add: buf_ok_def buf_get_def)
qed (auto simp: buf_put_def buf_get_def buf_content_def buf_ok_def)

subsection \<open>The threads\<close>

datatype wpc = WLock | WTest | WWait | WWoken | WUnlock int | WServe int | WHung int

datatype mpc = MAccept | MLock int | MTest int | MWait int | MWoken int | MUnlock

datatype tid = Main | Worker nat

text \<open>The state of the server. \<open>accepted\<close>, \<open>taken\<close> and \<open>served\<close> record the connections that were accepted, taken from the
  buffer and handled.\<close>

record webserver =
  conns :: connbuf
  holder :: "tid option"
  workers :: "wpc list"
  main_pc :: mpc
  accepted :: "int list"
  taken :: "int list"
  served :: "int list"

definition server_start :: "nat \<Rightarrow> nat \<Rightarrow> webserver" where
  "server_start threads buffers = \<lparr>conns = buf_new buffers, holder = None, workers = replicate threads WLock, main_pc = MAccept,
     accepted = [], taken = [], served = []\<rparr>"

definition take_mutex :: "tid \<Rightarrow> webserver \<Rightarrow> webserver option" where
  "take_mutex t s = (if holder s = None then Some (s\<lparr>holder := Some t\<rparr>) else None)"

definition set_worker :: "nat \<Rightarrow> wpc \<Rightarrow> webserver \<Rightarrow> webserver" where
  "set_worker w p s = s\<lparr>workers := (workers s)[w := p]\<rparr>"

text \<open>\<open>pthread_cond_signal(&empty)\<close> and \<open>pthread_cond_signal(&fill)\<close>, which wakes the waiting worker \<open>k\<close>.\<close>

definition signal_empty :: "webserver \<Rightarrow> webserver" where
  "signal_empty s = (case main_pc s of MWait c \<Rightarrow> s\<lparr>main_pc := MWoken c\<rparr> | _ \<Rightarrow> s)"

definition signal_fill :: "nat \<Rightarrow> webserver \<Rightarrow> webserver" where
  "signal_fill k s = (if WWait \<in> set (workers s) then set_worker k WWoken s else s)"

definition worker_step :: "nat \<Rightarrow> webserver \<Rightarrow> webserver option" where
  "worker_step w s = (case workers s ! w of
     WLock \<Rightarrow> map_option (set_worker w WTest) (take_mutex (Worker w) s)
   | WTest \<Rightarrow>
       if count (conns s) = 0 then Some (set_worker w WWait (s\<lparr>holder := None\<rparr>))
       else (case buf_get (conns s) of (fd, b) \<Rightarrow>
         Some (signal_empty (set_worker w (WUnlock fd) (s\<lparr>conns := b, taken := taken s @ [fd]\<rparr>))))
   | WWait \<Rightarrow> None
   | WWoken \<Rightarrow> map_option (set_worker w WTest) (take_mutex (Worker w) s)
   | WUnlock fd \<Rightarrow> Some (set_worker w (WServe fd) (s\<lparr>holder := None\<rparr>))
   | WServe fd \<Rightarrow> Some (set_worker w WLock (s\<lparr>served := served s @ [fd]\<rparr>))
   | WHung fd \<Rightarrow> None)"

definition accept_step :: "int \<Rightarrow> webserver \<Rightarrow> webserver option" where
  "accept_step fd s = (if main_pc s = MAccept then Some (s\<lparr>main_pc := MLock fd, accepted := accepted s @ [fd]\<rparr>) else None)"

definition main_step :: "nat \<Rightarrow> webserver \<Rightarrow> webserver option" where
  "main_step k s = (case main_pc s of
     MAccept \<Rightarrow> None
   | MLock c \<Rightarrow> map_option (\<lambda>s. s\<lparr>main_pc := MTest c\<rparr>) (take_mutex Main s)
   | MTest c \<Rightarrow>
       if count (conns s) = nbuffers (conns s) then Some (s\<lparr>main_pc := MWait c, holder := None\<rparr>)
       else Some (signal_fill k (s\<lparr>conns := buf_put c (conns s), main_pc := MUnlock\<rparr>))
   | MWait c \<Rightarrow> None
   | MWoken c \<Rightarrow> map_option (\<lambda>s. s\<lparr>main_pc := MTest c\<rparr>) (take_mutex Main s)
   | MUnlock \<Rightarrow> Some (s\<lparr>main_pc := MAccept, holder := None\<rparr>))"

text \<open>A step of a thread on its own, a call of \<open>requestHandle\<close> that never returns included, which neither accepts a connection nor is a spurious wakeup; and all steps.\<close>

definition may_wake :: "nat \<Rightarrow> webserver \<Rightarrow> bool" where
  "may_wake k s = (WWait \<in> set (workers s) \<longrightarrow> k < length (workers s) \<and> workers s ! k = WWait)"

inductive thread_step :: "webserver \<Rightarrow> webserver \<Rightarrow> bool" where
  ts_worker: "w < length (workers s) \<Longrightarrow> worker_step w s = Some t \<Longrightarrow> thread_step s t"
| ts_hang: "w < length (workers s) \<Longrightarrow> workers s ! w = WServe fd \<Longrightarrow> thread_step s (set_worker w (WHung fd) s)"
| ts_main: "may_wake k s \<Longrightarrow> main_step k s = Some t \<Longrightarrow> thread_step s t"

inductive server_step :: "webserver \<Rightarrow> webserver \<Rightarrow> bool" where
  ss_thread: "thread_step s t \<Longrightarrow> server_step s t"
| ss_accept: "accept_step fd s = Some t \<Longrightarrow> server_step s t"
| ss_spurious_worker: "w < length (workers s) \<Longrightarrow> workers s ! w = WWait \<Longrightarrow> server_step s (set_worker w WWoken s)"
| ss_spurious_main: "main_pc s = MWait c \<Longrightarrow> server_step s (s\<lparr>main_pc := MWoken c\<rparr>)"

definition server_reach :: "nat \<Rightarrow> nat \<Rightarrow> webserver \<Rightarrow> bool" where
  "server_reach threads buffers s = server_step\<^sup>*\<^sup>* (server_start threads buffers) s"

subsection \<open>The invariant\<close>

definition worker_holds :: "wpc \<Rightarrow> bool" where
  "worker_holds p = (case p of WTest \<Rightarrow> True | WUnlock fd \<Rightarrow> True | _ \<Rightarrow> False)"

definition main_holds :: "mpc \<Rightarrow> bool" where
  "main_holds p = (case p of MTest c \<Rightarrow> True | MUnlock \<Rightarrow> True | _ \<Rightarrow> False)"

definition main_has :: "mpc \<Rightarrow> int list" where
  "main_has p = (case p of MLock c \<Rightarrow> [c] | MTest c \<Rightarrow> [c] | MWait c \<Rightarrow> [c] | MWoken c \<Rightarrow> [c] | _ \<Rightarrow> [])"

definition worker_has :: "wpc \<Rightarrow> int list" where
  "worker_has p = (case p of WUnlock fd \<Rightarrow> [fd] | WServe fd \<Rightarrow> [fd] | WHung fd \<Rightarrow> [fd] | _ \<Rightarrow> [])"

definition awake :: "webserver \<Rightarrow> nat" where
  "awake s = length (filter (\<lambda>p. p \<noteq> WWait) (workers s))"

text \<open>The workers that are on their way to look at the buffer, and these with those that wait.\<close>

definition looks :: "wpc \<Rightarrow> bool" where
  "looks p = (case p of WLock \<Rightarrow> True | WTest \<Rightarrow> True | WWoken \<Rightarrow> True | _ \<Rightarrow> False)"

definition looking :: "webserver \<Rightarrow> nat" where
  "looking s = length (filter looks (workers s))"

definition free_workers :: "webserver \<Rightarrow> nat" where
  "free_workers s = length (filter (\<lambda>p. looks p \<or> p = WWait) (workers s))"

definition in_hand :: "webserver \<Rightarrow> int multiset" where
  "in_hand s = mset (concat (map worker_has (workers s)))"

definition server_ok :: "webserver \<Rightarrow> bool" where
  "server_ok s = (buf_ok (conns s)
     \<and> (\<forall>w < length (workers s). worker_holds (workers s ! w) \<longleftrightarrow> holder s = Some (Worker w))
     \<and> (\<forall>w. holder s = Some (Worker w) \<longrightarrow> w < length (workers s))
     \<and> (main_holds (main_pc s) \<longleftrightarrow> holder s = Some Main)
     \<and> (\<forall>c. main_pc s = MWait c \<longrightarrow> count (conns s) = nbuffers (conns s))
     \<and> min (count (conns s)) (free_workers s) \<le> looking s
     \<and> taken s @ buf_content (conns s) @ main_has (main_pc s) = accepted s
     \<and> mset (taken s) = mset (served s) + in_hand s)"

lemma filter_update:
  assumes "w < length ws"
  shows "length (filter P (ws[w := p])) + (if P (ws ! w) then 1 else 0) = length (filter P ws) + (if P p then 1 else 0)"
proof -
  have "length (filter P (take w ws @ ws ! w # drop (Suc w) ws)) = length (filter P ws)" using id_take_nth_drop [OF assms] by simp
  then show ?thesis using assms by (simp add: upd_conv_take_nth_drop split: if_splits)
qed

lemma hands_update:
  assumes "w < length ws"
  shows "mset (concat (map f (ws[w := p]))) + mset (f (ws ! w)) = mset (concat (map f ws)) + mset (f p)"
proof -
  have "mset (concat (map f (take w ws @ ws ! w # drop (Suc w) ws))) = mset (concat (map f ws))" using id_take_nth_drop [OF assms] by simp
  then show ?thesis using assms by (simp add: upd_conv_take_nth_drop ac_simps)
qed

text \<open>A worker at \<open>w\<close> moves to \<open>p\<close>.\<close>

lemma set_worker_counts:
  "w < length (workers s) \<Longrightarrow> looking (set_worker w p s) + (if looks (workers s ! w) then 1 else 0) = looking s + (if looks p then 1 else 0)"
  "w < length (workers s) \<Longrightarrow> free_workers (set_worker w p s) + (if looks (workers s ! w) \<or> workers s ! w = WWait then 1 else 0)
     = free_workers s + (if looks p \<or> p = WWait then 1 else 0)"
  using filter_update [of w "workers s" looks p] filter_update [of w "workers s" "\<lambda>p. looks p \<or> p = WWait" p]
  by (simp_all add: looking_def free_workers_def set_worker_def)

lemma set_worker_hand:
  "w < length (workers s) \<Longrightarrow> in_hand (set_worker w p s) + mset (worker_has (workers s ! w)) = in_hand s + mset (worker_has p)"
  using hands_update [of w "workers s" worker_has p] by (simp add: in_hand_def set_worker_def)

lemma set_worker_sel [simp]:
  "conns (set_worker w p s) = conns s" "holder (set_worker w p s) = holder s" "main_pc (set_worker w p s) = main_pc s"
  "accepted (set_worker w p s) = accepted s" "taken (set_worker w p s) = taken s" "served (set_worker w p s) = served s"
  "workers (set_worker w p s) = (workers s)[w := p]"
  by (simp_all add: set_worker_def)

lemma counts_cong: "workers s = workers t \<Longrightarrow> looking s = looking t \<and> free_workers s = free_workers t"
  by (simp add: looking_def free_workers_def)

lemma in_hand_cong: "workers s = workers t \<Longrightarrow> in_hand s = in_hand t"
  by (simp add: in_hand_def)

lemma content_length: "length (buf_content b) = count b"
  by (simp add: buf_content_def)

lemmas pc_simps = looks_def worker_holds_def main_holds_def main_has_def worker_has_def

text \<open>The three kinds of moves that keep the buffer: a thread that takes the mutex, one that releases it, and one that is woken.\<close>

lemma worker_locks_ok:
  assumes ok: "server_ok s" and w: "w < length (workers s)" and f: "holder s = None" and p: "workers s ! w \<in> {WLock, WWoken}"
  shows "server_ok (set_worker w WTest (s\<lparr>holder := Some (Worker w)\<rparr>))" (is "server_ok ?t")
proof -
  have "looking ?t = looking s" "free_workers ?t = free_workers s" "in_hand ?t = in_hand s"
    using set_worker_counts [of w "s\<lparr>holder := Some (Worker w)\<rparr>" WTest] set_worker_hand [of w "s\<lparr>holder := Some (Worker w)\<rparr>" WTest] w p
      counts_cong [of "s\<lparr>holder := Some (Worker w)\<rparr>" s] in_hand_cong [of "s\<lparr>holder := Some (Worker w)\<rparr>" s]
    by (auto simp: pc_simps)
  then show ?thesis using ok w f by (auto simp: server_ok_def nth_list_update pc_simps)
qed

lemma worker_waits_ok:
  assumes ok: "server_ok s" and w: "w < length (workers s)" and p: "workers s ! w = WTest" and c: "count (conns s) = 0"
  shows "server_ok (set_worker w WWait (s\<lparr>holder := None\<rparr>))" (is "server_ok ?t")
proof -
  have h: "holder s = Some (Worker w)" using ok w p by (auto simp: server_ok_def pc_simps)
  have "in_hand ?t = in_hand s" using set_worker_hand [of w "s\<lparr>holder := None\<rparr>" WWait] w p in_hand_cong [of "s\<lparr>holder := None\<rparr>" s]
    by (auto simp: pc_simps)
  then show ?thesis using ok w h c by (auto simp: server_ok_def nth_list_update pc_simps)
qed

lemma worker_unlocks_ok:
  assumes ok: "server_ok s" and w: "w < length (workers s)" and p: "workers s ! w = WUnlock fd"
  shows "server_ok (set_worker w (WServe fd) (s\<lparr>holder := None\<rparr>))" (is "server_ok ?t")
proof -
  have h: "holder s = Some (Worker w)" using ok w p by (auto simp: server_ok_def pc_simps)
  have "looking ?t = looking s" "free_workers ?t = free_workers s" "in_hand ?t = in_hand s"
    using set_worker_counts [of w "s\<lparr>holder := None\<rparr>" "WServe fd"] set_worker_hand [of w "s\<lparr>holder := None\<rparr>" "WServe fd"] w p
      counts_cong [of "s\<lparr>holder := None\<rparr>" s] in_hand_cong [of "s\<lparr>holder := None\<rparr>" s]
    by (auto simp: pc_simps)
  then show ?thesis using ok w h by (auto simp: server_ok_def nth_list_update pc_simps)
qed

lemma worker_serves_ok:
  assumes ok: "server_ok s" and w: "w < length (workers s)" and p: "workers s ! w = WServe fd"
  shows "server_ok (set_worker w WLock (s\<lparr>served := served s @ [fd]\<rparr>))" (is "server_ok ?t")
proof -
  have "looking ?t = Suc (looking s)" "free_workers ?t = Suc (free_workers s)" "in_hand ?t + {#fd#} = in_hand s"
    using set_worker_counts [of w "s\<lparr>served := served s @ [fd]\<rparr>" WLock] set_worker_hand [of w "s\<lparr>served := served s @ [fd]\<rparr>" WLock] w p
      counts_cong [of "s\<lparr>served := served s @ [fd]\<rparr>" s] in_hand_cong [of "s\<lparr>served := served s @ [fd]\<rparr>" s]
    by (auto simp: pc_simps)
  moreover have "holder s \<noteq> Some (Worker w)" using ok w p by (auto simp: server_ok_def pc_simps)
  ultimately show ?thesis using ok w by (auto simp: server_ok_def nth_list_update pc_simps)
qed

lemma worker_hangs_ok:
  assumes ok: "server_ok s" and w: "w < length (workers s)" and p: "workers s ! w = WServe fd"
  shows "server_ok (set_worker w (WHung fd) s)" (is "server_ok ?t")
proof -
  have "looking ?t = looking s" "free_workers ?t = free_workers s" "in_hand ?t = in_hand s"
    using set_worker_counts [of w s "WHung fd"] set_worker_hand [of w s "WHung fd"] w p by (auto simp: pc_simps)
  moreover have "holder s \<noteq> Some (Worker w)" using ok w p by (auto simp: server_ok_def pc_simps)
  ultimately show ?thesis using ok w by (auto simp: server_ok_def nth_list_update pc_simps)
qed

lemma worker_woken_ok:
  assumes ok: "server_ok s" and w: "w < length (workers s)" and p: "workers s ! w = WWait"
  shows "server_ok (set_worker w WWoken s)" (is "server_ok ?t")
proof -
  have "looking ?t = Suc (looking s)" "free_workers ?t = free_workers s" "in_hand ?t = in_hand s"
    using set_worker_counts [of w s WWoken] set_worker_hand [of w s WWoken] w p by (auto simp: pc_simps)
  moreover have "holder s \<noteq> Some (Worker w)" using ok w p by (auto simp: server_ok_def pc_simps)
  ultimately show ?thesis using ok w by (auto simp: server_ok_def nth_list_update pc_simps)
qed

lemma worker_takes_ok:
  assumes ok: "server_ok s" and w: "w < length (workers s)" and p: "workers s ! w = WTest" and c: "count (conns s) \<noteq> 0"
    and g: "buf_get (conns s) = (fd, b)"
  shows "server_ok (signal_empty (set_worker w (WUnlock fd) (s\<lparr>conns := b, taken := taken s @ [fd]\<rparr>)))"
proof -
  let ?u = "s\<lparr>conns := b, taken := taken s @ [fd]\<rparr>"
  let ?t = "set_worker w (WUnlock fd) ?u"
  have bo: "buf_ok (conns s)" using ok by (simp add: server_ok_def)
  have ne: "buf_content (conns s) \<noteq> []" using c content_length by (metis list.size(3))
  have b: "buf_ok b" "buf_content (conns s) = fd # buf_content b" "nbuffers b = nbuffers (conns s)"
    using connq.get_inv [OF bo ne] connq.get_content [OF bo ne] connq.get_cap [of "conns s"] g by simp_all
  have cb: "count (conns s) = Suc (count b)" using b(2) content_length [of b] content_length [of "conns s"] by simp
  have h: "holder s = Some (Worker w)" using ok w p by (auto simp: server_ok_def pc_simps)
  have a: "Suc (looking ?t) = looking s" "Suc (free_workers ?t) = free_workers s" "in_hand ?t = in_hand s + {#fd#}"
    using set_worker_counts [of w ?u "WUnlock fd"] set_worker_hand [of w ?u "WUnlock fd"] w p counts_cong [of ?u s] in_hand_cong [of ?u s]
    by (auto simp: pc_simps)
  have sig: "signal_empty ?t = ?t\<lparr>main_pc := (case main_pc s of MWait c \<Rightarrow> MWoken c | m \<Rightarrow> m)\<rparr>"
    by (auto simp: signal_empty_def split: mpc.splits)
  have "looking (?t\<lparr>main_pc := m\<rparr>) = looking ?t" "free_workers (?t\<lparr>main_pc := m\<rparr>) = free_workers ?t" "in_hand (?t\<lparr>main_pc := m\<rparr>) = in_hand ?t" for m
    by (simp_all add: looking_def free_workers_def in_hand_def)
  then show ?thesis
    unfolding sig using ok w h a b cb by (auto simp: server_ok_def nth_list_update pc_simps split: mpc.splits)
qed

lemma worker_step_ok:
  assumes "server_ok s" and "w < length (workers s)" and "worker_step w s = Some t"
  shows "server_ok t"
  using assms worker_locks_ok [of s w] worker_waits_ok [of s w] worker_unlocks_ok [of s w] worker_serves_ok [of s w] worker_takes_ok [of s w]
  by (auto simp: worker_step_def take_mutex_def split: wpc.splits if_splits prod.splits)

lemma main_moves_ok:
  assumes ok: "server_ok s" and b: "buf_ok b" "main_holds m \<longleftrightarrow> h = Some Main" "\<And>w. h \<noteq> Some (Worker w)"
    and free: "holder s = None \<or> holder s = Some Main" and full: "\<And>c. m = MWait c \<Longrightarrow> count b = nbuffers b"
    and a: "taken s @ buf_content b @ main_has m = accepted s @ new" and aw: "min (count b) (free_workers s) \<le> looking s"
  shows "server_ok (s\<lparr>main_pc := m, holder := h, conns := b, accepted := accepted s @ new\<rparr>)" (is "server_ok ?t")
proof -
  have "looking ?t = looking s" "free_workers ?t = free_workers s" "in_hand ?t = in_hand s"
    by (simp_all add: looking_def free_workers_def in_hand_def)
  moreover have "\<not> worker_holds (workers s ! w)" if "w < length (workers s)" for w using ok free that by (auto simp: server_ok_def)
  ultimately show ?thesis using ok b full a aw by (auto simp: server_ok_def)
qed

lemma main_step_ok:
  assumes ok: "server_ok s" and wk: "may_wake k s" and st: "main_step k s = Some t"
  shows "server_ok t"
proof -
  have I: "buf_ok (conns s)" "main_holds (main_pc s) \<longleftrightarrow> holder s = Some Main" "taken s @ buf_content (conns s) @ main_has (main_pc s) = accepted s"
      "min (count (conns s)) (free_workers s) \<le> looking s" using ok by (simp_all add: server_ok_def)
  note mv = main_moves_ok [OF ok, where new = "[]", simplified]
  show ?thesis
  proof (cases "main_pc s")
    case MAccept
    then show ?thesis using st by (simp add: main_step_def)
  next
    case (MLock c)
    then have h: "holder s = None" and t: "t = s\<lparr>main_pc := MTest c, holder := Some Main\<rparr>"
      using st by (auto simp: main_step_def take_mutex_def split: if_splits)
    then show ?thesis using mv [of "conns s" "MTest c" "Some Main"] I MLock by (simp add: pc_simps)
  next
    case (MWoken c)
    then have h: "holder s = None" and t: "t = s\<lparr>main_pc := MTest c, holder := Some Main\<rparr>"
      using st by (auto simp: main_step_def take_mutex_def split: if_splits)
    then show ?thesis using mv [of "conns s" "MTest c" "Some Main"] I MWoken by (simp add: pc_simps)
  next
    case (MWait c)
    then show ?thesis using st by (simp add: main_step_def)
  next
    case MUnlock
    then have h: "holder s = Some Main" and t: "t = s\<lparr>main_pc := MAccept, holder := None\<rparr>" using st I by (auto simp: main_step_def pc_simps)
    then show ?thesis using mv [of "conns s" MAccept None] I MUnlock by (simp add: pc_simps)
  next
    case (MTest c)
    then have h: "holder s = Some Main" using I by (simp add: pc_simps)
    show ?thesis
    proof (cases "count (conns s) = nbuffers (conns s)")
      case True
      then have t: "t = s\<lparr>main_pc := MWait c, holder := None\<rparr>" using st MTest by (simp add: main_step_def)
      then show ?thesis using mv [of "conns s" "MWait c" None] I MTest h True by (simp add: pc_simps)
    next
      case False
      then have t: "t = signal_fill k (s\<lparr>conns := buf_put c (conns s), main_pc := MUnlock\<rparr>)" using st MTest by (simp add: main_step_def)
      have l: "length (buf_content (conns s)) < nbuffers (conns s)" using False I(1) content_length by (simp add: buf_ok_def)
      let ?b = "buf_put c (conns s)"
      have b: "buf_ok ?b" "buf_content ?b = buf_content (conns s) @ [c]" using connq.put_inv [OF I(1) l] connq.put_content [OF I(1) l] by simp_all
      have cb: "count ?b = Suc (count (conns s))" by (simp add: buf_put_def)
      have nh: "\<not> worker_holds (workers s ! w)" if "w < length (workers s)" for w using ok h that by (auto simp: server_ok_def)
      have e: "taken s @ buf_content ?b = accepted s" using I(3) MTest b(2) by (simp add: pc_simps)
      have hm: "mset (taken s) = mset (served s) + in_hand s" using ok by (simp add: server_ok_def)
      show ?thesis
      proof (cases "WWait \<in> set (workers s)")
        case True
        then have k: "k < length (workers s)" "workers s ! k = WWait" using wk by (simp_all add: may_wake_def)
        define u where "u = s\<lparr>conns := ?b, main_pc := MUnlock\<rparr>"
        have tu: "t = set_worker k WWoken u" using t True by (simp add: signal_fill_def u_def)
        have uw: "workers u = workers s" by (simp add: u_def)
        have "looking t = Suc (looking s)" "free_workers t = free_workers s" "in_hand t = in_hand s"
          using set_worker_counts [of k u WWoken] set_worker_hand [of k u WWoken] k uw counts_cong [OF uw] in_hand_cong [OF uw] tu
          by (auto simp: pc_simps)
        moreover have "min (count ?b) (free_workers s) \<le> Suc (looking s)" using I(4) cb by auto
        ultimately show ?thesis
          using b(1) h nh e k hm by (auto simp: server_ok_def tu u_def nth_list_update pc_simps)
      next
        case none: False
        then have t: "t = s\<lparr>conns := ?b, main_pc := MUnlock\<rparr>" using t by (simp add: signal_fill_def)
        have "filter (\<lambda>p. looks p \<or> p = WWait) (workers s) = filter looks (workers s)" using none by (intro filter_cong) auto
        then have "looking s = free_workers s" by (simp add: looking_def free_workers_def)
        then have "server_ok (s\<lparr>main_pc := MUnlock, holder := Some Main, conns := ?b\<rparr>)"
          using mv [of ?b MUnlock "Some Main"] b(1) h e by (simp add: pc_simps)
        moreover have "s\<lparr>main_pc := MUnlock, holder := Some Main, conns := ?b\<rparr> = t" using t h by simp
        ultimately show ?thesis by simp
      qed
    qed
  qed
qed

lemma thread_step_ok: "thread_step s t \<Longrightarrow> server_ok s \<Longrightarrow> server_ok t"
  by (erule thread_step.cases) (blast intro: worker_step_ok worker_hangs_ok main_step_ok)+

lemma server_step_ok:
  assumes "server_step s t" and ok: "server_ok s"
  shows "server_ok t"
  using assms
proof (cases rule: server_step.cases)
  case ss_thread
  then show ?thesis using thread_step_ok ok by blast
next
  case (ss_accept fd)
  then have t: "t = s\<lparr>main_pc := MLock fd, holder := holder s, conns := conns s, accepted := accepted s @ [fd]\<rparr>" and m: "main_pc s = MAccept"
    by (auto simp: accept_step_def split: if_splits)
  have "looking t = looking s" "free_workers t = free_workers s" "in_hand t = in_hand s" unfolding t by (simp_all add: looking_def free_workers_def in_hand_def)
  then show ?thesis using ok m by (auto simp: server_ok_def t pc_simps)
next
  case (ss_spurious_worker w)
  then show ?thesis using worker_woken_ok [OF ok] by simp
next
  case (ss_spurious_main c)
  have "looking t = looking s" "free_workers t = free_workers s" "in_hand t = in_hand s"
    unfolding ss_spurious_main(1) by (simp_all add: looking_def free_workers_def in_hand_def)
  then show ?thesis using ok ss_spurious_main by (auto simp: server_ok_def pc_simps)
qed

lemma concat_empty: "(\<And>x. x \<in> set xs \<Longrightarrow> f x = []) \<Longrightarrow> concat (map f xs) = []"
  by (induction xs) simp_all

lemma server_start_ok: "0 < buffers \<Longrightarrow> server_ok (server_start threads buffers)"
proof -
  assume b: "0 < buffers"
  have "concat (map worker_has (replicate threads WLock)) = []" by (rule concat_empty) (simp add: pc_simps)
  then show ?thesis using b
    by (simp add: server_ok_def server_start_def buf_new_def buf_ok_def buf_content_def looking_def free_workers_def in_hand_def pc_simps)
qed

lemma signal_length [simp]: "workers (signal_empty s) = workers s" "length (workers (signal_fill k s)) = length (workers s)"
  by (auto simp: signal_empty_def signal_fill_def split: mpc.split)

lemma worker_step_length: "worker_step w s = Some t \<Longrightarrow> length (workers t) = length (workers s)"
  by (cases "workers s ! w") (auto simp: worker_step_def take_mutex_def split: if_splits prod.splits)

lemma main_step_length: "main_step k s = Some t \<Longrightarrow> length (workers t) = length (workers s)"
  by (cases "main_pc s") (auto simp: main_step_def take_mutex_def split: if_splits)

lemma server_reach_ok:
  assumes "server_reach threads buffers s" and "0 < buffers"
  shows "server_ok s \<and> length (workers s) = threads"
proof -
  have "server_step\<^sup>*\<^sup>* (server_start threads buffers) s" using assms(1) by (simp add: server_reach_def)
  then show ?thesis
  proof (induction rule: rtranclp_induct)
    case base
    then show ?case using server_start_ok [OF assms(2)] by (simp add: server_start_def)
  next
    case (step s t)
    have "length (workers t) = length (workers s)"
      using step.hyps(2)
    proof (cases rule: server_step.cases)
      case ss_thread
      then show ?thesis by (auto elim!: thread_step.cases dest: worker_step_length main_step_length)
    qed (auto simp: accept_step_def split: if_splits)
    then show ?case using step server_step_ok by simp
  qed
qed

subsection \<open>Every connection is served\<close>

text \<open>A measure that each step of a thread decreases, so that between two connections the server comes to rest.\<close>

definition worker_weight :: "wpc \<Rightarrow> nat" where
  "worker_weight p = (case p of WWait \<Rightarrow> 0 | WTest \<Rightarrow> 1 | WLock \<Rightarrow> 2 | WWoken \<Rightarrow> 2 | WServe fd \<Rightarrow> 3 | WUnlock fd \<Rightarrow> 4 | WHung fd \<Rightarrow> 0)"

definition main_weight :: "mpc \<Rightarrow> nat" where
  "main_weight p = (case p of MAccept \<Rightarrow> 0 | MUnlock \<Rightarrow> 1 | MWait c \<Rightarrow> 9 | MTest c \<Rightarrow> 10 | MLock c \<Rightarrow> 11 | MWoken c \<Rightarrow> 11)"

definition server_work :: "webserver \<Rightarrow> nat" where
  "server_work s = 6 * count (conns s) + sum_list (map worker_weight (workers s)) + main_weight (main_pc s)"

lemma weight_update:
  "w < length ws \<Longrightarrow> sum_list (map f (ws[w := p])) + f (ws ! w) = sum_list (map f ws) + (f p :: nat)"
proof -
  assume w: "w < length ws"
  have "sum_list (map f (take w ws @ ws ! w # drop (Suc w) ws)) = sum_list (map f ws)" using id_take_nth_drop [OF w] by simp
  then show ?thesis using w by (simp add: upd_conv_take_nth_drop)
qed

lemma worker_step_work:
  assumes w: "w < length (workers s)" and st: "worker_step w s = Some t"
  shows "server_work t < server_work s"
proof -
  note u = weight_update [OF w, of worker_weight]
  show ?thesis
  proof (cases "workers s ! w")
    case WTest
    show ?thesis
    proof (cases "count (conns s) = 0")
      case True
      then show ?thesis using st WTest u [of WWait] by (auto simp: worker_step_def server_work_def worker_weight_def)
    next
      case False
      obtain fd b where g: "buf_get (conns s) = (fd, b)" by fastforce
      then have "Suc (count b) = count (conns s)" using False by (auto simp: buf_get_def)
      moreover have t: "t = signal_empty (set_worker w (WUnlock fd) (s\<lparr>conns := b, taken := taken s @ [fd]\<rparr>))"
        using st WTest False g by (simp add: worker_step_def)
      ultimately show ?thesis
        using WTest u [of "WUnlock fd"] by (auto simp: signal_empty_def server_work_def worker_weight_def main_weight_def split: mpc.splits)
    qed
  next
    case (WUnlock fd)
    then show ?thesis using st u [of "WServe fd"] by (auto simp: worker_step_def server_work_def worker_weight_def)
  qed (use st u [of WTest] u [of WLock] in \<open>auto simp: worker_step_def take_mutex_def server_work_def worker_weight_def split: if_splits\<close>)
qed

lemma main_step_work:
  assumes wk: "may_wake k s" and st: "main_step k s = Some t"
  shows "server_work t < server_work s"
proof (cases "main_pc s")
  case (MTest c)
  show ?thesis
  proof (cases "count (conns s) = nbuffers (conns s)")
    case True
    then show ?thesis using st MTest by (auto simp: main_step_def server_work_def main_weight_def)
  next
    case False
    then have t: "t = signal_fill k (s\<lparr>conns := buf_put c (conns s), main_pc := MUnlock\<rparr>)" using st MTest by (simp add: main_step_def)
    have cb: "count (buf_put c (conns s)) = Suc (count (conns s))" by (simp add: buf_put_def)
    show ?thesis
    proof (cases "WWait \<in> set (workers s)")
      case True
      then have "k < length (workers s)" "workers s ! k = WWait" using wk by (simp_all add: may_wake_def)
      then show ?thesis using weight_update [of k "workers s" worker_weight WWoken] t True cb MTest
        by (simp add: signal_fill_def server_work_def worker_weight_def main_weight_def)
    next
      case False
      then show ?thesis using t cb MTest by (simp add: signal_fill_def server_work_def main_weight_def)
    qed
  qed
qed (use st in \<open>auto simp: main_step_def take_mutex_def server_work_def main_weight_def split: if_splits\<close>)

lemma worker_hangs_work:
  "w < length (workers s) \<Longrightarrow> workers s ! w = WServe fd \<Longrightarrow> server_work (set_worker w (WHung fd) s) < server_work s"
  using weight_update [of w "workers s" worker_weight "WHung fd"] by (simp add: server_work_def worker_weight_def)

lemma thread_step_work: "thread_step s t \<Longrightarrow> server_work t < server_work s"
  by (auto elim!: thread_step.cases dest: worker_step_work worker_hangs_work main_step_work)

text \<open>At rest every worker waits at an empty buffer or is hung, and the main thread accepts, unless all workers are hung.\<close>

definition hung :: "wpc \<Rightarrow> bool" where
  "hung p = (case p of WHung fd \<Rightarrow> True | _ \<Rightarrow> False)"

lemma at_rest:
  assumes ok: "server_ok s" and rest: "\<And>t. \<not> thread_step s t" and some: "\<not> list_all hung (workers s)"
  shows "mset (accepted s) = mset (served s) + in_hand s \<and> main_pc s = MAccept \<and> (\<forall>p \<in> set (workers s). p = WWait \<or> hung p)"
proof -
  have ws: "worker_step w s = None" if "w < length (workers s)" for w using rest ts_worker [OF that] by (metis not_None_eq)
  have ms: "main_step k s = None" if "may_wake k s" for k using rest ts_main [OF that] by (metis not_None_eq)
  obtain k where k: "may_wake k s" by (auto simp: may_wake_def in_set_conv_nth)
  have free: "holder s = None"
  proof (cases "holder s")
    case (Some h)
    show ?thesis
    proof (cases h)
      case Main
      then have "main_holds (main_pc s)" using ok Some by (simp add: server_ok_def)
      then show ?thesis using ms [OF k] by (auto simp: main_holds_def main_step_def split: mpc.splits if_splits)
    next
      case (Worker w)
      then have w: "w < length (workers s)" "worker_holds (workers s ! w)" using ok Some by (auto simp: server_ok_def)
      then show ?thesis using ws [OF w(1)] by (auto simp: worker_holds_def worker_step_def split: wpc.splits if_splits prod.splits)
    qed
  qed
  have wait: "workers s ! w = WWait \<or> hung (workers s ! w)" if "w < length (workers s)" for w
    using ws [OF that] free by (auto simp: worker_step_def take_mutex_def hung_def split: wpc.splits if_splits prod.splits)
  then have all: "\<forall>p \<in> set (workers s). p = WWait \<or> hung p" by (metis in_set_conv_nth)
  then have "looking s = 0" by (auto simp: looking_def looks_def hung_def filter_empty_conv split: wpc.splits)
  moreover have "0 < free_workers s"
    using all some by (auto simp: free_workers_def list_all_iff filter_empty_conv simp flip: length_greater_0_conv)
  ultimately have c: "count (conns s) = 0" using ok unfolding server_ok_def by (auto simp: min_def split: if_splits)
  have "main_pc s = MAccept"
    using ms [OF k] free ok c by (auto simp: main_step_def take_mutex_def server_ok_def buf_ok_def split: mpc.splits if_splits)
  moreover have "buf_content (conns s) = []" using c content_length [of "conns s"] by simp
  ultimately show ?thesis using ok all by (auto simp: server_ok_def pc_simps)
qed

lemma thread_steps_work: "(thread_step ^^ n) s t \<Longrightarrow> n + server_work t \<le> server_work s"
proof (induction n arbitrary: t)
  case (Suc n)
  then obtain u where "(thread_step ^^ n) s u" "thread_step u t" by auto
  then show ?case using Suc.IH [of u] thread_step_work [of u t] by linarith
qed simp

lemma signal_accepted [simp]: "accepted (signal_empty s) = accepted s" "accepted (signal_fill k s) = accepted s"
  by (auto simp: signal_empty_def signal_fill_def split: mpc.split)

lemma worker_step_accepted: "worker_step w s = Some t \<Longrightarrow> accepted t = accepted s"
  by (cases "workers s ! w") (auto simp: worker_step_def take_mutex_def split: if_splits prod.splits)

lemma main_step_accepted: "main_step k s = Some t \<Longrightarrow> accepted t = accepted s"
  by (cases "main_pc s") (auto simp: main_step_def take_mutex_def split: if_splits)

lemma thread_steps_ok: "thread_step\<^sup>*\<^sup>* s t \<Longrightarrow> server_ok s \<Longrightarrow> server_ok t \<and> length (workers t) = length (workers s) \<and> accepted t = accepted s"
proof (induction rule: rtranclp_induct)
  case (step t u)
  have "accepted u = accepted t" using step.hyps(2) by (auto elim!: thread_step.cases dest: worker_step_accepted main_step_accepted)
  moreover have "length (workers u) = length (workers t)"
    using step.hyps(2) by (auto elim!: thread_step.cases dest: worker_step_length main_step_length)
  ultimately show ?case using step thread_step_ok by simp
qed simp

lemma filter_length_mono: "(\<And>x. P x \<Longrightarrow> Q x) \<Longrightarrow> length (filter P xs) \<le> length (filter Q xs)"
  by (induction xs) auto

text \<open>C23: the connections leave the buffer in the order in which they were accepted, none is lost and none is handled twice:
  what was accepted is what was taken, what the buffer holds and the one that the main thread waits to insert; what was
  taken was handled or is in the hands of a worker. The buffer never holds more than its capacity; and while it holds a connection
  not all workers sleep, and one is on its way to the buffer unless every worker is busy with a connection of its own.\<close>

theorem connections_in_order:
  assumes "server_reach threads buffers s" and "0 < buffers"
  shows "taken s @ buf_content (conns s) @ main_has (main_pc s) = accepted s \<and> mset (taken s) = mset (served s) + in_hand s
    \<and> length (buf_content (conns s)) \<le> nbuffers (conns s)
    \<and> (buf_content (conns s) \<noteq> [] \<and> 0 < threads \<longrightarrow> 0 < awake s \<and> (0 < free_workers s \<longrightarrow> 0 < looking s))"
proof -
  note ok = server_reach_ok [OF assms]
  have "length (buf_content (conns s)) \<le> nbuffers (conns s)" using ok connq.content_bound [of "conns s"] by (simp add: server_ok_def)
  moreover have "0 < awake s \<and> (0 < free_workers s \<longrightarrow> 0 < looking s)" if "buf_content (conns s) \<noteq> []" "0 < threads"
  proof -
    have "0 < count (conns s)" using that(1) content_length [of "conns s"] by (cases "buf_content (conns s)") simp_all
    then have l: "0 < free_workers s \<longrightarrow> 0 < looking s" using ok unfolding server_ok_def by (auto simp: min_def split: if_splits)
    have "looking s \<le> awake s" unfolding looking_def awake_def by (rule filter_length_mono) (auto simp: looks_def)
    moreover have "0 < awake s" if "free_workers s = 0"
    proof -
      have "\<forall>p \<in> set (workers s). p \<noteq> WWait" using that by (auto simp: free_workers_def filter_empty_conv)
      then have "awake s = length (workers s)" by (simp add: awake_def)
      then show ?thesis using ok \<open>0 < threads\<close> by simp
    qed
    ultimately show ?thesis using l by linarith
  qed
  ultimately show ?thesis using ok by (simp add: server_ok_def)
qed


subsection \<open>Arguments\<close>

text \<open>\<open>getargs\<close>: the port, the number of threads and the number of buffers. A message and \<open>exit\<close> is \<open>Inl\<close>; \<open>atoi\<close> is a parameter.\<close>

datatype args_error = Usage | No_threads | No_buffers

definition getargs :: "(string \<Rightarrow> int) \<Rightarrow> string list \<Rightarrow> args_error + int \<times> int \<times> int" where
  "getargs atoi argv = (if length argv \<noteq> 4 then Inl Usage
     else if atoi (argv ! 2) \<le> 0 then Inl No_threads
     else if atoi (argv ! 3) \<le> 0 then Inl No_buffers
     else Inr (atoi (argv ! 1), atoi (argv ! 2), atoi (argv ! 3)))"

lemma getargs_positive: "getargs atoi argv = Inr (p, t, b) \<Longrightarrow> 0 < t \<and> 0 < b"
  by (auto simp: getargs_def split: if_splits)

subsection \<open>Witnesses\<close>

definition one_accepted :: webserver where
  "one_accepted = \<lparr>conns = buf_new 1, holder = None, workers = [WLock], main_pc = MLock 5, accepted = [5], taken = [], served = []\<rparr>"

lemma one_accepted_reach: "server_reach 1 1 one_accepted"
proof -
  have "server_step (server_start 1 1) one_accepted"
    by (rule ss_accept [of 5]) (simp add: accept_step_def server_start_def one_accepted_def)
  then show ?thesis by (simp add: server_reach_def r_into_rtranclp)
qed

lemma connections_in_order_witness: "taken one_accepted @ buf_content (conns one_accepted) @ main_has (main_pc one_accepted) = [5]"
  using connections_in_order [OF one_accepted_reach] by (simp add: one_accepted_def)


end
