(* ===== verification/Request.thy ===== *)
theory Request
  imports Server Ulib
begin

text \<open>
  How the web server of project 4 answers a request, \<open>linux/request.c\<close>. Text is a list of characters, with CR and LF the
  characters 13 and 10. The lines that \<open>Rio_readlineb\<close> delivers before the end of the input are a list. What \<open>stat\<close>
  says of a file and what a program writes are parameters. A text too long for its buffer is \<open>Inl Overflow\<close>, a read
  in front of a text \<open>Inl Underflow\<close>, a loop that never ends \<open>Inl Hangs\<close>, and a call of a wrapper of \<open>cs537.c\<close> that ends the server
because the system call failed \<open>Inl Server_exits\<close>. The code builds its texts with \<open>sprintf(b, "%s...", b)\<close>, whose target
overlaps an argument; C leaves that undefined, so what such a call makes of the text \<open>b\<close> and the rest \<open>t\<close> is the parameter
\<open>onto b t\<close>.
\<close>

datatype request_error = Overflow | Underflow | Hangs | Server_exits

definition MAXLINE :: nat where "MAXLINE = 8192"
definition MAXBUF :: nat where "MAXBUF = 8192"

definition crlf :: string where "crlf = [CHR 13, CHR 10]"

definition fits :: "nat \<Rightarrow> string \<Rightarrow> request_error + string" where
  "fits n s = (if length s < n then Inr s else Inl Overflow)"

text \<open>\<open>strstr(s, t) != 0\<close>, and a number in decimal.\<close>

fun strstr :: "string \<Rightarrow> string \<Rightarrow> bool" where
  "strstr [] t = (t = [])"
| "strstr (c # s) t = (take (length t) (c # s) = t \<or> strstr s t)"

function dec_string :: "nat \<Rightarrow> string" where
  "dec_string n = (if n < 10 then [''0123456789'' ! n] else dec_string (n div 10) @ [''0123456789'' ! (n mod 10)])"
  by pat_completeness auto
termination by (relation "measure id") auto

declare dec_string.simps [simp del]

definition request_error_reply :: "(string \<Rightarrow> string \<Rightarrow> string) \<Rightarrow> string \<Rightarrow> string \<Rightarrow> string \<Rightarrow> string \<Rightarrow> request_error + string" where
  "request_error_reply onto cause errnum shortmsg longmsg =
     bindE (fits MAXBUF (foldl onto ''<html><title>CS537 Error</title>''
       [''<body bgcolor=fffff>'' @ crlf, errnum @ '': '' @ shortmsg @ crlf, ''<p>'' @ longmsg @ '': '' @ cause @ crlf,
        ''<hr>CS537 Web Server'' @ crlf])) (\<lambda>body.
     Inr (''HTTP/1.0 '' @ errnum @ '' '' @ shortmsg @ crlf @ ''Content-Type: text/html'' @ crlf
       @ ''Content-Length: '' @ dec_string (length body) @ crlf @ crlf @ body))"

text \<open>\<open>requestReadhdrs\<close>: at the end of the input \<open>Rio_readlineb\<close> leaves the buffer as it is, and the loop goes on for ever.\<close>

fun read_hdrs :: "string list \<Rightarrow> request_error + string list" where
  "read_hdrs [] = Inl Hangs"
| "read_hdrs (l # ls) = (if l = crlf then Inr ls else read_hdrs ls)"

definition parse_uri :: "string \<Rightarrow> request_error + bool \<times> string \<times> string" where
  "parse_uri uri =
     (if \<not> strstr uri ''cgi'' then
        if uri = [] then Inl Underflow
        else bindE (fits MAXLINE (''.'' @ uri @ (if last uri = CHR ''/'' then ''home.html'' else []))) (\<lambda>f. Inr (True, f, []))
      else
        let (path, args) = (case strchr uri (CHR ''?'') of None \<Rightarrow> (uri, [])
            | Some p \<Rightarrow> (take (length uri - length p) uri, tl p))
        in bindE (fits MAXLINE (''.'' @ path)) (\<lambda>f. Inr (False, f, args)))"

definition file_type :: "string \<Rightarrow> string" where
  "file_type name = (if strstr name ''.html'' then ''text/html'' else if strstr name ''.gif'' then ''image/gif''
     else if strstr name ''.jpg'' then ''image/jpeg'' else ''text/plain'')"

text \<open>\<open>regular\<close>, \<open>user_reads\<close> and \<open>user_executes\<close> are bits of the mode; \<open>opens\<close> is whether the server may open the file to read.\<close>

record fileinfo =
  regular :: bool
  user_reads :: bool
  user_executes :: bool
  opens :: bool
  contents :: string

text \<open>\<open>sbuf.st_size\<close> as the \<open>int filesize\<close>. \<open>mmap\<close> fails for the length 0, and for a negative one, a length behind the end of memory.\<close>

definition filesize :: "fileinfo \<Rightarrow> int" where
  "filesize f = sint (of_nat (length (contents f)) :: u32)"

definition serve_static :: "(string \<Rightarrow> string \<Rightarrow> string) \<Rightarrow> string \<Rightarrow> fileinfo \<Rightarrow> request_error + string" where
  "serve_static onto name f =
     (if \<not> opens f \<or> filesize f \<le> 0 then Inl Server_exits
      else Inr (foldl onto (''HTTP/1.0 200 OK'' @ crlf) [''Server: CS537 Web Server'' @ crlf,
         ''Content-Length: '' @ dec_string (nat (filesize f)) @ crlf, ''Content-Type: '' @ file_type name @ crlf @ crlf]
       @ take (nat (filesize f)) (contents f)))"

definition serve_dynamic :: "(string \<Rightarrow> string \<Rightarrow> string) \<Rightarrow> (string \<Rightarrow> string \<Rightarrow> string) \<Rightarrow> string \<Rightarrow> string \<Rightarrow> string" where
  "serve_dynamic onto run name args = onto (''HTTP/1.0 200 OK'' @ crlf) (''Server: CS537 Web Server'' @ crlf) @ run name args"

text \<open>\<open>sscanf(buf, "%s %s %s", ...)\<close>: the first words of the line; what it does not find keeps the value \<open>junk\<close>.\<close>

definition is_space :: "char \<Rightarrow> bool" where
  "is_space c = (c \<in> {CHR 32, CHR 9, CHR 10, CHR 11, CHR 12, CHR 13})"

definition word_at :: "nat \<Rightarrow> string \<Rightarrow> string" where
  "word_at n s = takeWhile (\<lambda>c. \<not> is_space c) (dropWhile is_space (((\<lambda>s. dropWhile (\<lambda>c. \<not> is_space c) (dropWhile is_space s)) ^^ n) s))"

definition scan_word :: "nat \<Rightarrow> string \<Rightarrow> string \<Rightarrow> string" where
  "scan_word n junk s = (if word_at n s = [] then junk else word_at n s)"

definition to_lower :: "char \<Rightarrow> char" where
  "to_lower c = (if 65 \<le> (of_char c :: nat) \<and> (of_char c :: nat) \<le> 90 then char_of ((of_char c :: nat) + 32) else c)"

definition strcasecmp_eq :: "string \<Rightarrow> string \<Rightarrow> bool" where
  "strcasecmp_eq s t = (map to_lower s = map to_lower t)"

definition request_handle :: "(string \<Rightarrow> string \<Rightarrow> string) \<Rightarrow> (string \<Rightarrow> fileinfo option) \<Rightarrow> (string \<Rightarrow> string \<Rightarrow> string) \<Rightarrow> string \<Rightarrow> string list \<Rightarrow> request_error + string" where
  "request_handle onto stat run junk input =
     (let line = (case input of [] \<Rightarrow> junk | l # _ \<Rightarrow> l); method = scan_word 0 junk line; uri = scan_word 1 junk line in
      if \<not> strcasecmp_eq method ''GET'' then
        request_error_reply onto method ''501'' ''Not Implemented'' ''CS537 Server does not implement this method''
      else bindE (read_hdrs (tl input)) (\<lambda>_. bindE (parse_uri uri) (\<lambda>(is_static, name, args).
        case stat name of
          None \<Rightarrow> request_error_reply onto name ''404'' ''Not found'' ''CS537 Server could not find this file''
        | Some f \<Rightarrow>
            if is_static then
              if \<not> regular f \<or> \<not> user_reads f then request_error_reply onto name ''403'' ''Forbidden'' ''CS537 Server could not read this file''
              else serve_static onto name f
            else
              if \<not> regular f \<or> \<not> user_executes f then request_error_reply onto name ''403'' ''Forbidden'' ''CS537 Server could not run this CGI program''
              else Inr (serve_dynamic onto run name args))))"

subsection \<open>Parsing and answering\<close>

text \<open>A dynamic address is cut at its first question mark.\<close>

lemma parse_uri_dynamic:
  assumes "parse_uri uri = Inr (False, name, args)"
  shows "\<exists>path. name = ''.'' @ path \<and> CHR ''?'' \<notin> set path \<and> (uri = path \<and> args = [] \<or> uri = path @ CHR ''?'' # args)"
proof -
  have dyn: "strstr uri ''cgi''" using assms by (auto simp: parse_uri_def bindE_eq_Inr_iff split: if_splits)
  show ?thesis
  proof (cases "strchr uri (CHR ''?'')")
    case None
    then have "CHR ''?'' \<notin> set uri" by (induction uri) (auto split: if_splits)
    then show ?thesis using assms dyn None by (auto simp: parse_uri_def fits_def split: if_splits)
  next
    case (Some r)
    then obtain p where p: "uri = p @ r" "CHR ''?'' \<notin> set p" "r \<noteq> []" "hd r = CHR ''?''" unfolding strchr_Some_iff by blast
    then obtain a where "r = CHR ''?'' # a" by (cases r) auto
    then show ?thesis using assms dyn Some p by (auto simp: parse_uri_def fits_def split: if_splits)
  qed
qed

text \<open>A request whose header does not end is never answered.\<close>

lemma open_header_hangs:
  "crlf \<notin> set hs \<Longrightarrow> strcasecmp_eq (scan_word 0 junk l) ''GET'' \<Longrightarrow> request_handle onto stat run junk (l # hs) = Inl Hangs"
proof -
  assume h: "crlf \<notin> set hs" and g: "strcasecmp_eq (scan_word 0 junk l) ''GET''"
  have "read_hdrs hs = Inl Hangs" using h by (induction hs) auto
  then show ?thesis using g by (simp add: request_handle_def)
qed

definition status :: "string \<Rightarrow> string" where
  "status r = take 3 (drop 9 r)"

lemma error_reply_fits:
  assumes on: "\<And>b t. onto b t = b @ t" and "length cause < 7950" and "length e = 3" and "length sm \<le> 20" and "length lm \<le> 60"
  shows "\<exists>r. request_error_reply onto cause e sm lm = Inr r \<and> take 9 r = ''HTTP/1.0 '' \<and> status r = e"
  using assms by (simp add: request_error_reply_def fits_def MAXBUF_def crlf_def status_def)

lemma parse_uri_fits:
  assumes "uri \<noteq> []" and "length uri < 7900"
  shows "\<exists>st name args. parse_uri uri = Inr (st, name, args) \<and> length name < 7950"
proof (cases "strstr uri ''cgi''")
  case True
  then show ?thesis using assms by (auto simp: parse_uri_def fits_def MAXLINE_def split: option.splits)
next
  case False
  then show ?thesis using assms by (auto simp: parse_uri_def fits_def MAXLINE_def)
qed

text \<open>The files on which a request that could be answered ends the server instead.\<close>

definition ends_server :: "bool \<Rightarrow> fileinfo \<Rightarrow> bool" where
  "ends_server st f = (st \<and> regular f \<and> user_reads f \<and> (\<not> opens f \<or> filesize f \<le> 0))"



text \<open>The largest address that a request line can carry overflows the buffer of the file name.\<close>

lemma long_address_overflows:
  "parse_uri (replicate 8186 CHR ''/'') = Inl Overflow"
proof -
  have "\<not> strstr (replicate n CHR ''/'') ''cgi''" for n by (induction n) auto
  moreover have "last (replicate 8186 CHR ''/'') = CHR ''/''" by simp
  ultimately show ?thesis by (simp add: parse_uri_def fits_def MAXLINE_def)
qed

end
