(* ===== verification/Console.thy ===== *)
theory Console
  imports Fifo
begin

text \<open>
  The console, \<open>kernel/console.c\<close>: the input buffer with line editing, and the screen. The three indices of the
  input are 32-bit counters that wrap; the characters from \<open>r\<close> to \<open>w\<close> wait for a reader, those from \<open>w\<close> to \<open>e\<close>
  are the line being edited. The interrupt handler runs under the lock of the input, and a reader gives it up only in
  \<open>sleep\<close>. What goes to the screen and the serial line is a list of events.
\<close>

definition INPUT_BUF :: nat where "INPUT_BUF = 128"

datatype con_event = Echo u8 | Erase | Procdump | Wake

record console =
  ibuf :: "u8 list"
  ir :: u32
  iw :: u32
  ie :: u32

definition con_start :: console where
  "con_start = \<lparr>ibuf = replicate INPUT_BUF 0, ir = 0, iw = 0, ie = 0\<rparr>"

definition con_at :: "u32 \<Rightarrow> console \<Rightarrow> u8" where
  "con_at i s = ibuf s ! (unat i mod INPUT_BUF)"

text \<open>\<open>consoleintr\<close>, one character. Control-U erases back to the start of the line.\<close>

function con_kill :: "console \<Rightarrow> con_event list \<times> console" where
  "con_kill s =
     (if ie s \<noteq> iw s \<and> con_at (ie s - 1) s \<noteq> 10
      then (let (out, t) = con_kill (s\<lparr>ie := ie s - 1\<rparr>) in (Erase # out, t))
      else ([], s))"
  by pat_completeness auto
termination
proof (relation "measure (\<lambda>s. unat (ie s - iw s))")
  fix s :: console
  assume a: "ie s \<noteq> iw s \<and> con_at (ie s - 1) s \<noteq> 10"
  then have "ie s - iw s \<noteq> 0" by simp
  then have "unat (ie s - iw s - 1) < unat (ie s - iw s)" by (rule measure_unat)
  then show "(s\<lparr>ie := ie s - 1\<rparr>, s) \<in> measure (\<lambda>s. unat (ie s - iw s))" by (simp add: algebra_simps)
qed simp

declare con_kill.simps [simp del]

definition con_key :: "u8 \<Rightarrow> console \<Rightarrow> con_event list \<times> console" where
  "con_key c s =
     (if c = 16 then ([Procdump], s)
      else if c = 21 then con_kill s
      else if c = 8 \<or> c = 127 then
        (if ie s \<noteq> iw s then ([Erase], s\<lparr>ie := ie s - 1\<rparr>) else ([], s))
      else if c \<noteq> 0 \<and> ie s - ir s < of_nat INPUT_BUF then
        (let c = (if c = 13 then 10 else c);
             s = s\<lparr>ibuf := (ibuf s)[unat (ie s) mod INPUT_BUF := c], ie := ie s + 1\<rparr>
         in if c = 10 \<or> c = 4 \<or> ie s = ir s + of_nat INPUT_BUF then ([Echo c, Wake], s\<lparr>iw := ie s\<rparr>) else ([Echo c], s))
      else ([], s))"

fun consoleintr :: "u8 list \<Rightarrow> console \<Rightarrow> con_event list \<times> console" where
  "consoleintr [] s = ([], s)"
| "consoleintr (c # cs) s = (let (o1, s1) = con_key c s; (o2, s2) = consoleintr cs s1 in (o1 @ o2, s2))"

text \<open>\<open>consoleread\<close> with \<open>n\<close> bytes to go and the bytes \<open>got\<close>: it returns, finds that the process was killed, or sleeps
  and goes on later from the same place.\<close>

datatype con_read = CRet "u8 list" | CKilled | CSleep "u8 list"

fun consoleread_from :: "bool \<Rightarrow> nat \<Rightarrow> u8 list \<Rightarrow> console \<Rightarrow> con_read \<times> console" where
  "consoleread_from killed 0 got s = (CRet got, s)"
| "consoleread_from killed (Suc n) got s =
     (if ir s = iw s then (if killed then CKilled else CSleep got, s)
      else
        (let c = con_at (ir s) s; s1 = s\<lparr>ir := ir s + 1\<rparr> in
         if c = 4 then (CRet got, if got \<noteq> [] then s1\<lparr>ir := ir s1 - 1\<rparr> else s1)
         else if c = 10 then (CRet (got @ [c]), s1)
         else consoleread_from killed n (got @ [c]) s1))"

definition consoleread :: "bool \<Rightarrow> nat \<Rightarrow> console \<Rightarrow> con_read \<times> console" where
  "consoleread killed n s = consoleread_from killed n [] s"

definition consolewrite :: "u8 list \<Rightarrow> con_event list \<times> int" where
  "consolewrite buf = (map Echo buf, int (length buf))"

subsection \<open>The specification: a line editor\<close>

record terminal =
  ready :: "u8 list"
  editing :: "u8 list"

definition line_key :: "u8 \<Rightarrow> terminal \<Rightarrow> con_event list \<times> terminal" where
  "line_key c t =
     (if c = 16 then ([Procdump], t)
      else if c = 21 then (replicate (length (editing t)) Erase, t\<lparr>editing := []\<rparr>)
      else if c = 8 \<or> c = 127 then (if editing t = [] then ([], t) else ([Erase], t\<lparr>editing := butlast (editing t)\<rparr>))
      else if c \<noteq> 0 \<and> length (ready t) + length (editing t) < 128 then
        (let c = (if c = 13 then 10 else c); line = editing t @ [c]
         in if c = 10 \<or> c = 4 \<or> length (ready t) + length line = 128 then ([Echo c, Wake], \<lparr>ready = ready t @ line, editing = []\<rparr>)
            else ([Echo c], t\<lparr>editing := line\<rparr>))
      else ([], t))"

fun line_read :: "bool \<Rightarrow> nat \<Rightarrow> u8 list \<Rightarrow> u8 list \<Rightarrow> con_read \<times> u8 list" where
  "line_read killed 0 got rs = (CRet got, rs)"
| "line_read killed (Suc n) got [] = (if killed then CKilled else CSleep got, [])"
| "line_read killed (Suc n) got (c # rs) =
     (if c = 4 then (CRet got, if got = [] then rs else c # rs)
      else if c = 10 then (CRet (got @ [c]), rs)
      else line_read killed n (got @ [c]) rs)"

definition con_abs :: "console \<Rightarrow> terminal" where
  "con_abs s = \<lparr>ready = ring INPUT_BUF (ibuf s) (unat (ir s)) (unat (iw s - ir s)),
     editing = ring INPUT_BUF (ibuf s) (unat (iw s)) (unat (ie s - iw s))\<rparr>"

definition con_ok :: "console \<Rightarrow> bool" where
  "con_ok s = (length (ibuf s) = INPUT_BUF \<and> unat (iw s - ir s) + unat (ie s - iw s) \<le> INPUT_BUF \<and> 10 \<notin> set (editing (con_abs s)))"

subsection \<open>The console is a line editor\<close>

lemma ring_snoc: "ring n d r (Suc k) = ring n d r k @ [d ! ((r + k) mod n)]"
  by (simp add: ring_def)

lemma ring_append: "ring n d r (a + b) = ring n d r a @ ring n d (r + a) b"
  by (induction b) (simp_all add: ring_snoc add.assoc)

lemma INPUT_BUF_dvd: "INPUT_BUF dvd 4294967296"
  by (simp add: INPUT_BUF_def)

lemma con_index: "unat (j :: u32) mod INPUT_BUF = (unat i + unat (j - i)) mod INPUT_BUF"
  using unat_add_mod [OF INPUT_BUF_dvd, of i "j - i"] by simp

text \<open>All characters of the buffer, in order: those that are ready and those of the line.\<close>

definition con_all :: "console \<Rightarrow> u8 list" where
  "con_all s = ring INPUT_BUF (ibuf s) (unat (ir s)) (unat (iw s - ir s) + unat (ie s - iw s))"

lemma con_all_abs: "con_all s = ready (con_abs s) @ editing (con_abs s)"
proof -
  have "ring INPUT_BUF (ibuf s) (unat (ir s) + unat (iw s - ir s)) d = ring INPUT_BUF (ibuf s) (unat (iw s)) d" for d
    by (rule ring_cong) (simp only: con_index [of "iw s" "ir s"])
  then show ?thesis by (simp add: con_all_def con_abs_def ring_append)
qed

lemma con_lengths: "length (ready (con_abs s)) = unat (iw s - ir s)" "length (editing (con_abs s)) = unat (ie s - iw s)"
  by (simp_all add: con_abs_def)

lemma con_abs_of_all:
  "con_abs s = \<lparr>ready = take (unat (iw s - ir s)) (con_all s), editing = drop (unat (iw s - ir s)) (con_all s)\<rparr>"
  by (simp add: con_all_abs con_lengths)

lemma con_total:
  assumes "con_ok s"
  shows "unat (ie s - ir s) = unat (iw s - ir s) + unat (ie s - iw s)"
proof -
  have "unat ((iw s - ir s) + (ie s - iw s)) = unat (iw s - ir s) + unat (ie s - iw s)"
    using assms by (intro unat_add_small) (simp add: con_ok_def INPUT_BUF_def)
  then show ?thesis by (simp add: algebra_simps)
qed

lemma editing_empty_iff: "editing (con_abs s) = [] \<longleftrightarrow> ie s = iw s"
proof -
  have "length (editing (con_abs s)) = 0 \<longleftrightarrow> ie s = iw s" by (auto simp: con_lengths unat_eq_0)
  then show ?thesis by simp
qed

lemma con_back:
  assumes ok: "con_ok s" and ne: "ie s \<noteq> iw s"
  shows "con_abs (s\<lparr>ie := ie s - 1\<rparr>) = (con_abs s)\<lparr>editing := butlast (editing (con_abs s))\<rparr>"
    and "con_at (ie s - 1) s = last (editing (con_abs s))" and "con_ok (s\<lparr>ie := ie s - 1\<rparr>)"
proof -
  have "1 \<le> ie s - iw s" using ne by (simp add: word_le_nat_alt Suc_le_eq unat_gt_0)
  then have u: "unat (ie s - iw s - 1) = unat (ie s - iw s) - 1" and p: "0 < unat (ie s - iw s)"
    by (simp_all add: unat_sub_small unat_gt_0 ne)
  then obtain d where d: "unat (ie s - iw s) = Suc d" by (cases "unat (ie s - iw s)") auto
  have e: "ie s - 1 - iw s = ie s - iw s - 1" by (simp add: algebra_simps)
  have i: "unat (ie s - 1) mod INPUT_BUF = (unat (iw s) + d) mod INPUT_BUF"
    using con_index [of "ie s - 1" "iw s"] e u d by simp
  show a: "con_abs (s\<lparr>ie := ie s - 1\<rparr>) = (con_abs s)\<lparr>editing := butlast (editing (con_abs s))\<rparr>"
    by (simp add: con_abs_def e u d ring_snoc butlast_append)
  show "con_at (ie s - 1) s = last (editing (con_abs s))" by (simp add: con_abs_def con_at_def d ring_snoc i)
  show "con_ok (s\<lparr>ie := ie s - 1\<rparr>)" using ok u a unfolding con_ok_def by (auto simp: e dest: in_set_butlastD)
qed

lemma con_kill_line:
  "con_ok s \<Longrightarrow> con_abs (snd (con_kill s)) = (con_abs s)\<lparr>editing := []\<rparr> \<and> con_ok (snd (con_kill s))
     \<and> fst (con_kill s) = replicate (length (editing (con_abs s))) Erase"
proof (induction s rule: con_kill.induct)
  case (1 s)
  show ?case
  proof (cases "ie s = iw s")
    case True
    then have "con_kill s = ([], s)" by (simp add: con_kill.simps)
    moreover have "editing (con_abs s) = []" using True editing_empty_iff by blast
    ultimately show ?thesis using 1(2) by simp
  next
    case False
    note b = con_back [OF 1(2) False]
    have ne: "editing (con_abs s) \<noteq> []" using False editing_empty_iff by blast
    then have "last (editing (con_abs s)) \<noteq> 10" using 1(2) last_in_set by (metis con_ok_def)
    then have c: "ie s \<noteq> iw s \<and> con_at (ie s - 1) s \<noteq> 10" using False b(2) by simp
    have k: "con_kill s = (Erase # fst (con_kill (s\<lparr>ie := ie s - 1\<rparr>)), snd (con_kill (s\<lparr>ie := ie s - 1\<rparr>)))"
      by (subst con_kill.simps) (simp add: c split_beta)
    have "Erase # replicate (length (butlast (editing (con_abs s)))) Erase = replicate (length (editing (con_abs s))) Erase"
      using ne by (simp flip: replicate_Suc)
    then show ?thesis using 1(1) [OF c b(3)] by (simp add: k b(1))
  qed
qed

lemma con_put_ok:
  fixes c :: u8
  assumes ok: "con_ok s" and lt: "length (con_all s) < INPUT_BUF"
  defines "t \<equiv> s\<lparr>ibuf := (ibuf s)[unat (ie s) mod INPUT_BUF := c], ie := ie s + 1\<rparr>"
  shows "con_all t = con_all s @ [c]" and "unat (ie t - iw t) = Suc (unat (ie s - iw s))" and "unat (ie t - ir t) = Suc (length (con_all s))"
proof -
  let ?d = "unat (iw s - ir s) + unat (ie s - iw s)"
  have d: "?d < 128" "unat (ie s - ir s) = ?d" using lt con_total [OF ok] by (simp_all add: con_all_def INPUT_BUF_def)
  have "unat ((ie s - iw s) + 1) = unat (ie s - iw s) + unat (1 :: u32)" by (rule unat_add_small) (use d in simp)
  moreover have "unat ((ie s - ir s) + 1) = unat (ie s - ir s) + unat (1 :: u32)" by (rule unat_add_small) (use d in simp)
  ultimately have e: "unat (ie s + 1 - iw s) = Suc (unat (ie s - iw s))" "unat (ie s + 1 - ir s) = Suc ?d"
    using d(2) by (simp_all add: algebra_simps)
  then show "unat (ie t - iw t) = Suc (unat (ie s - iw s))" "unat (ie t - ir t) = Suc (length (con_all s))"
    by (simp_all add: t_def con_all_def)
  have i: "unat (ie s) mod INPUT_BUF = (unat (ir s) + ?d) mod INPUT_BUF" using con_index [of "ie s" "ir s"] d(2) by simp
  have "con_all t = ring INPUT_BUF ((ibuf s)[(unat (ir s) + ?d) mod INPUT_BUF := c]) (unat (ir s)) (Suc ?d)"
    by (simp add: con_all_def t_def e i)
  also have "\<dots> = con_all s @ [c]"
    unfolding con_all_def by (rule ring_put) (use ok d in \<open>simp_all add: con_ok_def INPUT_BUF_def\<close>)
  finally show "con_all t = con_all s @ [c]" .
qed

lemma con_key_line:
  assumes ok: "con_ok s"
  shows "(fst (con_key c s), con_abs (snd (con_key c s))) = line_key c (con_abs s)" and "con_ok (snd (con_key c s))"
proof -
  have "(fst (con_key c s), con_abs (snd (con_key c s))) = line_key c (con_abs s) \<and> con_ok (snd (con_key c s))"
  proof -
    have all: "length (con_all s) = length (ready (con_abs s)) + length (editing (con_abs s))" by (simp add: con_all_abs)
    have room: "ie s - ir s < of_nat INPUT_BUF \<longleftrightarrow> length (con_all s) < 128"
      using con_total [OF ok] by (simp add: word_less_nat_alt con_all_def INPUT_BUF_def)
    consider "c = 16" | "c = 21" | "c = 8 \<or> c = 127" | "c \<notin> {16, 21, 8, 127}" by blast
    then show ?thesis
    proof cases
      case 1
      then show ?thesis using ok by (simp add: con_key_def line_key_def)
    next
      case 2
      then show ?thesis using con_kill_line [OF ok] by (simp add: con_key_def line_key_def)
    next
      case 3
      then have n: "c \<noteq> 16" "c \<noteq> 21" by auto
      show ?thesis
      proof (cases "ie s = iw s")
        case True
        then have "editing (con_abs s) = []" using editing_empty_iff by blast
        then show ?thesis using 3 n True ok by (simp add: con_key_def line_key_def)
      next
        case False
        then have "editing (con_abs s) \<noteq> []" using editing_empty_iff by blast
        then show ?thesis using 3 n False con_back(1,3) [OF ok False] by (simp add: con_key_def line_key_def)
      qed
    next
      case 4
      show ?thesis
      proof (cases "c \<noteq> 0 \<and> length (con_all s) < 128")
        case False
        then show ?thesis using 4 ok all room by (auto simp: con_key_def line_key_def)
      next
        case True
        define d where "d = (if c = 13 then 10 else c)"
        define t where "t = s\<lparr>ibuf := (ibuf s)[unat (ie s) mod INPUT_BUF := d], ie := ie s + 1\<rparr>"
        have lt: "length (con_all s) < INPUT_BUF" using True by (simp add: INPUT_BUF_def)
        note p = con_put_ok [OF ok lt, of d, folded t_def]
        have tr: "iw t = iw s" "ir t = ir s" "length (ibuf t) = INPUT_BUF" using ok by (simp_all add: t_def con_ok_def)
        have w: "unat (iw s - ir s) = length (ready (con_abs s))" by (simp add: con_lengths)
        have at: "con_abs t = \<lparr>ready = ready (con_abs s), editing = editing (con_abs s) @ [d]\<rparr>"
          unfolding con_abs_of_all [of t] tr p(1) w by (simp add: con_all_abs)
        have full: "ie t = ir s + of_nat INPUT_BUF \<longleftrightarrow> Suc (length (con_all s)) = 128"
        proof -
          have "ie t = ir s + of_nat INPUT_BUF \<longleftrightarrow> ie t - ir t = 128" by (auto simp: INPUT_BUF_def tr algebra_simps)
          also have "\<dots> \<longleftrightarrow> unat (ie t - ir t) = 128" by (simp add: word_unat_eq_iff)
          finally show ?thesis by (simp add: p(3))
        qed
        have "con_key c s = (if d = 10 \<or> d = 4 \<or> ie t = ir t + of_nat INPUT_BUF then ([Echo d, Wake], t\<lparr>iw := ie t\<rparr>) else ([Echo d], t))"
          using 4 True room unfolding d_def t_def by (simp add: con_key_def Let_def)
        then have key: "con_key c s = (if d = 10 \<or> d = 4 \<or> Suc (length (con_all s)) = 128 then ([Echo d, Wake], t\<lparr>iw := ie t\<rparr>) else ([Echo d], t))"
          by (simp only: tr full)
        have line: "line_key c (con_abs s) = (if d = 10 \<or> d = 4 \<or> Suc (length (con_all s)) = 128
            then ([Echo d, Wake], \<lparr>ready = con_all s @ [d], editing = []\<rparr>) else ([Echo d], con_abs t))"
          using 4 True all by (simp add: line_key_def Let_def d_def [symmetric] con_all_abs at)
        show ?thesis
        proof (cases "d = 10 \<or> d = 4 \<or> Suc (length (con_all s)) = 128")
          case True
          let ?u = "t\<lparr>iw := ie t\<rparr>"
          have "con_all ?u = con_all t"
          proof -
            have "unat (iw t - ir t) + unat (ie t - iw t) = unat (ie t - ir t)" using p(2,3) tr by (simp add: con_all_def)
            then show ?thesis by (simp add: con_all_def)
          qed
          then have "con_abs ?u = \<lparr>ready = con_all s @ [d], editing = []\<rparr>"
            using p by (simp add: con_abs_of_all [of ?u])
          moreover from this have "con_ok ?u" using tr p(3) lt by (simp add: con_ok_def)
          ultimately show ?thesis using True key line by simp
        next
          case False
          moreover have "unat (iw s - ir s) + unat (ie s - iw s) < INPUT_BUF" using lt by (simp add: con_all_def)
          ultimately have "con_ok t" using tr p(2) at ok by (simp add: con_ok_def)
          then show ?thesis using False key line by simp
        qed
      qed
    qed
  qed
  then show "(fst (con_key c s), con_abs (snd (con_key c s))) = line_key c (con_abs s)" "con_ok (snd (con_key c s))" by simp_all
qed

lemma con_take:
  assumes ok: "con_ok s" and ne: "ir s \<noteq> iw s"
  shows "ready (con_abs s) = con_at (ir s) s # ready (con_abs (s\<lparr>ir := ir s + 1\<rparr>))" and "editing (con_abs (s\<lparr>ir := ir s + 1\<rparr>)) = editing (con_abs s)"
    and "con_ok (s\<lparr>ir := ir s + 1\<rparr>)"
proof -
  have "iw s - ir s \<noteq> 0" using ne by simp
  then have "1 \<le> iw s - ir s" by (simp add: word_le_nat_alt Suc_le_eq unat_gt_0)
  then have u: "unat (iw s - ir s - 1) = unat (iw s - ir s) - 1" by (simp add: unat_sub_small)
  obtain d where d: "unat (iw s - ir s) = Suc d" using \<open>iw s - ir s \<noteq> 0\<close> by (cases "unat (iw s - ir s)") (auto simp: unat_eq_0)
  have e: "unat (iw s - (ir s + 1)) = d" using u d by (simp add: algebra_simps)
  show "ready (con_abs s) = con_at (ir s) s # ready (con_abs (s\<lparr>ir := ir s + 1\<rparr>))"
    by (simp add: con_abs_def d e ring_Suc_front con_at_def) (rule ring_cong, rule unat_inc_mod [OF INPUT_BUF_dvd, symmetric])
  show ed: "editing (con_abs (s\<lparr>ir := ir s + 1\<rparr>)) = editing (con_abs s)" by (simp add: con_abs_def)
  show "con_ok (s\<lparr>ir := ir s + 1\<rparr>)" using ok d e ed by (simp add: con_ok_def)
qed

lemma consoleread_line:
  assumes "con_ok s"
  shows "(let (r, t) = consoleread_from killed n got s in (r, ready (con_abs t))) = line_read killed n got (ready (con_abs s))
    \<and> editing (con_abs (snd (consoleread_from killed n got s))) = editing (con_abs s) \<and> con_ok (snd (consoleread_from killed n got s))"
  using assms
proof (induction n arbitrary: got s)
  case (Suc n)
  show ?case
  proof (cases "ir s = iw s")
    case True
    then have "ready (con_abs s) = []" by (simp add: con_abs_def)
    then show ?thesis using True Suc.prems by simp
  next
    case False
    let ?c = "con_at (ir s) s" and ?t = "s\<lparr>ir := ir s + 1\<rparr>"
    note k = con_take [OF Suc.prems False]
    consider "?c = 4" | "?c = 10" "?c \<noteq> 4" | "?c \<noteq> 4" "?c \<noteq> 10" by blast
    then show ?thesis
    proof cases
      case 1
      then show ?thesis using False Suc.prems k by (simp add: Let_def)
    next
      case 2
      then show ?thesis using False Suc.prems k by (simp add: Let_def)
    next
      case 3
      then show ?thesis using False Suc.IH [OF k(3), of "got @ [?c]"] k by (simp add: Let_def)
    qed
  qed
qed simp

text \<open>Histories of interrupts and reads, with their outputs.\<close>

datatype con_call = Keys "u8 list" | Read_input bool nat "u8 list"

datatype con_result = Shown "con_event list" | Got con_read

fun con_run :: "con_call list \<Rightarrow> console \<Rightarrow> con_result list \<times> console" where
  "con_run [] s = ([], s)"
| "con_run (Keys cs # calls) s = (let (out, s1) = consoleintr cs s; (rs, s2) = con_run calls s1 in (Shown out # rs, s2))"
| "con_run (Read_input killed n got # calls) s =
     (let (r, s1) = consoleread_from killed n got s; (rs, s2) = con_run calls s1 in (Got r # rs, s2))"

fun line_keys :: "u8 list \<Rightarrow> terminal \<Rightarrow> con_event list \<times> terminal" where
  "line_keys [] t = ([], t)"
| "line_keys (c # cs) t = (let (o1, t1) = line_key c t; (o2, t2) = line_keys cs t1 in (o1 @ o2, t2))"

fun line_run :: "con_call list \<Rightarrow> terminal \<Rightarrow> con_result list \<times> terminal" where
  "line_run [] t = ([], t)"
| "line_run (Keys cs # calls) t = (let (out, t1) = line_keys cs t; (rs, t2) = line_run calls t1 in (Shown out # rs, t2))"
| "line_run (Read_input killed n got # calls) t =
     (let (r, ready1) = line_read killed n got (ready t); (rs, t2) = line_run calls (t\<lparr>ready := ready1\<rparr>) in (Got r # rs, t2))"

lemma consoleintr_line:
  "con_ok s \<Longrightarrow> (fst (consoleintr cs s), con_abs (snd (consoleintr cs s))) = line_keys cs (con_abs s) \<and> con_ok (snd (consoleintr cs s))"
proof (induction cs arbitrary: s)
  case (Cons c cs)
  obtain o1 s1 where k: "con_key c s = (o1, s1)" by fastforce
  have l: "line_key c (con_abs s) = (o1, con_abs s1)" "con_ok s1" using con_key_line [OF Cons.prems, of c] k by simp_all
  show ?case using Cons.IH [OF l(2)] by (simp add: k l(1) split_beta Let_def) (metis fst_conv snd_conv)
qed simp

lemma con_run_line:
  "con_ok s \<Longrightarrow> (fst (con_run calls s), con_abs (snd (con_run calls s))) = line_run calls (con_abs s)"
proof (induction calls arbitrary: s)
  case (Cons call calls)
  show ?case
  proof (cases call)
    case (Keys cs)
    obtain out s1 where k: "consoleintr cs s = (out, s1)" by fastforce
    have l: "line_keys cs (con_abs s) = (out, con_abs s1)" "con_ok s1" using consoleintr_line [OF Cons.prems, of cs] k by simp_all
    show ?thesis using Cons.IH [OF l(2)] by (simp add: Keys k l(1) split_beta Let_def) (metis fst_conv snd_conv)
  next
    case (Read_input killed n got)
    obtain r s1 where k: "consoleread_from killed n got s = (r, s1)" by fastforce
    have l: "line_read killed n got (ready (con_abs s)) = (r, ready (con_abs s1))" "editing (con_abs s1) = editing (con_abs s)" "con_ok s1"
      using consoleread_line [OF Cons.prems, of killed n got] k by simp_all
    have "(con_abs s)\<lparr>ready := ready (con_abs s1)\<rparr> = con_abs s1" using l(2) by simp
    then show ?thesis using Cons.IH [OF l(3)] by (simp add: Read_input k l(1) split_beta Let_def) (metis fst_conv snd_conv)
  qed
qed simp

text \<open>C29: through any history of keyboard interrupts and reads the console behaves as a line editor over two lists of
  characters, across the wrap of its 32-bit indices: backspace and control-U erase only the line being edited, a
  line is handed over at its newline, at control-D or when the buffer is full, and readers get whole lines in order.\<close>

theorem console_edits_lines:
  "(fst (con_run calls con_start), con_abs (snd (con_run calls con_start))) = line_run calls \<lparr>ready = [], editing = []\<rparr>"
proof -
  have "con_ok con_start" "con_abs con_start = \<lparr>ready = [], editing = []\<rparr>"
    by (simp_all add: con_ok_def con_start_def con_abs_def)
  then show ?thesis using con_run_line [of con_start calls] by simp
qed

subsection \<open>The screen\<close>

text \<open>The text memory has 25 rows of 80 cells; \<open>pos\<close> is the cursor that the controller holds. \<open>uart\<close> is what went to the
  serial line.\<close>

record screen =
  crt :: "u16 list"
  pos :: nat
  uart :: "u8 list"

definition BACKSPACE :: u32 where "BACKSPACE = 0x100"

definition cga_scroll :: "screen \<Rightarrow> screen" where
  "cga_scroll s =
     (if pos s div 80 \<ge> 24 then
        (let p = pos s - 80; moved = take (23 * 80) (drop 80 (crt s)) @ drop (23 * 80) (crt s)
         in s\<lparr>crt := take p moved @ replicate (24 * 80 - p) 0 @ drop (24 * 80) moved, pos := p\<rparr>)
      else s)"

definition cgaputc :: "u32 \<Rightarrow> screen \<Rightarrow> screen" where
  "cgaputc c s =
     (let s1 = (if c = 10 then s\<lparr>pos := pos s + (80 - pos s mod 80)\<rparr>
                else if c = BACKSPACE then (if pos s > 0 then s\<lparr>pos := pos s - 1\<rparr> else s)
                else s\<lparr>crt := (crt s)[pos s := ucast (c AND 0xFF) OR 0x0700], pos := pos s + 1\<rparr>);
          s2 = cga_scroll s1
      in s2\<lparr>crt := (crt s2)[pos s2 := 32 OR 0x0700]\<rparr>)"

definition consputc :: "u32 \<Rightarrow> screen \<Rightarrow> screen" where
  "consputc c s = cgaputc c (if c = BACKSPACE then s\<lparr>uart := uart s @ [8, 32, 8]\<rparr> else s\<lparr>uart := uart s @ [ucast c]\<rparr>)"

definition screen_ok :: "screen \<Rightarrow> bool" where
  "screen_ok s = (length (crt s) = 2000 \<and> pos s < 1920)"

text \<open>The cursor stays on the first 24 rows, so every store hits the text memory.\<close>

lemma cgaputc_ok: "screen_ok s \<Longrightarrow> screen_ok (cgaputc c s)"
proof -
  assume ok: "screen_ok s"
  have sc: "screen_ok (cga_scroll t)" if "length (crt t) = 2000" "pos t \<le> 1920" for t
    using that by (auto simp: screen_ok_def cga_scroll_def Let_def)
  have "pos s + (80 - pos s mod 80) \<le> 1920"
  proof -
    have "pos s + (80 - pos s mod 80) = 80 * (pos s div 80 + 1)"
      by presburger
    moreover have "pos s div 80 < 24" using ok by (simp add: screen_ok_def less_mult_imp_div_less)
    ultimately show ?thesis by simp
  qed
  then show ?thesis using ok sc by (auto simp: cgaputc_def Let_def screen_ok_def)
qed

lemma consputc_ok: "screen_ok s \<Longrightarrow> screen_ok (consputc c s)"
  using cgaputc_ok by (simp add: consputc_def screen_ok_def)

text \<open>A character that fits on the row is stored under the cursor in white on black, and the row above does not change.\<close>

lemma cgaputc_char:
  assumes "screen_ok s" and "c \<noteq> 10" and "c \<noteq> BACKSPACE" and "pos s < 1919"
  shows "pos (cgaputc c s) = pos s + 1" and "crt (cgaputc c s) ! pos s = ucast (c AND 0xFF) OR 0x0700"
    and "k < pos s \<Longrightarrow> crt (cgaputc c s) ! k = crt s ! k"
proof -
  have "\<not> 24 \<le> (pos s + 1) div 80" using assms(4) by simp
  then show "pos (cgaputc c s) = pos s + 1" "crt (cgaputc c s) ! pos s = ucast (c AND 0xFF) OR 0x0700"
    "k < pos s \<Longrightarrow> crt (cgaputc c s) ! k = crt s ! k"
    using assms by (simp_all add: cgaputc_def cga_scroll_def Let_def screen_ok_def)
qed

subsection \<open>\<open>cprintf\<close>\<close>

definition con_digit :: "nat \<Rightarrow> char" where
  "con_digit d = ''0123456789abcdef'' ! d"

function con_digits :: "nat \<Rightarrow> nat \<Rightarrow> string" where
  "con_digits b x = con_digit (x mod b) # (if x div b \<noteq> 0 \<and> 2 \<le> b then con_digits b (x div b) else [])"
  by pat_completeness auto
termination by (relation "measure snd") (auto intro!: div_less_dividend gr0I)

declare con_digits.simps [simp del]

definition con_printint :: "u32 \<Rightarrow> nat \<Rightarrow> bool \<Rightarrow> string" where
  "con_printint xx base sg =
     (let neg = sg \<and> sint xx < 0; x = (if neg then - xx else xx)
      in rev (con_digits base (unat x) @ (if neg then ''-'' else '''')))"

text \<open>The arguments are words; \<open>str\<close> is the string at an address. A missing argument is \<open>None\<close>.\<close>

fun cprintf :: "(u32 \<Rightarrow> string) \<Rightarrow> string \<Rightarrow> u32 list \<Rightarrow> string option" where
  "cprintf str [] args = Some []"
| "cprintf str [c] args = (if c = CHR ''%'' then Some [] else Some [c])"
| "cprintf str (c # d # f) args =
     (if c \<noteq> CHR ''%'' then map_option ((#) c) (cprintf str (d # f) args)
      else if d \<in> {CHR ''d'', CHR ''x'', CHR ''p'', CHR ''s''} then
        (case args of [] \<Rightarrow> None
         | a # as \<Rightarrow> map_option ((@) (if d = CHR ''d'' then con_printint a 10 True
              else if d = CHR ''s'' then (if a = 0 then ''(null)'' else str a)
              else con_printint a 16 False)) (cprintf str f as))
      else if d = CHR ''%'' then map_option ((#) (CHR ''%'')) (cprintf str f args)
      else map_option (\<lambda>r. CHR ''%'' # d # r) (cprintf str f args))"

lemma cprintf_plain: "CHR ''%'' \<notin> set f \<Longrightarrow> cprintf str f args = Some f"
  by (induction str f args rule: cprintf.induct) auto

end
