(* ===== verification/Rio.thy ===== *)
theory Rio
  imports Prelude
begin

text \<open>
  The robust input and output routines of the web server of project 4, \<open>linux/cs537.c\<close>. What a descriptor still delivers is a
  list of events: a chunk of bytes that has arrived, a signal that interrupts the call, an error; after the last one is the end
  of the file. A \<open>read\<close> takes at most what is asked for of the next chunk. The routines hide the chunks and the signals.
\<close>

datatype arrival = Chunk string | Signal | Failure

datatype read_result = Bytes string | EINTR | Error

fun unix_read :: "nat \<Rightarrow> arrival list \<Rightarrow> read_result \<times> arrival list" where
  "unix_read n [] = (Bytes [], [])"
| "unix_read n (Chunk bs # ds) = (Bytes (take n bs), if length bs \<le> n then ds else Chunk (drop n bs) # ds)"
| "unix_read n (Signal # ds) = (EINTR, ds)"
| "unix_read n (Failure # ds) = (Error, ds)"

lemma sys_read_shorter:
  "unix_read n ds = (EINTR, ds') \<Longrightarrow> length ds' < length ds"
  "unix_read n ds = (r, ds') \<Longrightarrow> length ds' \<le> length ds"
  by (cases "(n, ds)" rule: unix_read.cases; auto)+

subsection \<open>The code\<close>

text \<open>Unbuffered: the value that is returned, the bytes in the caller's buffer, and what the descriptor still has.\<close>

function rio_readn_loop :: "nat \<Rightarrow> string \<Rightarrow> arrival list \<Rightarrow> (int \<times> string) \<times> arrival list" where
  "rio_readn_loop nleft got ds =
     (if nleft = 0 then ((int (length got), got), ds)
      else case unix_read nleft ds of
          (EINTR, ds') \<Rightarrow> rio_readn_loop nleft got ds'
        | (Error, ds') \<Rightarrow> ((-1, got), ds')
        | (Bytes bs, ds') \<Rightarrow>
            if bs = [] then ((int (length got), got), ds')
            else rio_readn_loop (nleft - length bs) (got @ bs) ds')"
  by pat_completeness auto
termination
proof (relation "measure (\<lambda>(nleft, _, ds). nleft + length ds)", simp_all)
  show "nleft - length bs + length ds' < nleft + length ds" if "0 < nleft" "(Bytes bs, ds') = unix_read nleft ds" "bs \<noteq> []" for nleft ds ds' bs
    using that sys_read_shorter(2) [of nleft ds "Bytes bs" ds'] by (cases bs) auto
  show "length ds' < length ds" if "(EINTR, ds') = unix_read nleft ds" for nleft ds ds'
    using that sys_read_shorter(1) [of nleft ds ds'] by simp
qed

declare rio_readn_loop.simps [simp del]

definition rio_readn :: "nat \<Rightarrow> arrival list \<Rightarrow> (int \<times> string) \<times> arrival list" where
  "rio_readn n ds = rio_readn_loop n [] ds"

text \<open>Writing: how many bytes each call takes, with \<open>None\<close> for a signal and \<open>Some None\<close> for an error; the last call takes all.
  \<open>intr\<close> says whether \<open>errno\<close> is \<open>EINTR\<close>, which a call that takes no byte does not set.\<close>

fun rio_writen_loop :: "bool \<Rightarrow> string \<Rightarrow> nat option option list \<Rightarrow> string \<Rightarrow> bool \<times> string" where
  "rio_writen_loop intr [] ws out = (True, out)"
| "rio_writen_loop intr (b # bs) [] out = (True, out @ b # bs)"
| "rio_writen_loop intr (b # bs) (None # ws) out = rio_writen_loop True (b # bs) ws out"
| "rio_writen_loop intr (b # bs) (Some None # ws) out = (False, out)"
| "rio_writen_loop intr (b # bs) (Some (Some k) # ws) out =
     (if k = 0 then if intr then rio_writen_loop intr (b # bs) ws out else (False, out)
      else rio_writen_loop intr (drop k (b # bs)) ws (out @ take k (b # bs)))"

definition rio_writen :: "bool \<Rightarrow> string \<Rightarrow> nat option option list \<Rightarrow> int \<times> string" where
  "rio_writen intr bs ws = (let (done, out) = rio_writen_loop intr bs ws [] in (if done then int (length bs) else -1, out))"

text \<open>Buffered: the unread bytes of the buffer and the descriptor. A negative \<open>rio_cnt\<close>, like 0, is an empty buffer.\<close>

type_synonym rio = "string \<times> arrival list"

definition RIO_BUFSIZE :: nat where "RIO_BUFSIZE = 8192"

definition rio_readinitb :: "arrival list \<Rightarrow> rio" where
  "rio_readinitb ds = ([], ds)"

function rio_read :: "nat \<Rightarrow> rio \<Rightarrow> read_result \<times> rio" where
  "rio_read n (buf, ds) =
     (if buf \<noteq> [] then (Bytes (take n buf), (drop n buf, ds))
      else case unix_read RIO_BUFSIZE ds of
          (EINTR, ds') \<Rightarrow> rio_read n ([], ds')
        | (Error, ds') \<Rightarrow> (Error, ([], ds'))
        | (Bytes bs, ds') \<Rightarrow> (Bytes (take n bs), (drop n bs, ds')))"
  by pat_completeness auto
termination
proof (relation "measure (\<lambda>(_, _, ds). length ds)", simp_all)
  show "length ds' < length ds" if "(EINTR, ds') = unix_read RIO_BUFSIZE ds" for ds ds'
    using that sys_read_shorter(1) [of RIO_BUFSIZE ds ds'] by simp
qed

declare rio_read.simps [simp del]

function rio_readnb_loop :: "nat \<Rightarrow> string \<Rightarrow> rio \<Rightarrow> (int \<times> string) \<times> rio" where
  "rio_readnb_loop nleft got rp =
     (if nleft = 0 then ((int (length got), got), rp)
      else case rio_read nleft rp of
          (Bytes bs, rp') \<Rightarrow>
            if bs = [] then ((int (length got), got), rp')
            else rio_readnb_loop (nleft - length bs) (got @ bs) rp'
        | (_, rp') \<Rightarrow> ((-1, got), rp'))"
  by pat_completeness auto
termination
  by (relation "measure (\<lambda>(nleft, _, _). nleft)") (auto simp: length_greater_0_conv)

declare rio_readnb_loop.simps [simp del]

definition rio_readnb :: "nat \<Rightarrow> rio \<Rightarrow> (int \<times> string) \<times> rio" where
  "rio_readnb n rp = rio_readnb_loop n [] rp"

text \<open>\<open>k\<close> turns of the loop are left, \<open>n\<close> is its counter. The text is \<open>None\<close> where the code returns before it stores the zero.\<close>

fun rio_readlineb_loop :: "nat \<Rightarrow> nat \<Rightarrow> string \<Rightarrow> rio \<Rightarrow> (int \<times> string option) \<times> rio" where
  "rio_readlineb_loop 0 n got rp = ((int n, Some got), rp)"
| "rio_readlineb_loop (Suc k) n got rp =
     (case rio_read 1 rp of
        (Bytes [], rp') \<Rightarrow> if n = 1 then ((0, None), rp') else ((int n, Some got), rp')
      | (Bytes (c # _), rp') \<Rightarrow>
          if c = CHR 10 then ((int n, Some (got @ [c])), rp') else rio_readlineb_loop k (n + 1) (got @ [c]) rp'
      | (_, rp') \<Rightarrow> ((-1, None), rp'))"

definition rio_readlineb :: "nat \<Rightarrow> rio \<Rightarrow> (int \<times> string option) \<times> rio" where
  "rio_readlineb maxlen rp = rio_readlineb_loop (maxlen - 1) 1 [] rp"

subsection \<open>What a descriptor delivers\<close>

fun arrived :: "arrival list \<Rightarrow> string" where
  "arrived [] = []"
| "arrived (Chunk bs # ds) = bs @ arrived ds"
| "arrived (_ # ds) = arrived ds"

definition healthy :: "arrival list \<Rightarrow> bool" where
  "healthy ds = (Failure \<notin> set ds \<and> Chunk [] \<notin> set ds)"

lemma healthy_simps [simp]:
  "healthy []" "healthy (Signal # ds) = healthy ds" "healthy (Chunk bs # ds) = (bs \<noteq> [] \<and> healthy ds)" "\<not> healthy (Failure # ds)"
  by (auto simp: healthy_def)

lemma sys_read_cases:
  assumes "healthy ds" and "0 < n"
  obtains (signal) ds' where "unix_read n ds = (EINTR, ds')" "healthy ds'" "arrived ds' = arrived ds" "length ds' < length ds"
    | (bytes) bs ds' where "unix_read n ds = (Bytes bs, ds')" "healthy ds'" "arrived ds = bs @ arrived ds'" "length bs \<le> n"
        "bs = [] \<Longrightarrow> arrived ds = []"
proof (cases "(n, ds)" rule: unix_read.cases)
  case (2 m bs ds1)
  show ?thesis
  proof (rule bytes)
    show "unix_read n ds = (Bytes (take n bs), if length bs \<le> n then ds1 else Chunk (drop n bs) # ds1)" using 2 by simp
  qed (use 2 assms in auto)
qed (use assms signal bytes [of "[]" "[]"] in auto)

subsection \<open>Reading without a buffer\<close>

lemma readn_loop_result:
  "healthy ds \<Longrightarrow> \<exists>ds'. rio_readn_loop nleft got ds
     = ((int (length (got @ take nleft (arrived ds))), got @ take nleft (arrived ds)), ds')
     \<and> arrived ds' = drop nleft (arrived ds) \<and> healthy ds'"
proof (induction nleft got ds rule: rio_readn_loop.induct)
  case (1 nleft got ds)
  show ?case
  proof (cases "nleft = 0")
    case True
    then show ?thesis using 1(3) by (simp add: rio_readn_loop.simps)
  next
    case False
    then have "0 < nleft" by simp
    from 1(3) this show ?thesis
    proof (cases rule: sys_read_cases)
      case (signal ds')
      then show ?thesis using 1(2) [OF False signal(1) [symmetric] refl] False by (simp add: rio_readn_loop.simps [of nleft got ds])
    next
      case (bytes bs ds')
      show ?thesis
      proof (cases "bs = []")
        case True
        then show ?thesis using bytes False by (simp add: rio_readn_loop.simps [of nleft])
      next
        case ne: False
        then show ?thesis using 1(1) [OF False bytes(1) [symmetric] refl ne] bytes False by (simp add: rio_readn_loop.simps [of nleft got ds])
      qed
    qed
  qed
qed

text \<open>Whatever the sizes of the chunks and wherever signals fall, \<open>rio_readn\<close> returns the next \<open>n\<close> bytes, or all up to the
  end of the file, and leaves the others.\<close>

theorem rio_readn_exact:
  assumes "healthy ds"
  shows "\<exists>ds'. rio_readn n ds = ((int (min n (length (arrived ds))), take n (arrived ds)), ds') \<and> arrived ds' = drop n (arrived ds) \<and> healthy ds'"
  using readn_loop_result [OF assms, of n "[]"] by (simp add: rio_readn_def min.commute)

theorem rio_readn_exact_witness:
  "\<exists>ds'. rio_readn 3 [Chunk ''ab'', Signal, Chunk ''cde''] = ((3, ''abc''), ds') \<and> arrived ds' = ''de''"
proof -
  have "healthy [Chunk ''ab'', Signal, Chunk ''cde'']" by simp
  from rio_readn_exact [OF this, of 3] show ?thesis by (auto simp: numeral_eq_Suc)
qed

subsection \<open>Writing\<close>

lemma writen_loop_prefix:
  "rio_writen_loop intr bs ws out = (done, res) \<Longrightarrow> \<exists>k. res = out @ take k bs \<and> (done \<longrightarrow> res = out @ bs)"
proof (induction intr bs ws out rule: rio_writen_loop.induct)
  case (5 intr b bs k ws out)
  show ?case
  proof (cases "k = 0")
    case True
    then show ?thesis using 5 by (auto split: if_splits intro: exI [of _ 0])
  next
    case False
    then obtain j where "res = (out @ take k (b # bs)) @ take j (drop k (b # bs))" "done \<longrightarrow> res = (out @ take k (b # bs)) @ drop k (b # bs)"
      using 5(2) [OF False] 5(3) by auto
    then show ?thesis by (intro exI [of _ "k + j"]) (simp add: take_add)
  qed
next
  case (2 intr b bs out)
  then show ?case by (intro exI [of _ "length (b # bs)"]) simp
qed (auto intro: exI [of _ 0])

lemma writen_loop_done:
  "Some None \<notin> set ws \<Longrightarrow> Some (Some 0) \<notin> set ws \<Longrightarrow> fst (rio_writen_loop intr bs ws out)"
  by (induction intr bs ws out rule: rio_writen_loop.induct) auto

theorem rio_writen_all:
  assumes "Some None \<notin> set ws" and "Some (Some 0) \<notin> set ws"
  shows "rio_writen intr bs ws = (int (length bs), bs)"
  using writen_loop_done [OF assms, of intr bs "[]"] writen_loop_prefix [of intr bs ws "[]"]
  by (cases "rio_writen_loop intr bs ws []") (auto simp: rio_writen_def)

subsection \<open>Reading through the buffer\<close>

definition unread :: "rio \<Rightarrow> string" where
  "unread rp = fst rp @ arrived (snd rp)"

lemma rio_read_result:
  assumes "healthy (snd rp)" and "0 < n"
  obtains bs rp' where "rio_read n rp = (Bytes bs, rp')" "healthy (snd rp')" "unread rp = bs @ unread rp'" "length bs \<le> n"
    "bs = [] \<Longrightarrow> unread rp = []"
  using assms
proof (induction n rp arbitrary: thesis rule: rio_read.induct)
  case (1 n buf ds)
  show ?case
  proof (cases "buf = []")
    case False
    then show ?thesis using 1(2) [of "take n buf" "(drop n buf, ds)"] 1(3,4) by (simp add: rio_read.simps unread_def)
  next
    case True
    have "healthy ds" "0 < RIO_BUFSIZE" using 1(3) by (simp_all add: RIO_BUFSIZE_def)
    then show ?thesis
    proof (cases rule: sys_read_cases)
      case (signal ds')
      have "\<not> buf \<noteq> []" using True by simp
      moreover have "rio_read n (buf, ds) = rio_read n ([], ds')" using signal True by (simp add: rio_read.simps [of n "[]" ds])
      ultimately show ?thesis using 1(1) [OF _ signal(1) [symmetric] refl, of thesis] 1(2,4) signal True by (simp add: unread_def)
    next
      case (bytes bs ds')
      show ?thesis by (rule 1(2) [of "take n bs" "(drop n bs, ds')"])
          (use bytes True 1(4) in \<open>auto simp: rio_read.simps unread_def\<close>)
    qed
  qed
qed

lemma readnb_loop_result:
  "healthy (snd rp) \<Longrightarrow> \<exists>rp'. rio_readnb_loop nleft got rp
     = ((int (length (got @ take nleft (unread rp))), got @ take nleft (unread rp)), rp') \<and> unread rp' = drop nleft (unread rp) \<and> healthy (snd rp')"
proof (induction nleft got rp rule: rio_readnb_loop.induct)
  case (1 nleft got rp)
  show ?case
  proof (cases "nleft = 0")
    case True
    then show ?thesis using 1(2) by (simp add: rio_readnb_loop.simps)
  next
    case False
    then have n: "0 < nleft" by simp
    obtain bs rp' where r: "rio_read nleft rp = (Bytes bs, rp')" "healthy (snd rp')" "unread rp = bs @ unread rp'" "length bs \<le> nleft"
        "bs = [] \<Longrightarrow> unread rp = []"
      by (rule rio_read_result [OF 1(2) n]) blast
    show ?thesis
    proof (cases "bs = []")
      case True
      then show ?thesis using r n by (simp add: rio_readnb_loop.simps [of nleft])
    next
      case ne: False
      then show ?thesis using 1(1) [OF False r(1) [symmetric] refl ne] r False by (simp add: rio_readnb_loop.simps [of nleft got rp])
    qed
  qed
qed

theorem rio_readnb_exact:
  assumes "healthy (snd rp)"
  shows "\<exists>rp'. rio_readnb n rp = ((int (min n (length (unread rp))), take n (unread rp)), rp') \<and> unread rp' = drop n (unread rp) \<and> healthy (snd rp')"
  using readnb_loop_result [OF assms, of n "[]"] by (simp add: rio_readnb_def min.commute)

subsection \<open>Lines\<close>

text \<open>The line at the start of a text: up to its newline, at most \<open>k\<close> characters.\<close>

fun line_of :: "nat \<Rightarrow> string \<Rightarrow> string" where
  "line_of 0 t = []"
| "line_of (Suc k) [] = []"
| "line_of (Suc k) (c # t) = (if c = CHR 10 then [c] else c # line_of k t)"

lemma line_of_all: "length t \<le> k \<Longrightarrow> CHR 10 \<notin> set t \<Longrightarrow> line_of k t = t"
  by (induction k t rule: line_of.induct) auto

definition complete :: "string \<Rightarrow> bool" where
  "complete l = (l \<noteq> [] \<and> last l = CHR 10)"

lemma readlineb_loop_result:
  "healthy (snd rp) \<Longrightarrow> n = length got + 1 \<Longrightarrow> CHR 10 \<notin> set got \<Longrightarrow> got \<noteq> [] \<or> k = 0 \<or> unread rp \<noteq> [] \<Longrightarrow>
   \<exists>rp'. rio_readlineb_loop k n got rp = ((int (length (got @ line_of k (unread rp))) + (if complete (line_of k (unread rp)) then 0 else 1),
       Some (got @ line_of k (unread rp))), rp') \<and> unread rp' = drop (length (line_of k (unread rp))) (unread rp) \<and> healthy (snd rp')"
proof (induction k n got rp rule: rio_readlineb_loop.induct)
  case (1 n got rp)
  then show ?case by (simp add: complete_def)
next
  case (2 k n got rp)
  obtain bs rp' where r: "rio_read 1 rp = (Bytes bs, rp')" "healthy (snd rp')" "unread rp = bs @ unread rp'" "length bs \<le> 1"
      "bs = [] \<Longrightarrow> unread rp = []"
    by (rule rio_read_result [OF 2(2), of 1]) auto
  show ?case
  proof (cases bs)
    case Nil
    then show ?thesis using r 2(3-5) by (auto simp: complete_def)
  next
    case (Cons c cs)
    then have bs: "bs = [c]" using r(4) by simp
    show ?thesis
    proof (cases "c = CHR 10")
      case True
      then show ?thesis using r bs 2(3) by (simp add: complete_def)
    next
      case False
      have "\<exists>rp''. rio_readlineb_loop k (n + 1) (got @ [c]) rp' = ((int (length ((got @ [c]) @ line_of k (unread rp')))
           + (if complete (line_of k (unread rp')) then 0 else 1), Some ((got @ [c]) @ line_of k (unread rp'))), rp'')
         \<and> unread rp'' = drop (length (line_of k (unread rp'))) (unread rp') \<and> healthy (snd rp'')"
        by (rule 2(1) [OF r(1) [symmetric] refl bs]) (use False r(2) 2(3,4) in auto)
      moreover have "complete (c # line_of k (unread rp')) = complete (line_of k (unread rp'))" using False by (auto simp: complete_def)
      ultimately show ?thesis using r(1,3) False unfolding bs by auto
    qed
  qed
qed

text \<open>C27: \<open>rio_readlineb\<close> stores exactly the next line of the text, cut at \<open>maxlen - 1\<close> characters, whatever the chunks and the
  signals. It returns the length of the line, but one more when the line does not end in a newline; at the end of the file it
  returns 0 and stores nothing.\<close>

theorem rio_readlineb_line:
  assumes "healthy (snd rp)" and "1 < maxlen"
  shows "\<exists>rp'. rio_readlineb maxlen rp = (if unread rp = [] then (0, None) else
        let l = line_of (maxlen - 1) (unread rp) in (if complete l then int (length l) else int (length l) + 1, Some l), rp')
     \<and> unread rp' = drop (length (line_of (maxlen - 1) (unread rp))) (unread rp) \<and> healthy (snd rp')"
proof (cases "unread rp = []")
  case True
  obtain bs rp' where r: "rio_read 1 rp = (Bytes bs, rp')" "healthy (snd rp')" "unread rp = bs @ unread rp'"
    by (rule rio_read_result [OF assms(1), of 1]) auto
  obtain k where "maxlen - 1 = Suc k" using assms(2) by (cases "maxlen - 1") auto
  then show ?thesis using True r by (simp add: rio_readlineb_def)
next
  case False
  then show ?thesis using readlineb_loop_result [OF assms(1), of 1 "[]" "maxlen - 1"] by (auto simp: rio_readlineb_def Let_def)
qed

theorem rio_readlineb_line_witness:
  "\<exists>rp'. rio_readlineb 8192 (rio_readinitb [Chunk ''GE'', Signal, Chunk ''T'']) = ((4, Some ''GET''), rp') \<and> unread rp' = []"
proof -
  have h: "healthy (snd (rio_readinitb [Chunk ''GE'', Signal, Chunk ''T'']))" by (simp add: rio_readinitb_def)
  have u: "unread (rio_readinitb [Chunk ''GE'', Signal, Chunk ''T'']) = ''GET''" by (simp add: rio_readinitb_def unread_def)
  have l: "line_of (8192 - 1) ''GET'' = ''GET''" by (rule line_of_all) simp_all
  show ?thesis using rio_readlineb_line [OF h, of 8192] unfolding u l by (auto simp: complete_def Let_def)
qed

end
