(* ===== verification/Varsort.thy ===== *)
theory Varsort
  imports Prelude "HOL-Library.Multiset"
begin

text \<open>
  The record files of project 1: \<open>linux/genvar.c\<close> writes one with random records, \<open>varsort.c\<close> sorts one by the keys, \<open>dumpvar.c\<close>
  prints one. A file is its bytes; the options and the messages are left out. What \<open>malloc\<close> grants and how many bytes the disk still takes are parameters, and so
  are \<open>qsort\<close>, of which the C standard says that it sorts, and the values of \<open>rand\<close>.
\<close>

type_synonym u64 = "64 word"

record vrec =
  key :: u32
  data_ints :: u32
  data :: "u32 list"

datatype failed = Open_failed | Read_failed | Malloc_failed | Write_failed | Assertion | Division_by_zero | Overflowed

definition enc_rec :: "vrec \<Rightarrow> u8 list" where
  "enc_rec r = le32 (key r) @ le32 (data_ints r) @ concat (map le32 (data r))"

definition enc_file :: "vrec list \<Rightarrow> u8 list" where
  "enc_file rs = le32 (of_nat (length rs)) @ concat (map enc_rec rs)"

text \<open>\<open>read\<close> on a file that has \<open>n\<close> bytes left returns at most these.\<close>

definition file_read :: "nat \<Rightarrow> u8 list \<Rightarrow> u8 list \<times> u8 list" where
  "file_read n f = (take n f, drop n f)"

primrec ints_of :: "nat \<Rightarrow> u8 list \<Rightarrow> u32 list" where
  "ints_of 0 b = []"
| "ints_of (Suc n) b = word32 b # ints_of n (drop 4 b)"

subsection \<open>varsort\<close>

definition compare :: "vrec \<Rightarrow> vrec \<Rightarrow> int" where
  "compare f1 f2 = (if key f1 < key f2 then -1 else if key f1 = key f2 then 0 else 1)"

text \<open>\<open>ptr_size\<close> is an \<open>int\<close>; \<open>malloc\<close> and \<open>read\<close> get it extended to 64 bits, and what was read is compared with the size in 64 bits.\<close>

definition ptr_size :: "u32 \<Rightarrow> int" where
  "ptr_size n = sint (n * 4)"

definition read_record :: "(u64 \<Rightarrow> bool) \<Rightarrow> u8 list \<Rightarrow> failed + vrec \<times> u8 list" where
  "read_record alloc f =
     (let (b, f) = file_read 4 f in
      if length b \<noteq> 4 then Inl Read_failed
      else let k = word32 b; (b, f) = file_read 4 f in
      if length b \<noteq> 4 then Inl Read_failed
      else let n = word32 b; size = (of_int (ptr_size n) :: u64) in
      if \<not> alloc size then Inl Malloc_failed
      else let (b, f) = file_read (unat size) f in
      if length b \<noteq> 4 * unat n then Inl Read_failed
      else Inr (\<lparr>key = k, data_ints = n, data = ints_of (unat n) b\<rparr>, f))"

primrec read_records :: "(u64 \<Rightarrow> bool) \<Rightarrow> nat \<Rightarrow> u8 list \<Rightarrow> failed + vrec list" where
  "read_records alloc 0 f = Inr []"
| "read_records alloc (Suc n) f =
     bindE (read_record alloc f) (\<lambda>(r, f). bindE (read_records alloc n f) (\<lambda>rs. Inr (r # rs)))"

text \<open>A \<open>write\<close> to a disk with room for \<open>n\<close> more bytes.\<close>

definition file_write :: "u8 list \<Rightarrow> nat \<times> u8 list \<Rightarrow> failed + nat \<times> u8 list" where
  "file_write b = (\<lambda>(room, out). if length b \<le> room then Inr (room - length b, out @ b) else Inl Write_failed)"

primrec write_records :: "vrec list \<Rightarrow> nat \<times> u8 list \<Rightarrow> failed + nat \<times> u8 list" where
  "write_records [] s = Inr s"
| "write_records (r # rs) s =
     bindE (file_write (le32 (key r)) s) (\<lambda>s. bindE (file_write (le32 (data_ints r)) s) (\<lambda>s.
     bindE (file_write (take (nat (ptr_size (data_ints r))) (concat (map le32 (data r)))) s) (write_records rs)))"

text \<open>\<open>rsize\<close> is the size of a record of the array; the header that declares it is not in the repository.\<close>

definition varsort :: "u64 \<Rightarrow> ((vrec \<Rightarrow> vrec \<Rightarrow> int) \<Rightarrow> vrec list \<Rightarrow> vrec list) \<Rightarrow> (u64 \<Rightarrow> bool) \<Rightarrow> nat \<Rightarrow> bool \<Rightarrow> u8 list option \<Rightarrow> failed + u8 list" where
  "varsort rsize qsort alloc room can_create input =
     (case input of None \<Rightarrow> Inl Open_failed
      | Some f \<Rightarrow>
          let (b, f) = file_read 4 f in
          if length b \<noteq> 4 then Inl Read_failed
          else let nrecords = word32 b in
          if \<not> alloc (scast nrecords * rsize) then Inl Malloc_failed
          else bindE (read_records alloc (nat (sint nrecords)) f) (\<lambda>rs.
            if \<not> can_create then Inl Open_failed
            else bindE (file_write (le32 nrecords) (room, [])) (\<lambda>s.
                 bindE (write_records (qsort compare rs) s) (\<lambda>(_, out). Inr out))))"

subsection \<open>genvar\<close>

text \<open>\<open>rnd\<close> are the values of \<open>rand\<close> in order, each at least 0; \<open>k\<close> is the number of calls so far. \<open>limit\<close> is \<open>MAX_DATA_INTS\<close>.\<close>

definition gen_record :: "nat \<Rightarrow> int \<Rightarrow> (nat \<Rightarrow> u32) \<Rightarrow> nat \<Rightarrow> failed + vrec \<times> nat" where
  "gen_record limit m rnd k =
     (if m = 0 then Inl Division_by_zero
      else let n = nat (uint (rnd (k + 1)) mod abs m) + 1 in
      if limit < n then Inl Overflowed
      else Inr (\<lparr>key = rnd k mod 0xFFFFFFFF, data_ints = of_nat n, data = map (\<lambda>j. rnd (k + 2 + j)) [0..<n]\<rparr>, k + 2 + n))"

primrec gen_records :: "nat \<Rightarrow> int \<Rightarrow> (nat \<Rightarrow> u32) \<Rightarrow> nat \<Rightarrow> nat \<Rightarrow> nat \<times> u8 list \<Rightarrow> failed + nat \<times> u8 list" where
  "gen_records limit m rnd 0 k s = Inr s"
| "gen_records limit m rnd (Suc n) k s =
     bindE (gen_record limit m rnd k) (\<lambda>(r, k). bindE (file_write (enc_rec r) s) (gen_records limit m rnd n k))"

definition genvar :: "nat \<Rightarrow> nat \<Rightarrow> bool \<Rightarrow> int \<Rightarrow> int \<Rightarrow> (nat \<Rightarrow> u32) \<Rightarrow> failed + u8 list" where
  "genvar limit room can_create maxDataInts records rnd =
     (if maxDataInts > int limit then Inl Assertion
      else if \<not> can_create then Inl Open_failed
      else bindE (file_write (le32 (of_int records)) (room, [])) (\<lambda>s.
           bindE (gen_records limit maxDataInts rnd (nat records) 0 s) (\<lambda>(_, out). Inr out)))"

subsection \<open>dumpvar\<close>

text \<open>The lines that are printed: the number of the record, its key, its size and its data.\<close>

function dump_records :: "nat \<Rightarrow> u32 \<Rightarrow> nat \<Rightarrow> u8 list \<Rightarrow> (nat \<times> u32 \<times> u32 \<times> u32 list) list \<times> failed option" where
  "dump_records limit left num f =
     (if left = 0 then ([], None)
      else if length f < 8 then ([], Some Read_failed)
      else let k = word32 f; n = word32 (drop 4 f) in
      if limit < unat n then ([], Some Assertion)
      else if length (drop 8 f) < 4 * unat n then ([], Some Read_failed)
      else let (ls, e) = dump_records limit (left - 1) (num + 1) (drop (8 + 4 * unat n) f) in
        ((num, k, n, ints_of (unat n) (drop 8 f)) # ls, e))"
  by pat_completeness auto
termination by (relation "measure (\<lambda>(_, _, _, f). length f)") auto

declare dump_records.simps [simp del]

definition dumpvar :: "nat \<Rightarrow> u8 list option \<Rightarrow> (nat \<times> u32 \<times> u32 \<times> u32 list) list \<times> failed option" where
  "dumpvar limit input =
     (case input of None \<Rightarrow> ([], Some Open_failed)
      | Some f \<Rightarrow> if length f < 4 then ([], Some Read_failed) else dump_records limit (word32 f) 0 (drop 4 f))"

subsection \<open>Files of records\<close>

definition wf_rec :: "vrec \<Rightarrow> bool" where
  "wf_rec r = (unat (data_ints r) = length (data r) \<and> length (data r) < 2 ^ 29)"

lemma word32_drop [simp]: "drop 4 (le32 w @ b) = b" "take 4 (le32 w @ b) = le32 w"
  by simp_all

lemma ints_of_le32: "ints_of (length ws) (concat (map le32 ws) @ b) = ws"
  by (induction ws) simp_all

lemma length_enc_rec [simp]: "length (enc_rec r) = 8 + 4 * length (data r)"
  by (simp add: enc_rec_def)

lemma ptr_size_small: "wf_rec r \<Longrightarrow> ptr_size (data_ints r) = int (4 * length (data r))"
proof -
  assume r: "wf_rec r"
  have "unat (data_ints r) * 4 < 2 ^ 32" using r by (simp add: wf_rec_def)
  then have u: "unat (data_ints r * 4) = unat (data_ints r) * 4" by (subst unat_mult_lem [THEN iffD1]) simp_all
  then show ?thesis using r by (simp add: ptr_size_def wf_rec_def sint_small)
qed

lemma read_record_enc:
  assumes r: "wf_rec r" and al: "alloc (of_nat (4 * length (data r)))"
  shows "read_record alloc (enc_rec r @ f) = Inr (r, f)"
proof -
  let ?n = "4 * length (data r)"
  have s: "of_int (ptr_size (data_ints r)) = (of_nat ?n :: u64)" by (simp add: ptr_size_small [OF r])
  have "?n < 2 ^ 64" using r by (simp add: wf_rec_def)
  then have u: "unat (of_nat ?n :: u64) = ?n" by (simp add: unat_of_nat del: of_nat_mult)
  have n: "unat (data_ints r) = length (data r)" using r by (simp add: wf_rec_def)
  show ?thesis
    using al ints_of_le32 [of "data r" "[]"] by (simp add: read_record_def file_read_def enc_rec_def s u n Let_def del: of_nat_mult)
qed

lemma read_records_enc:
  assumes "\<forall>r \<in> set rs. wf_rec r \<and> alloc (of_nat (4 * length (data r)))"
  shows "read_records alloc (length rs) (concat (map enc_rec rs) @ f) = Inr rs"
  using assms by (induction rs) (simp_all add: read_record_enc)

lemma write_records_enc:
  assumes "\<forall>r \<in> set rs. wf_rec r" and "length (concat (map enc_rec rs)) \<le> room"
  shows "write_records rs (room, out) = Inr (room - length (concat (map enc_rec rs)), out @ concat (map enc_rec rs))"
  using assms
proof (induction rs arbitrary: room out)
  case (Cons r rs)
  have t: "take (nat (ptr_size (data_ints r))) (concat (map le32 (data r))) = concat (map le32 (data r))"
    using Cons.prems(1) by (simp add: ptr_size_small)
  have len: "8 + 4 * length (data r) + length (concat (map enc_rec rs)) \<le> room" using Cons.prems(2) by simp
  then have "4 \<le> room" "4 \<le> room - 4" "4 * length (data r) \<le> room - 4 - 4" by linarith+
  have "write_records rs (room - 4 - 4 - 4 * length (data r), out @ enc_rec r)
      = Inr (room - 4 - 4 - 4 * length (data r) - length (concat (map enc_rec rs)), (out @ enc_rec r) @ concat (map enc_rec rs))"
    by (rule Cons.IH) (use Cons.prems(1) len in auto)
  then show ?case using len \<open>4 \<le> room\<close> \<open>4 \<le> room - 4\<close> \<open>4 * length (data r) \<le> room - 4 - 4\<close> by (simp add: t file_write_def enc_rec_def [of r] diff_diff_eq add.assoc)
qed simp

lemma dump_records_enc:
  assumes "\<forall>r \<in> set rs. wf_rec r \<and> length (data r) \<le> limit" and "length rs < 2 ^ 32"
  shows "dump_records limit (of_nat (length rs)) i (concat (map enc_rec rs))
    = (map (\<lambda>(j, r). (j, key r, data_ints r, data r)) (enumerate i rs), None)"
  using assms
proof (induction rs arbitrary: i)
  case (Cons r rs)
  have n: "unat (data_ints r) = length (data r)" "length (data r) \<le> limit" using Cons.prems(1) by (simp_all add: wf_rec_def)
  have "of_nat (length (r # rs)) \<noteq> (0 :: u32)"
  proof
    assume "of_nat (length (r # rs)) = (0 :: u32)"
    then have "unat (of_nat (length (r # rs)) :: u32) = 0" by simp
    moreover have "unat (of_nat (length (r # rs)) :: u32) = length (r # rs)" using Cons.prems(2) by (intro unat_of_nat_small)
    ultimately show False by simp
  qed
  moreover have "ints_of (length (data r)) (drop 8 (enc_rec r @ concat (map enc_rec rs))) = data r"
    by (simp add: enc_rec_def ints_of_le32)
  moreover have "word32 (enc_rec r @ concat (map enc_rec rs)) = key r" "word32 (drop 4 (enc_rec r @ concat (map enc_rec rs))) = data_ints r"
    by (simp_all add: enc_rec_def)
  ultimately show ?case
    using Cons.IH [of "Suc i"] Cons.prems n by (simp add: dump_records.simps [of limit] Let_def)
qed (simp add: dump_records.simps)

subsection \<open>Sorting\<close>

text \<open>What the C standard says of \<open>qsort\<close>.\<close>

definition sorts :: "(('a \<Rightarrow> 'a \<Rightarrow> int) \<Rightarrow> 'a list \<Rightarrow> 'a list) \<Rightarrow> ('a \<Rightarrow> 'a \<Rightarrow> int) \<Rightarrow> bool" where
  "sorts qsort cmp = (\<forall>xs. mset (qsort cmp xs) = mset xs \<and> sorted_wrt (\<lambda>x y. cmp x y \<le> 0) (qsort cmp xs))"

lemma compare_le: "compare x y \<le> 0 \<longleftrightarrow> key x \<le> key y"
  by (auto simp: compare_def)

lemma sorts_compare:
  assumes "sorts qsort compare"
  shows "mset (qsort compare rs) = mset rs" and "sorted (map key (qsort compare rs))" and "set (qsort compare rs) = set rs"
    and "length (qsort compare rs) = length rs"
proof -
  show m: "mset (qsort compare rs) = mset rs" using assms by (simp add: sorts_def)
  then show "set (qsort compare rs) = set rs" "length (qsort compare rs) = length rs" by (rule mset_eq_setD, rule mset_eq_length)
  show "sorted (map key (qsort compare rs))" using assms by (simp add: sorts_def compare_le sorted_map)
qed

lemma length_enc_file: "length (enc_file rs) = 4 + (\<Sum>r \<leftarrow> rs. 8 + 4 * length (data r))"
  by (simp add: enc_file_def length_concat comp_def)

lemma varsort_result:
  assumes q: "sorts qsort compare" and r: "\<forall>r \<in> set rs. wf_rec r \<and> alloc (of_nat (4 * length (data r)))" and n: "length rs < 2 ^ 31"
    and al: "alloc (of_nat (length rs) * rsize)" and room: "length (enc_file rs) \<le> room"
  shows "varsort rsize qsort alloc room True (Some (enc_file rs @ f)) = Inr (enc_file (qsort compare rs))"
proof -
  note s = sorts_compare [OF q]
  have sn: "sint (of_nat (length rs) :: u32) = int (length rs)" using n by (intro sint_of_nat_u32) simp
  have sc: "scast (of_nat (length rs) :: u32) = (of_nat (length rs) :: u64)"
    by (simp only: scast_eq sn of_int_of_nat_eq)
  have len: "length (enc_file (qsort compare rs)) = length (enc_file rs)"
  proof -
    have "mset (map (\<lambda>r. 8 + 4 * length (data r)) (qsort compare rs)) = mset (map (\<lambda>r. 8 + 4 * length (data r)) rs)" by (simp add: s(1))
    then have "(\<Sum>r \<leftarrow> qsort compare rs. 8 + 4 * length (data r)) = (\<Sum>r \<leftarrow> rs. 8 + 4 * length (data r))"
      unfolding sum_mset_sum_list [symmetric] by (rule arg_cong)
    then show ?thesis by (simp only: length_enc_file)
  qed
  have wr: "write_records (qsort compare rs) (room - 4, le32 (of_nat (length rs)))
      = Inr (room - 4 - length (concat (map enc_rec (qsort compare rs))), le32 (of_nat (length rs)) @ concat (map enc_rec (qsort compare rs)))"
    by (rule write_records_enc) (use r room len s(3) in \<open>auto simp: enc_file_def\<close>)
  show ?thesis
    using al room n by (simp add: varsort_def file_read_def enc_file_def Let_def sn sc read_records_enc [OF r] file_write_def wr s(4))
qed

subsection \<open>Generating\<close>

lemma gen_record_wf:
  assumes "0 < m" and "m \<le> int limit" and "limit < 2 ^ 29"
  obtains r k' where "gen_record limit m rnd k = Inr (r, k')" "wf_rec r" "length (data r) \<le> limit"
proof -
  define n where "n = nat (uint (rnd (k + 1)) mod m) + 1"
  have "uint (rnd (k + 1)) mod m < m" "0 \<le> uint (rnd (k + 1)) mod m" using assms(1) by simp_all
  then have n: "n \<le> limit" using assms(2) by (simp add: n_def)
  have e: "nat (uint (rnd (k + 1)) mod abs m) + 1 = n" "m \<noteq> 0" "\<not> limit < n" using assms(1) n by (simp_all add: n_def)
  show ?thesis
  proof (rule that)
    show "gen_record limit m rnd k = Inr (\<lparr>key = rnd k mod 0xFFFFFFFF, data_ints = of_nat n, data = map (\<lambda>j. rnd (k + 2 + j)) [0..<n]\<rparr>, k + 2 + n)"
      unfolding gen_record_def e(1) Let_def by (simp only: e(2,3) if_False)
  qed (use assms n in \<open>simp_all add: wf_rec_def unat_of_nat\<close>)
qed

lemma gen_records_enc:
  assumes "0 < m" and "m \<le> int limit" and "limit < 2 ^ 29" and "n * (8 + 4 * limit) \<le> room"
  shows "\<exists>rs room'. gen_records limit m rnd n k (room, out) = Inr (room', out @ concat (map enc_rec rs)) \<and> length rs = n
     \<and> (\<forall>r \<in> set rs. wf_rec r \<and> length (data r) \<le> limit)"
  using assms(4)
proof (induction n arbitrary: k room out)
  case 0
  then show ?case by (intro exI [of _ "[]"]) simp
next
  case (Suc n)
  obtain r k' where r: "gen_record limit m rnd k = Inr (r, k')" "wf_rec r" "length (data r) \<le> limit"
    by (rule gen_record_wf [OF assms(1-3)])
  have room: "8 + 4 * length (data r) \<le> room" "n * (8 + 4 * limit) \<le> room - (8 + 4 * length (data r))"
    using Suc.prems r(3) by simp_all
  from Suc.IH [OF room(2)] obtain rs room' where
      rs: "gen_records limit m rnd n k' (room - (8 + 4 * length (data r)), out @ enc_rec r) = Inr (room', (out @ enc_rec r) @ concat (map enc_rec rs))"
      "length rs = n" "\<forall>r \<in> set rs. wf_rec r \<and> length (data r) \<le> limit" by blast
  show ?case by (rule exI [of _ "r # rs"]) (use rs r room(1) in \<open>simp add: file_write_def\<close>)
qed

text \<open>C28: What \<open>genvar\<close> writes, \<open>varsort\<close> sorts by the keys, with the same records, and \<open>dumpvar\<close> prints them all in that order.\<close>

theorem generated_file_is_sorted:
  assumes "sorts qsort compare" and "0 < m" and "m \<le> int limit" and "limit < 2 ^ 29" and "0 \<le> n" and "n < 2 ^ 31"
    and "4 + nat n * (8 + 4 * limit) \<le> room"
  shows "\<exists>rs ss. genvar limit room True m n rnd = Inr (enc_file rs) \<and> length rs = nat n
     \<and> varsort rsize qsort (\<lambda>_. True) room True (Some (enc_file rs)) = Inr (enc_file ss) \<and> mset ss = mset rs \<and> sorted (map key ss)
     \<and> dumpvar limit (Some (enc_file ss)) = (map (\<lambda>(i, r). (i, key r, data_ints r, data r)) (enumerate 0 ss), None)"
proof -
  have room: "nat n * (8 + 4 * limit) \<le> room - 4" using assms(7) by linarith
  from gen_records_enc [OF assms(2-4) room] obtain rs room' where
      g: "gen_records limit m rnd (nat n) 0 (room - 4, le32 (of_int n)) = Inr (room', le32 (of_int n) @ concat (map enc_rec rs))"
      "length rs = nat n" "\<forall>r \<in> set rs. wf_rec r \<and> length (data r) \<le> limit" by blast
  have n: "(of_int n :: u32) = of_nat (length rs)" using assms(5) g(2) by (simp add: of_nat_nat)
  have lt: "length rs < 2 ^ 31" using assms(5,6) g(2) by (simp add: nat_less_iff)
  have "genvar limit room True m n rnd = Inr (enc_file rs)"
    using assms(3,7) g(1) unfolding n by (simp add: genvar_def file_write_def enc_file_def n)
  moreover have "length (enc_file rs) \<le> room"
  proof -
    have "(\<Sum>r \<leftarrow> rs. 8 + 4 * length (data r)) \<le> (\<Sum>r \<leftarrow> rs. 8 + 4 * limit)" by (rule sum_list_mono) (use g(3) in simp)
    also have "\<dots> = nat n * (8 + 4 * limit)" using g(2) by (simp add: sum_list_triv)
    finally show ?thesis using assms(7) by (simp add: length_enc_file)
  qed
  then have "varsort rsize qsort (\<lambda>_. True) room True (Some (enc_file rs)) = Inr (enc_file (qsort compare rs))"
    using varsort_result [OF assms(1), of rs "\<lambda>_. True" rsize room "[]"] g(3) lt by simp
  moreover have "dumpvar limit (Some (enc_file (qsort compare rs)))
      = (map (\<lambda>(i, r). (i, key r, data_ints r, data r)) (enumerate 0 (qsort compare rs)), None)"
    using dump_records_enc [of "qsort compare rs" limit 0] g(3) lt sorts_compare(3,4) [OF assms(1)] by (simp add: dumpvar_def enc_file_def)
  ultimately show ?thesis using g(2) sorts_compare(1,2) [OF assms(1)] by blast
qed

theorem generated_file_is_sorted_witness:
  "\<exists>rs ss. genvar 8 200 True 2 3 (\<lambda>k. of_nat (7 - k)) = Inr (enc_file rs)
     \<and> varsort 16 (\<lambda>_. sort_key key) (\<lambda>_. True) 200 True (Some (enc_file rs)) = Inr (enc_file ss) \<and> sorted (map key ss)"
proof -
  have "sorts (\<lambda>_. sort_key key) compare" unfolding sorts_def compare_le by (intro allI conjI mset_sort sorted_sort_key [unfolded sorted_map])
  then have "\<exists>rs ss. genvar 8 200 True 2 3 (\<lambda>k. of_nat (7 - k)) = Inr (enc_file rs) \<and> length rs = nat 3
     \<and> varsort 16 (\<lambda>_. sort_key key) (\<lambda>_. True) 200 True (Some (enc_file rs)) = Inr (enc_file ss) \<and> mset ss = mset rs \<and> sorted (map key ss)
     \<and> dumpvar 8 (Some (enc_file ss)) = (map (\<lambda>(i, r). (i, key r, data_ints r, data r)) (enumerate 0 ss), None)"
    by (rule generated_file_is_sorted) simp_all
  then show ?thesis by blast
qed

end
