(* ===== verification/Mysh.thy ===== *)
theory Mysh
  imports Rio
begin

text \<open>
  The job-control shell of project 2, \<open>linux/mysh.c\<close>. One turn of its loop reads a line, cuts it at blanks, and runs a built-in
  command or a program. The input is a string, the output a list of events. What \<open>fork\<close> returns, whether \<open>execvp\<close> fails, which
  processes still run and how long a wait takes are a record \<open>mworld\<close> per turn. \<open>Undefined\<close> is a turn whose behaviour C does not
  define: a read behind a vector, a null pointer given to \<open>strtol\<close>, an overflow of the buffer of the line or of the counter of ids; the
  event \<open>Child_undefined\<close> is a read behind a vector by the child of the turn, after its \<open>execvp\<close> has failed. \<open>fflush(stdin)\<close>, which the shell
  calls after every program and ISO C does not define either, is taken to have no effect, as in the C library of Linux.
\<close>

definition MXCHAR :: nat where "MXCHAR = 513"

datatype 'a outcome = Go 'a | Exit int | Undefined

record job =
  j_id :: int
  j_pid :: int
  j_argv :: "string list"
  j_narg :: nat
  j_slots :: nat

text \<open>What is written: the prompt, the echo of a batch line, the answers of the built-in commands; and the programs that are started:
  process, file, arguments and whether it runs in the background, and what a child writes or does whose \<open>execvp\<close> failed.\<close>

datatype event = Prompt | Echo string | Line_error | Listed int "string list" | Terminated int int | Invalid_jid string
  | Launched int string "string list" bool | Fork_error | Not_found string | Child_undefined int

record mworld =
  fork_pid :: "int option"
  exec_fails :: bool
  running :: "int \<Rightarrow> bool"
  waited :: int

record mysh =
  m_in :: string
  m_str :: string
  m_jid :: int
  m_jobs :: "job list"
  m_out :: "event list"

subsection \<open>Words\<close>

definition blank :: "char \<Rightarrow> bool" where
  "blank c = (c \<in> {CHR 32, CHR 9, CHR 10})"

definition cstr :: "string \<Rightarrow> string" where
  "cstr s = takeWhile (\<lambda>c. c \<noteq> CHR 0x00) s"

text \<open>The words that the calls of \<open>strtok\<close> return, and the string that the first one leaves in the buffer.\<close>

lemma words_shorter:
  assumes "dropWhile blank s \<noteq> []"
  shows "length (dropWhile (\<lambda>c. \<not> blank c) (dropWhile blank s)) < length s"
proof -
  obtain c cs where c: "dropWhile blank s = c # cs" using assms by (cases "dropWhile blank s") auto
  then have "\<not> blank c" using hd_dropWhile [OF assms] by simp
  moreover have "length (dropWhile (\<lambda>c. \<not> blank c) cs) \<le> length cs" by (rule length_dropWhile_le)
  moreover have "length (c # cs) \<le> length s" unfolding c [symmetric] by (rule length_dropWhile_le)
  ultimately show ?thesis unfolding c by simp
qed

function strtok_words :: "string \<Rightarrow> string list" where
  "strtok_words s = (let s' = dropWhile blank s in
     if s' = [] then [] else takeWhile (\<lambda>c. \<not> blank c) s' # strtok_words (dropWhile (\<lambda>c. \<not> blank c) s'))"
  by pat_completeness auto
termination by (relation "measure length") (auto simp: words_shorter simp del: dropWhile_eq_Nil_conv)

declare strtok_words.simps [simp del]

definition n_args :: "string \<Rightarrow> nat" where
  "n_args s = length (strtok_words s)"

definition after_n_args :: "string \<Rightarrow> string" where
  "after_n_args s = (let s' = dropWhile blank s in
     if s' = [] then s else takeWhile blank s @ takeWhile (\<lambda>c. \<not> blank c) s')"

text \<open>\<open>strtol(s, &ptr, 10)\<close>, converted to an \<open>int\<close>.\<close>

fun dec_value :: "int \<Rightarrow> string \<Rightarrow> int" where
  "dec_value n [] = n"
| "dec_value n (c # s) = (if 48 \<le> (of_char c :: int) \<and> (of_char c :: int) \<le> 57 then dec_value (10 * n + (of_char c - 48)) s else n)"

definition strtol10 :: "string \<Rightarrow> int" where
  "strtol10 s = (let s = dropWhile (\<lambda>c. c \<in> {CHR 32, CHR 9, CHR 10, CHR 11, CHR 12, CHR 13}) s;
       v = (case s of [] \<Rightarrow> 0 | c # s' \<Rightarrow> if c = CHR ''-'' then - dec_value 0 s' else if c = CHR ''+'' then dec_value 0 s' else dec_value 0 s)
     in max (- (2 ^ 63)) (min (2 ^ 63 - 1) v))"

definition to_int :: "int \<Rightarrow> int" where
  "to_int v = sint (of_int v :: u32)"

subsection \<open>Jobs\<close>

text \<open>A finished job is deleted by copying the next one over it, all fields except \<open>narg\<close>.\<close>

fun overwrite_head :: "job list \<Rightarrow> job list" where
  "overwrite_head (x # y # js) = y\<lparr>j_narg := j_narg x\<rparr> # js"
| "overwrite_head js = []"

function list_jobs :: "(int \<Rightarrow> bool) \<Rightarrow> job list \<Rightarrow> event list \<times> job list" where
  "list_jobs run [] = ([], [])"
| "list_jobs run (x # js) =
     (if run (j_pid x) then (let (es, js') = list_jobs run js in (Listed (j_id x) (j_argv x) # es, x # js'))
      else list_jobs run (overwrite_head (x # js)))"
  by pat_completeness auto
termination
proof (relation "measure (\<lambda>(_, js). length js)", simp_all)
  show "length (overwrite_head (x # js)) < Suc (length js)" for x js by (cases js) simp_all
qed

fun delete_job :: "int \<Rightarrow> job list \<Rightarrow> job list" where
  "delete_job i [] = []"
| "delete_job i (x # js) = (if j_id x = i then overwrite_head (x # js) else x # delete_job i js)"

fun find_job :: "int \<Rightarrow> job list \<Rightarrow> job option" where
  "find_job i [] = None"
| "find_job i (x # js) = (if j_id x = i then Some x else find_job i js)"

text \<open>\<open>free_m\<close> frees \<open>narg + 1\<close> entries of every vector of arguments.\<close>

definition free_m :: "job list \<Rightarrow> 'a outcome" where
  "free_m js = (if \<forall>j \<in> set js. j_narg j + 1 \<le> j_slots j then Exit 0 else Undefined)"

subsection \<open>A turn of the loop\<close>

text \<open>An entry of the vector of \<open>narg + 1\<close> pointers that holds the words \<open>as\<close> and null pointers; there is nothing behind it.\<close>

definition argv_at :: "nat \<Rightarrow> string list \<Rightarrow> nat \<Rightarrow> string option option" where
  "argv_at narg as k = (if narg < k then None else Some (if k < length as then Some (as ! k) else None))"

text \<open>A child whose \<open>execvp\<close> fails frees the jobs of its copy of the shell before it exits.\<close>

definition child_fails :: "int \<Rightarrow> string \<Rightarrow> job list \<Rightarrow> event list" where
  "child_fails p name js = Not_found name # (case free_m js :: unit outcome of Undefined \<Rightarrow> [Child_undefined p] | _ \<Rightarrow> [])"

definition launch :: "mworld \<Rightarrow> nat \<Rightarrow> string list \<Rightarrow> bool \<Rightarrow> nat \<Rightarrow> mysh \<Rightarrow> mysh outcome" where
  "launch w narg as bg start s =
     (case fork_pid w of None \<Rightarrow> Go (s\<lparr>m_out := m_out s @ [Fork_error]\<rparr>)
      | Some p \<Rightarrow> let s = s\<lparr>m_out := m_out s @ Launched p (as ! start) as bg # (if exec_fails w then child_fails p (hd as) (m_jobs s) else [])\<rparr> in
          if bg then Go (s\<lparr>m_jobs := m_jobs s @ [\<lparr>j_id = m_jid s, j_pid = p, j_argv = as, j_narg = narg, j_slots = narg + 1\<rparr>]\<rparr>)
          else Go s)"

definition myw :: "mworld \<Rightarrow> nat \<Rightarrow> string list \<Rightarrow> mysh \<Rightarrow> mysh outcome" where
  "myw w narg as s0 =
     (let s = s0\<lparr>m_jid := m_jid s0 - 1\<rparr> in
      case argv_at narg as 1 of
        Some (Some a) \<Rightarrow>
          let i = to_int (strtol10 a) in
          if i > m_jid s then Go (s\<lparr>m_out := m_out s @ [Invalid_jid a]\<rparr>)
          else (case find_job i (m_jobs s) of
              None \<Rightarrow> Go (s\<lparr>m_out := m_out s @ [Terminated 0 i]\<rparr>)
            | Some j \<Rightarrow>
                if running w (j_pid j) then Go (s\<lparr>m_out := m_out s @ [Terminated (waited w) i]\<rparr>)
                else Go (s\<lparr>m_out := m_out s @ [Terminated 0 i], m_jobs := delete_job i (m_jobs s)\<rparr>))
      | _ \<Rightarrow> Undefined)"

definition run_line :: "mworld \<Rightarrow> mysh \<Rightarrow> mysh outcome" where
  "run_line w s0 =
     (let ts = strtok_words (m_str s0); narg = n_args (m_str s0); s = s0\<lparr>m_str := after_n_args (m_str s0)\<rparr> in
      if narg < 1 then Go (s\<lparr>m_jid := m_jid s - 1\<rparr>)
      else let bg = (last (last ts) = CHR ''&'');
             as = (if bg then if length (last ts) > 1 then butlast ts @ [butlast (last ts)] else butlast ts else ts) in
      if as = [] then Go s
      else if hd as = ''exit'' \<and> argv_at narg as 1 = Some None then free_m (m_jobs s)
      else if hd as = ''j'' \<and> argv_at narg as 1 = Some None then
        (let (es, js) = list_jobs (running w) (m_jobs s) in
         Go (s\<lparr>m_jid := m_jid s - 1, m_out := m_out s @ es, m_jobs := js\<rparr>))
      else if hd as = ''myw'' then
        (case argv_at narg as 2 of None \<Rightarrow> Undefined
         | Some None \<Rightarrow> myw w narg as s
         | Some (Some _) \<Rightarrow> launch w narg as bg 2 s)
      else launch w narg as bg (if hd as = ''exit'' \<or> hd as = ''j'' then 1 else 0) s)"

definition mysh_turn :: "bool \<Rightarrow> mworld \<Rightarrow> mysh \<Rightarrow> mysh outcome" where
  "mysh_turn batch w s0 =
     (if \<not> batch then
        let s = s0\<lparr>m_out := m_out s0 @ [Prompt]\<rparr>; l = line_of (MXCHAR - 1) (m_in s) in
        if m_in s = [] then free_m (m_jobs s)
        else if m_jid s = INT_MAX then Undefined
        else run_line w (s\<lparr>m_in := drop (length l) (m_in s), m_str := cstr l, m_jid := m_jid s + 1\<rparr>)
      else
        let l = line_of (length (m_in s0)) (m_in s0); str_b = cstr l; s = s0\<lparr>m_in := drop (length l) (m_in s0)\<rparr> in
        if m_in s0 = [] then free_m (m_jobs s0)
        else if length str_b = MXCHAR \<or> m_jid s = INT_MAX then Undefined
        else let (str, err) = (if length str_b > MXCHAR then (m_str s, [Line_error]) else (str_b, [])) in
        run_line w (s\<lparr>m_str := str, m_out := m_out s @ err @ [Echo str_b], m_jid := m_jid s + 1\<rparr>))"

definition mysh_start :: "string \<Rightarrow> string \<Rightarrow> mysh" where
  "mysh_start input junk = \<lparr>m_in = input, m_str = junk, m_jid = 0, m_jobs = [], m_out = []\<rparr>"

inductive mysh_reach :: "bool \<Rightarrow> string \<Rightarrow> string \<Rightarrow> mysh \<Rightarrow> bool" for batch input junk where
  start: "mysh_reach batch input junk (mysh_start input junk)"
| turn: "mysh_reach batch input junk s \<Longrightarrow> mysh_turn batch w s = Go s' \<Longrightarrow> mysh_reach batch input junk s'"

inductive_cases mysh_reach_cases: "mysh_reach batch input junk s"

subsection \<open>The table of jobs\<close>

text \<open>All of a job but \<open>narg\<close>.\<close>

definition ident :: "job \<Rightarrow> int \<times> int \<times> string list \<times> nat" where
  "ident j = (j_id j, j_pid j, j_argv j, j_slots j)"

lemma ident_narg [simp]: "ident (j\<lparr>j_narg := n\<rparr>) = ident j"
  by (simp add: ident_def)

lemma overwrite_head_ident [simp]: "map ident (overwrite_head (x # js)) = map ident js"
  by (cases js) simp_all

lemma list_jobs_result:
  "fst (list_jobs run js) = map (\<lambda>j. Listed (j_id j) (j_argv j)) (filter (\<lambda>j. run (j_pid j)) js)
   \<and> map ident (snd (list_jobs run js)) = map ident (filter (\<lambda>j. run (j_pid j)) js)"
proof (induction run js rule: list_jobs.induct)
  case (2 run x js)
  show ?case
  proof (cases "run (j_pid x)")
    case True
    then show ?thesis using 2(1) by (auto split: prod.splits)
  next
    case False
    have "map (\<lambda>j. Listed (j_id j) (j_argv j)) (filter (\<lambda>j. run (j_pid j)) ys) = map (\<lambda>j. Listed (j_id j) (j_argv j)) (filter (\<lambda>j. run (j_pid j)) zs)
        \<and> map ident (filter (\<lambda>j. run (j_pid j)) ys) = map ident (filter (\<lambda>j. run (j_pid j)) zs)"
      if "map ident ys = map ident zs" for ys zs
      using that by (induction ys zs rule: list_induct2') (auto simp: ident_def)
    from this [OF overwrite_head_ident] show ?thesis using 2(2) False by simp
  qed
qed simp

lemma delete_job_ident:
  "distinct (map j_id js) \<Longrightarrow> map ident (delete_job i js) = map ident (filter (\<lambda>j. j_id j \<noteq> i) js)"
proof (induction js)
  case (Cons x js)
  show ?case
  proof (cases "j_id x = i")
    case True
    have "j_id x \<notin> j_id ` set js" using Cons.prems by simp
    then have "j_id y \<noteq> i" if "y \<in> set js" for y using True that by blast
    then have "filter (\<lambda>j. j_id j \<noteq> i) js = js" by (intro filter_True) blast
    then show ?thesis using True by simp
  qed (use Cons in simp)
qed simp

text \<open>The ids ascend, are positive and at most \<open>n\<close>; every vector of arguments has a program and a slot for the null pointer.\<close>

definition good_jobs :: "int \<Rightarrow> job list \<Rightarrow> bool" where
  "good_jobs n js = (sorted_wrt (<) (map j_id js)
     \<and> (\<forall>j \<in> set js. 0 < j_id j \<and> j_id j \<le> n \<and> j_argv j \<noteq> [] \<and> length (j_argv j) < j_slots j))"

lemma good_jobs_ident:
  "good_jobs n js = (sorted_wrt (\<lambda>x y. fst x < fst y) (map ident js)
     \<and> (\<forall>(i, p, as, sl) \<in> set (map ident js). 0 < i \<and> i \<le> n \<and> as \<noteq> [] \<and> length as < sl))"
  by (auto simp: good_jobs_def ident_def sorted_wrt_map)

lemma good_jobs_filter: "good_jobs n js \<Longrightarrow> map ident js' = map ident (filter P js) \<Longrightarrow> good_jobs n js'"
  unfolding good_jobs_ident [of n js'] by (auto simp: good_jobs_def sorted_wrt_map sorted_wrt_filter ident_def)

lemma good_jobs_mono: "good_jobs n js \<Longrightarrow> n \<le> m \<Longrightarrow> good_jobs m js"
  by (auto simp: good_jobs_def)

lemma good_jobs_distinct: "good_jobs n js \<Longrightarrow> distinct (map j_id js)"
  by (simp add: good_jobs_def strict_sorted_iff)

lemma launch_good:
  assumes "good_jobs (m_jid s - 1) (m_jobs s)" and "0 < m_jid s" and "as \<noteq> []" and "length as \<le> narg" and "launch w narg as bg k s = Go s'"
  shows "good_jobs (m_jid s') (m_jobs s') \<and> m_jid s' = m_jid s"
proof -
  have "\<forall>j \<in> set (m_jobs s). j_id j \<le> m_jid s" using assms(1) by (auto simp: good_jobs_def)
  then show ?thesis using assms by (auto simp: launch_def good_jobs_def sorted_wrt_append Let_def split: option.splits if_splits)
qed

lemma run_line_good:
  assumes g: "good_jobs (m_jid s - 1) (m_jobs s)" and p: "0 < m_jid s" and r: "run_line w s = Go s'"
  shows "good_jobs (m_jid s') (m_jobs s') \<and> 0 \<le> m_jid s' \<and> m_jid s' \<le> m_jid s"
proof -
  have g': "good_jobs (m_jid s) (m_jobs s)" using g by (rule good_jobs_mono) simp
  have l: "good_jobs (m_jid s - 1) js" if "list_jobs run (m_jobs s) = (es, js)" for run es js
    using good_jobs_filter [OF g conjunct2 [OF list_jobs_result]] that by (metis snd_conv)
  have d: "good_jobs (m_jid s - 1) (delete_job i (m_jobs s))" for i
    by (rule good_jobs_filter [OF g delete_job_ident [OF good_jobs_distinct [OF g]]])
  have la: "good_jobs (m_jid s') (m_jobs s') \<and> 0 \<le> m_jid s' \<and> m_jid s' \<le> m_jid s"
    if "launch w narg as bg k (s\<lparr>m_str := t\<rparr>) = Go s'" "as \<noteq> []" "length as \<le> narg" for narg as bg k t
  proof -
    have "good_jobs (m_jid s') (m_jobs s') \<and> m_jid s' = m_jid (s\<lparr>m_str := t\<rparr>)"
      by (rule launch_good [OF _ _ that(2,3,1)]) (use g p in simp_all)
    then show ?thesis using p by (elim conjE) simp
  qed
  have my: "good_jobs (m_jid s') (m_jobs s') \<and> 0 \<le> m_jid s' \<and> m_jid s' \<le> m_jid s" if "myw w narg as (s\<lparr>m_str := t\<rparr>) = Go s'" for narg as t
    using that g p d by (auto simp: myw_def Let_def split: option.splits if_splits)
  show ?thesis
    using r g g' p l la my unfolding run_line_def
    by (auto simp: Let_def n_args_def free_m_def split: if_splits option.splits prod.splits)
qed

text \<open>C25: In every run of the shell, up to a turn of undefined behaviour such as the overflow of the counter of ids, the ids of the
  jobs ascend, are positive and at most the last one given, an \<open>int\<close>, and every vector of arguments names a program and
  has a slot for its null pointer.\<close>

theorem job_table_well_formed:
  assumes "mysh_reach batch input junk s"
  shows "good_jobs (m_jid s) (m_jobs s) \<and> 0 \<le> m_jid s \<and> m_jid s \<le> INT_MAX"
  using assms
proof (induction rule: mysh_reach.induct)
  case start
  then show ?case by (simp add: mysh_start_def good_jobs_def INT_MAX_def)
next
  case (turn s w s')
  have "run_line w t = Go s' \<Longrightarrow> m_jid t = m_jid s + 1 \<Longrightarrow> m_jobs t = m_jobs s \<Longrightarrow> m_jid s \<noteq> INT_MAX
      \<Longrightarrow> good_jobs (m_jid s') (m_jobs s') \<and> 0 \<le> m_jid s' \<and> m_jid s' \<le> INT_MAX" for t
    using run_line_good [of t w s'] turn(3) by simp
  then show ?case using turn(2) unfolding mysh_turn_def
    by (auto simp: Let_def free_m_def split: if_splits)
qed

theorem job_table_well_formed_witness:
  "\<exists>s. mysh_reach False ''a &'' [] s \<and> length (m_jobs s) = 1 \<and> good_jobs (m_jid s) (m_jobs s)"
proof -
  let ?w = "\<lparr>fork_pid = Some 7, exec_fails = False, running = (\<lambda>_. True), waited = 0\<rparr>"
  have "mysh_reach False ''a &'' [] \<lparr>m_in = [], m_str = ''a'', m_jid = 1, m_jobs = [\<lparr>j_id = 1, j_pid = 7, j_argv = [''a''], j_narg = 2, j_slots = 3\<rparr>],
      m_out = [Prompt, Launched 7 ''a'' [''a''] True]\<rparr>" (is "mysh_reach _ _ _ ?s")
    by (rule mysh_reach.turn [OF mysh_reach.start, where w = ?w]) code_simp
  then show ?thesis using job_table_well_formed by (intro exI conjI) (assumption, simp, blast)
qed

subsection \<open>The built-in commands\<close>

text \<open>The command \<open>j\<close> prints the jobs that still run, in order of their ids, forgets the others, and uses up no id.\<close>

theorem j_lists_running_jobs:
  assumes "m_in s \<noteq> []" and "strtok_words (cstr (line_of 512 (m_in s))) = [''j'']" and "m_jid s \<noteq> INT_MAX"
  shows "\<exists>s'. mysh_turn False w s = Go s' \<and> m_jid s' = m_jid s
     \<and> m_out s' = m_out s @ Prompt # map (\<lambda>j. Listed (j_id j) (j_argv j)) (filter (\<lambda>j. running w (j_pid j)) (m_jobs s))
     \<and> map ident (m_jobs s') = map ident (filter (\<lambda>j. running w (j_pid j)) (m_jobs s))"
  using assms list_jobs_result [of "running w" "m_jobs s"]
  by (auto simp: mysh_turn_def MXCHAR_def run_line_def n_args_def Let_def argv_at_def split: prod.splits)

theorem j_lists_running_jobs_witness:
  "\<exists>s'. mysh_turn False \<lparr>fork_pid = None, exec_fails = False, running = (\<lambda>p. p = 8), waited = 0\<rparr>
     \<lparr>m_in = ''j'', m_str = [], m_jid = 2, m_jobs = [\<lparr>j_id = 1, j_pid = 7, j_argv = [''a''], j_narg = 2, j_slots = 3\<rparr>,
        \<lparr>j_id = 2, j_pid = 8, j_argv = [''b''], j_narg = 2, j_slots = 3\<rparr>], m_out = []\<rparr> = Go s'
     \<and> m_out s' = [Prompt, Listed 2 [''b'']]"
proof -
  let ?s = "\<lparr>m_in = ''j'', m_str = [], m_jid = 2, m_jobs = [\<lparr>j_id = 1, j_pid = 7, j_argv = [''a''], j_narg = 2, j_slots = 3\<rparr>,
        \<lparr>j_id = 2, j_pid = 8, j_argv = [''b''], j_narg = 2, j_slots = 3\<rparr>], m_out = []\<rparr>"
  have "strtok_words (cstr (line_of 512 ''j'')) = [''j'']" by code_simp
  then have "m_in ?s \<noteq> []" "strtok_words (cstr (line_of 512 (m_in ?s))) = [''j'']" "m_jid ?s \<noteq> INT_MAX" by (simp_all add: INT_MAX_def)
  from j_lists_running_jobs [OF this, of "\<lparr>fork_pid = None, exec_fails = False, running = (\<lambda>p. p = 8), waited = 0\<rparr>"] show ?thesis by auto
qed

text \<open>The lines that make \<open>myw\<close> read a pointer that is not there.\<close>

definition bare_myw :: "string list \<Rightarrow> bool" where
  "bare_myw ts = (ts = [''myw''] \<or> ts = [''myw&''] \<or> ts = [''myw'', ''&''])"

definition exits :: "string list \<Rightarrow> bool" where
  "exits ts = (ts = [''exit''] \<or> ts = [''exit&''] \<or> ts = [''exit'', ''&''])"

lemma strtok_words_nonempty: "a \<in> set (strtok_words s) \<Longrightarrow> a \<noteq> []"
proof (induction s rule: strtok_words.induct)
  case (1 s)
  show ?case
  proof (cases "dropWhile blank s = []")
    case True
    then show ?thesis using 1(2) by (simp add: strtok_words.simps)
  next
    case False
    then have "\<not> blank (hd (dropWhile blank s))" by (rule hd_dropWhile)
    then have "takeWhile (\<lambda>c. \<not> blank c) (dropWhile blank s) \<noteq> []" using False by (cases "dropWhile blank s") auto
    moreover have "strtok_words s = takeWhile (\<lambda>c. \<not> blank c) (dropWhile blank s) # strtok_words (dropWhile (\<lambda>c. \<not> blank c) (dropWhile blank s))"
      using False by (subst strtok_words.simps) (simp only: Let_def if_False)
    ultimately show ?thesis using 1(1) [OF refl False] 1(2) by auto
  qed
qed

lemma myw_undefined: "myw w n as s = Undefined \<longleftrightarrow> (\<forall>a. argv_at n as 1 \<noteq> Some (Some a))"
  by (auto simp: myw_def Let_def split: option.splits if_splits)

lemma launch_defined: "launch w n as bg k s \<noteq> Undefined"
  by (simp add: launch_def Let_def split: option.splits)

lemma free_m_undefined: "free_m js = Undefined \<longleftrightarrow> (\<exists>j \<in> set js. j_slots j \<le> j_narg j)"
  by (auto simp: free_m_def not_le less_Suc_eq_le)

lemma unmark: "a \<noteq> [] \<Longrightarrow> last a = CHR ''&'' \<Longrightarrow> butlast a = w \<longleftrightarrow> a = w @ ''&''"
  by (metis append_butlast_last_id butlast_snoc)

lemma run_line_undefined:
  "run_line w s = Undefined \<longleftrightarrow> bare_myw (strtok_words (m_str s)) \<or> exits (strtok_words (m_str s)) \<and> (\<exists>j \<in> set (m_jobs s). j_slots j \<le> j_narg j)"
proof -
  define ts where "ts = strtok_words (m_str s)"
  define as where "as = (if last (last ts) = CHR ''&'' then if length (last ts) > 1 then butlast ts @ [butlast (last ts)] else butlast ts else ts)"
  have ne: "a \<noteq> []" if "a \<in> set ts" for a using strtok_words_nonempty that unfolding ts_def by blast
  have u: "run_line w s = Undefined \<longleftrightarrow> ts \<noteq> [] \<and> as \<noteq> [] \<and>
      (hd as = ''exit'' \<and> argv_at (length ts) as 1 = Some None \<and> (\<exists>j \<in> set (m_jobs s). j_slots j \<le> j_narg j)
       \<or> hd as = ''myw'' \<and> (argv_at (length ts) as 2 = None \<or> argv_at (length ts) as 2 = Some None \<and> (\<forall>a. argv_at (length ts) as 1 \<noteq> Some (Some a))))"
    unfolding run_line_def ts_def [symmetric] Let_def n_args_def as_def [symmetric]
    by (auto simp: free_m_undefined myw_undefined launch_defined split: option.splits prod.splits)
  consider "ts = []" | a where "ts = [a]" | a b where "ts = [a, b]" | a b c cs where "ts = a # b # c # cs"
    by (metis list.exhaust)
  then have "run_line w s = Undefined \<longleftrightarrow> bare_myw ts \<or> exits ts \<and> (\<exists>j \<in> set (m_jobs s). j_slots j \<le> j_narg j)"
  proof cases
    case 1
    then show ?thesis unfolding u by (simp add: bare_myw_def exits_def)
  next
    case (2 a)
    then have "a \<noteq> []" using ne by simp
    then show ?thesis unfolding u as_def 2 by (auto simp: argv_at_def bare_myw_def exits_def unmark)
  next
    case (3 a b)
    then have "b \<noteq> []" using ne by simp
    then have "last b = CHR ''&'' \<Longrightarrow> \<not> 1 < length b \<longleftrightarrow> b = ''&''" by (cases b) auto
    then show ?thesis unfolding u as_def 3 by (auto simp: argv_at_def bare_myw_def exits_def)
  next
    case (4 a b c cs)
    have l: "2 \<le> length as" unfolding as_def 4 by simp
    show ?thesis unfolding u using l by (auto simp: 4 argv_at_def bare_myw_def exits_def)
  qed
  then show ?thesis unfolding ts_def .
qed

text \<open>What a line adds to the output: at most one program, whose child meets undefined behaviour when its \<open>execvp\<close> fails while a job has a
  count of arguments larger than its vector.\<close>

definition started :: "event list \<Rightarrow> bool" where
  "started es = (\<exists>p f as bg. Launched p f as bg \<in> set es)"

definition child_bad :: "event list \<Rightarrow> bool" where
  "child_bad es = (\<exists>p. Child_undefined p \<in> set es)"

definition adds :: "mworld \<Rightarrow> mysh \<Rightarrow> mysh \<Rightarrow> bool" where
  "adds w s t = (\<exists>es. m_out t = m_out s @ es \<and> (child_bad es \<longleftrightarrow> started es \<and> exec_fails w \<and> (\<exists>j \<in> set (m_jobs s). j_slots j \<le> j_narg j)))"

lemma child_fails_events: "Child_undefined q \<in> set (child_fails p n js) \<longleftrightarrow> q = p \<and> (\<exists>j \<in> set js. j_slots j \<le> j_narg j)"
    "Launched a b c d \<notin> set (child_fails p n js)"
  using free_m_undefined [of js, where 'a = unit] by (auto simp: child_fails_def split: outcome.splits)

lemma launch_adds: "launch w narg as bg k s = Go t \<Longrightarrow> adds w s t"
  by (auto simp: launch_def Let_def adds_def started_def child_bad_def child_fails_events split: option.splits if_splits)

lemma quiet_adds: "m_out t = m_out s @ es \<Longrightarrow> \<forall>e \<in> set es. \<nexists>p. e = Child_undefined p \<Longrightarrow> \<forall>e \<in> set es. \<nexists>p f as bg. e = Launched p f as bg \<Longrightarrow> adds w s t"
  unfolding adds_def started_def child_bad_def by blast

lemma run_line_adds:
  assumes "run_line w s = Go t"
  shows "adds w s t"
proof -
  have l: "adds w s t" if "launch w narg as bg k (s\<lparr>m_str := x\<rparr>) = Go t" for narg as bg k x
    using launch_adds [OF that] by (simp add: adds_def)
  have y: "adds w s t" if "myw w narg as (s\<lparr>m_str := x\<rparr>) = Go t" for narg as x
    using that by (auto simp: myw_def Let_def intro: quiet_adds split: option.splits if_splits)
  have j: "adds w s t" if "list_jobs (running w) (m_jobs s) = (es, js)" "m_out t = m_out s @ es" for es js
    using list_jobs_result [of "running w" "m_jobs s"] that by (intro quiet_adds) auto
  show ?thesis
    using assms l y j quiet_adds [of t s "[]" w] unfolding run_line_def
    by (auto simp: Let_def free_m_def split: if_splits option.splits prod.splits)
qed

text \<open>C26: An interactive shell meets undefined behaviour in a turn exactly when the line is a bare \<open>myw\<close>, when it exits with
  a job whose count of arguments is larger than its vector, or when the counter of ids overflows; and the child that a turn starts
  meets it exactly when its \<open>execvp\<close> fails while there is such a job. (\<open>fflush(stdin)\<close> is taken to have no effect.)\<close>

theorem mysh_undefined_exactly:
  "(mysh_turn False w s = Undefined \<longleftrightarrow> (if m_in s = [] then \<exists>j \<in> set (m_jobs s). j_slots j \<le> j_narg j
     else let ts = strtok_words (cstr (line_of 512 (m_in s))) in
       m_jid s = INT_MAX \<or> bare_myw ts \<or> exits ts \<and> (\<exists>j \<in> set (m_jobs s). j_slots j \<le> j_narg j)))
   \<and> (\<forall>t. mysh_turn False w s = Go t \<longrightarrow> (\<exists>es. m_out t = m_out s @ Prompt # es
       \<and> (child_bad es \<longleftrightarrow> started es \<and> exec_fails w \<and> (\<exists>j \<in> set (m_jobs s). j_slots j \<le> j_narg j))))"
proof
  show "mysh_turn False w s = Undefined \<longleftrightarrow> (if m_in s = [] then \<exists>j \<in> set (m_jobs s). j_slots j \<le> j_narg j
     else let ts = strtok_words (cstr (line_of 512 (m_in s))) in
       m_jid s = INT_MAX \<or> bare_myw ts \<or> exits ts \<and> (\<exists>j \<in> set (m_jobs s). j_slots j \<le> j_narg j))"
    by (auto simp: mysh_turn_def run_line_undefined free_m_undefined MXCHAR_def Let_def)
  show "\<forall>t. mysh_turn False w s = Go t \<longrightarrow> (\<exists>es. m_out t = m_out s @ Prompt # es
       \<and> (child_bad es \<longleftrightarrow> started es \<and> exec_fails w \<and> (\<exists>j \<in> set (m_jobs s). j_slots j \<le> j_narg j)))"
    by (auto simp: mysh_turn_def free_m_def Let_def adds_def split: if_splits dest!: run_line_adds)
qed

theorem mysh_undefined_exactly_witness:
  "mysh_turn False \<lparr>fork_pid = None, exec_fails = False, running = (\<lambda>_. False), waited = 0\<rparr> (mysh_start ''myw'' []) = Undefined"
proof -
  have "strtok_words (cstr (line_of 512 ''myw'')) = [''myw'']" by code_simp
  then show ?thesis using mysh_undefined_exactly [of "\<lparr>fork_pid = None, exec_fails = False, running = (\<lambda>_. False), waited = 0\<rparr>" "mysh_start ''myw'' []"]
    by (simp add: mysh_start_def bare_myw_def)
qed

text \<open>Such a job exists after a finished job was overwritten by one with fewer arguments.\<close>

lemma exit_reads_behind_argv:
  "\<exists>s. mysh_reach False (''a b c &'' @ CHR 10 # ''d&'' @ CHR 10 # ''j'' @ CHR 10 # ''exit'') [] s \<and> mysh_turn False w s = Undefined"
proof -
  let ?w = "\<lambda>p. \<lparr>fork_pid = Some p, exec_fails = False, running = (\<lambda>q. q = 8), waited = 0\<rparr>"
  let ?in = "''a b c &'' @ CHR 10 # ''d&'' @ CHR 10 # ''j'' @ CHR 10 # ''exit''"
  let ?d = "\<lparr>j_id = 2, j_pid = 8, j_argv = [''d''], j_narg = 1, j_slots = 2\<rparr>"
  let ?a = "\<lparr>j_id = 1, j_pid = 7, j_argv = [''a'', ''b'', ''c''], j_narg = 4, j_slots = 5\<rparr>"
  let ?o = "[Prompt, Launched 7 ''a'' [''a'', ''b'', ''c''] True]"
  let ?s1 = "\<lparr>m_in = ''d&'' @ CHR 10 # ''j'' @ CHR 10 # ''exit'', m_str = ''a'', m_jid = 1, m_jobs = [?a], m_out = ?o\<rparr>"
  let ?s2 = "\<lparr>m_in = ''j'' @ CHR 10 # ''exit'', m_str = ''d&'', m_jid = 2, m_jobs = [?a, ?d], m_out = ?o @ [Prompt, Launched 8 ''d'' [''d''] True]\<rparr>"
  let ?s3 = "\<lparr>m_in = ''exit'', m_str = ''j'', m_jid = 2, m_jobs = [?d\<lparr>j_narg := 4\<rparr>],
     m_out = ?o @ [Prompt, Launched 8 ''d'' [''d''] True, Prompt, Listed 2 [''d'']]\<rparr>"
  have 1: "mysh_turn False (?w 7) (mysh_start ?in []) = Go ?s1" by code_simp
  have 2: "mysh_turn False (?w 8) ?s1 = Go ?s2" by code_simp
  have 3: "mysh_turn False (?w 9) ?s2 = Go ?s3" by code_simp
  have "mysh_reach False ?in [] ?s3"
    by (rule mysh_reach.turn [OF mysh_reach.turn [OF mysh_reach.turn [OF mysh_reach.start 1] 2] 3])
  moreover have "strtok_words (cstr (line_of 512 ''exit'')) = [''exit'']" by code_simp
  then have "mysh_turn False w ?s3 = Undefined"
    by (auto simp: mysh_turn_def run_line_undefined MXCHAR_def Let_def INT_MAX_def exits_def)
  ultimately show ?thesis by blast
qed

text \<open>A batch line of more than 513 characters runs the first word of the line before once more, without its arguments.\<close>

lemma first_word_again: "strtok_words (after_n_args s) = take 1 (strtok_words s)"
proof -
  let ?t = "dropWhile blank s" and ?w = "takeWhile (\<lambda>c. \<not> blank c) (dropWhile blank s)"
  show ?thesis
  proof (cases "?t = []")
    case True
    then show ?thesis by (simp add: after_n_args_def strtok_words.simps)
  next
    case False
    have s: "strtok_words s = ?w # strtok_words (dropWhile (\<lambda>c. \<not> blank c) ?t)"
      using False by (subst strtok_words.simps) (simp only: Let_def if_False)
    have w: "?w \<noteq> []" "\<not> blank (hd ?w)" using hd_dropWhile [OF False] False by (cases ?t; simp)+
    have d: "dropWhile blank (takeWhile blank s @ ?w) = ?w"
      using w by (subst dropWhile_append2) (auto dest: set_takeWhileD simp: dropWhile_eq_self_iff)
    have e: "dropWhile (\<lambda>c. \<not> blank c) ?w = []" "takeWhile (\<lambda>c. \<not> blank c) ?w = ?w"
      by (auto dest: set_takeWhileD simp: takeWhile_eq_all_conv)
    have "strtok_words (takeWhile blank s @ ?w) = ?w # strtok_words []"
      using w(1) by (subst strtok_words.simps) (simp only: d e Let_def if_False)
    then show ?thesis using False s by (simp add: after_n_args_def strtok_words.simps [of "[]"] del: dropWhile_eq_Nil_conv)
  qed
qed

subsection \<open>Progress\<close>

lemma line_of_nonempty: "0 < k \<Longrightarrow> t \<noteq> [] \<Longrightarrow> line_of k t \<noteq> []"
  by (cases "(k, t)" rule: line_of.cases) auto

lemma line_of_length: "length (line_of k t) \<le> length t"
  by (induction k t rule: line_of.induct) auto

lemma run_line_input: "run_line w s = Go s' \<Longrightarrow> m_in s' = m_in s"
  by (auto simp: run_line_def launch_def myw_def Let_def free_m_def split: if_splits option.splits prod.splits)

text \<open>Every turn takes a line of the input, so the shell ends with it.\<close>

theorem turn_takes_input:
  assumes "mysh_turn batch w s = Go s'"
  shows "length (m_in s') < length (m_in s)"
proof -
  have "length (drop (length (line_of k (m_in s))) (m_in s)) < length (m_in s)" if "0 < k" "m_in s \<noteq> []" for k
    using line_of_nonempty [OF that] line_of_length [of k "m_in s"] that(2) by simp
  moreover have "m_in s' = drop (length (line_of k (m_in s))) (m_in s) \<and> 0 < k \<and> m_in s \<noteq> []"
    if "k = (if batch then length (m_in s) else MXCHAR - 1)" for k
    using assms that unfolding mysh_turn_def
    by (auto simp: Let_def free_m_def MXCHAR_def dest!: run_line_input split: if_splits prod.splits)
  ultimately show ?thesis by metis
qed

end
