(* ===== verification/Stats.thy ===== *)
theory Stats
  imports Prelude "HOL-Library.Multiset"
begin

text \<open>
  The shared statistics of project 3, \<open>linux/stats.c\<close>, \<open>stats_client.c\<close> and \<open>stats_server.c\<close>: a segment of 16 records, in which a client
  looks for a free one under a semaphore, then fills it in and updates it without the semaphore. The segment is the list of its
  records; \<open>'d\<close> are the C doubles. Opening and mapping the segment is its presence, and the critical sections of the semaphore are single steps.
\<close>

record 'd stats_t =
  st_pid :: int
  st_counter :: int
  st_priority :: int
  st_cpu :: 'd
  st_pname :: string

type_synonym 'd segment = "'d stats_t list"

definition server_segment :: "'d \<Rightarrow> 'd segment" where
  "server_segment zero = replicate 16 \<lparr>st_pid = -1, st_counter = 0, st_priority = 0, st_cpu = zero, st_pname = []\<rparr>"

text \<open>\<open>stats_init\<close>: the place of the first free record.\<close>

definition stats_init :: "'d segment \<Rightarrow> nat option" where
  "stats_init m = first_idx (\<lambda>r. st_pid r = -1) (take 16 m)"

definition stats_unlink :: "'d \<Rightarrow> int \<Rightarrow> 'd segment \<Rightarrow> int \<times> 'd segment" where
  "stats_unlink zero me m =
     (case first_idx (\<lambda>r. st_pid r = me) (take 16 m) of
        None \<Rightarrow> (-1, m)
      | Some i \<Rightarrow> (0, m[i := (m ! i)\<lparr>st_pid := -1, st_counter := 0, st_priority := 0, st_cpu := zero\<rparr>]))"

text \<open>The client fills in its record, and updates it after each round; \<open>prio\<close> is what \<open>getpriority\<close> says.\<close>

definition client_fill :: "'d \<Rightarrow> nat \<Rightarrow> int \<Rightarrow> string \<Rightarrow> int \<Rightarrow> 'd segment \<Rightarrow> 'd segment" where
  "client_fill zero i me name prio m = m[i := \<lparr>st_pid = me, st_counter = 0, st_priority = prio, st_cpu = zero, st_pname = take 15 name\<rparr>]"

definition client_round :: "nat \<Rightarrow> 'd \<Rightarrow> int \<Rightarrow> 'd segment \<Rightarrow> 'd segment" where
  "client_round i secs prio m = m[i := (m ! i)\<lparr>st_cpu := secs, st_counter := st_counter (m ! i) + 1, st_priority := prio\<rparr>]"

text \<open>What the server prints of the records in use.\<close>

definition server_lines :: "nat \<Rightarrow> 'd segment \<Rightarrow> (nat \<times> int \<times> string \<times> int \<times> 'd \<times> int) list" where
  "server_lines iter m = map (\<lambda>r. (iter, st_pid r, take 15 (st_pname r), st_counter r, st_cpu r, st_priority r))
     (filter (\<lambda>r. st_pid r \<noteq> -1) (take 16 m))"

subsection \<open>Clients that fill in before the next one looks\<close>

text \<open>Under the semaphore the free place and the process id in it would belong together; the program writes the process id later.\<close>

datatype 'd client_step = Join int string int | Round nat 'd int | Leave int

fun stats_step :: "'d \<Rightarrow> 'd client_step \<Rightarrow> 'd segment \<Rightarrow> 'd segment" where
  "stats_step zero (Join me name prio) m = (case stats_init m of None \<Rightarrow> m | Some i \<Rightarrow> client_fill zero i me name prio m)"
| "stats_step zero (Round i secs prio) m = (if i < 16 then client_round i secs prio m else m)"
| "stats_step zero (Leave me) m = snd (stats_unlink zero me m)"

definition live :: "'d segment \<Rightarrow> int list" where
  "live m = filter (\<lambda>p. p \<noteq> -1) (map st_pid m)"

lemma live_split: "m = xs @ r # ys \<Longrightarrow> live m = live xs @ (if st_pid r = -1 then [] else [st_pid r]) @ live ys"
  by (simp add: live_def)

lemma first_split:
  assumes "first_idx P (take 16 m) = Some i" and "length m = 16"
  shows "i < 16 \<and> P (m ! i) \<and> m = take i m @ m ! i # drop (Suc i) m"
  using first_idx_SomeD [OF assms(1)] assms(2) by (simp add: id_take_nth_drop)

lemma live_update: "length m = 16 \<Longrightarrow> i < 16 \<Longrightarrow> live (m[i := r]) = live (take i m) @ (if st_pid r = -1 then [] else [st_pid r]) @ live (drop (Suc i) m)"
  by (simp add: upd_conv_take_nth_drop live_def)

text \<open>Joining takes a free record and no other, leaving gives back the own one.\<close>

theorem join_adds_client:
  assumes "length m = 16" and "me \<noteq> -1" and "stats_init m \<noteq> None"
  shows "mset (live (stats_step zero (Join me name prio) m)) = add_mset me (mset (live m)) \<and> length (stats_step zero (Join me name prio) m) = 16"
proof -
  obtain i where i: "stats_init m = Some i" using assms(3) by blast
  note f = first_split [OF i [unfolded stats_init_def] assms(1)]
  then have "live m = live (take i m) @ live (drop (Suc i) m)" using live_split [of m "take i m" "m ! i" "drop (Suc i) m"] by simp
  then show ?thesis using i f [THEN conjunct1] assms by (simp add: client_fill_def live_update)
qed

lemma length_filter_all: "length (filter P xs) = length xs \<longleftrightarrow> (\<forall>x \<in> set xs. P x)"
proof
  assume e: "length (filter P xs) = length xs"
  show "\<forall>x \<in> set xs. P x"
  proof (rule ccontr)
    assume "\<not> (\<forall>x \<in> set xs. P x)"
    then obtain x where "x \<in> set xs" "\<not> P x" by blast
    then have "length (filter P xs) < length xs" by (rule length_filter_less)
    then show False using e by simp
  qed
qed (simp add: filter_id_conv)

lemma no_room_when_full: "length m = 16 \<Longrightarrow> stats_init m = None \<longleftrightarrow> length (live m) = 16"
  using length_filter_all [of "\<lambda>p. p \<noteq> -1" "map st_pid m"]
  by (auto simp: stats_init_def live_def first_idx_None_iff)

theorem leave_removes_client:
  assumes "length m = 16" and "me \<noteq> -1" and "me \<in> set (live m)"
  shows "mset (live (stats_step zero (Leave me) m)) = mset (live m) - {#me#}"
proof -
  obtain r where "r \<in> set (take 16 m)" "st_pid r = me" using assms by (auto simp: live_def)
  then obtain i where i: "first_idx (\<lambda>r. st_pid r = me) (take 16 m) = Some i" using first_idx_exists [of r "take 16 m" "\<lambda>r. st_pid r = me"] by auto
  note f = first_split [OF i assms(1)]
  then have "live m = live (take i m) @ [me] @ live (drop (Suc i) m)" using live_split [of m "take i m" "m ! i" "drop (Suc i) m"] assms(2) by simp
  moreover have "live (stats_step zero (Leave me) m) = live (take i m) @ live (drop (Suc i) m)"
    using i f [THEN conjunct1] live_update [OF assms(1), of i] by (simp add: stats_unlink_def)
  ultimately show ?thesis by simp
qed

text \<open>Two clients that both look before either has filled in its record get the same one; the second then overwrites the first.\<close>

lemma clients_share_record:
  assumes "length m = 16" and "stats_init m = Some i" and "a \<noteq> -1" and "b \<noteq> -1"
  shows "client_fill zero i b nb pb (client_fill zero i a na pa m) = client_fill zero i b nb pb m"
  by (simp add: client_fill_def)

end
