(* ===== verification/Tools.thy ===== *)
theory Tools
  imports Ulib Layout
begin

text \<open>
  Small user programs of \<open>xv6/user\<close>: \<open>wc.c\<close>, \<open>cat.c\<close>, \<open>echo.c\<close>, \<open>rm.c\<close>, \<open>mkdir.c\<close>, \<open>ln.c\<close>, \<open>kill.c\<close>, \<open>ls.c\<close> and \<open>filestat.c\<close>. An open
  file is the chunks that its reads deliver, at most 512 bytes each, and whether the last read fails. The system calls are arguments;
  a result is what is written to the terminal, with the state of the system where the program changes it.
\<close>

type_synonym stream = "string list \<times> bool"

definition nl :: string where "nl = [CHR 0x0A]"

subsection \<open>wc\<close>

record wc_state =
  wl :: u32
  ww :: u32
  wcc :: u32
  inword :: bool

definition wc_blanks :: string where
  "wc_blanks = [CHR '' '', CHR 0x0D, CHR 0x09, CHR 0x0A, CHR 0x0B]"

definition wc_char :: "char \<Rightarrow> wc_state \<Rightarrow> wc_state" where
  "wc_char ch s =
     (let s = s\<lparr>wcc := wcc s + 1\<rparr>;
          s = (if ch = CHR 0x0A then s\<lparr>wl := wl s + 1\<rparr> else s) in
      if strchr wc_blanks ch \<noteq> None then s\<lparr>inword := False\<rparr>
      else if \<not> inword s then s\<lparr>ww := ww s + 1, inword := True\<rparr> else s)"

definition wc_print :: "string \<Rightarrow> wc_state \<Rightarrow> string" where
  "wc_print name s = printint (wl s) 10 True @ '' '' @ printint (ww s) 10 True @ '' '' @ printint (wcc s) 10 True @ '' '' @ name @ nl"

text \<open>\<open>wc\<close>: the output, and whether the program exits.\<close>

definition wc :: "stream \<Rightarrow> string \<Rightarrow> string \<times> bool" where
  "wc fd name =
     (let s = fold (\<lambda>buf. fold wc_char buf) (fst fd) \<lparr>wl = 0, ww = 0, wcc = 0, inword = False\<rparr> in
      if snd fd then (''wc: read error'' @ nl, True) else (wc_print name s, False))"

fun wc_files :: "(string \<Rightarrow> stream option) \<Rightarrow> string list \<Rightarrow> string" where
  "wc_files op [] = []"
| "wc_files op (a # as) =
     (case op a of None \<Rightarrow> ''cat: cannot open '' @ a @ nl
      | Some fd \<Rightarrow> let (out, stop) = wc fd a in if stop then out else out @ wc_files op as)"

definition wc_main :: "(string \<Rightarrow> stream option) \<Rightarrow> stream \<Rightarrow> string list \<Rightarrow> string" where
  "wc_main op stdin as = (if as = [] then fst (wc stdin []) else wc_files op as)"

subsection \<open>cat, echo\<close>

definition cat :: "stream \<Rightarrow> string \<times> bool" where
  "cat fd = (concat (fst fd) @ (if snd fd then ''cat: read error'' @ nl else []), snd fd)"

fun cat_files :: "(string \<Rightarrow> stream option) \<Rightarrow> string list \<Rightarrow> string" where
  "cat_files op [] = []"
| "cat_files op (a # as) =
     (case op a of None \<Rightarrow> ''cat: cannot open '' @ a @ nl
      | Some fd \<Rightarrow> let (out, stop) = cat fd in if stop then out else out @ cat_files op as)"

definition cat_main :: "(string \<Rightarrow> stream option) \<Rightarrow> stream \<Rightarrow> string list \<Rightarrow> string" where
  "cat_main op stdin as = (if as = [] then fst (cat stdin) else cat_files op as)"

fun echo_main :: "string list \<Rightarrow> string" where
  "echo_main [] = []"
| "echo_main [a] = a @ nl"
| "echo_main (a # b # as) = a @ '' '' @ echo_main (b # as)"

subsection \<open>rm, mkdir, ln, kill\<close>

text \<open>A system call returns a negative number when it fails.\<close>

fun rm_files :: "(string \<Rightarrow> 'w \<Rightarrow> int \<times> 'w) \<Rightarrow> string list \<Rightarrow> 'w \<Rightarrow> string \<times> 'w" where
  "rm_files unlink [] w = ([], w)"
| "rm_files unlink (a # as) w = (let (r, w) = unlink a w in if r < 0 then (''rm: '' @ a @ '' failed to delete'' @ nl, w) else rm_files unlink as w)"

definition rm_main :: "(string \<Rightarrow> 'w \<Rightarrow> int \<times> 'w) \<Rightarrow> string list \<Rightarrow> 'w \<Rightarrow> string \<times> 'w" where
  "rm_main unlink as w = (if as = [] then (''Usage: rm files...'' @ nl, w) else rm_files unlink as w)"

fun mkdir_files :: "(string \<Rightarrow> 'w \<Rightarrow> int \<times> 'w) \<Rightarrow> string list \<Rightarrow> 'w \<Rightarrow> string \<times> 'w" where
  "mkdir_files mkdir [] w = ([], w)"
| "mkdir_files mkdir (a # as) w =
     (let (r, w) = mkdir a w in if r < 0 then (''mkdir: '' @ a @ '' failed to create'' @ nl, w) else mkdir_files mkdir as w)"

definition mkdir_main :: "(string \<Rightarrow> 'w \<Rightarrow> int \<times> 'w) \<Rightarrow> string list \<Rightarrow> 'w \<Rightarrow> string \<times> 'w" where
  "mkdir_main mkdir as w = (if as = [] then (''Usage: mkdir files...'' @ nl, w) else mkdir_files mkdir as w)"

definition ln_main :: "(string \<Rightarrow> string \<Rightarrow> 'w \<Rightarrow> int \<times> 'w) \<Rightarrow> string list \<Rightarrow> 'w \<Rightarrow> string \<times> 'w" where
  "ln_main link as w =
     (case as of
        [old, new] \<Rightarrow> let (r, w) = link old new w in (if r < 0 then ''link '' @ old @ '' '' @ new @ '': failed'' @ nl else [], w)
      | _ \<Rightarrow> (''Usage: ln old new'' @ nl, w))"

definition kill_main :: "(int \<Rightarrow> 'w \<Rightarrow> 'w) \<Rightarrow> string list \<Rightarrow> 'w \<Rightarrow> 'w" where
  "kill_main kill as w = fold (\<lambda>a. kill (atoi a)) as w"

subsection \<open>ls, filestat\<close>

text \<open>The part behind the last slash, padded with blanks to \<open>DIRSIZ\<close>.\<close>

definition fmtname :: "string \<Rightarrow> string" where
  "fmtname path =
     (let p = rev (takeWhile (\<lambda>c. c \<noteq> CHR ''/'') (rev path)) in
      if DIRSIZ \<le> length p then p else p @ replicate (DIRSIZ - length p) CHR '' '')"

record fstat_result =
  st_type :: u16
  st_ino :: u32
  st_len :: u32
  st_sum :: u32

definition ls_line :: "string \<Rightarrow> fstat_result \<Rightarrow> string" where
  "ls_line path st = fmtname path @ '' '' @ printint (ucast (st_type st)) 10 True @ '' '' @ printint (st_ino st) 10 True @ '' ''
     @ printint (st_len st) 10 True @ nl"

fun ls_entries :: "(string \<Rightarrow> fstat_result option) \<Rightarrow> string \<Rightarrow> (u16 \<times> string) list \<Rightarrow> string" where
  "ls_entries stat path [] = []"
| "ls_entries stat path ((inum, name) # es) =
     (if inum = 0 then ls_entries stat path es
      else let buf = path @ ''/'' @ takeWhile (\<lambda>c. c \<noteq> NUL) (take DIRSIZ name) in
        (case stat buf of None \<Rightarrow> ''ls: cannot stat '' @ buf @ nl | Some st \<Rightarrow> ls_line buf st) @ ls_entries stat path es)"

text \<open>\<open>ls\<close>: an open file is what \<open>fstat\<close> says of it, if it succeeds, and the directory entries that its reads deliver.\<close>

definition ls :: "(string \<Rightarrow> (fstat_result option \<times> (u16 \<times> string) list) option) \<Rightarrow> (string \<Rightarrow> fstat_result option) \<Rightarrow> string \<Rightarrow> string" where
  "ls op stat path =
     (case op path of
        None \<Rightarrow> ''ls: cannot open '' @ path @ nl
      | Some (None, _) \<Rightarrow> ''ls: cannot stat '' @ path @ nl
      | Some (Some st, es) \<Rightarrow>
          if st_type st = T_FILE then ls_line path st
          else if st_type st = T_DIR then
            (if length path + 1 + DIRSIZ + 1 > 512 then ''ls: path too long'' @ nl else ls_entries stat path es)
          else [])"

definition ls_main :: "(string \<Rightarrow> (fstat_result option \<times> (u16 \<times> string) list) option) \<Rightarrow> (string \<Rightarrow> fstat_result option) \<Rightarrow> string list \<Rightarrow> string" where
  "ls_main op stat as = (if as = [] then ls op stat ''.'' else concat (map (ls op stat) as))"

text \<open>\<open>filestat\<close> opens without a test; \<open>fstat\<close> of a descriptor that was not opened fails.\<close>

definition filestat_main :: "(string \<Rightarrow> fstat_result option) \<Rightarrow> string list \<Rightarrow> string" where
  "filestat_main opstat as =
     (case as of
        [] \<Rightarrow> ''Usage: filestat pathname'' @ nl
      | a # _ \<Rightarrow>
          (case opstat a of
             None \<Rightarrow> ''Error retriving file stats.'' @ nl @ ''.''
           | Some fs \<Rightarrow>
               ''File Type: '' @ printint (ucast (st_type fs)) 10 True @ [CHR 0x09] @ ''Size: '' @ printint (st_len fs) 10 True
               @ (if st_type fs = T_CHECKED then [CHR 0x09] @ ''Checksum: '' @ printint (st_sum fs) 10 True @ nl else nl)))"

subsection \<open>Properties\<close>

text \<open>The starts of words: positions without a blank behind a blank or at the start.\<close>

definition word_starts :: "string \<Rightarrow> nat list" where
  "word_starts s = filter (\<lambda>i. s ! i \<notin> set wc_blanks \<and> (i = 0 \<or> s ! (i - 1) \<in> set wc_blanks)) [0..<length s]"

lemma strchr_None: "strchr s c = None \<longleftrightarrow> c \<notin> set s"
  by (induction s) auto

lemma word_starts_snoc:
  "word_starts (s @ [c]) = word_starts s @ (if c \<notin> set wc_blanks \<and> (s = [] \<or> last s \<in> set wc_blanks) then [length s] else [])"
proof -
  have "filter (\<lambda>i. (s @ [c]) ! i \<notin> set wc_blanks \<and> (i = 0 \<or> (s @ [c]) ! (i - 1) \<in> set wc_blanks)) [0..<length s] = word_starts s"
    unfolding word_starts_def by (rule filter_cong) (auto simp: nth_append)
  then show ?thesis unfolding word_starts_def by (cases "s = []") (auto simp: nth_append last_conv_nth)
qed

lemma wc_counts_chars:
  "fold wc_char s \<lparr>wl = 0, ww = 0, wcc = 0, inword = False\<rparr> =
     \<lparr>wl = of_nat (count_list s (CHR 0x0A)), ww = of_nat (length (word_starts s)), wcc = of_nat (length s),
      inword = (s \<noteq> [] \<and> last s \<notin> set wc_blanks)\<rparr>"
proof (induction s rule: rev_induct)
  case Nil
  then show ?case by (simp add: word_starts_def)
next
  case (snoc c s)
  then show ?case by (auto simp: wc_char_def Let_def strchr_None word_starts_snoc)
qed

text \<open>However the reads cut the text, \<open>wc\<close> prints its number of lines, of words and of bytes, modulo \<open>2^32\<close>.\<close>

theorem wc_counts:
  "wc (chunks, False) name = (wc_print name \<lparr>wl = of_nat (count_list (concat chunks) (CHR 0x0A)), ww = of_nat (length (word_starts (concat chunks))),
     wcc = of_nat (length (concat chunks)), inword = (concat chunks \<noteq> [] \<and> last (concat chunks) \<notin> set wc_blanks)\<rparr>, False)"
proof -
  have "fold (\<lambda>buf. fold wc_char buf) chunks s = fold wc_char (concat chunks) s" for s by (induction chunks arbitrary: s) simp_all
  then show ?thesis by (simp add: wc_def wc_counts_chars)
qed

lemma cat_main_copies: "cat_main op (chunks, False) [] = concat chunks"
  by (simp add: cat_main_def cat_def)

text \<open>\<open>rm\<close> stops at the first file that it cannot delete.\<close>

lemma rm_deletes_prefix:
  assumes "\<And>a w. fst (unlink a w) < 0 \<Longrightarrow> snd (unlink a w) = w"
  shows "\<exists>n \<le> length as. snd (rm_files unlink as w) = fold (\<lambda>a w. snd (unlink a w)) (take n as) w
     \<and> (fst (rm_files unlink as w) = [] \<longleftrightarrow> n = length as)"
proof (induction as arbitrary: w)
  case (Cons a as)
  obtain r w1 where u: "unlink a w = (r, w1)" by (cases "unlink a w")
  show ?case
  proof (cases "r < 0")
    case True
    then show ?thesis using u assms [of a w] by (intro exI [of _ 0]) simp
  next
    case False
    obtain n where "n \<le> length as" "snd (rm_files unlink as w1) = fold (\<lambda>a w. snd (unlink a w)) (take n as) w1"
      "fst (rm_files unlink as w1) = [] \<longleftrightarrow> n = length as" using Cons.IH by blast
    then show ?thesis using u False by (intro exI [of _ "Suc n"]) simp
  qed
qed simp

lemma fmtname_width: "length (fmtname path) = max DIRSIZ (length (rev (takeWhile (\<lambda>c. c \<noteq> CHR ''/'') (rev path))))"
  by (simp add: fmtname_def Let_def)

end
