(* ===== verification/Kbd.thy ===== *)
theory Kbd
  imports Console
begin

text \<open>
  The keyboard driver \<open>kernel/kbd.c\<close> with the tables of \<open>kbd.h\<close>, and the keyboard interrupt that hands its characters to \<open>Console\<close>.
  The bytes of the status and the data port are arguments.
\<close>

definition KBS_DIB :: u8 where "KBS_DIB = 1"
definition SHIFT :: u32 where "SHIFT = 1"
definition CTL :: u32 where "CTL = 2"
definition ALT :: u32 where "ALT = 4"
definition CAPSLOCK :: u32 where "CAPSLOCK = 8"
definition NUMLOCK :: u32 where "NUMLOCK = 16"
definition SCROLLLOCK :: u32 where "SCROLLLOCK = 32"
definition E0ESC :: u32 where "E0ESC = 64"

text \<open>An array initialiser: the first elements, then those at given places, zeroes elsewhere.\<close>

definition array_init :: "u8 list \<Rightarrow> (nat \<times> u8) list \<Rightarrow> u8 list" where
  "array_init xs ps = fold (\<lambda>(i, v) t. t[i := v]) ps (xs @ replicate (256 - length xs) 0)"

definition shiftcode :: "u8 list" where
  "shiftcode = array_init [] [(0x1D, 2), (0x2A, 1), (0x36, 1), (0x38, 4), (0x9D, 2), (0xB8, 4)]"

definition togglecode :: "u8 list" where
  "togglecode = array_init [] [(0x3A, 8), (0x45, 16), (0x46, 32)]"

definition cursor_keys :: "(nat \<times> u8) list" where
  "cursor_keys = [(0xC8, 0xE2), (0xD0, 0xE3), (0xC9, 0xE6), (0xD1, 0xE7), (0xCB, 0xE4), (0xCD, 0xE5), (0x97, 0xE0), (0xCF, 0xE1), (0xD2, 0xE8), (0xD3, 0xE9)]"

definition normalmap :: "u8 list" where
  "normalmap = array_init
    [0, 27, 49, 50, 51, 52, 53, 54, 55, 56, 57, 48, 45, 61, 8, 9,
     113, 119, 101, 114, 116, 121, 117, 105, 111, 112, 91, 93, 10, 0, 97, 115,
     100, 102, 103, 104, 106, 107, 108, 59, 39, 96, 0, 92, 122, 120, 99, 118,
     98, 110, 109, 44, 46, 47, 0, 42, 0, 32, 0, 0, 0, 0, 0, 0,
     0, 0, 0, 0, 0, 0, 0, 55, 56, 57, 45, 52, 53, 54, 43, 49,
     50, 51, 48, 46, 0, 0, 0, 0]
    ([(0x9C, 10), (0xB5, 47)] @ cursor_keys)"

definition shiftmap :: "u8 list" where
  "shiftmap = array_init
    [0, 27, 33, 64, 35, 36, 37, 94, 38, 42, 40, 41, 95, 43, 8, 9,
     81, 87, 69, 82, 84, 89, 85, 73, 79, 80, 123, 125, 10, 0, 65, 83,
     68, 70, 71, 72, 74, 75, 76, 58, 34, 126, 0, 124, 90, 88, 67, 86,
     66, 78, 77, 60, 62, 63, 0, 42, 0, 32, 0, 0, 0, 0, 0, 0,
     0, 0, 0, 0, 0, 0, 0, 55, 56, 57, 45, 52, 53, 54, 43, 49,
     50, 51, 48, 46, 0, 0, 0, 0]
    ([(0x9C, 10), (0xB5, 47)] @ cursor_keys)"

definition ctlmap :: "u8 list" where
  "ctlmap = array_init
    [0, 0, 0, 0, 0, 0, 0, 0, 0, 0, 0, 0, 0, 0, 0, 0,
     17, 23, 5, 18, 20, 25, 21, 9, 15, 16, 0, 0, 13, 0, 1, 19,
     4, 6, 7, 8, 10, 11, 12, 0, 0, 0, 0, 28, 26, 24, 3, 22,
     2, 14, 13, 0, 0, 239, 0, 0]
    ([(0x9C, 13), (0xB5, 239)] @ cursor_keys)"

definition charcode :: "u32 \<Rightarrow> u8 list" where
  "charcode k = [normalmap, shiftmap, ctlmap, ctlmap] ! unat k"

definition swap_case :: "u8 \<Rightarrow> u8" where
  "swap_case c = (if 97 \<le> c \<and> c \<le> 122 then c + (65 - 97) else if 65 \<le> c \<and> c \<le> 90 then c + (97 - 65) else c)"

text \<open>\<open>kbdgetc\<close> with the static \<open>shift\<close>: the character, 0 for none, -1 when there is no data.\<close>

definition kbdgetc :: "u8 \<Rightarrow> u8 \<Rightarrow> u32 \<Rightarrow> int \<times> u32" where
  "kbdgetc st data shift =
     (if st AND KBS_DIB = 0 then (-1, shift)
      else if data = 0xE0 then (0, shift OR E0ESC)
      else if data AND 0x80 \<noteq> 0 then
        let data = (if shift AND E0ESC \<noteq> 0 then data else data AND 0x7F) in
        (0, shift AND NOT (ucast (shiftcode ! unat data) OR E0ESC))
      else
        let (data, shift) = (if shift AND E0ESC \<noteq> 0 then (data OR 0x80, shift AND NOT E0ESC) else (data, shift));
            shift = shift OR ucast (shiftcode ! unat data);
            shift = shift XOR ucast (togglecode ! unat data);
            c = charcode (shift AND (CTL OR SHIFT)) ! unat data in
        (uint (if shift AND CAPSLOCK \<noteq> 0 then swap_case c else c), shift))"

text \<open>The characters that \<open>consoleintr\<close> gets while there are scan codes.\<close>

fun kbd_chars :: "u8 list \<Rightarrow> u32 \<Rightarrow> u8 list \<times> u32" where
  "kbd_chars [] shift = ([], shift)"
| "kbd_chars (d # ds) shift =
     (let (c, shift) = kbdgetc KBS_DIB d shift; (cs, shift) = kbd_chars ds shift in (of_int c # cs, shift))"

definition kbdintr :: "u8 list \<Rightarrow> u32 \<Rightarrow> console \<Rightarrow> con_event list \<times> u32 \<times> console" where
  "kbdintr ds shift con = (let (cs, shift) = kbd_chars ds shift; (out, con) = consoleintr cs con in (out, shift, con))"

subsection \<open>Typing\<close>

text \<open>A key with a character of its own, pressed and released.\<close>

definition plain_key :: "u8 \<Rightarrow> bool" where
  "plain_key d = (d < 0x80 \<and> normalmap ! unat d \<noteq> 0)"

definition stroke :: "u8 \<Rightarrow> u8 list" where
  "stroke d = [d, d OR 0x80]"

definition key_char :: "u32 \<Rightarrow> u8 \<Rightarrow> u8" where
  "key_char shift d = (let c = charcode (shift AND (CTL OR SHIFT)) ! unat d in if shift AND CAPSLOCK \<noteq> 0 then swap_case c else c)"

lemma key_codes:
  assumes "n < 256" and "normalmap ! n \<noteq> 0" and "n < 128"
  shows "shiftcode ! n = 0" and "togglecode ! n = 0"
proof -
  have z: "normalmap ! 0x1D = 0" "normalmap ! 0x2A = 0" "normalmap ! 0x36 = 0" "normalmap ! 0x38 = 0" "normalmap ! 0x3A = 0"
    "normalmap ! 0x45 = 0" "normalmap ! 0x46 = 0" by code_simp+
  then have "n \<notin> {0x1D, 0x2A, 0x36, 0x38, 0x3A, 0x45, 0x46, 0x9D, 0xB8}" using assms(2,3) by auto
  then show "shiftcode ! n = 0" "togglecode ! n = 0" using assms(1)
    by (simp_all add: shiftcode_def togglecode_def array_init_def nth_list_update)
qed

lemma stroke_bits:
  fixes d :: u8
  assumes "d < 0x80"
  shows "d AND 0x80 = 0" and "(d OR 0x80) AND 0x80 = 0x80" and "(d OR 0x80) AND 0x7F = d"
proof -
  have "list_all (\<lambda>n. (of_nat n :: u8) AND 0x80 = 0 \<and> ((of_nat n :: u8) OR 0x80) AND 0x80 = 0x80 \<and> ((of_nat n :: u8) OR 0x80) AND 0x7F = of_nat n) [0..<128]"
    by code_simp
  moreover have "unat d < 128" using assms by (simp add: word_less_nat_alt)
  ultimately have "(of_nat (unat d) :: u8) AND 0x80 = 0 \<and> ((of_nat (unat d) :: u8) OR 0x80) AND 0x80 = 0x80 \<and> ((of_nat (unat d) :: u8) OR 0x80) AND 0x7F = of_nat (unat d)"
    unfolding list_all_iff by (intro bspec [where x = "unat d"]) (auto intro: bspec)
  then show "d AND 0x80 = 0" "(d OR 0x80) AND 0x80 = 0x80" "(d OR 0x80) AND 0x7F = d" by simp_all
qed

lemma stroke_chars:
  assumes d: "plain_key d" and sh: "sh AND E0ESC = 0"
  shows "kbd_chars (stroke d) sh = ([key_char sh d, 0], sh)"
proof -
  have d': "d < 0x80" "normalmap ! unat d \<noteq> 0" using d by (simp_all add: plain_key_def)
  have n: "unat d < 128" using d'(1) by (simp add: word_less_nat_alt)
  note c = key_codes [OF _ d'(2) n]
  have ne: "d \<noteq> 0xE0" "d OR 0x80 \<noteq> 0xE0"
  proof -
    show "d \<noteq> 0xE0" using d'(1) by auto
    have "normalmap ! 0x60 = 0" by code_simp
    then have "d \<noteq> 0x60" using d'(2) by auto
    moreover have "(0xE0 :: u8) AND 0x7F = 0x60" by simp
    ultimately show "d OR 0x80 \<noteq> 0xE0" using stroke_bits(3) [OF d'(1)] by metis
  qed
  have keep: "sh AND NOT E0ESC = sh" using and_plus_and_not [of sh E0ESC] sh by simp
  show ?thesis using c n ne sh keep stroke_bits [OF d'(1)]
    by (simp add: stroke_def kbdgetc_def KBS_DIB_def key_char_def Let_def)
qed

lemma kbd_chars_append: "kbd_chars (a @ b) sh = (let (x, sh) = kbd_chars a sh; (y, sh) = kbd_chars b sh in (x @ y, sh))"
  by (induction a arbitrary: sh) (auto simp: split_beta Let_def)

lemma typed_chars:
  assumes "\<forall>d \<in> set ds. plain_key d" and "sh AND E0ESC = 0"
  shows "kbd_chars (concat (map stroke ds)) sh = (concat (map (\<lambda>d. [key_char sh d, 0]) ds), sh)"
  using assms(1) by (induction ds) (simp_all add: kbd_chars_append stroke_chars assms(2))

lemma consoleintr_zeroes: "consoleintr (concat (map (\<lambda>d. [f d, 0]) ds)) con = consoleintr (map f ds) con"
  by (induction ds arbitrary: con) (simp_all add: con_key_def split_beta Let_def)

text \<open>Pressing and releasing keys enters their characters, those of the shift state, into the line of the console.\<close>

theorem keyboard_enters_line:
  assumes "\<forall>d \<in> set ds. plain_key d" and "sh AND E0ESC = 0"
  shows "kbdintr (concat (map stroke ds)) sh con = (fst (consoleintr (map (key_char sh) ds) con), sh, snd (consoleintr (map (key_char sh) ds) con))"
  by (simp add: kbdintr_def typed_chars [OF assms] consoleintr_zeroes split_beta Let_def)

text \<open>Both shift keys have one bit: with both held, releasing one ends the shift of the other.\<close>

lemma shift_keys_share: "kbd_chars [0x2A, 0x36, 0xB6, 0x1E] 0 = ([0, 0, 0, 97], 0)"
  by code_simp

end
