(* ===== verification/Mkfs.thy ===== *)
theory Mkfs
  imports Layout
begin

text \<open>
  The program that makes a file system image, \<open>linux/mkfs.c\<close> of project 5: the sectors of the image, inodes, appending to a
  file, and the walk over a directory tree of the host, which is a value of type \<open>host\<close>. The host is little-endian, so
  \<open>xint\<close> and \<open>xshort\<close> are the encodings of \<open>Layout\<close>. The exit of the program is an error value. That the host cannot
  open or list a file is not modelled.
\<close>

datatype mkerr = Exit1 | Assertion_failed

record mk =
  img :: "block list"
  freeblock :: u32
  usedblocks :: u32
  freeinode :: u32

definition ninodes :: u32 where "ninodes = 200"

definition zeroes :: block where "zeroes = replicate 512 0"

subsection \<open>Sectors and inodes\<close>

text \<open>\<open>read\<close> behind the end of the image returns fewer than 512 bytes; \<open>write\<close> there fills the gap with zeroes.\<close>

definition rsect :: "u32 \<Rightarrow> mk \<Rightarrow> mkerr + block" where
  "rsect sec s = (if unat sec < length (img s) then Inr (img s ! unat sec) else Inl Exit1)"

definition wsect :: "u32 \<Rightarrow> block \<Rightarrow> mk \<Rightarrow> mk" where
  "wsect sec b s = s\<lparr>img := (img s @ replicate (Suc (unat sec) - length (img s)) zeroes)[unat sec := b]\<rparr>"

definition i2b :: "u32 \<Rightarrow> u32" where
  "i2b inum = inum div IPB + 2"

definition winode :: "u32 \<Rightarrow> dinode \<Rightarrow> mk \<Rightarrow> mkerr + mk" where
  "winode inum ip s = bindE (rsect (i2b inum) s) (\<lambda>buf. Inr (wsect (i2b inum) (put_dinode inum ip buf) s))"

definition rinode :: "u32 \<Rightarrow> mk \<Rightarrow> mkerr + dinode" where
  "rinode inum s = bindE (rsect (i2b inum) s) (\<lambda>buf. Inr (get_dinode inum buf))"

definition mk_ialloc :: "u16 \<Rightarrow> mk \<Rightarrow> mkerr + u32 \<times> mk" where
  "mk_ialloc type s =
     (let inum = freeinode s in
      bindE (winode inum \<lparr>itype = type, imajor = 0, iminor = 0, inlink = 1, isize = 0, addrs = replicate (NDIRECT + 1) 0\<rparr>
        (s\<lparr>freeinode := inum + 1\<rparr>)) (\<lambda>s. Inr (inum, s)))"

definition mk_balloc :: "nat \<Rightarrow> mk \<Rightarrow> mkerr + mk" where
  "mk_balloc used s =
     (if \<not> used < 512 * 8 then Inl Assertion_failed
      else Inr (wsect (ninodes div IPB + 3) (fold set_bit_at [0..<used] zeroes) s))"

subsection \<open>Appending to a file\<close>

definition take_free :: "mk \<Rightarrow> u32 \<times> mk" where
  "take_free s = (freeblock s, s\<lparr>freeblock := freeblock s + 1, usedblocks := usedblocks s + 1\<rparr>)"

definition block_for :: "nat \<Rightarrow> dinode \<times> mk \<Rightarrow> mkerr + u32 \<times> dinode \<times> mk" where
  "block_for fbn = (\<lambda>(din, s).
     if fbn < NDIRECT then
       (if addrs din ! fbn = 0 then let (b, s) = take_free s in Inr (b, din\<lparr>addrs := (addrs din)[fbn := b]\<rparr>, s)
        else Inr (addrs din ! fbn, din, s))
     else
       let (din, s) = (if addrs din ! NDIRECT = 0 then let (b, s) = take_free s in (din\<lparr>addrs := (addrs din)[NDIRECT := b]\<rparr>, s)
                       else (din, s)) in
       bindE (rsect (addrs din ! NDIRECT) s) (\<lambda>indirect.
         if get_ptr (fbn - NDIRECT) indirect = 0 then
           let (b, s) = take_free s in Inr (b, din, wsect (addrs din ! NDIRECT) (put_ptr (fbn - NDIRECT) b indirect) s)
         else Inr (get_ptr (fbn - NDIRECT) indirect, din, s)))"

lemma block_end:
  assumes "unat (off div 512 :: u32) < MAXFILE"
  shows "unat ((off div 512 + 1) * 512 - off :: u32) = 512 - unat off mod 512" and "unat (off - off div 512 * 512) = unat off mod 512"
proof -
  define q r where "q = unat off div 512" and "r = unat off mod 512"
  have o: "unat off = q * 512 + r" and r: "r < 512" by (simp_all add: q_def r_def)
  have d: "unat (off div 512) = q" by (simp add: unat_div q_def)
  then have q: "q < 140" using assms by (simp add: MAXFILE_def)
  have d1: "unat (off div 512 + 1) = q + 1" using q d by (subst unat_add_small) simp_all
  have e: "unat ((off div 512 + 1) * 512) = (q + 1) * 512" using q d1 by (subst unat_mult_lem [THEN iffD1]) simp_all
  have m: "unat (off div 512 * 512) = q * 512" using q d by (subst unat_mult_lem [THEN iffD1]) simp_all
  have le: "off \<le> (off div 512 + 1) * 512" "off div 512 * 512 \<le> off"
    unfolding word_le_nat_alt e m o using r by simp_all
  have "unat ((off div 512 + 1) * 512 - off) = (q + 1) * 512 - (q * 512 + r)" using unat_sub_small [OF le(1)] unfolding e o .
  then show "unat ((off div 512 + 1) * 512 - off :: u32) = 512 - unat off mod 512" unfolding r_def [symmetric] by simp
  have "unat (off - off div 512 * 512) = q * 512 + r - q * 512" using unat_sub_small [OF le(2)] unfolding m o .
  then show "unat (off - off div 512 * 512) = unat off mod 512" unfolding r_def [symmetric] by simp
qed

lemma append_chunk_pos: "unat (off div 512 :: u32) < MAXFILE \<Longrightarrow> 0 < unat (off div 512 * 512 + 512 - off)"
  using block_end(1) [of off] by (simp add: distrib_right)

function iappend_loop :: "u32 \<Rightarrow> u8 list \<Rightarrow> dinode \<times> mk \<Rightarrow> mkerr + u32 \<times> dinode \<times> mk" where
  "iappend_loop off p (din, s) =
     (if p = [] then Inr (off, din, s)
      else let fbn = off div 512 in
      if \<not> unat fbn < MAXFILE then Inl Assertion_failed
      else bindE (block_for (unat fbn) (din, s)) (\<lambda>(x, din, s).
        let n1 = min (length p) (unat ((fbn + 1) * 512 - off)) in
        bindE (rsect x s) (\<lambda>buf.
          iappend_loop (off + of_nat n1) (drop n1 p) (din, wsect x (put_bytes (unat (off - fbn * 512)) (take n1 p) buf) s))))"
  by pat_completeness auto

termination
  by (relation "measure (\<lambda>(_, p, _). length p)") (auto simp: append_chunk_pos)

declare iappend_loop.simps [simp del]

definition iappend :: "u32 \<Rightarrow> u8 list \<Rightarrow> mk \<Rightarrow> mkerr + mk" where
  "iappend inum p s =
     bindE (rinode inum s) (\<lambda>din. bindE (iappend_loop (isize din) p (din, s)) (\<lambda>(off, din, s). winode inum (din\<lparr>isize := off\<rparr>) s))"

subsection \<open>The image of a directory tree\<close>

datatype host = HFile "u8 list" | HDir "(u8 list \<times> host) list"

text \<open>\<open>de.name\<close> after \<open>strncpy\<close>.\<close>

definition mk_dirent :: "u32 \<Rightarrow> u8 list \<Rightarrow> u8 list" where
  "mk_dirent inum name = enc_dirent \<lparr>de_inum = ucast inum, de_name = take DIRSIZ (takeWhile (\<lambda>c. c \<noteq> 0) name @ replicate DIRSIZ 0)\<rparr>"

definition add_dots :: "u32 \<Rightarrow> u32 \<Rightarrow> mk \<Rightarrow> mkerr + mk" where
  "add_dots cur par s = bindE (iappend cur (mk_dirent cur [46]) s) (iappend cur (mk_dirent par [46, 46]))"

function copy_in :: "u32 \<Rightarrow> u8 list \<Rightarrow> mk \<Rightarrow> mkerr + mk" where
  "copy_in inum p s = (if p = [] then Inr s else bindE (iappend inum (take 512 p) s) (copy_in inum (drop 512 p)))"
  by pat_completeness auto
termination by (relation "measure (\<lambda>(_, p, _). length p)") auto

declare copy_in.simps [simp del]

text \<open>The size of a directory is set to the end of its block, or of the next block when it ends there.\<close>

definition round_dir :: "u32 \<Rightarrow> mk \<Rightarrow> mkerr + mk" where
  "round_dir cur s = bindE (rinode cur s) (\<lambda>din. winode cur (din\<lparr>isize := (isize din div 512 + 1) * 512\<rparr>) s)"

fun add_entries :: "(u8 list \<times> host) list \<Rightarrow> u32 \<Rightarrow> mk \<Rightarrow> mkerr + mk" where
  "add_entries [] cur s = Inr s"
| "add_entries ((name, h) # es) cur s =
     (if name = [46] \<or> name = [46, 46] then add_entries es cur s
      else case h of
        HFile p \<Rightarrow>
          bindE (mk_ialloc T_FILE s) (\<lambda>(child, s). bindE (copy_in child p s) (\<lambda>s.
          bindE (iappend cur (mk_dirent child name) s) (add_entries es cur)))
      | HDir ds \<Rightarrow>
          bindE (mk_ialloc T_DIR s) (\<lambda>(child, s). bindE (add_dots child cur s) (\<lambda>s. bindE (add_entries ds child s) (\<lambda>s.
          bindE (round_dir child s) (\<lambda>s. bindE (iappend cur (mk_dirent child name) s) (add_entries es cur))))))"

definition add_dir :: "(u8 list \<times> host) list option \<Rightarrow> u32 \<Rightarrow> u32 \<Rightarrow> mk \<Rightarrow> mkerr + mk" where
  "add_dir dir cur par s =
     bindE (add_dots cur par s) (\<lambda>s. case dir of None \<Rightarrow> Inr s | Some es \<Rightarrow> bindE (add_entries es cur s) (round_dir cur))"

definition mkfs :: "u32 \<Rightarrow> u32 \<Rightarrow> mkerr + mk" where
  "mkfs nblocks nsect =
     (let bitblocks = nsect div (512 * 8) + 1; used = ninodes div IPB + 3 + bitblocks;
        s = \<lparr>img = [], freeblock = used, usedblocks = used, freeinode = 1\<rparr> in
      if nblocks + used \<noteq> nsect then Inl Assertion_failed
      else Inr (wsect 1 (put_bytes 0 (enc_superblock \<lparr>sb_size = nsect, sb_nblocks = nblocks, sb_ninodes = ninodes\<rparr>) zeroes)
             (fold (\<lambda>i. wsect (of_nat i) zeroes) [0..<unat (nblocks + used)] s)))"

definition mkfs_main :: "(u8 list \<times> host) list option \<Rightarrow> mkerr + mk" where
  "mkfs_main dir =
     bindE (mkfs 995 1024) (\<lambda>s. bindE (mk_ialloc T_DIR s) (\<lambda>(root, s).
       if root \<noteq> ROOTINO then Inl Assertion_failed
       else bindE (add_dir dir root root s) (\<lambda>s. mk_balloc (unat (usedblocks s)) s)))"

text \<open>Inode numbers are not checked against \<open>ninodes\<close>: inode 208 would lie in the bitmap block.\<close>

lemma inode_208_in_bitmap: "i2b 208 = ninodes div IPB + 3"
  by code_simp

end
