(* ===== verification/MkfsFiles.thy ===== *)
theory MkfsFiles
  imports Mkfs
begin

text \<open>
  The files of an image under construction: every block belongs to one place of one inode, and appending adds bytes to one file
  and leaves all others as they are. A block number 0 stands for the block of zeroes at the start of the image.
\<close>

subsection \<open>Block numbers and bytes\<close>

text \<open>The block numbers of inode \<open>i\<close>: the direct ones, at \<open>NDIRECT\<close> the indirect block, then its entries.\<close>

definition place :: "(nat \<Rightarrow> dinode) \<Rightarrow> block list \<Rightarrow> nat \<Rightarrow> nat \<Rightarrow> nat" where
  "place D im i k = (if k \<le> NDIRECT then unat (addrs (D i) ! k)
     else if addrs (D i) ! NDIRECT = 0 then 0 else unat (get_ptr (k - NDIRECT - 1) (im ! unat (addrs (D i) ! NDIRECT))))"

definition data_slot :: "nat \<Rightarrow> nat" where
  "data_slot m = (if m < NDIRECT then m else m + 1)"

definition byte_of :: "(nat \<Rightarrow> dinode) \<Rightarrow> block list \<Rightarrow> nat \<Rightarrow> nat \<Rightarrow> u8" where
  "byte_of D im i j = im ! place D im i (data_slot (j div 512)) ! (j mod 512)"

text \<open>The image has 1024 sectors, the first 29 of them not for files; 208 inodes fit into their blocks.\<close>

definition used_slots :: "(nat \<Rightarrow> dinode) \<Rightarrow> block list \<Rightarrow> (nat \<times> nat) set" where
  "used_slots D im = {(i, k). i < 208 \<and> k < 141 \<and> place D im i k \<noteq> 0}"

definition sound :: "(nat \<Rightarrow> dinode) \<Rightarrow> mk \<Rightarrow> bool" where
  "sound D s = (length (img s) = 1024 \<and> (\<forall>b \<in> set (img s). is_block b) \<and> 29 \<le> unat (freeblock s) \<and> unat (freeblock s) \<le> 1024
     \<and> usedblocks s = freeblock s \<and> img s ! 0 = zeroes \<and> (\<forall>b < 1024. unat (freeblock s) \<le> b \<longrightarrow> img s ! b = zeroes)
     \<and> (\<forall>i. length (addrs (D i)) = NDIRECT + 1)
     \<and> (\<forall>i < 208. \<forall>k < 141. place D (img s) i k \<noteq> 0 \<longrightarrow> 29 \<le> place D (img s) i k \<and> place D (img s) i k < unat (freeblock s))
     \<and> (\<forall>i < 208. \<forall>k < 141. \<forall>j < 208. \<forall>l < 141. place D (img s) i k = place D (img s) j l \<and> place D (img s) i k \<noteq> 0 \<longrightarrow> i = j \<and> k = l)
     \<and> unat (freeblock s) = 29 + card (used_slots D (img s)))"

lemma soundD:
  assumes "sound D s"
  shows "length (img s) = 1024" and "b < 1024 \<Longrightarrow> is_block (img s ! b)" and "29 \<le> unat (freeblock s)" and "unat (freeblock s) \<le> 1024"
    and "usedblocks s = freeblock s" and "img s ! 0 = zeroes" and "unat (freeblock s) \<le> b \<Longrightarrow> b < 1024 \<Longrightarrow> img s ! b = zeroes"
    and "length (addrs (D i)) = NDIRECT + 1"
    and "i < 208 \<Longrightarrow> k < 141 \<Longrightarrow> place D (img s) i k \<noteq> 0 \<Longrightarrow> 29 \<le> place D (img s) i k \<and> place D (img s) i k < unat (freeblock s)"
    and "i < 208 \<Longrightarrow> k < 141 \<Longrightarrow> j < 208 \<Longrightarrow> l < 141 \<Longrightarrow> place D (img s) i k = place D (img s) j l \<Longrightarrow> place D (img s) i k \<noteq> 0 \<Longrightarrow> i = j \<and> k = l"
    and "unat (freeblock s) = 29 + card (used_slots D (img s))"
  using assms unfolding sound_def by auto

lemma slot_block: "sound D s \<Longrightarrow> i < 208 \<Longrightarrow> k < 141 \<Longrightarrow> place D (img s) i k < 1024"
  using soundD(4) soundD(9) [of D s i k] by (cases "place D (img s) i k = 0") fastforce+

lemma data_slot_less: "m < 140 \<Longrightarrow> data_slot m < 141" "data_slot m \<noteq> NDIRECT"
  by (auto simp: data_slot_def)

lemma finite_used_slots: "finite (used_slots D im)"
  by (rule finite_subset [of _ "{..<208} \<times> {..<141}"]) (auto simp: used_slots_def)

text \<open>The places that a file of \<open>n\<close> bytes needs, and their number.\<close>

definition needed :: "nat \<Rightarrow> nat set" where
  "needed n = {k. k < 141 \<and> (if k \<le> NDIRECT then k else k - 1) * 512 < n}"

definition need :: "nat \<Rightarrow> nat" where
  "need n = (n + 511) div 512 + (if NDIRECT * 512 < n then 1 else 0)"

text \<open>Files of the sizes \<open>Z\<close> fit into the 995 blocks behind the bitmap, and those of the image need no more than that.\<close>

definition room :: "(nat \<Rightarrow> nat) \<Rightarrow> bool" where
  "room Z = ((\<Sum>i\<leftarrow>[0..<208]. need (Z i)) \<le> 995 \<and> list_all (\<lambda>i. Z i \<le> 140 * 512) [0..<208])"

definition within :: "(nat \<Rightarrow> nat) \<Rightarrow> (nat \<Rightarrow> dinode) \<Rightarrow> mk \<Rightarrow> bool" where
  "within Z D s = (used_slots D (img s) \<subseteq> (SIGMA i:{..<208}. needed (Z i)))"

lemma needed_data: "m < 140 \<Longrightarrow> m * 512 < n \<Longrightarrow> data_slot m \<in> needed n"
  by (auto simp: needed_def data_slot_def)

lemma needed_indirect: "NDIRECT \<le> m \<Longrightarrow> m * 512 < n \<Longrightarrow> NDIRECT \<in> needed n"
  by (auto simp: needed_def NDIRECT_def)

lemma card_needed:
  assumes "n \<le> 140 * 512"
  shows "card (needed n) = need n"
proof -
  define c where "c = (n + 511) div 512"
  have c: "k * 512 < n \<longleftrightarrow> k < c" for k unfolding c_def by linarith
  have "c \<le> 140" using assms unfolding c_def by linarith
  then have "k \<in> needed n \<longleftrightarrow> k < (if NDIRECT < c then c + 1 else c)" for k using c [of k] c [of "k - 1"] by (auto simp: needed_def NDIRECT_def)
  then have "needed n = {..<if NDIRECT < c then c + 1 else c}" by blast
  then show ?thesis using c by (simp add: need_def c_def [symmetric])
qed

lemma room_free:
  assumes ok: "sound D s" and w: "within Z D s" and r: "room Z" and i: "i < 208" "k \<in> needed (Z i)" and z: "place D (img s) i k = 0"
  shows "unat (freeblock s) < 1024"
proof -
  let ?S = "SIGMA i:{..<208}. needed (Z i)"
  have fin: "finite (needed n)" for n by (simp add: needed_def)
  have "card ?S = (\<Sum>i<208. card (needed (Z i)))" by (simp add: fin)
  also have "\<dots> = (\<Sum>i<208. need (Z i))" using r by (intro sum.cong) (simp_all add: room_def card_needed list_all_iff)
  also have "\<dots> = (\<Sum>i\<leftarrow>[0..<208]. need (Z i))" by (simp only: interv_sum_list_conv_sum_set_nat atLeast0LessThan set_upt)
  finally have c: "card ?S \<le> 995" using r by (simp add: room_def)
  have "(i, k) \<in> ?S" "(i, k) \<notin> used_slots D (img s)" using i z by (simp_all add: used_slots_def)
  then have "used_slots D (img s) \<subset> ?S" using w by (auto simp: within_def)
  then have "card (used_slots D (img s)) < card ?S" by (intro psubset_card_mono) (simp_all add: fin)
  then show ?thesis using soundD(11) [OF ok] c by simp
qed

text \<open>The next free block goes to the free place \<open>k\<close> of inode \<open>i\<close>.\<close>

lemma sound_extend:
  assumes ok: "sound D s" and i: "i < 208" "k < 141" and z: "place D (img s) i k = 0" and f: "unat (freeblock s) < 1024"
    and s': "\<And>j l. j < 208 \<Longrightarrow> l < 141 \<Longrightarrow> place D' (img s') j l = (if j = i \<and> l = k then unat (freeblock s) else place D (img s) j l)"
    and len: "length (img s') = 1024" "\<And>b. b < 1024 \<Longrightarrow> is_block (img s' ! b)" and free: "freeblock s' = freeblock s + 1" "usedblocks s' = usedblocks s + 1"
    and same: "\<And>b. b < 1024 \<Longrightarrow> b \<noteq> t \<Longrightarrow> img s' ! b = img s ! b" "t \<noteq> 0" "t < unat (freeblock s)"
    and ad: "\<And>j. length (addrs (D' j)) = NDIRECT + 1"
  shows "sound D' s'" and "unat (freeblock s') = unat (freeblock s) + 1"
proof -
  show u: "unat (freeblock s') = unat (freeblock s) + 1" using f unfolding free(1) by (subst unat_add_small) simp_all
  have blk: "\<forall>b \<in> set (img s'). is_block b" using len by (auto simp: in_set_conv_nth)
  note d = soundD [OF ok]
  have z0: "img s' ! 0 = zeroes" "\<forall>b < 1024. unat (freeblock s') \<le> b \<longrightarrow> img s' ! b = zeroes"
    using same d(3,6,7) u by auto
  have r: "\<forall>j < 208. \<forall>l < 141. place D' (img s') j l \<noteq> 0 \<longrightarrow> 29 \<le> place D' (img s') j l \<and> place D' (img s') j l < unat (freeblock s')"
    using d(3) d(9) u by (auto simp: s' less_Suc_eq)
  have ne: "place D (img s) j l \<noteq> unat (freeblock s)" if "j < 208" "l < 141" for j l using d(9) [OF that] d(3) by auto
  have inj: "\<forall>j < 208. \<forall>l < 141. \<forall>j' < 208. \<forall>l' < 141. place D' (img s') j l = place D' (img s') j' l' \<and> place D' (img s') j l \<noteq> 0
      \<longrightarrow> j = j' \<and> l = l'"
  proof (intro allI impI, elim conjE)
    fix j l j' l' assume a: "j < 208" "l < 141" "j' < 208" "l' < 141" and e: "place D' (img s') j l = place D' (img s') j' l'" "place D' (img s') j l \<noteq> 0"
    note e' = e [unfolded s' [OF a(1,2)] s' [OF a(3,4)]]
    show "j = j' \<and> l = l'"
      by (cases "j = i \<and> l = k"; cases "j' = i \<and> l' = k") (use e' ne [OF a(1,2)] ne [OF a(3,4)] d(10) [OF a] in auto)
  qed
  have "used_slots D' (img s') = insert (i, k) (used_slots D (img s))" using s' i d(3) by (auto simp: used_slots_def)
  moreover have "(i, k) \<notin> used_slots D (img s)" using z by (simp add: used_slots_def)
  ultimately have "card (used_slots D' (img s')) = Suc (card (used_slots D (img s)))" by (simp add: finite_used_slots)
  then have "unat (freeblock s') = 29 + card (used_slots D' (img s'))" using d(11) u by simp
  then show "sound D' s'" unfolding sound_def using len(1) blk d(3,5) f u z0 r inj ad free by simp
qed

lemma within_extend:
  assumes "within Z D s" and "i < 208" "k \<in> needed (Z i)" and "k < 141"
    and "\<And>j l. j < 208 \<Longrightarrow> l < 141 \<Longrightarrow> place D' (img s') j l = (if j = i \<and> l = k then b else place D (img s) j l)"
  shows "within Z D' s'"
proof -
  have "used_slots D' (img s') \<subseteq> insert (i, k) (used_slots D (img s))" using assms(5) by (auto simp: used_slots_def split: if_splits)
  then show ?thesis using assms(1-4) by (auto simp: within_def)
qed

lemma bytes_extend:
  assumes ok: "sound D s" and i: "i < 208" "k < 141" and z: "place D (img s) i k = 0" and f: "unat (freeblock s) < 1024"
    and s': "\<And>j l. j < 208 \<Longrightarrow> l < 141 \<Longrightarrow> place D' (img s') j l = (if j = i \<and> l = k then unat (freeblock s) else place D (img s) j l)"
    and same: "\<And>b. b < 1024 \<Longrightarrow> b \<noteq> t \<Longrightarrow> img s' ! b = img s ! b" "t \<noteq> 0" "t < unat (freeblock s)"
    and t: "\<And>j l. j < 208 \<Longrightarrow> l < 140 \<Longrightarrow> place D (img s) j (data_slot l) \<noteq> t"
    and j: "j < 208" "n < 140 * 512"
  shows "byte_of D' (img s') j n = byte_of D (img s) j n"
proof -
  have m: "n div 512 < 140" "data_slot (n div 512) < 141" using j(2) data_slot_less by auto
  show ?thesis
  proof (cases "j = i \<and> data_slot (n div 512) = k")
    case True
    have "img s' ! unat (freeblock s) = zeroes" using same(1) [of "unat (freeblock s)"] same(3) f soundD(7) [OF ok] by simp
    then show ?thesis using True s' [OF j(1) m(2)] z soundD(6) [OF ok] by (simp add: byte_of_def)
  next
    case False
    have "img s' ! place D (img s) j (data_slot (n div 512)) = img s ! place D (img s) j (data_slot (n div 512))"
      by (rule same(1)) (use slot_block [OF ok j(1) m(2)] t [OF j(1) m(1)] in auto)
    then show ?thesis using False by (auto simp: byte_of_def s' [OF j(1) m(2)])
  qed
qed

lemma get_ptr_zeroes: "e < NINDIRECT \<Longrightarrow> get_ptr e zeroes = 0"
  by (simp add: get_ptr_def bytes_at_def zeroes_def NINDIRECT_def word32_def)

lemma slot_direct:
  assumes len: "length (addrs (D i)) = NDIRECT + 1" and k: "k \<le> NDIRECT" "place D im i k = 0" and z: "k = NDIRECT \<Longrightarrow> im ! unat b = zeroes" and l: "l < 141"
  shows "place (D(i := (D i)\<lparr>addrs := (addrs (D i))[k := b]\<rparr>)) im j l = (if j = i \<and> l = k then unat b else place D im j l)"
proof (cases "j = i \<and> k = NDIRECT \<and> NDIRECT < l")
  case True
  then have "l - NDIRECT - 1 < NINDIRECT" "addrs (D i) ! NDIRECT = 0" using l k(2) by (auto simp: NDIRECT_def NINDIRECT_def place_def unat_eq_zero)
  then show ?thesis using True len z get_ptr_zeroes by (simp add: place_def)
qed (use len k in \<open>auto simp: place_def nth_list_update\<close>)

lemma slot_above: "NDIRECT < l \<Longrightarrow> place D im i NDIRECT = ib \<Longrightarrow> ib \<noteq> 0 \<Longrightarrow> place D im i l = unat (get_ptr (l - NDIRECT - 1) (im ! ib))"
  by (auto simp: place_def)

lemma slot_at: "place D im' i NDIRECT = place D im i NDIRECT"
  by (simp add: place_def)

lemma slot_below: "l \<le> NDIRECT \<Longrightarrow> place D im' i l = place D im i l"
  by (simp add: place_def)

lemma slot_cong: "im' ! place D im i NDIRECT = im ! place D im i NDIRECT \<Longrightarrow> place D im' i l = place D im i l"
  by (simp add: place_def)

lemma slot_entry:
  assumes ok: "sound D s" and i: "i < 208" and e: "e < NINDIRECT" and ib: "ib = place D (img s) i NDIRECT" "ib \<noteq> 0" and j: "j < 208" "l < 141"
  shows "place D ((img s)[ib := put_ptr e b (img s ! ib)]) j l = (if j = i \<and> l = NDIRECT + 1 + e then unat b else place D (img s) j l)"
proof (cases "l \<le> NDIRECT")
  case True
  then show ?thesis using e slot_below by simp
next
  case False
  have N: "NDIRECT < 141" by (simp add: NDIRECT_def)
  have lt: "ib < 1024" using slot_block [OF ok i N] ib(1) by simp
  have l: "l - NDIRECT - 1 < NINDIRECT" using j(2) False by (simp add: NDIRECT_def NINDIRECT_def)
  let ?im = "(img s)[ib := put_ptr e b (img s ! ib)]"
  show ?thesis
  proof (cases "j = i")
    case True
    have ib': "place D im i NDIRECT = ib" for im using ib(1) slot_at [of D im i "img s"] by simp
    have "?im ! ib = put_ptr e b (img s ! ib)" using lt soundD(1) [OF ok] by simp
    then have "place D ?im i l = unat (get_ptr (l - NDIRECT - 1) (put_ptr e b (img s ! ib)))"
      using slot_above [OF _ ib' ib(2), of l ?im] False by simp
    also have "\<dots> = (if l - NDIRECT - 1 = e then unat b else unat (get_ptr (l - NDIRECT - 1) (img s ! ib)))"
      using get_put_ptr [OF soundD(2) [OF ok lt] e l] by simp
    also have "unat (get_ptr (l - NDIRECT - 1) (img s ! ib)) = place D (img s) i l" using slot_above [OF _ ib' ib(2), of l "img s"] False by simp
    finally show ?thesis using True False by auto
  next
    case ne: False
    then have "place D (img s) j NDIRECT \<noteq> ib" using soundD(10) [OF ok i N j(1) N] ib by auto
    then have "place D ?im j l = place D (img s) j l" by (intro slot_cong) simp
    then show ?thesis using ne by simp
  qed
qed


subsection \<open>The block of a position\<close>

text \<open>From \<open>s\<close> to \<open>s'\<close> no file changed, the files keep to the sizes \<open>Z\<close>, and the sectors in front of the files are the same.\<close>

definition grown :: "(nat \<Rightarrow> nat) \<Rightarrow> (nat \<Rightarrow> dinode) \<Rightarrow> mk \<Rightarrow> (nat \<Rightarrow> dinode) \<Rightarrow> mk \<Rightarrow> bool" where
  "grown Z D s D' s' = (sound D' s' \<and> within Z D' s' \<and> (\<forall>j < 208. \<forall>m < 140 * 512. byte_of D' (img s') j m = byte_of D (img s) j m)
     \<and> freeinode s' = freeinode s \<and> (\<forall>b < 29. img s' ! b = img s ! b))"

lemma grown_refl: "sound D s \<Longrightarrow> within Z D s \<Longrightarrow> grown Z D s D s"
  by (simp add: grown_def)

lemma grown_trans: "grown Z D s D' s' \<Longrightarrow> grown Z D' s' D'' s'' \<Longrightarrow> grown Z D s D'' s''"
  by (simp add: grown_def)

lemma wsect_img: "unat x < length (img s) \<Longrightarrow> wsect x b s = s\<lparr>img := (img s)[unat x := b]\<rparr>"
  by (simp add: wsect_def)

lemma alloc_direct:
  assumes ok: "sound D s" and wi: "within Z D s" "room Z" and i: "i < 208" "k \<le> NDIRECT" "k \<in> needed (Z i)" and z: "place D (img s) i k = 0"
    and D': "D' = D(i := (D i)\<lparr>addrs := (addrs (D i))[k := freeblock s]\<rparr>)" and s': "s' = snd (take_free s)"
  shows "grown Z D s D' s'" and "place D' (img s') i k = unat (freeblock s)" and "freeblock s \<noteq> 0"
proof -
  note d = soundD [OF ok]
  have f: "unat (freeblock s) < 1024" by (rule room_free [OF ok wi i(1,3) z])
  have k: "k < 141" using i(2) by (simp add: NDIRECT_def)
  have im: "img s' = img s" "freeblock s' = freeblock s + 1" "usedblocks s' = usedblocks s + 1" "freeinode s' = freeinode s" by (simp_all add: s' take_free_def)
  have sl: "place D' (img s') j l = (if j = i \<and> l = k then unat (freeblock s) else place D (img s) j l)" if "j < 208" "l < 141" for j l
    unfolding D' im(1) by (rule slot_direct [OF d(8) i(2) z _ that(2)]) (use d(7) f in simp)
  have ad: "length (addrs (D' j)) = NDIRECT + 1" for j using d(8) by (simp add: D')
  have t: "(1 :: nat) \<noteq> 0" "1 < unat (freeblock s)" using d(3) by auto
  have snd: "sound D' s'" "unat (freeblock s') = unat (freeblock s) + 1"
    using sound_extend [OF ok i(1) k z f sl _ _ im(2,3) _ t ad] d(1,2) im(1) by simp_all
  have "byte_of D' (img s') j m = byte_of D (img s) j m" if "j < 208" "m < 140 * 512" for j m
  proof (rule bytes_extend [OF ok i(1) k z f sl _ t _ that])
    show "place D (img s) j (data_slot l) \<noteq> 1" if "j < 208" "l < 140" for j l
      using d(9) [OF that(1) data_slot_less(1) [OF that(2)]] by auto
  qed (use im(1) in simp_all)
  then show "grown Z D s D' s'" using snd im within_extend [OF wi(1) i(1,3) k sl] by (simp add: grown_def)
  show "place D' (img s') i k = unat (freeblock s)" using sl [OF i(1) k] by simp
  show "freeblock s \<noteq> 0" using d(3) by auto
qed

lemma alloc_entry:
  assumes ok: "sound D s" and wi: "within Z D s" "room Z" and i: "i < 208" "e < NINDIRECT" and ib: "ib = place D (img s) i NDIRECT" "ib \<noteq> 0"
    and z: "place D (img s) i (NDIRECT + 1 + e) = 0" and n: "NDIRECT + 1 + e \<in> needed (Z i)"
    and s': "s' = (snd (take_free s))\<lparr>img := (img s)[ib := put_ptr e (freeblock s) (img s ! ib)]\<rparr>"
  shows "grown Z D s D s'" and "place D (img s') i (NDIRECT + 1 + e) = unat (freeblock s)"
proof -
  note d = soundD [OF ok]
  have f: "unat (freeblock s) < 1024" by (rule room_free [OF ok wi i(1) n z])
  have N: "NDIRECT < 141" and k: "NDIRECT + 1 + e < 141" using i(2) by (simp_all add: NDIRECT_def NINDIRECT_def)
  have ibr: "29 \<le> ib" "ib < unat (freeblock s)" "ib < 1024" using d(9) [OF i(1) N] ib d(4) by auto
  have im: "img s' = (img s)[ib := put_ptr e (freeblock s) (img s ! ib)]" "freeblock s' = freeblock s + 1" "usedblocks s' = usedblocks s + 1"
    "freeinode s' = freeinode s" by (simp_all add: s' take_free_def)
  have sl: "place D (img s') j l = (if j = i \<and> l = NDIRECT + 1 + e then unat (freeblock s) else place D (img s) j l)" if "j < 208" "l < 141" for j l
    unfolding im(1) by (rule slot_entry [OF ok i ib that])
  have "is_block (img s ! ib)" using d(2) ibr(3) .
  then have "is_block (put_ptr e (freeblock s) (img s ! ib))" using i(2) by (simp add: put_ptr_def is_block_def NINDIRECT_def BSIZE_def)
  then have blk: "is_block (img s' ! b)" if "b < 1024" for b using that d(1,2) ibr(3) by (cases "b = ib") (simp_all add: im(1))
  have len: "length (img s') = 1024" using d(1) by (simp add: im(1))
  have same: "img s' ! b = img s ! b" if "b \<noteq> ib" for b using that by (simp add: im(1))
  have t: "ib \<noteq> 0" "ib < unat (freeblock s)" using ibr by auto
  have snd: "sound D s'" "unat (freeblock s') = unat (freeblock s) + 1"
    by (rule sound_extend [OF ok i(1) k z f sl len blk im(2,3) same t d(8)]; assumption)+
  have "byte_of D (img s') j m = byte_of D (img s) j m" if "j < 208" "m < 140 * 512" for j m
  proof (rule bytes_extend [OF ok i(1) k z f sl same t _ that])
    show "place D (img s) j (data_slot l) \<noteq> ib" if "j < 208" "l < 140" for j l
      using d(10) [OF i(1) N that(1) data_slot_less(1) [OF that(2)]] data_slot_less(2) [of l] ib by auto
  qed
  then show "grown Z D s D s'" using snd im same ibr within_extend [OF wi(1) i(1) n k sl] by (simp add: grown_def)
  show "place D (img s') i (NDIRECT + 1 + e) = unat (freeblock s)" using sl [OF i(1) k] by simp
qed


lemma block_for_ok:
  assumes ok: "sound D s" and wi: "within Z D s" "room Z" and i: "i < 208" "m < 140" and n: "m * 512 < Z i"
  obtains x din' s' where "block_for m (D i, s) = Inr (x, din', s')" "grown Z D s (D(i := din')) s'" "unat x = place (D(i := din')) (img s') i (data_slot m)"
    "x \<noteq> 0" "din' = (D i)\<lparr>addrs := addrs din'\<rparr>"
proof (cases "m < NDIRECT")
  case True
  then have sl: "place D (img s) i (data_slot m) = unat (addrs (D i) ! m)" by (simp add: place_def data_slot_def)
  show ?thesis
  proof (cases "addrs (D i) ! m = 0")
    case z: True
    define din' where "din' = (D i)\<lparr>addrs := (addrs (D i))[m := freeblock s]\<rparr>"
    have "place D (img s) i m = 0" using z True by (simp add: place_def)
    from alloc_direct [OF ok wi i(1) _ _ this arg_cong [where f = "\<lambda>d. D(i := d)", OF din'_def] refl] True needed_data [OF i(2) n, unfolded data_slot_def]
    have g: "grown Z D s (D(i := din')) (snd (take_free s))" "place (D(i := din')) (img (snd (take_free s))) i m = unat (freeblock s)" "freeblock s \<noteq> 0"
      by simp_all
    show ?thesis
      by (rule that [of "freeblock s" din' "snd (take_free s)"])
        (use True z g in \<open>simp_all add: block_for_def take_free_def din'_def data_slot_def\<close>)
  next
    case nz: False
    show ?thesis
      by (rule that [of "addrs (D i) ! m" "D i" s])
        (use True nz sl grown_refl [OF ok wi(1)] in \<open>simp_all add: block_for_def\<close>)
  qed
next
  case False
  define e where "e = m - NDIRECT"
  have e: "e < NINDIRECT" "data_slot m = NDIRECT + 1 + e" using False i(2) by (simp_all add: e_def data_slot_def NDIRECT_def NINDIRECT_def)
  have ni: "NDIRECT \<in> needed (Z i)" using needed_indirect [OF _ n] False by simp
  define din' s1 where "din' = (if addrs (D i) ! NDIRECT = 0 then (D i)\<lparr>addrs := (addrs (D i))[NDIRECT := freeblock s]\<rparr> else D i)"
    and "s1 = (if addrs (D i) ! NDIRECT = 0 then snd (take_free s) else s)"
  let ?D = "D(i := din')" let ?a = "addrs din' ! NDIRECT"
  have g1: "grown Z D s ?D s1" "unat ?a = place ?D (img s1) i NDIRECT" "?a \<noteq> 0"
  proof -
    have "grown Z D s ?D s1 \<and> unat ?a = place ?D (img s1) i NDIRECT \<and> ?a \<noteq> 0"
    proof (cases "addrs (D i) ! NDIRECT = 0")
      case True
      then have "place D (img s) i NDIRECT = 0" by (simp add: place_def)
      from alloc_direct [OF ok wi i(1) _ ni this refl refl] soundD(8) [OF ok]
      show ?thesis by (simp add: True din'_def s1_def place_def)
    next
      case False
      then show ?thesis using grown_refl [OF ok wi(1)] by (simp add: din'_def s1_def place_def)
    qed
    then show "grown Z D s ?D s1" "unat ?a = place ?D (img s1) i NDIRECT" "?a \<noteq> 0" by simp_all
  qed
  have ok1: "sound ?D s1" and w1: "within Z ?D s1" using g1(1) by (simp_all add: grown_def)
  have N: "NDIRECT < 141" by (simp add: NDIRECT_def)
  have lt: "unat ?a < 1024" using slot_block [OF ok1 i(1) N] g1(2) by simp
  have len: "length (img s1) = 1024" using soundD(1) [OF ok1] .
  have nz: "unat ?a \<noteq> 0" using g1(3) by (simp add: unat_eq_zero)
  have keep: "din' = (D i)\<lparr>addrs := addrs din'\<rparr>" by (simp add: din'_def)
  have bf: "block_for m (D i, s) = (if get_ptr e (img s1 ! unat ?a) = 0
      then Inr (freeblock s1, din', wsect ?a (put_ptr e (freeblock s1) (img s1 ! unat ?a)) (snd (take_free s1)))
      else Inr (get_ptr e (img s1 ! unat ?a), din', s1))"
  proof -
    have "block_for m (D i, s) = (let (din, s) = (din', s1) in bindE (rsect (addrs din ! NDIRECT) s) (\<lambda>indirect.
        if get_ptr e indirect = 0 then
          let (b, s) = take_free s in Inr (b, din, wsect (addrs din ! NDIRECT) (put_ptr e b indirect) s)
        else Inr (get_ptr e indirect, din, s)))"
      unfolding e_def block_for_def din'_def s1_def using False by (simp add: take_free_def Let_def cong: if_cong)
    then show ?thesis using lt len by (simp add: rsect_def take_free_def)
  qed
  have sl: "place ?D (img s1) i (NDIRECT + 1 + e) = unat (get_ptr e (img s1 ! unat ?a))" using slot_above [OF _ g1(2) [symmetric] nz, of "NDIRECT + 1 + e"] by simp
  show ?thesis
  proof (cases "get_ptr e (img s1 ! unat ?a) = 0")
    case True
    define s2 where "s2 = (snd (take_free s1))\<lparr>img := (img s1)[unat ?a := put_ptr e (freeblock s1) (img s1 ! unat ?a)]\<rparr>"
    have g2: "grown Z ?D s1 ?D s2" "place ?D (img s2) i (NDIRECT + 1 + e) = unat (freeblock s1)"
      using alloc_entry [OF ok1 w1 wi(2) i(1) e(1) g1(2) nz _ _ s2_def] sl True needed_data [OF i(2) n] e(2) by simp_all
    have w: "wsect ?a (put_ptr e (freeblock s1) (img s1 ! unat ?a)) (snd (take_free s1)) = s2"
      using lt len by (simp add: wsect_img s2_def take_free_def)
    have "freeblock s1 \<noteq> 0" using soundD(3) [OF ok1] by auto
    then show ?thesis
      by (intro that [of "freeblock s1" din' s2]) (use bf True w g2 keep e grown_trans [OF g1(1) g2(1)] in simp_all)
  next
    case False
    then show ?thesis
      by (intro that [of "get_ptr e (img s1 ! unat ?a)" din' s1]) (use bf sl keep e g1(1) in simp_all)
  qed
qed

lemma write_block:
  assumes ok: "sound D s" and i: "i < 208" "m < 140" and x: "x = place D (img s) i (data_slot m)" "x \<noteq> 0" and b: "is_block b"
    and s': "s' = s\<lparr>img := (img s)[x := b]\<rparr>"
  shows "sound D s'" and "within Z D s \<Longrightarrow> within Z D s'" and "j < 208 \<Longrightarrow> n < 140 * 512 \<Longrightarrow> byte_of D (img s') j n = (if j = i \<and> n div 512 = m then b ! (n mod 512) else byte_of D (img s) j n)"
    and "c < 29 \<Longrightarrow> img s' ! c = img s ! c"
proof -
  note d = soundD [OF ok]
  note m = data_slot_less(1) [OF i(2)]
  have N: "NDIRECT < 141" by (simp add: NDIRECT_def)
  have xr: "29 \<le> x" "x < unat (freeblock s)" "x < 1024" using d(9) [OF i(1) m] x d(4) by auto
  have same: "img s' ! c = img s ! c" if "c \<noteq> x" for c using that by (simp add: s')
  have at: "img s' ! x = b" using xr d(1) by (simp add: s')
  have sl: "place D (img s') j l = place D (img s) j l" if "j < 208" for j l
    by (rule slot_cong, rule same) (use d(10) [OF that N i(1) m] data_slot_less(2) [of m] x in auto)
  have "\<forall>c \<in> set (img s). is_block c" using ok by (simp add: sound_def)
  then have blk: "\<forall>c \<in> set (img s'). is_block c" using b set_update_subset_insert [of "img s" x b] by (auto simp: s')
  have "used_slots D (img s') = used_slots D (img s)" using sl by (auto simp: used_slots_def)
  then show "within Z D s \<Longrightarrow> within Z D s'" and "sound D s'" unfolding sound_def within_def
    using d(1,3,4,5,6,7,8) xr blk same ok [unfolded sound_def] by (auto simp: sl) (auto simp: s')
  show "img s' ! c = img s ! c" if "c < 29" using same that xr by simp
  show "byte_of D (img s') j n = (if j = i \<and> n div 512 = m then b ! (n mod 512) else byte_of D (img s) j n)" if "j < 208" "n < 140 * 512"
  proof (cases "place D (img s) j (data_slot (n div 512)) = x")
    case True
    have "n div 512 < 140" using that(2) by simp
    from d(10) [OF that(1) data_slot_less(1) [OF this] i(1) m] True x have "j = i \<and> n div 512 = m" by (auto simp: data_slot_def split: if_splits)
    then show ?thesis using x at by (simp add: byte_of_def sl [OF i(1)])
  next
    case False
    then show ?thesis using x same by (auto simp: byte_of_def sl [OF that(1)])
  qed
qed


subsection \<open>Appending\<close>

text \<open>As \<open>grown\<close>, but the bytes \<open>p\<close> are now in file \<open>i\<close> from \<open>off\<close> on.\<close>

definition written :: "(nat \<Rightarrow> nat) \<Rightarrow> nat \<Rightarrow> nat \<Rightarrow> u8 list \<Rightarrow> (nat \<Rightarrow> dinode) \<Rightarrow> mk \<Rightarrow> (nat \<Rightarrow> dinode) \<Rightarrow> mk \<Rightarrow> bool" where
  "written Z i off p D s D' s' = (sound D' s' \<and> within Z D' s'
     \<and> (\<forall>j < 208. \<forall>m < 140 * 512. byte_of D' (img s') j m =
          (if j = i \<and> off \<le> m \<and> m < off + length p then p ! (m - off) else byte_of D (img s) j m))
     \<and> freeinode s' = freeinode s \<and> (\<forall>b < 29. img s' ! b = img s ! b))"

lemma written_step:
  assumes 1: "written Z i off (take k p) D s D' s'" and 2: "written Z i (off + k) (drop k p) D' s' D'' s''" and k: "k \<le> length p"
  shows "written Z i off p D s D'' s''"
proof -
  have "byte_of D'' (img s'') j x = (if j = i \<and> off \<le> x \<and> x < off + length p then p ! (x - off) else byte_of D (img s) j x)"
    if "j < 208" "x < 140 * 512" for j x
    using 1 2 k that by (auto simp: written_def)
  then show ?thesis using 1 2 by (simp add: written_def)
qed

lemma same_block:
  assumes "off mod 512 + k \<le> 512" "off \<le> n" "n < off + k"
  shows "n div 512 = off div (512 :: nat)"
proof -
  define q r where "q = off div 512" and "r = off mod 512"
  have "off = q * 512 + r" by (simp add: q_def r_def)
  with assms [folded r_def] show ?thesis unfolding q_def [symmetric] by (intro div_nat_eqI) simp_all
qed

lemma write_chunk:
  assumes ok: "sound D s" and i: "i < 208" "off div 512 = m" "m < 140" and c: "off mod 512 + length c \<le> 512" and wi: "within Z D s" "room Z" and n: "m * 512 < Z i"
  obtains x din' s1 buf where "block_for m (D i, s) = Inr (x, din', s1)" "rsect x s1 = Inr buf" "din' = (D i)\<lparr>addrs := addrs din'\<rparr>"
    "written Z i off c D s (D(i := din')) (wsect x (put_bytes (off mod 512) c buf) s1)"
proof -
  obtain x din' s1 where b: "block_for m (D i, s) = Inr (x, din', s1)" and g: "grown Z D s (D(i := din')) s1"
    and x: "unat x = place (D(i := din')) (img s1) i (data_slot m)" "x \<noteq> 0" and keep: "din' = (D i)\<lparr>addrs := addrs din'\<rparr>"
    by (rule block_for_ok [OF ok wi i(1,3) n]) blast
  let ?D = "D(i := din')"
  have ok1: "sound ?D s1" using g by (simp add: grown_def)
  have lt: "unat x < 1024" using slot_block [OF ok1 i(1) data_slot_less(1) [OF i(3)]] x by simp
  have nz: "unat x \<noteq> 0" using x(2) by (simp add: unat_eq_zero)
  let ?buf = "img s1 ! unat x" let ?new = "put_bytes (off mod 512) c ?buf"
  have len: "length ?buf = 512" "length (img s1) = 1024" using soundD(1,2) [OF ok1] lt by (simp_all add: is_block_def BSIZE_def)
  have blk: "is_block ?new" using len c by (simp add: is_block_def BSIZE_def)
  let ?s = "wsect x ?new s1"
  have s: "?s = s1\<lparr>img := (img s1)[unat x := ?new]\<rparr>" using lt len by (simp add: wsect_img)
  note w = write_block [OF ok1 i(1,3) x(1) nz blk s]
  have old: "?buf ! r = byte_of ?D (img s1) i (m * 512 + r)" if "r < 512" for r using that x(1) by (simp add: byte_of_def)
  have "byte_of ?D (img ?s) j n = (if j = i \<and> off \<le> n \<and> n < off + length c then c ! (n - off) else byte_of D (img s) j n)"
    if "j < 208" "n < 140 * 512" for j n
  proof (cases "j = i \<and> n div 512 = m")
    case True
    have e: "m * 512 + n mod 512 = n" "off = m * 512 + off mod 512" using True i(2) div_mult_mod_eq [of n 512] div_mult_mod_eq [of off 512] by simp_all
    have "byte_of ?D (img ?s) j n = ?new ! (n mod 512)" using w(3) [OF that] True by simp
    also have "\<dots> = (if off mod 512 \<le> n mod 512 \<and> n mod 512 < off mod 512 + length c then c ! (n mod 512 - off mod 512) else ?buf ! (n mod 512))"
      by (rule put_bytes_nth) (use len c in auto)
    also have "?buf ! (n mod 512) = byte_of D (img s) j n" using old [of "n mod 512"] True e(1) g that by (simp add: grown_def)
    also have "(off mod 512 \<le> n mod 512 \<and> n mod 512 < off mod 512 + length c) = (off \<le> n \<and> n < off + length c)" using e by linarith
    also have "n mod 512 - off mod 512 = n - off" using e by linarith
    finally show ?thesis using True by (simp del: fun_upd_apply)
  next
    case False
    then have "\<not> (j = i \<and> off \<le> n \<and> n < off + length c)" using i(2) same_block [of off "length c" n] c by auto
    then show ?thesis using w(3) [OF that] False g that unfolding grown_def by presburger
  qed
  then have "written Z i off c D s ?D ?s" using g w(1,2,4) by (simp add: written_def grown_def s)
  with b lt len keep show ?thesis by (intro that [of x din' s1 ?buf]) (simp_all add: rsect_def)
qed

lemma written_nil: "sound D s \<Longrightarrow> within Z D s \<Longrightarrow> written Z i off [] D s D s"
  by (auto simp: written_def)

lemma iappend_loop_ok:
  assumes "sound (D(i := din)) s" and "i < 208" and "unat off + length p \<le> Z i" and "within Z (D(i := din)) s" and "room Z"
  shows "\<exists>din' s'. iappend_loop off p (din, s) = Inr (off + of_nat (length p), din', s') \<and> din' = din\<lparr>addrs := addrs din'\<rparr>
    \<and> written Z i (unat off) p (D(i := din)) s (D(i := din')) s'"
  using assms
proof (induction "length p" arbitrary: off p din s rule: less_induct)
  case less
  note ok = less.prems(1) and i = less.prems(2) and le = less.prems(3) and wi = less.prems(4) and rm = less.prems(5)
  have "Z i \<le> 140 * 512" using rm i by (auto simp: room_def list_all_iff)
  then have room: "unat off + length p \<le> 140 * 512" using le by simp
  show ?case
  proof (cases "p = []")
    case True
    then show ?thesis using ok wi by (intro exI [of _ din] exI [of _ s]) (simp add: iappend_loop.simps written_nil)
  next
    case False
    then have p0: "0 < length p" by simp
    define r n1 where "r = unat off mod 512" and "n1 = min (length p) (512 - r)"
    have r: "r < 512" by (simp add: r_def)
    have n1: "0 < n1" "n1 \<le> length p" "r + n1 \<le> 512" using p0 r by (auto simp: n1_def)
    have q: "unat (off div 512) = unat off div 512" by (simp add: unat_div)
    have lt: "unat off div 512 < 140" using room p0 by linarith
    then have mx: "unat (off div 512) < MAXFILE" using q by (simp add: MAXFILE_def)
    have n: "unat off div 512 * 512 < Z i" using le p0 by linarith
    have tk: "length (take n1 p) = n1" using n1 by simp
    obtain x din1 s1 buf where b: "block_for (unat off div 512) ((D(i := din)) i, s) = Inr (x, din1, s1)" and rd: "rsect x s1 = Inr buf"
      and keep: "din1 = ((D(i := din)) i)\<lparr>addrs := addrs din1\<rparr>"
      and w: "written Z i (unat off) (take n1 p) (D(i := din)) s (D(i := din, i := din1)) (wsect x (put_bytes (unat off mod 512) (take n1 p) buf) s1)"
      by (rule write_chunk [OF ok i refl lt _ wi rm n, of "take n1 p"]) (use tk n1 r_def in auto)
    define s2 where "s2 = wsect x (put_bytes r (take n1 p) buf) s1"
    have w': "written Z i (unat off) (take n1 p) (D(i := din)) s (D(i := din1)) s2" using w by (simp add: s2_def r_def)
    have off': "unat (off + of_nat n1) = unat off + n1"
      using n1 room by (subst unat_add_small) (simp_all add: unat_of_nat_small)
    have e: "unat (off div 512 * 512 + 512 - off) = 512 - r" using block_end(1) [OF mx] by (simp add: distrib_right r_def)
    have step: "iappend_loop off p (din, s) = iappend_loop (off + of_nat n1) (drop n1 p) (din1, s2)"
      using False mx b rd q by (subst iappend_loop.simps) (simp add: e block_end(2) [OF mx] Let_def s2_def n1_def r_def [symmetric])
    have ok2: "sound (D(i := din1)) s2" and wi2: "within Z (D(i := din1)) s2" using w' by (simp_all add: written_def)
    have "length (drop n1 p) < length p" "unat (off + of_nat n1) + length (drop n1 p) \<le> Z i"
      using n1 p0 le off' by simp_all
    from less.hyps [OF this(1) ok2 i this(2) wi2 rm] obtain din' s' where
      l: "iappend_loop (off + of_nat n1) (drop n1 p) (din1, s2) = Inr (off + of_nat n1 + of_nat (length (drop n1 p)), din', s')"
      and keep': "din' = din1\<lparr>addrs := addrs din'\<rparr>"
      and w2: "written Z i (unat off + n1) (drop n1 p) (D(i := din1)) s2 (D(i := din')) s'"
      unfolding off' by blast
    have "written Z i (unat off) p (D(i := din)) s (D(i := din')) s'"
      by (rule written_step [OF w' w2 n1(2)])
    moreover have "din' = din\<lparr>addrs := addrs din'\<rparr>" using keep keep' by (cases din; cases din1; cases din') simp
    moreover have "off + of_nat n1 + of_nat (length (drop n1 p)) = off + of_nat (length p)"
      using n1(2) by (simp add: of_nat_diff)
    ultimately show ?thesis using step l by auto
  qed
qed


subsection \<open>The files of an image\<close>

definition inodes :: "mk \<Rightarrow> nat \<Rightarrow> dinode" where
  "inodes s i = (if i < 208 then get_dinode (of_nat i) (img s ! (i div 8 + 2))
     else \<lparr>itype = 0, imajor = 0, iminor = 0, inlink = 0, isize = 0, addrs = replicate (NDIRECT + 1) 0\<rparr>)"

definition sizes :: "mk \<Rightarrow> nat \<Rightarrow> nat" where
  "sizes s i = unat (isize (inodes s i))"

definition content :: "mk \<Rightarrow> nat \<Rightarrow> u8 list" where
  "content s i = map (byte_of (inodes s) (img s) i) [0..<sizes s i]"

definition files_of :: "mk \<Rightarrow> nat \<Rightarrow> u16 \<times> u8 list" where
  "files_of s i = (itype (inodes s i), content s i)"

text \<open>Blocks and sizes agree, the bytes behind the end of a file are 0, and inodes not yet handed out have no bytes.\<close>

definition image_ok :: "mk \<Rightarrow> bool" where
  "image_ok s = (sound (inodes s) s \<and> within (sizes s) (inodes s) s
     \<and> (\<forall>i < 208. sizes s i \<le> 140 * 512 \<and> (\<forall>m < 140 * 512. sizes s i \<le> m \<longrightarrow> byte_of (inodes s) (img s) i m = 0))
     \<and> (\<forall>i < 208. unat (freeinode s) \<le> i \<longrightarrow> sizes s i = 0))"

lemma length_content [simp]: "length (content s i) = sizes s i"
  by (simp add: content_def)

lemma sound_addrs:
  assumes "\<And>j. addrs (D' j) = addrs (D j)"
  shows "sound D' s = sound D s" and "within Z D' s = within Z D s" and "byte_of D' im i m = byte_of D im i m"
proof -
  have s: "place D' = place D" using assms by (intro ext) (simp add: place_def)
  then have u: "used_slots D' = used_slots D" by (intro ext) (simp add: used_slots_def)
  show "sound D' s = sound D s" "within Z D' s = within Z D s" "byte_of D' im i m = byte_of D im i m"
    using assms by (simp_all add: sound_def within_def byte_of_def s u)
qed

lemma front:
  assumes ok: "sound D s" and c: "1 \<le> c" "c < 29" and b: "is_block b" and s': "s' = s\<lparr>img := (img s)[c := b]\<rparr>"
  shows "sound D s'" and "within Z D s' = within Z D s" and "i < 208 \<Longrightarrow> m < 140 * 512 \<Longrightarrow> byte_of D (img s') i m = byte_of D (img s) i m"
proof -
  note d = soundD [OF ok]
  have N: "NDIRECT < 141" by (simp add: NDIRECT_def)
  have same: "img s' ! x = img s ! x" if "x = 0 \<or> 29 \<le> x" for x using that c by (auto simp: s')
  have sl: "place D (img s') i k = place D (img s) i k" if "i < 208" for i k
    by (rule slot_cong, rule same) (use d(9) [OF that N] in auto)
  have u: "used_slots D (img s') = used_slots D (img s)" using sl by (auto simp: used_slots_def)
  have "\<forall>c \<in> set (img s). is_block c" using ok by (simp add: sound_def)
  then have blk: "\<forall>c \<in> set (img s'). is_block c" using b set_update_subset_insert [of "img s" c b] by (auto simp: s')
  have z: "img s' ! x = zeroes" if "x = 0 \<or> unat (freeblock s) \<le> x \<and> x < 1024" for x using that same d(3,6,7) by auto
  show "sound D s'" unfolding sound_def using d(1,3,4,5,8,11) z blk u ok [unfolded sound_def] by (auto simp: sl) (auto simp: s')
  show "within Z D s' = within Z D s" by (simp add: within_def u)
  show "byte_of D (img s') i m = byte_of D (img s) i m" if "i < 208" "m < 140 * 512"
  proof -
    have "data_slot (m div 512) < 141" using that(2) data_slot_less by auto
    then have "img s' ! place D (img s) i (data_slot (m div 512)) = img s ! place D (img s) i (data_slot (m div 512))"
      using d(9) [OF that(1)] by (intro same) auto
    then show ?thesis by (simp add: byte_of_def sl [OF that(1)])
  qed
qed

lemma i2b_nat: "unat inum < 208 \<Longrightarrow> unat (i2b inum) = unat inum div 8 + 2"
  unfolding i2b_def by (subst unat_add_small) (simp_all add: unat_div IPB_def)

lemma length_inodes: "length (addrs (inodes s i)) = NDIRECT + 1"
  by (simp add: inodes_def get_dinode_def dec_dinode_def words_of_def)

lemma inodes_front: "\<forall>b < 29. img s' ! b = img s ! b \<Longrightarrow> inodes s' = inodes s"
  by (rule ext) (simp add: inodes_def)

lemma rinode_ok: "sound D s \<Longrightarrow> unat inum < 208 \<Longrightarrow> rinode inum s = Inr (inodes s (unat inum))"
  using i2b_nat [of inum] by (simp add: rinode_def rsect_def soundD(1) inodes_def)

lemma winode_ok:
  assumes ok: "sound D s" and i: "unat inum < 208" and ip: "length (addrs ip) = NDIRECT + 1"
  obtains c b where "winode inum ip s = Inr (s\<lparr>img := (img s)[c := b]\<rparr>)" "1 \<le> c" "c < 29" "is_block b"
    "inodes (s\<lparr>img := (img s)[c := b]\<rparr>) = (inodes s)(unat inum := ip)"
proof -
  define c b where "c = unat inum div 8 + 2" and "b = put_dinode inum ip (img s ! c)"
  have c: "1 \<le> c" "c < 29" "unat (i2b inum) = c" using i i2b_nat [OF i] by (simp_all add: c_def)
  have len: "length (img s) = 1024" "is_block (img s ! c)" using soundD(1,2) [OF ok] c by simp_all
  have w: "winode inum ip s = Inr (s\<lparr>img := (img s)[c := b]\<rparr>)"
    using c len by (simp add: winode_def rsect_def wsect_img b_def)
  have "get_dinode (of_nat j) ((img s)[c := b] ! (j div 8 + 2)) = (if j = unat inum then ip else get_dinode (of_nat j) (img s ! (j div 8 + 2)))"
    if "j < 208" for j
  proof (cases "j div 8 + 2 = c")
    case True
    have nat: "unat (of_nat j :: u32) = j" using that by (simp add: unat_of_nat_small)
    show ?thesis
    proof (cases "j = unat inum")
      case True
      then show ?thesis using len c get_put_dinode [OF len(2) ip] by (simp add: b_def c_def)
    next
      case False
      have "j mod 8 \<noteq> unat inum mod 8" using False True unfolding c_def by (metis add_right_cancel div_mult_mod_eq)
      then have "inum mod IPB \<noteq> of_nat j mod IPB" using nat by (auto simp: IPB_def unat_mod dest: arg_cong [where f = unat])
      then show ?thesis using True False len c get_put_dinode_other [OF len(2) ip, of inum] by (simp add: b_def)
    qed
  qed (auto simp: c_def)
  note at = this
  have "inodes (s\<lparr>img := (img s)[c := b]\<rparr>) j = ((inodes s)(unat inum := ip)) j" for j using i at [of j] by (auto simp: inodes_def)
  then have "inodes (s\<lparr>img := (img s)[c := b]\<rparr>) = (inodes s)(unat inum := ip)" by (rule ext)
  then show thesis using w c len ip by (intro that) (simp_all add: b_def is_block_put_dinode)
qed


lemma need_mono: "m \<le> n \<Longrightarrow> need m \<le> need n"
  unfolding need_def by (intro add_mono div_le_mono) auto

lemma needed_mono: "m \<le> n \<Longrightarrow> needed m \<subseteq> needed n"
  by (auto simp: needed_def)

lemma within_mono: "within Z D s \<Longrightarrow> (\<And>i. i < 208 \<Longrightarrow> Z i \<le> Z' i) \<Longrightarrow> within Z' D s"
  using needed_mono unfolding within_def by blast

lemma room_mono: "room Z' \<Longrightarrow> (\<And>i. i < 208 \<Longrightarrow> Z i \<le> Z' i) \<Longrightarrow> room Z"
proof -
  assume r: "room Z'" and le: "\<And>i. i < 208 \<Longrightarrow> Z i \<le> Z' i"
  have "(\<Sum>i\<leftarrow>[0..<208]. need (Z i)) \<le> (\<Sum>i\<leftarrow>[0..<208]. need (Z' i))" by (rule sum_list_mono) (simp add: le need_mono)
  then show ?thesis using r order_trans [OF le] unfolding room_def list_all_iff by auto
qed

lemma room_file: "room Z \<Longrightarrow> i < 208 \<Longrightarrow> Z i \<le> 140 * 512"
  by (auto simp: room_def list_all_iff)

lemma image_okD:
  assumes "image_ok s"
  shows "sound (inodes s) s" and "within (sizes s) (inodes s) s" and "i < 208 \<Longrightarrow> sizes s i \<le> 140 * 512"
    and "i < 208 \<Longrightarrow> m < 140 * 512 \<Longrightarrow> sizes s i \<le> m \<Longrightarrow> byte_of (inodes s) (img s) i m = 0"
    and "i < 208 \<Longrightarrow> unat (freeinode s) \<le> i \<Longrightarrow> sizes s i = 0"
  using assms by (auto simp: image_ok_def)

lemma iappend_ok:
  assumes ok: "image_ok s" and i: "unat inum < 208" and rm: "room ((sizes s)(unat inum := sizes s (unat inum) + length p))"
    and fi: "unat inum < unat (freeinode s)"
  shows "\<exists>s'. iappend inum p s = Inr s' \<and> image_ok s' \<and> freeinode s' = freeinode s
    \<and> (\<forall>j < 208. files_of s' j = (if j = unat inum then (fst (files_of s j), snd (files_of s j) @ p) else files_of s j))"
proof -
  define i where "i = unat inum"
  define D where "D = inodes s"
  let ?Z = "(sizes s)(i := sizes s i + length p)"
  have i: "i < 208" using i by (simp add: i_def)
  have le: "sizes s i + length p \<le> 140 * 512" using room_file [OF rm assms(2)] by (simp add: i_def)
  note d = image_okD [OF ok, folded D_def]
  have w: "within ?Z (D(i := D i)) s" using within_mono [OF d(2), of ?Z] by simp
  have "sound (D(i := D i)) s" "unat (isize (D i)) + length p \<le> ?Z i" using d(1) by (simp_all add: sizes_def D_def)
  from iappend_loop_ok [OF this(1) i this(2) w] rm obtain din s1 where
    l: "iappend_loop (isize (D i)) p (D i, s) = Inr (isize (D i) + of_nat (length p), din, s1)" and din: "din = (D i)\<lparr>addrs := addrs din\<rparr>"
    and wr: "written ?Z i (unat (isize (D i))) p (D(i := D i)) s (D(i := din)) s1"
    by (auto simp: i_def)
  define ip where "ip = din\<lparr>isize := isize (D i) + of_nat (length p)\<rparr>"
  have front1: "\<forall>b < 29. img s1 ! b = img s ! b" and ok1: "sound (D(i := din)) s1" using wr by (simp_all add: written_def)
  have in1: "inodes s1 = D" using inodes_front [OF front1] by (simp add: D_def)
  have ad: "\<And>j. addrs ((D(i := ip)) j) = addrs ((D(i := din)) j)" by (simp add: ip_def)
  note sa = sound_addrs [of "D(i := ip)" "D(i := din)", OF ad]
  have ok2: "sound (D(i := ip)) s1" using ok1 sa(1) by (simp del: fun_upd_apply)
  have len: "length (addrs ip) = NDIRECT + 1" using soundD(8) [OF ok2, of i] by simp
  obtain c b where wi: "winode inum ip s1 = Inr (s1\<lparr>img := (img s1)[c := b]\<rparr>)" and c: "1 \<le> c" "c < 29" "is_block b"
    and in2: "inodes (s1\<lparr>img := (img s1)[c := b]\<rparr>) = D(i := ip)"
    by (rule winode_ok [OF ok2 assms(2) len]) (simp add: in1 i_def)
  define s2 where "s2 = s1\<lparr>img := (img s1)[c := b]\<rparr>"
  note fr = front [OF ok2 c s2_def]
  have I: "inodes s2 = D(i := ip)" using in2 by (simp add: s2_def)
  have sz: "unat (isize ip) = sizes s i + length p"
    using le by (simp add: ip_def, subst unat_add_small) (simp_all add: unat_of_nat_small sizes_def D_def)
  have S: "sizes s2 = ?Z" using sz by (intro ext) (simp add: sizes_def I, simp add: D_def)
  have F: "byte_of (inodes s2) (img s2) j m = (if j = i \<and> sizes s i \<le> m \<and> m < sizes s i + length p then p ! (m - sizes s i) else byte_of D (img s) j m)"
    if "j < 208" "m < 140 * 512" for j m
  proof -
    have "byte_of (inodes s2) (img s2) j m = byte_of (D(i := din)) (img s1) j m"
      unfolding I fr(3) [OF that] by (rule sa(3))
    also have "\<dots> = (if j = i \<and> sizes s i \<le> m \<and> m < sizes s i + length p then p ! (m - sizes s i) else byte_of D (img s) j m)"
      using wr that by (simp add: written_def sizes_def D_def)
    finally show ?thesis .
  qed
  have "within ?Z (D(i := ip)) s1" using wr sa(2) by (simp add: written_def del: fun_upd_apply)
  then have wi2: "within (sizes s2) (inodes s2) s2" using fr(2) by (simp add: S I)
  have fr2: "freeinode s2 = freeinode s" using wr by (simp add: s2_def written_def)
  have "image_ok s2" unfolding image_ok_def
    using fr(1) wi2 d(3,4,5) le F fi by (simp add: I [symmetric] S fr2 i_def [symmetric])
  moreover have "content s2 j = (if j = i then content s i @ p else content s j)" if "j < 208" for j
  proof (rule nth_equalityI)
    show "length (content s2 j) = length (if j = i then content s i @ p else content s j)" by (simp add: S)
    fix m assume "m < length (content s2 j)"
    then have m: "m < ?Z j" "m < 140 * 512" using le d(3) [OF that] by (auto simp: S split: if_splits)
    then show "content s2 j ! m = (if j = i then content s i @ p else content s j) ! m"
      using F [OF that m(2)] by (auto simp: content_def S nth_append D_def split: if_splits)
  qed
  moreover have "itype ip = itype (D i)" using din by (cases din; cases "D i") (simp add: ip_def)
  then have "itype (inodes s2 j) = itype (inodes s j)" for j unfolding I by (simp add: D_def)
  moreover have "iappend inum p s = Inr s2"
    using rinode_ok [OF d(1) assms(2)] l wi by (simp add: iappend_def i_def [symmetric] D_def [symmetric] ip_def s2_def)
  ultimately show ?thesis using fr2 by (intro exI [of _ s2]) (auto simp: files_of_def i_def [symmetric])
qed


lemma sound_slots:
  assumes sl: "\<And>i k. i < 208 \<Longrightarrow> k < 141 \<Longrightarrow> place D' (img s) i k = place D (img s) i k" and ad: "\<And>j. length (addrs (D' j)) = NDIRECT + 1" and ok: "sound D s"
  shows "sound D' s" and "within Z D' s = within Z D s" and "i < 208 \<Longrightarrow> m < 140 * 512 \<Longrightarrow> byte_of D' (img s) i m = byte_of D (img s) i m"
proof -
  have u: "used_slots D' (img s) = used_slots D (img s)" using sl by (auto simp: used_slots_def)
  show "sound D' s" using ok ad unfolding sound_def u by (auto simp: sl)
  show "within Z D' s = within Z D s" by (simp add: within_def u)
  show "i < 208 \<Longrightarrow> m < 140 * 512 \<Longrightarrow> byte_of D' (img s) i m = byte_of D (img s) i m"
    by (simp add: byte_of_def sl data_slot_less)
qed

text \<open>Overwriting an inode with the same block numbers and a size that is not smaller.\<close>

lemma set_inode_ok:
  assumes ok: "image_ok s" and i: "unat inum < 208" and fi: "unat inum < unat (freeinode s)" and ad: "length (addrs ip) = NDIRECT + 1"
    and sl: "\<And>k. k < 141 \<Longrightarrow> place ((inodes s)(unat inum := ip)) (img s) (unat inum) k = place (inodes s) (img s) (unat inum) k"
    and le: "sizes s (unat inum) \<le> unat (isize ip)" "unat (isize ip) \<le> 140 * 512"
  shows "\<exists>s'. winode inum ip s = Inr s' \<and> image_ok s' \<and> freeinode s' = freeinode s
    \<and> (\<forall>j < 208. files_of s' j = (if j = unat inum then (itype ip, snd (files_of s j) @ replicate (unat (isize ip) - sizes s j) 0) else files_of s j))"
proof -
  define i D where "i = unat inum" and "D = inodes s"
  let ?Z = "(sizes s)(i := unat (isize ip))"
  note d = image_okD [OF ok, folded D_def]
  have "place (D(i := ip)) (img s) j k = place D (img s) j k" if "j < 208" "k < 141" for j k
    using sl [OF that(2)] by (cases "j = i") (simp_all add: i_def D_def, simp add: place_def)
  from sound_slots [OF this _ d(1)] have same: "sound (D(i := ip)) s" "\<And>Z. within Z (D(i := ip)) s = within Z D s"
      "\<And>j m. j < 208 \<Longrightarrow> m < 140 * 512 \<Longrightarrow> byte_of (D(i := ip)) (img s) j m = byte_of D (img s) j m"
    using ad length_inodes [of s] by (auto simp: D_def)
  obtain c b where wi: "winode inum ip s = Inr (s\<lparr>img := (img s)[c := b]\<rparr>)" and c: "1 \<le> c" "c < 29" "is_block b"
    and in2: "inodes (s\<lparr>img := (img s)[c := b]\<rparr>) = D(i := ip)"
    by (rule winode_ok [OF d(1) assms(2) ad]) (simp add: D_def i_def)
  define s2 where "s2 = s\<lparr>img := (img s)[c := b]\<rparr>"
  note fr = front [OF same(1) c s2_def]
  have I: "inodes s2 = D(i := ip)" using in2 by (simp add: s2_def)
  have S: "sizes s2 = ?Z" by (intro ext) (simp add: sizes_def I, simp add: D_def)
  have F: "byte_of (inodes s2) (img s2) j m = byte_of D (img s) j m" if "j < 208" "m < 140 * 512" for j m
    unfolding I fr(3) [OF that] by (rule same(3) [OF that])
  have "within ?Z D s" using within_mono [OF d(2), of ?Z] le(1) by (simp add: i_def)
  then have wi2: "within (sizes s2) (inodes s2) s2" using fr(2) same(2) by (simp add: S I)
  have "image_ok s2" unfolding image_ok_def
    using fr(1) wi2 d(3,4,5) le F fi by (simp add: I [symmetric] S i_def [symmetric]) (simp add: s2_def)
  moreover have "content s2 j = (if j = i then content s i @ replicate (unat (isize ip) - sizes s i) 0 else content s j)" if "j < 208" for j
  proof (rule nth_equalityI)
    show "length (content s2 j) = length (if j = i then content s i @ replicate (unat (isize ip) - sizes s i) 0 else content s j)"
      using le(1) by (simp add: S i_def)
    fix m assume "m < length (content s2 j)"
    then have m: "m < ?Z j" "m < 140 * 512" using le d(3) [OF that] by (auto simp: S split: if_splits)
    then show "content s2 j ! m = (if j = i then content s i @ replicate (unat (isize ip) - sizes s i) 0 else content s j) ! m"
      using F [OF that m(2)] d(4) [OF that m(2)] by (auto simp: content_def S nth_append D_def split: if_splits)
  qed
  moreover have "itype (inodes s2 j) = (if j = i then itype ip else itype (inodes s j))" for j unfolding I by (simp add: D_def)
  ultimately show ?thesis using wi by (intro exI [of _ s2]) (auto simp: s2_def files_of_def i_def)
qed

lemma mk_ialloc_ok:
  assumes ok: "image_ok s" and f: "unat (freeinode s) < 208"
  shows "\<exists>s'. mk_ialloc t s = Inr (freeinode s, s') \<and> image_ok s' \<and> unat (freeinode s') = unat (freeinode s) + 1
    \<and> (\<forall>j < 208. files_of s' j = (if j = unat (freeinode s) then (t, []) else files_of s j))"
proof -
  define ip :: dinode where "ip = \<lparr>itype = t, imajor = 0, iminor = 0, inlink = 1, isize = 0, addrs = replicate (NDIRECT + 1) 0\<rparr>"
  have ip: "itype ip = t" "isize ip = 0" "addrs ip = replicate (NDIRECT + 1) 0" "length (addrs ip) = NDIRECT + 1" by (simp_all add: ip_def)
  define s1 where "s1 = s\<lparr>freeinode := freeinode s + 1\<rparr>"
  have fr: "unat (freeinode s1) = unat (freeinode s) + 1" using f by (simp add: s1_def, subst unat_add_small) simp_all
  have v: "inodes s1 = inodes s" "img s1 = img s" by (auto simp: s1_def inodes_def)
  then have v': "sizes s1 = sizes s" "files_of s1 = files_of s" by (auto simp: sizes_def files_of_def content_def)
  have "sound D s1 = sound D s" "within Z D s1 = within Z D s" for D Z by (simp_all add: sound_def within_def s1_def)
  then have "image_ok s1" using ok v v' fr by (simp add: image_ok_def)
  moreover have z: "sizes s (unat (freeinode s)) = 0" using image_okD(5) [OF ok f] by simp
  moreover have "place (inodes s) (img s) (unat (freeinode s)) k = 0" if "k < 141" for k
  proof (rule ccontr)
    assume "place (inodes s) (img s) (unat (freeinode s)) k \<noteq> 0"
    then have "k \<in> needed (sizes s (unat (freeinode s)))" using image_okD(2) [OF ok] f that by (auto simp: within_def used_slots_def)
    then show False using z by (simp add: needed_def)
  qed
  moreover have "place ((inodes s)(unat (freeinode s) := ip)) (img s) (unat (freeinode s)) k = 0" if "k < 141" for k
  proof -
    have "replicate (Suc NDIRECT) (0 :: u32) ! l = 0" if "l \<le> NDIRECT" for l by (rule nth_replicate) (use that in simp)
    then show ?thesis by (simp add: place_def ip(3) del: replicate_Suc)
  qed
  ultimately obtain s' where "winode (freeinode s) ip s1 = Inr s'" "image_ok s'" "freeinode s' = freeinode s1"
    "\<forall>j < 208. files_of s' j = (if j = unat (freeinode s) then (itype ip, snd (files_of s1 j) @ replicate (unat (isize ip) - sizes s1 j) 0) else files_of s1 j)"
    using set_inode_ok [of s1 "freeinode s" ip] f fr ip by (auto simp add: v v')
  moreover have "snd (files_of s (unat (freeinode s))) = []" using z by (simp add: files_of_def content_def)
  moreover have "mk_ialloc t s = bindE (winode (freeinode s) ip s1) (\<lambda>s'. Inr (freeinode s, s'))"
    by (simp add: mk_ialloc_def ip_def s1_def Let_def)
  ultimately show ?thesis using fr ip(1,2) by (intro exI [of _ s']) (simp add: v')
qed

lemma to_block_end: "(n div 512 + 1) * 512 - n = 512 - n mod (512 :: nat) \<and> n \<le> (n div 512 + 1) * 512"
proof -
  define q r where "q = n div 512" and "r = n mod 512"
  then have "n = q * 512 + r" "r < 512" by simp_all
  then show ?thesis unfolding q_def [symmetric] r_def [symmetric] by simp
qed

lemma round_dir_ok:
  assumes ok: "image_ok s" and i: "unat inum < 208" and fi: "unat inum < unat (freeinode s)"
    and le: "(sizes s (unat inum) div 512 + 1) * 512 \<le> 140 * 512"
  shows "\<exists>s'. round_dir inum s = Inr s' \<and> image_ok s' \<and> freeinode s' = freeinode s
    \<and> (\<forall>j < 208. files_of s' j = (if j = unat inum then (fst (files_of s j), snd (files_of s j) @ replicate (512 - sizes s j mod 512) 0) else files_of s j))"
proof -
  define i where "i = unat inum"
  define n where "n = isize (inodes s i)"
  have "unat (n div 512 + 1) = unat n div 512 + 1" using le by (subst unat_add_small) (simp_all add: unat_div n_def i_def sizes_def)
  then have e: "unat ((n div 512 + 1) * 512) = (unat n div 512 + 1) * 512"
    using le by (subst unat_mult_lem [THEN iffD1]) (simp_all add: n_def i_def sizes_def)
  let ?ip = "(inodes s i)\<lparr>isize := (n div 512 + 1) * 512\<rparr>"
  have n: "sizes s i = unat n" by (simp add: sizes_def n_def)
  have d: "(unat n div 512 + 1) * 512 - unat n = 512 - unat n mod 512" "unat n \<le> (unat n div 512 + 1) * 512"
    using to_block_end [of "unat n"] by simp_all
  have "place ((inodes s)(i := ?ip)) (img s) i k = place (inodes s) (img s) i k" for k by (simp add: place_def)
  then obtain s' where "winode inum ?ip s = Inr s'" "image_ok s'" "freeinode s' = freeinode s"
    "\<forall>j < 208. files_of s' j = (if j = unat inum then (itype ?ip, snd (files_of s j) @ replicate (unat (isize ?ip) - sizes s j) 0) else files_of s j)"
    using set_inode_ok [OF ok i fi, of ?ip] d(2) e le by (auto simp add: i_def [symmetric] length_inodes n)
  moreover have "round_dir inum s = winode inum ?ip s"
    using rinode_ok [OF image_okD(1) [OF ok] i] by (simp add: round_dir_def i_def n_def)
  moreover have "itype ?ip = fst (files_of s i)" "unat (isize ?ip) - sizes s i = 512 - sizes s i mod 512" using d(1) e n by (simp_all add: files_of_def)
  ultimately show ?thesis by (intro exI [of _ s']) (simp add: i_def)
qed

end
