(* ===== verification/MkfsTree.thy ===== *)
theory MkfsTree
  imports MkfsFiles
begin

text \<open>
  The image of a directory tree: the operations of \<open>linux/mkfs.c\<close> on blocks are simulated by a table of files, and
  the tree is read back from that table.
\<close>

subsection \<open>The table of files\<close>

record table =
  file_of :: "nat \<Rightarrow> u16 \<times> u8 list"
  next_ino :: nat

definition new_file :: "u16 \<Rightarrow> table \<Rightarrow> table" where
  "new_file t A = A\<lparr>file_of := (file_of A)(next_ino A := (t, [])), next_ino := next_ino A + 1\<rparr>"

definition put_file :: "nat \<Rightarrow> u8 list \<Rightarrow> table \<Rightarrow> table" where
  "put_file i p A = A\<lparr>file_of := (file_of A)(i := (fst (file_of A i), snd (file_of A i) @ p))\<rparr>"

definition pad_file :: "nat \<Rightarrow> table \<Rightarrow> table" where
  "pad_file i A = put_file i (replicate (512 - length (snd (file_of A i)) mod 512) 0) A"

definition dots :: "nat \<Rightarrow> nat \<Rightarrow> u8 list" where
  "dots cur par = mk_dirent (of_nat cur) [46] @ mk_dirent (of_nat par) [46, 46]"

fun lay :: "(u8 list \<times> host) list \<Rightarrow> nat \<Rightarrow> table \<Rightarrow> table" where
  "lay [] cur A = A"
| "lay ((name, h) # es) cur A =
     (if name = [46] \<or> name = [46, 46] then lay es cur A
      else case h of
        HFile p \<Rightarrow> lay es cur (put_file cur (mk_dirent (of_nat (next_ino A)) name) (put_file (next_ino A) p (new_file T_FILE A)))
      | HDir ds \<Rightarrow> lay es cur (put_file cur (mk_dirent (of_nat (next_ino A)) name)
          (pad_file (next_ino A) (lay ds (next_ino A) (put_file (next_ino A) (dots (next_ino A) cur) (new_file T_DIR A))))))"

definition no_files :: table where
  "no_files = \<lparr>file_of = \<lambda>_. (0, []), next_ino = 1\<rparr>"

definition lay_tree :: "(u8 list \<times> host) list \<Rightarrow> table" where
  "lay_tree es = pad_file 1 (lay es 1 (put_file 1 (dots 1 1) (new_file T_DIR no_files)))"

definition lengths :: "table \<Rightarrow> nat \<Rightarrow> nat" where
  "lengths A i = length (snd (file_of A i))"

definition fit_in :: "table \<Rightarrow> bool" where
  "fit_in A = (next_ino A \<le> 208 \<and> room (lengths A))"

definition below :: "table \<Rightarrow> table \<Rightarrow> bool" where
  "below A B = (next_ino A \<le> next_ino B \<and> (\<forall>i. lengths A i \<le> lengths B i))"

definition fresh_empty :: "table \<Rightarrow> bool" where
  "fresh_empty A = (\<forall>i \<ge> next_ino A. lengths A i = 0)"

lemma below_refl: "below A A" and below_trans: "below A B \<Longrightarrow> below B C \<Longrightarrow> below A C"
  by (auto simp: below_def intro: order_trans)

lemma fit_in_below: "fit_in B \<Longrightarrow> below A B \<Longrightarrow> fit_in A"
  by (auto simp: fit_in_def below_def intro: room_mono)

lemma put_file_simps [simp]: "next_ino (put_file i p A) = next_ino A" "lengths (put_file i p A) = (lengths A)(i := lengths A i + length p)"
    "file_of (put_file i p A) = (file_of A)(i := (fst (file_of A i), snd (file_of A i) @ p))"
  by (auto simp: put_file_def lengths_def)

lemma new_file_simps [simp]: "next_ino (new_file t A) = Suc (next_ino A)" "lengths (new_file t A) = (lengths A)(next_ino A := 0)"
    "file_of (new_file t A) = (file_of A)(next_ino A := (t, []))"
  by (auto simp: new_file_def lengths_def)

lemma pad_file_simps [simp]: "next_ino (pad_file i A) = next_ino A"
  by (simp add: pad_file_def)

lemma put_file_twice: "put_file i q (put_file i p A) = put_file i (p @ q) A" and put_file_nil: "put_file i [] A = A"
  by (auto simp: put_file_def fun_upd_idem)

lemma below_put: "below A (put_file i p A)" and below_pad: "below A (pad_file i A)" and below_new: "fresh_empty A \<Longrightarrow> below A (new_file t A)"
  by (auto simp: below_def pad_file_def fresh_empty_def)

lemma fresh_put: "fresh_empty A \<Longrightarrow> i < next_ino A \<Longrightarrow> fresh_empty (put_file i p A)" "fresh_empty A \<Longrightarrow> i < next_ino A \<Longrightarrow> fresh_empty (pad_file i A)"
    "fresh_empty A \<Longrightarrow> fresh_empty (new_file t A)"
  by (auto simp: fresh_empty_def pad_file_def)

lemma lay_grows: "fresh_empty A \<Longrightarrow> cur < next_ino A \<Longrightarrow> below A (lay es cur A) \<and> fresh_empty (lay es cur A)"
proof (induction es cur A rule: lay.induct)
  case (2 name h es cur A)
  show ?case
  proof (cases "name = [46] \<or> name = [46, 46]")
    case False
    show ?thesis
    proof (cases h)
      case (HFile p)
      let ?B = "put_file cur (mk_dirent (of_nat (next_ino A)) name) (put_file (next_ino A) p (new_file T_FILE A))"
      have "below A ?B" using below_new [OF 2(5)] below_put below_trans by blast
      moreover have "fresh_empty ?B" using 2(5,6) by (intro fresh_put) simp_all
      ultimately show ?thesis using 2(2) [OF False HFile] 2(6) HFile False below_trans by auto
    next
      case (HDir ds)
      let ?n = "next_ino A" let ?B = "put_file ?n (dots ?n cur) (new_file T_DIR A)"
      let ?C = "put_file cur (mk_dirent (of_nat ?n) name) (pad_file ?n (lay ds ?n ?B))"
      have B: "below A ?B" "fresh_empty ?B" "?n < next_ino ?B" using 2(5)
        by (auto intro: below_trans [OF below_new [OF 2(5)] below_put] fresh_put)
      from 2(3) [OF False HDir B(2,3)] have L: "below ?B (lay ds ?n ?B)" "fresh_empty (lay ds ?n ?B)" by simp_all
      have n: "?n < next_ino (lay ds ?n ?B)" using L(1) B(3) by (simp add: below_def)
      have C: "below A ?C" by (rule below_trans [OF B(1) below_trans [OF L(1) below_trans [OF below_pad below_put]]])
      have "fresh_empty ?C" "cur < next_ino ?C" using n L(2) 2(6) by (auto intro!: fresh_put)
      from 2(4) [OF False HDir this] C show ?thesis using HDir False below_trans by auto
    qed
  qed (use 2 in auto)
qed (simp add: below_refl)


subsection \<open>The image holds the table\<close>

definition holds_table :: "mk \<Rightarrow> table \<Rightarrow> bool" where
  "holds_table s A = (image_ok s \<and> unat (freeinode s) = next_ino A \<and> (\<forall>j < 208. files_of s j = file_of A j) \<and> fresh_empty A)"

lemma holds_lengths: "holds_table s A \<Longrightarrow> j < 208 \<Longrightarrow> sizes s j = lengths A j"
  using length_content [of s j] unfolding holds_table_def lengths_def files_of_def by (metis snd_conv)

lemma small_ino: "i < 208 \<Longrightarrow> unat (of_nat i :: u32) = i"
  by (simp add: unat_of_nat_small)

lemma sim_put:
  assumes h: "holds_table s A" and i: "i < next_ino A" and f: "fit_in (put_file i p A)"
  shows "\<exists>s'. iappend (of_nat i) p s = Inr s' \<and> holds_table s' (put_file i p A)"
proof -
  have i': "i < 208" using i f by (simp add: fit_in_def)
  have "room ((sizes s)(i := sizes s i + length p))"
    using f holds_lengths [OF h] i' by (auto simp: fit_in_def intro: room_mono)
  with iappend_ok [of s "of_nat i" p] h i i' obtain s' where "iappend (of_nat i) p s = Inr s'" "image_ok s'" "freeinode s' = freeinode s"
    "\<forall>j < 208. files_of s' j = (if j = i then (fst (files_of s j), snd (files_of s j) @ p) else files_of s j)"
    by (auto simp: small_ino holds_table_def)
  then show ?thesis using h fresh_put(1) [OF _ i, of p] by (auto simp: holds_table_def)
qed

lemma sim_new:
  assumes h: "holds_table s A" and f: "next_ino A < 208"
  shows "\<exists>s'. mk_ialloc t s = Inr (of_nat (next_ino A), s') \<and> holds_table s' (new_file t A)"
proof -
  have n: "freeinode s = of_nat (next_ino A)" "unat (freeinode s) = next_ino A" using h by (auto simp: holds_table_def dest: sym)
  obtain s' where "mk_ialloc t s = Inr (freeinode s, s')" "image_ok s'" "unat (freeinode s') = unat (freeinode s) + 1"
    "\<forall>j < 208. files_of s' j = (if j = unat (freeinode s) then (t, []) else files_of s j)"
    using mk_ialloc_ok [of s t] h f n by (auto simp: holds_table_def)
  then show ?thesis using h n fresh_put(3) [of A t] by (auto simp: holds_table_def)
qed

lemma pad_end: "n + (512 - n mod 512) = (n div 512 + 1) * (512 :: nat)"
  using to_block_end [of n] by linarith

lemma sim_pad:
  assumes h: "holds_table s A" and i: "i < next_ino A" and f: "fit_in (pad_file i A)"
  shows "\<exists>s'. round_dir (of_nat i) s = Inr s' \<and> holds_table s' (pad_file i A)"
proof -
  have i': "i < 208" using i f by (simp add: fit_in_def)
  have sz: "sizes s i = lengths A i" using holds_lengths [OF h i'] .
  have "lengths (pad_file i A) i = (sizes s i div 512 + 1) * 512"
    unfolding sz pad_file_def put_file_simps fun_upd_same length_replicate lengths_def by (rule pad_end)
  then have le: "(sizes s (unat (of_nat i :: u32)) div 512 + 1) * 512 \<le> 140 * 512"
    using f room_file [OF _ i', of "lengths (pad_file i A)"] by (simp add: fit_in_def small_ino i')
  obtain s' where "round_dir (of_nat i) s = Inr s'" "image_ok s'" "freeinode s' = freeinode s"
    "\<forall>j < 208. files_of s' j = (if j = i then (fst (files_of s j), snd (files_of s j) @ replicate (512 - sizes s j mod 512) 0) else files_of s j)"
    using round_dir_ok [OF _ _ _ le] h i i' by (auto simp: small_ino holds_table_def)
  then show ?thesis using h fresh_put(2) [OF _ i] sz by (auto simp: holds_table_def pad_file_def) (simp add: lengths_def)
qed

lemma sim_copy:
  assumes "holds_table s A" "i < next_ino A" "fit_in (put_file i p A)"
  shows "\<exists>s'. copy_in (of_nat i) p s = Inr s' \<and> holds_table s' (put_file i p A)"
  using assms
proof (induction "length p" arbitrary: p s A rule: less_induct)
  case less
  show ?case
  proof (cases "p = []")
    case True
    then show ?thesis using less.prems by (simp add: copy_in.simps put_file_nil)
  next
    case False
    let ?B = "put_file i (take 512 p) A"
    have e: "put_file i (drop 512 p) ?B = put_file i p A" by (simp add: put_file_twice)
    have "fit_in ?B" using fit_in_below [OF less.prems(3)] below_put [of ?B i "drop 512 p"] by (simp add: e)
    then obtain s1 where s1: "iappend (of_nat i) (take 512 p) s = Inr s1" "holds_table s1 ?B"
      using sim_put [OF less.prems(1,2)] by blast
    have "\<exists>s'. copy_in (of_nat i) (drop 512 p) s1 = Inr s' \<and> holds_table s' (put_file i (drop 512 p) ?B)"
    proof (rule less.hyps [OF _ s1(2)])
      show "fit_in (put_file i (drop 512 p) ?B)" unfolding e by (rule less.prems(3))
    qed (use False less.prems(2) in simp_all)
    then show ?thesis using s1(1) False e by (subst copy_in.simps) auto
  qed
qed

lemma sim_dots:
  assumes h: "holds_table s A" and i: "i < next_ino A" and f: "fit_in (put_file i (dots i par) A)"
  shows "\<exists>s'. add_dots (of_nat i) (of_nat par) s = Inr s' \<and> holds_table s' (put_file i (dots i par) A)"
proof -
  let ?B = "put_file i (mk_dirent (of_nat i) [46]) A" let ?q = "mk_dirent (of_nat par) [46, 46]"
  have e: "put_file i ?q ?B = put_file i (dots i par) A" by (simp add: put_file_twice dots_def)
  have "fit_in ?B" using fit_in_below [OF f] below_put [of ?B i ?q] by (simp add: e)
  then obtain s1 where s1: "iappend (of_nat i) (mk_dirent (of_nat i) [46]) s = Inr s1" "holds_table s1 ?B"
    using sim_put [OF h i] by blast
  obtain s' where "iappend (of_nat i) ?q s1 = Inr s'" "holds_table s' (put_file i ?q ?B)"
    using sim_put [OF s1(2), of i ?q] i f e by auto
  then show ?thesis using s1 e by (auto simp: add_dots_def)
qed

lemma sim_entries:
  assumes "holds_table s A" "cur < next_ino A" "fit_in (lay es cur A)"
  shows "\<exists>s'. add_entries es (of_nat cur) s = Inr s' \<and> holds_table s' (lay es cur A)"
  using assms
proof (induction es cur A arbitrary: s rule: lay.induct)
  case (2 name h es cur A)
  have fe: "fresh_empty A" using 2(5) by (simp add: holds_table_def)
  show ?case
  proof (cases "name = [46] \<or> name = [46, 46]")
    case True
    then show ?thesis using 2 by auto
  next
    case False
    let ?n = "next_ino A" let ?d = "mk_dirent (of_nat ?n) name"
    show ?thesis
    proof (cases h)
      case (HFile p)
      let ?B = "put_file ?n p (new_file T_FILE A)" let ?C = "put_file cur ?d ?B"
      have C: "fresh_empty ?C" "cur < next_ino ?C" using fe 2(6) by (auto intro!: fresh_put)
      have fC: "fit_in ?C" using fit_in_below [OF 2(7)] lay_grows [OF C] False HFile by simp
      then have fB: "fit_in ?B" using fit_in_below below_put by blast
      obtain s1 where s1: "mk_ialloc T_FILE s = Inr (of_nat ?n, s1)" "holds_table s1 (new_file T_FILE A)"
        using sim_new [OF 2(5)] fC by (auto simp: fit_in_def)
      obtain s2 where s2: "copy_in (of_nat ?n) p s1 = Inr s2" "holds_table s2 ?B" using sim_copy [OF s1(2) _ fB] by auto
      obtain s3 where s3: "iappend (of_nat cur) ?d s2 = Inr s3" "holds_table s3 ?C" using sim_put [OF s2(2) _ fC] 2(6) by auto
      show ?thesis using 2(2) [OF False HFile s3(2) C(2)] 2(7) False HFile s1(1) s2(1) s3(1) by auto
    next
      case (HDir ds)
      let ?B = "put_file ?n (dots ?n cur) (new_file T_DIR A)"
      let ?L = "lay ds ?n ?B" let ?P = "pad_file ?n ?L" let ?C = "put_file cur ?d ?P"
      have B: "fresh_empty ?B" "?n < next_ino ?B" using fe by (auto intro: fresh_put)
      note L = lay_grows [OF B, of ds]
      have n: "?n < next_ino ?L" using L B(2) by (simp add: below_def)
      have C: "fresh_empty ?C" "cur < next_ino ?C" using n L 2(6) by (auto intro!: fresh_put)
      have fC: "fit_in ?C" using fit_in_below [OF 2(7)] lay_grows [OF C] False HDir by simp
      then have fP: "fit_in ?P" using fit_in_below below_put by blast
      then have fL: "fit_in ?L" using fit_in_below below_pad by blast
      then have fB: "fit_in ?B" using fit_in_below L by blast
      obtain s1 where s1: "mk_ialloc T_DIR s = Inr (of_nat ?n, s1)" "holds_table s1 (new_file T_DIR A)"
        using sim_new [OF 2(5)] fB by (auto simp: fit_in_def)
      obtain s2 where s2: "add_dots (of_nat ?n) (of_nat cur) s1 = Inr s2" "holds_table s2 ?B" using sim_dots [OF s1(2) _ fB] by auto
      obtain s3 where s3: "add_entries ds (of_nat ?n) s2 = Inr s3" "holds_table s3 ?L" using 2(3) [OF False HDir s2(2) B(2) fL] by blast
      obtain s4 where s4: "round_dir (of_nat ?n) s3 = Inr s4" "holds_table s4 ?P" using sim_pad [OF s3(2) n fP] by blast
      obtain s5 where s5: "iappend (of_nat cur) ?d s4 = Inr s5" "holds_table s5 ?C" using sim_put [OF s4(2) _ fC] n 2(6) C(2) by auto
      show ?thesis using 2(4) [OF False HDir s5(2) C(2)] 2(7) False HDir s1(1) s2(1) s3(1) s4(1) s5(1) by auto
    qed
  qed
qed simp


lemma lengths_pad [simp]: "lengths (pad_file i A) = (lengths A)(i := (lengths A i div 512 + 1) * 512)"
  using pad_end [of "lengths A i"] unfolding pad_file_def put_file_simps length_replicate lengths_def by simp

lemma length_mk_dirent [simp]: "length (mk_dirent i name) = 16"
  by (simp add: mk_dirent_def enc_dirent_def DIRSIZ_def)

subsection \<open>The empty image\<close>

lemma zero_sectors: "n \<le> 1024 \<Longrightarrow> img s = [] \<Longrightarrow> fold (\<lambda>i. wsect (of_nat i) zeroes) [0..<n] s = s\<lparr>img := replicate n zeroes\<rparr>"
proof (induction n)
  case (Suc n)
  have "unat (of_nat n :: u32) = n" using Suc.prems by (simp add: unat_of_nat_small)
  then show ?case using Suc by (simp add: wsect_def list_update_append replicate_append_same)
qed simp

lemma zero_inode: "get_dinode i zeroes = \<lparr>itype = 0, imajor = 0, iminor = 0, inlink = 0, isize = 0, addrs = replicate (NDIRECT + 1) 0\<rparr>"
proof -
  have "unat (i mod IPB) < 8" by (rule slot_bound)
  then have "bytes_at (64 * unat (i mod IPB)) 64 zeroes = replicate 64 0" by (simp add: bytes_at_def zeroes_def)
  then have "get_dinode i zeroes = dec_dinode (replicate 64 0)" by (simp only: get_dinode_def)
  moreover have "dec_dinode (replicate 64 0) = \<lparr>itype = 0, imajor = 0, iminor = 0, inlink = 0, isize = 0, addrs = replicate (NDIRECT + 1) 0\<rparr>"
    by code_simp
  ultimately show ?thesis by simp
qed

lemma lengths_no_files [simp]: "lengths no_files = (\<lambda>_. 0)"
  by (rule ext) (simp add: lengths_def no_files_def)

lemma mkfs_ok: "\<exists>s. mkfs 995 1024 = Inr s \<and> holds_table s no_files"
proof -
  define b where "b = put_bytes 0 (enc_superblock \<lparr>sb_size = 1024, sb_nblocks = 995, sb_ninodes = ninodes\<rparr>) zeroes"
  define s where "s = \<lparr>img = (replicate 1024 zeroes)[1 := b], freeblock = 29, usedblocks = 29, freeinode = 1\<rparr>"
  have u: "ninodes div IPB + 3 + (1024 div (512 * 8) + 1) = 29" by (simp add: ninodes_def IPB_def)
  have m: "mkfs 995 1024 = Inr s"
    unfolding mkfs_def u Let_def by (simp add: zero_sectors wsect_img s_def b_def)
  have im: "length (img s) = 1024" "img s ! 1 = b" "\<And>c. c < 1024 \<Longrightarrow> c \<noteq> 1 \<Longrightarrow> img s ! c = zeroes" by (simp_all add: s_def)
  have fr: "unat (freeblock s) = 29" "usedblocks s = freeblock s" "unat (freeinode s) = 1" by (simp_all add: s_def)
  have I: "inodes s i = \<lparr>itype = 0, imajor = 0, iminor = 0, inlink = 0, isize = 0, addrs = replicate (NDIRECT + 1) 0\<rparr>" for i
    using im(3) [of "i div 8 + 2"] by (simp add: inodes_def zero_inode)
  have "replicate (Suc NDIRECT) (0 :: u32) ! l = 0" if "l \<le> NDIRECT" for l by (rule nth_replicate) (use that in simp)
  then have sl: "place (inodes s) (img s) i k = 0" for i k by (simp add: place_def I del: replicate_Suc)
  have "is_block zeroes" "is_block b" by (simp_all add: is_block_def BSIZE_def zeroes_def b_def enc_superblock_def)
  then have blk: "\<forall>c \<in> set (img s). is_block c" using set_update_subset_insert [of "replicate 1024 zeroes" 1 b] by (auto simp: s_def)
  have z: "img s ! 0 = zeroes" "\<forall>c < 1024. 29 \<le> c \<longrightarrow> img s ! c = zeroes" using im(3) by auto
  have used: "used_slots (inodes s) (img s) = {}" by (simp add: used_slots_def sl)
  have snd: "sound (inodes s) s" unfolding sound_def used using im(1) blk fr z length_inodes [of s] by (simp add: sl)
  have fb: "byte_of (inodes s) (img s) i m = 0" if "m < 140 * 512" for i m
    by (simp add: byte_of_def sl z(1)) (simp add: zeroes_def)
  have sz: "sizes s i = 0" for i by (simp add: sizes_def I)
  have "image_ok s" unfolding image_ok_def within_def used using snd fb by (simp add: sz)
  moreover have "files_of s i = (0, [])" for i by (simp add: files_of_def content_def sz I)
  ultimately show ?thesis using m fr by (auto simp: holds_table_def no_files_def fresh_empty_def lengths_def)
qed

subsection \<open>The bitmap\<close>

lemma marked_below:
  assumes "n \<le> 4096" and "b < 4096"
  shows "is_block (fold set_bit_at [0..<n] zeroes) \<and> (bit_set b (fold set_bit_at [0..<n] zeroes) \<longleftrightarrow> b < n)"
  using assms(1)
proof (induction n)
  case 0
  have "b div 8 < 512" using assms(2) by simp
  then show ?case by (simp add: bit_set_iff is_block_def BSIZE_def zeroes_def)
next
  case (Suc n)
  have n: "n div 8 < BSIZE" "b div 8 < BSIZE" using Suc.prems assms(2) by (simp_all add: BSIZE_def)
  then show ?case using Suc assms(2) bit_set_set_bit [of "fold set_bit_at [0..<n] zeroes" n b] by auto
qed

text \<open>The blocks behind the bitmap that are in use are those up to \<open>freeblock\<close>, without a gap.\<close>

lemma used_blocks:
  assumes ok: "sound D s"
  shows "(\<exists>i < 208. \<exists>k < 141. place D (img s) i k = b \<and> b \<noteq> 0) \<longleftrightarrow> 29 \<le> b \<and> b < unat (freeblock s)"
proof -
  let ?f = "\<lambda>(i, k). place D (img s) i k"
  have "inj_on ?f (used_slots D (img s))"
    by (rule inj_onI) (use soundD(10) [OF ok] in \<open>auto simp: used_slots_def\<close>)
  then have "card (?f ` used_slots D (img s)) = card {29..<unat (freeblock s)}"
    using soundD(11) [OF ok] by (simp add: card_image)
  moreover have "?f ` used_slots D (img s) \<subseteq> {29..<unat (freeblock s)}" using soundD(9) [OF ok] by (force simp: used_slots_def)
  ultimately have "?f ` used_slots D (img s) = {29..<unat (freeblock s)}" by (intro card_subset_eq) simp_all
  then have "b \<in> ?f ` used_slots D (img s) \<longleftrightarrow> b \<in> {29..<unat (freeblock s)}" by simp
  then show ?thesis by (auto simp: used_slots_def)
qed

lemma mk_balloc_ok:
  assumes ok: "image_ok s"
  obtains s' where "mk_balloc (unat (usedblocks s)) s = Inr s'" "image_ok s'" "files_of s' = files_of s" "freeblock s' = freeblock s" "freeinode s' = freeinode s"
    "img s' ! 28 = fold set_bit_at [0..<unat (freeblock s)] zeroes"
proof -
  note d = image_okD [OF ok]
  let ?b = "fold set_bit_at [0..<unat (freeblock s)] zeroes"
  define s' where "s' = s\<lparr>img := (img s)[28 := ?b]\<rparr>"
  have u: "usedblocks s = freeblock s" "unat (freeblock s) \<le> 1024" "length (img s) = 1024" using soundD(1,4,5) [OF d(1)] by simp_all
  have c: "1 \<le> (28 :: nat)" "(28 :: nat) < 29" by simp_all
  have "is_block ?b" using marked_below [of "unat (freeblock s)" 0] u(2) by simp
  note fr = front [OF d(1) c this s'_def]
  have I: "inodes s' = inodes s" by (rule ext) (auto simp: inodes_def s'_def)
  have m: "mk_balloc (unat (usedblocks s)) s = Inr s'"
    using u by (simp add: mk_balloc_def s'_def wsect_img ninodes_def IPB_def)
  have S: "sizes s' = sizes s" by (rule ext) (simp add: sizes_def I)
  have "image_ok s'" unfolding image_ok_def I S using fr d by (simp add: s'_def) 
  moreover have "content s' i = content s i" for i
  proof (cases "i < 208")
    case True
    then show ?thesis using d(3) [OF True] fr(3) [OF True] by (simp add: content_def I S)
  next
    case False
    then show ?thesis by (simp add: content_def I S) (simp add: sizes_def inodes_def)
  qed
  then have "files_of s' = files_of s" by (intro ext) (simp add: files_of_def I)
  ultimately show ?thesis using m u(3) by (intro that [of s']) (simp_all add: s'_def)
qed

subsection \<open>Reading the tree back\<close>

definition dot_name :: "u8 list \<Rightarrow> bool" where
  "dot_name name = (name = [46] \<or> name = [46, 46])"

inductive reads :: "(nat \<Rightarrow> u16 \<times> u8 list) \<Rightarrow> nat set \<Rightarrow> nat \<Rightarrow> nat \<Rightarrow> host \<Rightarrow> bool" for F S where
  read_file: "i \<in> S \<Longrightarrow> F i = (T_FILE, p) \<Longrightarrow> reads F S par i (HFile p)"
| read_dir: "i \<in> S \<Longrightarrow> es' = filter (\<lambda>e. \<not> dot_name (fst e)) es \<Longrightarrow> list_all2 (\<lambda>n e. reads F S i n (snd e)) ns es'
    \<Longrightarrow> F i = (T_DIR, dots i par @ concat (map2 (\<lambda>n e. mk_dirent (of_nat n) (fst e)) ns es') @ replicate k 0)
    \<Longrightarrow> reads F S par i (HDir es)"

lemma reads_frame: "reads F S par i h \<Longrightarrow> S \<subseteq> T \<Longrightarrow> (\<And>j. j \<in> S \<Longrightarrow> G j = F j) \<Longrightarrow> reads G T par i h"
proof (induction rule: reads.induct)
  case (read_file i p par)
  then show ?case by (intro reads.read_file) auto
next
  case (read_dir i es' es ns par k)
  have "list_all2 (\<lambda>n e. reads G T i n (snd e)) ns es'"
    using read_dir.IH by (rule list_all2_mono) (use read_dir.prems in blast)
  then show ?case using read_dir by (intro reads.read_dir) auto
qed

lemma lay_reads:
  assumes "cur < next_ino A"
  shows "\<exists>ns. file_of (lay es cur A) cur = (fst (file_of A cur), snd (file_of A cur)
      @ concat (map2 (\<lambda>n e. mk_dirent (of_nat n) (fst e)) ns (filter (\<lambda>e. \<not> dot_name (fst e)) es)))
    \<and> list_all2 (\<lambda>n e. reads (file_of (lay es cur A)) {next_ino A..<next_ino (lay es cur A)} cur n (snd e)) ns (filter (\<lambda>e. \<not> dot_name (fst e)) es)
    \<and> (\<forall>i < next_ino A. i \<noteq> cur \<longrightarrow> file_of (lay es cur A) i = file_of A i) \<and> next_ino A \<le> next_ino (lay es cur A)"
  using assms
proof (induction es cur A rule: lay.induct)
  case (1 cur A)
  then show ?case by (intro exI [of _ "[]"]) simp
next
  case (2 name h es cur A)
  show ?case
  proof (cases "name = [46] \<or> name = [46, 46]")
    case True
    then have "dot_name name" by (simp add: dot_name_def)
    then show ?thesis using 2(1) [OF True 2(5)] True by simp
  next
    case False
    let ?n = "next_ino A" let ?d = "mk_dirent (of_nat ?n) name"
    have nd: "\<not> dot_name name" using False by (simp add: dot_name_def)
    have step: ?thesis if C: "cur < next_ino C" "?n < next_ino C" "lay ((name, h) # es) cur A = lay es cur C"
        "file_of C cur = (fst (file_of A cur), snd (file_of A cur) @ ?d)" "\<forall>i < ?n. i \<noteq> cur \<longrightarrow> file_of C i = file_of A i"
        "reads (file_of C) {?n..<next_ino C} cur ?n h" 
      and IH: "\<exists>ns. file_of (lay es cur C) cur = (fst (file_of C cur), snd (file_of C cur)
          @ concat (map2 (\<lambda>n e. mk_dirent (of_nat n) (fst e)) ns (filter (\<lambda>e. \<not> dot_name (fst e)) es)))
        \<and> list_all2 (\<lambda>n e. reads (file_of (lay es cur C)) {next_ino C..<next_ino (lay es cur C)} cur n (snd e)) ns (filter (\<lambda>e. \<not> dot_name (fst e)) es)
        \<and> (\<forall>i < next_ino C. i \<noteq> cur \<longrightarrow> file_of (lay es cur C) i = file_of C i) \<and> next_ino C \<le> next_ino (lay es cur C)" for C
    proof -
      let ?B = "lay es cur C"
      obtain ns where f: "file_of ?B cur = (fst (file_of C cur), snd (file_of C cur)
          @ concat (map2 (\<lambda>n e. mk_dirent (of_nat n) (fst e)) ns (filter (\<lambda>e. \<not> dot_name (fst e)) es)))"
        and r: "list_all2 (\<lambda>n e. reads (file_of ?B) {next_ino C..<next_ino ?B} cur n (snd e)) ns (filter (\<lambda>e. \<not> dot_name (fst e)) es)"
        and k: "\<forall>i < next_ino C. i \<noteq> cur \<longrightarrow> file_of ?B i = file_of C i" "next_ino C \<le> next_ino ?B" using IH by blast
      have "reads (file_of ?B) {?n..<next_ino ?B} cur ?n h" by (rule reads_frame [OF C(6)]) (use k 2(5) in auto)
      moreover have "list_all2 (\<lambda>n e. reads (file_of ?B) {?n..<next_ino ?B} cur n (snd e)) ns (filter (\<lambda>e. \<not> dot_name (fst e)) es)"
        using r by (rule list_all2_mono) (use C(2) in \<open>auto elim: reads_frame\<close>)
      ultimately show ?thesis using f k C nd by (intro exI [of _ "?n # ns"]) auto
    qed
    show ?thesis
    proof (cases h)
      case (HFile p)
      let ?C = "put_file cur ?d (put_file ?n p (new_file T_FILE A))"
      have "reads (file_of ?C) {?n..<next_ino ?C} cur ?n h" using 2(5) HFile by (auto intro: reads.read_file)
      then show ?thesis using 2(5) False HFile by (intro step [of ?C] 2(2) [OF False HFile]) auto
    next
      case (HDir ds)
      let ?A = "put_file ?n (dots ?n cur) (new_file T_DIR A)"
      let ?L = "lay ds ?n ?A" let ?P = "pad_file ?n ?L" let ?C = "put_file cur ?d ?P"
      let ?ds = "filter (\<lambda>e. \<not> dot_name (fst e)) ds"
      have "?n < next_ino ?A" by simp
      from 2(3) [OF False HDir this] obtain ns where
        f: "file_of ?L ?n = (T_DIR, dots ?n cur @ concat (map2 (\<lambda>n e. mk_dirent (of_nat n) (fst e)) ns ?ds))"
        and r: "list_all2 (\<lambda>n e. reads (file_of ?L) {Suc ?n..<next_ino ?L} ?n n (snd e)) ns ?ds"
        and k: "\<forall>i < Suc ?n. i \<noteq> ?n \<longrightarrow> file_of ?L i = file_of ?A i" "Suc ?n \<le> next_ino ?L" by auto
      have same: "file_of ?C i = file_of ?L i" if "Suc ?n \<le> i" for i using that 2(5) by (simp add: pad_file_def)
      have "list_all2 (\<lambda>n e. reads (file_of ?C) {?n..<next_ino ?C} ?n n (snd e)) ns ?ds"
        using r by (rule list_all2_mono) (auto elim!: reads_frame simp: same simp del: put_file_simps(3))
      moreover obtain z where "file_of ?C ?n = (T_DIR, dots ?n cur @ concat (map2 (\<lambda>n e. mk_dirent (of_nat n) (fst e)) ns ?ds) @ replicate z 0)"
        using f 2(5) by (auto simp: pad_file_def)
      ultimately have R: "reads (file_of ?C) {?n..<next_ino ?C} cur ?n h"
        unfolding HDir using k(2) by (intro reads.read_dir [OF _ refl]) simp_all
      have o: "file_of ?L i = file_of A i" if "i < ?n" for i using k(1) that by simp
      show ?thesis
        by (rule step [of ?C, OF _ _ _ _ _ R 2(4) [OF False HDir]]) (use 2(5) False HDir k o in \<open>auto simp: pad_file_def\<close>)
    qed
  qed
qed


subsection \<open>The whole program\<close>

lemma mkfs_main_ok:
  assumes f: "fit_in (lay_tree es)"
  obtains s s' where "mkfs_main (Some es) = Inr s'" "holds_table s (lay_tree es)" "image_ok s'" "files_of s' = files_of s" "freeblock s' = freeblock s"
    "img s' ! 28 = fold set_bit_at [0..<unat (freeblock s)] zeroes"
proof -
  let ?A = "put_file 1 (dots 1 1) (new_file T_DIR no_files)" let ?L = "lay es 1 ?A"
  have A: "fresh_empty ?A" "1 < next_ino ?A" by (auto intro!: fresh_put simp: no_files_def fresh_empty_def lengths_def)
  note g = lay_grows [OF A, of es]
  have n: "1 < next_ino ?L" using g A(2) by (simp add: below_def)
  have t: "lay_tree es = pad_file 1 ?L" by (simp add: lay_tree_def)
  then have fL: "fit_in ?L" using fit_in_below [OF f] below_pad by metis
  then have fA: "fit_in ?A" using fit_in_below g by blast
  obtain s0 where s0: "mkfs 995 1024 = Inr s0" "holds_table s0 no_files" using mkfs_ok by blast
  obtain s1 where s1: "mk_ialloc T_DIR s0 = Inr (1, s1)" "holds_table s1 (new_file T_DIR no_files)"
    using sim_new [OF s0(2), of T_DIR] by (auto simp: no_files_def)
  obtain s2 where s2: "add_dots 1 1 s1 = Inr s2" "holds_table s2 ?A"
    using sim_dots [OF s1(2) _ fA] by (auto simp: no_files_def)
  obtain s3 where s3: "add_entries es 1 s2 = Inr s3" "holds_table s3 ?L" using sim_entries [OF s2(2) A(2) fL] by auto
  obtain s4 where s4: "round_dir 1 s3 = Inr s4" "holds_table s4 (lay_tree es)" using sim_pad [OF s3(2) n] f t by auto
  have "image_ok s4" using s4(2) by (simp add: holds_table_def)
  then obtain s5 where s5: "mk_balloc (unat (usedblocks s4)) s4 = Inr s5" "image_ok s5" "files_of s5 = files_of s4" "freeblock s5 = freeblock s4"
    "img s5 ! 28 = fold set_bit_at [0..<unat (freeblock s4)] zeroes" by (rule mk_balloc_ok)
  have "mkfs_main (Some es) = Inr s5"
    using s0(1) s1(1) s2(1) s3(1) s4(1) s5(1) by (simp add: mkfs_main_def add_dir_def ROOTINO_def)
  then show thesis using that s4(2) s5 by blast
qed

lemma table_reads:
  assumes "fit_in (lay_tree es)" and h: "holds_table s (lay_tree es)"
  shows "reads (files_of s) {1..<208} 1 1 (HDir es)"
proof -
  let ?A = "put_file 1 (dots 1 1) (new_file T_DIR no_files)" let ?L = "lay es 1 ?A"
  let ?es = "filter (\<lambda>e. \<not> dot_name (fst e)) es" let ?c = "\<lambda>ns. concat (map2 (\<lambda>n e. mk_dirent (of_nat n) (fst e)) ns ?es)"
  have A: "1 < next_ino ?A" by (simp add: no_files_def)
  obtain ns where L: "file_of ?L 1 = (T_DIR, dots 1 1 @ ?c ns)" and r: "list_all2 (\<lambda>n e. reads (file_of ?L) {2..<next_ino ?L} 1 n (snd e)) ns ?es"
    using lay_reads [OF A, of es] by (auto simp: no_files_def numeral_2_eq_2)
  have n: "next_ino ?L \<le> 208" using assms(1) by (simp add: lay_tree_def fit_in_def)
  have "file_of ?L j = files_of s j" if "j \<in> {2..<next_ino ?L}" for j
    using that n h by (simp add: holds_table_def lay_tree_def pad_file_def)
  then have "list_all2 (\<lambda>n e. reads (files_of s) {1..<208} 1 n (snd e)) ns ?es"
    using r by (elim list_all2_mono reads_frame) (use n in auto)
  moreover have "files_of s 1 = (T_DIR, dots 1 1 @ ?c ns @ replicate (512 - length (snd (file_of ?L 1)) mod 512) 0)"
    using h L by (simp add: holds_table_def lay_tree_def pad_file_def)
  ultimately show ?thesis by (auto intro!: reads.read_dir [OF _ refl])
qed

lemma room_few:
  assumes "n \<le> 208" and "(\<Sum>i\<leftarrow>[0..<n]. need (Z i)) \<le> 995" and "list_all (\<lambda>i. Z i \<le> 140 * 512) [0..<n]" and "\<And>i. n \<le> i \<Longrightarrow> Z i = 0"
  shows "room Z"
proof -
  have "(\<Sum>i\<leftarrow>[n..<208]. need (Z i)) = (\<Sum>i\<leftarrow>[n..<208]. 0)" using assms(4) by (intro arg_cong [where f = sum_list] map_cong) (simp_all add: need_def)
  then have "(\<Sum>i\<leftarrow>[n..<208]. need (Z i)) = 0" by (simp only: sum_list_0)
  then have "(\<Sum>i\<leftarrow>[0..<208]. need (Z i)) \<le> 995" 
    using assms(1,2) upt_add_eq_append [of 0 n "208 - n"] by (simp del: sum_list_eq_0_iff)
  moreover have "Z i \<le> 140 * 512" for i using assms(3) assms(4) [of i] by (cases "i < n") (auto simp: list_all_iff)
  ultimately show ?thesis by (simp add: room_def list_all_iff)
qed

text \<open>The data blocks that the bitmap of the image marks are those whose numbers the inodes hold.\<close>

definition bitmap_exact :: "mk \<Rightarrow> bool" where
  "bitmap_exact s = (\<forall>b \<in> {29..<1024}. bit_set b (img s ! 28) = (\<exists>i < 208. \<exists>k < 141. place (inodes s) (img s) i k = b))"

text \<open>C19: The program that makes a file system image succeeds when the files fit. Reading the image back from the root
  directory gives the directory tree of the host, every file with its bytes and every directory with its entries, and the bitmap marks
  exactly the data blocks whose numbers the inodes and their indirect blocks hold.\<close>

theorem mkfs_stores_tree:
  assumes "fit_in (lay_tree es)"
  shows "\<exists>s. mkfs_main (Some es) = Inr s \<and> reads (files_of s) {1..<208} 1 1 (HDir es) \<and> bitmap_exact s"
proof -
  obtain s s' :: mk where m: "mkfs_main (Some es) = Inr s'" "holds_table s (lay_tree es)" "image_ok s'" "files_of s' = files_of s" "freeblock s' = freeblock s"
    and b: "img s' ! 28 = fold set_bit_at [0..<unat (freeblock s)] zeroes"
    using mkfs_main_ok [OF assms(1)] by metis
  note d = image_okD(1) [OF m(3)]
  have "bit_set b (img s' ! 28) = (b < unat (freeblock s'))" if "b < 1024" for b
    using marked_below [of "unat (freeblock s)" b] soundD(4) [OF d] m(5) that b by simp
  note bit = this
  have "bitmap_exact s'" unfolding bitmap_exact_def
  proof
    fix b :: nat assume "b \<in> {29..<1024}"
    then show "bit_set b (img s' ! 28) = (\<exists>i < 208. \<exists>k < 141. place (inodes s') (img s') i k = b)"
      using bit [of b] used_blocks [OF d, of b] by simp
  qed
  then show ?thesis using m(1,4) table_reads [OF assms m(2)] by auto
qed

lemma mkfs_stores_tree_witness:
  "\<exists>s. mkfs_main (Some [([104, 105], HFile [1, 2, 3]), ([46, 46], HFile []), ([100], HDir [([120], HFile [7])])]) = Inr s
     \<and> reads (files_of s) {1..<208} 1 1 (HDir [([104, 105], HFile [1, 2, 3]), ([46, 46], HFile []), ([100], HDir [([120], HFile [7])])]) \<and> bitmap_exact s"
proof -
  have "fit_in (lay_tree [([104, 105], HFile [1, 2, 3]), ([46, 46], HFile []), ([100], HDir [([120], HFile [7])])])"
    unfolding fit_in_def by (simp add: lay_tree_def dots_def) (auto intro!: room_few [of 5] simp: no_files_def upt_rec need_def NDIRECT_def)
  then show ?thesis by (rule mkfs_stores_tree)
qed

end
